(* ===== verification/Prelude.thy ===== *)
theory Prelude
  imports Main "HOL-Library.Word"
begin

text \<open>
  Vocabulary shared by every component of the OneOS kernel model: results that may be a
  kernel fault, families of intrusive task lists, the ordered insertion that the kernel's
  queues use, and the facts on flag words that the component proofs rewrite with.
\<close>

unbundle bit_operations_syntax

named_theorems flag_simps \<open>single-bit flags of the task state word\<close>
named_theorems klist_simps \<open>families of task lists\<close>
named_theorems res_simps \<open>sequencing of fallible kernel code\<close>

subsection \<open>Machine types\<close>

type_synonym u8 = "8 word"
type_synonym u16 = "16 word"
type_synonym u32 = "32 word"

subsection \<open>Results of kernel code\<close>

text \<open>
  Kernel code never raises: it stops in \<^verbatim>\<open>OS_ASSERT\<close> (an endless loop in
  \<^verbatim>\<open>os_assert.h\<close>), it dereferences \<^verbatim>\<open>OS_NULL\<close>, it indexes an array out of
  range, it reads a local variable that has no value, or it returns. All but the last are faults of the
  model.
\<close>

datatype fault = AssertFail | NullDeref | OutOfRange | Uninit

datatype 'a res = OK 'a | Fault fault

primrec bind_res :: "'a res \<Rightarrow> ('a \<Rightarrow> 'b res) \<Rightarrow> 'b res" where
  "bind_res (OK x) f = f x"
| "bind_res (Fault e) f = Fault e"

definition os_assert :: "bool \<Rightarrow> 'b res \<Rightarrow> 'b res" where
  "os_assert c m = (if c then m else Fault AssertFail)"

primrec is_ok :: "'a res \<Rightarrow> bool" where
  "is_ok (OK x) = True"
| "is_ok (Fault e) = False"

lemma bind_res_eq_OK [res_simps]:
  "bind_res m f = OK y \<longleftrightarrow> (\<exists>x. m = OK x \<and> f x = OK y)"
  by (cases m) auto

lemma os_assert_eq_OK [res_simps]: "os_assert c m = OK y \<longleftrightarrow> c \<and> m = OK y"
  by (simp add: os_assert_def)

lemma os_assert_True [simp]: "os_assert True m = m"
  by (simp add: os_assert_def)

lemma os_assert_False [simp]: "os_assert False m = Fault AssertFail"
  by (simp add: os_assert_def)

lemma is_ok_iff: "is_ok m \<longleftrightarrow> (\<exists>x. m = OK x)"
  by (cases m) auto

lemma bind_res_assoc: "bind_res (bind_res m f) g = bind_res m (\<lambda>x. bind_res (f x) g)"
  by (cases m) auto

lemma bind_res_cong: "m = m' \<Longrightarrow> (\<And>x. m' = OK x \<Longrightarrow> f x = g x) \<Longrightarrow> bind_res m f = bind_res m' g"
  by (cases m') auto

subsection \<open>Insertion in front of the first larger element\<close>

text \<open>
  \<^verbatim>\<open>os_list_add_tail(&iter->node, &new->node)\<close> with an element instead of the head links
  the new node in front of that element. The block queue, the tick queue and the sorted
  timer list share the loop that looks for the first element satisfying a test and falls
  back to the tail of the list.
\<close>

fun insert_before :: "('a \<Rightarrow> bool) \<Rightarrow> 'a \<Rightarrow> 'a list \<Rightarrow> 'a list" where
  "insert_before P x [] = [x]"
| "insert_before P x (y # ys) = (if P y then x # y # ys else y # insert_before P x ys)"

lemma set_insert_before [simp]: "set (insert_before P x ys) = insert x (set ys)"
  by (induction ys) auto

lemma length_insert_before [simp]: "length (insert_before P x ys) = Suc (length ys)"
  by (induction ys) auto

lemma distinct_insert_before [simp]:
  "distinct (insert_before P x ys) \<longleftrightarrow> distinct ys \<and> x \<notin> set ys"
  by (induction ys) auto

lemma insert_before_not_Nil [simp]: "insert_before P x ys \<noteq> []"
  by (cases ys) auto

lemma insert_before_split:
  "insert_before P x ys = takeWhile (\<lambda>y. \<not> P y) ys @ x # dropWhile (\<lambda>y. \<not> P y) ys"
  by (induction ys) auto

lemma insert_before_cong:
  "(\<And>y. y \<in> set ys \<Longrightarrow> P y = Q y) \<Longrightarrow> insert_before P x ys = insert_before Q x ys"
  by (induction ys) auto

lemma removeAll_insert_before [simp]:
  "x \<notin> set ys \<Longrightarrow> removeAll x (insert_before P x ys) = ys"
  by (induction ys) auto

text \<open>Inserting by a total preorder keeps a sorted list sorted, after the equal keys.\<close>

lemma sorted_insert_before:
  fixes key :: "'a \<Rightarrow> 'k :: linorder"
  assumes "sorted_wrt (\<lambda>a b. key a \<le> key b) ys"
  shows "sorted_wrt (\<lambda>a b. key a \<le> key b) (insert_before (\<lambda>y. key x < key y) x ys)"
  using assms
proof (induction ys)
  case Nil
  then show ?case by simp
next
  case (Cons y ys)
  then show ?case by (auto simp: not_less)
qed

lemma sorted_wrt_removeAll: "sorted_wrt R xs \<Longrightarrow> sorted_wrt R (removeAll x xs)"
  by (simp add: removeAll_filter_not_eq sorted_wrt_filter)

lemma removeAll_notin [simp]: "x \<notin> set ys \<Longrightarrow> removeAll x ys = ys"
  by (rule removeAll_id)

lemma hd_notin_tl: "distinct xs \<Longrightarrow> xs \<noteq> [] \<Longrightarrow> removeAll (hd xs) xs = tl xs"
  by (cases xs) auto

lemma find_upt_Some_iff:
  "find P [0..<n] = Some i \<longleftrightarrow> i < n \<and> P i \<and> (\<forall>j < i. \<not> P j)"
  by (auto simp: find_Some_iff)

lemma find_upt_None_iff: "find P [0..<n] = None \<longleftrightarrow> (\<forall>i < n. \<not> P i)"
  by (auto simp: find_None_iff)

lemma hd_removeAll: "xs \<noteq> [] \<Longrightarrow> hd xs \<noteq> x \<Longrightarrow> removeAll x xs \<noteq> [] \<and> hd (removeAll x xs) = hd xs"
  by (cases xs) auto

subsection \<open>Families of task lists\<close>

text \<open>
  The node \<^verbatim>\<open>task_node\<close> of a task is in at most one list, headed either by an entry of
  \<^verbatim>\<open>priority_list_array\<close> (\<open>RQ\<close>, indexed by the priority) or by the wait list of a
  kernel object (\<open>WQ\<close>, named by its address). The heap of \<^verbatim>\<open>next\<close>/\<^verbatim>\<open>prev\<close> links is
  represented by the family of lists it spells out, and \<^verbatim>\<open>os_list_del\<close> unlinks the node
  from whichever list it is in. Theory \<open>Os_List\<close> proves that the pointer operations of
  \<^verbatim>\<open>os_list.h\<close> implement exactly these.
\<close>

type_synonym tid = nat

datatype list_head = RQ nat | WQ nat

type_synonym klists = "list_head \<Rightarrow> tid list"

definition list_add_tail :: "('h \<Rightarrow> 'n list) \<Rightarrow> 'h \<Rightarrow> 'n \<Rightarrow> ('h \<Rightarrow> 'n list)" where
  "list_add_tail L h t = L(h := L h @ [t])"

definition list_del :: "('h \<Rightarrow> 'n list) \<Rightarrow> 'n \<Rightarrow> ('h \<Rightarrow> 'n list)" where
  "list_del L t = (\<lambda>h. removeAll t (L h))"

definition list_add_before :: "('h \<Rightarrow> 'n list) \<Rightarrow> 'h \<Rightarrow> ('n \<Rightarrow> bool) \<Rightarrow> 'n \<Rightarrow> ('h \<Rightarrow> 'n list)" where
  "list_add_before L h P t = L(h := insert_before P t (L h))"

text \<open>Every node is in at most one list of the family, at most once.\<close>

definition lists_wf :: "('h \<Rightarrow> 'n list) \<Rightarrow> bool" where
  "lists_wf L \<longleftrightarrow> (\<forall>h. distinct (L h)) \<and> (\<forall>h h'. h \<noteq> h' \<longrightarrow> set (L h) \<inter> set (L h') = {})"

definition unlinked :: "('h \<Rightarrow> 'n list) \<Rightarrow> 'n \<Rightarrow> bool" where
  "unlinked L t \<longleftrightarrow> (\<forall>h. t \<notin> set (L h))"

lemma list_add_tail_apply [klist_simps]:
  "list_add_tail L h t h' = (if h' = h then L h @ [t] else L h')"
  by (simp add: list_add_tail_def)

lemma list_del_apply [klist_simps]: "list_del L t h = removeAll t (L h)"
  by (simp add: list_del_def)

lemma list_add_before_apply [klist_simps]:
  "list_add_before L h P t h' = (if h' = h then insert_before P t (L h) else L h')"
  by (simp add: list_add_before_def)

lemma lists_wf_empty [simp]: "lists_wf (\<lambda>h. [])"
  by (simp add: lists_wf_def)

lemma lists_wfD: "lists_wf L \<Longrightarrow> t \<in> set (L h) \<Longrightarrow> t \<in> set (L h') \<Longrightarrow> h = h'"
  by (auto simp: lists_wf_def)

lemma lists_wf_distinct: "lists_wf L \<Longrightarrow> distinct (L h)"
  by (simp add: lists_wf_def)

lemma lists_wf_del [intro]: "lists_wf L \<Longrightarrow> lists_wf (list_del L t)"
  by (auto simp: lists_wf_def klist_simps distinct_removeAll)

lemma lists_wf_add_tail [intro]: "lists_wf L \<Longrightarrow> unlinked L t \<Longrightarrow> lists_wf (list_add_tail L h t)"
  by (auto simp: lists_wf_def unlinked_def klist_simps)

lemma lists_wf_add_before [intro]:
  "lists_wf L \<Longrightarrow> unlinked L t \<Longrightarrow> lists_wf (list_add_before L h P t)"
  by (auto simp: lists_wf_def unlinked_def klist_simps)

lemma unlinked_del [simp]: "unlinked (list_del L t) t"
  by (simp add: unlinked_def klist_simps)

lemma list_del_unlinked: "unlinked L t \<Longrightarrow> list_del L t = L"
  by (auto simp: unlinked_def list_del_def)

lemma list_del_add_tail: "unlinked L t \<Longrightarrow> list_del (list_add_tail L h t) t = L"
  by (auto simp: unlinked_def fun_eq_iff klist_simps)

lemma list_del_add_before: "unlinked L t \<Longrightarrow> list_del (list_add_before L h P t) t = L"
  by (auto simp: unlinked_def fun_eq_iff klist_simps)

subsection \<open>Flag words\<close>

definition has_flag :: "'a::len word \<Rightarrow> 'a word \<Rightarrow> bool" where
  "has_flag w m \<longleftrightarrow> w AND m \<noteq> 0"

lemma has_flag_exp: "has_flag w (2 ^ n) \<longleftrightarrow> bit w n"
  unfolding has_flag_def and_exp_eq_0_iff_not_bit by simp

lemma bit_and_not_exp: "bit (w AND NOT (2 ^ n)) i \<longleftrightarrow> bit (w::'a::len word) i \<and> i \<noteq> n"
  by (auto simp: bit_and_iff bit_not_iff bit_exp_iff bit_imp_le_length)

lemma bit_or_exp: "bit ((w::'a::len word) OR 2 ^ n) i \<longleftrightarrow> bit w i \<or> (i = n \<and> n < LENGTH('a))"
  by (auto simp: bit_or_iff bit_exp_iff)

lemma bit_set_exp: "n < LENGTH('a) \<Longrightarrow> bit ((w::'a::len word) OR 2 ^ n) n"
  by (simp add: bit_or_exp)

lemma and_not_absent: "\<not> has_flag w m \<Longrightarrow> w AND NOT m = (w::'a::len word)"
  by (metis (no_types, opaque_lifting) has_flag_def and_zero_eq bit.conj_disj_distrib bit.conj_one_right
      bit.disj_cancel_right or.right_neutral or.commute)

subsection \<open>Counting in machine words\<close>

lemma word_dec_le: "0 < x \<Longrightarrow> x \<le> m \<Longrightarrow> x - 1 \<le> (m::'a::len word)"
  by uint_arith

lemma unat_dec: "0 < x \<Longrightarrow> unat (x - 1) = unat (x::'a::len word) - 1"
  by unat_arith

lemma unat_inc: "x < m \<Longrightarrow> unat (x + 1) = unat (x::'a::len word) + 1"
  by unat_arith

lemma uint_dec: "x \<noteq> 0 \<Longrightarrow> uint (x - 1) = uint (x::'a::len word) - 1"
  by uint_arith

lemma uint_inc: "x < m \<Longrightarrow> uint (x + 1) = uint (x::'a::len word) + 1"
  by uint_arith

end
