(* ===== verification/Kernel_State.thy ===== *)
theory Kernel_State
  imports Prelude
begin

text \<open>
  The data of the OneOS kernel: error codes (\<^verbatim>\<open>os_errno.h\<close>), task states and the task
  control block (\<^verbatim>\<open>os_task.h\<close>), and the globals of \<^verbatim>\<open>os_sched.c\<close>, \<^verbatim>\<open>os_clock.c\<close>
  and \<^verbatim>\<open>os_task.c\<close> as one record. Fields that only the context-switch assembly reads (stack
  pointers) are left out.
\<close>

subsection \<open>Error codes and constants\<close>

datatype os_err = OS_EOK | OS_ERROR | OS_ETIMEOUT | OS_EFULL | OS_EEMPTY | OS_ENOMEM
  | OS_ENOSYS | OS_EBUSY | OS_EIO | OS_EINTR | OS_EINVAL | OS_ENODEV | OS_EPERM

definition OS_TASK_PRIORITY_MAX :: nat where "OS_TASK_PRIORITY_MAX = 32"

definition OS_TICK_MAX :: u32 where "OS_TICK_MAX = 0xFFFFFFFF"
definition OS_WAIT_FOREVER :: u32 where "OS_WAIT_FOREVER = OS_TICK_MAX"
definition OS_NO_WAIT :: u32 where "OS_NO_WAIT = 0"

definition OS_SCHEDULE_TIME_SLICE :: u32 where "OS_SCHEDULE_TIME_SLICE = 10"

definition OS_KOBJ_INITED :: u8 where "OS_KOBJ_INITED = 0x55"
definition OS_KOBJ_DEINITED :: u8 where "OS_KOBJ_DEINITED = 0xAA"
definition OS_KOBJ_ALLOC_TYPE_STATIC :: u8 where "OS_KOBJ_ALLOC_TYPE_STATIC = 0"
definition OS_KOBJ_ALLOC_TYPE_DYNAMIC :: u8 where "OS_KOBJ_ALLOC_TYPE_DYNAMIC = 1"

text \<open>\<^verbatim>\<open>wake_type\<close> of the kernel objects that tasks wait for (one pair of values for all).\<close>

definition WAKE_TYPE_PRIO :: u8 where "WAKE_TYPE_PRIO = 0x55"
definition WAKE_TYPE_FIFO :: u8 where "WAKE_TYPE_FIFO = 0xAA"

subsection \<open>Task states\<close>

definition OS_TASK_STATE_EMPTY :: u16 where "OS_TASK_STATE_EMPTY = 0x0000"
definition OS_TASK_STATE_INIT :: u16 where "OS_TASK_STATE_INIT = 0x0001"
definition OS_TASK_STATE_READY :: u16 where "OS_TASK_STATE_READY = 0x0002"
definition OS_TASK_STATE_RUNNING :: u16 where "OS_TASK_STATE_RUNNING = 0x0004"
definition OS_TASK_STATE_SLEEP :: u16 where "OS_TASK_STATE_SLEEP = 0x0008"
definition OS_TASK_STATE_BLOCK :: u16 where "OS_TASK_STATE_BLOCK = 0x0010"
definition OS_TASK_STATE_SUSPEND :: u16 where "OS_TASK_STATE_SUSPEND = 0x0020"
definition OS_TASK_STATE_CLOSE :: u16 where "OS_TASK_STATE_CLOSE = 0x8000"

lemmas task_state_defs = OS_TASK_STATE_EMPTY_def OS_TASK_STATE_INIT_def
  OS_TASK_STATE_READY_def OS_TASK_STATE_RUNNING_def OS_TASK_STATE_SLEEP_def
  OS_TASK_STATE_BLOCK_def OS_TASK_STATE_SUSPEND_def OS_TASK_STATE_CLOSE_def

lemma state_exp:
  "OS_TASK_STATE_INIT = 2 ^ 0" "OS_TASK_STATE_READY = 2 ^ 1" "OS_TASK_STATE_RUNNING = 2 ^ 2"
  "OS_TASK_STATE_SLEEP = 2 ^ 3" "OS_TASK_STATE_BLOCK = 2 ^ 4" "OS_TASK_STATE_SUSPEND = 2 ^ 5"
  "OS_TASK_STATE_CLOSE = 2 ^ 15"
  by (simp_all add: task_state_defs)

text \<open>Every test and update of a state flag is a statement about one bit of the word.\<close>

lemma has_state_flag [flag_simps]:
  "has_flag w OS_TASK_STATE_INIT \<longleftrightarrow> bit w 0" "has_flag w OS_TASK_STATE_READY \<longleftrightarrow> bit w 1"
  "has_flag w OS_TASK_STATE_RUNNING \<longleftrightarrow> bit w 2" "has_flag w OS_TASK_STATE_SLEEP \<longleftrightarrow> bit w 3"
  "has_flag w OS_TASK_STATE_BLOCK \<longleftrightarrow> bit w 4" "has_flag w OS_TASK_STATE_SUSPEND \<longleftrightarrow> bit w 5"
  "has_flag w OS_TASK_STATE_CLOSE \<longleftrightarrow> bit w 15"
  unfolding state_exp has_flag_exp by (rule refl)+

lemma bit_clear_state_flag [flag_simps]:
  "bit (w AND NOT OS_TASK_STATE_INIT) i \<longleftrightarrow> bit w i \<and> i \<noteq> 0"
  "bit (w AND NOT OS_TASK_STATE_READY) i \<longleftrightarrow> bit w i \<and> i \<noteq> 1"
  "bit (w AND NOT OS_TASK_STATE_RUNNING) i \<longleftrightarrow> bit w i \<and> i \<noteq> 2"
  "bit (w AND NOT OS_TASK_STATE_SLEEP) i \<longleftrightarrow> bit w i \<and> i \<noteq> 3"
  "bit (w AND NOT OS_TASK_STATE_BLOCK) i \<longleftrightarrow> bit w i \<and> i \<noteq> 4"
  "bit (w AND NOT OS_TASK_STATE_SUSPEND) i \<longleftrightarrow> bit w i \<and> i \<noteq> 5"
  unfolding state_exp bit_and_not_exp by (rule refl)+

lemma bit_set_state_flag [flag_simps]:
  "bit (w OR OS_TASK_STATE_READY) i \<longleftrightarrow> bit w i \<or> i = 1"
  "bit (w OR OS_TASK_STATE_RUNNING) i \<longleftrightarrow> bit w i \<or> i = 2"
  "bit (w OR OS_TASK_STATE_SLEEP) i \<longleftrightarrow> bit w i \<or> i = 3"
  "bit (w OR OS_TASK_STATE_BLOCK) i \<longleftrightarrow> bit w i \<or> i = 4"
  "bit (w OR OS_TASK_STATE_SUSPEND) i \<longleftrightarrow> bit w i \<or> i = 5"
  "bit (w OR OS_TASK_STATE_CLOSE) i \<longleftrightarrow> bit w i \<or> i = 15"
  unfolding state_exp bit_or_exp by simp_all

lemma bit_state_const [flag_simps]:
  "bit OS_TASK_STATE_INIT i \<longleftrightarrow> i = 0" "bit OS_TASK_STATE_READY i \<longleftrightarrow> i = 1"
  "bit OS_TASK_STATE_RUNNING i \<longleftrightarrow> i = 2" "bit OS_TASK_STATE_SLEEP i \<longleftrightarrow> i = 3"
  "bit OS_TASK_STATE_BLOCK i \<longleftrightarrow> i = 4" "bit OS_TASK_STATE_SUSPEND i \<longleftrightarrow> i = 5"
  "bit OS_TASK_STATE_CLOSE i \<longleftrightarrow> i = 15"
  unfolding state_exp bit_exp_iff by auto

subsection \<open>Task control block\<close>

record os_task =
  name :: string
  state :: u16
  current_priority :: u8
  backup_priority :: u8
  err_code :: os_err
  switch_retval :: os_err
  object_inited :: u8
  object_alloc_type :: u8
  tick_timeout :: u32
  tick_absolute :: u32
  time_slice :: u32
  remaining_time_slice :: u32
  block_list_head :: "list_head option"
  is_wake_prio :: bool
  event_set :: u32
  event_option :: u32
  hold_mutex_list :: "nat list"
  swap_data :: u32
  cleanup :: "nat option"
  user_data :: nat

subsection \<open>Kernel globals\<close>

text \<open>
  \<open>task_lists\<close> is the family of lists threaded through \<^verbatim>\<open>task_node\<close> (ready queue and wait
  queues), \<open>tickq_bucket\<close> the family threaded through \<^verbatim>\<open>tick_node\<close>. \<open>switch_pending\<close>
  is the PendSV pending bit that \<^verbatim>\<open>os_task_switch\<close> sets. \<open>irq_active\<close> and
  \<open>irq_disabled\<close> are what \<^verbatim>\<open>os_is_irq_active\<close> and \<^verbatim>\<open>os_is_irq_disabled\<close> read.
\<close>

record kernel =
  tasks :: "tid \<Rightarrow> os_task"
  task_lists :: klists
  tickq_bucket :: "nat \<Rightarrow> tid list"
  priority_bmap :: u32
  high_task :: "tid option"
  current_task :: "tid option"
  next_task :: "tid option"
  switch_pending :: bool
  sched_lock_cnt :: u16
  os_tick :: u32
  irq_active :: bool
  irq_disabled :: bool
  resource_list :: "tid list"
  recycle_list :: "tid list"
  kernel_err_code :: os_err

definition upd_task :: "tid \<Rightarrow> (os_task \<Rightarrow> os_task) \<Rightarrow> kernel \<Rightarrow> kernel" where
  "upd_task t f k = k\<lparr>tasks := (tasks k)(t := f (tasks k t))\<rparr>"

definition set_task_state :: "tid \<Rightarrow> u16 \<Rightarrow> kernel \<Rightarrow> kernel" where
  "set_task_state t m = upd_task t (\<lambda>x. x\<lparr>state := state x OR m\<rparr>)"

definition clear_task_state :: "tid \<Rightarrow> u16 \<Rightarrow> kernel \<Rightarrow> kernel" where
  "clear_task_state t m = upd_task t (\<lambda>x. x\<lparr>state := state x AND NOT m\<rparr>)"

abbreviation prio :: "kernel \<Rightarrow> tid \<Rightarrow> u8" where
  "prio k t \<equiv> current_priority (tasks k t)"

abbreviation tstate :: "kernel \<Rightarrow> tid \<Rightarrow> u16" where
  "tstate k t \<equiv> state (tasks k t)"

text \<open>What \<open>upd_task\<close> leaves alone.\<close>

lemma upd_task_frame [simp]:
  "task_lists (upd_task t f k) = task_lists k" "tickq_bucket (upd_task t f k) = tickq_bucket k"
  "priority_bmap (upd_task t f k) = priority_bmap k" "high_task (upd_task t f k) = high_task k"
  "current_task (upd_task t f k) = current_task k" "next_task (upd_task t f k) = next_task k"
  "switch_pending (upd_task t f k) = switch_pending k"
  "sched_lock_cnt (upd_task t f k) = sched_lock_cnt k" "os_tick (upd_task t f k) = os_tick k"
  "irq_active (upd_task t f k) = irq_active k" "irq_disabled (upd_task t f k) = irq_disabled k"
  "resource_list (upd_task t f k) = resource_list k"
  "recycle_list (upd_task t f k) = recycle_list k"
  "kernel_err_code (upd_task t f k) = kernel_err_code k"
  by (simp_all add: upd_task_def)

lemma tasks_upd_task [simp]:
  "tasks (upd_task t f k) u = (if u = t then f (tasks k t) else tasks k u)"
  by (simp add: upd_task_def)

lemmas task_state_upd = set_task_state_def clear_task_state_def

end
