(* ===== verification/Os_Sched.thy ===== *)
theory Os_Sched
  imports Kernel_State
begin

text \<open>
  \<^verbatim>\<open>oneos/kernel/source/os_sched.c\<close>: the priority ready queue with its bitmap and cached
  highest task, the deferred context switch, and the scheduler lock, for the configured
  \<^verbatim>\<open>OS_TASK_PRIORITY_MAX\<close> of 32 (one bitmap word). The context switch itself is the
  \<^verbatim>\<open>PendSV_Handler\<close> of \<^verbatim>\<open>arch_task_switch_gcc.S\<close>.
\<close>

subsection \<open>Bitmap\<close>

text \<open>\<^verbatim>\<open>os_ffs\<close> is \<^verbatim>\<open>__builtin_ffs\<close>: one plus the index of the least significant set bit.\<close>

definition os_ffs :: "u32 \<Rightarrow> int" where
  "os_ffs v = (case find (bit v) [0..<32] of None \<Rightarrow> 0 | Some i \<Rightarrow> int i + 1)"

definition k_readq_bmap_set :: "u8 \<Rightarrow> kernel \<Rightarrow> kernel" where
  "k_readq_bmap_set p k = k\<lparr>priority_bmap := priority_bmap k OR push_bit (unat p) 1\<rparr>"

definition k_readq_bmap_clear :: "u8 \<Rightarrow> kernel \<Rightarrow> kernel" where
  "k_readq_bmap_clear p k = k\<lparr>priority_bmap := priority_bmap k AND NOT (push_bit (unat p) 1)\<rparr>"

definition k_readyq_highest :: "kernel \<Rightarrow> u8" where
  "k_readyq_highest k = word_of_int (os_ffs (priority_bmap k) - 1)"

definition k_readq_bmap_init :: "kernel \<Rightarrow> kernel" where
  "k_readq_bmap_init k = k\<lparr>priority_bmap := 0,
     task_lists := (\<lambda>h. case h of RQ p \<Rightarrow> if p < OS_TASK_PRIORITY_MAX then [] else task_lists k h
                            | WQ w \<Rightarrow> task_lists k h)\<rparr>"

subsection \<open>Ready queue\<close>

text \<open>
  The first task of \<^verbatim>\<open>priority_list_array[p]\<close>, as \<^verbatim>\<open>os_list_entry(head.next, ...)\<close> reads
  it: an index past the array, or a head that points to itself, is not a task.
\<close>

definition readyq_first :: "kernel \<Rightarrow> u8 \<Rightarrow> tid res" where
  "readyq_first k p =
     (if unat p < OS_TASK_PRIORITY_MAX then
        (case task_lists k (RQ (unat p)) of [] \<Rightarrow> Fault OutOfRange | t # _ \<Rightarrow> OK t)
      else Fault OutOfRange)"

definition k_readyq_put :: "tid \<Rightarrow> kernel \<Rightarrow> kernel res" where
  "k_readyq_put t k =
     (let p = prio k t;
          k1 = (if (case high_task k of None \<Rightarrow> True | Some h \<Rightarrow> p < prio k h)
                then k\<lparr>high_task := Some t\<rparr> else k);
          k2 = k_readq_bmap_set p k1
      in if unat p < OS_TASK_PRIORITY_MAX
         then OK (k2\<lparr>task_lists := list_add_tail (task_lists k2) (RQ (unat p)) t\<rparr>)
         else Fault OutOfRange)"

definition k_readyq_remove :: "tid \<Rightarrow> kernel \<Rightarrow> kernel res" where
  "k_readyq_remove t k =
     (let p = prio k t;
          k1 = k\<lparr>task_lists := list_del (task_lists k) t\<rparr>
      in if unat p < OS_TASK_PRIORITY_MAX then
           (if task_lists k1 (RQ (unat p)) = [] then
              (let k2 = k_readq_bmap_clear p k1
               in if high_task k2 = Some t then
                    bind_res (readyq_first k2 (k_readyq_highest k2))
                      (\<lambda>h. OK (k2\<lparr>high_task := Some h\<rparr>))
                  else OK k2)
            else
              (if high_task k1 = Some t then
                 bind_res (readyq_first k1 p) (\<lambda>h. OK (k1\<lparr>high_task := Some h\<rparr>))
               else OK k1))
         else Fault OutOfRange)"

definition k_readyq_move_tail :: "tid \<Rightarrow> kernel \<Rightarrow> kernel res" where
  "k_readyq_move_tail t k =
     (let p = prio k t;
          k1 = k\<lparr>task_lists := list_add_tail (list_del (task_lists k) t) (RQ (unat p)) t\<rparr>
      in if unat p < OS_TASK_PRIORITY_MAX then
           (if high_task k1 = Some t then
              bind_res (readyq_first k1 p) (\<lambda>h. OK (k1\<lparr>high_task := Some h\<rparr>))
            else OK k1)
         else Fault OutOfRange)"

subsection \<open>Scheduling\<close>

definition k_sched_init :: "kernel \<Rightarrow> kernel" where
  "k_sched_init k = k_readq_bmap_init k"

text \<open>\<^verbatim>\<open>os_task_switch\<close> and \<^verbatim>\<open>os_first_task_start\<close> set the PendSV pending bit.\<close>

definition os_task_switch :: "kernel \<Rightarrow> kernel" where
  "os_task_switch k = k\<lparr>switch_pending := True\<rparr>"

definition k_start :: "kernel \<Rightarrow> kernel" where
  "k_start k = os_task_switch (k\<lparr>next_task := high_task k\<rparr>)"

definition k_kernel_exit_sched :: "kernel \<Rightarrow> kernel" where
  "k_kernel_exit_sched k =
     (if current_task k = None \<or> sched_lock_cnt k \<noteq> 0 then k
      else let k1 = k\<lparr>next_task := high_task k\<rparr>
           in if current_task k1 \<noteq> next_task k1 then os_task_switch k1 else k1)"

definition os_schedule_lock :: "kernel \<Rightarrow> kernel" where
  "os_schedule_lock k = k\<lparr>sched_lock_cnt := sched_lock_cnt k + 1\<rparr>"

definition os_schedule_unlock :: "kernel \<Rightarrow> kernel res" where
  "os_schedule_unlock k =
     (let k1 = k\<lparr>sched_lock_cnt := sched_lock_cnt k - 1\<rparr>
      in os_assert (0 \<le> sint (sched_lock_cnt k1))
           (OK (if sched_lock_cnt k1 = 0 then k_kernel_exit_sched k1 else k1)))"

definition os_is_schedule_locked :: "kernel \<Rightarrow> bool" where
  "os_is_schedule_locked k \<longleftrightarrow> sched_lock_cnt k \<noteq> 0"

text \<open>
  PendSV: the task that leaves loses the running flag, the next task becomes the current
  one and gets it. A null next task is dereferenced for its stack pointer.
\<close>

definition PendSV_Handler :: "kernel \<Rightarrow> kernel res" where
  "PendSV_Handler k =
     (let k0 = k\<lparr>switch_pending := False\<rparr>;
          k1 = (case current_task k0 of None \<Rightarrow> k0
                | Some c \<Rightarrow> clear_task_state c OS_TASK_STATE_RUNNING k0)
      in case next_task k1 of None \<Rightarrow> Fault NullDeref
         | Some n \<Rightarrow> OK (set_task_state n OS_TASK_STATE_RUNNING (k1\<lparr>current_task := Some n\<rparr>)))"

lemmas readyq_defs = k_readyq_put_def k_readyq_remove_def k_readyq_move_tail_def
  k_readq_bmap_set_def k_readq_bmap_clear_def readyq_first_def

subsection \<open>Specification: the first task of the best non-empty priority\<close>

definition best_ready :: "klists \<Rightarrow> tid option" where
  "best_ready L = map_option (\<lambda>p. hd (L (RQ p))) (find (\<lambda>p. L (RQ p) \<noteq> []) [0..<32])"

text \<open>
  The ready-queue invariant: lists are well formed, the bitmap marks exactly the
  non-empty priorities, a task sits in the list of its current priority, and the cached
  highest task is the one the specification names.
\<close>

definition readyq_ok :: "kernel \<Rightarrow> bool" where
  "readyq_ok k \<longleftrightarrow> lists_wf (task_lists k)
     \<and> (\<forall>p. bit (priority_bmap k) p \<longleftrightarrow> task_lists k (RQ p) \<noteq> [])
     \<and> (\<forall>p t. t \<in> set (task_lists k (RQ p)) \<longrightarrow> unat (prio k t) = p)
     \<and> high_task k = best_ready (task_lists k)"

definition in_readyq :: "kernel \<Rightarrow> tid \<Rightarrow> bool" where
  "in_readyq k t \<longleftrightarrow> t \<in> set (task_lists k (RQ (unat (prio k t))))"

text \<open>
  Bitmap and cached task are functions of the lists. \<open>readyq_sync\<close> recomputes both from
  scratch: the refinement lemmas below say that the incremental code of \<^verbatim>\<open>os_sched.c\<close>
  yields the same kernel.
\<close>

definition bmap_of :: "klists \<Rightarrow> u32" where
  "bmap_of L = horner_sum of_bool 2 (map (\<lambda>p. L (RQ p) \<noteq> []) [0..<32])"

definition readyq_sync :: "kernel \<Rightarrow> kernel" where
  "readyq_sync k = k\<lparr>priority_bmap := bmap_of (task_lists k), high_task := best_ready (task_lists k)\<rparr>"

definition lists_ok :: "kernel \<Rightarrow> bool" where
  "lists_ok k \<longleftrightarrow> lists_wf (task_lists k)
     \<and> (\<forall>p t. t \<in> set (task_lists k (RQ p)) \<longrightarrow> unat (prio k t) = p \<and> p < 32)"

subsection \<open>The specification and the bitmap agree\<close>

lemma best_ready_Some_iff:
  "best_ready L = Some t \<longleftrightarrow>
     (\<exists>p < 32. L (RQ p) \<noteq> [] \<and> hd (L (RQ p)) = t \<and> (\<forall>q < p. L (RQ q) = []))"
  by (auto simp: best_ready_def find_upt_Some_iff)

lemma best_readyI:
  "p < 32 \<Longrightarrow> L (RQ p) \<noteq> [] \<Longrightarrow> hd (L (RQ p)) = t \<Longrightarrow> (\<And>q. q < p \<Longrightarrow> L (RQ q) = []) \<Longrightarrow>
   best_ready L = Some t"
  unfolding best_ready_Some_iff by blast

lemma best_ready_None_iff: "best_ready L = None \<longleftrightarrow> (\<forall>p < 32. L (RQ p) = [])"
  by (auto simp: best_ready_def find_upt_None_iff)

lemma readyq_okD:
  assumes "readyq_ok k"
  shows "lists_wf (task_lists k)" "bit (priority_bmap k) p \<longleftrightarrow> task_lists k (RQ p) \<noteq> []"
    "t \<in> set (task_lists k (RQ p)) \<Longrightarrow> unat (prio k t) = p" "high_task k = best_ready (task_lists k)"
  using assms by (auto simp: readyq_ok_def)

lemma readyq_ok_priority_bound: "readyq_ok k \<Longrightarrow> task_lists k (RQ p) \<noteq> [] \<Longrightarrow> p < 32"
  using bit_imp_le_length[of "priority_bmap k" p] by (auto simp: readyq_ok_def)

lemma k_readyq_highest_least:
  assumes "\<And>p. bit (priority_bmap k) p \<longleftrightarrow> task_lists k (RQ p) \<noteq> []"
    and "p < 32" "task_lists k (RQ p) \<noteq> []" "\<And>q. q < p \<Longrightarrow> task_lists k (RQ q) = []"
  shows "unat (k_readyq_highest k) = p"
proof -
  have "find (bit (priority_bmap k)) [0..<32] = Some p"
    using assms by (simp add: find_upt_Some_iff)
  then have "k_readyq_highest k = word_of_nat p"
    by (simp add: k_readyq_highest_def os_ffs_def)
  then show ?thesis using \<open>p < 32\<close> by (simp add: unat_of_nat)
qed

lemma bmap_frame [simp]:
  "tasks (k_readq_bmap_set p k) = tasks k" "task_lists (k_readq_bmap_set p k) = task_lists k"
  "tasks (k_readq_bmap_clear p k) = tasks k" "task_lists (k_readq_bmap_clear p k) = task_lists k"
  "high_task (k_readq_bmap_set p k) = high_task k"
  "high_task (k_readq_bmap_clear p k) = high_task k"
  by (simp_all add: k_readq_bmap_set_def k_readq_bmap_clear_def)

lemma bmap_set_bit:
  "unat p < 32 \<Longrightarrow> bit (priority_bmap (k_readq_bmap_set p k)) i \<longleftrightarrow> bit (priority_bmap k) i \<or> i = unat p"
  by (simp add: k_readq_bmap_set_def bit_or_exp)

lemma bmap_clear_bit:
  "bit (priority_bmap (k_readq_bmap_clear p k)) i \<longleftrightarrow> bit (priority_bmap k) i \<and> i \<noteq> unat p"
  by (simp add: k_readq_bmap_clear_def bit_and_not_exp)

subsection \<open>The operations keep the invariant\<close>

text \<open>Appending a task: the cached highest task changes exactly when it is beaten.\<close>

lemma best_ready_add_tail:
  assumes ok: "readyq_ok k" and p: "unat (prio k t) < 32"
  shows "best_ready (list_add_tail (task_lists k) (RQ (unat (prio k t))) t) =
     (if (case high_task k of None \<Rightarrow> True | Some h \<Rightarrow> prio k t < prio k h)
      then Some t else high_task k)"
proof (cases "high_task k")
  case None
  then have "\<forall>q < 32. task_lists k (RQ q) = []"
    using ok by (simp add: readyq_okD(4) best_ready_None_iff)
  then show ?thesis
    using None p by (intro trans[OF best_readyI]) (auto simp: klist_simps)
next
  case (Some h)
  then obtain b where b: "b < 32" "task_lists k (RQ b) \<noteq> []" "hd (task_lists k (RQ b)) = h"
      "\<And>q. q < b \<Longrightarrow> task_lists k (RQ q) = []"
    using ok by (auto simp: readyq_okD(4) best_ready_Some_iff)
  then have hb: "unat (prio k h) = b"
    using readyq_okD(3)[OF ok, of h b] by (metis hd_in_set)
  show ?thesis
  proof (cases "prio k t < prio k h")
    case True
    then have "unat (prio k t) < b" using hb by (simp add: word_less_nat_alt)
    then show ?thesis using True Some p b(4)
      by (intro trans[OF best_readyI]) (auto simp: klist_simps)
  next
    case False
    then have "b \<le> unat (prio k t)" using hb by (simp add: word_less_nat_alt)
    then show ?thesis using False Some b
      by (intro trans[OF best_readyI[of b]]) (auto simp: klist_simps)
  qed
qed

lemma bit_bmap_of: "bit (bmap_of L) p \<longleftrightarrow> p < 32 \<and> L (RQ p) \<noteq> []"
  by (auto simp: bmap_of_def bit_horner_sum_bit_iff)

lemma bmap_eqI: "(\<And>p. bit w p \<longleftrightarrow> p < 32 \<and> L (RQ p) \<noteq> []) \<Longrightarrow> w = bmap_of L"
  by (rule bit_eqI) (simp add: bit_bmap_of)

lemma readyq_sync_frame [simp]:
  "tasks (readyq_sync k) = tasks k" "task_lists (readyq_sync k) = task_lists k"
  "tickq_bucket (readyq_sync k) = tickq_bucket k" "current_task (readyq_sync k) = current_task k"
  "next_task (readyq_sync k) = next_task k" "switch_pending (readyq_sync k) = switch_pending k"
  "sched_lock_cnt (readyq_sync k) = sched_lock_cnt k" "os_tick (readyq_sync k) = os_tick k"
  "irq_active (readyq_sync k) = irq_active k" "irq_disabled (readyq_sync k) = irq_disabled k"
  "resource_list (readyq_sync k) = resource_list k" "recycle_list (readyq_sync k) = recycle_list k"
  "high_task (readyq_sync k) = best_ready (task_lists k)"
  "priority_bmap (readyq_sync k) = bmap_of (task_lists k)"
  by (simp_all add: readyq_sync_def)

lemma lists_ok_bound: "lists_ok k \<Longrightarrow> task_lists k (RQ p) \<noteq> [] \<Longrightarrow> p < 32"
  unfolding lists_ok_def by (metis hd_in_set)

lemma readyq_ok_iff_sync: "readyq_ok k \<longleftrightarrow> lists_ok k \<and> readyq_sync k = k"
proof
  assume ok: "readyq_ok k"
  have "priority_bmap k = bmap_of (task_lists k)"
    using readyq_ok_priority_bound[OF ok] by (intro bmap_eqI) (auto simp: readyq_okD(2)[OF ok])
  moreover have "lists_ok k"
    using ok readyq_ok_priority_bound[OF ok] by (fastforce simp: lists_ok_def readyq_ok_def)
  ultimately show "lists_ok k \<and> readyq_sync k = k"
    by (simp add: readyq_sync_def flip: readyq_okD(4)[OF ok])
next
  assume *: "lists_ok k \<and> readyq_sync k = k"
  then have "priority_bmap k = bmap_of (task_lists k)" "high_task k = best_ready (task_lists k)"
    using readyq_sync_frame(13,14)[of k] by simp_all
  then show "readyq_ok k"
    using * lists_ok_bound[of k] by (auto simp: readyq_ok_def lists_ok_def bit_bmap_of)
qed

lemma readyq_synced_iff:
  "readyq_sync k = k \<longleftrightarrow>
     priority_bmap k = bmap_of (task_lists k) \<and> high_task k = best_ready (task_lists k)"
  by (cases k) (auto simp: readyq_sync_def)

lemma readyq_sync_idem [simp]: "readyq_sync (readyq_sync k) = readyq_sync k"
  by (simp add: readyq_sync_def)

lemma readyq_ok_sync [simp]: "readyq_ok (readyq_sync k) \<longleftrightarrow> lists_ok k"
  by (simp add: readyq_ok_iff_sync lists_ok_def)

text \<open>Refinement: each incremental operation recomputes bitmap and highest task.\<close>

lemma k_readyq_put_refines:
  assumes ok: "readyq_ok k" and p: "unat (prio k t) < 32"
  shows "k_readyq_put t k =
    OK (readyq_sync (k\<lparr>task_lists := list_add_tail (task_lists k) (RQ (unat (prio k t))) t\<rparr>))"
proof -
  let ?L = "list_add_tail (task_lists k) (RQ (unat (prio k t))) t"
  have "priority_bmap (k_readq_bmap_set (prio k t) k) = bmap_of ?L"
    using readyq_ok_priority_bound[OF ok] p
    by (intro bmap_eqI) (auto simp: bmap_set_bit[OF p] readyq_okD(2)[OF ok] klist_simps)
  then show ?thesis
    using p by (simp add: k_readyq_put_def readyq_sync_def best_ready_add_tail[OF ok p]
        k_readq_bmap_set_def OS_TASK_PRIORITY_MAX_def Let_def)
qed

lemma best_ready_del_other:
  assumes "best_ready L = Some h" "h \<noteq> t"
  shows "best_ready (list_del L t) = Some h"
proof -
  obtain b where b: "b < 32" "L (RQ b) \<noteq> []" "hd (L (RQ b)) = h" "\<And>q. q < b \<Longrightarrow> L (RQ q) = []"
    using assms(1) by (auto simp: best_ready_Some_iff)
  have "removeAll t (L (RQ b)) \<noteq> [] \<and> hd (removeAll t (L (RQ b))) = h"
    using hd_removeAll[OF b(2)] b(3) assms(2) by simp
  then show ?thesis using b by (intro best_readyI[of b]) (auto simp: klist_simps)
qed

lemma in_readyq_bound: "readyq_ok k \<Longrightarrow> in_readyq k t \<Longrightarrow> unat (prio k t) < 32"
  unfolding in_readyq_def by (metis empty_iff list.set(1) readyq_ok_priority_bound)

lemma in_readyq_best_Some:
  "readyq_ok k \<Longrightarrow> in_readyq k t \<Longrightarrow> \<exists>h. best_ready (task_lists k) = Some h"
  using readyq_ok_priority_bound[of k "unat (prio k t)"]
  by (cases "best_ready (task_lists k)") (fastforce simp: in_readyq_def best_ready_None_iff)+

text \<open>The bitmap only depends on which lists are empty.\<close>

lemma readyq_ok_bmap: "readyq_ok k \<Longrightarrow> priority_bmap k = bmap_of (task_lists k)"
  using readyq_sync_frame(14)[of k] by (simp add: readyq_ok_iff_sync)

lemma bmap_of_cong: "(\<And>q. L (RQ q) = [] \<longleftrightarrow> L' (RQ q) = []) \<Longrightarrow> bmap_of L = bmap_of L'"
  by (rule bmap_eqI) (simp add: bit_bmap_of)

lemma bmap_clear_eq:
  assumes "readyq_ok k" "L (RQ (unat p)) = []"
    and "\<And>q. q \<noteq> unat p \<Longrightarrow> L (RQ q) = task_lists k (RQ q)"
  shows "priority_bmap (k_readq_bmap_clear p k) = bmap_of L"
proof (rule bmap_eqI)
  fix q show "bit (priority_bmap (k_readq_bmap_clear p k)) q \<longleftrightarrow> q < 32 \<and> L (RQ q) \<noteq> []"
    using assms(2) assms(3)[of q] readyq_ok_bmap[OF assms(1)]
    by (cases "q = unat p") (auto simp: bmap_clear_bit bit_bmap_of)
qed

lemma list_del_other_priority:
  "readyq_ok k \<Longrightarrow> q \<noteq> unat (prio k t) \<Longrightarrow> list_del (task_lists k) t (RQ q) = task_lists k (RQ q)"
  using readyq_okD(3)[of k t q] by (metis list_del_apply removeAll_notin)

lemma best_ready_not_deleted: "best_ready (list_del L t) \<noteq> Some t"
  by (auto simp: best_ready_Some_iff klist_simps)
     (metis Diff_iff hd_in_set insertI1 set_removeAll)

lemma high_task_priority:
  assumes ok: "readyq_ok k" and h: "high_task k = Some t"
  shows "hd (task_lists k (RQ (unat (prio k t)))) = t" "task_lists k (RQ (unat (prio k t))) \<noteq> []"
    "q < unat (prio k t) \<Longrightarrow> task_lists k (RQ q) = []"
proof -
  from h obtain c where c: "task_lists k (RQ c) \<noteq> []" "hd (task_lists k (RQ c)) = t"
      "\<forall>q < c. task_lists k (RQ q) = []"
    by (auto simp: readyq_okD(4)[OF ok] best_ready_Some_iff)
  moreover have "unat (prio k t) = c" using readyq_okD(3)[OF ok, of t c] c by auto
  ultimately show "hd (task_lists k (RQ (unat (prio k t)))) = t"
    "task_lists k (RQ (unat (prio k t))) \<noteq> []" "q < unat (prio k t) \<Longrightarrow> task_lists k (RQ q) = []"
    by auto
qed

text \<open>Reading the head of the best list, through the bitmap or directly.\<close>

lemma readyq_first_bmap:
  assumes "best_ready (task_lists k) = Some h" "priority_bmap k = bmap_of (task_lists k)"
    and "\<And>q. task_lists k (RQ q) \<noteq> [] \<Longrightarrow> q < 32"
  shows "readyq_first k (k_readyq_highest k) = OK h"
proof -
  obtain b where b: "b < 32" "task_lists k (RQ b) \<noteq> []" "hd (task_lists k (RQ b)) = h"
      "\<And>q. q < b \<Longrightarrow> task_lists k (RQ q) = []"
    using assms(1) by (auto simp: best_ready_Some_iff)
  have "unat (k_readyq_highest k) = b"
    using b assms(2,3) by (intro k_readyq_highest_least) (auto simp: bit_bmap_of)
  then show ?thesis
    using b by (cases "task_lists k (RQ b)") (auto simp: readyq_first_def OS_TASK_PRIORITY_MAX_def)
qed

lemma readyq_first_direct:
  assumes "unat p < 32" "task_lists k (RQ (unat p)) \<noteq> []" "\<And>q. q < unat p \<Longrightarrow> task_lists k (RQ q) = []"
  shows "best_ready (task_lists k) = Some (hd (task_lists k (RQ (unat p))))"
    "readyq_first k p = OK (hd (task_lists k (RQ (unat p))))"
  using assms best_readyI[of "unat p" "task_lists k"]
  by (auto simp: readyq_first_def OS_TASK_PRIORITY_MAX_def split: list.split)

lemma k_readyq_remove_refines:
  assumes ok: "readyq_ok k" and t: "in_readyq k t"
    and more: "best_ready (list_del (task_lists k) t) \<noteq> None"
  shows "k_readyq_remove t k =
    OK (readyq_sync (k\<lparr>task_lists := list_del (task_lists k) t\<rparr>))"
proof -
  let ?L = "list_del (task_lists k) t" and ?p = "unat (prio k t)"
  have p: "?p < 32" by (rule in_readyq_bound[OF ok t])
  have bound: "?L (RQ q) \<noteq> [] \<Longrightarrow> q < 32" for q
    using readyq_ok_priority_bound[OF ok, of q]
    by (cases "task_lists k (RQ q) = []") (simp_all add: klist_simps)
  obtain h where h: "best_ready ?L = Some h" "h \<noteq> t" using more best_ready_not_deleted by auto
  have high: "high_task k \<noteq> Some t \<Longrightarrow> high_task k = Some h"
    using in_readyq_best_Some[OF ok t] h best_ready_del_other[of "task_lists k" _ t]
    by (auto simp: readyq_okD(4)[OF ok])
  show ?thesis
  proof (cases "?L (RQ ?p) = []")
    case True
    let ?k = "k_readq_bmap_clear (prio k t) (k\<lparr>task_lists := ?L\<rparr>)"
    have bmap: "priority_bmap ?k = bmap_of ?L"
      using bmap_clear_eq[OF ok True list_del_other_priority[OF ok]]
      by (simp add: k_readq_bmap_clear_def)
    then have "readyq_first ?k (k_readyq_highest ?k) = OK h"
      using h bound by (intro readyq_first_bmap) auto
    then show ?thesis using True p h high bmap
      by (auto simp: k_readyq_remove_def Let_def readyq_sync_def k_readq_bmap_clear_def
          OS_TASK_PRIORITY_MAX_def)
  next
    case False
    have bmap: "priority_bmap k = bmap_of ?L"
      unfolding readyq_ok_bmap[OF ok] using False list_del_other_priority[OF ok]
      by (intro bmap_of_cong) (metis list_del_apply removeAll.simps(1))
    have "readyq_first (k\<lparr>task_lists := ?L\<rparr>) (prio k t) = OK h" if "high_task k = Some t"
      using readyq_first_direct[of "prio k t" "k\<lparr>task_lists := ?L\<rparr>"] p False h
        high_task_priority(3)[OF ok that] by (auto simp: klist_simps)
    then show ?thesis using False p h high bmap
      by (auto simp: k_readyq_remove_def Let_def readyq_sync_def OS_TASK_PRIORITY_MAX_def)
  qed
qed

lemma k_readyq_move_tail_refines:
  assumes ok: "readyq_ok k" and t: "in_readyq k t"
  shows "k_readyq_move_tail t k = OK (readyq_sync (k\<lparr>task_lists :=
           list_add_tail (list_del (task_lists k) t) (RQ (unat (prio k t))) t\<rparr>))"
proof -
  let ?p = "unat (prio k t)"
  let ?L = "list_add_tail (list_del (task_lists k) t) (RQ ?p) t"
  have p: "?p < 32" by (rule in_readyq_bound[OF ok t])
  have bmap: "priority_bmap k = bmap_of ?L"
    unfolding readyq_ok_bmap[OF ok] using t list_del_other_priority[OF ok]
    by (intro bmap_of_cong) (auto simp: list_add_tail_apply in_readyq_def)
  show ?thesis
  proof (cases "high_task k = Some t")
    case True
    then show ?thesis
      using readyq_first_direct[of "prio k t" "k\<lparr>task_lists := ?L\<rparr>"] p bmap
        high_task_priority(3)[OF ok True]
      by (auto simp: k_readyq_move_tail_def Let_def readyq_sync_def klist_simps
          OS_TASK_PRIORITY_MAX_def)
  next
    case False
    then obtain h where h: "high_task k = Some h" "h \<noteq> t"
      using in_readyq_best_Some[OF ok t] by (auto simp: readyq_okD(4)[OF ok])
    let ?b = "unat (prio k h)"
    have "removeAll t (task_lists k (RQ ?b)) \<noteq> [] \<and> hd (removeAll t (task_lists k (RQ ?b))) = h"
      using high_task_priority(1,2)[OF ok h(1)] h(2) by (auto simp: hd_removeAll)
    moreover have "q < ?b \<Longrightarrow> ?L (RQ q) = []" for q
      using high_task_priority(3)[OF ok h(1), of q] t
      by (auto simp: klist_simps in_readyq_def)
    moreover have "?b < 32"
      using readyq_ok_priority_bound[OF ok high_task_priority(2)[OF ok h(1)]] .
    ultimately have "best_ready ?L = Some h"
      by (intro best_readyI[of ?b]) (auto simp: klist_simps)
    then show ?thesis
      using False h bmap p by (auto simp: k_readyq_move_tail_def Let_def readyq_sync_def
          OS_TASK_PRIORITY_MAX_def)
  qed
qed

text \<open>Wait lists do not matter to the ready queue.\<close>

lemma best_ready_cong: "(\<And>p. L (RQ p) = L' (RQ p)) \<Longrightarrow> best_ready L = best_ready L'"
  by (simp add: best_ready_def)

lemma readyq_WQ [simp]:
  "best_ready (list_add_tail L (WQ w) t) = best_ready L"
  "best_ready (list_add_before L (WQ w) P t) = best_ready L"
  "bmap_of (list_add_tail L (WQ w) t) = bmap_of L"
  "bmap_of (list_add_before L (WQ w) P t) = bmap_of L"
  by (auto intro!: best_ready_cong bmap_of_cong simp: klist_simps)

lemma readyq_del_waiting:
  assumes "\<And>p. t \<notin> set (L (RQ p))"
  shows "best_ready (list_del L t) = best_ready L" "bmap_of (list_del L t) = bmap_of L"
  using assms by (auto intro!: best_ready_cong bmap_of_cong simp: klist_simps)

lemma readyq_ok_upd_task:
  "readyq_ok k \<Longrightarrow> unlinked (task_lists k) t \<or> current_priority (f (tasks k t)) = prio k t \<Longrightarrow>
   readyq_ok (upd_task t f k)"
  by (auto simp: readyq_ok_def unlinked_def)

end
