(* ===== verification/Os_Clock.thy ===== *)
theory Os_Clock
  imports Os_Sched
begin

text \<open>
  \<^verbatim>\<open>oneos/kernel/source/os_clock.c\<close>: the system tick, the bucketed tick queue of sleeping
  tasks and the tick interrupt. The timer module's hook \<^verbatim>\<open>k_timer_need_handle\<close> is an
  argument of the tick interrupt, with the timer's own state passed through.
\<close>

definition TICK_Q_BUCKETS :: u32 where "TICK_Q_BUCKETS = 8"

definition tick_bucket :: "u32 \<Rightarrow> nat" where
  "tick_bucket a = unat (a AND (TICK_Q_BUCKETS - 1))"

definition k_tickq_init :: "kernel \<Rightarrow> kernel" where
  "k_tickq_init k = k\<lparr>tickq_bucket := (\<lambda>b. if b < unat TICK_Q_BUCKETS then [] else tickq_bucket k b)\<rparr>"

definition k_tickq_put :: "tid \<Rightarrow> u32 \<Rightarrow> kernel \<Rightarrow> kernel" where
  "k_tickq_put t timeout k =
     (let k1 = upd_task t (\<lambda>x. x\<lparr>tick_timeout := timeout, tick_absolute := os_tick k + timeout\<rparr>) k;
          b = tick_bucket (tick_absolute (tasks k1 t))
      in k1\<lparr>tickq_bucket := list_add_before (tickq_bucket k1) b
           (\<lambda>i. tick_timeout (tasks k1 t) < tick_absolute (tasks k1 i) - os_tick k1) t\<rparr>)"

definition k_tickq_remove :: "tid \<Rightarrow> kernel \<Rightarrow> kernel" where
  "k_tickq_remove t k = k\<lparr>tickq_bucket := list_del (tickq_bucket k) t\<rparr>"

subsection \<open>Next expiry, for the tickless idle loop\<close>

text \<open>The loop over the buckets, from bucket \<open>i\<close>, with the running minimum.\<close>

fun tickq_next_loop :: "nat list \<Rightarrow> kernel \<Rightarrow> u32 \<Rightarrow> u32" where
  "tickq_next_loop [] k m = m"
| "tickq_next_loop (i # is) k m =
     (case tickq_bucket k i of [] \<Rightarrow> tickq_next_loop is k m
      | t # _ \<Rightarrow>
         (let d = tick_absolute (tasks k t) - os_tick k
          in if sint d \<le> 0 then 0
             else tickq_next_loop is k (if d < m then d else m)))"

definition k_tickq_get_next_ticks :: "kernel \<Rightarrow> u32" where
  "k_tickq_get_next_ticks k =
     (let m = tickq_next_loop [0..<unat TICK_Q_BUCKETS] k OS_TICK_MAX
      in if m = 0 \<or> m = OS_TICK_MAX then m else m - 1)"

definition k_tick_update :: "u32 \<Rightarrow> kernel \<Rightarrow> kernel" where
  "k_tick_update n k = k\<lparr>os_tick := os_tick k + n\<rparr>"

definition os_tick_get :: "kernel \<Rightarrow> u32" where
  "os_tick_get k = os_tick k"

definition os_tick_set :: "u32 \<Rightarrow> kernel \<Rightarrow> kernel" where
  "os_tick_set n k = k\<lparr>os_tick := n\<rparr>"

text \<open>\<^verbatim>\<open>OS_TICK_PER_SECOND\<close> is 100: milliseconds round up to whole ticks.\<close>

definition OS_TICK_PER_SECOND :: u32 where "OS_TICK_PER_SECOND = 100"

definition os_tick_from_ms :: "u32 \<Rightarrow> u32" where
  "os_tick_from_ms ms =
     (let tick = OS_TICK_PER_SECOND * (ms div 1000)
      in tick + (OS_TICK_PER_SECOND * (ms mod 1000) + 999) div 1000)"

text \<open>
  \<^verbatim>\<open>os_tickless_get_sleep_ticks\<close> and \<^verbatim>\<open>os_tickless_update\<close>, with the timer module's answer
  and its own update passed in.
\<close>

definition os_tickless_get_sleep_ticks :: "u32 \<Rightarrow> kernel \<Rightarrow> u32" where
  "os_tickless_get_sleep_ticks timer_next k =
     (let n = k_tickq_get_next_ticks k in if n < timer_next then n else timer_next)"

definition os_tickless_update :: "('s \<Rightarrow> 's) \<Rightarrow> u32 \<Rightarrow> 's \<times> kernel \<Rightarrow> 's \<times> kernel" where
  "os_tickless_update timer_update n = (\<lambda>(s, k). (timer_update s, k_tick_update n k))"

subsection \<open>The tick interrupt\<close>

text \<open>One iteration of the loop that wakes the tasks of the current bucket.\<close>

definition tick_wake :: "tid \<Rightarrow> kernel \<Rightarrow> bool \<Rightarrow> (kernel \<times> bool) res" where
  "tick_wake t k is_sched =
     (let k1 = clear_task_state t OS_TASK_STATE_SLEEP (k_tickq_remove t k);
          k2 = (if has_flag (tstate k1 t) OS_TASK_STATE_BLOCK then
                  upd_task t (\<lambda>x. x\<lparr>switch_retval := OS_ETIMEOUT\<rparr>)
                    (clear_task_state t OS_TASK_STATE_BLOCK
                      (k1\<lparr>task_lists := list_del (task_lists k1) t\<rparr>))
                else k1)
      in if tstate k2 t \<noteq> OS_TASK_STATE_SUSPEND then
           bind_res (k_readyq_put t (set_task_state t OS_TASK_STATE_READY k2)) (\<lambda>k3. OK (k3, True))
         else OK (k2, is_sched))"

lemma k_readyq_put_tickq: "k_readyq_put t k = OK k' \<Longrightarrow> tickq_bucket k' = tickq_bucket k"
  by (auto simp: k_readyq_put_def k_readq_bmap_set_def Let_def split: if_splits option.splits)

lemma tick_wake_tickq:
  "tick_wake t k s = OK (k', s') \<Longrightarrow> tickq_bucket k' = list_del (tickq_bucket k) t"
  by (auto simp: tick_wake_def Let_def res_simps task_state_upd k_tickq_remove_def
      dest!: k_readyq_put_tickq split: if_splits)

function tick_wake_loop :: "nat \<Rightarrow> kernel \<Rightarrow> bool \<Rightarrow> (kernel \<times> bool) res" where
  "tick_wake_loop b k is_sched =
     (case tickq_bucket k b of [] \<Rightarrow> OK (k, is_sched)
      | t # _ \<Rightarrow>
         if 0 < sint (tick_absolute (tasks k t) - os_tick k) then OK (k, is_sched)
         else (case tick_wake t k is_sched of Fault e \<Rightarrow> Fault e
               | OK (k', s') \<Rightarrow> tick_wake_loop b k' s'))"
  by pat_completeness auto
termination
  by (relation "measure (\<lambda>(b, k, s). length (tickq_bucket k b))")
     (auto simp: list_del_apply le_imp_less_Suc length_removeAll_less_eq dest!: tick_wake_tickq)

declare tick_wake_loop.simps [simp del]

text \<open>
  The round-robin part: when the slice of the running task is used up it is refilled, and
  the task goes behind its equals if it shares its list with another one (its
  \<^verbatim>\<open>task_node.next\<close> then differs from its \<^verbatim>\<open>task_node.prev\<close>).
\<close>

definition list_shared :: "klists \<Rightarrow> tid \<Rightarrow> bool" where
  "list_shared L t \<longleftrightarrow> (\<exists>p \<in> set (map RQ [0..<32]). t \<in> set (L p) \<and> 2 \<le> length (L p))"

definition tick_time_slice :: "tid \<Rightarrow> kernel \<Rightarrow> bool \<Rightarrow> (kernel \<times> bool) res" where
  "tick_time_slice c k is_sched =
     (let k1 = upd_task c (\<lambda>x. x\<lparr>remaining_time_slice := remaining_time_slice x - 1\<rparr>) k
      in if remaining_time_slice (tasks k1 c) = 0 then
           (let k2 = upd_task c (\<lambda>x. x\<lparr>remaining_time_slice := time_slice x\<rparr>) k1
            in if has_flag (tstate k2 c) OS_TASK_STATE_READY \<and> list_shared (task_lists k2) c
               then bind_res (k_readyq_move_tail c k2) (\<lambda>k3. OK (k3, True))
               else OK (k2, is_sched))
         else OK (k1, is_sched))"

definition os_tick_increase ::
  "('s \<Rightarrow> kernel \<Rightarrow> ('s \<times> kernel \<times> bool) res) \<Rightarrow> 's \<Rightarrow> kernel \<Rightarrow> ('s \<times> kernel) res" where
  "os_tick_increase timer_need_handle s k =
     (case current_task k of None \<Rightarrow> OK (s, k)
      | Some c \<Rightarrow>
         (let k1 = k\<lparr>os_tick := os_tick k + 1\<rparr>;
              b = tick_bucket (os_tick k1)
          in bind_res (tick_wake_loop b k1 False) (\<lambda>(k2, sched2).
             bind_res (tick_time_slice c k2 sched2) (\<lambda>(k3, sched3).
             bind_res (timer_need_handle s k3) (\<lambda>(s4, k4, need).
               OK (s4, if need \<or> sched3 then k_kernel_exit_sched k4 else k4))))))"

end
