(* ===== verification/Os_Block.thy ===== *)
theory Os_Block
  imports Os_Clock
begin

text \<open>
  \<^verbatim>\<open>oneos/kernel/source/os_block.c\<close>: how a task is put to sleep on the wait list of a
  kernel object, with an optional timeout, and how it is woken again.
\<close>

definition k_blockq_insert :: "list_head \<Rightarrow> tid \<Rightarrow> kernel \<Rightarrow> kernel" where
  "k_blockq_insert h t k = k\<lparr>task_lists :=
     list_add_before (task_lists k) h (\<lambda>i. prio k t < prio k i) t\<rparr>"

definition k_block_task :: "list_head \<Rightarrow> tid \<Rightarrow> u32 \<Rightarrow> bool \<Rightarrow> kernel \<Rightarrow> kernel res" where
  "k_block_task h t timeout wake_prio k =
     bind_res (k_readyq_remove t k) (\<lambda>k1.
       let k2 = set_task_state t OS_TASK_STATE_BLOCK (clear_task_state t OS_TASK_STATE_READY k1);
           k3 = (if wake_prio then k_blockq_insert h t k2
                 else k2\<lparr>task_lists := list_add_tail (task_lists k2) h t\<rparr>);
           k4 = (if timeout \<noteq> OS_WAIT_FOREVER
                 then k_tickq_put t timeout (set_task_state t OS_TASK_STATE_SLEEP k3) else k3)
       in OK (upd_task t (\<lambda>x. x\<lparr>block_list_head := Some h, is_wake_prio := wake_prio,
                               switch_retval := OS_EOK\<rparr>) k4))"

definition k_unblock_task :: "tid \<Rightarrow> kernel \<Rightarrow> kernel res" where
  "k_unblock_task t k =
     (let k1 = clear_task_state t OS_TASK_STATE_BLOCK (k\<lparr>task_lists := list_del (task_lists k) t\<rparr>);
          k2 = (if has_flag (tstate k1 t) OS_TASK_STATE_SLEEP
                then clear_task_state t OS_TASK_STATE_SLEEP (k_tickq_remove t k1) else k1)
      in bind_res (if tstate k2 t \<noteq> OS_TASK_STATE_SUSPEND
                   then k_readyq_put t (set_task_state t OS_TASK_STATE_READY k2) else OK k2)
           (\<lambda>k3. OK (upd_task t (\<lambda>x. x\<lparr>block_list_head := None\<rparr>) k3)))"

lemma k_readyq_put_lists:
  "k_readyq_put t k = OK k' \<Longrightarrow>
   task_lists k' = list_add_tail (task_lists k) (RQ (unat (prio k t))) t \<and> tasks k' = tasks k"
  by (auto simp: k_readyq_put_def k_readq_bmap_set_def Let_def split: if_splits option.splits)

lemma k_unblock_task_WQ:
  "k_unblock_task t k = OK k' \<Longrightarrow> task_lists k' (WQ w) = removeAll t (task_lists k (WQ w))"
  by (auto simp: k_unblock_task_def Let_def res_simps task_state_upd k_tickq_remove_def klist_simps
      dest!: k_readyq_put_lists split: if_splits)

text \<open>
  \<^verbatim>\<open>k_cancle_all_blocked_task\<close> empties a wait list; every woken task sees
  \<^verbatim>\<open>OS_ERROR\<close>. The loop ends because waking the first task shortens the list.
\<close>

function k_cancle_all_blocked_task :: "nat \<Rightarrow> kernel \<Rightarrow> kernel res" where
  "k_cancle_all_blocked_task w k =
     (case task_lists k (WQ w) of [] \<Rightarrow> OK k
      | t # _ \<Rightarrow>
         (case k_unblock_task t k of Fault e \<Rightarrow> Fault e
          | OK k' \<Rightarrow> k_cancle_all_blocked_task w (upd_task t (\<lambda>x. x\<lparr>switch_retval := OS_ERROR\<rparr>) k')))"
  by pat_completeness auto
termination
  by (relation "measure (\<lambda>(w, k). length (task_lists k (WQ w)))")
     (auto simp: k_unblock_task_WQ le_imp_less_Suc length_removeAll_less_eq)

declare k_cancle_all_blocked_task.simps [simp del]

text \<open>
  \<^verbatim>\<open>k_get_blocked_task\<close>: the first \<open>n\<close> waiting tasks, for the shell's listings.
\<close>

definition k_get_blocked_task :: "list_head \<Rightarrow> nat \<Rightarrow> kernel \<Rightarrow> tid list" where
  "k_get_blocked_task h n k = take n (task_lists k h)"

end
