(* ===== verification/Kernel_Inv.thy ===== *)
theory Kernel_Inv
  imports Os_Block
begin

text \<open>
  The invariant that ties task states to queues: a ready task is in the list of its
  priority, a blocked task in the wait list it recorded, a sleeping task in the bucket of
  its deadline, and no task anywhere else. Each queue primitive of the kernel keeps it.
\<close>

subsection \<open>Where a task belongs\<close>

definition home :: "os_task \<Rightarrow> list_head option" where
  "home x = (if has_flag (state x) OS_TASK_STATE_READY then Some (RQ (unat (current_priority x)))
             else if has_flag (state x) OS_TASK_STATE_BLOCK then block_list_head x else None)"

definition tick_home :: "os_task \<Rightarrow> nat option" where
  "tick_home x = (if has_flag (state x) OS_TASK_STATE_SLEEP
                  then Some (tick_bucket (tick_absolute x)) else None)"

definition task_wf :: "os_task \<Rightarrow> bool" where
  "task_wf x \<longleftrightarrow> unat (current_priority x) < 32 \<and> unat (backup_priority x) < 32
     \<and> (has_flag (state x) OS_TASK_STATE_READY \<longrightarrow>
          \<not> has_flag (state x) OS_TASK_STATE_SLEEP \<and> \<not> has_flag (state x) OS_TASK_STATE_BLOCK)
     \<and> (has_flag (state x) OS_TASK_STATE_BLOCK \<longrightarrow> (\<exists>w. block_list_head x = Some (WQ w)))"

text \<open>
  The idle task \<open>i\<close> is always ready: it never blocks, so the ready queue never runs empty.
\<close>

definition kinv :: "tid \<Rightarrow> kernel \<Rightarrow> bool" where
  "kinv i k \<longleftrightarrow> readyq_sync k = k
     \<and> (\<forall>h. distinct (task_lists k h)) \<and> (\<forall>b. distinct (tickq_bucket k b))
     \<and> (\<forall>t h. t \<in> set (task_lists k h) \<longleftrightarrow> home (tasks k t) = Some h)
     \<and> (\<forall>t b. t \<in> set (tickq_bucket k b) \<longleftrightarrow> tick_home (tasks k t) = Some b)
     \<and> (\<forall>t. task_wf (tasks k t))
     \<and> has_flag (tstate k i) OS_TASK_STATE_READY"

lemma kinvD:
  assumes "kinv i k"
  shows "readyq_sync k = k" "distinct (task_lists k h)" "distinct (tickq_bucket k b)"
    "t \<in> set (task_lists k h) \<longleftrightarrow> home (tasks k t) = Some h"
    "t \<in> set (tickq_bucket k b) \<longleftrightarrow> tick_home (tasks k t) = Some b"
    "task_wf (tasks k t)" "has_flag (tstate k i) OS_TASK_STATE_READY"
  using assms by (auto simp: kinv_def)

lemma task_wfD:
  assumes "task_wf x"
  shows "unat (current_priority x) < 32" "unat (backup_priority x) < 32"
    "has_flag (state x) OS_TASK_STATE_READY \<Longrightarrow> \<not> has_flag (state x) OS_TASK_STATE_SLEEP"
    "has_flag (state x) OS_TASK_STATE_READY \<Longrightarrow> \<not> has_flag (state x) OS_TASK_STATE_BLOCK"
    "has_flag (state x) OS_TASK_STATE_BLOCK \<Longrightarrow> \<exists>w. block_list_head x = Some (WQ w)"
  using assms by (auto simp: task_wf_def)

lemma home_RQ:
  "task_wf x \<Longrightarrow> home x = Some (RQ p) \<longleftrightarrow>
     has_flag (state x) OS_TASK_STATE_READY \<and> unat (current_priority x) = p"
  by (auto simp: home_def dest: task_wfD(5))

lemma kinv_lists_ok: "kinv i k \<Longrightarrow> lists_ok k"
  unfolding lists_ok_def lists_wf_def
  by (auto simp: kinvD(2,4) home_RQ[OF kinvD(6)] dest: task_wfD(1)[OF kinvD(6)])

lemma kinv_readyq_ok [simp]: "kinv i k \<Longrightarrow> readyq_ok k"
  by (simp add: readyq_ok_iff_sync kinv_lists_ok kinvD(1))

lemma kinv_in_readyq: "kinv i k \<Longrightarrow> in_readyq k t \<longleftrightarrow> has_flag (tstate k t) OS_TASK_STATE_READY"
  by (simp add: in_readyq_def kinvD(4) home_RQ[OF kinvD(6)])

lemma kinv_prio [simp]: "kinv i k \<Longrightarrow> unat (prio k t) < 32"
  by (rule task_wfD(1)[OF kinvD(6)])

text \<open>Removing a task other than the idle one leaves a task to run.\<close>

lemma kinv_more_ready:
  assumes "kinv i k" "t \<noteq> i"
  shows "best_ready (list_del (task_lists k) t) \<noteq> None"
proof -
  have "i \<in> set (task_lists k (RQ (unat (prio k i))))"
    using kinv_in_readyq[OF assms(1)] kinvD(7)[OF assms(1)] by (simp add: in_readyq_def)
  then have "i \<in> set (list_del (task_lists k) t (RQ (unat (prio k i))))"
    using assms(2) by (simp add: klist_simps)
  then show ?thesis using kinv_prio[OF assms(1)] unfolding best_ready_None_iff by force
qed

subsection \<open>One task moves\<close>

text \<open>
  Every primitive rewrites one task control block and relinks that task. This is the
  common argument: the other tasks keep their places.
\<close>

lemma kinv_moveI:
  assumes "kinv i k" and "tasks k' = (tasks k)(t := x)" "task_wf x" "readyq_sync k' = k'"
    and "\<And>h. distinct (task_lists k' h)" "\<And>b. distinct (tickq_bucket k' b)"
    and "\<And>u h. u \<noteq> t \<Longrightarrow> u \<in> set (task_lists k' h) \<longleftrightarrow> u \<in> set (task_lists k h)"
    and "\<And>u b. u \<noteq> t \<Longrightarrow> u \<in> set (tickq_bucket k' b) \<longleftrightarrow> u \<in> set (tickq_bucket k b)"
    and "\<And>h. t \<in> set (task_lists k' h) \<longleftrightarrow> home x = Some h"
    and "\<And>b. t \<in> set (tickq_bucket k' b) \<longleftrightarrow> tick_home x = Some b"
    and "t = i \<Longrightarrow> has_flag (state x) OS_TASK_STATE_READY"
  shows "kinv i k'"
  using assms by (auto simp: kinv_def)

text \<open>An update that changes neither place nor well-formedness.\<close>

lemma kinv_upd_task:
  assumes "kinv i k" "home (f (tasks k t)) = home (tasks k t)"
    and "tick_home (f (tasks k t)) = tick_home (tasks k t)" "task_wf (f (tasks k t))"
    and "t = i \<Longrightarrow> has_flag (state (f (tasks k t))) OS_TASK_STATE_READY"
  shows "kinv i (upd_task t f k)"
proof (rule kinv_moveI[OF assms(1), where t = t and x = "f (tasks k t)"])
  show "readyq_sync (upd_task t f k) = upd_task t f k"
    using kinvD(1)[OF assms(1)] by (simp add: readyq_synced_iff)
qed (use assms in \<open>auto simp: upd_task_def kinvD\<close>)

subsection \<open>Making a task ready\<close>

lemma home_None: "home x = None \<longleftrightarrow> \<not> has_flag (state x) OS_TASK_STATE_READY \<and>
    (has_flag (state x) OS_TASK_STATE_BLOCK \<longrightarrow> block_list_head x = None)"
  by (simp add: home_def)

lemma kinv_unlinked: "kinv i k \<Longrightarrow> unlinked (task_lists k) t \<longleftrightarrow> home (tasks k t) = None"
  by (auto simp: unlinked_def kinvD(4))

lemma kinv_not_RQ:
  "kinv i k \<Longrightarrow> \<not> has_flag (tstate k t) OS_TASK_STATE_READY \<Longrightarrow> t \<notin> set (task_lists k (RQ p))"
  by (simp add: kinvD(4) home_RQ[OF kinvD(6)])

text \<open>
  A task that is neither ready, nor blocked, nor asleep after the update \<open>f\<close>, and that has
  been unlinked from its wait list and its bucket, can be made ready: this is the second
  half of \<^verbatim>\<open>k_unblock_task\<close>, of the tick interrupt, of \<^verbatim>\<open>os_task_startup\<close> and of
  \<^verbatim>\<open>os_task_resume\<close>.
\<close>

lemma make_ready:
  assumes inv: "kinv i k" and nr: "\<not> has_flag (tstate k t) OS_TASK_STATE_READY"
    and x: "has_flag (state x) OS_TASK_STATE_READY" "\<not> has_flag (state x) OS_TASK_STATE_SLEEP"
      "\<not> has_flag (state x) OS_TASK_STATE_BLOCK" "current_priority x = prio k t"
      "backup_priority x = backup_priority (tasks k t)"
    and k1: "k1 = k\<lparr>tasks := (tasks k)(t := x), task_lists := list_del (task_lists k) t,
      tickq_bucket := list_del (tickq_bucket k) t\<rparr>"
  shows "\<exists>k'. k_readyq_put t k1 = OK k' \<and> kinv i k' \<and>
    k' = readyq_sync (k1\<lparr>task_lists := list_add_tail (task_lists k1) (RQ (unat (prio k t))) t\<rparr>)"
proof -
  have notin: "t \<notin> set (task_lists k (RQ p))" for p by (rule kinv_not_RQ[OF inv nr])
  have "readyq_ok k1"
    using kinv_readyq_ok[OF inv] notin readyq_del_waiting[of t "task_lists k"] x(4)
    unfolding readyq_ok_iff_sync readyq_synced_iff k1
    by (auto simp: lists_ok_def klist_simps)
  then have put: "k_readyq_put t k1 =
      OK (readyq_sync (k1\<lparr>task_lists := list_add_tail (task_lists k1) (RQ (unat (prio k t))) t\<rparr>))"
    using k_readyq_put_refines[of k1 t] kinv_prio[OF inv] x(4) by (simp add: k1)
  moreover have "kinv i (readyq_sync (k1\<lparr>task_lists := list_add_tail (task_lists k1) (RQ (unat (prio k t))) t\<rparr>))"
    (is "kinv i ?k")
  proof (rule kinv_moveI[OF inv, where t = t and x = x])
    show "task_wf x" using x task_wfD[OF kinvD(6)[OF inv, of t]] by (simp add: task_wf_def)
    show "t \<in> set (task_lists ?k h) \<longleftrightarrow> home x = Some h" for h
      using x by (auto simp: k1 klist_simps home_def)
    show "t \<in> set (tickq_bucket ?k b) \<longleftrightarrow> tick_home x = Some b" for b
      using x by (simp add: k1 klist_simps tick_home_def)
  qed (use x kinvD[OF inv] in \<open>auto simp: k1 klist_simps distinct_removeAll\<close>)
  ultimately show ?thesis by blast
qed

subsection \<open>Taking a task off the ready queue\<close>

lemma leave_ready:
  assumes inv: "kinv i k" and r: "has_flag (tstate k t) OS_TASK_STATE_READY" and ti: "t \<noteq> i"
    and x: "task_wf x"
    and k': "tasks k' = (tasks k)(t := x)"
      "high_task k' = best_ready (list_del (task_lists k) t)"
      "priority_bmap k' = bmap_of (list_del (task_lists k) t)"
    and rq: "\<And>p. task_lists k' (RQ p) = list_del (task_lists k) t (RQ p)"
    and d: "\<And>h. distinct (task_lists k' h)" "\<And>b. distinct (tickq_bucket k' b)"
    and o: "\<And>u h. u \<noteq> t \<Longrightarrow> u \<in> set (task_lists k' h) \<longleftrightarrow> u \<in> set (task_lists k h)"
      "\<And>u b. u \<noteq> t \<Longrightarrow> u \<in> set (tickq_bucket k' b) \<longleftrightarrow> u \<in> set (tickq_bucket k b)"
    and t: "\<And>h. t \<in> set (task_lists k' h) \<longleftrightarrow> home x = Some h"
      "\<And>b. t \<in> set (tickq_bucket k' b) \<longleftrightarrow> tick_home x = Some b"
  shows "kinv i k'"
proof (rule kinv_moveI[OF inv k'(1) x _ d o t])
  have "best_ready (task_lists k') = best_ready (list_del (task_lists k) t)"
    "bmap_of (task_lists k') = bmap_of (list_del (task_lists k) t)"
    by (auto intro!: best_ready_cong bmap_of_cong simp: rq)
  then show "readyq_sync k' = k'" by (simp add: readyq_synced_iff k')
qed (use ti in auto)

lemma kinv_remove:
  assumes "kinv i k" "has_flag (tstate k t) OS_TASK_STATE_READY" "t \<noteq> i"
  shows "k_readyq_remove t k = OK (readyq_sync (k\<lparr>task_lists := list_del (task_lists k) t\<rparr>))"
  using assms by (simp add: k_readyq_remove_refines kinv_in_readyq kinv_more_ready)

text \<open>Removing the only ready task would index \<^verbatim>\<open>priority_list_array[255]\<close>.\<close>

lemma k_readyq_remove_last:
  assumes ok: "readyq_ok k" and t: "in_readyq k t"
    and only: "best_ready (list_del (task_lists k) t) = None"
  shows "k_readyq_remove t k = Fault OutOfRange"
proof -
  let ?L = "list_del (task_lists k) t" and ?p = "unat (prio k t)"
  have p: "?p < 32" by (rule in_readyq_bound[OF ok t])
  have e: "?L (RQ q) = []" for q
    using only readyq_ok_priority_bound[OF ok, of q]
    by (cases "task_lists k (RQ q) = []") (auto simp: best_ready_None_iff klist_simps)
  have "high_task k = Some t"
    using in_readyq_best_Some[OF ok t] best_ready_del_other[of "task_lists k" _ t] only
    by (auto simp: readyq_okD(4)[OF ok])
  moreover have "priority_bmap (k_readq_bmap_clear (prio k t) (k\<lparr>task_lists := ?L\<rparr>)) = bmap_of ?L"
    using bmap_clear_eq[OF ok e list_del_other_priority[OF ok]] by (simp add: k_readq_bmap_clear_def)
  moreover have "bmap_of ?L = 0"
    by (rule bit_eqI) (simp add: bit_bmap_of e)
  ultimately show ?thesis
    using p e by (simp add: k_readyq_remove_def Let_def OS_TASK_PRIORITY_MAX_def
        readyq_first_def k_readyq_highest_def os_ffs_def find_None_iff)
qed

subsection \<open>Blocking\<close>

text \<open>What \<^verbatim>\<open>k_block_task\<close> leaves behind: the control block, the wait list, the bucket.\<close>

definition blocked_tcb :: "list_head \<Rightarrow> u32 \<Rightarrow> bool \<Rightarrow> u32 \<Rightarrow> os_task \<Rightarrow> os_task" where
  "blocked_tcb h timeout wake_prio now x =
     (let y = x\<lparr>state := (state x AND NOT OS_TASK_STATE_READY) OR OS_TASK_STATE_BLOCK,
                block_list_head := Some h, is_wake_prio := wake_prio, switch_retval := OS_EOK\<rparr>
      in if timeout = OS_WAIT_FOREVER then y
         else y\<lparr>state := state y OR OS_TASK_STATE_SLEEP, tick_timeout := timeout,
                tick_absolute := now + timeout\<rparr>)"

definition wait_insert :: "list_head \<Rightarrow> tid \<Rightarrow> bool \<Rightarrow> kernel \<Rightarrow> klists" where
  "wait_insert h t wake_prio k =
     (if wake_prio then list_add_before (list_del (task_lists k) t) h (\<lambda>i. prio k t < prio k i) t
      else list_add_tail (list_del (task_lists k) t) h t)"

definition tick_insert :: "tid \<Rightarrow> u32 \<Rightarrow> kernel \<Rightarrow> nat \<Rightarrow> tid list" where
  "tick_insert t timeout k =
     (if timeout = OS_WAIT_FOREVER then tickq_bucket k
      else list_add_before (tickq_bucket k) (tick_bucket (os_tick k + timeout))
             (\<lambda>i. timeout < (if i = t then os_tick k + timeout else tick_absolute (tasks k i)) - os_tick k) t)"

lemma k_block_task_eq:
  assumes "kinv i k" "has_flag (tstate k t) OS_TASK_STATE_READY" "t \<noteq> i"
  shows "k_block_task h t timeout wp k =
    OK (k\<lparr>tasks := (tasks k)(t := blocked_tcb h timeout wp (os_tick k) (tasks k t)),
          task_lists := wait_insert h t wp k, tickq_bucket := tick_insert t timeout k,
          priority_bmap := bmap_of (list_del (task_lists k) t),
          high_task := best_ready (list_del (task_lists k) t)\<rparr>)"
  unfolding k_block_task_def kinv_remove[OF assms] bind_res.simps Let_def res.inject
  by (rule kernel.equality)
     (auto simp: upd_task_def task_state_upd k_blockq_insert_def k_tickq_put_def readyq_sync_def
       blocked_tcb_def wait_insert_def tick_insert_def Let_def fun_eq_iff list_add_before_def
       intro!: insert_before_cong)

lemma set_wait_insert [simp]:
  "u \<in> set (wait_insert h t wp k h') \<longleftrightarrow> (u = t \<and> h' = h) \<or> (u \<noteq> t \<and> u \<in> set (task_lists k h'))"
  by (auto simp: wait_insert_def klist_simps)

lemma wait_insert_RQ [simp]: "wait_insert (WQ w) t wp k (RQ p) = list_del (task_lists k) t (RQ p)"
  by (simp add: wait_insert_def klist_simps)

lemma distinct_wait_insert: "distinct (task_lists k h') \<Longrightarrow> distinct (wait_insert h t wp k h')"
  by (auto simp: wait_insert_def klist_simps distinct_removeAll)

lemma set_tick_insert:
  "u \<in> set (tick_insert t timeout k b) \<longleftrightarrow>
     (timeout \<noteq> OS_WAIT_FOREVER \<and> u = t \<and> b = tick_bucket (os_tick k + timeout)) \<or>
     u \<in> set (tickq_bucket k b)"
  by (auto simp: tick_insert_def klist_simps)

lemma blocked_tcb_simps [simp]:
  "current_priority (blocked_tcb h timeout wp now x) = current_priority x"
  "backup_priority (blocked_tcb h timeout wp now x) = backup_priority x"
  "block_list_head (blocked_tcb h timeout wp now x) = Some h"
  "switch_retval (blocked_tcb h timeout wp now x) = OS_EOK"
  "is_wake_prio (blocked_tcb h timeout wp now x) = wp"
  "timeout \<noteq> OS_WAIT_FOREVER \<Longrightarrow> tick_absolute (blocked_tcb h timeout wp now x) = now + timeout"
  "swap_data (blocked_tcb h timeout wp now x) = swap_data x"
  "event_set (blocked_tcb h timeout wp now x) = event_set x"
  "event_option (blocked_tcb h timeout wp now x) = event_option x"
  "hold_mutex_list (blocked_tcb h timeout wp now x) = hold_mutex_list x"
  by (simp_all add: blocked_tcb_def Let_def)

lemma blocked_tcb_flags [simp]:
  "\<not> has_flag (state (blocked_tcb h timeout wp now x)) OS_TASK_STATE_READY"
  "has_flag (state (blocked_tcb h timeout wp now x)) OS_TASK_STATE_BLOCK"
  "has_flag (state (blocked_tcb h timeout wp now x)) OS_TASK_STATE_SLEEP \<longleftrightarrow>
     timeout \<noteq> OS_WAIT_FOREVER \<or> has_flag (state x) OS_TASK_STATE_SLEEP"
  by (simp_all add: blocked_tcb_def Let_def flag_simps)

lemma kinv_not_asleep:
  "kinv i k \<Longrightarrow> has_flag (tstate k t) OS_TASK_STATE_READY \<Longrightarrow> t \<notin> set (tickq_bucket k b)"
  by (simp add: kinvD(5) tick_home_def task_wfD(3)[OF kinvD(6)])

lemma k_block_task_kinv:
  assumes inv: "kinv i k" and r: "has_flag (tstate k t) OS_TASK_STATE_READY" and ti: "t \<noteq> i"
    and b: "k_block_task (WQ w) t timeout wp k = OK k'"
  shows "kinv i k'"
proof -
  note k' = b[unfolded k_block_task_eq[OF inv r ti] res.inject, symmetric]
  have slp: "\<not> has_flag (tstate k t) OS_TASK_STATE_SLEEP"
    by (rule task_wfD(3)[OF kinvD(6)[OF inv] r])
  let ?x = "blocked_tcb (WQ w) timeout wp (os_tick k) (tasks k t)"
  show ?thesis
  proof (rule leave_ready[OF inv r ti, where x = ?x])
    show "task_wf ?x" using task_wfD(1,2)[OF kinvD(6)[OF inv, of t]] by (simp add: task_wf_def)
    show "distinct (task_lists k' h)" for h by (simp add: k' distinct_wait_insert kinvD(2)[OF inv])
    show "distinct (tickq_bucket k' b)" for b
      using kinv_not_asleep[OF inv r] kinvD(3)[OF inv] by (simp add: k' tick_insert_def klist_simps)
    show "t \<in> set (task_lists k' h) \<longleftrightarrow> home ?x = Some h" for h by (auto simp: k' home_def)
    show "t \<in> set (tickq_bucket k' b) \<longleftrightarrow> tick_home ?x = Some b" for b
      using kinv_not_asleep[OF inv r] slp by (auto simp: k' set_tick_insert tick_home_def)
  qed (auto simp: k' set_tick_insert)
qed

subsection \<open>Waking up\<close>

text \<open>
  The control block of a task that leaves its wait list: the block and sleep flags are
  gone, and it is ready unless nothing but the suspend flag was left.
\<close>

definition woken_tcb :: "os_task \<Rightarrow> os_task" where
  "woken_tcb x =
     (let s = (state x AND NOT OS_TASK_STATE_BLOCK) AND NOT OS_TASK_STATE_SLEEP
      in if s = OS_TASK_STATE_SUSPEND then x\<lparr>state := s\<rparr>
         else x\<lparr>state := s OR OS_TASK_STATE_READY\<rparr>)"

definition woken :: "tid \<Rightarrow> kernel \<Rightarrow> kernel" where
  "woken t k =
     (let k1 = k\<lparr>tasks := (tasks k)(t := woken_tcb (tasks k t)),
                task_lists := list_del (task_lists k) t, tickq_bucket := list_del (tickq_bucket k) t\<rparr>
      in if has_flag (tstate k1 t) OS_TASK_STATE_READY
         then readyq_sync (k1\<lparr>task_lists := list_add_tail (task_lists k1) (RQ (unat (prio k t))) t\<rparr>)
         else k1)"

lemma woken_tcb_simps [simp]:
  "current_priority (woken_tcb x) = current_priority x" "backup_priority (woken_tcb x) = backup_priority x"
  "block_list_head (woken_tcb x) = block_list_head x" "switch_retval (woken_tcb x) = switch_retval x"
  "swap_data (woken_tcb x) = swap_data x" "event_set (woken_tcb x) = event_set x"
  "hold_mutex_list (woken_tcb x) = hold_mutex_list x" "event_option (woken_tcb x) = event_option x"
  by (simp_all add: woken_tcb_def Let_def)

lemma woken_tcb_flags [simp]:
  "\<not> has_flag (state (woken_tcb x)) OS_TASK_STATE_BLOCK"
  "\<not> has_flag (state (woken_tcb x)) OS_TASK_STATE_SLEEP"
  by (simp_all add: woken_tcb_def Let_def flag_simps)

lemma kinv_woken:
  assumes inv: "kinv i k" and nr: "\<not> has_flag (tstate k t) OS_TASK_STATE_READY"
  shows "kinv i (woken t k)"
proof (cases "has_flag (state (woken_tcb (tasks k t))) OS_TASK_STATE_READY")
  case True
  then show ?thesis
    using make_ready[OF inv nr True _ _ _ _ refl] by (simp add: woken_def Let_def)
next
  case False
  have "t \<noteq> i" using nr kinvD(7)[OF inv] by auto
  have notin: "t \<notin> set (task_lists k (RQ p))" for p by (rule kinv_not_RQ[OF inv nr])
  show ?thesis
  proof (rule kinv_moveI[OF inv, where t = t and x = "woken_tcb (tasks k t)"])
    show "task_wf (woken_tcb (tasks k t))"
      using task_wfD(1,2)[OF kinvD(6)[OF inv, of t]] False by (simp add: task_wf_def)
    show "readyq_sync (woken t k) = woken t k"
      using kinvD(1)[OF inv] notin False
      by (simp add: woken_def Let_def readyq_synced_iff readyq_del_waiting)
  qed (use False \<open>t \<noteq> i\<close> kinvD(2,3)[OF inv] in
        \<open>auto simp: woken_def Let_def klist_simps home_def tick_home_def distinct_removeAll\<close>)
qed

lemma woken_tcb_ready:
  "\<not> has_flag (state x) OS_TASK_STATE_READY \<Longrightarrow>
   has_flag (state (woken_tcb x)) OS_TASK_STATE_READY \<longleftrightarrow>
     (state x AND NOT OS_TASK_STATE_BLOCK) AND NOT OS_TASK_STATE_SLEEP \<noteq> OS_TASK_STATE_SUSPEND"
  by (auto simp: woken_tcb_def Let_def flag_simps)

text \<open>The common middle state of \<^verbatim>\<open>k_unblock_task\<close> and the tick interrupt.\<close>

definition unhooked :: "tid \<Rightarrow> kernel \<Rightarrow> kernel" where
  "unhooked t k = k\<lparr>tasks := (tasks k)(t := (tasks k t)\<lparr>state :=
       (tstate k t AND NOT OS_TASK_STATE_BLOCK) AND NOT OS_TASK_STATE_SLEEP\<rparr>),
     task_lists := list_del (task_lists k) t, tickq_bucket := list_del (tickq_bucket k) t\<rparr>"

lemma unhooked_put:
  assumes inv: "kinv i k" and nr: "\<not> has_flag (tstate k t) OS_TASK_STATE_READY"
  shows "(if tstate (unhooked t k) t \<noteq> OS_TASK_STATE_SUSPEND
          then k_readyq_put t (set_task_state t OS_TASK_STATE_READY (unhooked t k)) else OK (unhooked t k)) =
         OK (woken t k)"
proof (cases "has_flag (state (woken_tcb (tasks k t))) OS_TASK_STATE_READY")
  case True
  let ?x = "woken_tcb (tasks k t)"
  have s: "tstate (unhooked t k) t \<noteq> OS_TASK_STATE_SUSPEND"
    using True woken_tcb_ready[OF nr] by (simp add: unhooked_def)
  have "set_task_state t OS_TASK_STATE_READY (unhooked t k) = k\<lparr>tasks := (tasks k)(t := ?x),
      task_lists := list_del (task_lists k) t, tickq_bucket := list_del (tickq_bucket k) t\<rparr>"
    using s by (simp add: task_state_upd upd_task_def unhooked_def woken_tcb_def Let_def)
  then show ?thesis
    using make_ready[OF inv nr True _ _ _ _ refl] True s by (simp add: woken_def Let_def)
next
  case False
  then have s: "tstate (unhooked t k) t = OS_TASK_STATE_SUSPEND"
    using woken_tcb_ready[OF nr] by (simp add: unhooked_def)
  then have "unhooked t k = woken t k"
    using False by (simp add: woken_def Let_def unhooked_def woken_tcb_def)
  then show ?thesis using s by simp
qed

lemma kinv_not_sleeping: "kinv i k \<Longrightarrow> \<not> has_flag (tstate k t) OS_TASK_STATE_SLEEP \<Longrightarrow>
    list_del (tickq_bucket k) t = tickq_bucket k"
  by (rule list_del_unlinked) (simp add: unlinked_def kinvD(5) tick_home_def)

lemma kinv_not_linked: "kinv i k \<Longrightarrow> \<not> has_flag (tstate k t) OS_TASK_STATE_READY \<Longrightarrow>
    \<not> has_flag (tstate k t) OS_TASK_STATE_BLOCK \<Longrightarrow> list_del (task_lists k) t = task_lists k"
  by (rule list_del_unlinked) (simp add: kinv_unlinked home_None)

lemma k_unblock_task_eq:
  assumes inv: "kinv i k" and nr: "\<not> has_flag (tstate k t) OS_TASK_STATE_READY"
  shows "k_unblock_task t k = OK (upd_task t (\<lambda>x. x\<lparr>block_list_head := None\<rparr>) (woken t k))"
proof -
  let ?k1 = "clear_task_state t OS_TASK_STATE_BLOCK (k\<lparr>task_lists := list_del (task_lists k) t\<rparr>)"
  have mid: "(if has_flag (tstate ?k1 t) OS_TASK_STATE_SLEEP
         then clear_task_state t OS_TASK_STATE_SLEEP (k_tickq_remove t ?k1) else ?k1) = unhooked t k"
  proof (cases "has_flag (tstate k t) OS_TASK_STATE_SLEEP")
    case True
    then show ?thesis
      by (simp add: task_state_upd upd_task_def k_tickq_remove_def unhooked_def flag_simps)
  next
    case False
    then have "\<not> has_flag (tstate k t AND NOT OS_TASK_STATE_BLOCK) OS_TASK_STATE_SLEEP"
      by (simp add: flag_simps)
    then show ?thesis
      by (simp add: task_state_upd upd_task_def unhooked_def and_not_absent
          kinv_not_sleeping[OF inv False])
  qed
  show ?thesis
    unfolding k_unblock_task_def Let_def mid unhooked_put[OF inv nr] by simp
qed

lemma k_unblock_task_kinv:
  assumes inv: "kinv i k" and nr: "\<not> has_flag (tstate k t) OS_TASK_STATE_READY"
  shows "\<exists>k'. k_unblock_task t k = OK k' \<and> kinv i k'"
proof -
  have w: "tasks (woken t k) t = woken_tcb (tasks k t)" by (simp add: woken_def Let_def)
  have "kinv i (upd_task t (\<lambda>x. x\<lparr>block_list_head := None\<rparr>) (woken t k))"
    using kinv_woken[OF inv nr] kinvD(6)[OF kinv_woken[OF inv nr], of t] kinvD(7)[OF kinv_woken[OF inv nr]]
    by (intro kinv_upd_task) (auto simp: w home_def tick_home_def task_wf_def)
  then show ?thesis by (simp add: k_unblock_task_eq[OF inv nr])
qed

subsection \<open>The tick interrupt\<close>

definition timed_out_tcb :: "os_task \<Rightarrow> os_task \<Rightarrow> os_task" where
  "timed_out_tcb old x =
     (if has_flag (state old) OS_TASK_STATE_BLOCK then x\<lparr>switch_retval := OS_ETIMEOUT\<rparr> else x)"

lemma readyq_put_upd_retval:
  "k_readyq_put t (upd_task t (\<lambda>x. x\<lparr>switch_retval := v\<rparr>) k) =
   bind_res (k_readyq_put t k) (\<lambda>k'. OK (upd_task t (\<lambda>x. x\<lparr>switch_retval := v\<rparr>) k'))"
  by (auto simp: k_readyq_put_def k_readq_bmap_set_def upd_task_def Let_def split: option.splits)

lemma retval_state_commute:
  "x\<lparr>switch_retval := a, state := b\<rparr> = (x::os_task)\<lparr>state := b, switch_retval := a\<rparr>"
  by (cases x) simp

lemma tick_wake_eq:
  assumes inv: "kinv i k" and sl: "has_flag (tstate k t) OS_TASK_STATE_SLEEP"
  shows "tick_wake t k s = OK (upd_task t (timed_out_tcb (tasks k t)) (woken t k),
           s \<or> has_flag (tstate (woken t k) t) OS_TASK_STATE_READY)"
proof -
  have nr: "\<not> has_flag (tstate k t) OS_TASK_STATE_READY"
    using sl task_wfD(3)[OF kinvD(6)[OF inv]] by blast
  have rdy: "has_flag (tstate (woken t k) t) OS_TASK_STATE_READY \<longleftrightarrow>
      tstate (unhooked t k) t \<noteq> OS_TASK_STATE_SUSPEND"
    using woken_tcb_ready[OF nr] by (simp add: woken_def unhooked_def Let_def)
  have ns: "\<not> has_flag OS_TASK_STATE_SUSPEND OS_TASK_STATE_READY" by (simp add: flag_simps)
  let ?k1 = "clear_task_state t OS_TASK_STATE_SLEEP (k_tickq_remove t k)"
  show ?thesis
  proof (cases "has_flag (tstate k t) OS_TASK_STATE_BLOCK")
    case True
    let ?f = "\<lambda>x. x\<lparr>switch_retval := OS_ETIMEOUT\<rparr>"
    have b: "has_flag (tstate ?k1 t) OS_TASK_STATE_BLOCK"
      using True by (simp add: task_state_upd upd_task_def k_tickq_remove_def flag_simps)
    have m: "upd_task t ?f (clear_task_state t OS_TASK_STATE_BLOCK
        (?k1\<lparr>task_lists := list_del (task_lists ?k1) t\<rparr>)) = upd_task t ?f (unhooked t k)"
      by (simp add: task_state_upd upd_task_def unhooked_def k_tickq_remove_def ac_simps)
    have sw: "set_task_state t m (upd_task t ?f k) = upd_task t ?f (set_task_state t m k)" for m k
      by (simp add: task_state_upd upd_task_def retval_state_commute)
    have f: "timed_out_tcb (tasks k t) = ?f" using True by (simp add: timed_out_tcb_def fun_eq_iff)
    show ?thesis
      unfolding tick_wake_def Let_def if_P[OF b] m f sw
      using unhooked_put[OF inv nr]
      by (cases "tstate (unhooked t k) t = OS_TASK_STATE_SUSPEND")
         (simp_all add: rdy ns readyq_put_upd_retval)
  next
    case False
    have b: "\<not> has_flag (tstate ?k1 t) OS_TASK_STATE_BLOCK"
      using False by (simp add: task_state_upd upd_task_def k_tickq_remove_def flag_simps)
    have "?k1 = unhooked t k"
      using kinv_not_linked[OF inv nr False] and_not_absent[OF False]
      by (simp add: task_state_upd upd_task_def unhooked_def k_tickq_remove_def)
    then have u: "(if has_flag (tstate ?k1 t) OS_TASK_STATE_BLOCK then y else ?k1) = unhooked t k" for y
      using b by simp
    have f: "upd_task t (timed_out_tcb (tasks k t)) (woken t k) = woken t k"
      using False by (simp add: timed_out_tcb_def upd_task_def)
    show ?thesis
      unfolding tick_wake_def Let_def u f
      using unhooked_put[OF inv nr]
      by (cases "tstate (unhooked t k) t = OS_TASK_STATE_SUSPEND") (simp_all add: rdy ns)
  qed
qed

lemma kinv_timed_out: "kinv i k \<Longrightarrow> kinv i (upd_task t (timed_out_tcb x) k)"
  using kinvD(6)[of i k t] kinvD(7)[of i k]
  by (intro kinv_upd_task) (auto simp: timed_out_tcb_def home_def tick_home_def task_wf_def)

lemma tick_wake_kinv:
  assumes inv: "kinv i k" and sl: "has_flag (tstate k t) OS_TASK_STATE_SLEEP"
    and "tick_wake t k s = OK (k', s')"
  shows "kinv i k'"
  using assms(3) kinv_woken[OF inv, of t] task_wfD(3)[OF kinvD(6)[OF inv, of t]] sl
  by (auto simp: tick_wake_eq[OF inv sl] intro!: kinv_timed_out)

lemma bucket_head_asleep:
  "kinv i k \<Longrightarrow> tickq_bucket k b = t # ts \<Longrightarrow> has_flag (tstate k t) OS_TASK_STATE_SLEEP"
  using kinvD(5)[of i k t b] by (auto simp: tick_home_def split: if_splits)

lemma tick_wake_loop_kinv:
  "kinv i k \<Longrightarrow> \<exists>k' s'. tick_wake_loop b k s = OK (k', s') \<and> kinv i k'"
proof (induction b k s rule: tick_wake_loop.induct)
  case (1 b k s)
  show ?case
  proof (cases "tickq_bucket k b")
    case Nil
    with 1 show ?thesis by (simp add: tick_wake_loop.simps[of b k])
  next
    case (Cons t ts)
    note sl = bucket_head_asleep[OF 1(2) Cons]
    note w = tick_wake_eq[OF 1(2) sl, of s]
    show ?thesis
      using 1(1)[OF Cons _ w refl] tick_wake_kinv[OF 1(2) sl w] 1(2) Cons w
      by (auto simp: tick_wake_loop.simps[of b k])
  qed
qed

lemma kinv_os_tick [simp]: "kinv i (k\<lparr>os_tick := n\<rparr>) \<longleftrightarrow> kinv i k"
  by (simp add: kinv_def readyq_synced_iff)

lemma kinv_exit_sched [simp]: "kinv i (k_kernel_exit_sched k) \<longleftrightarrow> kinv i k"
  by (simp add: kinv_def readyq_synced_iff k_kernel_exit_sched_def os_task_switch_def Let_def)

text \<open>Updates of the time-slice fields move nothing.\<close>

lemma kinv_slice:
  "kinv i k \<Longrightarrow> kinv i (upd_task t (\<lambda>x. x\<lparr>remaining_time_slice := g x\<rparr>) k)"
  using kinvD(6)[of i k t] kinvD(7)[of i k]
  by (intro kinv_upd_task) (auto simp: home_def tick_home_def task_wf_def)

lemma kinv_move_tail:
  assumes inv: "kinv i k" and r: "has_flag (tstate k t) OS_TASK_STATE_READY"
  shows "\<exists>k'. k_readyq_move_tail t k = OK k' \<and> kinv i k' \<and> tasks k' = tasks k \<and>
    tickq_bucket k' = tickq_bucket k \<and> os_tick k' = os_tick k"
proof -
  let ?k = "readyq_sync (k\<lparr>task_lists := list_add_tail (list_del (task_lists k) t) (RQ (unat (prio k t))) t\<rparr>)"
  have "kinv i ?k"
  proof (rule kinv_moveI[OF inv, where t = t and x = "tasks k t"])
    show "t \<in> set (task_lists ?k h) \<longleftrightarrow> home (tasks k t) = Some h" for h
      using r by (auto simp: klist_simps home_def)
  qed (use kinvD[OF inv] in \<open>auto simp: klist_simps distinct_removeAll\<close>)
  then show ?thesis
    using k_readyq_move_tail_refines[OF kinv_readyq_ok[OF inv]] r kinv_in_readyq[OF inv] by simp
qed

lemma time_slice_update_kinv:
  assumes "kinv i k"
  shows "\<exists>k' s'. tick_time_slice c k s = OK (k', s') \<and> kinv i k'"
proof -
  let ?k = "upd_task c (\<lambda>x. x\<lparr>remaining_time_slice := time_slice x\<rparr>)
    (upd_task c (\<lambda>x. x\<lparr>remaining_time_slice := remaining_time_slice x - 1\<rparr>) k)"
  have "kinv i ?k" by (intro kinv_slice assms)
  then have "has_flag (tstate ?k c) OS_TASK_STATE_READY \<Longrightarrow> \<exists>k'. k_readyq_move_tail c ?k = OK k' \<and> kinv i k'"
    using kinv_move_tail by blast
  then show ?thesis
    by (auto simp: tick_time_slice_def Let_def assms intro!: kinv_slice exI[of _ True])
qed

subsection \<open>Contract of a kernel operation\<close>

text \<open>
  An operation either stops in an assertion or returns a kernel that satisfies the
  invariant: it never indexes out of range and never dereferences a null pointer.
\<close>

primrec kernel_safe :: "tid \<Rightarrow> (kernel \<times> 'a) res \<Rightarrow> bool" where
  "kernel_safe i (OK r) \<longleftrightarrow> kinv i (fst r)"
| "kernel_safe i (Fault f) \<longleftrightarrow> f = AssertFail"

lemma kernel_safe_assert [intro!]: "(c \<Longrightarrow> kernel_safe i m) \<Longrightarrow> kernel_safe i (os_assert c m)"
  by (cases c) simp_all

lemma kernel_safe_bind:
  "\<exists>k'. m = OK k' \<and> kernel_safe i (f k') \<Longrightarrow> kernel_safe i (bind_res m f)"
  by auto

lemma kernel_safeD: "kernel_safe i r \<Longrightarrow> r = OK (k', e) \<Longrightarrow> kinv i k'"
  by simp

end
