(* ===== verification/Os_Task.thy ===== *)
theory Os_Task
  imports Kernel_Inv
begin

text \<open>
  \<^verbatim>\<open>oneos/kernel/source/os_task.c\<close>: creation, start, suspension, priorities, sleeping and
  termination of tasks. Every operation returns the kernel and an error code; a failed
  \<^verbatim>\<open>OS_ASSERT\<close> is a fault. Addresses the allocator returns and the user's clean-up callback
  are arguments.
\<close>

definition OS_NAME_MAX :: nat where "OS_NAME_MAX = 15"

subsection \<open>Initialisation\<close>

definition k_task_init :: "tid \<Rightarrow> string option \<Rightarrow> u8 \<Rightarrow> u8 \<Rightarrow> kernel \<Rightarrow> kernel" where
  "k_task_init t nm priority alloc = upd_task t (\<lambda>x. x\<lparr>
     name := (case nm of None \<Rightarrow> '''' | Some s \<Rightarrow> take OS_NAME_MAX s),
     object_alloc_type := alloc, err_code := OS_EOK, switch_retval := OS_EOK,
     backup_priority := priority, current_priority := priority,
     time_slice := OS_SCHEDULE_TIME_SLICE, remaining_time_slice := OS_SCHEDULE_TIME_SLICE,
     block_list_head := None, hold_mutex_list := [], event_set := 0, event_option := 0,
     swap_data := 0, cleanup := None, user_data := 0\<rparr>)"

definition os_task_init :: "tid \<Rightarrow> string option \<Rightarrow> u32 \<Rightarrow> u8 \<Rightarrow> kernel \<Rightarrow> (kernel \<times> os_err) res" where
  "os_task_init t nm stack_size priority k =
     os_assert (0 < stack_size) (os_assert (unat priority < OS_TASK_PRIORITY_MAX)
     (os_assert (\<not> irq_active k)
       (if t \<in> set (resource_list k) then OK (k, OS_EINVAL)
        else OK (upd_task t (\<lambda>x. x\<lparr>state := OS_TASK_STATE_INIT, object_inited := OS_KOBJ_INITED\<rparr>)
               (k_task_init t nm priority OS_KOBJ_ALLOC_TYPE_STATIC
                 (k\<lparr>resource_list := resource_list k @ [t]\<rparr>)), OS_EOK))))"

text \<open>\<open>stack\<close> and \<open>tcb\<close> are what the two allocations of \<^verbatim>\<open>os_task_create\<close> return.\<close>

definition os_task_create ::
  "string option \<Rightarrow> u32 \<Rightarrow> u8 \<Rightarrow> nat option \<Rightarrow> tid option \<Rightarrow> kernel \<Rightarrow> (kernel \<times> tid option) res" where
  "os_task_create nm stack_size priority stack tcb k =
     os_assert (0 < stack_size) (os_assert (unat priority < OS_TASK_PRIORITY_MAX)
     (os_assert (\<not> irq_active k) (os_assert (\<not> irq_disabled k) (os_assert (\<not> os_is_schedule_locked k)
       (case (stack, tcb) of
          (Some _, Some t) \<Rightarrow>
            OK (upd_task t (\<lambda>x. x\<lparr>object_inited := OS_KOBJ_INITED\<rparr>)
                 (let k1 = upd_task t (\<lambda>x. x\<lparr>state := OS_TASK_STATE_INIT\<rparr>)
                             (k_task_init t nm priority OS_KOBJ_ALLOC_TYPE_DYNAMIC k)
                  in k1\<lparr>resource_list := resource_list k1 @ [t]\<rparr>), Some t)
        | _ \<Rightarrow> OK (k, None))))))"

definition os_task_startup :: "tid \<Rightarrow> kernel \<Rightarrow> (kernel \<times> os_err) res" where
  "os_task_startup t k =
     os_assert (object_inited (tasks k t) = OS_KOBJ_INITED) (os_assert (tstate k t = OS_TASK_STATE_INIT)
       (bind_res (k_readyq_put t (set_task_state t OS_TASK_STATE_READY
                   (clear_task_state t OS_TASK_STATE_INIT k)))
         (\<lambda>k1. OK (k_kernel_exit_sched k1, OS_EOK))))"

subsection \<open>Suspension\<close>

definition os_task_suspend :: "tid \<Rightarrow> kernel \<Rightarrow> (kernel \<times> os_err) res" where
  "os_task_suspend t k =
     os_assert (object_inited (tasks k t) = OS_KOBJ_INITED)
     (os_assert (\<not> irq_disabled k \<or> Some t \<noteq> current_task k)
     (os_assert (\<not> os_is_schedule_locked k \<or> Some t \<noteq> current_task k)
       (if \<not> has_flag (tstate k t) (OS_TASK_STATE_READY OR OS_TASK_STATE_SLEEP
              OR OS_TASK_STATE_BLOCK OR OS_TASK_STATE_RUNNING)
        then OK (k, OS_ERROR)
        else bind_res
          (if has_flag (tstate k t) OS_TASK_STATE_READY
           then bind_res (k_readyq_remove t k) (\<lambda>k1. OK (clear_task_state t OS_TASK_STATE_READY k1))
           else OK k)
          (\<lambda>k2. let k3 = set_task_state t OS_TASK_STATE_SUSPEND k2
                in OK (if Some t \<noteq> current_task k3 then k3 else k_kernel_exit_sched k3, OS_EOK)))))"

definition os_task_resume :: "tid \<Rightarrow> kernel \<Rightarrow> (kernel \<times> os_err) res" where
  "os_task_resume t k =
     os_assert (object_inited (tasks k t) = OS_KOBJ_INITED)
       (if \<not> has_flag (tstate k t) OS_TASK_STATE_SUSPEND then OK (k, OS_ERROR)
        else let k1 = clear_task_state t OS_TASK_STATE_SUSPEND k
             in if has_flag (tstate k1 t) (OS_TASK_STATE_SLEEP OR OS_TASK_STATE_BLOCK)
                then OK (k1, OS_EOK)
                else bind_res (k_readyq_put t (set_task_state t OS_TASK_STATE_READY k1))
                       (\<lambda>k2. OK (k_kernel_exit_sched k2, OS_EOK)))"

subsection \<open>Yielding and sleeping\<close>

definition task_context :: "kernel \<Rightarrow> 'a res \<Rightarrow> 'a res" where
  "task_context k m = os_assert (\<not> irq_active k)
     (os_assert (\<not> irq_disabled k) (os_assert (\<not> os_is_schedule_locked k) m))"

definition os_task_yield :: "kernel \<Rightarrow> (kernel \<times> os_err) res" where
  "os_task_yield k = task_context k
     (case current_task k of None \<Rightarrow> Fault AssertFail
      | Some c \<Rightarrow>
         if list_shared (task_lists k) c
         then bind_res (k_readyq_move_tail c k) (\<lambda>k1. OK (k_kernel_exit_sched k1, OS_EOK))
         else OK (k, OS_EOK))"

definition os_task_tsleep :: "u32 \<Rightarrow> kernel \<Rightarrow> (kernel \<times> os_err) res" where
  "os_task_tsleep tick k = task_context k (os_assert (tick < OS_TICK_MAX div 2)
     (case current_task k of None \<Rightarrow> Fault AssertFail
      | Some c \<Rightarrow>
         bind_res
           (if 0 < tick
            then bind_res (k_readyq_remove c k) (\<lambda>k1.
                   OK (k_tickq_put c tick (set_task_state c OS_TASK_STATE_SLEEP
                        (clear_task_state c OS_TASK_STATE_READY k1))))
            else k_readyq_move_tail c k)
           (\<lambda>k2. OK (k_kernel_exit_sched k2, OS_EOK))))"

definition os_task_msleep :: "u32 \<Rightarrow> kernel \<Rightarrow> (kernel \<times> os_err) res" where
  "os_task_msleep ms k = task_context k (os_task_tsleep (os_tick_from_ms ms) k)"

subsection \<open>Time slice and priority\<close>

definition os_task_set_time_slice :: "tid \<Rightarrow> u32 \<Rightarrow> kernel \<Rightarrow> (kernel \<times> os_err) res" where
  "os_task_set_time_slice t n k =
     os_assert (object_inited (tasks k t) = OS_KOBJ_INITED) (os_assert (0 < n)
       (let k1 = upd_task t (\<lambda>x. x\<lparr>time_slice := n\<rparr>) k
        in OK (if has_flag (tstate k1 t) OS_TASK_STATE_INIT
               then upd_task t (\<lambda>x. x\<lparr>remaining_time_slice := n\<rparr>) k1 else k1, OS_EOK)))"

definition os_task_get_time_slice :: "tid \<Rightarrow> kernel \<Rightarrow> u32" where
  "os_task_get_time_slice t k = time_slice (tasks k t)"

definition set_current_priority :: "tid \<Rightarrow> u8 \<Rightarrow> kernel \<Rightarrow> kernel" where
  "set_current_priority t p = upd_task t (\<lambda>x. x\<lparr>current_priority := p\<rparr>)"

definition os_task_set_priority :: "tid \<Rightarrow> u8 \<Rightarrow> kernel \<Rightarrow> (kernel \<times> os_err) res" where
  "os_task_set_priority t p k =
     os_assert (unat p < OS_TASK_PRIORITY_MAX) (os_assert (object_inited (tasks k t) = OS_KOBJ_INITED)
       (let k1 = upd_task t (\<lambda>x. x\<lparr>backup_priority := p\<rparr>) k
        in if hold_mutex_list (tasks k t) \<noteq> [] then OK (k1, OS_EOK)
           else if has_flag (tstate k1 t) OS_TASK_STATE_READY then
             bind_res (k_readyq_remove t k1) (\<lambda>k2.
             bind_res (k_readyq_put t (set_current_priority t p k2)) (\<lambda>k3.
               OK (k_kernel_exit_sched k3, OS_EOK)))
           else if has_flag (tstate k1 t) OS_TASK_STATE_BLOCK then
             (case block_list_head (tasks k1 t) of None \<Rightarrow> Fault AssertFail
              | Some h \<Rightarrow>
                 if is_wake_prio (tasks k1 t)
                 then OK (k_blockq_insert h t (set_current_priority t p
                           (k1\<lparr>task_lists := list_del (task_lists k1) t\<rparr>)), OS_EOK)
                 else OK (set_current_priority t p k1, OS_EOK))
           else OK (set_current_priority t p k1, OS_EOK)))"

definition os_task_get_priority :: "tid \<Rightarrow> kernel \<Rightarrow> u8" where
  "os_task_get_priority t k = prio k t"

subsection \<open>Termination\<close>

definition k_wakeup_recycle_task :: "tid \<Rightarrow> kernel \<Rightarrow> kernel res" where
  "k_wakeup_recycle_task rt k =
     (if tstate k rt = OS_TASK_STATE_SUSPEND
      then k_readyq_put rt (set_task_state rt OS_TASK_STATE_READY
             (clear_task_state rt OS_TASK_STATE_SUSPEND k))
      else OK k)"

text \<open>The exit routine a task returns into; \<open>rt\<close> is \<^verbatim>\<open>gs_os_recycle_task\<close>.\<close>

definition k_task_exit :: "tid \<Rightarrow> kernel \<Rightarrow> kernel res" where
  "k_task_exit rt k =
     (case current_task k of None \<Rightarrow> Fault NullDeref
      | Some c \<Rightarrow>
         bind_res (k_readyq_remove c (k\<lparr>resource_list := removeAll c (resource_list k)\<rparr>)) (\<lambda>k1.
           let k2 = set_task_state c OS_TASK_STATE_CLOSE (clear_task_state c OS_TASK_STATE_READY k1)
           in bind_res
                (if object_alloc_type (tasks k2 c) = OS_KOBJ_ALLOC_TYPE_DYNAMIC \<or> cleanup (tasks k2 c) \<noteq> None
                 then k_wakeup_recycle_task rt (k2\<lparr>recycle_list := recycle_list k2 @ [c]\<rparr>) else OK k2)
                (\<lambda>k3. OK (k_kernel_exit_sched k3))))"

definition k_task_deinit :: "tid \<Rightarrow> kernel \<Rightarrow> kernel res" where
  "k_task_deinit t k =
     (if has_flag (tstate k t) OS_TASK_STATE_READY
      then bind_res (k_readyq_remove t k) (\<lambda>k1. OK (clear_task_state t OS_TASK_STATE_READY k1))
      else
        let k1 = (if has_flag (tstate k t) OS_TASK_STATE_SLEEP
                  then clear_task_state t OS_TASK_STATE_SLEEP (k_tickq_remove t k) else k);
            k2 = (if has_flag (tstate k1 t) OS_TASK_STATE_BLOCK
                  then clear_task_state t OS_TASK_STATE_BLOCK
                         (k1\<lparr>task_lists := list_del (task_lists k1) t\<rparr>) else k1);
            k3 = (if has_flag (tstate k2 t) OS_TASK_STATE_INIT
                  then clear_task_state t OS_TASK_STATE_INIT k2 else k2);
            k4 = (if has_flag (tstate k3 t) OS_TASK_STATE_SUSPEND
                  then clear_task_state t OS_TASK_STATE_SUSPEND k3 else k3)
        in OK k4)"

text \<open>
  \<^verbatim>\<open>os_task_deinit\<close> and \<^verbatim>\<open>os_task_destroy\<close>; \<open>call\<close> is the effect of running a clean-up
  callback on its user data.
\<close>

definition os_task_deinit ::
  "(nat \<Rightarrow> nat \<Rightarrow> kernel \<Rightarrow> kernel) \<Rightarrow> tid \<Rightarrow> tid \<Rightarrow> kernel \<Rightarrow> (kernel \<times> os_err) res" where
  "os_task_deinit call rt t k =
     os_assert (object_inited (tasks k t) = OS_KOBJ_INITED)
     (os_assert (object_alloc_type (tasks k t) = OS_KOBJ_ALLOC_TYPE_STATIC)
     (os_assert (\<not> has_flag (tstate k t) OS_TASK_STATE_CLOSE) (os_assert (\<not> irq_active k)
     (os_assert (\<not> irq_disabled k \<or> Some t \<noteq> current_task k)
     (os_assert (\<not> os_is_schedule_locked k \<or> Some t \<noteq> current_task k)
       (let k0 = k\<lparr>resource_list := removeAll t (resource_list k)\<rparr>
        in if hold_mutex_list (tasks k0 t) \<noteq> []
           then OK (k0\<lparr>resource_list := resource_list k0 @ [t]\<rparr>, OS_EBUSY)
           else bind_res (k_task_deinit t (upd_task t (\<lambda>x. x\<lparr>object_inited := OS_KOBJ_DEINITED\<rparr>) k0)) (\<lambda>k1.
             let k2 = set_task_state t OS_TASK_STATE_CLOSE k1
             in if Some t = current_task k2
                then bind_res (if cleanup (tasks k2 t) \<noteq> None
                               then k_wakeup_recycle_task rt (k2\<lparr>recycle_list := recycle_list k2 @ [t]\<rparr>)
                               else OK k2)
                       (\<lambda>k3. OK (k_kernel_exit_sched k3, OS_EOK))
                else OK (case cleanup (tasks k2 t) of None \<Rightarrow> k2
                         | Some f \<Rightarrow> call f (user_data (tasks k2 t)) k2, OS_EOK))))))))"

definition os_task_destroy ::
  "(nat \<Rightarrow> nat \<Rightarrow> kernel \<Rightarrow> kernel) \<Rightarrow> tid \<Rightarrow> tid \<Rightarrow> kernel \<Rightarrow> (kernel \<times> os_err) res" where
  "os_task_destroy call rt t k =
     os_assert (object_inited (tasks k t) = OS_KOBJ_INITED)
     (os_assert (object_alloc_type (tasks k t) = OS_KOBJ_ALLOC_TYPE_DYNAMIC)
     (os_assert (\<not> has_flag (tstate k t) OS_TASK_STATE_CLOSE) (task_context k
       (let k0 = k\<lparr>resource_list := removeAll t (resource_list k)\<rparr>
        in if hold_mutex_list (tasks k0 t) \<noteq> []
           then OK (k0\<lparr>resource_list := resource_list k0 @ [t]\<rparr>, OS_EBUSY)
           else bind_res (k_task_deinit t (upd_task t (\<lambda>x. x\<lparr>object_inited := OS_KOBJ_DEINITED\<rparr>) k0)) (\<lambda>k1.
             let k2 = set_task_state t OS_TASK_STATE_CLOSE k1
             in if Some t = current_task k2
                then bind_res (k_wakeup_recycle_task rt (k2\<lparr>recycle_list := recycle_list k2 @ [t]\<rparr>))
                       (\<lambda>k3. OK (k_kernel_exit_sched k3, OS_EOK))
                else OK (case cleanup (tasks k2 t) of None \<Rightarrow> k2
                         | Some f \<Rightarrow> call f (user_data (tasks k2 t)) k2, OS_EOK))))))"

text \<open>
  The recycle task: as long as the list of finished tasks is not empty, its first task is
  unlinked and its clean-up callback run (which may finish further tasks); then the
  recycle task suspends itself. A loop that never ends is \<^term>\<open>None\<close>.
\<close>

definition recycle_one :: "(nat \<Rightarrow> nat \<Rightarrow> kernel \<Rightarrow> kernel) \<Rightarrow> tid \<Rightarrow> kernel \<Rightarrow> kernel" where
  "recycle_one call t k =
     (let k1 = k\<lparr>recycle_list := removeAll t (recycle_list k)\<rparr>
      in case cleanup (tasks k1 t) of None \<Rightarrow> k1 | Some f \<Rightarrow> call f (user_data (tasks k1 t)) k1)"

partial_function (option) recycle_loop ::
  "(nat \<Rightarrow> nat \<Rightarrow> kernel \<Rightarrow> kernel) \<Rightarrow> kernel \<Rightarrow> kernel option" where
  "recycle_loop call k =
     (case recycle_list k of [] \<Rightarrow> Some k | t # _ \<Rightarrow> recycle_loop call (recycle_one call t k))"

definition k_recycle_task_suspend :: "kernel \<Rightarrow> kernel res" where
  "k_recycle_task_suspend k =
     (case current_task k of None \<Rightarrow> Fault NullDeref
      | Some c \<Rightarrow> bind_res (k_readyq_remove c k) (\<lambda>k1.
          OK (k_kernel_exit_sched (set_task_state c OS_TASK_STATE_SUSPEND
               (clear_task_state c OS_TASK_STATE_READY k1)))))"

definition k_recycle_task_entry ::
  "(nat \<Rightarrow> nat \<Rightarrow> kernel \<Rightarrow> kernel) \<Rightarrow> kernel \<Rightarrow> kernel res option" where
  "k_recycle_task_entry call k = map_option k_recycle_task_suspend (recycle_loop call k)"

definition os_task_set_cleanup_callback :: "tid \<Rightarrow> nat \<Rightarrow> nat \<Rightarrow> kernel \<Rightarrow> kernel" where
  "os_task_set_cleanup_callback t f d = upd_task t (\<lambda>x. x\<lparr>cleanup := Some f, user_data := d\<rparr>)"

subsection \<open>Queries and error codes\<close>

text \<open>\<^verbatim>\<open>strncmp\<close> of at most \<open>n\<close> characters of two terminated strings.\<close>

definition strncmp_eq :: "string \<Rightarrow> string \<Rightarrow> nat \<Rightarrow> bool" where
  "strncmp_eq a b n \<longleftrightarrow> take n a = take n b"

definition os_task_find :: "string \<Rightarrow> kernel \<Rightarrow> tid option" where
  "os_task_find nm k =
     (if nm \<noteq> '''' \<and> \<not> strncmp_eq nm ''recycle'' OS_NAME_MAX \<and> \<not> strncmp_eq nm ''idle'' OS_NAME_MAX
      then find (\<lambda>t. strncmp_eq nm (name (tasks k t)) OS_NAME_MAX) (resource_list k) else None)"

definition os_task_check_exist :: "tid \<Rightarrow> kernel \<Rightarrow> bool" where
  "os_task_check_exist t k \<longleftrightarrow> List.member (resource_list k) t"

definition os_task_get_state :: "tid \<Rightarrow> kernel \<Rightarrow> u16" where
  "os_task_get_state t k = tstate k t"

definition os_task_get_total_count :: "kernel \<Rightarrow> nat res" where
  "os_task_get_total_count k = os_assert (resource_list k \<noteq> []) (OK (length (resource_list k)))"

definition os_set_errno :: "os_err \<Rightarrow> kernel \<Rightarrow> kernel" where
  "os_set_errno e k =
     (if irq_active k then k\<lparr>kernel_err_code := e\<rparr>
      else case current_task k of None \<Rightarrow> k\<lparr>kernel_err_code := e\<rparr>
           | Some c \<Rightarrow> upd_task c (\<lambda>x. x\<lparr>err_code := e\<rparr>) k)"

definition os_get_errno :: "kernel \<Rightarrow> os_err" where
  "os_get_errno k =
     (if irq_active k then kernel_err_code k
      else case current_task k of None \<Rightarrow> kernel_err_code k | Some c \<Rightarrow> err_code (tasks k c))"

lemmas task_call_defs = os_task_init_def os_task_create_def os_task_startup_def os_task_suspend_def
  os_task_resume_def os_task_yield_def os_task_tsleep_def os_task_msleep_def os_task_set_time_slice_def
  os_task_set_priority_def k_wakeup_recycle_task_def k_task_exit_def k_task_deinit_def
  os_task_deinit_def os_task_destroy_def task_context_def set_current_priority_def
  os_schedule_lock_def os_schedule_unlock_def list_shared_def k_tickq_put_def k_tickq_remove_def tick_bucket_def
  TICK_Q_BUCKETS_def OS_TICK_MAX_def k_blockq_insert_def

subsection \<open>Every task operation keeps the kernel invariant\<close>

text \<open>Making a task ready that is in no queue.\<close>

lemma put_new_ready:
  assumes inv: "kinv i k" and "\<not> has_flag (tstate k t) OS_TASK_STATE_READY"
    "\<not> has_flag (tstate k t) OS_TASK_STATE_SLEEP" "\<not> has_flag (tstate k t) OS_TASK_STATE_BLOCK"
    and f: "has_flag (state (f (tasks k t))) OS_TASK_STATE_READY"
      "\<not> has_flag (state (f (tasks k t))) OS_TASK_STATE_SLEEP"
      "\<not> has_flag (state (f (tasks k t))) OS_TASK_STATE_BLOCK"
      "current_priority (f (tasks k t)) = prio k t"
      "backup_priority (f (tasks k t)) = backup_priority (tasks k t)"
  shows "\<exists>k'. k_readyq_put t (upd_task t f k) = OK k' \<and> kinv i k' \<and> k' = readyq_sync
      ((upd_task t f k)\<lparr>task_lists := list_add_tail (task_lists k) (RQ (unat (prio k t))) t\<rparr>)"
proof -
  have "upd_task t f k = k\<lparr>tasks := (tasks k)(t := f (tasks k t)),
      task_lists := list_del (task_lists k) t, tickq_bucket := list_del (tickq_bucket k) t\<rparr>"
    using assms(2-4) by (simp add: upd_task_def kinv_not_linked[OF inv] kinv_not_sleeping[OF inv])
  from make_ready[OF inv assms(2) f this] show ?thesis
    using assms(2-4) by (simp add: kinv_not_linked[OF inv])
qed

lemma state_INIT_flags:
  "w = OS_TASK_STATE_INIT \<Longrightarrow> \<not> has_flag w OS_TASK_STATE_READY \<and> \<not> has_flag w OS_TASK_STATE_SLEEP
     \<and> \<not> has_flag w OS_TASK_STATE_BLOCK"
  by (simp add: flag_simps)

lemma upd_task_upd_task: "upd_task t f (upd_task t g k) = upd_task t (\<lambda>x. f (g x)) k"
  by (simp add: upd_task_def)

lemma os_task_startup_safe: "kinv i k \<Longrightarrow> kernel_safe i (os_task_startup t k)"
  unfolding os_task_startup_def
proof (intro kernel_safe_assert kernel_safe_bind)
  assume inv: "kinv i k" and s: "tstate k t = OS_TASK_STATE_INIT"
  let ?f = "\<lambda>x. x\<lparr>state := (state x AND NOT OS_TASK_STATE_INIT) OR OS_TASK_STATE_READY\<rparr>"
  have "\<exists>k'. k_readyq_put t (upd_task t ?f k) = OK k' \<and> kinv i k'"
    using put_new_ready[OF inv, of t ?f] state_INIT_flags[OF s] by (auto simp: s flag_simps)
  then show "\<exists>k'. k_readyq_put t (set_task_state t OS_TASK_STATE_READY
      (clear_task_state t OS_TASK_STATE_INIT k)) = OK k' \<and> kernel_safe i (OK (k_kernel_exit_sched k', OS_EOK))"
    by (simp add: task_state_upd upd_task_upd_task)
qed

text \<open>Taking a ready task out of the queue and rewriting its state.\<close>

lemma remove_ready:
  assumes inv: "kinv i k" and r: "has_flag (tstate k t) OS_TASK_STATE_READY" and ti: "t \<noteq> i"
    and f: "task_wf (f (tasks k t))" "home (f (tasks k t)) = None" "tick_home (f (tasks k t)) = None"
  shows "\<exists>k'. k_readyq_remove t k = OK k' \<and> kinv i (upd_task t f k') \<and>
    k' = readyq_sync (k\<lparr>task_lists := list_del (task_lists k) t\<rparr>)"
proof -
  have "kinv i (upd_task t f (readyq_sync (k\<lparr>task_lists := list_del (task_lists k) t\<rparr>)))" (is "kinv i ?k")
  proof (rule leave_ready[OF inv r ti f(1)])
    show "t \<in> set (tickq_bucket ?k b) \<longleftrightarrow> tick_home (f (tasks k t)) = Some b" for b
      using kinv_not_asleep[OF inv r] f(3) by simp
  qed (use f(2) kinvD(2,3)[OF inv] in \<open>auto simp: upd_task_def klist_simps distinct_removeAll\<close>)
  then show ?thesis using kinv_remove[OF inv r ti] by simp
qed

lemma has_flag_or: "has_flag w (a OR b) \<longleftrightarrow> has_flag w a \<or> has_flag w (b::'a::len word)"
  by (simp add: has_flag_def bit.conj_disj_distrib or_eq_0_iff)

lemma kinv_set_flag:
  assumes "kinv i k" "m = OS_TASK_STATE_SUSPEND \<or> m = OS_TASK_STATE_RUNNING \<or> m = OS_TASK_STATE_CLOSE"
  shows "kinv i (set_task_state t m k)"
  unfolding task_state_upd
  using kinvD(6)[OF assms(1), of t] kinvD(7)[OF assms(1)] assms(2)
  by (intro kinv_upd_task[OF assms(1)]) (auto simp: home_def tick_home_def task_wf_def flag_simps)

lemma kinv_clear_flag:
  assumes "kinv i k" "m = OS_TASK_STATE_SUSPEND \<or> m = OS_TASK_STATE_RUNNING \<or> m = OS_TASK_STATE_INIT"
  shows "kinv i (clear_task_state t m k)"
  unfolding task_state_upd
  using kinvD(6)[OF assms(1), of t] kinvD(7)[OF assms(1)] assms(2)
  by (intro kinv_upd_task[OF assms(1)]) (auto simp: home_def tick_home_def task_wf_def flag_simps)

lemma os_task_suspend_safe:
  assumes inv: "kinv i k" and ti: "t \<noteq> i"
  shows "kernel_safe i (os_task_suspend t k)"
proof -
  have "kernel_safe i (bind_res
      (if has_flag (tstate k t) OS_TASK_STATE_READY
       then bind_res (k_readyq_remove t k) (\<lambda>k1. OK (clear_task_state t OS_TASK_STATE_READY k1)) else OK k)
      (\<lambda>k2. let k3 = set_task_state t OS_TASK_STATE_SUSPEND k2
            in OK (if Some t \<noteq> current_task k3 then k3 else k_kernel_exit_sched k3, OS_EOK)))"
  proof (cases "has_flag (tstate k t) OS_TASK_STATE_READY")
    case True
    let ?f = "\<lambda>x. x\<lparr>state := state x AND NOT OS_TASK_STATE_READY\<rparr>"
    have "\<exists>k'. k_readyq_remove t k = OK k' \<and> kinv i (upd_task t ?f k')"
      using remove_ready[OF inv True ti, of ?f] True kinvD(6)[OF inv, of t]
      by (auto simp: home_def tick_home_def task_wf_def flag_simps)
    then show ?thesis using True by (auto simp: clear_task_state_def Let_def intro: kinv_set_flag)
  next
    case False
    then show ?thesis using inv by (auto simp: Let_def intro: kinv_set_flag)
  qed
  then show ?thesis unfolding os_task_suspend_def using inv by auto
qed

lemma os_task_resume_safe:
  assumes inv: "kinv i k"
    and nr: "has_flag (tstate k t) OS_TASK_STATE_SUSPEND \<Longrightarrow> \<not> has_flag (tstate k t) OS_TASK_STATE_READY"
  shows "kernel_safe i (os_task_resume t k)"
proof -
  let ?k = "clear_task_state t OS_TASK_STATE_SUSPEND k"
  let ?f = "\<lambda>x. x\<lparr>state := state x OR OS_TASK_STATE_READY\<rparr>"
  have inv1: "kinv i ?k" by (rule kinv_clear_flag[OF inv]) simp
  have "\<exists>k'. k_readyq_put t (upd_task t ?f ?k) = OK k' \<and> kinv i k'"
    if "has_flag (tstate k t) OS_TASK_STATE_SUSPEND"
      "\<not> has_flag (tstate ?k t) (OS_TASK_STATE_SLEEP OR OS_TASK_STATE_BLOCK)"
    using put_new_ready[OF inv1, of t ?f] nr that
    by (auto simp: clear_task_state_def has_flag_or flag_simps)
  then show ?thesis
    unfolding os_task_resume_def
    using inv inv1 by (auto simp: Let_def set_task_state_def)
qed

lemma list_shared_ready:
  "kinv i k \<Longrightarrow> list_shared (task_lists k) t \<Longrightarrow> has_flag (tstate k t) OS_TASK_STATE_READY"
  by (auto simp: list_shared_def kinvD(4) home_RQ[OF kinvD(6)])

lemma os_task_yield_safe: "kinv i k \<Longrightarrow> kernel_safe i (os_task_yield k)"
  unfolding os_task_yield_def task_context_def
  using kinv_move_tail[of i k] list_shared_ready[of i k]
  by (intro kernel_safe_assert) (fastforce split: option.split)

text \<open>Sleeping: off the ready queue and into the bucket of the deadline.\<close>

lemma sleep_ready:
  assumes inv: "kinv i k" and r: "has_flag (tstate k c) OS_TASK_STATE_READY" and ci: "c \<noteq> i"
  shows "\<exists>k1. k_readyq_remove c k = OK k1 \<and> kinv i (k_tickq_put c tick
      (set_task_state c OS_TASK_STATE_SLEEP (clear_task_state c OS_TASK_STATE_READY k1)))"
proof -
  let ?k1 = "readyq_sync (k\<lparr>task_lists := list_del (task_lists k) c\<rparr>)"
  let ?k2 = "k_tickq_put c tick (set_task_state c OS_TASK_STATE_SLEEP (clear_task_state c OS_TASK_STATE_READY ?k1))"
  let ?x = "(tasks k c)\<lparr>state := (tstate k c AND NOT OS_TASK_STATE_READY) OR OS_TASK_STATE_SLEEP,
      tick_timeout := tick, tick_absolute := os_tick k + tick\<rparr>"
  have nb: "\<not> has_flag (tstate k c) OS_TASK_STATE_BLOCK" by (rule task_wfD(4)[OF kinvD(6)[OF inv] r])
  have "kinv i ?k2"
  proof (rule leave_ready[OF inv r ci, where x = ?x])
    show "task_wf ?x" using task_wfD(1,2)[OF kinvD(6)[OF inv, of c]] nb
      by (simp add: task_wf_def flag_simps)
    show "c \<in> set (task_lists ?k2 h) \<longleftrightarrow> home ?x = Some h" for h
      using nb by (simp add: k_tickq_put_def Let_def task_state_upd klist_simps home_def flag_simps)
    show "c \<in> set (tickq_bucket ?k2 b) \<longleftrightarrow> tick_home ?x = Some b" for b
      using kinv_not_asleep[OF inv r, of b]
      by (auto simp: k_tickq_put_def Let_def task_state_upd klist_simps tick_home_def flag_simps)
    show "tasks ?k2 = (tasks k)(c := ?x)"
      by (simp add: k_tickq_put_def Let_def task_state_upd upd_task_def)
  qed (use kinvD(2,3)[OF inv] kinv_not_asleep[OF inv r] in
        \<open>auto simp: k_tickq_put_def Let_def task_state_upd klist_simps distinct_removeAll\<close>)
  then show ?thesis using kinv_remove[OF inv r ci] by blast
qed

lemma os_task_tsleep_safe:
  assumes inv: "kinv i k"
    and r: "\<And>c. current_task k = Some c \<Longrightarrow> has_flag (tstate k c) OS_TASK_STATE_READY \<and> (0 < tick \<longrightarrow> c \<noteq> i)"
  shows "kernel_safe i (os_task_tsleep tick k)"
  unfolding os_task_tsleep_def task_context_def
proof (intro kernel_safe_assert)
  show "kernel_safe i (case current_task k of None \<Rightarrow> Fault AssertFail
      | Some c \<Rightarrow> bind_res
           (if 0 < tick
            then bind_res (k_readyq_remove c k) (\<lambda>k1.
                   OK (k_tickq_put c tick (set_task_state c OS_TASK_STATE_SLEEP
                        (clear_task_state c OS_TASK_STATE_READY k1))))
            else k_readyq_move_tail c k)
           (\<lambda>k2. OK (k_kernel_exit_sched k2, OS_EOK)))"
  proof (cases "current_task k")
    case (Some c)
    then show ?thesis
      using r[OF Some] sleep_ready[OF inv, of c tick] kinv_move_tail[OF inv, of c] by auto
  qed simp
qed

lemma os_task_msleep_safe:
  assumes "kinv i k"
    and "\<And>c. current_task k = Some c \<Longrightarrow> has_flag (tstate k c) OS_TASK_STATE_READY \<and> c \<noteq> i"
  shows "kernel_safe i (os_task_msleep ms k)"
  unfolding os_task_msleep_def task_context_def
  using assms by (intro kernel_safe_assert os_task_tsleep_safe) auto

lemma os_task_set_time_slice_safe: "kinv i k \<Longrightarrow> kernel_safe i (os_task_set_time_slice t n k)"
  unfolding os_task_set_time_slice_def
  using kinv_upd_task[of i k "\<lambda>x. x\<lparr>time_slice := n\<rparr>" t] kinvD(6,7)[of i k]
  by (auto simp: Let_def home_def tick_home_def task_wf_def intro!: kinv_slice)

subsubsection \<open>Changing a priority\<close>

text \<open>A ready task is moved from one priority list to another.\<close>

lemma reprioritise_ready:
  assumes inv: "kinv i k" and r: "has_flag (tstate k t) OS_TASK_STATE_READY" and ti: "t \<noteq> i"
    and p: "unat p < 32"
  shows "\<exists>k1 k2. k_readyq_remove t k = OK k1 \<and> k_readyq_put t (set_current_priority t p k1) = OK k2 \<and>
    kinv i k2 \<and> k2 = readyq_sync (k\<lparr>tasks := (tasks k)(t := (tasks k t)\<lparr>current_priority := p\<rparr>),
      task_lists := list_add_tail (list_del (task_lists k) t) (RQ (unat p)) t\<rparr>)"
proof -
  let ?k1 = "readyq_sync (k\<lparr>task_lists := list_del (task_lists k) t\<rparr>)"
  let ?x = "(tasks k t)\<lparr>current_priority := p\<rparr>"
  let ?k2 = "readyq_sync (k\<lparr>tasks := (tasks k)(t := ?x),
      task_lists := list_add_tail (list_del (task_lists k) t) (RQ (unat p)) t\<rparr>)"
  have "lists_ok (k\<lparr>task_lists := list_del (task_lists k) t\<rparr>)"
    using kinv_lists_ok[OF inv] by (auto simp: lists_ok_def klist_simps)
  then have "readyq_ok (set_current_priority t p ?k1)"
    unfolding set_current_priority_def by (intro readyq_ok_upd_task) simp_all
  then have put: "k_readyq_put t (set_current_priority t p ?k1) = OK ?k2"
    using k_readyq_put_refines[of "set_current_priority t p ?k1" t] p
    by (simp add: set_current_priority_def upd_task_def readyq_sync_def)
  have "kinv i ?k2"
  proof (rule kinv_moveI[OF inv, where t = t and x = ?x])
    show "task_wf ?x" using kinvD(6)[OF inv, of t] p by (simp add: task_wf_def)
    show "t \<in> set (task_lists ?k2 h) \<longleftrightarrow> home ?x = Some h" for h
      using r by (auto simp: klist_simps home_def)
    show "t \<in> set (tickq_bucket ?k2 b) \<longleftrightarrow> tick_home ?x = Some b" for b
      using kinvD(5)[OF inv, of t b] by (simp add: tick_home_def)
  qed (use kinvD(2,3)[OF inv] ti in \<open>auto simp: klist_simps distinct_removeAll\<close>)
  then show ?thesis using kinv_remove[OF inv r ti] put by blast
qed

text \<open>A blocked task is reinserted into its wait list by the new priority.\<close>

lemma reprioritise_blocked:
  assumes inv: "kinv i k" and b: "has_flag (tstate k t) OS_TASK_STATE_BLOCK"
    and h: "block_list_head (tasks k t) = Some h" and p: "unat p < 32"
  shows "kinv i (k_blockq_insert h t (set_current_priority t p
      (k\<lparr>task_lists := list_del (task_lists k) t\<rparr>)))" (is "kinv i ?k")
proof -
  let ?x = "(tasks k t)\<lparr>current_priority := p\<rparr>"
  have nr: "\<not> has_flag (tstate k t) OS_TASK_STATE_READY"
    using b task_wfD(4)[OF kinvD(6)[OF inv]] by blast
  obtain w where w: "h = WQ w" using task_wfD(5)[OF kinvD(6)[OF inv] b] h by auto
  have notin: "t \<notin> set (task_lists k (RQ q))" for q by (rule kinv_not_RQ[OF inv nr])
  show ?thesis
  proof (rule kinv_moveI[OF inv, where t = t and x = ?x])
    show "task_wf ?x" using kinvD(6)[OF inv, of t] p by (simp add: task_wf_def)
    show "readyq_sync ?k = ?k"
      using kinvD(1)[OF inv] readyq_del_waiting[of t "task_lists k"] notin
      by (simp add: readyq_synced_iff k_blockq_insert_def set_current_priority_def w)
    show "t \<in> set (task_lists ?k h') \<longleftrightarrow> home ?x = Some h'" for h'
      using b nr h by (auto simp: k_blockq_insert_def set_current_priority_def klist_simps home_def)
    show "t \<in> set (tickq_bucket ?k b) \<longleftrightarrow> tick_home ?x = Some b" for b
      using kinvD(5)[OF inv, of t b]
      by (simp add: k_blockq_insert_def set_current_priority_def tick_home_def)
    show "t = i \<Longrightarrow> has_flag (state ?x) OS_TASK_STATE_READY" using nr kinvD(7)[OF inv] by auto
  qed (use kinvD(2,3)[OF inv] in
     \<open>auto simp: k_blockq_insert_def set_current_priority_def upd_task_def klist_simps distinct_removeAll\<close>)
qed

lemma kinv_set_priority_unready:
  assumes inv: "kinv i k" and nr: "\<not> has_flag (tstate k t) OS_TASK_STATE_READY" and p: "unat p < 32"
  shows "kinv i (set_current_priority t p k)"
  unfolding set_current_priority_def
  using nr p kinvD(6)[OF inv, of t] kinvD(7)[OF inv]
  by (intro kinv_upd_task[OF inv]) (auto simp: home_def tick_home_def task_wf_def)

lemma os_task_set_priority_safe:
  assumes inv: "kinv i k" and ti: "t \<noteq> i"
  shows "kernel_safe i (os_task_set_priority t p k)"
proof -
  let ?k = "upd_task t (\<lambda>x. x\<lparr>backup_priority := p\<rparr>) k"
  have inv1: "kinv i ?k" if "unat p < 32"
    using that kinvD(6)[OF inv, of t] ti
    by (intro kinv_upd_task[OF inv]) (auto simp: home_def tick_home_def task_wf_def)
  have ready: "\<exists>k1 k2. k_readyq_remove t ?k = OK k1 \<and> k_readyq_put t (set_current_priority t p k1) = OK k2 \<and>
      kinv i k2" if "unat p < 32" "has_flag (tstate k t) OS_TASK_STATE_READY"
    using reprioritise_ready[OF inv1 _ ti, of p] that by auto
  have blocked: "kinv i (k_blockq_insert h t
      (set_current_priority t p (?k\<lparr>task_lists := list_del (task_lists k) t\<rparr>)))"
    if "unat p < 32" "has_flag (tstate k t) OS_TASK_STATE_BLOCK" "block_list_head (tasks k t) = Some h" for h
    using reprioritise_blocked[OF inv1, of t h p] that by simp
  have other: "kinv i (set_current_priority t p ?k)"
    if "unat p < 32" "\<not> has_flag (tstate k t) OS_TASK_STATE_READY"
    using kinv_set_priority_unready[OF inv1, of t p] that by simp
  show ?thesis
    unfolding os_task_set_priority_def OS_TASK_PRIORITY_MAX_def
    by (intro kernel_safe_assert)
       (auto simp: Let_def inv1 other blocked dest: ready split: option.split)
qed

subsubsection \<open>Termination\<close>

lemma kinv_resource [simp]:
  "kinv i (k\<lparr>resource_list := r\<rparr>) \<longleftrightarrow> kinv i k" "kinv i (k\<lparr>recycle_list := r\<rparr>) \<longleftrightarrow> kinv i k"
  "kinv i (k\<lparr>kernel_err_code := e\<rparr>) \<longleftrightarrow> kinv i k"
  by (simp_all add: kinv_def readyq_synced_iff)

lemma k_wakeup_recycle_task_ok:
  assumes inv: "kinv i k"
  shows "\<exists>k'. k_wakeup_recycle_task rt k = OK k' \<and> kinv i k' \<and> current_task k' = current_task k"
proof (cases "tstate k rt = OS_TASK_STATE_SUSPEND")
  case True
  let ?f = "\<lambda>x. x\<lparr>state := (state x AND NOT OS_TASK_STATE_SUSPEND) OR OS_TASK_STATE_READY\<rparr>"
  have "\<exists>k'. k_readyq_put rt (upd_task rt ?f k) = OK k' \<and> kinv i k' \<and> current_task k' = current_task k"
    using put_new_ready[OF inv, of rt ?f] by (auto simp: True flag_simps)
  then show ?thesis using True by (simp add: k_wakeup_recycle_task_def task_state_upd upd_task_upd_task)
qed (use inv in \<open>simp add: k_wakeup_recycle_task_def\<close>)

lemma k_task_exit_safe:
  assumes inv: "kinv i k" and c: "current_task k = Some c" "has_flag (tstate k c) OS_TASK_STATE_READY" "c \<noteq> i"
  shows "\<exists>k'. k_task_exit rt k = OK k' \<and> kinv i k'"
proof -
  let ?f = "\<lambda>x. x\<lparr>state := (state x AND NOT OS_TASK_STATE_READY) OR OS_TASK_STATE_CLOSE\<rparr>"
  let ?k = "k\<lparr>resource_list := removeAll c (resource_list k)\<rparr>"
  have "\<exists>k1. k_readyq_remove c ?k = OK k1 \<and> kinv i (upd_task c ?f k1)"
    using remove_ready[of i ?k c ?f] inv c(2,3) kinvD(6)[OF inv, of c]
    by (auto simp: home_def tick_home_def task_wf_def flag_simps)
  then obtain k1 where k1: "k_readyq_remove c ?k = OK k1" "kinv i (upd_task c ?f k1)" by blast
  then show ?thesis
    using k_wakeup_recycle_task_ok[of i "(upd_task c ?f k1)\<lparr>recycle_list := recycle_list k1 @ [c]\<rparr>" rt]
    by (auto simp: k_task_exit_def c(1) Let_def task_state_upd upd_task_upd_task)
qed

lemma kinv_unsleep:
  assumes inv: "kinv i k" and nr: "\<not> has_flag (tstate k t) OS_TASK_STATE_READY"
  shows "kinv i (clear_task_state t OS_TASK_STATE_SLEEP (k_tickq_remove t k))"
proof -
  have "t \<noteq> i" using nr kinvD(7)[OF inv] by auto
  then show ?thesis
    using kinvD(1)[OF inv] kinvD(2,3)[OF inv] kinvD(6)[OF inv, of t]
    by (intro kinv_moveI[OF inv, where t = t and x = "(tasks k t)\<lparr>state := tstate k t AND NOT OS_TASK_STATE_SLEEP\<rparr>"])
       (auto simp: clear_task_state_def upd_task_def k_tickq_remove_def readyq_synced_iff klist_simps
         distinct_removeAll task_wf_def home_def tick_home_def flag_simps kinvD(4)[OF inv])
qed

lemma kinv_unhook_wait:
  assumes inv: "kinv i k" and nr: "\<not> has_flag (tstate k t) OS_TASK_STATE_READY"
  shows "kinv i (clear_task_state t OS_TASK_STATE_BLOCK (k\<lparr>task_lists := list_del (task_lists k) t\<rparr>))"
proof -
  have "t \<noteq> i" using nr kinvD(7)[OF inv] by auto
  then show ?thesis
    using kinvD(1)[OF inv] kinvD(2,3)[OF inv] kinvD(6)[OF inv, of t] nr
      readyq_del_waiting[of t "task_lists k"] kinv_not_RQ[OF inv nr]
    by (intro kinv_moveI[OF inv, where t = t and x = "(tasks k t)\<lparr>state := tstate k t AND NOT OS_TASK_STATE_BLOCK\<rparr>"])
       (auto simp: clear_task_state_def upd_task_def readyq_synced_iff klist_simps
         distinct_removeAll task_wf_def home_def tick_home_def flag_simps kinvD(5)[OF inv])
qed

lemma clear_task_state_frame [simp]:
  "current_task (clear_task_state t m k) = current_task k"
  "task_lists (clear_task_state t m k) = task_lists k"
  "tickq_bucket (clear_task_state t m k) = tickq_bucket k"
  "tasks (clear_task_state t m k) u =
     (if u = t then (tasks k t)\<lparr>state := tstate k t AND NOT m\<rparr> else tasks k u)"
  by (simp_all add: clear_task_state_def)

lemma set_task_state_frame [simp]:
  "current_task (set_task_state t m k) = current_task k"
  "task_lists (set_task_state t m k) = task_lists k"
  "tickq_bucket (set_task_state t m k) = tickq_bucket k"
  "tasks (set_task_state t m k) u =
     (if u = t then (tasks k t)\<lparr>state := tstate k t OR m\<rparr> else tasks k u)"
  by (simp_all add: set_task_state_def)

lemma k_tickq_remove_frame [simp]:
  "current_task (k_tickq_remove t k) = current_task k" "task_lists (k_tickq_remove t k) = task_lists k"
  "tasks (k_tickq_remove t k) = tasks k"
  by (simp_all add: k_tickq_remove_def)

lemma k_task_deinit_ok:
  assumes inv: "kinv i k" and ti: "t \<noteq> i"
  shows "\<exists>k'. k_task_deinit t k = OK k' \<and> kinv i k' \<and> current_task k' = current_task k"
proof (cases "has_flag (tstate k t) OS_TASK_STATE_READY")
  case True
  let ?f = "\<lambda>x. x\<lparr>state := state x AND NOT OS_TASK_STATE_READY\<rparr>"
  have "\<exists>k1. k_readyq_remove t k = OK k1 \<and> kinv i (upd_task t ?f k1) \<and> current_task k1 = current_task k"
    using remove_ready[OF inv True ti, of ?f] True kinvD(6)[OF inv, of t]
    by (auto simp: home_def tick_home_def task_wf_def flag_simps)
  then show ?thesis using True by (auto simp: k_task_deinit_def clear_task_state_def)
next
  case False
  define k1 where "k1 = (if has_flag (tstate k t) OS_TASK_STATE_SLEEP
      then clear_task_state t OS_TASK_STATE_SLEEP (k_tickq_remove t k) else k)"
  have 1: "kinv i k1" "\<not> has_flag (tstate k1 t) OS_TASK_STATE_READY" "current_task k1 = current_task k"
    using inv False kinv_unsleep[OF inv False] by (auto simp: k1_def flag_simps)
  define k2 where "k2 = (if has_flag (tstate k1 t) OS_TASK_STATE_BLOCK
      then clear_task_state t OS_TASK_STATE_BLOCK (k1\<lparr>task_lists := list_del (task_lists k1) t\<rparr>) else k1)"
  have 2: "kinv i k2" "current_task k2 = current_task k"
    using 1 kinv_unhook_wait[OF 1(1,2)] by (auto simp: k2_def)
  then show ?thesis
    using False by (auto simp: k_task_deinit_def Let_def simp flip: k1_def k2_def intro!: kinv_clear_flag)
qed

text \<open>
  Destruction: the clean-up callback may do anything that keeps the invariant.
\<close>

lemma task_closed:
  assumes inv: "kinv i k" and ti: "t \<noteq> i"
  obtains k1 where "k_task_deinit t (upd_task t (\<lambda>x. x\<lparr>object_inited := OS_KOBJ_DEINITED\<rparr>)
      (k\<lparr>resource_list := removeAll t (resource_list k)\<rparr>)) = OK k1"
    "kinv i (set_task_state t OS_TASK_STATE_CLOSE k1)"
    "\<And>r. \<exists>k'. k_wakeup_recycle_task rt ((set_task_state t OS_TASK_STATE_CLOSE k1)\<lparr>recycle_list := r\<rparr>) = OK k' \<and>
       kinv i k'"
proof -
  let ?k0 = "upd_task t (\<lambda>x. x\<lparr>object_inited := OS_KOBJ_DEINITED\<rparr>)
      (k\<lparr>resource_list := removeAll t (resource_list k)\<rparr>)"
  have "kinv i ?k0"
    using inv kinvD(6)[OF inv, of t] ti by (intro kinv_upd_task) (auto simp: home_def tick_home_def task_wf_def)
  then obtain k1 where k1: "k_task_deinit t ?k0 = OK k1" "kinv i k1"
    using k_task_deinit_ok[OF _ ti] by blast
  have k2: "kinv i (set_task_state t OS_TASK_STATE_CLOSE k1)" by (rule kinv_set_flag[OF k1(2)]) simp
  show ?thesis
    using that[OF k1(1) k2] k2
      k_wakeup_recycle_task_ok[of i "(set_task_state t OS_TASK_STATE_CLOSE k1)\<lparr>recycle_list := r\<rparr>" rt for r]
    by fastforce
qed

lemma kernel_safe_closing:
  assumes "\<exists>k'. m = OK k' \<and> kinv i k'"
  shows "kernel_safe i (bind_res m (\<lambda>k3. OK (k_kernel_exit_sched k3, e)))"
  using assms by auto

lemma os_task_deinit_safe:
  assumes inv: "kinv i k" and ti: "t \<noteq> i" and cb: "\<And>f d k. kinv i k \<Longrightarrow> kinv i (call f d k)"
  shows "kernel_safe i (os_task_deinit call rt t k)"
  by (rule task_closed[OF inv ti, of rt])
     (auto simp: inv cb os_task_deinit_def Let_def split: option.split
       intro!: kernel_safe_assert kernel_safe_closing)

lemma os_task_destroy_safe:
  assumes inv: "kinv i k" and ti: "t \<noteq> i" and cb: "\<And>f d k. kinv i k \<Longrightarrow> kinv i (call f d k)"
  shows "kernel_safe i (os_task_destroy call rt t k)"
  by (rule task_closed[OF inv ti, of rt])
     (auto simp: inv cb os_task_destroy_def task_context_def Let_def split: option.split
       intro!: kernel_safe_assert kernel_safe_closing)

end
