(* ===== verification/Kernel_Run.thy ===== *)
theory Kernel_Run
  imports Os_Task
begin

text \<open>
  The kernel between two calls. On top of the queue invariant: which values the state word
  of a task can take, that exactly the current task is marked running, and that the
  processor belongs to the first task of the best non-empty priority, or a switch to it is
  pending. Calls from a task are followed by \<^verbatim>\<open>PendSV\<close> when they left it pending.
\<close>

subsection \<open>Legal task states\<close>

definition legal_states :: "u16 list" where
  "legal_states = [OS_TASK_STATE_EMPTY, OS_TASK_STATE_INIT, OS_TASK_STATE_READY, OS_TASK_STATE_SLEEP,
     OS_TASK_STATE_BLOCK, OS_TASK_STATE_BLOCK OR OS_TASK_STATE_SLEEP, OS_TASK_STATE_SUSPEND,
     OS_TASK_STATE_SUSPEND OR OS_TASK_STATE_SLEEP, OS_TASK_STATE_SUSPEND OR OS_TASK_STATE_BLOCK,
     OS_TASK_STATE_SUSPEND OR OS_TASK_STATE_BLOCK OR OS_TASK_STATE_SLEEP, OS_TASK_STATE_CLOSE]"

definition legal_state :: "u16 \<Rightarrow> bool" where
  "legal_state w \<longleftrightarrow> w \<in> set (legal_states @ map (\<lambda>s. s OR OS_TASK_STATE_RUNNING) legal_states)"

definition states_ok :: "kernel \<Rightarrow> bool" where
  "states_ok k \<longleftrightarrow> (\<forall>t. legal_state (tstate k t)) \<and>
     (\<forall>t. has_flag (tstate k t) OS_TASK_STATE_RUNNING \<longleftrightarrow> current_task k = Some t)"

lemma legal_state_cases:
  "legal_state w \<longleftrightarrow> w = 0 \<or> w = 1 \<or> w = 2 \<or> w = 8 \<or> w = 0x10 \<or> w = 0x18 \<or> w = 0x20 \<or> w = 0x28 \<or>
     w = 0x30 \<or> w = 0x38 \<or> w = 0x8000 \<or> w = 4 \<or> w = 5 \<or> w = 6 \<or> w = 0xC \<or> w = 0x14 \<or> w = 0x1C \<or>
     w = 0x24 \<or> w = 0x2C \<or> w = 0x34 \<or> w = 0x3C \<or> w = 0x8004"
  by (simp add: legal_state_def legal_states_def task_state_defs disj_ac)

text \<open>The transitions of the task life cycle stay inside the legal states.\<close>

lemma legal_unready:
  assumes "legal_state w" "has_flag w OS_TASK_STATE_READY"
  shows "legal_state (w AND NOT OS_TASK_STATE_READY)"
    "legal_state ((w AND NOT OS_TASK_STATE_READY) OR OS_TASK_STATE_SUSPEND)"
    "legal_state ((w AND NOT OS_TASK_STATE_READY) OR OS_TASK_STATE_SLEEP)"
    "legal_state ((w AND NOT OS_TASK_STATE_READY) OR OS_TASK_STATE_CLOSE)"
    "legal_state ((w AND NOT OS_TASK_STATE_READY) OR OS_TASK_STATE_BLOCK)"
    "legal_state ((w AND NOT OS_TASK_STATE_READY) OR OS_TASK_STATE_BLOCK OR OS_TASK_STATE_SLEEP)"
  using assms by (auto simp: legal_state_cases task_state_defs has_flag_def)

lemma legal_suspend_waiting:
  assumes "legal_state w" "\<not> has_flag w OS_TASK_STATE_READY"
    "has_flag w (OS_TASK_STATE_READY OR OS_TASK_STATE_SLEEP OR OS_TASK_STATE_BLOCK)"
  shows "legal_state (w OR OS_TASK_STATE_SUSPEND)"
  using assms by (auto simp: legal_state_cases task_state_defs has_flag_def)

lemma legal_unsuspend:
  assumes "legal_state w" "has_flag w OS_TASK_STATE_SUSPEND"
  shows "legal_state (w AND NOT OS_TASK_STATE_SUSPEND)"
    "\<not> has_flag w OS_TASK_STATE_READY"
    "\<not> has_flag (w AND NOT OS_TASK_STATE_SUSPEND) (OS_TASK_STATE_SLEEP OR OS_TASK_STATE_BLOCK) \<Longrightarrow>
       legal_state ((w AND NOT OS_TASK_STATE_SUSPEND) OR OS_TASK_STATE_READY)"
  using assms by (auto simp: legal_state_cases task_state_defs has_flag_def)

lemma legal_start: "legal_state ((OS_TASK_STATE_INIT AND NOT OS_TASK_STATE_INIT) OR OS_TASK_STATE_READY)"
  "legal_state ((OS_TASK_STATE_SUSPEND AND NOT OS_TASK_STATE_SUSPEND) OR OS_TASK_STATE_READY)"
  "legal_state OS_TASK_STATE_INIT"
  by (simp_all add: legal_state_cases task_state_defs)

text \<open>
  A waiting task that is not running leaves its queues: it is ready, or only suspended.
\<close>

lemma legal_woken:
  assumes "legal_state (state x)" "\<not> has_flag (state x) OS_TASK_STATE_READY"
    "has_flag (state x) OS_TASK_STATE_SLEEP \<or> has_flag (state x) OS_TASK_STATE_BLOCK"
    "\<not> has_flag (state x) OS_TASK_STATE_RUNNING \<or> \<not> has_flag (state x) OS_TASK_STATE_SUSPEND"
  shows "legal_state (state (woken_tcb x))"
  using assms by (auto simp: legal_state_cases woken_tcb_def task_state_defs has_flag_def)

lemma legal_running:
  "legal_state w \<Longrightarrow> legal_state (w AND NOT OS_TASK_STATE_RUNNING)"
  "legal_state w \<Longrightarrow> legal_state (w OR OS_TASK_STATE_RUNNING)"
  by (auto simp: legal_state_cases task_state_defs)

lemma legal_close:
  assumes "legal_state w" "\<not> has_flag w OS_TASK_STATE_READY"
  shows "legal_state ((((w AND NOT OS_TASK_STATE_SLEEP) AND NOT OS_TASK_STATE_BLOCK)
     AND NOT OS_TASK_STATE_INIT) AND NOT OS_TASK_STATE_SUSPEND OR OS_TASK_STATE_CLOSE)"
  using assms by (auto simp: legal_state_cases task_state_defs has_flag_def)

lemma states_okD:
  assumes "states_ok k"
  shows "legal_state (tstate k t)" "has_flag (tstate k t) OS_TASK_STATE_RUNNING \<longleftrightarrow> current_task k = Some t"
  using assms by (auto simp: states_ok_def)

lemma states_ok_upd:
  assumes "states_ok k" "current_task k' = current_task k" "\<And>u. u \<noteq> t \<Longrightarrow> tstate k' u = tstate k u"
    and "legal_state (tstate k' t)"
    and "has_flag (tstate k' t) OS_TASK_STATE_RUNNING \<longleftrightarrow> has_flag (tstate k t) OS_TASK_STATE_RUNNING"
  shows "states_ok k'"
proof -
  have "tstate k' u = (if u = t then tstate k' t else tstate k u)" for u using assms(3) by simp
  with assms show ?thesis unfolding states_ok_def by metis
qed

subsection \<open>The scheduling invariant\<close>

definition kmid :: "tid \<Rightarrow> kernel \<Rightarrow> bool" where
  "kmid i k \<longleftrightarrow> kinv i k \<and> states_ok k \<and> current_task k \<noteq> None \<and>
     (sched_lock_cnt k \<noteq> 0 \<longrightarrow> \<not> switch_pending k \<and>
        (\<forall>c. current_task k = Some c \<longrightarrow> has_flag (tstate k c) OS_TASK_STATE_READY))"

text \<open>Unless the scheduler is locked, the best ready task runs or is about to.\<close>

definition krun :: "tid \<Rightarrow> kernel \<Rightarrow> bool" where
  "krun i k \<longleftrightarrow> kmid i k \<and> (sched_lock_cnt k = 0 \<longrightarrow>
     (if switch_pending k then next_task k = high_task k else current_task k = high_task k))"

definition settled :: "tid \<Rightarrow> kernel \<Rightarrow> bool" where
  "settled i k \<longleftrightarrow> krun i k \<and> \<not> switch_pending k"

definition dispatch :: "kernel \<Rightarrow> kernel res" where
  "dispatch k = (if switch_pending k then PendSV_Handler k else OK k)"

lemma k_kernel_exit_sched_frame [simp]:
  "tasks (k_kernel_exit_sched k) = tasks k" "current_task (k_kernel_exit_sched k) = current_task k"
  "task_lists (k_kernel_exit_sched k) = task_lists k" "high_task (k_kernel_exit_sched k) = high_task k"
  "sched_lock_cnt (k_kernel_exit_sched k) = sched_lock_cnt k"
  "tickq_bucket (k_kernel_exit_sched k) = tickq_bucket k" "os_tick (k_kernel_exit_sched k) = os_tick k"
  by (simp_all add: k_kernel_exit_sched_def os_task_switch_def Let_def)

lemma kinv_pendsv [simp]: "kinv i (k\<lparr>switch_pending := b\<rparr>) \<longleftrightarrow> kinv i k"
  "kinv i (k\<lparr>current_task := c\<rparr>) \<longleftrightarrow> kinv i k" "kinv i (k\<lparr>next_task := c\<rparr>) \<longleftrightarrow> kinv i k"
  "kinv i (k\<lparr>sched_lock_cnt := n\<rparr>) \<longleftrightarrow> kinv i k"
  by (simp_all add: kinv_def readyq_synced_iff)

lemma krun_exit_sched: "kmid i k \<Longrightarrow> krun i (k_kernel_exit_sched k)"
  by (auto simp: krun_def kmid_def states_ok_def k_kernel_exit_sched_def os_task_switch_def Let_def)

lemma high_ready:
  assumes "kinv i k"
  obtains h where "high_task k = Some h" "has_flag (tstate k h) OS_TASK_STATE_READY"
proof -
  have "in_readyq k i" using kinv_in_readyq[OF assms] kinvD(7)[OF assms] by simp
  then obtain h where h: "best_ready (task_lists k) = Some h"
    using in_readyq_best_Some[OF kinv_readyq_ok[OF assms]] by blast
  then obtain p where "task_lists k (RQ p) \<noteq> []" "hd (task_lists k (RQ p)) = h"
    unfolding best_ready_Some_iff by blast
  then have "h \<in> set (task_lists k (RQ p))" using hd_in_set by metis
  then have "has_flag (tstate k h) OS_TASK_STATE_READY"
    by (simp add: kinvD(4)[OF assms] home_RQ[OF kinvD(6)[OF assms]])
  then show ?thesis using that h readyq_okD(4)[OF kinv_readyq_ok[OF assms]] by simp
qed

lemma settled_current:
  assumes "settled i k"
  obtains c where "current_task k = Some c" "has_flag (tstate k c) OS_TASK_STATE_READY"
    "sched_lock_cnt k = 0 \<Longrightarrow> high_task k = Some c"
proof -
  obtain c where c: "current_task k = Some c" using assms by (auto simp: settled_def krun_def kmid_def)
  have inv: "kinv i k" using assms by (simp add: settled_def krun_def kmid_def)
  show ?thesis
  proof (cases "sched_lock_cnt k = 0")
    case True
    then show ?thesis
      using assms c that high_ready[OF inv] by (auto simp: settled_def krun_def)
  next
    case False
    then show ?thesis using assms c that by (auto simp: settled_def krun_def kmid_def)
  qed
qed

text \<open>PendSV hands the processor to the task the scheduler chose.\<close>

lemma dispatch_ok:
  assumes run: "krun i k"
  shows "\<exists>k'. dispatch k = OK k' \<and> settled i k' \<and> task_lists k' = task_lists k \<and> sched_lock_cnt k' = sched_lock_cnt k \<and>
    high_task k' = high_task k \<and> os_tick k' = os_tick k \<and> tickq_bucket k' = tickq_bucket k \<and>
    (\<forall>t. tasks k' t = (tasks k t)\<lparr>state := tstate k' t\<rparr>)"
proof (cases "switch_pending k")
  case False
  then show ?thesis using run by (simp add: dispatch_def settled_def)
next
  case True
  have inv: "kinv i k" and st: "states_ok k" and "sched_lock_cnt k = 0" "next_task k = high_task k"
    using run True by (auto simp: krun_def kmid_def)
  obtain n where n: "high_task k = Some n" "has_flag (tstate k n) OS_TASK_STATE_READY"
    using high_ready[OF inv] by blast
  obtain c where c: "current_task k = Some c" using run by (auto simp: krun_def kmid_def)
  let ?k1 = "clear_task_state c OS_TASK_STATE_RUNNING (k\<lparr>switch_pending := False\<rparr>)"
  let ?k = "set_task_state n OS_TASK_STATE_RUNNING (?k1\<lparr>current_task := Some n\<rparr>)"
  have eq: "dispatch k = OK ?k"
    using True n c \<open>next_task k = high_task k\<close>
    by (simp add: dispatch_def PendSV_Handler_def Let_def clear_task_state_def)
  have kinv: "kinv i ?k" using inv by (intro kinv_set_flag) (auto intro: kinv_clear_flag)
  have others: "has_flag (tstate k u) OS_TASK_STATE_RUNNING \<longleftrightarrow> u = c" for u
    using states_okD(2)[OF st, of u] c by auto
  have "states_ok ?k"
    unfolding states_ok_def using states_okD(1)[OF st] others
    by (auto simp: legal_running flag_simps)
  then show ?thesis
    using eq kinv n \<open>sched_lock_cnt k = 0\<close>
    by (auto simp: settled_def krun_def kmid_def set_task_state_def clear_task_state_def)
qed

subsection \<open>Contract of a call\<close>

text \<open>A call stops in an assertion or leaves the scheduling invariant.\<close>

primrec run_safe :: "tid \<Rightarrow> (kernel \<times> 'a) res \<Rightarrow> bool" where
  "run_safe i (OK r) \<longleftrightarrow> krun i (fst r)"
| "run_safe i (Fault f) \<longleftrightarrow> f = AssertFail"

lemma run_safeI:
  assumes "kernel_safe i m" "\<And>k' e. m = OK (k', e) \<Longrightarrow> kinv i k' \<Longrightarrow> krun i k'"
  shows "run_safe i m"
  using assms by (cases m) auto

definition same_cpu :: "kernel \<Rightarrow> kernel \<Rightarrow> bool" where
  "same_cpu k k' \<longleftrightarrow> current_task k' = current_task k \<and> sched_lock_cnt k' = sched_lock_cnt k \<and>
     switch_pending k' = switch_pending k \<and> next_task k' = next_task k"

lemma same_cpu_upd_task [simp]: "same_cpu k (upd_task t f k') \<longleftrightarrow> same_cpu k k'"
  "same_cpu (upd_task t f k) k' \<longleftrightarrow> same_cpu k k'" "same_cpu k k"
  by (simp_all add: same_cpu_def)

lemma same_cpu_state [simp]: "same_cpu k (set_task_state t m k') \<longleftrightarrow> same_cpu k k'"
  "same_cpu k (clear_task_state t m k') \<longleftrightarrow> same_cpu k k'"
  by (simp_all add: task_state_upd)

lemma k_readyq_put_cpu: "k_readyq_put t k = OK k' \<Longrightarrow> tasks k' = tasks k \<and> same_cpu k k'"
  by (auto simp: k_readyq_put_def k_readq_bmap_set_def same_cpu_def Let_def split: if_splits option.splits)

lemma k_readyq_remove_cpu: "k_readyq_remove t k = OK k' \<Longrightarrow> tasks k' = tasks k \<and> same_cpu k k'"
  by (auto simp: k_readyq_remove_def k_readq_bmap_clear_def same_cpu_def Let_def res_simps split: if_splits)

lemma k_readyq_move_tail_cpu: "k_readyq_move_tail t k = OK k' \<Longrightarrow> tasks k' = tasks k \<and> same_cpu k k'"
  by (auto simp: k_readyq_move_tail_def same_cpu_def Let_def res_simps split: if_splits)

text \<open>One task moves; nothing else about the processor changes.\<close>

lemma kmid_moveI:
  assumes k: "kmid i k" and k': "kinv i k'" "tasks k' = (tasks k)(t := x)" "same_cpu k k'"
    and x: "legal_state (state x)"
      "has_flag (state x) OS_TASK_STATE_RUNNING \<longleftrightarrow> has_flag (tstate k t) OS_TASK_STATE_RUNNING"
      "sched_lock_cnt k \<noteq> 0 \<Longrightarrow> current_task k = Some t \<Longrightarrow> has_flag (state x) OS_TASK_STATE_READY"
  shows "kmid i k'"
proof -
  have "states_ok k'"
    by (rule states_ok_upd[of k k' t]) (use assms in \<open>simp_all add: kmid_def same_cpu_def\<close>)
  then show ?thesis
    using assms by (auto simp: kmid_def same_cpu_def split: option.splits)
qed

lemma krun_same:
  assumes "krun i k" "kmid i k'" "same_cpu k k'" "sched_lock_cnt k = 0 \<Longrightarrow> high_task k' = high_task k"
  shows "krun i k'"
  using assms by (simp add: krun_def same_cpu_def)

lemma settledD:
  assumes "settled i k"
  shows "krun i k" "kmid i k" "kinv i k" "states_ok k" "\<not> switch_pending k" "current_task k \<noteq> None"
  using assms by (simp_all add: settled_def krun_def kmid_def)

lemma kinv_high: "kinv i k \<Longrightarrow> high_task k = best_ready (task_lists k)"
  using readyq_okD(4)[OF kinv_readyq_ok] by blast

text \<open>A call that changes no ready list leaves the choice of the scheduler alone.\<close>

lemma high_task_frame:
  "kinv i k \<Longrightarrow> kinv i k' \<Longrightarrow> (\<And>p. task_lists k' (RQ p) = task_lists k (RQ p)) \<Longrightarrow> high_task k' = high_task k"
  by (auto simp: kinv_high intro: best_ready_cong)

text \<open>Removing another task than the one that runs leaves it alone, too.\<close>

lemma high_task_del_other:
  assumes "settled i k" "kinv i k'" "\<And>p. task_lists k' (RQ p) = removeAll t (task_lists k (RQ p))"
    "sched_lock_cnt k = 0" "current_task k \<noteq> Some t"
  shows "high_task k' = high_task k"
proof -
  obtain c where c: "high_task k = Some c" "c \<noteq> t" using assms(1,4,5) settled_current by metis
  then have "best_ready (list_del (task_lists k) t) = Some c"
    using best_ready_del_other[of "task_lists k" c t] kinv_high[OF settledD(3)[OF assms(1)]] by simp
  moreover have "best_ready (task_lists k') = best_ready (list_del (task_lists k) t)"
    by (rule best_ready_cong) (simp add: assms(3) klist_simps)
  ultimately show ?thesis using c kinv_high[OF assms(2)] by simp
qed

subsection \<open>Calls of the task module\<close>

lemma os_task_startup_run:
  assumes s: "settled i k"
  shows "run_safe i (os_task_startup t k)"
proof (rule run_safeI[OF os_task_startup_safe[OF settledD(3)[OF s]]])
  fix k' e assume op: "os_task_startup t k = OK (k', e)" and inv: "kinv i k'"
  obtain k1 where k1: "k_readyq_put t (set_task_state t OS_TASK_STATE_READY
      (clear_task_state t OS_TASK_STATE_INIT k)) = OK k1" "k' = k_kernel_exit_sched k1"
    "tstate k t = OS_TASK_STATE_INIT"
    using op by (auto simp: os_task_startup_def res_simps)
  have "kmid i k1"
    by (rule kmid_moveI[OF settledD(2)[OF s], of _ t
          "(tasks k t)\<lparr>state := (tstate k t AND NOT OS_TASK_STATE_INIT) OR OS_TASK_STATE_READY\<rparr>"])
       (use k_readyq_put_cpu[OF k1(1)] inv k1(2,3) legal_start in
         \<open>auto simp: task_state_upd upd_task_def same_cpu_def flag_simps\<close>)
  then show "krun i k'" using k1(2) krun_exit_sched by simp
qed

lemma k_readyq_remove_RQ:
  "k_readyq_remove t k = OK k' \<Longrightarrow> task_lists k' (RQ p) = removeAll t (task_lists k (RQ p))"
  by (auto simp: k_readyq_remove_def k_readq_bmap_clear_def Let_def res_simps klist_simps split: if_splits)

lemma os_task_suspend_run:
  assumes s: "settled i k" and ti: "t \<noteq> i"
  shows "run_safe i (os_task_suspend t k)"
proof (rule run_safeI[OF os_task_suspend_safe[OF settledD(3)[OF s] ti]])
  fix k' e assume op: "os_task_suspend t k = OK (k', e)" and inv: "kinv i k'"
  note legal = states_okD(1)[OF settledD(4)[OF s], of t]
  have locked: "sched_lock_cnt k \<noteq> 0 \<Longrightarrow> current_task k \<noteq> Some t"
    using op by (auto simp: os_task_suspend_def res_simps os_is_schedule_locked_def)
  have run: "has_flag (tstate k t) OS_TASK_STATE_READY \<or> current_task k \<noteq> Some t"
    using s by (auto elim: settled_current)
  define fin where "fin k2 = (let k3 = set_task_state t OS_TASK_STATE_SUSPEND k2 in
      if Some t \<noteq> current_task k3 then k3 else k_kernel_exit_sched k3)" for k2
  have fin: "krun i (fin k2)" if k2: "kinv i (fin k2)" "same_cpu k k2" "tasks k2 = (tasks k)(t := x)"
    "legal_state (state x OR OS_TASK_STATE_SUSPEND)"
    "has_flag (state x) OS_TASK_STATE_RUNNING \<longleftrightarrow> has_flag (tstate k t) OS_TASK_STATE_RUNNING"
    "\<And>p. task_lists k2 (RQ p) = removeAll t (task_lists k (RQ p))" for k2 x
  proof -
    let ?k3 = "set_task_state t OS_TASK_STATE_SUSPEND k2"
    have "kmid i ?k3"
      by (rule kmid_moveI[OF settledD(2)[OF s], of _ t "x\<lparr>state := state x OR OS_TASK_STATE_SUSPEND\<rparr>"])
         (use k2 locked in \<open>auto simp: fin_def Let_def set_task_state_def upd_task_def same_cpu_def flag_simps
             split: if_splits\<close>)
    moreover have "high_task ?k3 = high_task k" if "sched_lock_cnt k = 0" "current_task k \<noteq> Some t"
      by (rule high_task_del_other[OF s _ _ that]) (use k2 that in
          \<open>auto simp: fin_def Let_def same_cpu_def split: if_splits\<close>)
    ultimately show ?thesis
      using krun_exit_sched krun_same[OF settledD(1)[OF s], of ?k3] k2(2)
      by (auto simp: fin_def Let_def same_cpu_def set_task_state_def)
  qed
  show "krun i k'"
  proof (cases "has_flag (tstate k t) OS_TASK_STATE_READY")
    case True
    then obtain k1 where "e = OS_ERROR \<and> k' = k \<or> k_readyq_remove t k = OK k1 \<and>
        k' = fin (clear_task_state t OS_TASK_STATE_READY k1)"
      using op by (auto simp: os_task_suspend_def res_simps Let_def fin_def split: if_splits)
    then show ?thesis
      using settledD(1)[OF s] inv legal_unready(2)[OF legal True] k_readyq_remove_cpu[of t k k1]
        k_readyq_remove_RQ[of t k k1]
      by (auto intro!: fin simp: clear_task_state_def upd_task_def same_cpu_def flag_simps)
  next
    case False
    then have "k' = k \<or> k' = fin k \<and> has_flag (tstate k t)
        (OS_TASK_STATE_READY OR OS_TASK_STATE_SLEEP OR OS_TASK_STATE_BLOCK)"
      using op run states_okD(2)[OF settledD(4)[OF s], of t]
      by (auto simp: os_task_suspend_def res_simps Let_def fin_def has_flag_or split: if_splits)
    then show ?thesis
      using settledD(1)[OF s] inv legal_suspend_waiting[OF legal False] fin[of k "tasks k t"]
        kinv_not_RQ[OF settledD(3)[OF s] False] by auto
  qed
qed

lemma os_task_resume_run:
  assumes s: "settled i k"
  shows "run_safe i (os_task_resume t k)"
proof -
  note legal = legal_unsuspend[OF states_okD(1)[OF settledD(4)[OF s], of t]]
  let ?k1 = "clear_task_state t OS_TASK_STATE_SUSPEND k"
  show ?thesis
  proof (rule run_safeI[OF os_task_resume_safe[OF settledD(3)[OF s] legal(2)]])
    fix k' e assume op: "os_task_resume t k = OK (k', e)" and inv: "kinv i k'"
    have cur: "has_flag (tstate k t) OS_TASK_STATE_SUSPEND \<Longrightarrow> current_task k \<noteq> Some t"
      using s legal(2) by (auto elim: settled_current)
    consider "k' = k" | "k' = ?k1" "has_flag (tstate k t) OS_TASK_STATE_SUSPEND"
      | k2 where "has_flag (tstate k t) OS_TASK_STATE_SUSPEND"
        "\<not> has_flag (tstate ?k1 t) (OS_TASK_STATE_SLEEP OR OS_TASK_STATE_BLOCK)"
        "k_readyq_put t (set_task_state t OS_TASK_STATE_READY ?k1) = OK k2" "k' = k_kernel_exit_sched k2"
      using op by (auto simp: os_task_resume_def res_simps Let_def split: if_splits)
    then show "krun i k'"
    proof cases
      case 1
      then show ?thesis using settledD(1)[OF s] by simp
    next
      case 2
      have "kmid i ?k1"
        by (rule kmid_moveI[OF settledD(2)[OF s], of _ t "(tasks k t)\<lparr>state := tstate k t AND NOT OS_TASK_STATE_SUSPEND\<rparr>"])
           (use 2 inv legal(1) cur in \<open>auto simp: clear_task_state_def upd_task_def same_cpu_def flag_simps\<close>)
      then show ?thesis
        using krun_same[OF settledD(1)[OF s], of ?k1] 2 by (simp add: same_cpu_def clear_task_state_def)
    next
      case (3 k2)
      have "kmid i k2"
        by (rule kmid_moveI[OF settledD(2)[OF s], of _ t
              "(tasks k t)\<lparr>state := (tstate k t AND NOT OS_TASK_STATE_SUSPEND) OR OS_TASK_STATE_READY\<rparr>"])
           (use 3 inv legal(3) k_readyq_put_cpu[OF 3(3)] in
             \<open>auto simp: task_state_upd upd_task_def same_cpu_def flag_simps\<close>)
      then show ?thesis using 3 krun_exit_sched by simp
    qed
  qed
qed

lemma kmid_same_tasks:
  "kmid i k \<Longrightarrow> kinv i k' \<Longrightarrow> tasks k' = tasks k \<Longrightarrow> same_cpu k k' \<Longrightarrow> kmid i k'"
  by (auto simp: kmid_def states_ok_def same_cpu_def split: option.splits)

lemma os_task_yield_run:
  assumes s: "settled i k"
  shows "run_safe i (os_task_yield k)"
proof (rule run_safeI[OF os_task_yield_safe[OF settledD(3)[OF s]]])
  fix k' e assume op: "os_task_yield k = OK (k', e)" and inv: "kinv i k'"
  then obtain c k1 where "k' = k \<or> k_readyq_move_tail c k = OK k1 \<and> k' = k_kernel_exit_sched k1"
    by (auto simp: os_task_yield_def task_context_def res_simps split: option.splits if_splits)
  then show "krun i k'"
    using settledD(1)[OF s] inv k_readyq_move_tail_cpu[of c k k1]
    by (auto intro!: krun_exit_sched intro: kmid_same_tasks[OF settledD(2)[OF s]])
qed

lemma settled_ready:
  "settled i k \<Longrightarrow> current_task k = Some c \<Longrightarrow> has_flag (tstate k c) OS_TASK_STATE_READY"
  by (auto elim: settled_current)

lemma os_task_tsleep_run:
  assumes s: "settled i k" and idle: "0 < tick \<Longrightarrow> current_task k \<noteq> Some i"
  shows "run_safe i (os_task_tsleep tick k)"
proof (rule run_safeI[OF os_task_tsleep_safe[OF settledD(3)[OF s]]])
  show "current_task k = Some c \<Longrightarrow> has_flag (tstate k c) OS_TASK_STATE_READY \<and> (0 < tick \<longrightarrow> c \<noteq> i)" for c
    using settled_ready[OF s] idle by auto
next
  fix k' e assume op: "os_task_tsleep tick k = OK (k', e)" and inv: "kinv i k'"
  then obtain c where c: "current_task k = Some c" "sched_lock_cnt k = 0"
    by (auto simp: os_task_tsleep_def task_context_def res_simps os_is_schedule_locked_def split: option.splits)
  note legal = legal_unready(3)[OF states_okD(1)[OF settledD(4)[OF s]] settled_ready[OF s c(1)]]
  let ?x = "(tasks k c)\<lparr>state := (tstate k c AND NOT OS_TASK_STATE_READY) OR OS_TASK_STATE_SLEEP,
      tick_timeout := tick, tick_absolute := os_tick k + tick\<rparr>"
  consider (zero) k1 where "k_readyq_move_tail c k = OK k1" "k' = k_kernel_exit_sched k1"
    | (pos) k1 where "k_readyq_remove c k = OK k1" "k' = k_kernel_exit_sched (k_tickq_put c tick
        (set_task_state c OS_TASK_STATE_SLEEP (clear_task_state c OS_TASK_STATE_READY k1)))"
    using op by (auto simp: os_task_tsleep_def task_context_def res_simps c(1) split: if_splits)
  then show "krun i k'"
  proof cases
    case zero
    then show ?thesis using inv k_readyq_move_tail_cpu[of c k k1]
      by (auto intro!: krun_exit_sched intro: kmid_same_tasks[OF settledD(2)[OF s]])
  next
    case pos
    have tick: "os_tick k1 = os_tick k"
      using pos(1) by (auto simp: k_readyq_remove_def k_readq_bmap_clear_def Let_def res_simps split: if_splits)
    show ?thesis unfolding pos(2)
      by (rule krun_exit_sched, rule kmid_moveI[OF settledD(2)[OF s], of _ c ?x])
         (use inv pos k_readyq_remove_cpu[OF pos(1)] legal c tick in
           \<open>auto simp: k_tickq_put_def Let_def task_state_upd upd_task_def same_cpu_def flag_simps\<close>)
  qed
qed

lemma os_task_msleep_run:
  assumes "settled i k" and "current_task k \<noteq> Some i"
  shows "run_safe i (os_task_msleep ms k)"
  using os_task_tsleep_run[OF assms(1), of "os_tick_from_ms ms"] assms(2)
  by (auto simp: os_task_msleep_def task_context_def os_assert_def)

lemma os_task_set_time_slice_run:
  assumes s: "settled i k"
  shows "run_safe i (os_task_set_time_slice t n k)"
proof (rule run_safeI[OF os_task_set_time_slice_safe[OF settledD(3)[OF s]]])
  fix k' e assume op: "os_task_set_time_slice t n k = OK (k', e)" and inv: "kinv i k'"
  then obtain f where "k' = upd_task t f k" "state (f (tasks k t)) = tstate k t"
    by (auto simp: os_task_set_time_slice_def res_simps Let_def upd_task_upd_task split: if_splits)
  then show "krun i k'"
    using inv states_okD(1)[OF settledD(4)[OF s], of t] settled_ready[OF s]
    by (intro krun_same[OF settledD(1)[OF s]] kmid_moveI[OF settledD(2)[OF s], of _ t "f (tasks k t)"])
       (auto simp: upd_task_def same_cpu_def)
qed

text \<open>Raising or lowering a priority takes effect at once.\<close>

lemma os_task_set_priority_run:
  assumes s: "settled i k" and ti: "t \<noteq> i"
  shows "run_safe i (os_task_set_priority t p k)"
proof (rule run_safeI[OF os_task_set_priority_safe[OF settledD(3)[OF s] ti]])
  fix k' e assume op: "os_task_set_priority t p k = OK (k', e)" and inv: "kinv i k'"
  let ?k1 = "upd_task t (\<lambda>x. x\<lparr>backup_priority := p\<rparr>) k"
  have mid: "kmid i k2" if "kinv i k2" "same_cpu k k2" "tasks k2 = (tasks k)(t := x)" "state x = tstate k t" for k2 x
    using kmid_moveI[OF settledD(2)[OF s] that(1,3,2)] that(4) states_okD(1)[OF settledD(4)[OF s], of t]
      settled_ready[OF s, of t] by simp
  consider (ready) k2 k3 where "k_readyq_remove t ?k1 = OK k2"
      "k_readyq_put t (set_current_priority t p k2) = OK k3" "k' = k_kernel_exit_sched k3"
    | (blocked) h where "k' = k_blockq_insert h t (set_current_priority t p (?k1\<lparr>task_lists := list_del (task_lists ?k1) t\<rparr>))"
      "block_list_head (tasks k t) = Some h" "has_flag (tstate k t) OS_TASK_STATE_BLOCK"
    | (other) "k' = ?k1 \<or> k' = set_current_priority t p ?k1"
    using op by (auto simp: os_task_set_priority_def res_simps Let_def split: if_splits option.splits)
  then show "krun i k'"
  proof cases
    case ready
    note cpu = k_readyq_remove_cpu[OF ready(1)] k_readyq_put_cpu[OF ready(2)]
    show ?thesis unfolding ready(3)
      by (rule krun_exit_sched, rule mid[of _ "(tasks k t)\<lparr>backup_priority := p, current_priority := p\<rparr>"])
         (use inv ready(3) cpu in \<open>auto simp: set_current_priority_def upd_task_def same_cpu_def\<close>)
  next
    case blocked
    have nr: "\<not> has_flag (tstate k t) OS_TASK_STATE_READY" and "\<exists>w. h = WQ w"
      using blocked(2,3) task_wfD(4,5)[OF kinvD(6)[OF settledD(3)[OF s], of t]] by auto
    then have "task_lists k' (RQ q) = task_lists k (RQ q)" for q
      using blocked kinv_not_RQ[OF settledD(3)[OF s] nr, of q]
      by (auto simp: k_blockq_insert_def set_current_priority_def klist_simps)
    then have "high_task k' = high_task k" by (rule high_task_frame[OF settledD(3)[OF s] inv])
    then show ?thesis
      by (intro krun_same[OF settledD(1)[OF s]] mid[of _ "(tasks k t)\<lparr>backup_priority := p, current_priority := p\<rparr>"])
         (use inv blocked in \<open>auto simp: k_blockq_insert_def set_current_priority_def upd_task_def same_cpu_def\<close>)
  next
    case other
    have "kmid i k'"
      by (rule mid[of _ "tasks k' t"])
         (use inv other in \<open>auto simp: set_current_priority_def upd_task_def same_cpu_def\<close>)
    then show ?thesis
      by (rule krun_same[OF settledD(1)[OF s]])
         (use other in \<open>auto simp: set_current_priority_def upd_task_def same_cpu_def\<close>)
  qed
qed

subsubsection \<open>Creation and termination\<close>

lemma k_wakeup_recycle_task_mid:
  assumes "kmid i k"
  shows "\<exists>k'. k_wakeup_recycle_task rt k = OK k' \<and> kmid i k'"
proof -
  obtain k' where k': "k_wakeup_recycle_task rt k = OK k'" "kinv i k'"
    using k_wakeup_recycle_task_ok[of i k rt] assms by (auto simp: kmid_def)
  have "kmid i k'"
  proof (cases "tstate k rt = OS_TASK_STATE_SUSPEND")
    case True
    then have put: "k_readyq_put rt (set_task_state rt OS_TASK_STATE_READY
        (clear_task_state rt OS_TASK_STATE_SUSPEND k)) = OK k'"
      using k'(1) by (simp add: k_wakeup_recycle_task_def)
    show ?thesis
      by (rule kmid_moveI[OF assms k'(2), of rt
            "(tasks k rt)\<lparr>state := (tstate k rt AND NOT OS_TASK_STATE_SUSPEND) OR OS_TASK_STATE_READY\<rparr>"])
         (use k_readyq_put_cpu[OF put] True legal_start(2) in
           \<open>auto simp: task_state_upd upd_task_def same_cpu_def flag_simps\<close>)
  qed (use k'(1) assms in \<open>simp add: k_wakeup_recycle_task_def\<close>)
  with k' show ?thesis by blast
qed

lemma kmid_lists [simp]:
  "kmid i (k\<lparr>resource_list := r\<rparr>) \<longleftrightarrow> kmid i k" "kmid i (k\<lparr>recycle_list := r\<rparr>) \<longleftrightarrow> kmid i k"
  by (simp_all add: kmid_def states_ok_def)

lemma krun_lists [simp]: "krun i (k\<lparr>resource_list := r\<rparr>) \<longleftrightarrow> krun i k"
  by (simp add: krun_def)

lemma settled_resource: "settled i k \<Longrightarrow> settled i (k\<lparr>resource_list := r\<rparr>)"
  by (simp add: settled_def)

lemma clear_if_set: "(if has_flag (tstate k t) m then clear_task_state t m k else k) = clear_task_state t m k"
  by (simp add: clear_task_state_def upd_task_def and_not_absent)

text \<open>What is left of a task that was taken out of every queue, before it is marked closed.\<close>

lemma k_task_deinit_mid:
  assumes s: "settled i k" and ti: "t \<noteq> i" and op: "k_task_deinit t k = OK k1"
    and lock: "sched_lock_cnt k \<noteq> 0 \<Longrightarrow> current_task k \<noteq> Some t"
  shows "kmid i (set_task_state t OS_TASK_STATE_CLOSE k1)" "same_cpu k k1"
    "\<And>p. task_lists k1 (RQ p) = removeAll t (task_lists k (RQ p))"
proof -
  note legal = states_okD(1)[OF settledD(4)[OF s], of t]
  obtain k2 where k2: "k_task_deinit t k = OK k2" "kinv i k2"
    using k_task_deinit_ok[OF settledD(3)[OF s] ti] by blast
  then have inv: "kinv i (set_task_state t OS_TASK_STATE_CLOSE k1)" using op by (intro kinv_set_flag) auto
  have "kmid i (set_task_state t OS_TASK_STATE_CLOSE k1) \<and> same_cpu k k1 \<and>
      (\<forall>p. task_lists k1 (RQ p) = removeAll t (task_lists k (RQ p)))"
  proof (cases "has_flag (tstate k t) OS_TASK_STATE_READY")
    case True
    then obtain k3 where k3: "k_readyq_remove t k = OK k3" "k1 = clear_task_state t OS_TASK_STATE_READY k3"
      using op by (auto simp: k_task_deinit_def res_simps)
    have "kmid i (set_task_state t OS_TASK_STATE_CLOSE k1)"
      by (rule kmid_moveI[OF settledD(2)[OF s] inv, of t
            "(tasks k t)\<lparr>state := (tstate k t AND NOT OS_TASK_STATE_READY) OR OS_TASK_STATE_CLOSE\<rparr>"])
         (use k_readyq_remove_cpu[OF k3(1)] k3(2) legal_unready(4)[OF legal True] lock in
           \<open>auto simp: task_state_upd upd_task_def same_cpu_def flag_simps\<close>)
    then show ?thesis
      using k_readyq_remove_cpu[OF k3(1)] k_readyq_remove_RQ[OF k3(1)] k3(2) by simp
  next
    case False
    let ?w = "((((tstate k t AND NOT OS_TASK_STATE_SLEEP) AND NOT OS_TASK_STATE_BLOCK)
         AND NOT OS_TASK_STATE_INIT) AND NOT OS_TASK_STATE_SUSPEND)"
    define ka where "ka = (if has_flag (tstate k t) OS_TASK_STATE_SLEEP
        then clear_task_state t OS_TASK_STATE_SLEEP (k_tickq_remove t k) else k)"
    define kb where "kb = (if has_flag (tstate ka t) OS_TASK_STATE_BLOCK
        then clear_task_state t OS_TASK_STATE_BLOCK (ka\<lparr>task_lists := list_del (task_lists ka) t\<rparr>) else ka)"
    have k1: "k1 = clear_task_state t OS_TASK_STATE_SUSPEND (clear_task_state t OS_TASK_STATE_INIT kb)"
      using op False by (simp add: k_task_deinit_def clear_if_set flip: ka_def kb_def)
    have ka: "tasks ka = (tasks k)(t := (tasks k t)\<lparr>state := tstate k t AND NOT OS_TASK_STATE_SLEEP\<rparr>)"
      "same_cpu k ka" "task_lists ka = task_lists k"
      by (auto simp: ka_def clear_task_state_def upd_task_def k_tickq_remove_def and_not_absent same_cpu_def)
    have kb: "tasks kb = (tasks ka)(t := (tasks ka t)\<lparr>state := tstate ka t AND NOT OS_TASK_STATE_BLOCK\<rparr>)"
      "same_cpu ka kb" "task_lists kb = task_lists ka \<or> task_lists kb = list_del (task_lists ka) t"
      by (auto simp: kb_def clear_task_state_def upd_task_def and_not_absent same_cpu_def)
    have t: "tasks k1 = (tasks k)(t := (tasks k t)\<lparr>state := ?w\<rparr>)" and c: "same_cpu k k1"
      using ka kb by (simp_all add: k1 clear_task_state_def upd_task_def same_cpu_def)
    have l: "task_lists k1 (RQ p) = removeAll t (task_lists k (RQ p))" for p
      using ka(3) kb(3) kinv_not_RQ[OF settledD(3)[OF s] False, of p] by (auto simp: k1 klist_simps)
    have "kmid i (set_task_state t OS_TASK_STATE_CLOSE k1)"
      by (rule kmid_moveI[OF settledD(2)[OF s] inv, of t "(tasks k t)\<lparr>state := ?w OR OS_TASK_STATE_CLOSE\<rparr>"])
         (use t c legal_close[OF legal False] lock in \<open>auto simp: task_state_upd upd_task_def same_cpu_def flag_simps\<close>)
    then show ?thesis using c l by simp
  qed
  then show "kmid i (set_task_state t OS_TASK_STATE_CLOSE k1)" "same_cpu k k1"
    "\<And>p. task_lists k1 (RQ p) = removeAll t (task_lists k (RQ p))" by auto
qed

lemma settled_deinited:
  assumes s: "settled i k" and ti: "t \<noteq> i"
  shows "settled i (upd_task t (\<lambda>x. x\<lparr>object_inited := v\<rparr>) (k\<lparr>resource_list := r\<rparr>))" (is "settled i ?k")
proof -
  note s' = settled_resource[OF s, of r]
  have "kinv i ?k"
    using kinvD(6)[OF settledD(3)[OF s], of t] ti
    by (intro kinv_upd_task[OF settledD(3)[OF s']]) (auto simp: home_def tick_home_def task_wf_def)
  then have "kmid i ?k"
    by (rule kmid_moveI[OF settledD(2)[OF s'], of _ t "(tasks k t)\<lparr>object_inited := v\<rparr>"])
       (use states_okD(1)[OF settledD(4)[OF s], of t] settled_ready[OF s, of t] in
         \<open>auto simp: upd_task_def same_cpu_def\<close>)
  then have "krun i ?k" by (rule krun_same[OF settledD(1)[OF s]]) (simp_all add: same_cpu_def)
  then show ?thesis using settledD(5)[OF s] by (simp add: settled_def)
qed

text \<open>Both destructors end the same way; \<open>q\<close> says whether the recycle task has work.\<close>

lemma task_closing_run:
  assumes s: "settled i k" and ti: "t \<noteq> i" and op: "k_task_deinit t k = OK k1"
    and lock: "sched_lock_cnt k \<noteq> 0 \<Longrightarrow> current_task k \<noteq> Some t"
    and cb: "\<And>f d k. krun i k \<Longrightarrow> krun i (call f d k)"
  shows "run_safe i (let k2 = set_task_state t OS_TASK_STATE_CLOSE k1
     in if Some t = current_task k2
        then bind_res (if q k2 then k_wakeup_recycle_task rt (k2\<lparr>recycle_list := recycle_list k2 @ [t]\<rparr>) else OK k2)
               (\<lambda>k3. OK (k_kernel_exit_sched k3, OS_EOK))
        else OK (case cleanup (tasks k2 t) of None \<Rightarrow> k2
                 | Some f \<Rightarrow> call f (user_data (tasks k2 t)) k2, OS_EOK))"
proof -
  have d: "kmid i (set_task_state t OS_TASK_STATE_CLOSE k1)" "same_cpu k k1"
    "task_lists k1 (RQ p) = removeAll t (task_lists k (RQ p))" for p
    using k_task_deinit_mid[OF s ti op] lock by blast+
  let ?k2 = "set_task_state t OS_TASK_STATE_CLOSE k1"
  have "krun i ?k2" if "current_task k \<noteq> Some t"
  proof (rule krun_same[OF settledD(1)[OF s] d(1)])
    show "high_task ?k2 = high_task k" if "sched_lock_cnt k = 0"
      by (rule high_task_del_other[OF s _ _ that \<open>current_task k \<noteq> Some t\<close>]) (use d in \<open>simp_all add: kmid_def\<close>)
  qed (use d(2) in simp)
  moreover have "current_task ?k2 = current_task k" using d(2) by (simp add: same_cpu_def)
  moreover obtain k3 where "k_wakeup_recycle_task rt (?k2\<lparr>recycle_list := recycle_list ?k2 @ [t]\<rparr>) = OK k3" "kmid i k3"
    using k_wakeup_recycle_task_mid[of i "?k2\<lparr>recycle_list := recycle_list ?k2 @ [t]\<rparr>" rt] d(1) by auto
  ultimately show ?thesis using d(1) cb by (auto simp: Let_def krun_exit_sched split: option.split)
qed

lemma run_safe_assert [intro!]: "(c \<Longrightarrow> run_safe i m) \<Longrightarrow> run_safe i (os_assert c m)"
  by (cases c) simp_all

lemma run_safe_deinit:
  assumes s: "settled i k" and ti: "t \<noteq> i" and "\<And>k1. k_task_deinit t k = OK k1 \<Longrightarrow> run_safe i (f k1)"
  shows "run_safe i (bind_res (k_task_deinit t k) f)"
  using k_task_deinit_ok[OF settledD(3)[OF s] ti] assms(3) by auto

lemma run_safe_if [intro!]:
  "(c \<Longrightarrow> run_safe i a) \<Longrightarrow> (\<not> c \<Longrightarrow> run_safe i b) \<Longrightarrow> run_safe i (if c then a else b)"
  by simp

lemma os_task_deinit_run:
  assumes s: "settled i k" and ti: "t \<noteq> i" and cb: "\<And>f d k. krun i k \<Longrightarrow> krun i (call f d k)"
  shows "run_safe i (os_task_deinit call rt t k)"
  unfolding os_task_deinit_def Let_def[of "k\<lparr>resource_list := _\<rparr>"]
  by (intro run_safe_assert run_safe_if run_safe_deinit[OF settled_deinited[OF s ti] ti]
        task_closing_run[OF settled_deinited[OF s ti] ti _ _ cb])
     (use settledD(1)[OF s] in \<open>auto simp: os_is_schedule_locked_def\<close>)

lemma os_task_destroy_run:
  assumes s: "settled i k" and ti: "t \<noteq> i" and cb: "\<And>f d k. krun i k \<Longrightarrow> krun i (call f d k)"
  shows "run_safe i (os_task_destroy call rt t k)"
  unfolding os_task_destroy_def task_context_def Let_def[of "k\<lparr>resource_list := _\<rparr>"]
  by (intro run_safe_assert run_safe_if run_safe_deinit[OF settled_deinited[OF s ti] ti]
        task_closing_run[OF settled_deinited[OF s ti] ti _ _ cb, where q = "\<lambda>_. True", unfolded if_True])
     (use settledD(1)[OF s] in \<open>auto simp: os_is_schedule_locked_def\<close>)

lemma k_task_exit_run:
  assumes s: "settled i k" and c: "current_task k = Some c" "c \<noteq> i" "sched_lock_cnt k = 0"
  shows "\<exists>k'. k_task_exit rt k = OK k' \<and> krun i k'"
proof -
  let ?k = "k\<lparr>resource_list := removeAll c (resource_list k)\<rparr>"
  obtain k' where k': "k_task_exit rt k = OK k'"
    using k_task_exit_safe[OF settledD(3)[OF s] c(1) settled_ready[OF s c(1)] c(2)] by blast
  then obtain k1 where k1: "k_readyq_remove c ?k = OK k1" by (auto simp: k_task_exit_def c(1) res_simps)
  let ?k2 = "set_task_state c OS_TASK_STATE_CLOSE (clear_task_state c OS_TASK_STATE_READY k1)"
  let ?f = "\<lambda>x. x\<lparr>state := (state x AND NOT OS_TASK_STATE_READY) OR OS_TASK_STATE_CLOSE\<rparr>"
  note r = settled_ready[OF s c(1)]
  have "kinv i (upd_task c ?f k1)"
    using remove_ready[of i ?k c ?f] k1 settledD(3)[OF s] r c(2) kinvD(6)[OF settledD(3)[OF s], of c]
    by (auto simp: home_def tick_home_def task_wf_def flag_simps)
  then have "kmid i ?k2"
    by (intro kmid_moveI[OF settledD(2)[OF s], of _ c "?f (tasks k c)"])
       (use k_readyq_remove_cpu[OF k1] legal_unready(4)[OF states_okD(1)[OF settledD(4)[OF s]] r] c in
         \<open>auto simp: task_state_upd upd_task_def same_cpu_def flag_simps\<close>)
  then show ?thesis
    using k_wakeup_recycle_task_mid[of i "?k2\<lparr>recycle_list := recycle_list ?k2 @ [c]\<rparr>" rt]
    by (auto simp: k_task_exit_def c(1) k1 Let_def krun_exit_sched)
qed

lemma kinv_task_init:
  assumes inv: "kinv i k" and ti: "t \<noteq> i" and p: "unat p < 32"
    and free: "tstate k t = OS_TASK_STATE_EMPTY \<or> tstate k t = OS_TASK_STATE_CLOSE"
    and x: "state x = OS_TASK_STATE_INIT" "current_priority x = p" "backup_priority x = p"
    and k': "tasks k' = (tasks k)(t := x)" "task_lists k' = task_lists k" "tickq_bucket k' = tickq_bucket k"
      "high_task k' = high_task k" "priority_bmap k' = priority_bmap k"
  shows "kinv i k'"
proof (rule kinv_moveI[OF inv k'(1)])
  have h: "home (tasks k t) = None" "tick_home (tasks k t) = None"
    using free by (auto simp: home_def tick_home_def OS_TASK_STATE_EMPTY_def flag_simps)
  show "task_wf x" using x p by (simp add: task_wf_def flag_simps)
  show "readyq_sync k' = k'" using kinvD(1)[OF inv] k' by (simp add: readyq_synced_iff)
  show "t \<in> set (task_lists k' h) \<longleftrightarrow> home x = Some h" for h
    using kinvD(4)[OF inv, of t h] h x by (simp add: k' home_def flag_simps)
  show "t \<in> set (tickq_bucket k' b) \<longleftrightarrow> tick_home x = Some b" for b
    using kinvD(5)[OF inv, of t b] h x by (simp add: k' tick_home_def flag_simps)
qed (use kinvD(2,3)[OF inv] ti in \<open>auto simp: k'\<close>)

lemma krun_task_init:
  assumes s: "settled i k" and ti: "t \<noteq> i" and p: "unat p < 32"
    and free: "tstate k t = OS_TASK_STATE_EMPTY \<or> tstate k t = OS_TASK_STATE_CLOSE"
    and x: "tstate k' t = OS_TASK_STATE_INIT" "prio k' t = p" "backup_priority (tasks k' t) = p"
    and k': "\<And>u. u \<noteq> t \<Longrightarrow> tasks k' u = tasks k u" "task_lists k' = task_lists k"
      "tickq_bucket k' = tickq_bucket k" "high_task k' = high_task k" "priority_bmap k' = priority_bmap k"
      "same_cpu k k'"
  shows "krun i k'"
proof -
  have upd: "tasks k' = (tasks k)(t := tasks k' t)" using k'(1) by (auto simp: fun_eq_iff)
  show ?thesis
  proof (rule krun_same[OF settledD(1)[OF s] kmid_moveI[OF settledD(2)[OF s] _ upd k'(6)]])
    show "kinv i k'" by (rule kinv_task_init[OF settledD(3)[OF s] ti p free x upd k'(2-5)])
  qed (use free x legal_start(3) settled_ready[OF s, of t] k' in
        \<open>auto simp: flag_simps OS_TASK_STATE_EMPTY_def\<close>)
qed

lemma os_task_init_run:
  assumes s: "settled i k" and ti: "t \<noteq> i"
    and free: "tstate k t = OS_TASK_STATE_EMPTY \<or> tstate k t = OS_TASK_STATE_CLOSE"
  shows "run_safe i (os_task_init t nm stack_size p k)"
  unfolding os_task_init_def OS_TASK_PRIORITY_MAX_def
  using settledD(1)[OF s]
  by (auto intro!: krun_task_init[OF s ti _ free] simp: k_task_init_def upd_task_def same_cpu_def)

lemma os_task_create_run:
  assumes s: "settled i k"
    and fresh: "\<And>t. tcb = Some t \<Longrightarrow> t \<noteq> i \<and> (tstate k t = OS_TASK_STATE_EMPTY \<or> tstate k t = OS_TASK_STATE_CLOSE)"
  shows "run_safe i (os_task_create nm stack_size p stack tcb k)"
proof (cases "stack = None \<or> tcb = None")
  case True
  then show ?thesis
    unfolding os_task_create_def using settledD(1)[OF s] by (auto split: option.split)
next
  case False
  then obtain a t where t: "stack = Some a" "tcb = Some t" by auto
  show ?thesis
    unfolding os_task_create_def OS_TASK_PRIORITY_MAX_def
    using fresh[OF t(2)] unfolding t option.case prod.case
    by (intro run_safe_assert)
       (auto simp: k_task_init_def upd_task_def same_cpu_def Let_def intro!: krun_task_init[OF s, of t p])
qed

lemma os_schedule_lock_run:
  assumes s: "settled i k" and "sched_lock_cnt k + 1 \<noteq> 0"
  shows "krun i (os_schedule_lock k)"
  using assms settled_ready[OF s]
  by (auto simp: os_schedule_lock_def settled_def krun_def kmid_def states_ok_def)

lemma os_schedule_unlock_run:
  assumes s: "settled i k"
  shows "(\<exists>k'. os_schedule_unlock k = OK k' \<and> krun i k') \<or> os_schedule_unlock k = Fault AssertFail"
proof -
  let ?k = "k\<lparr>sched_lock_cnt := sched_lock_cnt k - 1\<rparr>"
  have "kmid i ?k" using settledD[OF s] settled_ready[OF s] by (auto simp: kmid_def states_ok_def)
  moreover have "krun i ?k" if "sched_lock_cnt ?k \<noteq> 0" using that calculation by (simp add: krun_def)
  ultimately show ?thesis
    by (auto simp: os_schedule_unlock_def Let_def os_assert_def krun_exit_sched)
qed

subsection \<open>The tick interrupt\<close>

text \<open>
  While the interrupted task is ready, waking the tasks of the bucket either reports that
  something became ready or leaves the choice of the scheduler alone.
\<close>

definition tick_pre :: "tid \<Rightarrow> kernel \<Rightarrow> bool" where
  "tick_pre i k \<longleftrightarrow> kmid i k \<and> (\<forall>c. current_task k = Some c \<longrightarrow> has_flag (tstate k c) OS_TASK_STATE_READY)"

definition tick_keeps :: "tid \<Rightarrow> kernel \<Rightarrow> kernel \<Rightarrow> bool \<Rightarrow> bool" where
  "tick_keeps i k k' need \<longleftrightarrow> tick_pre i k' \<and> same_cpu k k' \<and> (\<not> need \<longrightarrow> high_task k' = high_task k)"

lemma tick_keeps_refl [simp]: "tick_keeps i k k s \<longleftrightarrow> tick_pre i k"
  by (simp add: tick_keeps_def)

lemma tick_keeps_pre: "tick_keeps i k k' s \<Longrightarrow> tick_pre i k'"
  by (simp add: tick_keeps_def)

lemma tick_keeps_trans:
  "tick_keeps i k k1 s1 \<Longrightarrow> tick_keeps i k1 k2 s2 \<Longrightarrow> (s1 \<or> s2 \<Longrightarrow> s) \<Longrightarrow> tick_keeps i k k2 s"
  by (auto simp: tick_keeps_def same_cpu_def)

lemma tick_pre_moveI:
  assumes pre: "tick_pre i k" and inv: "kinv i k'" and t: "tasks k' = (tasks k)(t := x)" and c: "same_cpu k k'"
    and x: "legal_state (state x)"
      "has_flag (state x) OS_TASK_STATE_RUNNING \<longleftrightarrow> has_flag (tstate k t) OS_TASK_STATE_RUNNING"
      "current_task k = Some t \<Longrightarrow> has_flag (state x) OS_TASK_STATE_READY"
  shows "tick_pre i k'"
  using kmid_moveI[OF _ inv t c x(1,2)] pre x(3) t c by (auto simp: tick_pre_def same_cpu_def)

lemma tick_preD:
  assumes "tick_pre i k"
  shows "kinv i k" "states_ok k" "current_task k = Some c \<Longrightarrow> has_flag (tstate k c) OS_TASK_STATE_READY"
  using assms by (auto simp: tick_pre_def kmid_def)

lemma woken_frame:
  "tasks (woken t k) = (tasks k)(t := woken_tcb (tasks k t))" "same_cpu k (woken t k)"
  by (simp_all add: woken_def Let_def same_cpu_def)

lemma woken_suspended_high:
  assumes "kinv i k" "\<not> has_flag (tstate k t) OS_TASK_STATE_READY"
    "\<not> has_flag (tstate (woken t k) t) OS_TASK_STATE_READY"
  shows "high_task (woken t k) = high_task k"
  using assms(3) by (simp add: woken_def Let_def split: if_splits)

text \<open>Any wake-up of a waiting task that is not running itself.\<close>

lemma woken_keeps:
  assumes pre: "tick_pre i k" and nr: "\<not> has_flag (tstate k t) OS_TASK_STATE_READY"
    and w: "has_flag (tstate k t) OS_TASK_STATE_SLEEP \<or> has_flag (tstate k t) OS_TASK_STATE_BLOCK"
  shows "tick_keeps i k (woken t k) (has_flag (tstate (woken t k) t) OS_TASK_STATE_READY)"
proof -
  note D = tick_preD[OF pre]
  have run: "\<not> has_flag (tstate k t) OS_TASK_STATE_RUNNING" "current_task k \<noteq> Some t"
    using nr D(3)[of t] states_okD(2)[OF D(2), of t] by auto
  have same: "has_flag (state (woken_tcb (tasks k t))) OS_TASK_STATE_RUNNING \<longleftrightarrow>
      has_flag (tstate k t) OS_TASK_STATE_RUNNING"
    using run by (auto simp: woken_tcb_def Let_def flag_simps)
  have "tick_pre i (woken t k)"
    by (rule tick_pre_moveI[OF pre kinv_woken[OF D(1) nr] woken_frame])
       (use legal_woken[OF states_okD(1)[OF D(2)] nr w] run same in auto)
  then show ?thesis
    using woken_frame(2) woken_suspended_high[OF D(1) nr] by (simp add: tick_keeps_def)
qed

lemma tick_keeps_timed_out:
  assumes "tick_keeps i k k' s" shows "tick_keeps i k (upd_task t (timed_out_tcb x) k') s"
proof -
  have pre: "tick_pre i k'" using assms by (simp add: tick_keeps_def)
  have "tick_pre i (upd_task t (timed_out_tcb x) k')"
    by (rule tick_pre_moveI[OF pre kinv_timed_out[OF tick_preD(1)[OF pre]], of _ _ t "timed_out_tcb x (tasks k' t)"])
       (use states_okD(1)[OF tick_preD(2)[OF pre], of t] tick_preD(3)[OF pre, of t] in
         \<open>auto simp: upd_task_def timed_out_tcb_def same_cpu_def\<close>)
  then show ?thesis using assms by (simp add: tick_keeps_def)
qed

lemma tick_wake_loop_keeps:
  "tick_pre i k \<Longrightarrow> \<exists>k' s'. tick_wake_loop b k s = OK (k', s') \<and> tick_keeps i k k' s' \<and> (s \<longrightarrow> s')"
proof (induction b k s rule: tick_wake_loop.induct)
  case (1 b k s)
  note inv = tick_preD(1)[OF 1(2)]
  show ?case
  proof (cases "tickq_bucket k b")
    case Nil
    with 1 show ?thesis by (simp add: tick_wake_loop.simps[of b k])
  next
    case (Cons t ts)
    note sl = bucket_head_asleep[OF inv Cons]
    note w = tick_wake_eq[OF inv sl, of s]
    have nr: "\<not> has_flag (tstate k t) OS_TASK_STATE_READY"
      using sl task_wfD(3)[OF kinvD(6)[OF inv]] by blast
    let ?k = "upd_task t (timed_out_tcb (tasks k t)) (woken t k)"
    have keeps: "tick_keeps i k ?k (has_flag (tstate (woken t k) t) OS_TASK_STATE_READY)"
      using woken_keeps[OF 1(2) nr] sl by (intro tick_keeps_timed_out) simp
    then have "tick_pre i ?k" by (simp add: tick_keeps_def)
    then obtain k' s' where "tick_wake_loop b ?k (s \<or> has_flag (tstate (woken t k) t) OS_TASK_STATE_READY) = OK (k', s')"
      "tick_keeps i ?k k' s'" "s \<or> has_flag (tstate (woken t k) t) OS_TASK_STATE_READY \<longrightarrow> s'"
      if "\<not> 0 < sint (tick_absolute (tasks k t) - os_tick k)"
      using 1(1)[OF Cons _ w refl] by blast
    then show ?thesis
      using 1(2) Cons w tick_keeps_trans[OF keeps] by (auto simp: tick_wake_loop.simps[of b k])
  qed
qed

lemma tick_time_slice_keeps:
  assumes pre: "tick_pre i k"
  shows "\<exists>k' s'. tick_time_slice c k s = OK (k', s') \<and> tick_keeps i k k' s' \<and> (s \<longrightarrow> s')"
proof -
  let ?k1 = "upd_task c (\<lambda>x. x\<lparr>remaining_time_slice := remaining_time_slice x - 1\<rparr>) k"
  let ?k2 = "upd_task c (\<lambda>x. x\<lparr>remaining_time_slice := time_slice x\<rparr>) ?k1"
  have upd: "tick_keeps i k (upd_task c (\<lambda>x. x\<lparr>remaining_time_slice := g x\<rparr>) k) False" if "tick_pre i k" for k g
  proof -
    have "tick_pre i (upd_task c (\<lambda>x. x\<lparr>remaining_time_slice := g x\<rparr>) k)"
      by (rule tick_pre_moveI[OF that kinv_slice[OF tick_preD(1)[OF that]], of c _ c
            "(tasks k c)\<lparr>remaining_time_slice := g (tasks k c)\<rparr>"])
         (use states_okD(1)[OF tick_preD(2)[OF that], of c] tick_preD(3)[OF that, of c] in
           \<open>auto simp: upd_task_def same_cpu_def\<close>)
    then show ?thesis by (simp add: tick_keeps_def)
  qed
  have 1: "tick_keeps i k ?k1 False" by (rule upd[OF pre])
  then have 2: "tick_keeps i k ?k2 False" using upd[of ?k1] tick_keeps_trans[OF 1] by (auto simp: tick_keeps_def)
  have 3: "\<exists>k'. k_readyq_move_tail c ?k2 = OK k' \<and> tick_keeps i k k' True"
    if r: "has_flag (tstate ?k2 c) OS_TASK_STATE_READY"
  proof -
    have pre2: "tick_pre i ?k2" using 2 by (simp add: tick_keeps_def)
    obtain k' where k': "k_readyq_move_tail c ?k2 = OK k'" "kinv i k'"
      using kinv_move_tail[OF tick_preD(1)[OF pre2] r] by blast
    have "tick_pre i k'"
      using k_readyq_move_tail_cpu[OF k'(1)] pre2 kmid_same_tasks[OF _ k'(2), of ?k2]
      by (simp add: tick_pre_def same_cpu_def)
    then show ?thesis using k' k_readyq_move_tail_cpu[OF k'(1)] by (auto simp: tick_keeps_def same_cpu_def)
  qed
  have weak: "tick_keeps i k k' False \<Longrightarrow> tick_keeps i k k' b" for k' b by (simp add: tick_keeps_def)
  show ?thesis
  proof (cases "remaining_time_slice (tasks ?k1 c) = 0 \<and> has_flag (tstate ?k2 c) OS_TASK_STATE_READY \<and>
      list_shared (task_lists ?k2) c")
    case True
    then obtain k' where "k_readyq_move_tail c ?k2 = OK k'" "tick_keeps i k k' True" using 3 by blast
    with True show ?thesis by (intro exI[of _ k'] exI[of _ True]) (simp add: tick_time_slice_def Let_def)
  next
    case False
    then show ?thesis using weak[OF 1] weak[OF 2] by (auto simp: tick_time_slice_def Let_def)
  qed
qed

text \<open>
  The timer module's hook, as the tick interrupt uses it: it may make its own task ready,
  and says so.
\<close>

locale tick_hook =
  fixes hook :: "'s \<Rightarrow> kernel \<Rightarrow> ('s \<times> kernel \<times> bool) res"
    and wf :: "'s \<Rightarrow> bool"
  assumes hook_keeps: "wf s \<Longrightarrow> tick_pre i k \<Longrightarrow>
      \<exists>s' k' need. hook s k = OK (s', k', need) \<and> wf s' \<and> tick_keeps i k k' need"
begin

lemma tick_settled:
  assumes "wf s" and set: "settled i k"
  shows "\<exists>s' k'. os_tick_increase hook s k = OK (s', k') \<and> wf s' \<and> krun i k'"
proof -
  obtain c where c: "current_task k = Some c" using settledD(6)[OF set] by blast
  let ?k1 = "k\<lparr>os_tick := os_tick k + 1\<rparr>" and ?b = "tick_bucket (os_tick k + 1)"
  have run1: "krun i ?k1" and pre1: "tick_pre i ?k1"
    using settledD(1,2)[OF set] settled_ready[OF set]
    by (simp_all add: krun_def tick_pre_def kmid_def states_ok_def)
  obtain k2 s2 where 2: "tick_wake_loop ?b ?k1 False = OK (k2, s2)" "tick_keeps i ?k1 k2 s2"
    using tick_wake_loop_keeps[OF pre1, of ?b False] by (elim exE conjE)
  obtain k3 s3 where 3: "tick_time_slice c k2 s2 = OK (k3, s3)" "tick_keeps i k2 k3 s3" "s2 \<longrightarrow> s3"
    using tick_time_slice_keeps[OF tick_keeps_pre[OF 2(2)], of c s2] by (elim exE conjE)
  have 13: "tick_keeps i ?k1 k3 s3" by (rule tick_keeps_trans[OF 2(2) 3(2)]) (use 3(3) in auto)
  obtain s' k4 need where 4: "hook s k3 = OK (s', k4, need)" "wf s'" "tick_keeps i k3 k4 need"
    using hook_keeps[OF assms(1) tick_keeps_pre[OF 13]] by (elim exE conjE)
  have 14: "tick_keeps i ?k1 k4 (need \<or> s3)" by (rule tick_keeps_trans[OF 13 4(3)]) auto
  have "krun i (if need \<or> s3 then k_kernel_exit_sched k4 else k4)"
    using 14 krun_exit_sched[of i k4] krun_same[OF run1, of k4] unfolding tick_keeps_def tick_pre_def by simp
  then show ?thesis using 2(1) 3(1) 4(1,2) by (simp add: os_tick_increase_def c Let_def)
qed

end

subsection \<open>Services\<close>

text \<open>
  A service is a set of calls on a kernel and on objects of its own, each of which keeps
  the scheduling invariant and an invariant of those objects. After a call \<^verbatim>\<open>PendSV\<close> runs
  if it is pending. Any sequence of allowed calls then leaves the best ready task running.
\<close>

type_synonym ('o, 'x, 'r) service = "'x \<Rightarrow> 'o \<times> kernel \<Rightarrow> (('o \<times> kernel) \<times> 'r) res"

definition syscall :: "('o, 'x, 'r) service \<Rightarrow> ('o, 'x, 'r) service" where
  "syscall step x s = bind_res (step x s) (\<lambda>((o', k1), r). bind_res (dispatch k1) (\<lambda>k2. OK ((o', k2), r)))"

fun run_calls :: "('o, 'x, 'r) service \<Rightarrow> 'x list \<Rightarrow> 'o \<times> kernel \<Rightarrow> (('o \<times> kernel) \<times> 'r list) res" where
  "run_calls step [] s = OK (s, [])"
| "run_calls step (x # xs) s =
     bind_res (syscall step x s) (\<lambda>(s1, r). bind_res (run_calls step xs s1) (\<lambda>(s2, rs). OK (s2, r # rs)))"

text \<open>Every call of the sequence is allowed in the state it is made in.\<close>

fun calls_allowed :: "('o, 'x, 'r) service \<Rightarrow> ('x \<Rightarrow> 'o \<Rightarrow> kernel \<Rightarrow> bool) \<Rightarrow> 'x list \<Rightarrow> 'o \<times> kernel \<Rightarrow> bool" where
  "calls_allowed step allowed [] s \<longleftrightarrow> True"
| "calls_allowed step allowed (x # xs) s \<longleftrightarrow> allowed x (fst s) (snd s) \<and>
     (case syscall step x s of OK (s1, r) \<Rightarrow> calls_allowed step allowed xs s1 | Fault f \<Rightarrow> True)"

locale kernel_service =
  fixes step :: "('o, 'x, 'r) service"
    and allowed :: "tid \<Rightarrow> 'x \<Rightarrow> 'o \<Rightarrow> kernel \<Rightarrow> bool"
    and oinv :: "tid \<Rightarrow> 'o \<Rightarrow> kernel \<Rightarrow> bool"
  assumes step_safe: "settled i k \<Longrightarrow> oinv i s k \<Longrightarrow> allowed i x s k \<Longrightarrow>
      step x (s, k) = Fault AssertFail \<or> (\<exists>s' k' r. step x (s, k) = OK ((s', k'), r) \<and> krun i k' \<and> oinv i s' k')"
    and oinv_dispatch: "oinv i s k \<Longrightarrow> krun i k \<Longrightarrow> dispatch k = OK k' \<Longrightarrow> oinv i s k'"
begin

lemma syscall_settled:
  assumes "settled i k" "oinv i s k" "allowed i x s k"
  shows "syscall step x (s, k) = Fault AssertFail \<or>
    (\<exists>s' k' r. syscall step x (s, k) = OK ((s', k'), r) \<and> settled i k' \<and> oinv i s' k')"
  using step_safe[OF assms]
proof (elim disjE exE conjE)
  fix s' k1 r assume 1: "step x (s, k) = OK ((s', k1), r)" "krun i k1" "oinv i s' k1"
  obtain k2 where 2: "dispatch k1 = OK k2" "settled i k2" using dispatch_ok[OF 1(2)] by blast
  then show ?thesis using 1 oinv_dispatch[OF 1(3,2) 2(1)] by (simp add: syscall_def)
qed (simp add: syscall_def)

lemma run_settled:
  assumes "settled i k" "oinv i s k" "calls_allowed step (allowed i) xs (s, k)"
  shows "run_calls step xs (s, k) = Fault AssertFail \<or>
    (\<exists>s' k' rs. run_calls step xs (s, k) = OK ((s', k'), rs) \<and> settled i k' \<and> oinv i s' k')"
  using assms
proof (induction xs arbitrary: s k)
  case Nil
  then show ?case by simp
next
  case (Cons x xs)
  then have a: "allowed i x s k" by simp
  show ?case
    using syscall_settled[OF Cons.prems(1,2) a]
  proof (elim disjE exE conjE)
    fix s' k' r assume c: "syscall step x (s, k) = OK ((s', k'), r)" "settled i k'" "oinv i s' k'"
    with Cons.prems(3) have "calls_allowed step (allowed i) xs (s', k')" by simp
    from Cons.IH[OF c(2,3) this] show ?thesis using c(1) by auto
  qed simp
qed

end

subsection \<open>The task module as a service\<close>

datatype task_call = Task_init tid "string option" u32 u8 | Task_create "string option" u32 u8 "nat option" "tid option"
  | Task_startup tid | Task_suspend tid | Task_resume tid | Task_yield | Task_tsleep u32 | Task_msleep u32
  | Task_set_time_slice tid u32 | Task_set_priority tid u8 | Task_deinit tid | Task_destroy tid | Task_exit
  | Schedule_lock | Schedule_unlock

definition as_service :: "(kernel \<times> 'r) res \<Rightarrow> ((unit \<times> kernel) \<times> 'r) res" where
  "as_service m = bind_res m (\<lambda>(k, r). OK (((), k), r))"

definition task_op :: "(nat \<Rightarrow> nat \<Rightarrow> kernel \<Rightarrow> kernel) \<Rightarrow> tid \<Rightarrow> task_call \<Rightarrow> kernel \<Rightarrow> (kernel \<times> os_err) res" where
  "task_op call rt x k = (case x of
     Task_init t nm sz p \<Rightarrow> os_task_init t nm sz p k
   | Task_create nm sz p stack tcb \<Rightarrow>
       bind_res (os_task_create nm sz p stack tcb k) (\<lambda>(k', t). OK (k', if t = None then OS_ENOMEM else OS_EOK))
   | Task_startup t \<Rightarrow> os_task_startup t k
   | Task_suspend t \<Rightarrow> os_task_suspend t k
   | Task_resume t \<Rightarrow> os_task_resume t k
   | Task_yield \<Rightarrow> os_task_yield k
   | Task_tsleep n \<Rightarrow> os_task_tsleep n k
   | Task_msleep ms \<Rightarrow> os_task_msleep ms k
   | Task_set_time_slice t n \<Rightarrow> os_task_set_time_slice t n k
   | Task_set_priority t p \<Rightarrow> os_task_set_priority t p k
   | Task_deinit t \<Rightarrow> os_task_deinit call rt t k
   | Task_destroy t \<Rightarrow> os_task_destroy call rt t k
   | Task_exit \<Rightarrow> bind_res (k_task_exit rt k) (\<lambda>k'. OK (k', OS_EOK))
   | Schedule_lock \<Rightarrow> OK (os_schedule_lock k, OS_EOK)
   | Schedule_unlock \<Rightarrow> bind_res (os_schedule_unlock k) (\<lambda>k'. OK (k', OS_EOK)))"

definition task_service :: "(nat \<Rightarrow> nat \<Rightarrow> kernel \<Rightarrow> kernel) \<Rightarrow> tid \<Rightarrow> (unit, task_call, os_err) service" where
  "task_service call rt x s = as_service (task_op call rt x (snd s))"

text \<open>
  What a program must not do: touch the idle task, put the idle task to sleep, reuse the
  control block of a live task, leave a task while the scheduler is locked, nest 65536
  scheduler locks. A clean-up callback must itself keep the invariant.
\<close>

definition tcb_free :: "tid \<Rightarrow> tid \<Rightarrow> kernel \<Rightarrow> bool" where
  "tcb_free i t k \<longleftrightarrow> t \<noteq> i \<and> (tstate k t = OS_TASK_STATE_EMPTY \<or> tstate k t = OS_TASK_STATE_CLOSE)"

definition task_allowed :: "(nat \<Rightarrow> nat \<Rightarrow> kernel \<Rightarrow> kernel) \<Rightarrow> tid \<Rightarrow> task_call \<Rightarrow> unit \<Rightarrow> kernel \<Rightarrow> bool" where
  "task_allowed call i x u k = (case x of
     Task_init t nm sz p \<Rightarrow> tcb_free i t k
   | Task_create nm sz p stack tcb \<Rightarrow> (case tcb of None \<Rightarrow> True | Some t \<Rightarrow> tcb_free i t k)
   | Task_suspend t \<Rightarrow> t \<noteq> i | Task_set_priority t p \<Rightarrow> t \<noteq> i
   | Task_tsleep n \<Rightarrow> current_task k \<noteq> Some i | Task_msleep ms \<Rightarrow> current_task k \<noteq> Some i
   | Task_deinit t \<Rightarrow> t \<noteq> i \<and> (\<forall>f d k. krun i k \<longrightarrow> krun i (call f d k))
   | Task_destroy t \<Rightarrow> t \<noteq> i \<and> (\<forall>f d k. krun i k \<longrightarrow> krun i (call f d k))
   | Task_exit \<Rightarrow> current_task k \<noteq> Some i \<and> sched_lock_cnt k = 0
   | Schedule_lock \<Rightarrow> sched_lock_cnt k + 1 \<noteq> 0
   | _ \<Rightarrow> True)"

lemmas task_run = os_task_init_run os_task_create_run os_task_startup_run os_task_suspend_run
  os_task_resume_run os_task_yield_run os_task_tsleep_run os_task_msleep_run os_task_set_time_slice_run
  os_task_set_priority_run os_task_deinit_run os_task_destroy_run

lemma run_safe_bind: "run_safe i m \<Longrightarrow> run_safe i (bind_res m (\<lambda>(k', t). OK (k', g t)))"
  by (cases m) auto

lemma task_op_run:
  assumes s: "settled i k" and a: "task_allowed call i x u k"
  shows "run_safe i (task_op call rt x k)"
proof (cases x)
  case Task_exit
  obtain c where c: "current_task k = Some c" using settledD(6)[OF s] by blast
  show ?thesis using k_task_exit_run[OF s c, of rt] a c by (auto simp: Task_exit task_op_def task_allowed_def)
next
  case Schedule_lock
  then show ?thesis using os_schedule_lock_run[OF s] a by (simp add: task_op_def task_allowed_def)
next
  case Schedule_unlock
  then show ?thesis using os_schedule_unlock_run[OF s] by (auto simp: task_op_def)
qed (use a in \<open>auto simp: task_op_def task_allowed_def tcb_free_def
      intro!: task_run[OF s] run_safe_bind split: option.splits\<close>)

lemma as_service_safe:
  "run_safe i m \<Longrightarrow> as_service m = Fault AssertFail \<or> (\<exists>s' k' r. as_service m = OK ((s', k'), r) \<and> krun i k' \<and> True)"
  by (cases m) (auto simp: as_service_def)

interpretation task_srv: kernel_service "task_service call rt" "task_allowed call" "\<lambda>_ _ _. True" for call rt
  by unfold_locales (auto simp: task_service_def dest!: task_op_run[where rt = rt] as_service_safe)

subsection \<open>Resuming from an interrupt\<close>

text \<open>
  An interrupt handler that resumes a task of a better priority than the running one puts it into
  the ready queue and requests the switch to it.
\<close>

lemma resume_requests_switch:
  assumes s: "settled i k" "sched_lock_cnt k = 0" "current_task k = Some c"
    and t: "object_inited (tasks k t) = OS_KOBJ_INITED" "tstate k t = OS_TASK_STATE_SUSPEND" "prio k t < prio k c"
  defines "L \<equiv> list_add_tail (task_lists k) (RQ (unat (prio k t))) t"
  defines "k1 \<equiv> (readyq_sync (k\<lparr>irq_active := True, tasks := (tasks k)(t := (tasks k t)\<lparr>state := OS_TASK_STATE_READY\<rparr>),
    task_lists := L\<rparr>))\<lparr>next_task := Some t, switch_pending := True\<rparr>"
  shows "os_task_resume t (k\<lparr>irq_active := True\<rparr>) = OK (k1, OS_EOK)" "readyq_ok k1" "list_del L t = task_lists k"
    "unlinked (task_lists k) t" "best_ready (task_lists k) = Some c" "c \<noteq> t"
proof -
  note K = settledD(3)[OF s(1)] and Q = kinv_readyq_ok[OF settledD(3)[OF s(1)]]
  have h: "high_task k = Some c" using s by (simp add: settled_def krun_def)
  then show "best_ready (task_lists k) = Some c" using readyq_okD(4)[OF Q] by simp
  show ct: "c \<noteq> t" using t(3) by auto
  have "home (tasks k t) = None" using t(2) by (simp add: home_def task_state_defs has_flag_def)
  then show u: "unlinked (task_lists k) t" using kinv_unlinked[OF K] by simp
  then show "list_del L t = task_lists k" by (auto simp: L_def fun_eq_iff klist_simps unlinked_def)
  have p: "unat (prio k t) < 32" using kinv_prio[OF K] .
  let ?r = "k\<lparr>irq_active := True, tasks := (tasks k)(t := (tasks k t)\<lparr>state := OS_TASK_STATE_READY\<rparr>)\<rparr>"
  have "readyq_ok ?r" using Q by (auto simp: readyq_ok_def)
  then have put: "k_readyq_put t ?r = OK (readyq_sync (?r\<lparr>task_lists := L\<rparr>))"
    using k_readyq_put_refines[of ?r t] p by (simp add: L_def)
  have "best_ready L = Some t" using best_ready_add_tail[OF Q p] h t(3) by (simp add: L_def)
  then have x: "k_kernel_exit_sched (readyq_sync (?r\<lparr>task_lists := L\<rparr>)) = k1"
    using s(2,3) ct by (simp add: k_kernel_exit_sched_def os_task_switch_def k1_def)
  have "set_task_state t OS_TASK_STATE_READY (clear_task_state t OS_TASK_STATE_SUSPEND (k\<lparr>irq_active := True\<rparr>)) = ?r"
    using t(2) by (simp add: task_state_upd upd_task_def task_state_defs)
  then show "os_task_resume t (k\<lparr>irq_active := True\<rparr>) = OK (k1, OS_EOK)"
    using put t(1,2) x by (simp add: os_task_resume_def Let_def has_flag_def task_state_defs task_state_upd upd_task_def)
  have "lists_ok (?r\<lparr>task_lists := L\<rparr>)"
    unfolding lists_ok_def
  proof (intro conjI allI impI)
    show "lists_wf (task_lists (?r\<lparr>task_lists := L\<rparr>))" using lists_wf_add_tail[OF readyq_okD(1)[OF Q] u] by (simp add: L_def)
    fix q v assume "v \<in> set (task_lists (?r\<lparr>task_lists := L\<rparr>) (RQ q))"
    then have "v \<in> set (task_lists k (RQ q)) \<or> v = t \<and> q = unat (prio k t)" by (auto simp: L_def klist_simps split: if_splits)
    then show "unat (prio (?r\<lparr>task_lists := L\<rparr>) v) = q" "q < 32"
      using p readyq_okD(3)[OF Q, of v q] kinv_prio[OF K, of v] by auto
  qed
  then have "readyq_ok (readyq_sync (?r\<lparr>task_lists := L\<rparr>))" by simp
  then show "readyq_ok k1" by (simp add: k1_def readyq_ok_def)
qed

end
