(* ===== verification/Os_Timer.thy ===== *)
theory Os_Timer
  imports Kernel_Run
begin

text \<open>
  \<^verbatim>\<open>oneos/kernel/source/os_timer.c\<close> with \<^verbatim>\<open>OS_TIMER_SORT\<close>: a wheel of 16 lists of
  timers, each list sorted with delta-encoded rounds, advanced by the tick interrupt and
  emptied by the timer task. Lists of \<^verbatim>\<open>active_node\<close>s are a family indexed by their head:
  the wheel entries and the two heads on the stack of the timer task.
\<close>

definition OS_TIMER_LIST_ENTRIES :: u32 where "OS_TIMER_LIST_ENTRIES = 16"

definition OS_TIMER_MOD :: "u32 \<Rightarrow> u32" where
  "OS_TIMER_MOD tick = tick AND (push_bit 4 1 - 1)"

definition OS_TIMER_ROUND :: "u32 \<Rightarrow> u32" where
  "OS_TIMER_ROUND tick = push_bit 4 (drop_bit 4 tick)"

definition OS_TIMER_FLAG_PERIODIC :: u8 where "OS_TIMER_FLAG_PERIODIC = 0x1"
definition OS_TIMER_FLAG_ACTIVATED :: u8 where "OS_TIMER_FLAG_ACTIVATED = 0x2"
definition OS_TIMER_FLAG_DYNAMIC :: u8 where "OS_TIMER_FLAG_DYNAMIC = 0x4"
definition OS_TIMER_FLAG_INITED :: u8 where "OS_TIMER_FLAG_INITED = 0x8"
definition OS_TIMER_INDEX_INVALID :: u32 where "OS_TIMER_INDEX_INVALID = 0xFFFFFFFF"

lemmas timer_flag_defs = OS_TIMER_FLAG_PERIODIC_def OS_TIMER_FLAG_ACTIVATED_def
  OS_TIMER_FLAG_DYNAMIC_def OS_TIMER_FLAG_INITED_def

subsection \<open>State\<close>

type_synonym tmid = nat

datatype timer_head = Wheel nat | Expired | Restart

record os_timer =
  timeout_func :: nat
  parameter :: nat
  init_ticks :: u32
  round_ticks :: u32
  tm_index :: u32
  tm_flag :: u8
  tm_info :: u8
  tm_name :: string

record timer_sys =
  timers :: "tmid \<Rightarrow> os_timer"
  active_lists :: "timer_head \<Rightarrow> tmid list"
  timer_list :: "tmid list"
  list_current :: nat
  head_info :: "nat \<Rightarrow> u8"
  handle_flag :: "nat \<Rightarrow> nat \<Rightarrow> u8"
  need_handle :: bool

definition upd_timer :: "tmid \<Rightarrow> (os_timer \<Rightarrow> os_timer) \<Rightarrow> timer_sys \<Rightarrow> timer_sys" where
  "upd_timer t f s = s\<lparr>timers := (timers s)(t := f (timers s t))\<rparr>"

definition set_round :: "tmid \<Rightarrow> u32 \<Rightarrow> timer_sys \<Rightarrow> timer_sys" where
  "set_round t r = upd_timer t (\<lambda>x. x\<lparr>round_ticks := r\<rparr>)"

definition timer_heads :: "timer_head list" where
  "timer_heads = map Wheel [0..<16] @ [Expired, Restart]"

text \<open>The list the active node of a timer is linked into, if any.\<close>

definition timer_home :: "timer_sys \<Rightarrow> tmid \<Rightarrow> timer_head option" where
  "timer_home s t = find (\<lambda>h. t \<in> set (active_lists s h)) timer_heads"

subsection \<open>Sorted lists\<close>

text \<open>
  \<^verbatim>\<open>_k_timer_add_to_sort_list\<close>: walk along the list, subtracting the rounds that are passed,
  and split the round of the first timer that is due later.
\<close>

fun sort_insert :: "tmid \<Rightarrow> u32 \<Rightarrow> tmid list \<Rightarrow> (tmid \<Rightarrow> u32) \<Rightarrow> tmid list \<times> (tmid \<Rightarrow> u32)" where
  "sort_insert a r [] R = ([a], R(a := r))"
| "sort_insert a r (t # ts) R =
     (if R t \<le> r then (let (l, R') = sort_insert a (r - R t) ts R in (t # l, R'))
      else (a # t # ts, R(a := r, t := R t - r)))"

definition put_rounds :: "(tmid \<Rightarrow> u32) \<Rightarrow> timer_sys \<Rightarrow> timer_sys" where
  "put_rounds R s = s\<lparr>timers := (\<lambda>t. (timers s t)\<lparr>round_ticks := R t\<rparr>)\<rparr>"

definition k_timer_add_to_sort_list :: "timer_head \<Rightarrow> tmid \<Rightarrow> timer_sys \<Rightarrow> timer_sys" where
  "k_timer_add_to_sort_list h a s =
     (let (l, R) = sort_insert a (round_ticks (timers s a)) (active_lists s h) (\<lambda>t. round_ticks (timers s t))
      in put_rounds R (s\<lparr>active_lists := (active_lists s)(h := l)\<rparr>))"

fun next_in :: "'a list \<Rightarrow> 'a \<Rightarrow> 'a option" where
  "next_in (x # y # ys) t = (if x = t then Some y else next_in (y # ys) t)"
| "next_in _ t = None"

text \<open>\<^verbatim>\<open>_k_timer_del_from_sort_list\<close>: the successor, unless it is a list head, takes over the round.\<close>

definition k_timer_del_from_sort_list :: "tmid \<Rightarrow> timer_sys \<Rightarrow> timer_sys" where
  "k_timer_del_from_sort_list t s =
     (let s1 = (case timer_home s t of None \<Rightarrow> s
                | Some h \<Rightarrow> (case next_in (active_lists s h) t of None \<Rightarrow> s
                    | Some n \<Rightarrow> set_round n (round_ticks (timers s n) + round_ticks (timers s t)) s))
      in s1\<lparr>active_lists := list_del (active_lists s1) t\<rparr>)"

subsection \<open>Handle flags\<close>

definition k_timer_set_handle_flag_index :: "u8 \<Rightarrow> u8 \<Rightarrow> u8" where
  "k_timer_set_handle_flag_index info idx = (if idx = 0 then info AND NOT 1 else info OR 1)"

definition k_timer_update_handle_flag :: "nat \<Rightarrow> timer_sys \<Rightarrow> timer_sys" where
  "k_timer_update_handle_flag c s =
     (let i = head_info s c AND 1; n = (if i = 0 then 1 else 0)
      in s\<lparr>handle_flag := (handle_flag s)(c := (handle_flag s c)(unat i := 1, unat n := 0)),
           head_info := (head_info s)(c := k_timer_set_handle_flag_index (head_info s c) n)\<rparr>)"

subsection \<open>Activation\<close>

definition k_timer_do_init ::
  "tmid \<Rightarrow> string option \<Rightarrow> nat \<Rightarrow> nat \<Rightarrow> u32 \<Rightarrow> u8 \<Rightarrow> timer_sys \<Rightarrow> timer_sys" where
  "k_timer_do_init t nm func param timeout flag = upd_timer t (\<lambda>x. x\<lparr>
     tm_flag := (flag AND NOT OS_TIMER_FLAG_ACTIVATED) OR OS_TIMER_FLAG_INITED,
     timeout_func := func, parameter := param,
     init_ticks := (if timeout = 0 then 1 else timeout),
     round_ticks := (if timeout = 0 then 1 else timeout),
     tm_index := OS_TIMER_INDEX_INVALID,
     tm_name := (case nm of None \<Rightarrow> '''' | Some n \<Rightarrow> take OS_NAME_MAX n),
     tm_info := tm_info x AND NOT 2\<rparr>)"

definition k_timer_activate :: "tmid \<Rightarrow> timer_sys \<Rightarrow> timer_sys res" where
  "k_timer_activate t s = os_assert (0 < init_ticks (timers s t))
     (OK (if timer_home s t = None then
        (let dec = init_ticks (timers s t) - 1;
             idx = OS_TIMER_MOD (of_nat (list_current s) + OS_TIMER_MOD dec);
             s1 = k_timer_add_to_sort_list (Wheel (unat idx)) t (set_round t (OS_TIMER_ROUND dec) s);
             hf = head_info s1 (unat idx) AND 1
         in upd_timer t (\<lambda>x. x\<lparr>tm_flag := tm_flag x OR OS_TIMER_FLAG_ACTIVATED, tm_index := idx,
              tm_info := k_timer_set_handle_flag_index (tm_info x) hf\<rparr>) s1)
      else s))"

definition k_timer_deactivate :: "tmid \<Rightarrow> timer_sys \<Rightarrow> timer_sys" where
  "k_timer_deactivate t s =
     (if has_flag (tm_flag (timers s t)) OS_TIMER_FLAG_ACTIVATED then
        (let s1 = upd_timer t (\<lambda>x. x\<lparr>tm_flag := tm_flag x AND NOT OS_TIMER_FLAG_ACTIVATED,
                    tm_index := OS_TIMER_INDEX_INVALID\<rparr>) s
         in if timer_home s1 t = None then s1 else k_timer_del_from_sort_list t s1)
      else s)"

definition k_timer_remove :: "tmid \<Rightarrow> timer_sys \<Rightarrow> timer_sys" where
  "k_timer_remove t s = upd_timer t (\<lambda>x. x\<lparr>tm_flag := tm_flag x AND NOT OS_TIMER_FLAG_INITED\<rparr>)
     (k_timer_deactivate t (s\<lparr>timer_list := removeAll t (timer_list s)\<rparr>))"

subsection \<open>Remaining ticks\<close>

text \<open>The rounds of a timer and of all timers in front of it, as the walk back to the head adds them up.\<close>

fun round_sum :: "(tmid \<Rightarrow> u32) \<Rightarrow> tmid list \<Rightarrow> tmid \<Rightarrow> u32" where
  "round_sum R [] t = 0"
| "round_sum R (x # xs) t = (if x = t then R x else R x + round_sum R xs t)"

abbreviation rounds :: "timer_sys \<Rightarrow> tmid \<Rightarrow> u32" where
  "rounds s t \<equiv> round_ticks (timers s t)"

definition k_timer_calc_remain_ticks :: "tmid \<Rightarrow> timer_sys \<Rightarrow> u32 res" where
  "k_timer_calc_remain_ticks t s =
     (if has_flag (tm_flag (timers s t)) OS_TIMER_FLAG_ACTIVATED then
        os_assert (tm_index (timers s t) \<noteq> OS_TIMER_INDEX_INVALID)
        (let cur = of_nat (list_current s) :: u32; idx = tm_index (timers s t);
             diff = (if cur \<le> idx then idx - cur + 1 else (15 - cur + 1) + (idx + 1));
             sum = (case timer_home s t of None \<Rightarrow> rounds s t
                    | Some h \<Rightarrow> round_sum (rounds s) (active_lists s h) t);
             remain = sum + diff
         in OK (if handle_flag s (unat idx) (unat (tm_info (timers s t) AND 1)) = 1
                then (if remain \<le> OS_TIMER_LIST_ENTRIES then 0 else remain - OS_TIMER_LIST_ENTRIES)
                else remain))
      else OK 0)"

text \<open>The scan of the wheel for the tickless idle loop, from list \<open>c\<close>, \<open>n\<close> lists to go.\<close>

definition wheel_next :: "nat \<Rightarrow> nat" where
  "wheel_next c = (if Suc c > 15 then 0 else Suc c)"

fun next_remain_loop :: "nat \<Rightarrow> nat \<Rightarrow> u32 \<Rightarrow> u32 \<Rightarrow> timer_sys \<Rightarrow> u32" where
  "next_remain_loop 0 c i m s = m"
| "next_remain_loop (Suc n) c i m s =
     (case active_lists s (Wheel c) of [] \<Rightarrow> next_remain_loop n (wheel_next c) (i + 1) m s
      | t # _ \<Rightarrow>
         if rounds s t = 0 then i
         else next_remain_loop n (wheel_next c) (i + 1) (if rounds s t + i < m then rounds s t + i else m) s)"

definition k_timer_get_next_remain_ticks :: "timer_sys \<Rightarrow> u32" where
  "k_timer_get_next_remain_ticks s = next_remain_loop 16 (list_current s) 0 0xFFFFFFFF s"

text \<open>\<^verbatim>\<open>k_timer_update_active_list\<close>: account for \<open>ticks\<close> ticks slept through.\<close>

definition skip_rounds :: "u32 \<Rightarrow> u32 \<Rightarrow> u32 \<Rightarrow> u32" where
  "skip_rounds ticks i r =
     (let r1 = (if OS_TIMER_ROUND (ticks - 1) \<le> r then r - OS_TIMER_ROUND (ticks - 1) else r)
      in if i \<le> OS_TIMER_MOD (ticks - 1) \<and> OS_TIMER_LIST_ENTRIES \<le> r1 then r1 - OS_TIMER_LIST_ENTRIES else r1)"

fun update_active_loop :: "nat \<Rightarrow> nat \<Rightarrow> u32 \<Rightarrow> u32 \<Rightarrow> timer_sys \<Rightarrow> timer_sys" where
  "update_active_loop 0 c i ticks s = s"
| "update_active_loop (Suc n) c i ticks s =
     (if i < ticks then
        update_active_loop n (wheel_next c) (i + 1) ticks
          (case active_lists s (Wheel c) of [] \<Rightarrow> s
           | t # _ \<Rightarrow> set_round t (skip_rounds ticks i (rounds s t)) s)
      else s)"

definition k_timer_update_active_list :: "u32 \<Rightarrow> timer_sys \<Rightarrow> timer_sys" where
  "k_timer_update_active_list ticks s =
     (if 0 < ticks then
        (update_active_loop 16 (list_current s) 0 ticks s)\<lparr>list_current :=
           unat (OS_TIMER_MOD (of_nat (list_current s) + ticks))\<rparr>
      else s)"

subsection \<open>The timer task\<close>

text \<open>
  The expired list is taken off the wheel at once, the wheel moves on, and the timers are
  handled one by one. \<open>call\<close> is the effect of a timer's function on the timers and the rest
  of the system: it runs with the kernel unlocked and may use both.
\<close>

definition timer_task_take :: "timer_sys \<Rightarrow> timer_sys" where
  "timer_task_take s =
     (let c = list_current s;
          s1 = s\<lparr>active_lists := (active_lists s)(Expired := active_lists s (Wheel c), Wheel c := [])\<rparr>;
          s2 = k_timer_update_handle_flag c s1
      in s2\<lparr>list_current := wheel_next c, need_handle := False\<rparr>)"

definition timer_task_expire :: "tmid \<Rightarrow> timer_sys \<Rightarrow> (timer_sys \<times> (nat \<times> nat) option) res" where
  "timer_task_expire t s =
     (let s1 = k_timer_del_from_sort_list t s;
          s2 = s1\<lparr>active_lists := (active_lists s1)(Restart := [])\<rparr>;
          x = timers s2 t
      in os_assert (OS_TIMER_MOD (round_ticks x) = 0)
         (let again = (round_ticks x \<noteq> 0 \<or> has_flag (tm_flag x) OS_TIMER_FLAG_PERIODIC);
              s3 = (if again then s2\<lparr>active_lists := (active_lists s2)(Restart := [t])\<rparr>
                    else k_timer_deactivate t s2)
          in OK (s3, if round_ticks x = 0 then Some (timeout_func x, parameter x) else None)))"

definition timer_task_restart :: "timer_sys \<Rightarrow> timer_sys res" where
  "timer_task_restart s =
     (case active_lists s Restart of [] \<Rightarrow> OK s
      | t # _ \<Rightarrow>
         (let s1 = s\<lparr>active_lists := list_del (active_lists s) t\<rparr>
          in if rounds s1 t = 0 then k_timer_activate t s1
             else let s2 = set_round t (rounds s1 t - OS_TIMER_LIST_ENTRIES) s1;
                      idx = unat (tm_index (timers s2 t));
                      s3 = k_timer_add_to_sort_list (Wheel idx) t s2
                  in OK (upd_timer t (\<lambda>x. x\<lparr>tm_info :=
                       k_timer_set_handle_flag_index (tm_info x) (head_info s3 idx AND 1)\<rparr>) s3)))"

definition timer_call :: "(nat \<Rightarrow> nat \<Rightarrow> timer_sys \<times> 'e \<Rightarrow> timer_sys \<times> 'e) \<Rightarrow> (nat \<times> nat) option \<Rightarrow>
    timer_sys \<times> 'e \<Rightarrow> timer_sys \<times> 'e" where
  "timer_call call f q = (case f of None \<Rightarrow> q | Some (fn, p) \<Rightarrow> call fn p q)"

partial_function (option) timer_task_loop ::
  "(nat \<Rightarrow> nat \<Rightarrow> timer_sys \<times> 'e \<Rightarrow> timer_sys \<times> 'e) \<Rightarrow> timer_sys \<times> 'e \<Rightarrow> (timer_sys \<times> 'e) res option" where
  "timer_task_loop call q =
     (case active_lists (fst q) Expired of [] \<Rightarrow> Some (OK q)
      | t # _ \<Rightarrow>
         (case timer_task_expire t (fst q) of Fault e \<Rightarrow> Some (Fault e)
          | OK p \<Rightarrow>
             (let q1 = timer_call call (snd p) (fst p, snd q)
              in case timer_task_restart (fst q1) of Fault e \<Rightarrow> Some (Fault e)
                 | OK s' \<Rightarrow> timer_task_loop call (s', snd q1))))"

text \<open>
  One turn of the endless loop of \<^verbatim>\<open>_k_timer_task_entry\<close>, run by the timer task: with
  nothing to handle it suspends itself.
\<close>

definition k_timer_task_turn ::
  "(nat \<Rightarrow> nat \<Rightarrow> timer_sys \<times> kernel \<Rightarrow> timer_sys \<times> kernel) \<Rightarrow> timer_sys \<times> kernel \<Rightarrow>
    (timer_sys \<times> kernel) res option" where
  "k_timer_task_turn call = (\<lambda>(s, k).
     if \<not> need_handle s then Some (bind_res (k_recycle_task_suspend k) (\<lambda>k'. OK (s, k')))
     else timer_task_loop call (timer_task_take s, k))"

text \<open>The hook of the tick interrupt; \<open>tt\<close> is \<^verbatim>\<open>gs_os_timer_task\<close>.\<close>

definition wheel_tick :: "timer_sys \<Rightarrow> timer_sys" where
  "wheel_tick s =
     (case active_lists s (Wheel (list_current s)) of [] \<Rightarrow> s\<lparr>list_current := wheel_next (list_current s)\<rparr>
      | t # _ \<Rightarrow>
         if OS_TIMER_LIST_ENTRIES \<le> rounds s t
         then (set_round t (rounds s t - OS_TIMER_LIST_ENTRIES) s)\<lparr>list_current := wheel_next (list_current s)\<rparr>
         else s\<lparr>need_handle := True\<rparr>)"

definition k_timer_need_handle :: "tid \<Rightarrow> timer_sys \<Rightarrow> kernel \<Rightarrow> (timer_sys \<times> kernel \<times> bool) res" where
  "k_timer_need_handle tt s k =
     (let s1 = wheel_tick s
      in if need_handle s1 \<and> tstate k tt = OS_TASK_STATE_SUSPEND then
           bind_res (k_readyq_put tt (set_task_state tt OS_TASK_STATE_READY (clear_task_state tt OS_TASK_STATE_SUSPEND k)))
             (\<lambda>k1. OK (s1, k1, True))
         else OK (s1, k, False))"

text \<open>\<^verbatim>\<open>k_timer_init\<close>, its data part; the timer task is created by the start-up code.\<close>

definition k_timer_init :: "timer_sys \<Rightarrow> timer_sys" where
  "k_timer_init s = s\<lparr>
     active_lists := (\<lambda>h. case h of Wheel n \<Rightarrow> if n < 16 then [] else active_lists s h | _ \<Rightarrow> active_lists s h),
     head_info := (\<lambda>n. if n < 16 then k_timer_set_handle_flag_index (head_info s n) 0 OR 2 else head_info s n),
     list_current := 0, handle_flag := (\<lambda>_ _. 0)\<rparr>"

subsection \<open>Interface\<close>

definition os_timer_init ::
  "tmid \<Rightarrow> string option \<Rightarrow> nat \<Rightarrow> nat \<Rightarrow> u32 \<Rightarrow> u8 \<Rightarrow> timer_sys \<Rightarrow> timer_sys" where
  "os_timer_init t nm func param timeout flag s =
     (let s1 = k_timer_do_init t nm func param timeout (flag AND NOT OS_TIMER_FLAG_DYNAMIC) s
      in s1\<lparr>timer_list := timer_list s1 @ [t]\<rparr>)"

definition os_timer_deinit :: "tmid \<Rightarrow> timer_sys \<Rightarrow> timer_sys res" where
  "os_timer_deinit t s = os_assert (\<not> has_flag (tm_flag (timers s t)) OS_TIMER_FLAG_DYNAMIC)
     (OK (k_timer_remove t s))"

definition os_timer_create ::
  "bool \<Rightarrow> string option \<Rightarrow> nat \<Rightarrow> nat \<Rightarrow> u32 \<Rightarrow> u8 \<Rightarrow> tmid option \<Rightarrow> timer_sys \<Rightarrow> (timer_sys \<times> tmid option) res" where
  "os_timer_create irq nm func param timeout flag mem s = os_assert (\<not> irq)
     (case mem of None \<Rightarrow> OK (s, None)
      | Some t \<Rightarrow>
         let s1 = k_timer_do_init t nm func param timeout (flag OR OS_TIMER_FLAG_DYNAMIC) s
         in OK (s1\<lparr>timer_list := timer_list s1 @ [t]\<rparr>, Some t))"

definition os_timer_destroy :: "bool \<Rightarrow> tmid \<Rightarrow> timer_sys \<Rightarrow> (timer_sys \<times> os_err) res" where
  "os_timer_destroy irq t s = os_assert (has_flag (tm_flag (timers s t)) OS_TIMER_FLAG_DYNAMIC)
     (os_assert (\<not> irq) (OK (k_timer_remove t s, OS_EOK)))"

definition timer_inited :: "tmid \<Rightarrow> timer_sys \<Rightarrow> 'a res \<Rightarrow> 'a res" where
  "timer_inited t s m = os_assert (has_flag (tm_flag (timers s t)) OS_TIMER_FLAG_INITED) m"

definition os_timer_start :: "tmid \<Rightarrow> timer_sys \<Rightarrow> (timer_sys \<times> os_err) res" where
  "os_timer_start t s = timer_inited t s
     (bind_res (k_timer_activate t (k_timer_deactivate t s)) (\<lambda>s1. OK (s1, OS_EOK)))"

definition os_timer_stop :: "tmid \<Rightarrow> timer_sys \<Rightarrow> (timer_sys \<times> os_err) res" where
  "os_timer_stop t s = timer_inited t s
     (if \<not> has_flag (tm_flag (timers s t)) OS_TIMER_FLAG_ACTIVATED then OK (s, OS_ERROR)
      else OK (k_timer_deactivate t s, OS_EOK))"

definition os_timer_set_timeout_ticks :: "tmid \<Rightarrow> u32 \<Rightarrow> timer_sys \<Rightarrow> (timer_sys \<times> os_err) res" where
  "os_timer_set_timeout_ticks t timeout s = timer_inited t s
     (OK (upd_timer t (\<lambda>x. x\<lparr>init_ticks := timeout\<rparr>) s, OS_EOK))"

definition os_timer_get_timeout_ticks :: "tmid \<Rightarrow> timer_sys \<Rightarrow> u32 res" where
  "os_timer_get_timeout_ticks t s = timer_inited t s (OK (init_ticks (timers s t)))"

definition os_timer_get_remain_ticks :: "tmid \<Rightarrow> timer_sys \<Rightarrow> u32 res" where
  "os_timer_get_remain_ticks t s = timer_inited t s (k_timer_calc_remain_ticks t s)"

definition os_timer_is_active :: "tmid \<Rightarrow> timer_sys \<Rightarrow> bool res" where
  "os_timer_is_active t s = timer_inited t s (OK (has_flag (tm_flag (timers s t)) OS_TIMER_FLAG_ACTIVATED))"

definition os_timer_set_oneshot :: "tmid \<Rightarrow> timer_sys \<Rightarrow> (timer_sys \<times> os_err) res" where
  "os_timer_set_oneshot t s = timer_inited t s
     (OK (upd_timer t (\<lambda>x. x\<lparr>tm_flag := tm_flag x AND NOT OS_TIMER_FLAG_PERIODIC\<rparr>) s, OS_EOK))"

definition os_timer_set_periodic :: "tmid \<Rightarrow> timer_sys \<Rightarrow> (timer_sys \<times> os_err) res" where
  "os_timer_set_periodic t s = timer_inited t s
     (OK (upd_timer t (\<lambda>x. x\<lparr>tm_flag := tm_flag x OR OS_TIMER_FLAG_PERIODIC\<rparr>) s, OS_EOK))"

definition os_timer_is_periodic :: "tmid \<Rightarrow> timer_sys \<Rightarrow> bool res" where
  "os_timer_is_periodic t s = timer_inited t s (OK (has_flag (tm_flag (timers s t)) OS_TIMER_FLAG_PERIODIC))"

subsection \<open>The hook keeps the kernel's invariants\<close>

lemma k_timer_need_handle_keeps:
  assumes pre: "tick_pre i k"
  shows "\<exists>s' k' need. k_timer_need_handle tt s k = OK (s', k', need) \<and> tick_keeps i k k' need"
proof (cases "need_handle (wheel_tick s) \<and> tstate k tt = OS_TASK_STATE_SUSPEND")
  case True
  let ?f = "\<lambda>x. x\<lparr>state := (state x AND NOT OS_TASK_STATE_SUSPEND) OR OS_TASK_STATE_READY\<rparr>"
  have "\<exists>k'. k_readyq_put tt (upd_task tt ?f k) = OK k' \<and> kinv i k'"
    using put_new_ready[OF tick_preD(1)[OF pre], of tt ?f] True by (auto simp: flag_simps)
  then obtain k' where k': "k_readyq_put tt (upd_task tt ?f k) = OK k'" "kinv i k'" by blast
  have "tick_pre i k'"
    by (rule tick_pre_moveI[OF pre k'(2), of tt "?f (tasks k tt)"])
       (use k_readyq_put_cpu[OF k'(1)] True legal_start(2) in \<open>auto simp: upd_task_def same_cpu_def flag_simps\<close>)
  then show ?thesis
    using True k'(1) k_readyq_put_cpu[OF k'(1)]
    by (auto simp: k_timer_need_handle_def task_state_upd upd_task_upd_task tick_keeps_def)
next
  case False
  then show ?thesis using pre by (auto simp: k_timer_need_handle_def)
qed

interpretation timer_tick: tick_hook "k_timer_need_handle tt" "\<lambda>_. True" for tt
  by unfold_locales (use k_timer_need_handle_keeps in blast)

end
