(* ===== verification/Os_Startup.thy ===== *)
theory Os_Startup
  imports Os_Timer
begin

text \<open>
  \<^verbatim>\<open>oneos/kernel/source/os_startup.c\<close> and \<^verbatim>\<open>os_idle.c\<close>: from zeroed memory to the first
  context switch. The static control blocks of the timer, recycle and idle tasks have the
  addresses 1, 2 and 3; the main task's comes from the heap and is an argument, as are the
  functions of the initialisation table.
\<close>

definition gs_os_timer_task :: tid where "gs_os_timer_task = 1"
definition gs_os_recycle_task :: tid where "gs_os_recycle_task = 2"
definition gs_os_idle_task :: tid where "gs_os_idle_task = 3"

lemmas gs_task_defs = gs_os_timer_task_def gs_os_recycle_task_def gs_os_idle_task_def

definition zero_tcb :: os_task where
  "zero_tcb = \<lparr>name = '''', state = OS_TASK_STATE_EMPTY, current_priority = 0, backup_priority = 0,
     err_code = OS_EOK, switch_retval = OS_EOK, object_inited = 0, object_alloc_type = 0,
     tick_timeout = 0, tick_absolute = 0, time_slice = 0, remaining_time_slice = 0,
     block_list_head = None, is_wake_prio = False, event_set = 0, event_option = 0,
     hold_mutex_list = [], swap_data = 0, cleanup = None, user_data = 0\<rparr>"

definition bss_kernel :: kernel where
  "bss_kernel = \<lparr>tasks = (\<lambda>_. zero_tcb), task_lists = (\<lambda>_. []), tickq_bucket = (\<lambda>_. []), priority_bmap = 0,
     high_task = None, current_task = None, next_task = None, switch_pending = False,
     sched_lock_cnt = 0, os_tick = 0, irq_active = False, irq_disabled = False,
     resource_list = [], recycle_list = [], kernel_err_code = OS_EOK\<rparr>"

definition bss_timers :: timer_sys where
  "bss_timers = \<lparr>timers = (\<lambda>_. \<lparr>timeout_func = 0, parameter = 0, init_ticks = 0, round_ticks = 0, tm_index = 0,
       tm_flag = 0, tm_info = 0, tm_name = ''''\<rparr>),
     active_lists = (\<lambda>_. []), timer_list = [], list_current = 0, head_info = (\<lambda>_. 0),
     handle_flag = (\<lambda>_ _. 0), need_handle = False\<rparr>"

subsection \<open>Tasks of the system\<close>

definition init_and_start :: "tid \<Rightarrow> string \<Rightarrow> u32 \<Rightarrow> u8 \<Rightarrow> kernel \<Rightarrow> kernel res" where
  "init_and_start t nm stack_size priority k =
     bind_res (os_task_init t (Some nm) stack_size priority k) (\<lambda>(k1, e1).
       os_assert (e1 = OS_EOK) (bind_res (os_task_startup t k1) (\<lambda>(k2, e2). os_assert (e2 = OS_EOK) (OK k2))))"

definition k_timer_task_init :: "kernel \<Rightarrow> kernel res" where
  "k_timer_task_init = init_and_start gs_os_timer_task ''timer'' 512 0"

definition k_recycle_task_init :: "kernel \<Rightarrow> kernel res" where
  "k_recycle_task_init = init_and_start gs_os_recycle_task ''recycle'' 512 0"

definition k_idle_task_init :: "kernel \<Rightarrow> kernel res" where
  "k_idle_task_init = init_and_start gs_os_idle_task ''idle'' 512 (of_nat OS_TASK_PRIORITY_MAX - 1)"

definition k_application_init :: "nat option \<Rightarrow> tid option \<Rightarrow> kernel \<Rightarrow> kernel res" where
  "k_application_init stack tcb k =
     bind_res (os_task_create (Some ''main'') 2048 0 stack tcb k) (\<lambda>(k1, main).
       case main of None \<Rightarrow> Fault AssertFail
       | Some t \<Rightarrow> bind_res (os_task_startup t k1) (\<lambda>(k2, e). os_assert (e = OS_EOK) (OK k2)))"

subsection \<open>Start-up\<close>

text \<open>The walk over an initialisation table stops at the first error.\<close>

fun auto_init :: "('s \<Rightarrow> 's \<times> os_err) list \<Rightarrow> 's \<Rightarrow> 's \<times> os_err" where
  "auto_init [] s = (s, OS_EOK)"
| "auto_init (f # fs) s = (let (s1, ret) = f s in if ret \<noteq> OS_EOK then (s1, ret) else auto_init fs s1)"

definition k_startup ::
  "(timer_sys \<times> kernel \<Rightarrow> (timer_sys \<times> kernel) \<times> os_err) list \<Rightarrow> nat option \<Rightarrow> tid option \<Rightarrow>
   timer_sys \<times> kernel \<Rightarrow> (timer_sys \<times> kernel) res" where
  "k_startup core stack tcb sk =
     (case auto_init core sk of ((s, k), ret) \<Rightarrow>
        os_assert (ret = OS_EOK)
          (bind_res (k_timer_task_init (k_sched_init (k_tickq_init k))) (\<lambda>k1.
           bind_res (k_recycle_task_init k1) (\<lambda>k2.
           bind_res (k_idle_task_init k2) (\<lambda>k3.
           bind_res (k_application_init stack tcb k3) (\<lambda>k4.
             OK (k_timer_init s, k_start k4)))))))"

text \<open>Start-up and the first context switch, which \<^verbatim>\<open>k_start\<close> requests.\<close>

definition boot ::
  "(timer_sys \<times> kernel \<Rightarrow> (timer_sys \<times> kernel) \<times> os_err) list \<Rightarrow> nat option \<Rightarrow> tid option \<Rightarrow>
   timer_sys \<times> kernel \<Rightarrow> (timer_sys \<times> kernel) res" where
  "boot core stack tcb sk = bind_res (k_startup core stack tcb sk) (\<lambda>(s, k). bind_res (dispatch k) (\<lambda>k'. OK (s, k')))"

subsection \<open>The kernel that start-up leaves behind\<close>

text \<open>
  Before the first switch nothing runs; every task outside the resource list is still
  zeroed memory. The first task that is started plays the part of the idle task until the
  idle task is there.
\<close>

definition boot_ok :: "tid \<Rightarrow> kernel \<Rightarrow> bool" where
  "boot_ok i k \<longleftrightarrow> kinv i k \<and> states_ok k \<and> current_task k = None \<and> \<not> irq_active k \<and> \<not> irq_disabled k \<and>
     sched_lock_cnt k = 0 \<and> (\<forall>t. t \<notin> set (resource_list k) \<longrightarrow> tasks k t = zero_tcb)"

lemma boot_okD:
  assumes "boot_ok i k"
  shows "kinv i k" "states_ok k" "current_task k = None" "\<not> irq_active k" "\<not> irq_disabled k"
    "sched_lock_cnt k = 0" "t \<notin> set (resource_list k) \<Longrightarrow> tasks k t = zero_tcb"
  using assms by (auto simp: boot_ok_def)

lemma kinv_change_idle: "kinv i k \<Longrightarrow> has_flag (tstate k j) OS_TASK_STATE_READY \<Longrightarrow> kinv j k"
  by (simp add: kinv_def)

text \<open>What both ways to create a task have in common: a control block in the initial state.\<close>

lemma boot_start:
  assumes b: "boot_ok i k" and t: "t \<notin> set (resource_list k)" "t \<noteq> i" and p: "unat p < 32"
    and k1: "tstate k1 t = OS_TASK_STATE_INIT" "prio k1 t = p" "backup_priority (tasks k1 t) = p"
      "object_inited (tasks k1 t) = OS_KOBJ_INITED"
      "k1 = k\<lparr>tasks := (tasks k)(t := tasks k1 t), resource_list := resource_list k @ [t]\<rparr>"
  shows "\<exists>k2. os_task_startup t k1 = OK (k2, OS_EOK) \<and> boot_ok i k2 \<and>
    resource_list k2 = resource_list k @ [t] \<and> has_flag (tstate k2 t) OS_TASK_STATE_READY \<and>
    (\<forall>u. u \<noteq> t \<longrightarrow> tasks k2 u = tasks k u)"
proof -
  note D = boot_okD[OF b]
  define x where "x = tasks k1 t"
  note x = k1(1-4)[folded x_def] and k1' = k1(5)[folded x_def]
  have z: "tstate k t = OS_TASK_STATE_EMPTY" using D(7)[OF t(1)] by (simp add: zero_tcb_def)
  have inv1: "kinv i k1"
    by (rule kinv_task_init[OF D(1) t(2) p disjI1[OF z] x(1-3)]) (simp_all add: k1')
  let ?f = "\<lambda>y. y\<lparr>state := (state y AND NOT OS_TASK_STATE_INIT) OR OS_TASK_STATE_READY\<rparr>"
  obtain k2 where k2: "k_readyq_put t (upd_task t ?f k1) = OK k2" "kinv i k2"
      "k2 = readyq_sync ((upd_task t ?f k1)\<lparr>task_lists := list_add_tail (task_lists k1) (RQ (unat (prio k1 t))) t\<rparr>)"
    using put_new_ready[OF inv1, of t ?f] k1(1) state_INIT_flags[OF k1(1)] by (auto simp: flag_simps)
  have idle: "k_kernel_exit_sched k2 = k2" by (simp add: k_kernel_exit_sched_def k2(3) k1' D(3))
  have op: "os_task_startup t k1 = OK (k2, OS_EOK)"
    using k1(1,4) k2(1) idle by (simp add: os_task_startup_def task_state_upd upd_task_upd_task)
  have tasks2: "tasks k2 = (tasks k)(t := ?f x)" by (simp add: k2(3) k1' upd_task_def)
  have "states_ok k2"
    by (rule states_ok_upd[OF D(2), of _ t])
       (use legal_start(1) x(1) z in \<open>auto simp: tasks2 k2(3) k1' flag_simps OS_TASK_STATE_EMPTY_def\<close>)
  then have "boot_ok i k2" using k2(2) D by (auto simp: boot_ok_def tasks2 k2(3) k1')
  moreover have "has_flag (tstate k2 t) OS_TASK_STATE_READY" by (simp add: tasks2 flag_simps)
  ultimately show ?thesis using op tasks2 by (simp add: k2(3) k1')
qed

lemma init_and_start_ok:
  assumes b: "boot_ok i k" and t: "t \<notin> set (resource_list k)" "t \<noteq> i" and "unat p < 32" "0 < stack_size"
  shows "\<exists>k2. init_and_start t nm stack_size p k = OK k2 \<and> boot_ok i k2 \<and>
    resource_list k2 = resource_list k @ [t] \<and> has_flag (tstate k2 t) OS_TASK_STATE_READY \<and>
    (\<forall>u. u \<noteq> t \<longrightarrow> tasks k2 u = tasks k u)"
proof -
  obtain k1 where op: "os_task_init t (Some nm) stack_size p k = OK (k1, OS_EOK)"
    and k1: "tstate k1 t = OS_TASK_STATE_INIT" "prio k1 t = p" "backup_priority (tasks k1 t) = p"
      "object_inited (tasks k1 t) = OS_KOBJ_INITED"
      "k1 = k\<lparr>tasks := (tasks k)(t := tasks k1 t), resource_list := resource_list k @ [t]\<rparr>"
    using assms boot_okD(4)[OF b]
    by (simp add: os_task_init_def OS_TASK_PRIORITY_MAX_def k_task_init_def upd_task_def)
  show ?thesis using boot_start[OF b t assms(4) k1] by (auto simp: init_and_start_def op)
qed

lemma application_init_ok:
  assumes b: "boot_ok i k" and t: "t \<notin> set (resource_list k)" "t \<noteq> i"
  shows "\<exists>k2. k_application_init (Some st) (Some t) k = OK k2 \<and> boot_ok i k2 \<and>
    resource_list k2 = resource_list k @ [t] \<and> has_flag (tstate k2 t) OS_TASK_STATE_READY \<and>
    (\<forall>u. u \<noteq> t \<longrightarrow> tasks k2 u = tasks k u)"
proof -
  obtain k1 where op: "os_task_create (Some ''main'') 2048 0 (Some st) (Some t) k = OK (k1, Some t)"
    and k1: "tstate k1 t = OS_TASK_STATE_INIT" "prio k1 t = 0" "backup_priority (tasks k1 t) = 0"
      "object_inited (tasks k1 t) = OS_KOBJ_INITED"
      "k1 = k\<lparr>tasks := (tasks k)(t := tasks k1 t), resource_list := resource_list k @ [t]\<rparr>"
    using assms boot_okD(4-6)[OF b]
    by (simp add: os_task_create_def OS_TASK_PRIORITY_MAX_def k_task_init_def upd_task_def Let_def
        os_is_schedule_locked_def)
  show ?thesis using boot_start[OF b t _ k1] by (auto simp: k_application_init_def op)
qed

lemma first_task:
  "\<exists>k1. k_timer_task_init (k_sched_init (k_tickq_init bss_kernel)) = OK k1 \<and>
     boot_ok gs_os_timer_task k1 \<and> resource_list k1 = [gs_os_timer_task]"
proof -
  let ?t = gs_os_timer_task
  let ?k0 = "k_sched_init (k_tickq_init bss_kernel)"
  have lists: "task_lists ?k0 = (\<lambda>_. [])" "tickq_bucket ?k0 = (\<lambda>_. [])" "tasks ?k0 = (\<lambda>_. zero_tcb)"
    "current_task ?k0 = None" "high_task ?k0 = None" "priority_bmap ?k0 = 0" "resource_list ?k0 = []"
    "irq_active ?k0 = False" "irq_disabled ?k0 = False" "sched_lock_cnt ?k0 = 0"
    by (auto simp: k_sched_init_def k_readq_bmap_init_def k_tickq_init_def bss_kernel_def fun_eq_iff split: list_head.split)
  obtain k1 where op: "os_task_init ?t (Some ''timer'') 512 0 ?k0 = OK (k1, OS_EOK)"
    and x: "tstate k1 ?t = OS_TASK_STATE_INIT" "prio k1 ?t = 0" "backup_priority (tasks k1 ?t) = 0"
      "object_inited (tasks k1 ?t) = OS_KOBJ_INITED"
    and k1: "k1 = ?k0\<lparr>tasks := (tasks ?k0)(?t := tasks k1 ?t), resource_list := [?t]\<rparr>"
    by (simp add: os_task_init_def OS_TASK_PRIORITY_MAX_def k_task_init_def upd_task_def lists)
  have lists1: "task_lists k1 = (\<lambda>_. [])" "tickq_bucket k1 = (\<lambda>_. [])" "current_task k1 = None"
    "\<And>u. u \<noteq> ?t \<Longrightarrow> tasks k1 u = zero_tcb" "resource_list k1 = [?t]"
    "irq_active k1 = False" "irq_disabled k1 = False" "sched_lock_cnt k1 = 0"
    by (subst k1, simp add: lists)+
  let ?f = "\<lambda>y. y\<lparr>state := (state y AND NOT OS_TASK_STATE_INIT) OR OS_TASK_STATE_READY\<rparr>"
  have "best_ready (task_lists k1) = None" "bmap_of (task_lists k1) = 0"
    by (simp_all add: best_ready_None_iff lists1) (rule bit_eqI, simp add: bit_bmap_of)
  then have "readyq_ok (upd_task ?t ?f k1)"
    by (subst k1) (simp add: readyq_ok_iff_sync lists_ok_def readyq_synced_iff lists lists1)
  then have put: "k_readyq_put ?t (upd_task ?t ?f k1) = OK (readyq_sync ((upd_task ?t ?f k1)\<lparr>task_lists :=
      list_add_tail (\<lambda>_. []) (RQ 0) ?t\<rparr>))" (is "_ = OK ?k2")
    using k_readyq_put_refines[of "upd_task ?t ?f k1" ?t] x by (simp add: lists1)
  have idle: "k_kernel_exit_sched ?k2 = ?k2" by (simp add: k_kernel_exit_sched_def lists1)
  have start: "os_task_startup ?t k1 = OK (?k2, OS_EOK)"
    using x put idle by (simp add: os_task_startup_def task_state_upd upd_task_upd_task)
  have st: "tstate ?k2 u = (if u = ?t then OS_TASK_STATE_READY else OS_TASK_STATE_EMPTY)" for u
    using x lists1(4)[of u] by (simp add: zero_tcb_def task_state_defs)
  have pr: "prio ?k2 u = 0" "backup_priority (tasks ?k2 u) = 0" for u
    using x lists1(4)[of u] by (simp_all add: zero_tcb_def)
  have home: "home (tasks ?k2 u) = (if u = ?t then Some (RQ 0) else None)" "tick_home (tasks ?k2 u) = None"
    "task_wf (tasks ?k2 u)" for u
    unfolding home_def tick_home_def task_wf_def st pr by (auto simp: flag_simps OS_TASK_STATE_EMPTY_def)
  have "kinv ?t ?k2"
  proof -
    have "\<forall>u. task_wf (tasks ?k2 u)" using home(3) by blast
    then show ?thesis
      unfolding kinv_def home(1,2) st
      by (intro conjI) (auto simp: klist_simps lists1 flag_simps simp del: tasks_upd_task)
  qed
  moreover have "states_ok ?k2"
    unfolding states_ok_def st
    by (auto simp: lists1 flag_simps OS_TASK_STATE_EMPTY_def legal_state_cases OS_TASK_STATE_READY_def
        has_flag_def OS_TASK_STATE_RUNNING_def)
  ultimately have "boot_ok ?t ?k2" using lists1 by (auto simp: boot_ok_def)
  then show ?thesis
    using op start lists1(5) by (simp add: k_timer_task_init_def init_and_start_def)
qed

lemma k_startup_ok:
  assumes core: "auto_init core (s, bss_kernel) = ((s', bss_kernel), OS_EOK)"
    and t: "t \<notin> {gs_os_timer_task, gs_os_recycle_task, gs_os_idle_task}"
  shows "\<exists>k. k_startup core (Some st) (Some t) (s, bss_kernel) = OK (k_timer_init s', k_start k) \<and>
    boot_ok gs_os_idle_task k \<and> resource_list k = [gs_os_timer_task, gs_os_recycle_task, gs_os_idle_task, t]"
proof -
  let ?tm = gs_os_timer_task
  obtain k1 where 1: "k_timer_task_init (k_sched_init (k_tickq_init bss_kernel)) = OK k1"
    "boot_ok ?tm k1" "resource_list k1 = [?tm]"
    using first_task by blast
  obtain k2 where 2: "k_recycle_task_init k1 = OK k2" "boot_ok ?tm k2" "resource_list k2 = [?tm, gs_os_recycle_task]"
    using init_and_start_ok[OF 1(2), of gs_os_recycle_task 0 512 "''recycle''"] 1(3)
    by (auto simp: k_recycle_task_init_def gs_task_defs)
  obtain k3 where 3: "k_idle_task_init k2 = OK k3" "boot_ok ?tm k3"
    "resource_list k3 = [?tm, gs_os_recycle_task, gs_os_idle_task]" "has_flag (tstate k3 gs_os_idle_task) OS_TASK_STATE_READY"
    using init_and_start_ok[OF 2(2), of gs_os_idle_task 31 512 "''idle''"] 2(3)
    by (auto simp: k_idle_task_init_def gs_task_defs OS_TASK_PRIORITY_MAX_def)
  then have "boot_ok gs_os_idle_task k3" by (auto simp: boot_ok_def intro: kinv_change_idle)
  then obtain k4 where "k_application_init (Some st) (Some t) k3 = OK k4" "boot_ok gs_os_idle_task k4"
    "resource_list k4 = [?tm, gs_os_recycle_task, gs_os_idle_task, t]"
    using application_init_ok[of gs_os_idle_task k3 t st] 3(3) t by auto
  then show ?thesis using 1(1) 2(1) 3(1) by (auto simp: k_startup_def core)
qed

lemma first_switch_settled:
  assumes b: "boot_ok i k"
  shows "\<exists>k'. dispatch (k_start k) = OK k' \<and> settled i k' \<and> current_task k' = high_task k \<and> task_lists k' = task_lists k"
proof -
  note D = boot_okD[OF b]
  obtain n where n: "high_task k = Some n" "has_flag (tstate k n) OS_TASK_STATE_READY"
    using high_ready[OF D(1)] by blast
  let ?k = "set_task_state n OS_TASK_STATE_RUNNING (k\<lparr>next_task := Some n, switch_pending := False, current_task := Some n\<rparr>)"
  have eq: "dispatch (k_start k) = OK ?k"
    using n D(3) by (simp add: dispatch_def k_start_def os_task_switch_def PendSV_Handler_def Let_def)
  have "kinv i ?k" using D(1) by (intro kinv_set_flag) simp_all
  moreover have "states_ok ?k"
    using states_okD[OF D(2)] D(3) by (auto simp: states_ok_def legal_running flag_simps)
  ultimately have "settled i ?k"
    using n D(6) by (simp add: settled_def krun_def kmid_def set_task_state_def)
  then show ?thesis using eq n by simp
qed

end
