(* ===== verification/Sample_Kernel.thy ===== *)
theory Sample_Kernel
  imports Os_Startup
begin

text \<open>
  A concrete kernel in the middle of its work, to evaluate the model on: task 1 runs at
  priority 2, task 2 is ready at the same priority, task 3 is the idle task, task 4 waits
  at priority 5 on wait list 100 until tick 7, task 5 is suspended, task 6 is created but
  not started.
\<close>

definition sample_tcb :: "u16 \<Rightarrow> u8 \<Rightarrow> os_task" where
  "sample_tcb st p = zero_tcb\<lparr>state := st, current_priority := p, backup_priority := p,
     object_inited := OS_KOBJ_INITED, time_slice := 10, remaining_time_slice := 10\<rparr>"

definition sample_tasks :: "tid \<Rightarrow> os_task" where
  "sample_tasks = (\<lambda>t.
     if t = 1 then sample_tcb 6 2 else if t = 2 then sample_tcb 2 2 else if t = 3 then sample_tcb 2 31
     else if t = 4 then (sample_tcb 0x18 5)\<lparr>block_list_head := Some (WQ 100), is_wake_prio := True,
                          tick_timeout := 7, tick_absolute := 7\<rparr>
     else if t = 5 then sample_tcb 0x20 1 else if t = 6 then sample_tcb 1 1 else zero_tcb)"

definition sample_lists :: klists where
  "sample_lists = (\<lambda>h. if h = RQ 2 then [1, 2] else if h = RQ 31 then [3] else if h = WQ 100 then [4] else [])"

definition sample :: kernel where
  "sample = bss_kernel\<lparr>tasks := sample_tasks, task_lists := sample_lists,
     tickq_bucket := (\<lambda>b. if b = 7 then [4] else []), priority_bmap := 0x80000004,
     high_task := Some 1, current_task := Some 1, resource_list := [1, 2, 3, 4, 5, 6]\<rparr>"

lemma sample_frame [simp]:
  "tasks sample = sample_tasks" "task_lists sample = sample_lists"
  "tickq_bucket sample = (\<lambda>b. if b = 7 then [4] else [])" "current_task sample = Some 1"
  "high_task sample = Some 1" "next_task sample = None" "switch_pending sample = False"
  "sched_lock_cnt sample = 0" "os_tick sample = 0" "irq_active sample = False"
  "irq_disabled sample = False" "resource_list sample = [1, 2, 3, 4, 5, 6]"
  by (simp_all add: sample_def bss_kernel_def)

lemma sample_bmap: "priority_bmap sample = bmap_of sample_lists"
proof (rule bmap_eqI)
  fix p :: nat
  have w: "priority_bmap sample = 2 ^ 2 OR 2 ^ 31" by (simp add: sample_def)
  show "bit (priority_bmap sample) p \<longleftrightarrow> p < 32 \<and> sample_lists (RQ p) \<noteq> []"
    unfolding w bit_or_iff bit_exp_iff by (auto simp: sample_lists_def)
qed

lemma sample_best: "best_ready sample_lists = Some 1"
  by (rule best_readyI[of 2]) (simp_all add: sample_lists_def)

lemma sample_home:
  "home (sample_tasks t) = (if t = 1 \<or> t = 2 then Some (RQ 2) else if t = 3 then Some (RQ 31)
     else if t = 4 then Some (WQ 100) else None)"
  by (simp add: sample_tasks_def sample_tcb_def zero_tcb_def home_def has_flag_def task_state_defs)

lemma sample_tick_home: "tick_home (sample_tasks t) = (if t = 4 then Some 7 else None)"
  by (simp add: sample_tasks_def sample_tcb_def zero_tcb_def tick_home_def has_flag_def task_state_defs
      tick_bucket_def TICK_Q_BUCKETS_def)

lemma sample_task_wf: "task_wf (sample_tasks t)"
  by (simp add: sample_tasks_def sample_tcb_def zero_tcb_def task_wf_def has_flag_def task_state_defs)

lemma sample_kinv: "kinv 3 sample"
proof -
  have "readyq_sync sample = sample"
    by (simp add: readyq_synced_iff sample_bmap sample_best)
  moreover have "t \<in> set (sample_lists h) \<longleftrightarrow> home (sample_tasks t) = Some h" for t h
    unfolding sample_home by (auto simp: sample_lists_def)
  moreover have "has_flag (state (sample_tasks 3)) OS_TASK_STATE_READY"
    by (simp add: sample_tasks_def sample_tcb_def has_flag_def task_state_defs)
  ultimately show ?thesis
    by (auto simp: kinv_def sample_tick_home sample_task_wf) (auto simp: sample_lists_def)
qed

lemma sample_settled: "settled 3 sample"
proof -
  have "states_ok sample"
    by (auto simp: states_ok_def sample_tasks_def sample_tcb_def zero_tcb_def legal_state_cases has_flag_def
        task_state_defs)
  then show ?thesis by (simp add: settled_def krun_def kmid_def sample_kinv)
qed

text \<open>Evaluation of kernel code on the sample.\<close>

lemma sample_bmap_word: "priority_bmap sample = 0x80000004"
  by (simp add: sample_def)

lemmas sample_eval = sample_tasks_def sample_tcb_def zero_tcb_def has_flag_def task_state_defs Let_def
  task_state_upd upd_task_def readyq_defs OS_TASK_PRIORITY_MAX_def k_kernel_exit_sched_def
  os_task_switch_def OS_KOBJ_INITED_def sample_bmap_word klist_simps sample_lists_def k_readyq_highest_def
  os_ffs_def os_is_schedule_locked_def upt_rec dispatch_def PendSV_Handler_def

end
