(* ===== verification/Kernel_Wait.thy ===== *)
theory Kernel_Wait
  imports Sample_Kernel
begin

text \<open>
  What the inter-task communication objects share: the running task blocks on a wait list,
  the first waiter is woken, all waiters are cancelled. A call that blocks returns later,
  with the value its waker or the tick interrupt left in \<^verbatim>\<open>switch_retval\<close>.
\<close>

datatype 'r outcome = Returns 'r | Blocks

definition wait_result :: "tid \<Rightarrow> kernel \<Rightarrow> os_err" where
  "wait_result t k = switch_retval (tasks k t)"

text \<open>The preconditions that every call with a timeout asserts.\<close>

definition wait_context :: "u32 \<Rightarrow> kernel \<Rightarrow> 'a res \<Rightarrow> 'a res" where
  "wait_context timeout k m =
     os_assert (timeout = OS_NO_WAIT \<or> \<not> irq_active k) (os_assert (timeout = OS_NO_WAIT \<or> \<not> irq_disabled k)
     (os_assert (timeout = OS_NO_WAIT \<or> \<not> os_is_schedule_locked k)
     (os_assert (timeout < OS_TICK_MAX div 2 \<or> timeout = OS_WAIT_FOREVER) m)))"

text \<open>\<^verbatim>\<open>k_block_task\<close> on the current task followed by a scheduling point.\<close>

definition block_current :: "nat \<Rightarrow> u32 \<Rightarrow> bool \<Rightarrow> kernel \<Rightarrow> kernel res" where
  "block_current w timeout wake_prio k =
     (case current_task k of None \<Rightarrow> Fault NullDeref
      | Some c \<Rightarrow> bind_res (k_block_task (WQ w) c timeout wake_prio k) (\<lambda>k1. OK (k_kernel_exit_sched k1)))"

text \<open>\<^verbatim>\<open>k_unblock_task\<close> followed by a scheduling point when the task became ready.\<close>

definition wake_task :: "tid \<Rightarrow> kernel \<Rightarrow> kernel res" where
  "wake_task t k = bind_res (k_unblock_task t k) (\<lambda>k1.
     OK (if has_flag (tstate k1 t) OS_TASK_STATE_READY then k_kernel_exit_sched k1 else k1))"

text \<open>The two ways a call leaves the kernel, by its \<^verbatim>\<open>need_schedule\<close> flag.\<close>

definition exit_if :: "bool \<Rightarrow> kernel \<Rightarrow> kernel" where
  "exit_if need k = (if need then k_kernel_exit_sched k else k)"

lemma exit_if_frame [simp]:
  "tasks (exit_if need k) = tasks k" "task_lists (exit_if need k) = task_lists k" "os_tick (exit_if need k) = os_tick k"
  "current_task (exit_if need k) = current_task k"
  by (simp_all add: exit_if_def)

text \<open>Waking a task and leaving data for it in its control block.\<close>

definition wake_with :: "tid \<Rightarrow> (os_task \<Rightarrow> os_task) \<Rightarrow> kernel \<Rightarrow> kernel res" where
  "wake_with t f k = bind_res (k_unblock_task t k) (\<lambda>k1.
     let k2 = upd_task t f k1 in OK (exit_if (has_flag (tstate k2 t) OS_TASK_STATE_READY) k2))"

subsection \<open>Priority order of a wait list\<close>

definition prio_sorted :: "kernel \<Rightarrow> nat \<Rightarrow> bool" where
  "prio_sorted k w \<longleftrightarrow> sorted_wrt (\<lambda>a b. prio k a \<le> prio k b) (task_lists k (WQ w))"

subsection \<open>Blocking\<close>

lemma settled_tick_pre: "settled i k \<Longrightarrow> tick_pre i k"
  using settledD(2)[of i k] settled_ready[of i k] by (simp add: tick_pre_def)

lemma legal_blocked:
  assumes "legal_state (state x)" "has_flag (state x) OS_TASK_STATE_READY"
  shows "legal_state (state (blocked_tcb h timeout wp now x))"
    "has_flag (state (blocked_tcb h timeout wp now x)) OS_TASK_STATE_RUNNING \<longleftrightarrow> has_flag (state x) OS_TASK_STATE_RUNNING"
  using legal_unready(5,6)[OF assms]
  by (simp add: blocked_tcb_def Let_def or.assoc, simp add: blocked_tcb_def Let_def flag_simps)

lemma k_block_task_mid:
  assumes s: "tick_pre i k" and c: "current_task k = Some c" "c \<noteq> i" "sched_lock_cnt k = 0"
  shows "\<exists>k1. k_block_task (WQ w) c timeout wp k = OK k1 \<and> kmid i k1 \<and> same_cpu k k1 \<and>
    task_lists k1 = wait_insert (WQ w) c wp k \<and>
    tasks k1 = (tasks k)(c := blocked_tcb (WQ w) timeout wp (os_tick k) (tasks k c)) \<and> os_tick k1 = os_tick k"
proof -
  have mid: "kmid i k" using s by (simp add: tick_pre_def)
  note r = tick_preD(3)[OF s c(1)]
  note eq = k_block_task_eq[OF tick_preD(1)[OF s] r c(2), of "WQ w" timeout wp]
  obtain k1 where k1: "k_block_task (WQ w) c timeout wp k = OK k1" using eq by blast
  have inv: "kinv i k1" by (rule k_block_task_kinv[OF tick_preD(1)[OF s] r c(2) k1])
  have t: "tasks k1 = (tasks k)(c := blocked_tcb (WQ w) timeout wp (os_tick k) (tasks k c))" "same_cpu k k1"
    "task_lists k1 = wait_insert (WQ w) c wp k" "os_tick k1 = os_tick k"
    using k1 unfolding eq by (auto simp: same_cpu_def)
  have "kmid i k1"
    by (rule kmid_moveI[OF mid inv t(1,2)])
       (use legal_blocked[OF states_okD(1)[OF tick_preD(2)[OF s]] r] c in auto)
  then show ?thesis using k1 t by blast
qed

lemma block_current_run:
  assumes "settled i k" "current_task k = Some c" "c \<noteq> i" "sched_lock_cnt k = 0"
  shows "\<exists>k1. block_current w timeout wp k = OK k1 \<and> krun i k1 \<and> task_lists k1 = wait_insert (WQ w) c wp k \<and>
    tasks k1 = (tasks k)(c := blocked_tcb (WQ w) timeout wp (os_tick k) (tasks k c)) \<and>
    current_task k1 = Some c \<and> os_tick k1 = os_tick k"
  using k_block_task_mid[OF settled_tick_pre[OF assms(1)] assms(2-4), of w timeout wp] assms(2)
  by (auto simp: block_current_def same_cpu_def intro: krun_exit_sched)

lemma wait_insert_other: "w' \<noteq> w \<Longrightarrow> wait_insert (WQ w) t wp k (WQ w') = removeAll t (task_lists k (WQ w'))"
  by (simp add: wait_insert_def klist_simps)

text \<open>A wait list that is sorted by priority stays sorted when a task blocks by priority.\<close>

lemma ready_not_waiting:
  "kinv i k \<Longrightarrow> has_flag (tstate k t) OS_TASK_STATE_READY \<Longrightarrow> t \<notin> set (task_lists k (WQ w))"
  by (simp add: kinvD(4) home_def)

lemma prio_sorted_wait_insert:
  assumes "kinv i k" "has_flag (tstate k c) OS_TASK_STATE_READY" "prio_sorted k w"
    and "task_lists k1 = wait_insert (WQ w) c True k" "\<And>t. prio k1 t = prio k t"
  shows "prio_sorted k1 w"
  using sorted_insert_before[OF assms(3)[unfolded prio_sorted_def], of c] ready_not_waiting[OF assms(1,2), of w] assms(4,5)
  by (simp add: prio_sorted_def wait_insert_def klist_simps)

subsection \<open>Waking\<close>

text \<open>What \<^verbatim>\<open>k_unblock_task\<close> leaves of a waiting task.\<close>

definition unblocked :: "tid \<Rightarrow> kernel \<Rightarrow> kernel" where
  "unblocked t k = upd_task t (\<lambda>x. x\<lparr>block_list_head := None\<rparr>) (woken t k)"

lemma unblocked_frame [simp]:
  "tasks (unblocked t k) = (tasks k)(t := (woken_tcb (tasks k t))\<lparr>block_list_head := None\<rparr>)"
  "task_lists (unblocked t k) (WQ w) = removeAll t (task_lists k (WQ w))"
  "os_tick (unblocked t k) = os_tick k" "sched_lock_cnt (unblocked t k) = sched_lock_cnt k"
  "current_task (unblocked t k) = current_task k"
  by (simp_all add: unblocked_def woken_frame upd_task_def, simp_all add: woken_def Let_def klist_simps)

lemma waiter_not_ready:
  "kinv i k \<Longrightarrow> t \<in> set (task_lists k (WQ w)) \<Longrightarrow>
     \<not> has_flag (tstate k t) OS_TASK_STATE_READY \<and> has_flag (tstate k t) OS_TASK_STATE_BLOCK \<and>
     block_list_head (tasks k t) = Some (WQ w)"
  by (auto simp: kinvD(4) home_def split: if_splits)

lemma tick_keeps_upd_same:
  assumes "tick_keeps i k k' s" "kinv i (upd_task t f k')" "state (f (tasks k' t)) = tstate k' t"
  shows "tick_keeps i k (upd_task t f k') s"
proof -
  have pre: "tick_pre i k'" using assms(1) by (simp add: tick_keeps_def)
  have "tick_pre i (upd_task t f k')"
    by (rule tick_pre_moveI[OF pre assms(2), of t "f (tasks k' t)"])
       (use states_okD(1)[OF tick_preD(2)[OF pre], of t] tick_preD(3)[OF pre, of t] assms(3) in
         \<open>auto simp: upd_task_def same_cpu_def\<close>)
  then show ?thesis using assms(1) by (simp add: tick_keeps_def)
qed

lemma k_unblock_waiter:
  assumes pre: "tick_pre i k" and t: "t \<in> set (task_lists k (WQ w))"
  shows "k_unblock_task t k = OK (unblocked t k)"
    "tick_keeps i k (unblocked t k) (has_flag (tstate (unblocked t k) t) OS_TASK_STATE_READY)"
proof -
  note inv = tick_preD(1)[OF pre] and nr = waiter_not_ready[OF tick_preD(1)[OF pre] t]
  show eq: "k_unblock_task t k = OK (unblocked t k)"
    using k_unblock_task_eq[OF inv] nr by (simp add: unblocked_def)
  have "kinv i (unblocked t k)" using k_unblock_task_kinv[OF inv, of t] nr eq by auto
  moreover have "tick_keeps i k (woken t k) (has_flag (tstate (woken t k) t) OS_TASK_STATE_READY)"
    using woken_keeps[OF pre] nr by blast
  moreover have "tstate (unblocked t k) t = tstate (woken t k) t" by (simp add: woken_frame)
  ultimately show "tick_keeps i k (unblocked t k) (has_flag (tstate (unblocked t k) t) OS_TASK_STATE_READY)"
    unfolding unblocked_def by (intro tick_keeps_upd_same) simp_all
qed

lemma krun_of_keeps:
  assumes "krun i k" "tick_keeps i k k' s"
  shows "krun i (if s then k_kernel_exit_sched k' else k')" "krun i (k_kernel_exit_sched k')"
  using assms krun_exit_sched[of i k'] krun_same[of i k k'] by (auto simp: tick_keeps_def tick_pre_def)

lemma wake_task_run:
  assumes s: "settled i k" and t: "t \<in> set (task_lists k (WQ w))"
  shows "\<exists>k1. wake_task t k = OK k1 \<and> krun i k1 \<and> tasks k1 = tasks (unblocked t k) \<and>
    (\<forall>v. task_lists k1 (WQ v) = removeAll t (task_lists k (WQ v))) \<and> os_tick k1 = os_tick k"
proof -
  note w = k_unblock_waiter[OF settled_tick_pre[OF s] t]
  show ?thesis
    using krun_of_keeps(1)[OF settledD(1)[OF s] w(2)] by (auto simp: wake_task_def w(1))
qed

text \<open>A woken task that was not suspended is ready, and returns with success.\<close>

lemma unblocked_ready:
  assumes "tick_pre i k" "t \<in> set (task_lists k (WQ w))" "\<not> has_flag (tstate k t) OS_TASK_STATE_SUSPEND"
  shows "tstate (unblocked t k) t = OS_TASK_STATE_READY"
proof -
  note nr = waiter_not_ready[OF tick_preD(1)[OF assms(1)] assms(2)]
  have "\<not> has_flag (tstate k t) OS_TASK_STATE_RUNNING"
    using nr tick_preD(3)[OF assms(1), of t] states_okD(2)[OF tick_preD(2)[OF assms(1)], of t] by auto
  then show ?thesis
    using states_okD(1)[OF tick_preD(2)[OF assms(1)], of t] nr assms(3)
    by (auto simp: legal_state_cases woken_tcb_def task_state_defs has_flag_def)
qed

subsection \<open>Cancelling\<close>

text \<open>
  Every waiter leaves the list and returns with an error, in the order of the list; the
  other wait lists lose nobody.
\<close>

definition cancelled_tcb :: "os_task \<Rightarrow> os_task" where
  "cancelled_tcb x = (woken_tcb x)\<lparr>block_list_head := None, switch_retval := OS_ERROR\<rparr>"

lemma k_cancle_keeps:
  "tick_pre i k \<Longrightarrow> \<exists>k'. k_cancle_all_blocked_task w k = OK k' \<and> tick_pre i k' \<and> same_cpu k k' \<and>
     task_lists k' (WQ w) = [] \<and> (\<forall>v. v \<noteq> w \<longrightarrow> task_lists k' (WQ v) = task_lists k (WQ v)) \<and>
     os_tick k' = os_tick k \<and>
     tasks k' = (\<lambda>t. if t \<in> set (task_lists k (WQ w)) then cancelled_tcb (tasks k t) else tasks k t)"
proof (induction w k rule: k_cancle_all_blocked_task.induct)
  case (1 w k)
  show ?case
  proof (cases "task_lists k (WQ w)")
    case Nil
    then show ?thesis using 1(2) by (auto simp: k_cancle_all_blocked_task.simps[of w k] same_cpu_def)
  next
    case (Cons t ts)
    note inv = tick_preD(1)[OF 1(2)]
    have t: "t \<in> set (task_lists k (WQ w))" using Cons by simp
    note w = k_unblock_waiter[OF 1(2) t]
    let ?k = "upd_task t (\<lambda>x. x\<lparr>switch_retval := OS_ERROR\<rparr>) (unblocked t k)"
    have inv1: "kinv i (unblocked t k)" using w(2) by (simp add: tick_keeps_def tick_preD)
    have "kinv i ?k"
      using kinvD(6)[OF inv1, of t] kinvD(7)[OF inv1]
      by (intro kinv_upd_task[OF inv1]) (auto simp: home_def tick_home_def task_wf_def)
    then have keeps: "tick_keeps i k ?k (has_flag (tstate (unblocked t k) t) OS_TASK_STATE_READY)"
      using w(2) by (intro tick_keeps_upd_same) simp_all
    have d: "distinct (t # ts)" using kinvD(2)[OF inv, of "WQ w"] Cons by simp
    have other: "removeAll t (task_lists k (WQ v)) = task_lists k (WQ v)" if "v \<noteq> w" for v
      using that kinvD(4)[OF inv, of t "WQ v"] kinvD(4)[OF inv, of t "WQ w"] t by auto
    obtain k' where k': "k_cancle_all_blocked_task w ?k = OK k'" "tick_pre i k'" "same_cpu ?k k'"
      "task_lists k' (WQ w) = []" "\<forall>v. v \<noteq> w \<longrightarrow> task_lists k' (WQ v) = task_lists ?k (WQ v)"
      "os_tick k' = os_tick ?k"
      "tasks k' = (\<lambda>u. if u \<in> set (task_lists ?k (WQ w)) then cancelled_tcb (tasks ?k u) else tasks ?k u)"
      using 1(1)[OF Cons w(1)] keeps by (auto simp: tick_keeps_def)
    have "tasks k' = (\<lambda>u. if u \<in> set (task_lists k (WQ w)) then cancelled_tcb (tasks k u) else tasks k u)"
      using d Cons by (auto simp: k'(7) fun_eq_iff cancelled_tcb_def)
    moreover have "same_cpu k k'" using k'(3) keeps by (auto simp: tick_keeps_def same_cpu_def)
    ultimately show ?thesis
      using k' other Cons w(1) by (auto simp: k_cancle_all_blocked_task.simps[of w k])
  qed
qed

lemma cancel_run:
  assumes "settled i k"
  shows "\<exists>k'. k_cancle_all_blocked_task w k = OK k' \<and> krun i (k_kernel_exit_sched k') \<and>
     task_lists k' (WQ w) = [] \<and> (\<forall>v. v \<noteq> w \<longrightarrow> task_lists k' (WQ v) = task_lists k (WQ v)) \<and>
     tasks k' = (\<lambda>t. if t \<in> set (task_lists k (WQ w)) then cancelled_tcb (tasks k t) else tasks k t)"
  using k_cancle_keeps[OF settled_tick_pre[OF assms], of w] by (auto simp: tick_pre_def intro!: krun_exit_sched)

text \<open>Two wait lists cancelled one after the other, as mailboxes and message queues do.\<close>

lemma cancel_two_keeps:
  assumes pre: "tick_pre i k" and w: "w1 \<noteq> w2"
  shows "\<exists>k1 k2. k_cancle_all_blocked_task w1 k = OK k1 \<and> k_cancle_all_blocked_task w2 k1 = OK k2 \<and> tick_pre i k2 \<and>
     same_cpu k k2 \<and> task_lists k2 (WQ w1) = [] \<and> task_lists k2 (WQ w2) = [] \<and>
     (\<forall>v. v \<noteq> w1 \<longrightarrow> v \<noteq> w2 \<longrightarrow> task_lists k2 (WQ v) = task_lists k (WQ v)) \<and>
     tasks k2 = (\<lambda>t. if t \<in> set (task_lists k (WQ w1)) \<union> set (task_lists k (WQ w2)) then cancelled_tcb (tasks k t) else tasks k t)"
proof -
  obtain k1 where 1: "k_cancle_all_blocked_task w1 k = OK k1" "tick_pre i k1" "same_cpu k k1" "task_lists k1 (WQ w1) = []"
    "\<forall>v. v \<noteq> w1 \<longrightarrow> task_lists k1 (WQ v) = task_lists k (WQ v)"
    "tasks k1 = (\<lambda>t. if t \<in> set (task_lists k (WQ w1)) then cancelled_tcb (tasks k t) else tasks k t)"
    using k_cancle_keeps[OF pre, of w1] by blast
  obtain k2 where 2: "k_cancle_all_blocked_task w2 k1 = OK k2" "tick_pre i k2" "same_cpu k1 k2" "task_lists k2 (WQ w2) = []"
    "\<forall>v. v \<noteq> w2 \<longrightarrow> task_lists k2 (WQ v) = task_lists k1 (WQ v)"
    "tasks k2 = (\<lambda>t. if t \<in> set (task_lists k1 (WQ w2)) then cancelled_tcb (tasks k1 t) else tasks k1 t)"
    using k_cancle_keeps[OF 1(2), of w2] by blast
  have "t \<notin> set (task_lists k (WQ w1)) \<or> t \<notin> set (task_lists k (WQ w2))" for t
    using kinvD(4)[OF tick_preD(1)[OF pre], of t "WQ w1"] kinvD(4)[OF tick_preD(1)[OF pre], of t "WQ w2"] w by auto
  then have "tasks k2 = (\<lambda>t. if t \<in> set (task_lists k (WQ w1)) \<union> set (task_lists k (WQ w2)) then cancelled_tcb (tasks k t) else tasks k t)"
    using 1(5) w by (auto simp: fun_eq_iff 1(6) 2(6))
  moreover have "same_cpu k k2" using 1(3) 2(3) by (simp add: same_cpu_def)
  ultimately show ?thesis using 1(1,4,5) 2(1,2,4,5) w by auto
qed

lemma cancelled_tcb_frame [simp]: "current_priority (cancelled_tcb x) = current_priority x"
  by (simp add: cancelled_tcb_def)

subsection \<open>Fields the scheduler does not look at\<close>

definition harmless :: "(os_task \<Rightarrow> os_task) \<Rightarrow> bool" where
  "harmless f \<longleftrightarrow> (\<forall>x. state (f x) = state x \<and> current_priority (f x) = current_priority x \<and>
     backup_priority (f x) = backup_priority x \<and> block_list_head (f x) = block_list_head x \<and>
     tick_absolute (f x) = tick_absolute x)"

lemma kinv_harmless: "kinv i k \<Longrightarrow> harmless f \<Longrightarrow> kinv i (upd_task t f k)"
  using kinvD(6)[of i k t] kinvD(7)[of i k]
  by (intro kinv_upd_task) (auto simp: harmless_def home_def tick_home_def task_wf_def)

lemma keeps_harmless:
  assumes "tick_pre i k" "harmless f"
  shows "tick_keeps i k (upd_task t f k) need"
proof -
  have "tick_keeps i k (upd_task t f k) False"
    by (rule tick_keeps_upd_same) (use assms kinv_harmless[OF tick_preD(1)] in \<open>auto simp: harmless_def\<close>)
  then show ?thesis by (simp add: tick_keeps_def)
qed

lemma krun_harmless:
  assumes "krun i k" "tick_pre i k" "harmless f"
  shows "krun i (upd_task t f k)"
  using krun_of_keeps(1)[OF assms(1) keeps_harmless[OF assms(2,3), of t False]] by simp

lemma settled_harmless: "settled i k \<Longrightarrow> harmless f \<Longrightarrow> settled i (upd_task t f k)"
  using krun_harmless[OF settledD(1) settled_tick_pre] settledD(5)[of i k] unfolding settled_def by simp

lemma wake_with_run:
  assumes s: "settled i k" and t: "t \<in> set (task_lists k (WQ w))" and f: "harmless f"
  shows "\<exists>k1. wake_with t f k = OK k1 \<and> krun i k1 \<and> tasks k1 = tasks (upd_task t f (unblocked t k)) \<and>
    (\<forall>v. task_lists k1 (WQ v) = removeAll t (task_lists k (WQ v))) \<and> os_tick k1 = os_tick k"
proof -
  note w = k_unblock_waiter[OF settled_tick_pre[OF s] t]
  let ?k = "upd_task t f (unblocked t k)" and ?r = "has_flag (tstate (unblocked t k) t) OS_TASK_STATE_READY"
  have pre: "tick_pre i (unblocked t k)" using w(2) by (simp add: tick_keeps_def)
  have same: "state (f x) = state x" for x using f by (simp add: harmless_def)
  have "tick_keeps i k ?k (?r \<or> ?r)" by (rule tick_keeps_trans[OF w(2) keeps_harmless[OF pre f]])
  then have "krun i (exit_if ?r ?k)"
    using krun_of_keeps(1)[OF settledD(1)[OF s], of ?k ?r] by (simp add: exit_if_def)
  then show ?thesis by (simp add: wake_with_def w(1) Let_def same)
qed

text \<open>The current task leaves data in its control block and blocks.\<close>

definition block_with :: "nat \<Rightarrow> u32 \<Rightarrow> bool \<Rightarrow> (os_task \<Rightarrow> os_task) \<Rightarrow> kernel \<Rightarrow> kernel res" where
  "block_with w timeout wake_prio f k =
     (case current_task k of None \<Rightarrow> Fault NullDeref | Some c \<Rightarrow> block_current w timeout wake_prio (upd_task c f k))"

lemma block_with_run:
  assumes s: "settled i k" and c: "current_task k = Some c" "c \<noteq> i" "sched_lock_cnt k = 0" and f: "harmless f"
  shows "\<exists>k1. block_with w timeout wp f k = OK k1 \<and> krun i k1 \<and> task_lists k1 = wait_insert (WQ w) c wp k \<and>
    tasks k1 = (tasks k)(c := blocked_tcb (WQ w) timeout wp (os_tick k) (f (tasks k c))) \<and>
    current_task k1 = Some c \<and> os_tick k1 = os_tick k"
proof -
  let ?k = "upd_task c f k"
  have p: "prio ?k t = prio k t" for t using f by (simp add: harmless_def)
  have "wait_insert (WQ w) c wp ?k = wait_insert (WQ w) c wp k" unfolding wait_insert_def p by simp
  then show ?thesis
    using block_current_run[OF settled_harmless[OF s f], of c c w timeout wp] c by (auto simp: block_with_def upd_task_def)
qed

text \<open>The empty wait list of a new object.\<close>

lemma empty_list_upd: "task_lists k (WQ a) = [] \<Longrightarrow> k\<lparr>task_lists := (task_lists k)(WQ a := [])\<rparr> = k"
  by (simp add: fun_upd_idem)

text \<open>A task that waits on a list is on no other.\<close>

lemma waiting_elsewhere:
  "kinv i k \<Longrightarrow> t \<in> set (task_lists k (WQ a)) \<Longrightarrow> b \<noteq> a \<Longrightarrow> removeAll t (task_lists k (WQ b)) = task_lists k (WQ b)"
  using kinvD(4)[of i k t "WQ a"] kinvD(4)[of i k t "WQ b"] by simp

subsection \<open>Services with objects\<close>

text \<open>
  The contract of a call on kernel objects: it stops in an assertion, or it leaves the
  scheduling invariant and that of the objects.
\<close>

definition svc_safe :: "('o \<Rightarrow> kernel \<Rightarrow> bool) \<Rightarrow> tid \<Rightarrow> (('o \<times> kernel) \<times> 'r) res \<Rightarrow> bool" where
  "svc_safe oinv i m \<longleftrightarrow> (case m of OK ((s, k), r) \<Rightarrow> krun i k \<and> oinv s k | Fault f \<Rightarrow> f = AssertFail)"

lemma svc_safe_simps [simp]:
  "svc_safe oinv i (OK ((s, k), r)) \<longleftrightarrow> krun i k \<and> oinv s k" "svc_safe oinv i (Fault f) \<longleftrightarrow> f = AssertFail"
  by (simp_all add: svc_safe_def)

lemma svc_safe_assert [intro!]: "(c \<Longrightarrow> svc_safe oinv i m) \<Longrightarrow> svc_safe oinv i (os_assert c m)"
  by (cases c) simp_all

definition returns :: "(('s \<times> kernel) \<times> 'r) res \<Rightarrow> (('s \<times> kernel) \<times> 'r outcome) res" where
  "returns m = bind_res m (\<lambda>(sk, r). OK (sk, Returns r))"

lemma svc_safe_bind: "svc_safe oinv i m \<Longrightarrow> svc_safe oinv i (bind_res m (\<lambda>(sk, a). OK (sk, g a)))"
  by (cases m) auto

lemma svc_safe_returns: "svc_safe oinv i m \<Longrightarrow> svc_safe oinv i (returns m)"
  unfolding returns_def by (rule svc_safe_bind)

text \<open>A context switch moves no task and changes no priority.\<close>

lemma dispatch_wait_frame:
  assumes "krun i k" "dispatch k = OK k'"
  shows "task_lists k' = task_lists k" "prio k' t = prio k t" "switch_retval (tasks k' t) = switch_retval (tasks k t)"
    "swap_data (tasks k' t) = swap_data (tasks k t)" "event_set (tasks k' t) = event_set (tasks k t)"
    "event_option (tasks k' t) = event_option (tasks k t)" "hold_mutex_list (tasks k' t) = hold_mutex_list (tasks k t)"
    "backup_priority (tasks k' t) = backup_priority (tasks k t)" "is_wake_prio (tasks k' t) = is_wake_prio (tasks k t)"
    "block_list_head (tasks k' t) = block_list_head (tasks k t)"
proof -
  obtain k2 where "dispatch k = OK k2" "task_lists k2 = task_lists k"
    "\<forall>t. tasks k2 t = (tasks k t)\<lparr>state := tstate k2 t\<rparr>"
    using dispatch_ok[OF assms(1)] by blast
  then have l: "task_lists k' = task_lists k" and t: "tasks k' t = (tasks k t)\<lparr>state := tstate k' t\<rparr>"
    using assms(2) by auto
  show "task_lists k' = task_lists k" by (rule l)
  show "prio k' t = prio k t" "switch_retval (tasks k' t) = switch_retval (tasks k t)"
    "swap_data (tasks k' t) = swap_data (tasks k t)" "event_set (tasks k' t) = event_set (tasks k t)"
    "event_option (tasks k' t) = event_option (tasks k t)" "hold_mutex_list (tasks k' t) = hold_mutex_list (tasks k t)"
    "backup_priority (tasks k' t) = backup_priority (tasks k t)" "is_wake_prio (tasks k' t) = is_wake_prio (tasks k t)"
    "block_list_head (tasks k' t) = block_list_head (tasks k t)"
    by (subst t, simp)+
qed

lemma kernel_service_svc:
  assumes "\<And>i k s x. settled i k \<Longrightarrow> oinv i s k \<Longrightarrow> allowed i x s k \<Longrightarrow> svc_safe (oinv i) i (step x (s, k))"
    and "\<And>s k i k'. oinv i s k \<Longrightarrow> krun i k \<Longrightarrow> dispatch k = OK k' \<Longrightarrow> oinv i s k'"
  shows "kernel_service step allowed oinv"
proof
  fix i k s x assume "settled i k" "oinv i s k" "allowed i x s k"
  from assms(1)[OF this] show "step x (s, k) = Fault AssertFail \<or>
      (\<exists>s' k' r. step x (s, k) = OK ((s', k'), r) \<and> krun i k' \<and> oinv i s' k')"
    by (cases "step x (s, k)") auto
qed (rule assms(2))

text \<open>Evaluation of calls that wait and wake on concrete kernels.\<close>

lemmas wait_eval = sample_eval syscall_def returns_def wait_context_def OS_WAIT_FOREVER_def OS_NO_WAIT_def
  OS_TICK_MAX_def WAKE_TYPE_PRIO_def OS_KOBJ_ALLOC_TYPE_STATIC_def block_current_def k_block_task_def
  k_blockq_insert_def wake_task_def k_unblock_task_def exit_if_def wake_with_def block_with_def k_tickq_put_def k_tickq_remove_def tick_bucket_def
  TICK_Q_BUCKETS_def

end
