(* ===== verification/Kernel_Time.thy ===== *)
theory Kernel_Time
  imports Kernel_Wait
begin

text \<open>
  Time as the tasks see it: a task that sleeps, or that waits with a deadline, leaves the
  tick queue at the tick of its deadline and not before, although the interrupt looks at
  one bucket only and stops at the first task in it that is not due; the time slice of
  equals rotates; milliseconds round up; the tickless idle loop never sleeps too long.
\<close>

subsection \<open>Deadlines\<close>

definition asleep :: "kernel \<Rightarrow> tid \<Rightarrow> bool" where
  "asleep k t \<longleftrightarrow> has_flag (tstate k t) OS_TASK_STATE_SLEEP"

text \<open>The ticks a sleeping task still has to wait.\<close>

definition ticks_left :: "kernel \<Rightarrow> tid \<Rightarrow> nat" where
  "ticks_left k t = unat (tick_absolute (tasks k t) - os_tick k)"

text \<open>
  What the tick queue relies on: each bucket is sorted by deadline and no deadline is
  further away than half the range of the tick counter, so that the signed comparison of
  the interrupt is right also when the counter wraps around.
\<close>

definition tickq_sorted :: "kernel \<Rightarrow> bool" where
  "tickq_sorted k \<longleftrightarrow> (\<forall>b. sorted_wrt (\<lambda>t u. ticks_left k t \<le> ticks_left k u) (tickq_bucket k b)) \<and>
     (\<forall>t. asleep k t \<longrightarrow> ticks_left k t < 2 ^ 31)"

definition sleep_ok :: "kernel \<Rightarrow> bool" where
  "sleep_ok k \<longleftrightarrow> tickq_sorted k \<and> (\<forall>t. asleep k t \<longrightarrow> 0 < ticks_left k t)"

lemma sint_small:
  assumes "unat (d::u32) < 2 ^ 31"
  shows "0 < sint d \<longleftrightarrow> 0 < unat d"
proof -
  have "uint d < 2 ^ 31" using assms by (metis of_nat_less_iff of_nat_numeral of_nat_power uint_nat)
  then have "sint d = uint d" unfolding sint_uint
    by (intro signed_take_bit_int_eq_self order_trans[OF _ uint_ge_0]) simp_all
  then show ?thesis by (simp only: uint_nat of_nat_0_less_iff)
qed

lemma due_iff: "asleep k t \<Longrightarrow> tickq_sorted k \<Longrightarrow>
    0 < sint (tick_absolute (tasks k t) - os_tick k) \<longleftrightarrow> 0 < ticks_left k t"
  by (simp add: tickq_sorted_def ticks_left_def sint_small)

text \<open>One tick shortens every wait by one.\<close>

lemma ticks_left_next:
  "0 < ticks_left k t \<Longrightarrow> ticks_left (k\<lparr>os_tick := os_tick k + 1\<rparr>) t = ticks_left k t - 1"
  using unat_dec[of "tick_absolute (tasks k t) - os_tick k"]
  by (simp add: ticks_left_def word_gt_0 diff_diff_eq unat_gt_0)

lemma bucket_asleep: "kinv i k \<Longrightarrow> t \<in> set (tickq_bucket k b) \<longleftrightarrow>
    asleep k t \<and> b = tick_bucket (tick_absolute (tasks k t))"
  by (auto simp: kinvD(5) tick_home_def asleep_def)

lemma due_bucket: "ticks_left k t = 0 \<Longrightarrow> tick_absolute (tasks k t) = os_tick k"
  by (simp add: ticks_left_def unat_eq_zero)

lemma tickq_sorted_next:
  assumes inv: "kinv i k" and ok: "sleep_ok k"
  shows "tickq_sorted (k\<lparr>os_tick := os_tick k + 1\<rparr>)"
proof -
  let ?k = "k\<lparr>os_tick := os_tick k + 1\<rparr>"
  have left: "asleep k t \<Longrightarrow> ticks_left ?k t = ticks_left k t - 1" for t
    using ok by (simp add: sleep_ok_def ticks_left_next)
  have "sorted_wrt (\<lambda>t u. ticks_left ?k t \<le> ticks_left ?k u) (tickq_bucket k b)" for b
  proof (rule sorted_wrt_mono_rel)
    show "sorted_wrt (\<lambda>t u. ticks_left k t \<le> ticks_left k u) (tickq_bucket k b)"
      using ok by (simp add: sleep_ok_def tickq_sorted_def)
  qed (simp add: left bucket_asleep[OF inv])
  moreover have "ticks_left ?k t < 2 ^ 31" if "asleep k t" for t
    using ok that left[OF that] by (auto simp: sleep_ok_def tickq_sorted_def intro: less_imp_diff_less)
  ultimately show ?thesis by (simp add: tickq_sorted_def asleep_def)
qed

text \<open>
  What a step leaves of the sleepers: clock, buckets and deadlines are the same, nobody
  falls asleep or wakes up, a ready task stays ready.
\<close>

definition same_sleep :: "kernel \<Rightarrow> kernel \<Rightarrow> bool" where
  "same_sleep k k' \<longleftrightarrow> os_tick k' = os_tick k \<and> tickq_bucket k' = tickq_bucket k \<and>
     (\<forall>t. tick_absolute (tasks k' t) = tick_absolute (tasks k t) \<and> (asleep k' t \<longleftrightarrow> asleep k t) \<and>
        (has_flag (tstate k t) OS_TASK_STATE_READY \<longrightarrow> has_flag (tstate k' t) OS_TASK_STATE_READY) \<and>
        (tstate k t = OS_TASK_STATE_SLEEP \<longrightarrow> tstate k' t = OS_TASK_STATE_SLEEP))"

lemma same_sleep_trans: "same_sleep k k1 \<Longrightarrow> same_sleep k1 k2 \<Longrightarrow> same_sleep k k2"
  by (simp add: same_sleep_def)

lemma same_sleep_ok:
  assumes "same_sleep k k'"
  shows "ticks_left k' t = ticks_left k t" "sleep_ok k' \<longleftrightarrow> sleep_ok k" "tickq_sorted k' \<longleftrightarrow> tickq_sorted k"
  using assms by (simp_all add: same_sleep_def ticks_left_def sleep_ok_def tickq_sorted_def)

text \<open>
  The loop of the tick interrupt wakes exactly the tasks of its bucket that are due.
\<close>

definition woke_due :: "nat \<Rightarrow> kernel \<Rightarrow> kernel \<Rightarrow> bool" where
  "woke_due b k k' \<longleftrightarrow> os_tick k' = os_tick k \<and> (\<forall>t. tick_absolute (tasks k' t) = tick_absolute (tasks k t)) \<and>
     (\<forall>c. set (tickq_bucket k' c) \<subseteq> set (tickq_bucket k c)) \<and>
     (\<forall>t. asleep k' t \<longleftrightarrow> asleep k t \<and> \<not> (t \<in> set (tickq_bucket k b) \<and> ticks_left k t = 0)) \<and>
     (\<forall>t. has_flag (tstate k t) OS_TASK_STATE_READY \<longrightarrow> has_flag (tstate k' t) OS_TASK_STATE_READY) \<and>
     (\<forall>t. tstate k t = OS_TASK_STATE_SLEEP \<longrightarrow>
        tstate k' t = OS_TASK_STATE_SLEEP \<or> has_flag (tstate k' t) OS_TASK_STATE_READY)"

lemma woken_tick_frame:
  "os_tick (woken t k) = os_tick k" "tickq_bucket (woken t k) = list_del (tickq_bucket k) t"
  by (simp_all add: woken_def Let_def)

lemma woken_tick_absolute: "tick_absolute (woken_tcb x) = tick_absolute x"
  by (simp add: woken_tcb_def Let_def)

lemma wake_one:
  assumes "kinv i k" "tickq_sorted k" "asleep k t"
  defines "k' \<equiv> upd_task t (timed_out_tcb (tasks k t)) (woken t k)"
  shows "tickq_sorted k'" "os_tick k' = os_tick k" "tick_absolute (tasks k' u) = tick_absolute (tasks k u)"
    "tickq_bucket k' = list_del (tickq_bucket k) t" "asleep k' u \<longleftrightarrow> asleep k u \<and> u \<noteq> t"
    "has_flag (tstate k u) OS_TASK_STATE_READY \<Longrightarrow> has_flag (tstate k' u) OS_TASK_STATE_READY"
    "tstate k u = OS_TASK_STATE_SLEEP \<Longrightarrow>
      tstate k' u = OS_TASK_STATE_SLEEP \<or> has_flag (tstate k' u) OS_TASK_STATE_READY"
    "ticks_left k' u = ticks_left k u"
proof -
  show tick: "os_tick k' = os_tick k" and b: "tickq_bucket k' = list_del (tickq_bucket k) t"
    by (simp_all add: k'_def woken_tick_frame)
  show abs: "tick_absolute (tasks k' u) = tick_absolute (tasks k u)" for u
    by (simp add: k'_def upd_task_def woken_frame timed_out_tcb_def woken_tick_absolute)
  show left: "ticks_left k' u = ticks_left k u" for u by (simp add: ticks_left_def tick abs)
  have st: "tstate k' u = (if u = t then state (woken_tcb (tasks k t)) else tstate k u)" for u
    by (simp add: k'_def upd_task_def woken_frame timed_out_tcb_def)
  show sl: "asleep k' u \<longleftrightarrow> asleep k u \<and> u \<noteq> t" for u by (simp add: asleep_def st)
  show "has_flag (tstate k u) OS_TASK_STATE_READY \<Longrightarrow> has_flag (tstate k' u) OS_TASK_STATE_READY"
    using assms(3) task_wfD(3)[OF kinvD(6)[OF assms(1)], of t] by (auto simp: st asleep_def)
  show "tstate k u = OS_TASK_STATE_SLEEP \<Longrightarrow>
      tstate k' u = OS_TASK_STATE_SLEEP \<or> has_flag (tstate k' u) OS_TASK_STATE_READY"
    by (auto simp: st woken_tcb_def Let_def task_state_defs has_flag_def)
  show "tickq_sorted k'"
    using assms(2) by (simp add: tickq_sorted_def left sl b list_del_apply sorted_wrt_removeAll)
qed

lemma tick_wake_loop_due:
  "kinv i k \<Longrightarrow> tickq_sorted k \<Longrightarrow> tick_wake_loop b k s = OK (k', s') \<Longrightarrow>
   tickq_sorted k' \<and> woke_due b k k'"
proof (induction b k s rule: tick_wake_loop.induct)
  case (1 b k s)
  show ?case
  proof (cases "tickq_bucket k b")
    case Nil
    then show ?thesis using 1(3,4) by (simp add: tick_wake_loop.simps[of b k] woke_due_def)
  next
    case (Cons t ts)
    have sl: "asleep k t" using bucket_head_asleep[OF 1(2) Cons] by (simp add: asleep_def)
    note w = tick_wake_eq[OF 1(2) sl[unfolded asleep_def], of s]
    let ?k = "upd_task t (timed_out_tcb (tasks k t)) (woken t k)"
    show ?thesis
    proof (cases "0 < ticks_left k t")
      case True
      have pos: "0 < ticks_left k u" if "u \<in> set (tickq_bucket k b)" for u
      proof -
        have "sorted_wrt (\<lambda>t u. ticks_left k t \<le> ticks_left k u) (t # ts)"
          using 1(3) Cons by (simp add: tickq_sorted_def flip: Cons)
        then have "ticks_left k t \<le> ticks_left k u" using that Cons by auto
        then show ?thesis using True by simp
      qed
      have "k' = k"
        using 1(4) True Cons by (simp add: tick_wake_loop.simps[of b k] due_iff[OF sl 1(3)])
      then show ?thesis using 1(3) pos by (auto simp: woke_due_def)
    next
      case False
      note W = wake_one[OF 1(2,3) sl]
      have "tick_wake_loop b ?k (s \<or> has_flag (tstate (woken t k) t) OS_TASK_STATE_READY) = OK (k', s')"
        using 1(4) False Cons w by (simp add: tick_wake_loop.simps[of b k] due_iff[OF sl 1(3)])
      then have IH: "tickq_sorted k'" "woke_due b ?k k'"
        using 1(1)[OF Cons _ w refl tick_wake_kinv[OF 1(2) sl[unfolded asleep_def] w] W(1)] False
        by (simp_all add: due_iff[OF sl 1(3)])
      have "woke_due b k k'"
        unfolding woke_due_def
      proof (intro conjI allI impI)
        fix u c
        show "os_tick k' = os_tick k" "tick_absolute (tasks k' u) = tick_absolute (tasks k u)"
          using IH(2) W(2) W(3)[of u] by (simp_all add: woke_due_def)
        show "set (tickq_bucket k' c) \<subseteq> set (tickq_bucket k c)"
          using IH(2) W(4) by (fastforce simp: woke_due_def list_del_apply)
        show "asleep k' u \<longleftrightarrow> asleep k u \<and> \<not> (u \<in> set (tickq_bucket k b) \<and> ticks_left k u = 0)"
          using IH(2) W(4) W(5)[of u] W(8)[of u] False Cons by (auto simp: woke_due_def list_del_apply)
        show "has_flag (tstate k u) OS_TASK_STATE_READY \<Longrightarrow> has_flag (tstate k' u) OS_TASK_STATE_READY"
          using IH(2) W(6)[of u] by (simp add: woke_due_def)
        show "tstate k u = OS_TASK_STATE_SLEEP \<Longrightarrow>
            tstate k' u = OS_TASK_STATE_SLEEP \<or> has_flag (tstate k' u) OS_TASK_STATE_READY"
          using IH(2) W(7)[of u] unfolding woke_due_def by blast
      qed
      with IH show ?thesis by blast
    qed
  qed
qed

subsection \<open>One tick\<close>

lemma same_sleep_slice: "same_sleep k (upd_task c (\<lambda>x. x\<lparr>remaining_time_slice := g x\<rparr>) k)"
  by (simp add: same_sleep_def asleep_def upd_task_def)

lemma tick_time_slice_sleep:
  assumes "kinv i k" "tick_time_slice c k s = OK (k', s')"
  shows "same_sleep k k'"
proof -
  let ?k1 = "upd_task c (\<lambda>x. x\<lparr>remaining_time_slice := remaining_time_slice x - 1\<rparr>) k"
  let ?k2 = "upd_task c (\<lambda>x. x\<lparr>remaining_time_slice := time_slice x\<rparr>) ?k1"
  have 1: "same_sleep k ?k1" and 2: "same_sleep k ?k2"
    by (rule same_sleep_slice) (rule same_sleep_trans[OF same_sleep_slice same_sleep_slice])
  have "same_sleep ?k2 k3" if "has_flag (tstate ?k2 c) OS_TASK_STATE_READY" "k_readyq_move_tail c ?k2 = OK k3" for k3
    using kinv_move_tail[OF kinv_slice[OF kinv_slice[OF assms(1)]] that(1)] that(2)
    by (auto simp: same_sleep_def asleep_def)
  then have 3: "same_sleep k k3" if "has_flag (tstate ?k2 c) OS_TASK_STATE_READY" "k_readyq_move_tail c ?k2 = OK k3" for k3
    using that same_sleep_trans[OF 2] by blast
  show ?thesis
  proof (cases "remaining_time_slice (tasks ?k1 c) = 0 \<and> has_flag (tstate ?k2 c) OS_TASK_STATE_READY \<and>
      list_shared (task_lists ?k2) c")
    case True
    then obtain k3 where "k_readyq_move_tail c ?k2 = OK k3" "k' = k3"
      using assms(2) by (auto simp: tick_time_slice_def Let_def res_simps)
    then show ?thesis using 3 True by blast
  next
    case False
    then have "k' = ?k1 \<or> k' = ?k2" using assms(2) by (auto simp: tick_time_slice_def Let_def split: if_splits)
    then show ?thesis using 1 2 by blast
  qed
qed

lemma k_readyq_put_clock: "k_readyq_put t k = OK k' \<Longrightarrow> os_tick k' = os_tick k"
  by (auto simp: k_readyq_put_def k_readq_bmap_set_def Let_def split: if_splits option.splits)

lemma k_timer_need_handle_sleep:
  assumes "k_timer_need_handle tt s k = OK (s', k', need)"
  shows "same_sleep k k'"
proof (cases "need_handle (wheel_tick s) \<and> tstate k tt = OS_TASK_STATE_SUSPEND")
  case True
  then have put: "k_readyq_put tt (set_task_state tt OS_TASK_STATE_READY (clear_task_state tt OS_TASK_STATE_SUSPEND k)) = OK k'"
    using assms by (auto simp: k_timer_need_handle_def Let_def res_simps)
  show ?thesis
    using True k_readyq_put_cpu[OF put] k_readyq_put_tickq[OF put] k_readyq_put_clock[OF put]
    by (auto simp: same_sleep_def asleep_def task_state_upd upd_task_def flag_simps)
       (simp_all add: task_state_defs)
next
  case False
  then show ?thesis using assms by (auto simp: k_timer_need_handle_def Let_def same_sleep_def)
qed

lemma same_sleep_exit_if: "same_sleep k (if b then k_kernel_exit_sched k else k)"
  by (simp add: same_sleep_def asleep_def)

lemma dispatch_sleep:
  assumes run: "krun i k" and d: "dispatch k = OK k'"
  shows "same_sleep k k'"
proof (cases "switch_pending k")
  case False
  then show ?thesis using d by (simp add: dispatch_def same_sleep_def)
next
  case True
  then have inv: "kinv i k" and "next_task k = high_task k" using run by (auto simp: krun_def kmid_def)
  then obtain n where n: "next_task k = Some n" "has_flag (tstate k n) OS_TASK_STATE_READY"
    using high_ready[OF inv] by metis
  obtain c where c: "current_task k = Some c" using run by (auto simp: krun_def kmid_def)
  have "tstate k n \<noteq> OS_TASK_STATE_SLEEP" using n(2) by (auto simp: flag_simps)
  moreover have "OS_TASK_STATE_SLEEP AND NOT OS_TASK_STATE_RUNNING = OS_TASK_STATE_SLEEP"
    by (simp add: task_state_defs)
  ultimately show ?thesis
    using d True c n(1)
    by (auto simp: dispatch_def PendSV_Handler_def Let_def task_state_upd upd_task_def same_sleep_def
        asleep_def flag_simps split: if_splits)
qed

lemma dispatch_leaves:
  assumes run: "krun i k" and d: "dispatch k = OK k'" and nr: "\<not> has_flag (tstate k c) OS_TASK_STATE_READY"
  shows "tstate k' c = tstate k c AND NOT OS_TASK_STATE_RUNNING"
proof (cases "switch_pending k")
  case False
  then have "settled i k" using run by (simp add: settled_def)
  then have "\<not> has_flag (tstate k c) OS_TASK_STATE_RUNNING"
    using nr settled_ready states_okD(2)[OF settledD(4)] by metis
  then show ?thesis using d False by (simp add: dispatch_def and_not_absent)
next
  case True
  then have inv: "kinv i k" and st: "states_ok k" and "next_task k = high_task k" using run by (auto simp: krun_def kmid_def)
  then obtain n where n: "next_task k = Some n" "n \<noteq> c" using high_ready[OF inv] nr by metis
  obtain y where cur: "current_task k = Some y" using run by (auto simp: krun_def kmid_def)
  have "\<not> has_flag (tstate k c) OS_TASK_STATE_RUNNING" if "current_task k \<noteq> Some c"
    using that states_okD(2)[OF st] by blast
  then show ?thesis
    using d True n cur
    by (auto simp: dispatch_def PendSV_Handler_def Let_def task_state_upd upd_task_def and_not_absent
        split: if_splits)
qed

text \<open>
  The tick interrupt with the timer module's hook, followed by the switch it may request.
\<close>

definition tick_irq :: "tid \<Rightarrow> timer_sys \<times> kernel \<Rightarrow> (timer_sys \<times> kernel) res" where
  "tick_irq tt = (\<lambda>(s, k). bind_res (os_tick_increase (k_timer_need_handle tt) s k)
     (\<lambda>(s', k1). bind_res (dispatch k1) (\<lambda>k2. OK (s', k2))))"

fun run_ticks :: "tid \<Rightarrow> nat \<Rightarrow> timer_sys \<times> kernel \<Rightarrow> (timer_sys \<times> kernel) res" where
  "run_ticks tt 0 sk = OK sk"
| "run_ticks tt (Suc n) sk = bind_res (tick_irq tt sk) (run_ticks tt n)"

lemma tick_irq_sleep:
  assumes s: "settled i k" and ok: "sleep_ok k"
  shows "\<exists>s' k'. tick_irq tt (sy, k) = OK (s', k') \<and> settled i k' \<and> sleep_ok k' \<and>
    (\<forall>t. asleep k' t \<longleftrightarrow> asleep k t \<and> 1 < ticks_left k t) \<and>
    (\<forall>t. asleep k' t \<longrightarrow> ticks_left k' t = ticks_left k t - 1) \<and>
    (\<forall>t. has_flag (tstate k t) OS_TASK_STATE_READY \<longrightarrow> has_flag (tstate k' t) OS_TASK_STATE_READY) \<and>
    (\<forall>t. tstate k t = OS_TASK_STATE_SLEEP \<longrightarrow>
       tstate k' t = OS_TASK_STATE_SLEEP \<or> has_flag (tstate k' t) OS_TASK_STATE_READY)"
proof -
  obtain c where c: "current_task k = Some c" using settledD(6)[OF s] by blast
  obtain s' k1 where 1: "os_tick_increase (k_timer_need_handle tt) sy k = OK (s', k1)" "krun i k1"
    using timer_tick.tick_settled[OF TrueI s] by blast
  obtain k' where 2: "dispatch k1 = OK k'" "settled i k'" using dispatch_ok[OF 1(2)] by blast
  let ?k = "k\<lparr>os_tick := os_tick k + 1\<rparr>" and ?b = "tick_bucket (os_tick k + 1)"
  obtain k2 s2 k3 s3 k4 need where st: "tick_wake_loop ?b ?k False = OK (k2, s2)"
    "tick_time_slice c k2 s2 = OK (k3, s3)" "k_timer_need_handle tt sy k3 = OK (s', k4, need)"
    "k1 = (if need \<or> s3 then k_kernel_exit_sched k4 else k4)"
    using 1(1) by (auto simp: os_tick_increase_def c Let_def res_simps)
  have inv: "kinv i ?k" using settledD(3)[OF s] by simp
  have left: "asleep k t \<Longrightarrow> ticks_left ?k t = ticks_left k t - 1" for t
    using ok by (simp add: sleep_ok_def ticks_left_next)
  have sl: "asleep ?k t \<longleftrightarrow> asleep k t" for t by (simp add: asleep_def)
  have srt: "tickq_sorted k2" and due: "woke_due ?b ?k k2" 
    using tick_wake_loop_due[OF inv tickq_sorted_next[OF settledD(3)[OF s] ok] st(1)] by blast+
  have inv2: "kinv i k2" using tick_wake_loop_kinv[OF inv] st(1) by (metis res.inject(1) prod.inject)
  have "same_sleep k2 k'"
    using same_sleep_trans[OF same_sleep_trans[OF same_sleep_trans[OF tick_time_slice_sleep[OF inv2 st(2)]
      k_timer_need_handle_sleep[OF st(3)]] same_sleep_exit_if[of k4 "need \<or> s3"]]] dispatch_sleep[OF 1(2) 2(1)]
    by (simp add: st(4))
  note same = same_sleep_ok[OF this] this
  have a2: "asleep k2 t \<longleftrightarrow> asleep k t \<and> 1 < ticks_left k t" for t
    using due ok left[of t] due_bucket[of ?k t] bucket_asleep[OF inv, of t ?b]
    by (cases "1 < ticks_left k t") (auto simp: woke_due_def sl sleep_ok_def)
  have l2: "ticks_left k2 t = ticks_left ?k t" for t using due by (simp add: woke_due_def ticks_left_def)
  have "sleep_ok k2" using srt a2 left by (auto simp: l2 sleep_ok_def)
  then have "sleep_ok k'" by (simp add: same(2))
  moreover have "asleep k' t \<longleftrightarrow> asleep k t \<and> 1 < ticks_left k t" for t using a2 same(4) by (simp add: same_sleep_def)
  moreover have "asleep k' t \<longrightarrow> ticks_left k' t = ticks_left k t - 1" for t
    using calculation(2)[of t] left[of t] by (simp add: same(1) l2)
  moreover have "has_flag (tstate k t) OS_TASK_STATE_READY \<longrightarrow> has_flag (tstate k' t) OS_TASK_STATE_READY" for t
    using due same(4) by (simp add: woke_due_def same_sleep_def)
  moreover have "tstate k t = OS_TASK_STATE_SLEEP \<longrightarrow>
       tstate k' t = OS_TASK_STATE_SLEEP \<or> has_flag (tstate k' t) OS_TASK_STATE_READY" for t
  proof (rule impI)
    assume "tstate k t = OS_TASK_STATE_SLEEP"
    then have "tstate k2 t = OS_TASK_STATE_SLEEP \<or> has_flag (tstate k2 t) OS_TASK_STATE_READY"
      using due by (simp add: woke_due_def)
    then show "tstate k' t = OS_TASK_STATE_SLEEP \<or> has_flag (tstate k' t) OS_TASK_STATE_READY"
      using same(4) unfolding same_sleep_def by blast
  qed
  moreover have "tick_irq tt (sy, k) = OK (s', k')" by (simp add: tick_irq_def 1(1) 2(1))
  ultimately show ?thesis using 2(2) by blast
qed

subsection \<open>Sleeping for a number of ticks\<close>

lemma run_ticks_sleep:
  "settled i k \<Longrightarrow> sleep_ok k \<Longrightarrow>
   \<exists>s' k'. run_ticks tt m (s, k) = OK (s', k') \<and> settled i k' \<and> sleep_ok k' \<and>
     (\<forall>t. asleep k' t \<longleftrightarrow> asleep k t \<and> m < ticks_left k t) \<and>
     (\<forall>t. has_flag (tstate k t) OS_TASK_STATE_READY \<longrightarrow> has_flag (tstate k' t) OS_TASK_STATE_READY) \<and>
     (\<forall>t. tstate k t = OS_TASK_STATE_SLEEP \<longrightarrow>
        tstate k' t = OS_TASK_STATE_SLEEP \<or> has_flag (tstate k' t) OS_TASK_STATE_READY)"
proof (induction m arbitrary: s k)
  case 0
  then show ?case by (auto simp: sleep_ok_def)
next
  case (Suc m)
  obtain s1 k1 where 1: "tick_irq tt (s, k) = OK (s1, k1)" "settled i k1" "sleep_ok k1"
    "\<forall>t. asleep k1 t \<longleftrightarrow> asleep k t \<and> 1 < ticks_left k t"
    "\<forall>t. asleep k1 t \<longrightarrow> ticks_left k1 t = ticks_left k t - 1"
    "\<forall>t. has_flag (tstate k t) OS_TASK_STATE_READY \<longrightarrow> has_flag (tstate k1 t) OS_TASK_STATE_READY"
    "\<forall>t. tstate k t = OS_TASK_STATE_SLEEP \<longrightarrow>
       tstate k1 t = OS_TASK_STATE_SLEEP \<or> has_flag (tstate k1 t) OS_TASK_STATE_READY"
    using tick_irq_sleep[OF Suc.prems, of tt s] by blast
  obtain s2 k2 where 2: "run_ticks tt m (s1, k1) = OK (s2, k2)" "settled i k2" "sleep_ok k2"
    "\<forall>t. asleep k2 t \<longleftrightarrow> asleep k1 t \<and> m < ticks_left k1 t"
    "\<forall>t. has_flag (tstate k1 t) OS_TASK_STATE_READY \<longrightarrow> has_flag (tstate k2 t) OS_TASK_STATE_READY"
    "\<forall>t. tstate k1 t = OS_TASK_STATE_SLEEP \<longrightarrow>
       tstate k2 t = OS_TASK_STATE_SLEEP \<or> has_flag (tstate k2 t) OS_TASK_STATE_READY"
    using Suc.IH[OF 1(2,3), of s1] by blast
  have "asleep k2 t \<longleftrightarrow> asleep k t \<and> Suc m < ticks_left k t" for t
    using spec[OF 1(4), of t] spec[OF 1(5), of t] spec[OF 2(4), of t] by auto
  moreover have "tstate k t = OS_TASK_STATE_SLEEP \<longrightarrow>
       tstate k2 t = OS_TASK_STATE_SLEEP \<or> has_flag (tstate k2 t) OS_TASK_STATE_READY" for t
    using 1(7) 2(5,6) by blast
  ultimately show ?case using 1(1,6) 2(1,2,3,5) by simp
qed

lemma k_tickq_put_sleep:
  assumes srt: "\<And>b. sorted_wrt (\<lambda>t u. ticks_left k t \<le> ticks_left k u) (tickq_bucket k b)"
    and others: "\<And>t. t \<noteq> c \<Longrightarrow> asleep k t \<Longrightarrow> 0 < ticks_left k t \<and> ticks_left k t < 2 ^ 31"
    and new: "\<And>b. c \<notin> set (tickq_bucket k b)" and n: "0 < unat n" "unat n < 2 ^ 31"
  shows "sleep_ok (k_tickq_put c n k)" "ticks_left (k_tickq_put c n k) c = unat n"
proof -
  let ?k = "k_tickq_put c n k"
  have left: "ticks_left ?k t = (if t = c then unat n else ticks_left k t)" for t
    by (simp add: ticks_left_def k_tickq_put_def Let_def)
  have sl: "asleep ?k t \<longleftrightarrow> asleep k t" for t by (simp add: asleep_def k_tickq_put_def Let_def upd_task_def)
  show "ticks_left ?k c = unat n" by (simp add: left)
  have old: "sorted_wrt (\<lambda>t u. ticks_left ?k t \<le> ticks_left ?k u) (tickq_bucket k b)" for b
    by (rule sorted_wrt_mono_rel[OF _ srt]) (use new in \<open>auto simp: left\<close>)
  have bucket: "tickq_bucket ?k b = (if b = tick_bucket (os_tick k + n)
      then insert_before (\<lambda>u. ticks_left ?k c < ticks_left ?k u) c (tickq_bucket k b) else tickq_bucket k b)" for b
    using new by (auto simp: k_tickq_put_def Let_def list_add_before_apply left word_less_nat_alt ticks_left_def
        intro!: insert_before_cong)
  have "sorted_wrt (\<lambda>t u. ticks_left ?k t \<le> ticks_left ?k u) (tickq_bucket ?k b)" for b
    using old sorted_insert_before[OF old] by (simp add: bucket)
  then show "sleep_ok ?k" using others n by (auto simp: sleep_ok_def tickq_sorted_def sl left)
qed

text \<open>A running task that may block: task context, scheduler unlocked, not the idle task.\<close>

definition may_block :: "tid \<Rightarrow> kernel \<Rightarrow> tid \<Rightarrow> bool" where
  "may_block i k c \<longleftrightarrow> settled i k \<and> current_task k = Some c \<and> c \<noteq> i \<and> sched_lock_cnt k = 0 \<and>
     \<not> irq_active k \<and> \<not> irq_disabled k"

lemma tsleep_ok:
  assumes m: "may_block i k c" and ok: "sleep_ok k" and n: "0 < n" "n < OS_TICK_MAX div 2"
  shows "\<exists>k1 k2. os_task_tsleep n k = OK (k1, OS_EOK) \<and> dispatch k1 = OK k2 \<and> settled i k2 \<and> sleep_ok k2 \<and>
    tstate k2 c = OS_TASK_STATE_SLEEP \<and> ticks_left k2 c = unat n"
proof -
  note M = m[unfolded may_block_def]
  have s: "settled i k" using M by simp
  note inv = settledD(3)[OF s]
  have r: "has_flag (tstate k c) OS_TASK_STATE_READY" using M settled_ready[OF s] by auto
  let ?k0 = "readyq_sync (k\<lparr>task_lists := list_del (task_lists k) c\<rparr>)"
  let ?k1 = "set_task_state c OS_TASK_STATE_SLEEP (clear_task_state c OS_TASK_STATE_READY ?k0)"
  let ?k2 = "k_kernel_exit_sched (k_tickq_put c n ?k1)"
  have op: "os_task_tsleep n k = OK (?k2, OS_EOK)"
    using M n kinv_remove[OF inv r] by (simp add: os_task_tsleep_def task_context_def os_is_schedule_locked_def)
  have run: "krun i ?k2" using os_task_tsleep_run[OF s, of n] M op by simp
  then obtain k3 where d: "dispatch ?k2 = OK k3" "settled i k3" using dispatch_ok by blast
  have frame: "ticks_left ?k1 t = ticks_left k t" "tickq_bucket ?k1 = tickq_bucket k" for t
    by (simp_all add: ticks_left_def task_state_upd upd_task_def)
  have sl: "t \<noteq> c \<Longrightarrow> asleep ?k1 t \<longleftrightarrow> asleep k t" for t by (simp add: asleep_def task_state_upd upd_task_def)
  have un: "unat n < 2 ^ 31" using n(2) by (simp add: OS_TICK_MAX_def word_less_nat_alt)
  have "sleep_ok (k_tickq_put c n ?k1)" "ticks_left (k_tickq_put c n ?k1) c = unat n"
    by (rule k_tickq_put_sleep; use ok n(1) un kinv_not_asleep[OF inv r] in
        \<open>auto simp: frame sl sleep_ok_def tickq_sorted_def unat_gt_0\<close>)+
  moreover have same: "same_sleep (k_tickq_put c n ?k1) k3"
    by (rule same_sleep_trans[OF same_sleep_exit_if[where b = True, simplified] dispatch_sleep[OF run d(1)]])
  moreover have "tstate k3 c = OS_TASK_STATE_SLEEP"
  proof -
    have t: "tstate ?k2 c = (tstate k c AND NOT OS_TASK_STATE_READY) OR OS_TASK_STATE_SLEEP"
      by (simp add: k_tickq_put_def Let_def task_state_upd upd_task_def)
    have "tstate k c = OS_TASK_STATE_READY OR OS_TASK_STATE_RUNNING"
      using states_okD[OF settledD(4)[OF s], of c] r M by (auto simp: legal_state_cases task_state_defs has_flag_def)
    moreover have nr: "\<not> has_flag (tstate ?k2 c) OS_TASK_STATE_READY" unfolding t by (simp add: flag_simps)
    ultimately show ?thesis
      unfolding dispatch_leaves[OF run d(1) nr] t by (simp add: task_state_defs)
  qed
  ultimately show ?thesis using op d same_sleep_ok[OF same] by auto
qed

text \<open>
  C11. A task that calls \<^verbatim>\<open>os_task_tsleep(n)\<close> is ready again after exactly \<open>n\<close> ticks: the
  call succeeds, all \<open>m\<close> tick interrupts that follow succeed, and the task is in the ready
  queue if and only if \<open>n \<le> m\<close>. The tick counter may wrap around in between.
\<close>

theorem sleep_wakes_on_time:
  assumes "may_block i k c" "sleep_ok k" "0 < n" "n < OS_TICK_MAX div 2"
  shows "\<exists>k1 k2 s' k'. os_task_tsleep n k = OK (k1, OS_EOK) \<and> dispatch k1 = OK k2 \<and>
    run_ticks tt m (s, k2) = OK (s', k') \<and> settled i k' \<and>
    (has_flag (tstate k' c) OS_TASK_STATE_READY \<longleftrightarrow> unat n \<le> m) \<and>
    (in_readyq k' c \<longleftrightarrow> unat n \<le> m)"
proof -
  obtain k1 k2 where 1: "os_task_tsleep n k = OK (k1, OS_EOK)" "dispatch k1 = OK k2" "settled i k2" "sleep_ok k2"
    "tstate k2 c = OS_TASK_STATE_SLEEP" "ticks_left k2 c = unat n"
    using tsleep_ok[OF assms] by blast
  obtain s' k' where 2: "run_ticks tt m (s, k2) = OK (s', k')" "settled i k'"
    "\<forall>t. asleep k' t \<longleftrightarrow> asleep k2 t \<and> m < ticks_left k2 t"
    "\<forall>t. tstate k2 t = OS_TASK_STATE_SLEEP \<longrightarrow>
        tstate k' t = OS_TASK_STATE_SLEEP \<or> has_flag (tstate k' t) OS_TASK_STATE_READY"
    using run_ticks_sleep[OF 1(3,4), of tt m s] by blast
  have "asleep k2 c" using 1(5) by (simp add: asleep_def flag_simps)
  then have a: "asleep k' c \<longleftrightarrow> m < unat n" using 2(3) 1(6) by simp
  have "tstate k' c = OS_TASK_STATE_SLEEP \<or> has_flag (tstate k' c) OS_TASK_STATE_READY" using 2(4) 1(5) by blast
  moreover have "\<not> asleep k' c" if "has_flag (tstate k' c) OS_TASK_STATE_READY"
    using task_wfD(3)[OF kinvD(6)[OF settledD(3)[OF 2(2)]] that] by (simp add: asleep_def)
  moreover have "asleep k' c" if "tstate k' c = OS_TASK_STATE_SLEEP"
    using that by (simp add: asleep_def flag_simps)
  ultimately have "has_flag (tstate k' c) OS_TASK_STATE_READY \<longleftrightarrow> unat n \<le> m" using a by auto
  then show ?thesis using 1(1,2) 2(1,2) kinv_in_readyq[OF settledD(3)[OF 2(2)]] by auto
qed

lemma sample_sleep_ok: "sleep_ok sample" "may_block 3 sample 1"
proof -
  have "asleep sample t \<longleftrightarrow> t = 4" for t
    by (simp add: asleep_def sample_tasks_def sample_tcb_def zero_tcb_def has_flag_def task_state_defs)
  moreover have "ticks_left sample 4 = 7" by (simp add: ticks_left_def sample_tasks_def)
  ultimately show "sleep_ok sample" by (simp add: sleep_ok_def tickq_sorted_def)
qed (simp add: may_block_def sample_settled)

text \<open>The running task of the sample sleeps for three ticks.\<close>

theorem sleep_wakes_on_time_witness:
  "\<exists>k1 k2 s' k'. os_task_tsleep 3 sample = OK (k1, OS_EOK) \<and> dispatch k1 = OK k2 \<and>
    run_ticks gs_os_timer_task 5 (bss_timers, k2) = OK (s', k') \<and> settled 3 k' \<and>
    has_flag (tstate k' 1) OS_TASK_STATE_READY \<and> in_readyq k' 1"
  using sleep_wakes_on_time[OF sample_sleep_ok(2,1), of 3 gs_os_timer_task 5 bss_timers]
  by (simp add: OS_TICK_MAX_def)

subsection \<open>Milliseconds\<close>

text \<open>
  \<^verbatim>\<open>os_tick_from_ms\<close>, which splits off the seconds to avoid an overflow, rounds up to
  whole ticks of ten milliseconds for every 32-bit argument.
\<close>

theorem tick_from_ms_rounds_up: "unat (os_tick_from_ms ms) = (unat ms + 9) div 10"
proof -
  let ?n = "unat ms"
  have n: "?n < 2 ^ 32" using unsigned_less[of ms, where ?'a = nat] by simp
  have m: "unat (ms mod 1000) = ?n mod 1000" and d: "unat (ms div 1000) = ?n div 1000"
    by (simp_all add: unat_mod unat_div)
  have 1: "unat (OS_TICK_PER_SECOND * (ms div 1000)) = 100 * (?n div 1000)"
    using n by (simp add: OS_TICK_PER_SECOND_def unat_word_ariths(2) d)
  have 2: "unat ((OS_TICK_PER_SECOND * (ms mod 1000) + 999) div 1000) = (100 * (?n mod 1000) + 999) div 1000"
    by (simp add: OS_TICK_PER_SECOND_def unat_word_ariths(1,2) m unat_div)
  have "unat (os_tick_from_ms ms) = 100 * (?n div 1000) + (100 * (?n mod 1000) + 999) div 1000"
    using n by (simp add: os_tick_from_ms_def Let_def unat_word_ariths(1) 1 2)
  also have "(100 * (?n mod 1000) + 999) div 1000 = (100 * (?n mod 1000 + 9) + 99) div 100 div 10"
    by (simp add: div_mult2_eq[symmetric] algebra_simps)
  also have "(100 * (?n mod 1000 + 9) + 99) div 100 = ?n mod 1000 + 9" by simp
  also have "100 * (?n div 1000) + (?n mod 1000 + 9) div 10 = (100 * (?n div 1000) * 10 + (?n mod 1000 + 9)) div 10"
    by (subst div_mult_self3) simp_all
  also have "100 * (?n div 1000) * 10 + (?n mod 1000 + 9) = ?n + 9" by simp
  finally show ?thesis .
qed

subsection \<open>The tickless idle loop\<close>

lemma tick_bucket_bound: "tick_bucket a < 8"
proof -
  have "a AND 7 \<le> 7" by (rule word_and_le1)
  then show ?thesis by (simp add: tick_bucket_def TICK_Q_BUCKETS_def word_le_nat_alt)
qed

text \<open>The scan of the buckets returns a lower bound of all deadlines, since every bucket is sorted.\<close>

lemma tickq_next_loop_le:
  assumes heads: "\<And>b t ts. tickq_bucket k b = t # ts \<Longrightarrow> asleep k t" and ok: "sleep_ok k"
  shows "tickq_next_loop bs k m \<le> m \<and> (m \<noteq> 0 \<longrightarrow> tickq_next_loop bs k m \<noteq> 0) \<and>
    (\<forall>b t ts. b \<in> set bs \<longrightarrow> tickq_bucket k b = t # ts \<longrightarrow> unat (tickq_next_loop bs k m) \<le> ticks_left k t)"
proof (induction bs arbitrary: m)
  case Nil
  then show ?case by simp
next
  case (Cons b bs)
  show ?case
  proof (cases "tickq_bucket k b")
    case Nil
    then show ?thesis using Cons.IH[of m] by auto
  next
    case B: (Cons t ts)
    let ?d = "tick_absolute (tasks k t) - os_tick k"
    let ?m = "if ?d < m then ?d else m"
    have a: "asleep k t" by (rule heads[OF B])
    then have left: "0 < ticks_left k t" using ok by (simp add: sleep_ok_def)
    then have pos: "\<not> sint ?d \<le> 0" using due_iff[OF a] ok by (simp add: sleep_ok_def not_le)
    have d: "unat ?d = ticks_left k t" "?d \<noteq> 0" using left by (auto simp: ticks_left_def)
    have IH: "tickq_next_loop bs k ?m \<le> ?m" "?m \<noteq> 0 \<longrightarrow> tickq_next_loop bs k ?m \<noteq> 0"
      "\<And>b t ts. b \<in> set bs \<Longrightarrow> tickq_bucket k b = t # ts \<Longrightarrow> unat (tickq_next_loop bs k ?m) \<le> ticks_left k t"
      using Cons.IH[of ?m] by blast+
    have le: "?m \<le> m" "?m \<le> ?d" by auto
    have "tickq_next_loop bs k ?m \<le> m" "unat (tickq_next_loop bs k ?m) \<le> ticks_left k t"
      using order_trans[OF IH(1) le(1)] order_trans[OF IH(1) le(2)] d by (simp_all add: word_le_nat_alt)
    then show ?thesis using IH(2,3) d(2) pos B by (auto simp: Let_def)
  qed
qed

text \<open>
  C19. The tickless idle loop never sleeps through a deadline: for no more ticks than
  \<^verbatim>\<open>os_tickless_get_sleep_ticks\<close> allows, advancing the clock at once leaves every sleeping
  task at least one tick away from its deadline and the tick queue in order, as if the
  ticks had been counted one by one.
\<close>

theorem tickless_keeps_deadlines:
  assumes "kinv i k" "sleep_ok k" "m \<le> os_tickless_get_sleep_ticks timer_next k"
  shows "sleep_ok (snd (os_tickless_update u m (s, k))) \<and> (\<forall>t. asleep k t \<longrightarrow>
    ticks_left (snd (os_tickless_update u m (s, k))) t + unat m = ticks_left k t \<and> unat m < ticks_left k t)"
proof -
  let ?l = "tickq_next_loop [0..<8] k OS_TICK_MAX"
  have heads: "asleep k t" if "tickq_bucket k b = t # ts" for b t ts
    using bucket_head_asleep[OF assms(1) that] by (simp add: asleep_def)
  have L: "?l \<noteq> 0" "\<And>b t ts. b < 8 \<Longrightarrow> tickq_bucket k b = t # ts \<Longrightarrow> unat ?l \<le> ticks_left k t"
    using tickq_next_loop_le[of k "[0..<8]" OS_TICK_MAX] heads assms(2) by (auto simp: OS_TICK_MAX_def)
  have first: "unat ?l \<le> ticks_left k t" if a: "asleep k t" for t
  proof -
    let ?b = "tick_bucket (tick_absolute (tasks k t))"
    have t: "t \<in> set (tickq_bucket k ?b)" using a bucket_asleep[OF assms(1)] by simp
    then obtain h ts where h: "tickq_bucket k ?b = h # ts" by (cases "tickq_bucket k ?b") auto
    have "sorted_wrt (\<lambda>t u. ticks_left k t \<le> ticks_left k u) (h # ts)"
      using assms(2) unfolding sleep_ok_def tickq_sorted_def by (metis h)
    then have "ticks_left k h \<le> ticks_left k t" using t h by auto
    then show ?thesis using L(2)[OF tick_bucket_bound h] by simp
  qed
  have m: "unat m < ticks_left k t" if a: "asleep k t" for t
  proof -
    have "unat ?l < 2 ^ 31" using first[OF a] assms(2) a by (auto simp: sleep_ok_def tickq_sorted_def dest: le_less_trans)
    then have "?l \<noteq> OS_TICK_MAX" by (auto simp: OS_TICK_MAX_def)
    then have "m \<le> ?l - 1"
      using assms(3) L(1) by (auto simp: os_tickless_get_sleep_ticks_def k_tickq_get_next_ticks_def TICK_Q_BUCKETS_def
          Let_def split: if_splits)
    then have "unat m \<le> unat ?l - 1" using L(1) by (simp add: word_le_nat_alt unat_dec word_gt_0)
    moreover have "0 < unat ?l" using L(1) by (simp add: unat_gt_0)
    ultimately show ?thesis using first[OF a] by linarith
  qed
  let ?k = "k_tick_update m k"
  have sub: "ticks_left ?k t + unat m = ticks_left k t" if "asleep k t" for t
    using m[OF that] unat_sub[of m "tick_absolute (tasks k t) - os_tick k"]
    by (simp add: ticks_left_def k_tick_update_def word_le_nat_alt diff_diff_eq)
  have "sorted_wrt (\<lambda>t u. ticks_left ?k t \<le> ticks_left ?k u) (tickq_bucket k b)" for b
  proof (rule sorted_wrt_mono_rel)
    show "sorted_wrt (\<lambda>t u. ticks_left k t \<le> ticks_left k u) (tickq_bucket k b)"
      using assms(2) by (simp add: sleep_ok_def tickq_sorted_def)
    fix t v assume *: "t \<in> set (tickq_bucket k b)" "v \<in> set (tickq_bucket k b)" "ticks_left k t \<le> ticks_left k v"
    then show "ticks_left ?k t \<le> ticks_left ?k v"
      using sub[of t] sub[of v] by (simp add: bucket_asleep[OF assms(1)])
  qed
  moreover have "0 < ticks_left ?k t \<and> ticks_left ?k t < 2 ^ 31" if "asleep k t" for t
    using sub[OF that] m[OF that] assms(2) that by (fastforce simp: sleep_ok_def tickq_sorted_def)
  ultimately have "sleep_ok ?k" by (simp add: sleep_ok_def tickq_sorted_def asleep_def k_tick_update_def)
  then show ?thesis using sub m by (simp add: os_tickless_update_def)
qed

theorem tickless_keeps_deadlines_witness:
  "sleep_ok (snd (os_tickless_update (\<lambda>s. s) 6 (bss_timers, sample))) \<and>
   ticks_left (snd (os_tickless_update (\<lambda>s. s) 6 (bss_timers, sample))) 4 = 1"
proof -
  have "6 \<le> os_tickless_get_sleep_ticks OS_TICK_MAX sample"
    by (simp add: os_tickless_get_sleep_ticks_def k_tickq_get_next_ticks_def TICK_Q_BUCKETS_def upt_rec
        sample_tasks_def Let_def OS_TICK_MAX_def)
  moreover have "asleep sample 4" "ticks_left sample 4 = 7"
    by (simp_all add: asleep_def ticks_left_def sample_tasks_def sample_tcb_def has_flag_def task_state_defs)
  ultimately show ?thesis
    using tickless_keeps_deadlines[OF sample_kinv sample_sleep_ok(1), of 6 OS_TICK_MAX "\<lambda>s. s" bss_timers] by force
qed

subsection \<open>Taking turns\<close>

text \<open>Task context with the scheduler unlocked: what a call that may switch asks for.\<close>

definition in_task :: "kernel \<Rightarrow> bool" where
  "in_task k \<longleftrightarrow> \<not> irq_active k \<and> \<not> irq_disabled k \<and> sched_lock_cnt k = 0"

definition yield_turn :: "kernel \<Rightarrow> kernel res" where
  "yield_turn k = bind_res (os_task_yield k) (\<lambda>(k1, _). dispatch k1)"

fun yields :: "nat \<Rightarrow> kernel \<Rightarrow> kernel res" where
  "yields 0 k = OK k"
| "yields (Suc n) k = bind_res (yield_turn k) (yields n)"

lemma dispatch_frame:
  assumes "krun i k" "dispatch k = OK k'"
  shows "in_task k' \<longleftrightarrow> in_task k" "prio k' t = prio k t" "task_lists k' = task_lists k"
    "sched_lock_cnt k = 0 \<Longrightarrow> current_task k' = best_ready (task_lists k)"
proof -
  obtain k2 where 2: "dispatch k = OK k2" "settled i k2" "task_lists k2 = task_lists k"
    "sched_lock_cnt k2 = sched_lock_cnt k" "\<forall>t. tasks k2 t = (tasks k t)\<lparr>state := tstate k2 t\<rparr>"
    using dispatch_ok[OF assms(1)] by blast
  then have k': "k2 = k'" using assms(2) by simp
  show "task_lists k' = task_lists k" "sched_lock_cnt k = 0 \<Longrightarrow> current_task k' = best_ready (task_lists k)"
    using 2(2,3,4) kinv_high[OF settledD(3)[OF 2(2)]] unfolding k' by (simp_all add: settled_def krun_def)
  show "prio k' t = prio k t" by (rule dispatch_wait_frame(2)[OF assms])
  show "in_task k' \<longleftrightarrow> in_task k"
    using assms(2) 2(4) k' by (auto simp: dispatch_def PendSV_Handler_def Let_def in_task_def task_state_upd
        split: if_splits option.splits)
qed

lemma list_shared_head:
  assumes "readyq_ok k" "high_task k = Some c"
  shows "list_shared (task_lists k) c \<longleftrightarrow> tl (task_lists k (RQ (unat (prio k c)))) \<noteq> []"
proof -
  let ?p = "unat (prio k c)"
  have L: "task_lists k (RQ ?p) \<noteq> []" "hd (task_lists k (RQ ?p)) = c" using high_task_priority[OF assms] by blast+
  then have c: "c \<in> set (task_lists k (RQ ?p))" by (metis hd_in_set)
  have p: "?p < 32" using readyq_ok_priority_bound[OF assms(1) L(1)] .
  have "c \<in> set (task_lists k (RQ q)) \<longleftrightarrow> q = ?p" for q using c readyq_okD(3)[OF assms(1), of c q] by blast
  then have "list_shared (task_lists k) c \<longleftrightarrow> 2 \<le> length (task_lists k (RQ ?p))"
    using p by (simp add: list_shared_def)
  also have "\<dots> \<longleftrightarrow> tl (task_lists k (RQ ?p)) \<noteq> []"
    using L(1) by (cases "task_lists k (RQ ?p)") (auto simp: Suc_le_eq)
  finally show ?thesis .
qed

lemma yield_turn_rotates:
  assumes s: "settled i k" and t: "in_task k" and L: "best_ready (task_lists k) = Some c"
  defines "p \<equiv> unat (prio k c)"
  shows "\<exists>k'. yield_turn k = OK k' \<and> settled i k' \<and> in_task k' \<and> (\<forall>u. prio k' u = prio k u) \<and>
    task_lists k' = (task_lists k)(RQ p := rotate1 (task_lists k (RQ p))) \<and>
    current_task k' = best_ready (task_lists k')"
proof -
  note inv = settledD(3)[OF s]
  note ok = kinv_readyq_ok[OF inv]
  have h: "high_task k = Some c" using kinv_high[OF inv] L by simp
  have cur: "current_task k = Some c" using s h t by (simp add: settled_def krun_def in_task_def)
  have r: "in_readyq k c" using kinv_in_readyq[OF inv] settled_ready[OF s cur] by simp
  have hd: "task_lists k (RQ p) \<noteq> []" "hd (task_lists k (RQ p)) = c" using high_task_priority[OF ok h] by (simp_all add: p_def)
  have rot: "list_add_tail (list_del (task_lists k) c) (RQ p) c = (task_lists k)(RQ p := rotate1 (task_lists k (RQ p)))"
  proof
    fix g show "list_add_tail (list_del (task_lists k) c) (RQ p) c g = ((task_lists k)(RQ p := rotate1 (task_lists k (RQ p)))) g"
    proof (cases "g = RQ p")
      case True
      then show ?thesis using hd kinvD(2)[OF inv, of "RQ p"]
        by (cases "task_lists k (RQ p)") (auto simp: klist_simps)
    next
      case False
      then have "c \<notin> set (task_lists k g)" using kinvD(4)[OF inv, of c] r by (auto simp: in_readyq_def p_def)
      with False show ?thesis by (simp add: klist_simps)
    qed
  qed
  have ctx: "task_context k m = m" for m :: "(kernel \<times> os_err) res"
    using t by (simp add: task_context_def in_task_def os_is_schedule_locked_def)
  show ?thesis
  proof (cases "list_shared (task_lists k) c")
    case True
    let ?k = "readyq_sync (k\<lparr>task_lists := (task_lists k)(RQ p := rotate1 (task_lists k (RQ p)))\<rparr>)"
    have op: "os_task_yield k = OK (k_kernel_exit_sched ?k, OS_EOK)"
      using True k_readyq_move_tail_refines[OF ok r] rot by (simp add: os_task_yield_def ctx cur p_def)
    then have run: "krun i (k_kernel_exit_sched ?k)" using os_task_yield_run[OF s] by simp
    obtain k' where d: "dispatch (k_kernel_exit_sched ?k) = OK k'" "settled i k'" using dispatch_ok[OF run] by blast
    have "in_task (k_kernel_exit_sched ?k)"
      using t by (simp add: in_task_def k_kernel_exit_sched_def os_task_switch_def Let_def)
    then show ?thesis
      using d op dispatch_frame[OF run d(1)] by (auto simp: yield_turn_def in_task_def)
  next
    case False
    then have "tl (task_lists k (RQ p)) = []" using list_shared_head[OF ok h] by (simp add: p_def)
    then have "rotate1 (task_lists k (RQ p)) = task_lists k (RQ p)" by (cases "task_lists k (RQ p)") auto
    moreover have "yield_turn k = OK k"
      using False settledD(5)[OF s] by (simp add: yield_turn_def os_task_yield_def ctx cur dispatch_def)
    ultimately show ?thesis using s t cur L by simp
  qed
qed

lemma best_rotated:
  assumes ok: "readyq_ok k" and L: "best_ready (task_lists k) = Some c"
  defines "p \<equiv> unat (prio k c)"
  shows "best_ready ((task_lists k)(RQ p := rotate1 (task_lists k (RQ p)))) = Some (hd (rotate1 (task_lists k (RQ p))))"
    "hd (rotate1 (task_lists k (RQ p))) \<in> set (task_lists k (RQ p))"
proof -
  have h: "high_task k = Some c" using L readyq_okD(4)[OF ok] by simp
  have ne: "task_lists k (RQ p) \<noteq> []" using high_task_priority(2)[OF ok h] by (simp add: p_def)
  show "best_ready ((task_lists k)(RQ p := rotate1 (task_lists k (RQ p)))) = Some (hd (rotate1 (task_lists k (RQ p))))"
    by (rule best_readyI[of p])
       (use ne readyq_ok_priority_bound[OF ok ne] high_task_priority(3)[OF ok h] in \<open>auto simp: p_def\<close>)
  show "hd (rotate1 (task_lists k (RQ p))) \<in> set (task_lists k (RQ p))"
    using ne hd_in_set[of "rotate1 (task_lists k (RQ p))"] by simp
qed

lemma yields_rotate:
  "settled i k \<Longrightarrow> in_task k \<Longrightarrow> best_ready (task_lists k) = Some c \<Longrightarrow>
   \<exists>k'. yields n k = OK k' \<and> settled i k' \<and>
     current_task k' = Some (hd (rotate n (task_lists k (RQ (unat (prio k c))))))"
proof (induction n arbitrary: k c)
  case 0
  have "high_task k = Some c" using 0(3) kinv_high[OF settledD(3)[OF 0(1)]] by simp
  then show ?case using 0(1,2) high_task_priority(1)[OF kinv_readyq_ok[OF settledD(3)[OF 0(1)]]]
    by (simp add: settled_def krun_def in_task_def)
next
  case (Suc n)
  note ok = kinv_readyq_ok[OF settledD(3)[OF Suc.prems(1)]]
  let ?q = "unat (prio k c)"
  let ?c = "hd (rotate1 (task_lists k (RQ ?q)))"
  obtain k2 where 2: "yield_turn k = OK k2" "settled i k2" "in_task k2" "\<forall>u. prio k2 u = prio k u"
    "task_lists k2 = (task_lists k)(RQ ?q := rotate1 (task_lists k (RQ ?q)))"
    using yield_turn_rotates[OF Suc.prems] by blast
  note B = best_rotated[OF ok Suc.prems(3)]
  have b: "best_ready (task_lists k2) = Some ?c" unfolding 2(5) by (rule B(1))
  have q: "unat (prio k2 ?c) = ?q" using readyq_okD(3)[OF ok B(2)] 2(4) by simp
  from Suc.IH[OF 2(2,3) b] show ?case unfolding q using 2(1,5) by (simp add: rotate1_rotate_swap)
qed

text \<open>
  C18. Equals share the processor in turn: when each running task yields, the tasks of the
  best priority run one after the other in the order of their list, over and over; after
  \<open>n\<close> yields it is the turn of the task at position \<open>n\<close> modulo the length of the list.
\<close>

theorem yield_round_robin:
  assumes "settled i k" "in_task k" "current_task k = Some c"
  shows "\<exists>k'. yields n k = OK k' \<and> settled i k' \<and>
    current_task k' = Some (task_lists k (RQ (unat (prio k c))) !
      (n mod length (task_lists k (RQ (unat (prio k c))))))"
proof -
  let ?p = "unat (prio k c)" and ?L = "task_lists k (RQ (unat (prio k c)))"
  have best: "best_ready (task_lists k) = Some c"
    using assms kinv_high[OF settledD(3)[OF assms(1)]] by (simp add: settled_def krun_def in_task_def)
  have "?L \<noteq> []"
    using high_task_priority(2)[OF kinv_readyq_ok[OF settledD(3)[OF assms(1)]]] best kinv_high[OF settledD(3)[OF assms(1)]] by simp
  then have "hd (rotate n ?L) = ?L ! (n mod length ?L)" by (rule hd_rotate_conv_nth)
  then show ?thesis using yields_rotate[OF assms(1,2) best, of n] by auto
qed

theorem yield_round_robin_witness:
  "\<exists>k'. yields 5 sample = OK k' \<and> settled 3 k' \<and> current_task k' = Some 2"
  using yield_round_robin[OF sample_settled, of 1 5]
  by (simp add: in_task_def sample_lists_def sample_tasks_def sample_tcb_def flip: numeral_2_eq_2)

end
