(* ===== verification/Os_Sem.thy ===== *)
theory Os_Sem
  imports Kernel_Wait
begin

text \<open>
  \<^verbatim>\<open>oneos/kernel/source/os_sem.c\<close>: counting semaphores. A semaphore is named by its address,
  which is also the name of its wait list. A wait that blocks is split in the call, which
  gives up the processor, and the value \<^const>\<open>wait_result\<close> it returns when the task runs again.
\<close>

record os_sem =
  sem_count :: u32
  sem_max_count :: u32
  sem_object_inited :: u8
  sem_object_alloc_type :: u8
  sem_wake_type :: u8
  sem_name :: string

record sem_sys =
  sems :: "nat \<Rightarrow> os_sem"
  sem_resource_list :: "nat list"

definition upd_sem :: "nat \<Rightarrow> (os_sem \<Rightarrow> os_sem) \<Rightarrow> sem_sys \<Rightarrow> sem_sys" where
  "upd_sem a f s = s\<lparr>sems := (sems s)(a := f (sems s a))\<rparr>"

subsection \<open>Life cycle\<close>

definition k_sem_init :: "nat \<Rightarrow> u32 \<Rightarrow> u32 \<Rightarrow> string option \<Rightarrow> sem_sys \<times> kernel \<Rightarrow> sem_sys \<times> kernel" where
  "k_sem_init a val max_value nm = (\<lambda>(s, k).
     (upd_sem a (\<lambda>x. x\<lparr>sem_count := val, sem_max_count := max_value, sem_wake_type := WAKE_TYPE_PRIO,
        sem_name := (case nm of None \<Rightarrow> '''' | Some n \<Rightarrow> take OS_NAME_MAX n)\<rparr>) s,
      k\<lparr>task_lists := (task_lists k)(WQ a := [])\<rparr>))"

definition os_sem_init ::
  "nat \<Rightarrow> string option \<Rightarrow> u32 \<Rightarrow> u32 \<Rightarrow> sem_sys \<times> kernel \<Rightarrow> ((sem_sys \<times> kernel) \<times> os_err) res" where
  "os_sem_init a nm val max_value = (\<lambda>(s, k).
     os_assert (val \<le> max_value) (os_assert (0 < max_value) (os_assert (\<not> irq_active k)
       (if a \<in> set (sem_resource_list s) then OK ((s, k), OS_EINVAL)
        else let (s1, k1) = k_sem_init a val max_value nm (s\<lparr>sem_resource_list := sem_resource_list s @ [a]\<rparr>, k)
             in OK ((upd_sem a (\<lambda>x. x\<lparr>sem_object_alloc_type := OS_KOBJ_ALLOC_TYPE_STATIC,
                      sem_object_inited := OS_KOBJ_INITED\<rparr>) s1, k1), OS_EOK)))))"

text \<open>Both destructors cancel the waiting tasks and leave the resource list.\<close>

definition sem_dispose :: "nat \<Rightarrow> sem_sys \<times> kernel \<Rightarrow> ((sem_sys \<times> kernel) \<times> os_err) res" where
  "sem_dispose a = (\<lambda>(s, k).
     bind_res (k_cancle_all_blocked_task a k) (\<lambda>k1.
       let s1 = upd_sem a (\<lambda>x. x\<lparr>sem_object_inited := OS_KOBJ_DEINITED\<rparr>) s
       in OK ((s1\<lparr>sem_resource_list := removeAll a (sem_resource_list s1)\<rparr>, k_kernel_exit_sched k1), OS_EOK)))"

definition os_sem_deinit :: "nat \<Rightarrow> sem_sys \<times> kernel \<Rightarrow> ((sem_sys \<times> kernel) \<times> os_err) res" where
  "os_sem_deinit a = (\<lambda>(s, k).
     os_assert (sem_object_inited (sems s a) = OS_KOBJ_INITED)
     (os_assert (sem_object_alloc_type (sems s a) = OS_KOBJ_ALLOC_TYPE_STATIC)
     (os_assert (\<not> irq_active k) (sem_dispose a (s, k)))))"

definition os_sem_create ::
  "string option \<Rightarrow> u32 \<Rightarrow> u32 \<Rightarrow> nat option \<Rightarrow> sem_sys \<times> kernel \<Rightarrow> ((sem_sys \<times> kernel) \<times> nat option) res" where
  "os_sem_create nm val max_value mem = (\<lambda>(s, k).
     os_assert (val \<le> max_value) (os_assert (0 < max_value) (task_context k
       (case mem of None \<Rightarrow> OK ((s, k), None)
        | Some a \<Rightarrow>
           let (s1, k1) = k_sem_init a val max_value nm (s\<lparr>sem_resource_list := sem_resource_list s @ [a]\<rparr>, k)
           in OK ((upd_sem a (\<lambda>x. x\<lparr>sem_object_alloc_type := OS_KOBJ_ALLOC_TYPE_DYNAMIC,
                    sem_object_inited := OS_KOBJ_INITED\<rparr>) s1, k1), Some a)))))"

definition os_sem_destroy :: "nat \<Rightarrow> sem_sys \<times> kernel \<Rightarrow> ((sem_sys \<times> kernel) \<times> os_err) res" where
  "os_sem_destroy a = (\<lambda>(s, k).
     os_assert (sem_object_inited (sems s a) = OS_KOBJ_INITED)
     (os_assert (sem_object_alloc_type (sems s a) = OS_KOBJ_ALLOC_TYPE_DYNAMIC)
     (task_context k (sem_dispose a (s, k)))))"

subsection \<open>Waiting and posting\<close>

definition os_sem_wait :: "nat \<Rightarrow> u32 \<Rightarrow> sem_sys \<times> kernel \<Rightarrow> ((sem_sys \<times> kernel) \<times> os_err outcome) res" where
  "os_sem_wait a timeout = (\<lambda>(s, k).
     os_assert (sem_object_inited (sems s a) = OS_KOBJ_INITED) (wait_context timeout k
       (if 0 < sem_count (sems s a) then
          OK ((upd_sem a (\<lambda>x. x\<lparr>sem_count := sem_count x - 1\<rparr>) s, k), Returns OS_EOK)
        else if timeout = OS_NO_WAIT then OK ((s, k), Returns OS_EBUSY)
        else bind_res (block_current a timeout (sem_wake_type (sems s a) = WAKE_TYPE_PRIO) k)
               (\<lambda>k1. OK ((s, k1), Blocks)))))"

definition os_sem_post :: "nat \<Rightarrow> sem_sys \<times> kernel \<Rightarrow> ((sem_sys \<times> kernel) \<times> os_err) res" where
  "os_sem_post a = (\<lambda>(s, k).
     os_assert (sem_object_inited (sems s a) = OS_KOBJ_INITED)
       (case task_lists k (WQ a) of
          [] \<Rightarrow> if sem_count (sems s a) < sem_max_count (sems s a)
                then OK ((upd_sem a (\<lambda>x. x\<lparr>sem_count := sem_count x + 1\<rparr>) s, k), OS_EOK)
                else OK ((s, k), OS_EFULL)
        | t # _ \<Rightarrow> bind_res (wake_task t k) (\<lambda>k1. OK ((s, k1), OS_EOK))))"

definition os_sem_set_wake_type :: "nat \<Rightarrow> u8 \<Rightarrow> sem_sys \<times> kernel \<Rightarrow> ((sem_sys \<times> kernel) \<times> os_err) res" where
  "os_sem_set_wake_type a wt = (\<lambda>(s, k).
     os_assert (wt = WAKE_TYPE_PRIO \<or> wt = WAKE_TYPE_FIFO)
       (if task_lists k (WQ a) = [] then OK ((upd_sem a (\<lambda>x. x\<lparr>sem_wake_type := wt\<rparr>) s, k), OS_EOK)
        else OK ((s, k), OS_EBUSY)))"

definition os_sem_get_count :: "nat \<Rightarrow> sem_sys \<Rightarrow> u32" where
  "os_sem_get_count a s = sem_count (sems s a)"

subsection \<open>Invariant\<close>

text \<open>
  A live semaphore never exceeds its maximum, has no token left while a task waits, and
  keeps its waiters in priority order unless it was switched to first-come first-served.
\<close>

definition sem_ok :: "os_sem \<Rightarrow> nat \<Rightarrow> kernel \<Rightarrow> bool" where
  "sem_ok x a k \<longleftrightarrow> sem_count x \<le> sem_max_count x \<and> 0 < sem_max_count x \<and>
     (task_lists k (WQ a) \<noteq> [] \<longrightarrow> sem_count x = 0) \<and>
     (sem_wake_type x = WAKE_TYPE_PRIO \<longrightarrow> prio_sorted k a)"

definition sem_inv :: "sem_sys \<Rightarrow> kernel \<Rightarrow> bool" where
  "sem_inv s k \<longleftrightarrow> (\<forall>a. sem_object_inited (sems s a) = OS_KOBJ_INITED \<longrightarrow> sem_ok (sems s a) a k)"

lemma sem_okD:
  assumes "sem_inv s k" "sem_object_inited (sems s a) = OS_KOBJ_INITED"
  shows "sem_ok (sems s a) a k"
  using assms by (simp add: sem_inv_def)

lemma sem_ok_frame:
  "sem_ok x a k \<Longrightarrow> task_lists k' (WQ a) = task_lists k (WQ a) \<Longrightarrow> (\<And>t. prio k' t = prio k t) \<Longrightarrow> sem_ok x a k'"
  by (simp add: sem_ok_def prio_sorted_def)

lemma sem_invI:
  assumes "sem_inv s k" "\<And>b. b \<noteq> a \<Longrightarrow> sems s' b = sems s b"
    and "\<And>b. b \<noteq> a \<Longrightarrow> task_lists k' (WQ b) = task_lists k (WQ b)" "\<And>t. prio k' t = prio k t"
    and "sem_object_inited (sems s' a) = OS_KOBJ_INITED \<Longrightarrow> sem_ok (sems s' a) a k'"
  shows "sem_inv s' k'"
  unfolding sem_inv_def
proof (intro allI impI)
  fix b assume b: "sem_object_inited (sems s' b) = OS_KOBJ_INITED"
  show "sem_ok (sems s' b) b k'"
  proof (cases "b = a")
    case False
    then show ?thesis using assms(1-4) b sem_ok_frame[of "sems s b" b k k'] by (simp add: sem_inv_def)
  qed (use assms(5) b in simp)
qed

lemma upd_sem_apply [simp]: "sems (upd_sem a f s) b = (if b = a then f (sems s a) else sems s b)"
  by (simp add: upd_sem_def)

subsection \<open>Every call keeps the invariants\<close>

lemma sem_created:
  assumes "krun i k" "sem_inv s k" "task_lists k (WQ a) = []" "val \<le> max_value" "0 < max_value"
    and "sems s' a = x" "sem_count x = val" "sem_max_count x = max_value"
    and "\<And>b. b \<noteq> a \<Longrightarrow> sems s' b = sems s b"
  shows "sem_inv s' k"
  by (rule sem_invI[OF assms(2), of a]) (use assms in \<open>auto simp: sem_ok_def prio_sorted_def\<close>)

lemma os_sem_init_safe:
  assumes "settled i k" "sem_inv s k" "task_lists k (WQ a) = []"
  shows "svc_safe sem_inv i (os_sem_init a nm val max_value (s, k))"
  unfolding os_sem_init_def k_sem_init_def Let_def
  using settledD(1)[OF assms(1)] assms(2,3) empty_list_upd[OF assms(3)]
  by (auto intro!: sem_created[OF settledD(1)[OF assms(1)] assms(2,3)] simp: upd_sem_def)

lemma os_sem_create_safe:
  assumes s: "settled i k" and inv: "sem_inv s k" and mem: "\<And>a. mem = Some a \<Longrightarrow> task_lists k (WQ a) = []"
  shows "svc_safe sem_inv i (os_sem_create nm val max_value mem (s, k))"
proof (cases mem)
  case None
  then show ?thesis
    unfolding os_sem_create_def task_context_def using settledD(1)[OF s] inv by auto
next
  case (Some a)
  show ?thesis
    unfolding os_sem_create_def k_sem_init_def Let_def task_context_def Some
    using settledD(1)[OF s] empty_list_upd[OF mem[OF Some]]
    by (auto intro!: sem_created[OF settledD(1)[OF s] inv mem[OF Some]] simp: upd_sem_def)
qed

lemma sem_dispose_safe:
  assumes s: "settled i k" and inv: "sem_inv s k"
  shows "svc_safe sem_inv i (sem_dispose a (s, k))"
proof -
  obtain k' where k': "k_cancle_all_blocked_task a k = OK k'" "krun i (k_kernel_exit_sched k')"
    "\<And>v. v \<noteq> a \<Longrightarrow> task_lists k' (WQ v) = task_lists k (WQ v)"
    "tasks k' = (\<lambda>t. if t \<in> set (task_lists k (WQ a)) then cancelled_tcb (tasks k t) else tasks k t)"
    using cancel_run[OF s, of a] by blast
  have "sem_inv ((upd_sem a (\<lambda>x. x\<lparr>sem_object_inited := OS_KOBJ_DEINITED\<rparr>) s)\<lparr>sem_resource_list := r\<rparr>)
      (k_kernel_exit_sched k')" for r
    by (rule sem_invI[OF inv, of a])
       (use k' in \<open>auto simp: upd_sem_def cancelled_tcb_def OS_KOBJ_INITED_def OS_KOBJ_DEINITED_def\<close>)
  then show ?thesis using k' by (simp add: sem_dispose_def Let_def)
qed

lemma os_sem_wait_safe:
  assumes s: "settled i k" and inv: "sem_inv s k" and c: "current_task k \<noteq> Some i"
  shows "svc_safe sem_inv i (os_sem_wait a timeout (s, k))"
proof -
  obtain c where c': "current_task k = Some c" "c \<noteq> i" using settledD(6)[OF s] c by auto
  let ?wp = "sem_wake_type (sems s a) = WAKE_TYPE_PRIO"
  note r = settled_ready[OF s c'(1)]
  have blocked: "svc_safe sem_inv i (bind_res (block_current a timeout ?wp k) (\<lambda>k1. OK ((s, k1), Blocks)))"
    if live: "sem_object_inited (sems s a) = OS_KOBJ_INITED" and "\<not> os_is_schedule_locked k" and none: "\<not> 0 < sem_count (sems s a)"
  proof -
    have zero: "sem_count (sems s a) = 0" using none by (simp add: word_gt_0)
    have free: "sched_lock_cnt k = 0" using that(2) by (simp add: os_is_schedule_locked_def)
    obtain k1 where k1: "block_current a timeout ?wp k = OK k1" "krun i k1" "task_lists k1 = wait_insert (WQ a) c ?wp k"
      "tasks k1 = (tasks k)(c := blocked_tcb (WQ a) timeout ?wp (os_tick k) (tasks k c))"
      using block_current_run[OF s c' free, of a timeout ?wp] by blast
    have p: "prio k1 t = prio k t" for t by (simp add: k1)
    have "sem_inv s k1"
    proof (rule sem_invI[OF inv, of a])
      show "task_lists k1 (WQ b) = task_lists k (WQ b)" if "b \<noteq> a" for b
        using that ready_not_waiting[OF settledD(3)[OF s] r] by (simp add: k1 wait_insert_other)
      show "sem_ok (sems s a) a k1"
        using sem_okD[OF inv live] zero prio_sorted_wait_insert[OF settledD(3)[OF s] r, of a k1] k1(3) p
        by (auto simp: sem_ok_def)
    qed (use p in auto)
    then show ?thesis using k1 by simp
  qed
  have taken: "sem_inv (upd_sem a (\<lambda>x. x\<lparr>sem_count := sem_count x - 1\<rparr>) s) k"
    if "sem_object_inited (sems s a) = OS_KOBJ_INITED" "0 < sem_count (sems s a)"
    by (rule sem_invI[OF inv, of a])
       (use sem_okD[OF inv that(1)] that(2) in \<open>auto simp: sem_ok_def intro: word_dec_le\<close>)
  show ?thesis
    unfolding os_sem_wait_def wait_context_def
    using settledD(1)[OF s] inv taken blocked by auto
qed

lemma os_sem_post_safe:
  assumes s: "settled i k" and inv: "sem_inv s k"
  shows "svc_safe sem_inv i (os_sem_post a (s, k))"
proof -
  have given: "sem_inv (upd_sem a (\<lambda>x. x\<lparr>sem_count := sem_count x + 1\<rparr>) s) k"
    if "sem_object_inited (sems s a) = OS_KOBJ_INITED" "sem_count (sems s a) < sem_max_count (sems s a)"
      "task_lists k (WQ a) = []"
    by (rule sem_invI[OF inv, of a]) (use sem_okD[OF inv that(1)] that(2,3) in \<open>auto simp: sem_ok_def intro: inc_le\<close>)
  have woken: "svc_safe sem_inv i (bind_res (wake_task t k) (\<lambda>k1. OK ((s, k1), OS_EOK)))"
    if live: "sem_object_inited (sems s a) = OS_KOBJ_INITED" and q: "task_lists k (WQ a) = t # ts" for t ts
  proof -
    have t: "t \<in> set (task_lists k (WQ a))" using q by simp
    obtain k1 where k1: "wake_task t k = OK k1" "krun i k1" "tasks k1 = tasks (unblocked t k)"
      "\<And>v. task_lists k1 (WQ v) = removeAll t (task_lists k (WQ v))"
      using wake_task_run[OF s t] by blast
    have "sem_inv s k1"
    proof (rule sem_invI[OF inv, of a])
      show "task_lists k1 (WQ b) = task_lists k (WQ b)" if "b \<noteq> a" for b
        using waiting_elsewhere[OF settledD(3)[OF s] t that] by (simp add: k1)
      show p: "prio k1 u = prio k u" for u by (simp add: k1)
      show "sem_ok (sems s a) a k1"
        using sem_okD[OF inv live] q by (auto simp: sem_ok_def prio_sorted_def p k1(4) intro: sorted_wrt_removeAll)
    qed auto
    then show ?thesis using k1 by simp
  qed
  show ?thesis
    unfolding os_sem_post_def
    using settledD(1)[OF s] inv given woken by (auto split: list.split)
qed

lemma os_sem_set_wake_type_safe:
  assumes s: "settled i k" and inv: "sem_inv s k"
  shows "svc_safe sem_inv i (os_sem_set_wake_type a wt (s, k))"
proof -
  have "sem_inv (upd_sem a (\<lambda>x. x\<lparr>sem_wake_type := wt\<rparr>) s) k" if "task_lists k (WQ a) = []"
    by (rule sem_invI[OF inv, of a]) (use inv that in \<open>auto simp: sem_inv_def sem_ok_def prio_sorted_def\<close>)
  then show ?thesis unfolding os_sem_set_wake_type_def using settledD(1)[OF s] inv by auto
qed

subsection \<open>The semaphores as a service\<close>

datatype sem_call = Sem_init nat "string option" u32 u32 | Sem_create "string option" u32 u32 "nat option"
  | Sem_deinit nat | Sem_destroy nat | Sem_wait nat u32 | Sem_post nat | Sem_set_wake_type nat u8

definition sem_service :: "(sem_sys, sem_call, os_err outcome) service" where
  "sem_service x sk = (case x of
     Sem_init a nm v mx \<Rightarrow> returns (os_sem_init a nm v mx sk)
   | Sem_create nm v mx mem \<Rightarrow>
       bind_res (os_sem_create nm v mx mem sk) (\<lambda>(sk1, a). OK (sk1, Returns (if a = None then OS_ENOMEM else OS_EOK)))
   | Sem_deinit a \<Rightarrow> returns (os_sem_deinit a sk)
   | Sem_destroy a \<Rightarrow> returns (os_sem_destroy a sk)
   | Sem_wait a timeout \<Rightarrow> os_sem_wait a timeout sk
   | Sem_post a \<Rightarrow> returns (os_sem_post a sk)
   | Sem_set_wake_type a wt \<Rightarrow> returns (os_sem_set_wake_type a wt sk))"

text \<open>The idle task never waits, and a new semaphore does not take over a wait list in use.\<close>

definition sem_allowed :: "tid \<Rightarrow> sem_call \<Rightarrow> sem_sys \<Rightarrow> kernel \<Rightarrow> bool" where
  "sem_allowed i x s k = (case x of
     Sem_init a nm v mx \<Rightarrow> task_lists k (WQ a) = []
   | Sem_create nm v mx mem \<Rightarrow> (case mem of None \<Rightarrow> True | Some a \<Rightarrow> task_lists k (WQ a) = [])
   | Sem_wait a timeout \<Rightarrow> current_task k \<noteq> Some i
   | _ \<Rightarrow> True)"

lemma sem_service_safe:
  assumes s: "settled i k" and inv: "sem_inv s k" and a: "sem_allowed i x s k"
  shows "svc_safe sem_inv i (sem_service x (s, k))"
proof (cases x)
  case (Sem_deinit a)
  then show ?thesis
    using sem_dispose_safe[OF s inv] by (auto simp: sem_service_def os_sem_deinit_def intro!: svc_safe_returns)
next
  case (Sem_destroy a)
  then show ?thesis
    using sem_dispose_safe[OF s inv]
    by (auto simp: sem_service_def os_sem_destroy_def task_context_def intro!: svc_safe_returns)
next
  case (Sem_create nm v mx mem)
  then show ?thesis
    using a by (auto simp: sem_service_def sem_allowed_def intro!: svc_safe_bind os_sem_create_safe[OF s inv])
next
  case (Sem_init a nm v mx)
  then show ?thesis
    using a by (auto simp: sem_service_def sem_allowed_def intro!: svc_safe_returns os_sem_init_safe[OF s inv])
next
  case (Sem_wait a timeout)
  then show ?thesis using a os_sem_wait_safe[OF s inv] by (simp add: sem_service_def sem_allowed_def)
qed (auto simp: sem_service_def intro!: svc_safe_returns os_sem_post_safe[OF s inv] os_sem_set_wake_type_safe[OF s inv])

lemma sem_inv_dispatch: "sem_inv s k \<Longrightarrow> krun i k \<Longrightarrow> dispatch k = OK k' \<Longrightarrow> sem_inv s k'"
  using sem_ok_frame[of _ _ k k'] unfolding sem_inv_def by (simp add: dispatch_wait_frame)

interpretation sem_srv: kernel_service sem_service sem_allowed "\<lambda>_. sem_inv"
  by (rule kernel_service_svc, fact sem_service_safe, fact sem_inv_dispatch)

subsection \<open>The value of a semaphore\<close>

text \<open>
  The abstract semaphore is one integer: the tokens left, or minus the number of waiting
  tasks. A wait that succeeds or blocks takes one from it, a post that succeeds adds one.
\<close>

definition sem_value :: "nat \<Rightarrow> sem_sys \<times> kernel \<Rightarrow> int" where
  "sem_value a = (\<lambda>(s, k). uint (sem_count (sems s a)) - int (length (task_lists k (WQ a))))"

definition sem_effect :: "nat \<Rightarrow> sem_call \<Rightarrow> os_err outcome \<Rightarrow> int" where
  "sem_effect a x r = (case x of
     Sem_wait b timeout \<Rightarrow> if b = a \<and> (r = Returns OS_EOK \<or> r = Blocks) then - 1 else 0
   | Sem_post b \<Rightarrow> if b = a \<and> r = Returns OS_EOK then 1 else 0
   | _ \<Rightarrow> 0)"

definition wait_or_post :: "sem_call \<Rightarrow> bool" where
  "wait_or_post x \<longleftrightarrow> (case x of Sem_wait b timeout \<Rightarrow> True | Sem_post b \<Rightarrow> True | _ \<Rightarrow> False)"

lemma length_wait_insert:
  assumes "kinv i k" "has_flag (tstate k c) OS_TASK_STATE_READY"
  shows "length (wait_insert (WQ w) c wp k (WQ v)) = length (task_lists k (WQ v)) + (if v = w then 1 else 0)"
  using ready_not_waiting[OF assms] by (simp add: wait_insert_def klist_simps)

lemma os_sem_wait_value:
  assumes s: "settled i k" and c: "current_task k \<noteq> Some i" and w: "os_sem_wait b timeout (s, k) = OK (sk, r)"
  shows "sem_value a sk = sem_value a (s, k) + sem_effect a (Sem_wait b timeout) r"
proof -
  obtain c where c': "current_task k = Some c" "c \<noteq> i" using settledD(6)[OF s] c by auto
  let ?wp = "sem_wake_type (sems s b) = WAKE_TYPE_PRIO"
  have blk: "\<exists>k1. block_current b timeout ?wp k = OK k1 \<and> task_lists k1 = wait_insert (WQ b) c ?wp k"
    if "\<not> os_is_schedule_locked k"
    using block_current_run[OF s c', of b timeout ?wp] that by (auto simp: os_is_schedule_locked_def)
  note l = length_wait_insert[OF settledD(3)[OF s] settled_ready[OF s c'(1)], of b ?wp a]
  show ?thesis
    using w blk l
    by (auto simp: os_sem_wait_def wait_context_def sem_value_def sem_effect_def uint_dec word_gt_0 res_simps
        split: if_splits)
qed

lemma os_sem_post_value:
  assumes s: "settled i k" and p: "os_sem_post b (s, k) = OK (sk, r)"
  shows "sem_value a sk = sem_value a (s, k) + sem_effect a (Sem_post b) (Returns r)"
proof (cases "task_lists k (WQ b)")
  case Nil
  then show ?thesis
    using p by (auto simp: os_sem_post_def sem_value_def sem_effect_def uint_inc res_simps split: if_splits)
next
  case (Cons t ts)
  then have t: "t \<in> set (task_lists k (WQ b))" by simp
  obtain k1 where k1: "wake_task t k = OK k1" "\<And>v. task_lists k1 (WQ v) = removeAll t (task_lists k (WQ v))"
    using wake_task_run[OF s t] by blast
  have "removeAll t (task_lists k (WQ b)) = ts"
    using kinvD(2)[OF settledD(3)[OF s], of "WQ b"] Cons by simp
  moreover have "removeAll t (task_lists k (WQ v)) = task_lists k (WQ v)" if "v \<noteq> b" for v
    by (rule waiting_elsewhere[OF settledD(3)[OF s] t that])
  ultimately show ?thesis
    using p Cons k1 by (cases "a = b") (auto simp: os_sem_post_def sem_value_def sem_effect_def res_simps)
qed

lemma sem_syscall_value:
  assumes s: "settled i k" and inv: "sem_inv s k" and a: "sem_allowed i x s k" and x: "wait_or_post x"
    and run: "syscall sem_service x (s, k) = OK ((s', k'), r)"
  shows "sem_value a (s', k') = sem_value a (s, k) + sem_effect a x r"
proof -
  obtain k1 where k1: "sem_service x (s, k) = OK ((s', k1), r)" "dispatch k1 = OK k'"
    using run by (auto simp: syscall_def res_simps)
  have "krun i k1" using sem_service_safe[OF s inv a] k1(1) by simp
  then have "sem_value a (s', k') = sem_value a (s', k1)"
    using dispatch_wait_frame(1)[OF _ k1(2)] by (simp add: sem_value_def)
  then show ?thesis
    using x a k1(1) os_sem_wait_value[OF s] os_sem_post_value[OF s]
    by (cases x) (auto simp: wait_or_post_def sem_service_def sem_allowed_def returns_def res_simps)
qed

lemma sem_run_value:
  assumes "settled i k" "sem_inv s k" "calls_allowed sem_service (sem_allowed i) xs (s, k)" "list_all wait_or_post xs"
    and "run_calls sem_service xs (s, k) = OK (sk, rs)"
  shows "sem_value a sk = sem_value a (s, k) + (\<Sum>(x, r) \<leftarrow> zip xs rs. sem_effect a x r)"
  using assms
proof (induction xs arbitrary: s k rs)
  case (Cons x xs)
  obtain s1 k1 r rs' where 1: "syscall sem_service x (s, k) = OK ((s1, k1), r)" "rs = r # rs'"
    "run_calls sem_service xs (s1, k1) = OK (sk, rs')"
    using Cons.prems(5) by (auto simp: res_simps)
  have al: "sem_allowed i x s k" "calls_allowed sem_service (sem_allowed i) xs (s1, k1)"
    using Cons.prems(3) 1(1) by simp_all
  have 2: "settled i k1" "sem_inv s1 k1"
    using sem_srv.syscall_settled[OF Cons.prems(1,2) al(1)] 1(1) by auto
  show ?case
    using Cons.IH[OF 2 al(2) _ 1(3)] Cons.prems(4) sem_syscall_value[OF Cons.prems(1,2) al(1) _ 1(1)] by (simp add: 1(2))
qed simp

subsection \<open>Properties\<close>

definition bss_sems :: sem_sys where
  "bss_sems = \<lparr>sems = (\<lambda>_. \<lparr>sem_count = 0, sem_max_count = 0, sem_object_inited = 0,
     sem_object_alloc_type = 0, sem_wake_type = 0, sem_name = ''''\<rparr>), sem_resource_list = []\<rparr>"

lemma bss_sems_inv: "sem_inv bss_sems k"
  by (simp add: sem_inv_def bss_sems_def OS_KOBJ_INITED_def)

lemmas sem_eval = wait_eval sem_service_def os_sem_init_def k_sem_init_def os_sem_wait_def os_sem_post_def upd_sem_def

text \<open>
  C5. Semaphores: any allowed sequence of calls stops in an assertion or keeps the scheduling
  invariant and the semaphores' own: no count exceeds its maximum, no task waits while
  a token is left, waiters are in priority order. Over waits and posts the value of
  every semaphore (tokens left minus waiting tasks) changes by one for every post
  that succeeds and every wait that succeeds or blocks.
\<close>

theorem sem_calls_keep_value:
  assumes "settled i k" "sem_inv s k" "calls_allowed sem_service (sem_allowed i) xs (s, k)"
  shows "run_calls sem_service xs (s, k) = Fault AssertFail \<or>
    (\<exists>s' k' rs. run_calls sem_service xs (s, k) = OK ((s', k'), rs) \<and> settled i k' \<and> sem_inv s' k' \<and>
      (list_all wait_or_post xs \<longrightarrow>
        sem_value a (s', k') = sem_value a (s, k) + (\<Sum>(x, r) \<leftarrow> zip xs rs. sem_effect a x r)))"
  using sem_srv.run_settled[OF assms] sem_run_value[OF assms] by blast

theorem sem_calls_keep_value_witness:
  "\<exists>s0 k0 s' k'. run_calls sem_service [Sem_init 200 None 1 5] (bss_sems, sample) = OK ((s0, k0), [Returns OS_EOK]) \<and>
     run_calls sem_service [Sem_wait 200 0, Sem_wait 200 OS_WAIT_FOREVER, Sem_post 200] (s0, k0) =
       OK ((s', k'), [Returns OS_EOK, Blocks, Returns OS_EOK]) \<and>
     settled 3 k' \<and> sem_inv s' k' \<and> sem_value 200 (s0, k0) = 1 \<and> sem_value 200 (s', k') = 0"
proof -
  let ?xs = "[Sem_init 200 None 1 5]"
  let ?ys = "[Sem_wait 200 0, Sem_wait 200 OS_WAIT_FOREVER, Sem_post 200]"
  have a0: "calls_allowed sem_service (sem_allowed 3) ?xs (bss_sems, sample)"
    by (simp add: sem_allowed_def sem_eval bss_sems_def)
  obtain s0 k0 where 0: "run_calls sem_service ?xs (bss_sems, sample) = OK ((s0, k0), [Returns OS_EOK])"
    "calls_allowed sem_service (sem_allowed 3) ?ys (s0, k0)" "sem_value 200 (s0, k0) = 1"
    "\<exists>sk. run_calls sem_service ?ys (s0, k0) = OK (sk, [Returns OS_EOK, Blocks, Returns OS_EOK])"
    by (simp add: sem_allowed_def sem_eval bss_sems_def sem_value_def)
  have 1: "settled 3 k0" "sem_inv s0 k0"
    using sem_calls_keep_value[OF sample_settled bss_sems_inv a0] 0(1) by auto
  show ?thesis
    using 0 1 sem_calls_keep_value[OF 1 0(2), of 200] by (auto simp: wait_or_post_def sem_effect_def)
qed

text \<open>
  C8. A post on a semaphore that tasks wait for hands the token to the first waiter, which
  has the best priority of all of them unless the semaphore is first-come first-served: it leaves the
  list and, unless it is also suspended, is queued ready at its priority; the count stays.
\<close>

theorem sem_post_wakes_best:
  assumes "settled i k" "sem_inv s k" "sem_object_inited (sems s a) = OS_KOBJ_INITED" "task_lists k (WQ a) = t # ts"
  shows "\<exists>k1. os_sem_post a (s, k) = OK ((s, k1), OS_EOK) \<and> krun i k1 \<and> task_lists k1 (WQ a) = ts \<and>
    (sem_wake_type (sems s a) = WAKE_TYPE_PRIO \<longrightarrow> (\<forall>u \<in> set ts. prio k t \<le> prio k u)) \<and>
    (\<not> has_flag (tstate k t) OS_TASK_STATE_SUSPEND \<longrightarrow>
       tstate k1 t = OS_TASK_STATE_READY \<and> t \<in> set (task_lists k1 (RQ (unat (prio k t)))))"
proof -
  note inv = settledD(3)[OF assms(1)]
  have t: "t \<in> set (task_lists k (WQ a))" using assms(4) by simp
  obtain k1 where k1: "wake_task t k = OK k1" "krun i k1" "tasks k1 = tasks (unblocked t k)"
    "\<And>v. task_lists k1 (WQ v) = removeAll t (task_lists k (WQ v))"
    using wake_task_run[OF assms(1) t] by blast
  have d: "task_lists k1 (WQ a) = ts" using kinvD(2)[OF inv, of "WQ a"] assms(4) by (simp add: k1)
  have inv1: "kinv i k1" using k1(2) by (simp add: krun_def kmid_def)
  have r: "tstate k1 t = OS_TASK_STATE_READY \<and> t \<in> set (task_lists k1 (RQ (unat (prio k t))))"
    if "\<not> has_flag (tstate k t) OS_TASK_STATE_SUSPEND"
  proof -
    have "tstate k1 t = OS_TASK_STATE_READY"
      using unblocked_ready[OF settled_tick_pre[OF assms(1)] t that] by (simp only: k1(3))
    moreover from this have "has_flag (tstate k1 t) OS_TASK_STATE_READY" by (simp add: has_flag_def task_state_defs)
    moreover have "prio k1 t = prio k t" by (simp add: k1(3))
    ultimately show ?thesis using kinvD(4)[OF inv1, of t "RQ (unat (prio k t))"] by (simp add: home_def)
  qed
  have p: "\<forall>u \<in> set ts. prio k t \<le> prio k u" if "sem_wake_type (sems s a) = WAKE_TYPE_PRIO"
    using sem_okD[OF assms(2,3)] that assms(4) by (simp add: sem_ok_def prio_sorted_def)
  show ?thesis using assms(3,4) k1(1,2) d r p by (simp add: os_sem_post_def)
qed

text \<open>A semaphore at the address of the sample's wait list, where task 4 waits.\<close>

definition sample_sems :: sem_sys where
  "sample_sems = bss_sems\<lparr>sems := (\<lambda>b. if b = 100 then \<lparr>sem_count = 0, sem_max_count = 3,
     sem_object_inited = OS_KOBJ_INITED, sem_object_alloc_type = OS_KOBJ_ALLOC_TYPE_STATIC,
     sem_wake_type = WAKE_TYPE_PRIO, sem_name = ''''\<rparr> else sems bss_sems b)\<rparr>"

lemma sample_sems_inv: "sem_inv sample_sems sample"
  by (simp add: sem_inv_def sample_sems_def bss_sems_def OS_KOBJ_INITED_def sem_ok_def prio_sorted_def sample_lists_def)

theorem sem_post_wakes_best_witness:
  "\<exists>k1. os_sem_post 100 (sample_sems, sample) = OK ((sample_sems, k1), OS_EOK) \<and> krun 3 k1 \<and>
    task_lists k1 (WQ 100) = [] \<and> tstate k1 4 = OS_TASK_STATE_READY \<and> 4 \<in> set (task_lists k1 (RQ 5))"
  using sem_post_wakes_best[OF sample_settled sample_sems_inv, of 100 4 "[]"]
  by (simp add: sample_sems_def sample_lists_def sample_tasks_def sample_tcb_def has_flag_def task_state_defs)

text \<open>
  Deleting a semaphore wakes every task that waits for it: none is left in the list, each
  returns from its wait with \<^verbatim>\<open>OS_ERROR\<close>, and each that is not suspended is ready. The
  semaphore is no longer usable.
\<close>

theorem sem_deinit_releases_waiters:
  assumes "settled i k" "sem_inv s k" "sem_object_inited (sems s a) = OS_KOBJ_INITED"
    and "sem_object_alloc_type (sems s a) = OS_KOBJ_ALLOC_TYPE_STATIC" "\<not> irq_active k"
  shows "\<exists>s' k'. os_sem_deinit a (s, k) = OK ((s', k'), OS_EOK) \<and> krun i k' \<and>
    task_lists k' (WQ a) = [] \<and> sem_object_inited (sems s' a) = OS_KOBJ_DEINITED \<and> a \<notin> set (sem_resource_list s') \<and>
    (\<forall>t \<in> set (task_lists k (WQ a)). wait_result t k' = OS_ERROR \<and>
       (\<not> has_flag (tstate k t) OS_TASK_STATE_SUSPEND \<longrightarrow> tstate k' t = OS_TASK_STATE_READY))"
proof -
  obtain k' where k': "k_cancle_all_blocked_task a k = OK k'" "krun i (k_kernel_exit_sched k')"
    "task_lists k' (WQ a) = []"
    "tasks k' = (\<lambda>t. if t \<in> set (task_lists k (WQ a)) then cancelled_tcb (tasks k t) else tasks k t)"
    using cancel_run[OF assms(1), of a] by blast
  have "state (cancelled_tcb (tasks k t)) = OS_TASK_STATE_READY"
    if "t \<in> set (task_lists k (WQ a))" "\<not> has_flag (tstate k t) OS_TASK_STATE_SUSPEND" for t
    using unblocked_ready[OF settled_tick_pre[OF assms(1)] that] by (simp add: cancelled_tcb_def)
  then show ?thesis
    using assms(3-5) k' by (auto simp: os_sem_deinit_def sem_dispose_def Let_def wait_result_def cancelled_tcb_def)
qed

theorem sem_deinit_releases_waiters_witness:
  "\<exists>s' k'. os_sem_deinit 100 (sample_sems, sample) = OK ((s', k'), OS_EOK) \<and> krun 3 k' \<and>
    task_lists k' (WQ 100) = [] \<and> wait_result 4 k' = OS_ERROR \<and> tstate k' 4 = OS_TASK_STATE_READY"
  using sem_deinit_releases_waiters[OF sample_settled sample_sems_inv, of 100]
  by (fastforce simp: sample_sems_def sample_lists_def sample_tasks_def sample_tcb_def has_flag_def task_state_defs)

text \<open>
  A wait never blocks while a token is left; without one it returns \<^verbatim>\<open>OS_EBUSY\<close> at once
  when it must not wait, and otherwise the caller, and no other task, is put on the
  semaphore's list, not ready any more, with its deadline \<^verbatim>\<open>timeout\<close> ticks ahead.
\<close>

theorem sem_wait_branches:
  assumes "settled i k" "sem_inv s k" "sem_object_inited (sems s a) = OS_KOBJ_INITED"
    and "current_task k = Some c" "c \<noteq> i" "wait_context timeout k (OK ()) = OK ()"
  shows "if 0 < sem_count (sems s a) then
      os_sem_wait a timeout (s, k) = OK ((upd_sem a (\<lambda>x. x\<lparr>sem_count := sem_count x - 1\<rparr>) s, k), Returns OS_EOK)
    else if timeout = OS_NO_WAIT then os_sem_wait a timeout (s, k) = OK ((s, k), Returns OS_EBUSY)
    else \<exists>k1. os_sem_wait a timeout (s, k) = OK ((s, k1), Blocks) \<and> krun i k1 \<and>
      set (task_lists k1 (WQ a)) = insert c (set (task_lists k (WQ a))) \<and>
      \<not> has_flag (tstate k1 c) OS_TASK_STATE_READY \<and> wait_result c k1 = OS_EOK \<and>
      (timeout \<noteq> OS_WAIT_FOREVER \<longrightarrow> tick_absolute (tasks k1 c) = os_tick k + timeout) \<and>
      (\<forall>t. t \<noteq> c \<longrightarrow> tasks k1 t = tasks k t)"
proof -
  let ?wp = "sem_wake_type (sems s a) = WAKE_TYPE_PRIO"
  have ctx: "wait_context timeout k m = m" for m :: "((sem_sys \<times> kernel) \<times> os_err outcome) res"
    using assms(6) by (auto simp: wait_context_def os_assert_def split: if_splits)
  have free: "sched_lock_cnt k = 0" if "timeout \<noteq> OS_NO_WAIT"
    using assms(6) that by (auto simp: wait_context_def os_is_schedule_locked_def res_simps)
  have "\<exists>k1. os_sem_wait a timeout (s, k) = OK ((s, k1), Blocks) \<and> krun i k1 \<and>
      set (task_lists k1 (WQ a)) = insert c (set (task_lists k (WQ a))) \<and>
      \<not> has_flag (tstate k1 c) OS_TASK_STATE_READY \<and> wait_result c k1 = OS_EOK \<and>
      (timeout \<noteq> OS_WAIT_FOREVER \<longrightarrow> tick_absolute (tasks k1 c) = os_tick k + timeout) \<and>
      (\<forall>t. t \<noteq> c \<longrightarrow> tasks k1 t = tasks k t)" if w: "\<not> 0 < sem_count (sems s a)" "timeout \<noteq> OS_NO_WAIT"
  proof -
    obtain k1 where k1: "block_current a timeout ?wp k = OK k1" "krun i k1" "task_lists k1 = wait_insert (WQ a) c ?wp k"
      "tasks k1 = (tasks k)(c := blocked_tcb (WQ a) timeout ?wp (os_tick k) (tasks k c))"
      using block_current_run[OF assms(1,4,5) free[OF w(2)], of a timeout ?wp] by blast
    have "set (task_lists k1 (WQ a)) = insert c (set (task_lists k (WQ a)))" by (auto simp: k1(3))
    then show ?thesis
      using w k1 assms(3) ctx by (simp add: os_sem_wait_def wait_result_def blocked_tcb_def Let_def flag_simps)
  qed
  then show ?thesis using assms(3) ctx by (auto simp: os_sem_wait_def)
qed

theorem sem_wait_branches_witness:
  "\<exists>k1. os_sem_wait 100 9 (sample_sems, sample) = OK ((sample_sems, k1), Blocks) \<and> krun 3 k1 \<and>
    set (task_lists k1 (WQ 100)) = {1, 4} \<and> \<not> has_flag (tstate k1 1) OS_TASK_STATE_READY \<and>
    tick_absolute (tasks k1 1) = 9"
proof -
  have ctx: "wait_context 9 sample (OK ()) = OK ()"
    by (simp add: wait_context_def OS_NO_WAIT_def os_is_schedule_locked_def OS_TICK_MAX_def)
  show ?thesis
    using sem_wait_branches[OF sample_settled sample_sems_inv, of 100 1 9] ctx
    by (auto simp: sample_sems_def sample_lists_def OS_NO_WAIT_def OS_WAIT_FOREVER_def OS_TICK_MAX_def)
qed

end
