(* ===== verification/Os_Mutex.thy ===== *)
theory Os_Mutex
  imports Kernel_Wait
begin

text \<open>
  \<^verbatim>\<open>oneos/kernel/source/os_mutex.c\<close>: mutexes with priority inheritance. The mutexes a task
  holds are listed in its control block; a lock that blocks is split in the call and the
  part after the switch, which runs when the task has the processor again.
\<close>

record os_mutex =
  owner :: "tid option"
  lock_count :: u32
  is_recursive :: bool
  mtx_object_inited :: u8
  mtx_object_alloc_type :: u8
  mtx_wake_type :: u8
  original_priority :: u8
  mtx_name :: string

record mutex_sys =
  mutexes :: "nat \<Rightarrow> os_mutex"
  mutex_resource_list :: "nat list"

definition upd_mutex :: "nat \<Rightarrow> (os_mutex \<Rightarrow> os_mutex) \<Rightarrow> mutex_sys \<Rightarrow> mutex_sys" where
  "upd_mutex a f s = s\<lparr>mutexes := (mutexes s)(a := f (mutexes s a))\<rparr>"

definition hold_add :: "tid \<Rightarrow> nat \<Rightarrow> kernel \<Rightarrow> kernel" where
  "hold_add t a = upd_task t (\<lambda>x. x\<lparr>hold_mutex_list := hold_mutex_list x @ [a]\<rparr>)"

definition hold_del :: "tid \<Rightarrow> nat \<Rightarrow> kernel \<Rightarrow> kernel" where
  "hold_del t a = upd_task t (\<lambda>x. x\<lparr>hold_mutex_list := removeAll a (hold_mutex_list x)\<rparr>)"

subsection \<open>Priority inheritance\<close>

text \<open>A ready task is requeued at its new priority; the flag asks for a scheduling point.\<close>

definition requeue_priority :: "tid \<Rightarrow> u8 \<Rightarrow> kernel \<Rightarrow> (kernel \<times> bool) res" where
  "requeue_priority t p k =
     (if has_flag (tstate k t) OS_TASK_STATE_READY then
        bind_res (k_readyq_remove t k) (\<lambda>k1.
        bind_res (k_readyq_put t (upd_task t (\<lambda>x. x\<lparr>current_priority := p\<rparr>) k1)) (\<lambda>k2. OK (k2, True)))
      else OK (upd_task t (\<lambda>x. x\<lparr>current_priority := p\<rparr>) k, False))"

definition k_mutex_set_owner_priority :: "nat \<Rightarrow> u8 \<Rightarrow> mutex_sys \<times> kernel \<Rightarrow> (kernel \<times> bool) res" where
  "k_mutex_set_owner_priority a p = (\<lambda>(s, k).
     case owner (mutexes s a) of None \<Rightarrow> Fault NullDeref | Some t \<Rightarrow> requeue_priority t p k)"

text \<open>The best priority among \<open>p\<close> and the first waiters of the mutexes \<open>ms\<close>.\<close>

fun best_waiter :: "kernel \<Rightarrow> nat list \<Rightarrow> u8 \<Rightarrow> u8" where
  "best_waiter k [] p = p"
| "best_waiter k (a # ms) p = best_waiter k ms
     (case task_lists k (WQ a) of [] \<Rightarrow> p | t # _ \<Rightarrow> if prio k t < p then prio k t else p)"

definition k_mutex_restore_priority :: "nat \<Rightarrow> mutex_sys \<times> kernel \<Rightarrow> (kernel \<times> bool) res" where
  "k_mutex_restore_priority a = (\<lambda>(s, k).
     case owner (mutexes s a) of None \<Rightarrow> Fault NullDeref
     | Some t \<Rightarrow>
        if prio k t \<noteq> original_priority (mutexes s a) then
          (let new = best_waiter k (hold_mutex_list (tasks k t)) (original_priority (mutexes s a))
           in if new \<noteq> prio k t then k_mutex_set_owner_priority a new (s, k) else OK (k, False))
        else OK (k, False))"

subsection \<open>Life cycle\<close>

definition k_mutex_init ::
  "nat \<Rightarrow> string option \<Rightarrow> bool \<Rightarrow> u8 \<Rightarrow> mutex_sys \<times> kernel \<Rightarrow> mutex_sys \<times> kernel" where
  "k_mutex_init a nm recursive alloc = (\<lambda>(s, k).
     (upd_mutex a (\<lambda>x. x\<lparr>owner := None, lock_count := 0, is_recursive := recursive,
        mtx_object_alloc_type := alloc, mtx_wake_type := WAKE_TYPE_PRIO,
        mtx_name := (case nm of None \<Rightarrow> '''' | Some n \<Rightarrow> take OS_NAME_MAX n),
        mtx_object_inited := OS_KOBJ_INITED\<rparr>) s,
      k\<lparr>task_lists := (task_lists k)(WQ a := [])\<rparr>))"

definition k_mutex_deinit :: "nat \<Rightarrow> mutex_sys \<times> kernel \<Rightarrow> (mutex_sys \<times> kernel) res" where
  "k_mutex_deinit a = (\<lambda>(s, k).
     let s1 = upd_mutex a (\<lambda>x. x\<lparr>mtx_object_inited := OS_KOBJ_DEINITED\<rparr>) s;
         s2 = s1\<lparr>mutex_resource_list := removeAll a (mutex_resource_list s1)\<rparr>
     in case owner (mutexes s1 a) of None \<Rightarrow> OK (s2, k)
        | Some t \<Rightarrow>
           bind_res (if prio k t \<noteq> backup_priority (tasks k t)
                     then requeue_priority t (backup_priority (tasks k t)) k else OK (k, False)) (\<lambda>(k1, _).
           bind_res (k_cancle_all_blocked_task a (hold_del t a k1)) (\<lambda>k2.
             OK (s2, k_kernel_exit_sched k2))))"

definition os_mutex_init :: "nat \<Rightarrow> string option \<Rightarrow> bool \<Rightarrow> mutex_sys \<times> kernel \<Rightarrow> ((mutex_sys \<times> kernel) \<times> os_err) res" where
  "os_mutex_init a nm recursive = (\<lambda>(s, k).
     os_assert (\<not> irq_active k)
       (if a \<in> set (mutex_resource_list s) then OK ((s, k), OS_EINVAL)
        else OK (k_mutex_init a nm recursive OS_KOBJ_ALLOC_TYPE_STATIC
               (s\<lparr>mutex_resource_list := mutex_resource_list s @ [a]\<rparr>, k), OS_EOK)))"

definition os_mutex_deinit :: "nat \<Rightarrow> mutex_sys \<times> kernel \<Rightarrow> ((mutex_sys \<times> kernel) \<times> os_err) res" where
  "os_mutex_deinit a = (\<lambda>(s, k).
     os_assert (mtx_object_inited (mutexes s a) = OS_KOBJ_INITED)
     (os_assert (mtx_object_alloc_type (mutexes s a) = OS_KOBJ_ALLOC_TYPE_STATIC)
     (os_assert (\<not> irq_active k) (bind_res (k_mutex_deinit a (s, k)) (\<lambda>sk. OK (sk, OS_EOK))))))"

definition os_mutex_create ::
  "string option \<Rightarrow> bool \<Rightarrow> nat option \<Rightarrow> mutex_sys \<times> kernel \<Rightarrow> ((mutex_sys \<times> kernel) \<times> nat option) res" where
  "os_mutex_create nm recursive mem = (\<lambda>(s, k). task_context k
     (case mem of None \<Rightarrow> OK ((s, k), None)
      | Some a \<Rightarrow> OK (k_mutex_init a nm recursive OS_KOBJ_ALLOC_TYPE_DYNAMIC
          (s\<lparr>mutex_resource_list := mutex_resource_list s @ [a]\<rparr>, k), Some a)))"

definition os_mutex_destroy :: "nat \<Rightarrow> mutex_sys \<times> kernel \<Rightarrow> ((mutex_sys \<times> kernel) \<times> os_err) res" where
  "os_mutex_destroy a = (\<lambda>(s, k).
     os_assert (mtx_object_inited (mutexes s a) = OS_KOBJ_INITED)
     (os_assert (mtx_object_alloc_type (mutexes s a) = OS_KOBJ_ALLOC_TYPE_DYNAMIC)
     (task_context k (bind_res (k_mutex_deinit a (s, k)) (\<lambda>sk. OK (sk, OS_EOK))))))"

subsection \<open>Locking\<close>

definition lock_context :: "u32 \<Rightarrow> kernel \<Rightarrow> 'a res \<Rightarrow> 'a res" where
  "lock_context timeout k m =
     os_assert (\<not> irq_active k) (os_assert (\<not> irq_disabled k \<or> timeout = OS_NO_WAIT)
     (os_assert (\<not> os_is_schedule_locked k \<or> timeout = OS_NO_WAIT)
     (os_assert (timeout < OS_TICK_MAX div 2 \<or> timeout = OS_WAIT_FOREVER) m)))"

text \<open>
  The branch in which the mutex is taken: the owner inherits the priority of the caller,
  which blocks.
\<close>

definition mutex_wait :: "nat \<Rightarrow> tid \<Rightarrow> u32 \<Rightarrow> mutex_sys \<times> kernel \<Rightarrow> ((mutex_sys \<times> kernel) \<times> os_err outcome) res" where
  "mutex_wait a c timeout = (\<lambda>(s, k).
     case owner (mutexes s a) of None \<Rightarrow> Fault NullDeref
     | Some t \<Rightarrow>
        bind_res (if mtx_wake_type (mutexes s a) = WAKE_TYPE_PRIO \<and> prio k c < prio k t
                  then k_mutex_set_owner_priority a (prio k c) (s, k) else OK (k, False)) (\<lambda>(k1, _).
        bind_res (k_block_task (WQ a) c timeout (mtx_wake_type (mutexes s a) = WAKE_TYPE_PRIO) k1) (\<lambda>k2.
          OK ((s, k_kernel_exit_sched k2), Blocks))))"

definition os_mutex_lock :: "nat \<Rightarrow> u32 \<Rightarrow> mutex_sys \<times> kernel \<Rightarrow> ((mutex_sys \<times> kernel) \<times> os_err outcome) res" where
  "os_mutex_lock a timeout = (\<lambda>(s, k).
     os_assert (mtx_object_inited (mutexes s a) = OS_KOBJ_INITED) (os_assert (\<not> is_recursive (mutexes s a))
     (lock_context timeout k (os_assert (owner (mutexes s a) \<noteq> current_task k)
       (case current_task k of None \<Rightarrow> Fault NullDeref
        | Some c \<Rightarrow>
           if lock_count (mutexes s a) = 0 then
             OK ((upd_mutex a (\<lambda>x. x\<lparr>lock_count := 1, owner := Some c, original_priority := prio k c\<rparr>) s,
                  hold_add c a k), Returns OS_EOK)
           else if timeout = OS_NO_WAIT then OK ((s, k), Returns OS_EBUSY)
           else mutex_wait a c timeout (s, k))))))"

definition os_mutex_recursive_lock :: "nat \<Rightarrow> u32 \<Rightarrow> mutex_sys \<times> kernel \<Rightarrow> ((mutex_sys \<times> kernel) \<times> os_err outcome) res" where
  "os_mutex_recursive_lock a timeout = (\<lambda>(s, k).
     os_assert (mtx_object_inited (mutexes s a) = OS_KOBJ_INITED) (os_assert (is_recursive (mutexes s a))
     (lock_context timeout k
       (case current_task k of None \<Rightarrow> Fault NullDeref
        | Some c \<Rightarrow>
           if lock_count (mutexes s a) = 0 \<or> owner (mutexes s a) = Some c then
             (let (s1, k1) = (if lock_count (mutexes s a) = 0
                    then (upd_mutex a (\<lambda>x. x\<lparr>original_priority := prio k c, owner := Some c\<rparr>) s, hold_add c a k)
                    else (s, k))
              in OK ((upd_mutex a (\<lambda>x. x\<lparr>lock_count := lock_count x + 1\<rparr>) s1, k1), Returns OS_EOK))
           else if timeout = OS_NO_WAIT then OK ((s, k), Returns OS_EBUSY)
           else mutex_wait a c timeout (s, k)))))"

text \<open>
  The rest of both lock functions, after the switch: a task that was not given the mutex
  (timeout, or the mutex was deleted) has the owner's inheritance recomputed.
\<close>

definition mutex_lock_resume :: "nat \<Rightarrow> tid \<Rightarrow> mutex_sys \<times> kernel \<Rightarrow> ((mutex_sys \<times> kernel) \<times> os_err) res" where
  "mutex_lock_resume a c = (\<lambda>(s, k).
     let ret = wait_result c k
     in bind_res (if ret \<noteq> OS_EOK \<and> mtx_wake_type (mutexes s a) = WAKE_TYPE_PRIO
                  then k_mutex_restore_priority a (s, k) else OK (k, False))
          (\<lambda>(k1, need). OK ((s, exit_if need k1), ret)))"

subsection \<open>Unlocking\<close>

text \<open>The mutex goes to the first waiter, or is free.\<close>

definition mutex_hand_over :: "nat \<Rightarrow> mutex_sys \<times> kernel \<Rightarrow> ((mutex_sys \<times> kernel) \<times> bool) res" where
  "mutex_hand_over a = (\<lambda>(s, k).
     case task_lists k (WQ a) of
       [] \<Rightarrow> OK ((upd_mutex a (\<lambda>x. x\<lparr>owner := None, lock_count := 0\<rparr>) s, k), False)
     | t # _ \<Rightarrow> bind_res (k_unblock_task t k) (\<lambda>k1.
          OK ((upd_mutex a (\<lambda>x. x\<lparr>owner := Some t, original_priority := prio k1 t\<rparr>) s, hold_add t a k1),
              has_flag (tstate k1 t) OS_TASK_STATE_READY)))"

text \<open>A task that holds no mutex any more goes back to its own priority.\<close>

definition drop_inherited :: "tid \<Rightarrow> kernel \<Rightarrow> (kernel \<times> bool) res" where
  "drop_inherited c k =
     (if hold_mutex_list (tasks k c) = [] \<and> prio k c \<noteq> backup_priority (tasks k c) then
        bind_res (k_readyq_remove c k) (\<lambda>k1.
        bind_res (k_readyq_put c (upd_task c (\<lambda>x. x\<lparr>current_priority := backup_priority x\<rparr>) k1)) (\<lambda>k2. OK (k2, True)))
      else OK (k, False))"

definition mutex_release :: "nat \<Rightarrow> tid \<Rightarrow> mutex_sys \<times> kernel \<Rightarrow> ((mutex_sys \<times> kernel) \<times> bool) res" where
  "mutex_release a c = (\<lambda>(s, k).
     let k0 = hold_del c a k
     in bind_res (if mtx_wake_type (mutexes s a) = WAKE_TYPE_PRIO
                  then k_mutex_restore_priority a (s, k0) else OK (k0, False)) (\<lambda>(k1, need1).
        bind_res (mutex_hand_over a (s, k1)) (\<lambda>((s2, k2), need2). OK ((s2, k2), need1 \<or> need2))))"

definition os_mutex_unlock :: "nat \<Rightarrow> mutex_sys \<times> kernel \<Rightarrow> ((mutex_sys \<times> kernel) \<times> os_err) res" where
  "os_mutex_unlock a = (\<lambda>(s, k).
     os_assert (mtx_object_inited (mutexes s a) = OS_KOBJ_INITED) (os_assert (\<not> is_recursive (mutexes s a))
     (os_assert (\<not> irq_active k) (os_assert (owner (mutexes s a) = current_task k)
       (case current_task k of None \<Rightarrow> Fault NullDeref
        | Some c \<Rightarrow>
           bind_res (mutex_release a c (s, k)) (\<lambda>((s1, k1), need1).
           bind_res (drop_inherited c k1) (\<lambda>(k2, need2).
             OK ((s1, exit_if (need1 \<or> need2) k2), OS_EOK))))))))"

definition os_mutex_recursive_unlock :: "nat \<Rightarrow> mutex_sys \<times> kernel \<Rightarrow> ((mutex_sys \<times> kernel) \<times> os_err) res" where
  "os_mutex_recursive_unlock a = (\<lambda>(s, k).
     os_assert (mtx_object_inited (mutexes s a) = OS_KOBJ_INITED) (os_assert (is_recursive (mutexes s a))
     (os_assert (\<not> irq_active k) (os_assert (owner (mutexes s a) = current_task k)
     (os_assert (0 < lock_count (mutexes s a))
       (case current_task k of None \<Rightarrow> Fault NullDeref
        | Some c \<Rightarrow>
           bind_res (if 1 < lock_count (mutexes s a)
                     then OK ((upd_mutex a (\<lambda>x. x\<lparr>lock_count := lock_count x - 1\<rparr>) s, k), False)
                     else mutex_release a c (s, k)) (\<lambda>((s1, k1), need1).
           bind_res (drop_inherited c k1) (\<lambda>(k2, need2).
             OK ((s1, exit_if (need1 \<or> need2) k2), OS_EOK)))))))))"

definition os_mutex_set_wake_type :: "nat \<Rightarrow> u8 \<Rightarrow> mutex_sys \<times> kernel \<Rightarrow> ((mutex_sys \<times> kernel) \<times> os_err) res" where
  "os_mutex_set_wake_type a wt = (\<lambda>(s, k).
     os_assert (wt = WAKE_TYPE_PRIO \<or> wt = WAKE_TYPE_FIFO)
       (if owner (mutexes s a) = None then OK ((upd_mutex a (\<lambda>x. x\<lparr>mtx_wake_type := wt\<rparr>) s, k), OS_EOK)
        else OK ((s, k), OS_EBUSY)))"

definition os_mutex_get_owner :: "nat \<Rightarrow> mutex_sys \<Rightarrow> tid option" where
  "os_mutex_get_owner a s = owner (mutexes s a)"

subsection \<open>Invariant\<close>

abbreviation live_mutex :: "mutex_sys \<Rightarrow> nat \<Rightarrow> bool" where
  "live_mutex s a \<equiv> mtx_object_inited (mutexes s a) = OS_KOBJ_INITED"

text \<open>
  A live mutex is locked exactly when it has an owner, who lists it among the mutexes
  held; nobody waits for a free mutex; a task lists only live mutexes it owns, once.
\<close>

definition mutex_ok :: "tid \<Rightarrow> os_mutex \<Rightarrow> nat \<Rightarrow> kernel \<Rightarrow> bool" where
  "mutex_ok i x a k \<longleftrightarrow> (lock_count x = 0 \<longleftrightarrow> owner x = None) \<and>
     (owner x = None \<longrightarrow> task_lists k (WQ a) = []) \<and>
     (\<forall>t. owner x = Some t \<longrightarrow> t \<noteq> i \<and> a \<in> set (hold_mutex_list (tasks k t)) \<and> unat (original_priority x) < 32)"

definition mutex_inv :: "tid \<Rightarrow> mutex_sys \<Rightarrow> kernel \<Rightarrow> bool" where
  "mutex_inv i s k \<longleftrightarrow> (\<forall>a. live_mutex s a \<longrightarrow> mutex_ok i (mutexes s a) a k) \<and>
     (\<forall>t a. a \<in> set (hold_mutex_list (tasks k t)) \<longrightarrow> live_mutex s a \<and> owner (mutexes s a) = Some t) \<and>
     (\<forall>t. distinct (hold_mutex_list (tasks k t)))"

lemma mutex_invD:
  assumes "mutex_inv i s k"
  shows "live_mutex s a \<Longrightarrow> mutex_ok i (mutexes s a) a k"
    "a \<in> set (hold_mutex_list (tasks k t)) \<Longrightarrow> live_mutex s a \<and> owner (mutexes s a) = Some t"
    "distinct (hold_mutex_list (tasks k t))"
  using assms by (auto simp: mutex_inv_def)

lemma mutex_inv_frame:
  assumes "mutex_inv i s k" "\<And>t. hold_mutex_list (tasks k' t) = hold_mutex_list (tasks k t)"
    and "\<And>a. live_mutex s a \<Longrightarrow> task_lists k (WQ a) = [] \<Longrightarrow> owner (mutexes s a) = None \<Longrightarrow> task_lists k' (WQ a) = []"
  shows "mutex_inv i s k'"
proof -
  have "mutex_ok i (mutexes s a) a k'" if "live_mutex s a" for a
    using mutex_invD(1)[OF assms(1) that] assms(3)[OF that] unfolding mutex_ok_def assms(2) by blast
  then show ?thesis using mutex_invD(2,3)[OF assms(1)] unfolding mutex_inv_def assms(2) by blast
qed

lemma upd_mutex_apply [simp]: "mutexes (upd_mutex a f s) b = (if b = a then f (mutexes s a) else mutexes s b)"
  by (simp add: upd_mutex_def)

lemma mutex_inv_upd:
  assumes "mutex_inv i s k" "owner (f (mutexes s a)) = owner (mutexes s a)"
    "mtx_object_inited (f (mutexes s a)) = mtx_object_inited (mutexes s a)"
    and "live_mutex s a \<Longrightarrow> mutex_ok i (f (mutexes s a)) a k"
  shows "mutex_inv i (upd_mutex a f s) k"
proof -
  have "mutex_ok i (mutexes (upd_mutex a f s) b) b k" if "live_mutex (upd_mutex a f s) b" for b
    using that assms(3,4) mutex_invD(1)[OF assms(1), of b] by (cases "b = a") simp_all
  moreover have "live_mutex (upd_mutex a f s) b \<and> owner (mutexes (upd_mutex a f s) b) = Some t"
    if "b \<in> set (hold_mutex_list (tasks k t))" for b t
    using mutex_invD(2)[OF assms(1) that] assms(2,3) by auto
  ultimately show ?thesis using mutex_invD(3)[OF assms(1)] unfolding mutex_inv_def by blast
qed

subsection \<open>Changing a priority in place\<close>

lemma requeue_priority_keeps:
  assumes pre: "tick_pre i k" and ti: "t \<noteq> i" and p: "unat p < 32"
  shows "\<exists>k' need. requeue_priority t p k = OK (k', need) \<and> tick_keeps i k k' need \<and>
    tasks k' = (tasks k)(t := (tasks k t)\<lparr>current_priority := p\<rparr>) \<and>
    (\<forall>w. task_lists k' (WQ w) = task_lists k (WQ w)) \<and> os_tick k' = os_tick k"
proof -
  note inv = tick_preD(1)[OF pre]
  let ?x = "(tasks k t)\<lparr>current_priority := p\<rparr>"
  have keep: "tick_pre i k'" if "kinv i k'" "tasks k' = (tasks k)(t := ?x)" "same_cpu k k'" for k'
    by (rule tick_pre_moveI[OF pre that])
       (use states_okD(1)[OF tick_preD(2)[OF pre], of t] tick_preD(3)[OF pre, of t] in auto)
  show ?thesis
  proof (cases "has_flag (tstate k t) OS_TASK_STATE_READY")
    case True
    obtain k1 k2 where k: "k_readyq_remove t k = OK k1" "k_readyq_put t (set_current_priority t p k1) = OK k2"
      "kinv i k2" "k2 = readyq_sync (k\<lparr>tasks := (tasks k)(t := ?x),
        task_lists := list_add_tail (list_del (task_lists k) t) (RQ (unat p)) t\<rparr>)"
      using reprioritise_ready[OF inv True ti p] by blast
    have "removeAll t (task_lists k (WQ w)) = task_lists k (WQ w)" for w
      using ready_not_waiting[OF inv True] by simp
    moreover have "tick_pre i k2" using k(3) by (rule keep) (simp_all add: k(4) same_cpu_def)
    ultimately show ?thesis
      using True k(1,2) by (auto simp: requeue_priority_def set_current_priority_def k(4) tick_keeps_def same_cpu_def klist_simps)
  next
    case False
    let ?k = "upd_task t (\<lambda>x. x\<lparr>current_priority := p\<rparr>) k"
    have "kinv i ?k" using kinv_set_priority_unready[OF inv False p] by (simp add: set_current_priority_def)
    then have "tick_pre i ?k" by (rule keep) (simp_all add: upd_task_def same_cpu_def)
    then have "tick_keeps i k ?k False" by (simp add: tick_keeps_def same_cpu_def)
    then show ?thesis using False by (intro exI[of _ ?k] exI[of _ False]) (simp add: requeue_priority_def upd_task_def)
  qed
qed

lemma best_waiter_bound: "unat p < 32 \<Longrightarrow> kinv i k \<Longrightarrow> unat (best_waiter k ms p) < 32"
  by (induction ms arbitrary: p) (auto split: list.split)

lemma k_mutex_restore_keeps:
  assumes pre: "tick_pre i k" and o: "owner (mutexes s a) = Some t" "t \<noteq> i" "unat (original_priority (mutexes s a)) < 32"
  shows "\<exists>k' need p. k_mutex_restore_priority a (s, k) = OK (k', need) \<and> tick_keeps i k k' need \<and>
    tasks k' = (tasks k)(t := (tasks k t)\<lparr>current_priority := p\<rparr>) \<and>
    (\<forall>w. task_lists k' (WQ w) = task_lists k (WQ w)) \<and> os_tick k' = os_tick k"
proof -
  let ?new = "best_waiter k (hold_mutex_list (tasks k t)) (original_priority (mutexes s a))"
  have same: "tick_keeps i k k False \<and> tasks k = (tasks k)(t := (tasks k t)\<lparr>current_priority := prio k t\<rparr>)"
    using pre by simp
  show ?thesis
  proof (cases "prio k t \<noteq> original_priority (mutexes s a) \<and> ?new \<noteq> prio k t")
    case True
    then show ?thesis
      using requeue_priority_keeps[OF pre o(2) best_waiter_bound[OF o(3) tick_preD(1)[OF pre]], of "hold_mutex_list (tasks k t)"]
      by (auto simp: k_mutex_restore_priority_def k_mutex_set_owner_priority_def o Let_def)
  next
    case False
    then show ?thesis using same by (auto simp: k_mutex_restore_priority_def o Let_def intro!: exI[of _ "prio k t"])
  qed
qed

lemma harmless_hold [simp]: "harmless (\<lambda>x. x\<lparr>hold_mutex_list := g x\<rparr>)"
  by (simp add: harmless_def)

subsection \<open>Locking keeps the invariants\<close>

lemma mutex_inv_take:
  assumes inv: "mutex_inv i s k" and live: "live_mutex s a" and free: "lock_count (mutexes s a) = 0" and c: "c \<noteq> i"
    and x: "\<And>b. b \<noteq> a \<Longrightarrow> mutexes s' b = mutexes s b" "owner (mutexes s' a) = Some c" "lock_count (mutexes s' a) \<noteq> 0"
      "live_mutex s' a" "unat (original_priority (mutexes s' a)) < 32"
  shows "mutex_inv i s' (hold_add c a k)"
proof -
  have none: "owner (mutexes s a) = None"
    using mutex_invD(1)[OF inv live] free by (simp add: mutex_ok_def)
  then have fresh: "a \<notin> set (hold_mutex_list (tasks k t))" for t using mutex_invD(2)[OF inv, of a t] by auto
  have ok: "mutex_ok i (mutexes s' b) b (hold_add c a k)" if "live_mutex s' b" for b
    using mutex_invD(1)[OF inv, of b] that x c by (cases "b = a") (auto simp: mutex_ok_def hold_add_def)
  have "live_mutex s' b \<and> owner (mutexes s' b) = Some t" if "b \<in> set (hold_mutex_list (tasks (hold_add c a k) t))" for b t
    using that mutex_invD(2)[OF inv, of b t] x fresh by (cases "b = a") (auto simp: hold_add_def split: if_splits)
  moreover have "distinct (hold_mutex_list (tasks (hold_add c a k) t))" for t
    using mutex_invD(3)[OF inv, of t] fresh[of t] by (auto simp: hold_add_def)
  ultimately show ?thesis using ok by (simp add: mutex_inv_def)
qed

lemma mutex_wait_safe:
  assumes s: "settled i k" and inv: "mutex_inv i s k" and live: "live_mutex s a" and locked: "lock_count (mutexes s a) \<noteq> 0"
    and c: "current_task k = Some c" "c \<noteq> i" "sched_lock_cnt k = 0"
  shows "svc_safe (mutex_inv i) i (mutex_wait a c timeout (s, k))"
proof -
  note pre = settled_tick_pre[OF s]
  let ?wp = "mtx_wake_type (mutexes s a) = WAKE_TYPE_PRIO"
  obtain t where t: "owner (mutexes s a) = Some t" "t \<noteq> i"
    using mutex_invD(1)[OF inv live] locked by (auto simp: mutex_ok_def)
  obtain k1 b where k1: "(if ?wp \<and> prio k c < prio k t then k_mutex_set_owner_priority a (prio k c) (s, k) else OK (k, False)) = OK (k1, b)"
    and keeps: "tick_keeps i k k1 b" and frame: "\<And>u. hold_mutex_list (tasks k1 u) = hold_mutex_list (tasks k u)"
      "\<And>w. task_lists k1 (WQ w) = task_lists k (WQ w)"
  proof (cases "?wp \<and> prio k c < prio k t")
    case True
    then show ?thesis
      using requeue_priority_keeps[OF pre t(2) kinv_prio[OF tick_preD(1)[OF pre], of c]] that
      by (auto simp: k_mutex_set_owner_priority_def t(1))
  next
    case False
    show ?thesis by (rule that[of k False]) (use False pre in auto)
  qed
  have pre1: "tick_pre i k1" and cpu: "same_cpu k k1" using keeps by (simp_all add: tick_keeps_def)
  have c1: "current_task k1 = Some c" "sched_lock_cnt k1 = 0" using cpu c by (simp_all add: same_cpu_def)
  obtain k2 where k2: "k_block_task (WQ a) c timeout ?wp k1 = OK k2" "kmid i k2"
    "task_lists k2 = wait_insert (WQ a) c ?wp k1"
    "tasks k2 = (tasks k1)(c := blocked_tcb (WQ a) timeout ?wp (os_tick k1) (tasks k1 c))"
    using k_block_task_mid[OF pre1 c1(1) c(2) c1(2)] by blast
  have "mutex_inv i s (k_kernel_exit_sched k2)"
  proof (rule mutex_inv_frame[OF inv])
    show "hold_mutex_list (tasks (k_kernel_exit_sched k2) u) = hold_mutex_list (tasks k u)" for u
      by (simp add: k2(4) frame)
    show "task_lists (k_kernel_exit_sched k2) (WQ b) = []" if "task_lists k (WQ b) = []" "owner (mutexes s b) = None" for b
      using that t(1) by (cases "b = a") (auto simp: k2(3) frame(2) wait_insert_other)
  qed
  then show ?thesis using k1 k2 krun_exit_sched by (simp add: mutex_wait_def t(1))
qed

lemma os_mutex_lock_safe:
  assumes s: "settled i k" and inv: "mutex_inv i s k" and i: "current_task k \<noteq> Some i"
  shows "svc_safe (mutex_inv i) i (os_mutex_lock a timeout (s, k))"
proof -
  obtain c where c: "current_task k = Some c" "c \<noteq> i" using settledD(6)[OF s] i by auto
  note wait = mutex_wait_safe[OF s inv _ _ c, of a timeout]
  have take: "mutex_inv i (upd_mutex a (\<lambda>x. x\<lparr>lock_count := 1, owner := Some c, original_priority := prio k c\<rparr>) s) (hold_add c a k)"
    if "live_mutex s a" "lock_count (mutexes s a) = 0"
    by (rule mutex_inv_take[OF inv that c(2)]) (use that kinv_prio[OF settledD(3)[OF s]] in \<open>simp_all add: upd_mutex_def\<close>)
  have run: "krun i (hold_add c a k)"
    unfolding hold_add_def by (rule krun_harmless[OF settledD(1)[OF s] settled_tick_pre[OF s]]) simp
  show ?thesis
    unfolding os_mutex_lock_def lock_context_def
    using settledD(1)[OF s] inv take run wait by (auto simp: c(1) os_is_schedule_locked_def)
qed

lemma os_mutex_recursive_lock_safe:
  assumes s: "settled i k" and inv: "mutex_inv i s k" and i: "current_task k \<noteq> Some i"
    and depth: "lock_count (mutexes s a) + 1 \<noteq> 0"
  shows "svc_safe (mutex_inv i) i (os_mutex_recursive_lock a timeout (s, k))"
proof -
  obtain c where c: "current_task k = Some c" "c \<noteq> i" using settledD(6)[OF s] i by auto
  note wait = mutex_wait_safe[OF s inv _ _ c, of a timeout]
  have take: "mutex_inv i (upd_mutex a (\<lambda>x. x\<lparr>lock_count := lock_count x + 1\<rparr>)
      (upd_mutex a (\<lambda>x. x\<lparr>original_priority := prio k c, owner := Some c\<rparr>) s)) (hold_add c a k)"
    if "live_mutex s a" "lock_count (mutexes s a) = 0"
    by (rule mutex_inv_take[OF inv that c(2)]) (use that kinv_prio[OF settledD(3)[OF s]] in \<open>simp_all add: upd_mutex_def\<close>)
  have again: "mutex_inv i (upd_mutex a (\<lambda>x. x\<lparr>lock_count := lock_count x + 1\<rparr>) s) k"
    if "live_mutex s a" "lock_count (mutexes s a) \<noteq> 0"
    by (rule mutex_inv_upd[OF inv]) (use mutex_invD(1)[OF inv that(1)] that(2) depth in \<open>simp_all add: mutex_ok_def\<close>)
  have run: "krun i (hold_add c a k)"
    unfolding hold_add_def by (rule krun_harmless[OF settledD(1)[OF s] settled_tick_pre[OF s]]) simp
  show ?thesis
    unfolding os_mutex_recursive_lock_def lock_context_def
    using settledD(1)[OF s] inv take again run wait by (auto simp: c(1) os_is_schedule_locked_def)
qed

subsection \<open>Unlocking keeps the invariants\<close>

definition first :: "'a list \<Rightarrow> 'a option" where
  "first xs = (case xs of [] \<Rightarrow> None | x # _ \<Rightarrow> Some x)"

lemma first_simps [simp]: "first [] = None" "first (x # xs) = Some x"
  by (simp_all add: first_def)

text \<open>The bookkeeping of a hand-over: \<open>new\<close> is the next owner, if there is one.\<close>

lemma mutex_inv_hand_over:
  assumes inv: "mutex_inv i s k" and live: "live_mutex s a" and o: "owner (mutexes s a) = Some c"
    and x: "\<And>b. b \<noteq> a \<Longrightarrow> mutexes s' b = mutexes s b" "owner (mutexes s' a) = new" "live_mutex s' a"
      "lock_count (mutexes s' a) = 0 \<longleftrightarrow> new = None" "new \<noteq> None \<Longrightarrow> unat (original_priority (mutexes s' a)) < 32"
    and h: "\<And>t. hold_mutex_list (tasks k' t) =
        removeAll a (hold_mutex_list (tasks k t)) @ (if new = Some t then [a] else [])"
    and new: "new \<noteq> Some i" "new = None \<Longrightarrow> task_lists k' (WQ a) = []"
    and l: "\<And>b. b \<noteq> a \<Longrightarrow> task_lists k (WQ b) = [] \<Longrightarrow> task_lists k' (WQ b) = []"
  shows "mutex_inv i s' k'"
proof -
  have "mutex_ok i (mutexes s' b) b k'" if "live_mutex s' b" for b
  proof (cases "b = a")
    case True
    then show ?thesis using x new h by (auto simp: mutex_ok_def)
  next
    case False
    then show ?thesis
      using mutex_invD(1)[OF inv, of b] that x(1)[OF False] l[OF False] h by (auto simp: mutex_ok_def)
  qed
  moreover have "live_mutex s' b \<and> owner (mutexes s' b) = Some t" if "b \<in> set (hold_mutex_list (tasks k' t))" for b t
    using that mutex_invD(2)[OF inv, of b t] x o by (cases "b = a") (auto simp: h split: if_splits)
  moreover have "distinct (hold_mutex_list (tasks k' t))" for t
    using mutex_invD(3)[OF inv, of t] by (simp add: h distinct_removeAll)
  ultimately show ?thesis unfolding mutex_inv_def by blast
qed

lemma mutex_release_keeps:
  assumes s: "settled i k" and inv: "mutex_inv i s k" and live: "live_mutex s a" and o: "owner (mutexes s a) = Some c"
    and c: "current_task k = Some c"
  shows "\<exists>s2 k2 need. mutex_release a c (s, k) = OK ((s2, k2), need) \<and> tick_keeps i k k2 need \<and> mutex_inv i s2 k2 \<and>
    owner (mutexes s2 a) = first (task_lists k (WQ a)) \<and> task_lists k2 (WQ a) = tl (task_lists k (WQ a)) \<and>
    hold_mutex_list (tasks k2 c) = removeAll a (hold_mutex_list (tasks k c))"
proof -
  note pre = settled_tick_pre[OF s]
  have ok: "c \<noteq> i" "unat (original_priority (mutexes s a)) < 32"
    and locked: "lock_count (mutexes s a) \<noteq> 0" and ca: "a \<in> set (hold_mutex_list (tasks k c))"
    using mutex_invD(1)[OF inv live] o by (auto simp: mutex_ok_def)
  let ?k0 = "hold_del c a k"
  have k0: "tick_keeps i k ?k0 False" unfolding hold_del_def by (rule keeps_harmless[OF pre]) simp
  have hold0: "hold_mutex_list (tasks ?k0 t) = removeAll a (hold_mutex_list (tasks k t))" for t
  proof (cases "t = c")
    case False
    then have "a \<notin> set (hold_mutex_list (tasks k t))" using mutex_invD(2)[OF inv, of a t] o by auto
    then show ?thesis using False by (simp add: hold_del_def)
  qed (simp add: hold_del_def)
  have lists0: "task_lists ?k0 = task_lists k" by (simp add: hold_del_def)
  have pre0: "tick_pre i ?k0" using k0 by (simp add: tick_keeps_def)
  obtain k1 n1 where k1: "(if mtx_wake_type (mutexes s a) = WAKE_TYPE_PRIO
        then k_mutex_restore_priority a (s, ?k0) else OK (?k0, False)) = OK (k1, n1)"
    and keeps1: "tick_keeps i ?k0 k1 n1" and w1: "\<And>w. task_lists k1 (WQ w) = task_lists k (WQ w)"
    and h1: "\<And>t. hold_mutex_list (tasks k1 t) = removeAll a (hold_mutex_list (tasks k t))"
  proof (cases "mtx_wake_type (mutexes s a) = WAKE_TYPE_PRIO")
    case True
    obtain k' need p where r: "k_mutex_restore_priority a (s, ?k0) = OK (k', need)" "tick_keeps i ?k0 k' need"
      "tasks k' = (tasks ?k0)(c := (tasks ?k0 c)\<lparr>current_priority := p\<rparr>)"
      "\<forall>w. task_lists k' (WQ w) = task_lists ?k0 (WQ w)"
      using k_mutex_restore_keeps[OF pre0 o ok] by blast
    have "hold_mutex_list (tasks k' t) = hold_mutex_list (tasks ?k0 t)" for t by (simp add: r(3))
    then show ?thesis by (intro that[of k' need]) (use True r(1,2,4) in \<open>simp_all add: hold0 lists0\<close>)
  next
    case False
    show ?thesis by (rule that[of ?k0 False]) (use False pre0 in \<open>simp_all add: hold0 lists0\<close>)
  qed
  have keeps: "tick_keeps i k k1 n1" by (rule tick_keeps_trans[OF k0 keeps1]) auto
  have pre1: "tick_pre i k1" using keeps by (simp add: tick_keeps_def)
  show ?thesis
  proof (cases "task_lists k1 (WQ a)")
    case Nil
    have "mutex_inv i (upd_mutex a (\<lambda>x. x\<lparr>owner := None, lock_count := 0\<rparr>) s) k1"
      by (rule mutex_inv_hand_over[OF inv live o, where new = None]) (use live h1 w1 Nil in auto)
    then show ?thesis
      using k1 keeps Nil w1[of a] h1 by (auto simp: mutex_release_def mutex_hand_over_def Let_def)
  next
    case (Cons t ts)
    have t: "t \<in> set (task_lists k1 (WQ a))" using Cons by simp
    note u = k_unblock_waiter[OF pre1 t]
    let ?k2 = "hold_add t a (unblocked t k1)"
    let ?s2 = "upd_mutex a (\<lambda>x. x\<lparr>owner := Some t, original_priority := prio (unblocked t k1) t\<rparr>) s"
    let ?rdy = "has_flag (tstate (unblocked t k1) t) OS_TASK_STATE_READY"
    have pre2: "tick_pre i (unblocked t k1)" using u(2) by (simp add: tick_keeps_def)
    have keeps2: "tick_keeps i k ?k2 (n1 \<or> ?rdy)"
    proof (rule tick_keeps_trans)
      show "tick_keeps i k (unblocked t k1) (n1 \<or> ?rdy)" by (rule tick_keeps_trans[OF keeps u(2)])
      show "tick_keeps i (unblocked t k1) ?k2 False" unfolding hold_add_def by (rule keeps_harmless[OF pre2]) simp
    qed auto
    have ti: "t \<noteq> i" using waiter_not_ready[OF tick_preD(1)[OF pre1] t] kinvD(7)[OF tick_preD(1)[OF pre1]] by auto
    have "mutex_inv i ?s2 ?k2"
      by (rule mutex_inv_hand_over[OF inv live o, where new = "Some t"])
         (use live h1 w1 ti locked kinv_prio[OF tick_preD(1)[OF pre1]] in \<open>auto simp: hold_add_def\<close>)
    moreover have "t \<noteq> c"
      using waiter_not_ready[OF tick_preD(1)[OF pre], of t a] tick_preD(3)[OF pre c] t w1[of a] by auto
    moreover have "removeAll t ts = ts" using kinvD(2)[OF tick_preD(1)[OF pre1], of "WQ a"] Cons by simp
    ultimately show ?thesis
      using k1 keeps2 Cons u(1) w1[of a] h1 by (auto simp: mutex_release_def mutex_hand_over_def Let_def hold_add_def)
  qed
qed

lemma drop_inherited_keeps:
  assumes pre: "tick_pre i k" and c: "current_task k = Some c" "c \<noteq> i"
  shows "\<exists>k' need. drop_inherited c k = OK (k', need) \<and> tick_keeps i k k' need \<and>
    (\<forall>t. hold_mutex_list (tasks k' t) = hold_mutex_list (tasks k t)) \<and>
    (\<forall>w. task_lists k' (WQ w) = task_lists k (WQ w)) \<and>
    (hold_mutex_list (tasks k c) = [] \<longrightarrow> prio k' c = backup_priority (tasks k' c))"
proof (cases "hold_mutex_list (tasks k c) = [] \<and> prio k c \<noteq> backup_priority (tasks k c)")
  case True
  let ?p = "backup_priority (tasks k c)"
  note r = tick_preD(3)[OF pre c(1)]
  have p: "unat ?p < 32" by (rule task_wfD(2)[OF kinvD(6)[OF tick_preD(1)[OF pre]]])
  have "drop_inherited c k = requeue_priority c ?p k"
    using True r by (auto simp: drop_inherited_def requeue_priority_def upd_task_def bind_res_assoc
        dest!: k_readyq_remove_cpu intro!: bind_res_cong)
  then show ?thesis using requeue_priority_keeps[OF pre c(2) p] by auto
next
  case False
  then show ?thesis using pre by (auto simp: drop_inherited_def intro!: exI[of _ False])
qed

lemma mutex_unlock_tail:
  assumes s: "settled i k" and c: "current_task k = Some c" "c \<noteq> i"
    and k1: "tick_keeps i k k1 need1" "mutex_inv i s1 k1"
  shows "\<exists>k2 need2. drop_inherited c k1 = OK (k2, need2) \<and> krun i (exit_if (need1 \<or> need2) k2) \<and>
    mutex_inv i s1 (exit_if (need1 \<or> need2) k2) \<and> (\<forall>w. task_lists k2 (WQ w) = task_lists k1 (WQ w)) \<and>
    (\<forall>t. hold_mutex_list (tasks k2 t) = hold_mutex_list (tasks k1 t)) \<and>
    (hold_mutex_list (tasks k1 c) = [] \<longrightarrow> prio k2 c = backup_priority (tasks k2 c))"
proof -
  have pre1: "tick_pre i k1" and cpu: "same_cpu k k1" using k1(1) by (simp_all add: tick_keeps_def)
  have c1: "current_task k1 = Some c" using cpu c(1) by (simp add: same_cpu_def)
  obtain k2 need2 where k2: "drop_inherited c k1 = OK (k2, need2)" "tick_keeps i k1 k2 need2"
    "\<And>t. hold_mutex_list (tasks k2 t) = hold_mutex_list (tasks k1 t)"
    "\<And>w. task_lists k2 (WQ w) = task_lists k1 (WQ w)"
    "hold_mutex_list (tasks k1 c) = [] \<longrightarrow> prio k2 c = backup_priority (tasks k2 c)"
    using drop_inherited_keeps[OF pre1 c1 c(2)] by blast
  have "tick_keeps i k k2 (need1 \<or> need2)" by (rule tick_keeps_trans[OF k1(1) k2(2)])
  then have "krun i (exit_if (need1 \<or> need2) k2)"
    using krun_of_keeps(1)[OF settledD(1)[OF s]] by (auto simp: exit_if_def)
  moreover have "mutex_inv i s1 (exit_if (need1 \<or> need2) k2)"
    by (rule mutex_inv_frame[OF k1(2)]) (use k2 in \<open>auto simp: exit_if_def\<close>)
  ultimately show ?thesis using k2(1,3,4,5) by blast
qed

lemma os_mutex_unlock_safe:
  assumes s: "settled i k" and inv: "mutex_inv i s k"
  shows "svc_safe (mutex_inv i) i (os_mutex_unlock a (s, k))"
proof -
  obtain c where c: "current_task k = Some c" using settledD(6)[OF s] by auto
  show ?thesis
  proof (cases "live_mutex s a \<and> owner (mutexes s a) = Some c")
    case True
    then have ci: "c \<noteq> i" using mutex_invD(1)[OF inv, of a] by (auto simp: mutex_ok_def)
    obtain s1 k1 n1 where r: "mutex_release a c (s, k) = OK ((s1, k1), n1)" "tick_keeps i k k1 n1" "mutex_inv i s1 k1"
      using mutex_release_keeps[OF s inv _ _ c, of a] True by blast
    show ?thesis
      using mutex_unlock_tail[OF s c ci r(2,3)] r(1) by (auto simp: os_mutex_unlock_def c)
  qed (auto simp: os_mutex_unlock_def c os_assert_def)
qed

lemma os_mutex_recursive_unlock_safe:
  assumes s: "settled i k" and inv: "mutex_inv i s k"
  shows "svc_safe (mutex_inv i) i (os_mutex_recursive_unlock a (s, k))"
proof -
  obtain c where c: "current_task k = Some c" using settledD(6)[OF s] by auto
  let ?dec = "upd_mutex a (\<lambda>x. x\<lparr>lock_count := lock_count x - 1\<rparr>) s"
  show ?thesis
  proof (cases "live_mutex s a \<and> owner (mutexes s a) = Some c")
    case True
    then have ci: "c \<noteq> i" using mutex_invD(1)[OF inv, of a] by (auto simp: mutex_ok_def)
    obtain s1 k1 n1 where r: "mutex_release a c (s, k) = OK ((s1, k1), n1)" "tick_keeps i k k1 n1" "mutex_inv i s1 k1"
      using mutex_release_keeps[OF s inv _ _ c, of a] True by blast
    have dec: "mutex_inv i ?dec k" if "1 < lock_count (mutexes s a)"
      by (rule mutex_inv_upd[OF inv])
         (use mutex_invD(1)[OF inv, of a] True that in \<open>auto simp: mutex_ok_def\<close>)
    have keep: "tick_keeps i k k False" using settled_tick_pre[OF s] by simp
    show ?thesis
      using mutex_unlock_tail[OF s c ci r(2,3)] mutex_unlock_tail[OF s c ci keep dec] r(1)
      by (auto simp: os_mutex_recursive_unlock_def c)
  qed (auto simp: os_mutex_recursive_unlock_def c os_assert_def)
qed

subsection \<open>Creating and deleting\<close>

lemma mutex_inv_dead:
  assumes inv: "mutex_inv i s k" and x: "\<And>b. b \<noteq> a \<Longrightarrow> mutexes s' b = mutexes s b" "\<not> live_mutex s' a"
    and h: "\<And>t. hold_mutex_list (tasks k' t) = removeAll a (hold_mutex_list (tasks k t))"
    and l: "\<And>b. b \<noteq> a \<Longrightarrow> task_lists k' (WQ b) = task_lists k (WQ b)"
  shows "mutex_inv i s' k'"
proof -
  have "mutex_ok i (mutexes s' b) b k'" if "live_mutex s' b" for b
  proof -
    have b: "b \<noteq> a" using that x(2) by auto
    then show ?thesis using mutex_invD(1)[OF inv, of b] that x(1)[OF b] l[OF b] h by (auto simp: mutex_ok_def)
  qed
  moreover have "live_mutex s' b \<and> owner (mutexes s' b) = Some t" if "b \<in> set (hold_mutex_list (tasks k' t))" for b t
    using that mutex_invD(2)[OF inv, of b t] x(1)[of b] by (auto simp: h)
  moreover have "distinct (hold_mutex_list (tasks k' t))" for t
    using mutex_invD(3)[OF inv, of t] by (simp add: h distinct_removeAll)
  ultimately show ?thesis unfolding mutex_inv_def by blast
qed

lemma mutex_inv_new:
  assumes inv: "mutex_inv i s k" and dead: "\<not> live_mutex s a" and l: "task_lists k (WQ a) = []"
    and x: "\<And>b. b \<noteq> a \<Longrightarrow> mutexes s' b = mutexes s b" "owner (mutexes s' a) = None" "lock_count (mutexes s' a) = 0"
  shows "mutex_inv i s' k"
proof -
  have "mutex_ok i (mutexes s' b) b k" if "live_mutex s' b" for b
    using mutex_invD(1)[OF inv, of b] that x l by (cases "b = a") (auto simp: mutex_ok_def)
  moreover have "live_mutex s' b \<and> owner (mutexes s' b) = Some t" if "b \<in> set (hold_mutex_list (tasks k t))" for b t
    using mutex_invD(2)[OF inv that] x(1)[of b] dead by (cases "b = a") auto
  ultimately show ?thesis using mutex_invD(3)[OF inv] unfolding mutex_inv_def by blast
qed

lemma k_mutex_init_inv:
  assumes "mutex_inv i s k" "\<not> live_mutex s a" "task_lists k (WQ a) = []"
  shows "\<exists>s'. k_mutex_init a nm recursive alloc (s\<lparr>mutex_resource_list := r\<rparr>, k) = (s', k) \<and> mutex_inv i s' k"
proof -
  have "k\<lparr>task_lists := (task_lists k)(WQ a := [])\<rparr> = k" using assms(3) by (simp add: fun_upd_idem)
  then show ?thesis
    by (auto simp: k_mutex_init_def upd_mutex_def intro!: mutex_inv_new[OF assms])
qed

lemma k_mutex_init_safe:
  assumes "krun i k" "mutex_inv i s k" "\<not> live_mutex s a" "task_lists k (WQ a) = []"
  shows "svc_safe (mutex_inv i) i (OK (k_mutex_init a nm recursive alloc (s\<lparr>mutex_resource_list := r\<rparr>, k), v))"
  using k_mutex_init_inv[OF assms(2-4), of nm recursive alloc r] assms(1) by auto

lemma k_mutex_deinit_run:
  assumes s: "settled i k" and inv: "mutex_inv i s k" and live: "live_mutex s a"
  shows "\<exists>s' k'. k_mutex_deinit a (s, k) = OK (s', k') \<and> krun i k' \<and> mutex_inv i s' k'"
proof (cases "owner (mutexes s a)")
  case None
  have "removeAll a (hold_mutex_list (tasks k t)) = hold_mutex_list (tasks k t)" for t
    using mutex_invD(2)[OF inv, of a t] None by (intro removeAll_id) auto
  then show ?thesis
    using settledD(1)[OF s] None
    by (auto simp: k_mutex_deinit_def Let_def OS_KOBJ_INITED_def OS_KOBJ_DEINITED_def upd_mutex_def
        intro!: mutex_inv_dead[OF inv, of a])
next
  case (Some t)
  note pre = settled_tick_pre[OF s]
  have ti: "t \<noteq> i" using mutex_invD(1)[OF inv live] Some by (simp add: mutex_ok_def)
  have p: "unat (backup_priority (tasks k t)) < 32" by (rule task_wfD(2)[OF kinvD(6)[OF tick_preD(1)[OF pre]]])
  obtain k1 n where k1: "(if prio k t \<noteq> backup_priority (tasks k t)
        then requeue_priority t (backup_priority (tasks k t)) k else OK (k, False)) = OK (k1, n)"
    and keeps: "tick_keeps i k k1 n" and w1: "\<And>w. task_lists k1 (WQ w) = task_lists k (WQ w)"
    and h1: "\<And>u. hold_mutex_list (tasks k1 u) = hold_mutex_list (tasks k u)"
  proof (cases "prio k t \<noteq> backup_priority (tasks k t)")
    case True
    then show ?thesis using requeue_priority_keeps[OF pre ti p] that by auto
  next
    case False
    show ?thesis by (rule that[of k False]) (use False pre in auto)
  qed
  have "tick_keeps i k1 (hold_del t a k1) False"
    unfolding hold_del_def by (rule keeps_harmless) (use keeps in \<open>simp_all add: tick_keeps_def\<close>)
  then have "tick_pre i (hold_del t a k1)" by (simp add: tick_keeps_def)
  then obtain k2 where k2: "k_cancle_all_blocked_task a (hold_del t a k1) = OK k2" "tick_pre i k2"
    "\<forall>v. v \<noteq> a \<longrightarrow> task_lists k2 (WQ v) = task_lists (hold_del t a k1) (WQ v)"
    "tasks k2 = (\<lambda>u. if u \<in> set (task_lists (hold_del t a k1) (WQ a)) then cancelled_tcb (tasks (hold_del t a k1) u)
        else tasks (hold_del t a k1) u)"
    using k_cancle_keeps[of i "hold_del t a k1" a] by blast
  have other: "u \<noteq> t \<Longrightarrow> removeAll a (hold_mutex_list (tasks k u)) = hold_mutex_list (tasks k u)" for u
    using mutex_invD(2)[OF inv, of a u] Some by (intro removeAll_id) auto
  have hold: "hold_mutex_list (tasks k2 u) = removeAll a (hold_mutex_list (tasks k u))" for u
    using other[of u] by (cases "u = t") (auto simp: k2(4) hold_del_def cancelled_tcb_def h1)
  have "mutex_inv i s' (k_kernel_exit_sched k2)"
    if "\<And>b. b \<noteq> a \<Longrightarrow> mutexes s' b = mutexes s b" "\<not> live_mutex s' a" for s'
    by (rule mutex_inv_dead[OF inv that]) (use k2(3) w1 hold in \<open>simp_all add: hold_del_def\<close>)
  then have "mutex_inv i ((upd_mutex a (\<lambda>x. x\<lparr>mtx_object_inited := OS_KOBJ_DEINITED\<rparr>) s)\<lparr>mutex_resource_list := r\<rparr>)
      (k_kernel_exit_sched k2)" for r
    by (simp add: upd_mutex_def OS_KOBJ_INITED_def OS_KOBJ_DEINITED_def)
  moreover have "krun i (k_kernel_exit_sched k2)" using k2(2) krun_exit_sched by (simp add: tick_pre_def)
  ultimately show ?thesis using k1 k2(1) Some by (simp add: k_mutex_deinit_def Let_def)
qed

text \<open>
  The part of a lock after the switch keeps the invariants as long as the mutex has an
  owner; \<open>current\<close> is the task that timed out.
\<close>

lemma mutex_lock_resume_safe:
  assumes s: "settled i k" and inv: "mutex_inv i s k" and live: "live_mutex s a" and o: "owner (mutexes s a) \<noteq> None"
  shows "svc_safe (mutex_inv i) i (mutex_lock_resume a c (s, k))"
proof -
  note pre = settled_tick_pre[OF s]
  obtain t where t: "owner (mutexes s a) = Some t" using o by auto
  have ok: "t \<noteq> i" "unat (original_priority (mutexes s a)) < 32"
    using mutex_invD(1)[OF inv live] t by (auto simp: mutex_ok_def)
  obtain k' need p where r: "k_mutex_restore_priority a (s, k) = OK (k', need)" "tick_keeps i k k' need"
    "tasks k' = (tasks k)(t := (tasks k t)\<lparr>current_priority := p\<rparr>)" "\<forall>w. task_lists k' (WQ w) = task_lists k (WQ w)"
    using k_mutex_restore_keeps[OF pre t ok] by blast
  have "mutex_inv i s (exit_if need k')"
    by (rule mutex_inv_frame[OF inv]) (use r(3,4) in \<open>auto simp: exit_if_def\<close>)
  moreover have "krun i (exit_if need k')"
    using krun_of_keeps(1)[OF settledD(1)[OF s] r(2)] by (simp add: exit_if_def)
  ultimately show ?thesis
    using r(1) settledD(1)[OF s] inv by (simp add: mutex_lock_resume_def Let_def exit_if_def)
qed

subsection \<open>The mutexes as a service\<close>

datatype mutex_call = Mutex_init nat "string option" bool | Mutex_create "string option" bool "nat option"
  | Mutex_deinit nat | Mutex_destroy nat | Mutex_lock nat u32 | Mutex_recursive_lock nat u32
  | Mutex_lock_resume nat | Mutex_unlock nat | Mutex_recursive_unlock nat | Mutex_set_wake_type nat u8

definition mutex_service :: "(mutex_sys, mutex_call, os_err outcome) service" where
  "mutex_service x sk = (case x of
     Mutex_init a nm r \<Rightarrow> returns (os_mutex_init a nm r sk)
   | Mutex_create nm r mem \<Rightarrow>
       bind_res (os_mutex_create nm r mem sk) (\<lambda>(sk1, a). OK (sk1, Returns (if a = None then OS_ENOMEM else OS_EOK)))
   | Mutex_deinit a \<Rightarrow> returns (os_mutex_deinit a sk)
   | Mutex_destroy a \<Rightarrow> returns (os_mutex_destroy a sk)
   | Mutex_lock a timeout \<Rightarrow> os_mutex_lock a timeout sk
   | Mutex_recursive_lock a timeout \<Rightarrow> os_mutex_recursive_lock a timeout sk
   | Mutex_lock_resume a \<Rightarrow> (case current_task (snd sk) of None \<Rightarrow> Fault AssertFail
                             | Some c \<Rightarrow> returns (mutex_lock_resume a c sk))
   | Mutex_unlock a \<Rightarrow> returns (os_mutex_unlock a sk)
   | Mutex_recursive_unlock a \<Rightarrow> returns (os_mutex_recursive_unlock a sk)
   | Mutex_set_wake_type a wt \<Rightarrow> returns (os_mutex_set_wake_type a wt sk))"

text \<open>
  A new mutex is not one in use, the idle task never locks, recursive locks do not nest
  \<open>2 ^ 32\<close> deep, and a lock is resumed on a mutex that still has an owner.
\<close>

definition mutex_allowed :: "tid \<Rightarrow> mutex_call \<Rightarrow> mutex_sys \<Rightarrow> kernel \<Rightarrow> bool" where
  "mutex_allowed i x s k = (case x of
     Mutex_init a nm r \<Rightarrow> \<not> live_mutex s a \<and> task_lists k (WQ a) = []
   | Mutex_create nm r mem \<Rightarrow> (case mem of None \<Rightarrow> True | Some a \<Rightarrow> \<not> live_mutex s a \<and> task_lists k (WQ a) = [])
   | Mutex_lock a timeout \<Rightarrow> current_task k \<noteq> Some i
   | Mutex_recursive_lock a timeout \<Rightarrow> current_task k \<noteq> Some i \<and> lock_count (mutexes s a) + 1 \<noteq> 0
   | Mutex_lock_resume a \<Rightarrow> live_mutex s a \<and> owner (mutexes s a) \<noteq> None
   | _ \<Rightarrow> True)"

lemma os_mutex_set_wake_type_safe:
  assumes "settled i k" "mutex_inv i s k"
  shows "svc_safe (mutex_inv i) i (os_mutex_set_wake_type a wt (s, k))"
proof -
  have "mutex_inv i (upd_mutex a (\<lambda>x. x\<lparr>mtx_wake_type := wt\<rparr>) s) k"
    by (rule mutex_inv_upd[OF assms(2)]) (use mutex_invD(1)[OF assms(2), of a] in \<open>auto simp: mutex_ok_def\<close>)
  then show ?thesis unfolding os_mutex_set_wake_type_def using settledD(1)[OF assms(1)] assms(2) by auto
qed

lemma mutex_service_safe:
  assumes s: "settled i k" and inv: "mutex_inv i s k" and a: "mutex_allowed i x s k"
  shows "svc_safe (mutex_inv i) i (mutex_service x (s, k))"
proof (cases x)
  case (Mutex_init a' nm r)
  then show ?thesis
    using a settledD(1)[OF s] inv
    by (auto simp: mutex_service_def mutex_allowed_def os_mutex_init_def
        intro!: svc_safe_returns k_mutex_init_safe)
next
  case (Mutex_create nm r mem)
  then show ?thesis
    using a settledD(1)[OF s] inv
    by (auto simp: mutex_service_def mutex_allowed_def os_mutex_create_def task_context_def
        simp del: svc_safe_simps(1) intro!: svc_safe_bind k_mutex_init_safe split: option.splits)
       (simp_all add: svc_safe_def)
next
  case (Mutex_deinit a')
  then show ?thesis
    using k_mutex_deinit_run[OF s inv, of a']
    by (auto simp: mutex_service_def os_mutex_deinit_def intro!: svc_safe_returns)
next
  case (Mutex_destroy a')
  then show ?thesis
    using k_mutex_deinit_run[OF s inv, of a']
    by (auto simp: mutex_service_def os_mutex_destroy_def task_context_def intro!: svc_safe_returns)
next
  case (Mutex_lock_resume a')
  then show ?thesis
    using a mutex_lock_resume_safe[OF s inv, of a']
    by (auto simp: mutex_service_def mutex_allowed_def intro!: svc_safe_returns split: option.split)
qed (use a in \<open>auto simp: mutex_service_def mutex_allowed_def intro!: svc_safe_returns os_mutex_lock_safe[OF s inv]
       os_mutex_recursive_lock_safe[OF s inv] os_mutex_unlock_safe[OF s inv] os_mutex_recursive_unlock_safe[OF s inv]
       os_mutex_set_wake_type_safe[OF s inv]\<close>)

lemma mutex_inv_dispatch: "mutex_inv i s k \<Longrightarrow> krun i k \<Longrightarrow> dispatch k = OK k' \<Longrightarrow> mutex_inv i s k'"
  by (rule mutex_inv_frame) (simp_all add: dispatch_wait_frame)

interpretation mutex_srv: kernel_service mutex_service mutex_allowed mutex_inv
  by (rule kernel_service_svc, fact mutex_service_safe, fact mutex_inv_dispatch)

lemma mutex_inv_holders:
  assumes "mutex_inv i s k" "live_mutex s a"
  shows "a \<in> set (hold_mutex_list (tasks k t)) \<longleftrightarrow> os_mutex_get_owner a s = Some t"
    "lock_count (mutexes s a) = 0 \<longleftrightarrow> os_mutex_get_owner a s = None"
    "os_mutex_get_owner a s = None \<Longrightarrow> task_lists k (WQ a) = []"
  using mutex_invD(1)[OF assms] mutex_invD(2)[OF assms(1), of a t] by (auto simp: mutex_ok_def os_mutex_get_owner_def)

subsection \<open>Properties\<close>

text \<open>
  C4. Mutual exclusion: any allowed sequence of mutex calls stops in an assertion or keeps
  the scheduling invariant and leaves every live mutex with at most one holder: a task
  lists the mutex among those it holds exactly when it is the recorded owner, the lock
  count is zero exactly when there is no owner, and nobody waits for a free mutex.
\<close>

theorem mutex_calls_exclusive:
  assumes "settled i k" "mutex_inv i s k" "calls_allowed mutex_service (mutex_allowed i) xs (s, k)"
  shows "run_calls mutex_service xs (s, k) = Fault AssertFail \<or>
    (\<exists>s' k' rs. run_calls mutex_service xs (s, k) = OK ((s', k'), rs) \<and> settled i k' \<and>
      (\<forall>a. live_mutex s' a \<longrightarrow>
        (\<forall>t. a \<in> set (hold_mutex_list (tasks k' t)) \<longleftrightarrow> os_mutex_get_owner a s' = Some t) \<and>
        (lock_count (mutexes s' a) = 0 \<longleftrightarrow> os_mutex_get_owner a s' = None) \<and>
        (os_mutex_get_owner a s' = None \<longrightarrow> task_lists k' (WQ a) = [])))"
  using mutex_srv.run_settled[OF assms]
proof (elim disjE exE conjE)
  fix s' k' rs
  assume run: "run_calls mutex_service xs (s, k) = OK ((s', k'), rs)" "settled i k'" and inv: "mutex_inv i s' k'"
  show ?thesis using run mutex_inv_holders[OF inv] by simp
qed simp

definition bss_mutexes :: mutex_sys where
  "bss_mutexes = \<lparr>mutexes = (\<lambda>_. \<lparr>owner = None, lock_count = 0, is_recursive = False, mtx_object_inited = 0,
     mtx_object_alloc_type = 0, mtx_wake_type = 0, original_priority = 0, mtx_name = ''''\<rparr>), mutex_resource_list = []\<rparr>"

lemma bss_mutexes_inv: "(\<And>t. hold_mutex_list (tasks k t) = []) \<Longrightarrow> mutex_inv i bss_mutexes k"
  by (simp add: mutex_inv_def bss_mutexes_def OS_KOBJ_INITED_def)

lemma sample_hold_none: "hold_mutex_list (tasks sample t) = []"
  by (simp add: sample_tasks_def sample_tcb_def zero_tcb_def)

lemmas mutex_eval = wait_eval mutex_service_def os_mutex_init_def k_mutex_init_def os_mutex_lock_def mutex_wait_def
  k_mutex_set_owner_priority_def requeue_priority_def os_mutex_unlock_def mutex_release_def mutex_hand_over_def
  drop_inherited_def k_mutex_restore_priority_def hold_add_def hold_del_def exit_if_def upd_mutex_def lock_context_def

theorem mutex_calls_exclusive_witness:
  "\<exists>s' k'. run_calls mutex_service [Mutex_init 201 None False, Mutex_lock 201 0] (bss_mutexes, sample) =
      OK ((s', k'), [Returns OS_EOK, Returns OS_EOK]) \<and> settled 3 k' \<and> live_mutex s' 201 \<and>
    (\<forall>t. 201 \<in> set (hold_mutex_list (tasks k' t)) \<longleftrightarrow> t = 1)"
proof -
  let ?xs = "[Mutex_init 201 None False, Mutex_lock 201 0]"
  have a: "calls_allowed mutex_service (mutex_allowed 3) ?xs (bss_mutexes, sample)"
    by (simp add: mutex_allowed_def mutex_eval bss_mutexes_def)
  obtain s' k' where "run_calls mutex_service ?xs (bss_mutexes, sample) = OK ((s', k'), [Returns OS_EOK, Returns OS_EOK])"
    "live_mutex s' 201" "os_mutex_get_owner 201 s' = Some 1"
    by (simp add: mutex_eval bss_mutexes_def os_mutex_get_owner_def)
  then show ?thesis
    using mutex_calls_exclusive[OF sample_settled bss_mutexes_inv[OF sample_hold_none] a] by auto
qed

text \<open>
  C6. Priority inheritance: a task that blocks on a mutex in priority order raises the owner
  to its own priority if that is better, and only then; it is itself not ready any more and waits
  in the list of the mutex; every other task keeps its control block.
\<close>

theorem mutex_lock_inherits:
  assumes "settled i k" "mutex_inv i s k" "live_mutex s a" "\<not> is_recursive (mutexes s a)"
    and "mtx_wake_type (mutexes s a) = WAKE_TYPE_PRIO" "owner (mutexes s a) = Some t" "current_task k = Some c" "c \<noteq> t"
    and "c \<noteq> i" "lock_context timeout k (OK ()) = OK ()" "timeout \<noteq> OS_NO_WAIT"
  shows "\<exists>k'. os_mutex_lock a timeout (s, k) = OK ((s, k'), Blocks) \<and> krun i k' \<and>
    prio k' t = min (prio k t) (prio k c) \<and> c \<in> set (task_lists k' (WQ a)) \<and>
    \<not> has_flag (tstate k' c) OS_TASK_STATE_READY \<and> (\<forall>u. u \<noteq> t \<longrightarrow> u \<noteq> c \<longrightarrow> tasks k' u = tasks k u)"
proof -
  note pre = settled_tick_pre[OF assms(1)]
  have ok: "t \<noteq> i" "lock_count (mutexes s a) \<noteq> 0"
    using mutex_invD(1)[OF assms(2,3)] assms(6) by (auto simp: mutex_ok_def)
  have ctx: "lock_context timeout k m = m" for m :: "((mutex_sys \<times> kernel) \<times> os_err outcome) res"
    using assms(10) by (auto simp: lock_context_def os_assert_def split: if_splits)
  have free: "sched_lock_cnt k = 0"
    using assms(10,11) by (auto simp: lock_context_def os_is_schedule_locked_def res_simps)
  obtain k1 n where k1: "(if prio k c < prio k t then k_mutex_set_owner_priority a (prio k c) (s, k) else OK (k, False)) = OK (k1, n)"
    "tick_keeps i k k1 n" "tasks k1 = (tasks k)(t := (tasks k t)\<lparr>current_priority := min (prio k t) (prio k c)\<rparr>)"
  proof (cases "prio k c < prio k t")
    case True
    then have "min (prio k t) (prio k c) = prio k c" by simp
    then show ?thesis
      using requeue_priority_keeps[OF pre ok(1) kinv_prio[OF tick_preD(1)[OF pre], of c]] True that
      by (auto simp: k_mutex_set_owner_priority_def assms(6))
  next
    case False
    then have "min (prio k t) (prio k c) = prio k t" by simp
    then show ?thesis using False pre that[of k False] by simp
  qed
  have pre1: "tick_pre i k1" "current_task k1 = Some c" "sched_lock_cnt k1 = 0"
    using k1(2) assms(7) free by (simp_all add: tick_keeps_def same_cpu_def)
  obtain k2 where k2: "k_block_task (WQ a) c timeout True k1 = OK k2" "kmid i k2"
    "task_lists k2 = wait_insert (WQ a) c True k1" "tasks k2 = (tasks k1)(c := blocked_tcb (WQ a) timeout True (os_tick k1) (tasks k1 c))"
    using k_block_task_mid[OF pre1(1,2) assms(9) pre1(3)] by blast
  have "krun i (k_kernel_exit_sched k2)" using k2(2) krun_exit_sched by simp
  moreover have "os_mutex_lock a timeout (s, k) = OK ((s, k_kernel_exit_sched k2), Blocks)"
    using assms(3-8,11) ok ctx k1(1) k2(1) by (simp add: os_mutex_lock_def mutex_wait_def)
  ultimately show ?thesis using assms(8) k2(3,4) k1(3) by simp
qed

text \<open>
  Two mutexes on the sample: task 1 owns the one at the wait list on which task 4 waits, task 4
  owns another one.
\<close>

definition owned_by :: "tid \<Rightarrow> u8 \<Rightarrow> os_mutex" where
  "owned_by t p = \<lparr>owner = Some t, lock_count = 1, is_recursive = False, mtx_object_inited = OS_KOBJ_INITED,
     mtx_object_alloc_type = OS_KOBJ_ALLOC_TYPE_STATIC, mtx_wake_type = WAKE_TYPE_PRIO, original_priority = p, mtx_name = ''''\<rparr>"

definition sample_mutexes :: mutex_sys where
  "sample_mutexes = bss_mutexes\<lparr>mutexes := (mutexes bss_mutexes)(100 := owned_by 1 2, 201 := owned_by 4 5)\<rparr>"

definition sample_held :: kernel where
  "sample_held = hold_add 4 201 (hold_add 1 100 sample)"

lemma sample_held_settled: "settled 3 sample_held"
  by (simp add: sample_held_def hold_add_def settled_harmless sample_settled)

lemma sample_mutexes_inv: "mutex_inv 3 sample_mutexes sample_held"
proof -
  have h: "hold_mutex_list (tasks sample_held t) = (if t = 1 then [100] else if t = 4 then [201] else [])" for t
    using sample_hold_none[of t] by (auto simp: sample_held_def hold_add_def)
  show ?thesis
    unfolding mutex_inv_def h
    by (auto simp: sample_mutexes_def bss_mutexes_def owned_by_def mutex_ok_def h OS_KOBJ_INITED_def split: if_splits)
qed

lemmas sample_held_eval = sample_mutexes_def bss_mutexes_def owned_by_def sample_held_def hold_add_def
  sample_lists_def sample_tasks_def sample_tcb_def zero_tcb_def

theorem mutex_lock_inherits_witness:
  "\<exists>k'. os_mutex_lock 201 9 (sample_mutexes, sample_held) = OK ((sample_mutexes, k'), Blocks) \<and> krun 3 k' \<and>
    prio sample_held 4 = 5 \<and> prio k' 4 = 2 \<and> 1 \<in> set (task_lists k' (WQ 201)) \<and> tasks k' 2 = tasks sample 2"
proof -
  have ctx: "lock_context 9 sample_held (OK ()) = OK ()"
    by (simp add: lock_context_def os_is_schedule_locked_def OS_TICK_MAX_def sample_held_def hold_add_def)
  show ?thesis
    using mutex_lock_inherits[OF sample_held_settled sample_mutexes_inv, of 201 4 1 9] ctx
    by (fastforce simp: sample_held_eval OS_NO_WAIT_def min_def)
qed

text \<open>
  C7. Unlocking hands the mutex to the first task that waits for it, which leaves the list, or
  frees it when there is none; the caller no longer lists it, and a caller that
  holds no other mutex is back at its own priority.
\<close>

theorem mutex_unlock_hands_over:
  assumes "settled i k" "mutex_inv i s k" "live_mutex s a" "\<not> is_recursive (mutexes s a)" "\<not> irq_active k"
    and "owner (mutexes s a) = Some c" "current_task k = Some c"
  shows "\<exists>s' k'. os_mutex_unlock a (s, k) = OK ((s', k'), OS_EOK) \<and> krun i k' \<and> mutex_inv i s' k' \<and>
    os_mutex_get_owner a s' = first (task_lists k (WQ a)) \<and> task_lists k' (WQ a) = tl (task_lists k (WQ a)) \<and>
    hold_mutex_list (tasks k' c) = removeAll a (hold_mutex_list (tasks k c)) \<and>
    (set (hold_mutex_list (tasks k c)) = {a} \<longrightarrow> prio k' c = backup_priority (tasks k' c))"
proof -
  have ci: "c \<noteq> i" using mutex_invD(1)[OF assms(2,3)] assms(6) by (auto simp: mutex_ok_def)
  obtain s1 k1 n1 where r: "mutex_release a c (s, k) = OK ((s1, k1), n1)" "tick_keeps i k k1 n1" "mutex_inv i s1 k1"
    "owner (mutexes s1 a) = first (task_lists k (WQ a))" "task_lists k1 (WQ a) = tl (task_lists k (WQ a))"
    "hold_mutex_list (tasks k1 c) = removeAll a (hold_mutex_list (tasks k c))"
    using mutex_release_keeps[OF assms(1-3,6,7)] by blast
  obtain k2 n2 where t: "drop_inherited c k1 = OK (k2, n2)" "krun i (exit_if (n1 \<or> n2) k2)"
    "mutex_inv i s1 (exit_if (n1 \<or> n2) k2)" "task_lists k2 (WQ a) = task_lists k1 (WQ a)"
    "hold_mutex_list (tasks k2 c) = hold_mutex_list (tasks k1 c)"
    "hold_mutex_list (tasks k1 c) = [] \<longrightarrow> prio k2 c = backup_priority (tasks k2 c)"
    using mutex_unlock_tail[OF assms(1,7) ci r(2,3)] by blast
  have "os_mutex_unlock a (s, k) = OK ((s1, exit_if (n1 \<or> n2) k2), OS_EOK)"
    using assms r(1) t(1) by (simp add: os_mutex_unlock_def)
  moreover have "removeAll a (hold_mutex_list (tasks k c)) = []" if "set (hold_mutex_list (tasks k c)) = {a}"
    using that by (simp flip: set_empty)
  ultimately show ?thesis
    using t(2-6) r(4-6) by (auto simp: os_mutex_get_owner_def exit_if_def)
qed

theorem mutex_unlock_hands_over_witness:
  "\<exists>s' k'. os_mutex_unlock 100 (sample_mutexes, sample_held) = OK ((s', k'), OS_EOK) \<and> krun 3 k' \<and>
    os_mutex_get_owner 100 s' = Some 4 \<and> task_lists k' (WQ 100) = [] \<and> hold_mutex_list (tasks k' 1) = []"
  using mutex_unlock_hands_over[OF sample_held_settled sample_mutexes_inv, of 100 1]
  by (fastforce simp: sample_held_eval)

subsection \<open>Inherited priorities that stay\<close>

text \<open>Tasks that use the task module and mutexes.\<close>

datatype lock_app_call = T task_call | M mutex_call

definition lock_app :: "(mutex_sys, lock_app_call, os_err outcome) service" where
  "lock_app x sk = (case x of M y \<Rightarrow> mutex_service y sk
     | T y \<Rightarrow> bind_res (task_op (\<lambda>_ _ k. k) 2 y (snd sk)) (\<lambda>(k, r). OK ((fst sk, k), Returns r)))"

text \<open>
  \<^verbatim>\<open>_k_mutex_restore_priority\<close> restores the priority recorded when the mutex was
  taken, which may be an inherited one. Task 1 of priority 2 holds mutexes 201 and 203;
  task 5 of priority 1 waits for 201, so task 1 inherits priority 1 and takes 202 with it;
  after it has released 201 and 202 nobody waits for the one mutex it still holds, and yet
  it runs on at priority 1.
\<close>

theorem mutex_priority_sticks:
  "\<exists>s' k' rs. run_calls lock_app [T (Task_suspend 2), M (Mutex_init 201 None False), M (Mutex_init 202 None False),
       M (Mutex_init 203 None False), M (Mutex_lock 203 0), M (Mutex_lock 201 0), T (Task_resume 5),
       M (Mutex_lock 201 OS_WAIT_FOREVER), M (Mutex_lock 202 0), M (Mutex_unlock 201), T (Task_suspend 5),
       M (Mutex_unlock 202)] (bss_mutexes, sample) = OK ((s', k'), rs) \<and>
     current_task k' = Some 1 \<and> prio k' 1 = 1 \<and> backup_priority (tasks k' 1) = 2 \<and>
     hold_mutex_list (tasks k' 1) = [203] \<and> task_lists k' (WQ 203) = []"
  by (simp add: lock_app_def task_op_def task_call_defs bss_mutexes_def mutex_eval)

end
