(* ===== verification/Wait_Pair.thy ===== *)
theory Wait_Pair
  imports Kernel_Wait
begin

text \<open>
  Mailboxes and message queues have two wait lists each, of tasks that wait to send and of
  tasks that wait to receive. The lists of the object at address \<open>a\<close> are named \<open>2 * a\<close> and
  \<open>2 * a + 1\<close>.
\<close>

definition send_list :: "nat \<Rightarrow> nat" where "send_list a = 2 * a"
definition recv_list :: "nat \<Rightarrow> nat" where "recv_list a = 2 * a + 1"

lemma wait_pair_apart [simp]:
  "send_list a \<noteq> recv_list b" "recv_list b \<noteq> send_list a"
  "send_list a = send_list b \<longleftrightarrow> a = b" "recv_list a = recv_list b \<longleftrightarrow> a = b"
  by (simp_all add: send_list_def recv_list_def, presburger+)

abbreviation senders :: "kernel \<Rightarrow> nat \<Rightarrow> tid list" where
  "senders k a \<equiv> task_lists k (WQ (send_list a))"

abbreviation receivers :: "kernel \<Rightarrow> nat \<Rightarrow> tid list" where
  "receivers k a \<equiv> task_lists k (WQ (recv_list a))"

text \<open>One list lost its first task, or gained the current one.\<close>

lemma woken_lists:
  assumes inv: "kinv i k" and q: "task_lists k (WQ w) = t # ts"
    and l: "\<And>v. task_lists k1 (WQ v) = removeAll t (task_lists k (WQ v))"
  shows "task_lists k1 (WQ w) = ts" "v \<noteq> w \<Longrightarrow> task_lists k1 (WQ v) = task_lists k (WQ v)"
proof -
  have t: "t \<in> set (task_lists k (WQ w))" using q by simp
  show "task_lists k1 (WQ w) = ts" using kinvD(2)[OF inv, of "WQ w"] q l by simp
  show "task_lists k1 (WQ v) = task_lists k (WQ v)" if "v \<noteq> w"
    using that kinvD(4)[OF inv, of t "WQ w"] kinvD(4)[OF inv, of t "WQ v"] t l by simp
qed

lemma prio_sorted_tl:
  assumes "prio_sorted k w" "task_lists k (WQ w) = t # ts" "task_lists k1 (WQ w) = ts" "\<And>t. prio k1 t = prio k t"
  shows "prio_sorted k1 w"
  using assms by (simp add: prio_sorted_def)

lemma empty_lists_upd:
  "task_lists k (WQ v) = [] \<Longrightarrow> task_lists k (WQ w) = [] \<Longrightarrow> k\<lparr>task_lists := (task_lists k)(WQ v := [], WQ w := [])\<rparr> = k"
  by (simp add: fun_upd_idem)

definition cancel_if_any :: "nat \<Rightarrow> kernel \<times> bool \<Rightarrow> (kernel \<times> bool) res" where
  "cancel_if_any w = (\<lambda>(k, need).
     if task_lists k (WQ w) = [] then OK (k, need) else bind_res (k_cancle_all_blocked_task w k) (\<lambda>k1. OK (k1, True)))"

lemma cancel_if_any_eq:
  "cancel_if_any w (k, need) = bind_res (k_cancle_all_blocked_task w k) (\<lambda>k1. OK (k1, need \<or> task_lists k (WQ w) \<noteq> []))"
  by (simp add: cancel_if_any_def k_cancle_all_blocked_task.simps[of w k])

lemma wake_types_differ [simp]: "WAKE_TYPE_FIFO \<noteq> WAKE_TYPE_PRIO"
  by (simp add: WAKE_TYPE_FIFO_def WAKE_TYPE_PRIO_def)

lemma harmless_swap [simp]: "harmless (\<lambda>x. x\<lparr>swap_data := v\<rparr>)"
  by (simp add: harmless_def)

text \<open>What the object of two wait lists sees of a wake-up and of a task that blocks.\<close>

lemma wake_first:
  assumes s: "settled i k" and q: "task_lists k (WQ w) = t # ts" and f: "harmless f"
  shows "\<exists>k1. wake_with t f k = OK k1 \<and> krun i k1 \<and> tasks k1 = tasks (upd_task t f (unblocked t k)) \<and>
    task_lists k1 (WQ w) = ts \<and> (\<forall>v. v \<noteq> w \<longrightarrow> task_lists k1 (WQ v) = task_lists k (WQ v)) \<and> (\<forall>u. prio k1 u = prio k u)"
proof -
  obtain k1 where k1: "wake_with t f k = OK k1" "krun i k1" "tasks k1 = tasks (upd_task t f (unblocked t k))"
    "\<And>v. task_lists k1 (WQ v) = removeAll t (task_lists k (WQ v))"
    using wake_with_run[OF s _ f, of t w] q by auto
  have "\<forall>u. prio k1 u = prio k u" using f by (simp add: k1(3) harmless_def)
  then show ?thesis using k1 woken_lists[OF settledD(3)[OF s] q k1(4)] by blast
qed

lemma block_last:
  assumes s: "settled i k" and c: "current_task k = Some c" "c \<noteq> i" "\<not> os_is_schedule_locked k"
  shows "\<exists>k1. block_current w timeout wp k = OK k1 \<and> krun i k1 \<and>
    tasks k1 = (tasks k)(c := blocked_tcb (WQ w) timeout wp (os_tick k) (tasks k c)) \<and>
    set (task_lists k1 (WQ w)) = insert c (set (task_lists k (WQ w))) \<and>
    (\<forall>v. v \<noteq> w \<longrightarrow> task_lists k1 (WQ v) = task_lists k (WQ v)) \<and> (\<forall>u. prio k1 u = prio k u) \<and>
    (wp \<longrightarrow> prio_sorted k w \<longrightarrow> prio_sorted k1 w)"
proof -
  note K = settledD(3)[OF s] and r = settled_ready[OF s c(1)]
  obtain k1 where k1: "block_current w timeout wp k = OK k1" "krun i k1" "task_lists k1 = wait_insert (WQ w) c wp k"
    "tasks k1 = (tasks k)(c := blocked_tcb (WQ w) timeout wp (os_tick k) (tasks k c))"
    using block_current_run[OF s c(1,2), of w timeout wp] c(3) by (auto simp: os_is_schedule_locked_def)
  have p: "prio k1 u = prio k u" for u by (simp add: k1(4))
  have "task_lists k1 (WQ v) = task_lists k (WQ v)" if "v \<noteq> w" for v
    using that ready_not_waiting[OF K r] by (simp add: k1(3) wait_insert_other)
  moreover have "prio_sorted k1 w" if "wp" "prio_sorted k w"
    using prio_sorted_wait_insert[OF K r that(2), of k1] k1(3) p that(1) by simp
  ultimately show ?thesis using k1 p by auto
qed

text \<open>Both wait lists cancelled.\<close>

lemma cancel_pair:
  assumes s: "settled i k"
  shows "\<exists>k1 k2. k_cancle_all_blocked_task (send_list a) k = OK k1 \<and> k_cancle_all_blocked_task (recv_list a) k1 = OK k2 \<and>
    krun i (k_kernel_exit_sched k2) \<and> krun i (exit_if (senders k a \<noteq> [] \<or> receivers k1 a \<noteq> []) k2) \<and>
    senders k2 a = [] \<and> receivers k2 a = [] \<and>
    (\<forall>b. b \<noteq> a \<longrightarrow> senders k2 b = senders k b \<and> receivers k2 b = receivers k b) \<and> (\<forall>t. prio k2 t = prio k t)"
proof -
  obtain k1 k2 where k: "k_cancle_all_blocked_task (send_list a) k = OK k1" "k_cancle_all_blocked_task (recv_list a) k1 = OK k2"
    "tick_pre i k2" "senders k2 a = []" "receivers k2 a = []"
    "\<And>v. v \<noteq> send_list a \<Longrightarrow> v \<noteq> recv_list a \<Longrightarrow> task_lists k2 (WQ v) = task_lists k (WQ v)"
    "tasks k2 = (\<lambda>t. if t \<in> set (senders k a) \<union> set (receivers k a) then cancelled_tcb (tasks k t) else tasks k t)"
    using cancel_two_keeps[OF settled_tick_pre[OF s], of "send_list a" "recv_list a"] by auto
  have run: "krun i (k_kernel_exit_sched k2)" using k(3) krun_exit_sched by (simp add: tick_pre_def)
  have "k2 = k" if "\<not> (senders k a \<noteq> [] \<or> receivers k1 a \<noteq> [])"
    using that k(1,2) by (simp add: k_cancle_all_blocked_task.simps[of _ k] k_cancle_all_blocked_task.simps[of _ k1])
  then have "krun i (exit_if (senders k a \<noteq> [] \<or> receivers k1 a \<noteq> []) k2)"
    using run settledD(1)[OF s] by (auto simp: exit_if_def)
  then show ?thesis using k run by auto
qed

end
