(* ===== verification/Linked.thy ===== *)
theory Linked
  imports Prelude
begin

text \<open>
  Singly linked lists in memory: \<open>nx\<close> reads the pointer to the next entry from an entry,
  \<open>m\<close> is the memory that holds the entries, and a null pointer is \<open>None\<close>. Message queues and
  memory pools keep such lists.
\<close>

subsection \<open>Lists in memory\<close>

primrec linked :: "('c \<Rightarrow> 'a option) \<Rightarrow> ('a \<Rightarrow> 'c) \<Rightarrow> 'a option \<Rightarrow> 'a list \<Rightarrow> bool" where
  "linked nx m h [] \<longleftrightarrow> h = None"
| "linked nx m h (p # ps) \<longleftrightarrow> h = Some p \<and> linked nx m (nx (m p)) ps"

lemma linked_outside [simp]: "p \<notin> set ps \<Longrightarrow> linked nx (m(p := v)) h ps \<longleftrightarrow> linked nx m h ps"
  by (induction ps arbitrary: h) auto

lemma linked_empty: "linked nx m None ps \<longleftrightarrow> ps = []"
  by (cases ps) auto

lemma linked_head: "linked nx m h ps \<Longrightarrow> h = None \<longleftrightarrow> ps = []"
  by (cases ps) auto

text \<open>Linking an entry behind the last one.\<close>

lemma linked_snoc:
  assumes "linked nx m h ps" "ps \<noteq> []" "distinct ps" "nx v = Some p" "nx (m p) = None" "p \<notin> set ps"
  shows "linked nx (m(last ps := v)) h (ps @ [p])"
  using assms
proof (induction ps arbitrary: h)
  case (Cons q ps)
  then show ?case by (cases "ps = []") auto
qed simp

text \<open>The list as a function of the memory, with a bound on its length.\<close>

fun walk :: "('c \<Rightarrow> 'a option) \<Rightarrow> nat \<Rightarrow> ('a \<Rightarrow> 'c) \<Rightarrow> 'a option \<Rightarrow> 'a list" where
  "walk nx 0 m h = []"
| "walk nx (Suc n) m None = []"
| "walk nx (Suc n) m (Some p) = p # walk nx n m (nx (m p))"

lemma walk_numeral [simp]:
  "walk nx (numeral n) m h = (case h of None \<Rightarrow> [] | Some p \<Rightarrow> p # walk nx (pred_numeral n) m (nx (m p)))"
  by (cases h) (simp_all add: numeral_eq_Suc)

lemma walk_linked: "linked nx m h ps \<Longrightarrow> length ps \<le> n \<Longrightarrow> walk nx n m h = ps"
proof (induction ps arbitrary: h n)
  case Nil
  then show ?case by (cases n) auto
next
  case (Cons p ps)
  then show ?case by (cases n) auto
qed

subsection \<open>Rings\<close>

text \<open>
  Circular doubly linked lists: \<open>nx\<close> and \<open>pv\<close> read the next and the previous entry. A
  ring is written as a list from any of its entries on.
\<close>

definition steps :: "'a list \<Rightarrow> ('a \<times> 'a) set" where
  "steps xs = set (zip xs (tl xs))"

definition ringed :: "('a \<Rightarrow> 'a) \<Rightarrow> ('a \<Rightarrow> 'a) \<Rightarrow> 'a list \<Rightarrow> bool" where
  "ringed nx pv xs \<longleftrightarrow> distinct xs \<and>
     (xs \<noteq> [] \<longrightarrow> (\<forall>(a, b) \<in> insert (last xs, hd xs) (steps xs). nx a = b \<and> pv b = a))"

lemma steps_Nil [simp]: "steps [] = {}" "steps [x] = {}"
  by (simp_all add: steps_def)

lemma steps_Cons: "xs \<noteq> [] \<Longrightarrow> steps (x # xs) = insert (x, hd xs) (steps xs)"
  by (cases xs) (simp_all add: steps_def)

lemma steps_snoc: "xs \<noteq> [] \<Longrightarrow> steps (xs @ [x]) = insert (last xs, x) (steps xs)"
  by (induction xs) (auto simp: steps_Cons)

lemma steps_set: "(a, b) \<in> steps xs \<Longrightarrow> a \<in> set (butlast xs) \<and> b \<in> set (tl xs)"
proof (induction xs)
  case (Cons x xs)
  then show ?case by (cases "xs = []") (auto simp: steps_Cons dest: list.set_sel(2)[rotated])
qed simp

lemma steps_ends:
  assumes "distinct xs" "(a, b) \<in> steps xs"
  shows "a \<in> set xs" "b \<in> set xs" "a \<noteq> last xs" "b \<noteq> hd xs"
proof -
  have x: "xs \<noteq> []" using assms(2) by auto
  have "last xs \<notin> set (butlast xs)" using assms(1) x by (cases xs rule: rev_cases) simp_all
  moreover have "hd xs \<notin> set (tl xs)" using assms(1) x by (cases xs) simp_all
  ultimately show "a \<in> set xs" "b \<in> set xs" "a \<noteq> last xs" "b \<noteq> hd xs"
    using steps_set[OF assms(2)] x by (auto dest: in_set_butlastD list.set_sel(2)[rotated])
qed

lemma ringed_Nil [simp]: "ringed nx pv []"
  by (simp add: ringed_def)

lemma ringed_single [simp]: "ringed nx pv [c] \<longleftrightarrow> nx c = c \<and> pv c = c"
  by (simp add: ringed_def)

lemma ringed_distinct: "ringed nx pv xs \<Longrightarrow> distinct xs"
  by (simp add: ringed_def)

lemma ringed_rotate1: "ringed nx pv (xs @ [a]) \<longleftrightarrow> ringed nx pv (a # xs)"
  by (cases "xs = []") (auto simp: ringed_def steps_Cons steps_snoc)

lemma ringed_rotate: "ringed nx pv (xs @ ys) \<Longrightarrow> ringed nx pv (ys @ xs)"
proof (induction xs arbitrary: ys)
  case (Cons x xs)
  then show ?case using Cons.IH[of "ys @ [x]"] ringed_rotate1[of nx pv "xs @ ys" x] by simp
qed simp

lemma ringed_ends:
  assumes "ringed nx pv (c # xs)"
  shows "nx c = hd (xs @ [c])" "pv c = last (c # xs)" "nx c = c \<longleftrightarrow> xs = []"
proof -
  show n: "nx c = hd (xs @ [c])" and "pv c = last (c # xs)"
    using assms by (cases "xs = []"; auto simp: ringed_def steps_Cons)+
  show "nx c = c \<longleftrightarrow> xs = []" using ringed_distinct[OF assms] n by (cases xs) auto
qed

lemma ringed_cong:
  assumes "\<And>x. x \<in> set xs \<Longrightarrow> nx' x = nx x \<and> pv' x = pv x" "ringed nx pv xs"
  shows "ringed nx' pv' xs"
proof (cases "xs = []")
  case False
  have "nx' a = b \<and> pv' b = a" if "(a, b) \<in> insert (last xs, hd xs) (steps xs)" for a b
  proof -
    have "a \<in> set xs" "b \<in> set xs"
      using that False steps_ends[OF ringed_distinct[OF assms(2)], of a b] by auto
    moreover have "nx a = b \<and> pv b = a" using assms(2) False that by (auto simp: ringed_def)
    ultimately show ?thesis using assms(1) by simp
  qed
  then show ?thesis using ringed_distinct[OF assms(2)] by (auto simp: ringed_def)
qed simp

lemma ringed_outside:
  "ringed nx pv xs \<Longrightarrow> a \<notin> set xs \<Longrightarrow> ringed (nx(a := v)) pv xs"
  "ringed nx pv xs \<Longrightarrow> a \<notin> set xs \<Longrightarrow> ringed nx (pv(a := v)) xs"
  by (erule ringed_cong[rotated]; auto)+

lemma ringed_remove:
  assumes "ringed nx pv (c # xs)" "xs \<noteq> []"
  shows "ringed (nx(pv c := nx c)) (pv(nx c := pv c)) xs"
proof -
  note e = ringed_ends[OF assms(1)]
  have "a \<noteq> last xs \<and> b \<noteq> hd xs" if "(a, b) \<in> steps xs" for a b
    using steps_ends[OF _ that] ringed_distinct[OF assms(1)] by simp
  then show ?thesis using assms e by (auto simp: ringed_def steps_Cons)
qed

lemma ringed_insert:
  assumes "ringed nx pv xs" "xs \<noteq> []" "c \<notin> set xs"
  shows "ringed (nx(c := hd xs, pv (hd xs) := c)) (pv(c := pv (hd xs), hd xs := c)) (xs @ [c])"
proof -
  have p: "pv (hd xs) = last xs" using assms(1,2) by (simp add: ringed_def)
  have "a \<noteq> last xs \<and> b \<noteq> hd xs \<and> a \<noteq> c \<and> b \<noteq> c" if "(a, b) \<in> steps xs" for a b
    using steps_ends[OF _ that] ringed_distinct[OF assms(1)] assms(3) by auto
  then show ?thesis using assms p by (auto simp: ringed_def steps_snoc)
qed

subsection \<open>Addresses and sizes\<close>

text \<open>\<^verbatim>\<open>OS_ALIGN_UP\<close> and \<^verbatim>\<open>OS_ALIGN_DOWN\<close> to the size of a word.\<close>

definition os_align_up :: "u32 \<Rightarrow> u32" where
  "os_align_up p = (p + 4 - 1) AND NOT (4 - 1)"

definition os_align_down :: "u32 \<Rightarrow> u32" where
  "os_align_down p = p AND NOT (4 - 1)"

text \<open>Sizes and indices are 16 or 32 bits wide.\<close>

lemma unat_u32: "unat (x :: u32) < 4294967296"
  using unsigned_less[of x] by simp

lemma unat_u16: "unat (x :: u16) < 65536"
  using unsigned_less[of x] by simp

lemma unat_length: "length xs \<le> unat (n :: u32) \<Longrightarrow> unat (of_nat (length xs) :: u32) = length xs"
  using unat_u32[of n] by (simp add: unsigned_of_nat take_bit_nat_eq_self)

text \<open>One byte of a word.\<close>

lemma insert_byte:
  fixes w :: u32
  assumes "i < 4" "j < 4"
  shows "ucast (drop_bit (8 * i) ((w AND NOT (push_bit (8 * j) 0xFF)) OR push_bit (8 * j) (ucast (v :: u8)))) =
    (if i = j then v else ucast (drop_bit (8 * i) w) :: u8)"
proof (rule bit_word_eqI)
  fix n assume n: "n < LENGTH(8)"
  have m: "(0xFF :: u32) = mask 8" by (simp add: mask_eq_exp_minus_1)
  have "8 * j \<le> 8 * i + n \<and> 8 * i + n - 8 * j < 8 \<longleftrightarrow> i = j" "8 * i + n < 32" using n assms(1) by auto
  then show "bit (ucast (drop_bit (8 * i) ((w AND NOT (push_bit (8 * j) 0xFF)) OR push_bit (8 * j) (ucast v))) :: u8) n \<longleftrightarrow>
      bit (if i = j then v else ucast (drop_bit (8 * i) w)) n"
    unfolding m using n by (auto simp: bit_simps dest: bit_imp_le_length)
qed

text \<open>Rounding.\<close>

lemma unat_round_down: "unat (w AND NOT (mask k) :: u32) = unat w div 2 ^ k * 2 ^ k"
proof -
  have "w AND NOT (mask k) = push_bit k (drop_bit k w)" by (rule bit_word_eqI) (auto simp: bit_simps)
  moreover have "unat (push_bit k (drop_bit k w)) = unat w div 2 ^ k * 2 ^ k"
  proof -
    have "unat w div 2 ^ k * 2 ^ k < 4294967296"
      using div_times_less_eq_dividend[of "unat w" "2 ^ k"] unat_u32[of w] by linarith
    moreover have "unat (push_bit k (drop_bit k w)) = take_bit 32 (push_bit k (drop_bit k (unat w)))"
      by (simp only: unsigned_push_bit_eq unat_drop_bit_eq) simp
    ultimately show ?thesis by (simp add: push_bit_eq_mult drop_bit_eq_div take_bit_eq_mod)
  qed
  ultimately show ?thesis by simp
qed

lemma align_up_bounds:
  assumes "unat p + 3 < 2 ^ 32"
  shows "unat p \<le> unat (os_align_up p)" "unat (os_align_up p) \<le> unat p + 3"
proof -
  have "os_align_up p = (p + 3) AND NOT (mask 2)" by (simp add: os_align_up_def mask_eq_exp_minus_1 add.commute)
  moreover have "unat (p + 3) = unat p + 3" using assms by (subst unat_add_lem[THEN iffD1]) simp_all
  moreover have "unat (w AND NOT (mask 2)) = unat w div 4 * 4" for w :: u32
    using unat_round_down[of w 2] by simp
  ultimately have "unat (os_align_up p) = (unat p + 3) div 4 * 4" by simp
  then show "unat p \<le> unat (os_align_up p)" "unat (os_align_up p) \<le> unat p + 3" by linarith+
qed

end
