(* ===== verification/Fifo_Ring.thy ===== *)
theory Fifo_Ring
  imports Linked
begin

text \<open>
  The contract of a bounded first-in first-out buffer, and arrays used as rings. The
  buffers of the kernel and of the common library implement the contract; what a sequence
  of writes and reads does is proved once, from the contract.
\<close>

subsection \<open>Rings in an array\<close>

text \<open>The \<open>n\<close> entries from index \<open>r\<close> on, in an array used as a ring.\<close>

definition ring_list :: "'a list \<Rightarrow> nat \<Rightarrow> nat \<Rightarrow> 'a list" where
  "ring_list pool r n = map (\<lambda>j. pool ! ((r + j) mod length pool)) [0..<n]"

lemma length_ring_list [simp]: "length (ring_list pool r n) = n"
  by (simp add: ring_list_def)

lemma ring_list_0 [simp]: "ring_list pool r 0 = []"
  by (simp add: ring_list_def)

lemma ring_index_distinct: "i < c \<Longrightarrow> j < c \<Longrightarrow> (r + i) mod c = (r + j) mod c \<Longrightarrow> i = j" for r i :: nat
proof (induction i j rule: linorder_wlog)
  case (le i j)
  then have "c dvd (j - i)" using mod_eq_dvd_iff_nat[of "r + i" "r + j" c] by simp
  then show ?case using le by (metis dvd_imp_mod_0 le_antisym diff_is_0_eq less_imp_diff_less mod_less)
qed auto

lemma ring_list_snoc: "ring_list pool r (Suc n) = ring_list pool r n @ [pool ! ((r + n) mod length pool)]"
  by (simp add: ring_list_def)

lemma ring_list_outside:
  assumes "n \<le> j" "j < length pool"
  shows "ring_list (pool[(r + j) mod length pool := v]) r n = ring_list pool r n"
proof -
  have "(r + j) mod length pool \<noteq> (r + i) mod length pool" if "i < n" for i
    using ring_index_distinct[of i "length pool" j r] that assms by auto
  then show ?thesis by (auto simp: ring_list_def)
qed

text \<open>Writing behind the last entry appends to the contents.\<close>

lemma ring_list_put:
  assumes "n < length pool"
  shows "ring_list (pool[(r + n) mod length pool := v]) r (Suc n) = ring_list pool r n @ [v]"
proof -
  have "(r + n) mod length pool < length pool" using assms by (intro mod_less_divisor) linarith
  then show ?thesis using ring_list_outside[of n n pool r v] assms by (simp add: ring_list_snoc)
qed

text \<open>Reading at the first entry and moving on removes it.\<close>

lemma ring_list_mod: "ring_list pool (r mod length pool) n = ring_list pool r n"
  by (simp add: ring_list_def mod_add_left_eq)

lemma ring_list_get: "ring_list pool r (Suc n) = pool ! (r mod length pool) # ring_list pool (Suc r) n"
  unfolding ring_list_def by (simp add: upt_conv_Cons del: upt_Suc flip: map_Suc_upt)

text \<open>An index that is reset at the end of the array is an index modulo its size.\<close>

lemma wrap_mod: "r < c \<Longrightarrow> (if c \<le> Suc r then 0 else Suc r) = Suc r mod c" for r :: nat
  by (cases "Suc r = c") auto

subsection \<open>Copying in and out of an array\<close>

text \<open>\<^verbatim>\<open>memcpy\<close> to and from an array, at an offset; outside of it is a fault.\<close>

definition mem_write :: "'a list \<Rightarrow> nat \<Rightarrow> 'a list \<Rightarrow> 'a list res" where
  "mem_write buf off xs =
     (if off + length xs \<le> length buf then OK (take off buf @ xs @ drop (off + length xs) buf) else Fault OutOfRange)"

definition mem_read :: "'a list \<Rightarrow> nat \<Rightarrow> nat \<Rightarrow> 'a list res" where
  "mem_read buf off n = (if off + n \<le> length buf then OK (take n (drop off buf)) else Fault OutOfRange)"

text \<open>Entries from an offset on, without and with the wrap at the end of the array.\<close>

lemma ring_list_append: "ring_list pool r (n + m) = ring_list pool r n @ ring_list pool (r + n) m"
  by (rule nth_equalityI) (auto simp: ring_list_def nth_append add.assoc)

lemma ring_list_slice: "r + n \<le> length pool \<Longrightarrow> ring_list pool r n = take n (drop r pool)"
  by (rule nth_equalityI) (auto simp: ring_list_def)

lemma ring_list_around:
  assumes "r \<le> length pool" "n \<le> length pool" "length pool - r \<le> n"
  shows "ring_list pool r n = drop r pool @ take (n - (length pool - r)) pool"
proof -
  have "ring_list pool r n = ring_list pool r (length pool - r) @ ring_list pool (length pool) (n - (length pool - r))"
    using ring_list_append[of pool r "length pool - r" "n - (length pool - r)"] assms by simp
  moreover have "ring_list pool (length pool) m = ring_list pool 0 m" for m
    using ring_list_mod[of pool "length pool" m] by simp
  ultimately show ?thesis using assms by (simp add: ring_list_slice)
qed

lemma take_ring_list: "take m (ring_list pool r n) = ring_list pool r (min m n)"
  by (rule nth_equalityI) (auto simp: ring_list_def)

lemma drop_ring_list: "drop m (ring_list pool r n) = ring_list pool (r + m) (n - m)"
  by (rule nth_equalityI) (auto simp: ring_list_def add.assoc)

text \<open>Writing a whole block behind the contents, one entry after the other.\<close>

fun ring_write :: "'a list \<Rightarrow> nat \<Rightarrow> 'a list \<Rightarrow> 'a list" where
  "ring_write pool w [] = pool"
| "ring_write pool w (x # xs) = ring_write (pool[w mod length pool := x]) (Suc w) xs"

lemma length_ring_write [simp]: "length (ring_write pool w xs) = length pool"
  by (induction pool w xs rule: ring_write.induct) auto

lemma ring_write_mod: "ring_write pool (w mod length pool) xs = ring_write pool w xs"
proof (induction xs arbitrary: pool w)
  case (Cons x xs)
  have "ring_write (pool[w mod length pool := x]) (Suc (w mod length pool)) xs =
      ring_write (pool[w mod length pool := x]) (Suc w) xs"
    using Cons.IH[of "pool[w mod length pool := x]" "Suc (w mod length pool)"]
      Cons.IH[of "pool[w mod length pool := x]" "Suc w"] by (simp add: mod_Suc_eq)
  then show ?case by simp
qed simp

lemma ring_list_write:
  "n + length xs \<le> length pool \<Longrightarrow>
     ring_list (ring_write pool (r + n) xs) r (n + length xs) = ring_list pool r n @ xs"
proof (induction xs arbitrary: pool n)
  case (Cons x xs)
  then show ?case using Cons.IH[of "Suc n" "pool[(r + n) mod length pool := x]"] by (simp add: ring_list_put)
qed simp

lemma ring_write_append: "ring_write pool w (xs @ ys) = ring_write (ring_write pool w xs) (w + length xs) ys"
  by (induction pool w xs rule: ring_write.induct) auto

lemma ring_write_slice:
  "w + length xs \<le> length pool \<Longrightarrow> ring_write pool w xs = take w pool @ xs @ drop (w + length xs) pool"
proof (induction xs arbitrary: pool w)
  case (Cons x xs)
  have "pool[w := x] = take w pool @ x # drop (Suc w) pool" using Cons.prems by (intro upd_conv_take_nth_drop) simp
  then show ?case using Cons.IH[of "Suc w" "pool[w := x]"] Cons.prems by (simp add: add.commute)
qed simp

lemma mem_write_ring: "w + length xs \<le> length pool \<Longrightarrow> mem_write pool w xs = OK (ring_write pool w xs)"
  by (simp add: mem_write_def ring_write_slice)

lemma mem_write_around:
  assumes "w \<le> length pool" "length xs \<le> length pool" "length pool - w \<le> length xs"
  shows "bind_res (mem_write pool w (take (length pool - w) xs)) (\<lambda>p. mem_write p 0 (drop (length pool - w) xs)) =
    OK (ring_write pool w xs)"
proof -
  let ?p = "ring_write pool w (take (length pool - w) xs)" and ?ys = "drop (length pool - w) xs"
  have "ring_write pool w xs = ring_write ?p (length pool) ?ys"
    using ring_write_append[of pool w "take (length pool - w) xs" ?ys] assms by simp
  also have "\<dots> = ring_write ?p 0 ?ys" using ring_write_mod[of ?p "length pool" ?ys] by simp
  finally show ?thesis using assms by (simp add: mem_write_ring)
qed

subsection \<open>The contract of a bounded queue\<close>

text \<open>
  Writing to a queue that is not full and reading from one that is not empty never fault;
  the contents are a list to which writes append and from which reads take the first entry.
\<close>

locale bounded_fifo =
  fixes inv :: "'s \<Rightarrow> bool" and contents :: "'s \<Rightarrow> 'a list" and capacity :: "'s \<Rightarrow> nat"
    and put :: "'a \<Rightarrow> 's \<Rightarrow> 's res" and get :: "'s \<Rightarrow> ('a \<times> 's) res"
  assumes put_ok: "inv s \<Longrightarrow> length (contents s) < capacity s \<Longrightarrow>
      \<exists>s'. put x s = OK s' \<and> inv s' \<and> contents s' = contents s @ [x] \<and> capacity s' = capacity s"
    and get_ok: "inv s \<Longrightarrow> contents s \<noteq> [] \<Longrightarrow>
      \<exists>x s'. get s = OK (x, s') \<and> inv s' \<and> contents s = x # contents s' \<and> capacity s' = capacity s"
    and bounded: "inv s \<Longrightarrow> length (contents s) \<le> capacity s"
begin

text \<open>One request: a write is refused when the queue is full, a read when it is empty.\<close>

definition request :: "'a option \<Rightarrow> 's \<Rightarrow> ('s \<times> 'a list \<times> 'a list) res" where
  "request q s = (case q of
     Some x \<Rightarrow> if length (contents s) < capacity s then bind_res (put x s) (\<lambda>s'. OK (s', [x], [])) else OK (s, [], [])
   | None \<Rightarrow> if contents s = [] then OK (s, [], []) else bind_res (get s) (\<lambda>(x, s'). OK (s', [], [x])))"

text \<open>A sequence of requests, with everything that went in and everything that came out.\<close>

fun requests :: "'a option list \<Rightarrow> 's \<Rightarrow> ('s \<times> 'a list \<times> 'a list) res" where
  "requests [] s = OK (s, [], [])"
| "requests (q # qs) s =
     bind_res (request q s) (\<lambda>(s1, i1, o1). bind_res (requests qs s1) (\<lambda>(s2, i2, o2). OK (s2, i1 @ i2, o1 @ o2)))"

lemma request_order:
  assumes "inv s"
  shows "\<exists>s' ins outs. request q s = OK (s', ins, outs) \<and> inv s' \<and> contents s @ ins = outs @ contents s' \<and>
     capacity s' = capacity s"
proof (cases q)
  case None
  then show ?thesis using get_ok[OF assms] assms by (cases "contents s = []") (auto simp: request_def)
next
  case (Some x)
  then show ?thesis using put_ok[OF assms, of x] assms by (cases "length (contents s) < capacity s") (auto simp: request_def)
qed

lemma requests_order:
  "inv s \<Longrightarrow> \<exists>s' ins outs. requests qs s = OK (s', ins, outs) \<and> inv s' \<and>
     contents s @ ins = outs @ contents s' \<and> length (contents s') \<le> capacity s"
proof (induction qs arbitrary: s)
  case Nil
  then show ?case using bounded by auto
next
  case (Cons q qs)
  obtain s1 i1 o1 where 1: "request q s = OK (s1, i1, o1)" "inv s1" "contents s @ i1 = o1 @ contents s1"
    "capacity s1 = capacity s"
    using request_order[OF Cons.prems] by blast
  obtain s' i2 o2 where 2: "requests qs s1 = OK (s', i2, o2)" "inv s'" "contents s1 @ i2 = o2 @ contents s'"
    "length (contents s') \<le> capacity s1"
    using Cons.IH[OF 1(2)] by blast
  have "contents s @ i1 @ i2 = (o1 @ o2) @ contents s'" using 1(3) 2(3) by (metis append.assoc)
  then show ?case using 1(1,4) 2(1,2,4) by auto
qed

end

end
