(* ===== verification/Os_Mb.thy ===== *)
theory Os_Mb
  imports Wait_Pair Fifo_Ring
begin

text \<open>
  \<^verbatim>\<open>oneos/kernel/source/os_mb.c\<close>: mailboxes, rings of one-word mails with tasks that wait to
  send or to receive. A mailbox is named by its address \<open>a\<close>; its two wait lists are named
  \<open>2 * a\<close> and \<open>2 * a + 1\<close>. Blocked tasks keep their mail in \<^verbatim>\<open>swap_data\<close>.
\<close>

record os_mb =
  mail_pool :: "u32 list"
  mb_capacity :: u16
  mb_entry_count :: u16
  mb_read_index :: u16
  mb_write_index :: u16
  mb_object_inited :: u8
  mb_object_alloc_type :: u8
  mb_wake_type :: u8
  mb_name :: string

record mb_sys =
  mbs :: "nat \<Rightarrow> os_mb"
  mb_resource_list :: "nat list"

definition upd_mb :: "nat \<Rightarrow> (os_mb \<Rightarrow> os_mb) \<Rightarrow> mb_sys \<Rightarrow> mb_sys" where
  "upd_mb a f s = s\<lparr>mbs := (mbs s)(a := f (mbs s a))\<rparr>"

lemma upd_mb_apply [simp]: "mbs (upd_mb a f s) b = (if b = a then f (mbs s a) else mbs s b)"
  by (simp add: upd_mb_def)

subsection \<open>The ring of mails\<close>

definition k_mb_modify_read_index :: "os_mb \<Rightarrow> os_mb" where
  "k_mb_modify_read_index x =
     (let r = mb_read_index x + 1; y = x\<lparr>mb_read_index := (if mb_capacity x \<le> r then 0 else r)\<rparr>
      in y\<lparr>mb_entry_count := mb_entry_count y - 1\<rparr>)"

definition k_mb_modify_write_index :: "os_mb \<Rightarrow> os_mb" where
  "k_mb_modify_write_index x =
     (let w = mb_write_index x + 1; y = x\<lparr>mb_write_index := (if mb_capacity x \<le> w then 0 else w)\<rparr>
      in y\<lparr>mb_entry_count := mb_entry_count y + 1\<rparr>)"

text \<open>Storing a mail at the write index and reading the one at the read index.\<close>

definition mb_put :: "u32 \<Rightarrow> os_mb \<Rightarrow> os_mb res" where
  "mb_put v x = (if unat (mb_write_index x) < length (mail_pool x)
     then OK (k_mb_modify_write_index (x\<lparr>mail_pool := (mail_pool x)[unat (mb_write_index x) := v]\<rparr>))
     else Fault OutOfRange)"

definition mb_front :: "os_mb \<Rightarrow> u32 res" where
  "mb_front x = (if unat (mb_read_index x) < length (mail_pool x)
     then OK (mail_pool x ! unat (mb_read_index x)) else Fault OutOfRange)"

subsection \<open>Life cycle\<close>

text \<open>
  \<^verbatim>\<open>_k_mb_init\<close> computes the number of mails from the aligned address range, in the 16-bit
  field \<^verbatim>\<open>capacity\<close>. \<open>mem\<close> gives the words that the pool holds at that time.
\<close>

definition mb_capacity_of :: "u32 \<Rightarrow> u32 \<Rightarrow> u16" where
  "mb_capacity_of pool pool_size = ucast ((pool + pool_size - os_align_up pool) div 4)"

definition k_mb_init ::
  "nat \<Rightarrow> string option \<Rightarrow> u32 \<Rightarrow> u32 \<Rightarrow> u8 \<Rightarrow> (nat \<Rightarrow> u32) \<Rightarrow> mb_sys \<times> kernel \<Rightarrow> (mb_sys \<times> kernel) \<times> os_err" where
  "k_mb_init a nm pool pool_size alloc mem = (\<lambda>(s, k).
     let cap = mb_capacity_of pool pool_size; s1 = upd_mb a (\<lambda>x. x\<lparr>mb_capacity := cap\<rparr>) s in
     if 0 < cap then
       ((upd_mb a (\<lambda>x. x\<lparr>mail_pool := map mem [0..<unat cap], mb_entry_count := 0, mb_read_index := 0,
           mb_write_index := 0, mb_object_alloc_type := alloc, mb_wake_type := WAKE_TYPE_PRIO,
           mb_name := (case nm of None \<Rightarrow> '''' | Some n \<Rightarrow> take OS_NAME_MAX n)\<rparr>) s1,
         k\<lparr>task_lists := (task_lists k)(WQ (send_list a) := [], WQ (recv_list a) := [])\<rparr>), OS_EOK)
     else ((s1, k), OS_ENOMEM))"

definition os_mb_init ::
  "nat \<Rightarrow> string option \<Rightarrow> u32 \<Rightarrow> u32 \<Rightarrow> (nat \<Rightarrow> u32) \<Rightarrow> mb_sys \<times> kernel \<Rightarrow> ((mb_sys \<times> kernel) \<times> os_err) res" where
  "os_mb_init a nm pool pool_size mem = (\<lambda>(s, k).
     os_assert (0 < pool_size) (os_assert (\<not> irq_active k)
       (if a \<in> set (mb_resource_list s) then OK ((s, k), OS_EINVAL)
        else let ((s1, k1), r) = k_mb_init a nm pool pool_size OS_KOBJ_ALLOC_TYPE_STATIC mem
                   (s\<lparr>mb_resource_list := mb_resource_list s @ [a]\<rparr>, k)
             in if r = OS_EOK then OK ((upd_mb a (\<lambda>x. x\<lparr>mb_object_inited := OS_KOBJ_INITED\<rparr>) s1, k1), r)
                else OK ((s1\<lparr>mb_resource_list := removeAll a (mb_resource_list s1)\<rparr>, k1), r))))"

text \<open>The addresses of the control block and of the aligned pool are what the heap returns.\<close>

definition os_mb_create ::
  "string option \<Rightarrow> u32 \<Rightarrow> nat option \<Rightarrow> u32 option \<Rightarrow> (nat \<Rightarrow> u32) \<Rightarrow> mb_sys \<times> kernel \<Rightarrow>
     ((mb_sys \<times> kernel) \<times> nat option) res" where
  "os_mb_create nm max_mails cb pool mem = (\<lambda>(s, k).
     os_assert (0 < max_mails) (task_context k
       (case (cb, pool) of
          (Some a, Some p) \<Rightarrow>
            (let ((s1, k1), r) = k_mb_init a nm p (max_mails * 4) OS_KOBJ_ALLOC_TYPE_DYNAMIC mem (s, k)
             in if r = OS_EOK
                then OK ((upd_mb a (\<lambda>x. x\<lparr>mb_object_inited := OS_KOBJ_INITED\<rparr>)
                       (s1\<lparr>mb_resource_list := mb_resource_list s1 @ [a]\<rparr>), k1), Some a)
                else OK ((s1, k1), None))
        | _ \<Rightarrow> OK ((s, k), None))))"

definition mb_dispose :: "nat \<Rightarrow> mb_sys \<times> kernel \<Rightarrow> ((mb_sys \<times> kernel) \<times> os_err) res" where
  "mb_dispose a = (\<lambda>(s, k).
     bind_res (k_cancle_all_blocked_task (send_list a) k) (\<lambda>k1.
     bind_res (k_cancle_all_blocked_task (recv_list a) k1) (\<lambda>k2.
       let s1 = upd_mb a (\<lambda>x. x\<lparr>mb_object_inited := OS_KOBJ_DEINITED\<rparr>) s
       in OK ((s1\<lparr>mb_resource_list := removeAll a (mb_resource_list s1)\<rparr>, k_kernel_exit_sched k2), OS_EOK))))"

definition os_mb_deinit :: "nat \<Rightarrow> mb_sys \<times> kernel \<Rightarrow> ((mb_sys \<times> kernel) \<times> os_err) res" where
  "os_mb_deinit a = (\<lambda>(s, k).
     os_assert (mb_object_inited (mbs s a) = OS_KOBJ_INITED)
     (os_assert (mb_object_alloc_type (mbs s a) = OS_KOBJ_ALLOC_TYPE_STATIC)
     (os_assert (\<not> irq_active k) (mb_dispose a (s, k)))))"

definition os_mb_destroy :: "nat \<Rightarrow> mb_sys \<times> kernel \<Rightarrow> ((mb_sys \<times> kernel) \<times> os_err) res" where
  "os_mb_destroy a = (\<lambda>(s, k).
     os_assert (mb_object_inited (mbs s a) = OS_KOBJ_INITED)
     (os_assert (mb_object_alloc_type (mbs s a) = OS_KOBJ_ALLOC_TYPE_DYNAMIC)
     (task_context k (mb_dispose a (s, k)))))"

subsection \<open>Sending and receiving\<close>

definition os_mb_send :: "nat \<Rightarrow> u32 \<Rightarrow> u32 \<Rightarrow> mb_sys \<times> kernel \<Rightarrow> ((mb_sys \<times> kernel) \<times> os_err outcome) res" where
  "os_mb_send a value timeout = (\<lambda>(s, k).
     os_assert (mb_object_inited (mbs s a) = OS_KOBJ_INITED) (wait_context timeout k
       (case task_lists k (WQ (recv_list a)) of
          t # _ \<Rightarrow> bind_res (wake_with t (\<lambda>x. x\<lparr>swap_data := value\<rparr>) k) (\<lambda>k1. OK ((s, k1), Returns OS_EOK))
        | [] \<Rightarrow>
           if mb_entry_count (mbs s a) = mb_capacity (mbs s a) then
             (if timeout = OS_NO_WAIT then OK ((s, k), Returns OS_EFULL)
              else bind_res (block_with (send_list a) timeout (mb_wake_type (mbs s a) = WAKE_TYPE_PRIO)
                     (\<lambda>x. x\<lparr>swap_data := value\<rparr>) k) (\<lambda>k1. OK ((s, k1), Blocks)))
           else bind_res (mb_put value (mbs s a)) (\<lambda>x. OK ((upd_mb a (\<lambda>_. x) s, k), Returns OS_EOK)))))"

text \<open>
  A mail is taken from the ring; the mail of the first blocked sender, if there is one,
  follows into the place that became free.
\<close>

definition mb_take :: "nat \<Rightarrow> mb_sys \<times> kernel \<Rightarrow> (mb_sys \<times> kernel) res" where
  "mb_take a = (\<lambda>(s, k).
     let s1 = upd_mb a k_mb_modify_read_index s in
     case task_lists k (WQ (send_list a)) of
       [] \<Rightarrow> OK (s1, k)
     | t # _ \<Rightarrow> bind_res (k_unblock_task t k) (\<lambda>k1.
         bind_res (mb_put (swap_data (tasks k1 t)) (mbs s1 a)) (\<lambda>x.
           OK (upd_mb a (\<lambda>_. x) s1, exit_if (has_flag (tstate k1 t) OS_TASK_STATE_READY) k1))))"

definition os_mb_recv :: "nat \<Rightarrow> u32 \<Rightarrow> mb_sys \<times> kernel \<Rightarrow> ((mb_sys \<times> kernel) \<times> (os_err \<times> u32 option) outcome) res" where
  "os_mb_recv a timeout = (\<lambda>(s, k).
     os_assert (mb_object_inited (mbs s a) = OS_KOBJ_INITED) (wait_context timeout k
       (if mb_entry_count (mbs s a) \<noteq> 0 then
          bind_res (mb_front (mbs s a)) (\<lambda>v. bind_res (mb_take a (s, k)) (\<lambda>sk. OK (sk, Returns (OS_EOK, Some v))))
        else if timeout = OS_NO_WAIT then OK ((s, k), Returns (OS_EEMPTY, None))
        else bind_res (block_current (recv_list a) timeout (mb_wake_type (mbs s a) = WAKE_TYPE_PRIO) k) (\<lambda>k1.
               OK ((s, k1), Blocks)))))"

text \<open>What a receiver that blocked returns when it runs again.\<close>

definition mb_recv_resume :: "tid \<Rightarrow> kernel \<Rightarrow> os_err \<times> u32 option" where
  "mb_recv_resume c k = (wait_result c k, if wait_result c k = OS_EOK then Some (swap_data (tasks k c)) else None)"

definition os_mb_set_wake_type :: "nat \<Rightarrow> u8 \<Rightarrow> mb_sys \<times> kernel \<Rightarrow> ((mb_sys \<times> kernel) \<times> os_err) res" where
  "os_mb_set_wake_type a wt = (\<lambda>(s, k).
     os_assert (wt = WAKE_TYPE_PRIO \<or> wt = WAKE_TYPE_FIFO)
       (if task_lists k (WQ (recv_list a)) = [] \<and> task_lists k (WQ (send_list a)) = []
        then OK ((upd_mb a (\<lambda>x. x\<lparr>mb_wake_type := wt\<rparr>) s, k), OS_EOK) else OK ((s, k), OS_EBUSY)))"

definition os_mb_reset :: "nat \<Rightarrow> mb_sys \<times> kernel \<Rightarrow> (mb_sys \<times> kernel) res" where
  "os_mb_reset a = (\<lambda>(s, k).
     let s1 = upd_mb a (\<lambda>x. x\<lparr>mb_read_index := 0, mb_write_index := 0, mb_entry_count := 0\<rparr>) s in
     bind_res (cancel_if_any (send_list a) (k, False)) (\<lambda>kn. bind_res (cancel_if_any (recv_list a) kn) (\<lambda>(k2, need).
       OK (s1, exit_if need k2))))"

definition os_mb_is_empty :: "nat \<Rightarrow> mb_sys \<Rightarrow> bool" where
  "os_mb_is_empty a s \<longleftrightarrow> mb_entry_count (mbs s a) = 0"

definition os_mb_is_full :: "nat \<Rightarrow> mb_sys \<Rightarrow> bool" where
  "os_mb_is_full a s \<longleftrightarrow> mb_entry_count (mbs s a) = mb_capacity (mbs s a)"

definition os_mb_get_capacity :: "nat \<Rightarrow> mb_sys \<Rightarrow> u16" where
  "os_mb_get_capacity a s = mb_capacity (mbs s a)"

definition os_mb_get_used_entry_count :: "nat \<Rightarrow> mb_sys \<Rightarrow> u16" where
  "os_mb_get_used_entry_count a s = mb_entry_count (mbs s a)"

definition os_mb_get_unused_entry_count :: "nat \<Rightarrow> mb_sys \<Rightarrow> u16" where
  "os_mb_get_unused_entry_count a s = mb_capacity (mbs s a) - mb_entry_count (mbs s a)"

subsection \<open>The ring is a bounded queue\<close>

definition mb_ring_ok :: "os_mb \<Rightarrow> bool" where
  "mb_ring_ok x \<longleftrightarrow> 0 < mb_capacity x \<and> length (mail_pool x) = unat (mb_capacity x) \<and>
     mb_entry_count x \<le> mb_capacity x \<and> mb_read_index x < mb_capacity x \<and>
     unat (mb_write_index x) = (unat (mb_read_index x) + unat (mb_entry_count x)) mod unat (mb_capacity x)"

definition mb_mails :: "os_mb \<Rightarrow> u32 list" where
  "mb_mails x = ring_list (mail_pool x) (unat (mb_read_index x)) (unat (mb_entry_count x))"

lemma length_mb_mails [simp]: "length (mb_mails x) = unat (mb_entry_count x)"
  by (simp add: mb_mails_def)

lemma mb_ringD:
  assumes "mb_ring_ok x"
  shows "0 < unat (mb_capacity x)" "length (mail_pool x) = unat (mb_capacity x)"
    "unat (mb_entry_count x) \<le> unat (mb_capacity x)" "unat (mb_read_index x) < unat (mb_capacity x)"
    "unat (mb_write_index x) < unat (mb_capacity x)"
    "unat (mb_write_index x) = (unat (mb_read_index x) + unat (mb_entry_count x)) mod unat (mb_capacity x)"
  using assms by (auto simp: mb_ring_ok_def word_le_nat_alt word_less_nat_alt)

lemma mb_ringI:
  assumes "0 < unat (mb_capacity x)" "length (mail_pool x) = unat (mb_capacity x)"
    "unat (mb_entry_count x) \<le> unat (mb_capacity x)" "unat (mb_read_index x) < unat (mb_capacity x)"
    "unat (mb_write_index x) = (unat (mb_read_index x) + unat (mb_entry_count x)) mod unat (mb_capacity x)"
  shows "mb_ring_ok x"
  using assms by (auto simp: mb_ring_ok_def word_le_nat_alt word_less_nat_alt)

text \<open>The index after the last one is the first one.\<close>

lemma mb_index_next:
  assumes "unat ix < unat (cap :: u16)"
  shows "unat (if cap \<le> ix + 1 then 0 else ix + 1) = Suc (unat ix) mod unat cap"
proof -
  have "unat (ix + 1) = Suc (unat ix)" using assms unat_u16[of cap] by (simp add: unat_word_ariths)
  then show ?thesis using assms by (auto simp: word_le_nat_alt mod_Suc)
qed

lemma mb_put_ring:
  assumes ok: "mb_ring_ok x" and room: "unat (mb_entry_count x) < unat (mb_capacity x)"
  shows "\<exists>y. mb_put v x = OK y \<and> mb_ring_ok y \<and> mb_mails y = mb_mails x @ [v] \<and> mb_capacity y = mb_capacity x \<and>
    unat (mb_entry_count y) = Suc (unat (mb_entry_count x)) \<and> mb_object_inited y = mb_object_inited x \<and>
    mb_wake_type y = mb_wake_type x"
proof -
  note D = mb_ringD[OF ok]
  define y where "y = k_mb_modify_write_index (x\<lparr>mail_pool := (mail_pool x)[unat (mb_write_index x) := v]\<rparr>)"
  have c: "unat (mb_entry_count y) = Suc (unat (mb_entry_count x))"
    using room unat_u16[of "mb_capacity x"] by (simp add: y_def k_mb_modify_write_index_def Let_def unat_word_ariths)
  have w: "unat (mb_write_index y) = Suc (unat (mb_write_index x)) mod unat (mb_capacity x)"
    using mb_index_next[OF D(5)] by (simp add: y_def k_mb_modify_write_index_def Let_def)
  have f: "mail_pool y = (mail_pool x)[(unat (mb_read_index x) + unat (mb_entry_count x)) mod length (mail_pool x) := v]"
    "mb_capacity y = mb_capacity x" "mb_read_index y = mb_read_index x" "mb_object_inited y = mb_object_inited x"
    "mb_wake_type y = mb_wake_type x"
    using D by (simp_all add: y_def k_mb_modify_write_index_def Let_def)
  have "mb_ring_ok y" by (rule mb_ringI) (use D room in \<open>simp_all add: f c w mod_Suc_eq\<close>)
  moreover have "mb_mails y = mb_mails x @ [v]"
    unfolding mb_mails_def f c using ring_list_put[of "unat (mb_entry_count x)" "mail_pool x"] room D(2) by simp
  moreover have "mb_put v x = OK y" using D by (simp add: mb_put_def y_def)
  ultimately show ?thesis using f c by blast
qed

definition mb_get :: "os_mb \<Rightarrow> (u32 \<times> os_mb) res" where
  "mb_get x = bind_res (mb_front x) (\<lambda>v. OK (v, k_mb_modify_read_index x))"

lemma mb_get_ring:
  assumes ok: "mb_ring_ok x" and some: "mb_entry_count x \<noteq> 0"
  shows "\<exists>v. mb_front x = OK v \<and> mb_ring_ok (k_mb_modify_read_index x) \<and>
    mb_mails x = v # mb_mails (k_mb_modify_read_index x) \<and> mb_capacity (k_mb_modify_read_index x) = mb_capacity x \<and>
    Suc (unat (mb_entry_count (k_mb_modify_read_index x))) = unat (mb_entry_count x)"
proof -
  note D = mb_ringD[OF ok]
  let ?y = "k_mb_modify_read_index x"
  have pos: "0 < unat (mb_entry_count x)" using some by (simp add: unat_gt_0)
  have c: "unat (mb_entry_count ?y) = unat (mb_entry_count x) - 1"
    using some by (simp add: k_mb_modify_read_index_def Let_def unat_dec word_gt_0)
  have r: "unat (mb_read_index ?y) = Suc (unat (mb_read_index x)) mod unat (mb_capacity x)"
    using mb_index_next[OF D(4)] by (simp add: k_mb_modify_read_index_def Let_def)
  have f: "mail_pool ?y = mail_pool x" "mb_capacity ?y = mb_capacity x" "mb_write_index ?y = mb_write_index x"
    by (simp_all add: k_mb_modify_read_index_def Let_def)
  have w: "unat (mb_write_index x) = (Suc (unat (mb_read_index x)) + (unat (mb_entry_count x) - 1)) mod unat (mb_capacity x)"
    using D(6) pos by simp
  have "mb_ring_ok ?y"
    using mod_add_left_eq[of "Suc (unat (mb_read_index x))" "unat (mb_capacity x)" "unat (mb_entry_count x) - 1"] w D
    by (intro mb_ringI) (auto simp: f c r)
  moreover have "mb_mails x = mail_pool x ! unat (mb_read_index x) # mb_mails ?y"
  proof -
    have "mb_mails x = ring_list (mail_pool x) (unat (mb_read_index x)) (Suc (unat (mb_entry_count x) - 1))"
      using pos by (simp add: mb_mails_def)
    also have "\<dots> = mail_pool x ! unat (mb_read_index x) # ring_list (mail_pool x) (Suc (unat (mb_read_index x))) (unat (mb_entry_count x) - 1)"
      using D by (simp add: ring_list_get)
    also have "ring_list (mail_pool x) (Suc (unat (mb_read_index x))) (unat (mb_entry_count x) - 1) = mb_mails ?y"
      using ring_list_mod[of "mail_pool x" "Suc (unat (mb_read_index x))"] D(2) by (simp add: mb_mails_def f c r)
    finally show ?thesis .
  qed
  ultimately show ?thesis using D f c pos by (simp add: mb_front_def)
qed

interpretation mb_fifo: bounded_fifo mb_ring_ok mb_mails "\<lambda>x. unat (mb_capacity x)" mb_put mb_get
proof
  show "\<exists>y. mb_put v x = OK y \<and> mb_ring_ok y \<and> mb_mails y = mb_mails x @ [v] \<and> unat (mb_capacity y) = unat (mb_capacity x)"
    if "mb_ring_ok x" "length (mb_mails x) < unat (mb_capacity x)" for x v
    using mb_put_ring[OF that(1), of v] that(2) by auto
  show "\<exists>v y. mb_get x = OK (v, y) \<and> mb_ring_ok y \<and> mb_mails x = v # mb_mails y \<and> unat (mb_capacity y) = unat (mb_capacity x)"
    if "mb_ring_ok x" "mb_mails x \<noteq> []" for x
  proof -
    have "mb_entry_count x \<noteq> 0" using that(2) by (auto simp: mb_mails_def)
    then show ?thesis using mb_get_ring[OF that(1)] by (auto simp: mb_get_def)
  qed
  show "length (mb_mails x) \<le> unat (mb_capacity x)" if "mb_ring_ok x" for x
    using mb_ringD(3)[OF that] by simp
qed

subsection \<open>Invariant\<close>

text \<open>
  The ring of a live mailbox is well formed; a receiver waits only when it is empty, a
  sender only when it is full, both in priority order unless first-come first-served was chosen.
\<close>

abbreviation live_mb :: "mb_sys \<Rightarrow> nat \<Rightarrow> bool" where
  "live_mb s a \<equiv> mb_object_inited (mbs s a) = OS_KOBJ_INITED"

definition mb_ok :: "os_mb \<Rightarrow> nat \<Rightarrow> kernel \<Rightarrow> bool" where
  "mb_ok x a k \<longleftrightarrow> mb_ring_ok x \<and> (receivers k a \<noteq> [] \<longrightarrow> mb_entry_count x = 0) \<and>
     (senders k a \<noteq> [] \<longrightarrow> mb_entry_count x = mb_capacity x) \<and>
     (mb_wake_type x = WAKE_TYPE_PRIO \<longrightarrow> prio_sorted k (send_list a) \<and> prio_sorted k (recv_list a))"

definition mb_inv :: "mb_sys \<Rightarrow> kernel \<Rightarrow> bool" where
  "mb_inv s k \<longleftrightarrow> (\<forall>a. live_mb s a \<longrightarrow> mb_ok (mbs s a) a k)"

lemma mb_okD: "mb_inv s k \<Longrightarrow> live_mb s a \<Longrightarrow> mb_ok (mbs s a) a k"
  by (simp add: mb_inv_def)

lemma mb_ok_frame:
  "mb_ok x a k \<Longrightarrow> senders k' a = senders k a \<Longrightarrow> receivers k' a = receivers k a \<Longrightarrow> (\<And>t. prio k' t = prio k t) \<Longrightarrow> mb_ok x a k'"
  by (simp add: mb_ok_def prio_sorted_def)

lemma mb_invI:
  assumes "mb_inv s k" "\<And>b. b \<noteq> a \<Longrightarrow> mbs s' b = mbs s b" "\<And>t. prio k' t = prio k t"
    and "\<And>b. b \<noteq> a \<Longrightarrow> senders k' b = senders k b" "\<And>b. b \<noteq> a \<Longrightarrow> receivers k' b = receivers k b"
    and "live_mb s' a \<Longrightarrow> mb_ok (mbs s' a) a k'"
  shows "mb_inv s' k'"
  unfolding mb_inv_def
proof (intro allI impI)
  fix b assume b: "live_mb s' b"
  show "mb_ok (mbs s' b) b k'"
  proof (cases "b = a")
    case False
    then show ?thesis using assms(1-5) b mb_ok_frame[of "mbs s b" b k k'] by (simp add: mb_inv_def)
  qed (use assms(6) b in simp)
qed

lemma k_mb_modify_read_index_frame [simp]:
  "mb_object_inited (k_mb_modify_read_index x) = mb_object_inited x"
  "mb_wake_type (k_mb_modify_read_index x) = mb_wake_type x"
  by (simp_all add: k_mb_modify_read_index_def Let_def)

subsection \<open>Sending and receiving keep the invariants\<close>

lemma os_mb_send_safe:
  assumes s: "settled i k" and inv: "mb_inv s k" and c: "current_task k \<noteq> Some i"
  shows "svc_safe mb_inv i (os_mb_send a v timeout (s, k))"
proof -
  obtain c where c': "current_task k = Some c" "c \<noteq> i" using settledD(6)[OF s] c by auto
  note K = settledD(3)[OF s] and r = settled_ready[OF s c'(1)]
  let ?wp = "mb_wake_type (mbs s a) = WAKE_TYPE_PRIO" and ?f = "\<lambda>x. x\<lparr>swap_data := v\<rparr>"
  have h: "harmless ?f" by (simp add: harmless_def)
  have woken: "svc_safe mb_inv i (bind_res (wake_with t ?f k) (\<lambda>k1. OK ((s, k1), Returns OS_EOK)))"
    if live: "live_mb s a" and q: "receivers k a = t # ts" for t ts
  proof -
    obtain k1 where k1: "wake_with t ?f k = OK k1" "krun i k1" "tasks k1 = tasks (upd_task t ?f (unblocked t k))"
      "\<And>v. task_lists k1 (WQ v) = removeAll t (task_lists k (WQ v))"
      using wake_with_run[OF s _ h, of t "recv_list a"] q by auto
    note l = woken_lists[OF K q k1(4)]
    have p: "prio k1 u = prio k u" for u by (simp add: k1(3))
    have "mb_inv s k1"
    proof (rule mb_invI[OF inv, of a])
      show "mb_ok (mbs s a) a k1"
        using mb_okD[OF inv live] l q p prio_sorted_tl[OF _ q l(1) p]
        by (simp add: mb_ok_def) (auto simp: prio_sorted_def)
    qed (use p l in auto)
    then show ?thesis using k1 by simp
  qed
  have blocked: "svc_safe mb_inv i (bind_res (block_with (send_list a) timeout ?wp ?f k) (\<lambda>k1. OK ((s, k1), Blocks)))"
    if live: "live_mb s a" and "\<not> os_is_schedule_locked k" and q: "receivers k a = []" and full: "mb_entry_count (mbs s a) = mb_capacity (mbs s a)"
  proof -
    have free: "sched_lock_cnt k = 0" using that(2) by (simp add: os_is_schedule_locked_def)
    obtain k1 where k1: "block_with (send_list a) timeout ?wp ?f k = OK k1" "krun i k1"
      "task_lists k1 = wait_insert (WQ (send_list a)) c ?wp k"
      "tasks k1 = (tasks k)(c := blocked_tcb (WQ (send_list a)) timeout ?wp (os_tick k) (?f (tasks k c)))"
      using block_with_run[OF s c' free h, of "send_list a" timeout ?wp] by blast
    have p: "prio k1 t = prio k t" for t by (simp add: k1(4))
    have l: "task_lists k1 (WQ w) = task_lists k (WQ w)" if "w \<noteq> send_list a" for w
      using that ready_not_waiting[OF K r] by (simp add: k1(3) wait_insert_other)
    have "mb_inv s k1"
    proof (rule mb_invI[OF inv, of a])
      show "mb_ok (mbs s a) a k1"
        using mb_okD[OF inv live] full q l p prio_sorted_wait_insert[OF K r, of "send_list a" k1] k1(3)
        by (auto simp: mb_ok_def prio_sorted_def)
    qed (use p l in auto)
    then show ?thesis using k1 by simp
  qed
  have stored: "svc_safe mb_inv i (bind_res (mb_put v (mbs s a)) (\<lambda>x. OK ((upd_mb a (\<lambda>_. x) s, k), Returns OS_EOK)))"
    if live: "live_mb s a" and q: "receivers k a = []" and room: "mb_entry_count (mbs s a) \<noteq> mb_capacity (mbs s a)"
  proof -
    note ok = mb_okD[OF inv live]
    have ring: "mb_ring_ok (mbs s a)" using ok by (simp add: mb_ok_def)
    then have "unat (mb_entry_count (mbs s a)) < unat (mb_capacity (mbs s a))"
      using room mb_ringD(3)[OF ring] by (simp add: word_unat_eq_iff)
    then obtain y where y: "mb_put v (mbs s a) = OK y" "mb_ring_ok y" "mb_wake_type y = mb_wake_type (mbs s a)"
      using mb_put_ring[OF ring, of v] by blast
    have "mb_inv (upd_mb a (\<lambda>_. y) s) k"
      by (rule mb_invI[OF inv, of a]) (use ok y q room in \<open>auto simp: mb_ok_def\<close>)
    then show ?thesis using y settledD(1)[OF s] by simp
  qed
  show ?thesis
    unfolding os_mb_send_def wait_context_def
    using settledD(1)[OF s] inv woken blocked stored by (auto split: list.split)
qed

lemma mb_take_safe:
  assumes s: "settled i k" and inv: "mb_inv s k" and live: "live_mb s a" and some: "mb_entry_count (mbs s a) \<noteq> 0"
  shows "\<exists>s' k'. mb_take a (s, k) = OK (s', k') \<and> krun i k' \<and> mb_inv s' k' \<and>
    mb_mails (mbs s' a) = tl (mb_mails (mbs s a)) @ map (\<lambda>t. swap_data (tasks k t)) (take 1 (senders k a)) \<and>
    senders k' a = tl (senders k a)"
proof -
  note K = settledD(3)[OF s] and ok = mb_okD[OF inv live]
  have ring: "mb_ring_ok (mbs s a)" using ok by (simp add: mb_ok_def)
  let ?y = "k_mb_modify_read_index (mbs s a)"
  obtain v where y: "mb_ring_ok ?y" "mb_mails (mbs s a) = v # mb_mails ?y" "mb_capacity ?y = mb_capacity (mbs s a)"
    "Suc (unat (mb_entry_count ?y)) = unat (mb_entry_count (mbs s a))"
    using mb_get_ring[OF ring some] by blast
  have q: "receivers k a = []" using ok some by (auto simp: mb_ok_def)
  show ?thesis
  proof (cases "senders k a")
    case Nil
    have "mb_inv (upd_mb a k_mb_modify_read_index s) k"
      by (rule mb_invI[OF inv, of a]) (use ok y q Nil in \<open>auto simp: mb_ok_def\<close>)
    then show ?thesis using Nil y(2) settledD(1)[OF s] by (simp add: mb_take_def Let_def)
  next
    case (Cons t ts)
    then have t: "t \<in> set (senders k a)" by simp
    note w = k_unblock_waiter[OF settled_tick_pre[OF s] t]
    let ?k = "exit_if (has_flag (tstate (unblocked t k) t) OS_TASK_STATE_READY) (unblocked t k)"
    have run: "krun i ?k" using krun_of_keeps(1)[OF settledD(1)[OF s] w(2)] by (simp add: exit_if_def)
    have "unat (mb_entry_count ?y) < unat (mb_capacity ?y)" using y(3,4) mb_ringD(3)[OF ring] by simp
    then obtain z where z: "mb_put (swap_data (tasks k t)) ?y = OK z" "mb_ring_ok z"
      "mb_mails z = mb_mails ?y @ [swap_data (tasks k t)]" "mb_capacity z = mb_capacity ?y"
      "unat (mb_entry_count z) = Suc (unat (mb_entry_count ?y))" "mb_wake_type z = mb_wake_type ?y" "mb_object_inited z = mb_object_inited ?y"
      using mb_put_ring[OF y(1), of "swap_data (tasks k t)"] by blast
    have full: "mb_entry_count z = mb_capacity z"
      using ok Cons z(4,5) y(3,4) by (simp add: mb_ok_def word_unat_eq_iff)
    have l: "senders ?k a = ts" "\<And>v. v \<noteq> send_list a \<Longrightarrow> task_lists ?k (WQ v) = task_lists k (WQ v)"
      by (rule woken_lists[OF K Cons]; simp)+
    have p: "prio ?k u = prio k u" for u by simp
    have swap: "swap_data (tasks (unblocked t k) t) = swap_data (tasks k t)" by (simp add: woken_tcb_def Let_def)
    have "mb_inv (upd_mb a (\<lambda>_. z) (upd_mb a k_mb_modify_read_index s)) ?k"
    proof (rule mb_invI[OF inv, of a])
      show "mb_ok (mbs (upd_mb a (\<lambda>_. z) (upd_mb a k_mb_modify_read_index s)) a) a ?k"
        using ok z full q l prio_sorted_tl[OF _ Cons l(1) p] by (auto simp: mb_ok_def prio_sorted_def)
    qed (use l in auto)
    then show ?thesis
      using Cons w(1) z(1,3) y(2) run l(1) swap by (simp add: mb_take_def Let_def)
  qed
qed

lemma os_mb_recv_safe:
  assumes s: "settled i k" and inv: "mb_inv s k" and c: "current_task k \<noteq> Some i"
  shows "svc_safe mb_inv i (os_mb_recv a timeout (s, k))"
proof -
  obtain c where c': "current_task k = Some c" "c \<noteq> i" using settledD(6)[OF s] c by auto
  note K = settledD(3)[OF s] and r = settled_ready[OF s c'(1)]
  let ?wp = "mb_wake_type (mbs s a) = WAKE_TYPE_PRIO"
  have taken: "svc_safe mb_inv i (bind_res (mb_front (mbs s a)) (\<lambda>v. bind_res (mb_take a (s, k)) (\<lambda>sk. OK (sk, Returns (OS_EOK, Some v)))))"
    if live: "live_mb s a" and some: "mb_entry_count (mbs s a) \<noteq> 0"
    using mb_take_safe[OF s inv that] mb_get_ring[OF _ some] mb_okD[OF inv live] by (auto simp: mb_ok_def)
  have blocked: "svc_safe mb_inv i (bind_res (block_current (recv_list a) timeout ?wp k) (\<lambda>k1. OK ((s, k1), Blocks)))"
    if live: "live_mb s a" and "\<not> os_is_schedule_locked k" and none: "mb_entry_count (mbs s a) = 0"
  proof -
    have free: "sched_lock_cnt k = 0" using that(2) by (simp add: os_is_schedule_locked_def)
    obtain k1 where k1: "block_current (recv_list a) timeout ?wp k = OK k1" "krun i k1"
      "task_lists k1 = wait_insert (WQ (recv_list a)) c ?wp k"
      "tasks k1 = (tasks k)(c := blocked_tcb (WQ (recv_list a)) timeout ?wp (os_tick k) (tasks k c))"
      using block_current_run[OF s c' free, of "recv_list a" timeout ?wp] by blast
    have p: "prio k1 t = prio k t" for t by (simp add: k1(4))
    have l: "task_lists k1 (WQ w) = task_lists k (WQ w)" if "w \<noteq> recv_list a" for w
      using that ready_not_waiting[OF K r] by (simp add: k1(3) wait_insert_other)
    have "mb_inv s k1"
    proof (rule mb_invI[OF inv, of a])
      have "senders k a = []"
        using mb_okD[OF inv live] none by (auto simp: mb_ok_def mb_ring_ok_def)
      then show "mb_ok (mbs s a) a k1"
        using mb_okD[OF inv live] none l p prio_sorted_wait_insert[OF K r, of "recv_list a" k1] k1(3)
        by (auto simp: mb_ok_def prio_sorted_def)
    qed (use p l in auto)
    then show ?thesis using k1 by simp
  qed
  show ?thesis
    unfolding os_mb_recv_def wait_context_def
    using settledD(1)[OF s] inv taken blocked by auto
qed

subsection \<open>Life cycle\<close>

lemma k_mb_init_inv:
  assumes inv: "mb_inv s k" and l: "senders k a = []" "receivers k a = []"
    and b: "k_mb_init a nm pool sz alloc mem (s, k) = ((s1, k1), r)"
  shows "k1 = k \<and> (r = OS_EOK \<longrightarrow> mb_inv (upd_mb a (\<lambda>x. x\<lparr>mb_object_inited := OS_KOBJ_INITED\<rparr>) s1) k) \<and>
    (r \<noteq> OS_EOK \<longrightarrow> \<not> live_mb s a \<longrightarrow> mb_inv s1 k)"
proof (cases "0 < mb_capacity_of pool sz")
  case True
  define x where "x = mbs (upd_mb a (\<lambda>x. x\<lparr>mb_object_inited := OS_KOBJ_INITED\<rparr>) s1) a"
  have x: "mb_capacity x = mb_capacity_of pool sz" "mail_pool x = map mem [0..<unat (mb_capacity_of pool sz)]"
    "mb_entry_count x = 0" "mb_read_index x = 0" "mb_write_index x = 0"
    using b True by (auto simp: k_mb_init_def Let_def x_def)
  have k1: "k1 = k" "r = OS_EOK" "\<And>c. c \<noteq> a \<Longrightarrow> mbs s1 c = mbs s c"
    using b True empty_lists_upd[OF l] by (auto simp: k_mb_init_def Let_def)
  have "mb_ring_ok x" using True by (simp add: mb_ring_ok_def x)
  then have "mb_ok x a k" using l by (simp add: mb_ok_def prio_sorted_def x)
  then have "mb_inv (upd_mb a (\<lambda>x. x\<lparr>mb_object_inited := OS_KOBJ_INITED\<rparr>) s1) k"
    by (intro mb_invI[OF inv, of a]) (use k1 in \<open>auto simp: x_def\<close>)
  then show ?thesis using k1 by simp
next
  case False
  have "mb_inv (upd_mb a (\<lambda>x. x\<lparr>mb_capacity := mb_capacity_of pool sz\<rparr>) s) k" if "\<not> live_mb s a"
    by (rule mb_invI[OF inv, of a]) (use that in auto)
  then show ?thesis using b False by (auto simp: k_mb_init_def Let_def)
qed

lemma mb_inv_resource: "mb_inv (s\<lparr>mb_resource_list := r\<rparr>) k \<longleftrightarrow> mb_inv s k"
  by (simp add: mb_inv_def)

lemma upd_mb_resource: "upd_mb a f (s\<lparr>mb_resource_list := r\<rparr>) = (upd_mb a f s)\<lparr>mb_resource_list := r\<rparr>"
  by (simp add: upd_mb_def)

lemma os_mb_init_safe:
  assumes s: "settled i k" and inv: "mb_inv s k" and l: "senders k a = []" "receivers k a = []" and d: "\<not> live_mb s a"
  shows "svc_safe mb_inv i (os_mb_init a nm pool sz mem (s, k))"
proof -
  obtain s1 k1 r where b: "k_mb_init a nm pool sz OS_KOBJ_ALLOC_TYPE_STATIC mem (s\<lparr>mb_resource_list := mb_resource_list s @ [a]\<rparr>, k) = ((s1, k1), r)"
    by (metis prod.collapse)
  have inv0: "mb_inv (s\<lparr>mb_resource_list := mb_resource_list s @ [a]\<rparr>) k" using inv by (simp add: mb_inv_resource)
  show ?thesis
    using k_mb_init_inv[OF inv0 l b] d settledD(1)[OF s] inv
    by (auto simp: os_mb_init_def b mb_inv_resource)
qed

lemma os_mb_create_safe:
  assumes s: "settled i k" and inv: "mb_inv s k"
    and cb: "\<And>a. cb = Some a \<Longrightarrow> senders k a = [] \<and> receivers k a = [] \<and> \<not> live_mb s a"
  shows "svc_safe mb_inv i (os_mb_create nm n cb pool mem (s, k))"
proof (cases "\<exists>a p. cb = Some a \<and> pool = Some p")
  case True
  then obtain a p where ap: "cb = Some a" "pool = Some p" by blast
  obtain s1 k1 r where b: "k_mb_init a nm p (n * 4) OS_KOBJ_ALLOC_TYPE_DYNAMIC mem (s, k) = ((s1, k1), r)"
    by (metis prod.collapse)
  show ?thesis
    using k_mb_init_inv[OF inv _ _ b] cb[OF ap(1)] settledD(1)[OF s]
    by (auto simp: os_mb_create_def ap b task_context_def mb_inv_resource upd_mb_resource)
next
  case False
  then show ?thesis
    using settledD(1)[OF s] inv by (cases cb; cases pool) (auto simp: os_mb_create_def task_context_def)
qed

lemma mb_cancelled_inv:
  assumes inv: "mb_inv s k" and k2: "senders k2 a = []" "receivers k2 a = []"
    "\<And>v. v \<noteq> send_list a \<Longrightarrow> v \<noteq> recv_list a \<Longrightarrow> task_lists k2 (WQ v) = task_lists k (WQ v)"
    "\<And>t. prio k2 t = prio k t"
    and s': "\<And>b. b \<noteq> a \<Longrightarrow> mbs s' b = mbs s b" "live_mb s' a \<Longrightarrow> mb_ring_ok (mbs s' a)"
  shows "mb_inv s' k2"
  by (rule mb_invI[OF inv, of a]) (use k2 s' in \<open>auto simp: mb_ok_def prio_sorted_def\<close>)

lemma mb_dispose_safe:
  assumes s: "settled i k" and inv: "mb_inv s k"
  shows "svc_safe mb_inv i (mb_dispose a (s, k))"
proof -
  obtain k1 k2 where k: "k_cancle_all_blocked_task (send_list a) k = OK k1" "k_cancle_all_blocked_task (recv_list a) k1 = OK k2"
    "tick_pre i k2" "senders k2 a = []" "receivers k2 a = []"
    "\<And>v. v \<noteq> send_list a \<Longrightarrow> v \<noteq> recv_list a \<Longrightarrow> task_lists k2 (WQ v) = task_lists k (WQ v)"
    "tasks k2 = (\<lambda>t. if t \<in> set (senders k a) \<union> set (receivers k a) then cancelled_tcb (tasks k t) else tasks k t)"
    using cancel_two_keeps[OF settled_tick_pre[OF s], of "send_list a" "recv_list a"] by auto
  have "krun i (k_kernel_exit_sched k2)" using k(3) krun_exit_sched by (simp add: tick_pre_def)
  moreover have "mb_inv (upd_mb a (\<lambda>x. x\<lparr>mb_object_inited := OS_KOBJ_DEINITED\<rparr>) s) (k_kernel_exit_sched k2)"
    by (rule mb_cancelled_inv[OF inv, of _ a]) (use k in \<open>auto simp: OS_KOBJ_INITED_def OS_KOBJ_DEINITED_def\<close>)
  ultimately show ?thesis using k(1,2) by (simp add: mb_dispose_def Let_def mb_inv_resource)
qed

lemma os_mb_reset_safe:
  assumes s: "settled i k" and inv: "mb_inv s k"
  shows "svc_safe mb_inv i (bind_res (os_mb_reset a (s, k)) (\<lambda>sk. OK (sk, r)))"
proof -
  obtain k1 k2 where k: "k_cancle_all_blocked_task (send_list a) k = OK k1" "k_cancle_all_blocked_task (recv_list a) k1 = OK k2"
    "tick_pre i k2" "same_cpu k k2" "senders k2 a = []" "receivers k2 a = []"
    "\<And>v. v \<noteq> send_list a \<Longrightarrow> v \<noteq> recv_list a \<Longrightarrow> task_lists k2 (WQ v) = task_lists k (WQ v)"
    "tasks k2 = (\<lambda>t. if t \<in> set (senders k a) \<union> set (receivers k a) then cancelled_tcb (tasks k t) else tasks k t)"
    using cancel_two_keeps[OF settled_tick_pre[OF s], of "send_list a" "recv_list a"] by auto
  let ?need = "senders k a \<noteq> [] \<or> receivers k1 a \<noteq> []"
  let ?s = "upd_mb a (\<lambda>x. x\<lparr>mb_read_index := 0, mb_write_index := 0, mb_entry_count := 0\<rparr>) s"
  have "k2 = k" if "\<not> ?need"
    using that k(1,2) by (simp add: k_cancle_all_blocked_task.simps[of _ k] k_cancle_all_blocked_task.simps[of _ k1])
  then have run: "krun i (exit_if ?need k2)"
    using k(3) krun_exit_sched settledD(1)[OF s] by (auto simp: exit_if_def tick_pre_def)
  have "mb_inv ?s (exit_if ?need k2)"
  proof (rule mb_cancelled_inv[OF inv, of _ a])
    show "mb_ring_ok (mbs ?s a)" if "live_mb ?s a"
      using that mb_okD[OF inv, of a] by (simp add: mb_ok_def mb_ring_ok_def)
  qed (use k in auto)
  then show ?thesis using k(1,2) run by (simp add: os_mb_reset_def Let_def cancel_if_any_eq)
qed

lemma os_mb_set_wake_type_safe:
  assumes s: "settled i k" and inv: "mb_inv s k"
  shows "svc_safe mb_inv i (os_mb_set_wake_type a wt (s, k))"
proof -
  have "mb_inv (upd_mb a (\<lambda>x. x\<lparr>mb_wake_type := wt\<rparr>) s) k" if "receivers k a = []" "senders k a = []"
    by (rule mb_invI[OF inv, of a])
       (use mb_okD[OF inv, of a] that in \<open>auto simp: mb_ok_def mb_ring_ok_def mb_mails_def prio_sorted_def\<close>)
  then show ?thesis unfolding os_mb_set_wake_type_def using settledD(1)[OF s] inv by auto
qed

subsection \<open>The mailboxes as a service\<close>

datatype mb_call = Mb_init nat "string option" u32 u32 "nat \<Rightarrow> u32"
  | Mb_create "string option" u32 "nat option" "u32 option" "nat \<Rightarrow> u32"
  | Mb_deinit nat | Mb_destroy nat | Mb_send nat u32 u32 | Mb_recv nat u32 | Mb_set_wake_type nat u8 | Mb_reset nat

definition no_mail :: "(('s \<times> kernel) \<times> os_err outcome) res \<Rightarrow> (('s \<times> kernel) \<times> (os_err \<times> u32 option) outcome) res" where
  "no_mail m = bind_res m (\<lambda>(sk, r). OK (sk, case r of Returns e \<Rightarrow> Returns (e, None) | Blocks \<Rightarrow> Blocks))"

lemma svc_safe_no_mail: "svc_safe oinv i m \<Longrightarrow> svc_safe oinv i (no_mail m)"
  unfolding no_mail_def by (rule svc_safe_bind)

definition mb_service :: "(mb_sys, mb_call, (os_err \<times> u32 option) outcome) service" where
  "mb_service x sk = (case x of
     Mb_init a nm p sz mem \<Rightarrow> no_mail (returns (os_mb_init a nm p sz mem sk))
   | Mb_create nm n cb p mem \<Rightarrow> bind_res (os_mb_create nm n cb p mem sk) (\<lambda>(sk1, a).
       OK (sk1, Returns (if a = None then OS_ENOMEM else OS_EOK, None)))
   | Mb_deinit a \<Rightarrow> no_mail (returns (os_mb_deinit a sk))
   | Mb_destroy a \<Rightarrow> no_mail (returns (os_mb_destroy a sk))
   | Mb_send a v timeout \<Rightarrow> no_mail (os_mb_send a v timeout sk)
   | Mb_recv a timeout \<Rightarrow> os_mb_recv a timeout sk
   | Mb_set_wake_type a wt \<Rightarrow> no_mail (returns (os_mb_set_wake_type a wt sk))
   | Mb_reset a \<Rightarrow> bind_res (os_mb_reset a sk) (\<lambda>sk1. OK (sk1, Returns (OS_EOK, None))))"

text \<open>The idle task neither sends nor receives, and a new mailbox is not one in use.\<close>

definition mb_allowed :: "tid \<Rightarrow> mb_call \<Rightarrow> mb_sys \<Rightarrow> kernel \<Rightarrow> bool" where
  "mb_allowed i x s k = (case x of
     Mb_init a nm p sz mem \<Rightarrow> senders k a = [] \<and> receivers k a = [] \<and> \<not> live_mb s a
   | Mb_create nm n cb p mem \<Rightarrow> (case cb of None \<Rightarrow> True | Some a \<Rightarrow> senders k a = [] \<and> receivers k a = [] \<and> \<not> live_mb s a)
   | Mb_send a v timeout \<Rightarrow> current_task k \<noteq> Some i
   | Mb_recv a timeout \<Rightarrow> current_task k \<noteq> Some i
   | _ \<Rightarrow> True)"

lemma mb_service_safe:
  assumes s: "settled i k" and inv: "mb_inv s k" and a: "mb_allowed i x s k"
  shows "svc_safe mb_inv i (mb_service x (s, k))"
proof (cases x)
  case (Mb_create nm n cb p mem)
  then show ?thesis
    using a os_mb_create_safe[OF s inv, of cb nm n p mem]
    by (cases cb) (auto simp: mb_service_def mb_allowed_def intro!: svc_safe_bind)
next
  case (Mb_deinit a)
  then show ?thesis
    using mb_dispose_safe[OF s inv] by (auto simp: mb_service_def os_mb_deinit_def intro!: svc_safe_no_mail svc_safe_returns)
next
  case (Mb_destroy a)
  then show ?thesis
    using mb_dispose_safe[OF s inv]
    by (auto simp: mb_service_def os_mb_destroy_def task_context_def intro!: svc_safe_no_mail svc_safe_returns)
next
  case (Mb_reset a)
  then show ?thesis using os_mb_reset_safe[OF s inv] by (simp add: mb_service_def)
qed (use a os_mb_send_safe[OF s inv] os_mb_recv_safe[OF s inv] os_mb_init_safe[OF s inv] os_mb_set_wake_type_safe[OF s inv]
     in \<open>auto simp: mb_service_def mb_allowed_def intro!: svc_safe_no_mail svc_safe_returns\<close>)

lemma mb_inv_dispatch: "mb_inv s k \<Longrightarrow> krun i k \<Longrightarrow> dispatch k = OK k' \<Longrightarrow> mb_inv s k'"
  using mb_ok_frame[of _ _ k k'] unfolding mb_inv_def by (simp add: dispatch_wait_frame)

interpretation mb_srv: kernel_service mb_service mb_allowed "\<lambda>_. mb_inv"
  by (rule kernel_service_svc, fact mb_service_safe, fact mb_inv_dispatch)

subsection \<open>Order of the mails\<close>

text \<open>The mails that were accepted and not delivered: the ring, then those of the blocked senders.\<close>

definition mb_pending :: "nat \<Rightarrow> mb_sys \<times> kernel \<Rightarrow> u32 list" where
  "mb_pending a = (\<lambda>(s, k). mb_mails (mbs s a) @ map (\<lambda>t. swap_data (tasks k t)) (senders k a))"

text \<open>
  What a call does to the mails: a send that returns success or blocks accepts one, a send
  to a waiting receiver delivers it at once, a receive that succeeds delivers one.
\<close>

definition mb_accepts :: "nat \<Rightarrow> mb_call \<Rightarrow> (os_err \<times> u32 option) outcome \<Rightarrow> u32 list" where
  "mb_accepts a x r = (case x of Mb_send b v timeout \<Rightarrow> if b = a \<and> r \<noteq> Returns (OS_EFULL, None) then [v] else [] | _ \<Rightarrow> [])"

definition mb_delivers :: "nat \<Rightarrow> mb_call \<Rightarrow> (os_err \<times> u32 option) outcome \<Rightarrow> kernel \<Rightarrow> u32 list" where
  "mb_delivers a x r k = (case x of
     Mb_send b v timeout \<Rightarrow> if b = a \<and> receivers k a \<noteq> [] then [v] else []
   | Mb_recv b timeout \<Rightarrow> (case r of Returns (e, Some v) \<Rightarrow> if b = a then [v] else [] | _ \<Rightarrow> [])
   | _ \<Rightarrow> [])"

definition send_or_recv :: "mb_call \<Rightarrow> bool" where
  "send_or_recv x \<longleftrightarrow> (case x of Mb_send b v timeout \<Rightarrow> True | Mb_recv b timeout \<Rightarrow> True | _ \<Rightarrow> False)"

fun mb_trace :: "nat \<Rightarrow> mb_call list \<Rightarrow> mb_sys \<times> kernel \<Rightarrow> ((mb_sys \<times> kernel) \<times> u32 list \<times> u32 list) res" where
  "mb_trace a [] sk = OK (sk, [], [])"
| "mb_trace a (x # xs) sk = bind_res (syscall mb_service x sk) (\<lambda>(sk1, r).
     bind_res (mb_trace a xs sk1) (\<lambda>(sk2, ins, outs). OK (sk2, mb_accepts a x r @ ins, mb_delivers a x r (snd sk) @ outs)))"

lemma mb_pending_frame:
  assumes "mbs s' a = mbs s a" "senders k' a = senders k a" "\<And>t. t \<in> set (senders k a) \<Longrightarrow> swap_data (tasks k' t) = swap_data (tasks k t)"
  shows "mb_pending a (s', k') = mb_pending a (s, k)"
  using assms by (auto simp: mb_pending_def)

text \<open>The three ways a send succeeds, for mailbox \<open>b\<close>, and the mails of a mailbox \<open>a\<close>.\<close>

lemma mb_send_handed:
  assumes s: "settled i k" and inv: "mb_inv s k" and live: "live_mb s b" and q: "receivers k b = t # ts"
    and run: "os_mb_send b v timeout (s, k) = OK (sk', r)"
  shows "\<exists>k1. sk' = (s, k1) \<and> r = Returns OS_EOK \<and> swap_data (tasks k1 t) = v \<and> receivers k1 b = ts \<and>
    mb_pending a (s, k1) = mb_pending a (s, k) \<and> mb_pending b (s, k) = []"
proof -
  note K = settledD(3)[OF s]
  obtain k1 where k1: "wake_with t (\<lambda>x. x\<lparr>swap_data := v\<rparr>) k = OK k1"
    "tasks k1 = tasks (upd_task t (\<lambda>x. x\<lparr>swap_data := v\<rparr>) (unblocked t k))"
    "\<And>v. task_lists k1 (WQ v) = removeAll t (task_lists k (WQ v))"
    using wake_with_run[OF s _ harmless_swap, of t "recv_list b" v] q by auto
  have "t \<notin> set (senders k a)"
    using q kinvD(4)[OF K, of t "WQ (recv_list b)"] kinvD(4)[OF K, of t "WQ (send_list a)"] by auto
  then have "mb_pending a (s, k1) = mb_pending a (s, k)"
    by (intro mb_pending_frame) (use woken_lists(2)[OF K q k1(3)] in \<open>auto simp: k1(2)\<close>)
  moreover have "mb_pending b (s, k) = []"
    using mb_okD[OF inv live] q by (auto simp: mb_ok_def mb_pending_def mb_mails_def mb_ring_ok_def)
  moreover have "sk' = (s, k1)" "r = Returns OS_EOK"
    using run q k1(1) live by (auto simp: os_mb_send_def wait_context_def res_simps)
  ultimately show ?thesis using woken_lists(1)[OF K q k1(3)] by (simp add: k1(2))
qed

lemma mb_send_stored:
  assumes s: "settled i k" and inv: "mb_inv s k" and live: "live_mb s b" and q: "receivers k b = []"
    and room: "mb_entry_count (mbs s b) \<noteq> mb_capacity (mbs s b)" and run: "os_mb_send b v timeout (s, k) = OK (sk', r)"
  shows "\<exists>s'. sk' = (s', k) \<and> r = Returns OS_EOK \<and> mb_wake_type (mbs s' a) = mb_wake_type (mbs s a) \<and>
    mb_pending a (s', k) = mb_pending a (s, k) @ (if b = a then [v] else [])"
proof -
  note ok = mb_okD[OF inv live]
  have ring: "mb_ring_ok (mbs s b)" using ok by (simp add: mb_ok_def)
  have "unat (mb_entry_count (mbs s b)) < unat (mb_capacity (mbs s b))"
    using room mb_ringD(3)[OF ring] by (simp add: word_unat_eq_iff)
  then obtain y where y: "mb_put v (mbs s b) = OK y" "mb_mails y = mb_mails (mbs s b) @ [v]" "mb_wake_type y = mb_wake_type (mbs s b)"
    using mb_put_ring[OF ring, of v] by blast
  have "sk' = (upd_mb b (\<lambda>_. y) s, k)" "r = Returns OS_EOK"
    using run q room y(1) live by (auto simp: os_mb_send_def wait_context_def res_simps)
  moreover have "senders k b = []" using ok room by (auto simp: mb_ok_def)
  ultimately show ?thesis using y by (auto simp: mb_pending_def)
qed

lemma mb_send_blocked:
  assumes s: "settled i k" and c: "current_task k = Some c" "c \<noteq> i" and live: "live_mb s b" and q: "receivers k b = []"
    and full: "mb_entry_count (mbs s b) = mb_capacity (mbs s b)" "timeout \<noteq> OS_NO_WAIT"
    and wt: "mb_wake_type (mbs s a) = WAKE_TYPE_FIFO" and run: "os_mb_send b v timeout (s, k) = OK (sk', r)"
  shows "\<exists>k1. sk' = (s, k1) \<and> r = Blocks \<and> mb_pending a (s, k1) = mb_pending a (s, k) @ (if b = a then [v] else [])"
proof -
  let ?wp = "mb_wake_type (mbs s b) = WAKE_TYPE_PRIO"
  have free: "sched_lock_cnt k = 0"
    using run full(2) by (auto simp: os_mb_send_def wait_context_def res_simps os_is_schedule_locked_def)
  obtain k1 where k1: "block_with (send_list b) timeout ?wp (\<lambda>x. x\<lparr>swap_data := v\<rparr>) k = OK k1"
    "task_lists k1 = wait_insert (WQ (send_list b)) c ?wp k"
    "tasks k1 = (tasks k)(c := blocked_tcb (WQ (send_list b)) timeout ?wp (os_tick k) ((tasks k c)\<lparr>swap_data := v\<rparr>))"
    using block_with_run[OF s c free harmless_swap, of "send_list b" timeout ?wp v] by blast
  have sk': "sk' = (s, k1)" "r = Blocks"
    using run q full k1(1) live by (auto simp: os_mb_send_def wait_context_def res_simps)
  note cn = ready_not_waiting[OF settledD(3)[OF s] settled_ready[OF s c(1)], of "send_list a"]
  have same: "map (\<lambda>t. swap_data (tasks k1 t)) (senders k a) = map (\<lambda>t. swap_data (tasks k t)) (senders k a)"
    using cn by (auto simp: k1(3))
  have "senders k1 a = senders k a @ (if b = a then [c] else [])"
    using wt cn by (auto simp: k1(2) wait_insert_other) (simp add: wait_insert_def klist_simps)
  moreover have "swap_data (tasks k1 c) = v" by (simp add: k1(3) blocked_tcb_def Let_def)
  ultimately show ?thesis using sk' same by (simp add: mb_pending_def)
qed

lemma os_mb_send_order:
  assumes s: "settled i k" and inv: "mb_inv s k" and c: "current_task k \<noteq> Some i" and live: "live_mb s b"
    and wt: "mb_wake_type (mbs s a) = WAKE_TYPE_FIFO" and run: "os_mb_send b v timeout (s, k) = OK (sk', r)"
  shows "mb_pending a (s, k) @ (if b = a \<and> r \<noteq> Returns OS_EFULL then [v] else []) =
      (if b = a \<and> receivers k a \<noteq> [] then [v] else []) @ mb_pending a sk' \<and>
    mb_wake_type (mbs (fst sk') a) = WAKE_TYPE_FIFO"
proof -
  obtain c where c': "current_task k = Some c" "c \<noteq> i" using settledD(6)[OF s] c by auto
  consider (handed) t ts where "receivers k b = t # ts"
    | (stored) "receivers k b = []" "mb_entry_count (mbs s b) \<noteq> mb_capacity (mbs s b)"
    | (full) "receivers k b = []" "mb_entry_count (mbs s b) = mb_capacity (mbs s b)" "timeout = OS_NO_WAIT"
    | (blocked) "receivers k b = []" "mb_entry_count (mbs s b) = mb_capacity (mbs s b)" "timeout \<noteq> OS_NO_WAIT"
    by (cases "receivers k b") auto
  then show ?thesis
  proof cases
    case handed
    then show ?thesis using mb_send_handed[OF s inv live handed run, of a] wt by auto
  next
    case stored
    then show ?thesis using mb_send_stored[OF s inv live stored run, of a] wt by auto
  next
    case full
    then have "sk' = (s, k)" "r = Returns OS_EFULL"
      using run live by (auto simp: os_mb_send_def wait_context_def res_simps)
    then show ?thesis using wt full by auto
  next
    case blocked
    then show ?thesis using mb_send_blocked[OF s c' live blocked wt run] wt by auto
  qed
qed

lemma mb_take_order:
  assumes s: "settled i k" and inv: "mb_inv s k" and live: "live_mb s b" and some: "mb_entry_count (mbs s b) \<noteq> 0"
    and run: "mb_take b (s, k) = OK sk'"
  shows "mb_pending a (s, k) = (if b = a then [hd (mb_mails (mbs s a))] else []) @ mb_pending a sk' \<and>
    mb_wake_type (mbs (fst sk') a) = mb_wake_type (mbs s a)"
proof -
  note K = settledD(3)[OF s]
  obtain s' k' where r: "sk' = (s', k')" "mb_inv s' k'" "senders k' b = tl (senders k b)"
    "mb_mails (mbs s' b) = tl (mb_mails (mbs s b)) @ map (\<lambda>t. swap_data (tasks k t)) (take 1 (senders k b))"
    using mb_take_safe[OF s inv live some] run by auto
  have ne: "mb_mails (mbs s b) \<noteq> []" using some by (simp add: unat_eq_0 flip: length_0_conv)
  have frame: "(b \<noteq> a \<longrightarrow> mbs s' a = mbs s a) \<and> mb_wake_type (mbs s' a) = mb_wake_type (mbs s a) \<and>
      (\<forall>t. swap_data (tasks k' t) = swap_data (tasks k t)) \<and> (b \<noteq> a \<longrightarrow> senders k' a = senders k a)"
  proof (cases "senders k b")
    case Nil
    then show ?thesis using run r(1) by (auto simp: mb_take_def Let_def)
  next
    case (Cons t ts)
    then have t: "t \<in> set (senders k b)" by simp
    note w = k_unblock_waiter(1)[OF settled_tick_pre[OF s] t]
    obtain z where z: "mb_put (swap_data (tasks (unblocked t k) t)) (k_mb_modify_read_index (mbs s b)) = OK z"
      "s' = upd_mb b (\<lambda>_. z) (upd_mb b k_mb_modify_read_index s)"
      "k' = exit_if (has_flag (tstate (unblocked t k) t) OS_TASK_STATE_READY) (unblocked t k)"
      using run r(1) Cons w by (auto simp: mb_take_def Let_def res_simps)
    have "mb_wake_type z = mb_wake_type (mbs s b)"
      using z(1) by (auto simp: mb_put_def k_mb_modify_write_index_def k_mb_modify_read_index_def Let_def split: if_splits)
    moreover have "senders k' a = senders k a" if "b \<noteq> a"
      using woken_lists(2)[OF K Cons, of k' "send_list a"] that by (simp add: z(3))
    ultimately show ?thesis by (auto simp: z(2,3) woken_tcb_def Let_def)
  qed
  show ?thesis
  proof (cases "b = a")
    case True
    have "senders k b = take 1 (senders k b) @ tl (senders k b)" by (cases "senders k b") auto
    then have "map (\<lambda>t. swap_data (tasks k t)) (senders k a) =
        map (\<lambda>t. swap_data (tasks k t)) (take 1 (senders k a)) @ map (\<lambda>t. swap_data (tasks k t)) (tl (senders k a))"
      unfolding True by (metis map_append)
    then show ?thesis using frame r ne True by (cases "mb_mails (mbs s b)") (auto simp: mb_pending_def)
  next
    case False
    then show ?thesis using frame r(1) by (simp add: mb_pending_def)
  qed
qed

lemma os_mb_recv_order:
  assumes s: "settled i k" and inv: "mb_inv s k" and c: "current_task k \<noteq> Some i" and live: "live_mb s b"
    and wt: "mb_wake_type (mbs s a) = WAKE_TYPE_FIFO" and run: "os_mb_recv b timeout (s, k) = OK (sk', r)"
  shows "mb_pending a (s, k) = (case r of Returns (e, Some v) \<Rightarrow> if b = a then [v] else [] | _ \<Rightarrow> []) @ mb_pending a sk' \<and>
    mb_wake_type (mbs (fst sk') a) = WAKE_TYPE_FIFO"
proof -
  obtain c where c': "current_task k = Some c" "c \<noteq> i" using settledD(6)[OF s] c by auto
  note cn = ready_not_waiting[OF settledD(3)[OF s] settled_ready[OF s c'(1)], of "send_list a"]
  consider (taken) "mb_entry_count (mbs s b) \<noteq> 0" | (empty) "mb_entry_count (mbs s b) = 0" "timeout = OS_NO_WAIT"
    | (blocked) "mb_entry_count (mbs s b) = 0" "timeout \<noteq> OS_NO_WAIT" by blast
  then show ?thesis
  proof cases
    case taken
    have ring: "mb_ring_ok (mbs s b)" using mb_okD[OF inv live] by (simp add: mb_ok_def)
    obtain v where v: "mb_front (mbs s b) = OK v" "mb_mails (mbs s b) = v # mb_mails (k_mb_modify_read_index (mbs s b))"
      using mb_get_ring[OF ring taken] by blast
    have sk': "mb_take b (s, k) = OK sk'" "r = Returns (OS_EOK, Some v)"
      using run taken live v(1) by (auto simp: os_mb_recv_def wait_context_def res_simps)
    from mb_take_order[OF s inv live taken sk'(1), of a] show ?thesis using sk'(2) v(2) wt by auto
  next
    case empty
    then have "sk' = (s, k)" "r = Returns (OS_EEMPTY, None)"
      using run live by (auto simp: os_mb_recv_def wait_context_def res_simps)
    then show ?thesis using wt by simp
  next
    case blocked
    let ?wp = "mb_wake_type (mbs s b) = WAKE_TYPE_PRIO"
    have free: "sched_lock_cnt k = 0"
      using run blocked(2) by (auto simp: os_mb_recv_def wait_context_def res_simps os_is_schedule_locked_def)
    obtain k1 where k1: "block_current (recv_list b) timeout ?wp k = OK k1"
      "task_lists k1 = wait_insert (WQ (recv_list b)) c ?wp k"
      "tasks k1 = (tasks k)(c := blocked_tcb (WQ (recv_list b)) timeout ?wp (os_tick k) (tasks k c))"
      using block_current_run[OF s c' free, of "recv_list b" timeout ?wp] by blast
    have "sk' = (s, k1)" "r = Blocks"
      using run blocked live k1(1) by (auto simp: os_mb_recv_def wait_context_def res_simps)
    moreover have "mb_pending a (s, k1) = mb_pending a (s, k)"
      by (rule mb_pending_frame) (use cn in \<open>auto simp: k1(2,3) wait_insert_other\<close>)
    ultimately show ?thesis using wt by simp
  qed
qed

lemma mb_syscall_order:
  assumes s: "settled i k" and inv: "mb_inv s k" and al: "mb_allowed i x s k" and x: "send_or_recv x"
    and wt: "mb_wake_type (mbs s a) = WAKE_TYPE_FIFO" and run: "syscall mb_service x (s, k) = OK ((s', k'), r)"
  shows "mb_pending a (s, k) @ mb_accepts a x r = mb_delivers a x r k @ mb_pending a (s', k') \<and>
    mb_wake_type (mbs s' a) = WAKE_TYPE_FIFO"
proof -
  obtain k1 where k1: "mb_service x (s, k) = OK ((s', k1), r)" "dispatch k1 = OK k'"
    using run by (auto simp: syscall_def res_simps)
  have "krun i k1" using mb_service_safe[OF s inv al] k1(1) by simp
  then have same: "mb_pending a (s', k') = mb_pending a (s', k1)"
    using dispatch_wait_frame(1,4)[OF _ k1(2)] by (simp add: mb_pending_def)
  show ?thesis
  proof (cases x)
    case (Mb_send b v timeout)
    obtain r0 where r0: "os_mb_send b v timeout (s, k) = OK ((s', k1), r0)"
      "r = (case r0 of Returns e \<Rightarrow> Returns (e, None) | Blocks \<Rightarrow> Blocks)"
      using k1(1) Mb_send by (auto simp: mb_service_def no_mail_def res_simps)
    have live: "live_mb s b" using r0(1) by (auto simp: os_mb_send_def res_simps)
    have c: "current_task k \<noteq> Some i" using al Mb_send by (simp add: mb_allowed_def)
    have "r \<noteq> Returns (OS_EFULL, None) \<longleftrightarrow> r0 \<noteq> Returns OS_EFULL" using r0(2) by (cases r0) auto
    then show ?thesis
      using os_mb_send_order[OF s inv c live wt r0(1)] same by (simp add: Mb_send mb_accepts_def mb_delivers_def)
  next
    case (Mb_recv b timeout)
    then have r0: "os_mb_recv b timeout (s, k) = OK ((s', k1), r)" using k1(1) by (simp add: mb_service_def)
    have live: "live_mb s b" using r0 by (auto simp: os_mb_recv_def res_simps)
    have c: "current_task k \<noteq> Some i" using al Mb_recv by (simp add: mb_allowed_def)
    show ?thesis
      using os_mb_recv_order[OF s inv c live wt r0] same by (simp add: Mb_recv mb_accepts_def mb_delivers_def)
  qed (use x in \<open>simp_all add: send_or_recv_def\<close>)
qed

subsection \<open>Properties\<close>

text \<open>
  C20. Mailboxes deliver in order: over any allowed sequence of sends and receives, on any
  mailboxes and by whichever tasks run, a first-come first-served mailbox delivers mails
  in the order in which it accepted them and loses none: the mails pending at first followed
  by those accepted are those delivered followed by those still pending. The calls stop in
  an assertion or keep the scheduling invariant and that of the mailboxes.
\<close>

theorem mb_mails_in_order:
  assumes "settled i k" "mb_inv s k" "calls_allowed mb_service (mb_allowed i) xs (s, k)"
    and "list_all send_or_recv xs" "mb_wake_type (mbs s a) = WAKE_TYPE_FIFO"
  shows "mb_trace a xs (s, k) = Fault AssertFail \<or>
    (\<exists>s' k' ins outs. mb_trace a xs (s, k) = OK ((s', k'), ins, outs) \<and> settled i k' \<and> mb_inv s' k' \<and>
       mb_pending a (s, k) @ ins = outs @ mb_pending a (s', k'))"
  using assms
proof (induction xs arbitrary: s k)
  case (Cons x xs)
  have al: "mb_allowed i x s k" and sr: "send_or_recv x" using Cons.prems(3,4) by simp_all
  from mb_srv.syscall_settled[OF Cons.prems(1,2) al] show ?case
  proof (elim disjE exE conjE)
    fix s1 k1 r assume 1: "syscall mb_service x (s, k) = OK ((s1, k1), r)" "settled i k1" "mb_inv s1 k1"
    note o = mb_syscall_order[OF Cons.prems(1,2) al sr Cons.prems(5) 1(1)]
    have "calls_allowed mb_service (mb_allowed i) xs (s1, k1)" "list_all send_or_recv xs"
      using Cons.prems(3,4) 1(1) by simp_all
    from Cons.IH[OF 1(2,3) this conjunct2[OF o]] show ?thesis
    proof (elim disjE exE conjE)
      fix s' k' ins outs
      assume 2: "mb_trace a xs (s1, k1) = OK ((s', k'), ins, outs)" "settled i k'" "mb_inv s' k'"
        "mb_pending a (s1, k1) @ ins = outs @ mb_pending a (s', k')"
      have "mb_pending a (s, k) @ mb_accepts a x r @ ins = (mb_delivers a x r k @ outs) @ mb_pending a (s', k')"
        using o 2(4) by (metis append.assoc)
      then show ?thesis using 1(1) 2(1-3) by simp
    qed (simp_all add: 1(1))
  qed simp
qed simp

definition bss_mbs :: mb_sys where
  "bss_mbs = \<lparr>mbs = (\<lambda>_. \<lparr>mail_pool = [], mb_capacity = 0, mb_entry_count = 0, mb_read_index = 0, mb_write_index = 0,
     mb_object_inited = 0, mb_object_alloc_type = 0, mb_wake_type = 0, mb_name = ''''\<rparr>), mb_resource_list = []\<rparr>"

text \<open>A mailbox of two mails with one mail in it, used in order of arrival.\<close>

definition sample_mbs :: mb_sys where
  "sample_mbs = upd_mb 300 (\<lambda>x. x\<lparr>mail_pool := [0, 11], mb_capacity := 2, mb_entry_count := 1, mb_read_index := 1,
     mb_object_inited := OS_KOBJ_INITED, mb_wake_type := WAKE_TYPE_FIFO\<rparr>) bss_mbs"

lemma sample_mbs_inv: "mb_inv sample_mbs sample"
  by (auto simp: mb_inv_def sample_mbs_def bss_mbs_def OS_KOBJ_INITED_def mb_ok_def mb_ring_ok_def sample_lists_def
      send_list_def recv_list_def)

lemmas mb_eval = wait_eval mb_service_def no_mail_def os_mb_send_def os_mb_recv_def mb_put_def mb_front_def mb_take_def
  k_mb_modify_read_index_def k_mb_modify_write_index_def upd_mb_def send_list_def recv_list_def WAKE_TYPE_FIFO_def

theorem mb_mails_in_order_witness:
  "\<exists>s' k'. mb_trace 300 [Mb_send 300 22 0, Mb_send 300 33 OS_WAIT_FOREVER, Mb_recv 300 0, Mb_recv 300 0] (sample_mbs, sample) =
      OK ((s', k'), [22, 33], [11, 22]) \<and> settled 3 k' \<and> mb_inv s' k' \<and> mb_pending 300 (s', k') = [33]"
proof -
  let ?xs = "[Mb_send 300 22 0, Mb_send 300 33 OS_WAIT_FOREVER, Mb_recv 300 0, Mb_recv 300 0]"
  have al: "calls_allowed mb_service (mb_allowed 3) ?xs (sample_mbs, sample)"
    by (simp add: mb_allowed_def sample_mbs_def bss_mbs_def mb_eval word_le_nat_alt)
  have "\<exists>sk. mb_trace 300 ?xs (sample_mbs, sample) = OK (sk, [22, 33], [11, 22])"
    by (simp add: sample_mbs_def bss_mbs_def mb_accepts_def mb_delivers_def mb_eval word_le_nat_alt)
  moreover have "mb_pending 300 (sample_mbs, sample) = [11]"
    by (simp add: mb_pending_def mb_mails_def sample_mbs_def ring_list_def send_list_def sample_lists_def)
  moreover have "mb_wake_type (mbs sample_mbs 300) = WAKE_TYPE_FIFO" by (simp add: sample_mbs_def)
  ultimately show ?thesis
    using mb_mails_in_order[OF sample_settled sample_mbs_inv al, of 300] by (auto simp: send_or_recv_def)
qed

text \<open>
  The capacity computed for a mailbox fits its pool: when the pool does not wrap around the
  address space and reaches its aligned start, that many words lie between the aligned
  start and the end of the pool.
\<close>

theorem mb_capacity_fits:
  assumes "unat pool + unat sz < 2 ^ 32" "os_align_up pool \<le> pool + sz"
  shows "unat (os_align_up pool) + 4 * unat (mb_capacity_of pool sz) \<le> unat pool + unat sz"
proof -
  have "unat (pool + sz) = unat pool + unat sz" using assms(1) by (simp add: unat_word_ariths)
  then have d: "unat (pool + sz - os_align_up pool) = unat pool + unat sz - unat (os_align_up pool)"
    using assms(2) by (simp add: unat_sub)
  have "unat (mb_capacity_of pool sz) \<le> unat ((pool + sz - os_align_up pool) div 4)"
    unfolding mb_capacity_of_def by (simp add: unsigned_ucast_eq take_bit_nat_less_eq_self)
  also have "\<dots> = (unat pool + unat sz - unat (os_align_up pool)) div 4" by (simp add: unat_div d)
  finally show ?thesis
    using assms(2) \<open>unat (pool + sz) = unat pool + unat sz\<close> by (simp add: word_le_nat_alt)
qed

theorem mb_capacity_fits_witness:
  "unat (os_align_up 0x20000001) + 4 * unat (mb_capacity_of 0x20000001 20) \<le> 0x20000015 \<and> mb_capacity_of 0x20000001 20 = 4"
proof -
  have "os_align_up 0x20000001 \<le> 0x20000001 + 20" by (simp add: os_align_up_def)
  then show ?thesis
    using mb_capacity_fits[of "0x20000001" 20] by (simp add: mb_capacity_of_def os_align_up_def)
qed

text \<open>
  The condition of the pool's size is needed, and \<^verbatim>\<open>_k_mb_init\<close> does not check it: a pool that
  ends before its aligned start gets the largest capacity there is.
\<close>

theorem mb_tiny_pool_capacity:
  "mb_capacity_of 0x20000001 1 = 0xFFFF \<and>
   (\<exists>s k. os_mb_init 300 None 0x20000001 1 mem (bss_mbs, sample) = OK ((s, k), OS_EOK) \<and>
      os_mb_get_capacity 300 s = 0xFFFF \<and> \<not> os_mb_is_full 300 s)"
  by (simp add: os_mb_init_def k_mb_init_def mb_capacity_of_def os_align_up_def Let_def bss_mbs_def
      os_mb_get_capacity_def os_mb_is_full_def upd_mb_def)

end
