(* ===== verification/Os_Mq.thy ===== *)
theory Os_Mq
  imports Wait_Pair Fifo_Ring
begin

text \<open>
  \<^verbatim>\<open>oneos/kernel/source/os_mq.c\<close>: message queues. The messages of a queue lie in its pool, each
  behind a header with a pointer to the next message; a queue has a list of messages, with
  pointers to its first and last entry, and a list of free messages. Messages are copied
  outside the kernel's critical sections, so a call consists of two sections, between which
  it holds a message that is in neither list.
\<close>

record os_mq_msg =
  msg_next :: "u32 option"
  msg_len :: u32
  msg_data :: "u8 list"

text \<open>The messages are reached by their addresses; \<^verbatim>\<open>OS_NULL\<close> is \<open>None\<close>.\<close>

record os_mq =
  msg_pool :: u32
  mq_mem :: "u32 \<Rightarrow> os_mq_msg"
  msg_queue_head :: "u32 option"
  msg_queue_tail :: "u32 option"
  msg_queue_free :: "u32 option"
  max_msg_size :: u32
  queue_depth :: u16
  mq_entry_count :: u16
  mq_object_inited :: u8
  mq_object_alloc_type :: u8
  mq_wake_type :: u8
  mq_name :: string

record mq_sys =
  mqs :: "nat \<Rightarrow> os_mq"
  mq_resource_list :: "nat list"

definition upd_mq :: "nat \<Rightarrow> (os_mq \<Rightarrow> os_mq) \<Rightarrow> mq_sys \<Rightarrow> mq_sys" where
  "upd_mq a f s = s\<lparr>mqs := (mqs s)(a := f (mqs s a))\<rparr>"

lemma upd_mq_apply [simp]: "mqs (upd_mq a f s) b = (if b = a then f (mqs s a) else mqs s b)"
  by (simp add: upd_mq_def)

definition upd_msg :: "u32 \<Rightarrow> (os_mq_msg \<Rightarrow> os_mq_msg) \<Rightarrow> os_mq \<Rightarrow> os_mq" where
  "upd_msg p f x = x\<lparr>mq_mem := (mq_mem x)(p := f (mq_mem x p))\<rparr>"

subsection \<open>The two lists of messages\<close>

definition k_mq_put_msg_to_queue :: "u32 \<Rightarrow> bool \<Rightarrow> os_mq \<Rightarrow> os_mq" where
  "k_mq_put_msg_to_queue p urgent x =
     (let y =
        (if \<not> urgent then
           let x1 = upd_msg p (\<lambda>m. m\<lparr>msg_next := None\<rparr>) x;
               x2 = (case msg_queue_tail x1 of None \<Rightarrow> x1 | Some q \<Rightarrow> upd_msg q (\<lambda>m. m\<lparr>msg_next := Some p\<rparr>) x1);
               x3 = x2\<lparr>msg_queue_tail := Some p\<rparr>
           in if msg_queue_head x3 = None then x3\<lparr>msg_queue_head := Some p\<rparr> else x3
         else
           let x1 = upd_msg p (\<lambda>m. m\<lparr>msg_next := msg_queue_head x\<rparr>) x;
               x2 = x1\<lparr>msg_queue_head := Some p\<rparr>
           in if msg_queue_tail x2 = None then x2\<lparr>msg_queue_tail := Some p\<rparr> else x2)
      in y\<lparr>mq_entry_count := mq_entry_count y + 1\<rparr>)"

definition k_mq_get_msg_from_queue :: "os_mq \<Rightarrow> (u32 \<times> os_mq) res" where
  "k_mq_get_msg_from_queue x = (case msg_queue_head x of None \<Rightarrow> Fault AssertFail
     | Some p \<Rightarrow>
        let x1 = x\<lparr>msg_queue_head := msg_next (mq_mem x p)\<rparr>;
            x2 = upd_msg p (\<lambda>m. m\<lparr>msg_next := None\<rparr>) x1;
            x3 = (if msg_queue_tail x2 = Some p then x2\<lparr>msg_queue_tail := None\<rparr> else x2)
        in OK (p, x3\<lparr>mq_entry_count := mq_entry_count x3 - 1\<rparr>))"

definition k_mq_release_free_msg :: "u32 \<Rightarrow> os_mq \<Rightarrow> os_mq" where
  "k_mq_release_free_msg p x =
     (upd_msg p (\<lambda>m. m\<lparr>msg_next := msg_queue_free x\<rparr>) x)\<lparr>msg_queue_free := Some p\<rparr>"

definition k_mq_get_free_msg :: "os_mq \<Rightarrow> (u32 \<times> os_mq) res" where
  "k_mq_get_free_msg x = (case msg_queue_free x of None \<Rightarrow> Fault AssertFail
     | Some p \<Rightarrow> OK (p, upd_msg p (\<lambda>m. m\<lparr>msg_next := None\<rparr>) (x\<lparr>msg_queue_free := msg_next (mq_mem x p)\<rparr>)))"

subsection \<open>Life cycle\<close>

text \<open>
  The address of the message number \<open>j\<close> of a pool: eight bytes of header and the data. The sum is
  computed in 32 bits; when it wraps around, the messages of the pool overlap in memory, which the
  model of a message as a record at its address does not show.
\<close>

definition mq_slot :: "u32 \<Rightarrow> u32 \<Rightarrow> nat \<Rightarrow> u32" where
  "mq_slot pool data_size j = os_align_up pool + of_nat j * (data_size + 8)"

definition mq_depth :: "u32 \<Rightarrow> u32 \<Rightarrow> u32 \<Rightarrow> u16" where
  "mq_depth pool pool_size data_size = ucast ((pool + pool_size - os_align_up pool) div (data_size + 8))"

text \<open>\<open>mem\<close> gives the bytes that the pool holds at that time.\<close>

definition mq_free_slot :: "(u32 \<Rightarrow> u8) \<Rightarrow> os_mq \<Rightarrow> nat \<Rightarrow> os_mq" where
  "mq_free_slot mem x j =
     (let p = mq_slot (msg_pool x) (max_msg_size x) j
      in (upd_msg p (\<lambda>_. \<lparr>msg_next = msg_queue_free x, msg_len = 0,
            msg_data = map (\<lambda>b. mem (p + 8 + of_nat b)) [0..<unat (max_msg_size x)]\<rparr>) x)\<lparr>msg_queue_free := Some p\<rparr>)"

definition mq_free_slots :: "(u32 \<Rightarrow> u8) \<Rightarrow> os_mq \<Rightarrow> os_mq" where
  "mq_free_slots mem x = foldl (mq_free_slot mem) x [0..<unat (queue_depth x)]"

definition k_mq_init ::
  "nat \<Rightarrow> string option \<Rightarrow> u32 \<Rightarrow> u32 \<Rightarrow> u32 \<Rightarrow> u8 \<Rightarrow> (u32 \<Rightarrow> u8) \<Rightarrow> mq_sys \<times> kernel \<Rightarrow> (mq_sys \<times> kernel) \<times> os_err" where
  "k_mq_init a nm pool pool_size msg_size alloc mem = (\<lambda>(s, k).
     let data_size = os_align_up msg_size; depth = mq_depth pool pool_size data_size;
         s1 = upd_mq a (\<lambda>x. x\<lparr>queue_depth := depth\<rparr>) s in
     if 0 < depth then
       ((upd_mq a (\<lambda>x. mq_free_slots mem (x\<lparr>msg_pool := pool, max_msg_size := data_size, mq_entry_count := 0,
           mq_object_alloc_type := alloc, mq_wake_type := WAKE_TYPE_PRIO,
           mq_name := (case nm of None \<Rightarrow> '''' | Some n \<Rightarrow> take OS_NAME_MAX n),
           msg_queue_head := None, msg_queue_tail := None, msg_queue_free := None\<rparr>)) s1,
         k\<lparr>task_lists := (task_lists k)(WQ (send_list a) := [], WQ (recv_list a) := [])\<rparr>), OS_EOK)
     else ((s1, k), OS_ENOMEM))"

definition os_mq_init ::
  "nat \<Rightarrow> string option \<Rightarrow> u32 \<Rightarrow> u32 \<Rightarrow> u32 \<Rightarrow> (u32 \<Rightarrow> u8) \<Rightarrow> mq_sys \<times> kernel \<Rightarrow> ((mq_sys \<times> kernel) \<times> os_err) res" where
  "os_mq_init a nm pool pool_size msg_size mem = (\<lambda>(s, k).
     os_assert (0 < pool_size) (os_assert (0 < msg_size) (os_assert (\<not> irq_active k)
       (if a \<in> set (mq_resource_list s) then OK ((s, k), OS_EINVAL)
        else let ((s1, k1), r) = k_mq_init a nm pool pool_size msg_size OS_KOBJ_ALLOC_TYPE_STATIC mem
                   (s\<lparr>mq_resource_list := mq_resource_list s @ [a]\<rparr>, k)
             in if r = OS_EOK then OK ((upd_mq a (\<lambda>x. x\<lparr>mq_object_inited := OS_KOBJ_INITED\<rparr>) s1, k1), r)
                else OK ((s1\<lparr>mq_resource_list := removeAll a (mq_resource_list s1)\<rparr>, k1), r)))))"

text \<open>The addresses of the control block and of the aligned pool are what the heap returns.\<close>

definition os_mq_create ::
  "string option \<Rightarrow> u32 \<Rightarrow> u32 \<Rightarrow> nat option \<Rightarrow> u32 option \<Rightarrow> (u32 \<Rightarrow> u8) \<Rightarrow> mq_sys \<times> kernel \<Rightarrow>
     ((mq_sys \<times> kernel) \<times> nat option) res" where
  "os_mq_create nm msg_size max_msgs cb pool mem = (\<lambda>(s, k).
     os_assert (0 < msg_size) (os_assert (0 < max_msgs) (task_context k
       (case (cb, pool) of
          (Some a, Some p) \<Rightarrow>
            (let ((s1, k1), r) = k_mq_init a nm p (max_msgs * (os_align_up msg_size + 8)) (os_align_up msg_size)
                   OS_KOBJ_ALLOC_TYPE_DYNAMIC mem (s, k)
             in if r = OS_EOK
                then OK ((upd_mq a (\<lambda>x. x\<lparr>mq_object_inited := OS_KOBJ_INITED\<rparr>)
                       (s1\<lparr>mq_resource_list := mq_resource_list s1 @ [a]\<rparr>), k1), Some a)
                else OK ((s1, k1), None))
        | _ \<Rightarrow> OK ((s, k), None)))))"

definition mq_dispose :: "nat \<Rightarrow> mq_sys \<times> kernel \<Rightarrow> ((mq_sys \<times> kernel) \<times> os_err) res" where
  "mq_dispose a = (\<lambda>(s, k).
     bind_res (k_cancle_all_blocked_task (send_list a) k) (\<lambda>k1.
     bind_res (k_cancle_all_blocked_task (recv_list a) k1) (\<lambda>k2.
       let s1 = upd_mq a (\<lambda>x. x\<lparr>mq_object_inited := OS_KOBJ_DEINITED\<rparr>) s
       in OK ((s1\<lparr>mq_resource_list := removeAll a (mq_resource_list s1)\<rparr>, k_kernel_exit_sched k2), OS_EOK))))"

definition os_mq_deinit :: "nat \<Rightarrow> mq_sys \<times> kernel \<Rightarrow> ((mq_sys \<times> kernel) \<times> os_err) res" where
  "os_mq_deinit a = (\<lambda>(s, k).
     os_assert (mq_object_inited (mqs s a) = OS_KOBJ_INITED)
     (os_assert (mq_object_alloc_type (mqs s a) = OS_KOBJ_ALLOC_TYPE_STATIC)
     (os_assert (\<not> irq_active k) (mq_dispose a (s, k)))))"

definition os_mq_destroy :: "nat \<Rightarrow> mq_sys \<times> kernel \<Rightarrow> ((mq_sys \<times> kernel) \<times> os_err) res" where
  "os_mq_destroy a = (\<lambda>(s, k).
     os_assert (mq_object_inited (mqs s a) = OS_KOBJ_INITED)
     (os_assert (mq_object_alloc_type (mqs s a) = OS_KOBJ_ALLOC_TYPE_DYNAMIC)
     (task_context k (mq_dispose a (s, k)))))"

subsection \<open>Sending\<close>

text \<open>
  The first critical section of \<^verbatim>\<open>_k_mq_send\<close>: the call gets a free message, or fails, or
  blocks. A call that holds a message goes on with \<open>mq_send_store\<close>.
\<close>

definition mq_send_begin ::
  "nat \<Rightarrow> u32 \<Rightarrow> u32 \<Rightarrow> mq_sys \<times> kernel \<Rightarrow> ((mq_sys \<times> kernel) \<times> (os_err + u32) outcome) res" where
  "mq_send_begin a buff_size timeout = (\<lambda>(s, k).
     os_assert (0 < buff_size \<and> buff_size \<le> max_msg_size (mqs s a))
     (os_assert (mq_object_inited (mqs s a) = OS_KOBJ_INITED) (wait_context timeout k
       (if msg_queue_free (mqs s a) \<noteq> None then
          bind_res (k_mq_get_free_msg (mqs s a)) (\<lambda>(p, x). OK ((upd_mq a (\<lambda>_. x) s, k), Returns (Inr p)))
        else if timeout = OS_NO_WAIT then OK ((s, k), Returns (Inl OS_EFULL))
        else bind_res (block_current (send_list a) timeout (mq_wake_type (mqs s a) = WAKE_TYPE_PRIO) k) (\<lambda>k1.
               OK ((s, k1), Blocks))))))"

text \<open>The copy into the message that the call holds.\<close>

definition mq_copy_in :: "u32 \<Rightarrow> u8 list \<Rightarrow> os_mq \<Rightarrow> os_mq res" where
  "mq_copy_in p data x = bind_res (mem_write (msg_data (mq_mem x p)) 0 data) (\<lambda>bytes.
     OK (upd_msg p (\<lambda>m. m\<lparr>msg_data := bytes, msg_len := of_nat (length data)\<rparr>) x))"

text \<open>The second critical section: to the first waiting receiver, or into the queue.\<close>

definition mq_send_end :: "nat \<Rightarrow> u32 \<Rightarrow> bool \<Rightarrow> mq_sys \<times> kernel \<Rightarrow> (mq_sys \<times> kernel) res" where
  "mq_send_end a p urgent = (\<lambda>(s, k).
     case receivers k a of
       t # _ \<Rightarrow> bind_res (wake_with t (\<lambda>x. x\<lparr>swap_data := p\<rparr>) k) (\<lambda>k1. OK (s, k1))
     | [] \<Rightarrow> OK (upd_mq a (k_mq_put_msg_to_queue p urgent) s, k))"

definition mq_send_store ::
  "nat \<Rightarrow> u32 \<Rightarrow> u8 list \<Rightarrow> bool \<Rightarrow> mq_sys \<times> kernel \<Rightarrow> ((mq_sys \<times> kernel) \<times> os_err) res" where
  "mq_send_store a p data urgent = (\<lambda>(s, k).
     bind_res (mq_copy_in p data (mqs s a)) (\<lambda>x.
     bind_res (mq_send_end a p urgent (upd_mq a (\<lambda>_. x) s, k)) (\<lambda>sk. OK (sk, OS_EOK))))"

definition k_mq_send ::
  "nat \<Rightarrow> u8 list \<Rightarrow> u32 \<Rightarrow> bool \<Rightarrow> mq_sys \<times> kernel \<Rightarrow> ((mq_sys \<times> kernel) \<times> os_err outcome) res" where
  "k_mq_send a data timeout urgent sk =
     bind_res (mq_send_begin a (of_nat (length data)) timeout sk) (\<lambda>(sk1, r).
       case r of
         Returns (Inr p) \<Rightarrow> bind_res (mq_send_store a p data urgent sk1) (\<lambda>(sk2, e). OK (sk2, Returns e))
       | Returns (Inl e) \<Rightarrow> OK (sk1, Returns e)
       | Blocks \<Rightarrow> OK (sk1, Blocks))"

definition os_mq_send :: "nat \<Rightarrow> u8 list \<Rightarrow> u32 \<Rightarrow> mq_sys \<times> kernel \<Rightarrow> ((mq_sys \<times> kernel) \<times> os_err outcome) res" where
  "os_mq_send a data timeout = k_mq_send a data timeout False"

definition os_mq_send_urgent :: "nat \<Rightarrow> u8 list \<Rightarrow> u32 \<Rightarrow> mq_sys \<times> kernel \<Rightarrow> ((mq_sys \<times> kernel) \<times> os_err outcome) res" where
  "os_mq_send_urgent a data timeout = k_mq_send a data timeout True"

text \<open>A sender that blocked goes on when it runs again, with the message it was given.\<close>

definition mq_send_resume ::
  "nat \<Rightarrow> tid \<Rightarrow> u8 list \<Rightarrow> bool \<Rightarrow> mq_sys \<times> kernel \<Rightarrow> ((mq_sys \<times> kernel) \<times> os_err) res" where
  "mq_send_resume a c data urgent = (\<lambda>(s, k).
     if wait_result c k = OS_EOK then mq_send_store a (swap_data (tasks k c)) data urgent (s, k)
     else OK ((s, k), wait_result c k))"

subsection \<open>Receiving\<close>

definition mq_recv_begin ::
  "nat \<Rightarrow> u32 \<Rightarrow> u32 \<Rightarrow> mq_sys \<times> kernel \<Rightarrow> ((mq_sys \<times> kernel) \<times> (os_err + u32) outcome) res" where
  "mq_recv_begin a buff_size timeout = (\<lambda>(s, k).
     os_assert (0 < buff_size) (os_assert (mq_object_inited (mqs s a) = OS_KOBJ_INITED) (wait_context timeout k
       (if msg_queue_head (mqs s a) = None then
          (if timeout = OS_NO_WAIT then OK ((s, k), Returns (Inl OS_EEMPTY))
           else bind_res (block_current (recv_list a) timeout (mq_wake_type (mqs s a) = WAKE_TYPE_PRIO) k) (\<lambda>k1.
               OK ((s, k1), Blocks)))
        else bind_res (k_mq_get_msg_from_queue (mqs s a)) (\<lambda>(p, x). OK ((upd_mq a (\<lambda>_. x) s, k), Returns (Inr p)))))))"

text \<open>A message that is larger than the receiver's buffer is discarded.\<close>

definition mq_copy_out :: "u32 \<Rightarrow> u32 \<Rightarrow> os_mq \<Rightarrow> (os_err \<times> u8 list option) res" where
  "mq_copy_out p buff_size x =
     (if buff_size < msg_len (mq_mem x p) then OK (OS_ENOMEM, None)
      else bind_res (mem_read (msg_data (mq_mem x p)) 0 (unat (msg_len (mq_mem x p)))) (\<lambda>bytes. OK (OS_EOK, Some bytes)))"

definition mq_recv_end :: "nat \<Rightarrow> u32 \<Rightarrow> mq_sys \<times> kernel \<Rightarrow> (mq_sys \<times> kernel) res" where
  "mq_recv_end a p = (\<lambda>(s, k).
     case senders k a of
       t # _ \<Rightarrow> bind_res (wake_with t (\<lambda>x. x\<lparr>swap_data := p\<rparr>) k) (\<lambda>k1. OK (s, k1))
     | [] \<Rightarrow> OK (upd_mq a (k_mq_release_free_msg p) s, k))"

definition mq_recv_load ::
  "nat \<Rightarrow> u32 \<Rightarrow> u32 \<Rightarrow> mq_sys \<times> kernel \<Rightarrow> ((mq_sys \<times> kernel) \<times> os_err \<times> u8 list option) res" where
  "mq_recv_load a p buff_size = (\<lambda>(s, k).
     bind_res (mq_copy_out p buff_size (mqs s a)) (\<lambda>r. bind_res (mq_recv_end a p (s, k)) (\<lambda>sk. OK (sk, r))))"

definition os_mq_recv ::
  "nat \<Rightarrow> u32 \<Rightarrow> u32 \<Rightarrow> mq_sys \<times> kernel \<Rightarrow> ((mq_sys \<times> kernel) \<times> (os_err \<times> u8 list option) outcome) res" where
  "os_mq_recv a buff_size timeout sk =
     bind_res (mq_recv_begin a buff_size timeout sk) (\<lambda>(sk1, r).
       case r of
         Returns (Inr p) \<Rightarrow> bind_res (mq_recv_load a p buff_size sk1) (\<lambda>(sk2, r). OK (sk2, Returns r))
       | Returns (Inl e) \<Rightarrow> OK (sk1, Returns (e, None))
       | Blocks \<Rightarrow> OK (sk1, Blocks))"

definition mq_recv_resume ::
  "nat \<Rightarrow> tid \<Rightarrow> u32 \<Rightarrow> mq_sys \<times> kernel \<Rightarrow> ((mq_sys \<times> kernel) \<times> os_err \<times> u8 list option) res" where
  "mq_recv_resume a c buff_size = (\<lambda>(s, k).
     if wait_result c k = OS_EOK then mq_recv_load a (swap_data (tasks k c)) buff_size (s, k)
     else OK ((s, k), wait_result c k, None))"

subsection \<open>Other operations\<close>

definition os_mq_set_wake_type :: "nat \<Rightarrow> u8 \<Rightarrow> mq_sys \<times> kernel \<Rightarrow> ((mq_sys \<times> kernel) \<times> os_err) res" where
  "os_mq_set_wake_type a wt = (\<lambda>(s, k).
     os_assert (wt = WAKE_TYPE_PRIO \<or> wt = WAKE_TYPE_FIFO)
       (if receivers k a = [] \<and> senders k a = []
        then OK ((upd_mq a (\<lambda>x. x\<lparr>mq_wake_type := wt\<rparr>) s, k), OS_EOK) else OK ((s, k), OS_EBUSY)))"

text \<open>
  The loop of \<^verbatim>\<open>os_mq_reset\<close> moves every message to the free list. It ends when the queue is a
  proper list; \<open>None\<close> would stand for a loop that does not end.
\<close>

partial_function (option) mq_drain :: "os_mq \<Rightarrow> os_mq res option" where
  "mq_drain x = (if msg_queue_head x = None then Some (OK x)
     else case k_mq_get_msg_from_queue x of Fault f \<Rightarrow> Some (Fault f)
       | OK px \<Rightarrow> mq_drain (k_mq_release_free_msg (fst px) (snd px)))"

definition os_mq_reset :: "nat \<Rightarrow> mq_sys \<times> kernel \<Rightarrow> (mq_sys \<times> kernel) res option" where
  "os_mq_reset a = (\<lambda>(s, k). map_option (\<lambda>r. bind_res r (\<lambda>x.
     bind_res (cancel_if_any (send_list a) (k, False)) (\<lambda>kn. bind_res (cancel_if_any (recv_list a) kn) (\<lambda>(k2, need).
       OK (upd_mq a (\<lambda>_. x) s, exit_if need k2))))) (mq_drain (mqs s a)))"

definition os_mq_is_empty :: "nat \<Rightarrow> mq_sys \<Rightarrow> bool" where
  "os_mq_is_empty a s \<longleftrightarrow> msg_queue_head (mqs s a) = None"

definition os_mq_is_full :: "nat \<Rightarrow> mq_sys \<Rightarrow> bool" where
  "os_mq_is_full a s \<longleftrightarrow> msg_queue_free (mqs s a) = None"

definition os_mq_get_queue_depth :: "nat \<Rightarrow> mq_sys \<Rightarrow> u16" where
  "os_mq_get_queue_depth a s = queue_depth (mqs s a)"

definition os_mq_get_used_entry_count :: "nat \<Rightarrow> mq_sys \<Rightarrow> u16" where
  "os_mq_get_used_entry_count a s = mq_entry_count (mqs s a)"

definition os_mq_get_unused_entry_count :: "nat \<Rightarrow> mq_sys \<Rightarrow> u16" where
  "os_mq_get_unused_entry_count a s = queue_depth (mqs s a) - mq_entry_count (mqs s a)"

subsection \<open>The pointers form two lists\<close>

text \<open>The addresses of the messages in a pool.\<close>

definition mq_slots :: "os_mq \<Rightarrow> u32 set" where
  "mq_slots x = mq_slot (msg_pool x) (max_msg_size x) ` {..<unat (queue_depth x)}"

definition mq_lists :: "os_mq \<Rightarrow> u32 list \<Rightarrow> u32 list \<Rightarrow> bool" where
  "mq_lists x qs fs \<longleftrightarrow> linked msg_next (mq_mem x) (msg_queue_head x) qs \<and> linked msg_next (mq_mem x) (msg_queue_free x) fs \<and>
     msg_queue_tail x = (if qs = [] then None else Some (last qs)) \<and> distinct (qs @ fs) \<and> set (qs @ fs) \<subseteq> mq_slots x \<and>
     unat (mq_entry_count x) = length qs \<and>
     (\<forall>p \<in> mq_slots x. length (msg_data (mq_mem x p)) = unat (max_msg_size x)) \<and>
     (\<forall>p \<in> set qs. msg_len (mq_mem x p) \<le> max_msg_size x)"

lemma mq_listsD:
  assumes "mq_lists x qs fs"
  shows "linked msg_next (mq_mem x) (msg_queue_head x) qs" "linked msg_next (mq_mem x) (msg_queue_free x) fs"
    "msg_queue_tail x = (if qs = [] then None else Some (last qs))" "distinct (qs @ fs)" "set (qs @ fs) \<subseteq> mq_slots x"
    "unat (mq_entry_count x) = length qs" "p \<in> mq_slots x \<Longrightarrow> length (msg_data (mq_mem x p)) = unat (max_msg_size x)"
    "p \<in> set qs \<Longrightarrow> msg_len (mq_mem x p) \<le> max_msg_size x"
  using assms by (auto simp: mq_lists_def)

lemma mq_heads:
  assumes "mq_lists x qs fs"
  shows "msg_queue_head x = None \<longleftrightarrow> qs = []" "msg_queue_free x = None \<longleftrightarrow> fs = []"
proof -
  show "msg_queue_head x = None \<longleftrightarrow> qs = []" using mq_listsD(1)[OF assms] by (cases qs) auto
  show "msg_queue_free x = None \<longleftrightarrow> fs = []" using mq_listsD(2)[OF assms] by (cases fs) auto
qed

text \<open>A pool of depth \<open>d\<close> has room for \<open>d\<close> messages, so no counter overflows.\<close>

lemma mq_slots_count:
  assumes "mq_lists x qs fs"
  shows "length qs + length fs \<le> unat (queue_depth x)"
proof -
  have "card (mq_slots x) \<le> unat (queue_depth x)"
    unfolding mq_slots_def by (rule order_trans[OF card_image_le]) simp_all
  moreover have "length (qs @ fs) \<le> card (mq_slots x)"
    using card_mono[OF _ mq_listsD(5)[OF assms]] distinct_card[OF mq_listsD(4)[OF assms]] by (simp add: mq_slots_def)
  ultimately show ?thesis by simp
qed

lemma mq_room:
  assumes "mq_lists x qs fs" "p \<in> mq_slots x" "p \<notin> set (qs @ fs)"
  shows "Suc (length qs) \<le> unat (queue_depth x)" "unat (mq_entry_count x + 1) = Suc (length qs)"
proof -
  have "card (mq_slots x) \<le> unat (queue_depth x)"
    unfolding mq_slots_def by (rule order_trans[OF card_image_le]) simp_all
  moreover have "card (insert p (set (qs @ fs))) \<le> card (mq_slots x)"
    using mq_listsD(5)[OF assms(1)] assms(2) by (intro card_mono) (auto simp: mq_slots_def)
  moreover have "card (insert p (set (qs @ fs))) = Suc (length (qs @ fs))"
    using distinct_card[OF mq_listsD(4)[OF assms(1)]] assms(3) by (simp add: card_insert_if)
  ultimately show "Suc (length qs) \<le> unat (queue_depth x)" by simp
  then show "unat (mq_entry_count x + 1) = Suc (length qs)"
    using mq_listsD(6)[OF assms(1)] unat_u16[of "queue_depth x"] by (simp add: unat_word_ariths)
qed

text \<open>What list operations leave alone: the pool, and what the messages say.\<close>

definition same_messages :: "os_mq \<Rightarrow> os_mq \<Rightarrow> bool" where
  "same_messages x y \<longleftrightarrow> msg_pool y = msg_pool x \<and> max_msg_size y = max_msg_size x \<and> queue_depth y = queue_depth x \<and>
     mq_object_inited y = mq_object_inited x \<and> mq_object_alloc_type y = mq_object_alloc_type x \<and> mq_wake_type y = mq_wake_type x \<and>
     (\<forall>p. msg_len (mq_mem y p) = msg_len (mq_mem x p) \<and> msg_data (mq_mem y p) = msg_data (mq_mem x p))"

lemma same_messages_slots: "same_messages x y \<Longrightarrow> mq_slots y = mq_slots x"
  by (simp add: same_messages_def mq_slots_def)

lemma same_messages_trans: "same_messages x y \<Longrightarrow> same_messages y z \<Longrightarrow> same_messages x z"
  by (simp add: same_messages_def)

lemma mq_listsI:
  assumes "mq_lists x qs0 fs0" "same_messages x y"
    and "linked msg_next (mq_mem y) (msg_queue_head y) qs" "linked msg_next (mq_mem y) (msg_queue_free y) fs"
    "msg_queue_tail y = (if qs = [] then None else Some (last qs))" "distinct (qs @ fs)" "set (qs @ fs) \<subseteq> mq_slots x"
    "unat (mq_entry_count y) = length qs" "\<And>p. p \<in> set qs \<Longrightarrow> msg_len (mq_mem x p) \<le> max_msg_size x"
  shows "mq_lists y qs fs"
  using assms mq_listsD(7)[OF assms(1)] same_messages_slots[OF assms(2)] unfolding mq_lists_def same_messages_def by auto

lemma put_msg_lists:
  assumes l: "mq_lists x qs fs" and p: "p \<in> mq_slots x" "p \<notin> set (qs @ fs)" "msg_len (mq_mem x p) \<le> max_msg_size x"
  shows "mq_lists (k_mq_put_msg_to_queue p urgent x) (if urgent then p # qs else qs @ [p]) fs"
    "same_messages x (k_mq_put_msg_to_queue p urgent x)"
proof -
  note L = mq_listsD[OF l] and cnt = mq_room(2)[OF l p(1,2)]
  show same: "same_messages x (k_mq_put_msg_to_queue p urgent x)"
    by (simp add: k_mq_put_msg_to_queue_def same_messages_def upd_msg_def Let_def split: option.split)
  have tail: "last qs \<noteq> p \<and> last qs \<in> set qs \<and> last qs \<notin> set fs" if "qs \<noteq> []"
    using last_in_set[OF that] p(2) L(4) by (auto simp: disjoint_iff)
  have "linked msg_next (mq_mem (k_mq_put_msg_to_queue p urgent x)) (msg_queue_head (k_mq_put_msg_to_queue p urgent x))
      (if urgent then p # qs else qs @ [p])"
  proof (cases "urgent \<or> qs = []")
    case True
    then show ?thesis
      using L(1,3) p(2) mq_heads(1)[OF l] by (auto simp: k_mq_put_msg_to_queue_def upd_msg_def Let_def linked_empty split: if_splits)
  next
    case False
    have "linked msg_next ((mq_mem x)(p := (mq_mem x p)\<lparr>msg_next := None\<rparr>, last qs := (mq_mem x (last qs))\<lparr>msg_next := Some p\<rparr>))
        (msg_queue_head x) (qs @ [p])"
      by (rule linked_snoc) (use False L(1,4) p(2) in auto)
    then show ?thesis
      using False L(1,3) tail by (cases qs) (auto simp: k_mq_put_msg_to_queue_def upd_msg_def Let_def)
  qed
  moreover have "linked msg_next (mq_mem (k_mq_put_msg_to_queue p urgent x)) (msg_queue_free (k_mq_put_msg_to_queue p urgent x)) fs"
    using L(2,3) p(2) tail by (auto simp: k_mq_put_msg_to_queue_def upd_msg_def Let_def split: option.split)
  moreover have "msg_queue_tail (k_mq_put_msg_to_queue p urgent x) = Some (last (if urgent then p # qs else qs @ [p]))"
    using L(3) by (auto simp: k_mq_put_msg_to_queue_def upd_msg_def Let_def split: option.split)
  moreover have "mq_entry_count (k_mq_put_msg_to_queue p urgent x) = mq_entry_count x + 1"
    by (simp add: k_mq_put_msg_to_queue_def upd_msg_def Let_def split: option.split)
  ultimately show "mq_lists (k_mq_put_msg_to_queue p urgent x) (if urgent then p # qs else qs @ [p]) fs"
    by (intro mq_listsI[OF l same]) (use L(4,5,8) p cnt in \<open>auto split: if_splits\<close>)
qed

lemma get_msg_lists:
  assumes l: "mq_lists x (p # qs) fs"
  shows "\<exists>y. k_mq_get_msg_from_queue x = OK (p, y) \<and> mq_lists y qs fs \<and> same_messages x y"
proof -
  note L = mq_listsD[OF l]
  obtain y where y: "k_mq_get_msg_from_queue x = OK (p, y)"
    using L(1) by (simp add: k_mq_get_msg_from_queue_def Let_def)
  have same: "same_messages x y"
    using y L(1) by (auto simp: k_mq_get_msg_from_queue_def same_messages_def upd_msg_def Let_def)
  have pos: "0 < mq_entry_count x" using L(6) by (auto simp: word_gt_0)
  have "mq_entry_count y = mq_entry_count x - 1"
    using y L(1) by (auto simp: k_mq_get_msg_from_queue_def upd_msg_def Let_def)
  then have "unat (mq_entry_count y) = length qs" using L(6) unat_dec[OF pos] by simp
  moreover have "linked msg_next (mq_mem y) (msg_queue_head y) qs" "linked msg_next (mq_mem y) (msg_queue_free y) fs"
    "msg_queue_tail y = (if qs = [] then None else Some (last qs))"
    using y L(1-4) by (auto simp: k_mq_get_msg_from_queue_def upd_msg_def Let_def)
  ultimately have "mq_lists y qs fs" by (intro mq_listsI[OF l same]) (use L(4,5,8) in auto)
  then show ?thesis using y same by blast
qed

lemma release_msg_lists:
  assumes l: "mq_lists x qs fs" and p: "p \<in> mq_slots x" "p \<notin> set (qs @ fs)"
  shows "mq_lists (k_mq_release_free_msg p x) qs (p # fs)" "same_messages x (k_mq_release_free_msg p x)"
proof -
  note L = mq_listsD[OF l]
  show same: "same_messages x (k_mq_release_free_msg p x)"
    by (simp add: k_mq_release_free_msg_def same_messages_def upd_msg_def)
  show "mq_lists (k_mq_release_free_msg p x) qs (p # fs)"
    by (rule mq_listsI[OF l same]) (use L p in \<open>auto simp: k_mq_release_free_msg_def upd_msg_def\<close>)
qed

lemma get_free_lists:
  assumes l: "mq_lists x qs (p # fs)"
  shows "\<exists>y. k_mq_get_free_msg x = OK (p, y) \<and> mq_lists y qs fs \<and> same_messages x y"
proof -
  note L = mq_listsD[OF l]
  obtain y where y: "k_mq_get_free_msg x = OK (p, y)" using L(2) by (simp add: k_mq_get_free_msg_def)
  have same: "same_messages x y"
    using y L(2) by (auto simp: k_mq_get_free_msg_def same_messages_def upd_msg_def)
  have "mq_lists y qs fs"
    by (rule mq_listsI[OF l same]) (use y L in \<open>auto simp: k_mq_get_free_msg_def upd_msg_def\<close>)
  then show ?thesis using y same by blast
qed

text \<open>What a message says.\<close>

definition message :: "os_mq \<Rightarrow> u32 \<Rightarrow> u8 list" where
  "message x p = take (unat (msg_len (mq_mem x p))) (msg_data (mq_mem x p))"

lemma same_messages_message: "same_messages x y \<Longrightarrow> message y p = message x p"
  by (simp add: same_messages_def message_def)

lemma copy_in_lists:
  assumes l: "mq_lists x qs fs" and p: "p \<in> mq_slots x" "p \<notin> set (qs @ fs)" and n: "length data \<le> unat (max_msg_size x)"
  shows "\<exists>y. mq_copy_in p data x = OK y \<and> mq_lists y qs fs \<and> message y p = data \<and> (\<forall>q. q \<noteq> p \<longrightarrow> mq_mem y q = mq_mem x q) \<and>
    msg_len (mq_mem y p) \<le> max_msg_size y \<and> mq_slots y = mq_slots x \<and> max_msg_size y = max_msg_size x \<and>
    queue_depth y = queue_depth x \<and> mq_wake_type y = mq_wake_type x \<and> mq_object_inited y = mq_object_inited x"
proof -
  note L = mq_listsD[OF l]
  let ?v = "(mq_mem x p)\<lparr>msg_data := data @ drop (length data) (msg_data (mq_mem x p)), msg_len := of_nat (length data)\<rparr>"
  have len: "unat (of_nat (length data) :: u32) = length data"
    by (rule unat_length[OF n])
  have run: "mq_copy_in p data x = OK (x\<lparr>mq_mem := (mq_mem x)(p := ?v)\<rparr>)"
    using L(7)[OF p(1)] n by (simp add: mq_copy_in_def mem_write_def upd_msg_def)
  have "mq_lists (x\<lparr>mq_mem := (mq_mem x)(p := ?v)\<rparr>) qs fs"
    using L p n unfolding mq_lists_def by (auto simp: mq_slots_def)
  then show ?thesis
    using run n len by (simp add: message_def mq_slots_def word_le_nat_alt)
qed

lemma copy_out_message:
  assumes "mq_lists x qs fs" "p \<in> mq_slots x" "msg_len (mq_mem x p) \<le> max_msg_size x"
  shows "mq_copy_out p buff_size x =
    OK (if buff_size < msg_len (mq_mem x p) then (OS_ENOMEM, None) else (OS_EOK, Some (message x p)))"
  using mq_listsD(7)[OF assms(1,2)] assms(3) by (simp add: mq_copy_out_def mem_read_def message_def word_le_nat_alt)

text \<open>The loop that empties a queue ends, with every message in the free list.\<close>

lemma drain_lists:
  "mq_lists x qs fs \<Longrightarrow> \<exists>y. mq_drain x = Some (OK y) \<and> mq_lists y [] (rev qs @ fs) \<and> same_messages x y"
proof (induction qs arbitrary: x fs)
  case Nil
  then show ?case using mq_heads(1)[OF Nil] by (simp add: mq_drain.simps[of x] same_messages_def)
next
  case (Cons p qs)
  have h: "msg_queue_head x \<noteq> None" using mq_heads(1)[OF Cons.prems] by simp
  obtain y where y: "k_mq_get_msg_from_queue x = OK (p, y)" "mq_lists y qs fs" "same_messages x y"
    using get_msg_lists[OF Cons.prems] by blast
  have p: "p \<in> mq_slots y" "p \<notin> set (qs @ fs)"
    using mq_listsD(4,5)[OF Cons.prems] same_messages_slots[OF y(3)] by auto
  obtain z where z: "mq_drain (k_mq_release_free_msg p y) = Some (OK z)" "mq_lists z [] (rev qs @ p # fs)"
    "same_messages (k_mq_release_free_msg p y) z"
    using Cons.IH[OF release_msg_lists(1)[OF y(2) p]] by blast
  then show ?case
    using y(1) h same_messages_trans[OF y(3) same_messages_trans[OF release_msg_lists(2)[OF y(2) p]]]
    by (auto simp: mq_drain.simps[of x])
qed

text \<open>
  The messages of a new queue are apart from each other: the depth times the size of a
  message does not exceed the size of the pool, so the addresses do not wrap onto each other.
\<close>

lemma mq_depth_le:
  assumes "j < unat (mq_depth pool pool_size data_size)"
  shows "(j + 1) * unat (data_size + 8) \<le> unat (pool + pool_size - os_align_up pool)" "0 < unat (data_size + 8)"
proof -
  let ?size = "pool + pool_size - os_align_up pool" and ?r = "data_size + 8"
  have "unat (mq_depth pool pool_size data_size) \<le> unat (?size div ?r)"
    by (simp add: mq_depth_def unsigned_ucast_eq take_bit_nat_less_eq_self)
  then have j: "j + 1 \<le> unat ?size div unat ?r" using assms by (simp add: unat_div)
  then show pos: "0 < unat ?r" by (cases "unat ?r") auto
  show "(j + 1) * unat ?r \<le> unat ?size" using j unfolding less_eq_div_iff_mult_less_eq[OF pos] .
qed

lemma mq_depth_fits:
  assumes "j < unat (mq_depth pool pool_size data_size)"
  shows "unat (of_nat j * (data_size + 8) :: u32) = j * unat (data_size + 8)"
proof -
  have "j * unat (data_size + 8) < 2 ^ 32"
    using mq_depth_le(1)[OF assms] unat_u32[of "pool + pool_size - os_align_up pool"] by simp
  moreover have "j < 2 ^ 32" using assms unat_u16[of "mq_depth pool pool_size data_size"] by simp
  ultimately show ?thesis by (simp add: unat_word_ariths(2) unsigned_of_nat take_bit_nat_eq_self)
qed

lemma mq_slots_apart:
  "inj_on (mq_slot pool data_size) {..<unat (mq_depth pool pool_size data_size)}"
proof (rule inj_onI)
  fix i j assume ij: "i \<in> {..<unat (mq_depth pool pool_size data_size)}" "j \<in> {..<unat (mq_depth pool pool_size data_size)}"
    "mq_slot pool data_size i = mq_slot pool data_size j"
  have "of_nat i * (data_size + 8) = (of_nat j * (data_size + 8) :: u32)" using ij(3) by (simp add: mq_slot_def)
  then have "i * unat (data_size + 8) = j * unat (data_size + 8)" using mq_depth_fits[of i pool pool_size data_size] mq_depth_fits[of j pool pool_size data_size] ij(1,2) by auto
  then show "i = j" using mq_depth_le(2)[of i pool pool_size data_size] ij(1) by simp
qed

lemma free_slots_loop:
  fixes mem x
  defines "F \<equiv> \<lambda>n. foldl (mq_free_slot mem) x [0..<n]"
  assumes "msg_queue_free x = None" "inj_on (mq_slot (msg_pool x) (max_msg_size x)) {..<n}"
  shows "linked msg_next (mq_mem (F n)) (msg_queue_free (F n)) (rev (map (mq_slot (msg_pool x) (max_msg_size x)) [0..<n])) \<and>
    F n = x\<lparr>mq_mem := mq_mem (F n), msg_queue_free := msg_queue_free (F n)\<rparr> \<and>
    (\<forall>j < n. length (msg_data (mq_mem (F n) (mq_slot (msg_pool x) (max_msg_size x) j))) = unat (max_msg_size x))"
  using assms(3)
proof (induction n)
  case 0
  then show ?case using assms(2) by (simp add: F_def)
next
  case (Suc n)
  let ?slot = "mq_slot (msg_pool x) (max_msg_size x)"
  have inj: "inj_on ?slot {..<n}" using Suc.prems by (rule inj_on_subset) auto
  have new2: "?slot j \<noteq> ?slot n" if "j < n" for j using inj_onD[OF Suc.prems, of j n] that by auto
  then have new: "?slot n \<notin> set (rev (map ?slot [0..<n]))" by fastforce
  note IH = Suc.IH[OF inj]
  have same: "msg_pool (F n) = msg_pool x" "max_msg_size (F n) = max_msg_size x"
    by (subst IH[THEN conjunct2, THEN conjunct1], simp)+
  have step: "F (Suc n) = mq_free_slot mem (F n) n" by (simp add: F_def)
  have "F (Suc n) = x\<lparr>mq_mem := mq_mem (F (Suc n)), msg_queue_free := msg_queue_free (F (Suc n))\<rparr>"
    unfolding step by (subst IH[THEN conjunct2, THEN conjunct1]) (simp add: mq_free_slot_def Let_def upd_msg_def same)
  moreover have "linked msg_next (mq_mem (F (Suc n))) (msg_queue_free (F (Suc n))) (rev (map ?slot [0..<Suc n]))"
    using IH new by (simp add: step mq_free_slot_def Let_def upd_msg_def same)
  moreover have "length (msg_data (mq_mem (F (Suc n)) (?slot j))) = unat (max_msg_size x)" if "j < Suc n" for j
    using that IH new2[of j] by (cases "j = n") (auto simp: step mq_free_slot_def Let_def upd_msg_def same)
  ultimately show ?case by blast
qed

lemma mq_free_slots_lists:
  assumes "msg_queue_free x = None" "msg_queue_head x = None" "msg_queue_tail x = None" "mq_entry_count x = 0"
    and "queue_depth x = mq_depth (msg_pool x) pool_size (max_msg_size x)"
  shows "mq_lists (mq_free_slots mem x) [] (rev (map (mq_slot (msg_pool x) (max_msg_size x)) [0..<unat (queue_depth x)]))"
    "\<exists>m f. mq_free_slots mem x = x\<lparr>mq_mem := m, msg_queue_free := f\<rparr>"
proof -
  let ?slots = "map (mq_slot (msg_pool x) (max_msg_size x)) [0..<unat (queue_depth x)]" and ?y = "mq_free_slots mem x"
  have inj: "inj_on (mq_slot (msg_pool x) (max_msg_size x)) {..<unat (queue_depth x)}"
    unfolding assms(5) by (rule mq_slots_apart)
  note loop = free_slots_loop[OF assms(1) inj, of mem, folded mq_free_slots_def]
  have y: "?y = x\<lparr>mq_mem := mq_mem ?y, msg_queue_free := msg_queue_free ?y\<rparr>" using loop by blast
  then show "\<exists>m f. ?y = x\<lparr>mq_mem := m, msg_queue_free := f\<rparr>" by blast
  have f: "msg_queue_head ?y = None" "msg_queue_tail ?y = None" "mq_entry_count ?y = 0" "mq_slots ?y = set ?slots"
    "max_msg_size ?y = max_msg_size x"
    by (subst y, simp add: assms mq_slots_def atLeast_upt)+
  have "distinct ?slots" using inj by (simp add: distinct_map atLeast_upt lessThan_atLeast0)
  then show "mq_lists ?y [] (rev ?slots)" using loop by (auto simp: mq_lists_def f)
qed

text \<open>The lists as functions of the pointers, with the depth of the queue as a bound.\<close>

definition mq_queue :: "os_mq \<Rightarrow> u32 list" where
  "mq_queue x = walk msg_next (unat (queue_depth x)) (mq_mem x) (msg_queue_head x)"

definition mq_free :: "os_mq \<Rightarrow> u32 list" where
  "mq_free x = walk msg_next (unat (queue_depth x)) (mq_mem x) (msg_queue_free x)"

lemma mq_lists_walk: "mq_lists x qs fs \<Longrightarrow> mq_queue x = qs \<and> mq_free x = fs"
  using mq_slots_count[of x qs fs] walk_linked[OF mq_listsD(1)] walk_linked[OF mq_listsD(2)]
  by (simp add: mq_queue_def mq_free_def)

definition mq_well_linked :: "os_mq \<Rightarrow> bool" where
  "mq_well_linked x \<longleftrightarrow> mq_lists x (mq_queue x) (mq_free x)"

lemma well_linkedI: "mq_lists x qs fs \<Longrightarrow> mq_well_linked x"
  using mq_lists_walk[of x qs fs] by (simp add: mq_well_linked_def)

text \<open>The messages in the queue, first to last, and a message that a call holds.\<close>

definition mq_contents :: "os_mq \<Rightarrow> u8 list list" where
  "mq_contents x = map (message x) (mq_queue x)"

definition mq_held :: "os_mq \<Rightarrow> u32 \<Rightarrow> bool" where
  "mq_held x p \<longleftrightarrow> p \<in> mq_slots x \<and> p \<notin> set (mq_queue x @ mq_free x)"

lemma mq_contents_lists: "mq_lists x qs fs \<Longrightarrow> mq_contents x = map (message x) qs"
  by (simp add: mq_contents_def mq_lists_walk)

lemma mq_held_lists: "mq_lists x qs fs \<Longrightarrow> mq_held x p \<longleftrightarrow> p \<in> mq_slots x \<and> p \<notin> set (qs @ fs)"
  by (simp add: mq_held_def mq_lists_walk)

subsection \<open>Invariant\<close>

text \<open>
  The lists of a live queue are well linked; no task waits to receive while there are
  messages, and none to send while there is a free one; the wait lists are in priority order
  unless the queue is first-come first-served.
\<close>

definition mq_ok :: "os_mq \<Rightarrow> nat \<Rightarrow> kernel \<Rightarrow> bool" where
  "mq_ok x a k \<longleftrightarrow> mq_well_linked x \<and> (receivers k a \<noteq> [] \<longrightarrow> mq_queue x = []) \<and> (senders k a \<noteq> [] \<longrightarrow> mq_free x = []) \<and>
     (mq_wake_type x = WAKE_TYPE_PRIO \<longrightarrow> prio_sorted k (send_list a) \<and> prio_sorted k (recv_list a))"

abbreviation live_mq :: "mq_sys \<Rightarrow> nat \<Rightarrow> bool" where
  "live_mq s a \<equiv> mq_object_inited (mqs s a) = OS_KOBJ_INITED"

definition mq_inv :: "mq_sys \<Rightarrow> kernel \<Rightarrow> bool" where
  "mq_inv s k \<longleftrightarrow> (\<forall>a. live_mq s a \<longrightarrow> mq_ok (mqs s a) a k)"

lemma mq_okD: "mq_inv s k \<Longrightarrow> live_mq s a \<Longrightarrow> mq_ok (mqs s a) a k"
  by (simp add: mq_inv_def)

lemma mq_linked: "mq_inv s k \<Longrightarrow> live_mq s a \<Longrightarrow> mq_lists (mqs s a) (mq_queue (mqs s a)) (mq_free (mqs s a))"
  using mq_okD[of s k a] by (simp add: mq_ok_def mq_well_linked_def)

lemma mq_ok_frame:
  "mq_ok x a k \<Longrightarrow> senders k' a = senders k a \<Longrightarrow> receivers k' a = receivers k a \<Longrightarrow> (\<And>t. prio k' t = prio k t) \<Longrightarrow> mq_ok x a k'"
  by (simp add: mq_ok_def prio_sorted_def)

lemma mq_invI:
  assumes "mq_inv s k" "\<And>b. b \<noteq> a \<Longrightarrow> mqs s' b = mqs s b" "\<And>t. prio k' t = prio k t"
    and "\<And>b. b \<noteq> a \<Longrightarrow> senders k' b = senders k b \<and> receivers k' b = receivers k b"
    and "live_mq s' a \<Longrightarrow> mq_ok (mqs s' a) a k'"
  shows "mq_inv s' k'"
  unfolding mq_inv_def
proof (intro allI impI)
  fix b assume b: "live_mq s' b"
  show "mq_ok (mqs s' b) b k'"
  proof (cases "b = a")
    case False
    then show ?thesis using assms(1-4) b mq_ok_frame[of "mqs s b" b k k'] by (simp add: mq_inv_def)
  qed (use assms(5) b in simp)
qed

lemma mq_inv_resource [simp]: "mq_inv (s\<lparr>mq_resource_list := r\<rparr>) k \<longleftrightarrow> mq_inv s k"
  by (simp add: mq_inv_def)

lemma upd_mq_resource [simp]: "upd_mq a f (s\<lparr>mq_resource_list := r\<rparr>) = (upd_mq a f s)\<lparr>mq_resource_list := r\<rparr>"
  by (simp add: upd_mq_def)

subsection \<open>Sending\<close>

text \<open>The first section of a send: a message that no other call holds, or none.\<close>

lemma mq_send_begin_cases:
  assumes s: "settled i k" and inv: "mq_inv s k" and c: "current_task k \<noteq> Some i"
    and run: "mq_send_begin a n timeout (s, k) = OK (sk, r)"
  shows "live_mq s a \<and> 0 < n \<and> n \<le> max_msg_size (mqs s a) \<and>
    (case r of
       Returns (Inr p) \<Rightarrow> \<exists>x. sk = (upd_mq a (\<lambda>_. x) s, k) \<and> mq_free (mqs s a) = p # mq_free x \<and>
         mq_lists x (mq_queue (mqs s a)) (tl (mq_free (mqs s a))) \<and> same_messages (mqs s a) x \<and> mq_inv (upd_mq a (\<lambda>_. x) s) k
     | Returns (Inl e) \<Rightarrow> sk = (s, k) \<and> e = OS_EFULL \<and> mq_free (mqs s a) = []
     | Blocks \<Rightarrow> \<exists>k1. sk = (s, k1) \<and> krun i k1 \<and> mq_inv s k1 \<and> mq_free (mqs s a) = [])"
proof -
  obtain c where c': "current_task k = Some c" "c \<noteq> i" using settledD(6)[OF s] c by auto
  let ?x = "mqs s a" and ?wp = "mq_wake_type (mqs s a) = WAKE_TYPE_PRIO"
  have live: "live_mq s a" and n: "0 < n" "n \<le> max_msg_size ?x"
    using run by (auto simp: mq_send_begin_def wait_context_def res_simps)
  note L = mq_linked[OF inv live] and ok = mq_okD[OF inv live]
  show ?thesis
  proof (cases "mq_free ?x")
    case (Cons p fs)
    obtain x where x: "k_mq_get_free_msg ?x = OK (p, x)" "mq_lists x (mq_queue ?x) fs" "same_messages ?x x"
      using get_free_lists[of ?x "mq_queue ?x" p fs] L Cons by auto
    have run': "sk = (upd_mq a (\<lambda>_. x) s, k)" "r = Returns (Inr p)"
      using run x(1) mq_heads(2)[OF L] Cons by (auto simp: mq_send_begin_def wait_context_def res_simps)
    have "mq_inv (upd_mq a (\<lambda>_. x) s) k"
      by (rule mq_invI[OF inv, of a])
         (use ok Cons well_linkedI[OF x(2)] mq_lists_walk[OF x(2)] x(3) in \<open>auto simp: mq_ok_def same_messages_def\<close>)
    then show ?thesis using run' x n live Cons mq_lists_walk[OF x(2)] by auto
  next
    case Nil
    then have none: "msg_queue_free ?x = None" using mq_heads(2)[OF L] by simp
    show ?thesis
    proof (cases "timeout = OS_NO_WAIT")
      case True
      then show ?thesis using run none Nil live n by (auto simp: mq_send_begin_def wait_context_def res_simps)
    next
      case False
      have free: "\<not> os_is_schedule_locked k"
        using run False by (auto simp: mq_send_begin_def wait_context_def res_simps)
      obtain k1 where k1: "block_current (send_list a) timeout ?wp k = OK k1" "krun i k1"
        "\<And>v. v \<noteq> send_list a \<Longrightarrow> task_lists k1 (WQ v) = task_lists k (WQ v)" "\<And>u. prio k1 u = prio k u"
        "?wp \<Longrightarrow> prio_sorted k (send_list a) \<Longrightarrow> prio_sorted k1 (send_list a)"
        using block_last[OF s c' free, of "send_list a" timeout ?wp] by blast
      have "mq_inv s k1"
        by (rule mq_invI[OF inv, of a]) (use ok k1 Nil in \<open>auto simp: mq_ok_def prio_sorted_def\<close>)
      then show ?thesis
        using run none Nil live n k1(1,2) False by (auto simp: mq_send_begin_def wait_context_def res_simps)
    qed
  qed
qed

text \<open>
  The rest of a send, with the message that the call holds: the data is in the queue, or
  the message is with the first receiver, and the other messages are as before.
\<close>

lemma mq_send_store_cases:
  assumes s: "settled i k" and inv: "mq_inv s k" and live: "live_mq s a" and p: "mq_held (mqs s a) p"
    and n: "length data \<le> unat (max_msg_size (mqs s a))"
  shows "\<exists>s' k'. mq_send_store a p data urgent (s, k) = OK ((s', k'), OS_EOK) \<and> krun i k' \<and> mq_inv s' k' \<and>
    (\<forall>b. b \<noteq> a \<longrightarrow> mqs s' b = mqs s b) \<and> message (mqs s' a) p = data \<and> live_mq s' a \<and>
    max_msg_size (mqs s' a) = max_msg_size (mqs s a) \<and> queue_depth (mqs s' a) = queue_depth (mqs s a) \<and>
    mq_free (mqs s' a) = mq_free (mqs s a) \<and>
    (case receivers k a of
       [] \<Rightarrow> k' = k \<and> mq_contents (mqs s' a) = (if urgent then data # mq_contents (mqs s a) else mq_contents (mqs s a) @ [data])
     | t # ts \<Rightarrow> receivers k' a = ts \<and> swap_data (tasks k' t) = p \<and> mq_contents (mqs s' a) = mq_contents (mqs s a) \<and>
         mq_held (mqs s' a) p \<and> msg_len (mq_mem (mqs s' a) p) \<le> max_msg_size (mqs s' a) \<and>
         switch_retval (tasks k' t) = switch_retval (tasks k t))"
proof -
  let ?x = "mqs s a"
  note L = mq_linked[OF inv live] and ok = mq_okD[OF inv live]
  have p': "p \<in> mq_slots ?x" "p \<notin> set (mq_queue ?x @ mq_free ?x)" using p by (auto simp: mq_held_def)
  obtain y where y: "mq_copy_in p data ?x = OK y" "mq_lists y (mq_queue ?x) (mq_free ?x)" "message y p = data"
    "\<And>q. q \<noteq> p \<Longrightarrow> mq_mem y q = mq_mem ?x q" "msg_len (mq_mem y p) \<le> max_msg_size y" "mq_slots y = mq_slots ?x"
    "max_msg_size y = max_msg_size ?x" "queue_depth y = queue_depth ?x" "mq_wake_type y = mq_wake_type ?x"
    "mq_object_inited y = mq_object_inited ?x"
    using copy_in_lists[OF L p' n] by blast
  note W = mq_lists_walk[OF y(2)]
  have "message y q = message ?x q" if "q \<in> set (mq_queue ?x)" for q
  proof -
    have "q \<noteq> p" using that p'(2) by auto
    then show ?thesis using y(4)[of q] by (simp add: message_def)
  qed
  then have old: "map (message y) (mq_queue ?x) = mq_contents ?x" by (simp add: mq_contents_def)
  show ?thesis
  proof (cases "receivers k a")
    case Nil
    let ?z = "k_mq_put_msg_to_queue p urgent y"
    have pp: "p \<in> mq_slots y" using p'(1) y(6) by simp
    note z = put_msg_lists[OF y(2) pp p'(2) y(5), of urgent]
    have "mq_contents ?z = (if urgent then data # mq_contents ?x else mq_contents ?x @ [data])"
    proof -
      have "message ?z = message y" using same_messages_message[OF z(2)] by blast
      then show ?thesis using old y(3) unfolding mq_contents_lists[OF z(1)] by (cases urgent) simp_all
    qed
    moreover have "mq_inv (upd_mq a (\<lambda>_. ?z) s) k"
      by (rule mq_invI[OF inv, of a])
         (use ok Nil well_linkedI[OF z(1)] mq_lists_walk[OF z(1)] z(2) y(9) in \<open>auto simp: mq_ok_def same_messages_def\<close>)
    moreover have "mq_send_store a p data urgent (s, k) = OK ((upd_mq a (\<lambda>_. ?z) s, k), OS_EOK)"
      using y(1) Nil by (simp add: mq_send_store_def mq_send_end_def upd_mq_def)
    moreover have "message ?z p = data" "mq_free ?z = mq_free ?x" "max_msg_size ?z = max_msg_size ?x"
        "queue_depth ?z = queue_depth ?x" "mq_object_inited ?z = mq_object_inited ?x"
      using y(3,7,8,10) same_messages_message[OF z(2)] z(2) mq_lists_walk[OF z(1)] by (simp_all add: same_messages_def)
    ultimately show ?thesis using Nil live settledD(1)[OF s] by simp
  next
    case (Cons t ts)
    obtain k1 where k1: "wake_with t (\<lambda>x. x\<lparr>swap_data := p\<rparr>) k = OK k1" "krun i k1"
      "tasks k1 = tasks (upd_task t (\<lambda>x. x\<lparr>swap_data := p\<rparr>) (unblocked t k))" "receivers k1 a = ts"
      "\<And>v. v \<noteq> recv_list a \<Longrightarrow> task_lists k1 (WQ v) = task_lists k (WQ v)" "\<And>u. prio k1 u = prio k u"
      using wake_first[OF s Cons harmless_swap, of p] by blast
    have sw: "swap_data (tasks k1 t) = p" "switch_retval (tasks k1 t) = switch_retval (tasks k t)"
      by (simp_all add: k1(3) woken_tcb_def Let_def)
    have "mq_inv (upd_mq a (\<lambda>_. y) s) k1"
      by (rule mq_invI[OF inv, of a])
         (use ok Cons well_linkedI[OF y(2)] W y(9) k1(4-6) in \<open>auto simp: mq_ok_def prio_sorted_def\<close>)
    moreover have "mq_contents y = mq_contents ?x" using old by (simp add: mq_contents_lists[OF y(2)])
    moreover have "mq_held y p" using p' y(6) by (simp add: mq_held_lists[OF y(2)])
    moreover have "mq_send_store a p data urgent (s, k) = OK ((upd_mq a (\<lambda>_. y) s, k1), OS_EOK)"
      using y(1) Cons k1(1) by (simp add: mq_send_store_def mq_send_end_def)
    ultimately show ?thesis using Cons live k1(2,4) sw y(3,5,7,8,10) W by simp
  qed
qed

subsection \<open>Receiving\<close>

lemma mq_recv_begin_cases:
  assumes s: "settled i k" and inv: "mq_inv s k" and c: "current_task k \<noteq> Some i"
    and run: "mq_recv_begin a n timeout (s, k) = OK (sk, r)"
  shows "live_mq s a \<and> 0 < n \<and>
    (case r of
       Returns (Inr p) \<Rightarrow> \<exists>x. sk = (upd_mq a (\<lambda>_. x) s, k) \<and> mq_queue (mqs s a) = p # mq_queue x \<and> mq_free x = mq_free (mqs s a) \<and>
         mq_lists x (tl (mq_queue (mqs s a))) (mq_free (mqs s a)) \<and> same_messages (mqs s a) x \<and> mq_inv (upd_mq a (\<lambda>_. x) s) k
     | Returns (Inl e) \<Rightarrow> sk = (s, k) \<and> e = OS_EEMPTY \<and> mq_queue (mqs s a) = []
     | Blocks \<Rightarrow> \<exists>k1. sk = (s, k1) \<and> krun i k1 \<and> mq_inv s k1 \<and> mq_queue (mqs s a) = [])"
proof -
  obtain c where c': "current_task k = Some c" "c \<noteq> i" using settledD(6)[OF s] c by auto
  let ?x = "mqs s a" and ?wp = "mq_wake_type (mqs s a) = WAKE_TYPE_PRIO"
  have live: "live_mq s a" and n: "0 < n"
    using run by (auto simp: mq_recv_begin_def wait_context_def res_simps)
  note L = mq_linked[OF inv live] and ok = mq_okD[OF inv live]
  show ?thesis
  proof (cases "mq_queue ?x")
    case (Cons p qs)
    obtain x where x: "k_mq_get_msg_from_queue ?x = OK (p, x)" "mq_lists x qs (mq_free ?x)" "same_messages ?x x"
      using get_msg_lists[of ?x p qs "mq_free ?x"] L Cons by auto
    have run': "sk = (upd_mq a (\<lambda>_. x) s, k)" "r = Returns (Inr p)"
      using run x(1) mq_heads(1)[OF L] Cons by (auto simp: mq_recv_begin_def wait_context_def res_simps)
    have "mq_inv (upd_mq a (\<lambda>_. x) s) k"
      by (rule mq_invI[OF inv, of a])
         (use ok Cons well_linkedI[OF x(2)] mq_lists_walk[OF x(2)] x(3) in \<open>auto simp: mq_ok_def same_messages_def\<close>)
    then show ?thesis using run' x n live Cons mq_lists_walk[OF x(2)] by auto
  next
    case Nil
    then have none: "msg_queue_head ?x = None" using mq_heads(1)[OF L] by simp
    show ?thesis
    proof (cases "timeout = OS_NO_WAIT")
      case True
      then show ?thesis using run none Nil live n by (auto simp: mq_recv_begin_def wait_context_def res_simps)
    next
      case False
      have free: "\<not> os_is_schedule_locked k"
        using run False by (auto simp: mq_recv_begin_def wait_context_def res_simps)
      obtain k1 where k1: "block_current (recv_list a) timeout ?wp k = OK k1" "krun i k1"
        "\<And>v. v \<noteq> recv_list a \<Longrightarrow> task_lists k1 (WQ v) = task_lists k (WQ v)" "\<And>u. prio k1 u = prio k u"
        "?wp \<Longrightarrow> prio_sorted k (recv_list a) \<Longrightarrow> prio_sorted k1 (recv_list a)"
        using block_last[OF s c' free, of "recv_list a" timeout ?wp] by blast
      have "mq_inv s k1"
        by (rule mq_invI[OF inv, of a]) (use ok k1 Nil in \<open>auto simp: mq_ok_def prio_sorted_def\<close>)
      then show ?thesis
        using run none Nil live n k1(1,2) False by (auto simp: mq_recv_begin_def wait_context_def res_simps)
    qed
  qed
qed

lemma mq_recv_load_cases:
  assumes s: "settled i k" and inv: "mq_inv s k" and live: "live_mq s a" and p: "mq_held (mqs s a) p"
    and n: "msg_len (mq_mem (mqs s a) p) \<le> max_msg_size (mqs s a)"
  shows "\<exists>s' k'. mq_recv_load a p buff_size (s, k) =
      OK ((s', k'), if buff_size < msg_len (mq_mem (mqs s a) p) then (OS_ENOMEM, None) else (OS_EOK, Some (message (mqs s a) p))) \<and>
    krun i k' \<and> mq_inv s' k' \<and> (\<forall>b. b \<noteq> a \<longrightarrow> mqs s' b = mqs s b) \<and> same_messages (mqs s a) (mqs s' a) \<and>
    mq_queue (mqs s' a) = mq_queue (mqs s a) \<and>
    (case senders k a of
       [] \<Rightarrow> k' = k \<and> mq_free (mqs s' a) = p # mq_free (mqs s a)
     | t # ts \<Rightarrow> s' = s \<and> senders k' a = ts \<and> swap_data (tasks k' t) = p \<and> switch_retval (tasks k' t) = switch_retval (tasks k t))"
proof -
  let ?x = "mqs s a"
  note L = mq_linked[OF inv live] and ok = mq_okD[OF inv live]
  have p': "p \<in> mq_slots ?x" "p \<notin> set (mq_queue ?x @ mq_free ?x)" using p by (auto simp: mq_held_def)
  note out = copy_out_message[OF L p'(1) n, of buff_size]
  show ?thesis
  proof (cases "senders k a")
    case Nil
    note z = release_msg_lists[OF L p']
    have "mq_inv (upd_mq a (k_mq_release_free_msg p) s) k"
      by (rule mq_invI[OF inv, of a])
         (use ok Nil well_linkedI[OF z(1)] mq_lists_walk[OF z(1)] z(2) in \<open>auto simp: mq_ok_def same_messages_def\<close>)
    then show ?thesis
      using Nil out z(2) mq_lists_walk[OF z(1)] settledD(1)[OF s] by (simp add: mq_recv_load_def mq_recv_end_def)
  next
    case (Cons t ts)
    obtain k1 where k1: "wake_with t (\<lambda>x. x\<lparr>swap_data := p\<rparr>) k = OK k1" "krun i k1"
      "tasks k1 = tasks (upd_task t (\<lambda>x. x\<lparr>swap_data := p\<rparr>) (unblocked t k))" "senders k1 a = ts"
      "\<And>v. v \<noteq> send_list a \<Longrightarrow> task_lists k1 (WQ v) = task_lists k (WQ v)" "\<And>u. prio k1 u = prio k u"
      using wake_first[OF s Cons harmless_swap, of p] by blast
    have sw: "swap_data (tasks k1 t) = p" "switch_retval (tasks k1 t) = switch_retval (tasks k t)"
      by (simp_all add: k1(3) woken_tcb_def Let_def)
    have "mq_inv s k1"
      by (rule mq_invI[OF inv, of a]) (use ok Cons k1(4-6) in \<open>auto simp: mq_ok_def prio_sorted_def\<close>)
    then show ?thesis
      using Cons out k1(1,2,4) sw by (simp add: mq_recv_load_def mq_recv_end_def same_messages_def)
  qed
qed

subsection \<open>Whole calls\<close>

lemma k_mq_send_cases:
  assumes s: "settled i k" and inv: "mq_inv s k" and c: "current_task k \<noteq> Some i" and n: "length data < 2 ^ 32"
    and run: "mq_send_begin a (of_nat (length data)) timeout (s, k) = OK (sk, Returns (Inr p))"
  shows "\<exists>x. sk = (upd_mq a (\<lambda>_. x) s, k) \<and> mq_inv (upd_mq a (\<lambda>_. x) s) k \<and> live_mq s a \<and>
    same_messages (mqs s a) x \<and> mq_held x p \<and> length data \<le> unat (max_msg_size x) \<and> mq_queue x = mq_queue (mqs s a) \<and>
    mq_free (mqs s a) = p # mq_free x"
proof -
  obtain x where x: "live_mq s a" "of_nat (length data) \<le> max_msg_size (mqs s a)" "sk = (upd_mq a (\<lambda>_. x) s, k)"
    "mq_free (mqs s a) = p # mq_free x" "mq_lists x (mq_queue (mqs s a)) (mq_free x)" "same_messages (mqs s a) x"
    "mq_inv (upd_mq a (\<lambda>_. x) s) k"
    using mq_send_begin_cases[OF s inv c run] by auto
  note L = mq_linked[OF inv x(1)]
  have "p \<in> mq_slots x" "p \<notin> set (mq_queue (mqs s a) @ mq_free x)"
    using mq_listsD(4,5)[OF L] x(4) same_messages_slots[OF x(6)] by auto
  then have "mq_held x p" using mq_held_lists[OF x(5)] by simp
  moreover have "length data \<le> unat (max_msg_size x)"
    using x(2,6) n by (simp add: same_messages_def word_le_nat_alt unsigned_of_nat take_bit_nat_eq_self)
  ultimately show ?thesis using x mq_lists_walk[OF x(5)] by auto
qed

lemma mq_begin_fault:
  assumes s: "settled i k" and c: "current_task k \<noteq> Some i"
  shows "mq_send_begin a n timeout (s', k) = Fault f \<Longrightarrow> f = AssertFail"
    "mq_recv_begin a n timeout (s', k) = Fault f \<Longrightarrow> f = AssertFail"
proof -
  obtain c where c': "current_task k = Some c" "c \<noteq> i" using settledD(6)[OF s] c by auto
  have blk: "\<exists>k1. block_current w timeout wp k = OK k1" if "\<not> os_is_schedule_locked k" for w wp
    using block_last[OF s c' that, of w timeout wp] by blast
  show "f = AssertFail" if "mq_send_begin a n timeout (s', k) = Fault f"
    using that blk[of "send_list a" "mq_wake_type (mqs s' a) = WAKE_TYPE_PRIO"]
    by (auto simp: mq_send_begin_def wait_context_def os_assert_def k_mq_get_free_msg_def split: if_splits)
  show "f = AssertFail" if "mq_recv_begin a n timeout (s', k) = Fault f"
    using that blk[of "recv_list a" "mq_wake_type (mqs s' a) = WAKE_TYPE_PRIO"]
    by (auto simp: mq_recv_begin_def wait_context_def os_assert_def k_mq_get_msg_from_queue_def Let_def split: if_splits)
qed

lemma mq_send_begin_safe:
  assumes s: "settled i k" and inv: "mq_inv s k" and c: "current_task k \<noteq> Some i"
  shows "svc_safe mq_inv i (mq_send_begin a n timeout (s, k))"
proof (cases "mq_send_begin a n timeout (s, k)")
  case (OK r)
  obtain sk o' where r: "r = (sk, o')" by fastforce
  show ?thesis
    using mq_send_begin_cases[OF s inv c OK[unfolded r]] OK r settledD(1)[OF s] inv
    by (auto split: outcome.splits sum.splits)
qed (use mq_begin_fault(1)[OF s c] in auto)

lemma mq_recv_begin_safe:
  assumes s: "settled i k" and inv: "mq_inv s k" and c: "current_task k \<noteq> Some i"
  shows "svc_safe mq_inv i (mq_recv_begin a n timeout (s, k))"
proof (cases "mq_recv_begin a n timeout (s, k)")
  case (OK r)
  obtain sk o' where r: "r = (sk, o')" by fastforce
  show ?thesis
    using mq_recv_begin_cases[OF s inv c OK[unfolded r]] OK r settledD(1)[OF s] inv
    by (auto split: outcome.splits sum.splits)
qed (use mq_begin_fault(2)[OF s c] in auto)

lemma os_mq_recv_cases:
  assumes s: "settled i k" and inv: "mq_inv s k" and c: "current_task k \<noteq> Some i"
    and run: "mq_recv_begin a n timeout (s, k) = OK (sk, Returns (Inr p))"
  shows "\<exists>x. sk = (upd_mq a (\<lambda>_. x) s, k) \<and> mq_inv (upd_mq a (\<lambda>_. x) s) k \<and> live_mq s a \<and>
    same_messages (mqs s a) x \<and> mq_held x p \<and> msg_len (mq_mem x p) \<le> max_msg_size x \<and>
    mq_queue (mqs s a) = p # mq_queue x \<and> mq_free x = mq_free (mqs s a)"
proof -
  obtain x where x: "live_mq s a" "sk = (upd_mq a (\<lambda>_. x) s, k)" "mq_queue (mqs s a) = p # mq_queue x"
    "mq_free x = mq_free (mqs s a)" "mq_lists x (mq_queue x) (mq_free (mqs s a))" "same_messages (mqs s a) x"
    "mq_inv (upd_mq a (\<lambda>_. x) s) k"
    using mq_recv_begin_cases[OF s inv c run] by auto
  note L = mq_linked[OF inv x(1)]
  have "p \<in> mq_slots x" "p \<notin> set (mq_queue x @ mq_free (mqs s a))" "msg_len (mq_mem (mqs s a) p) \<le> max_msg_size (mqs s a)"
    using mq_listsD(4,5)[OF L] mq_listsD(8)[OF L, of p] x(3) same_messages_slots[OF x(6)] by auto
  moreover from this have "msg_len (mq_mem x p) \<le> max_msg_size x" using x(6) by (simp add: same_messages_def)
  moreover have "mq_held x p" using calculation mq_held_lists[OF x(5)] by simp
  ultimately show ?thesis using x by blast
qed

lemma k_mq_send_safe:
  assumes s: "settled i k" and inv: "mq_inv s k" and c: "current_task k \<noteq> Some i" and n: "length data < 2 ^ 32"
  shows "svc_safe mq_inv i (k_mq_send a data timeout urgent (s, k))"
proof -
  note safe = mq_send_begin_safe[OF s inv c, of a "of_nat (length data)" timeout]
  show ?thesis
  proof (cases "\<exists>sk p. mq_send_begin a (of_nat (length data)) timeout (s, k) = OK (sk, Returns (Inr p))")
    case True
    then obtain sk p where b: "mq_send_begin a (of_nat (length data)) timeout (s, k) = OK (sk, Returns (Inr p))" by blast
    obtain x where x: "sk = (upd_mq a (\<lambda>_. x) s, k)" "mq_inv (upd_mq a (\<lambda>_. x) s) k" "live_mq s a" "same_messages (mqs s a) x"
      "mq_held x p" "length data \<le> unat (max_msg_size x)"
      using k_mq_send_cases[OF s inv c n b] by blast
    have "live_mq (upd_mq a (\<lambda>_. x) s) a" using x(3,4) by (simp add: same_messages_def)
    then show ?thesis
      using mq_send_store_cases[OF s x(2), of a p data urgent] x(1,5,6) b by (auto simp: k_mq_send_def)
  next
    case False
    then show ?thesis
      using safe by (cases "mq_send_begin a (of_nat (length data)) timeout (s, k)")
        (auto simp: k_mq_send_def split: outcome.splits sum.splits)
  qed
qed

lemma os_mq_recv_safe:
  assumes s: "settled i k" and inv: "mq_inv s k" and c: "current_task k \<noteq> Some i"
  shows "svc_safe mq_inv i (os_mq_recv a n timeout (s, k))"
proof -
  note safe = mq_recv_begin_safe[OF s inv c, of a n timeout]
  show ?thesis
  proof (cases "\<exists>sk p. mq_recv_begin a n timeout (s, k) = OK (sk, Returns (Inr p))")
    case True
    then obtain sk p where b: "mq_recv_begin a n timeout (s, k) = OK (sk, Returns (Inr p))" by blast
    obtain x where x: "sk = (upd_mq a (\<lambda>_. x) s, k)" "mq_inv (upd_mq a (\<lambda>_. x) s) k" "live_mq s a" "same_messages (mqs s a) x"
      "mq_held x p" "msg_len (mq_mem x p) \<le> max_msg_size x"
      using os_mq_recv_cases[OF s inv c b] by blast
    have "live_mq (upd_mq a (\<lambda>_. x) s) a" using x(3,4) by (simp add: same_messages_def)
    then show ?thesis
      using mq_recv_load_cases[OF s x(2), of a p n] x(1,5,6) b by (auto simp: os_mq_recv_def)
  next
    case False
    then show ?thesis
      using safe by (cases "mq_recv_begin a n timeout (s, k)") (auto simp: os_mq_recv_def split: outcome.splits sum.splits)
  qed
qed

subsection \<open>Other calls keep the invariants\<close>

lemma k_mq_init_inv:
  assumes inv: "mq_inv s k" and l: "senders k a = []" "receivers k a = []" and d: "\<not> live_mq s a"
    and run: "k_mq_init a nm pool sz msg_size alloc mem (s, k) = ((s1, k1), r)"
  shows "k1 = k \<and> (r = OS_EOK \<longrightarrow> mq_inv (upd_mq a (\<lambda>x. x\<lparr>mq_object_inited := OS_KOBJ_INITED\<rparr>) s1) k) \<and> (r \<noteq> OS_EOK \<longrightarrow> mq_inv s1 k)"
proof (cases "0 < mq_depth pool sz (os_align_up msg_size)")
  case True
  let ?new = "(mqs s a)\<lparr>queue_depth := mq_depth pool sz (os_align_up msg_size), msg_pool := pool, max_msg_size := os_align_up msg_size,
    mq_entry_count := 0, mq_object_alloc_type := alloc, mq_wake_type := WAKE_TYPE_PRIO,
    mq_name := (case nm of None \<Rightarrow> '''' | Some n \<Rightarrow> take OS_NAME_MAX n), msg_queue_head := None, msg_queue_tail := None, msg_queue_free := None\<rparr>"
  let ?x = "mq_free_slots mem ?new" and ?in = "\<lambda>x. x\<lparr>mq_object_inited := OS_KOBJ_INITED\<rparr>"
  have k1: "k1 = k" "r = OS_EOK" "mqs s1 a = ?x" "\<And>b. b \<noteq> a \<Longrightarrow> mqs s1 b = mqs s b"
    using run True empty_lists_upd[OF l] by (auto simp: k_mq_init_def Let_def)
  obtain fs where fs: "mq_lists ?x [] fs" using mq_free_slots_lists(1)[of ?new sz mem] by simp
  then have "mq_lists (?in ?x) [] fs" by (simp add: mq_lists_def mq_slots_def)
  then have "mq_ok (?in ?x) a k" using l well_linkedI mq_lists_walk by (auto simp: mq_ok_def prio_sorted_def)
  then have "mq_inv (upd_mq a ?in s1) k" by (intro mq_invI[OF inv, of a]) (use k1(3,4) in auto)
  then show ?thesis using k1 by simp
next
  case False
  have "mq_inv (upd_mq a (\<lambda>x. x\<lparr>queue_depth := mq_depth pool sz (os_align_up msg_size)\<rparr>) s) k"
    by (rule mq_invI[OF inv, of a]) (use d in auto)
  then show ?thesis using run False by (auto simp: k_mq_init_def Let_def)
qed

lemma os_mq_init_safe:
  assumes s: "settled i k" and inv: "mq_inv s k" and l: "senders k a = []" "receivers k a = []" "\<not> live_mq s a"
  shows "svc_safe mq_inv i (os_mq_init a nm pool sz msg_size mem (s, k))"
proof -
  obtain s1 k1 r where b: "k_mq_init a nm pool sz msg_size OS_KOBJ_ALLOC_TYPE_STATIC mem (s\<lparr>mq_resource_list := mq_resource_list s @ [a]\<rparr>, k) = ((s1, k1), r)"
    by (metis prod.collapse)
  show ?thesis
    using k_mq_init_inv[OF _ _ _ _ b] l settledD(1)[OF s] inv by (auto simp: os_mq_init_def b)
qed

lemma os_mq_create_safe:
  assumes s: "settled i k" and inv: "mq_inv s k"
    and cb: "\<And>a. cb = Some a \<Longrightarrow> senders k a = [] \<and> receivers k a = [] \<and> \<not> live_mq s a"
  shows "svc_safe mq_inv i (os_mq_create nm msg_size n cb pool mem (s, k))"
proof (cases "\<exists>a p. cb = Some a \<and> pool = Some p")
  case True
  then obtain a p where ap: "cb = Some a" "pool = Some p" by blast
  obtain s1 k1 r where b: "k_mq_init a nm p (n * (os_align_up msg_size + 8)) (os_align_up msg_size) OS_KOBJ_ALLOC_TYPE_DYNAMIC mem (s, k) = ((s1, k1), r)"
    by (metis prod.collapse)
  show ?thesis
    using k_mq_init_inv[OF inv _ _ _ b] cb[OF ap(1)] settledD(1)[OF s]
    by (auto simp: os_mq_create_def ap b task_context_def)
next
  case False
  then show ?thesis
    using settledD(1)[OF s] inv by (cases cb; cases pool) (auto simp: os_mq_create_def task_context_def)
qed

lemma mq_dispose_safe:
  assumes s: "settled i k" and inv: "mq_inv s k"
  shows "svc_safe mq_inv i (mq_dispose a (s, k))"
proof -
  obtain k1 k2 where k: "k_cancle_all_blocked_task (send_list a) k = OK k1" "k_cancle_all_blocked_task (recv_list a) k1 = OK k2"
    "krun i (k_kernel_exit_sched k2)" "\<And>b. b \<noteq> a \<Longrightarrow> senders k2 b = senders k b \<and> receivers k2 b = receivers k b"
    "\<And>t. prio k2 t = prio k t"
    using cancel_pair[OF s, of a] by blast
  have "mq_inv (upd_mq a (\<lambda>x. x\<lparr>mq_object_inited := OS_KOBJ_DEINITED\<rparr>) s) (k_kernel_exit_sched k2)"
    by (rule mq_invI[OF inv, of a]) (use k in \<open>auto simp: OS_KOBJ_INITED_def OS_KOBJ_DEINITED_def\<close>)
  then show ?thesis using k(1-3) by (simp add: mq_dispose_def Let_def)
qed

lemma os_mq_set_wake_type_safe:
  assumes s: "settled i k" and inv: "mq_inv s k"
  shows "svc_safe mq_inv i (os_mq_set_wake_type a wt (s, k))"
proof -
  have "mq_inv (upd_mq a (\<lambda>x. x\<lparr>mq_wake_type := wt\<rparr>) s) k" if "receivers k a = []" "senders k a = []"
    by (rule mq_invI[OF inv, of a])
       (use mq_okD[OF inv, of a] that in
        \<open>auto simp: mq_ok_def mq_well_linked_def mq_lists_def mq_slots_def mq_queue_def mq_free_def prio_sorted_def\<close>)
  then show ?thesis unfolding os_mq_set_wake_type_def using settledD(1)[OF s] inv by auto
qed

subsection \<open>The message queues as a service\<close>

text \<open>
  Whole calls, and the critical sections of calls that are interrupted between them or
  that go on after they blocked.
\<close>

datatype mq_reply = Done os_err "u8 list option" | Holds u32

datatype mq_call = Mq_init nat "string option" u32 u32 u32 "u32 \<Rightarrow> u8"
  | Mq_create "string option" u32 u32 "nat option" "u32 option" "u32 \<Rightarrow> u8"
  | Mq_deinit nat | Mq_destroy nat | Mq_send nat "u8 list" u32 bool | Mq_recv nat u32 u32
  | Mq_send_begin nat u32 u32 | Mq_send_store nat u32 "u8 list" bool | Mq_recv_begin nat u32 u32 | Mq_recv_load nat u32 u32
  | Mq_set_wake_type nat u8

definition mq_done :: "(('s \<times> kernel) \<times> os_err) res \<Rightarrow> (('s \<times> kernel) \<times> mq_reply outcome) res" where
  "mq_done m = bind_res m (\<lambda>(sk, e). OK (sk, Returns (Done e None)))"

definition mq_section :: "(('s \<times> kernel) \<times> (os_err + u32) outcome) res \<Rightarrow> (('s \<times> kernel) \<times> mq_reply outcome) res" where
  "mq_section m = bind_res m (\<lambda>(sk, r). OK (sk,
     case r of Blocks \<Rightarrow> Blocks | Returns (Inl e) \<Rightarrow> Returns (Done e None) | Returns (Inr p) \<Rightarrow> Returns (Holds p)))"

definition mq_service :: "(mq_sys, mq_call, mq_reply outcome) service" where
  "mq_service x sk = (case x of
     Mq_init a nm pool sz msg_size mem \<Rightarrow> mq_done (os_mq_init a nm pool sz msg_size mem sk)
   | Mq_create nm msg_size n cb pool mem \<Rightarrow> bind_res (os_mq_create nm msg_size n cb pool mem sk) (\<lambda>(sk1, a).
       OK (sk1, Returns (Done (if a = None then OS_ENOMEM else OS_EOK) None)))
   | Mq_deinit a \<Rightarrow> mq_done (os_mq_deinit a sk)
   | Mq_destroy a \<Rightarrow> mq_done (os_mq_destroy a sk)
   | Mq_send a data timeout urgent \<Rightarrow>
       bind_res (if urgent then os_mq_send_urgent a data timeout sk else os_mq_send a data timeout sk) (\<lambda>(sk1, r).
         OK (sk1, case r of Blocks \<Rightarrow> Blocks | Returns e \<Rightarrow> Returns (Done e None)))
   | Mq_recv a n timeout \<Rightarrow> bind_res (os_mq_recv a n timeout sk) (\<lambda>(sk1, r).
         OK (sk1, case r of Blocks \<Rightarrow> Blocks | Returns (e, data) \<Rightarrow> Returns (Done e data)))
   | Mq_send_begin a n timeout \<Rightarrow> mq_section (mq_send_begin a n timeout sk)
   | Mq_send_store a p data urgent \<Rightarrow> mq_done (mq_send_store a p data urgent sk)
   | Mq_recv_begin a n timeout \<Rightarrow> mq_section (mq_recv_begin a n timeout sk)
   | Mq_recv_load a p n \<Rightarrow> bind_res (mq_recv_load a p n sk) (\<lambda>(sk1, r). OK (sk1, Returns (Done (fst r) (snd r))))
   | Mq_set_wake_type a wt \<Rightarrow> mq_done (os_mq_set_wake_type a wt sk))"

text \<open>
  The idle task neither sends nor receives, a new queue is not one in use, and a second
  section works on a message that its call holds.
\<close>

definition mq_allowed :: "tid \<Rightarrow> mq_call \<Rightarrow> mq_sys \<Rightarrow> kernel \<Rightarrow> bool" where
  "mq_allowed i x s k = (case x of
     Mq_init a nm pool sz msg_size mem \<Rightarrow> senders k a = [] \<and> receivers k a = [] \<and> \<not> live_mq s a
   | Mq_create nm msg_size n cb pool mem \<Rightarrow>
       (case cb of None \<Rightarrow> True | Some a \<Rightarrow> senders k a = [] \<and> receivers k a = [] \<and> \<not> live_mq s a)
   | Mq_send a data timeout urgent \<Rightarrow> current_task k \<noteq> Some i \<and> length data < 2 ^ 32
   | Mq_recv a n timeout \<Rightarrow> current_task k \<noteq> Some i
   | Mq_send_begin a n timeout \<Rightarrow> current_task k \<noteq> Some i
   | Mq_send_store a p data urgent \<Rightarrow> live_mq s a \<and> mq_held (mqs s a) p \<and> length data \<le> unat (max_msg_size (mqs s a))
   | Mq_recv_begin a n timeout \<Rightarrow> current_task k \<noteq> Some i
   | Mq_recv_load a p n \<Rightarrow> live_mq s a \<and> mq_held (mqs s a) p \<and> msg_len (mq_mem (mqs s a) p) \<le> max_msg_size (mqs s a)
   | _ \<Rightarrow> True)"

lemma mq_service_safe:
  assumes s: "settled i k" and inv: "mq_inv s k" and a: "mq_allowed i x s k"
  shows "svc_safe mq_inv i (mq_service x (s, k))"
proof (cases x)
  case (Mq_create nm msg_size n cb pool mem)
  then show ?thesis
    using a os_mq_create_safe[OF s inv, of cb nm msg_size n pool mem]
    by (cases cb) (auto simp: mq_service_def mq_allowed_def intro!: svc_safe_bind)
next
  case (Mq_deinit a)
  then show ?thesis
    using mq_dispose_safe[OF s inv] by (auto simp: mq_service_def mq_done_def os_mq_deinit_def intro!: svc_safe_bind)
next
  case (Mq_destroy a)
  then show ?thesis
    using mq_dispose_safe[OF s inv]
    by (auto simp: mq_service_def mq_done_def os_mq_destroy_def task_context_def intro!: svc_safe_bind)
next
  case (Mq_send a data timeout urgent)
  then show ?thesis
    using \<open>mq_allowed i x s k\<close> k_mq_send_safe[OF s inv, of data a timeout urgent]
    by (cases urgent) (auto simp: mq_service_def mq_allowed_def os_mq_send_def os_mq_send_urgent_def intro!: svc_safe_bind)
next
  case (Mq_send_store a p data urgent)
  then show ?thesis
    using \<open>mq_allowed i x s k\<close> mq_send_store_cases[OF s inv, of a p data urgent]
    by (auto simp: mq_service_def mq_allowed_def mq_done_def)
next
  case (Mq_recv_load a p n)
  then show ?thesis
    using \<open>mq_allowed i x s k\<close> mq_recv_load_cases[OF s inv, of a p n]
    by (auto simp: mq_service_def mq_allowed_def)
qed (use a os_mq_init_safe[OF s inv] os_mq_recv_safe[OF s inv] mq_send_begin_safe[OF s inv] mq_recv_begin_safe[OF s inv]
       os_mq_set_wake_type_safe[OF s inv]
     in \<open>auto simp: mq_service_def mq_allowed_def mq_done_def mq_section_def intro!: svc_safe_bind\<close>)

lemma mq_inv_dispatch: "mq_inv s k \<Longrightarrow> krun i k \<Longrightarrow> dispatch k = OK k' \<Longrightarrow> mq_inv s k'"
  using mq_ok_frame[of _ _ k k'] unfolding mq_inv_def by (simp add: dispatch_wait_frame)

interpretation mq_srv: kernel_service mq_service mq_allowed "\<lambda>_. mq_inv"
  by (rule kernel_service_svc, fact mq_service_safe, fact mq_inv_dispatch)

subsection \<open>A queue nobody waits for\<close>

text \<open>
  The reference: a list of messages, bounded by the depth of the queue, to which messages are
  added at the end or, urgent ones, at the front.
\<close>

datatype mq_request = Send "u8 list" bool | Recv u32

fun mq_spec :: "nat \<Rightarrow> mq_request \<Rightarrow> u8 list list \<Rightarrow> u8 list list \<times> os_err \<times> u8 list option" where
  "mq_spec depth (Send data urgent) q =
     (if length q < depth then (if urgent then data # q else q @ [data], OS_EOK, None) else (q, OS_EFULL, None))"
| "mq_spec depth (Recv n) [] = ([], OS_EEMPTY, None)"
| "mq_spec depth (Recv n) (data # q) = (q, if unat n < length data then (OS_ENOMEM, None) else (OS_EOK, Some data))"

definition mq_request :: "nat \<Rightarrow> mq_request \<Rightarrow> mq_sys \<times> kernel \<Rightarrow> ((mq_sys \<times> kernel) \<times> (os_err \<times> u8 list option) outcome) res" where
  "mq_request a x sk = (case x of
     Send data urgent \<Rightarrow> bind_res (if urgent then os_mq_send_urgent a data OS_NO_WAIT sk else os_mq_send a data OS_NO_WAIT sk)
       (\<lambda>(sk1, r). OK (sk1, case r of Blocks \<Rightarrow> Blocks | Returns e \<Rightarrow> Returns (e, None)))
   | Recv n \<Rightarrow> os_mq_recv a n OS_NO_WAIT sk)"

definition mq_legal :: "os_mq \<Rightarrow> mq_request \<Rightarrow> bool" where
  "mq_legal x r \<longleftrightarrow> (case r of Send data urgent \<Rightarrow> data \<noteq> [] \<and> length data \<le> unat (max_msg_size x) | Recv n \<Rightarrow> 0 < n)"

text \<open>Nobody waits, and no interrupted call holds a message.\<close>

definition mq_quiet :: "nat \<Rightarrow> mq_sys \<Rightarrow> kernel \<Rightarrow> bool" where
  "mq_quiet a s k \<longleftrightarrow> live_mq s a \<and> senders k a = [] \<and> receivers k a = [] \<and>
     length (mq_queue (mqs s a)) + length (mq_free (mqs s a)) = unat (queue_depth (mqs s a))"

lemma message_length:
  assumes "mq_lists x qs fs" "p \<in> mq_slots x" "msg_len (mq_mem x p) \<le> max_msg_size x"
  shows "length (message x p) = unat (msg_len (mq_mem x p))"
  using mq_listsD(7)[OF assms(1,2)] assms(3) by (simp add: message_def word_le_nat_alt)

lemma mq_send_quiet:
  assumes s: "settled i k" and inv: "mq_inv s k" and q: "mq_quiet a s k" and c: "current_task k \<noteq> Some i"
    and d: "data \<noteq> []" "length data \<le> unat (max_msg_size (mqs s a))"
  shows "\<exists>s'. k_mq_send a data OS_NO_WAIT urgent (s, k) = OK ((s', k), Returns (fst (snd (mq_spec (unat (queue_depth (mqs s a))) (Send data urgent) (mq_contents (mqs s a)))))) \<and>
    mq_contents (mqs s' a) = fst (mq_spec (unat (queue_depth (mqs s a))) (Send data urgent) (mq_contents (mqs s a))) \<and>
    mq_inv s' k \<and> mq_quiet a s' k \<and> queue_depth (mqs s' a) = queue_depth (mqs s a) \<and> max_msg_size (mqs s' a) = max_msg_size (mqs s a)"
proof -
  let ?x = "mqs s a"
  have live: "live_mq s a" and l: "receivers k a = []" "senders k a = []" using q by (auto simp: mq_quiet_def)
  note L = mq_linked[OF inv live] and len = unat_length[OF d(2)]
  have n: "length data < 2 ^ 32" using d(2) unat_u32[of "max_msg_size ?x"] by simp
  have ctx: "0 < (of_nat (length data) :: u32)" "of_nat (length data) \<le> max_msg_size ?x"
    using d len by (auto simp: word_gt_0_no word_le_nat_alt word_less_nat_alt)
  show ?thesis
  proof (cases "mq_free ?x")
    case Nil
    then have "msg_queue_free ?x = None" using mq_heads(2)[OF L] by simp
    then have "mq_send_begin a (of_nat (length data)) OS_NO_WAIT (s, k) = OK ((s, k), Returns (Inl OS_EFULL))"
      using live ctx by (simp add: mq_send_begin_def wait_context_def OS_NO_WAIT_def OS_TICK_MAX_def)
    moreover have "\<not> length (mq_contents ?x) < unat (queue_depth ?x)" using q Nil by (simp add: mq_quiet_def mq_contents_def)
    ultimately show ?thesis using inv q by (simp add: k_mq_send_def)
  next
    case (Cons p fs)
    then have "msg_queue_free ?x \<noteq> None" using mq_heads(2)[OF L] by simp
    then obtain sk where b: "mq_send_begin a (of_nat (length data)) OS_NO_WAIT (s, k) = OK (sk, Returns (Inr p))"
      using live ctx get_free_lists[of ?x "mq_queue ?x" p fs] L Cons
      by (auto simp: mq_send_begin_def wait_context_def OS_NO_WAIT_def OS_TICK_MAX_def)
    obtain x where x: "sk = (upd_mq a (\<lambda>_. x) s, k)" "mq_inv (upd_mq a (\<lambda>_. x) s) k" "same_messages ?x x" "mq_held x p"
      "length data \<le> unat (max_msg_size x)" "mq_queue x = mq_queue ?x" "mq_free ?x = p # mq_free x"
      using k_mq_send_cases[OF s inv c n b] by blast
    have same: "mq_contents x = mq_contents ?x"
      using x(6) same_messages_message[OF x(3)] by (simp add: mq_contents_def)
    have live': "live_mq (upd_mq a (\<lambda>_. x) s) a" using live x(3) by (simp add: same_messages_def)
    obtain s' where s': "mq_send_store a p data urgent (upd_mq a (\<lambda>_. x) s, k) = OK ((s', k), OS_EOK)" "mq_inv s' k" "live_mq s' a"
      "max_msg_size (mqs s' a) = max_msg_size x" "queue_depth (mqs s' a) = queue_depth x" "mq_free (mqs s' a) = mq_free x"
      "mq_contents (mqs s' a) = (if urgent then data # mq_contents x else mq_contents x @ [data])"
      using mq_send_store_cases[OF s x(2) live', of p data urgent] x(4,5) l(1) by auto
    have fit: "length (mq_contents ?x) < unat (queue_depth ?x)" using q Cons by (simp add: mq_quiet_def mq_contents_def)
    have "length (mq_contents (mqs s' a)) = Suc (length (mq_contents ?x))" using s'(7) same by simp
    then have "mq_quiet a s' k"
      using q s'(3,5,6) l x(3,7) by (auto simp: mq_quiet_def mq_contents_def same_messages_def)
    then show ?thesis
      using b x(1,3) s' same fit by (simp add: k_mq_send_def same_messages_def)
  qed
qed

lemma mq_recv_quiet:
  assumes s: "settled i k" and inv: "mq_inv s k" and q: "mq_quiet a s k" and c: "current_task k \<noteq> Some i" and n: "0 < n"
  shows "\<exists>s'. os_mq_recv a n OS_NO_WAIT (s, k) = OK ((s', k), Returns (snd (mq_spec (unat (queue_depth (mqs s a))) (Recv n) (mq_contents (mqs s a))))) \<and>
    mq_contents (mqs s' a) = fst (mq_spec (unat (queue_depth (mqs s a))) (Recv n) (mq_contents (mqs s a))) \<and>
    mq_inv s' k \<and> mq_quiet a s' k \<and> queue_depth (mqs s' a) = queue_depth (mqs s a) \<and> max_msg_size (mqs s' a) = max_msg_size (mqs s a)"
proof -
  let ?x = "mqs s a"
  have live: "live_mq s a" and l: "receivers k a = []" "senders k a = []" using q by (auto simp: mq_quiet_def)
  note L = mq_linked[OF inv live]
  show ?thesis
  proof (cases "mq_queue ?x")
    case Nil
    then have "msg_queue_head ?x = None" using mq_heads(1)[OF L] by simp
    then have "mq_recv_begin a n OS_NO_WAIT (s, k) = OK ((s, k), Returns (Inl OS_EEMPTY))"
      using live n by (simp add: mq_recv_begin_def wait_context_def OS_NO_WAIT_def OS_TICK_MAX_def)
    then show ?thesis using inv q Nil by (simp add: os_mq_recv_def mq_contents_def)
  next
    case (Cons p qs)
    then have "msg_queue_head ?x \<noteq> None" using mq_heads(1)[OF L] by simp
    then obtain sk where b: "mq_recv_begin a n OS_NO_WAIT (s, k) = OK (sk, Returns (Inr p))"
      using live n get_msg_lists[of ?x p qs "mq_free ?x"] L Cons
      by (auto simp: mq_recv_begin_def wait_context_def OS_NO_WAIT_def OS_TICK_MAX_def)
    obtain x where x: "sk = (upd_mq a (\<lambda>_. x) s, k)" "mq_inv (upd_mq a (\<lambda>_. x) s) k" "same_messages ?x x" "mq_held x p"
      "msg_len (mq_mem x p) \<le> max_msg_size x" "mq_queue ?x = p # mq_queue x" "mq_free x = mq_free ?x"
      using os_mq_recv_cases[OF s inv c b] by blast
    have live': "live_mq (upd_mq a (\<lambda>_. x) s) a" using live x(3) by (simp add: same_messages_def)
    have lx: "mq_lists x (mq_queue x) (mq_free x)" using mq_linked[OF x(2) live'] by simp
    have len: "length (message x p) = unat (msg_len (mq_mem x p))" using message_length[OF lx _ x(5)] x(4) by (simp add: mq_held_def)
    obtain s' where s': "mq_recv_load a p n (upd_mq a (\<lambda>_. x) s, k) =
        OK ((s', k), if n < msg_len (mq_mem x p) then (OS_ENOMEM, None) else (OS_EOK, Some (message x p)))"
      "mq_inv s' k" "same_messages x (mqs s' a)" "mq_queue (mqs s' a) = mq_queue x" "mq_free (mqs s' a) = p # mq_free x"
      using mq_recv_load_cases[OF s x(2) live', of p n] x(4,5) l(2) by auto
    have "mq_contents ?x = message x p # mq_contents (mqs s' a)"
      using x(6) s'(4) same_messages_message[OF x(3)] same_messages_message[OF s'(3)] by (simp add: mq_contents_def)
    moreover have "mq_quiet a s' k"
      using q s'(3-5) x(3,6,7) l by (auto simp: mq_quiet_def same_messages_def)
    ultimately show ?thesis
      using b x(1,3) s' len by (simp add: os_mq_recv_def same_messages_def word_less_nat_alt)
  qed
qed

fun mq_requests :: "nat \<Rightarrow> mq_request list \<Rightarrow> mq_sys \<times> kernel \<Rightarrow> ((mq_sys \<times> kernel) \<times> (os_err \<times> u8 list option) outcome list) res" where
  "mq_requests a [] sk = OK (sk, [])"
| "mq_requests a (x # xs) sk = bind_res (mq_request a x sk) (\<lambda>(sk1, r). bind_res (mq_requests a xs sk1) (\<lambda>(sk2, rs). OK (sk2, r # rs)))"

fun mq_spec_run :: "nat \<Rightarrow> mq_request list \<Rightarrow> u8 list list \<Rightarrow> u8 list list \<times> (os_err \<times> u8 list option) list" where
  "mq_spec_run depth [] q = (q, [])"
| "mq_spec_run depth (x # xs) q = (let (q1, r) = mq_spec depth x q; (q2, rs) = mq_spec_run depth xs q1 in (q2, r # rs))"

lemma mq_request_quiet:
  assumes s: "settled i k" and inv: "mq_inv s k" and q: "mq_quiet a s k" and c: "current_task k \<noteq> Some i"
    and x: "mq_legal (mqs s a) x" and spec: "mq_spec (unat (queue_depth (mqs s a))) x (mq_contents (mqs s a)) = (q', r)"
  shows "\<exists>s'. mq_request a x (s, k) = OK ((s', k), Returns r) \<and> mq_contents (mqs s' a) = q' \<and>
    mq_inv s' k \<and> mq_quiet a s' k \<and> queue_depth (mqs s' a) = queue_depth (mqs s a) \<and> max_msg_size (mqs s' a) = max_msg_size (mqs s a)"
proof (cases x)
  case (Send data urgent)
  have r: "r = (fst r, None)" using spec Send by (auto split: if_splits)
  show ?thesis
    using mq_send_quiet[OF s inv q c, of data urgent] x spec Send r
    by (cases urgent) (auto simp: mq_request_def mq_legal_def os_mq_send_def os_mq_send_urgent_def)
next
  case (Recv n)
  then show ?thesis using mq_recv_quiet[OF s inv q c, of n] x spec by (simp add: mq_request_def mq_legal_def)
qed

subsection \<open>Properties\<close>

definition bss_mqs :: mq_sys where
  "bss_mqs = \<lparr>mqs = (\<lambda>_. \<lparr>msg_pool = 0, mq_mem = (\<lambda>_. \<lparr>msg_next = None, msg_len = 0, msg_data = []\<rparr>), msg_queue_head = None,
     msg_queue_tail = None, msg_queue_free = None, max_msg_size = 0, queue_depth = 0, mq_entry_count = 0, mq_object_inited = 0,
     mq_object_alloc_type = 0, mq_wake_type = 0, mq_name = ''''\<rparr>), mq_resource_list = []\<rparr>"

text \<open>A queue of two messages of four bytes, with one message in it.\<close>

definition sample_mq :: os_mq where
  "sample_mq = (mqs bss_mqs 300)\<lparr>msg_pool := 0x1000,
     mq_mem := (\<lambda>p. if p = 0x1000 then \<lparr>msg_next = None, msg_len = 2, msg_data = [7, 8, 0, 0]\<rparr>
       else \<lparr>msg_next = None, msg_len = 0, msg_data = [0, 0, 0, 0]\<rparr>),
     msg_queue_head := Some 0x1000, msg_queue_tail := Some 0x1000, msg_queue_free := Some 0x100C, max_msg_size := 4,
     queue_depth := 2, mq_entry_count := 1, mq_object_inited := OS_KOBJ_INITED\<rparr>"

definition sample_mqs :: mq_sys where
  "sample_mqs = upd_mq 300 (\<lambda>_. sample_mq) bss_mqs"

lemma sample_mq_slots: "mq_slots sample_mq = {0x1000, 0x100C}"
proof -
  have "{..<unat (2 :: u16)} = {0, 1}" by auto
  then show ?thesis by (simp add: mq_slots_def sample_mq_def mq_slot_def os_align_up_def)
qed

lemma sample_mq_lists: "mq_lists sample_mq [0x1000] [0x100C]"
  unfolding mq_lists_def sample_mq_slots by (simp add: sample_mq_def)

lemma sample_mq_walk: "mq_queue sample_mq = [0x1000]" "mq_free sample_mq = [0x100C]"
  using mq_lists_walk[OF sample_mq_lists] by simp_all

lemma sample_mqs_inv: "mq_inv sample_mqs sample"
proof -
  have "live_mq sample_mqs b \<Longrightarrow> b = 300" for b
    by (simp add: sample_mqs_def bss_mqs_def OS_KOBJ_INITED_def split: if_splits)
  moreover have "mq_ok (mqs sample_mqs 300) 300 sample"
    using well_linkedI[OF sample_mq_lists]
    by (simp add: mq_ok_def sample_mqs_def sample_lists_def send_list_def recv_list_def prio_sorted_def)
  ultimately show ?thesis unfolding mq_inv_def by metis
qed

lemmas mq_eval = wait_eval mq_service_def mq_done_def mq_section_def os_mq_send_def os_mq_send_urgent_def k_mq_send_def mq_send_begin_def
  mq_send_store_def mq_copy_in_def mem_write_def mq_send_end_def os_mq_recv_def mq_recv_begin_def mq_recv_load_def mq_copy_out_def
  mem_read_def mq_recv_end_def k_mq_get_free_msg_def k_mq_get_msg_from_queue_def k_mq_release_free_msg_def k_mq_put_msg_to_queue_def
  upd_msg_def upd_mq_def send_list_def recv_list_def WAKE_TYPE_FIFO_def sample_mqs_def bss_mqs_def sample_mq_def

text \<open>
  C30. Message queues: any allowed sequence of calls and of single critical sections of calls
  that are interrupted between their sections stops in an assertion or keeps the scheduling
  invariant and that of the queues: the pointers of every live queue form two lists of
  different messages of its pool, the last and the count are right, and no task waits to
  receive while there is a message or to send while there is a free one.
\<close>

theorem mq_calls_keep_lists:
  assumes "settled i k" "mq_inv s k" "calls_allowed mq_service (mq_allowed i) xs (s, k)"
  shows "run_calls mq_service xs (s, k) = Fault AssertFail \<or>
    (\<exists>s' k' rs. run_calls mq_service xs (s, k) = OK ((s', k'), rs) \<and> settled i k' \<and> mq_inv s' k' \<and>
      (\<forall>a. live_mq s' a \<longrightarrow> distinct (mq_queue (mqs s' a) @ mq_free (mqs s' a)) \<and>
         unat (os_mq_get_used_entry_count a s') = length (mq_queue (mqs s' a))))"
proof -
  have "distinct (mq_queue (mqs s' a) @ mq_free (mqs s' a)) \<and>
      unat (os_mq_get_used_entry_count a s') = length (mq_queue (mqs s' a))" if "mq_inv s' k'" "live_mq s' a" for s' k' a
    using mq_listsD(4,6)[OF mq_linked[OF that]] by (simp add: os_mq_get_used_entry_count_def)
  then show ?thesis using mq_srv.run_settled[OF assms] by blast
qed

theorem mq_calls_keep_lists_witness:
  "\<exists>s' k'. run_calls mq_service [Mq_send_begin 300 1 0, Mq_recv 300 4 0, Mq_send_store 300 0x100C [9] False] (sample_mqs, sample) =
      OK ((s', k'), [Returns (Holds 0x100C), Returns (Done OS_EOK (Some [7, 8])), Returns (Done OS_EOK None)]) \<and>
    settled 3 k' \<and> mq_inv s' k' \<and> os_mq_get_used_entry_count 300 s' = 1"
proof -
  let ?xs = "[Mq_send_begin 300 1 0, Mq_recv 300 4 0, Mq_send_store 300 0x100C [9] False]"
  have slots: "mq_slot 0x1000 4 ` {..<2} = {0x1000, 0x100C}"
    using sample_mq_slots by (simp add: mq_slots_def sample_mq_def)
  have al: "calls_allowed mq_service (mq_allowed 3) ?xs (sample_mqs, sample)"
    by (simp add: mq_allowed_def mq_eval mq_held_def mq_slots_def slots mq_queue_def mq_free_def)
  have "\<exists>s' k'. run_calls mq_service ?xs (sample_mqs, sample) =
      OK ((s', k'), [Returns (Holds 0x100C), Returns (Done OS_EOK (Some [7, 8])), Returns (Done OS_EOK None)]) \<and>
      os_mq_get_used_entry_count 300 s' = 1"
    by (simp add: mq_eval os_mq_get_used_entry_count_def)
  then show ?thesis using mq_calls_keep_lists[OF sample_settled sample_mqs_inv al] by auto
qed

text \<open>
  C31. While no task waits for it and no interrupted call holds a message, a message queue does
  what a bounded list does: calls that do not wait return what the reference returns, byte
  for byte, and leave the messages that the reference has; urgent messages come first, and
  a message that is too large for the receiver's buffer is discarded with \<^verbatim>\<open>OS_ENOMEM\<close>.
\<close>

theorem mq_refines_list:
  assumes "settled i k" "mq_inv s k" "mq_quiet a s k" "current_task k \<noteq> Some i" "list_all (mq_legal (mqs s a)) xs"
    and "mq_spec_run (unat (queue_depth (mqs s a))) xs (mq_contents (mqs s a)) = (q', rs)"
  shows "\<exists>s'. mq_requests a xs (s, k) = OK ((s', k), map Returns rs) \<and> mq_contents (mqs s' a) = q' \<and> mq_inv s' k \<and> mq_quiet a s' k"
  using assms(2,3,5,6)
proof (induction xs arbitrary: s q' rs)
  case (Cons x xs)
  obtain q1 r where r: "mq_spec (unat (queue_depth (mqs s a))) x (mq_contents (mqs s a)) = (q1, r)" by (rule prod.exhaust)
  obtain s1 where s1: "mq_request a x (s, k) = OK ((s1, k), Returns r)" "mq_contents (mqs s1 a) = q1" "mq_inv s1 k" "mq_quiet a s1 k"
    "queue_depth (mqs s1 a) = queue_depth (mqs s a)" "max_msg_size (mqs s1 a) = max_msg_size (mqs s a)"
    using mq_request_quiet[OF assms(1) Cons.prems(1,2) assms(4) _ r] Cons.prems(3) by auto
  obtain rs1 where rs1: "mq_spec_run (unat (queue_depth (mqs s1 a))) xs (mq_contents (mqs s1 a)) = (q', rs1)" "rs = r # rs1"
    using Cons.prems(4) r s1(2,5) by (auto split: prod.splits)
  have legal: "list_all (mq_legal (mqs s1 a)) xs"
    using Cons.prems(3) s1(6) by (auto simp: mq_legal_def list_all_iff split: mq_request.splits)
  show ?case using Cons.IH[OF s1(3,4) legal rs1(1)] s1(1) rs1(2) by auto
qed simp

theorem mq_refines_list_witness:
  "\<exists>s'. mq_requests 300 [Send [1] False, Send [2] False, Recv 1, Send [3, 4] True, Recv 8] (sample_mqs, sample) =
      OK ((s', sample), [Returns (OS_EOK, None), Returns (OS_EFULL, None), Returns (OS_ENOMEM, None), Returns (OS_EOK, None),
        Returns (OS_EOK, Some [3, 4])]) \<and> mq_contents (mqs s' 300) = [[1]]"
proof -
  have x: "mqs sample_mqs 300 = sample_mq" by (simp add: sample_mqs_def)
  have "mq_contents sample_mq = [[7, 8]]" by (simp add: mq_contents_def sample_mq_walk message_def) (simp add: sample_mq_def)
  moreover have "queue_depth sample_mq = 2" "max_msg_size sample_mq = 4" by (simp_all add: sample_mq_def)
  moreover have "mq_quiet 300 sample_mqs sample"
    by (simp add: mq_quiet_def x sample_mq_walk) (simp add: sample_mq_def sample_lists_def send_list_def recv_list_def)
  ultimately show ?thesis
    using mq_refines_list[OF sample_settled sample_mqs_inv, of 300 "[Send [1] False, Send [2] False, Recv 1, Send [3, 4] True, Recv 8]"]
    by (auto simp: x mq_legal_def simp del: mq_requests.simps)
qed

text \<open>
  A send while a task waits to receive gives the message to the first waiter, not to the
  queue: after the context switch, when that task goes on, its call returns the data that was
  sent, unless it timed out or its buffer is too small.
\<close>

theorem mq_send_reaches_receiver:
  assumes "settled i k" "mq_inv s k" "live_mq s a" "receivers k a = t # ts" "current_task k \<noteq> Some i" "mq_free (mqs s a) \<noteq> []"
    and "data \<noteq> []" "length data \<le> unat (max_msg_size (mqs s a))" "length data \<le> unat n" "wait_result t k = OS_EOK"
  shows "\<exists>s1 k1 k2 sk. k_mq_send a data OS_NO_WAIT urgent (s, k) = OK ((s1, k1), Returns OS_EOK) \<and> dispatch k1 = OK k2 \<and>
    settled i k2 \<and> receivers k2 a = ts \<and> mq_contents (mqs s1 a) = mq_contents (mqs s a) \<and>
    mq_recv_resume a t n (s1, k2) = OK (sk, OS_EOK, Some data)"
proof -
  let ?x = "mqs s a"
  note L = mq_linked[OF assms(2,3)] and len = unat_length[OF assms(8)]
  have n: "length data < 2 ^ 32" using assms(8) unat_u32[of "max_msg_size ?x"] by simp
  obtain p fs where p: "mq_free ?x = p # fs" using assms(6) by (cases "mq_free ?x") auto
  have "0 < (of_nat (length data) :: u32)" "of_nat (length data) \<le> max_msg_size ?x" "msg_queue_free ?x \<noteq> None"
    using assms(7,8) len p mq_heads(2)[OF L] by (auto simp: word_le_nat_alt word_less_nat_alt)
  then obtain sk where b: "mq_send_begin a (of_nat (length data)) OS_NO_WAIT (s, k) = OK (sk, Returns (Inr p))"
    using assms(3) get_free_lists[of ?x "mq_queue ?x" p fs] L p
    by (auto simp: mq_send_begin_def wait_context_def OS_NO_WAIT_def OS_TICK_MAX_def)
  obtain x where x: "sk = (upd_mq a (\<lambda>_. x) s, k)" "mq_inv (upd_mq a (\<lambda>_. x) s) k" "same_messages ?x x" "mq_held x p"
    "length data \<le> unat (max_msg_size x)" "mq_queue x = mq_queue ?x"
    using k_mq_send_cases[OF assms(1,2,5) n b] by blast
  have live: "live_mq (upd_mq a (\<lambda>_. x) s) a" using assms(3) x(3) by (simp add: same_messages_def)
  obtain s1 k1 where s1: "mq_send_store a p data urgent (upd_mq a (\<lambda>_. x) s, k) = OK ((s1, k1), OS_EOK)" "krun i k1" "mq_inv s1 k1"
    "live_mq s1 a" "message (mqs s1 a) p = data" "receivers k1 a = ts" "swap_data (tasks k1 t) = p" "mq_held (mqs s1 a) p"
    "msg_len (mq_mem (mqs s1 a) p) \<le> max_msg_size (mqs s1 a)" "switch_retval (tasks k1 t) = switch_retval (tasks k t)"
    "mq_contents (mqs s1 a) = mq_contents x"
    using mq_send_store_cases[OF assms(1) x(2) live, of p data urgent] x(4,5) assms(4) by auto
  have same: "mq_contents x = mq_contents ?x" using x(6) same_messages_message[OF x(3)] by (simp add: mq_contents_def)
  obtain k2 where k2: "dispatch k1 = OK k2" "settled i k2" using dispatch_ok[OF s1(2)] by blast
  note f = dispatch_wait_frame[OF s1(2) k2(1)]
  note inv2 = mq_inv_dispatch[OF s1(3,2) k2(1)]
  have "\<not> n < msg_len (mq_mem (mqs s1 a) p)"
    using message_length[OF mq_linked[OF inv2 s1(4)] _ s1(9)] s1(5,8) assms(9) by (simp add: mq_held_def word_less_nat_alt)
  then have "\<exists>sk. mq_recv_load a p n (s1, k2) = OK (sk, OS_EOK, Some data)"
    using mq_recv_load_cases[OF k2(2) inv2 s1(4,8,9), of n] s1(5) by auto
  moreover have "wait_result t k2 = OS_EOK" using assms(10) s1(10) f(3) by (simp add: wait_result_def)
  ultimately show ?thesis
    using b x(1) s1(1,6,7,11) same k2 f(1,4) by (simp add: k_mq_send_def mq_recv_resume_def)
qed

theorem mq_send_reaches_receiver_witness:
  "\<exists>s k s1 k1 k2 sk. run_calls mq_service [Mq_recv 300 4 0, Mq_recv 300 4 OS_WAIT_FOREVER] (sample_mqs, sample) =
      OK ((s, k), [Returns (Done OS_EOK (Some [7, 8])), Blocks]) \<and>
    k_mq_send 300 [5, 6] OS_NO_WAIT False (s, k) = OK ((s1, k1), Returns OS_EOK) \<and> dispatch k1 = OK k2 \<and>
    mq_recv_resume 300 1 4 (s1, k2) = OK (sk, OS_EOK, Some [5, 6])"
proof -
  let ?xs = "[Mq_recv 300 4 0, Mq_recv 300 4 OS_WAIT_FOREVER]"
  have al: "calls_allowed mq_service (mq_allowed 3) ?xs (sample_mqs, sample)"
    by (simp add: mq_allowed_def mq_eval)
  obtain s k where sk: "run_calls mq_service ?xs (sample_mqs, sample) = OK ((s, k), [Returns (Done OS_EOK (Some [7, 8])), Blocks])"
    "live_mq s 300" "receivers k 300 = 1 # []" "current_task k \<noteq> Some 3" "mq_free (mqs s 300) \<noteq> []" "max_msg_size (mqs s 300) = 4"
    "wait_result 1 k = OS_EOK"
    by (simp add: mq_eval mq_free_def wait_result_def)
  have "settled 3 k" "mq_inv s k" using mq_srv.run_settled[OF sample_settled sample_mqs_inv al] sk(1) by auto
  from mq_send_reaches_receiver[OF this sk(2-5), of "[5, 6]" 4 False] show ?thesis using sk by auto
qed

text \<open>
  C32. Resetting a queue ends: its loop takes every message from the queue, the free list has
  all of them, nobody waits any more, and tasks that waited return with an error.
\<close>

theorem mq_reset_empties:
  assumes "settled i k" "mq_inv s k" "live_mq s a"
  shows "\<exists>s' k'. os_mq_reset a (s, k) = Some (OK (s', k')) \<and> krun i k' \<and> mq_inv s' k' \<and> os_mq_is_empty a s' \<and>
    mq_free (mqs s' a) = rev (mq_queue (mqs s a)) @ mq_free (mqs s a) \<and> senders k' a = [] \<and> receivers k' a = []"
proof -
  note L = mq_linked[OF assms(2,3)]
  obtain x where x: "mq_drain (mqs s a) = Some (OK x)" "mq_lists x [] (rev (mq_queue (mqs s a)) @ mq_free (mqs s a))"
    "same_messages (mqs s a) x"
    using drain_lists[OF L] by blast
  obtain k1 k2 where k: "k_cancle_all_blocked_task (send_list a) k = OK k1" "k_cancle_all_blocked_task (recv_list a) k1 = OK k2"
    "krun i (exit_if (senders k a \<noteq> [] \<or> receivers k1 a \<noteq> []) k2)" "senders k2 a = []" "receivers k2 a = []"
    "\<And>b. b \<noteq> a \<Longrightarrow> senders k2 b = senders k b \<and> receivers k2 b = receivers k b" "\<And>t. prio k2 t = prio k t"
    using cancel_pair[OF assms(1), of a] by blast
  let ?k = "exit_if (senders k a \<noteq> [] \<or> receivers k1 a \<noteq> []) k2"
  have "mq_inv (upd_mq a (\<lambda>_. x) s) ?k"
    by (rule mq_invI[OF assms(2), of a])
       (use k well_linkedI[OF x(2)] in \<open>auto simp: mq_ok_def prio_sorted_def\<close>)
  moreover have "os_mq_reset a (s, k) = Some (OK (upd_mq a (\<lambda>_. x) s, ?k))"
    using x(1) k(1,2) by (simp add: os_mq_reset_def cancel_if_any_eq)
  ultimately show ?thesis
    using k(3-5) mq_heads(1)[OF x(2)] mq_lists_walk[OF x(2)] by (simp add: os_mq_is_empty_def)
qed

theorem mq_reset_empties_witness:
  "\<exists>s' k'. os_mq_reset 300 (sample_mqs, sample) = Some (OK (s', k')) \<and> krun 3 k' \<and> mq_inv s' k' \<and> os_mq_is_empty 300 s' \<and>
    mq_free (mqs s' 300) = [0x1000, 0x100C]"
proof -
  have "mqs sample_mqs 300 = sample_mq" "live_mq sample_mqs 300" by (simp_all add: sample_mqs_def sample_mq_def)
  then show ?thesis using mq_reset_empties[OF sample_settled sample_mqs_inv, of 300] by (auto simp: sample_mq_walk)
qed

text \<open>What a successful \<^verbatim>\<open>os_mq_init\<close> leaves.\<close>

lemma os_mq_init_queue:
  assumes "os_mq_init a nm pool sz msg_size mem (s, k) = OK ((s', k'), OS_EOK)"
  shows "queue_depth (mqs s' a) = mq_depth pool sz (os_align_up msg_size)" "0 < mq_depth pool sz (os_align_up msg_size)"
    "msg_pool (mqs s' a) = pool" "max_msg_size (mqs s' a) = os_align_up msg_size"
proof -
  let ?new = "(mqs s a)\<lparr>queue_depth := mq_depth pool sz (os_align_up msg_size), msg_pool := pool, max_msg_size := os_align_up msg_size,
    mq_entry_count := 0, mq_object_alloc_type := OS_KOBJ_ALLOC_TYPE_STATIC, mq_wake_type := WAKE_TYPE_PRIO,
    mq_name := (case nm of None \<Rightarrow> '''' | Some n \<Rightarrow> take OS_NAME_MAX n), msg_queue_head := None, msg_queue_tail := None, msg_queue_free := None\<rparr>"
  obtain m f where y: "mq_free_slots mem ?new = ?new\<lparr>mq_mem := m, msg_queue_free := f\<rparr>"
    using mq_free_slots_lists(2)[of ?new sz mem] by auto
  show "0 < mq_depth pool sz (os_align_up msg_size)"
    using assms by (auto simp: os_mq_init_def k_mq_init_def res_simps Let_def split: if_splits)
  then have "mqs s' a = (mq_free_slots mem ?new)\<lparr>mq_object_inited := OS_KOBJ_INITED\<rparr>"
    using assms by (auto simp: os_mq_init_def k_mq_init_def res_simps Let_def split: if_splits)
  then show "queue_depth (mqs s' a) = mq_depth pool sz (os_align_up msg_size)"
    "msg_pool (mqs s' a) = pool" "max_msg_size (mqs s' a) = os_align_up msg_size" by (simp_all add: y)
qed

text \<open>
  C33. Where the messages of a queue lie: after a successful \<^verbatim>\<open>os_mq_init\<close> with a pool of at least
  four bytes that does not wrap around the address space, the queue has a message, and all messages,
  each with its eight bytes of header and its data, lie in the pool and do not overlap if and only if
  the size of a message, the sum that the code computes in 32 bits, does not wrap around.
\<close>

theorem mq_messages_fit:
  fixes s' :: mq_sys and a :: nat
  assumes "os_mq_init a nm pool sz msg_size mem (s, k) = OK ((s', k'), OS_EOK)" "unat pool + unat sz < 2 ^ 32" "4 \<le> sz"
  defines "n \<equiv> 8 + unat (max_msg_size (mqs s' a))"
  shows "mq_slots (mqs s' a) \<noteq> {} \<and>
    ((\<forall>p \<in> mq_slots (mqs s' a). unat pool \<le> unat p \<and> unat p + n \<le> unat pool + unat sz \<and>
       (\<forall>q \<in> mq_slots (mqs s' a). q \<noteq> p \<longrightarrow> unat p + n \<le> unat q \<or> unat q + n \<le> unat p)) \<longleftrightarrow> n < 2 ^ 32)"
proof -
  define d where "d = os_align_up msg_size"
  note I = os_mq_init_queue[OF assms(1), folded d_def]
  have slots: "mq_slots (mqs s' a) = mq_slot pool d ` {..<unat (mq_depth pool sz d)}" "n = 8 + unat d"
    by (simp_all add: mq_slots_def I n_def)
  have depth: "0 < unat (mq_depth pool sz d)" using I(2) by (simp add: word_less_nat_alt)
  have sz: "4 \<le> unat sz" using assms(3) by (simp add: word_le_nat_alt)
  have al: "unat pool \<le> unat (os_align_up pool)" "unat (os_align_up pool) \<le> unat pool + 3"
    using align_up_bounds[of pool] assms(2) sz by simp_all
  have ps: "unat (pool + sz) = unat pool + unat sz" using assms(2) by (simp add: unat_word_ariths)
  have size: "unat (pool + sz - os_align_up pool) = unat pool + unat sz - unat (os_align_up pool)"
    using al sz ps by (simp add: unat_sub word_le_nat_alt)
  have at: "unat (mq_slot pool d j) = unat (os_align_up pool) + j * unat (d + 8)"
    "unat (os_align_up pool) + (j + 1) * unat (d + 8) \<le> unat pool + unat sz" if "j < unat (mq_depth pool sz d)" for j
  proof -
    show fit: "unat (os_align_up pool) + (j + 1) * unat (d + 8) \<le> unat pool + unat sz"
      using mq_depth_le(1)[OF that] size al sz by simp
    then show "unat (mq_slot pool d j) = unat (os_align_up pool) + j * unat (d + 8)"
      using assms(2) mq_depth_fits[OF that] by (simp add: mq_slot_def unat_plus_if')
  qed
  have ok: "unat pool \<le> unat p \<and> unat p + n \<le> unat pool + unat sz \<and>
      (\<forall>q \<in> mq_slots (mqs s' a). q \<noteq> p \<longrightarrow> unat p + n \<le> unat q \<or> unat q + n \<le> unat p)"
    if n: "n < 2 ^ 32" and p: "p \<in> mq_slots (mqs s' a)" for p
  proof -
    have w: "unat (d + 8) = n" using n by (simp add: slots(2) unat_word_ariths)
    obtain i where i: "p = mq_slot pool d i" "i < unat (mq_depth pool sz d)" using p unfolding slots by auto
    have "unat p + n \<le> unat q \<or> unat q + n \<le> unat p" if q: "q \<in> mq_slots (mqs s' a)" "q \<noteq> p" for q
    proof -
      obtain j where j: "q = mq_slot pool d j" "j < unat (mq_depth pool sz d)" using q unfolding slots by auto
      have step: "l * n + n \<le> m * n" if "l < m" for l m :: nat using that mult_le_mono1[of "Suc l" m n] by simp
      have "i \<noteq> j" using i(1) j(1) q(2) by auto
      then show ?thesis using at(1)[OF i(2)] at(1)[OF j(2)] step[of i j] step[of j i] unfolding w i(1) j(1)
        by (cases "i < j") auto
    qed
    then show ?thesis using at[OF i(2)] al(1) unfolding w i(1) by simp
  qed
  have bad: "\<not> unat p + n \<le> unat pool + unat sz" if "\<not> n < 2 ^ 32" for p :: u32 using that assms(2) by linarith
  have "mq_slot pool d 0 \<in> mq_slots (mqs s' a)" using depth by (auto simp: slots)
  then show ?thesis using ok bad by blast
qed

theorem mq_messages_fit_witness:
  "\<exists>s k. os_mq_init 7 None 0x20000001 30 3 (\<lambda>_. 0) (sample_mqs, sample) = OK ((s, k), OS_EOK) \<and>
     mq_slots (mqs s 7) \<noteq> {} \<and> (\<forall>p \<in> mq_slots (mqs s 7). unat p + 12 \<le> 0x2000001F)"
proof -
  have d: "os_align_up 0x20000001 = 0x20000004" "os_align_up 3 = 4" by (simp_all add: os_align_up_def)
  have "mq_depth 0x20000001 30 4 = 2" by (simp add: mq_depth_def d)
  then obtain s k where i: "os_mq_init 7 None 0x20000001 30 3 (\<lambda>_. 0) (sample_mqs, sample) = OK ((s, k), OS_EOK)"
    by (simp add: os_mq_init_def k_mq_init_def d sample_mqs_def bss_mqs_def upd_mq_def Let_def)
  show ?thesis using mq_messages_fit[OF i] os_mq_init_queue[OF i] i by (auto simp: d)
qed

end
