(* ===== verification/Os_Mp.thy ===== *)
theory Os_Mp
  imports Kernel_Wait Linked
begin

text \<open>
  \<^verbatim>\<open>oneos/kernel/source/os_mem_pool.c\<close>: pools of memory blocks of one size. The free blocks are
  linked through their first word. A task that finds no free block waits, and tries again
  when it is woken. Block tags (\<^verbatim>\<open>OS_USING_MP_CHECK_TAG\<close>) are not configured.
\<close>

record os_mempool =
  start_addr :: u32
  blk_next :: "u32 \<Rightarrow> u32 option"
  free_list :: "u32 option"
  mp_size :: u32
  blk_size :: u32
  blk_total_num :: u32
  blk_free_num :: u32
  mp_object_alloc_type :: u8
  mp_object_inited :: u8
  mp_name :: string

record mp_sys =
  mps :: "nat \<Rightarrow> os_mempool"
  mp_resource_list :: "nat list"

definition upd_mp :: "nat \<Rightarrow> (os_mempool \<Rightarrow> os_mempool) \<Rightarrow> mp_sys \<Rightarrow> mp_sys" where
  "upd_mp a f s = s\<lparr>mps := (mps s)(a := f (mps s a))\<rparr>"

lemma upd_mp_apply [simp]: "mps (upd_mp a f s) b = (if b = a then f (mps s a) else mps s b)"
  by (simp add: upd_mp_def)

subsection \<open>Life cycle\<close>

definition k_mp_add_resourcelist :: "nat \<Rightarrow> u8 \<Rightarrow> mp_sys \<Rightarrow> mp_sys \<times> os_err" where
  "k_mp_add_resourcelist a alloc s =
     (if alloc = OS_KOBJ_ALLOC_TYPE_STATIC \<and> a \<in> set (mp_resource_list s) then (s, OS_EINVAL)
      else (s\<lparr>mp_resource_list := mp_resource_list s @ [a]\<rparr>, OS_EOK))"

text \<open>The address of block number \<open>j\<close>, and the loop that links every block to the next one.\<close>

definition mp_blk :: "os_mempool \<Rightarrow> nat \<Rightarrow> u32" where
  "mp_blk x j = start_addr x + of_nat j * blk_size x"

definition k_mp_init_free_list :: "os_mempool \<Rightarrow> os_mempool" where
  "k_mp_init_free_list x =
     (let y = foldl (\<lambda>y j. y\<lparr>blk_next := (blk_next y)(mp_blk y j := Some (mp_blk y j + blk_size y))\<rparr>)
                (x\<lparr>free_list := Some (start_addr x)\<rparr>) [0..<unat (blk_total_num x - 1)]
      in y\<lparr>blk_next := (blk_next y)(mp_blk y (unat (blk_total_num x - 1)) := None)\<rparr>)"

definition k_mp_init :: "nat \<Rightarrow> string option \<Rightarrow> u32 \<Rightarrow> u32 \<Rightarrow> u32 \<Rightarrow> u8 \<Rightarrow> mp_sys \<times> kernel \<Rightarrow> mp_sys \<times> kernel" where
  "k_mp_init a nm start sz bsize alloc = (\<lambda>(s, k).
     (upd_mp a (\<lambda>x. (k_mp_init_free_list (x\<lparr>mp_name := (case nm of None \<Rightarrow> '''' | Some n \<Rightarrow> take OS_NAME_MAX n),
         start_addr := start, mp_size := sz, blk_size := bsize, blk_total_num := sz div bsize,
         blk_free_num := sz div bsize\<rparr>))\<lparr>mp_object_alloc_type := alloc, mp_object_inited := OS_KOBJ_INITED\<rparr>) s,
      k\<lparr>task_lists := (task_lists k)(WQ a := [])\<rparr>))"

definition os_mp_init ::
  "nat \<Rightarrow> string option \<Rightarrow> u32 \<Rightarrow> u32 \<Rightarrow> u32 \<Rightarrow> mp_sys \<times> kernel \<Rightarrow> ((mp_sys \<times> kernel) \<times> os_err) res" where
  "os_mp_init a nm start sz bsize = (\<lambda>(s, k).
     os_assert (\<not> irq_active k) (os_assert (4 \<le> sz) (os_assert (0 < bsize)
       (let start1 = os_align_up start; sz1 = os_align_down (start + sz - start1); bsize1 = os_align_up bsize
        in if sz1 div bsize1 \<noteq> 0 then
             (let (s1, r) = k_mp_add_resourcelist a OS_KOBJ_ALLOC_TYPE_STATIC s
              in if r = OS_EOK then OK (k_mp_init a nm start1 sz1 bsize1 OS_KOBJ_ALLOC_TYPE_STATIC (s1, k), r)
                 else OK ((s1, k), r))
           else OK ((s, k), OS_EINVAL)))))"

definition mp_dispose :: "nat \<Rightarrow> mp_sys \<times> kernel \<Rightarrow> ((mp_sys \<times> kernel) \<times> os_err) res" where
  "mp_dispose a = (\<lambda>(s, k).
     let s1 = upd_mp a (\<lambda>x. x\<lparr>mp_object_inited := OS_KOBJ_DEINITED\<rparr>) (s\<lparr>mp_resource_list := removeAll a (mp_resource_list s)\<rparr>)
     in bind_res (k_cancle_all_blocked_task a k) (\<lambda>k1. OK ((s1, k_kernel_exit_sched k1), OS_EOK)))"

definition os_mp_deinit :: "nat \<Rightarrow> mp_sys \<times> kernel \<Rightarrow> ((mp_sys \<times> kernel) \<times> os_err) res" where
  "os_mp_deinit a = (\<lambda>(s, k).
     os_assert (mp_object_inited (mps s a) = OS_KOBJ_INITED)
     (os_assert (mp_object_alloc_type (mps s a) = OS_KOBJ_ALLOC_TYPE_STATIC)
     (os_assert (\<not> irq_active k) (mp_dispose a (s, k)))))"

text \<open>The addresses of the control block and of the blocks are what the heap returns.\<close>

definition os_mp_create ::
  "string option \<Rightarrow> u32 \<Rightarrow> u32 \<Rightarrow> nat option \<Rightarrow> u32 option \<Rightarrow> mp_sys \<times> kernel \<Rightarrow> ((mp_sys \<times> kernel) \<times> nat option) res" where
  "os_mp_create nm blk_count bsize cb mem = (\<lambda>(s, k). task_context k
     (os_assert (1 < blk_count \<and> 0 < bsize)
       (case (cb, mem) of
          (Some a, Some start) \<Rightarrow>
            (let bsize1 = os_align_up bsize; (s1, r) = k_mp_add_resourcelist a OS_KOBJ_ALLOC_TYPE_DYNAMIC s
             in if r = OS_EOK then OK (k_mp_init a nm start (bsize1 * blk_count) bsize1 OS_KOBJ_ALLOC_TYPE_DYNAMIC (s1, k), Some a)
                else OK ((s1, k), None))
        | _ \<Rightarrow> OK ((s, k), None))))"

definition os_mp_destroy :: "nat \<Rightarrow> mp_sys \<times> kernel \<Rightarrow> ((mp_sys \<times> kernel) \<times> os_err) res" where
  "os_mp_destroy a = (\<lambda>(s, k).
     os_assert (mp_object_inited (mps s a) = OS_KOBJ_INITED)
     (os_assert (mp_object_alloc_type (mps s a) = OS_KOBJ_ALLOC_TYPE_DYNAMIC)
     (task_context k (mp_dispose a (s, k)))))"

subsection \<open>Blocks\<close>

text \<open>One turn of the loop of \<^verbatim>\<open>os_mp_alloc\<close>: take the first free block, give up, or wait.\<close>

definition mp_alloc_turn ::
  "nat \<Rightarrow> u32 \<Rightarrow> mp_sys \<times> kernel \<Rightarrow> ((mp_sys \<times> kernel) \<times> u32 option outcome) res" where
  "mp_alloc_turn a timeout = (\<lambda>(s, k).
     case free_list (mps s a) of
       Some p \<Rightarrow> OK ((upd_mp a (\<lambda>x. x\<lparr>free_list := blk_next x p, blk_free_num := blk_free_num x - 1\<rparr>) s, k), Returns (Some p))
     | None \<Rightarrow>
        if timeout = OS_NO_WAIT then OK ((s, k), Returns None)
        else bind_res (block_current a timeout True k) (\<lambda>k1. OK ((s, k1), Blocks)))"

definition os_mp_alloc ::
  "nat \<Rightarrow> u32 \<Rightarrow> mp_sys \<times> kernel \<Rightarrow> ((mp_sys \<times> kernel) \<times> u32 option outcome) res" where
  "os_mp_alloc a timeout = (\<lambda>(s, k).
     os_assert (mp_object_inited (mps s a) = OS_KOBJ_INITED) (wait_context timeout k (mp_alloc_turn a timeout (s, k))))"

text \<open>
  A task that waited since tick \<open>tick_before\<close> goes on when it runs again: with an error, or with
  another turn and what is left of its time.
\<close>

definition mp_time_left :: "u32 \<Rightarrow> u32 \<Rightarrow> u32" where
  "mp_time_left timeout elapsed =
     (if timeout = OS_WAIT_FOREVER then timeout else if timeout \<le> elapsed then OS_NO_WAIT else timeout - elapsed)"

definition mp_alloc_resume ::
  "nat \<Rightarrow> tid \<Rightarrow> u32 \<Rightarrow> u32 \<Rightarrow> mp_sys \<times> kernel \<Rightarrow> ((mp_sys \<times> kernel) \<times> u32 option outcome) res" where
  "mp_alloc_resume a c timeout tick_before = (\<lambda>(s, k).
     if wait_result c k \<noteq> OS_EOK then OK ((s, k), Returns None)
     else mp_alloc_turn a (mp_time_left timeout (os_tick_get k - tick_before)) (s, k))"

definition os_mp_free :: "nat \<Rightarrow> u32 \<Rightarrow> mp_sys \<times> kernel \<Rightarrow> (mp_sys \<times> kernel) res" where
  "os_mp_free a mem = (\<lambda>(s, k).
     os_assert (mp_object_inited (mps s a) = OS_KOBJ_INITED)
     (os_assert (start_addr (mps s a) \<le> mem \<and> mem < start_addr (mps s a) + mp_size (mps s a))
     (os_assert ((mem - start_addr (mps s a)) mod blk_size (mps s a) = 0)
       (let s1 = upd_mp a (\<lambda>x. x\<lparr>blk_next := (blk_next x)(mem := free_list x), free_list := Some mem,
                   blk_free_num := blk_free_num x + 1\<rparr>) s
        in case task_lists k (WQ a) of
             [] \<Rightarrow> OK (s1, k)
           | t # _ \<Rightarrow> bind_res (wake_task t k) (\<lambda>k1. OK (s1, k1))))))"

definition os_mp_info :: "nat \<Rightarrow> mp_sys \<Rightarrow> u32 \<times> u32 \<times> u32" where
  "os_mp_info a s = (blk_size (mps s a), blk_total_num (mps s a), blk_free_num (mps s a))"

subsection \<open>The list of free blocks\<close>

definition mp_blks :: "os_mempool \<Rightarrow> u32 set" where
  "mp_blks x = mp_blk x ` {..<unat (blk_total_num x)}"

definition mp_lists :: "os_mempool \<Rightarrow> u32 list \<Rightarrow> bool" where
  "mp_lists x fs \<longleftrightarrow> linked id (blk_next x) (free_list x) fs \<and> distinct fs \<and> set fs \<subseteq> mp_blks x \<and>
     unat (blk_free_num x) = length fs \<and> unat (blk_total_num x) * unat (blk_size x) < 2 ^ 32 \<and> 0 < blk_size x"

lemma mp_listsD:
  assumes "mp_lists x fs"
  shows "linked id (blk_next x) (free_list x) fs" "distinct fs" "set fs \<subseteq> mp_blks x" "unat (blk_free_num x) = length fs"
    "unat (blk_total_num x) * unat (blk_size x) < 2 ^ 32" "0 < blk_size x"
  using assms by (auto simp: mp_lists_def)

text \<open>Blocks with different numbers are different blocks.\<close>

lemma mp_blk_offset:
  assumes "unat (blk_total_num x) * unat (blk_size x) < 2 ^ 32" "j \<le> unat (blk_total_num x)"
  shows "unat (of_nat j * blk_size x :: u32) = j * unat (blk_size x)"
proof -
  have "j * unat (blk_size x) < 2 ^ 32" using assms by (meson le_less_trans mult_le_mono1)
  moreover have "j < 2 ^ 32" using assms(2) unat_u32[of "blk_total_num x"] by simp
  ultimately show ?thesis by (simp add: unat_word_ariths(2) unsigned_of_nat take_bit_nat_eq_self)
qed

lemma mp_blk_inj:
  assumes "unat (blk_total_num x) * unat (blk_size x) < 2 ^ 32" "0 < blk_size x"
    and "i \<le> unat (blk_total_num x)" "j \<le> unat (blk_total_num x)" "mp_blk x i = mp_blk x j"
  shows "i = j"
proof -
  have "i * unat (blk_size x) = j * unat (blk_size x)"
    using mp_blk_offset[OF assms(1,3)] mp_blk_offset[OF assms(1,4)] assms(5) by (auto simp: mp_blk_def)
  then show ?thesis using assms(2) by (simp add: word_less_nat_alt)
qed

lemma mp_lists_count:
  assumes "mp_lists x fs"
  shows "length fs \<le> unat (blk_total_num x)" "p \<in> mp_blks x \<Longrightarrow> p \<notin> set fs \<Longrightarrow> length fs < unat (blk_total_num x)"
proof -
  have c: "card (mp_blks x) \<le> unat (blk_total_num x)"
    unfolding mp_blks_def by (rule order_trans[OF card_image_le]) simp_all
  have fin: "finite (mp_blks x)" by (simp add: mp_blks_def)
  show "length fs \<le> unat (blk_total_num x)"
    using card_mono[OF fin mp_listsD(3)[OF assms]] distinct_card[OF mp_listsD(2)[OF assms]] c by simp
  show "length fs < unat (blk_total_num x)" if "p \<in> mp_blks x" "p \<notin> set fs"
    using card_mono[OF fin, of "insert p (set fs)"] distinct_card[OF mp_listsD(2)[OF assms]] c that mp_listsD(3)[OF assms] by simp
qed

definition mp_free :: "os_mempool \<Rightarrow> u32 list" where
  "mp_free x = walk id (unat (blk_total_num x)) (blk_next x) (free_list x)"

lemma mp_lists_walk: "mp_lists x fs \<Longrightarrow> mp_free x = fs"
  using walk_linked[OF mp_listsD(1)] mp_lists_count(1) by (simp add: mp_free_def)

text \<open>A block that was handed out.\<close>

definition mp_held :: "os_mempool \<Rightarrow> u32 \<Rightarrow> bool" where
  "mp_held x p \<longleftrightarrow> p \<in> mp_blks x \<and> p \<notin> set (mp_free x)"

text \<open>The loop of \<^verbatim>\<open>_k_mp_init_free_list\<close> links all blocks.\<close>

lemma mp_link_loop:
  fixes x :: os_mempool
  assumes fit: "unat (blk_total_num x) * unat (blk_size x) < 2 ^ 32" "0 < blk_size x" "n < unat (blk_total_num x)"
  defines "F \<equiv> \<lambda>n. foldl (\<lambda>y j. y\<lparr>blk_next := (blk_next y)(mp_blk y j := Some (mp_blk y j + blk_size y))\<rparr>) x [0..<n]"
  shows "\<exists>m. F n = x\<lparr>blk_next := m\<rparr> \<and> (\<forall>j < n. m (mp_blk x j) = Some (mp_blk x (Suc j)))"
  using fit(3)
proof (induction n)
  case 0
  then show ?case by (rule_tac x = "blk_next x" in exI) (simp add: F_def)
next
  case (Suc n)
  then obtain m where m: "F n = x\<lparr>blk_next := m\<rparr>" "\<forall>j < n. m (mp_blk x j) = Some (mp_blk x (Suc j))" by auto
  have ne: "mp_blk x j \<noteq> mp_blk x n" if "j < n" for j using mp_blk_inj[OF fit(1,2), of j n] that Suc.prems by auto
  have "mp_blk (x\<lparr>blk_next := m\<rparr>) j = mp_blk x j" for j by (simp add: mp_blk_def)
  then have "F (Suc n) = x\<lparr>blk_next := m(mp_blk x n := Some (mp_blk x n + blk_size x))\<rparr>" using m(1) by (simp add: F_def)
  moreover have "mp_blk x n + blk_size x = mp_blk x (Suc n)" by (simp add: mp_blk_def algebra_simps)
  ultimately show ?case using m(2) ne by (auto simp: less_Suc_eq)
qed

lemma linked_blocks:
  assumes "\<And>j. l \<le> j \<Longrightarrow> j < n \<Longrightarrow> m (b j) = Some (b (Suc j))" "m (b n) = None" "l \<le> n"
  shows "linked id m (Some (b l)) (map b [l..<Suc n])"
  using assms
proof (induction "n - l" arbitrary: l)
  case 0
  then show ?case by simp
next
  case (Suc d)
  then have "l < n" by simp
  then have "linked id m (Some (b (Suc l))) (map b [Suc l..<Suc n])" using Suc by simp
  then show ?case using Suc.prems(1)[of l] \<open>l < n\<close> by (simp add: upt_conv_Cons del: upt_Suc)
qed

lemma k_mp_init_free_list_all:
  assumes "0 < blk_total_num x" "unat (blk_total_num x) * unat (blk_size x) < 2 ^ 32" "0 < blk_size x" "blk_free_num x = blk_total_num x"
  shows "mp_lists (k_mp_init_free_list x) (map (mp_blk x) [0..<unat (blk_total_num x)])"
    "\<exists>m f. k_mp_init_free_list x = x\<lparr>blk_next := m, free_list := f\<rparr>"
proof -
  let ?n = "unat (blk_total_num x - 1)" and ?x = "x\<lparr>free_list := Some (start_addr x)\<rparr>"
  have n: "Suc ?n = unat (blk_total_num x)" using assms(1) by (simp add: unat_dec word_less_nat_alt)
  have same: "mp_blk (x\<lparr>blk_next := m, free_list := f\<rparr>) = mp_blk x" for m f by (simp add: mp_blk_def fun_eq_iff)
  have same': "mp_blk ?x = mp_blk x" by (simp add: mp_blk_def fun_eq_iff)
  obtain m where m: "foldl (\<lambda>y j. y\<lparr>blk_next := (blk_next y)(mp_blk y j := Some (mp_blk y j + blk_size y))\<rparr>) ?x [0..<?n] =
      ?x\<lparr>blk_next := m\<rparr>" "\<forall>j < ?n. m (mp_blk x j) = Some (mp_blk x (Suc j))"
    using mp_link_loop[of ?x ?n] assms(2,3) n by (auto simp: same')
  let ?m = "m(mp_blk x ?n := None)"
  have y: "k_mp_init_free_list x = x\<lparr>blk_next := ?m, free_list := Some (start_addr x)\<rparr>"
    unfolding k_mp_init_free_list_def m(1) by (simp add: Let_def mp_blk_def)
  then show "\<exists>m f. k_mp_init_free_list x = x\<lparr>blk_next := m, free_list := f\<rparr>" by blast
  have inj: "i = j" if "i \<le> unat (blk_total_num x)" "j \<le> unat (blk_total_num x)" "mp_blk x i = mp_blk x j" for i j
    by (rule mp_blk_inj[OF assms(2,3) that])
  have ne: "mp_blk x j \<noteq> mp_blk x ?n" if "j < ?n" for j using inj[of j ?n] that n by auto
  have "linked id ?m (Some (mp_blk x 0)) (map (mp_blk x) [0..<Suc ?n])"
    by (rule linked_blocks) (use m(2) ne in auto)
  moreover have "distinct (map (mp_blk x) [0..<Suc ?n])"
    using inj n by (auto simp: distinct_map inj_on_def)
  ultimately show "mp_lists (k_mp_init_free_list x) (map (mp_blk x) [0..<unat (blk_total_num x)])"
    using assms n unfolding y mp_lists_def by (auto simp: mp_blks_def same mp_blk_def[of x 0] simp del: upt_Suc)
qed

subsection \<open>Invariant\<close>

definition mp_ok :: "os_mempool \<Rightarrow> nat \<Rightarrow> kernel \<Rightarrow> bool" where
  "mp_ok x a k \<longleftrightarrow> mp_lists x (mp_free x) \<and> prio_sorted k a"

abbreviation live_mp :: "mp_sys \<Rightarrow> nat \<Rightarrow> bool" where
  "live_mp s a \<equiv> mp_object_inited (mps s a) = OS_KOBJ_INITED"

definition mp_inv :: "mp_sys \<Rightarrow> kernel \<Rightarrow> bool" where
  "mp_inv s k \<longleftrightarrow> (\<forall>a. live_mp s a \<longrightarrow> mp_ok (mps s a) a k)"

lemma mp_okD: "mp_inv s k \<Longrightarrow> live_mp s a \<Longrightarrow> mp_lists (mps s a) (mp_free (mps s a))" "mp_inv s k \<Longrightarrow> live_mp s a \<Longrightarrow> prio_sorted k a"
  by (simp_all add: mp_inv_def mp_ok_def)

lemma mp_okI: "mp_lists x fs \<Longrightarrow> prio_sorted k a \<Longrightarrow> mp_ok x a k"
  using mp_lists_walk[of x fs] by (simp add: mp_ok_def)

lemma mp_invI:
  assumes "mp_inv s k" "\<And>b. b \<noteq> a \<Longrightarrow> mps s' b = mps s b" "\<And>t. prio k' t = prio k t"
    and "\<And>b. b \<noteq> a \<Longrightarrow> task_lists k' (WQ b) = task_lists k (WQ b)" "live_mp s' a \<Longrightarrow> mp_ok (mps s' a) a k'"
  shows "mp_inv s' k'"
  unfolding mp_inv_def
proof (intro allI impI)
  fix b assume b: "live_mp s' b"
  show "mp_ok (mps s' b) b k'"
  proof (cases "b = a")
    case False
    then show ?thesis using assms(1-4) b by (simp add: mp_inv_def mp_ok_def prio_sorted_def)
  qed (use assms(5) b in simp)
qed

lemma mp_inv_resource [simp]: "mp_inv (s\<lparr>mp_resource_list := r\<rparr>) k \<longleftrightarrow> mp_inv s k"
  by (simp add: mp_inv_def)

lemma upd_mp_resource [simp]: "upd_mp a f (s\<lparr>mp_resource_list := r\<rparr>) = (upd_mp a f s)\<lparr>mp_resource_list := r\<rparr>"
  by (simp add: upd_mp_def)

subsection \<open>Blocks are taken from the list and go back to it\<close>

lemma mp_take_lists:
  assumes l: "mp_lists x (p # fs)"
  shows "mp_lists (x\<lparr>free_list := blk_next x p, blk_free_num := blk_free_num x - 1\<rparr>) fs"
proof -
  note L = mp_listsD[OF l]
  have "0 < blk_free_num x" using L(4) by (auto simp: word_gt_0)
  then show ?thesis using L unat_dec[of "blk_free_num x"] by (auto simp: mp_lists_def mp_blks_def mp_blk_def)
qed

lemma mp_put_lists:
  assumes l: "mp_lists x fs" and p: "p \<in> mp_blks x" "p \<notin> set fs"
  shows "mp_lists (x\<lparr>blk_next := (blk_next x)(p := free_list x), free_list := Some p, blk_free_num := blk_free_num x + 1\<rparr>) (p # fs)"
proof -
  note L = mp_listsD[OF l]
  have "unat (blk_free_num x + 1) = Suc (length fs)"
    using unat_inc[of "blk_free_num x" "blk_total_num x"] mp_lists_count(2)[OF l p] L(4) by (simp add: word_less_nat_alt)
  then show ?thesis using L p by (auto simp: mp_lists_def mp_blks_def mp_blk_def)
qed

text \<open>A turn of an allocation hands out a block that nobody has, or changes no block.\<close>

lemma mp_alloc_turn_cases:
  assumes s: "settled i k" and inv: "mp_inv s k" and live: "live_mp s a" and c: "current_task k \<noteq> Some i"
    and nl: "timeout \<noteq> OS_NO_WAIT \<Longrightarrow> \<not> os_is_schedule_locked k"
  shows "case mp_free (mps s a) of
      p # fs \<Rightarrow> \<exists>s'. mp_alloc_turn a timeout (s, k) = OK ((s', k), Returns (Some p)) \<and> mp_inv s' k \<and> mp_free (mps s' a) = fs \<and>
        mp_blks (mps s' a) = mp_blks (mps s a) \<and> (\<forall>b. b \<noteq> a \<longrightarrow> mps s' b = mps s b)
    | [] \<Rightarrow> if timeout = OS_NO_WAIT then mp_alloc_turn a timeout (s, k) = OK ((s, k), Returns None)
        else \<exists>k1. mp_alloc_turn a timeout (s, k) = OK ((s, k1), Blocks) \<and> krun i k1 \<and> mp_inv s k1"
proof (cases "mp_free (mps s a)")
  case (Cons p fs)
  let ?x = "(mps s a)\<lparr>free_list := blk_next (mps s a) p, blk_free_num := blk_free_num (mps s a) - 1\<rparr>"
  have l: "mp_lists (mps s a) (p # fs)" using mp_okD(1)[OF inv live] Cons by simp
  note t = mp_take_lists[OF l]
  have h: "free_list (mps s a) = Some p" using mp_listsD(1)[OF l] by simp
  have "mp_inv (upd_mp a (\<lambda>x. x\<lparr>free_list := blk_next x p, blk_free_num := blk_free_num x - 1\<rparr>) s) k"
    by (rule mp_invI[OF inv, of a]) (use mp_okI[OF t mp_okD(2)[OF inv live]] in auto)
  then show ?thesis
    using h Cons mp_lists_walk[OF t] by (simp add: mp_alloc_turn_def mp_blks_def mp_blk_def)
next
  case Nil
  have h: "free_list (mps s a) = None" using linked_head[OF mp_listsD(1)[OF mp_okD(1)[OF inv live]]] Nil by simp
  show ?thesis
  proof (cases "timeout = OS_NO_WAIT")
    case False
    obtain c where c': "current_task k = Some c" "c \<noteq> i" using settledD(6)[OF s] c by auto
    note K = settledD(3)[OF s] and r = settled_ready[OF s c'(1)]
    have free: "sched_lock_cnt k = 0" using nl[OF False] by (simp add: os_is_schedule_locked_def)
    obtain k1 where k1: "block_current a timeout True k = OK k1" "krun i k1" "task_lists k1 = wait_insert (WQ a) c True k"
      "tasks k1 = (tasks k)(c := blocked_tcb (WQ a) timeout True (os_tick k) (tasks k c))"
      using block_current_run[OF s c' free, of a timeout True] by blast
    have p: "prio k1 t = prio k t" for t by (simp add: k1(4))
    have "mp_inv s k1"
    proof (rule mp_invI[OF inv, of a])
      show "task_lists k1 (WQ b) = task_lists k (WQ b)" if "b \<noteq> a" for b
        using that ready_not_waiting[OF K r] by (simp add: k1(3) wait_insert_other)
      show "mp_ok (mps s a) a k1"
        using mp_okI[OF mp_okD(1)[OF inv live]] prio_sorted_wait_insert[OF K r mp_okD(2)[OF inv live] k1(3) p] by blast
    qed (use p in auto)
    then show ?thesis using h Nil False k1(1,2) by (simp add: mp_alloc_turn_def)
  qed (use h Nil in \<open>simp add: mp_alloc_turn_def\<close>)
qed

lemma mp_alloc_turn_safe:
  assumes s: "settled i k" and inv: "mp_inv s k" and live: "live_mp s a" and c: "current_task k \<noteq> Some i"
    and nl: "timeout \<noteq> OS_NO_WAIT \<Longrightarrow> \<not> os_is_schedule_locked k"
  shows "svc_safe mp_inv i (mp_alloc_turn a timeout (s, k))"
  using mp_alloc_turn_cases[OF s inv live c, of timeout, OF nl] settledD(1)[OF s] inv
  by (cases "mp_free (mps s a)") (auto split: if_splits)

lemma os_mp_alloc_safe:
  assumes s: "settled i k" and inv: "mp_inv s k" and c: "current_task k \<noteq> Some i"
  shows "svc_safe mp_inv i (os_mp_alloc a timeout (s, k))"
  unfolding os_mp_alloc_def wait_context_def
  using mp_alloc_turn_safe[OF s inv _ c, of a timeout] by auto

lemma os_mp_free_cases:
  assumes s: "settled i k" and inv: "mp_inv s k" and p: "mp_held (mps s a) p" and run: "os_mp_free a p (s, k) = OK (s', k')"
  shows "krun i k' \<and> mp_inv s' k' \<and> mp_free (mps s' a) = p # mp_free (mps s a) \<and> mp_blks (mps s' a) = mp_blks (mps s a) \<and>
    (\<forall>b. b \<noteq> a \<longrightarrow> mps s' b = mps s b)"
proof -
  let ?f = "\<lambda>x. x\<lparr>blk_next := (blk_next x)(p := free_list x), free_list := Some p, blk_free_num := blk_free_num x + 1\<rparr>"
  have live: "live_mp s a" using run by (auto simp: os_mp_free_def res_simps)
  note l = mp_put_lists[OF mp_okD(1)[OF inv live], of p] and sorted = mp_okD(2)[OF inv live]
  have p': "p \<in> mp_blks (mps s a)" "p \<notin> set (mp_free (mps s a))" using p by (auto simp: mp_held_def)
  have "mp_free (?f (mps s a)) = p # mp_free (mps s a)" using mp_lists_walk[OF l[OF p']] .
  moreover have "mp_blks (?f (mps s a)) = mp_blks (mps s a)" by (simp add: mp_blks_def mp_blk_def)
  moreover have "s' = upd_mp a ?f s"
    using run by (auto simp: os_mp_free_def Let_def res_simps split: list.splits)
  moreover have "krun i k' \<and> mp_inv (upd_mp a ?f s) k'"
  proof (cases "task_lists k (WQ a)")
    case Nil
    then have "k' = k" using run by (auto simp: os_mp_free_def Let_def res_simps)
    moreover have "mp_inv (upd_mp a ?f s) k" by (rule mp_invI[OF inv, of a]) (use mp_okI[OF l[OF p'] sorted] in auto)
    ultimately show ?thesis using settledD(1)[OF s] by simp
  next
    case (Cons t ts)
    then have t: "t \<in> set (task_lists k (WQ a))" by simp
    obtain k1 where k1: "wake_task t k = OK k1" "krun i k1" "tasks k1 = tasks (unblocked t k)"
      "\<And>v. task_lists k1 (WQ v) = removeAll t (task_lists k (WQ v))"
      using wake_task_run[OF s t] by blast
    have k': "k' = k1" using run Cons k1(1) by (auto simp: os_mp_free_def Let_def res_simps)
    have pr: "prio k1 u = prio k u" for u by (simp add: k1(3))
    have "prio_sorted k1 a" using sorted sorted_wrt_removeAll by (simp add: prio_sorted_def k1(4) pr)
    then have "mp_inv (upd_mp a ?f s) k1"
      by (intro mp_invI[OF inv, of a])
         (use mp_okI[OF l[OF p']] pr waiting_elsewhere[OF settledD(3)[OF s] t] in \<open>auto simp: k1(4)\<close>)
    then show ?thesis using k1(2) k' by simp
  qed
  ultimately show ?thesis by simp
qed

lemma os_mp_free_safe:
  assumes s: "settled i k" and inv: "mp_inv s k" and p: "mp_held (mps s a) p"
  shows "svc_safe mp_inv i (bind_res (os_mp_free a p (s, k)) (\<lambda>sk. OK (sk, r)))"
proof (cases "os_mp_free a p (s, k)")
  case (OK sk)
  obtain s' k' where "sk = (s', k')" by fastforce
  then show ?thesis using OK os_mp_free_cases[OF s inv p] by simp
next
  case (Fault f)
  have "f = AssertFail"
  proof (cases "task_lists k (WQ a)")
    case Nil
    then show ?thesis using Fault by (auto simp: os_mp_free_def os_assert_def Let_def split: if_splits)
  next
    case (Cons t ts)
    then obtain k1 where "wake_task t k = OK k1" using wake_task_run[OF s, of t a] by auto
    then show ?thesis using Fault Cons by (auto simp: os_mp_free_def os_assert_def Let_def split: if_splits)
  qed
  then show ?thesis using Fault by simp
qed

subsection \<open>Other calls keep the invariants\<close>

lemma k_mp_init_inv:
  assumes inv: "mp_inv s k" and l: "task_lists k (WQ a) = []" and z: "sz div bsize \<noteq> 0"
    and run: "k_mp_init a nm start sz bsize alloc (s, k) = (s', k')"
  shows "k' = k \<and> mp_inv s' k"
proof -
  let ?x = "(mps s a)\<lparr>mp_name := (case nm of None \<Rightarrow> '''' | Some n \<Rightarrow> take OS_NAME_MAX n), start_addr := start, mp_size := sz,
    blk_size := bsize, blk_total_num := sz div bsize, blk_free_num := sz div bsize\<rparr>"
  let ?in = "\<lambda>x. x\<lparr>mp_object_alloc_type := alloc, mp_object_inited := OS_KOBJ_INITED\<rparr>"
  have k: "k' = k" "mps s' a = ?in (k_mp_init_free_list ?x)" "\<And>b. b \<noteq> a \<Longrightarrow> mps s' b = mps s b"
    using run empty_list_upd[OF l] by (auto simp: k_mp_init_def)
  have b: "bsize \<noteq> 0" using z by auto
  have "unat (sz div bsize) * unat bsize \<le> unat sz" by (simp add: unat_div)
  then have fit: "unat (sz div bsize) * unat bsize < 2 ^ 32" using unat_u32[of sz] by simp
  obtain fs where fs: "mp_lists (k_mp_init_free_list ?x) fs"
    using k_mp_init_free_list_all(1)[of ?x] z b fit by (auto simp: word_gt_0)
  then have "mp_lists (?in (k_mp_init_free_list ?x)) fs" by (simp add: mp_lists_def mp_blks_def mp_blk_def)
  then have "mp_ok (mps s' a) a k" using l k(2) by (intro mp_okI) (auto simp: prio_sorted_def)
  then show ?thesis using k by (auto intro!: mp_invI[OF inv, of a])
qed

lemma k_mp_add_resourcelist_inv: "k_mp_add_resourcelist a alloc s = (s1, r) \<Longrightarrow> mp_inv s k \<Longrightarrow> mp_inv s1 k"
  by (auto simp: k_mp_add_resourcelist_def split: if_splits)

lemma os_mp_init_safe:
  assumes s: "settled i k" and inv: "mp_inv s k" and l: "task_lists k (WQ a) = []"
  shows "svc_safe mp_inv i (os_mp_init a nm start sz bsize (s, k))"
proof -
  let ?sz = "os_align_down (start + sz - os_align_up start)"
  obtain s1 r where r: "k_mp_add_resourcelist a OS_KOBJ_ALLOC_TYPE_STATIC s = (s1, r)" by fastforce
  obtain s2 k2 where b: "k_mp_init a nm (os_align_up start) ?sz (os_align_up bsize) OS_KOBJ_ALLOC_TYPE_STATIC (s1, k) = (s2, k2)"
    by fastforce
  show ?thesis
    using k_mp_init_inv[OF k_mp_add_resourcelist_inv[OF r inv] l _ b] k_mp_add_resourcelist_inv[OF r inv] settledD(1)[OF s] inv
    by (auto simp: os_mp_init_def Let_def r b)
qed

lemma os_mp_create_safe:
  assumes s: "settled i k" and inv: "mp_inv s k"
    and cb: "\<And>a. cb = Some a \<Longrightarrow> task_lists k (WQ a) = []"
    and fit: "(os_align_up bsize * n) div os_align_up bsize \<noteq> 0"
  shows "svc_safe mp_inv i (os_mp_create nm n bsize cb mem (s, k))"
proof (cases "\<exists>a p. cb = Some a \<and> mem = Some p")
  case True
  then obtain a p where ap: "cb = Some a" "mem = Some p" by blast
  obtain s1 r where r: "k_mp_add_resourcelist a OS_KOBJ_ALLOC_TYPE_DYNAMIC s = (s1, r)" by fastforce
  obtain s2 k2 where b: "k_mp_init a nm p (os_align_up bsize * n) (os_align_up bsize) OS_KOBJ_ALLOC_TYPE_DYNAMIC (s1, k) = (s2, k2)"
    by fastforce
  show ?thesis
    using k_mp_init_inv[OF k_mp_add_resourcelist_inv[OF r inv] cb[OF ap(1)] fit b] k_mp_add_resourcelist_inv[OF r inv] settledD(1)[OF s]
    by (auto simp: os_mp_create_def task_context_def Let_def ap r b)
next
  case False
  then show ?thesis
    using settledD(1)[OF s] inv by (cases cb; cases mem) (auto simp: os_mp_create_def task_context_def)
qed

lemma mp_dispose_safe:
  assumes s: "settled i k" and inv: "mp_inv s k"
  shows "svc_safe mp_inv i (mp_dispose a (s, k))"
proof -
  obtain k' where k': "k_cancle_all_blocked_task a k = OK k'" "krun i (k_kernel_exit_sched k')"
    "\<And>v. v \<noteq> a \<Longrightarrow> task_lists k' (WQ v) = task_lists k (WQ v)"
    "tasks k' = (\<lambda>t. if t \<in> set (task_lists k (WQ a)) then cancelled_tcb (tasks k t) else tasks k t)"
    using cancel_run[OF s, of a] by blast
  have "mp_inv (upd_mp a (\<lambda>x. x\<lparr>mp_object_inited := OS_KOBJ_DEINITED\<rparr>) s) (k_kernel_exit_sched k')"
    by (rule mp_invI[OF inv, of a]) (use k' in \<open>auto simp: OS_KOBJ_INITED_def OS_KOBJ_DEINITED_def\<close>)
  then show ?thesis using k' by (simp add: mp_dispose_def Let_def)
qed

subsection \<open>The memory pools as a service\<close>

datatype mp_call = Mp_init nat "string option" u32 u32 u32 | Mp_create "string option" u32 u32 "nat option" "u32 option"
  | Mp_deinit nat | Mp_destroy nat | Mp_alloc nat u32 | Mp_resume nat tid u32 u32 | Mp_free nat u32

definition no_block :: "(('s \<times> kernel) \<times> os_err) res \<Rightarrow> (('s \<times> kernel) \<times> (os_err \<times> u32 option) outcome) res" where
  "no_block m = bind_res m (\<lambda>(sk, e). OK (sk, Returns (e, None)))"

definition reply_of :: "u32 option outcome \<Rightarrow> (os_err \<times> u32 option) outcome" where
  "reply_of r = (case r of Blocks \<Rightarrow> Blocks | Returns p \<Rightarrow> Returns (OS_EOK, p))"

definition blocks_reply :: "(('s \<times> kernel) \<times> u32 option outcome) res \<Rightarrow> (('s \<times> kernel) \<times> (os_err \<times> u32 option) outcome) res" where
  "blocks_reply m = bind_res m (\<lambda>(sk, r). OK (sk, reply_of r))"

definition mp_service :: "(mp_sys, mp_call, (os_err \<times> u32 option) outcome) service" where
  "mp_service x sk = (case x of
     Mp_init a nm start sz bsize \<Rightarrow> no_block (os_mp_init a nm start sz bsize sk)
   | Mp_create nm n bsize cb mem \<Rightarrow> bind_res (os_mp_create nm n bsize cb mem sk) (\<lambda>(sk1, a).
       OK (sk1, Returns (if a = None then OS_ENOMEM else OS_EOK, None)))
   | Mp_deinit a \<Rightarrow> no_block (os_mp_deinit a sk)
   | Mp_destroy a \<Rightarrow> no_block (os_mp_destroy a sk)
   | Mp_alloc a timeout \<Rightarrow> blocks_reply (os_mp_alloc a timeout sk)
   | Mp_resume a c timeout tick_before \<Rightarrow> blocks_reply (mp_alloc_resume a c timeout tick_before sk)
   | Mp_free a p \<Rightarrow> bind_res (os_mp_free a p sk) (\<lambda>sk1. OK (sk1, Returns (OS_EOK, None))))"

text \<open>
  The idle task does not allocate, a new pool is not one that is waited for and has a block,
  and what is freed was handed out.
\<close>

definition mp_allowed :: "tid \<Rightarrow> mp_call \<Rightarrow> mp_sys \<Rightarrow> kernel \<Rightarrow> bool" where
  "mp_allowed i x s k = (case x of
     Mp_init a nm start sz bsize \<Rightarrow> task_lists k (WQ a) = []
   | Mp_create nm n bsize cb mem \<Rightarrow> (\<forall>a \<in> set_option cb. task_lists k (WQ a) = []) \<and>
       (os_align_up bsize * n) div os_align_up bsize \<noteq> 0
   | Mp_alloc a timeout \<Rightarrow> current_task k \<noteq> Some i
   | Mp_resume a c timeout tick_before \<Rightarrow> live_mp s a \<and> current_task k \<noteq> Some i \<and> \<not> os_is_schedule_locked k
   | Mp_free a p \<Rightarrow> mp_held (mps s a) p
   | _ \<Rightarrow> True)"

lemma mp_service_safe:
  assumes s: "settled i k" and inv: "mp_inv s k" and a: "mp_allowed i x s k"
  shows "svc_safe mp_inv i (mp_service x (s, k))"
proof (cases x)
  case (Mp_create nm n bsize cb mem)
  then show ?thesis
    using a os_mp_create_safe[OF s inv, of cb bsize n nm mem]
    by (auto simp: mp_service_def mp_allowed_def intro!: svc_safe_bind)
next
  case (Mp_deinit a)
  then show ?thesis
    using mp_dispose_safe[OF s inv] by (auto simp: mp_service_def no_block_def os_mp_deinit_def intro!: svc_safe_bind)
next
  case (Mp_destroy a)
  then show ?thesis
    using mp_dispose_safe[OF s inv]
    by (auto simp: mp_service_def no_block_def os_mp_destroy_def task_context_def intro!: svc_safe_bind)
next
  case (Mp_resume a c timeout tick_before)
  then have "svc_safe mp_inv i (mp_alloc_resume a c timeout tick_before (s, k))"
    using \<open>mp_allowed i x s k\<close> settledD(1)[OF s] inv mp_alloc_turn_safe[OF s inv, of a]
    by (simp add: mp_alloc_resume_def mp_allowed_def)
  then show ?thesis using Mp_resume by (simp add: mp_service_def blocks_reply_def svc_safe_bind)
next
  case (Mp_free a p)
  then show ?thesis using \<open>mp_allowed i x s k\<close> os_mp_free_safe[OF s inv] by (simp add: mp_service_def mp_allowed_def)
qed (use a os_mp_init_safe[OF s inv] os_mp_alloc_safe[OF s inv]
     in \<open>auto simp: mp_service_def mp_allowed_def no_block_def blocks_reply_def intro!: svc_safe_bind\<close>)

lemma mp_inv_dispatch: "mp_inv s k \<Longrightarrow> krun i k \<Longrightarrow> dispatch k = OK k' \<Longrightarrow> mp_inv s k'"
  unfolding mp_inv_def mp_ok_def by (simp add: dispatch_wait_frame prio_sorted_def)

interpretation mp_srv: kernel_service mp_service mp_allowed "\<lambda>_. mp_inv"
  by (rule kernel_service_svc, fact mp_service_safe, fact mp_inv_dispatch)

subsection \<open>Blocks that are in use\<close>

definition mp_block_call :: "mp_call \<Rightarrow> bool" where
  "mp_block_call x \<longleftrightarrow> (case x of Mp_alloc a timeout \<Rightarrow> True | Mp_resume a c timeout tick_before \<Rightarrow> True | Mp_free a p \<Rightarrow> True | _ \<Rightarrow> False)"

text \<open>The blocks of pool \<open>a\<close> in use after a call, given those in use before.\<close>

definition mp_in_use :: "nat \<Rightarrow> mp_call \<Rightarrow> (os_err \<times> u32 option) outcome \<Rightarrow> u32 list \<Rightarrow> u32 list" where
  "mp_in_use a x r bs = (case x of
     Mp_free b p \<Rightarrow> if b = a then removeAll p bs else bs
   | Mp_alloc b timeout \<Rightarrow> (case r of Returns (e, Some p) \<Rightarrow> if b = a then p # bs else bs | _ \<Rightarrow> bs)
   | Mp_resume b c timeout tick_before \<Rightarrow> (case r of Returns (e, Some p) \<Rightarrow> if b = a then p # bs else bs | _ \<Rightarrow> bs)
   | _ \<Rightarrow> bs)"

definition all_held :: "os_mempool \<Rightarrow> u32 list \<Rightarrow> bool" where
  "all_held x bs \<longleftrightarrow> distinct bs \<and> (\<forall>p \<in> set bs. mp_held x p)"

lemma all_held_turn:
  assumes s: "settled i k" and inv: "mp_inv s k" and live: "live_mp s b" and c: "current_task k \<noteq> Some i"
    and nl: "timeout \<noteq> OS_NO_WAIT \<Longrightarrow> \<not> os_is_schedule_locked k"
    and run: "mp_alloc_turn b timeout (s, k) = OK ((s', k'), r)" and h: "all_held (mps s a) bs"
  shows "all_held (mps s' a) (case r of Returns (Some p) \<Rightarrow> if b = a then p # bs else bs | _ \<Rightarrow> bs)"
proof (cases "mp_free (mps s b)")
  case Nil
  then have "s' = s \<and> (r = Returns None \<or> r = Blocks)"
    using mp_alloc_turn_cases[OF s inv live c, of timeout, OF nl] run by (auto split: if_splits)
  then show ?thesis using h by auto
next
  case (Cons p fs)
  obtain s1 where s1: "mp_alloc_turn b timeout (s, k) = OK ((s1, k), Returns (Some p))" "mp_free (mps s1 b) = fs"
    "mp_blks (mps s1 b) = mp_blks (mps s b)" "\<And>d. d \<noteq> b \<Longrightarrow> mps s1 d = mps s d"
    using mp_alloc_turn_cases[OF s inv live c, of timeout, OF nl] Cons by auto
  have "p \<notin> set fs" "p \<in> mp_blks (mps s b)"
    using mp_listsD(2,3)[OF mp_okD(1)[OF inv live]] Cons by auto
  moreover have "p \<notin> set bs" if "b = a" using h Cons that by (auto simp: all_held_def mp_held_def)
  moreover have "s' = s1" "r = Returns (Some p)" using run s1(1) by simp_all
  moreover have "set fs \<subseteq> set (mp_free (mps s b))" using Cons by auto
  ultimately show ?thesis
    using h s1(2,3) s1(4)[of a] by (cases "b = a") (auto simp: all_held_def mp_held_def)
qed

lemma in_use_reply:
  "(case reply_of r of Returns (e, Some p) \<Rightarrow> f p | _ \<Rightarrow> bs) = (case r of Returns (Some p) \<Rightarrow> f p | _ \<Rightarrow> bs)"
  by (simp add: reply_of_def split: outcome.split option.split)

lemma mp_syscall_held:
  assumes s: "settled i k" and inv: "mp_inv s k" and al: "mp_allowed i x s k" and x: "mp_block_call x"
    and run: "syscall mp_service x (s, k) = OK ((s', k'), r)" and h: "all_held (mps s a) bs"
  shows "all_held (mps s' a) (mp_in_use a x r bs)"
proof -
  obtain k1 where k1: "mp_service x (s, k) = OK ((s', k1), r)" using run by (auto simp: syscall_def res_simps)
  show ?thesis
  proof (cases x)
    case (Mp_alloc b timeout)
    obtain r0 where r0: "os_mp_alloc b timeout (s, k) = OK ((s', k1), r0)" "r = reply_of r0"
      using k1 Mp_alloc by (auto simp: mp_service_def blocks_reply_def res_simps)
    have t: "live_mp s b" "timeout = OS_NO_WAIT \<or> \<not> os_is_schedule_locked k" "mp_alloc_turn b timeout (s, k) = OK ((s', k1), r0)"
      using r0(1) by (auto simp: os_mp_alloc_def wait_context_def res_simps)
    have c: "current_task k \<noteq> Some i" using al Mp_alloc by (simp add: mp_allowed_def)
    have "all_held (mps s' a) (case r0 of Returns (Some p) \<Rightarrow> if b = a then p # bs else bs | _ \<Rightarrow> bs)"
      by (rule all_held_turn[OF s inv t(1) c _ t(3) h]) (use t(2) in blast)
    then show ?thesis by (simp add: Mp_alloc mp_in_use_def r0(2) in_use_reply)
  next
    case (Mp_resume b c timeout tick_before)
    have a: "live_mp s b" "current_task k \<noteq> Some i" "\<not> os_is_schedule_locked k" using al Mp_resume by (simp_all add: mp_allowed_def)
    show ?thesis
    proof (cases "wait_result c k = OS_EOK")
      case True
      obtain r0 where r0: "mp_alloc_turn b (mp_time_left timeout (os_tick_get k - tick_before)) (s, k) = OK ((s', k1), r0)"
        "r = reply_of r0"
        using k1 Mp_resume True by (auto simp: mp_service_def blocks_reply_def mp_alloc_resume_def res_simps)
      from all_held_turn[OF s inv a(1,2) a(3) r0(1) h] show ?thesis
        by (simp add: Mp_resume mp_in_use_def r0(2) in_use_reply)
    next
      case False
      then show ?thesis
        using k1 h by (auto simp: Mp_resume mp_service_def blocks_reply_def mp_alloc_resume_def mp_in_use_def reply_of_def)
    qed
  next
    case (Mp_free b p)
    have r0: "os_mp_free b p (s, k) = OK (s', k1)" "mp_held (mps s b) p"
      using k1 al Mp_free by (auto simp: mp_service_def mp_allowed_def res_simps)
    note f = os_mp_free_cases[OF s inv r0(2,1)]
    show ?thesis
      using f h by (cases "b = a") (auto simp: Mp_free mp_in_use_def all_held_def mp_held_def distinct_removeAll)
  qed (use x in \<open>simp_all add: mp_block_call_def\<close>)
qed

text \<open>Two blocks of a pool do not overlap.\<close>

lemma mp_blks_apart:
  assumes "mp_lists x fs" "p \<in> mp_blks x" "q \<in> mp_blks x" "p \<noteq> q"
  shows "unat (p - start_addr x) + unat (blk_size x) \<le> unat (q - start_addr x) \<or>
    unat (q - start_addr x) + unat (blk_size x) \<le> unat (p - start_addr x)"
proof -
  note L = mp_listsD[OF assms(1)]
  obtain i j where ij: "p = mp_blk x i" "q = mp_blk x j" "i < unat (blk_total_num x)" "j < unat (blk_total_num x)"
    using assms(2,3) by (auto simp: mp_blks_def)
  have "unat (mp_blk x n - start_addr x) = n * unat (blk_size x)" if "n < unat (blk_total_num x)" for n
    using mp_blk_offset[OF L(5), of n] that by (simp add: mp_blk_def)
  then have u: "unat (p - start_addr x) = i * unat (blk_size x)" "unat (q - start_addr x) = j * unat (blk_size x)"
    using ij by simp_all
  have step: "m * b + b \<le> n * b" if "m < n" for m n b :: nat using that by (metis Suc_leI add.commute mult_Suc mult_le_mono1)
  have "i \<noteq> j" using ij assms(4) by auto
  then show ?thesis unfolding u using step[of i j] step[of j i] by (cases "i < j") auto
qed

text \<open>Allocations and frees do not end the life of a pool.\<close>

lemma mp_turn_inited:
  "mp_alloc_turn b timeout (s, k) = OK ((s', k'), r) \<Longrightarrow> mp_object_inited (mps s' a) = mp_object_inited (mps s a)"
  by (auto simp: mp_alloc_turn_def res_simps split: option.splits if_splits)

lemma mp_block_inited:
  assumes "mp_block_call x" "syscall mp_service x (s, k) = OK ((s', k'), r)"
  shows "mp_object_inited (mps s' a) = mp_object_inited (mps s a)"
proof -
  obtain k1 where k1: "mp_service x (s, k) = OK ((s', k1), r)" using assms(2) by (auto simp: syscall_def res_simps)
  show ?thesis
  proof (cases x)
    case (Mp_alloc b timeout)
    then have "\<exists>r0. mp_alloc_turn b timeout (s, k) = OK ((s', k1), r0)"
      using k1 by (auto simp: mp_service_def blocks_reply_def os_mp_alloc_def wait_context_def res_simps)
    then show ?thesis using mp_turn_inited by blast
  next
    case (Mp_resume b c timeout tick_before)
    then have "s' = s \<or> (\<exists>t r0. mp_alloc_turn b t (s, k) = OK ((s', k1), r0))"
      using k1 by (auto simp: mp_service_def blocks_reply_def mp_alloc_resume_def res_simps split: if_splits)
    then show ?thesis using mp_turn_inited by blast
  next
    case (Mp_free b p)
    then show ?thesis
      using k1 by (auto simp: mp_service_def os_mp_free_def Let_def res_simps split: list.splits)
  qed (use assms(1) in \<open>simp_all add: mp_block_call_def\<close>)
qed

definition mp_overlap :: "os_mempool \<Rightarrow> u32 \<Rightarrow> u32 \<Rightarrow> bool" where
  "mp_overlap x p q \<longleftrightarrow> unat (q - start_addr x) < unat (p - start_addr x) + unat (blk_size x) \<and>
     unat (p - start_addr x) < unat (q - start_addr x) + unat (blk_size x)"

lemma all_held_apart:
  "mp_lists x fs \<Longrightarrow> all_held x bs \<Longrightarrow> p \<in> set bs \<Longrightarrow> q \<in> set bs \<Longrightarrow> p \<noteq> q \<Longrightarrow> \<not> mp_overlap x p q"
  using mp_blks_apart[of x fs p q] by (auto simp: all_held_def mp_held_def mp_overlap_def)

subsection \<open>Properties\<close>

fun mp_run :: "nat \<Rightarrow> mp_call list \<Rightarrow> mp_sys \<times> kernel \<Rightarrow> u32 list \<Rightarrow> ((mp_sys \<times> kernel) \<times> u32 list) res" where
  "mp_run a [] sk bs = OK (sk, bs)"
| "mp_run a (x # xs) sk bs = bind_res (syscall mp_service x sk) (\<lambda>(sk1, r). mp_run a xs sk1 (mp_in_use a x r bs))"

text \<open>
  C34. Memory pools hand out every block once: over any allocations, also those that waited, and
  frees of blocks that were handed out, the blocks of a pool that are in use are different
  from each other, do not overlap, and none of them is in the list of free blocks. The calls
  stop in an assertion or keep the scheduling invariant and that of the pools.
\<close>

theorem mp_blocks_exclusive:
  assumes "settled i k" "mp_inv s k" "calls_allowed mp_service (mp_allowed i) xs (s, k)" "list_all mp_block_call xs"
    and "all_held (mps s a) bs" "live_mp s a"
  shows "mp_run a xs (s, k) bs = Fault AssertFail \<or>
    (\<exists>s' k' bs'. mp_run a xs (s, k) bs = OK ((s', k'), bs') \<and> settled i k' \<and> mp_inv s' k' \<and> distinct bs' \<and>
      (\<forall>p \<in> set bs'. p \<in> mp_blks (mps s' a) \<and> p \<notin> set (mp_free (mps s' a)) \<and>
         (\<forall>q \<in> set bs'. q \<noteq> p \<longrightarrow> \<not> mp_overlap (mps s' a) p q)))"
  using assms
proof (induction xs arbitrary: s k bs)
  case Nil
  then show ?case
    using all_held_apart[OF mp_okD(1)[OF Nil(2,6)] Nil(5)] by (auto simp: all_held_def mp_held_def)
next
  case (Cons x xs)
  have al: "mp_allowed i x s k" and b: "mp_block_call x" using Cons.prems(3,4) by simp_all
  from mp_srv.syscall_settled[OF Cons.prems(1,2) al] show ?case
  proof (elim disjE exE conjE)
    fix s1 k1 r assume 1: "syscall mp_service x (s, k) = OK ((s1, k1), r)" "settled i k1" "mp_inv s1 k1"
    have 2: "calls_allowed mp_service (mp_allowed i) xs (s1, k1)" "list_all mp_block_call xs" using Cons.prems(3,4) 1(1) by simp_all
    have 3: "live_mp s1 a" using mp_block_inited[OF b 1(1)] Cons.prems(6) by simp
    from Cons.IH[OF 1(2,3) 2 mp_syscall_held[OF Cons.prems(1,2) al b 1(1) Cons.prems(5)] 3] show ?thesis using 1(1) by simp
  qed simp
qed

definition bss_mps :: mp_sys where
  "bss_mps = \<lparr>mps = (\<lambda>_. \<lparr>start_addr = 0, blk_next = (\<lambda>_. None), free_list = None, mp_size = 0, blk_size = 0, blk_total_num = 0,
     blk_free_num = 0, mp_object_alloc_type = 0, mp_object_inited = 0, mp_name = ''''\<rparr>), mp_resource_list = []\<rparr>"

lemma bss_mps_inv: "mp_inv bss_mps k"
  by (simp add: mp_inv_def bss_mps_def OS_KOBJ_INITED_def)

lemmas mp_eval = wait_eval mp_service_def no_block_def blocks_reply_def reply_of_def os_mp_init_def k_mp_add_resourcelist_def k_mp_init_def
  k_mp_init_free_list_def mp_blk_def os_align_up_def os_align_down_def os_mp_alloc_def mp_alloc_turn_def os_mp_free_def
  upd_mp_def bss_mps_def

theorem mp_blocks_exclusive_witness:
  "\<exists>s k s' k'. run_calls mp_service [Mp_init 200 None 0x1000 20 8] (bss_mps, sample) = OK ((s, k), [Returns (OS_EOK, None)]) \<and>
     mp_run 200 [Mp_alloc 200 0, Mp_alloc 200 0, Mp_alloc 200 0, Mp_free 200 0x1000] (s, k) [] = OK ((s', k'), [0x1008]) \<and>
     settled 3 k' \<and> mp_inv s' k'"
proof -
  let ?xs = "[Mp_alloc 200 0, Mp_alloc 200 0, Mp_alloc 200 0, Mp_free 200 0x1000]"
  have al: "calls_allowed mp_service (mp_allowed 3) [Mp_init 200 None 0x1000 20 8] (bss_mps, sample)"
    by (simp add: mp_allowed_def sample_lists_def split: res.split)
  have blks: "(\<lambda>x. 0x1000 + of_nat x * 8) ` {..<2} = {0x1000, 0x1008 :: u32}"
  proof -
    have "{..<2} = {0, 1 :: nat}" by auto
    then show ?thesis by simp
  qed
  obtain s k where sk: "run_calls mp_service [Mp_init 200 None 0x1000 20 8] (bss_mps, sample) = OK ((s, k), [Returns (OS_EOK, None)])"
    "live_mp s 200" "calls_allowed mp_service (mp_allowed 3) ?xs (s, k)"
    "\<exists>sk. mp_run 200 ?xs (s, k) [] = OK (sk, [0x1008])"
    by (simp add: mp_allowed_def mp_eval mp_held_def mp_blks_def mp_free_def mp_in_use_def blks)
  have "settled 3 k" "mp_inv s k" using mp_srv.run_settled[OF sample_settled bss_mps_inv al] sk(1) by auto
  from mp_blocks_exclusive[OF this sk(3), of 200 "[]"] show ?thesis
    using sk by (auto simp: mp_block_call_def all_held_def)
qed

text \<open>
  C35. The check of \<^verbatim>\<open>os_mp_free\<close> accepts an address behind the last block: in any live pool whose
  size is not a multiple of its block size, whatever was allocated before, and for which nobody waits,
  the address behind the last block can be freed, and the next allocation hands it out, as a block
  that is not one of the pool's and that reaches behind the pool.
\<close>

theorem mp_free_beyond_last:
  fixes s :: mp_sys and a :: nat
  defines "x \<equiv> mps s a" and "p \<equiv> mp_blk (mps s a) (unat (blk_total_num (mps s a)))"
  assumes "mp_inv s k" "live_mp s a" "blk_total_num x = mp_size x div blk_size x" "mp_size x mod blk_size x \<noteq> 0"
    and "unat (start_addr x) + unat (mp_size x) < 2 ^ 32" "task_lists k (WQ a) = []"
  shows "\<exists>s1 s2. os_mp_free a p (s, k) = OK (s1, k) \<and> os_mp_alloc a OS_NO_WAIT (s1, k) = OK ((s2, k), Returns (Some p)) \<and>
    p \<notin> mp_blks x \<and> unat (start_addr x) + unat (mp_size x) < unat p + unat (blk_size x)"
proof -
  note L = mp_listsD[OF mp_okD(1)[OF assms(3,4)], folded x_def]
  let ?n = "unat (mp_size x) div unat (blk_size x)" and ?b = "unat (blk_size x)"
  have n: "unat (blk_total_num x) = ?n" using assms(5) by (simp add: unat_div)
  have r: "unat (mp_size x) mod ?b \<noteq> 0" using assms(6) by (simp add: unat_mod [symmetric] unat_eq_zero)
  have b: "0 < ?b" using L(6) by (simp add: word_less_nat_alt)
  have off: "unat (of_nat ?n * blk_size x :: u32) = ?n * ?b" using mp_blk_offset[OF L(5), of ?n] n by simp
  have lt: "?n * ?b < unat (mp_size x)" "unat (mp_size x) < ?n * ?b + ?b"
    using r div_mult_mod_eq[of "unat (mp_size x)" ?b] mod_less_divisor[OF b, of "unat (mp_size x)"] by linarith+
  have p: "p = start_addr x + of_nat ?n * blk_size x" unfolding n[symmetric] by (simp add: p_def mp_blk_def x_def)
  have up: "unat p = unat (start_addr x) + ?n * ?b"
    using lt(1) assms(7) off unfolding p by (subst unat_add_lem[THEN iffD1]) simp_all
  have ue: "unat (start_addr x + mp_size x) = unat (start_addr x) + unat (mp_size x)"
    using assms(7) by (subst unat_add_lem[THEN iffD1]) simp_all
  have "start_addr x \<le> p" "p < start_addr x + mp_size x" using up ue lt(1) by (simp_all add: word_le_nat_alt word_less_nat_alt)
  moreover have "(p - start_addr x) mod blk_size x = 0" using off by (simp add: p word_unat_eq_iff unat_mod)
  ultimately have "\<exists>s1 s2. os_mp_free a p (s, k) = OK (s1, k) \<and> os_mp_alloc a OS_NO_WAIT (s1, k) = OK ((s2, k), Returns (Some p))"
    using assms(4,8) by (simp add: os_mp_free_def os_mp_alloc_def mp_alloc_turn_def wait_context_def x_def OS_NO_WAIT_def OS_TICK_MAX_def)
  moreover have "p \<notin> mp_blks x"
  proof
    assume "p \<in> mp_blks x"
    then obtain j where "j < ?n" "p = mp_blk x j" using n by (auto simp: mp_blks_def)
    then show False using mp_blk_inj[OF L(5,6), of j ?n] n by (simp add: p_def x_def)
  qed
  ultimately show ?thesis using lt(2) up by auto
qed

theorem mp_free_beyond_last_witness:
  "\<exists>s k s1 s2. os_mp_init 200 None 0x1000 20 8 (bss_mps, sample) = OK ((s, k), OS_EOK) \<and> os_mp_info 200 s = (8, 2, 2) \<and>
     os_mp_free 200 0x1010 (s, k) = OK (s1, k) \<and> os_mp_alloc 200 OS_NO_WAIT (s1, k) = OK ((s2, k), Returns (Some 0x1010)) \<and>
     0x1010 \<notin> mp_blks (mps s 200)"
proof -
  have al: "calls_allowed mp_service (mp_allowed 3) [Mp_init 200 None 0x1000 20 8] (bss_mps, sample)"
    by (simp add: mp_allowed_def sample_lists_def split: res.split)
  have "\<exists>s k. os_mp_init 200 None 0x1000 20 8 (bss_mps, sample) = OK ((s, k), OS_EOK) \<and> os_mp_info 200 s = (8, 2, 2) \<and>
      run_calls mp_service [Mp_init 200 None 0x1000 20 8] (bss_mps, sample) = OK ((s, k), [Returns (OS_EOK, None)]) \<and>
      live_mp s 200 \<and> blk_total_num (mps s 200) = 2 \<and> mp_size (mps s 200) = 20 \<and> blk_size (mps s 200) = 8 \<and>
      start_addr (mps s 200) = 0x1000 \<and> task_lists k (WQ 200) = []"
    by (simp add: mp_eval os_mp_info_def)
  then obtain s k where sk: "os_mp_init 200 None 0x1000 20 8 (bss_mps, sample) = OK ((s, k), OS_EOK)" "os_mp_info 200 s = (8, 2, 2)"
      "run_calls mp_service [Mp_init 200 None 0x1000 20 8] (bss_mps, sample) = OK ((s, k), [Returns (OS_EOK, None)])"
      "live_mp s 200" "blk_total_num (mps s 200) = 2" "mp_size (mps s 200) = 20" "blk_size (mps s 200) = 8"
      "start_addr (mps s 200) = 0x1000" "task_lists k (WQ 200) = []" by blast
  have "mp_inv s k" using mp_srv.run_settled[OF sample_settled bss_mps_inv al] sk(3) by auto
  moreover have "mp_blk (mps s 200) (unat (blk_total_num (mps s 200))) = 0x1010" using sk by (simp add: mp_blk_def)
  ultimately show ?thesis using mp_free_beyond_last[of s k 200] sk by auto
qed

end
