(* ===== verification/Os_Event.thy ===== *)
theory Os_Event
  imports Kernel_Wait
begin

text \<open>
  \<^verbatim>\<open>oneos/kernel/source/os_event.c\<close>: sets of 32 event flags. A task waits until all or any of the
  flags it is interested in are set; a send walks the waiting tasks and wakes those that
  are satisfied, some of which take their flags away from those behind them.
\<close>

definition OS_EVENT_OPTION_AND :: u32 where "OS_EVENT_OPTION_AND = 0x00000001"
definition OS_EVENT_OPTION_OR :: u32 where "OS_EVENT_OPTION_OR = 0x00000002"
definition OS_EVENT_OPTION_CLEAR :: u32 where "OS_EVENT_OPTION_CLEAR = 0x00000004"

record os_event =
  ev_set :: u32
  ev_object_inited :: u8
  ev_object_alloc_type :: u8
  ev_wake_type :: u8
  ev_name :: string

record event_sys =
  events :: "nat \<Rightarrow> os_event"
  event_resource_list :: "nat list"

definition upd_event :: "nat \<Rightarrow> (os_event \<Rightarrow> os_event) \<Rightarrow> event_sys \<Rightarrow> event_sys" where
  "upd_event a f s = s\<lparr>events := (events s)(a := f (events s a))\<rparr>"

lemma upd_event_apply [simp]: "events (upd_event a f s) b = (if b = a then f (events s a) else events s b)"
  by (simp add: upd_event_def)

text \<open>The flags received of those asked for (zero if the task has to wait), and the flags left.\<close>

definition k_event_flag_check :: "u32 \<Rightarrow> u32 \<Rightarrow> u32 \<Rightarrow> (u32 \<times> u32) res" where
  "k_event_flag_check flags interested opt =
     bind_res (if has_flag opt OS_EVENT_OPTION_AND then
                 OK (if flags AND interested = interested then interested else 0)
               else if has_flag opt OS_EVENT_OPTION_OR then
                 OK (if flags AND interested \<noteq> 0 then interested AND flags else 0)
               else Fault AssertFail)
       (\<lambda>recved. OK (recved, if recved \<noteq> 0 \<and> has_flag opt OS_EVENT_OPTION_CLEAR then flags AND NOT recved else flags))"

subsection \<open>Life cycle\<close>

definition k_event_init :: "nat \<Rightarrow> string option \<Rightarrow> u8 \<Rightarrow> event_sys \<times> kernel \<Rightarrow> event_sys \<times> kernel" where
  "k_event_init a nm alloc = (\<lambda>(s, k).
     (upd_event a (\<lambda>x. x\<lparr>ev_name := (case nm of None \<Rightarrow> '''' | Some n \<Rightarrow> take OS_NAME_MAX n), ev_set := 0,
        ev_wake_type := WAKE_TYPE_PRIO, ev_object_alloc_type := alloc, ev_object_inited := OS_KOBJ_INITED\<rparr>) s,
      k\<lparr>task_lists := (task_lists k)(WQ a := [])\<rparr>))"

definition os_event_init :: "nat \<Rightarrow> string option \<Rightarrow> event_sys \<times> kernel \<Rightarrow> ((event_sys \<times> kernel) \<times> os_err) res" where
  "os_event_init a nm = (\<lambda>(s, k).
     os_assert (\<not> irq_active k)
       (if a \<in> set (event_resource_list s) then OK ((s, k), OS_EINVAL)
        else OK (k_event_init a nm OS_KOBJ_ALLOC_TYPE_STATIC
               (s\<lparr>event_resource_list := event_resource_list s @ [a]\<rparr>, k), OS_EOK)))"

definition os_event_create ::
  "string option \<Rightarrow> nat option \<Rightarrow> event_sys \<times> kernel \<Rightarrow> ((event_sys \<times> kernel) \<times> nat option) res" where
  "os_event_create nm mem = (\<lambda>(s, k). task_context k
     (case mem of None \<Rightarrow> OK ((s, k), None)
      | Some a \<Rightarrow> OK (k_event_init a nm OS_KOBJ_ALLOC_TYPE_DYNAMIC
          (s\<lparr>event_resource_list := event_resource_list s @ [a]\<rparr>, k), Some a)))"

definition event_dispose :: "nat \<Rightarrow> event_sys \<times> kernel \<Rightarrow> ((event_sys \<times> kernel) \<times> os_err) res" where
  "event_dispose a = (\<lambda>(s, k).
     bind_res (k_cancle_all_blocked_task a k) (\<lambda>k1.
       let s1 = upd_event a (\<lambda>x. x\<lparr>ev_object_inited := OS_KOBJ_DEINITED, ev_set := 0\<rparr>) s
       in OK ((s1\<lparr>event_resource_list := removeAll a (event_resource_list s1)\<rparr>, k_kernel_exit_sched k1), OS_EOK)))"

definition os_event_deinit :: "nat \<Rightarrow> event_sys \<times> kernel \<Rightarrow> ((event_sys \<times> kernel) \<times> os_err) res" where
  "os_event_deinit a = (\<lambda>(s, k).
     os_assert (ev_object_inited (events s a) = OS_KOBJ_INITED)
     (os_assert (ev_object_alloc_type (events s a) = OS_KOBJ_ALLOC_TYPE_STATIC)
     (os_assert (\<not> irq_active k) (event_dispose a (s, k)))))"

definition os_event_destroy :: "nat \<Rightarrow> event_sys \<times> kernel \<Rightarrow> ((event_sys \<times> kernel) \<times> os_err) res" where
  "os_event_destroy a = (\<lambda>(s, k).
     os_assert (ev_object_inited (events s a) = OS_KOBJ_INITED)
     (os_assert (ev_object_alloc_type (events s a) = OS_KOBJ_ALLOC_TYPE_DYNAMIC)
     (task_context k (event_dispose a (s, k)))))"

subsection \<open>Sending and receiving\<close>

text \<open>
  The walk of \<^verbatim>\<open>os_event_send\<close> over the waiting tasks. The successor is read before a task is
  unlinked, so the walk follows the list as it was; it stops when no flag is left.
\<close>

fun event_wake :: "tid list \<Rightarrow> u32 \<times> kernel \<times> bool \<Rightarrow> (u32 \<times> kernel \<times> bool) res" where
  "event_wake [] st = OK st"
| "event_wake (t # ts) (flags, k, need) =
     bind_res (k_event_flag_check flags (event_set (tasks k t)) (event_option (tasks k t))) (\<lambda>(recved, set1).
     bind_res (if recved \<noteq> 0
               then bind_res (k_unblock_task t (upd_task t (\<lambda>x. x\<lparr>event_set := recved\<rparr>) k)) (\<lambda>k1.
                      OK (k1, need \<or> has_flag (tstate k1 t) OS_TASK_STATE_READY))
               else OK (k, need)) (\<lambda>(k1, need1).
       if set1 = 0 then OK (set1, k1, need1) else event_wake ts (set1, k1, need1)))"

definition os_event_send :: "nat \<Rightarrow> u32 \<Rightarrow> event_sys \<times> kernel \<Rightarrow> ((event_sys \<times> kernel) \<times> os_err) res" where
  "os_event_send a flags = (\<lambda>(s, k).
     os_assert (ev_object_inited (events s a) = OS_KOBJ_INITED) (os_assert (flags \<noteq> 0)
       (bind_res (event_wake (task_lists k (WQ a)) (ev_set (events s a) OR flags, k, False)) (\<lambda>(set1, k1, need).
          OK ((upd_event a (\<lambda>x. x\<lparr>ev_set := set1\<rparr>) s, exit_if need k1), OS_EOK)))))"

definition os_event_recv ::
  "nat \<Rightarrow> u32 \<Rightarrow> u32 \<Rightarrow> u32 \<Rightarrow> event_sys \<times> kernel \<Rightarrow> ((event_sys \<times> kernel) \<times> (os_err \<times> u32 option) outcome) res" where
  "os_event_recv a interested opt timeout = (\<lambda>(s, k).
     os_assert (ev_object_inited (events s a) = OS_KOBJ_INITED) (wait_context timeout k
     (os_assert (interested \<noteq> 0)
       (if opt AND (OS_EVENT_OPTION_OR OR OS_EVENT_OPTION_AND) = OS_EVENT_OPTION_OR OR OS_EVENT_OPTION_AND \<or>
           opt AND (OS_EVENT_OPTION_OR OR OS_EVENT_OPTION_AND) = 0
        then OK ((s, k), Returns (OS_EINVAL, None))
        else bind_res (k_event_flag_check (ev_set (events s a)) interested opt) (\<lambda>(recved, set1).
          let s1 = upd_event a (\<lambda>x. x\<lparr>ev_set := set1\<rparr>) s in
          if recved \<noteq> 0 then OK ((s1, k), Returns (OS_EOK, Some recved))
          else if timeout = OS_NO_WAIT then OK ((s1, k), Returns (OS_EEMPTY, None))
          else bind_res (block_with a timeout (ev_wake_type (events s a) = WAKE_TYPE_PRIO)
                 (\<lambda>x. x\<lparr>event_set := interested, event_option := opt\<rparr>) k) (\<lambda>k1. OK ((s1, k1), Blocks)))))))"

text \<open>What a receiver that blocked returns when it runs again.\<close>

definition event_recv_resume :: "tid \<Rightarrow> kernel \<Rightarrow> os_err \<times> u32 option" where
  "event_recv_resume c k = (wait_result c k, if wait_result c k = OS_EOK then Some (event_set (tasks k c)) else None)"

definition os_event_clear :: "nat \<Rightarrow> u32 \<Rightarrow> event_sys \<times> kernel \<Rightarrow> ((event_sys \<times> kernel) \<times> os_err) res" where
  "os_event_clear a interested = (\<lambda>(s, k).
     os_assert (ev_object_inited (events s a) = OS_KOBJ_INITED)
       (OK ((upd_event a (\<lambda>x. x\<lparr>ev_set := ev_set x AND NOT interested\<rparr>) s, k), OS_EOK)))"

definition os_event_get :: "nat \<Rightarrow> event_sys \<Rightarrow> u32 res" where
  "os_event_get a s = os_assert (ev_object_inited (events s a) = OS_KOBJ_INITED) (OK (ev_set (events s a)))"

definition os_event_set_wake_type :: "nat \<Rightarrow> u8 \<Rightarrow> event_sys \<times> kernel \<Rightarrow> ((event_sys \<times> kernel) \<times> os_err) res" where
  "os_event_set_wake_type a wt = (\<lambda>(s, k).
     os_assert (wt = WAKE_TYPE_PRIO \<or> wt = WAKE_TYPE_FIFO)
       (if task_lists k (WQ a) = [] then OK ((upd_event a (\<lambda>x. x\<lparr>ev_wake_type := wt\<rparr>) s, k), OS_EOK)
        else OK ((s, k), OS_EBUSY)))"

subsection \<open>When a task is satisfied\<close>

text \<open>
  The reference: all of the flags, or any of them. A set that is a part of another one
  satisfies nobody whom the larger one does not satisfy.
\<close>

definition satisfied :: "u32 \<Rightarrow> u32 \<Rightarrow> u32 \<Rightarrow> bool" where
  "satisfied flags interested opt \<longleftrightarrow>
     (if has_flag opt OS_EVENT_OPTION_AND then interested AND NOT flags = 0 else interested AND flags \<noteq> 0)"

definition legal_option :: "u32 \<Rightarrow> bool" where
  "legal_option opt \<longleftrightarrow> has_flag opt OS_EVENT_OPTION_AND \<or> has_flag opt OS_EVENT_OPTION_OR"

lemma and_subset_iff: "flags AND x = x \<longleftrightarrow> x AND NOT flags = 0" for x flags :: "'a::len word"
  by (auto simp: bit_eq_iff bit_simps)

lemma satisfied_mono:
  assumes "flags' AND NOT flags = 0" "satisfied flags' interested opt"
  shows "satisfied flags interested opt"
  using assms unfolding satisfied_def
  by (auto simp: bit_eq_iff bit_simps split: if_splits)

lemma not_satisfied_0: "interested \<noteq> 0 \<Longrightarrow> \<not> satisfied 0 interested opt"
  by (simp add: satisfied_def)

text \<open>The flags a satisfied task receives, and what its option leaves of the set.\<close>

definition received :: "u32 \<Rightarrow> u32 \<Rightarrow> u32 \<Rightarrow> u32" where
  "received flags interested opt = (if has_flag opt OS_EVENT_OPTION_AND then interested else interested AND flags)"

definition remaining :: "u32 \<Rightarrow> u32 \<Rightarrow> u32 \<Rightarrow> u32" where
  "remaining flags interested opt =
     (if has_flag opt OS_EVENT_OPTION_CLEAR then flags AND NOT (received flags interested opt) else flags)"

lemma remaining_subset: "remaining flags interested opt AND NOT flags = 0"
  by (auto simp: remaining_def bit_eq_iff bit_simps)

lemma flag_check_eq:
  assumes "legal_option opt" "interested \<noteq> 0"
  shows "k_event_flag_check flags interested opt =
    OK (if satisfied flags interested opt then (received flags interested opt, remaining flags interested opt) else (0, flags))"
    "satisfied flags interested opt \<Longrightarrow> received flags interested opt \<noteq> 0"
  using assms
  by (auto simp: k_event_flag_check_def legal_option_def satisfied_def received_def remaining_def and_subset_iff and.commute)

text \<open>
  The reference for a send: every waiting task in turn, with the flags that those before it
  have left. Here the walk does not stop early.
\<close>

fun event_serve :: "u32 \<Rightarrow> (tid \<times> u32 \<times> u32) list \<Rightarrow> (tid \<times> u32) list \<times> u32" where
  "event_serve flags [] = ([], flags)"
| "event_serve flags ((t, interested, opt) # ws) =
     (if satisfied flags interested opt
      then let (served, left) = event_serve (remaining flags interested opt) ws
           in ((t, received flags interested opt) # served, left)
      else event_serve flags ws)"

definition waiting :: "kernel \<Rightarrow> tid \<Rightarrow> tid \<times> u32 \<times> u32" where
  "waiting k t = (t, event_set (tasks k t), event_option (tasks k t))"

definition waits_legally :: "kernel \<Rightarrow> tid \<Rightarrow> bool" where
  "waits_legally k t \<longleftrightarrow> legal_option (event_option (tasks k t)) \<and> event_set (tasks k t) \<noteq> 0"

lemma serve_0: "\<forall>t \<in> set ts. waits_legally k t \<Longrightarrow> event_serve 0 (map (waiting k) ts) = ([], 0)"
  by (induction ts) (auto simp: waiting_def waits_legally_def not_satisfied_0)

lemma serve_subset: "event_serve flags ws = (served, left) \<Longrightarrow> left AND NOT flags = 0"
proof (induction flags ws arbitrary: served left rule: event_serve.induct)
  case (2 flags t interested opt ws)
  have trans: "x AND NOT z = 0" if "x AND NOT y = 0" "y AND NOT z = 0" for x y z :: u32
    using that by (auto simp: bit_eq_iff bit_simps)
  show ?case
    using 2 remaining_subset[of flags interested opt] trans[of left "remaining flags interested opt" flags]
    by (auto split: if_splits prod.splits)
qed simp

lemma serve_members: "event_serve flags ws = (served, left) \<Longrightarrow> fst ` set served \<subseteq> fst ` set ws"
proof (induction flags ws arbitrary: served left rule: event_serve.induct)
  case (2 flags t interested opt ws)
  then show ?case by (cases "satisfied flags interested opt") (force split: prod.splits)+
qed simp

text \<open>A task that was not served is not satisfied by what is left.\<close>

lemma serve_unsatisfied:
  assumes "event_serve flags ws = (served, left)" "(t, interested, opt) \<in> set ws" "distinct (map fst ws)" "t \<notin> fst ` set served"
  shows "\<not> satisfied left interested opt"
  using assms
proof (induction flags ws arbitrary: served left rule: event_serve.induct)
  case (2 flags t' i' o' ws)
  show ?case
  proof (cases "satisfied flags i' o'")
    case False
    then have r: "event_serve flags ws = (served, left)" using 2(3) by simp
    show ?thesis
    proof (cases "t = t'")
      case True
      then have "interested = i'" "opt = o'" using 2(4,5) by force+
      then show ?thesis using satisfied_mono[OF serve_subset[OF r]] False by blast
    next
      case ne: False
      then show ?thesis using 2(2)[OF False r] 2(4-6) by simp
    qed
  next
    case True
    obtain served' where r: "event_serve (remaining flags i' o') ws = (served', left)" "served = (t', received flags i' o') # served'"
      using 2(3) True by (auto split: prod.splits)
    then show ?thesis using 2(1)[OF True r(1)] 2(4-6) by simp
  qed
qed simp

subsection \<open>A send serves the waiting tasks\<close>

definition served_tcb :: "u32 \<Rightarrow> os_task \<Rightarrow> os_task" where
  "served_tcb r x = (woken_tcb (x\<lparr>event_set := r\<rparr>))\<lparr>block_list_head := None\<rparr>"

definition after_serving :: "(tid \<times> u32) list \<Rightarrow> kernel \<Rightarrow> tid \<Rightarrow> os_task" where
  "after_serving served k t = (case map_of served t of None \<Rightarrow> tasks k t | Some r \<Rightarrow> served_tcb r (tasks k t))"

lemma harmless_event [simp]: "harmless (\<lambda>x. x\<lparr>event_set := r\<rparr>)"
  "harmless (\<lambda>x. x\<lparr>event_set := r, event_option := op\<rparr>)"
  by (simp_all add: harmless_def)

lemma serve_one:
  assumes pre: "tick_pre i k" and t: "t \<in> set (task_lists k (WQ a))"
  shows "\<exists>k1. k_unblock_task t (upd_task t (\<lambda>x. x\<lparr>event_set := r\<rparr>) k) = OK k1 \<and>
    tick_keeps i k k1 (has_flag (tstate k1 t) OS_TASK_STATE_READY) \<and> tasks k1 = (tasks k)(t := served_tcb r (tasks k t)) \<and>
    task_lists k1 (WQ a) = removeAll t (task_lists k (WQ a)) \<and> (\<forall>v. v \<noteq> a \<longrightarrow> task_lists k1 (WQ v) = task_lists k (WQ v))"
proof -
  let ?k = "upd_task t (\<lambda>x. x\<lparr>event_set := r\<rparr>) k"
  have 1: "tick_keeps i k ?k False" by (rule keeps_harmless[OF pre]) simp
  have pre1: "tick_pre i ?k" using 1 by (simp add: tick_keeps_def)
  have t1: "t \<in> set (task_lists ?k (WQ a))" using t by simp
  note w = k_unblock_waiter[OF pre1 t1]
  have k: "tick_keeps i k (unblocked t ?k) (has_flag (tstate (unblocked t ?k) t) OS_TASK_STATE_READY)"
    by (rule tick_keeps_trans[OF 1 w(2)]) simp
  have other: "removeAll t (task_lists k (WQ v)) = task_lists k (WQ v)" if "v \<noteq> a" for v
    using that kinvD(4)[OF tick_preD(1)[OF pre], of t "WQ v"] kinvD(4)[OF tick_preD(1)[OF pre], of t "WQ a"] t by auto
  have "tasks (unblocked t ?k) = (tasks k)(t := served_tcb r (tasks k t))" by (simp add: fun_eq_iff served_tcb_def)
  then show ?thesis using w(1) k other by auto
qed

lemma serve_waiting:
  "event_serve flags (waiting k t # ws) =
     (if satisfied flags (event_set (tasks k t)) (event_option (tasks k t))
      then let (served, left) = event_serve (remaining flags (event_set (tasks k t)) (event_option (tasks k t))) ws
           in ((t, received flags (event_set (tasks k t)) (event_option (tasks k t))) # served, left)
      else event_serve flags ws)"
  by (simp add: waiting_def)

lemma event_wake_idle: "\<forall>t \<in> set ts. waits_legally k t \<Longrightarrow> event_wake ts (0, k, need) = OK (0, k, need)"
  by (cases ts) (auto simp: waits_legally_def flag_check_eq not_satisfied_0)

lemma event_wake_serves:
  assumes "tick_pre i k" "distinct ts" "set ts \<subseteq> set (task_lists k (WQ a))" "\<forall>t \<in> set ts. waits_legally k t"
    and "event_serve flags (map (waiting k) ts) = (served, left)"
  shows "\<exists>k' need'. event_wake ts (flags, k, need) = OK (left, k', need') \<and> (need \<longrightarrow> need') \<and> tick_keeps i k k' need' \<and>
    tasks k' = after_serving served k \<and>
    task_lists k' (WQ a) = filter (\<lambda>t. t \<notin> fst ` set served) (task_lists k (WQ a)) \<and>
    (\<forall>v. v \<noteq> a \<longrightarrow> task_lists k' (WQ v) = task_lists k (WQ v))"
  using assms
proof (induction ts arbitrary: k flags served left need)
  case Nil
  then show ?case by (auto simp: after_serving_def)
next
  case (Cons t ts)
  let ?i = "event_set (tasks k t)" and ?o = "event_option (tasks k t)"
  have legal: "legal_option ?o" "?i \<noteq> 0" using Cons.prems(4) by (simp_all add: waits_legally_def)
  note chk = flag_check_eq[OF legal, of flags]
  show ?case
  proof (cases "satisfied flags ?i ?o")
    case False
    then have sv: "event_serve flags (map (waiting k) ts) = (served, left)" using Cons.prems(5) by (simp add: serve_waiting)
    show ?thesis
    proof (cases "flags = 0")
      case True
      then have e: "served = []" "left = 0" using serve_0[of ts k] sv Cons.prems(4) by simp_all
      then show ?thesis
        using chk False True Cons.prems(1) by (auto simp: after_serving_def tick_keeps_def same_cpu_def)
    next
      case ne: False
      then show ?thesis using Cons.IH[OF Cons.prems(1) _ _ _ sv, of need] Cons.prems(2-4) chk False by simp
    qed
  next
    case True
    let ?r = "received flags ?i ?o" and ?f = "remaining flags ?i ?o"
    obtain served' where sv: "event_serve ?f (map (waiting k) ts) = (served', left)" "served = (t, ?r) # served'"
      using Cons.prems(5) True by (auto simp: serve_waiting split: prod.splits)
    have t: "t \<in> set (task_lists k (WQ a))" "t \<notin> set ts" using Cons.prems(2,3) by auto
    obtain k1 where k1: "k_unblock_task t (upd_task t (\<lambda>x. x\<lparr>event_set := ?r\<rparr>) k) = OK k1"
      "tick_keeps i k k1 (has_flag (tstate k1 t) OS_TASK_STATE_READY)" "tasks k1 = (tasks k)(t := served_tcb ?r (tasks k t))"
      "task_lists k1 (WQ a) = removeAll t (task_lists k (WQ a))" "\<And>v. v \<noteq> a \<Longrightarrow> task_lists k1 (WQ v) = task_lists k (WQ v)"
      using serve_one[OF Cons.prems(1) t(1), of ?r] by blast
    let ?n = "need \<or> has_flag (tstate k1 t) OS_TASK_STATE_READY"
    have pre1: "tick_pre i k1" using k1(2) by (simp add: tick_keeps_def)
    have same: "map (waiting k1) ts = map (waiting k) ts" "\<forall>t \<in> set ts. waits_legally k1 t"
      using t(2) Cons.prems(4) by (auto simp: waiting_def waits_legally_def k1(3))
    have sub: "set ts \<subseteq> set (task_lists k1 (WQ a))" using Cons.prems(3) t(2) by (auto simp: k1(4))
    have tn: "t \<notin> fst ` set served'" using serve_members[OF sv(1)] t(2) by (auto simp: waiting_def)
    obtain k' need' where r: "event_wake ts (?f, k1, ?n) = OK (left, k', need')" "?n \<longrightarrow> need'" "tick_keeps i k1 k' need'"
      "tasks k' = after_serving served' k1" "task_lists k' (WQ a) = filter (\<lambda>t. t \<notin> fst ` set served') (task_lists k1 (WQ a))"
      "\<And>v. v \<noteq> a \<Longrightarrow> task_lists k' (WQ v) = task_lists k1 (WQ v)"
      using Cons.IH[OF pre1 _ sub same(2) _, of ?f served' left ?n] Cons.prems(2) sv(1) same(1) by auto
    have run: "event_wake (t # ts) (flags, k, need) = OK (left, k', need')"
    proof (cases "?f = 0")
      case True
      have "served' = []" "left = 0" using serve_0[of ts k] sv(1) Cons.prems(4) True by simp_all
      moreover have "event_wake ts (?f, k1, ?n) = OK (?f, k1, ?n)" 
        using True same(2) event_wake_idle[of ts k1 "?n"] by simp
      ultimately show ?thesis using chk \<open>satisfied flags ?i ?o\<close> k1(1) r(1) True by auto
    next
      case False
      then show ?thesis using chk True k1(1) r(1) by simp
    qed
    have "after_serving served' k1 = after_serving served k"
      using map_of_eq_None_iff[of served' t] tn by (simp add: after_serving_def fun_eq_iff k1(3) sv(2) split: option.split)
    moreover have "filter (\<lambda>t. t \<notin> fst ` set served') (removeAll t (task_lists k (WQ a))) =
        filter (\<lambda>t. t \<notin> fst ` set served) (task_lists k (WQ a))"
      by (auto simp: sv(2) removeAll_filter_not_eq intro!: filter_cong)
    moreover have "tick_keeps i k k' need'" by (rule tick_keeps_trans[OF k1(2) r(3)]) (use r(2) in auto)
    ultimately show ?thesis using run r k1(4,5) by auto
  qed
qed

subsection \<open>Invariant\<close>

text \<open>
  A task that waits on a live event asked for something and is not satisfied by the flags
  that are set; waiters are in priority order unless the event is first-come first-served.
\<close>

definition event_ok :: "os_event \<Rightarrow> nat \<Rightarrow> kernel \<Rightarrow> bool" where
  "event_ok x a k \<longleftrightarrow> (\<forall>t \<in> set (task_lists k (WQ a)). waits_legally k t \<and>
       \<not> satisfied (ev_set x) (event_set (tasks k t)) (event_option (tasks k t))) \<and>
     (ev_wake_type x = WAKE_TYPE_PRIO \<longrightarrow> prio_sorted k a)"

definition live_event :: "event_sys \<Rightarrow> nat \<Rightarrow> bool" where
  "live_event s a \<longleftrightarrow> ev_object_inited (events s a) = OS_KOBJ_INITED"

definition event_inv :: "event_sys \<Rightarrow> kernel \<Rightarrow> bool" where
  "event_inv s k \<longleftrightarrow> (\<forall>a. live_event s a \<longrightarrow> event_ok (events s a) a k)"

lemma event_okD: "event_inv s k \<Longrightarrow> live_event s a \<Longrightarrow> event_ok (events s a) a k"
  by (simp add: event_inv_def)

lemma event_ok_frame:
  assumes "event_ok x a k" "task_lists k' (WQ a) = task_lists k (WQ a)" "\<And>t. prio k' t = prio k t"
    and "\<And>t. t \<in> set (task_lists k (WQ a)) \<Longrightarrow> event_set (tasks k' t) = event_set (tasks k t) \<and> event_option (tasks k' t) = event_option (tasks k t)"
  shows "event_ok x a k'"
  using assms by (auto simp: event_ok_def prio_sorted_def waits_legally_def)

lemma event_invI:
  assumes inv: "event_inv s k" and "\<And>b. b \<noteq> a \<Longrightarrow> events s' b = events s b"
    and "\<And>b. b \<noteq> a \<Longrightarrow> task_lists k' (WQ b) = task_lists k (WQ b)" "\<And>t. prio k' t = prio k t"
    and "\<And>b t. b \<noteq> a \<Longrightarrow> t \<in> set (task_lists k (WQ b)) \<Longrightarrow>
       event_set (tasks k' t) = event_set (tasks k t) \<and> event_option (tasks k' t) = event_option (tasks k t)"
    and "live_event s' a \<Longrightarrow> event_ok (events s' a) a k'"
  shows "event_inv s' k'"
  unfolding event_inv_def
proof (intro allI impI)
  fix b assume b: "live_event s' b"
  show "event_ok (events s' b) b k'"
  proof (cases "b = a")
    case False
    then have "event_ok (events s b) b k" using b inv assms(2) by (simp add: event_inv_def live_event_def)
    then show ?thesis using event_ok_frame[of "events s b" b k k'] assms(2-5) False by simp
  qed (use assms(6) b in simp)
qed

lemma event_inv_resource [simp]: "event_inv (s\<lparr>event_resource_list := r\<rparr>) k \<longleftrightarrow> event_inv s k"
  by (simp add: event_inv_def live_event_def)

lemma upd_event_resource [simp]: "upd_event a f (s\<lparr>event_resource_list := r\<rparr>) = (upd_event a f s)\<lparr>event_resource_list := r\<rparr>"
  by (simp add: upd_event_def)

text \<open>Changes of one event that neither set flags nor reorder its waiters.\<close>

lemma event_inv_upd:
  assumes "event_inv s k" "live_event (upd_event a f s) a \<Longrightarrow> event_ok (f (events s a)) a k"
  shows "event_inv (upd_event a f s) k"
  by (rule event_invI[OF assms(1), of a]) (use assms(2) in auto)

lemma event_ok_shrink:
  assumes "event_ok x a k" "ev_set y AND NOT (ev_set x) = 0" "ev_wake_type y = ev_wake_type x"
  shows "event_ok y a k"
  using assms satisfied_mono[OF assms(2)] by (auto simp: event_ok_def)

subsection \<open>Every call keeps the invariants\<close>

lemma k_event_init_inv:
  assumes "event_inv s k" "task_lists k (WQ a) = []" "k_event_init a nm al (s, k) = (s', k')"
  shows "event_inv s' k' \<and> k' = k"
proof -
  have k: "k' = k" using assms(2,3) empty_list_upd[OF assms(2)] by (auto simp: k_event_init_def)
  have "event_inv s' k"
    by (rule event_invI[OF assms(1), of a]) (use assms(2,3) in \<open>auto simp: k_event_init_def event_ok_def prio_sorted_def\<close>)
  then show ?thesis using k by simp
qed

lemma os_event_init_safe:
  assumes s: "settled i k" and inv: "event_inv s k" and l: "task_lists k (WQ a) = []"
  shows "svc_safe event_inv i (os_event_init a nm (s, k))"
proof -
  obtain s' k' where e: "k_event_init a nm OS_KOBJ_ALLOC_TYPE_STATIC (s\<lparr>event_resource_list := event_resource_list s @ [a]\<rparr>, k) = (s', k')"
    by (metis prod.collapse)
  show ?thesis
    using k_event_init_inv[OF _ l e] inv settledD(1)[OF s] by (auto simp: os_event_init_def e)
qed

lemma os_event_create_safe:
  assumes s: "settled i k" and inv: "event_inv s k" and mem: "\<And>a. mem = Some a \<Longrightarrow> task_lists k (WQ a) = []"
  shows "svc_safe event_inv i (os_event_create nm mem (s, k))"
proof (cases mem)
  case (Some a)
  obtain s' k' where e: "k_event_init a nm OS_KOBJ_ALLOC_TYPE_DYNAMIC (s\<lparr>event_resource_list := event_resource_list s @ [a]\<rparr>, k) = (s', k')"
    by (metis prod.collapse)
  show ?thesis
    using k_event_init_inv[OF _ mem[OF Some] e] inv settledD(1)[OF s]
    by (auto simp: os_event_create_def task_context_def Some e)
qed (use settledD(1)[OF s] inv in \<open>auto simp: os_event_create_def task_context_def\<close>)

lemma event_dispose_safe:
  assumes s: "settled i k" and inv: "event_inv s k"
  shows "svc_safe event_inv i (event_dispose a (s, k))"
proof -
  obtain k' where k': "k_cancle_all_blocked_task a k = OK k'" "krun i (k_kernel_exit_sched k')"
    "\<And>v. v \<noteq> a \<Longrightarrow> task_lists k' (WQ v) = task_lists k (WQ v)"
    "tasks k' = (\<lambda>t. if t \<in> set (task_lists k (WQ a)) then cancelled_tcb (tasks k t) else tasks k t)"
    using cancel_run[OF s, of a] by blast
  have "event_inv (upd_event a (\<lambda>x. x\<lparr>ev_object_inited := OS_KOBJ_DEINITED, ev_set := 0\<rparr>) s) (k_kernel_exit_sched k')"
    by (rule event_invI[OF inv, of a])
       (use k' in \<open>auto simp: cancelled_tcb_def woken_tcb_def Let_def live_event_def OS_KOBJ_INITED_def OS_KOBJ_DEINITED_def\<close>)
  then show ?thesis using k' by (simp add: event_dispose_def Let_def)
qed

text \<open>What a send leaves, on every field.\<close>

lemma os_event_send_serves:
  assumes s: "settled i k" and inv: "event_inv s k" and live: "live_event s a" and f: "flags \<noteq> 0"
    and sv: "event_serve (ev_set (events s a) OR flags) (map (waiting k) (task_lists k (WQ a))) = (served, left)"
  shows "\<exists>k'. os_event_send a flags (s, k) = OK ((upd_event a (\<lambda>x. x\<lparr>ev_set := left\<rparr>) s, k'), OS_EOK) \<and> krun i k' \<and>
    tasks k' = after_serving served k \<and>
    task_lists k' (WQ a) = filter (\<lambda>t. t \<notin> fst ` set served) (task_lists k (WQ a)) \<and>
    (\<forall>v. v \<noteq> a \<longrightarrow> task_lists k' (WQ v) = task_lists k (WQ v))"
proof -
  note ok = event_okD[OF inv live]
  obtain k1 need where k1: "event_wake (task_lists k (WQ a)) (ev_set (events s a) OR flags, k, False) = OK (left, k1, need)"
    "tick_keeps i k k1 need" "tasks k1 = after_serving served k"
    "task_lists k1 (WQ a) = filter (\<lambda>t. t \<notin> fst ` set served) (task_lists k (WQ a))"
    "\<forall>v. v \<noteq> a \<longrightarrow> task_lists k1 (WQ v) = task_lists k (WQ v)"
    using event_wake_serves[OF settled_tick_pre[OF s] kinvD(2)[OF settledD(3)[OF s]] order_refl _ sv, of False] ok
    by (auto simp: event_ok_def)
  have "krun i (exit_if need k1)" using krun_of_keeps(1)[OF settledD(1)[OF s] k1(2)] by (simp add: exit_if_def)
  then show ?thesis using k1 live f by (simp add: os_event_send_def live_event_def)
qed

lemma after_serving_prio: "current_priority (after_serving served k t) = prio k t"
  by (simp add: after_serving_def served_tcb_def split: option.split)

lemma after_serving_same: "t \<notin> fst ` set served \<Longrightarrow> after_serving served k t = tasks k t"
  using map_of_eq_None_iff[of served t] by (simp add: after_serving_def)

lemma served_waiting: "event_serve flags (map (waiting k) ts) = (served, left) \<Longrightarrow> fst ` set served \<subseteq> set ts"
  using serve_members[of flags "map (waiting k) ts" served left] by (auto simp: waiting_def)

lemma served_ok:
  assumes inv: "kinv i k" and ok: "event_ok x a k" and sv: "event_serve flags (map (waiting k) (task_lists k (WQ a))) = (served, left)"
    and k': "tasks k' = after_serving served k" "task_lists k' (WQ a) = filter (\<lambda>t. t \<notin> fst ` set served) (task_lists k (WQ a))"
  shows "event_ok (x\<lparr>ev_set := left\<rparr>) a k'"
proof -
  have d: "distinct (map fst (map (waiting k) (task_lists k (WQ a))))"
    using kinvD(2)[OF inv, of "WQ a"] by (simp add: waiting_def comp_def)
  have "\<not> satisfied left (event_set (tasks k t)) (event_option (tasks k t))"
    if "t \<in> set (task_lists k (WQ a))" "t \<notin> fst ` set served" for t
    by (rule serve_unsatisfied[OF sv _ d that(2)]) (use that(1) in \<open>auto simp: waiting_def\<close>)
  then show ?thesis
    using ok by (auto simp: event_ok_def waits_legally_def k' after_serving_same prio_sorted_def after_serving_prio
        intro: sorted_wrt_filter)
qed

lemma os_event_send_safe:
  assumes s: "settled i k" and inv: "event_inv s k"
  shows "svc_safe event_inv i (os_event_send a flags (s, k))"
proof (cases "live_event s a \<and> flags \<noteq> 0")
  case True
  obtain served left where sv: "event_serve (ev_set (events s a) OR flags) (map (waiting k) (task_lists k (WQ a))) = (served, left)"
    by fastforce
  obtain k' where k': "os_event_send a flags (s, k) = OK ((upd_event a (\<lambda>x. x\<lparr>ev_set := left\<rparr>) s, k'), OS_EOK)" "krun i k'"
    "tasks k' = after_serving served k" "task_lists k' (WQ a) = filter (\<lambda>t. t \<notin> fst ` set served) (task_lists k (WQ a))"
    "\<And>v. v \<noteq> a \<Longrightarrow> task_lists k' (WQ v) = task_lists k (WQ v)"
    using os_event_send_serves[OF s inv _ _ sv] True by blast
  have "event_inv (upd_event a (\<lambda>x. x\<lparr>ev_set := left\<rparr>) s) k'"
  proof (rule event_invI[OF inv, of a])
    fix b t assume b: "b \<noteq> a" "t \<in> set (task_lists k (WQ b))"
    then have "t \<notin> fst ` set served"
      using served_waiting[OF sv] kinvD(4)[OF settledD(3)[OF s], of t "WQ a"] kinvD(4)[OF settledD(3)[OF s], of t "WQ b"] by auto
    then show "event_set (tasks k' t) = event_set (tasks k t) \<and> event_option (tasks k' t) = event_option (tasks k t)"
      by (simp add: k'(3) after_serving_same)
  qed (use k'(3,5) served_ok[OF settledD(3)[OF s] event_okD[OF inv] sv k'(3,4)] True in \<open>auto simp: after_serving_prio\<close>)
  then show ?thesis using k'(1,2) by simp
qed (auto simp: os_event_send_def live_event_def)

lemma wait_option_legal:
  assumes "\<not> (opt AND (OS_EVENT_OPTION_OR OR OS_EVENT_OPTION_AND) = OS_EVENT_OPTION_OR OR OS_EVENT_OPTION_AND \<or>
     opt AND (OS_EVENT_OPTION_OR OR OS_EVENT_OPTION_AND) = 0)"
  shows "legal_option opt"
proof -
  have "opt AND (OS_EVENT_OPTION_OR OR OS_EVENT_OPTION_AND) =
      (opt AND OS_EVENT_OPTION_OR) OR (opt AND OS_EVENT_OPTION_AND)"
    by (rule bit.conj_disj_distrib)
  then show ?thesis using assms by (auto simp: legal_option_def has_flag_def)
qed

lemma event_block_inv:
  assumes s: "settled i k" and inv: "event_inv s k" and live: "live_event s a" and c: "current_task k = Some c"
    and legal: "legal_option opt" "interested \<noteq> 0" "\<not> satisfied (ev_set (events s a)) interested opt"
    and k1: "task_lists k1 = wait_insert (WQ a) c (ev_wake_type (events s a) = WAKE_TYPE_PRIO) k"
    "tasks k1 = (tasks k)(c := blocked_tcb (WQ a) timeout wp now ((tasks k c)\<lparr>event_set := interested, event_option := opt\<rparr>))"
  shows "event_inv s k1"
proof (rule event_invI[OF inv, of a])
  note K = settledD(3)[OF s] and r = settled_ready[OF s c]
  have p: "prio k1 t = prio k t" for t by (simp add: k1(2))
  then show "prio k1 t = prio k t" for t .
  show "task_lists k1 (WQ b) = task_lists k (WQ b)" if "b \<noteq> a" for b
    using that ready_not_waiting[OF K r] by (simp add: k1(1) wait_insert_other)
  show "event_set (tasks k1 t) = event_set (tasks k t) \<and> event_option (tasks k1 t) = event_option (tasks k t)"
    if "t \<in> set (task_lists k (WQ b))" for b t
    using that ready_not_waiting[OF K r, of b] by (auto simp: k1(2))
  have new: "event_set (tasks k1 c) = interested" "event_option (tasks k1 c) = opt"
    by (simp_all add: k1(2) blocked_tcb_def Let_def)
  have old: "tasks k1 t = tasks k t" if "t \<noteq> c" for t using that by (simp add: k1(2))
  have "waits_legally k1 t \<and> \<not> satisfied (ev_set (events s a)) (event_set (tasks k1 t)) (event_option (tasks k1 t))"
    if "t \<in> set (task_lists k1 (WQ a))" for t
    using that event_okD[OF inv live] legal new old by (cases "t = c") (auto simp: k1(1) event_ok_def waits_legally_def)
  moreover have "prio_sorted k1 a" if "ev_wake_type (events s a) = WAKE_TYPE_PRIO"
    using prio_sorted_wait_insert[OF K r, of a k1] event_okD[OF inv live] that p by (simp add: k1(1) event_ok_def)
  ultimately show "event_ok (events s a) a k1" by (simp add: event_ok_def)
qed auto

text \<open>The branches of a receive that is not rejected.\<close>

lemma os_event_recv_branches:
  assumes s: "settled i k" and inv: "event_inv s k" and live: "live_event s a" and c: "current_task k = Some c" "c \<noteq> i"
    and ctx: "wait_context timeout k (OK ()) = OK ()" and ask: "interested \<noteq> 0"
    and opt: "\<not> (opt AND (OS_EVENT_OPTION_OR OR OS_EVENT_OPTION_AND) = OS_EVENT_OPTION_OR OR OS_EVENT_OPTION_AND \<or>
      opt AND (OS_EVENT_OPTION_OR OR OS_EVENT_OPTION_AND) = 0)"
  shows "if satisfied (ev_set (events s a)) interested opt then
      os_event_recv a interested opt timeout (s, k) =
        OK ((upd_event a (\<lambda>x. x\<lparr>ev_set := remaining (ev_set x) interested opt\<rparr>) s, k),
          Returns (OS_EOK, Some (received (ev_set (events s a)) interested opt)))
    else if timeout = OS_NO_WAIT then os_event_recv a interested opt timeout (s, k) = OK ((s, k), Returns (OS_EEMPTY, None))
    else \<exists>k1. os_event_recv a interested opt timeout (s, k) = OK ((s, k1), Blocks) \<and> krun i k1 \<and> event_inv s k1 \<and>
      set (task_lists k1 (WQ a)) = insert c (set (task_lists k (WQ a))) \<and> \<not> has_flag (tstate k1 c) OS_TASK_STATE_READY \<and>
      waiting k1 c = (c, interested, opt) \<and> (\<forall>t. t \<noteq> c \<longrightarrow> tasks k1 t = tasks k t)"
proof -
  let ?x = "events s a" and ?wp = "ev_wake_type (events s a) = WAKE_TYPE_PRIO"
  let ?f = "\<lambda>x. x\<lparr>event_set := interested, event_option := opt\<rparr>"
  note legal = wait_option_legal[OF opt] and chk = flag_check_eq[OF wait_option_legal[OF opt] ask, of "ev_set ?x"]
  have ctx': "wait_context timeout k m = m" for m :: "((event_sys \<times> kernel) \<times> (os_err \<times> u32 option) outcome) res"
    using ctx by (auto simp: wait_context_def os_assert_def split: if_splits)
  have same: "upd_event a (\<lambda>x. x\<lparr>ev_set := ev_set ?x\<rparr>) s = s" by (simp add: upd_event_def fun_upd_idem)
  have eq: "upd_event a (\<lambda>x. x\<lparr>ev_set := remaining (ev_set ?x) interested opt\<rparr>) s =
      upd_event a (\<lambda>x. x\<lparr>ev_set := remaining (ev_set x) interested opt\<rparr>) s" by (simp add: upd_event_def)
  have "\<exists>k1. block_with a timeout ?wp ?f k = OK k1 \<and> krun i k1 \<and> event_inv s k1 \<and>
      set (task_lists k1 (WQ a)) = insert c (set (task_lists k (WQ a))) \<and> \<not> has_flag (tstate k1 c) OS_TASK_STATE_READY \<and>
      waiting k1 c = (c, interested, opt) \<and> (\<forall>t. t \<noteq> c \<longrightarrow> tasks k1 t = tasks k t)"
    if w: "\<not> satisfied (ev_set ?x) interested opt" "timeout \<noteq> OS_NO_WAIT"
  proof -
    have free: "sched_lock_cnt k = 0"
      using ctx w(2) by (auto simp: wait_context_def os_is_schedule_locked_def res_simps)
    obtain k1 where k1: "block_with a timeout ?wp ?f k = OK k1" "krun i k1" "task_lists k1 = wait_insert (WQ a) c ?wp k"
      "tasks k1 = (tasks k)(c := blocked_tcb (WQ a) timeout ?wp (os_tick k) (?f (tasks k c)))"
      using block_with_run[OF s c free harmless_event(2), of a timeout ?wp] by blast
    have "set (task_lists k1 (WQ a)) = insert c (set (task_lists k (WQ a)))" by (auto simp: k1(3))
    then show ?thesis
      using k1 event_block_inv[OF s inv live c(1) legal ask w(1) k1(3,4)]
      by (simp add: waiting_def blocked_tcb_def Let_def flag_simps)
  qed
  moreover have "os_event_recv a interested opt timeout (s, k) =
      (if satisfied (ev_set ?x) interested opt then
         OK ((upd_event a (\<lambda>x. x\<lparr>ev_set := remaining (ev_set x) interested opt\<rparr>) s, k),
           Returns (OS_EOK, Some (received (ev_set ?x) interested opt)))
       else if timeout = OS_NO_WAIT then OK ((s, k), Returns (OS_EEMPTY, None))
       else bind_res (block_with a timeout ?wp ?f k) (\<lambda>k1. OK ((s, k1), Blocks)))"
    unfolding os_event_recv_def using live ask opt chk by (simp add: ctx' live_event_def Let_def same eq)
  ultimately show ?thesis by auto
qed

lemma os_event_recv_safe:
  assumes s: "settled i k" and inv: "event_inv s k" and c: "current_task k \<noteq> Some i"
  shows "svc_safe event_inv i (os_event_recv a interested opt timeout (s, k))"
proof (cases "live_event s a \<and> wait_context timeout k (OK ()) = OK () \<and> interested \<noteq> 0")
  case True
  let ?bad = "opt AND (OS_EVENT_OPTION_OR OR OS_EVENT_OPTION_AND) = OS_EVENT_OPTION_OR OR OS_EVENT_OPTION_AND \<or>
      opt AND (OS_EVENT_OPTION_OR OR OS_EVENT_OPTION_AND) = 0"
  show ?thesis
  proof (cases ?bad)
    case bad: True
    then show ?thesis using settledD(1)[OF s] inv by (auto simp: os_event_recv_def wait_context_def)
  next
    case False
    obtain c where c': "current_task k = Some c" "c \<noteq> i" using settledD(6)[OF s] c by auto
    have "event_inv (upd_event a (\<lambda>x. x\<lparr>ev_set := remaining (ev_set x) interested opt\<rparr>) s) k"
      by (rule event_inv_upd[OF inv], rule event_ok_shrink)
         (use event_okD[OF inv, of a] True remaining_subset in auto)
    then show ?thesis
      using os_event_recv_branches[OF s inv _ c' _ _ False, of a timeout interested] True settledD(1)[OF s] inv
      by (auto split: if_splits)
  qed
qed (auto simp: os_event_recv_def live_event_def wait_context_def os_assert_def)

lemma os_event_clear_safe:
  assumes s: "settled i k" and inv: "event_inv s k"
  shows "svc_safe event_inv i (os_event_clear a interested (s, k))"
proof -
  have "event_inv (upd_event a (\<lambda>x. x\<lparr>ev_set := ev_set x AND NOT interested\<rparr>) s) k" if "live_event s a"
    by (rule event_inv_upd[OF inv], rule event_ok_shrink[OF event_okD[OF inv that]])
       (simp_all add: bit_eq_iff bit_simps)
  then show ?thesis using settledD(1)[OF s] by (auto simp: os_event_clear_def live_event_def)
qed

lemma os_event_set_wake_type_safe:
  assumes s: "settled i k" and inv: "event_inv s k"
  shows "svc_safe event_inv i (os_event_set_wake_type a wt (s, k))"
proof -
  have "event_inv (upd_event a (\<lambda>x. x\<lparr>ev_wake_type := wt\<rparr>) s) k" if "task_lists k (WQ a) = []"
    by (rule event_inv_upd[OF inv]) (use that in \<open>simp add: event_ok_def prio_sorted_def\<close>)
  then show ?thesis unfolding os_event_set_wake_type_def using settledD(1)[OF s] inv by auto
qed

subsection \<open>The events as a service\<close>

datatype event_call = Event_init nat "string option" | Event_create "string option" "nat option"
  | Event_deinit nat | Event_destroy nat | Event_send nat u32 | Event_recv nat u32 u32 u32
  | Event_clear nat u32 | Event_set_wake_type nat u8

definition no_flags :: "(('s \<times> kernel) \<times> os_err) res \<Rightarrow> (('s \<times> kernel) \<times> (os_err \<times> u32 option) outcome) res" where
  "no_flags m = bind_res m (\<lambda>(sk, r). OK (sk, Returns (r, None)))"

lemma svc_safe_no_flags: "svc_safe oinv i m \<Longrightarrow> svc_safe oinv i (no_flags m)"
  unfolding no_flags_def by (rule svc_safe_bind)

definition event_service :: "(event_sys, event_call, (os_err \<times> u32 option) outcome) service" where
  "event_service x sk = (case x of
     Event_init a nm \<Rightarrow> no_flags (os_event_init a nm sk)
   | Event_create nm mem \<Rightarrow> bind_res (os_event_create nm mem sk) (\<lambda>(sk1, a).
       OK (sk1, Returns (if a = None then OS_ENOMEM else OS_EOK, None)))
   | Event_deinit a \<Rightarrow> no_flags (os_event_deinit a sk)
   | Event_destroy a \<Rightarrow> no_flags (os_event_destroy a sk)
   | Event_send a flags \<Rightarrow> no_flags (os_event_send a flags sk)
   | Event_recv a interested opt timeout \<Rightarrow> os_event_recv a interested opt timeout sk
   | Event_clear a interested \<Rightarrow> no_flags (os_event_clear a interested sk)
   | Event_set_wake_type a wt \<Rightarrow> no_flags (os_event_set_wake_type a wt sk))"

text \<open>The idle task never waits, and a new event does not take over a wait list in use.\<close>

definition event_allowed :: "tid \<Rightarrow> event_call \<Rightarrow> event_sys \<Rightarrow> kernel \<Rightarrow> bool" where
  "event_allowed i x s k = (case x of
     Event_init a nm \<Rightarrow> task_lists k (WQ a) = []
   | Event_create nm mem \<Rightarrow> (case mem of None \<Rightarrow> True | Some a \<Rightarrow> task_lists k (WQ a) = [])
   | Event_recv a interested opt timeout \<Rightarrow> current_task k \<noteq> Some i
   | _ \<Rightarrow> True)"

lemma event_service_safe:
  assumes s: "settled i k" and inv: "event_inv s k" and a: "event_allowed i x s k"
  shows "svc_safe event_inv i (event_service x (s, k))"
proof (cases x)
  case (Event_create nm mem)
  then show ?thesis
    using a by (auto simp: event_service_def event_allowed_def intro!: svc_safe_bind os_event_create_safe[OF s inv])
next
  case (Event_deinit a)
  then show ?thesis
    using event_dispose_safe[OF s inv] by (auto simp: event_service_def os_event_deinit_def intro!: svc_safe_no_flags)
next
  case (Event_destroy a)
  then show ?thesis
    using event_dispose_safe[OF s inv]
    by (auto simp: event_service_def os_event_destroy_def task_context_def intro!: svc_safe_no_flags)
next
  case (Event_recv a interested opt timeout)
  then show ?thesis using a os_event_recv_safe[OF s inv] by (simp add: event_service_def event_allowed_def)
qed (use a os_event_init_safe[OF s inv] os_event_send_safe[OF s inv] os_event_clear_safe[OF s inv]
     os_event_set_wake_type_safe[OF s inv]
     in \<open>auto simp: event_service_def event_allowed_def intro!: svc_safe_no_flags\<close>)

lemma event_inv_dispatch: "event_inv s k \<Longrightarrow> krun i k \<Longrightarrow> dispatch k = OK k' \<Longrightarrow> event_inv s k'"
  using event_ok_frame[of _ _ k k'] unfolding event_inv_def by (simp add: dispatch_wait_frame)

interpretation event_srv: kernel_service event_service event_allowed "\<lambda>_. event_inv"
  by (rule kernel_service_svc, fact event_service_safe, fact event_inv_dispatch)

subsection \<open>Properties\<close>

definition bss_events :: event_sys where
  "bss_events = \<lparr>events = (\<lambda>_. \<lparr>ev_set = 0, ev_object_inited = 0, ev_object_alloc_type = 0, ev_wake_type = 0, ev_name = ''''\<rparr>),
     event_resource_list = []\<rparr>"

text \<open>An event at the sample's wait list, whose task 4 waits for both of the first two flags.\<close>

definition sample_events :: event_sys where
  "sample_events = upd_event 100 (\<lambda>x. x\<lparr>ev_set := 1, ev_object_inited := OS_KOBJ_INITED\<rparr>) bss_events"

definition sample_waiter :: kernel where
  "sample_waiter = upd_task 4 (\<lambda>x. x\<lparr>event_set := 3, event_option := OS_EVENT_OPTION_AND OR OS_EVENT_OPTION_CLEAR\<rparr>) sample"

lemma sample_waiter_settled: "settled 3 sample_waiter"
  unfolding sample_waiter_def by (rule settled_harmless[OF sample_settled harmless_event(2)])

lemmas event_eval = event_service_def no_flags_def os_event_recv_def os_event_clear_def event_wake.simps os_event_send_def
  k_event_flag_check_def has_flag_def OS_EVENT_OPTION_AND_def OS_EVENT_OPTION_OR_def OS_EVENT_OPTION_CLEAR_def

lemma sample_events_inv: "event_inv sample_events sample_waiter"
  by (simp add: event_inv_def live_event_def sample_events_def bss_events_def OS_KOBJ_INITED_def event_ok_def prio_sorted_def
      sample_waiter_def sample_lists_def waits_legally_def legal_option_def satisfied_def event_eval)

text \<open>
  C21. Events: any allowed sequence of calls stops in an assertion or keeps the scheduling
  invariant and that of the events: no task goes on waiting for flags that are set, and
  waiters are in priority order.
\<close>

theorem event_calls_leave_nobody_waiting:
  assumes "settled i k" "event_inv s k" "calls_allowed event_service (event_allowed i) xs (s, k)"
  shows "run_calls event_service xs (s, k) = Fault AssertFail \<or>
    (\<exists>s' k' rs. run_calls event_service xs (s, k) = OK ((s', k'), rs) \<and> settled i k' \<and> event_inv s' k' \<and>
      (\<forall>a t. live_event s' a \<and> t \<in> set (task_lists k' (WQ a)) \<longrightarrow>
         \<not> satisfied (ev_set (events s' a)) (event_set (tasks k' t)) (event_option (tasks k' t))))"
  using event_srv.run_settled[OF assms] by (fastforce dest: event_okD simp: event_ok_def)

theorem event_calls_leave_nobody_waiting_witness:
  "\<exists>s' k'. run_calls event_service [Event_recv 100 4 2 OS_WAIT_FOREVER, Event_clear 100 1, Event_send 100 3] (sample_events, sample_waiter) =
      OK ((s', k'), [Blocks, Returns (OS_EOK, None), Returns (OS_EOK, None)]) \<and>
    settled 3 k' \<and> event_inv s' k' \<and> task_lists k' (WQ 100) = [1] \<and> \<not> satisfied (ev_set (events s' 100)) 4 2"
proof -
  let ?xs = "[Event_recv 100 4 2 OS_WAIT_FOREVER, Event_clear 100 1, Event_send 100 3]"
  have al: "calls_allowed event_service (event_allowed 3) ?xs (sample_events, sample_waiter)"
    by (simp add: event_allowed_def sample_events_def bss_events_def sample_waiter_def upd_event_def event_eval wait_eval)
  have run: "\<exists>s' k'. run_calls event_service ?xs (sample_events, sample_waiter) =
      OK ((s', k'), [Blocks, Returns (OS_EOK, None), Returns (OS_EOK, None)]) \<and> task_lists k' (WQ 100) = [1] \<and>
      live_event s' 100 \<and> event_set (tasks k' 1) = 4 \<and> event_option (tasks k' 1) = 2"
    by (simp add: live_event_def sample_events_def bss_events_def sample_waiter_def upd_event_def event_eval wait_eval)
  show ?thesis
    using run event_calls_leave_nobody_waiting[OF sample_waiter_settled sample_events_inv al] by fastforce
qed

text \<open>
  C22. A send does what the reference does: it serves the waiting tasks in the order of the list,
  each with the flags that those before it left, although its loop stops as soon as no flag
  is left. Every served task leaves the list with the flags it received and is ready unless
  suspended; all others stay as they were.
\<close>

theorem event_send_serves_in_order:
  assumes "settled i k" "event_inv s k" "live_event s a" "flags \<noteq> 0"
    and "event_serve (ev_set (events s a) OR flags) (map (waiting k) (task_lists k (WQ a))) = (served, left)"
  shows "\<exists>s' k'. os_event_send a flags (s, k) = OK ((s', k'), OS_EOK) \<and> krun i k' \<and> ev_set (events s' a) = left \<and>
    task_lists k' (WQ a) = filter (\<lambda>t. t \<notin> fst ` set served) (task_lists k (WQ a)) \<and>
    (\<forall>t. t \<notin> fst ` set served \<longrightarrow> tasks k' t = tasks k t) \<and>
    (\<forall>t r. map_of served t = Some r \<longrightarrow> event_set (tasks k' t) = r \<and>
       (\<not> has_flag (tstate k t) OS_TASK_STATE_SUSPEND \<longrightarrow> tstate k' t = OS_TASK_STATE_READY))"
proof -
  obtain k' where k': "os_event_send a flags (s, k) = OK ((upd_event a (\<lambda>x. x\<lparr>ev_set := left\<rparr>) s, k'), OS_EOK)" "krun i k'"
    "tasks k' = after_serving served k" "task_lists k' (WQ a) = filter (\<lambda>t. t \<notin> fst ` set served) (task_lists k (WQ a))"
    using os_event_send_serves[OF assms] by blast
  have "event_set (tasks k' t) = r \<and> (\<not> has_flag (tstate k t) OS_TASK_STATE_SUSPEND \<longrightarrow> tstate k' t = OS_TASK_STATE_READY)"
    if m: "map_of served t = Some r" for t r
  proof -
    have "t \<in> fst ` set served" using map_of_SomeD[OF m] by force
    then have t: "t \<in> set (task_lists k (WQ a))" using served_waiting[OF assms(5)] by blast
    have "tasks k' t = served_tcb r (tasks k t)" using m by (simp add: k'(3) after_serving_def)
    moreover have "state (served_tcb r (tasks k t)) = tstate (unblocked t k) t"
      by (simp add: served_tcb_def woken_tcb_def Let_def)
    ultimately show ?thesis
      using unblocked_ready[OF settled_tick_pre[OF assms(1)] t] by (simp add: served_tcb_def woken_tcb_def Let_def)
  qed
  then show ?thesis using k' by (auto simp: after_serving_same)
qed

theorem event_send_serves_in_order_witness:
  "\<exists>s' k'. os_event_send 100 6 (sample_events, sample_waiter) = OK ((s', k'), OS_EOK) \<and> krun 3 k' \<and>
    ev_set (events s' 100) = 4 \<and> task_lists k' (WQ 100) = [] \<and> event_set (tasks k' 4) = 3 \<and> tstate k' 4 = OS_TASK_STATE_READY"
proof -
  have "live_event sample_events 100" by (simp add: live_event_def sample_events_def)
  moreover have "event_serve (ev_set (events sample_events 100) OR 6) (map (waiting sample_waiter) (task_lists sample_waiter (WQ 100))) =
      ([(4, 3)], 4)"
    by (simp add: sample_events_def bss_events_def sample_waiter_def waiting_def sample_lists_def satisfied_def received_def
        remaining_def event_eval)
  ultimately show ?thesis
    using event_send_serves_in_order[OF sample_waiter_settled sample_events_inv, of 100 6 "[(4, 3)]" 4]
    by (fastforce simp: sample_waiter_def sample_lists_def sample_tasks_def sample_tcb_def has_flag_def task_state_defs)
qed

text \<open>
  A receive with a legal option returns the flags at once when they satisfy it, taking them
  away if it asked for that; otherwise it returns \<^verbatim>\<open>OS_EEMPTY\<close> without waiting, or the
  caller, and nobody else, waits on the event's list with what it asked for.
\<close>

theorem event_recv_cases:
  assumes "settled i k" "event_inv s k" "live_event s a" "current_task k = Some c" "c \<noteq> i"
    and "wait_context timeout k (OK ()) = OK ()" "interested \<noteq> 0"
    and "has_flag opt OS_EVENT_OPTION_AND \<noteq> has_flag opt OS_EVENT_OPTION_OR"
  shows "if satisfied (ev_set (events s a)) interested opt then
      os_event_recv a interested opt timeout (s, k) =
        OK ((upd_event a (\<lambda>x. x\<lparr>ev_set := remaining (ev_set x) interested opt\<rparr>) s, k),
          Returns (OS_EOK, Some (received (ev_set (events s a)) interested opt)))
    else if timeout = OS_NO_WAIT then os_event_recv a interested opt timeout (s, k) = OK ((s, k), Returns (OS_EEMPTY, None))
    else \<exists>k1. os_event_recv a interested opt timeout (s, k) = OK ((s, k1), Blocks) \<and> krun i k1 \<and> event_inv s k1 \<and>
      set (task_lists k1 (WQ a)) = insert c (set (task_lists k (WQ a))) \<and> \<not> has_flag (tstate k1 c) OS_TASK_STATE_READY \<and>
      waiting k1 c = (c, interested, opt) \<and> (\<forall>t. t \<noteq> c \<longrightarrow> tasks k1 t = tasks k t)"
proof -
  have "opt AND 3 \<noteq> 3 \<and> opt AND 3 \<noteq> 0" if "(opt AND 1 \<noteq> 0) \<noteq> (opt AND 2 \<noteq> 0)" for opt :: u32
  proof -
    have "opt AND 3 = (opt AND 1) OR (opt AND 2)" using bit.conj_disj_distrib[of opt 1 2] by simp
    moreover have "opt AND 1 = 1 \<and> opt AND 2 = 2" if "opt AND 3 = 3"
      using arg_cong[OF that, of "\<lambda>x. x AND 1"] arg_cong[OF that, of "\<lambda>x. x AND 2"] by (simp add: and.assoc)
    ultimately show ?thesis using that by auto
  qed
  from this[of opt] have "\<not> (opt AND (OS_EVENT_OPTION_OR OR OS_EVENT_OPTION_AND) = OS_EVENT_OPTION_OR OR OS_EVENT_OPTION_AND \<or>
      opt AND (OS_EVENT_OPTION_OR OR OS_EVENT_OPTION_AND) = 0)"
    using assms(8) by (simp add: event_eval)
  from os_event_recv_branches[OF assms(1-7) this] show ?thesis .
qed

theorem event_recv_cases_witness:
  "os_event_recv 100 5 6 9 (sample_events, sample_waiter) =
     OK ((upd_event 100 (\<lambda>x. x\<lparr>ev_set := 0\<rparr>) sample_events, sample_waiter), Returns (OS_EOK, Some 1))"
proof -
  have ctx: "wait_context 9 sample_waiter (OK ()) = OK ()"
    by (simp add: wait_context_def OS_NO_WAIT_def os_is_schedule_locked_def OS_TICK_MAX_def sample_waiter_def)
  have "ev_set (events sample_events 100) = 1" "live_event sample_events 100"
    by (simp_all add: sample_events_def bss_events_def live_event_def)
  moreover have "upd_event 100 (\<lambda>x. x\<lparr>ev_set := remaining (ev_set x) 5 6\<rparr>) sample_events =
      upd_event 100 (\<lambda>x. x\<lparr>ev_set := 0\<rparr>) sample_events"
    by (simp add: upd_event_def sample_events_def bss_events_def remaining_def received_def event_eval)
  ultimately show ?thesis
    using event_recv_cases[OF sample_waiter_settled sample_events_inv _ _ _ ctx, of 100 1 5 6]
    by (simp add: sample_waiter_def satisfied_def received_def event_eval)
qed

end
