(* ===== verification/Ring_Buff.thy ===== *)
theory Ring_Buff
  imports Fifo_Ring
begin

text \<open>
  \<^verbatim>\<open>oneos/common/source/ring_buff.c\<close>: the byte ring of the drivers. Both indices stay below
  the size of the buffer; a mirror flag per index tells a full buffer from an empty one.
\<close>

record rb_ring_buff =
  buff :: "u8 list"
  buff_size :: u32
  read_index :: u32
  write_index :: u32
  read_mirror :: bool
  write_mirror :: bool

datatype rb_ring_buff_state_t = RB_RING_BUFF_EMPTY | RB_RING_BUFF_FULL | RB_RING_BUFF_HALF_FULL

definition rb_ring_buff_state :: "rb_ring_buff \<Rightarrow> rb_ring_buff_state_t" where
  "rb_ring_buff_state rb =
     (if read_index rb = write_index rb then
        (if read_mirror rb = write_mirror rb then RB_RING_BUFF_EMPTY else RB_RING_BUFF_FULL)
      else RB_RING_BUFF_HALF_FULL)"

text \<open>\<open>pool\<close> is the memory handed over, at least \<open>pool_size\<close> bytes of it.\<close>

definition rb_ring_buff_init :: "u8 list \<Rightarrow> u32 \<Rightarrow> rb_ring_buff res" where
  "rb_ring_buff_init pool pool_size = os_assert (pool_size \<noteq> 0)
     (OK \<lparr>buff = take (unat pool_size) pool, buff_size = pool_size, read_index = 0, write_index = 0,
          read_mirror = False, write_mirror = False\<rparr>)"

definition rb_ring_buff_reset :: "rb_ring_buff \<Rightarrow> rb_ring_buff" where
  "rb_ring_buff_reset rb = rb\<lparr>read_index := 0, write_index := 0, read_mirror := False, write_mirror := False\<rparr>"

text \<open>The two allocations are arguments; the size is rounded down to words.\<close>

definition rb_ring_buff_create :: "u32 \<Rightarrow> bool \<Rightarrow> u8 list option \<Rightarrow> rb_ring_buff option res" where
  "rb_ring_buff_create sz cb_ok pool = os_assert (0 < sz)
     (let size1 = sz AND NOT 3 in
      if \<not> cb_ok then OK None
      else case pool of None \<Rightarrow> OK None
           | Some p \<Rightarrow> bind_res (rb_ring_buff_init p size1) (\<lambda>rb. OK (Some rb)))"

definition rb_ring_buff_data_len :: "rb_ring_buff \<Rightarrow> u32" where
  "rb_ring_buff_data_len rb = (case rb_ring_buff_state rb of
     RB_RING_BUFF_EMPTY \<Rightarrow> 0
   | RB_RING_BUFF_FULL \<Rightarrow> buff_size rb
   | RB_RING_BUFF_HALF_FULL \<Rightarrow>
       (if read_index rb < write_index rb then write_index rb - read_index rb
        else buff_size rb - (read_index rb - write_index rb)))"

definition rb_ring_buff_space_len :: "rb_ring_buff \<Rightarrow> u32" where
  "rb_ring_buff_space_len rb = buff_size rb - rb_ring_buff_data_len rb"

subsection \<open>Blocks of bytes\<close>

definition rb_ring_buff_put :: "u8 list \<Rightarrow> rb_ring_buff \<Rightarrow> (rb_ring_buff \<times> u32) res" where
  "rb_ring_buff_put data rb = os_assert (data \<noteq> [])
     (let sz = rb_ring_buff_space_len rb in
      if sz = 0 then OK (rb, 0)
      else
        let len = (if sz < of_nat (length data) then sz else of_nat (length data));
            bytes = take (unat len) data;
            room = buff_size rb - write_index rb
        in if len < room
           then bind_res (mem_write (buff rb) (unat (write_index rb)) bytes) (\<lambda>b.
                  OK (rb\<lparr>buff := b, write_index := write_index rb + len\<rparr>, len))
           else bind_res (mem_write (buff rb) (unat (write_index rb)) (take (unat room) bytes)) (\<lambda>b1.
                bind_res (mem_write b1 0 (drop (unat room) bytes)) (\<lambda>b2.
                  OK (rb\<lparr>buff := b2, write_mirror := \<not> write_mirror rb, write_index := len - room\<rparr>, len))))"

definition rb_ring_buff_put_force :: "u8 list \<Rightarrow> rb_ring_buff \<Rightarrow> (rb_ring_buff \<times> u32) res" where
  "rb_ring_buff_put_force data rb = os_assert (data \<noteq> [])
     (let space = rb_ring_buff_space_len rb;
          bytes = (if buff_size rb < of_nat (length data) then drop (length data - unat (buff_size rb)) data else data);
          len = (of_nat (length bytes) :: u32);
          room = buff_size rb - write_index rb
      in if len < room
         then bind_res (mem_write (buff rb) (unat (write_index rb)) bytes) (\<lambda>b.
                let rb1 = rb\<lparr>buff := b, write_index := write_index rb + len\<rparr>
                in OK (if space < len then rb1\<lparr>read_index := write_index rb1\<rparr> else rb1, len))
         else bind_res (mem_write (buff rb) (unat (write_index rb)) (take (unat room) bytes)) (\<lambda>b1.
              bind_res (mem_write b1 0 (drop (unat room) bytes)) (\<lambda>b2.
                let rb1 = rb\<lparr>buff := b2, write_mirror := \<not> write_mirror rb, write_index := len - room\<rparr>
                in OK (if space < len
                       then rb1\<lparr>read_mirror := \<not> read_mirror rb1, read_index := write_index rb1\<rparr> else rb1, len))))"

definition rb_ring_buff_get :: "u32 \<Rightarrow> rb_ring_buff \<Rightarrow> (rb_ring_buff \<times> u8 list) res" where
  "rb_ring_buff_get buff_len rb = os_assert (buff_len \<noteq> 0)
     (let sz = rb_ring_buff_data_len rb in
      if sz = 0 then OK (rb, [])
      else
        let len = (if sz < buff_len then sz else buff_len);
            room = buff_size rb - read_index rb
        in if len < room
           then bind_res (mem_read (buff rb) (unat (read_index rb)) (unat len)) (\<lambda>xs.
                  OK (rb\<lparr>read_index := read_index rb + len\<rparr>, xs))
           else bind_res (mem_read (buff rb) (unat (read_index rb)) (unat room)) (\<lambda>xs.
                bind_res (mem_read (buff rb) 0 (unat (len - room))) (\<lambda>ys.
                  OK (rb\<lparr>read_mirror := \<not> read_mirror rb, read_index := len - room\<rparr>, xs @ ys))))"

subsection \<open>Single bytes\<close>

text \<open>An index moves on, and its mirror flips at the end of the buffer.\<close>

definition rb_advance_write :: "rb_ring_buff \<Rightarrow> rb_ring_buff" where
  "rb_advance_write rb =
     (if write_index rb = buff_size rb - 1 then rb\<lparr>write_mirror := \<not> write_mirror rb, write_index := 0\<rparr>
      else rb\<lparr>write_index := write_index rb + 1\<rparr>)"

definition rb_store :: "u8 \<Rightarrow> rb_ring_buff \<Rightarrow> rb_ring_buff res" where
  "rb_store ch rb = (if unat (write_index rb) < length (buff rb)
     then OK (rb\<lparr>buff := (buff rb)[unat (write_index rb) := ch]\<rparr>) else Fault OutOfRange)"

definition rb_ring_buff_put_char :: "u8 \<Rightarrow> rb_ring_buff \<Rightarrow> (rb_ring_buff \<times> u32) res" where
  "rb_ring_buff_put_char ch rb =
     (if rb_ring_buff_space_len rb = 0 then OK (rb, 0)
      else bind_res (rb_store ch rb) (\<lambda>rb1. OK (rb_advance_write rb1, 1)))"

definition rb_ring_buff_put_char_force :: "u8 \<Rightarrow> rb_ring_buff \<Rightarrow> (rb_ring_buff \<times> u32) res" where
  "rb_ring_buff_put_char_force ch rb =
     bind_res (rb_store ch rb) (\<lambda>rb1.
       let rb2 = rb_advance_write rb1; full = (rb_ring_buff_state rb = RB_RING_BUFF_FULL) in
       OK (if \<not> full then rb2
           else if write_index rb1 = buff_size rb1 - 1
           then rb2\<lparr>read_mirror := \<not> read_mirror rb2, read_index := write_index rb2\<rparr>
           else rb2\<lparr>read_index := write_index rb2\<rparr>, 1))"

definition rb_ring_buff_get_char :: "rb_ring_buff \<Rightarrow> (rb_ring_buff \<times> u8 option) res" where
  "rb_ring_buff_get_char rb =
     (if rb_ring_buff_data_len rb = 0 then OK (rb, None)
      else if unat (read_index rb) < length (buff rb) then
        OK (if read_index rb = buff_size rb - 1 then rb\<lparr>read_mirror := \<not> read_mirror rb, read_index := 0\<rparr>
            else rb\<lparr>read_index := read_index rb + 1\<rparr>, Some (buff rb ! unat (read_index rb)))
      else Fault OutOfRange)"

subsection \<open>Invariant and contents\<close>

definition rb_ok :: "rb_ring_buff \<Rightarrow> bool" where
  "rb_ok rb \<longleftrightarrow> 0 < buff_size rb \<and> length (buff rb) = unat (buff_size rb) \<and>
     read_index rb < buff_size rb \<and> write_index rb < buff_size rb \<and>
     (if read_mirror rb = write_mirror rb then read_index rb \<le> write_index rb else write_index rb \<le> read_index rb)"

definition rb_count :: "rb_ring_buff \<Rightarrow> nat" where
  "rb_count rb = (if read_mirror rb = write_mirror rb then unat (write_index rb) - unat (read_index rb)
     else unat (buff_size rb) - (unat (read_index rb) - unat (write_index rb)))"

definition rb_contents :: "rb_ring_buff \<Rightarrow> u8 list" where
  "rb_contents rb = ring_list (buff rb) (unat (read_index rb)) (rb_count rb)"

lemma length_rb_contents [simp]: "length (rb_contents rb) = rb_count rb"
  by (simp add: rb_contents_def)

lemma rb_count_less: "rb_ok rb \<Longrightarrow> rb_count rb \<le> unat (buff_size rb)"
  by (auto simp: rb_ok_def rb_count_def word_less_nat_alt)

lemma rb_data_len: "rb_ok rb \<Longrightarrow> unat (rb_ring_buff_data_len rb) = rb_count rb"
  by (auto simp: rb_ok_def rb_count_def rb_ring_buff_data_len_def rb_ring_buff_state_def unat_sub_if_size
      word_size word_less_nat_alt word_le_nat_alt word_unat_eq_iff split: if_splits)

lemma rb_space_len: "rb_ok rb \<Longrightarrow> unat (rb_ring_buff_space_len rb) = unat (buff_size rb) - rb_count rb"
  using rb_data_len[of rb] rb_count_less[of rb] by (simp add: rb_ring_buff_space_len_def unat_sub word_le_nat_alt)

lemma rb_okD:
  assumes "rb_ok rb"
  shows "length (buff rb) = unat (buff_size rb)" "unat (read_index rb) < unat (buff_size rb)"
    "unat (write_index rb) < unat (buff_size rb)" "0 < unat (buff_size rb)"
    "read_mirror rb = write_mirror rb \<Longrightarrow> unat (read_index rb) \<le> unat (write_index rb)"
    "read_mirror rb \<noteq> write_mirror rb \<Longrightarrow> unat (write_index rb) \<le> unat (read_index rb)"
  using assms by (auto simp: rb_ok_def word_less_nat_alt word_le_nat_alt)

lemma rb_okI:
  assumes "0 < unat (buff_size rb)" "length (buff rb) = unat (buff_size rb)"
    and "unat (read_index rb) < unat (buff_size rb)" "unat (write_index rb) < unat (buff_size rb)"
    and "read_mirror rb = write_mirror rb \<Longrightarrow> unat (read_index rb) \<le> unat (write_index rb)"
    and "read_mirror rb \<noteq> write_mirror rb \<Longrightarrow> unat (write_index rb) \<le> unat (read_index rb)"
  shows "rb_ok rb"
  using assms by (auto simp: rb_ok_def word_less_nat_alt word_le_nat_alt)

lemma rb_write_pos: "rb_ok rb \<Longrightarrow> unat (write_index rb) = (unat (read_index rb) + rb_count rb) mod unat (buff_size rb)"
  using rb_okD[of rb] by (auto simp: rb_count_def mod_if)

text \<open>
  The write index moves on by a number of bytes, over the end of the buffer or not; the
  bytes written there are appended to the contents.
\<close>

definition rb_moved :: "nat \<Rightarrow> u32 \<Rightarrow> bool \<Rightarrow> u32 \<Rightarrow> u32 \<Rightarrow> bool \<Rightarrow> bool" where
  "rb_moved sz ix mir n ix' mir' \<longleftrightarrow>
     (if unat ix + unat n < sz then unat ix' = unat ix + unat n \<and> mir' = mir
      else unat ix' = unat ix + unat n - sz \<and> mir' = (\<not> mir))"

lemma rb_append:
  assumes ok: "rb_ok rb" and n: "length xs = unat n" "rb_count rb + unat n \<le> unat (buff_size rb)"
    and w: "rb_moved (unat (buff_size rb)) (write_index rb) (write_mirror rb) n (write_index rb') (write_mirror rb')"
    and rb': "buff rb' = ring_write (buff rb) (unat (write_index rb)) xs" "buff_size rb' = buff_size rb"
      "read_index rb' = read_index rb" "read_mirror rb' = read_mirror rb"
  shows "rb_ok rb' \<and> rb_contents rb' = rb_contents rb @ xs \<and> rb_count rb' = rb_count rb + unat n"
proof -
  note d = rb_okD[OF ok]
  have "rb_ok rb'"
    by (rule rb_okI) (use d w n(2) rb' in \<open>auto simp: rb_moved_def rb_count_def split: if_splits\<close>)
  moreover have c: "rb_count rb' = rb_count rb + unat n"
    using d w n(2) rb' by (auto simp: rb_moved_def rb_count_def split: if_splits)
  moreover have "buff rb' = ring_write (buff rb) (unat (read_index rb) + rb_count rb) xs"
    using rb_write_pos[OF ok] ring_write_mod[of "buff rb" "unat (read_index rb) + rb_count rb" xs] d(1) rb'(1) by simp
  ultimately show ?thesis
    using ring_list_write[of "rb_count rb" xs "buff rb" "unat (read_index rb)"] n d(1) rb' by (simp add: rb_contents_def)
qed

lemma rb_consume:
  assumes ok: "rb_ok rb" and n: "unat n \<le> rb_count rb"
    and r: "rb_moved (unat (buff_size rb)) (read_index rb) (read_mirror rb) n (read_index rb') (read_mirror rb')"
    and rb': "buff rb' = buff rb" "buff_size rb' = buff_size rb" "write_index rb' = write_index rb" "write_mirror rb' = write_mirror rb"
  shows "rb_ok rb' \<and> rb_contents rb' = drop (unat n) (rb_contents rb) \<and> rb_count rb' = rb_count rb - unat n"
proof -
  note d = rb_okD[OF ok]
  have "rb_ok rb'"
    by (rule rb_okI) (use d r n rb' in \<open>auto simp: rb_moved_def rb_count_def split: if_splits\<close>)
  moreover have c: "rb_count rb' = rb_count rb - unat n"
    using d r n rb' by (auto simp: rb_moved_def rb_count_def split: if_splits)
  moreover have "unat (read_index rb') = (unat (read_index rb) + unat n) mod length (buff rb)"
    using r d n rb_count_less[OF ok] by (auto simp: rb_moved_def mod_if split: if_splits)
  ultimately show ?thesis
    using ring_list_mod[of "buff rb" "unat (read_index rb) + unat n"] by (simp add: rb_contents_def drop_ring_list rb')
qed

text \<open>The two ways an index moves in the code, against the end of the buffer.\<close>

lemma rb_room:
  assumes "unat ix < unat (sz :: u32)"
  shows "unat (sz - ix) = unat sz - unat ix" "n < sz - ix \<longleftrightarrow> unat ix + unat n < unat sz"
  using assms by (auto simp: unat_sub word_le_nat_alt word_less_nat_alt)

lemma rb_moved_room:
  assumes "unat ix < unat (sz :: u32)" "unat n \<le> unat sz"
  shows "n < sz - ix \<Longrightarrow> rb_moved (unat sz) ix mir n (ix + n) mir"
    "\<not> n < sz - ix \<Longrightarrow> rb_moved (unat sz) ix mir n (n - (sz - ix)) (\<not> mir)"
proof -
  note r = rb_room(1)[OF assms(1)] rb_room(2)[OF assms(1), of n]
  show "n < sz - ix \<Longrightarrow> rb_moved (unat sz) ix mir n (ix + n) mir"
    using r unat_u32[of sz] by (simp add: rb_moved_def unat_word_ariths)
  show "\<not> n < sz - ix \<Longrightarrow> rb_moved (unat sz) ix mir n (n - (sz - ix)) (\<not> mir)"
    using r assms by (simp add: rb_moved_def unat_sub word_le_nat_alt)
qed

lemma rb_moved_one:
  assumes "unat ix < unat (sz :: u32)"
  shows "rb_moved (unat sz) ix mir 1 (if ix = sz - 1 then 0 else ix + 1) (if ix = sz - 1 then \<not> mir else mir)"
proof -
  have "1 \<le> unat sz" using assms by simp
  then have "ix = sz - 1 \<longleftrightarrow> unat ix + 1 = unat sz"
    by (auto simp: word_unat_eq_iff unat_sub word_le_nat_alt)
  then show ?thesis using assms unat_u32[of sz] by (auto simp: rb_moved_def unat_word_ariths)
qed

subsection \<open>Writing and reading blocks\<close>

text \<open>Copying a block to the write index, in one piece or in two.\<close>

lemma rb_copy_in:
  assumes "rb_ok rb" "length xs = unat n" "unat n \<le> unat (buff_size rb)"
  shows "n < buff_size rb - write_index rb \<Longrightarrow>
      mem_write (buff rb) (unat (write_index rb)) xs = OK (ring_write (buff rb) (unat (write_index rb)) xs)"
    "\<not> n < buff_size rb - write_index rb \<Longrightarrow>
      bind_res (mem_write (buff rb) (unat (write_index rb)) (take (unat (buff_size rb - write_index rb)) xs))
        (\<lambda>p. bind_res (mem_write p 0 (drop (unat (buff_size rb - write_index rb)) xs)) g) =
      g (ring_write (buff rb) (unat (write_index rb)) xs)"
proof -
  note D = rb_okD[OF assms(1)] and room = rb_room(1)[OF rb_okD(3)[OF assms(1)]] rb_room(2)[OF rb_okD(3)[OF assms(1)], of n]
  show "mem_write (buff rb) (unat (write_index rb)) xs = OK (ring_write (buff rb) (unat (write_index rb)) xs)"
    if "n < buff_size rb - write_index rb"
    using that room assms(2) D(1) by (intro mem_write_ring) simp
  assume "\<not> n < buff_size rb - write_index rb"
  then have "bind_res (mem_write (buff rb) (unat (write_index rb)) (take (length (buff rb) - unat (write_index rb)) xs))
      (\<lambda>p. mem_write p 0 (drop (length (buff rb) - unat (write_index rb)) xs)) =
      OK (ring_write (buff rb) (unat (write_index rb)) xs)"
    using room assms(2,3) D(1,3) by (intro mem_write_around) simp_all
  then show "bind_res (mem_write (buff rb) (unat (write_index rb)) (take (unat (buff_size rb - write_index rb)) xs))
        (\<lambda>p. bind_res (mem_write p 0 (drop (unat (buff_size rb - write_index rb)) xs)) g) =
      g (ring_write (buff rb) (unat (write_index rb)) xs)"
    using bind_res_assoc[of _ _ g] by (metis room(1) D(1) bind_res.simps(1))
qed

lemma rb_ring_buff_put_spec:
  assumes ok: "rb_ok rb" and d: "data \<noteq> []" "length data < 2 ^ 32"
  shows "\<exists>rb' n. rb_ring_buff_put data rb = OK (rb', n) \<and> rb_ok rb' \<and> buff_size rb' = buff_size rb \<and>
    unat n = min (length data) (unat (buff_size rb) - rb_count rb) \<and>
    rb_contents rb' = rb_contents rb @ take (unat n) data"
proof -
  note D = rb_okD[OF ok] and sp = rb_space_len[OF ok]
  have L: "unat (of_nat (length data) :: u32) = length data" using d(2) by (simp add: unsigned_of_nat take_bit_nat_eq_self)
  define n where "n = (if rb_ring_buff_space_len rb < of_nat (length data) then rb_ring_buff_space_len rb else of_nat (length data))"
  have n: "unat n = min (length data) (unat (buff_size rb) - rb_count rb)"
    using sp L by (auto simp: n_def word_less_nat_alt)
  let ?xs = "take (unat n) data"
  have xs: "length ?xs = unat n" "rb_count rb + unat n \<le> unat (buff_size rb)"
    using n rb_count_less[OF ok] by auto
  then have le: "unat n \<le> unat (buff_size rb)" by simp
  note mv = rb_moved_room[OF D(3) le] and cp = rb_copy_in[OF ok xs(1) le]
  show ?thesis
  proof (cases "rb_ring_buff_space_len rb = 0")
    case True
    then have "unat (buff_size rb) - rb_count rb = 0" using sp by simp
    then show ?thesis using True ok d(1) by (simp add: rb_ring_buff_put_def)
  next
    case space: False
    show ?thesis
    proof (cases "n < buff_size rb - write_index rb")
      case True
      let ?rb = "rb\<lparr>buff := ring_write (buff rb) (unat (write_index rb)) ?xs, write_index := write_index rb + n\<rparr>"
      have "rb_ring_buff_put data rb = OK (?rb, n)"
        using space True d(1) cp(1)[OF True] by (simp add: rb_ring_buff_put_def Let_def n_def[symmetric])
      then show ?thesis
        using rb_append[OF ok xs, of ?rb] mv(1)[OF True] n by auto
    next
      case False
      let ?rb = "rb\<lparr>buff := ring_write (buff rb) (unat (write_index rb)) ?xs,
          write_mirror := \<not> write_mirror rb, write_index := n - (buff_size rb - write_index rb)\<rparr>"
      have "rb_ring_buff_put data rb = OK (?rb, n)"
        using space False d(1) cp(2)[OF False] by (simp add: rb_ring_buff_put_def Let_def n_def[symmetric] del: take_take drop_take)
      then show ?thesis
        using rb_append[OF ok xs, of ?rb] mv(2)[OF False] n by auto
    qed
  qed
qed

lemma rb_copy_out:
  assumes "rb_ok rb" "unat n \<le> rb_count rb"
  shows "n < buff_size rb - read_index rb \<Longrightarrow>
      mem_read (buff rb) (unat (read_index rb)) (unat n) = OK (take (unat n) (rb_contents rb))"
    "\<not> n < buff_size rb - read_index rb \<Longrightarrow>
      bind_res (mem_read (buff rb) (unat (read_index rb)) (unat (buff_size rb - read_index rb)))
        (\<lambda>xs. bind_res (mem_read (buff rb) 0 (unat (n - (buff_size rb - read_index rb)))) (\<lambda>ys. g (xs @ ys))) =
      g (take (unat n) (rb_contents rb))"
proof -
  note D = rb_okD[OF assms(1)] and room = rb_room(1)[OF rb_okD(2)[OF assms(1)]] rb_room(2)[OF rb_okD(2)[OF assms(1)], of n]
  have c: "take (unat n) (rb_contents rb) = ring_list (buff rb) (unat (read_index rb)) (unat n)"
    using assms(2) by (simp add: rb_contents_def take_ring_list)
  show "mem_read (buff rb) (unat (read_index rb)) (unat n) = OK (take (unat n) (rb_contents rb))"
    if "n < buff_size rb - read_index rb"
    using that room D(1) by (simp add: mem_read_def c ring_list_slice)
  assume a: "\<not> n < buff_size rb - read_index rb"
  have n: "unat (n - (buff_size rb - read_index rb)) = unat n - (unat (buff_size rb) - unat (read_index rb))"
    using a room by (simp add: unat_sub)
  have "take (unat n) (rb_contents rb) = drop (unat (read_index rb)) (buff rb) @
      take (unat n - (unat (buff_size rb) - unat (read_index rb))) (buff rb)"
    using a room D assms(2) rb_count_less[OF assms(1)] unfolding c by (subst ring_list_around) simp_all
  then show "bind_res (mem_read (buff rb) (unat (read_index rb)) (unat (buff_size rb - read_index rb)))
        (\<lambda>xs. bind_res (mem_read (buff rb) 0 (unat (n - (buff_size rb - read_index rb)))) (\<lambda>ys. g (xs @ ys))) =
      g (take (unat n) (rb_contents rb))"
    using D(1,2) assms(2) rb_count_less[OF assms(1)] by (auto simp: mem_read_def room(1) n)
qed

lemma rb_ring_buff_get_spec:
  assumes ok: "rb_ok rb" and l: "buff_len \<noteq> 0"
  shows "\<exists>rb'. rb_ring_buff_get buff_len rb = OK (rb', take (unat buff_len) (rb_contents rb)) \<and> rb_ok rb' \<and>
    buff_size rb' = buff_size rb \<and> rb_contents rb' = drop (unat buff_len) (rb_contents rb)"
proof -
  note D = rb_okD[OF ok] and dl = rb_data_len[OF ok]
  define n where "n = (if rb_ring_buff_data_len rb < buff_len then rb_ring_buff_data_len rb else buff_len)"
  have n: "unat n = min (unat buff_len) (rb_count rb)" using dl by (auto simp: n_def word_less_nat_alt)
  then have le: "unat n \<le> rb_count rb" "unat n \<le> unat (buff_size rb)" using rb_count_less[OF ok] by auto
  have fit: "take (unat buff_len) (rb_contents rb) = take (unat n) (rb_contents rb)"
    "drop (unat buff_len) (rb_contents rb) = drop (unat n) (rb_contents rb)"
    using n by (auto simp: min_def)
  note mv = rb_moved_room[OF D(2) le(2)] and cp = rb_copy_out[OF ok le(1)]
  show ?thesis
  proof (cases "rb_ring_buff_data_len rb = 0")
    case True
    then have "rb_contents rb = []" using dl by (simp flip: length_0_conv)
    then show ?thesis using True ok l by (simp add: rb_ring_buff_get_def)
  next
    case some: False
    show ?thesis
    proof (cases "n < buff_size rb - read_index rb")
      case True
      let ?rb = "rb\<lparr>read_index := read_index rb + n\<rparr>"
      have "rb_ring_buff_get buff_len rb = OK (?rb, take (unat n) (rb_contents rb))"
        using some True l cp(1)[OF True] by (simp add: rb_ring_buff_get_def Let_def n_def[symmetric])
      then show ?thesis using rb_consume[OF ok le(1), of ?rb] mv(1)[OF True] by (simp add: fit)
    next
      case False
      let ?rb = "rb\<lparr>read_mirror := \<not> read_mirror rb, read_index := n - (buff_size rb - read_index rb)\<rparr>"
      have "rb_ring_buff_get buff_len rb = OK (?rb, take (unat n) (rb_contents rb))"
        using some False l cp(2)[OF False, of "\<lambda>z. OK (?rb, z)"]
        by (simp add: rb_ring_buff_get_def Let_def n_def[symmetric])
      then show ?thesis using rb_consume[OF ok le(1), of ?rb] mv(2)[OF False] by (simp add: fit)
    qed
  qed
qed

subsection \<open>Single bytes\<close>

lemma rb_advance_write_moved:
  "rb_ok rb \<Longrightarrow> rb_moved (unat (buff_size rb)) (write_index rb) (write_mirror rb) 1
     (write_index (rb_advance_write rb)) (write_mirror (rb_advance_write rb))"
  using rb_moved_one[OF rb_okD(3), of rb "write_mirror rb"] by (auto simp: rb_advance_write_def split: if_splits)

lemma rb_advance_write_frame [simp]:
  "buff (rb_advance_write rb) = buff rb" "buff_size (rb_advance_write rb) = buff_size rb"
  "read_index (rb_advance_write rb) = read_index rb" "read_mirror (rb_advance_write rb) = read_mirror rb"
  by (simp_all add: rb_advance_write_def)

text \<open>One byte in and one byte out, as the operations of a bounded queue.\<close>

definition rb_put1 :: "u8 \<Rightarrow> rb_ring_buff \<Rightarrow> rb_ring_buff res" where
  "rb_put1 ch rb = bind_res (rb_ring_buff_put_char ch rb) (\<lambda>(rb', n). if n = 1 then OK rb' else Fault AssertFail)"

definition rb_get1 :: "rb_ring_buff \<Rightarrow> (u8 \<times> rb_ring_buff) res" where
  "rb_get1 rb = bind_res (rb_ring_buff_get_char rb) (\<lambda>(rb', c). case c of None \<Rightarrow> Fault AssertFail | Some ch \<Rightarrow> OK (ch, rb'))"

lemma rb_put1_OK: "rb_ring_buff_put_char ch rb = OK (rb', 1) \<Longrightarrow> rb_put1 ch rb = OK rb'"
  by (simp add: rb_put1_def)

lemma rb_get1_OK: "rb_ring_buff_get_char rb = OK (rb', Some ch) \<Longrightarrow> rb_get1 rb = OK (ch, rb')"
  by (simp add: rb_get1_def)

lemma rb_store_append:
  assumes ok: "rb_ok rb" and room: "rb_count rb < unat (buff_size rb)"
  shows "\<exists>rb1. rb_store ch rb = OK rb1 \<and> rb_ok (rb_advance_write rb1) \<and> rb_count (rb_advance_write rb1) = rb_count rb + 1 \<and>
    rb_contents (rb_advance_write rb1) = rb_contents rb @ [ch] \<and> buff_size rb1 = buff_size rb"
proof -
  note D = rb_okD[OF ok]
  let ?rb1 = "rb\<lparr>buff := (buff rb)[unat (write_index rb) := ch]\<rparr>"
  have "rb_ok ?rb1" using ok by (simp add: rb_ok_def)
  then have "rb_moved (unat (buff_size rb)) (write_index rb) (write_mirror rb) 1
      (write_index (rb_advance_write ?rb1)) (write_mirror (rb_advance_write ?rb1))"
    using rb_advance_write_moved[of ?rb1] by simp
  moreover have "buff ?rb1 = ring_write (buff rb) (unat (write_index rb)) [ch]" using D by simp
  ultimately show ?thesis
    using rb_append[OF ok, of "[ch]" 1 "rb_advance_write ?rb1"] room D by (simp add: rb_store_def)
qed

lemma rb_put_char_spec:
  assumes ok: "rb_ok rb" and room: "rb_count rb < unat (buff_size rb)"
  shows "\<exists>rb'. rb_ring_buff_put_char ch rb = OK (rb', 1) \<and> rb_ok rb' \<and> rb_contents rb' = rb_contents rb @ [ch] \<and>
    buff_size rb' = buff_size rb"
proof -
  have "rb_ring_buff_space_len rb \<noteq> 0" using rb_space_len[OF ok] room by auto
  then show ?thesis using rb_store_append[OF assms, of ch] by (auto simp: rb_ring_buff_put_char_def)
qed

lemma rb_get_char_spec:
  assumes ok: "rb_ok rb" and some: "rb_contents rb = x # xs"
  shows "\<exists>rb'. rb_ring_buff_get_char rb = OK (rb', Some x) \<and> rb_ok rb' \<and> rb_contents rb' = xs \<and> buff_size rb' = buff_size rb"
proof -
  note D = rb_okD[OF ok]
  have c: "0 < rb_count rb" using some length_rb_contents[of rb] by simp
  have x: "buff rb ! unat (read_index rb) = x"
    using some c D(1,2) by (cases "rb_count rb") (simp_all add: rb_contents_def ring_list_get)
  define rb' where "rb' = (if read_index rb = buff_size rb - 1 then rb\<lparr>read_mirror := \<not> read_mirror rb, read_index := 0\<rparr>
      else rb\<lparr>read_index := read_index rb + 1\<rparr>)"
  have f: "buff rb' = buff rb" "buff_size rb' = buff_size rb" "write_index rb' = write_index rb" "write_mirror rb' = write_mirror rb"
    by (simp_all add: rb'_def)
  have "rb_moved (unat (buff_size rb)) (read_index rb) (read_mirror rb) 1 (read_index rb') (read_mirror rb')"
    using rb_moved_one[OF D(2), of "read_mirror rb"] by (auto simp: rb'_def split: if_splits)
  from rb_consume[OF ok _ this f] have "rb_ok rb'" "rb_contents rb' = xs" using c some by auto
  moreover have "rb_ring_buff_get_char rb = OK (rb', Some x)"
    using rb_data_len[OF ok] c D(1,2) x by (auto simp: rb_ring_buff_get_char_def rb'_def)
  ultimately show ?thesis using f by blast
qed

interpretation rb_fifo: bounded_fifo rb_ok rb_contents "\<lambda>rb. unat (buff_size rb)" rb_put1 rb_get1
proof
  show "\<exists>rb'. rb_put1 ch rb = OK rb' \<and> rb_ok rb' \<and> rb_contents rb' = rb_contents rb @ [ch] \<and>
      unat (buff_size rb') = unat (buff_size rb)"
    if "rb_ok rb" "length (rb_contents rb) < unat (buff_size rb)" for rb ch
    using rb_put_char_spec[OF that(1), of ch] that(2) by (auto simp: rb_put1_def)
  show "\<exists>x rb'. rb_get1 rb = OK (x, rb') \<and> rb_ok rb' \<and> rb_contents rb = x # rb_contents rb' \<and>
      unat (buff_size rb') = unat (buff_size rb)"
    if "rb_ok rb" "rb_contents rb \<noteq> []" for rb
    using rb_get_char_spec[OF that(1)] that(2) by (cases "rb_contents rb") (fastforce simp: rb_get1_def)+
  show "length (rb_contents rb) \<le> unat (buff_size rb)" if "rb_ok rb" for rb
    using rb_count_less[OF that] by simp
qed

subsection \<open>Writing over the oldest bytes\<close>

text \<open>A full buffer whose write index has moved on by \<open>length xs\<close> holds the newest bytes.\<close>

lemma rb_overwritten:
  assumes ok: "rb_ok rb" and n: "length xs = unat n" "unat n \<le> unat (buff_size rb)" "unat (buff_size rb) \<le> rb_count rb + unat n"
    and w: "rb_moved (unat (buff_size rb)) (write_index rb) wm n (write_index rb') wm'"
    and rb': "buff rb' = ring_write (buff rb) (unat (write_index rb)) xs" "buff_size rb' = buff_size rb"
      "read_index rb' = write_index rb'" "read_mirror rb' \<noteq> write_mirror rb'"
  shows "rb_ok rb' \<and> rb_contents rb' = drop (rb_count rb + unat n - unat (buff_size rb)) (rb_contents rb) @ xs"
proof -
  note D = rb_okD[OF ok]
  define r z where "r = unat (read_index rb)" and "z = rb_count rb + unat n - unat (buff_size rb)"
  have wi: "unat (write_index rb') < unat (buff_size rb)" "unat (write_index rb') = (unat (write_index rb) + unat n) mod unat (buff_size rb)"
    using w D n(2) by (auto simp: rb_moved_def mod_if split: if_splits)
  have "rb_ok rb'" by (rule rb_okI) (use D rb' wi in auto)
  have "unat (write_index rb') = (r + rb_count rb + unat n) mod unat (buff_size rb)"
    using rb_write_pos[OF ok] wi(2) by (simp add: r_def mod_add_left_eq)
  also have "r + rb_count rb + unat n = (r + z) + unat (buff_size rb)" using n(3) by (simp add: z_def)
  finally have pos: "unat (write_index rb') = (r + z) mod length (buff rb)" using D(1) by simp
  let ?p = "ring_write (buff rb) (r + rb_count rb) xs"
  have b: "buff rb' = ?p"
    using rb_write_pos[OF ok] ring_write_mod[of "buff rb" "r + rb_count rb" xs] D(1) rb'(1) by (simp add: r_def)
  have full: "rb_count rb' = unat (buff_size rb)" using rb' by (simp add: rb_count_def)
  have k: "r + z + (rb_count rb - z) = r + rb_count rb" "rb_count rb - z + unat n = unat (buff_size rb)"
    "rb_count rb - z + length xs \<le> length (buff rb)"
    using n rb_count_less[OF ok] D(1) by (simp_all add: z_def)
  have "rb_contents rb' = ring_list ?p (r + z) (unat (buff_size rb))"
    using pos ring_list_mod[of ?p "r + z"] by (simp add: rb_contents_def b full rb'(3))
  also have "\<dots> = ring_list (buff rb) (r + z) (rb_count rb - z) @ xs"
    using ring_list_write[OF k(3), of "r + z"] by (simp add: k n(1))
  finally show ?thesis using \<open>rb_ok rb'\<close> by (simp add: rb_contents_def drop_ring_list r_def z_def)
qed

text \<open>What a forced write should leave: the newest bytes that the buffer holds.\<close>

definition newest :: "nat \<Rightarrow> 'a list \<Rightarrow> 'a list" where
  "newest n xs = drop (length xs - n) xs"

lemma rb_put_char_force_spec:
  assumes ok: "rb_ok rb"
  shows "\<exists>rb'. rb_ring_buff_put_char_force ch rb = OK (rb', 1) \<and> rb_ok rb' \<and> buff_size rb' = buff_size rb \<and>
    rb_contents rb' = newest (unat (buff_size rb)) (rb_contents rb @ [ch])"
proof (cases "rb_ring_buff_state rb = RB_RING_BUFF_FULL")
  case False
  have "rb_count rb < unat (buff_size rb)"
    using False rb_okD[OF ok] by (auto simp: rb_ring_buff_state_def rb_count_def word_unat_eq_iff split: if_splits)
  then show ?thesis
    using rb_store_append[OF ok, of ch] False by (auto simp: rb_ring_buff_put_char_force_def Let_def newest_def)
next
  case True
  note D = rb_okD[OF ok]
  have full: "read_index rb = write_index rb" "read_mirror rb \<noteq> write_mirror rb" "rb_count rb = unat (buff_size rb)"
    using True by (auto simp: rb_ring_buff_state_def rb_count_def split: if_splits)
  let ?rb1 = "rb\<lparr>buff := (buff rb)[unat (write_index rb) := ch]\<rparr>"
  let ?rb2 = "rb_advance_write ?rb1"
  define rb' where "rb' = (if write_index rb = buff_size rb - 1
      then ?rb2\<lparr>read_mirror := \<not> read_mirror ?rb2, read_index := write_index ?rb2\<rparr>
      else ?rb2\<lparr>read_index := write_index ?rb2\<rparr>)"
  have run: "rb_ring_buff_put_char_force ch rb = OK (rb', 1)"
    using True D by (simp add: rb_ring_buff_put_char_force_def rb_store_def Let_def rb'_def)
  have "rb_ok ?rb1" using ok by (simp add: rb_ok_def)
  then have "rb_moved (unat (buff_size rb)) (write_index rb) (write_mirror rb) 1 (write_index rb') (write_mirror rb')"
    using rb_advance_write_moved[of ?rb1] by (auto simp: rb'_def split: if_splits)
  moreover have "buff rb' = ring_write (buff rb) (unat (write_index rb)) [ch]" "buff_size rb' = buff_size rb"
    "read_index rb' = write_index rb'" "read_mirror rb' \<noteq> write_mirror rb'"
    using D full by (auto simp: rb'_def rb_advance_write_def)
  ultimately have "rb_ok rb' \<and> rb_contents rb' = drop 1 (rb_contents rb) @ [ch]" "buff_size rb' = buff_size rb"
    using rb_overwritten[OF ok, of "[ch]" 1 "write_mirror rb" rb' "write_mirror rb'"] full D by simp_all
  then show ?thesis using run full(3) D by (simp add: newest_def)
qed

text \<open>
  The forced write of a block. Its bookkeeping is right except in one case: unread bytes
  are overwritten while both mirror flags agree. Then the read index is set to the write
  index with agreeing flags, which is the representation of an empty buffer.
\<close>

lemma rb_put_force_spec:
  assumes ok: "rb_ok rb" and d: "data \<noteq> []" "length data < 2 ^ 32"
  shows "\<exists>rb' n. rb_ring_buff_put_force data rb = OK (rb', n) \<and> rb_ok rb' \<and> buff_size rb' = buff_size rb \<and>
    rb_contents rb' = (if read_mirror rb = write_mirror rb \<and> unat (buff_size rb) < rb_count rb + min (length data) (unat (buff_size rb)) then []
      else newest (unat (buff_size rb)) (rb_contents rb @ data))"
proof -
  note D = rb_okD[OF ok] and sp = rb_space_len[OF ok] and cl = rb_count_less[OF ok]
  have L: "unat (of_nat (length data) :: u32) = length data" using d(2) by (simp add: unsigned_of_nat take_bit_nat_eq_self)
  define xs where "xs = (if buff_size rb < of_nat (length data) then drop (length data - unat (buff_size rb)) data else data)"
  define n :: u32 where "n = of_nat (length xs)"
  have lx: "length xs = min (length data) (unat (buff_size rb))" using L by (auto simp: xs_def word_less_nat_alt)
  have n: "length xs = unat n" "unat n \<le> unat (buff_size rb)"
    using lx d(2) by (auto simp: n_def unsigned_of_nat take_bit_nat_eq_self)
  have over: "rb_ring_buff_space_len rb < n \<longleftrightarrow> unat (buff_size rb) < rb_count rb + min (length data) (unat (buff_size rb))"
    using sp n lx cl by (auto simp: word_less_nat_alt)
  have new: "newest (unat (buff_size rb)) (rb_contents rb @ data) =
      drop (rb_count rb + unat n - unat (buff_size rb)) (rb_contents rb) @ xs"
    using n lx L cl by (auto simp: newest_def xs_def word_less_nat_alt)
  note mv = rb_moved_room[OF D(3) n(2), of "write_mirror rb"] and cp = rb_copy_in[OF ok n]
  define rb1 where "rb1 = (if n < buff_size rb - write_index rb
      then rb\<lparr>buff := ring_write (buff rb) (unat (write_index rb)) xs, write_index := write_index rb + n\<rparr>
      else rb\<lparr>buff := ring_write (buff rb) (unat (write_index rb)) xs, write_mirror := \<not> write_mirror rb,
        write_index := n - (buff_size rb - write_index rb)\<rparr>)"
  define rm where "rm = (if n < buff_size rb - write_index rb then read_mirror rb else \<not> read_mirror rb)"
  define rb' where "rb' = (if rb_ring_buff_space_len rb < n then rb1\<lparr>read_mirror := rm, read_index := write_index rb1\<rparr> else rb1)"
  have run: "rb_ring_buff_put_force data rb = OK (rb', n)"
  proof (cases "n < buff_size rb - write_index rb")
    case True
    then show ?thesis
      using d(1) cp(1)[OF True]
      by (simp add: rb_ring_buff_put_force_def Let_def xs_def[symmetric] n_def[symmetric] rb'_def rb1_def rm_def)
  next
    case False
    then show ?thesis
      using d(1)
      by (simp add: cp(2)[OF False] rb_ring_buff_put_force_def Let_def xs_def[symmetric] n_def[symmetric] rb'_def rb1_def rm_def)
  qed
  have frame: "buff rb1 = ring_write (buff rb) (unat (write_index rb)) xs" "buff_size rb1 = buff_size rb"
    "read_index rb1 = read_index rb" "read_mirror rb1 = read_mirror rb"
    by (simp_all add: rb1_def)
  have w1: "rb_moved (unat (buff_size rb)) (write_index rb) (write_mirror rb) n (write_index rb1) (write_mirror rb1)"
    using mv by (simp add: rb1_def)
  have w1_less: "unat (write_index rb1) < unat (buff_size rb)"
    using w1 D n(2) by (auto simp: rb_moved_def split: if_splits)
  have "rb_ok rb' \<and> buff_size rb' = buff_size rb \<and>
    rb_contents rb' = (if read_mirror rb = write_mirror rb \<and> rb_ring_buff_space_len rb < n then []
      else newest (unat (buff_size rb)) (rb_contents rb @ data))"
  proof (cases "rb_ring_buff_space_len rb < n")
    case False
    then have "rb_count rb + unat n \<le> unat (buff_size rb)" using sp cl by (simp add: word_less_nat_alt)
    from rb_append[OF ok n(1) this w1 frame] this show ?thesis using False frame(2) by (simp add: rb'_def new)
  next
    case True
    then have o: "unat (buff_size rb) \<le> rb_count rb + unat n" using sp cl by (simp add: word_less_nat_alt)
    have f': "buff rb' = ring_write (buff rb) (unat (write_index rb)) xs" "buff_size rb' = buff_size rb"
      "read_index rb' = write_index rb'" "write_index rb' = write_index rb1" "write_mirror rb' = write_mirror rb1"
      "read_mirror rb' = rm"
      using True frame by (simp_all add: rb'_def)
    show ?thesis
    proof (cases "read_mirror rb = write_mirror rb")
      case False
      then have "read_mirror rb' \<noteq> write_mirror rb'" by (auto simp: f' rm_def rb1_def)
      from rb_overwritten[OF ok n o w1[folded f'(4)] f'(1-3) this] show ?thesis using False f'(2) by (simp add: new)
    next
      case mir: True
      have "\<not> n < buff_size rb - write_index rb"
        using True sp mir D rb_room(2)[OF D(3), of n] by (auto simp: word_less_nat_alt rb_count_def)
      then have "read_mirror rb' = write_mirror rb'" using mir by (simp add: f' rm_def rb1_def)
      then have "rb_count rb' = 0" "rb_ok rb'"
        using f' w1_less D by (simp_all add: rb_count_def rb_okI)
      moreover from this have "rb_contents rb' = []" by (simp add: rb_contents_def)
      ultimately show ?thesis using True mir f'(2) by simp
    qed
  qed
  then show ?thesis using run unfolding over by blast
qed

subsection \<open>Properties\<close>

text \<open>
  C27. Round trip: a block that fits in the free space of a ring buffer is accepted whole, and
  reading everything back returns the older bytes followed by the block, unchanged and in
  order, over the end of the buffer or not; afterwards the buffer is empty.
\<close>

theorem rb_put_get_roundtrip:
  assumes "rb_ok rb" "data \<noteq> []" "rb_count rb + length data \<le> unat (buff_size rb)"
  shows "\<exists>rb1 rb2. rb_ring_buff_put data rb = OK (rb1, of_nat (length data)) \<and> rb_ok rb1 \<and>
    rb_ring_buff_get (buff_size rb) rb1 = OK (rb2, rb_contents rb @ data) \<and> rb_ok rb2 \<and>
    rb_ring_buff_state rb2 = RB_RING_BUFF_EMPTY"
proof -
  have l: "length data < 2 ^ 32" using assms(3) unat_u32[of "buff_size rb"] by simp
  obtain rb1 n where 1: "rb_ring_buff_put data rb = OK (rb1, n)" "rb_ok rb1" "buff_size rb1 = buff_size rb"
    "unat n = min (length data) (unat (buff_size rb) - rb_count rb)" "rb_contents rb1 = rb_contents rb @ take (unat n) data"
    using rb_ring_buff_put_spec[OF assms(1,2) l] by blast
  have n: "unat n = length data" using 1(4) assms(3) by simp
  then have n': "n = of_nat (length data)" using n[symmetric] by simp
  have c1: "rb_contents rb1 = rb_contents rb @ data" using 1(5) n by simp
  have "length (rb_contents rb1) \<le> unat (buff_size rb)" using assms(3) by (simp only: c1) simp
  moreover have "buff_size rb \<noteq> 0" using rb_okD(4)[OF assms(1)] by auto
  ultimately obtain rb2 where 2: "rb_ring_buff_get (buff_size rb) rb1 = OK (rb2, rb_contents rb1)" "rb_ok rb2" "rb_contents rb2 = []"
    using rb_ring_buff_get_spec[OF 1(2), of "buff_size rb"] by auto
  have "rb_ring_buff_data_len rb2 = 0"
    using rb_data_len[OF 2(2)] 2(3) length_rb_contents[of rb2] by (simp add: unat_eq_0)
  then have "rb_ring_buff_state rb2 = RB_RING_BUFF_EMPTY"
    using 2(2) rb_okD[OF 2(2)] length_rb_contents[of rb2] 2(3)
    by (auto simp: rb_ring_buff_state_def rb_count_def word_unat_eq_iff split: if_splits)
  then show ?thesis using 1(1,2) 2 n' c1 by auto
qed

definition sample_rb :: rb_ring_buff where
  "sample_rb = \<lparr>buff = [1, 2, 3, 4], buff_size = 4, read_index = 2, write_index = 3, read_mirror = False, write_mirror = False\<rparr>"

lemma sample_rb_ok: "rb_ok sample_rb" "rb_count sample_rb = 1" "rb_contents sample_rb = [3]"
  by (simp_all add: sample_rb_def rb_ok_def rb_count_def rb_contents_def ring_list_def)

theorem rb_put_get_roundtrip_witness:
  "\<exists>rb1 rb2. rb_ring_buff_put [7, 8] sample_rb = OK (rb1, 2) \<and> write_index rb1 = 1 \<and>
    rb_ring_buff_get 4 rb1 = OK (rb2, [3, 7, 8]) \<and> rb_ring_buff_state rb2 = RB_RING_BUFF_EMPTY"
proof -
  have "\<exists>rb1. rb_ring_buff_put [7, 8] sample_rb = OK (rb1, 2) \<and> write_index rb1 = 1"
    by (simp add: rb_ring_buff_put_def rb_ring_buff_space_len_def rb_ring_buff_data_len_def rb_ring_buff_state_def
        sample_rb_def Let_def mem_write_def)
  then show ?thesis
    using rb_put_get_roundtrip[OF sample_rb_ok(1), of "[7, 8]"] sample_rb_ok(2,3) by (auto simp: sample_rb_def)
qed

text \<open>
  Any sequence of single-byte writes (\<open>Some\<close>) and reads (\<open>None\<close>), with the bytes that were
  accepted and the bytes that were delivered.
\<close>

fun rb_run :: "u8 option list \<Rightarrow> rb_ring_buff \<Rightarrow> (rb_ring_buff \<times> u8 list \<times> u8 list) res" where
  "rb_run [] rb = OK (rb, [], [])"
| "rb_run (Some ch # qs) rb = bind_res (rb_ring_buff_put_char ch rb) (\<lambda>(rb1, n).
     bind_res (rb_run qs rb1) (\<lambda>(rb2, ins, outs). OK (rb2, if n = 1 then ch # ins else ins, outs)))"
| "rb_run (None # qs) rb = bind_res (rb_ring_buff_get_char rb) (\<lambda>(rb1, c).
     bind_res (rb_run qs rb1) (\<lambda>(rb2, ins, outs). OK (rb2, ins, case c of Some ch \<Rightarrow> ch # outs | None \<Rightarrow> outs)))"

lemma rb_full_refuses: "rb_ok rb \<Longrightarrow> \<not> rb_count rb < unat (buff_size rb) \<Longrightarrow> rb_ring_buff_put_char ch rb = OK (rb, 0)"
  using rb_space_len[of rb] by (simp add: rb_ring_buff_put_char_def unat_eq_zero)

lemma rb_empty_refuses: "rb_ok rb \<Longrightarrow> rb_contents rb = [] \<Longrightarrow> rb_ring_buff_get_char rb = OK (rb, None)"
  using rb_data_len[of rb] length_rb_contents[of rb] by (simp add: rb_ring_buff_get_char_def unat_eq_zero)

text \<open>The run is that of the queue contract, which the buffer was shown to meet.\<close>

lemma rb_run_requests: "rb_ok rb \<Longrightarrow> rb_run qs rb = rb_fifo.requests qs rb"
proof (induction qs arbitrary: rb)
  case Nil
  then show ?case by simp
next
  case (Cons q qs)
  show ?case
  proof (cases q)
    case None
    show ?thesis
    proof (cases "rb_contents rb")
      case Nil
      then show ?thesis
        using None rb_empty_refuses[OF Cons.prems Nil] Cons.IH[OF Cons.prems] by (simp add: rb_fifo.request_def)
    next
      case (Cons x xs)
      then show ?thesis
        using None rb_get_char_spec[OF Cons.prems Cons] Cons.IH by (auto simp: rb_fifo.request_def rb_get1_OK)
    qed
  next
    case (Some ch)
    show ?thesis
    proof (cases "rb_count rb < unat (buff_size rb)")
      case True
      then show ?thesis
        using Some rb_put_char_spec[OF Cons.prems True, of ch] Cons.IH by (auto simp: rb_fifo.request_def rb_put1_OK)
    next
      case False
      then show ?thesis
        using Some rb_full_refuses[OF Cons.prems False] Cons.IH[OF Cons.prems] by (simp add: rb_fifo.request_def)
    qed
  qed
qed

text \<open>
  C28. A ring buffer is a bounded queue: any interleaving of single-byte writes and reads runs
  without leaving the buffer's memory, and the bytes delivered followed by those still
  stored are the bytes stored at first followed by the bytes accepted, in that order; at no
  time more bytes are stored than the buffer has.
\<close>

theorem rb_bytes_in_order:
  assumes "rb_ok rb"
  shows "\<exists>rb' ins outs. rb_run qs rb = OK (rb', ins, outs) \<and> rb_ok rb' \<and>
    rb_contents rb @ ins = outs @ rb_contents rb' \<and> length (rb_contents rb') \<le> unat (buff_size rb)"
  using rb_fifo.requests_order[OF assms, of qs] by (simp add: rb_run_requests[OF assms])

theorem rb_bytes_in_order_witness:
  "\<exists>rb' ins outs. rb_run [Some 9, None, None, Some 5, None] sample_rb = OK (rb', ins, outs) \<and> ins = [9, 5] \<and>
    outs = [3, 9, 5] \<and> rb_contents rb' = []"
proof -
  have "\<exists>rb'. rb_run [Some 9, None, None, Some 5, None] sample_rb = OK (rb', [9, 5], [3, 9, 5])"
    by (simp add: sample_rb_def rb_ring_buff_put_char_def rb_ring_buff_get_char_def rb_ring_buff_space_len_def
        rb_ring_buff_data_len_def rb_ring_buff_state_def rb_store_def rb_advance_write_def)
  then show ?thesis
    using rb_bytes_in_order[OF sample_rb_ok(1), of "[Some 9, None, None, Some 5, None]"] sample_rb_ok(3) by auto
qed

text \<open>
  A forced write of a block keeps the newest bytes of the old contents and the block
  together, except when it overwrites unread bytes while both mirror flags agree: then the
  buffer is left empty, and the block is lost with everything else.
\<close>

theorem rb_put_force_cases:
  assumes "rb_ok rb" "data \<noteq> []" "length data < 2 ^ 32"
  shows "\<exists>rb' n. rb_ring_buff_put_force data rb = OK (rb', n) \<and> rb_ok rb' \<and>
    rb_contents rb' =
      (if read_mirror rb = write_mirror rb \<and> unat (buff_size rb) < rb_count rb + min (length data) (unat (buff_size rb))
       then [] else newest (unat (buff_size rb)) (rb_contents rb @ data))"
  using rb_put_force_spec[OF assms] by blast

theorem rb_put_force_cases_witness:
  "\<exists>rb1 rb2 n. rb_ring_buff_put_force [7, 8, 9] sample_rb = OK (rb1, n) \<and> rb_contents rb1 = [3, 7, 8, 9] \<and>
    rb_ring_buff_put_force [6, 7, 8, 9] sample_rb = OK (rb2, 4) \<and> rb_contents rb2 = []"
proof -
  have "\<exists>rb2. rb_ring_buff_put_force [6, 7, 8, 9] sample_rb = OK (rb2, 4)"
    by (simp add: rb_ring_buff_put_force_def rb_ring_buff_space_len_def rb_ring_buff_data_len_def
        rb_ring_buff_state_def sample_rb_def Let_def mem_write_def)
  then show ?thesis
    using rb_put_force_cases[OF sample_rb_ok(1), of "[7, 8, 9]"] rb_put_force_cases[OF sample_rb_ok(1), of "[6, 7, 8, 9]"]
      sample_rb_ok(2,3)
    by (auto simp: sample_rb_def newest_def)
qed

end
