(* ===== verification/Ring_Blk_Buff.thy ===== *)
theory Ring_Blk_Buff
  imports Fifo_Ring
begin

text \<open>
  \<^verbatim>\<open>oneos/common/source/ring_blk_buff.c\<close>: a buffer handed out in blocks of any size, in ring
  order. A block is named by its index in \<^verbatim>\<open>blk_set\<close>; \<open>blk_list\<close> is the list of the blocks in use,
  oldest first. Addresses are 32-bit words, as on the target.
\<close>

datatype rbb_blk_status = RBB_BLK_STATUS_UNUSED | RBB_BLK_STATUS_INITED | RBB_BLK_STATUS_PUT | RBB_BLK_STATUS_GET

record rbb_blk =
  blk_buf :: u32
  blk_buf_size :: u32
  blk_status :: rbb_blk_status

record rbb_ctrl_info =
  rbb_buf :: u32
  rbb_buf_size :: u32
  blk_set :: "rbb_blk list"
  blk_list :: "nat list"

abbreviation blk :: "rbb_ctrl_info \<Rightarrow> nat \<Rightarrow> rbb_blk" where
  "blk rbb i \<equiv> blk_set rbb ! i"

definition set_blk :: "nat \<Rightarrow> rbb_blk \<Rightarrow> rbb_ctrl_info \<Rightarrow> rbb_ctrl_info" where
  "set_blk i b rbb = rbb\<lparr>blk_set := (blk_set rbb)[i := b]\<rparr>"

definition rbb_find_empty_blk_in_set :: "rbb_ctrl_info \<Rightarrow> nat option" where
  "rbb_find_empty_blk_in_set rbb = find (\<lambda>i. blk_status (blk rbb i) = RBB_BLK_STATUS_UNUSED) [0..<length (blk_set rbb)]"

definition rbb_do_init :: "u32 \<Rightarrow> u32 \<Rightarrow> rbb_blk list \<Rightarrow> rbb_ctrl_info" where
  "rbb_do_init buf buf_size block_set =
     \<lparr>rbb_buf = buf, rbb_buf_size = buf_size,
      blk_set = map (\<lambda>b. b\<lparr>blk_status := RBB_BLK_STATUS_UNUSED\<rparr>) block_set, blk_list = []\<rparr>"

definition rbb_init :: "u32 \<Rightarrow> u32 \<Rightarrow> rbb_blk list \<Rightarrow> rbb_ctrl_info res" where
  "rbb_init buf buf_size block_set =
     os_assert (buf \<noteq> 0) (os_assert (0 < buf_size) (os_assert (0 < length block_set)
       (OK (rbb_do_init buf buf_size block_set))))"

text \<open>The three allocations are arguments; nothing is kept when one of them fails.\<close>

definition rbb_create :: "u32 \<Rightarrow> bool \<Rightarrow> u32 option \<Rightarrow> rbb_blk list option \<Rightarrow> rbb_ctrl_info option" where
  "rbb_create buf_size cb_ok buf block_set =
     (case (buf, block_set) of
        (Some b, Some bs) \<Rightarrow> if cb_ok then Some (rbb_do_init b buf_size bs) else None
      | _ \<Rightarrow> None)"

definition rbb_get_buf_size :: "rbb_ctrl_info \<Rightarrow> u32" where
  "rbb_get_buf_size rbb = rbb_buf_size rbb"

text \<open>The new block at an address, appended to the list of blocks in use.\<close>

definition rbb_place :: "nat \<Rightarrow> u32 \<Rightarrow> u32 \<Rightarrow> rbb_ctrl_info \<Rightarrow> rbb_ctrl_info" where
  "rbb_place i buf alloc_size rbb =
     (set_blk i \<lparr>blk_buf = buf, blk_buf_size = alloc_size, blk_status = RBB_BLK_STATUS_INITED\<rparr> rbb)
       \<lparr>blk_list := blk_list rbb @ [i]\<rparr>"

definition rbb_blk_alloc :: "u32 \<Rightarrow> rbb_ctrl_info \<Rightarrow> (rbb_ctrl_info \<times> nat option) res" where
  "rbb_blk_alloc alloc_size rbb = os_assert (0 < alloc_size) (OK
     (case rbb_find_empty_blk_in_set rbb of None \<Rightarrow> (rbb, None)
      | Some i \<Rightarrow>
         (case blk_list rbb of
            [] \<Rightarrow> (rbb_place i (rbb_buf rbb) alloc_size rbb, Some i)
          | h # bs \<Rightarrow>
              let head = blk rbb h; tail = blk rbb (last (h # bs)) in
              if blk_buf head \<le> blk_buf tail then
                let empty1 = (rbb_buf rbb + rbb_buf_size rbb) - (blk_buf tail + blk_buf_size tail);
                    empty2 = blk_buf head - rbb_buf rbb
                in if alloc_size \<le> empty1 then (rbb_place i (blk_buf tail + blk_buf_size tail) alloc_size rbb, Some i)
                   else if alloc_size \<le> empty2 then (rbb_place i (rbb_buf rbb) alloc_size rbb, Some i)
                   else (rbb, None)
              else
                let empty1 = blk_buf head - (blk_buf tail + blk_buf_size tail)
                in if alloc_size \<le> empty1 then (rbb_place i (blk_buf tail + blk_buf_size tail) alloc_size rbb, Some i)
                   else (rbb, None))))"

definition rbb_blk_put :: "nat \<Rightarrow> rbb_ctrl_info \<Rightarrow> rbb_ctrl_info res" where
  "rbb_blk_put i rbb = os_assert (blk_status (blk rbb i) = RBB_BLK_STATUS_INITED)
     (OK (set_blk i ((blk rbb i)\<lparr>blk_status := RBB_BLK_STATUS_PUT\<rparr>) rbb))"

definition rbb_blk_get :: "rbb_ctrl_info \<Rightarrow> rbb_ctrl_info \<times> nat option" where
  "rbb_blk_get rbb =
     (case blk_list rbb of [] \<Rightarrow> (rbb, None)
      | h # bs \<Rightarrow>
         if blk_status (blk rbb h) = RBB_BLK_STATUS_PUT
         then (set_blk h ((blk rbb h)\<lparr>blk_status := RBB_BLK_STATUS_GET\<rparr>) rbb, Some h) else (rbb, None))"

definition rbb_blk_free :: "nat \<Rightarrow> rbb_ctrl_info \<Rightarrow> rbb_ctrl_info res" where
  "rbb_blk_free i rbb = os_assert (blk_status (blk rbb i) = RBB_BLK_STATUS_GET)
     (OK ((set_blk i ((blk rbb i)\<lparr>blk_status := RBB_BLK_STATUS_UNUSED\<rparr>) rbb)
            \<lparr>blk_list := removeAll i (blk_list rbb)\<rparr>))"

subsection \<open>Layout of the blocks in the buffer\<close>

text \<open>Regions one behind the other in the memory from \<open>lo\<close> to \<open>hi\<close>, none of them empty.\<close>

fun laid :: "nat \<Rightarrow> nat \<Rightarrow> (nat \<times> nat) list \<Rightarrow> bool" where
  "laid lo hi [] \<longleftrightarrow> lo \<le> hi"
| "laid lo hi ((a, n) # xs) \<longleftrightarrow> lo \<le> a \<and> 0 < n \<and> laid (a + n) hi xs"

lemma laid_le: "laid lo hi xs \<Longrightarrow> lo \<le> hi"
  by (induction lo hi xs rule: laid.induct) auto

lemma laid_inside: "laid lo hi xs \<Longrightarrow> (a, n) \<in> set xs \<Longrightarrow> lo \<le> a \<and> 0 < n \<and> a + n \<le> hi"
  by (induction lo hi xs rule: laid.induct) (auto dest: laid_le)

lemma laid_mono: "laid lo hi xs \<Longrightarrow> lo' \<le> lo \<Longrightarrow> hi \<le> hi' \<Longrightarrow> laid lo' hi' xs"
  by (induction lo hi xs arbitrary: lo' rule: laid.induct) auto

lemma laid_append: "laid lo hi (xs @ [(a, n)]) \<longleftrightarrow> laid lo a xs \<and> 0 < n \<and> a + n \<le> hi"
  by (induction lo hi xs rule: laid.induct) auto

lemma laid_disjoint:
  "laid lo hi xs \<Longrightarrow> i < j \<Longrightarrow> j < length xs \<Longrightarrow> fst (xs ! i) + snd (xs ! i) \<le> fst (xs ! j)"
proof (induction lo hi xs arbitrary: i j rule: laid.induct)
  case (2 lo hi a n xs)
  show ?case
  proof (cases i)
    case 0
    then obtain j' where j: "j = Suc j'" "j' < length xs" using 2 by (cases j) auto
    then have "(fst (xs ! j'), snd (xs ! j')) \<in> set xs" by simp
    then show ?thesis using laid_inside 2(2) 0 j by fastforce
  next
    case (Suc i')
    then show ?thesis using 2 by (cases j) auto
  qed
qed simp

definition span :: "rbb_ctrl_info \<Rightarrow> nat \<Rightarrow> nat \<times> nat" where
  "span rbb i = (unat (blk_buf (blk rbb i)), unat (blk_buf_size (blk rbb i)))"

text \<open>
  The blocks in use are a part laid out upwards in the buffer, followed by a part that
  starts again below the first block.
\<close>

definition rbb_layout :: "rbb_ctrl_info \<Rightarrow> nat list \<Rightarrow> nat list \<Rightarrow> bool" where
  "rbb_layout rbb A B \<longleftrightarrow> blk_list rbb = A @ B \<and> (A = [] \<longrightarrow> B = []) \<and>
     laid (unat (rbb_buf rbb)) (unat (rbb_buf rbb) + unat (rbb_buf_size rbb)) (map (span rbb) A) \<and>
     (B \<noteq> [] \<longrightarrow> laid (unat (rbb_buf rbb)) (fst (span rbb (hd A))) (map (span rbb) B))"

definition rbb_ok :: "rbb_ctrl_info \<Rightarrow> bool" where
  "rbb_ok rbb \<longleftrightarrow> unat (rbb_buf rbb) + unat (rbb_buf_size rbb) < 2 ^ 32 \<and> distinct (blk_list rbb) \<and>
     (\<forall>i. i \<in> set (blk_list rbb) \<longleftrightarrow> i < length (blk_set rbb) \<and> blk_status (blk rbb i) \<noteq> RBB_BLK_STATUS_UNUSED) \<and>
     (\<forall>i \<in> set (tl (blk_list rbb)). blk_status (blk rbb i) \<noteq> RBB_BLK_STATUS_GET) \<and>
     (\<exists>A B. rbb_layout rbb A B)"

lemma rbb_okD:
  assumes "rbb_ok rbb"
  shows "unat (rbb_buf rbb) + unat (rbb_buf_size rbb) < 2 ^ 32" "distinct (blk_list rbb)"
    "i \<in> set (blk_list rbb) \<longleftrightarrow> i < length (blk_set rbb) \<and> blk_status (blk rbb i) \<noteq> RBB_BLK_STATUS_UNUSED"
    "i \<in> set (tl (blk_list rbb)) \<Longrightarrow> blk_status (blk rbb i) \<noteq> RBB_BLK_STATUS_GET"
    "\<exists>A B. rbb_layout rbb A B"
  using assms by (auto simp: rbb_ok_def)

text \<open>Two blocks in use never share a byte, and none leaves the buffer.\<close>

definition disjoint_blks :: "rbb_ctrl_info \<Rightarrow> nat \<Rightarrow> nat \<Rightarrow> bool" where
  "disjoint_blks rbb i j \<longleftrightarrow> fst (span rbb i) + snd (span rbb i) \<le> fst (span rbb j) \<or>
     fst (span rbb j) + snd (span rbb j) \<le> fst (span rbb i)"

lemma laid_map_disjoint:
  assumes "laid lo hi (map (span rbb) xs)" "i \<in> set xs" "j \<in> set xs" "i \<noteq> j"
  shows "disjoint_blks rbb i j"
proof -
  obtain m n where mn: "i = xs ! m" "j = xs ! n" "m < length xs" "n < length xs" "m \<noteq> n"
    using assms(2-4) by (auto simp: in_set_conv_nth)
  then show ?thesis
    using laid_disjoint[OF assms(1), of m n] laid_disjoint[OF assms(1), of n m]
    by (cases "m < n") (auto simp: disjoint_blks_def)
qed

lemma laid_map_inside: "laid lo hi (map (span rbb) xs) \<Longrightarrow> i \<in> set xs \<Longrightarrow>
    lo \<le> fst (span rbb i) \<and> 0 < snd (span rbb i) \<and> fst (span rbb i) + snd (span rbb i) \<le> hi"
  using laid_inside[of lo hi "map (span rbb) xs" "fst (span rbb i)" "snd (span rbb i)"] by force

lemma rbb_blocks_apart:
  assumes ok: "rbb_ok rbb" and i: "i \<in> set (blk_list rbb)"
  shows "unat (rbb_buf rbb) \<le> fst (span rbb i) \<and> 0 < snd (span rbb i) \<and>
      fst (span rbb i) + snd (span rbb i) \<le> unat (rbb_buf rbb) + unat (rbb_buf_size rbb)"
    "j \<in> set (blk_list rbb) \<Longrightarrow> i \<noteq> j \<Longrightarrow> disjoint_blks rbb i j"
proof -
  obtain A B where l: "rbb_layout rbb A B" using rbb_okD(5)[OF ok] by blast
  note L = l[unfolded rbb_layout_def]
  have a: "hd A \<in> set A" if "B \<noteq> []" using L that by auto
  have above: "fst (span rbb (hd A)) \<le> fst (span rbb x)" if x: "x \<in> set A" for x
  proof (cases "x = hd A")
    case False
    then obtain A' where "A = hd A # A'" "x \<in> set A'" using x by (cases A) auto
    then have "laid (fst (span rbb (hd A)) + snd (span rbb (hd A))) (unat (rbb_buf rbb) + unat (rbb_buf_size rbb)) (map (span rbb) A')"
      using L by (metis laid.simps(2) list.simps(9) prod.collapse)
    then show ?thesis using laid_map_inside \<open>x \<in> set A'\<close> by fastforce
  qed simp
  have B: "unat (rbb_buf rbb) \<le> fst (span rbb x) \<and> 0 < snd (span rbb x) \<and>
      fst (span rbb x) + snd (span rbb x) \<le> fst (span rbb (hd A))" if "x \<in> set B" for x
    using that L laid_map_inside[of _ _ rbb B x] by auto
  have A: "unat (rbb_buf rbb) \<le> fst (span rbb x) \<and> 0 < snd (span rbb x) \<and>
      fst (span rbb x) + snd (span rbb x) \<le> unat (rbb_buf rbb) + unat (rbb_buf_size rbb)" if "x \<in> set A" for x
    using that L laid_map_inside[of _ _ rbb A x] by auto
  show "unat (rbb_buf rbb) \<le> fst (span rbb i) \<and> 0 < snd (span rbb i) \<and>
      fst (span rbb i) + snd (span rbb i) \<le> unat (rbb_buf rbb) + unat (rbb_buf_size rbb)"
    using i L A[of i] B[of i] A[of "hd A"] a by fastforce
  assume j: "j \<in> set (blk_list rbb)" "i \<noteq> j"
  have ab: "disjoint_blks rbb x y" if "x \<in> set A" "y \<in> set B" for x y
    using above[OF that(1)] B[OF that(2)] by (simp add: disjoint_blks_def)
  have sym: "disjoint_blks rbb x y \<Longrightarrow> disjoint_blks rbb y x" for x y by (auto simp: disjoint_blks_def)
  show "disjoint_blks rbb i j"
    using i j L ab sym laid_map_disjoint[of _ _ rbb A i j] laid_map_disjoint[of _ _ rbb B i j] by auto
qed

subsection \<open>Every operation keeps the layout\<close>

lemma set_blk_simps [simp]:
  "rbb_buf (set_blk i b rbb) = rbb_buf rbb" "rbb_buf_size (set_blk i b rbb) = rbb_buf_size rbb"
  "blk_list (set_blk i b rbb) = blk_list rbb" "length (blk_set (set_blk i b rbb)) = length (blk_set rbb)"
  "i < length (blk_set rbb) \<Longrightarrow> blk (set_blk i b rbb) j = (if j = i then b else blk rbb j)"
  by (auto simp: set_blk_def nth_list_update)

lemma rbb_place_simps [simp]:
  "rbb_buf (rbb_place i a n rbb) = rbb_buf rbb" "rbb_buf_size (rbb_place i a n rbb) = rbb_buf_size rbb"
  "blk_list (rbb_place i a n rbb) = blk_list rbb @ [i]" "length (blk_set (rbb_place i a n rbb)) = length (blk_set rbb)"
  "i < length (blk_set rbb) \<Longrightarrow> blk (rbb_place i a n rbb) j =
     (if j = i then \<lparr>blk_buf = a, blk_buf_size = n, blk_status = RBB_BLK_STATUS_INITED\<rparr> else blk rbb j)"
  by (auto simp: rbb_place_def set_blk_def nth_list_update)

lemma span_place: "i < length (blk_set rbb) \<Longrightarrow> span (rbb_place i a n rbb) j = (if j = i then (unat a, unat n) else span rbb j)"
  by (simp add: span_def)

lemma map_span_place: "i < length (blk_set rbb) \<Longrightarrow> i \<notin> set xs \<Longrightarrow> map (span (rbb_place i a n rbb)) xs = map (span rbb) xs"
  by (auto simp: span_place)

lemma rbb_place_ok:
  assumes ok: "rbb_ok rbb" and i: "i < length (blk_set rbb)" "blk_status (blk rbb i) = RBB_BLK_STATUS_UNUSED"
    and l: "rbb_layout (rbb_place i a n rbb) A B"
  shows "rbb_ok (rbb_place i a n rbb)"
proof -
  note D = rbb_okD[OF ok]
  have fresh: "i \<notin> set (blk_list rbb)" using D(3)[of i] i by simp
  have "blk_status (blk (rbb_place i a n rbb) j) \<noteq> RBB_BLK_STATUS_GET" if "j \<in> set (tl (blk_list rbb @ [i]))" for j
    using that D(4)[of j] i(1) by (cases "blk_list rbb") auto
  then show ?thesis
    using D(1,2) D(3) fresh l i unfolding rbb_ok_def by auto
qed

lemma rbb_find_empty: "rbb_find_empty_blk_in_set rbb = Some i \<Longrightarrow>
    i < length (blk_set rbb) \<and> blk_status (blk rbb i) = RBB_BLK_STATUS_UNUSED"
  by (auto simp: rbb_find_empty_blk_in_set_def find_Some_iff)

text \<open>The three places where a block is put, besides the start of an unused buffer.\<close>

lemma rbb_place_behind:
  assumes ok: "rbb_ok rbb" and i: "i < length (blk_set rbb)" "blk_status (blk rbb i) = RBB_BLK_STATUS_UNUSED"
    and l: "rbb_layout rbb (h # A) B" and n: "0 < n"
    and a: "unat a = fst (span rbb (last (h # A @ B))) + snd (span rbb (last (h # A @ B)))"
      "unat a + unat n \<le> (if B = [] then unat (rbb_buf rbb) + unat (rbb_buf_size rbb) else fst (span rbb h))"
  shows "rbb_ok (rbb_place i a n rbb)"
proof -
  have fresh: "i \<notin> set (blk_list rbb)" using rbb_okD(3)[OF ok, of i] i by simp
  note L = l[unfolded rbb_layout_def]
  have n': "0 < unat n" using n by (simp add: word_gt_0 unat_gt_0)
  have up: "laid lo (unat a) (map (span rbb) xs)"
    if "laid lo hi (map (span rbb) xs)" "xs \<noteq> []" "last xs = last (h # A @ B)" for lo hi xs
  proof (cases xs rule: rev_cases)
    case (snoc ys y)
    then have "laid lo hi (map (span rbb) ys @ [(fst (span rbb y), snd (span rbb y))])" using that(1) by simp
    then have "laid lo (fst (span rbb y) + snd (span rbb y)) (map (span rbb) ys @ [(fst (span rbb y), snd (span rbb y))])"
      unfolding laid_append by simp
    then show ?thesis using that(3) snoc a(1) by simp
  qed (use that(2) in simp)
  have ih: "i \<noteq> h" "i \<notin> set A" "i \<notin> set B" using fresh L by auto
  show ?thesis
  proof (cases "B = []")
    case True
    have "laid (unat (rbb_buf rbb)) (unat a) (map (span rbb) (h # A))" by (rule up) (use L True in auto)
    then have "laid (unat (rbb_buf rbb)) (unat (rbb_buf rbb) + unat (rbb_buf_size rbb))
        (map (span rbb) (h # A) @ [(unat a, unat n)])"
      unfolding laid_append using a(2) n' True by simp
    moreover have "map (span (rbb_place i a n rbb)) (h # A @ [i]) = map (span rbb) (h # A) @ [(unat a, unat n)]"
      using ih i(1) by (simp add: map_span_place span_place)
    ultimately have "laid (unat (rbb_buf rbb)) (unat (rbb_buf rbb) + unat (rbb_buf_size rbb))
        (map (span (rbb_place i a n rbb)) (h # A @ [i]))" by (simp only:)
    then have "rbb_layout (rbb_place i a n rbb) (h # A @ [i]) []" using L True unfolding rbb_layout_def by simp
    then show ?thesis by (rule rbb_place_ok[OF ok i])
  next
    case False
    have "laid (unat (rbb_buf rbb)) (unat a) (map (span rbb) B)" by (rule up) (use L False in auto)
    then have "rbb_layout (rbb_place i a n rbb) (h # A) (B @ [i])"
      using L False a(2) n' ih i(1) by (simp add: rbb_layout_def map_span_place span_place laid_append)
    then show ?thesis by (rule rbb_place_ok[OF ok i])
  qed
qed

lemma rbb_place_start:
  assumes ok: "rbb_ok rbb" and i: "i < length (blk_set rbb)" "blk_status (blk rbb i) = RBB_BLK_STATUS_UNUSED"
    and n: "0 < n" and a: "unat (rbb_buf rbb) + unat n \<le>
      (case blk_list rbb of [] \<Rightarrow> unat (rbb_buf rbb) + unat (rbb_buf_size rbb) | h # _ \<Rightarrow> fst (span rbb h))"
    and l: "rbb_layout rbb (blk_list rbb) []"
  shows "rbb_ok (rbb_place i (rbb_buf rbb) n rbb)"
proof -
  have fresh: "i \<notin> set (blk_list rbb)" using rbb_okD(3)[OF ok, of i] i by simp
  have n': "0 < unat n" using n by (simp add: word_gt_0 unat_gt_0)
  show ?thesis
  proof (cases "blk_list rbb")
    case Nil
    then have "rbb_layout (rbb_place i (rbb_buf rbb) n rbb) [i] []"
      using a n' i(1) by (simp add: rbb_layout_def span_place)
    then show ?thesis by (rule rbb_place_ok[OF ok i])
  next
    case (Cons h bs)
    then have "rbb_layout (rbb_place i (rbb_buf rbb) n rbb) (h # bs) [i]"
      using a n' i(1) fresh l by (simp add: rbb_layout_def span_place map_span_place)
    then show ?thesis by (rule rbb_place_ok[OF ok i])
  qed
qed

lemma rbb_end_of_block:
  assumes "rbb_ok rbb" "i \<in> set (blk_list rbb)"
  shows "unat (blk_buf (blk rbb i) + blk_buf_size (blk rbb i)) = fst (span rbb i) + snd (span rbb i)"
    "unat (rbb_buf rbb + rbb_buf_size rbb) = unat (rbb_buf rbb) + unat (rbb_buf_size rbb)"
  using rbb_blocks_apart(1)[OF assms] rbb_okD(1)[OF assms(1)] by (auto simp: span_def unat_word_ariths)

text \<open>A block after the wrap is recognised by its address.\<close>

lemma rbb_wrapped_iff:
  assumes ok: "rbb_ok rbb" and l: "rbb_layout rbb (h # A) B"
  shows "blk_buf (blk rbb h) \<le> blk_buf (blk rbb (last (h # A @ B))) \<longleftrightarrow> B = []"
proof (cases "B = []")
  case True
  have "fst (span rbb h) \<le> fst (span rbb (last (h # A)))"
  proof (cases "A = []")
    case False
    then have "last (h # A) \<in> set A" by simp
    moreover have "laid (fst (span rbb h) + snd (span rbb h)) (unat (rbb_buf rbb) + unat (rbb_buf_size rbb)) (map (span rbb) A)"
      using l by (cases "span rbb h") (simp add: rbb_layout_def)
    ultimately show ?thesis using laid_map_inside by fastforce
  qed simp
  then show ?thesis using True by (simp add: span_def word_le_nat_alt)
next
  case False
  then have "last (h # A @ B) \<in> set B" by simp
  then have "fst (span rbb (last (h # A @ B))) + snd (span rbb (last (h # A @ B))) \<le> fst (span rbb h)"
    "0 < snd (span rbb (last (h # A @ B)))"
    using l False laid_map_inside[of _ _ rbb B "last (h # A @ B)"] by (auto simp: rbb_layout_def)
  then show ?thesis using False by (simp add: span_def word_le_nat_alt)
qed

lemma rbb_blk_alloc_ok:
  assumes ok: "rbb_ok rbb" and n: "0 < n"
    and fits: "blk_list rbb = [] \<Longrightarrow> rbb_find_empty_blk_in_set rbb \<noteq> None \<Longrightarrow> n \<le> rbb_buf_size rbb"
  shows "\<exists>rbb' r. rbb_blk_alloc n rbb = OK (rbb', r) \<and> rbb_ok rbb' \<and>
    (case r of None \<Rightarrow> rbb' = rbb
     | Some i \<Rightarrow> i < length (blk_set rbb) \<and> blk_status (blk rbb i) = RBB_BLK_STATUS_UNUSED \<and> (\<exists>a. rbb' = rbb_place i a n rbb))"
proof (cases "rbb_find_empty_blk_in_set rbb")
  case None
  then show ?thesis using ok n by (simp add: rbb_blk_alloc_def)
next
  case (Some i)
  note i = rbb_find_empty[OF Some, THEN conjunct1] rbb_find_empty[OF Some, THEN conjunct2]
  obtain A B where l: "rbb_layout rbb A B" using rbb_okD(5)[OF ok] by blast
  show ?thesis
  proof (cases "blk_list rbb")
    case Nil
    then have "rbb_layout rbb (blk_list rbb) []" using l by (simp add: rbb_layout_def)
    from rbb_place_start[OF ok i n _ this] show ?thesis
      using Nil Some n fits i by (auto simp: rbb_blk_alloc_def word_le_nat_alt)
  next
    case (Cons h bs)
    then obtain A' where A: "A = h # A'" "bs = A' @ B" using l by (cases A) (auto simp: rbb_layout_def)
    define t where "t = last (h # bs)"
    have t: "t \<in> set (blk_list rbb)" "t = last (h # A' @ B)"
      unfolding t_def Cons A(2) by (rule last_in_set, simp) (rule refl)
    have h: "h \<in> set (blk_list rbb)" using Cons by simp
    note inh = rbb_blocks_apart(1)[OF ok h] and int = rbb_blocks_apart(1)[OF ok t(1)] and e = rbb_end_of_block[OF ok t(1)]
    note w = rbb_wrapped_iff[OF ok l[unfolded A(1)], folded t(2)]
    note behind = rbb_place_behind[OF ok i l[unfolded A(1)] n, folded t(2), OF e(1)]
    have fh: "unat (blk_buf (blk rbb h)) = fst (span rbb h)" by (simp add: span_def)
    show ?thesis
    proof (cases "B = []")
      case True
      have "unat ((rbb_buf rbb + rbb_buf_size rbb) - (blk_buf (blk rbb t) + blk_buf_size (blk rbb t))) =
          unat (rbb_buf rbb) + unat (rbb_buf_size rbb) - (fst (span rbb t) + snd (span rbb t))"
        using int e by (simp add: unat_sub word_le_nat_alt)
      then have b: "rbb_ok (rbb_place i (blk_buf (blk rbb t) + blk_buf_size (blk rbb t)) n rbb)"
        if "n \<le> (rbb_buf rbb + rbb_buf_size rbb) - (blk_buf (blk rbb t) + blk_buf_size (blk rbb t))"
        using that True int e(1) n by (intro behind) (auto simp: word_le_nat_alt word_less_nat_alt)
      have "unat (blk_buf (blk rbb h) - rbb_buf rbb) = fst (span rbb h) - unat (rbb_buf rbb)"
        using inh fh by (simp add: unat_sub word_le_nat_alt)
      then have s: "rbb_ok (rbb_place i (rbb_buf rbb) n rbb)" if "n \<le> blk_buf (blk rbb h) - rbb_buf rbb"
        using that inh n l True A Cons by (intro rbb_place_start[OF ok i n]) (auto simp: word_le_nat_alt word_less_nat_alt)
      show ?thesis
        using Some Cons n ok w True b s i t_def[symmetric] by (auto simp: rbb_blk_alloc_def Let_def)
    next
      case False
      have "fst (span rbb t) + snd (span rbb t) \<le> fst (span rbb h)"
        using False l A t(2) laid_map_inside[of _ _ rbb B t] by (auto simp: rbb_layout_def)
      then have "unat (blk_buf (blk rbb h) - (blk_buf (blk rbb t) + blk_buf_size (blk rbb t))) =
          fst (span rbb h) - (fst (span rbb t) + snd (span rbb t))"
        and le: "fst (span rbb t) + snd (span rbb t) \<le> fst (span rbb h)"
        using e fh by (simp_all add: unat_sub word_le_nat_alt)
      then have b: "rbb_ok (rbb_place i (blk_buf (blk rbb t) + blk_buf_size (blk rbb t)) n rbb)"
        if "n \<le> blk_buf (blk rbb h) - (blk_buf (blk rbb t) + blk_buf_size (blk rbb t))"
        using that False e(1) n by (intro behind) (auto simp: word_le_nat_alt word_less_nat_alt)
      show ?thesis
        using Some Cons n ok w False b i t_def[symmetric] by (auto simp: rbb_blk_alloc_def Let_def)
    qed
  qed
qed

text \<open>Handing a block over changes only its status.\<close>

lemma rbb_status_ok:
  assumes ok: "rbb_ok rbb" and i: "i \<in> set (blk_list rbb)" and st: "st \<noteq> RBB_BLK_STATUS_UNUSED"
    "st = RBB_BLK_STATUS_GET \<Longrightarrow> i \<notin> set (tl (blk_list rbb))"
  shows "rbb_ok (set_blk i ((blk rbb i)\<lparr>blk_status := st\<rparr>) rbb)"
proof -
  note D = rbb_okD[OF ok]
  have l: "i < length (blk_set rbb)" using D(3)[of i] i by simp
  have s: "span (set_blk i ((blk rbb i)\<lparr>blk_status := st\<rparr>) rbb) = span rbb" using l by (auto simp: span_def)
  obtain A B where "rbb_layout rbb A B" using D(5) by blast
  then have "rbb_layout (set_blk i ((blk rbb i)\<lparr>blk_status := st\<rparr>) rbb) A B" by (simp add: rbb_layout_def s)
  moreover have "blk_status (blk (set_blk i ((blk rbb i)\<lparr>blk_status := st\<rparr>) rbb) j) \<noteq> RBB_BLK_STATUS_GET"
    if "j \<in> set (tl (blk_list rbb))" for j
    using that D(4)[of j] st(2) l by auto
  moreover have "j \<in> set (blk_list rbb) \<longleftrightarrow> j < length (blk_set rbb) \<and>
      blk_status (blk (set_blk i ((blk rbb i)\<lparr>blk_status := st\<rparr>) rbb) j) \<noteq> RBB_BLK_STATUS_UNUSED" for j
    using D(3)[of j] i st(1) l by auto
  ultimately show ?thesis using D(1,2) unfolding rbb_ok_def by (simp only: set_blk_simps) blast
qed

lemma rbb_blk_put_ok:
  assumes "rbb_ok rbb" "i < length (blk_set rbb)" "rbb_blk_put i rbb = OK rbb'"
  shows "rbb_ok rbb' \<and> blk_list rbb' = blk_list rbb"
  using assms rbb_okD(3)[OF assms(1), of i] rbb_status_ok[OF assms(1), of i RBB_BLK_STATUS_PUT]
  by (auto simp: rbb_blk_put_def res_simps)

lemma rbb_blk_get_ok:
  assumes ok: "rbb_ok rbb" and g: "rbb_blk_get rbb = (rbb', r)"
  shows "rbb_ok rbb' \<and> blk_list rbb' = blk_list rbb"
proof (cases "blk_list rbb")
  case Nil
  then show ?thesis using ok g by (simp add: rbb_blk_get_def)
next
  case (Cons h bs)
  then have "h \<notin> set bs" using rbb_okD(2)[OF ok] by simp
  then show ?thesis
    using Cons g ok rbb_status_ok[OF ok, of h RBB_BLK_STATUS_GET] by (auto simp: rbb_blk_get_def split: if_splits)
qed

text \<open>Only the oldest block can have been taken, so only the oldest block is ever freed.\<close>

lemma rbb_blk_free_ok:
  assumes ok: "rbb_ok rbb" and i: "i < length (blk_set rbb)" and f: "rbb_blk_free i rbb = OK rbb'"
  shows "rbb_ok rbb' \<and> blk_list rbb = i # blk_list rbb'"
proof -
  note D = rbb_okD[OF ok]
  have g: "blk_status (blk rbb i) = RBB_BLK_STATUS_GET" using f by (simp add: rbb_blk_free_def res_simps)
  then have "i \<in> set (blk_list rbb)" "i \<notin> set (tl (blk_list rbb))" using D(3,4)[of i] i by auto
  then obtain bs where l: "blk_list rbb = i # bs" "i \<notin> set bs" by (cases "blk_list rbb") auto
  have r: "rbb' = (set_blk i ((blk rbb i)\<lparr>blk_status := RBB_BLK_STATUS_UNUSED\<rparr>) rbb)\<lparr>blk_list := bs\<rparr>"
    using f l g by (simp add: rbb_blk_free_def)
  have b: "blk rbb' j = (if j = i then (blk rbb i)\<lparr>blk_status := RBB_BLK_STATUS_UNUSED\<rparr> else blk rbb j)" for j
    using i by (simp add: r set_blk_def nth_list_update)
  have s: "span rbb' = span rbb" by (auto simp: span_def b)
  have fr: "rbb_buf rbb' = rbb_buf rbb" "rbb_buf_size rbb' = rbb_buf_size rbb" "blk_list rbb' = bs"
    by (simp_all add: r)
  obtain A B where L: "rbb_layout rbb A B" using D(5) by blast
  then obtain A' where A: "A = i # A'" "bs = A' @ B" using l by (cases A) (auto simp: rbb_layout_def)
  have up: "laid (fst (span rbb i) + snd (span rbb i)) (unat (rbb_buf rbb) + unat (rbb_buf_size rbb)) (map (span rbb) A')"
    "unat (rbb_buf rbb) \<le> fst (span rbb i)"
    using L A by (cases "span rbb i", simp add: rbb_layout_def)+
  have "\<exists>A B. rbb_layout rbb' A B"
  proof (cases A')
    case Nil
    have "fst (span rbb i) \<le> unat (rbb_buf rbb) + unat (rbb_buf_size rbb)" using laid_le[OF up(1)] by simp
    then have "rbb_layout rbb' B []"
      using L A Nil up by (cases "B = []") (auto simp: rbb_layout_def fr s elim: laid_mono)
    then show ?thesis by blast
  next
    case (Cons h A'')
    have "fst (span rbb i) \<le> fst (span rbb h)" using up(1) Cons by (cases "span rbb h") simp
    then have "rbb_layout rbb' A' B"
      using L A up Cons by (auto simp: rbb_layout_def fr s elim: laid_mono)
    then show ?thesis by blast
  qed
  moreover have "blk_status (blk rbb' j) \<noteq> RBB_BLK_STATUS_GET" if "j \<in> set (tl bs)" for j
  proof -
    have "j \<in> set bs" using that by (cases bs) auto
    then show ?thesis using D(4)[of j] l by (auto simp: b)
  qed
  moreover have "j \<in> set bs \<longleftrightarrow> j < length (blk_set rbb) \<and> blk_status (blk rbb' j) \<noteq> RBB_BLK_STATUS_UNUSED" for j
    using D(3)[of j] l by (auto simp: b)
  ultimately show ?thesis using D(1,2) l unfolding rbb_ok_def by (auto simp: r)
qed

subsection \<open>Properties\<close>

datatype rbb_call = Rbb_alloc u32 | Rbb_put nat | Rbb_get | Rbb_free nat

definition rbb_call :: "rbb_call \<Rightarrow> rbb_ctrl_info \<Rightarrow> (rbb_ctrl_info \<times> nat option) res" where
  "rbb_call x rbb = (case x of
     Rbb_alloc n \<Rightarrow> rbb_blk_alloc n rbb
   | Rbb_put i \<Rightarrow> bind_res (rbb_blk_put i rbb) (\<lambda>rbb'. OK (rbb', None))
   | Rbb_get \<Rightarrow> OK (rbb_blk_get rbb)
   | Rbb_free i \<Rightarrow> bind_res (rbb_blk_free i rbb) (\<lambda>rbb'. OK (rbb', Some i)))"

text \<open>Calls name blocks of the set.\<close>

definition rbb_allowed :: "rbb_ctrl_info \<Rightarrow> rbb_call \<Rightarrow> bool" where
  "rbb_allowed rbb x \<longleftrightarrow> (case x of
     Rbb_alloc n \<Rightarrow> True | Rbb_put i \<Rightarrow> i < length (blk_set rbb) | Rbb_get \<Rightarrow> True
   | Rbb_free i \<Rightarrow> i < length (blk_set rbb))"

text \<open>A sequence of calls, with the blocks allocated and the blocks freed, in order.\<close>

fun rbb_run :: "rbb_call list \<Rightarrow> rbb_ctrl_info \<Rightarrow> (rbb_ctrl_info \<times> nat list \<times> nat list) res" where
  "rbb_run [] rbb = OK (rbb, [], [])"
| "rbb_run (x # xs) rbb = bind_res (rbb_call x rbb) (\<lambda>(rbb1, r). bind_res (rbb_run xs rbb1) (\<lambda>(rbb2, ins, outs).
     OK (rbb2, (case (x, r) of (Rbb_alloc n, Some i) \<Rightarrow> i # ins | _ \<Rightarrow> ins),
         (case x of Rbb_free i \<Rightarrow> i # outs | _ \<Rightarrow> outs))))"

lemma rbb_call_step:
  assumes "rbb_ok rbb" "rbb_allowed rbb x"
    and fits: "\<And>n. x = Rbb_alloc n \<Longrightarrow> blk_list rbb = [] \<Longrightarrow> rbb_find_empty_blk_in_set rbb \<noteq> None \<Longrightarrow> n \<le> rbb_buf_size rbb"
  shows "rbb_call x rbb = Fault AssertFail \<or> (\<exists>rbb1 r. rbb_call x rbb = OK (rbb1, r) \<and> rbb_ok rbb1 \<and>
    rbb_buf_size rbb1 = rbb_buf_size rbb \<and> length (blk_set rbb1) = length (blk_set rbb) \<and>
    blk_list rbb @ (case (x, r) of (Rbb_alloc n, Some i) \<Rightarrow> [i] | _ \<Rightarrow> []) =
      (case x of Rbb_free i \<Rightarrow> [i] | _ \<Rightarrow> []) @ blk_list rbb1)"
proof (cases x)
  case (Rbb_alloc n)
  show ?thesis
  proof (cases "0 < n")
    case True
    obtain rbb' r where r: "rbb_blk_alloc n rbb = OK (rbb', r)" "rbb_ok rbb'"
      "case r of None \<Rightarrow> rbb' = rbb | Some i \<Rightarrow> i < length (blk_set rbb) \<and>
         blk_status (blk rbb i) = RBB_BLK_STATUS_UNUSED \<and> (\<exists>a. rbb' = rbb_place i a n rbb)"
      using rbb_blk_alloc_ok[OF assms(1) True fits[OF Rbb_alloc]] by auto
    then show ?thesis by (cases r) (auto simp: Rbb_alloc rbb_call_def)
  next
    case False
    then show ?thesis by (simp add: Rbb_alloc rbb_call_def rbb_blk_alloc_def)
  qed
next
  case (Rbb_put i)
  show ?thesis
    using assms(1,2) rbb_blk_put_ok[OF assms(1), of i]
    by (cases "blk_status (blk rbb i) = RBB_BLK_STATUS_INITED")
       (auto simp: Rbb_put rbb_call_def rbb_allowed_def rbb_blk_put_def)
next
  case Rbb_get
  obtain rbb1 r where g: "rbb_blk_get rbb = (rbb1, r)" by force
  moreover have "rbb_buf_size rbb1 = rbb_buf_size rbb \<and> length (blk_set rbb1) = length (blk_set rbb)"
    using g by (auto simp: rbb_blk_get_def split: list.splits if_splits)
  ultimately show ?thesis using rbb_blk_get_ok[OF assms(1) g] by (simp add: Rbb_get rbb_call_def)
next
  case (Rbb_free i)
  show ?thesis
  proof (cases "blk_status (blk rbb i) = RBB_BLK_STATUS_GET")
    case True
    let ?rbb = "(set_blk i ((blk rbb i)\<lparr>blk_status := RBB_BLK_STATUS_UNUSED\<rparr>) rbb)\<lparr>blk_list := removeAll i (blk_list rbb)\<rparr>"
    have f: "rbb_blk_free i rbb = OK ?rbb" using True by (simp add: rbb_blk_free_def)
    show ?thesis
      using rbb_blk_free_ok[OF assms(1) _ f] assms(2) f by (simp add: Rbb_free rbb_call_def rbb_allowed_def)
  qed (simp add: Rbb_free rbb_call_def rbb_blk_free_def)
qed

lemma rbb_allowed_cong:
  "rbb_buf_size rbb1 = rbb_buf_size rbb \<Longrightarrow> length (blk_set rbb1) = length (blk_set rbb) \<Longrightarrow> rbb_allowed rbb1 = rbb_allowed rbb"
  by (auto simp: rbb_allowed_def fun_eq_iff split: rbb_call.split)

text \<open>
  An allocation from a buffer that is not in use succeeds whatever its size. At some call of a
  sequence such an allocation asks for more bytes than the buffer has, and the block that it gets
  ends behind the last byte of the buffer.
\<close>

definition oversize_block :: "rbb_call list \<Rightarrow> rbb_ctrl_info \<Rightarrow> bool" where
  "oversize_block xs rbb \<longleftrightarrow> (\<exists>ys n zs rbb1 ins outs rbb2 i. xs = ys @ Rbb_alloc n # zs \<and> rbb_run ys rbb = OK (rbb1, ins, outs) \<and>
     rbb_ok rbb1 \<and> blk_list rbb1 = [] \<and> rbb_buf_size rbb1 < n \<and> rbb_call (Rbb_alloc n) rbb1 = OK (rbb2, Some i) \<and>
     unat (rbb_buf rbb2) + unat (rbb_buf_size rbb2) < fst (span rbb2 i) + snd (span rbb2 i))"

lemma rbb_alloc_oversize:
  assumes "rbb_ok rbb" "blk_list rbb = []" "rbb_find_empty_blk_in_set rbb \<noteq> None" "rbb_buf_size rbb < n"
  shows "oversize_block (Rbb_alloc n # xs) rbb"
proof -
  obtain i where i: "rbb_find_empty_blk_in_set rbb = Some i" using assms(3) by auto
  have n: "0 < n" using assms(4) by (metis order_le_less_trans word_zero_le)
  let ?rbb = "rbb_place i (rbb_buf rbb) n rbb"
  have "rbb_call (Rbb_alloc n) rbb = OK (?rbb, Some i)" using i assms(2) n by (simp add: rbb_call_def rbb_blk_alloc_def)
  moreover have "unat (rbb_buf ?rbb) + unat (rbb_buf_size ?rbb) < fst (span ?rbb i) + snd (span ?rbb i)"
    using rbb_find_empty[OF i] assms(4) by (simp add: span_place word_less_nat_alt)
  ultimately show ?thesis
    unfolding oversize_block_def using assms(1,2,4) by (intro exI[of _ "[]"]) auto
qed

lemma oversize_later:
  assumes "rbb_call x rbb = OK (rbb1, r)" "oversize_block xs rbb1"
  shows "oversize_block (x # xs) rbb"
proof -
  obtain ys n zs rbb2 ins outs rbb3 i where xs: "xs = ys @ Rbb_alloc n # zs" and run: "rbb_run ys rbb1 = OK (rbb2, ins, outs)"
    and rest: "rbb_ok rbb2" "blk_list rbb2 = []" "rbb_buf_size rbb2 < n" "rbb_call (Rbb_alloc n) rbb2 = OK (rbb3, Some i)"
      "unat (rbb_buf rbb3) + unat (rbb_buf_size rbb3) < fst (span rbb3 i) + snd (span rbb3 i)"
    using assms(2) unfolding oversize_block_def by blast
  have "\<exists>ins outs. rbb_run (x # ys) rbb = OK (rbb2, ins, outs)" using assms(1) run by simp
  then show ?thesis unfolding oversize_block_def using xs rest by (metis append_Cons)
qed

text \<open>It does not happen when every request fits into the buffer.\<close>

lemma rbb_call_size: "rbb_call x rbb = OK (rbb1, r) \<Longrightarrow> rbb_buf_size rbb1 = rbb_buf_size rbb"
  by (auto simp: rbb_call_def rbb_blk_alloc_def rbb_blk_put_def rbb_blk_get_def rbb_blk_free_def res_simps Let_def
      split: rbb_call.splits option.splits list.splits if_splits)

lemma rbb_run_size: "rbb_run xs rbb = OK (rbb1, ins, outs) \<Longrightarrow> rbb_buf_size rbb1 = rbb_buf_size rbb"
proof (induction xs arbitrary: rbb ins outs)
  case (Cons x xs)
  obtain rbb2 r ins' outs' where "rbb_call x rbb = OK (rbb2, r)" "rbb_run xs rbb2 = OK (rbb1, ins', outs')"
    using Cons.prems by (auto simp: res_simps)
  then show ?case using Cons.IH rbb_call_size by metis
qed simp

lemma fitting_not_oversize:
  assumes "\<And>n. Rbb_alloc n \<in> set xs \<Longrightarrow> n \<le> rbb_buf_size rbb"
  shows "\<not> oversize_block xs rbb"
proof
  assume "oversize_block xs rbb"
  then obtain ys n zs rbb1 ins outs where "xs = ys @ Rbb_alloc n # zs" "rbb_run ys rbb = OK (rbb1, ins, outs)" "rbb_buf_size rbb1 < n"
    unfolding oversize_block_def by blast
  then show False using assms[of n] rbb_run_size[of ys rbb rbb1 ins outs] by auto
qed

text \<open>
  C29. Ring block buffer: any sequence of allocations, hand-overs, takings and frees that name
  blocks of the set stops in an assertion, or leaves blocks that lie inside the buffer and do not
  overlap each other, freed in the order in which they were allocated, or asks at some point an
  unused buffer for more bytes than it has: the code does not check that, and the block that it
  hands out then ends behind the buffer.
\<close>

theorem rbb_blocks_disjoint_in_order:
  assumes "rbb_ok rbb" "\<forall>x \<in> set xs. rbb_allowed rbb x"
  shows "rbb_run xs rbb = Fault AssertFail \<or> oversize_block xs rbb \<or>
    (\<exists>rbb' ins outs. rbb_run xs rbb = OK (rbb', ins, outs) \<and> rbb_ok rbb' \<and> blk_list rbb @ ins = outs @ blk_list rbb' \<and>
      (\<forall>i \<in> set (blk_list rbb'). unat (rbb_buf rbb') \<le> fst (span rbb' i) \<and>
         fst (span rbb' i) + snd (span rbb' i) \<le> unat (rbb_buf rbb') + unat (rbb_buf_size rbb') \<and>
         (\<forall>j \<in> set (blk_list rbb'). i \<noteq> j \<longrightarrow> disjoint_blks rbb' i j)))"
proof -
  have "rbb_run xs rbb = Fault AssertFail \<or> oversize_block xs rbb \<or>
    (\<exists>rbb' ins outs. rbb_run xs rbb = OK (rbb', ins, outs) \<and> rbb_ok rbb' \<and> blk_list rbb @ ins = outs @ blk_list rbb')"
    using assms
  proof (induction xs arbitrary: rbb)
    case (Cons x xs)
    show ?case
    proof (cases "\<exists>n. x = Rbb_alloc n \<and> blk_list rbb = [] \<and> rbb_find_empty_blk_in_set rbb \<noteq> None \<and> rbb_buf_size rbb < n")
      case True
      then show ?thesis using rbb_alloc_oversize[OF Cons.prems(1)] by blast
    next
      case False
      have "rbb_allowed rbb x" using Cons.prems(2) by simp
      then have "rbb_call x rbb = Fault AssertFail \<or> (\<exists>rbb1 r. rbb_call x rbb = OK (rbb1, r) \<and> rbb_ok rbb1 \<and>
          rbb_buf_size rbb1 = rbb_buf_size rbb \<and> length (blk_set rbb1) = length (blk_set rbb) \<and>
          blk_list rbb @ (case (x, r) of (Rbb_alloc n, Some i) \<Rightarrow> [i] | _ \<Rightarrow> []) =
            (case x of Rbb_free i \<Rightarrow> [i] | _ \<Rightarrow> []) @ blk_list rbb1)"
        by (rule rbb_call_step[OF Cons.prems(1)]) (use False not_le in blast)
      then show ?thesis
      proof (elim disjE exE conjE)
        fix rbb1 r
        assume 1: "rbb_call x rbb = OK (rbb1, r)" "rbb_ok rbb1" "rbb_buf_size rbb1 = rbb_buf_size rbb"
          "length (blk_set rbb1) = length (blk_set rbb)"
          and o: "blk_list rbb @ (case (x, r) of (Rbb_alloc n, Some i) \<Rightarrow> [i] | _ \<Rightarrow> []) =
            (case x of Rbb_free i \<Rightarrow> [i] | _ \<Rightarrow> []) @ blk_list rbb1"
        have "\<forall>y \<in> set xs. rbb_allowed rbb1 y" using Cons.prems(2) rbb_allowed_cong[OF 1(3,4)] by simp
        from Cons.IH[OF 1(2) this] show ?thesis
        proof (elim disjE exE conjE)
          fix rbb' ins outs
          assume 2: "rbb_run xs rbb1 = OK (rbb', ins, outs)" "rbb_ok rbb'" "blk_list rbb1 @ ins = outs @ blk_list rbb'"
          have "blk_list rbb @ (case (x, r) of (Rbb_alloc n, Some i) \<Rightarrow> i # ins | _ \<Rightarrow> ins) =
              (case x of Rbb_free i \<Rightarrow> i # outs | _ \<Rightarrow> outs) @ blk_list rbb'"
            using o 2(3) by (cases x; cases r) (auto dest!: sym[of _ "blk_list rbb1"])
          then show ?thesis using 1(1) 2(1,2) by simp
        qed (simp_all add: 1(1) oversize_later[OF 1(1)])
      qed auto
    qed
  qed simp
  then show ?thesis using rbb_blocks_apart by metis
qed

definition sample_rbb :: rbb_ctrl_info where
  "sample_rbb = rbb_do_init 0x20000000 64 (replicate 3 \<lparr>blk_buf = 0, blk_buf_size = 0, blk_status = RBB_BLK_STATUS_GET\<rparr>)"

lemma sample_rbb_ok: "rbb_ok sample_rbb"
proof -
  have "rbb_layout sample_rbb [] []" by (simp add: rbb_layout_def sample_rbb_def rbb_do_init_def)
  then have "\<exists>A B. rbb_layout sample_rbb A B" by blast
  then show ?thesis by (simp add: rbb_ok_def sample_rbb_def rbb_do_init_def)
qed

theorem rbb_blocks_disjoint_in_order_witness:
  "\<exists>rbb' ins outs. rbb_run [Rbb_alloc 20, Rbb_alloc 30, Rbb_put 0, Rbb_get, Rbb_free 0, Rbb_alloc 20] sample_rbb =
      OK (rbb', ins, outs) \<and> rbb_ok rbb' \<and> outs = [0] \<and> blk_list rbb' = [1, 0] \<and> disjoint_blks rbb' 0 1"
proof -
  let ?xs = "[Rbb_alloc 20, Rbb_alloc 30, Rbb_put 0, Rbb_get, Rbb_free 0, Rbb_alloc 20]"
  have "\<exists>rbb'. rbb_run ?xs sample_rbb = OK (rbb', [0, 1, 0], [0])"
    by (simp add: rbb_call_def rbb_blk_alloc_def rbb_find_empty_blk_in_set_def sample_rbb_def rbb_do_init_def
        rbb_place_def set_blk_def rbb_blk_put_def rbb_blk_get_def rbb_blk_free_def upt_rec numeral_3_eq_3 Let_def)
  moreover have "\<forall>x \<in> set ?xs. rbb_allowed sample_rbb x"
    by (simp add: rbb_allowed_def sample_rbb_def rbb_do_init_def)
  moreover have "\<not> oversize_block ?xs sample_rbb"
    by (rule fitting_not_oversize) (auto simp: sample_rbb_def rbb_do_init_def)
  moreover have "blk_list sample_rbb = []" by (simp add: sample_rbb_def rbb_do_init_def)
  ultimately show ?thesis using rbb_blocks_disjoint_in_order[OF sample_rbb_ok, of ?xs] by auto
qed

end
