(* ===== verification/Os_Firstfit.thy ===== *)
theory Os_Firstfit
  imports Linked Kernel_State
begin

unbundle bit_operations_syntax

text \<open>
  \<^verbatim>\<open>oneos/kernel/source/os_mem_firstfit.c\<close>, without \<^verbatim>\<open>OS_USING_MEM_TRACE\<close>: a heap of chunks
  of 8-byte units. A chunk begins with the size of its left neighbour and its own size with a
  used bit; a free chunk also holds its neighbours in the circular doubly linked list of its
  bucket, which holds the free chunks whose sizes have the same binary logarithm. Headers
  are half-words in a small heap and words in a big one. The semaphore that the operations
  take makes each of them atomic; the console output is left out.
\<close>

subsection \<open>The heap in memory\<close>

text \<open>
  \<open>cells\<close> is the memory from the address of the heap on, in half-words for a small heap and
  in words for a big one, as \<^verbatim>\<open>_k_chunk_field\<close> reads it; the other fields of
  \<^verbatim>\<open>struct z_heap\<close> and the array of buckets, which lie behind the header of chunk 0, are
  fields of their own.
\<close>

record z_heap =
  hp_addr :: u32
  hp_len :: u32
  avail_buckets :: u32
  buckets :: "u32 list"
  cells :: "nat \<Rightarrow> u32"

definition CHUNK_UNIT :: u32 where "CHUNK_UNIT = 8"
definition CONFIG_SYS_HEAP_ALLOC_LOOPS :: nat where "CONFIG_SYS_HEAP_ALLOC_LOOPS = 8"

text \<open>The fields of a chunk, by their index.\<close>

definition LEFT_SIZE :: nat where "LEFT_SIZE = 0"
definition SIZE_AND_USED :: nat where "SIZE_AND_USED = 1"
definition FREE_PREV :: nat where "FREE_PREV = 2"
definition FREE_NEXT :: nat where "FREE_NEXT = 3"

definition k_big_heap_chunks :: "u32 \<Rightarrow> bool" where
  "k_big_heap_chunks chunks \<longleftrightarrow> 0x7fff < chunks"

definition k_big_heap_bytes :: "u32 \<Rightarrow> bool" where
  "k_big_heap_bytes bytes \<longleftrightarrow> k_big_heap_chunks (bytes div CHUNK_UNIT)"

definition k_big_heap :: "z_heap \<Rightarrow> bool" where
  "k_big_heap h \<longleftrightarrow> k_big_heap_chunks (hp_len h)"

definition chunk_cell :: "bool \<Rightarrow> u32 \<Rightarrow> nat \<Rightarrow> nat" where
  "chunk_cell big c f = (if big then 2 * unat c + f else 4 * unat c + f)"

definition k_chunk_field :: "z_heap \<Rightarrow> u32 \<Rightarrow> nat \<Rightarrow> u32" where
  "k_chunk_field h c f = cells h (chunk_cell (k_big_heap h) c f)"

definition set_cell :: "nat \<Rightarrow> u32 \<Rightarrow> z_heap \<Rightarrow> z_heap" where
  "set_cell i v h = h\<lparr>cells := (cells h)(i := v)\<rparr>"

definition k_chunk_set :: "u32 \<Rightarrow> nat \<Rightarrow> u32 \<Rightarrow> z_heap \<Rightarrow> z_heap res" where
  "k_chunk_set c f v h = os_assert (c \<le> hp_len h)
     (os_assert (k_big_heap h \<or> v = ucast (ucast v :: u16))
       (OK (set_cell (chunk_cell (k_big_heap h) c f) v h)))"

definition k_chunk_used :: "z_heap \<Rightarrow> u32 \<Rightarrow> bool" where
  "k_chunk_used h c \<longleftrightarrow> k_chunk_field h c SIZE_AND_USED AND 1 \<noteq> 0"

definition k_chunk_size :: "z_heap \<Rightarrow> u32 \<Rightarrow> u32" where
  "k_chunk_size h c = drop_bit 1 (k_chunk_field h c SIZE_AND_USED)"

definition k_set_chunk_used :: "u32 \<Rightarrow> bool \<Rightarrow> z_heap \<Rightarrow> z_heap" where
  "k_set_chunk_used c used h =
     (let i = chunk_cell (k_big_heap h) c SIZE_AND_USED
      in set_cell i (if used then cells h i OR 1 else cells h i AND NOT 1) h)"

definition k_set_chunk_size :: "u32 \<Rightarrow> u32 \<Rightarrow> z_heap \<Rightarrow> z_heap res" where
  "k_set_chunk_size c sz = k_chunk_set c SIZE_AND_USED (push_bit 1 sz)"

definition k_prev_free_chunk :: "z_heap \<Rightarrow> u32 \<Rightarrow> u32" where
  "k_prev_free_chunk h c = k_chunk_field h c FREE_PREV"

definition k_next_free_chunk :: "z_heap \<Rightarrow> u32 \<Rightarrow> u32" where
  "k_next_free_chunk h c = k_chunk_field h c FREE_NEXT"

definition k_set_prev_free_chunk :: "u32 \<Rightarrow> u32 \<Rightarrow> z_heap \<Rightarrow> z_heap res" where
  "k_set_prev_free_chunk c prev = k_chunk_set c FREE_PREV prev"

definition k_set_next_free_chunk :: "u32 \<Rightarrow> u32 \<Rightarrow> z_heap \<Rightarrow> z_heap res" where
  "k_set_next_free_chunk c next = k_chunk_set c FREE_NEXT next"

definition k_left_chunk :: "z_heap \<Rightarrow> u32 \<Rightarrow> u32" where
  "k_left_chunk h c = c - k_chunk_field h c LEFT_SIZE"

definition k_right_chunk :: "z_heap \<Rightarrow> u32 \<Rightarrow> u32" where
  "k_right_chunk h c = c + k_chunk_size h c"

definition k_set_left_chunk_size :: "u32 \<Rightarrow> u32 \<Rightarrow> z_heap \<Rightarrow> z_heap res" where
  "k_set_left_chunk_size c sz = k_chunk_set c LEFT_SIZE sz"

definition k_solo_free_header :: "z_heap \<Rightarrow> u32 \<Rightarrow> bool" where
  "k_solo_free_header h c \<longleftrightarrow> k_big_heap h \<and> k_chunk_size h c = 1"

subsection \<open>Sizes\<close>

definition k_chunk_header_bytes :: "z_heap \<Rightarrow> u32" where
  "k_chunk_header_bytes h = (if k_big_heap h then 8 else 4)"

definition k_heap_footer_bytes :: "u32 \<Rightarrow> u32" where
  "k_heap_footer_bytes sz = (if k_big_heap_bytes sz then 8 else 4)"

definition k_chunksz :: "u32 \<Rightarrow> u32" where
  "k_chunksz bytes = (bytes + CHUNK_UNIT - 1) div CHUNK_UNIT"

definition k_bytes_to_chunksz :: "z_heap \<Rightarrow> u32 \<Rightarrow> u32" where
  "k_bytes_to_chunksz h bytes = k_chunksz (k_chunk_header_bytes h + bytes)"

definition k_chunksz_to_bytes :: "z_heap \<Rightarrow> u32 \<Rightarrow> u32" where
  "k_chunksz_to_bytes h chunk_sz = chunk_sz * CHUNK_UNIT - k_chunk_header_bytes h"

definition k_min_chunk_size :: "z_heap \<Rightarrow> u32" where
  "k_min_chunk_size h = k_bytes_to_chunksz h 1"

text \<open>
  \<^verbatim>\<open>__builtin_clz\<close>, which counts leading zeros (32 of them in 0, as the \<^verbatim>\<open>CLZ\<close>
  instruction does), and \<^verbatim>\<open>__builtin_ctz\<close>.
\<close>

definition builtin_clz :: "u32 \<Rightarrow> int" where
  "builtin_clz v = (case find (bit v) (rev [0..<32]) of None \<Rightarrow> 32 | Some i \<Rightarrow> 31 - int i)"

definition k_ctz32 :: "u32 \<Rightarrow> nat" where
  "k_ctz32 v = (case find (bit v) [0..<32] of None \<Rightarrow> 32 | Some i \<Rightarrow> i)"

definition k_bucket_idx :: "z_heap \<Rightarrow> u32 \<Rightarrow> nat" where
  "k_bucket_idx h sz =
     (let usable_sz = sz - k_min_chunk_size h + 1; b_idx = 31 - builtin_clz usable_sz
      in if b_idx < 0 then 0 else nat b_idx)"

text \<open>The user's address of a chunk and back.\<close>

definition k_chunk_mem :: "z_heap \<Rightarrow> u32 \<Rightarrow> u32 res" where
  "k_chunk_mem h c =
     (let ret = hp_addr h + c * CHUNK_UNIT + k_chunk_header_bytes h
      in os_assert (ret AND (if k_big_heap h then 7 else 3) = 0) (OK ret))"

definition k_mem_to_chunkid :: "z_heap \<Rightarrow> u32 \<Rightarrow> u32" where
  "k_mem_to_chunkid h p = (p - k_chunk_header_bytes h - hp_addr h) div CHUNK_UNIT"

subsection \<open>Free lists\<close>

definition get_bucket :: "z_heap \<Rightarrow> nat \<Rightarrow> u32 res" where
  "get_bucket h i = (if i < length (buckets h) then OK (buckets h ! i) else Fault OutOfRange)"

definition set_bucket :: "nat \<Rightarrow> u32 \<Rightarrow> z_heap \<Rightarrow> z_heap res" where
  "set_bucket i c h = (if i < length (buckets h) then OK (h\<lparr>buckets := (buckets h)[i := c]\<rparr>) else Fault OutOfRange)"

definition k_free_list_remove_bidx :: "u32 \<Rightarrow> nat \<Rightarrow> z_heap \<Rightarrow> z_heap res" where
  "k_free_list_remove_bidx c bidx h =
     os_assert (\<not> k_chunk_used h c) (bind_res (get_bucket h bidx) (\<lambda>b.
     os_assert (b \<noteq> 0) (os_assert (avail_buckets h AND push_bit bidx 1 \<noteq> 0)
       (if k_next_free_chunk h c = c then
          set_bucket bidx 0 (h\<lparr>avail_buckets := avail_buckets h AND NOT (push_bit bidx 1)\<rparr>)
        else
          let first = k_prev_free_chunk h c; second = k_next_free_chunk h c
          in bind_res (set_bucket bidx second h) (\<lambda>h1.
             bind_res (k_set_next_free_chunk first second h1) (k_set_prev_free_chunk second first))))))"

definition k_free_list_remove :: "u32 \<Rightarrow> z_heap \<Rightarrow> z_heap res" where
  "k_free_list_remove c h =
     (if \<not> k_solo_free_header h c then k_free_list_remove_bidx c (k_bucket_idx h (k_chunk_size h c)) h
      else OK h)"

definition k_free_list_add_bidx :: "u32 \<Rightarrow> nat \<Rightarrow> z_heap \<Rightarrow> z_heap res" where
  "k_free_list_add_bidx c bidx h = bind_res (get_bucket h bidx) (\<lambda>b.
     if b = 0 then
       os_assert (avail_buckets h AND push_bit bidx 1 = 0)
         (bind_res (set_bucket bidx c (h\<lparr>avail_buckets := avail_buckets h OR push_bit bidx 1\<rparr>)) (\<lambda>h1.
          bind_res (k_set_prev_free_chunk c c h1) (k_set_next_free_chunk c c)))
     else
       os_assert (avail_buckets h AND push_bit bidx 1 \<noteq> 0)
         (let second = b; first = k_prev_free_chunk h second
          in bind_res (k_set_prev_free_chunk c first h) (\<lambda>h1.
             bind_res (k_set_next_free_chunk c second h1) (\<lambda>h2.
             bind_res (k_set_next_free_chunk first c h2) (k_set_prev_free_chunk second c)))))"

definition k_free_list_add :: "u32 \<Rightarrow> z_heap \<Rightarrow> z_heap res" where
  "k_free_list_add c h =
     (if \<not> k_solo_free_header h c then k_free_list_add_bidx c (k_bucket_idx h (k_chunk_size h c)) h
      else OK h)"

subsection \<open>Splitting and merging\<close>

definition k_split_chunks :: "u32 \<Rightarrow> u32 \<Rightarrow> z_heap \<Rightarrow> z_heap res" where
  "k_split_chunks lc rc h =
     os_assert (lc < rc) (os_assert (rc - lc < k_chunk_size h lc)
       (let sz0 = k_chunk_size h lc; lsz = rc - lc; rsz = sz0 - lsz
        in bind_res (k_set_chunk_size lc lsz h) (\<lambda>h1.
           bind_res (k_set_chunk_size rc rsz h1) (\<lambda>h2.
           bind_res (k_set_left_chunk_size rc lsz h2) (\<lambda>h3.
             k_set_left_chunk_size (k_right_chunk h3 rc) rsz h3)))))"

definition k_merge_chunks :: "u32 \<Rightarrow> u32 \<Rightarrow> z_heap \<Rightarrow> z_heap res" where
  "k_merge_chunks lc rc h =
     (let newsz = k_chunk_size h lc + k_chunk_size h rc
      in bind_res (k_set_chunk_size lc newsz h) (\<lambda>h1.
           k_set_left_chunk_size (k_right_chunk h1 rc) newsz h1))"

text \<open>A chunk that becomes free absorbs its right neighbour and is absorbed by its left one.\<close>

definition free_merge_right :: "u32 \<Rightarrow> z_heap \<Rightarrow> z_heap res" where
  "free_merge_right c h =
     (if \<not> k_chunk_used h (k_right_chunk h c) then
        bind_res (k_free_list_remove (k_right_chunk h c) h) (\<lambda>h1. k_merge_chunks c (k_right_chunk h1 c) h1)
      else OK h)"

definition free_merge_left :: "u32 \<Rightarrow> z_heap \<Rightarrow> (z_heap \<times> u32) res" where
  "free_merge_left c h =
     (if \<not> k_chunk_used h (k_left_chunk h c) then
        bind_res (k_free_list_remove (k_left_chunk h c) h) (\<lambda>h1.
        bind_res (k_merge_chunks (k_left_chunk h1 c) c h1) (\<lambda>h2. OK (h2, k_left_chunk h2 c)))
      else OK (h, c))"

definition k_free_chunk :: "u32 \<Rightarrow> z_heap \<Rightarrow> z_heap res" where
  "k_free_chunk c h = bind_res (free_merge_right c h) (\<lambda>h1.
     bind_res (free_merge_left c h1) (\<lambda>(h2, c2). k_free_list_add c2 h2))"

subsection \<open>Allocation of a chunk\<close>

text \<open>
  Up to eight chunks of the bucket of the wanted size are tried, turning the bucket round;
  then the first chunk of the next better bucket is taken.
\<close>

fun alloc_loop :: "nat \<Rightarrow> nat \<Rightarrow> u32 \<Rightarrow> u32 \<Rightarrow> z_heap \<Rightarrow> (z_heap \<times> u32) res" where
  "alloc_loop 0 bi first sz h = OK (h, 0)"
| "alloc_loop (Suc i) bi first sz h = bind_res (get_bucket h bi) (\<lambda>c.
     if sz \<le> k_chunk_size h c then bind_res (k_free_list_remove_bidx c bi h) (\<lambda>h1. OK (h1, c))
     else let next = k_next_free_chunk h c
          in bind_res (set_bucket bi next h) (\<lambda>h1.
             os_assert (next \<noteq> 0) (if next = first then OK (h1, 0) else alloc_loop i bi first sz h1)))"

definition alloc_larger :: "nat \<Rightarrow> u32 \<Rightarrow> z_heap \<Rightarrow> (z_heap \<times> u32) res" where
  "alloc_larger bi sz h =
     (let bmask = avail_buckets h AND NOT (push_bit (bi + 1) 1 - 1)
      in if bmask AND avail_buckets h \<noteq> 0 then
           let minbucket = k_ctz32 (bmask AND avail_buckets h)
           in bind_res (get_bucket h minbucket) (\<lambda>c.
              bind_res (k_free_list_remove_bidx c minbucket h) (\<lambda>h1.
              os_assert (sz \<le> k_chunk_size h1 c) (OK (h1, c))))
         else OK (h, 0))"

definition k_alloc_chunk :: "u32 \<Rightarrow> z_heap \<Rightarrow> (z_heap \<times> u32) res" where
  "k_alloc_chunk sz h =
     (let bi = k_bucket_idx h sz
      in if k_bucket_idx h (hp_len h) < bi then OK (h, 0)
         else bind_res (get_bucket h bi) (\<lambda>first.
              bind_res (if first \<noteq> 0 then alloc_loop CONFIG_SYS_HEAP_ALLOC_LOOPS bi first sz h else OK (h, 0))
                (\<lambda>(h1, c). if c = 0 then alloc_larger bi sz h1 else OK (h1, c))))"

subsection \<open>A region of memory\<close>

text \<open>
  \<^verbatim>\<open>struct heap_mem\<close>: the heap at \<^verbatim>\<open>header\<close> and its statistics.
\<close>

record heap_mem =
  header :: z_heap
  mem_total :: u32
  mem_used :: u32
  mem_maxused :: u32

definition mem_used_inc :: "u32 \<Rightarrow> heap_mem \<Rightarrow> heap_mem" where
  "mem_used_inc sz m =
     (let m1 = m\<lparr>mem_used := mem_used m + sz\<rparr>
      in if mem_maxused m1 < mem_used m1 then m1\<lparr>mem_maxused := mem_used m1\<rparr> else m1)"

definition mem_used_dec :: "u32 \<Rightarrow> heap_mem \<Rightarrow> heap_mem" where
  "mem_used_dec sz m = m\<lparr>mem_used := mem_used m - sz\<rparr>"

definition ROUND_UP :: "u32 \<Rightarrow> u32 \<Rightarrow> u32" where
  "ROUND_UP x align = (x + (align - 1)) AND NOT (align - 1)"

definition ROUND_DOWN :: "u32 \<Rightarrow> u32 \<Rightarrow> u32" where
  "ROUND_DOWN x align = x AND NOT (align - 1)"

text \<open>\<^verbatim>\<open>sizeof(struct z_heap)\<close> is 24: 8 bytes of header, three words, aligned to 8 bytes.\<close>

definition sizeof_z_heap :: u32 where "sizeof_z_heap = 24"

subsection \<open>Initialisation\<close>

definition k_firstfit_mem_init :: "u32 \<Rightarrow> u32 \<Rightarrow> (nat \<Rightarrow> u32) \<Rightarrow> heap_mem res" where
  "k_firstfit_mem_init mem bytes0 m =
     os_assert (k_heap_footer_bytes bytes0 < bytes0)
     (let bytes = bytes0 - k_heap_footer_bytes bytes0;
          addr = ROUND_UP mem CHUNK_UNIT;
          fin = ROUND_DOWN (mem + bytes) CHUNK_UNIT;
          buf_sz = (fin - addr) div CHUNK_UNIT
      in os_assert (addr < fin) (os_assert (k_chunksz sizeof_z_heap < buf_sz)
         (let big = k_big_heap_chunks buf_sz;
              h0 = \<lparr>hp_addr = addr, hp_len = buf_sz, avail_buckets = 0, buckets = [],
                    cells = (\<lambda>i. if i < (if big then 2 else 4) then 0 else m i)\<rparr>;
              nb_buckets = k_bucket_idx h0 buf_sz + 1;
              chunk0_size = k_chunksz (sizeof_z_heap + of_nat nb_buckets * 4)
          in os_assert (chunk0_size + k_min_chunk_size h0 < buf_sz)
             (bind_res (k_set_chunk_size 0 chunk0_size (h0\<lparr>buckets := replicate nb_buckets 0\<rparr>)) (\<lambda>h1.
              bind_res (k_set_chunk_size chunk0_size (buf_sz - chunk0_size) (k_set_chunk_used 0 True h1)) (\<lambda>h2.
              bind_res (k_set_left_chunk_size chunk0_size chunk0_size h2) (\<lambda>h3.
              bind_res (k_set_chunk_size buf_sz 0 h3) (\<lambda>h4.
              bind_res (k_set_left_chunk_size buf_sz (buf_sz - chunk0_size) h4) (\<lambda>h5.
              bind_res (k_free_list_add chunk0_size (k_set_chunk_used buf_sz True h5)) (\<lambda>h6.
                OK (mem_used_inc (chunk0_size * CHUNK_UNIT)
                  \<lparr>header = h6, mem_total = buf_sz * CHUNK_UNIT, mem_used = 0, mem_maxused = 0\<rparr>)))))))))))"

subsection \<open>Allocation\<close>

text \<open>Cutting an allocated chunk down to \<open>sz\<close> units; the rest is free.\<close>

definition trim_chunk :: "u32 \<Rightarrow> u32 \<Rightarrow> z_heap \<Rightarrow> z_heap res" where
  "trim_chunk c sz h =
     (if sz < k_chunk_size h c then bind_res (k_split_chunks c (c + sz) h) (k_free_list_add (c + sz)) else OK h)"

definition take_chunk :: "u32 \<Rightarrow> z_heap \<Rightarrow> heap_mem \<Rightarrow> heap_mem" where
  "take_chunk c h m = (mem_used_inc (k_chunk_size h c * CHUNK_UNIT) m)\<lparr>header := k_set_chunk_used c True h\<rparr>"

definition k_firstfit_mem_alloc :: "u32 \<Rightarrow> heap_mem \<Rightarrow> (heap_mem \<times> u32 option) res" where
  "k_firstfit_mem_alloc bytes m =
     (if bytes = 0 then OK (m, None)
      else
        let chunk_sz = k_bytes_to_chunksz (header m) bytes
        in bind_res (k_alloc_chunk chunk_sz (header m)) (\<lambda>(h1, c).
           if c = 0 then OK (m\<lparr>header := h1\<rparr>, None)
           else bind_res (trim_chunk c chunk_sz h1) (\<lambda>h2.
                let m3 = take_chunk c h2 m
                in bind_res (k_chunk_mem (header m3) c) (\<lambda>mem. OK (m3, Some mem)))))"

definition k_firstfit_mem_aligned_alloc :: "u32 \<Rightarrow> u32 \<Rightarrow> heap_mem \<Rightarrow> (heap_mem \<times> u32 option) res" where
  "k_firstfit_mem_aligned_alloc align bytes m = os_assert (align AND (align - 1) = 0)
     (if bytes = 0 then OK (m, None)
      else if align \<le> 4 then k_firstfit_mem_alloc bytes m
      else
        let alloc_sz = k_bytes_to_chunksz (header m) bytes;
            padded_sz = k_bytes_to_chunksz (header m) (bytes + align - 1)
        in bind_res (k_alloc_chunk padded_sz (header m)) (\<lambda>(h1, c0).
           if c0 = 0 then OK (m\<lparr>header := h1\<rparr>, None)
           else bind_res (k_chunk_mem h1 c0) (\<lambda>mem0.
                let mem = ROUND_UP mem0 align; c = k_mem_to_chunkid h1 mem
                in os_assert (c0 \<le> c \<and> c < c0 + padded_sz)
                (bind_res (if c0 < c then bind_res (k_split_chunks c0 c h1) (k_free_list_add c0) else OK h1) (\<lambda>h2.
                 bind_res (k_chunk_mem h2 c) (\<lambda>mem_bound.
                 bind_res (trim_chunk c (if mem_bound \<noteq> mem then alloc_sz + 1 else alloc_sz) h2) (\<lambda>h3.
                   OK (take_chunk c h3 m, Some mem))))))))"

subsection \<open>Release\<close>

text \<open>The address checks of \<^verbatim>\<open>free\<close> and \<^verbatim>\<open>realloc\<close>, and the header checks behind them.\<close>

definition mem_in_heap :: "u32 \<Rightarrow> heap_mem \<Rightarrow> bool" where
  "mem_in_heap mem m \<longleftrightarrow> hp_addr (header m) \<le> mem \<and> mem - hp_addr (header m) \<le> mem_total m"

definition chunk_intact :: "u32 \<Rightarrow> z_heap \<Rightarrow> bool" where
  "chunk_intact c h \<longleftrightarrow> k_chunk_used h c \<and> k_left_chunk h (k_right_chunk h c) = c"

definition k_firstfit_mem_free :: "u32 option \<Rightarrow> heap_mem \<Rightarrow> heap_mem res" where
  "k_firstfit_mem_free p m = (case p of None \<Rightarrow> OK m
     | Some mem \<Rightarrow> os_assert (mem_in_heap mem m)
         (let h = header m; c = k_mem_to_chunkid h mem
          in os_assert (chunk_intact c h)
             (bind_res (k_free_chunk c (k_set_chunk_used c False h)) (\<lambda>h1.
               OK ((mem_used_dec (k_chunk_size h c * CHUNK_UNIT) m)\<lparr>header := h1\<rparr>)))))"

subsection \<open>Contents\<close>

text \<open>
  The bytes of the heap, by their distance from its address, as \<^verbatim>\<open>memcpy\<close> and the owners of
  the blocks see them.
\<close>

definition cell_bytes :: "z_heap \<Rightarrow> nat" where
  "cell_bytes h = (if k_big_heap h then 4 else 2)"

definition heap_byte :: "z_heap \<Rightarrow> nat \<Rightarrow> u8" where
  "heap_byte h a = ucast (drop_bit (8 * (a mod cell_bytes h)) (cells h (a div cell_bytes h)))"

definition set_heap_byte :: "nat \<Rightarrow> u8 \<Rightarrow> z_heap \<Rightarrow> z_heap" where
  "set_heap_byte a v h =
     (let i = a div cell_bytes h; s = 8 * (a mod cell_bytes h)
      in set_cell i ((cells h i AND NOT (push_bit s 0xFF)) OR push_bit s (ucast v)) h)"

definition read_bytes :: "z_heap \<Rightarrow> nat \<Rightarrow> nat \<Rightarrow> u8 list" where
  "read_bytes h a n = map (\<lambda>i. heap_byte h (a + i)) [0..<n]"

fun write_bytes :: "nat \<Rightarrow> u8 list \<Rightarrow> z_heap \<Rightarrow> z_heap" where
  "write_bytes a [] h = h"
| "write_bytes a (v # vs) h = write_bytes (Suc a) vs (set_heap_byte a v h)"

definition heap_offset :: "z_heap \<Rightarrow> u32 \<Rightarrow> nat" where
  "heap_offset h p = unat (p - hp_addr h)"

subsection \<open>Reallocation\<close>

definition realloc_shrink :: "u32 \<Rightarrow> u32 \<Rightarrow> heap_mem \<Rightarrow> (heap_mem \<times> u32 option) res" where
  "realloc_shrink c chunk_sz_new m =
     (let h = header m
      in bind_res (k_split_chunks c (c + chunk_sz_new) h) (\<lambda>h1.
         bind_res (k_free_chunk (c + chunk_sz_new) (k_set_chunk_used c True h1)) (\<lambda>h2.
         bind_res (k_chunk_mem h2 c) (\<lambda>mem_new.
           OK ((mem_used_dec ((k_chunk_size h c - chunk_sz_new) * CHUNK_UNIT) m)\<lparr>header := h2\<rparr>, Some mem_new)))))"

definition realloc_grow :: "u32 \<Rightarrow> u32 \<Rightarrow> heap_mem \<Rightarrow> (heap_mem \<times> u32 option) res" where
  "realloc_grow c chunk_sz_new m =
     (let h = header m; chunk_sz = k_chunk_size h c; rc = k_right_chunk h c; r_chunk_sz = k_chunk_size h rc;
          split_size = chunk_sz_new - chunk_sz; newsz = chunk_sz + split_size
      in bind_res (k_free_list_remove rc h) (\<lambda>h1.
         bind_res (if split_size < r_chunk_sz
                   then bind_res (k_split_chunks rc (rc + split_size) h1) (k_free_list_add (rc + split_size))
                   else OK h1) (\<lambda>h2.
         bind_res (k_set_chunk_size c newsz h2) (\<lambda>h3.
         bind_res (k_set_left_chunk_size (c + newsz) newsz (k_set_chunk_used c True h3)) (\<lambda>h4.
         bind_res (k_chunk_mem h4 c) (\<lambda>mem_new.
           OK ((mem_used_inc (split_size * CHUNK_UNIT) m)\<lparr>header := h4\<rparr>, Some mem_new)))))))"

definition realloc_move :: "u32 \<Rightarrow> u32 \<Rightarrow> u32 \<Rightarrow> heap_mem \<Rightarrow> (heap_mem \<times> u32 option) res" where
  "realloc_move mem chunk_sz bytes m =
     bind_res (k_firstfit_mem_alloc bytes m) (\<lambda>(m1, mem_new). case mem_new of None \<Rightarrow> OK (m1, None)
       | Some p \<Rightarrow>
           let h = header m1; n = unat (k_chunksz_to_bytes h chunk_sz);
               h2 = write_bytes (heap_offset h p) (read_bytes h (heap_offset h mem) n) h
           in bind_res (k_firstfit_mem_free (Some mem) (m1\<lparr>header := h2\<rparr>)) (\<lambda>m3. OK (m3, Some p)))"

definition k_firstfit_mem_realloc :: "u32 option \<Rightarrow> u32 \<Rightarrow> heap_mem \<Rightarrow> (heap_mem \<times> u32 option) res" where
  "k_firstfit_mem_realloc p bytes m = (case p of None \<Rightarrow> k_firstfit_mem_alloc bytes m
     | Some mem \<Rightarrow>
        if bytes = 0 then bind_res (k_firstfit_mem_free p m) (\<lambda>m1. OK (m1, None))
        else os_assert (mem_in_heap mem m)
          (let h = header m; chunk_sz_new = k_bytes_to_chunksz h bytes; c = k_mem_to_chunkid h mem
           in os_assert (chunk_intact c h)
              (let chunk_sz = k_chunk_size h c; rc = k_right_chunk h c
               in os_assert (0 < chunk_sz)
                 (if chunk_sz_new < chunk_sz then realloc_shrink c chunk_sz_new m
                  else if chunk_sz < chunk_sz_new then
                    if \<not> k_chunk_used h rc \<and> chunk_sz_new \<le> chunk_sz + k_chunk_size h rc
                    then realloc_grow c chunk_sz_new m
                    else realloc_move mem chunk_sz bytes m
                  else OK (m, Some mem)))))"

subsection \<open>Queries\<close>

definition k_firstfit_mem_ptr_to_size :: "u32 \<Rightarrow> heap_mem \<Rightarrow> u32" where
  "k_firstfit_mem_ptr_to_size mem m =
     k_chunksz_to_bytes (header m) (k_chunk_size (header m) (k_mem_to_chunkid (header m) mem))"

text \<open>
  The walk of \<^verbatim>\<open>_k_firstfit_mem_check\<close> from chunk to chunk, with the sums of the sizes; it
  ends at a chunk of size 0 or at a chunk whose right neighbour does not point back.
\<close>

partial_function (option) mem_check_loop :: "z_heap \<Rightarrow> u32 \<Rightarrow> u32 \<Rightarrow> u32 \<Rightarrow> (bool \<times> u32 \<times> u32) option" where
  "mem_check_loop h c used ttl =
     (let chunksize = k_chunk_size h c
      in if chunksize = 0 then Some (True, used, ttl)
         else
           let used1 = (if k_chunk_used h c then used + chunksize else used); ttl1 = ttl + chunksize;
               rc = k_right_chunk h c
           in if k_left_chunk h rc \<noteq> c then Some (False, used1, ttl1)
              else mem_check_loop h rc used1 ttl1)"

text \<open>
  The walk round the free list of a bucket that prints its chunks; the result is what is printed.
  It ends when it is back at the first chunk.
\<close>

partial_function (option) free_list_walk :: "z_heap \<Rightarrow> u32 \<Rightarrow> u32 \<Rightarrow> u32 list option" where
  "free_list_walk h first cur =
     (let next = k_next_free_chunk h cur
      in if next = first then Some [cur]
         else Option.bind (free_list_walk h first next) (\<lambda>cs. Some (cur # cs)))"

primrec free_lists_walk :: "z_heap \<Rightarrow> nat \<Rightarrow> u32 list list option" where
  "free_lists_walk h 0 = Some []"
| "free_lists_walk h (Suc i) = Option.bind (free_lists_walk h i) (\<lambda>css.
     if i < length (buckets h) then
       let first = buckets h ! i
       in Option.bind (if first \<noteq> 0 then free_list_walk h first first else Some []) (\<lambda>cs. Some (css @ [cs]))
     else None)"

definition k_firstfit_mem_check :: "heap_mem \<Rightarrow> os_err option" where
  "k_firstfit_mem_check m = Option.bind (mem_check_loop (header m) 0 0 0) (\<lambda>(ok, used, ttl).
     if ok then
       Option.bind (free_lists_walk (header m) (k_bucket_idx (header m) (hp_len (header m)) + 1)) (\<lambda>_. Some
         (if ttl * CHUNK_UNIT \<noteq> mem_total m \<or> used * CHUNK_UNIT \<noteq> mem_used m then OS_ERROR else OS_EOK))
     else Some OS_ERROR)"

end
