(* ===== verification/Firstfit_Inv.thy ===== *)
theory Firstfit_Inv
  imports Os_Firstfit
begin

text \<open>
  The invariant of the first-fit heap: the chunks tile the heap and know their neighbours,
  each bucket is a ring of exactly the free chunks of its sizes, and what the operations on
  chunks and free lists do to it.
\<close>

lemmas field_defs = LEFT_SIZE_def SIZE_AND_USED_def FREE_PREV_def FREE_NEXT_def

abbreviation left_size :: "z_heap \<Rightarrow> u32 \<Rightarrow> u32" where
  "left_size h c \<equiv> k_chunk_field h c LEFT_SIZE"

subsection \<open>Cells\<close>

text \<open>
  In a big heap the list fields of a chunk of one unit would lie in the header of the next
  one; all other fields of chunks have cells of their own.
\<close>

definition apart :: "bool \<Rightarrow> u32 \<times> nat \<Rightarrow> u32 \<times> nat \<Rightarrow> bool" where
  "apart big x y \<longleftrightarrow> chunk_cell big (fst x) (snd x) \<noteq> chunk_cell big (fst y) (snd y)"

lemma digit_eq:
  assumes "f < m" "g < m"
  shows "m * a + f = m * b + g \<longleftrightarrow> a = b \<and> f = (g::nat)"
proof
  assume "m * a + f = m * b + g"
  then have "(m * a + f) div m = (m * b + g) div m" "(m * a + f) mod m = (m * b + g) mod m" by simp_all
  then show "a = b \<and> f = g" using assms by simp
qed simp

lemma apart_small: "f < 4 \<Longrightarrow> g < 4 \<Longrightarrow> apart False (c, f) (d, g) \<longleftrightarrow> c \<noteq> d \<or> f \<noteq> g"
  by (simp add: apart_def chunk_cell_def digit_eq word_unat_eq_iff)

lemma apart_header: "f < 2 \<Longrightarrow> g < 2 \<Longrightarrow> apart b (c, f) (d, g) \<longleftrightarrow> c \<noteq> d \<or> f \<noteq> g"
  by (cases b) (simp_all add: apart_small, simp add: apart_def chunk_cell_def digit_eq word_unat_eq_iff)

lemma apart_links:
  assumes "2 \<le> f" "f < 4" "2 \<le> g" "g < 4"
  shows "apart b (c, f) (d, g) \<longleftrightarrow> c \<noteq> d \<or> f \<noteq> g"
proof -
  obtain f' g' where "f = f' + 2" "g = g' + 2" using assms(1,3) by (auto simp: le_iff_add add.commute)
  moreover have "apart True (c, f' + 2) (d, g' + 2) \<longleftrightarrow> apart True (c, f') (d, g')" for f' g'
    by (simp add: apart_def chunk_cell_def)
  ultimately show ?thesis using assms(2,4) by (cases b) (simp_all add: apart_header apart_small)
qed

text \<open>A header and the list fields of a chunk, unless the header is just behind them.\<close>

lemma apart_mixed:
  assumes "f < 2" "2 \<le> g" "g < 4" "b \<Longrightarrow> unat c \<noteq> unat d + 1"
  shows "apart b (c, f) (d, g)" "apart b (d, g) (c, f)"
proof -
  have "apart b (c, f) (d, g)"
  proof (cases b)
    case True
    have "2 * unat c + f \<noteq> 2 * (unat d + 1) + (g - 2)"
      using digit_eq[of f 2 "g - 2" "unat c" "unat d + 1"] assms True by linarith
    then show ?thesis using assms(2) True unfolding apart_def chunk_cell_def by auto
  qed (use assms in \<open>simp add: apart_small\<close>)
  then show "apart b (c, f) (d, g)" "apart b (d, g) (c, f)" by (auto simp: apart_def)
qed

lemma set_cell_simps [simp]:
  "hp_addr (set_cell i v h) = hp_addr h" "hp_len (set_cell i v h) = hp_len h"
  "avail_buckets (set_cell i v h) = avail_buckets h" "buckets (set_cell i v h) = buckets h"
  "cells (set_cell i v h) j = (if j = i then v else cells h j)" "k_big_heap (set_cell i v h) = k_big_heap h"
  by (simp_all add: set_cell_def k_big_heap_def)

lemma field_set_cell:
  "k_chunk_field (set_cell (chunk_cell (k_big_heap h) c f) v h) d g =
     (if apart (k_big_heap h) (c, f) (d, g) then k_chunk_field h d g else v)"
  by (auto simp: k_chunk_field_def apart_def)

lemma field_set_cell_same [simp]:
  "k_chunk_field (set_cell (chunk_cell (k_big_heap h) c f) v h) c f = v"
  by (simp add: k_chunk_field_def)

text \<open>The operations on a heap of which only cells and buckets change.\<close>

definition same_frame :: "z_heap \<Rightarrow> z_heap \<Rightarrow> bool" where
  "same_frame h h' \<longleftrightarrow> hp_addr h' = hp_addr h \<and> hp_len h' = hp_len h \<and> length (buckets h') = length (buckets h)"

lemma same_frame_refl [simp]: "same_frame h h" by (simp add: same_frame_def)

lemma same_frame_set_cell [simp]: "same_frame h (set_cell i v h)" by (simp add: same_frame_def)

lemma same_frame_trans: "same_frame h h1 \<Longrightarrow> same_frame h1 h2 \<Longrightarrow> same_frame h h2"
  by (simp add: same_frame_def)

lemma same_frameD:
  assumes "same_frame h h'"
  shows "hp_addr h' = hp_addr h" "hp_len h' = hp_len h" "k_big_heap h' = k_big_heap h"
    "k_bucket_idx h' = k_bucket_idx h" "k_min_chunk_size h' = k_min_chunk_size h"
    "k_chunk_header_bytes h' = k_chunk_header_bytes h"
  using assms
  by (auto simp: same_frame_def k_big_heap_def k_bucket_idx_def k_min_chunk_size_def k_bytes_to_chunksz_def
      k_chunk_header_bytes_def fun_eq_iff)

subsection \<open>Sizes and buckets\<close>

lemma find_rev_upt_Some: "find P (rev [0..<n]) = Some i \<Longrightarrow> i < n \<and> P i \<and> (\<forall>j < n. i < j \<longrightarrow> \<not> P j)"
  by (induction n) (auto split: if_splits simp: less_Suc_eq)

lemma find_rev_upt_None: "find P (rev [0..<n]) = None \<longleftrightarrow> (\<forall>i < n. \<not> P i)"
  by (auto simp: find_None_iff)

text \<open>31 minus the leading zeros is the binary logarithm.\<close>

lemma bit_unat_bounds:
  assumes "bit (v::u32) i" "\<And>j. i < j \<Longrightarrow> \<not> bit v j"
  shows "2 ^ i \<le> unat v" "unat v < 2 ^ (i + 1)"
proof -
  have "bit (drop_bit i (unat v)) 0" using assms(1) by (simp add: bit_simps)
  then have "drop_bit i (unat v) \<noteq> 0" by (intro notI) simp
  then show "2 ^ i \<le> unat v" by (metis div_less drop_bit_eq_div not_le)
  have "take_bit (i + 1) (unat v) = unat v"
    by (rule bit_eqI) (use assms(2) in \<open>auto simp: bit_simps\<close>, metis not_less_eq)
  then show "unat v < 2 ^ (i + 1)" by (metis take_bit_nat_less_exp[of "i + 1"])
qed

lemma builtin_clz_log:
  assumes "v \<noteq> 0"
  obtains i where "builtin_clz v = 31 - int i" "i < 32" "2 ^ i \<le> unat v" "unat v < 2 ^ (i + 1)"
proof -
  have "\<exists>i < 32. bit v i"
    using assms bit_imp_le_length[of v] by (auto simp: bit_eq_iff)
  then obtain i where i: "find (bit v) (rev [0..<32]) = Some i"
    using find_rev_upt_None[of "bit v" 32] by (cases "find (bit v) (rev [0..<32])") auto
  have "i < 32" "bit v i" "\<And>j. i < j \<Longrightarrow> \<not> bit v j"
    using find_rev_upt_Some[OF i] bit_imp_le_length[of v] by auto
  then show ?thesis using that[of i] i bit_unat_bounds[of v i] by (simp add: builtin_clz_def)
qed

lemma k_min_chunk_size_eq: "k_min_chunk_size h = (if k_big_heap h then 2 else 1)"
  by (simp add: k_min_chunk_size_def k_bytes_to_chunksz_def k_chunksz_def k_chunk_header_bytes_def CHUNK_UNIT_def)

text \<open>The bucket of a size is the binary logarithm of what exceeds the smallest size.\<close>

lemma k_bucket_idx_log:
  assumes "k_min_chunk_size h \<le> sz"
  defines "n \<equiv> unat sz - unat (k_min_chunk_size h) + 1"
  shows "2 ^ k_bucket_idx h sz \<le> n" "n < 2 ^ (k_bucket_idx h sz + 1)" "k_bucket_idx h sz < 32"
proof -
  have m: "unat (k_min_chunk_size h) = (if k_big_heap h then 2 else 1)" by (simp add: k_min_chunk_size_eq)
  have u: "unat (sz - k_min_chunk_size h + 1) = n"
    using assms(1) unat_u32[of sz] m by (simp add: n_def unat_sub word_le_nat_alt unat_word_ariths(1) split: if_splits)
  then have "sz - k_min_chunk_size h + 1 \<noteq> 0" using n_def by (metis Suc_eq_plus1 nat.distinct(1) unat_0)
  then obtain i where i: "builtin_clz (sz - k_min_chunk_size h + 1) = 31 - int i" "i < 32" "2 ^ i \<le> n" "n < 2 ^ (i + 1)"
    using builtin_clz_log u by metis
  then have "k_bucket_idx h sz = i" by (simp add: k_bucket_idx_def Let_def)
  then show "2 ^ k_bucket_idx h sz \<le> n" "n < 2 ^ (k_bucket_idx h sz + 1)" "k_bucket_idx h sz < 32" using i by auto
qed

lemma k_bucket_idx_mono:
  assumes "k_min_chunk_size h \<le> a" "a \<le> b"
  shows "k_bucket_idx h a \<le> k_bucket_idx h b"
proof -
  have "unat a - unat (k_min_chunk_size h) + 1 \<le> unat b - unat (k_min_chunk_size h) + 1"
    using assms(2) by (simp add: word_le_nat_alt)
  then have "2 ^ k_bucket_idx h a < (2::nat) ^ (k_bucket_idx h b + 1)"
    using k_bucket_idx_log(1)[OF assms(1)] k_bucket_idx_log(2)[OF order_trans[OF assms]] by linarith
  then have "k_bucket_idx h a < k_bucket_idx h b + 1" by (rule power_less_imp_less_exp[rotated]) simp
  then show ?thesis by simp
qed

lemma k_bucket_idx_less:
  assumes "k_min_chunk_size h \<le> a" "k_min_chunk_size h \<le> b" "k_bucket_idx h a < k_bucket_idx h b"
  shows "a < b"
  using assms k_bucket_idx_mono[of h b a] by (metis leD not_le_imp_less)

subsection \<open>Writing fields\<close>

definition put :: "u32 \<Rightarrow> nat \<Rightarrow> u32 \<Rightarrow> z_heap \<Rightarrow> z_heap" where
  "put c f v h = set_cell (chunk_cell (k_big_heap h) c f) v h"

lemma put_frame [simp]:
  "hp_addr (put c f v h) = hp_addr h" "hp_len (put c f v h) = hp_len h"
  "avail_buckets (put c f v h) = avail_buckets h" "buckets (put c f v h) = buckets h"
  "k_big_heap (put c f v h) = k_big_heap h"
  by (simp_all add: put_def)

lemma field_put:
  "k_chunk_field (put c f v h) d g = (if apart (k_big_heap h) (c, f) (d, g) then k_chunk_field h d g else v)"
  by (simp add: put_def field_set_cell)

lemma field_put_same [simp]: "k_chunk_field (put c f v h) c f = v"
  by (simp add: put_def)

lemma field_put_header:
  "f < 2 \<Longrightarrow> g < 2 \<Longrightarrow> k_chunk_field (put c f v h) d g = (if c = d \<and> f = g then v else k_chunk_field h d g)"
  by (simp add: field_put apart_header)

lemma unat_half: "unat v < 65536 \<Longrightarrow> ucast (ucast (v::u32) :: u16) = v"
  by (simp add: word_unat_eq_iff unsigned_ucast_eq unsigned_take_bit_eq take_bit_nat_eq_self)

text \<open>The sizes of a heap are so small that the field of a size holds them.\<close>

definition heap_len_ok :: "z_heap \<Rightarrow> bool" where
  "heap_len_ok h \<longleftrightarrow> 0 < hp_len h \<and> unat (hp_len h) < 2 ^ 29"

lemma small_len: "\<not> k_big_heap h \<Longrightarrow> n \<le> hp_len h \<Longrightarrow> unat n \<le> 0x7fff"
  by (auto simp: k_big_heap_def k_big_heap_chunks_def word_less_nat_alt word_le_nat_alt)

lemma unat_double: "unat (n::u32) < 2 ^ 31 \<Longrightarrow> unat (push_bit 1 n) = 2 * unat n"
  by (simp add: push_bit_eq_mult unat_word_ariths(2))

lemma drop_push_1: "unat (n::u32) < 2 ^ 31 \<Longrightarrow> drop_bit 1 (push_bit 1 n) = n"
  unfolding word_unat_eq_iff unat_drop_bit_eq by (subst unat_double) (simp_all add: drop_bit_eq_div)

lemma drop_double: "unat (n::u32) < 2147483648 \<Longrightarrow> drop_bit (Suc 0) (n * 2) = n"
  using drop_push_1[of n] by simp

lemma k_chunk_set_ok:
  assumes "heap_len_ok h" "c \<le> hp_len h" "v \<le> hp_len h"
  shows "k_chunk_set c f v h = OK (put c f v h)"
  using assms small_len[of h v] unat_half[of v] by (cases "k_big_heap h") (simp_all add: k_chunk_set_def put_def)

lemma k_set_chunk_size_ok:
  assumes "heap_len_ok h" "c \<le> hp_len h" "sz \<le> hp_len h"
  shows "k_set_chunk_size c sz h = OK (put c SIZE_AND_USED (push_bit 1 sz) h)"
proof -
  have "unat sz < 2 ^ 31" using assms(1,3) by (simp add: heap_len_ok_def word_le_nat_alt)
  then have "k_big_heap h \<or> push_bit 1 sz = ucast (ucast (push_bit 1 sz) :: u16)"
    using small_len[of h sz] assms(3) unat_half[of "push_bit 1 sz"] unat_double[of sz] by fastforce
  then show ?thesis using assms(2) by (simp add: k_set_chunk_size_def k_chunk_set_def put_def)
qed

lemma k_set_chunk_used_put:
  "k_set_chunk_used c u h = put c SIZE_AND_USED
     (if u then k_chunk_field h c SIZE_AND_USED OR 1 else k_chunk_field h c SIZE_AND_USED AND NOT 1) h"
  by (simp add: k_set_chunk_used_def put_def k_chunk_field_def Let_def)

lemma k_chunk_used_bit: "k_chunk_used h c \<longleftrightarrow> bit (k_chunk_field h c SIZE_AND_USED) 0"
  by (simp add: k_chunk_used_def and_one_eq bit_0 odd_iff_mod_2_eq_one)

lemma size_field_values:
  "unat n < 2 ^ 31 \<Longrightarrow> drop_bit 1 (push_bit 1 n) = (n::u32)" "\<not> bit (push_bit 1 (n::u32)) 0"
  "drop_bit 1 (w OR 1) = drop_bit 1 (w::u32)" "drop_bit 1 (w AND NOT 1) = drop_bit 1 w"
  "bit (w OR 1) 0" "\<not> bit (w AND NOT 1) 0"
proof -
  show "unat n < 2 ^ 31 \<Longrightarrow> drop_bit 1 (push_bit 1 n) = n" by (rule drop_push_1)
  show "\<not> bit (push_bit 1 n) 0" by (simp only: bit_push_bit_iff) simp
  show "drop_bit 1 (w OR 1) = drop_bit 1 w"
    by (rule bit_eqI) (simp only: bit_drop_bit_eq comp_def bit_or_iff bit_1_iff, simp)
  show "drop_bit 1 (w AND NOT 1) = drop_bit 1 w"
    by (rule bit_eqI) (simp only: bit_drop_bit_eq comp_def bit_and_iff bit_not_iff bit_1_iff, auto dest: bit_imp_le_length)
  show "bit (w OR 1) 0" "\<not> bit (w AND NOT 1) 0" by (simp_all only: bit_or_iff bit_and_iff bit_not_iff bit_1_iff) simp_all
qed

subsection \<open>The invariant\<close>

text \<open>
  The chunks, by the set \<open>B\<close> of their numbers: chunk 0 holds the heap's own data, the
  chunk behind the last one has size 0, both are used, and each chunk ends where the next
  one begins, which knows its size.
\<close>

definition chunks_ok :: "z_heap \<Rightarrow> u32 set \<Rightarrow> bool" where
  "chunks_ok h B \<longleftrightarrow> heap_len_ok h \<and> 0 \<in> B \<and> hp_len h \<in> B \<and> (\<forall>c \<in> B. c \<le> hp_len h) \<and>
     k_chunk_size h (hp_len h) = 0 \<and> k_chunk_used h (hp_len h) \<and> k_chunk_used h 0 \<and>
     (\<forall>c \<in> B. c \<noteq> hp_len h \<longrightarrow> 0 < k_chunk_size h c \<and> k_chunk_size h c \<le> hp_len h - c \<and>
        c + k_chunk_size h c \<in> B \<and> left_size h (c + k_chunk_size h c) = k_chunk_size h c \<and>
        (\<forall>d \<in> B. c < d \<longrightarrow> c + k_chunk_size h c \<le> d))"

text \<open>
  The free lists: bucket \<open>i\<close> is the ring \<open>F i\<close>, its bit is set unless it is empty, and
  the rings hold the free chunks with room for the list fields, except those in \<open>X\<close> that
  an operation is about to use or to add.
\<close>

definition frees_ok :: "z_heap \<Rightarrow> u32 set \<Rightarrow> (nat \<Rightarrow> u32 list) \<Rightarrow> u32 set \<Rightarrow> bool" where
  "frees_ok h B F X \<longleftrightarrow> length (buckets h) = k_bucket_idx h (hp_len h) + 1 \<and>
     (\<forall>i < length (buckets h). buckets h ! i = (case F i of [] \<Rightarrow> 0 | c # _ \<Rightarrow> c)) \<and>
     (\<forall>i. ringed (k_next_free_chunk h) (k_prev_free_chunk h) (F i)) \<and>
     (\<forall>i. bit (avail_buckets h) i \<longleftrightarrow> F i \<noteq> []) \<and>
     (\<forall>c i. c \<in> set (F i) \<longleftrightarrow> c \<in> B \<and> \<not> k_chunk_used h c \<and> c \<notin> X \<and> \<not> k_solo_free_header h c \<and>
        k_bucket_idx h (k_chunk_size h c) = i)"

definition heap_ok :: "z_heap \<Rightarrow> u32 set \<Rightarrow> (nat \<Rightarrow> u32 list) \<Rightarrow> u32 set \<Rightarrow> bool" where
  "heap_ok h B F X \<longleftrightarrow> chunks_ok h B \<and> frees_ok h B F X"

lemma chunks_okD:
  assumes "chunks_ok h B"
  shows "heap_len_ok h" "0 \<in> B" "hp_len h \<in> B" "c \<in> B \<Longrightarrow> c \<le> hp_len h"
    "k_chunk_size h (hp_len h) = 0" "k_chunk_used h (hp_len h)" "k_chunk_used h 0"
    "c \<in> B \<Longrightarrow> c \<noteq> hp_len h \<Longrightarrow> 0 < k_chunk_size h c"
    "c \<in> B \<Longrightarrow> c \<noteq> hp_len h \<Longrightarrow> k_chunk_size h c \<le> hp_len h - c"
    "c \<in> B \<Longrightarrow> c \<noteq> hp_len h \<Longrightarrow> c + k_chunk_size h c \<in> B"
    "c \<in> B \<Longrightarrow> c \<noteq> hp_len h \<Longrightarrow> left_size h (c + k_chunk_size h c) = k_chunk_size h c"
    "c \<in> B \<Longrightarrow> d \<in> B \<Longrightarrow> c < d \<Longrightarrow> c + k_chunk_size h c \<le> d"
  using assms unfolding chunks_ok_def by (auto dest: leD)

text \<open>Chunk numbers and sizes do not wrap around.\<close>

lemma chunk_end:
  assumes "chunks_ok h B" "c \<in> B"
  shows "unat (c + k_chunk_size h c) = unat c + unat (k_chunk_size h c)"
    "unat c + unat (k_chunk_size h c) \<le> unat (hp_len h)" "k_chunk_size h c \<le> hp_len h"
proof -
  have c: "c \<le> hp_len h" using chunks_okD(4)[OF assms] .
  have le: "k_chunk_size h c \<le> hp_len h - c"
    using chunks_okD(5,9)[OF assms(1)] assms(2) by (cases "c = hp_len h") auto
  then have n: "unat c + unat (k_chunk_size h c) \<le> unat (hp_len h)"
    using c by (simp add: word_le_nat_alt unat_sub)
  then show "unat c + unat (k_chunk_size h c) \<le> unat (hp_len h)" .
  then show "unat (c + k_chunk_size h c) = unat c + unat (k_chunk_size h c)"
    using unat_u32[of "hp_len h"] by (simp add: unat_word_ariths(1))
  show "k_chunk_size h c \<le> hp_len h" using n by (simp add: word_le_nat_alt)
qed

lemma chunk_next:
  assumes "chunks_ok h B" "c \<in> B" "c \<noteq> hp_len h"
  shows "c < c + k_chunk_size h c" "c + k_chunk_size h c \<le> hp_len h" "c + k_chunk_size h c \<in> B"
proof -
  show "c < c + k_chunk_size h c"
    using chunks_okD(8)[OF assms] chunk_end(1)[OF assms(1,2)] by (simp add: word_less_nat_alt)
  show "c + k_chunk_size h c \<in> B" by (rule chunks_okD(10)[OF assms])
  then show "c + k_chunk_size h c \<le> hp_len h" by (rule chunks_okD(4)[OF assms(1)])
qed

text \<open>Every chunk but the first has a left neighbour.\<close>

lemma chunk_before:
  assumes ok: "chunks_ok h B" and c: "c \<in> B" "c \<noteq> 0"
  obtains l where "l \<in> B" "l < c" "l + k_chunk_size h l = c" "k_left_chunk h c = l"
proof -
  let ?L = "{d \<in> B. d < c}"
  have L: "finite ?L" "?L \<noteq> {}" using chunks_okD(2)[OF ok] c(2) by (auto simp: word_gt_0)
  then have m: "Max ?L \<in> ?L" "\<And>d. d \<in> ?L \<Longrightarrow> d \<le> Max ?L" using Max_in[OF L] by auto
  define l where "l = Max ?L"
  have l: "l \<in> B" "l < c" using m(1) by (auto simp: l_def)
  have nl: "l \<noteq> hp_len h" using l(2) chunks_okD(4)[OF ok c(1)] by auto
  have e: "l + k_chunk_size h l = c"
    using chunks_okD(12)[OF ok l(1) c(1) l(2)] m(2)[of "l + k_chunk_size h l"] chunk_next[OF ok l(1) nl]
    by (auto simp: le_less simp flip: l_def)
  have "left_size h c = k_chunk_size h l" using chunks_okD(11)[OF ok l(1) nl] e by simp
  then show ?thesis using that[OF l e] e by (metis add_diff_cancel_right' k_left_chunk_def)
qed

lemma frees_okD:
  assumes "frees_ok h B F X"
  shows "length (buckets h) = k_bucket_idx h (hp_len h) + 1"
    "i < length (buckets h) \<Longrightarrow> buckets h ! i = (case F i of [] \<Rightarrow> 0 | c # _ \<Rightarrow> c)"
    "ringed (k_next_free_chunk h) (k_prev_free_chunk h) (F i)"
    "bit (avail_buckets h) i \<longleftrightarrow> F i \<noteq> []"
    "c \<in> set (F i) \<longleftrightarrow> c \<in> B \<and> \<not> k_chunk_used h c \<and> c \<notin> X \<and> \<not> k_solo_free_header h c \<and>
        k_bucket_idx h (k_chunk_size h c) = i"
  using assms by (auto simp: frees_ok_def)

text \<open>The free chunks of a list have room for its fields and lie in the heap.\<close>

lemma linkable_apart:
  assumes ok: "chunks_ok h B" and c: "c \<in> B" "\<not> k_solo_free_header h c" "c \<noteq> hp_len h" and d: "d \<in> B"
  shows "k_big_heap h \<Longrightarrow> unat d \<noteq> unat c + 1"
proof
  assume b: "k_big_heap h" "unat d = unat c + 1"
  then have "c < d" by (simp add: word_less_nat_alt)
  then have "unat c + unat (k_chunk_size h c) \<le> unat d"
    using chunks_okD(12)[OF ok c(1) d] chunk_end(1)[OF ok c(1)] by (simp add: word_le_nat_alt)
  moreover have "2 \<le> unat (k_chunk_size h c)"
  proof -
    have "k_chunk_size h c \<noteq> 0" "k_chunk_size h c \<noteq> 1" using chunks_okD(8)[OF ok c(1,3)] c(2) b(1)
      by (auto simp: k_solo_free_header_def)
    then have "unat (k_chunk_size h c) \<noteq> 0" "unat (k_chunk_size h c) \<noteq> 1"
      by (simp_all add: word_unat_eq_iff)
    then show ?thesis by linarith
  qed
  ultimately show False using b(2) by simp
qed

lemma listed:
  assumes ok: "heap_ok h B F X" and c: "c \<in> set (F i)"
  shows "c \<in> B" "\<not> k_chunk_used h c" "c \<notin> X" "c \<noteq> 0" "c \<noteq> hp_len h" "c \<le> hp_len h"
    "\<not> k_solo_free_header h c" "k_bucket_idx h (k_chunk_size h c) = i" "i < length (buckets h)"
    "k_min_chunk_size h \<le> k_chunk_size h c"
proof -
  have C: "chunks_ok h B" and Fr: "frees_ok h B F X" using ok by (simp_all add: heap_ok_def)
  note * = c[unfolded frees_okD(5)[OF Fr]]
  show B: "c \<in> B" and u: "\<not> k_chunk_used h c" and "c \<notin> X" and s: "\<not> k_solo_free_header h c"
    and i: "k_bucket_idx h (k_chunk_size h c) = i" using * by blast+
  show "c \<noteq> 0" "c \<noteq> hp_len h" using u chunks_okD(6,7)[OF C] by auto
  then have "0 < k_chunk_size h c" using chunks_okD(8)[OF C B] by blast
  then show m: "k_min_chunk_size h \<le> k_chunk_size h c"
    using s by (auto simp: k_min_chunk_size_eq k_solo_free_header_def word_le_nat_alt word_less_nat_alt word_unat_eq_iff)
  show "c \<le> hp_len h" by (rule chunks_okD(4)[OF C B])
  show "i < length (buckets h)"
    using k_bucket_idx_mono[OF m chunk_end(3)[OF C B]] i frees_okD(1)[OF Fr] by simp
qed

text \<open>What survives when only fields of free lists change.\<close>

definition same_headers :: "z_heap \<Rightarrow> z_heap \<Rightarrow> u32 set \<Rightarrow> bool" where
  "same_headers h h' B \<longleftrightarrow> same_frame h h' \<and>
     (\<forall>c \<in> B. left_size h' c = left_size h c \<and> k_chunk_field h' c SIZE_AND_USED = k_chunk_field h c SIZE_AND_USED)"

lemma same_headersD:
  assumes "same_headers h h' B" "c \<in> B"
  shows "left_size h' c = left_size h c" "k_chunk_size h' c = k_chunk_size h c"
    "k_chunk_used h' c \<longleftrightarrow> k_chunk_used h c" "k_solo_free_header h' c \<longleftrightarrow> k_solo_free_header h c"
    "same_frame h h'"
  using assms same_frameD(3)[of h h']
  by (simp_all add: same_headers_def k_chunk_size_def k_chunk_used_def k_solo_free_header_def)

lemma same_headers_refl [simp]: "same_headers h h B" by (simp add: same_headers_def)

lemma same_headers_trans: "same_headers h h1 B \<Longrightarrow> same_headers h1 h2 B \<Longrightarrow> same_headers h h2 B"
  unfolding same_headers_def using same_frame_trans by (metis (no_types, lifting))

lemma same_headers_chunks:
  assumes "same_headers h h' B" "chunks_ok h B"
  shows "chunks_ok h' B"
proof -
  note D = same_headersD[OF assms(1)]
  have f: "hp_len h' = hp_len h" using assms(1) by (simp add: same_headers_def same_frame_def)
  have n: "c + k_chunk_size h c \<in> B" if "c \<in> B" "c \<noteq> hp_len h" for c using chunks_okD(10)[OF assms(2) that] .
  show ?thesis
    using assms(2) D n unfolding chunks_ok_def heap_len_ok_def f by auto
qed

lemma put_link_headers:
  assumes "chunks_ok h B" "c \<in> B" "\<not> k_solo_free_header h c" "c \<noteq> hp_len h" "2 \<le> f" "f < 4"
  shows "same_headers h (put c f v h) B"
  using assms linkable_apart[OF assms(1-4)] apart_mixed(2)[of _ f "k_big_heap h" _ c]
  by (auto simp: same_headers_def same_frame_def field_put field_defs)

lemma put_links:
  "k_next_free_chunk (put c FREE_NEXT v h) = (k_next_free_chunk h)(c := v)"
  "k_prev_free_chunk (put c FREE_NEXT v h) = k_prev_free_chunk h"
  "k_prev_free_chunk (put c FREE_PREV v h) = (k_prev_free_chunk h)(c := v)"
  "k_next_free_chunk (put c FREE_PREV v h) = k_next_free_chunk h"
  by (auto simp: fun_eq_iff k_next_free_chunk_def k_prev_free_chunk_def field_put field_defs apart_links)

subsection \<open>The owners' part of the memory\<close>

text \<open>The cells of a used chunk behind its header belong to its owner.\<close>

definition in_body :: "z_heap \<Rightarrow> u32 \<Rightarrow> nat \<Rightarrow> bool" where
  "in_body h u j \<longleftrightarrow> chunk_cell (k_big_heap h) u 2 \<le> j \<and> j < chunk_cell (k_big_heap h) (u + k_chunk_size h u) 0"

definition bodies_kept :: "z_heap \<Rightarrow> z_heap \<Rightarrow> u32 set \<Rightarrow> bool" where
  "bodies_kept h h' B \<longleftrightarrow>
     (\<forall>u \<in> B. k_chunk_used h u \<and> u \<noteq> hp_len h \<longrightarrow> (\<forall>j. in_body h u j \<longrightarrow> cells h' j = cells h j))"

lemma chunk_cell_less: "c < d \<Longrightarrow> f < 4 \<Longrightarrow> chunk_cell b c f < chunk_cell b d 2"
  by (auto simp: chunk_cell_def word_less_nat_alt)

lemma chunk_cell_le: "d \<le> c \<Longrightarrow> chunk_cell b d 0 \<le> chunk_cell b c f"
  by (auto simp: chunk_cell_def word_le_nat_alt)

lemma not_in_body:
  assumes "chunks_ok h B" "u \<in> B" "c \<in> B" "f < 4" "c = u \<Longrightarrow> f < 2"
  shows "\<not> in_body h u (chunk_cell (k_big_heap h) c f)"
proof (cases "c = u")
  case True
  then show ?thesis using assms(5) by (simp add: in_body_def chunk_cell_def)
next
  case False
  then consider "c < u" | "u < c" by (auto simp: neq_iff)
  then show ?thesis
  proof cases
    case 1
    then show ?thesis using chunk_cell_less[OF 1 assms(4), of "k_big_heap h"] by (simp add: in_body_def)
  next
    case 2
    then have "u + k_chunk_size h u \<le> c" by (rule chunks_okD(12)[OF assms(1-3)])
    then show ?thesis using chunk_cell_le[of _ c "k_big_heap h" f] by (simp add: in_body_def not_less)
  qed
qed

text \<open>A step of an operation that changes neither headers nor the owners' memory.\<close>

definition free_step :: "z_heap \<Rightarrow> z_heap \<Rightarrow> u32 set \<Rightarrow> bool" where
  "free_step h h' B \<longleftrightarrow> same_headers h h' B \<and> bodies_kept h h' B"

lemma free_step_refl [simp]: "free_step h h B" by (simp add: free_step_def bodies_kept_def)

lemma free_step_trans: "free_step h h1 B \<Longrightarrow> free_step h1 h2 B \<Longrightarrow> free_step h h2 B"
proof -
  assume 1: "free_step h h1 B" and 2: "free_step h1 h2 B"
  then have h: "same_headers h h1 B" by (simp add: free_step_def)
  have "cells h2 j = cells h j" if "u \<in> B" "k_chunk_used h u" "u \<noteq> hp_len h" "in_body h u j" for u j
    using 1 2 that same_headersD[OF h that(1)] same_frameD(2,3)[OF same_headersD(5)[OF h that(1)]]
    by (simp add: free_step_def bodies_kept_def in_body_def)
  then show ?thesis using 1 2 same_headers_trans by (auto simp: free_step_def bodies_kept_def)
qed

lemma put_link_step:
  assumes "chunks_ok h B" "c \<in> B" "\<not> k_chunk_used h c" "\<not> k_solo_free_header h c" "2 \<le> f" "f < 4"
  shows "free_step h (put c f v h) B"
proof -
  have n: "c \<noteq> hp_len h" using assms(3) chunks_okD(6)[OF assms(1)] by auto
  have "cells (put c f v h) j = cells h j" if "u \<in> B" "k_chunk_used h u" "in_body h u j" for u j
    using not_in_body[OF assms(1) that(1) assms(2,6)] that assms(3) by (auto simp: put_def)
  then show ?thesis using put_link_headers[OF assms(1,2,4) n assms(5,6)] by (simp add: free_step_def bodies_kept_def)
qed

lemma free_step_put:
  assumes "chunks_ok h B" "free_step h h1 B" "c \<in> B" "\<not> k_chunk_used h c" "\<not> k_solo_free_header h c" "2 \<le> f" "f < 4"
  shows "free_step h (put c f v h1) B"
proof (rule free_step_trans[OF assms(2) put_link_step])
  have s: "same_headers h h1 B" using assms(2) by (simp add: free_step_def)
  show "chunks_ok h1 B" by (rule same_headers_chunks[OF s assms(1)])
  show "\<not> k_chunk_used h1 c" "\<not> k_solo_free_header h1 c" using same_headersD[OF s assms(3)] assms(4,5) by simp_all
qed (use assms in auto)

lemma free_step_buckets:
  "length b = length (buckets h) \<Longrightarrow> free_step h (h\<lparr>buckets := b, avail_buckets := a\<rparr>) B"
  "length b = length (buckets h) \<Longrightarrow> free_step h (h\<lparr>buckets := b\<rparr>) B"
  "free_step h (h\<lparr>avail_buckets := a\<rparr>) B"
  by (simp_all add: free_step_def same_headers_def bodies_kept_def same_frame_def k_chunk_field_def k_big_heap_def)

subsection \<open>Taking a chunk out of its list\<close>

lemma bucket_frame [simp]:
  "k_big_heap (h\<lparr>buckets := b\<rparr>) = k_big_heap h" "k_big_heap (h\<lparr>avail_buckets := a\<rparr>) = k_big_heap h"
  "k_chunk_field (h\<lparr>buckets := b\<rparr>) = k_chunk_field h" "k_chunk_field (h\<lparr>avail_buckets := a\<rparr>) = k_chunk_field h"
  "k_next_free_chunk (h\<lparr>buckets := b\<rparr>) = k_next_free_chunk h"
  "k_next_free_chunk (h\<lparr>avail_buckets := a\<rparr>) = k_next_free_chunk h"
  "k_prev_free_chunk (h\<lparr>buckets := b\<rparr>) = k_prev_free_chunk h"
  "k_prev_free_chunk (h\<lparr>avail_buckets := a\<rparr>) = k_prev_free_chunk h"
  "k_chunk_used (h\<lparr>buckets := b\<rparr>) = k_chunk_used h" "k_chunk_size (h\<lparr>buckets := b\<rparr>) = k_chunk_size h"
  "k_solo_free_header (h\<lparr>buckets := b\<rparr>) = k_solo_free_header h"
  by (simp_all add: k_big_heap_def k_chunk_field_def k_next_free_chunk_def k_prev_free_chunk_def
      k_chunk_used_def k_chunk_size_def k_solo_free_header_def fun_eq_iff)

lemma frees_okI:
  assumes "frees_ok h B F X" "same_headers h h' B" and "\<And>x j. x \<in> set (F' j) \<longleftrightarrow>
      x \<in> B \<and> \<not> k_chunk_used h x \<and> x \<notin> X' \<and> \<not> k_solo_free_header h x \<and> k_bucket_idx h (k_chunk_size h x) = j"
    and "\<And>j. j < length (buckets h) \<Longrightarrow> buckets h' ! j = (case F' j of [] \<Rightarrow> 0 | c # _ \<Rightarrow> c)"
    and "\<And>j. ringed (k_next_free_chunk h') (k_prev_free_chunk h') (F' j)"
    and "\<And>j. bit (avail_buckets h') j \<longleftrightarrow> F' j \<noteq> []"
  shows "frees_ok h' B F' X'"
proof -
  have f: "same_frame h h'" using assms(2) by (simp add: same_headers_def)
  note D = same_headersD[OF assms(2)]
  have "x \<in> set (F' j) \<longleftrightarrow> x \<in> B \<and> \<not> k_chunk_used h' x \<and> x \<notin> X' \<and> \<not> k_solo_free_header h' x \<and>
      k_bucket_idx h' (k_chunk_size h' x) = j" for x j
    using assms(3) D same_frameD(4)[OF f] by auto
  then show ?thesis
    using assms(1,4-6) same_frameD[OF f] f by (simp add: frees_ok_def same_frame_def)
qed

lemma bucket_other: "heap_ok h B F X \<Longrightarrow> x \<in> set (F i) \<Longrightarrow> x \<in> set (F j) \<Longrightarrow> i = j"
  using listed(8) by metis

lemma get_bucket_listed:
  assumes "heap_ok h B F X" "F i \<noteq> []"
  shows "get_bucket h i = OK (hd (F i))" "hd (F i) \<noteq> 0" "avail_buckets h AND push_bit i 1 \<noteq> 0"
    "hd (F i) \<in> set (F i)"
proof -
  have Fr: "frees_ok h B F X" using assms(1) by (simp add: heap_ok_def)
  show hd: "hd (F i) \<in> set (F i)" using assms(2) by simp
  note L = listed[OF assms(1) hd]
  show "get_bucket h i = OK (hd (F i))" using L(9) frees_okD(2)[OF Fr, of i] assms(2)
    by (cases "F i") (simp_all add: get_bucket_def)
  show "hd (F i) \<noteq> 0" by (rule L(4))
  show "avail_buckets h AND push_bit i 1 \<noteq> 0"
    unfolding bit_iff_and_push_bit_not_eq_0[symmetric] using frees_okD(4)[OF Fr, of i] assms(2) by simp
qed

lemma remove_ok:
  assumes ok: "heap_ok h B F X" and c: "c \<in> set (F i)"
  shows "\<exists>h' ys. k_free_list_remove_bidx c i h = OK h' \<and> heap_ok h' B (F(i := ys)) (insert c X) \<and>
    free_step h h' B \<and> set ys = set (F i) - {c}"
proof -
  have C: "chunks_ok h B" and Fr: "frees_ok h B F X" using ok by (simp_all add: heap_ok_def)
  note L = listed[OF ok c]
  obtain us vs where F: "F i = us @ c # vs" using split_list[OF c] by blast
  let ?nx = "k_next_free_chunk h" and ?pv = "k_prev_free_chunk h"
  define ws where "ws = vs @ us"
  have R: "ringed ?nx ?pv (c # ws)"
    using ringed_rotate[of ?nx ?pv us "c # vs"] frees_okD(3)[OF Fr, of i] by (simp add: F ws_def)
  have d: "c \<notin> set ws" using ringed_distinct[OF R] by simp
  have set: "set ws = set (F i) - {c}" using d by (auto simp: F ws_def)
  note G = get_bucket_listed[OF ok, of i]
  have g: "get_bucket h i = OK (hd (F i))" "hd (F i) \<noteq> 0" "avail_buckets h AND push_bit i 1 \<noteq> 0" using G F by auto
  have mem: "x \<in> set ((F(i := ws)) j) \<longleftrightarrow> x \<in> B \<and> \<not> k_chunk_used h x \<and> x \<notin> insert c X \<and>
      \<not> k_solo_free_header h x \<and> k_bucket_idx h (k_chunk_size h x) = j" for x j
    using frees_okD(5)[OF Fr, of x j] L(8) set
    by (cases "x = c"; cases "j = i") simp_all
  show ?thesis
  proof (cases "ws = []")
    case True
    let ?h = "h\<lparr>avail_buckets := avail_buckets h AND NOT (push_bit i 1), buckets := (buckets h)[i := 0]\<rparr>"
    have op: "k_free_list_remove_bidx c i h = OK ?h"
      using L(2,9) g ringed_ends(3)[OF R] True by (simp add: k_free_list_remove_bidx_def set_bucket_def)
    have st: "free_step h ?h B" by (simp add: free_step_def same_headers_def bodies_kept_def same_frame_def k_chunk_field_def k_big_heap_def)
    have "frees_ok ?h B (F(i := ws)) (insert c X)"
    proof (rule frees_okI[OF Fr _ mem])
      show "same_headers h ?h B" using st by (simp add: free_step_def)
      show "bit (avail_buckets ?h) j \<longleftrightarrow> (F(i := ws)) j \<noteq> []" for j
        using frees_okD(4)[OF Fr, of j] True by (simp add: push_bit_of_1 bit_and_not_exp)
      show "ringed (k_next_free_chunk ?h) (k_prev_free_chunk ?h) ((F(i := ws)) j)" for j
        using frees_okD(3)[OF Fr, of j] True by simp
    qed (use frees_okD(2)[OF Fr] True in \<open>auto simp: nth_list_update\<close>)
    then show ?thesis using op st set same_headers_chunks[OF _ C] by (auto simp: heap_ok_def free_step_def)
  next
    case False
    let ?f = "?pv c" and ?s = "?nx c"
    have e: "?s = hd ws" "?f = last ws" "?s \<noteq> c" using ringed_ends[OF R] False by simp_all
    have "hd ws \<in> set ws" "last ws \<in> set ws" using False by simp_all
    then have m: "?f \<in> set (F i)" "?s \<in> set (F i)" unfolding e(1,2) set by blast+
    let ?h1 = "h\<lparr>buckets := (buckets h)[i := ?s]\<rparr>"
    let ?h2 = "put ?f FREE_NEXT ?s ?h1" and ?h = "put ?s FREE_PREV ?f (put ?f FREE_NEXT ?s ?h1)"
    note Lf = listed[OF ok m(1)] and Ls = listed[OF ok m(2)]
    have len: "heap_len_ok ?h1" "hp_len ?h1 = hp_len h" "heap_len_ok ?h2" "hp_len ?h2 = hp_len h"
      using chunks_okD(1)[OF C] by (simp_all add: heap_len_ok_def)
    have op: "k_free_list_remove_bidx c i h = OK ?h"
      using L(2,9) g e(3) k_chunk_set_ok[OF len(1)] k_chunk_set_ok[OF len(3)] Lf(6) Ls(6) len(2,4)
      by (simp add: k_free_list_remove_bidx_def set_bucket_def Let_def k_set_next_free_chunk_def k_set_prev_free_chunk_def)
    have st1: "free_step h ?h1 B" by (rule free_step_buckets(2)) simp
    have st: "free_step h ?h B"
      by (intro free_step_put[OF C] st1) (use Lf(1,2,7) Ls(1,2,7) in \<open>simp_all add: field_defs\<close>)
    have nx: "k_next_free_chunk ?h = ?nx(?f := ?s)" and pv: "k_prev_free_chunk ?h = ?pv(?s := ?f)"
      by (simp_all add: put_links)
    have "frees_ok ?h B (F(i := ws)) (insert c X)"
    proof (rule frees_okI[OF Fr _ mem])
      show "same_headers h ?h B" using st by (simp add: free_step_def)
      show "bit (avail_buckets ?h) j \<longleftrightarrow> (F(i := ws)) j \<noteq> []" for j
        using frees_okD(4)[OF Fr, of j] False F by auto
      show "ringed (k_next_free_chunk ?h) (k_prev_free_chunk ?h) ((F(i := ws)) j)" for j
      proof (cases "j = i")
        case True
        then show ?thesis using ringed_remove[OF R False] by (simp add: nx pv)
      next
        case False
        then have "?f \<notin> set (F j)" "?s \<notin> set (F j)" using bucket_other[OF ok] m by metis+
        then show ?thesis using False frees_okD(3)[OF Fr, of j] unfolding nx pv by (simp add: ringed_outside)
      qed
      show "buckets ?h ! j = (case (F(i := ws)) j of [] \<Rightarrow> 0 | c # _ \<Rightarrow> c)" if "j < length (buckets h)" for j
        using that frees_okD(2)[OF Fr, of j] e(1) False by (auto simp: nth_list_update split: list.split)
    qed
    then show ?thesis using op st set same_headers_chunks[OF _ C] by (auto simp: heap_ok_def free_step_def)
  qed
qed

lemma free_remove_ok:
  assumes ok: "heap_ok h B F X" and c: "c \<in> B" "\<not> k_chunk_used h c" "c \<notin> X"
  shows "\<exists>h' F'. k_free_list_remove c h = OK h' \<and> heap_ok h' B F' (insert c X) \<and> free_step h h' B"
proof (cases "k_solo_free_header h c")
  case True
  then have "heap_ok h B F (insert c X)" using ok by (auto simp: heap_ok_def frees_ok_def)
  then show ?thesis using True by (auto simp: k_free_list_remove_def)
next
  case False
  then have "c \<in> set (F (k_bucket_idx h (k_chunk_size h c)))"
    using ok c frees_okD(5)[of h B F X c] by (simp add: heap_ok_def)
  then show ?thesis using remove_ok[OF ok] False by (fastforce simp: k_free_list_remove_def)
qed

subsection \<open>Putting a chunk into its list\<close>

lemma free_add_ok:
  assumes ok: "heap_ok h B F X" and c: "c \<in> B" "\<not> k_chunk_used h c" "c \<in> X"
  shows "\<exists>h' F'. k_free_list_add c h = OK h' \<and> heap_ok h' B F' (X - {c}) \<and> free_step h h' B"
proof (cases "k_solo_free_header h c")
  case True
  then have "heap_ok h B F (X - {c})" using ok by (auto simp: heap_ok_def frees_ok_def)
  then show ?thesis using True by (auto simp: k_free_list_add_def)
next
  case ns: False
  have C: "chunks_ok h B" and Fr: "frees_ok h B F X" using ok by (simp_all add: heap_ok_def)
  define i where "i = k_bucket_idx h (k_chunk_size h c)"
  let ?nx = "k_next_free_chunk h" and ?pv = "k_prev_free_chunk h"
  have c0: "c \<noteq> hp_len h" "c \<le> hp_len h" using c(2) chunks_okD(4,6)[OF C] c(1) by auto
  then have "0 < k_chunk_size h c" using chunks_okD(8)[OF C c(1)] by blast
  then have m: "k_min_chunk_size h \<le> k_chunk_size h c"
    using ns by (auto simp: k_min_chunk_size_eq k_solo_free_header_def word_le_nat_alt word_less_nat_alt word_unat_eq_iff)
  have i: "i < length (buckets h)"
    using k_bucket_idx_mono[OF m chunk_end(3)[OF C c(1)]] frees_okD(1)[OF Fr] by (simp add: i_def)
  have i32: "i < 32" using k_bucket_idx_log(3)[OF m] by (simp add: i_def)
  have notin: "c \<notin> set (F j)" for j using frees_okD(5)[OF Fr, of c j] c(3) by simp
  have mem: "x \<in> set ((F(i := F i @ [c])) j) \<longleftrightarrow> x \<in> B \<and> \<not> k_chunk_used h x \<and> x \<notin> X - {c} \<and>
      \<not> k_solo_free_header h x \<and> k_bucket_idx h (k_chunk_size h x) = j" for x j
    using frees_okD(5)[OF Fr, of x j] c ns i_def by (cases "x = c"; cases "j = i") simp_all
  show ?thesis
  proof (cases "F i = []")
    case True
    let ?h1 = "h\<lparr>avail_buckets := avail_buckets h OR push_bit i 1, buckets := (buckets h)[i := c]\<rparr>"
    let ?h2 = "put c FREE_PREV c ?h1" and ?h = "put c FREE_NEXT c (put c FREE_PREV c ?h1)"
    have g: "get_bucket h i = OK 0" using i frees_okD(2)[OF Fr i] True by (simp add: get_bucket_def)
    have a: "avail_buckets h AND push_bit i 1 = 0"
      using frees_okD(4)[OF Fr, of i] True bit_iff_and_push_bit_not_eq_0[of "avail_buckets h" i] by simp
    have len: "heap_len_ok ?h1" "hp_len ?h1 = hp_len h" "heap_len_ok ?h2" "hp_len ?h2 = hp_len h"
      using chunks_okD(1)[OF C] by (simp_all add: heap_len_ok_def)
    have op: "k_free_list_add c h = OK ?h"
      using ns g a i k_chunk_set_ok[OF len(1)] k_chunk_set_ok[OF len(3)] c0(2) len(2,4)
      by (simp add: k_free_list_add_def k_free_list_add_bidx_def set_bucket_def i_def[symmetric]
          k_set_next_free_chunk_def k_set_prev_free_chunk_def)
    have st1: "free_step h ?h1 B"
      by (simp add: free_step_def same_headers_def bodies_kept_def same_frame_def)
    have st: "free_step h ?h B"
      by (intro free_step_put[OF C] st1) (use c(1,2) ns in \<open>simp_all add: field_defs\<close>)
    have nx: "k_next_free_chunk ?h = ?nx(c := c)" and pv: "k_prev_free_chunk ?h = ?pv(c := c)"
      by (simp_all add: put_links)
    have "frees_ok ?h B (F(i := F i @ [c])) (X - {c})"
    proof (rule frees_okI[OF Fr _ mem])
      show "same_headers h ?h B" using st by (simp add: free_step_def)
      show "bit (avail_buckets ?h) j \<longleftrightarrow> (F(i := F i @ [c])) j \<noteq> []" for j
        using frees_okD(4)[OF Fr, of j] i32 by (auto simp: push_bit_of_1 bit_or_exp)
      show "ringed (k_next_free_chunk ?h) (k_prev_free_chunk ?h) ((F(i := F i @ [c])) j)" for j
        using True frees_okD(3)[OF Fr, of j] notin[of j] unfolding nx pv by (simp add: ringed_outside)
      show "buckets ?h ! j = (case (F(i := F i @ [c])) j of [] \<Rightarrow> 0 | c # _ \<Rightarrow> c)" if "j < length (buckets h)" for j
        using that frees_okD(2)[OF Fr, of j] True by (simp add: nth_list_update)
    qed
    then show ?thesis using op st same_headers_chunks[OF _ C] by (auto simp: heap_ok_def free_step_def)
  next
    case False
    let ?s = "hd (F i)"
    let ?f = "?pv ?s"
    note G = get_bucket_listed[OF ok False]
    have "?f = last (F i)" using frees_okD(3)[OF Fr, of i] False by (simp add: ringed_def)
    then have m: "?s \<in> set (F i)" "?f \<in> set (F i)" using False by simp_all
    note Ls = listed[OF ok m(1)] and Lf = listed[OF ok m(2)]
    let ?h1 = "put c FREE_PREV ?f h"
    let ?h2 = "put c FREE_NEXT ?s ?h1"
    let ?h3 = "put ?f FREE_NEXT c ?h2"
    let ?h = "put ?s FREE_PREV c ?h3"
    have len: "heap_len_ok h" "heap_len_ok ?h1" "heap_len_ok ?h2" "heap_len_ok ?h3"
      using chunks_okD(1)[OF C] by (simp_all add: heap_len_ok_def)
    have op: "k_free_list_add c h = OK ?h"
      using ns G c0(2) Ls(6) Lf(6) len[THEN k_chunk_set_ok]
      by (simp add: k_free_list_add_def k_free_list_add_bidx_def i_def[symmetric] Let_def
          k_set_next_free_chunk_def k_set_prev_free_chunk_def)
    have st: "free_step h ?h B"
      by (intro free_step_put[OF C] free_step_refl)
         (use c(1,2) ns Ls(1,2,7) Lf(1,2,7) in \<open>simp_all add: field_defs\<close>)
    have nx: "k_next_free_chunk ?h = ?nx(c := ?s, ?f := c)" and pv: "k_prev_free_chunk ?h = ?pv(c := ?f, ?s := c)"
      by (simp_all add: put_links)
    have "frees_ok ?h B (F(i := F i @ [c])) (X - {c})"
    proof (rule frees_okI[OF Fr _ mem])
      show "same_headers h ?h B" using st by (simp add: free_step_def)
      show "bit (avail_buckets ?h) j \<longleftrightarrow> (F(i := F i @ [c])) j \<noteq> []" for j
        using frees_okD(4)[OF Fr, of j] False by auto
      show "ringed (k_next_free_chunk ?h) (k_prev_free_chunk ?h) ((F(i := F i @ [c])) j)" for j
      proof (cases "j = i")
        case True
        then show ?thesis using ringed_insert[OF frees_okD(3)[OF Fr] False notin] unfolding nx pv by simp
      next
        case j: False
        then have "?f \<notin> set (F j)" "?s \<notin> set (F j)" using bucket_other[OF ok] m by metis+
        then show ?thesis using j frees_okD(3)[OF Fr, of j] notin[of j] unfolding nx pv by (simp add: ringed_outside)
      qed
      show "buckets ?h ! j = (case (F(i := F i @ [c])) j of [] \<Rightarrow> 0 | c # _ \<Rightarrow> c)" if "j < length (buckets h)" for j
        using that frees_okD(2)[OF Fr, of j] False by (auto split: list.split)
    qed
    then show ?thesis using op st same_headers_chunks[OF _ C] by (auto simp: heap_ok_def free_step_def)
  qed
qed

subsection \<open>Changing headers\<close>

definition all_listed :: "(nat \<Rightarrow> u32 list) \<Rightarrow> u32 set" where
  "all_listed F = (\<Union>i. set (F i))"

definition links_kept :: "z_heap \<Rightarrow> z_heap \<Rightarrow> u32 set \<Rightarrow> bool" where
  "links_kept h h' S \<longleftrightarrow> same_frame h h' \<and> buckets h' = buckets h \<and> avail_buckets h' = avail_buckets h \<and>
     (\<forall>y \<in> S. k_next_free_chunk h' y = k_next_free_chunk h y \<and> k_prev_free_chunk h' y = k_prev_free_chunk h y)"

lemma links_kept_refl [simp]: "links_kept h h S" by (simp add: links_kept_def)

lemma links_kept_put:
  assumes "links_kept h h1 S" "f < 2" "\<And>y. y \<in> S \<Longrightarrow> k_big_heap h \<Longrightarrow> unat c \<noteq> unat y + 1"
  shows "links_kept h (put c f v h1) S"
proof -
  have b: "k_big_heap h1 = k_big_heap h" using assms(1) same_frameD(3) by (simp add: links_kept_def)
  have "apart (k_big_heap h) (c, f) (y, g)" if "y \<in> S" "2 \<le> g" "g < 4" for y g
    using apart_mixed(1)[OF assms(2) that(2,3)] assms(3)[OF that(1)] by blast
  then show ?thesis
    using assms(1) by (simp add: links_kept_def same_frame_def k_next_free_chunk_def k_prev_free_chunk_def field_put b field_defs)
qed

lemma frees_ok_headers:
  assumes "frees_ok h B F X" "links_kept h h' (all_listed F)" and "\<And>x j. x \<in> set (F j) \<longleftrightarrow>
      x \<in> B' \<and> \<not> k_chunk_used h' x \<and> x \<notin> X' \<and> \<not> k_solo_free_header h' x \<and> k_bucket_idx h (k_chunk_size h' x) = j"
  shows "frees_ok h' B' F X'"
proof -
  have f: "same_frame h h'" using assms(2) by (simp add: links_kept_def)
  have "ringed (k_next_free_chunk h') (k_prev_free_chunk h') (F i)" for i
    by (rule ringed_cong[OF _ frees_okD(3)[OF assms(1)]])
       (use assms(2) in \<open>auto simp: links_kept_def all_listed_def\<close>)
  then show ?thesis
    using assms(1,3) assms(2) same_frameD[OF f] f by (simp add: frees_ok_def links_kept_def same_frame_def)
qed

text \<open>Listed chunks leave room for the headers of other chunks, also of a new one in another chunk.\<close>

lemma listed_apart:
  assumes ok: "heap_ok h B F X" and y: "y \<in> all_listed F" and b: "k_big_heap h"
  shows "d \<in> B \<Longrightarrow> unat d \<noteq> unat y + 1"
    "c \<in> B \<Longrightarrow> c \<noteq> y \<Longrightarrow> c < r \<Longrightarrow> r < c + k_chunk_size h c \<Longrightarrow> unat r \<noteq> unat y + 1"
proof -
  have C: "chunks_ok h B" using ok by (simp add: heap_ok_def)
  obtain i where i: "y \<in> set (F i)" using y by (auto simp: all_listed_def)
  note L = listed[OF ok i]
  show "d \<in> B \<Longrightarrow> unat d \<noteq> unat y + 1" by (rule linkable_apart[OF C L(1,7,5) _ b])
  show "unat r \<noteq> unat y + 1" if "c \<in> B" "c \<noteq> y" "c < r" "r < c + k_chunk_size h c"
  proof
    assume r: "unat r = unat y + 1"
    then have "c < y" using that(2,3) by (simp add: word_less_nat_alt word_unat_eq_iff)
    then have "c + k_chunk_size h c \<le> y" by (rule chunks_okD(12)[OF C that(1) L(1)])
    then show False using that(4) r by (simp add: word_less_nat_alt word_le_nat_alt)
  qed
qed

subsection \<open>Splitting\<close>

lemma split_fields:
  assumes C: "chunks_ok h B" and l: "lc \<in> B" and r: "lc < rc" "rc < lc + k_chunk_size h lc"
  defines "rsz \<equiv> lc + k_chunk_size h lc - rc"
  shows "k_split_chunks lc rc h = OK (put (lc + k_chunk_size h lc) LEFT_SIZE rsz (put rc LEFT_SIZE (rc - lc)
      (put rc SIZE_AND_USED (push_bit 1 rsz) (put lc SIZE_AND_USED (push_bit 1 (rc - lc)) h))))"
    "rsz = k_chunk_size h lc - (rc - lc)" "0 < rsz" "rc \<notin> B" "rc \<le> hp_len h" "rc - lc \<le> hp_len h" "rsz \<le> hp_len h - rc"
    "rsz \<le> hp_len h" "lc \<noteq> hp_len h"
proof -
  note e = chunk_end[OF C l]
  have n: "unat lc < unat rc" "unat rc < unat lc + unat (k_chunk_size h lc)"
    using r e(1) by (simp_all add: word_less_nat_alt)
  have d: "unat (rc - lc) = unat rc - unat lc" using n by (simp add: unat_sub word_le_nat_alt)
  have rs: "unat rsz = unat lc + unat (k_chunk_size h lc) - unat rc"
    using n e(1) by (simp add: rsz_def unat_sub word_le_nat_alt)
  show eq: "rsz = k_chunk_size h lc - (rc - lc)" by (simp add: rsz_def)
  show pos: "0 < rsz" using rs n by (simp add: word_less_nat_alt)
  show "rc \<notin> B"
  proof
    assume "rc \<in> B"
    then have "lc + k_chunk_size h lc \<le> rc" by (rule chunks_okD(12)[OF C l _ r(1)])
    then show False using r(2) by simp
  qed
  show rl: "rc \<le> hp_len h" "rc - lc \<le> hp_len h" "rsz \<le> hp_len h - rc" "rsz \<le> hp_len h"
    using n e(2) d rs by (simp_all add: word_le_nat_alt unat_sub)
  show "lc \<noteq> hp_len h" using n e(2) by auto
  have ll: "lc \<le> hp_len h" by (rule chunks_okD(4)[OF C l])
  have le: "lc + k_chunk_size h lc \<le> hp_len h" using e(1,2) by (simp add: word_le_nat_alt)
  have small: "unat rsz < 2 ^ 31" using rl(4) chunks_okD(1)[OF C] by (simp add: heap_len_ok_def word_le_nat_alt)
  have lt: "rc - lc < k_chunk_size h lc" using d n by (simp add: word_less_nat_alt)
  let ?h1 = "put lc SIZE_AND_USED (push_bit 1 (rc - lc)) h"
  let ?h2 = "put rc SIZE_AND_USED (push_bit 1 rsz) ?h1"
  let ?h3 = "put rc LEFT_SIZE (rc - lc) ?h2"
  have ok: "heap_len_ok h" "heap_len_ok ?h1" "heap_len_ok ?h2" "heap_len_ok ?h3"
    using chunks_okD(1)[OF C] by (simp_all add: heap_len_ok_def)
  have "k_chunk_size ?h3 rc = rsz"
    using small by (simp add: k_chunk_size_def field_put_header field_defs drop_double)
  then have right: "k_right_chunk ?h3 rc = lc + k_chunk_size h lc" by (simp add: k_right_chunk_def rsz_def)
  show "k_split_chunks lc rc h = OK (put (lc + k_chunk_size h lc) LEFT_SIZE rsz ?h3)"
    unfolding k_split_chunks_def Let_def eq[symmetric]
    using r(1) lt ok rl ll le right by (simp add: k_set_chunk_size_ok k_set_left_chunk_size_def k_chunk_set_ok)
qed

lemma size_put: "f < 2 \<Longrightarrow> k_chunk_size (put c f v h) d =
    (if c = d \<and> f = SIZE_AND_USED then drop_bit 1 v else k_chunk_size h d)"
  by (auto simp: k_chunk_size_def field_put_header field_defs)

lemma used_put: "f < 2 \<Longrightarrow> k_chunk_used (put c f v h) d \<longleftrightarrow>
    (if c = d \<and> f = SIZE_AND_USED then bit v 0 else k_chunk_used h d)"
  by (auto simp: k_chunk_used_bit field_put_header field_defs)

lemma left_put: "f < 2 \<Longrightarrow> left_size (put c f v h) d = (if c = d \<and> f = LEFT_SIZE then v else left_size h d)"
  by (auto simp: field_put_header field_defs)

lemma cells_put: "cells (put c f v h) j = (if j = chunk_cell (k_big_heap h) c f then v else cells h j)"
  by (simp add: put_def)

lemma split_ok:
  assumes ok: "heap_ok h B F X" and l: "lc \<in> B" "lc \<noteq> 0" "\<And>i. lc \<notin> set (F i)"
    and r: "lc < rc" "rc < lc + k_chunk_size h lc"
  defines "e \<equiv> lc + k_chunk_size h lc"
  shows "\<exists>h'. k_split_chunks lc rc h = OK h' \<and> heap_ok h' (insert rc B) F (X \<union> {lc, rc}) \<and> same_frame h h' \<and>
    rc \<notin> B \<and> rc \<noteq> 0 \<and> rc \<noteq> hp_len h \<and> lc \<noteq> hp_len h \<and>
    k_chunk_size h' lc = rc - lc \<and> k_chunk_size h' rc = e - rc \<and> \<not> k_chunk_used h' lc \<and> \<not> k_chunk_used h' rc \<and>
    (\<forall>c \<in> B. c \<noteq> lc \<longrightarrow> k_chunk_size h' c = k_chunk_size h c \<and> k_chunk_used h' c = k_chunk_used h c) \<and>
    (\<forall>u \<in> B. u \<noteq> lc \<longrightarrow> (\<forall>j. in_body h u j \<longrightarrow> cells h' j = cells h j)) \<and>
    (\<forall>j. chunk_cell (k_big_heap h) lc 2 \<le> j \<and> j < chunk_cell (k_big_heap h) rc 0 \<longrightarrow> cells h' j = cells h j)"
proof -
  have C: "chunks_ok h B" and Fr: "frees_ok h B F X" using ok by (simp_all add: heap_ok_def)
  define rsz where "rsz = e - rc"
  define lsz where "lsz = rc - lc"
  note S = split_fields[OF C l(1) r, folded e_def, folded rsz_def lsz_def]
  define h' where "h' = put e LEFT_SIZE rsz (put rc LEFT_SIZE (lsz)
      (put rc SIZE_AND_USED (push_bit 1 rsz) (put lc SIZE_AND_USED (push_bit 1 (lsz)) h)))"
  have small: "unat rsz < 2147483648" "unat (lsz) < 2147483648"
    using S(6,8) chunks_okD(1)[OF C] by (simp_all add: heap_len_ok_def word_le_nat_alt)
  have en: "e \<in> B" "lc < e" using chunk_next[OF C l(1) S(9)] by (simp_all add: e_def)
  have ne: "rc \<noteq> lc" "rc \<noteq> e" "lc \<noteq> e" using r en S(4) by (auto simp: e_def)
  have f [simp]: "hp_len h' = hp_len h" "k_big_heap h' = k_big_heap h" "same_frame h h'"
    by (simp_all add: h'_def same_frame_def)
  have sz: "k_chunk_size h' d = (if d = lc then lsz else if d = rc then rsz else k_chunk_size h d)" for d
    using small ne(1) by (simp add: h'_def size_put field_defs drop_double)
  have us: "k_chunk_used h' d \<longleftrightarrow> d \<noteq> lc \<and> d \<noteq> rc \<and> k_chunk_used h d" for d
    using ne(1) size_field_values(2)[of "lsz"] size_field_values(2)[of rsz]
    by (auto simp: h'_def used_put field_defs)
  have lf: "left_size h' d = (if d = e then rsz else if d = rc then lsz else left_size h d)" for d
    using ne by (auto simp: h'_def field_put_header field_defs)
  have op: "k_split_chunks lc rc h = OK h'" using S(1) by (simp add: h'_def e_def)
  have after: "d \<le> lc \<or> e \<le> d" if "d \<in> B" for d
    using chunks_okD(12)[OF C l(1) that] by (cases "lc < d") (simp_all add: e_def not_less)
  have before: "d + k_chunk_size h d \<le> lc" if "d \<in> B" "d < lc" for d by (rule chunks_okD(12)[OF C that(1) l(1) that(2)])
  have re: "rc < e" using r by (simp add: e_def)
  have "chunks_ok h' (insert rc B)"
    unfolding chunks_ok_def
  proof (intro conjI ballI impI)
    show "heap_len_ok h'" using chunks_okD(1)[OF C] by (simp add: heap_len_ok_def)
    show "0 \<in> insert rc B" "hp_len h' \<in> insert rc B" using chunks_okD(2,3)[OF C] by simp_all
    show "c \<le> hp_len h'" if "c \<in> insert rc B" for c using that chunks_okD(4)[OF C] S(5) by auto
    have ends: "hp_len h \<noteq> lc" "hp_len h \<noteq> rc" "0 \<noteq> rc" using S(4,9) chunks_okD(2,3)[OF C] by auto
    show "k_chunk_size h' (hp_len h') = 0" "k_chunk_used h' (hp_len h')" "k_chunk_used h' 0"
      using ends chunks_okD(5-7)[OF C] l(2) by (simp_all add: sz us)
  next
    fix c assume c: "c \<in> insert rc B" "c \<noteq> hp_len h'"
    consider "c = lc" | "c = rc" | "c \<in> B" "c \<noteq> lc" "c \<noteq> rc" using c by blast
    then have "0 < k_chunk_size h' c \<and> k_chunk_size h' c \<le> hp_len h' - c \<and> c + k_chunk_size h' c \<in> insert rc B \<and>
        left_size h' (c + k_chunk_size h' c) = k_chunk_size h' c \<and>
        (\<forall>d \<in> insert rc B. c < d \<longrightarrow> c + k_chunk_size h' c \<le> d)"
    proof cases
      case 1
      have "0 < lsz" "lc + lsz = rc" using r(1) by (auto simp: lsz_def word_gt_0)
      moreover have "lsz \<le> hp_len h - lc"
        using S(5) r(1) by (simp add: lsz_def word_le_nat_alt unat_sub word_less_nat_alt)
      moreover have "\<forall>d \<in> B. lc < d \<longrightarrow> rc \<le> d" using after re by fastforce
      ultimately show ?thesis using 1 ne by (simp add: sz lf)
    next
      case 2
      have "rc + rsz = e" by (simp add: rsz_def)
      moreover have "\<forall>d \<in> B. rc < d \<longrightarrow> e \<le> d" using after r(1) by fastforce
      ultimately show ?thesis using 2 ne en S(3,7) by (simp add: sz lf)
    next
      case 3
      note n = chunk_next[OF C 3(1)]
      have hl: "c \<noteq> hp_len h" using c(2) by simp
      have sep: "c + k_chunk_size h c \<noteq> e" "c + k_chunk_size h c \<noteq> rc" "c < rc \<longrightarrow> c + k_chunk_size h c \<le> rc"
      proof -
        show "c + k_chunk_size h c \<noteq> e" using before[OF 3(1)] after[OF 3(1)] 3(2) n(1)[OF hl] en(2) by fastforce
        show "c + k_chunk_size h c \<noteq> rc" using n(3)[OF hl] S(4) by auto
        show "c < rc \<longrightarrow> c + k_chunk_size h c \<le> rc"
          using before[OF 3(1)] after[OF 3(1)] 3(2) r(1) re by fastforce
      qed
      then show ?thesis
        using 3 chunks_okD(8-12)[OF C 3(1)] hl by (auto simp: sz lf)
    qed
    then show "0 < k_chunk_size h' c" "k_chunk_size h' c \<le> hp_len h' - c" "c + k_chunk_size h' c \<in> insert rc B"
      "left_size h' (c + k_chunk_size h' c) = k_chunk_size h' c"
      "\<And>d. d \<in> insert rc B \<Longrightarrow> c < d \<Longrightarrow> c + k_chunk_size h' c \<le> d"
      by blast+
  qed
  moreover have "frees_ok h' (insert rc B) F (X \<union> {lc, rc})"
  proof (rule frees_ok_headers[OF Fr])
    have "y \<noteq> lc" if "y \<in> all_listed F" for y using that l(3) by (auto simp: all_listed_def)
    then have "k_big_heap h \<Longrightarrow> unat rc \<noteq> unat y + 1" if "y \<in> all_listed F" for y
      using listed_apart(2)[OF ok that _ l(1)] that r by blast
    then show "links_kept h h' (all_listed F)"
      unfolding h'_def using listed_apart(1)[OF ok] l(1) en(1)
      by (intro links_kept_put links_kept_refl) (simp_all add: field_defs)
    have solo: "k_solo_free_header h' x \<longleftrightarrow> k_solo_free_header h x" if "x \<noteq> lc" "x \<noteq> rc" for x
      using that by (simp add: k_solo_free_header_def sz)
    show "x \<in> set (F j) \<longleftrightarrow> x \<in> insert rc B \<and> \<not> k_chunk_used h' x \<and> x \<notin> X \<union> {lc, rc} \<and>
        \<not> k_solo_free_header h' x \<and> k_bucket_idx h (k_chunk_size h' x) = j" for x j
      using frees_okD(5)[OF Fr, of x j] l(3)[of j] S(4)
      by (cases "x = lc"; cases "x = rc") (simp_all add: sz us solo)
  qed
  ultimately have "heap_ok h' (insert rc B) F (X \<union> {lc, rc})" by (simp add: heap_ok_def)
  moreover have "cells h' j = cells h j" if "u \<in> B" "u \<noteq> lc" "in_body h u j" for u j
  proof -
    have "\<not> in_body h u (chunk_cell (k_big_heap h) rc f)" if "f < 4" for f
    proof (cases "u < lc")
      case True
      then have "u + k_chunk_size h u \<le> rc" using before[OF \<open>u \<in> B\<close>] r(1) by force
      then show ?thesis using chunk_cell_le[of "u + k_chunk_size h u" rc] by (simp add: in_body_def not_less)
    next
      case False
      then have "rc < u" using after[OF \<open>u \<in> B\<close>] \<open>u \<noteq> lc\<close> re by force
      then show ?thesis using chunk_cell_less[OF _ that] by (simp add: in_body_def not_le)
    qed
    moreover have "\<not> in_body h u (chunk_cell (k_big_heap h) lc f)" if "f < 4" for f
      using not_in_body[OF C \<open>u \<in> B\<close> l(1) that] \<open>u \<noteq> lc\<close> by blast
    moreover have "\<not> in_body h u (chunk_cell (k_big_heap h) e 0)" using not_in_body[OF C \<open>u \<in> B\<close> en(1)] by simp
    ultimately show ?thesis using that(3) by (auto simp: h'_def cells_put field_defs)
  qed
  moreover have "cells h' j = cells h j"
    if "chunk_cell (k_big_heap h) lc 2 \<le> j" "j < chunk_cell (k_big_heap h) rc 0" for j
    using that re unfolding h'_def cells_put put_frame field_defs
    by (auto simp: chunk_cell_def word_less_nat_alt split: if_splits)
  ultimately show ?thesis
    using op S(4,9) chunks_okD(2,3)[OF C] ne by (auto simp: sz us rsz_def lsz_def)
qed

subsection \<open>Merging\<close>

lemma merge_ok:
  assumes ok: "heap_ok h B F X" and l: "lc \<in> B" "\<not> k_chunk_used h lc" "lc \<in> X"
    and r: "lc + k_chunk_size h lc = rc" "\<not> k_chunk_used h rc" "rc \<in> X"
  defines "newsz \<equiv> k_chunk_size h lc + k_chunk_size h rc"
  shows "\<exists>h'. k_merge_chunks lc rc h = OK h' \<and> heap_ok h' (B - {rc}) F (X - {rc}) \<and> same_frame h h' \<and>
    rc \<in> B \<and> rc \<noteq> lc \<and> k_chunk_size h' lc = newsz \<and> \<not> k_chunk_used h' lc \<and> left_size h' rc = left_size h rc \<and>
    (\<forall>c \<in> B. c \<noteq> lc \<longrightarrow> k_chunk_size h' c = k_chunk_size h c \<and> k_chunk_used h' c = k_chunk_used h c) \<and>
    (\<forall>u \<in> B. \<forall>j. in_body h u j \<longrightarrow> cells h' j = cells h j)"
proof -
  have C: "chunks_ok h B" and Fr: "frees_ok h B F X" using ok by (simp_all add: heap_ok_def)
  have nl: "lc \<noteq> hp_len h" "lc \<noteq> 0" "rc \<noteq> hp_len h" "rc \<noteq> 0" using l(2) r(2) chunks_okD(6,7)[OF C] by auto
  have rB: "rc \<in> B" "lc < rc" using chunk_next[OF C l(1) nl(1)] r(1) by simp_all
  let ?e = "rc + k_chunk_size h rc"
  have e: "?e \<in> B" "rc < ?e" "?e \<le> hp_len h" using chunk_next[OF C rB(1) nl(3)] by simp_all
  have sum: "lc + newsz = ?e" using r(1) by (simp add: newsz_def ac_simps)
  have un: "unat newsz = unat (k_chunk_size h lc) + unat (k_chunk_size h rc)" "unat lc + unat newsz \<le> unat (hp_len h)"
  proof -
    have "unat lc + (unat (k_chunk_size h lc) + unat (k_chunk_size h rc)) \<le> unat (hp_len h)"
      using chunk_end(1)[OF C l(1)] chunk_end(2)[OF C rB(1)] r(1) by simp
    then show "unat newsz = unat (k_chunk_size h lc) + unat (k_chunk_size h rc)" "unat lc + unat newsz \<le> unat (hp_len h)"
      using unat_u32[of "hp_len h"] by (simp_all add: newsz_def unat_word_ariths(1))
  qed
  have nle: "newsz \<le> hp_len h" "newsz \<le> hp_len h - lc"
    using un(2) chunks_okD(4)[OF C l(1)] by (simp_all add: word_le_nat_alt unat_sub)
  have small: "unat newsz < 2147483648" using un(2) chunks_okD(1)[OF C] by (simp add: heap_len_ok_def)
  let ?h1 = "put lc SIZE_AND_USED (push_bit 1 newsz) h"
  define h' where "h' = put ?e LEFT_SIZE newsz ?h1"
  have "k_right_chunk ?h1 rc = ?e" using rB(2) by (auto simp: k_right_chunk_def size_put field_defs)
  moreover have "heap_len_ok h" "heap_len_ok ?h1" using chunks_okD(1)[OF C] by (simp_all add: heap_len_ok_def)
  ultimately have op: "k_merge_chunks lc rc h = OK h'"
    using nle(1) e(3) chunks_okD(4)[OF C l(1)]
    by (simp add: k_merge_chunks_def Let_def newsz_def[symmetric] k_set_chunk_size_ok k_set_left_chunk_size_def
        k_chunk_set_ok h'_def)
  have f [simp]: "hp_len h' = hp_len h" "k_big_heap h' = k_big_heap h" "same_frame h h'"
    by (simp_all add: h'_def same_frame_def)
  have sz: "k_chunk_size h' d = (if d = lc then newsz else k_chunk_size h d)" for d
    using small by (simp add: h'_def size_put field_defs drop_double)
  have us: "k_chunk_used h' d \<longleftrightarrow> d \<noteq> lc \<and> k_chunk_used h d" for d
    using size_field_values(2)[of newsz] by (auto simp: h'_def used_put field_defs)
  have lf: "left_size h' d = (if d = ?e then newsz else left_size h d)" for d
    by (auto simp: h'_def field_put_header field_defs)
  have after: "d \<le> lc \<or> d = rc \<or> ?e \<le> d" if "d \<in> B" for d
    using chunks_okD(12)[OF C l(1) that] chunks_okD(12)[OF C rB(1) that] r(1) by force
  have before: "d + k_chunk_size h d \<le> lc" if "d \<in> B" "d < lc" for d by (rule chunks_okD(12)[OF C that(1) l(1) that(2)])
  have "chunks_ok h' (B - {rc})"
    unfolding chunks_ok_def
  proof (intro conjI ballI impI)
    show "heap_len_ok h'" using chunks_okD(1)[OF C] by (simp add: heap_len_ok_def)
    show "0 \<in> B - {rc}" "hp_len h' \<in> B - {rc}" using chunks_okD(2,3)[OF C] nl by auto
    show "c \<le> hp_len h'" if "c \<in> B - {rc}" for c using that chunks_okD(4)[OF C] by auto
    show "k_chunk_size h' (hp_len h') = 0" "k_chunk_used h' (hp_len h')" "k_chunk_used h' 0"
      using nl chunks_okD(5-7)[OF C] by (simp_all add: sz us)
  next
    fix c assume c: "c \<in> B - {rc}" "c \<noteq> hp_len h'"
    have "0 < k_chunk_size h' c \<and> k_chunk_size h' c \<le> hp_len h' - c \<and> c + k_chunk_size h' c \<in> B - {rc} \<and>
        left_size h' (c + k_chunk_size h' c) = k_chunk_size h' c \<and>
        (\<forall>d \<in> B - {rc}. c < d \<longrightarrow> c + k_chunk_size h' c \<le> d)"
    proof (cases "c = lc")
      case True
      have "0 < newsz" using un(1) chunks_okD(8)[OF C l(1) nl(1)] by (simp add: word_less_nat_alt)
      moreover have "\<forall>d \<in> B - {rc}. lc < d \<longrightarrow> ?e \<le> d" using after by force
      moreover have "k_chunk_size h rc \<noteq> 0" using e(2) by auto
      ultimately show ?thesis using True nle(2) e sum by (simp add: sz lf)
    next
      case False
      have cB: "c \<in> B" and hl: "c \<noteq> hp_len h" using c by simp_all
      note n = chunk_next[OF C cB hl]
      have "c + k_chunk_size h c \<noteq> ?e" "c + k_chunk_size h c \<noteq> rc"
        using before[OF cB] after[OF cB] False c(1) n(1) rB(2) e(2) by force+
      then show ?thesis using False chunks_okD(8-12)[OF C cB] hl by (auto simp: sz lf)
    qed
    then show "0 < k_chunk_size h' c" "k_chunk_size h' c \<le> hp_len h' - c" "c + k_chunk_size h' c \<in> B - {rc}"
      "left_size h' (c + k_chunk_size h' c) = k_chunk_size h' c"
      "\<And>d. d \<in> B - {rc} \<Longrightarrow> c < d \<Longrightarrow> c + k_chunk_size h' c \<le> d"
      by blast+
  qed
  moreover have "frees_ok h' (B - {rc}) F (X - {rc})"
  proof (rule frees_ok_headers[OF Fr])
    show "links_kept h h' (all_listed F)"
      unfolding h'_def using listed_apart(1)[OF ok] l(1) e(1)
      by (intro links_kept_put links_kept_refl) (simp_all add: field_defs)
    have solo: "k_solo_free_header h' x \<longleftrightarrow> k_solo_free_header h x" if "x \<noteq> lc" for x
      using that by (simp add: k_solo_free_header_def sz)
    show "x \<in> set (F j) \<longleftrightarrow> x \<in> B - {rc} \<and> \<not> k_chunk_used h' x \<and> x \<notin> X - {rc} \<and>
        \<not> k_solo_free_header h' x \<and> k_bucket_idx h (k_chunk_size h' x) = j" for x j
      using frees_okD(5)[OF Fr, of x j] l(3) r(3) rB(2)
      by (cases "x = lc"; cases "x = rc") (simp_all add: sz us solo)
  qed
  moreover have "\<forall>u \<in> B. \<forall>j. in_body h u j \<longrightarrow> cells h' j = cells h j"
  proof (intro ballI impI allI)
    fix u j assume u: "u \<in> B" "in_body h u j"
    have "\<not> in_body h u (chunk_cell (k_big_heap h) lc 1)" "\<not> in_body h u (chunk_cell (k_big_heap h) ?e 0)"
      using not_in_body[OF C u(1) l(1)] not_in_body[OF C u(1) e(1)] by simp_all
    then show "cells h' j = cells h j" using u(2) by (auto simp: h'_def cells_put field_defs)
  qed
  moreover have "rc \<noteq> ?e" using e(2) by auto
  ultimately show ?thesis using op rB by (auto simp: heap_ok_def sz us lf)
qed

subsection \<open>Owners\<close>

text \<open>The chunks in use, and steps that leave those in \<open>U\<close> alone.\<close>

definition owners :: "z_heap \<Rightarrow> u32 set \<Rightarrow> u32 set" where
  "owners h B = {u \<in> B. k_chunk_used h u}"

definition kept :: "z_heap \<Rightarrow> z_heap \<Rightarrow> u32 set \<Rightarrow> bool" where
  "kept h h' U \<longleftrightarrow> same_frame h h' \<and> (\<forall>u \<in> U. k_chunk_size h' u = k_chunk_size h u \<and>
     (u \<noteq> hp_len h \<longrightarrow> (\<forall>j. in_body h u j \<longrightarrow> cells h' j = cells h j)))"

lemma kept_refl [simp]: "kept h h U" by (simp add: kept_def)

lemma kept_trans: "kept h h1 U \<Longrightarrow> kept h1 h2 U \<Longrightarrow> kept h h2 U"
proof -
  assume 1: "kept h h1 U" and 2: "kept h1 h2 U"
  have f: "hp_len h1 = hp_len h" "k_big_heap h1 = k_big_heap h" using 1 same_frameD by (auto simp: kept_def)
  then have "in_body h1 u j \<longleftrightarrow> in_body h u j" if "u \<in> U" for u j
    using 1 that by (simp add: in_body_def kept_def)
  then show ?thesis using 1 2 f same_frame_trans by (auto simp: kept_def)
qed

lemma kept_mono: "kept h h' U \<Longrightarrow> V \<subseteq> U \<Longrightarrow> kept h h' V"
  by (auto simp: kept_def)

lemma kept_frame: "kept h h' U \<Longrightarrow> same_frame h h'"
  by (simp add: kept_def)

lemma free_step_kept:
  assumes "free_step h h' B"
  shows "owners h' B = owners h B" "kept h h' (owners h B)" "c \<in> B \<Longrightarrow> k_chunk_used h' c \<longleftrightarrow> k_chunk_used h c"
    "c \<in> B \<Longrightarrow> k_chunk_size h' c = k_chunk_size h c" "c \<in> B \<Longrightarrow> left_size h' c = left_size h c"
    "k_chunk_header_bytes h' = k_chunk_header_bytes h"
proof -
  have s: "same_headers h h' B" "bodies_kept h h' B" using assms by (simp_all add: free_step_def)
  note D = same_headersD[OF s(1)]
  show "owners h' B = owners h B" using D(3) by (auto simp: owners_def)
  show "kept h h' (owners h B)" using s D(2) by (auto simp: kept_def owners_def bodies_kept_def same_headers_def)
  show "c \<in> B \<Longrightarrow> k_chunk_used h' c \<longleftrightarrow> k_chunk_used h c" "c \<in> B \<Longrightarrow> k_chunk_size h' c = k_chunk_size h c"
    "c \<in> B \<Longrightarrow> left_size h' c = left_size h c" by (simp_all add: D)
  show "k_chunk_header_bytes h' = k_chunk_header_bytes h"
    using same_frameD(6) s(1) by (simp add: same_headers_def)
qed

text \<open>Marking a chunk.\<close>

lemma set_used_ok:
  fixes u :: bool
  assumes ok: "heap_ok h B F X" and c: "c \<in> B" "\<And>i. c \<notin> set (F i)" "c \<noteq> 0" "c \<noteq> hp_len h"
  defines "h' \<equiv> k_set_chunk_used c u h"
  shows "heap_ok h' B F (if u then X - {c} else insert c X)" "k_chunk_size h' d = k_chunk_size h d"
    "k_chunk_used h' d \<longleftrightarrow> (if d = c then u else k_chunk_used h d)" "kept h h' B"
proof -
  have C: "chunks_ok h B" and Fr: "frees_ok h B F X" using ok by (simp_all add: heap_ok_def)
  let ?v = "if u then k_chunk_field h c SIZE_AND_USED OR 1 else k_chunk_field h c SIZE_AND_USED AND NOT 1"
  have h': "h' = put c SIZE_AND_USED ?v h" by (simp add: h'_def k_set_chunk_used_put)
  have f [simp]: "hp_len h' = hp_len h" "k_big_heap h' = k_big_heap h" "same_frame h h'"
    by (simp_all add: h' same_frame_def)
  have v: "drop_bit 1 ?v = drop_bit 1 (k_chunk_field h c SIZE_AND_USED)" "bit ?v 0 = u"
    using size_field_values(3-6)[of "k_chunk_field h c SIZE_AND_USED"] by (cases u; simp only: if_True if_False)+
  show sz: "k_chunk_size h' d = k_chunk_size h d" for d
    unfolding h' by (subst size_put) (use v(1) in \<open>auto simp: field_defs k_chunk_size_def\<close>)
  show us: "k_chunk_used h' d \<longleftrightarrow> (if d = c then u else k_chunk_used h d)" for d
    unfolding h' by (subst used_put) (use v(2) in \<open>auto simp: field_defs\<close>)
  have lf: "left_size h' d = left_size h d" for d by (simp add: h' field_put_header field_defs)
  have "chunks_ok h' B"
    using C c(3,4) by (simp add: chunks_ok_def heap_len_ok_def sz us lf)
  moreover have "frees_ok h' B F (if u then X - {c} else insert c X)"
  proof (rule frees_ok_headers[OF Fr])
    show "links_kept h h' (all_listed F)"
      unfolding h' using listed_apart(1)[OF ok] c(1) by (intro links_kept_put links_kept_refl) (simp_all add: field_defs)
    show "x \<in> set (F j) \<longleftrightarrow> x \<in> B \<and> \<not> k_chunk_used h' x \<and> x \<notin> (if u then X - {c} else insert c X) \<and>
        \<not> k_solo_free_header h' x \<and> k_bucket_idx h (k_chunk_size h' x) = j" for x j
      using frees_okD(5)[OF Fr, of x j] c(2)[of j]
      by (cases "x = c"; cases u) (simp_all add: sz us k_solo_free_header_def)
  qed
  ultimately show "heap_ok h' B F (if u then X - {c} else insert c X)" by (simp add: heap_ok_def)
  have "cells h' j = cells h j" if "d \<in> B" "in_body h d j" for d j
    using not_in_body[OF C that(1) c(1), of 1] that(2) by (auto simp: h' cells_put field_defs)
  then show "kept h h' B" by (auto simp: kept_def sz)
qed

end
