(* ===== verification/Firstfit_Chunks.thy ===== *)
theory Firstfit_Chunks
  imports Firstfit_Inv
begin

unbundle bit_operations_syntax

text \<open>
  Release and allocation of chunks of the first-fit heap: \<^verbatim>\<open>_k_free_chunk\<close> merges the chunk with
  its free neighbours, and \<^verbatim>\<open>_k_alloc_chunk\<close> takes a chunk that is large enough off its list.
  Neither faults, and both leave the chunks in use alone. In a tidy heap no two free chunks are
  neighbours.
\<close>

subsection \<open>Tidy heaps\<close>

text \<open>No two neighbours outside \<open>X\<close> are free.\<close>

definition tidy :: "z_heap \<Rightarrow> u32 set \<Rightarrow> u32 set \<Rightarrow> bool" where
  "tidy h B X \<longleftrightarrow> (\<forall>c \<in> B. c \<noteq> hp_len h \<and> c \<notin> X \<and> c + k_chunk_size h c \<notin> X \<longrightarrow>
     k_chunk_used h c \<or> k_chunk_used h (c + k_chunk_size h c))"

lemma tidyD: "tidy h B X \<Longrightarrow> c \<in> B \<Longrightarrow> c \<noteq> hp_len h \<Longrightarrow> c \<notin> X \<Longrightarrow> c + k_chunk_size h c \<notin> X \<Longrightarrow>
    k_chunk_used h c \<or> k_chunk_used h (c + k_chunk_size h c)"
  by (simp add: tidy_def)

lemma tidy_mono: "tidy h B X \<Longrightarrow> X \<subseteq> Y \<Longrightarrow> tidy h B Y"
  by (auto simp: tidy_def)

lemma free_step_tidy:
  assumes C: "chunks_ok h B" and f: "free_step h h' B" and t: "tidy h B X"
  shows "tidy h' B X"
proof -
  have sf: "same_frame h h'" using f by (simp add: free_step_def same_headers_def)
  note l = same_frameD(2)[OF sf] and k = free_step_kept(3,4)[OF f]
  show ?thesis unfolding tidy_def
  proof (intro ballI impI, elim conjE)
    fix c assume c: "c \<in> B" "c \<noteq> hp_len h'" "c \<notin> X" "c + k_chunk_size h' c \<notin> X"
    have "c + k_chunk_size h c \<in> B" using chunks_okD(10)[OF C c(1)] c(2) l by simp
    then show "k_chunk_used h' c \<or> k_chunk_used h' (c + k_chunk_size h' c)"
      using tidyD[OF t c(1)] c k l by simp
  qed
qed

text \<open>Of two chunks that end at the same place, one is the other.\<close>

lemma chunk_end_inj:
  assumes C: "chunks_ok h B" and c: "c \<in> B" "c \<noteq> hp_len h" and d: "d \<in> B" "d \<noteq> hp_len h"
    and e: "c + k_chunk_size h c = d + k_chunk_size h d"
  shows "c = d"
  using chunks_okD(12)[OF C c(1) d(1)] chunks_okD(12)[OF C d(1) c(1)] chunk_next(1)[OF C c] chunk_next(1)[OF C d] e
  by (cases c d rule: linorder_cases) (simp_all add: leD)

subsection \<open>Merging with a neighbour\<close>

text \<open>Of the neighbours \<open>lc\<close> and \<open>rc\<close>, \<open>c\<close> is being released and \<open>f\<close> is on its list.\<close>

lemma absorb_ok:
  assumes ok: "heap_ok h B F {c}" and t: "tidy h B {c}"
    and l: "lc \<in> B" "\<not> k_chunk_used h lc" and r: "lc + k_chunk_size h lc = rc" "\<not> k_chunk_used h rc"
    and cf: "c = lc \<and> f = rc \<or> c = rc \<and> f = lc"
  shows "\<exists>h1 h2 F'. k_free_list_remove f h = OK h1 \<and> k_merge_chunks lc rc h1 = OK h2 \<and>
    heap_ok h2 (B - {rc}) F' {lc} \<and> tidy h2 (B - {rc}) {lc} \<and> owners h2 (B - {rc}) = owners h B \<and>
    kept h h2 (owners h B) \<and> k_chunk_size h2 lc = k_chunk_size h lc + k_chunk_size h rc \<and> \<not> k_chunk_used h2 lc \<and>
    rc \<in> B \<and> rc \<noteq> lc \<and> left_size h2 rc = left_size h rc \<and>
    (\<forall>d \<in> B. d \<noteq> lc \<longrightarrow> k_chunk_size h2 d = k_chunk_size h d \<and> k_chunk_used h2 d = k_chunk_used h d) \<and>
    (\<forall>d \<in> B. left_size h1 d = left_size h d \<and> k_chunk_size h1 d = k_chunk_size h d)"
proof -
  have C: "chunks_ok h B" using ok by (simp add: heap_ok_def)
  have lh: "lc \<noteq> hp_len h" using l(2) chunks_okD(6)[OF C] by auto
  have rB: "rc \<in> B" using chunk_next(3)[OF C l(1) lh] r(1) by simp
  have ne: "rc \<noteq> lc" using chunk_next(1)[OF C l(1) lh] r(1) by auto
  have f: "f \<in> B" "\<not> k_chunk_used h f" "f \<notin> {c}" using cf l r rB ne by auto
  obtain h1 F1 where h1: "k_free_list_remove f h = OK h1" "heap_ok h1 B F1 (insert f {c})" "free_step h h1 B"
    using free_remove_ok[OF ok f] by blast
  note k1 = free_step_kept[OF h1(3)]
  have X: "insert f {c} = {lc, rc}" using cf by auto
  have m: "lc + k_chunk_size h1 lc = rc" "\<not> k_chunk_used h1 lc" "\<not> k_chunk_used h1 rc"
    using k1(3,4) l r rB by auto
  obtain h2 where h2: "k_merge_chunks lc rc h1 = OK h2" "heap_ok h2 (B - {rc}) F1 ({lc, rc} - {rc})" "same_frame h1 h2"
      "k_chunk_size h2 lc = k_chunk_size h1 lc + k_chunk_size h1 rc" "\<not> k_chunk_used h2 lc"
      "left_size h2 rc = left_size h1 rc" "\<forall>u \<in> B. \<forall>j. in_body h1 u j \<longrightarrow> cells h2 j = cells h1 j"
      "\<forall>d \<in> B. d \<noteq> lc \<longrightarrow> k_chunk_size h2 d = k_chunk_size h1 d \<and> k_chunk_used h2 d = k_chunk_used h1 d"
    using merge_ok[OF h1(2)[unfolded X] l(1) m(2) _ m(1,3)] by auto
  have s: "\<And>d. d \<in> B \<Longrightarrow> d \<noteq> lc \<Longrightarrow> k_chunk_size h2 d = k_chunk_size h d \<and> k_chunk_used h2 d = k_chunk_used h d"
    using h2(8) k1(3,4) by simp
  have o: "owners h2 (B - {rc}) = owners h B" using s h2(5) l(2) r(2) by (auto simp: owners_def)
  have "kept h1 h2 (owners h1 B)" using h2(3,7,8) m(2) by (auto simp: kept_def owners_def)
  then have kp: "kept h h2 (owners h B)" using kept_trans[OF k1(2)] k1(1) by simp
  note len = same_frameD(2)[OF kept_frame[OF kp]]
  have td: "tidy h2 (B - {rc}) {lc}" unfolding tidy_def
  proof (intro ballI impI, elim conjE)
    fix d assume d: "d \<in> B - {rc}" "d \<noteq> hp_len h2" "d \<notin> {lc}" "d + k_chunk_size h2 d \<notin> {lc}"
    have dB: "d \<in> B" "d \<noteq> lc" "d \<noteq> hp_len h" using d len by auto
    have "d + k_chunk_size h d \<noteq> rc" using chunk_end_inj[OF C dB(1,3) l(1) lh] r(1) dB(2) by auto
    then have "d \<notin> {c}" "d + k_chunk_size h d \<notin> {c}" using cf d dB s[OF dB(1,2)] by auto
    then show "k_chunk_used h2 d \<or> k_chunk_used h2 (d + k_chunk_size h2 d)"
      using tidyD[OF t dB(1,3)] s[OF dB(1,2)] s[OF chunk_next(3)[OF C dB(1,3)]] d(4) by auto
  qed
  have e1: "{lc, rc} - {rc} = {lc}" using ne by auto
  show ?thesis using h1(1) h2(1,5,6) h2(2)[unfolded e1] td o kp h2(4) k1(4,5) l rB ne s
    by (intro exI[of _ h1] exI[of _ h2] exI[of _ F1]) simp
qed

text \<open>What a step of the release keeps: the chunks in use, where they are and what they hold.\<close>

definition release_ok :: "z_heap \<Rightarrow> u32 set \<Rightarrow> z_heap \<Rightarrow> u32 set \<Rightarrow> bool" where
  "release_ok h B h' B' \<longleftrightarrow> owners h' B' = owners h B \<and> kept h h' (owners h B)"

lemma release_ok_refl [simp]: "release_ok h B h B" by (simp add: release_ok_def)

lemma release_ok_trans: "release_ok h B h1 B1 \<Longrightarrow> release_ok h1 B1 h2 B2 \<Longrightarrow> release_ok h B h2 B2"
  by (auto simp: release_ok_def intro: kept_trans)

lemma free_step_release: "free_step h h' B \<Longrightarrow> release_ok h B h' B"
  by (simp add: release_ok_def free_step_kept)

lemma release_ok_frame: "release_ok h B h' B' \<Longrightarrow> same_frame h h'"
  by (auto simp: release_ok_def dest: kept_frame)

text \<open>A chunk that is being released, with its right neighbour in use.\<close>

lemma free_merge_right_ok:
  assumes ok: "heap_ok h B F {c}" and t: "tidy h B {c}" and c: "c \<in> B" "\<not> k_chunk_used h c"
  shows "\<exists>h' B' F'. free_merge_right c h = OK h' \<and> heap_ok h' B' F' {c} \<and> tidy h' B' {c} \<and> release_ok h B h' B' \<and>
    c \<in> B' \<and> \<not> k_chunk_used h' c \<and> k_chunk_used h' (c + k_chunk_size h' c)"
proof (cases "k_chunk_used h (k_right_chunk h c)")
  case True
  then show ?thesis using ok t c by (intro exI[of _ h] exI[of _ B] exI[of _ F]) (simp add: free_merge_right_def k_right_chunk_def)
next
  case False
  have C: "chunks_ok h B" using ok by (simp add: heap_ok_def)
  define rc where "rc = c + k_chunk_size h c"
  have r: "c + k_chunk_size h c = rc" "\<not> k_chunk_used h rc" using False by (simp_all add: rc_def k_right_chunk_def)
  obtain h1 h2 F' where a: "k_free_list_remove rc h = OK h1" "k_merge_chunks c rc h1 = OK h2"
      "heap_ok h2 (B - {rc}) F' {c}" "tidy h2 (B - {rc}) {c}" "owners h2 (B - {rc}) = owners h B"
      "kept h h2 (owners h B)" "k_chunk_size h2 c = k_chunk_size h c + k_chunk_size h rc" "\<not> k_chunk_used h2 c"
      "rc \<in> B" "rc \<noteq> c" "k_chunk_size h1 c = k_chunk_size h c"
      "\<forall>d \<in> B. d \<noteq> c \<longrightarrow> k_chunk_size h2 d = k_chunk_size h d \<and> k_chunk_used h2 d = k_chunk_used h d"
    using absorb_ok[OF ok t c r disjI1[OF conjI[OF refl refl]]] c(1) by auto
  have ch: "c \<noteq> hp_len h" "rc \<noteq> hp_len h" using c(2) r(2) chunks_okD(6)[OF C] by auto
  define e where "e = rc + k_chunk_size h rc"
  note cr = chunk_next[OF C c(1) ch(1), folded rc_def] and re = chunk_next[OF C a(9) ch(2), folded e_def]
  have e: "e \<in> B" "e \<noteq> c" using re(3) cr(1) re(1) by auto
  have "k_chunk_used h e" using tidyD[OF t a(9) ch(2)] a(10) r(2) e(2) by (auto simp: e_def)
  then have "k_chunk_used h2 (c + k_chunk_size h2 c)"
    using a(7,12) e r(1) by (auto simp: e_def add.assoc[symmetric])
  moreover have "free_merge_right c h = OK h2"
    using False a(1,2,11) r by (simp add: free_merge_right_def k_right_chunk_def)
  ultimately show ?thesis using a c
    by (intro exI[of _ h2] exI[of _ "B - {rc}"] exI[of _ F']) (simp add: release_ok_def)
qed

lemma free_merge_left_ok:
  assumes ok: "heap_ok h B F {c}" and t: "tidy h B {c}" and c: "c \<in> B" "\<not> k_chunk_used h c"
    and right: "k_chunk_used h (c + k_chunk_size h c)"
  shows "\<exists>h' c' B' F'. free_merge_left c h = OK (h', c') \<and> heap_ok h' B' F' {c'} \<and> tidy h' B' {} \<and> release_ok h B h' B' \<and>
    c' \<in> B' \<and> \<not> k_chunk_used h' c'"
proof -
  have C: "chunks_ok h B" using ok by (simp add: heap_ok_def)
  have c0: "c \<noteq> 0" "c \<noteq> hp_len h" using c(2) chunks_okD(6,7)[OF C] by auto
  obtain l where l: "l \<in> B" "l < c" "l + k_chunk_size h l = c" "k_left_chunk h c = l"
    using chunk_before[OF C c(1) c0(1)] by blast
  have lh: "l \<noteq> hp_len h" "l \<noteq> c" using l(2) chunks_okD(4)[OF C c(1)] by auto
  show ?thesis
  proof (cases "k_chunk_used h l")
    case True
    have "tidy h B {}" unfolding tidy_def
    proof (intro ballI impI, elim conjE)
      fix d assume d: "d \<in> B" "d \<noteq> hp_len h" "d \<notin> {}" "d + k_chunk_size h d \<notin> {}"
      show "k_chunk_used h d \<or> k_chunk_used h (d + k_chunk_size h d)"
      proof (cases "d = c \<or> d + k_chunk_size h d = c")
        case T: True
        then show ?thesis using right True l(3) chunk_end_inj[OF C d(1,2) l(1) lh(1)] by auto
      next
        case F: False
        then show ?thesis using tidyD[OF t d(1,2)] by auto
      qed
    qed
    then show ?thesis using ok c True l(4)
      by (intro exI[of _ h] exI[of _ c] exI[of _ B] exI[of _ F]) (simp add: free_merge_left_def)
  next
    case False
    obtain h1 h2 F' where a: "k_free_list_remove l h = OK h1" "k_merge_chunks l c h1 = OK h2"
        "heap_ok h2 (B - {c}) F' {l}" "tidy h2 (B - {c}) {l}" "owners h2 (B - {c}) = owners h B"
        "kept h h2 (owners h B)" "k_chunk_size h2 l = k_chunk_size h l + k_chunk_size h c" "\<not> k_chunk_used h2 l"
        "left_size h2 c = left_size h c" "left_size h1 c = left_size h c"
        "\<forall>d \<in> B. d \<noteq> l \<longrightarrow> k_chunk_size h2 d = k_chunk_size h d \<and> k_chunk_used h2 d = k_chunk_used h d"
      using absorb_ok[OF ok t l(1) False l(3) c(2) disjI2[OF conjI[OF refl refl]]] c(1) by auto
    note len = same_frameD(2)[OF kept_frame[OF a(6)]]
    have op: "free_merge_left c h = OK (h2, l)"
      using False a(1,2,9,10) l(4) by (simp add: free_merge_left_def k_left_chunk_def)
    note ce = chunk_next[OF C c(1) c0(2)]
    have e: "l + k_chunk_size h2 l = c + k_chunk_size h c" using a(7) l(3) by (simp add: add.assoc[symmetric])
    have "tidy h2 (B - {c}) {}" unfolding tidy_def
    proof (intro ballI impI, elim conjE)
      fix d assume d: "d \<in> B - {c}" "d \<noteq> hp_len h2"
      have dB: "d \<in> B" "d \<noteq> c" "d \<noteq> hp_len h" using d len by auto
      consider "d = l" | "d \<noteq> l" "d + k_chunk_size h d = l" | "d \<noteq> l" "d + k_chunk_size h2 d \<noteq> l"
        using a(11) dB(1) by auto
      then show "k_chunk_used h2 d \<or> k_chunk_used h2 (d + k_chunk_size h2 d)"
      proof cases
        case 1
        have "c + k_chunk_size h c \<noteq> l" using ce(1) l(2) by auto
        then show ?thesis using right a(11) ce(3) e 1 by simp
      next
        case 2
        have "k_chunk_used h d" using tidyD[OF t dB(1,3)] 2 dB(2) lh(2) False by auto
        then show ?thesis using a(11) dB(1) 2(1) by simp
      next
        case 3
        then show ?thesis using tidyD[OF a(4) d(1,2)] by simp
      qed
    qed
    then show ?thesis using op a l(1) lh(2)
      by (intro exI[of _ h2] exI[of _ l] exI[of _ "B - {c}"] exI[of _ F']) (simp add: release_ok_def)
  qed
qed

theorem k_free_chunk_ok:
  assumes ok: "heap_ok h B F {c}" and t: "tidy h B {c}" and c: "c \<in> B" "\<not> k_chunk_used h c"
  shows "\<exists>h' B' F'. k_free_chunk c h = OK h' \<and> heap_ok h' B' F' {} \<and> tidy h' B' {} \<and> release_ok h B h' B'"
proof -
  obtain h1 B1 F1 where 1: "free_merge_right c h = OK h1" "heap_ok h1 B1 F1 {c}" "tidy h1 B1 {c}" "release_ok h B h1 B1"
      "c \<in> B1" "\<not> k_chunk_used h1 c" "k_chunk_used h1 (c + k_chunk_size h1 c)"
    using free_merge_right_ok[OF assms] by blast
  obtain h2 c2 B2 F2 where 2: "free_merge_left c h1 = OK (h2, c2)" "heap_ok h2 B2 F2 {c2}" "tidy h2 B2 {}"
      "release_ok h1 B1 h2 B2" "c2 \<in> B2" "\<not> k_chunk_used h2 c2"
    using free_merge_left_ok[OF 1(2,3,5-7)] by blast
  obtain h3 F3 where 3: "k_free_list_add c2 h2 = OK h3" "heap_ok h3 B2 F3 ({c2} - {c2})" "free_step h2 h3 B2"
    using free_add_ok[OF 2(2,5,6)] by blast
  have "chunks_ok h2 B2" using 2(2) by (simp add: heap_ok_def)
  then have "tidy h3 B2 {}" using free_step_tidy 3(3) 2(3) by blast
  moreover have "release_ok h B h3 B2"
    using release_ok_trans[OF release_ok_trans[OF 1(4) 2(4)] free_step_release[OF 3(3)]] .
  ultimately show ?thesis using 1(1) 2(1) 3(1,2)
    by (intro exI[of _ h3] exI[of _ B2] exI[of _ F3]) (simp add: k_free_chunk_def)
qed

subsection \<open>Taking a chunk off its list\<close>

text \<open>Turning a bucket round by one chunk.\<close>

lemma rotate_ok:
  assumes ok: "heap_ok h B F X" and F: "F i = c # xs"
  defines "n \<equiv> k_next_free_chunk h c"
  shows "get_bucket h i = OK c" "n = hd (xs @ [c])" "n \<noteq> 0"
    "\<exists>h'. set_bucket i n h = OK h' \<and> heap_ok h' B (F(i := xs @ [c])) X \<and> free_step h h' B"
proof -
  have C: "chunks_ok h B" and Fr: "frees_ok h B F X" using ok by (simp_all add: heap_ok_def)
  show "get_bucket h i = OK c" using get_bucket_listed(1)[OF ok, of i] F by simp
  have R: "ringed (k_next_free_chunk h) (k_prev_free_chunk h) (c # xs)" using frees_okD(3)[OF Fr, of i] F by simp
  show n: "n = hd (xs @ [c])" using ringed_ends(1)[OF R] by (simp add: n_def)
  have cF: "c \<in> set (F i)" using F by simp
  have "n \<in> set (F i)" unfolding n F by (cases xs) auto
  then show "n \<noteq> 0" using listed(4)[OF ok] by blast
  let ?h = "h\<lparr>buckets := (buckets h)[i := n]\<rparr>"
  have st: "free_step h ?h B" by (rule free_step_buckets(2)) simp
  have op: "set_bucket i n h = OK ?h" using listed(9)[OF ok cF] by (simp add: set_bucket_def)
  have "frees_ok ?h B (F(i := xs @ [c])) X"
  proof (rule frees_okI[OF Fr])
    show "same_headers h ?h B" using st by (simp add: free_step_def)
    show "x \<in> set ((F(i := xs @ [c])) j) \<longleftrightarrow> x \<in> B \<and> \<not> k_chunk_used h x \<and> x \<notin> X \<and>
        \<not> k_solo_free_header h x \<and> k_bucket_idx h (k_chunk_size h x) = j" for x j
      using frees_okD(5)[OF Fr, of x j] F by auto
    show "buckets ?h ! j = (case (F(i := xs @ [c])) j of [] \<Rightarrow> 0 | c # _ \<Rightarrow> c)" if "j < length (buckets h)" for j
      using that frees_okD(2)[OF Fr, of j] n by (cases xs) (auto simp: nth_list_update)
    show "ringed (k_next_free_chunk ?h) (k_prev_free_chunk ?h) ((F(i := xs @ [c])) j)" for j
      using frees_okD(3)[OF Fr, of j] R by (simp add: ringed_rotate1)
    show "bit (avail_buckets ?h) j \<longleftrightarrow> (F(i := xs @ [c])) j \<noteq> []" for j
      using frees_okD(4)[OF Fr, of j] F by auto
  qed
  then show "\<exists>h'. set_bucket i n h = OK h' \<and> heap_ok h' B (F(i := xs @ [c])) X \<and> free_step h h' B"
    using op st same_headers_chunks[OF _ C] by (auto simp: heap_ok_def free_step_def)
qed

text \<open>
  The outcome of a search: a chunk \<open>c\<close> of at least \<open>sz\<close> units off its list, or 0 and the lists
  as they were.
\<close>

definition took :: "z_heap \<Rightarrow> u32 set \<Rightarrow> u32 \<Rightarrow> z_heap \<Rightarrow> u32 \<Rightarrow> bool" where
  "took h B sz h' c \<longleftrightarrow> free_step h h' B \<and> (\<exists>F'. heap_ok h' B F' (if c = 0 then {} else {c})) \<and>
     (c \<noteq> 0 \<longrightarrow> c \<in> B \<and> \<not> k_chunk_used h c \<and> sz \<le> k_chunk_size h c)"

lemma took_remove:
  assumes ok: "heap_ok h B F {}" and c: "c \<in> set (F i)" "sz \<le> k_chunk_size h c"
  shows "\<exists>h'. k_free_list_remove_bidx c i h = OK h' \<and> took h B sz h' c"
  using remove_ok[OF ok c(1)] listed(1,2,4)[OF ok c(1)] c(2) by (auto simp: took_def)

text \<open>The chunks \<open>ys\<close> of the bucket have been tried, \<open>xs\<close> have not.\<close>

lemma alloc_loop_ok:
  assumes "heap_ok h B F {}" "F bi = xs @ ys" "xs \<noteq> []" "\<forall>x \<in> set ys. k_chunk_size h x < sz"
  shows "\<exists>h' c. alloc_loop i bi (hd (ys @ xs)) sz h = OK (h', c) \<and> took h B sz h' c \<and>
    (c = 0 \<longrightarrow> length xs \<le> i \<longrightarrow> (\<forall>x \<in> set (F bi). k_chunk_size h x < sz))"
  using assms
proof (induction i arbitrary: h F xs ys)
  case 0
  then show ?case by (auto simp: took_def)
next
  case (Suc i)
  obtain c xs' where xs: "xs = c # xs'" using Suc.prems(3) by (cases xs) auto
  have F: "F bi = c # xs' @ ys" using Suc.prems(2) xs by simp
  have cF: "c \<in> set (F bi)" using F by simp
  note R = rotate_ok[OF Suc.prems(1) F]
  show ?case
  proof (cases "sz \<le> k_chunk_size h c")
    case True
    then show ?thesis using took_remove[OF Suc.prems(1) cF True] R(1) listed(4)[OF Suc.prems(1) cF] by auto
  next
    case False
    have Fr: "frees_ok h B F {}" using Suc.prems(1) by (simp add: heap_ok_def)
    obtain h1 where h1: "set_bucket bi (k_next_free_chunk h c) h = OK h1"
        "heap_ok h1 B (F(bi := (xs' @ ys) @ [c])) {}" "free_step h h1 B"
      using R(4) by blast
    have d: "distinct (F bi)" by (rule ringed_distinct[OF frees_okD(3)[OF Fr]])
    have small: "\<forall>x \<in> set (ys @ [c]). k_chunk_size h x < sz" using Suc.prems(4) False by auto
    show ?thesis
    proof (cases xs')
      case Nil
      have "k_next_free_chunk h c = hd (ys @ xs)" using R(2) xs Nil by simp
      moreover have "took h B sz h1 0" using h1(2,3) by (auto simp: took_def)
      ultimately show ?thesis using R(1,3) False h1(1) small F Nil by auto
    next
      case (Cons a as)
      have ne: "hd ((xs' @ ys) @ [c]) \<noteq> hd (ys @ xs)" using d F Cons xs by (cases ys) auto
      have s: "k_chunk_size h1 x = k_chunk_size h x" if "x \<in> set (F bi)" for x
        using free_step_kept(4)[OF h1(3)] listed(1)[OF Suc.prems(1) that] by simp
      have hd: "hd ((ys @ [c]) @ xs') = hd (ys @ xs)" using xs by (cases ys) auto
      have sm1: "\<forall>x \<in> set (ys @ [c]). k_chunk_size h1 x < sz" using small s F by auto
      obtain h2 c2 where h2: "alloc_loop i bi (hd (ys @ xs)) sz h1 = OK (h2, c2)" "took h1 B sz h2 c2"
          "c2 = 0 \<longrightarrow> length xs' \<le> i \<longrightarrow> (\<forall>x \<in> set (xs' @ ys @ [c]). k_chunk_size h1 x < sz)"
        using Suc.IH[OF h1(2) _ _ sm1, of xs'] Cons hd by auto
      have "took h B sz h2 c2"
        using h2(2) free_step_trans[OF h1(3)] free_step_kept(3,4)[OF h1(3)] by (auto simp: took_def)
      moreover have "alloc_loop (Suc i) bi (hd (ys @ xs)) sz h = OK (h2, c2)"
        using R False h1(1) h2(1) ne by simp
      ultimately show ?thesis using h2(3) s F xs by auto
    qed
  qed
qed

lemma find_upt_Some: "find P [0..<n] = Some i \<Longrightarrow> i < n \<and> P i"
  by (auto simp: find_Some_iff)

lemma find_upt_None: "find P [0..<n] = None \<longleftrightarrow> (\<forall>i < n. \<not> P i)"
  by (auto simp: find_None_iff)

lemma bits_above:
  "bit ((a AND NOT (push_bit n 1 - 1)) AND a :: u32) i \<longleftrightarrow> n \<le> i \<and> bit a i"
  by (auto simp: push_bit_of_1 mask_eq_exp_minus_1[symmetric] bit_simps dest: bit_imp_le_length)

lemma alloc_larger_ok:
  assumes ok: "heap_ok h B F {}" and sz: "k_min_chunk_size h \<le> sz" and bi: "bi = k_bucket_idx h sz"
  shows "\<exists>h' c. alloc_larger bi sz h = OK (h', c) \<and> took h B sz h' c \<and> (c = 0 \<longrightarrow> (\<forall>j > bi. F j = []))"
proof -
  have Fr: "frees_ok h B F {}" using ok by (simp add: heap_ok_def)
  define a where "a = (avail_buckets h AND NOT (push_bit (bi + 1) 1 - 1)) AND avail_buckets h"
  have a: "bit a i \<longleftrightarrow> bi < i \<and> F i \<noteq> []" for i
    using bits_above[of "avail_buckets h" "bi + 1" i] frees_okD(4)[OF Fr, of i] by (auto simp: a_def)
  show ?thesis
  proof (cases "a = 0")
    case True
    then have "alloc_larger bi sz h = OK (h, 0)" by (simp only: alloc_larger_def a_def Let_def not_True_eq_False if_False simp_thms)
    moreover have "\<forall>j > bi. F j = []" using a True by auto
    ultimately show ?thesis using ok by (auto simp: took_def)
  next
    case False
    have "\<exists>i < 32. bit a i" using False by (auto simp: bit_eq_iff dest: bit_imp_le_length)
    then obtain i where i: "find (bit a) [0..<32] = Some i" using find_upt_None[of "bit a" 32] by fastforce
    then have m: "k_ctz32 a = i" "bi < i" "F i \<noteq> []" using find_upt_Some[OF i] a by (auto simp: k_ctz32_def)
    note G = get_bucket_listed[OF ok m(3)]
    note L = listed[OF ok G(4)]
    have le: "sz \<le> k_chunk_size h (hd (F i))"
      using k_bucket_idx_less[OF sz L(10)] m(2) bi L(8) by simp
    obtain h1 where h1: "k_free_list_remove_bidx (hd (F i)) i h = OK h1" "took h B sz h1 (hd (F i))"
      using took_remove[OF ok G(4) le] by blast
    have "k_chunk_size h1 (hd (F i)) = k_chunk_size h (hd (F i))"
      using h1(2) free_step_kept(4) L(1) by (auto simp: took_def)
    then have "alloc_larger bi sz h = OK (h1, hd (F i))"
      unfolding alloc_larger_def Let_def a_def[symmetric] using False m(1) G(1) h1(1) le by simp
    then show ?thesis using h1(2) L(4) by auto
  qed
qed

text \<open>
  \<^verbatim>\<open>_k_alloc_chunk\<close> returns 0 only if no free chunk belongs to a better bucket, and, if at
  most eight free chunks share the bucket of \<open>sz\<close>, only if every free chunk is too small.
\<close>

theorem k_alloc_chunk_ok:
  assumes ok: "heap_ok h B F {}" and sz: "k_min_chunk_size h \<le> sz"
  shows "\<exists>h' c. k_alloc_chunk sz h = OK (h', c) \<and> took h B sz h' c \<and>
    (c = 0 \<longrightarrow> (\<forall>j > k_bucket_idx h sz. F j = []) \<and>
      (length (F (k_bucket_idx h sz)) \<le> CONFIG_SYS_HEAP_ALLOC_LOOPS \<longrightarrow>
        (\<forall>x \<in> set (F (k_bucket_idx h sz)). k_chunk_size h x < sz)))"
proof -
  have Fr: "frees_ok h B F {}" using ok by (simp add: heap_ok_def)
  define bi where "bi = k_bucket_idx h sz"
  have out: "F j = []" if "k_bucket_idx h (hp_len h) < j" for j
    using listed(9)[OF ok, of "hd (F j)" j] that frees_okD(1)[OF Fr] by (cases "F j") auto
  show ?thesis
  proof (cases "k_bucket_idx h (hp_len h) < bi")
    case True
    then have "k_alloc_chunk sz h = OK (h, 0)" by (simp add: k_alloc_chunk_def bi_def)
    moreover have "F j = []" if "bi \<le> j" for j using out[of j] True that by simp
    ultimately show ?thesis using ok by (auto simp: took_def bi_def)
  next
    case False
    then have len: "bi < length (buckets h)" using frees_okD(1)[OF Fr] by simp
    define first where "first = buckets h ! bi"
    have fst: "first = (case F bi of [] \<Rightarrow> 0 | c # _ \<Rightarrow> c)" using frees_okD(2)[OF Fr len] by (simp add: first_def)
    have op: "k_alloc_chunk sz h = bind_res (if first \<noteq> 0 then alloc_loop CONFIG_SYS_HEAP_ALLOC_LOOPS bi first sz h
        else OK (h, 0)) (\<lambda>(h1, c). if c = 0 then alloc_larger bi sz h1 else OK (h1, c))"
      unfolding k_alloc_chunk_def bi_def[symmetric] Let_def get_bucket_def first_def using False len by simp
    show ?thesis
    proof (cases "F bi")
      case Nil
      then show ?thesis using alloc_larger_ok[OF ok sz bi_def] op fst by (auto simp: bi_def[symmetric])
    next
      case (Cons c cs)
      have "c \<in> set (F bi)" using Cons by simp
      then have f0: "first \<noteq> 0" using fst listed(4)[OF ok, of c bi] Cons by simp
      obtain h1 c1 where h1: "alloc_loop CONFIG_SYS_HEAP_ALLOC_LOOPS bi first sz h = OK (h1, c1)" "took h B sz h1 c1"
          "c1 = 0 \<longrightarrow> length (F bi) \<le> CONFIG_SYS_HEAP_ALLOC_LOOPS \<longrightarrow> (\<forall>x \<in> set (F bi). k_chunk_size h x < sz)"
        using alloc_loop_ok[OF ok, of bi "F bi" "[]" sz CONFIG_SYS_HEAP_ALLOC_LOOPS] Cons fst by auto
      show ?thesis
      proof (cases "c1 = 0")
        case False
        then show ?thesis using op f0 h1(1,2) by simp
      next
        case True
        have st: "free_step h h1 B" using h1(2) by (simp add: took_def)
        have sf: "same_frame h h1" using st by (simp add: free_step_def same_headers_def)
        obtain F1 where F1: "heap_ok h1 B F1 {}" using h1(2) True by (auto simp: took_def)
        have Fr1: "frees_ok h1 B F1 {}" using F1 by (simp add: heap_ok_def)
        note D = same_headersD[OF st[unfolded free_step_def, THEN conjunct1]]
        have same: "set (F1 j) = set (F j)" for j
          using frees_okD(5)[OF Fr1, of _ j] frees_okD(5)[OF Fr, of _ j] D(2-4) same_frameD(4)[OF sf] by auto
        obtain h2 c2 where h2: "alloc_larger bi sz h1 = OK (h2, c2)" "took h1 B sz h2 c2" "c2 = 0 \<longrightarrow> (\<forall>j > bi. F1 j = [])"
          using alloc_larger_ok[OF F1, of sz bi] sz same_frameD(4,5)[OF sf] bi_def by auto
        have "took h B sz h2 c2" using h2(2) free_step_trans[OF st] D(2,3) by (auto simp: took_def)
        moreover have "c2 = 0 \<longrightarrow> (\<forall>j > bi. F j = [])" using h2(3) same by (metis set_empty)
        ultimately show ?thesis using op f0 h1(1,3) h2(1) True by (simp add: bi_def[symmetric])
      qed
    qed
  qed
qed

end
