(* ===== verification/Firstfit_Mem.thy ===== *)
theory Firstfit_Mem
  imports Firstfit_Chunks
begin

unbundle bit_operations_syntax

text \<open>
  The operations on a region of memory of the first-fit heap (\<^verbatim>\<open>os_mem_firstfit.c\<close>): the
  arithmetic of addresses and sizes, the invariant of a region, and that allocation, release
  and reallocation keep it, each with the chunk it takes, gives back or resizes.
\<close>

subsection \<open>Addresses and sizes\<close>

abbreviation header_bytes :: "z_heap \<Rightarrow> nat" where
  "header_bytes h \<equiv> unat (k_chunk_header_bytes h)"

lemma header_bytes: "header_bytes h = (if k_big_heap h then 8 else 4)"
  by (simp add: k_chunk_header_bytes_def)

text \<open>The heap lies in the address space, aligned to a unit, with room for its last header.\<close>

definition placed :: "z_heap \<Rightarrow> bool" where
  "placed h \<longleftrightarrow> unat (hp_addr h) mod 8 = 0 \<and> unat (hp_addr h) + 8 * unat (hp_len h) + 8 \<le> 2 ^ 32"

lemma placed_frame: "same_frame h h' \<Longrightarrow> placed h' = placed h"
  by (simp add: placed_def same_frameD)

lemma unat_power_u32: "k < 32 \<Longrightarrow> unat (2 ^ k :: u32) = 2 ^ k"
proof -
  assume "k < 32"
  then have "(2::nat) ^ k < 2 ^ 32" by (intro power_strict_increasing) simp_all
  then have "unat (of_nat (2 ^ k) :: u32) = 2 ^ k" by (simp only: unat_of_nat) simp
  then show ?thesis by simp
qed

lemma and_mask_zero: "(w::u32) AND mask k = 0 \<longleftrightarrow> unat w mod 2 ^ k = 0"
proof -
  have "w AND mask k = 0 \<longleftrightarrow> take_bit k w = 0" by (simp add: take_bit_eq_mask)
  also have "\<dots> \<longleftrightarrow> take_bit k (unat w) = 0" by (simp only: unsigned_take_bit_eq[symmetric] unat_eq_zero)
  finally show ?thesis by (simp add: take_bit_eq_mod)
qed

lemma chunk_address:
  assumes "placed h" "c < hp_len h"
  shows "unat (c * 8) = 8 * unat c" "unat (c * 8 + k_chunk_header_bytes h) = 8 * unat c + header_bytes h"
    "unat (hp_addr h + c * 8 + k_chunk_header_bytes h) = unat (hp_addr h) + 8 * unat c + header_bytes h"
proof -
  have c: "unat c < unat (hp_len h)" using assms(2) by (simp add: word_less_nat_alt)
  have b: "unat (hp_addr h) + 8 * unat c + 16 \<le> 2 ^ 32" using assms(1) c by (auto simp: placed_def)
  show m: "unat (c * 8) = 8 * unat c" using b by (simp add: unat_word_ariths)
  show s: "unat (c * 8 + k_chunk_header_bytes h) = 8 * unat c + header_bytes h"
    using b m by (subst unat_add_lem[THEN iffD1]) (auto simp: header_bytes)
  have "unat (hp_addr h + (c * 8 + k_chunk_header_bytes h)) = unat (hp_addr h) + (8 * unat c + header_bytes h)"
    unfolding s[symmetric] by (subst unat_add_lem[THEN iffD1]) (use b s in \<open>auto simp: header_bytes\<close>)
  then show "unat (hp_addr h + c * 8 + k_chunk_header_bytes h) = unat (hp_addr h) + 8 * unat c + header_bytes h"
    by (simp add: add.assoc)
qed

lemma k_chunk_mem_ok:
  assumes "placed h" "c < hp_len h"
  shows "k_chunk_mem h c = OK (hp_addr h + c * 8 + k_chunk_header_bytes h)"
proof -
  let ?p = "hp_addr h + c * 8 + k_chunk_header_bytes h"
  have u: "unat ?p = unat (hp_addr h) + 8 * unat c + header_bytes h" by (rule chunk_address(3)[OF assms])
  have a: "unat (hp_addr h) mod 8 = 0" using assms(1) by (simp add: placed_def)
  have "?p AND (if k_big_heap h then 7 else 3) = 0"
  proof (cases "k_big_heap h")
    case True
    have "unat ?p mod 2 ^ 3 = 0" using u a True by (simp add: header_bytes mod_add_eq[symmetric])
    then show ?thesis using and_mask_zero[of ?p 3] True by (simp add: mask_eq_exp_minus_1)
  next
    case False
    have "unat ?p mod 2 ^ 2 = 0" unfolding u using a False by (simp add: header_bytes) presburger
    then show ?thesis using and_mask_zero[of ?p 2] False by (simp add: mask_eq_exp_minus_1)
  qed
  then show ?thesis by (simp add: k_chunk_mem_def CHUNK_UNIT_def)
qed

lemma unat_chunkid:
  assumes "header_bytes h \<le> heap_offset h p"
  shows "unat (k_mem_to_chunkid h p) = (heap_offset h p - header_bytes h) div 8"
proof -
  have e: "p - k_chunk_header_bytes h - hp_addr h = (p - hp_addr h) - k_chunk_header_bytes h" by simp
  have "unat (p - k_chunk_header_bytes h - hp_addr h) = heap_offset h p - header_bytes h"
    unfolding e heap_offset_def using assms
    by (subst unat_sub) (auto simp: word_le_nat_alt heap_offset_def)
  then show ?thesis by (simp add: k_mem_to_chunkid_def CHUNK_UNIT_def unat_div)
qed

lemma chunkid_of:
  assumes "8 * unat c + header_bytes h \<le> heap_offset h p" "heap_offset h p < 8 * unat c + header_bytes h + 8"
  shows "k_mem_to_chunkid h p = c"
proof -
  have "(heap_offset h p - header_bytes h) div 8 = unat c" using assms by auto
  then show ?thesis using unat_chunkid[of h p] assms by (simp add: word_unat_eq_iff)
qed

lemma bytes_to_chunksz:
  fixes h :: z_heap
  assumes "0 < n" "unat n + 16 \<le> 2 ^ 32"
  defines "s \<equiv> k_bytes_to_chunksz h n"
  shows "unat s = (header_bytes h + unat n + 7) div 8" "header_bytes h + unat n \<le> 8 * unat s"
    "k_min_chunk_size h \<le> s" "0 < s"
proof -
  have "unat (k_chunk_header_bytes h + n) = header_bytes h + unat n"
    using assms(2) by (subst unat_add_lem[THEN iffD1]) (auto simp: header_bytes)
  then have u: "unat (k_chunk_header_bytes h + n + 7) = header_bytes h + unat n + 7"
    using assms(2) by (subst unat_add_lem[THEN iffD1]) (auto simp: header_bytes)
  have "s = (k_chunk_header_bytes h + n + 7) div 8"
    by (simp add: s_def k_bytes_to_chunksz_def k_chunksz_def CHUNK_UNIT_def add.commute)
  then show s: "unat s = (header_bytes h + unat n + 7) div 8" using u by (simp only: unat_div) simp
  show "header_bytes h + unat n \<le> 8 * unat s" unfolding s by linarith
  have "0 < unat n" using assms(1) by (simp add: word_less_nat_alt)
  then have m: "(if k_big_heap h then 2 else 1) \<le> unat s" unfolding s header_bytes by auto
  then show "k_min_chunk_size h \<le> s" by (auto simp: k_min_chunk_size_eq word_le_nat_alt)
  show "0 < s" using m by (auto simp: word_less_nat_alt split: if_splits)
qed

subsection \<open>Cutting chunks\<close>

lemma unlisted: "heap_ok h B F X \<Longrightarrow> c \<in> X \<or> k_chunk_used h c \<Longrightarrow> c \<notin> set (F i)"
  using listed(2,3) by blast

text \<open>A free chunk off its list is cut in two; then one of the parts goes back to a list.\<close>

lemma split_free_ok:
  assumes ok: "heap_ok h B F {lc}" and t: "tidy h B {lc}" and right: "k_chunk_used h (lc + k_chunk_size h lc)"
    and l: "lc \<in> B" "\<not> k_chunk_used h lc" and r: "lc < rc" "rc < lc + k_chunk_size h lc"
  shows "\<exists>h'. k_split_chunks lc rc h = OK h' \<and> heap_ok h' (insert rc B) F {lc, rc} \<and>
    tidy h' (insert rc B) {lc} \<and> (tidy h B {} \<longrightarrow> tidy h' (insert rc B) {rc}) \<and>
    release_ok h B h' (insert rc B) \<and> k_chunk_size h' lc = rc - lc \<and> k_chunk_size h' rc = lc + k_chunk_size h lc - rc \<and>
    \<not> k_chunk_used h' lc \<and> \<not> k_chunk_used h' rc"
proof -
  have C: "chunks_ok h B" using ok by (simp add: heap_ok_def)
  have l0: "lc \<noteq> 0" "lc \<noteq> hp_len h" using l(2) chunks_okD(6,7)[OF C] by auto
  define e where "e = lc + k_chunk_size h lc"
  have e: "e \<in> B" "e \<noteq> lc" using chunk_next[OF C l(1) l0(2)] by (auto simp: e_def)
  obtain h' where h': "k_split_chunks lc rc h = OK h'" "heap_ok h' (insert rc B) F ({lc} \<union> {lc, rc})" "same_frame h h'"
      "rc \<notin> B" "k_chunk_size h' lc = rc - lc" "k_chunk_size h' rc = e - rc" "\<not> k_chunk_used h' lc" "\<not> k_chunk_used h' rc"
      "\<forall>c \<in> B. c \<noteq> lc \<longrightarrow> k_chunk_size h' c = k_chunk_size h c \<and> k_chunk_used h' c = k_chunk_used h c"
      "\<forall>u \<in> B. u \<noteq> lc \<longrightarrow> (\<forall>j. in_body h u j \<longrightarrow> cells h' j = cells h j)"
    using split_ok[OF ok l(1) l0(1) unlisted[OF ok] r] unfolding e_def[symmetric] by auto
  note len = same_frameD(2)[OF h'(3)]
  have ue: "k_chunk_used h' e" using right h'(9) e by (auto simp: e_def)
  have old: "k_chunk_used h' d \<or> k_chunk_used h' (d + k_chunk_size h' d)"
    if d: "d \<in> B" "d \<noteq> hp_len h" "d \<noteq> lc" and n: "d + k_chunk_size h' d \<noteq> lc \<or> tidy h B {}" for d
  proof -
    have s: "k_chunk_size h' d = k_chunk_size h d" using h'(9) d by simp
    have e: "d + k_chunk_size h d \<in> B" by (rule chunk_next(3)[OF C d(1,2)])
    have "k_chunk_used h d \<or> k_chunk_used h (d + k_chunk_size h d)"
      using tidyD[OF t d(1,2)] tidyD[of h B "{}", OF _ d(1,2)] n d(3) s by auto
    then show ?thesis using h'(9) d e l(2) by (cases "d + k_chunk_size h d = lc") simp_all
  qed
  have "tidy h' (insert rc B) {lc}"
    unfolding tidy_def using old h'(6) ue len by auto
  moreover have "tidy h' (insert rc B) {rc}" if "tidy h B {}" unfolding tidy_def
  proof (intro ballI impI, elim conjE)
    fix d assume d: "d \<in> insert rc B" "d \<noteq> hp_len h'" "d \<notin> {rc}" "d + k_chunk_size h' d \<notin> {rc}"
    then have "d \<noteq> lc" using h'(5) by auto
    then show "k_chunk_used h' d \<or> k_chunk_used h' (d + k_chunk_size h' d)" using old[of d] d len that by auto
  qed
  moreover have "owners h' (insert rc B) = owners h B"
    using h'(7-9) l(2) by (auto simp: owners_def)
  moreover have "kept h h' (owners h B)" using h'(3,9,10) l(2) by (auto simp: kept_def owners_def)
  ultimately show ?thesis using h' by (intro exI[of _ h']) (simp add: release_ok_def e_def insert_commute)
qed

lemma chunk_inside:
  assumes C: "chunks_ok h B" and c: "c \<in> B" and s: "0 < s" "s < k_chunk_size h c"
  shows "c < c + s" "c + s < c + k_chunk_size h c" "unat (c + s) = unat c + unat s"
proof -
  have s': "0 < unat s" "unat s < unat (k_chunk_size h c)" using s by (simp_all add: word_less_nat_alt)
  have "unat (hp_len h) < 2 ^ 32" using unat_u32[of "hp_len h"] by simp
  then have "unat c + unat s < 2 ^ 32" using chunk_end(2)[OF C c] s' by linarith
  then show u: "unat (c + s) = unat c + unat s" by (subst unat_add_lem[THEN iffD1]) simp_all
  show "c < c + s" "c + s < c + k_chunk_size h c"
    using s' unfolding word_less_nat_alt u chunk_end(1)[OF C c] by simp_all
qed

lemma trim_ok:
  assumes ok: "heap_ok h B F {c}" and t: "tidy h B {c}" and right: "k_chunk_used h (c + k_chunk_size h c)"
    and c: "c \<in> B" "\<not> k_chunk_used h c" and sz: "0 < sz"
  shows "\<exists>h' B' F'. trim_chunk c sz h = OK h' \<and> heap_ok h' B' F' {c} \<and> tidy h' B' {c} \<and> release_ok h B h' B' \<and>
    c \<in> B' \<and> \<not> k_chunk_used h' c \<and> k_chunk_size h' c = min sz (k_chunk_size h c)"
proof (cases "sz < k_chunk_size h c")
  case False
  then show ?thesis using ok t c by (intro exI[of _ h] exI[of _ B] exI[of _ F]) (simp add: trim_chunk_def min_def)
next
  case True
  have C: "chunks_ok h B" using ok by (simp add: heap_ok_def)
  note I = chunk_inside[OF C c(1) sz True]
  obtain h1 where h1: "k_split_chunks c (c + sz) h = OK h1" "heap_ok h1 (insert (c + sz) B) F {c, c + sz}"
      "tidy h1 (insert (c + sz) B) {c}" "release_ok h B h1 (insert (c + sz) B)" "k_chunk_size h1 c = c + sz - c"
      "\<not> k_chunk_used h1 c" "\<not> k_chunk_used h1 (c + sz)"
    using split_free_ok[OF ok t right c I(1,2)] by auto
  let ?B = "insert (c + sz) B"
  obtain h2 F2 where h2: "k_free_list_add (c + sz) h1 = OK h2" "heap_ok h2 ?B F2 ({c, c + sz} - {c + sz})" "free_step h1 h2 ?B"
    using free_add_ok[OF h1(2) _ h1(7)] by auto
  have C1: "chunks_ok h1 ?B" using h1(2) by (simp add: heap_ok_def)
  have X: "{c, c + sz} - {c + sz} = {c}" using sz by auto
  have "trim_chunk c sz h = OK h2" using True h1(1) h2(1) by (simp add: trim_chunk_def)
  then show ?thesis
    unfolding min_absorb1[OF less_imp_le[OF True]]
    using h2(2)[unfolded X] free_step_tidy[OF C1 h2(3) h1(3)] release_ok_trans[OF h1(4) free_step_release[OF h2(3)]]
      free_step_kept(3,4)[OF h2(3), of c] c h1(5,6) True
    by (intro exI[of _ h2] exI[of _ ?B] exI[of _ F2]) simp
qed

subsection \<open>The invariant of a region\<close>

definition used_units :: "z_heap \<Rightarrow> u32 set \<Rightarrow> u32" where
  "used_units h B = (\<Sum>u \<in> owners h B. k_chunk_size h u)"

text \<open>
  The chunks tile the heap, the free ones are all on the list of their bucket, no two of them are
  neighbours, and the statistics count the chunks in use.
\<close>

definition region_ok :: "heap_mem \<Rightarrow> u32 set \<Rightarrow> bool" where
  "region_ok m B \<longleftrightarrow> (\<exists>F. heap_ok (header m) B F {}) \<and> tidy (header m) B {} \<and> placed (header m) \<and>
     mem_total m = hp_len (header m) * 8 \<and> mem_used m = used_units (header m) B * 8"

text \<open>The block of \<open>n\<close> bytes at \<open>p\<close> lies in the body of chunk \<open>c\<close>.\<close>

definition block_ok :: "z_heap \<Rightarrow> u32 \<Rightarrow> u32 \<Rightarrow> nat \<Rightarrow> bool" where
  "block_ok h c p n \<longleftrightarrow>
     (heap_offset h p = 8 * unat c + header_bytes h \<or> \<not> k_big_heap h \<and> heap_offset h p = 8 * unat c + header_bytes h + 4) \<and>
     heap_offset h p + n \<le> 8 * (unat c + unat (k_chunk_size h c))"

text \<open>Chunk \<open>c\<close> has come into use, or gone out of use, or changed; nothing else has.\<close>

definition resized :: "heap_mem \<Rightarrow> u32 set \<Rightarrow> heap_mem \<Rightarrow> u32 set \<Rightarrow> u32 \<Rightarrow> bool" where
  "resized m B m' B' c \<longleftrightarrow> region_ok m' B' \<and> c \<noteq> 0 \<and> c \<noteq> hp_len (header m) \<and>
     owners (header m') B' - {c} = owners (header m) B - {c} \<and> kept (header m) (header m') (owners (header m) B - {c})"

definition acquired :: "heap_mem \<Rightarrow> u32 set \<Rightarrow> heap_mem \<Rightarrow> u32 set \<Rightarrow> u32 \<Rightarrow> bool" where
  "acquired m B m' B' c \<longleftrightarrow> resized m B m' B' c \<and> c \<notin> owners (header m) B \<and> c \<in> owners (header m') B'"

definition released :: "heap_mem \<Rightarrow> u32 set \<Rightarrow> heap_mem \<Rightarrow> u32 set \<Rightarrow> u32 \<Rightarrow> bool" where
  "released m B m' B' c \<longleftrightarrow> resized m B m' B' c \<and> c \<in> owners (header m) B \<and> c \<notin> owners (header m') B'"

lemma used_units_kept: "release_ok h B h' B' \<Longrightarrow> used_units h' B' = used_units h B"
  by (auto simp: used_units_def release_ok_def kept_def intro: sum.cong)

lemma finite_u32 [simp]: "finite (S :: u32 set)" by simp

lemma used_units_insert:
  assumes "owners h' B' = insert c (owners h B)" "c \<notin> owners h B" "kept h h' (owners h B)"
  shows "used_units h' B' = k_chunk_size h' c + used_units h B"
  using assms by (simp add: used_units_def kept_def)

lemma mem_used_frame [simp]:
  "header (mem_used_inc n m) = header m" "mem_total (mem_used_inc n m) = mem_total m"
  "mem_used (mem_used_inc n m) = mem_used m + n" "header (mem_used_dec n m) = header m"
  "mem_total (mem_used_dec n m) = mem_total m" "mem_used (mem_used_dec n m) = mem_used m - n"
  by (simp_all add: mem_used_inc_def mem_used_dec_def Let_def)

lemma region_unchanged:
  assumes "region_ok m B" "heap_ok h' B' F {}" "tidy h' B' {}" "release_ok (header m) B h' B'"
  shows "region_ok (m\<lparr>header := h'\<rparr>) B'"
  using assms used_units_kept[OF assms(4)] release_ok_frame[OF assms(4)] placed_frame same_frameD(2)
  by (auto simp: region_ok_def)

text \<open>A free chunk off its list is marked as in use.\<close>

lemma take_ok:
  assumes ok: "heap_ok h B F {c}" and t: "tidy h B {c}" and c: "c \<in> B" "\<not> k_chunk_used h c"
  defines "h' \<equiv> k_set_chunk_used c True h"
  shows "heap_ok h' B F {}" "tidy h' B {}" "owners h' B = insert c (owners h B)" "kept h h' B"
    "k_chunk_size h' d = k_chunk_size h d" "c \<noteq> 0" "c \<noteq> hp_len h" "c \<notin> owners h B"
proof -
  have C: "chunks_ok h B" using ok by (simp add: heap_ok_def)
  show c0: "c \<noteq> 0" "c \<noteq> hp_len h" using c(2) chunks_okD(6,7)[OF C] by auto
  note S = set_used_ok[OF ok c(1) unlisted[OF ok] c0, of True, folded h'_def, simplified]
  show "heap_ok h' B F {}" "kept h h' B" "k_chunk_size h' d = k_chunk_size h d" using S(1,2,4) by simp_all
  note len = same_frameD(2)[OF kept_frame[OF S(4)]]
  show "owners h' B = insert c (owners h B)" using S(3) c by (auto simp: owners_def)
  show "c \<notin> owners h B" using c by (simp add: owners_def)
  show "tidy h' B {}" using t by (auto simp: tidy_def S(2,3) len)
qed

lemma take_region:
  assumes R: "region_ok m B" and r: "release_ok (header m) B h1 B1" and ok: "heap_ok h1 B1 F {c}"
    and t: "tidy h1 B1 {c}" and c: "c \<in> B1" "\<not> k_chunk_used h1 c"
  shows "acquired m B (take_chunk c h1 m) B1 c" "header (take_chunk c h1 m) = k_set_chunk_used c True h1"
    "k_chunk_size (header (take_chunk c h1 m)) d = k_chunk_size h1 d" "same_frame (header m) (header (take_chunk c h1 m))"
proof -
  let ?m = "take_chunk c h1 m"
  note T = take_ok[OF ok t c]
  show h: "header ?m = k_set_chunk_used c True h1" by (simp add: take_chunk_def)
  show "k_chunk_size (header ?m) d = k_chunk_size h1 d" using T(5) h by simp
  have own: "owners h1 B1 = owners (header m) B" using r by (simp add: release_ok_def)
  have "owners (header m) B \<subseteq> B1" unfolding own[symmetric] by (auto simp: owners_def)
  then have k: "kept (header m) (header ?m) (owners (header m) B)"
    unfolding h using r kept_trans[OF _ kept_mono[OF T(4)]] by (auto simp: release_ok_def)
  then show sf: "same_frame (header m) (header ?m)" by (rule kept_frame)
  have o: "owners (header ?m) B1 = insert c (owners (header m) B)" "c \<notin> owners (header m) B"
    using T(3,8) by (simp_all add: h own)
  have "used_units (header ?m) B1 = k_chunk_size h1 c + used_units (header m) B"
    using used_units_insert[OF o k] T(5) h by simp
  then have "region_ok ?m B1"
    using R T(1,2) placed_frame[OF sf] same_frameD(2)[OF sf] h
    by (auto simp: region_ok_def take_chunk_def CHUNK_UNIT_def algebra_simps)
  moreover have "c \<noteq> 0" "c \<noteq> hp_len (header m)" using T(6,7) same_frameD(2)[OF release_ok_frame[OF r]] by simp_all
  ultimately show "acquired m B ?m B1 c"
    using o kept_mono[OF k] by (auto simp: acquired_def resized_def)
qed

subsection \<open>Allocation\<close>

lemma block_at_chunk:
  assumes "placed h" "c < hp_len h"
  shows "heap_offset h (hp_addr h + c * 8 + k_chunk_header_bytes h) = 8 * unat c + header_bytes h"
  using chunk_address(2)[OF assms] by (simp add: heap_offset_def)

text \<open>What \<^verbatim>\<open>_k_alloc_chunk\<close> hands out, with what the next steps need.\<close>

lemma took_chunk:
  assumes R: "region_ok m B" and T: "took (header m) B sz h1 c" and c0: "c \<noteq> 0"
  shows "\<exists>F. heap_ok h1 B F {c}" "tidy h1 B {}" "release_ok (header m) B h1 B" "c \<in> B" "\<not> k_chunk_used h1 c"
    "sz \<le> k_chunk_size h1 c" "k_chunk_used h1 (c + k_chunk_size h1 c)" "same_frame (header m) h1" "c < hp_len h1" "placed h1"
proof -
  obtain F0 where F0: "heap_ok (header m) B F0 {}" using R by (auto simp: region_ok_def)
  have C0: "chunks_ok (header m) B" using F0 by (simp add: heap_ok_def)
  have st: "free_step (header m) h1 B" using T by (simp add: took_def)
  show F: "\<exists>F. heap_ok h1 B F {c}" using T c0 by (auto simp: took_def)
  show t: "tidy h1 B {}" using free_step_tidy[OF C0 st] R by (simp add: region_ok_def)
  show r: "release_ok (header m) B h1 B" by (rule free_step_release[OF st])
  show cB: "c \<in> B" and u: "\<not> k_chunk_used h1 c" and "sz \<le> k_chunk_size h1 c"
    using T c0 free_step_kept(3,4)[OF st] by (auto simp: took_def)
  have C: "chunks_ok h1 B" using F by (auto simp: heap_ok_def)
  have ne: "c \<noteq> hp_len h1" using u chunks_okD(6)[OF C] by auto
  then show "c < hp_len h1" using chunks_okD(4)[OF C cB] by simp
  show "k_chunk_used h1 (c + k_chunk_size h1 c)" using tidyD[OF t cB ne] u by simp
  show sf: "same_frame (header m) h1" by (rule release_ok_frame[OF r])
  show "placed h1" using placed_frame[OF sf] R by (simp add: region_ok_def)
qed

lemma took_none:
  assumes R: "region_ok m B" and T: "took (header m) B sz h1 0"
  shows "region_ok (m\<lparr>header := h1\<rparr>) B" "release_ok (header m) B h1 B"
proof -
  obtain F0 where F0: "heap_ok (header m) B F0 {}" using R by (auto simp: region_ok_def)
  have st: "free_step (header m) h1 B" using T by (simp add: took_def)
  show r: "release_ok (header m) B h1 B" by (rule free_step_release[OF st])
  have "tidy h1 B {}" using free_step_tidy[OF _ st] F0 R by (simp add: region_ok_def heap_ok_def)
  then show "region_ok (m\<lparr>header := h1\<rparr>) B" using region_unchanged[OF R _ _ r] T by (auto simp: took_def)
qed

text \<open>A region in which an allocation found nothing, and one in which it took a block of \<open>n\<close> bytes.\<close>

definition alloc_ok :: "heap_mem \<Rightarrow> u32 set \<Rightarrow> nat \<Rightarrow> heap_mem \<Rightarrow> u32 option \<Rightarrow> bool" where
  "alloc_ok m B n m' r \<longleftrightarrow> (case r of
     None \<Rightarrow> region_ok m' B \<and> release_ok (header m) B (header m') B
   | Some p \<Rightarrow> \<exists>B' c. acquired m B m' B' c \<and> block_ok (header m') c p n)"

theorem mem_alloc_ok:
  assumes R: "region_ok m B" and n: "unat n + 16 \<le> 2 ^ 32"
  shows "\<exists>m' r. k_firstfit_mem_alloc n m = OK (m', r) \<and> alloc_ok m B (unat n) m' r"
proof (cases "n = 0")
  case True
  then show ?thesis using R by (simp add: k_firstfit_mem_alloc_def alloc_ok_def)
next
  case False
  define sz where "sz = k_bytes_to_chunksz (header m) n"
  have "0 < n" using False by (simp add: word_gt_0)
  note Z = bytes_to_chunksz[OF this n, of "header m", folded sz_def]
  obtain F0 where F0: "heap_ok (header m) B F0 {}" using R by (auto simp: region_ok_def)
  obtain h1 c where a: "k_alloc_chunk sz (header m) = OK (h1, c)" "took (header m) B sz h1 c"
    using k_alloc_chunk_ok[OF F0 Z(3)] by blast
  show ?thesis
  proof (cases "c = 0")
    case True
    then show ?thesis using took_none[OF R, of sz h1] a False
      by (simp add: k_firstfit_mem_alloc_def alloc_ok_def sz_def[symmetric] Let_def)
  next
    case c0: False
    note T = took_chunk[OF R a(2) c0]
    obtain F1 where F1: "heap_ok h1 B F1 {c}" using T(1) by blast
    obtain h2 B2 F2 where h2: "trim_chunk c sz h1 = OK h2" "heap_ok h2 B2 F2 {c}" "tidy h2 B2 {c}" "release_ok h1 B h2 B2"
        "c \<in> B2" "\<not> k_chunk_used h2 c" "k_chunk_size h2 c = min sz (k_chunk_size h1 c)"
      using trim_ok[OF F1 tidy_mono[OF T(2)] T(7,4,5) Z(4)] by auto
    have s2: "k_chunk_size h2 c = sz" using h2(7) T(6) by simp
    note K = take_region[OF R release_ok_trans[OF T(3) h2(4)] h2(2,3,5,6)]
    let ?h = "header (take_chunk c h2 m)"
    have p: "placed ?h" "c < hp_len ?h" "k_chunk_header_bytes ?h = k_chunk_header_bytes (header m)"
      using placed_frame[OF K(4)] R same_frameD[OF K(4)] T(9) same_frameD(2)[OF T(8)] by (simp_all add: region_ok_def)
    have "block_ok ?h c (hp_addr ?h + c * 8 + k_chunk_header_bytes ?h) (unat n)"
      unfolding block_ok_def block_at_chunk[OF p(1,2)] K(3) s2 using Z(2) p(3) by simp
    then show ?thesis using False a(1) c0 h2(1) k_chunk_mem_ok[OF p(1,2)] K(1)
      by (auto simp: k_firstfit_mem_alloc_def sz_def[symmetric] Let_def alloc_ok_def)
  qed
qed

subsection \<open>Aligned allocation\<close>

text \<open>The assertion on \<open>align\<close> holds of the powers of two.\<close>

lemma power_of_two:
  fixes a :: u32
  assumes "a AND (a - 1) = 0" "0 < a"
  obtains k where "k < 32" "a = 2 ^ k"
proof -
  obtain k where k: "2 ^ k \<le> unat a" "unat a < 2 ^ Suc k"
    using ex_power_ivl1[of 2 "unat a"] assms(2) by (auto simp: word_less_nat_alt)
  have k32: "k < 32"
  proof (rule ccontr)
    assume "\<not> k < 32"
    then have "(2::nat) ^ 32 \<le> 2 ^ k" by (intro power_increasing) simp_all
    then show False using k(1) unat_u32[of a] by simp
  qed
  have bit: "bit w k" if "2 ^ k \<le> unat w" "unat w < 2 ^ Suc k" for w :: u32
  proof -
    have "unat w div 2 ^ k = 1" using that by (intro div_nat_eqI) simp_all
    then have "bit (unat w) k" by (simp add: bit_iff_odd)
    then show ?thesis using k32 by (simp add: bit_unsigned_iff)
  qed
  have "unat a = 2 ^ k"
  proof (rule ccontr)
    assume "unat a \<noteq> 2 ^ k"
    moreover have "unat (a - 1) = unat a - 1" using assms(2) by (simp add: unat_sub word_le_nat_alt word_less_nat_alt)
    ultimately have "bit (a - 1) k" "bit a k" using k by (auto intro!: bit)
    then have "bit (a AND (a - 1)) k" by (simp add: bit_and_iff)
    then show False using assms(1) by simp
  qed
  then have "a = 2 ^ k" using k32 by (simp add: word_unat_eq_iff unat_power_u32)
  then show thesis using that k32 by blast
qed

lemma ROUND_UP_power:
  assumes "k < 32" "unat x + 2 ^ k \<le> 2 ^ 32"
  defines "r \<equiv> ROUND_UP x (2 ^ k)"
  shows "unat x \<le> unat r" "unat r < unat x + 2 ^ k" "unat r mod 2 ^ k = 0"
proof -
  have p: "unat (2 ^ k - 1 :: u32) = 2 ^ k - 1" using assms(1) by (simp add: unat_minus_one unat_power_u32)
  have "unat (x + (2 ^ k - 1)) = unat x + (2 ^ k - 1)"
    unfolding p[symmetric] by (subst unat_add_lem[THEN iffD1]) (use assms(2) p in auto)
  then have r: "unat r = (unat x + (2 ^ k - 1)) div 2 ^ k * 2 ^ k"
    using unat_round_down[of "x + (2 ^ k - 1)" k] by (simp add: r_def ROUND_UP_def mask_eq_exp_minus_1)
  let ?q = "(unat x + (2 ^ k - 1)) div 2 ^ k * 2 ^ k"
  have "?q + (unat x + (2 ^ k - 1)) mod 2 ^ k = unat x + (2 ^ k - 1)"
    by (rule div_mult_mod_eq)
  moreover have "(unat x + (2 ^ k - 1)) mod 2 ^ k < 2 ^ k" by simp
  ultimately show "unat x \<le> unat r" "unat r < unat x + 2 ^ k" unfolding r by linarith+
  show "unat r mod 2 ^ k = 0" unfolding r by simp
qed

text \<open>A chunk is advanced to \<open>c\<close>; what lies before goes back to a list.\<close>

lemma advance_ok:
  assumes ok: "heap_ok h B F {c0}" and t: "tidy h B {}" and right: "k_chunk_used h (c0 + k_chunk_size h c0)"
    and c0: "c0 \<in> B" "\<not> k_chunk_used h c0" and c: "c0 \<le> c" "c < c0 + k_chunk_size h c0"
  shows "\<exists>h' B' F'. (if c0 < c then bind_res (k_split_chunks c0 c h) (k_free_list_add c0) else OK h) = OK h' \<and>
    heap_ok h' B' F' {c} \<and> tidy h' B' {c} \<and> release_ok h B h' B' \<and> c \<in> B' \<and> \<not> k_chunk_used h' c \<and>
    c + k_chunk_size h' c = c0 + k_chunk_size h c0 \<and> k_chunk_used h' (c + k_chunk_size h' c)"
proof (cases "c0 < c")
  case False
  then have "c0 = c" using c by simp
  then show ?thesis using ok t right c0 tidy_mono[OF t]
    by (intro exI[of _ h] exI[of _ B] exI[of _ F]) simp
next
  case True
  have C: "chunks_ok h B" using ok by (simp add: heap_ok_def)
  obtain h1 where h1: "k_split_chunks c0 c h = OK h1" "heap_ok h1 (insert c B) F {c0, c}"
      "tidy h1 (insert c B) {c}" "release_ok h B h1 (insert c B)" "k_chunk_size h1 c = c0 + k_chunk_size h c0 - c"
      "\<not> k_chunk_used h1 c0" "\<not> k_chunk_used h1 c"
    using split_free_ok[OF ok tidy_mono[OF t] right c0 True c(2)] t by auto
  obtain h2 F2 where h2: "k_free_list_add c0 h1 = OK h2" "heap_ok h2 (insert c B) F2 ({c0, c} - {c0})" "free_step h1 h2 (insert c B)"
    using free_add_ok[OF h1(2) _ h1(6)] c0(1) by auto
  have C1: "chunks_ok h1 (insert c B)" using h1(2) by (simp add: heap_ok_def)
  have X: "{c0, c} - {c0} = {c}" using True by auto
  have r: "release_ok h B h2 (insert c B)" by (rule release_ok_trans[OF h1(4) free_step_release[OF h2(3)]])
  note K = free_step_kept(3,4)[OF h2(3), of c]
  have e: "c + k_chunk_size h2 c = c0 + k_chunk_size h c0" using K h1(5) by simp
  have "c0 \<noteq> hp_len h" using c0(2) chunks_okD(6)[OF C] by auto
  then have "c0 + k_chunk_size h c0 \<in> owners h B" using right chunk_next(3)[OF C c0(1)] by (simp add: owners_def)
  then have "k_chunk_used h2 (c0 + k_chunk_size h c0)" using r by (auto simp: release_ok_def owners_def)
  then show ?thesis
    using True h1(1,7) h2(1) h2(2)[unfolded X] free_step_tidy[OF C1 h2(3) h1(3)] r K e
    by (intro exI[of _ h2] exI[of _ "insert c B"] exI[of _ F2]) simp
qed

text \<open>Where the aligned address falls.\<close>

lemma aligned_place:
  assumes p: "placed h" and k: "3 \<le> k" "k < 32" and c0: "c0 < hp_len h"
    and fits: "header_bytes h + n + 2 ^ k \<le> 8 * s + 1" "unat c0 + s \<le> unat (hp_len h)" and n: "0 < n"
  defines "mem \<equiv> ROUND_UP (hp_addr h + c0 * 8 + k_chunk_header_bytes h) (2 ^ k)"
  defines "c \<equiv> k_mem_to_chunkid h mem"
  shows "unat mem mod 2 ^ k = 0" "unat c0 \<le> unat c" "unat c < unat c0 + s"
    "heap_offset h mem = 8 * unat c + header_bytes h + (if k_big_heap h then 0 else 4)"
    "heap_offset h mem + n \<le> 8 * (unat c0 + s)"
proof -
  let ?A = "unat (hp_addr h)" and ?x = "hp_addr h + c0 * 8 + k_chunk_header_bytes h"
  have x: "unat ?x = ?A + 8 * unat c0 + header_bytes h" by (rule chunk_address(3)[OF p c0])
  have A: "?A mod 8 = 0" "?A + 8 * unat (hp_len h) + 8 \<le> 2 ^ 32" using p by (simp_all add: placed_def)
  have "unat ?x + 2 ^ k \<le> 2 ^ 32" using x A fits n by linarith
  note R = ROUND_UP_power[OF k(2) this, folded mem_def]
  show "unat mem mod 2 ^ k = 0" by (rule R(3))
  have "hp_addr h \<le> mem" unfolding word_le_nat_alt using R(1) x by linarith
  then have off: "heap_offset h mem = unat mem - ?A" by (simp add: heap_offset_def unat_sub)
  have lo: "8 * unat c0 + header_bytes h \<le> heap_offset h mem" using off R(1) x by linarith
  have hi: "heap_offset h mem < 8 * unat c0 + header_bytes h + 2 ^ k" using off R(1,2) x by linarith
  have c: "unat c = (heap_offset h mem - header_bytes h) div 8"
    unfolding c_def by (rule unat_chunkid) (use lo in linarith)
  show "heap_offset h mem + n \<le> 8 * (unat c0 + s)" using hi fits(1) by (simp add: algebra_simps)
  show "unat c0 \<le> unat c" "unat c < unat c0 + s" unfolding c using lo hi fits(1) n by linarith+
  have "(2::nat) ^ 3 dvd 2 ^ k" using k(1) by (rule le_imp_power_dvd)
  then have "unat mem mod 2 ^ 3 = 0" using R(3) by (metis mod_mod_cancel mod_0)
  then have "unat mem mod 8 = 0" by simp
  moreover have "unat mem = ?A + heap_offset h mem" using off \<open>hp_addr h \<le> mem\<close> by (simp add: word_le_nat_alt)
  ultimately have "8 dvd heap_offset h mem" using A(1) by (simp add: dvd_eq_mod_eq_0 mod_add_eq[symmetric])
  then obtain q where q: "heap_offset h mem = 8 * q" by blast
  then have q0: "0 < q" using lo by (auto simp: header_bytes split: if_splits)
  then have e: "8 * (q - 1) + 8 = 8 * q" by simp
  have "(heap_offset h mem - 8) div 8 = q - 1" "(heap_offset h mem - 4) div 8 = q - 1" unfolding q using q0 by linarith+
  then show "heap_offset h mem = 8 * unat c + header_bytes h + (if k_big_heap h then 0 else 4)"
    unfolding c using q e by (simp add: header_bytes)
qed

text \<open>A block starts where its offset says, on an address that 4 divides.\<close>

lemma block_address:
  assumes p: "placed h" and C: "chunks_ok h B" and c: "c \<in> B" and b: "block_ok h c q n"
  shows "unat q = unat (hp_addr h) + heap_offset h q" "unat q mod 4 = 0"
    "unat q + n \<le> unat (hp_addr h) + 8 * unat (hp_len h)"
proof -
  have b: "heap_offset h q + n \<le> 8 * (unat c + unat (k_chunk_size h c))"
    and off: "heap_offset h q = 8 * unat c + header_bytes h \<or>
      \<not> k_big_heap h \<and> heap_offset h q = 8 * unat c + header_bytes h + 4"
    using b by (simp_all add: block_ok_def)
  have le: "heap_offset h q + n \<le> 8 * unat (hp_len h)"
    using b mult_le_mono2[OF chunk_end(2)[OF C c], of 8] by linarith
  have A: "unat (hp_addr h) mod 8 = 0" "unat (hp_addr h) + 8 * unat (hp_len h) + 8 \<le> 2 ^ 32" using p by (simp_all add: placed_def)
  have "unat (hp_addr h + (q - hp_addr h)) = unat (hp_addr h) + heap_offset h q"
    unfolding heap_offset_def by (subst unat_add_lem[THEN iffD1]) (use A le in \<open>auto simp: heap_offset_def\<close>)
  then show u: "unat q = unat (hp_addr h) + heap_offset h q" by simp
  then show "unat q + n \<le> unat (hp_addr h) + 8 * unat (hp_len h)" using le by simp
  have "4 dvd unat (hp_addr h)" using A(1) by presburger
  moreover have "4 dvd heap_offset h q" using off by (auto simp: header_bytes)
  ultimately show "unat q mod 4 = 0" by (simp add: u)
qed

theorem mem_aligned_alloc_ok:
  assumes R: "region_ok m B" and al: "align AND (align - 1) = 0" and n: "unat n + unat align + 16 \<le> 2 ^ 32"
  shows "\<exists>m' r. k_firstfit_mem_aligned_alloc align n m = OK (m', r) \<and> alloc_ok m B (unat n) m' r \<and>
    (\<forall>p. r = Some p \<longrightarrow> 4 < align \<longrightarrow> unat p mod unat align = 0)"
proof (cases "n = 0 \<or> align \<le> 4")
  case True
  then show ?thesis using mem_alloc_ok[OF R, of n] n al R
    by (auto simp: k_firstfit_mem_aligned_alloc_def alloc_ok_def)
next
  case False
  then have n0: "n \<noteq> 0" "0 < n" "\<not> align \<le> 4" "0 < align" by (auto simp: word_gt_0)
  obtain k where k: "k < 32" "align = 2 ^ k" using power_of_two[OF al n0(4)] .
  have ua: "unat align = 2 ^ k" using unat_power_u32[OF k(1)] k(2) by simp
  have k4: "2 ^ 2 < (2::nat) ^ k" using n0(3) ua by (simp add: word_le_nat_alt)
  then have k3: "3 \<le> k" using power_less_imp_less_exp[of "2::nat" 2 k] by simp
  define h where "h = header m"
  define padded where "padded = k_bytes_to_chunksz h (n + align - 1)"
  define asz where "asz = k_bytes_to_chunksz h n"
  have un: "unat (n + align - 1) = unat n + 2 ^ k - 1"
  proof -
    have "unat (n + align) = unat n + 2 ^ k" using n ua by (subst unat_add_lem[THEN iffD1]) auto
    then show ?thesis by (subst unat_minus_one) (auto simp: unat_eq_0)
  qed
  have nn: "0 < unat n" using n0(2) by (simp add: word_less_nat_alt)
  have "0 < n + align - 1" "unat (n + align - 1) + 16 \<le> 2 ^ 32"
    using un nn n ua k4 by (simp_all add: word_less_nat_alt)
  note Z = bytes_to_chunksz[OF this, of h, folded padded_def]
  have "unat n + 16 \<le> 2 ^ 32" using n by simp
  note Y = bytes_to_chunksz[OF n0(2) this, of h, folded asz_def]
  obtain F0 where F0: "heap_ok h B F0 {}" using R by (auto simp: region_ok_def h_def)
  obtain h1 c0 where a: "k_alloc_chunk padded h = OK (h1, c0)" "took h B padded h1 c0"
    using k_alloc_chunk_ok[OF F0 Z(3)] by blast
  have op: "k_firstfit_mem_aligned_alloc align n m =
      (if c0 = 0 then OK (m\<lparr>header := h1\<rparr>, None)
       else bind_res (k_chunk_mem h1 c0) (\<lambda>mem0.
                let mem = ROUND_UP mem0 align; c = k_mem_to_chunkid h1 mem
                in os_assert (c0 \<le> c \<and> c < c0 + padded)
                (bind_res (if c0 < c then bind_res (k_split_chunks c0 c h1) (k_free_list_add c0) else OK h1) (\<lambda>h2.
                 bind_res (k_chunk_mem h2 c) (\<lambda>mem_bound.
                 bind_res (trim_chunk c (if mem_bound \<noteq> mem then asz + 1 else asz) h2) (\<lambda>h3.
                   OK (take_chunk c h3 m, Some mem)))))))"
    unfolding k_firstfit_mem_aligned_alloc_def Let_def padded_def asz_def h_def
    using n0 al a(1)[unfolded padded_def h_def] by simp
  show ?thesis
  proof (cases "c0 = 0")
    case True
    then show ?thesis using took_none[OF R, of padded h1] a by (simp add: op alloc_ok_def h_def)
  next
    case c0: False
    note T = took_chunk[OF R a(2)[unfolded h_def] c0]
    obtain F1 where F1: "heap_ok h1 B F1 {c0}" using T(1) by blast
    have C1: "chunks_ok h1 B" using F1 by (simp add: heap_ok_def)
    have sf1: "same_frame h h1" using T(8) by (simp add: h_def)
    have hb: "k_chunk_header_bytes h1 = k_chunk_header_bytes h" by (rule same_frameD(6)[OF sf1])
    note end0 = chunk_end[OF C1 T(4)]
    have pl: "unat padded \<le> unat (k_chunk_size h1 c0)" using T(6) by (simp add: word_le_nat_alt)
    define mem where "mem = ROUND_UP (hp_addr h1 + c0 * 8 + k_chunk_header_bytes h1) align"
    define c where "c = k_mem_to_chunkid h1 mem"
    have fits: "header_bytes h1 + unat n + 2 ^ k \<le> 8 * unat padded + 1" "unat c0 + unat padded \<le> unat (hp_len h1)"
      using Z(2) un nn hb end0(2) pl by simp_all
    note P = aligned_place[OF T(10) k3 k(1) T(9) fits nn, folded k(2), folded mem_def, folded c_def]
    have up: "unat (c0 + padded) = unat c0 + unat padded"
      using end0(2) pl unat_u32[of "hp_len h1"] by (subst unat_add_lem[THEN iffD1]) simp_all
    have cc: "c0 \<le> c" "c < c0 + padded" "c < c0 + k_chunk_size h1 c0"
      using P(2,3) up end0(1) pl by (simp_all add: word_le_nat_alt word_less_nat_alt)
    obtain h2 B2 F2 where h2: "(if c0 < c then bind_res (k_split_chunks c0 c h1) (k_free_list_add c0) else OK h1) = OK h2"
        "heap_ok h2 B2 F2 {c}" "tidy h2 B2 {c}" "release_ok h1 B h2 B2" "c \<in> B2" "\<not> k_chunk_used h2 c"
        "c + k_chunk_size h2 c = c0 + k_chunk_size h1 c0" "k_chunk_used h2 (c + k_chunk_size h2 c)"
      using advance_ok[OF F1 T(2,7,4,5) cc(1,3)] by auto
    have C2: "chunks_ok h2 B2" using h2(2) by (simp add: heap_ok_def)
    have sf2: "same_frame h1 h2" by (rule release_ok_frame[OF h2(4)])
    have p2: "placed h2" "c < hp_len h2"
      using placed_frame[OF sf2] T(10) chunks_okD(4)[OF C2 h2(5)] chunks_okD(6)[OF C2] h2(6) by (auto simp: order.order_iff_strict)
    define q where "q = hp_addr h2 + c * 8 + k_chunk_header_bytes h2"
    have q: "k_chunk_mem h2 c = OK q" "heap_offset h2 q = 8 * unat c + header_bytes h2"
      using k_chunk_mem_ok[OF p2] block_at_chunk[OF p2] by (simp_all add: q_def)
    define sz where "sz = (if q \<noteq> mem then asz + 1 else asz)"
    have fr: "hp_addr h2 = hp_addr h1" "header_bytes h2 = header_bytes h" "header_bytes h1 = header_bytes h"
      using same_frameD[OF sf2] hb by simp_all
    have off: "heap_offset h2 mem = heap_offset h1 mem" by (simp add: heap_offset_def fr)
    have asz: "unat (asz + 1) = unat asz + 1"
    proof -
      have "unat asz \<le> unat padded" unfolding Y(1) Z(1) un by (intro div_le_mono) (use k4 in simp)
      then have "unat asz + 1 < 2 ^ 32" using fits(2) pl end0(2) chunks_okD(1)[OF C1] by (simp add: heap_len_ok_def)
      then show ?thesis by (subst unat_add_lem[THEN iffD1]) simp_all
    qed
    have sz: "0 < sz" "heap_offset h1 mem + unat n \<le> 8 * (unat c + unat sz)"
    proof -
      show "0 < sz" using Y(4) asz by (auto simp: sz_def word_less_nat_alt)
      show "heap_offset h1 mem + unat n \<le> 8 * (unat c + unat sz)"
      proof (cases "q = mem")
        case True
        then show ?thesis using q(2) Y(2) fr off by (simp add: sz_def)
      next
        case False
        then show ?thesis using P(4) Y(2) fr asz by (simp add: sz_def split: if_splits)
      qed
    qed
    obtain h3 B3 F3 where h3: "trim_chunk c sz h2 = OK h3" "heap_ok h3 B3 F3 {c}" "tidy h3 B3 {c}" "release_ok h2 B2 h3 B3"
        "c \<in> B3" "\<not> k_chunk_used h3 c" "k_chunk_size h3 c = min sz (k_chunk_size h2 c)"
      using trim_ok[OF h2(2,3,8,5,6) sz(1)] by blast
    note r = release_ok_trans[OF T(3) release_ok_trans[OF h2(4) h3(4)]]
    note K = take_region[OF R r h3(2,3,5,6)]
    let ?m = "take_chunk c h3 m"
    note D = same_frameD[OF K(4)] and D1 = same_frameD[OF T(8)]
    have "unat c + unat (k_chunk_size h2 c) = unat c0 + unat (k_chunk_size h1 c0)"
      using chunk_end(1)[OF C2 h2(5)] end0(1) h2(7) by simp
    then have "heap_offset h1 mem + unat n \<le> 8 * (unat c + unat (k_chunk_size (header ?m) c))"
      unfolding K(3) h3(7) using sz(2) P(5) pl by (simp add: min_def)
    moreover have "heap_offset (header ?m) mem = heap_offset h1 mem" "header_bytes (header ?m) = header_bytes h1"
      "k_big_heap (header ?m) = k_big_heap h1" using D D1 by (simp_all add: heap_offset_def)
    ultimately have "block_ok (header ?m) c mem (unat n)" using P(4) by (simp add: block_ok_def)
    moreover have "k_firstfit_mem_aligned_alloc align n m = OK (?m, Some mem)"
      unfolding op if_not_P[OF c0] k_chunk_mem_ok[OF T(10,9)] bind_res.simps Let_def mem_def[symmetric] c_def[symmetric]
        h2(1) q(1) sz_def[symmetric] h3(1) using cc by simp
    ultimately show ?thesis using K(1) P(1) ua by (auto simp: alloc_ok_def)
  qed
qed

subsection \<open>Release\<close>

text \<open>The checks on the address and on the headers pass for the block of a chunk in use.\<close>

lemma block_checks:
  assumes R: "region_ok m B" and c: "c \<in> owners (header m) B" "c \<noteq> hp_len (header m)"
    and b: "block_ok (header m) c p n" "0 < n"
  shows "k_mem_to_chunkid (header m) p = c" "mem_in_heap p m" "chunk_intact c (header m)"
proof -
  let ?h = "header m"
  obtain F where F: "heap_ok ?h B F {}" using R by (auto simp: region_ok_def)
  have C: "chunks_ok ?h B" using F by (simp add: heap_ok_def)
  have p: "placed ?h" and cB: "c \<in> B" and us: "k_chunk_used ?h c" using R c by (simp_all add: region_ok_def owners_def)
  show "k_mem_to_chunkid ?h p = c" using b by (intro chunkid_of) (auto simp: block_ok_def)
  note A = block_address[OF p C cB b(1)]
  have pl: "unat (hp_addr ?h) + 8 * unat (hp_len ?h) + 8 \<le> 2 ^ 32" using p by (simp add: placed_def)
  have "hp_addr ?h \<le> p" using A(1) by (simp add: word_le_nat_alt)
  moreover have "unat (hp_len ?h * 8) = 8 * unat (hp_len ?h)" using pl by (simp add: unat_word_ariths)
  then have "p - hp_addr ?h \<le> mem_total m"
    using A(1,3) R by (simp add: region_ok_def word_le_nat_alt heap_offset_def)
  ultimately show "mem_in_heap p m" by (simp add: mem_in_heap_def)
  show "chunk_intact c ?h"
    using us chunks_okD(11)[OF C cB c(2)] by (simp add: chunk_intact_def k_left_chunk_def k_right_chunk_def)
qed

text \<open>A chunk that goes out of use, before it is merged.\<close>

lemma drop_ok:
  assumes ok: "heap_ok h B F {}" and t: "tidy h B {}" and c: "c \<in> owners h B" "c \<noteq> 0" "c \<noteq> hp_len h"
  defines "h' \<equiv> k_set_chunk_used c False h"
  shows "heap_ok h' B F {c}" "tidy h' B {c}" "owners h' B = owners h B - {c}" "kept h h' B"
    "\<not> k_chunk_used h' c" "k_chunk_size h' d = k_chunk_size h d"
proof -
  have cB: "c \<in> B" "k_chunk_used h c" using c(1) by (simp_all add: owners_def)
  note S = set_used_ok[OF ok cB(1) unlisted[OF ok] c(2,3), of False, folded h'_def, simplified]
  show "heap_ok h' B F {c}" "kept h h' B" "k_chunk_size h' d = k_chunk_size h d" "\<not> k_chunk_used h' c"
    using S cB by simp_all
  note len = same_frameD(2)[OF kept_frame[OF S(4)]]
  show "owners h' B = owners h B - {c}" using S(3) cB by (auto simp: owners_def)
  show "tidy h' B {c}" using t cB by (auto simp: tidy_def S(2,3) len)
qed

theorem mem_free_ok:
  assumes R: "region_ok m B" and c: "c \<in> owners (header m) B" "c \<noteq> 0" "c \<noteq> hp_len (header m)"
    and b: "block_ok (header m) c p n" "0 < n"
  shows "\<exists>m' B'. k_firstfit_mem_free (Some p) m = OK m' \<and> released m B m' B' c"
proof -
  let ?h = "header m"
  obtain F where F: "heap_ok ?h B F {}" using R by (auto simp: region_ok_def)
  have t: "tidy ?h B {}" using R by (simp add: region_ok_def)
  note K = block_checks[OF R c(1,3) b] and D = drop_ok[OF F t c]
  let ?h1 = "k_set_chunk_used c False ?h"
  have cB: "c \<in> B" using c(1) by (simp add: owners_def)
  obtain h2 B2 F2 where h2: "k_free_chunk c ?h1 = OK h2" "heap_ok h2 B2 F2 {}" "tidy h2 B2 {}" "release_ok ?h1 B h2 B2"
    using k_free_chunk_ok[OF D(1,2) cB D(5)] by blast
  let ?m = "(mem_used_dec (k_chunk_size ?h c * 8) m)\<lparr>header := h2\<rparr>"
  have op: "k_firstfit_mem_free (Some p) m = OK ?m"
    using K h2(1) by (simp add: k_firstfit_mem_free_def Let_def CHUNK_UNIT_def)
  have own: "owners h2 B2 = owners ?h B - {c}" using h2(4) D(3) by (simp add: release_ok_def)
  have "owners ?h B - {c} \<subseteq> B" by (auto simp: owners_def)
  then have k: "kept ?h h2 (owners ?h B - {c})"
    using kept_trans[OF kept_mono[OF D(4)]] h2(4) D(3) by (simp add: release_ok_def)
  note sf = kept_frame[OF k]
  have "used_units ?h B = k_chunk_size ?h c + used_units h2 B2"
    unfolding used_units_def own using c(1) k by (simp add: sum.remove kept_def)
  then have "region_ok ?m B2"
    using R h2(2,3) placed_frame[OF sf] same_frameD(2)[OF sf] by (auto simp: region_ok_def algebra_simps)
  then have "released m B ?m B2 c" using own c k by (auto simp: released_def resized_def)
  then show ?thesis using op by blast
qed

subsection \<open>Reallocation in place\<close>

lemma used_units_but:
  assumes "c \<in> owners h B" "c \<in> owners h' B'" "owners h' B' - {c} = owners h B - {c}" "kept h h' (owners h B - {c})"
  shows "used_units h' B' + k_chunk_size h c = used_units h B + k_chunk_size h' c"
proof -
  have "(\<Sum>u \<in> owners h' B' - {c}. k_chunk_size h' u) = (\<Sum>u \<in> owners h B - {c}. k_chunk_size h u)"
    unfolding assms(3) using assms(4) by (intro sum.cong) (simp_all add: kept_def)
  then show ?thesis unfolding used_units_def using assms(1,2) by (simp add: sum.remove)
qed

text \<open>
  The chunk shrinks: its tail becomes a chunk of its own, which is released. What remains of the
  body keeps its contents.
\<close>

lemma realloc_shrink_ok:
  assumes R: "region_ok m B" and c: "c \<in> owners (header m) B" "c \<noteq> 0" "c \<noteq> hp_len (header m)"
    and s: "0 < s" "s < k_chunk_size (header m) c"
  shows "\<exists>m' B'. realloc_shrink c s m = OK (m', Some (hp_addr (header m) + c * 8 + k_chunk_header_bytes (header m))) \<and>
    resized m B m' B' c \<and> c \<in> owners (header m') B' \<and> k_chunk_size (header m') c = s \<and>
    (\<forall>j. in_body (header m') c j \<longrightarrow> cells (header m') j = cells (header m) j)"
proof -
  let ?h = "header m"
  obtain F where F: "heap_ok ?h B F {}" using R by (auto simp: region_ok_def)
  have C: "chunks_ok ?h B" using F by (simp add: heap_ok_def)
  have t: "tidy ?h B {}" and p: "placed ?h" using R by (simp_all add: region_ok_def)
  have cB: "c \<in> B" "k_chunk_used ?h c" using c(1) by (simp_all add: owners_def)
  define rc where "rc = c + s"
  note I = chunk_inside[OF C cB(1) s, folded rc_def]
  obtain h1 where h1: "k_split_chunks c rc ?h = OK h1" "heap_ok h1 (insert rc B) F ({} \<union> {c, rc})" "same_frame ?h h1"
      "rc \<notin> B" "rc \<noteq> hp_len ?h" "k_chunk_size h1 c = rc - c" "\<not> k_chunk_used h1 rc"
      "\<forall>d \<in> B. d \<noteq> c \<longrightarrow> k_chunk_size h1 d = k_chunk_size ?h d \<and> k_chunk_used h1 d = k_chunk_used ?h d"
      "\<forall>u \<in> B. u \<noteq> c \<longrightarrow> (\<forall>j. in_body ?h u j \<longrightarrow> cells h1 j = cells ?h j)"
      "\<forall>j. chunk_cell (k_big_heap ?h) c 2 \<le> j \<and> j < chunk_cell (k_big_heap ?h) rc 0 \<longrightarrow> cells h1 j = cells ?h j"
    using split_ok[OF F cB(1) c(2) unlisted[OF F] I(1,2)] cB(2) by auto
  let ?B = "insert rc B"
  define h2 where "h2 = k_set_chunk_used c True h1"
  note f1 = same_frameD[OF h1(3)]
  have ne: "c \<noteq> rc" "c \<noteq> hp_len h1" using cB(1) h1(4) c(3) f1 by auto
  have un: "c \<notin> set (F i)" for i using unlisted[OF h1(2)] by blast
  note S = set_used_ok[OF h1(2) insertI2[OF cB(1)] un c(2) ne(2), of True, folded h2_def, simplified]
  have X: "{c, rc} - {c} = {rc}" using ne by auto
  have ok2: "heap_ok h2 ?B F {rc}" using S(1) X by simp
  note f2 = same_frameD[OF kept_frame[OF S(4)]]
  have t2: "tidy h2 ?B {rc}" unfolding tidy_def
  proof (intro ballI impI, elim conjE)
    fix d assume d: "d \<in> ?B" "d \<noteq> hp_len h2" "d \<notin> {rc}" "d + k_chunk_size h2 d \<notin> {rc}"
    show "k_chunk_used h2 d \<or> k_chunk_used h2 (d + k_chunk_size h2 d)"
    proof (cases "d = c")
      case True
      then show ?thesis by (simp add: S(3))
    next
      case False
      have dB: "d \<in> B" "d \<noteq> hp_len ?h" using d f1 f2 by auto
      have "k_chunk_used ?h d \<or> k_chunk_used ?h (d + k_chunk_size ?h d)" using tidyD[OF t dB] by simp
      then show ?thesis using h1(8) dB(1) chunk_next(3)[OF C dB] False by (auto simp: S(2,3))
    qed
  qed
  have r2: "rc \<in> ?B" "\<not> k_chunk_used h2 rc" using h1(7) ne(1) by (auto simp: S(3))
  have o2: "owners h2 ?B = owners ?h B" using h1(4,7,8) cB ne by (auto simp: owners_def S(3))
  obtain h3 B3 F3 where h3: "k_free_chunk rc h2 = OK h3" "heap_ok h3 B3 F3 {}" "tidy h3 B3 {}" "release_ok h2 ?B h3 B3"
    using k_free_chunk_ok[OF ok2 t2 r2] by blast
  have o3: "owners h3 B3 = owners ?h B" using h3(4) o2 by (simp add: release_ok_def)
  have k3: "kept h2 h3 (owners ?h B)" using h3(4) o2 by (simp add: release_ok_def)
  have "kept ?h h1 (owners ?h B - {c})" using h1(3,8,9) by (auto simp: kept_def owners_def)
  moreover have "kept h1 h2 (owners ?h B - {c})" by (rule kept_mono[OF S(4)]) (auto simp: owners_def)
  moreover have "kept h2 h3 (owners ?h B - {c})" by (rule kept_mono[OF k3]) auto
  ultimately have k: "kept ?h h3 (owners ?h B - {c})" by (blast intro: kept_trans)
  note sf = kept_frame[OF k]
  have sz3: "k_chunk_size h3 c = s" using k3 c(1) h1(6) by (simp add: kept_def S(2) rc_def)
  have body: "cells h3 j = cells ?h j" if "in_body h3 c j" for j
  proof -
    have "in_body h2 c j" "in_body h1 c j" using that sz3 h1(6) same_frameD(3)[OF kept_frame[OF k3]] f2
      by (simp_all add: in_body_def S(2) rc_def)
    moreover have "in_body h1 c j \<Longrightarrow> cells h1 j = cells ?h j" using h1(6,10) f1 by (simp add: in_body_def)
    ultimately show ?thesis using k3 S(4) c(1) cB(1) ne(2) f2 by (auto simp: kept_def)
  qed
  let ?m = "(mem_used_dec ((k_chunk_size ?h c - s) * 8) m)\<lparr>header := h3\<rparr>"
  have p3: "placed h3" "c < hp_len h3" "hp_addr h3 = hp_addr ?h" "k_chunk_header_bytes h3 = k_chunk_header_bytes ?h"
    using placed_frame[OF sf] p same_frameD[OF sf] chunks_okD(4)[OF C cB(1)] c(3) by auto
  have op: "realloc_shrink c s m = OK (?m, Some (hp_addr ?h + c * 8 + k_chunk_header_bytes ?h))"
    using h1(1) h3(1) k_chunk_mem_ok[OF p3(1,2)] p3(3,4) by (simp add: realloc_shrink_def Let_def rc_def h2_def CHUNK_UNIT_def)
  have "used_units h3 B3 + k_chunk_size ?h c = used_units ?h B + s"
    using used_units_but[of c ?h B h3 B3] c(1) o3 k sz3 by simp
  then have "used_units h3 B3 = used_units ?h B - (k_chunk_size ?h c - s)" by (simp add: algebra_simps)
  then have u: "used_units ?h B * 8 - (k_chunk_size ?h c - s) * 8 = used_units h3 B3 * 8"
    by (simp only: left_diff_distrib)
  have "region_ok ?m B3"
    using R h3(2,3) p3(1) same_frameD(2)[OF sf] u by (auto simp: region_ok_def)
  then have "resized m B ?m B3 c" using o3 k c by (simp add: resized_def)
  then show ?thesis using op o3 c(1) sz3 body by (intro exI[of _ ?m] exI[of _ B3]) simp
qed

text \<open>
  The chunk grows into its free right neighbour: the last steps are a merge of the two, with the
  used bit set on the way.
\<close>

lemma grow_is_merge:
  assumes L: "heap_len_ok h" and n: "newsz = k_chunk_size h c + k_chunk_size h rc" "newsz \<le> hp_len h"
    and e: "c \<le> hp_len h" "c + newsz \<le> hp_len h" "c + newsz \<noteq> c"
    and rc: "rc \<noteq> c" "rc = c + k_chunk_size h c"
    and m: "k_merge_chunks c rc (k_set_chunk_used c False h) = OK h4"
  shows "\<exists>h3. k_set_chunk_size c newsz h = OK h3 \<and>
    k_set_left_chunk_size (c + newsz) newsz (k_set_chunk_used c True h3) = OK (k_set_chunk_used c True h4)"
proof -
  let ?p = "push_bit 1 newsz" and ?h0 = "k_set_chunk_used c False h"
  have h0: "?h0 = put c SIZE_AND_USED (k_chunk_field h c SIZE_AND_USED AND NOT 1) h" by (simp add: k_set_chunk_used_put)
  have L1: "heap_len_ok (put d f v h)" for d f v using L by (simp add: heap_len_ok_def)
  have L2: "heap_len_ok (put d f v (put d' f' v' h))" for d f v d' f' v' using L by (simp add: heap_len_ok_def)
  have sf: "SIZE_AND_USED < 2" by (simp add: field_defs)
  have s0: "k_chunk_size ?h0 c = k_chunk_size h c" "k_chunk_size ?h0 rc = k_chunk_size h rc"
    unfolding h0 size_put[OF sf]
    using rc(1) size_field_values(4)[of "k_chunk_field h c SIZE_AND_USED"] by (simp_all add: k_chunk_size_def)
  have b: "unat newsz < 2 ^ 31" using n(2) L by (simp add: heap_len_ok_def word_le_nat_alt)
  have 1: "k_set_chunk_size c newsz h = OK (put c SIZE_AND_USED ?p h)" by (rule k_set_chunk_size_ok[OF L e(1) n(2)])
  have 2: "k_set_chunk_size c newsz ?h0 = OK (put c SIZE_AND_USED ?p ?h0)"
    unfolding h0 by (rule k_set_chunk_size_ok[OF L1]) (use e n in simp_all)
  have r: "k_right_chunk (put c SIZE_AND_USED ?p ?h0) rc = c + newsz"
    unfolding k_right_chunk_def size_put[OF sf] using rc(1) s0(2) by (simp add: n(1) rc(2)[symmetric] add.assoc[symmetric])
  have "k_set_left_chunk_size (c + newsz) newsz (put c SIZE_AND_USED ?p ?h0) = OK (put (c + newsz) LEFT_SIZE newsz (put c SIZE_AND_USED ?p ?h0))"
    unfolding k_set_left_chunk_size_def h0 by (rule k_chunk_set_ok[OF L2]) (use e n in simp_all)
  then have h4: "h4 = put (c + newsz) LEFT_SIZE newsz (put c SIZE_AND_USED ?p ?h0)"
    using m 2 r by (simp add: k_merge_chunks_def Let_def s0 n(1)[symmetric])
  let ?h3 = "put c SIZE_AND_USED ?p h"
  have u3: "k_set_chunk_used c True ?h3 = put c SIZE_AND_USED (?p OR 1) ?h3" by (simp add: k_set_chunk_used_put)
  have "k_set_left_chunk_size (c + newsz) newsz (k_set_chunk_used c True ?h3) =
      OK (put (c + newsz) LEFT_SIZE newsz (k_set_chunk_used c True ?h3))"
    unfolding k_set_left_chunk_size_def u3 by (rule k_chunk_set_ok[OF L2]) (use e n in simp_all)
  moreover have "put (c + newsz) LEFT_SIZE newsz (k_set_chunk_used c True ?h3) = k_set_chunk_used c True h4"
  proof -
    have f: "k_chunk_field h4 c SIZE_AND_USED = ?p" unfolding h4 using e(3) by (simp add: field_put_header field_defs)
    have "apart (k_big_heap h) (c, 1) (c + newsz, 0)" using apart_header[of 1 0] by simp
    then have ne: "chunk_cell (k_big_heap h) c 1 \<noteq> chunk_cell (k_big_heap h) (c + newsz) 0" by (simp add: apart_def)
    have kb: "k_big_heap (h\<lparr>cells := x\<rparr>) = k_big_heap h" for x by (simp add: k_big_heap_def)
    show ?thesis unfolding u3 k_set_chunk_used_put[of c True h4] f
      using ne unfolding h4 h0 put_def set_cell_def by (simp add: field_defs fun_upd_twist kb)
  qed
  ultimately show ?thesis using 1 by simp
qed

lemma realloc_grow_ok:
  assumes R: "region_ok m B" and c: "c \<in> owners (header m) B" "c \<noteq> 0" "c \<noteq> hp_len (header m)"
    and s: "k_chunk_size (header m) c < s" "s \<le> k_chunk_size (header m) c + k_chunk_size (header m) (k_right_chunk (header m) c)"
    and free: "\<not> k_chunk_used (header m) (k_right_chunk (header m) c)"
  shows "\<exists>m' B'. realloc_grow c s m = OK (m', Some (hp_addr (header m) + c * 8 + k_chunk_header_bytes (header m))) \<and>
    resized m B m' B' c \<and> c \<in> owners (header m') B' \<and> k_chunk_size (header m') c = s \<and>
    (\<forall>j. in_body (header m) c j \<longrightarrow> cells (header m') j = cells (header m) j)"
proof -
  let ?h = "header m"
  obtain F where F: "heap_ok ?h B F {}" using R by (auto simp: region_ok_def)
  have C: "chunks_ok ?h B" using F by (simp add: heap_ok_def)
  have t: "tidy ?h B {}" and p: "placed ?h" using R by (simp_all add: region_ok_def)
  have cB: "c \<in> B" "k_chunk_used ?h c" using c(1) by (simp_all add: owners_def)
  define rc where "rc = c + k_chunk_size ?h c"
  define d where "d = s - k_chunk_size ?h c"
  have rc: "k_right_chunk ?h c = rc" by (simp add: k_right_chunk_def rc_def)
  note n = chunk_next[OF C cB(1) c(3), folded rc_def]
  have ur: "\<not> k_chunk_used ?h rc" using free rc by simp
  have rl: "rc \<noteq> hp_len ?h" using ur chunks_okD(6)[OF C] by auto
  note er = chunk_end[OF C n(3)] and ec = chunk_end[OF C cB(1), folded rc_def]
  have us: "unat (k_chunk_size ?h c + k_chunk_size ?h rc) = unat (k_chunk_size ?h c) + unat (k_chunk_size ?h rc)"
    using er(2) ec(1) unat_u32[of "hp_len ?h"] by (subst unat_add_lem[THEN iffD1]) simp_all
  have d: "0 < d" "d \<le> k_chunk_size ?h rc" "k_chunk_size ?h c + d = s"
  proof -
    have "unat d = unat s - unat (k_chunk_size ?h c)"
      unfolding d_def using s(1) by (intro unat_sub) simp
    then show "0 < d" "d \<le> k_chunk_size ?h rc" using s us rc by (simp_all add: word_less_nat_alt word_le_nat_alt)
    show "k_chunk_size ?h c + d = s" by (simp add: d_def)
  qed
  obtain h1 F1 where h1: "k_free_list_remove rc ?h = OK h1" "heap_ok h1 B F1 {rc}" "free_step ?h h1 B"
    using free_remove_ok[OF F n(3) ur] by auto
  note K1 = free_step_kept[OF h1(3)]
  have t1: "tidy h1 B {}" by (rule free_step_tidy[OF C h1(3) t])
  have sz1: "k_chunk_size h1 rc = k_chunk_size ?h rc" by (rule K1(4)[OF n(3)])
  have C1: "chunks_ok h1 B" using h1(2) by (simp add: heap_ok_def)
  have u1: "\<not> k_chunk_used h1 rc" using ur K1(3)[OF n(3)] by simp
  have rl1: "rc \<noteq> hp_len h1" using u1 chunks_okD(6)[OF C1] by auto
  have right: "k_chunk_used h1 (rc + k_chunk_size h1 rc)" using tidyD[OF t1 n(3) rl1] u1 by simp
  obtain h2 B2 F2 where h2: "trim_chunk rc d h1 = OK h2" "heap_ok h2 B2 F2 {rc}" "tidy h2 B2 {rc}" "release_ok h1 B h2 B2"
      "rc \<in> B2" "\<not> k_chunk_used h2 rc" "k_chunk_size h2 rc = min d (k_chunk_size h1 rc)"
    using trim_ok[OF h1(2) tidy_mono[OF t1] right n(3) u1 d(1)] by blast
  have C2: "chunks_ok h2 B2" using h2(2) by (simp add: heap_ok_def)
  have r2: "release_ok ?h B h2 B2" by (rule release_ok_trans[OF free_step_release[OF h1(3)] h2(4)])
  have o2: "owners h2 B2 = owners ?h B" and k2: "kept ?h h2 (owners ?h B)" using r2 by (simp_all add: release_ok_def)
  note f2 = same_frameD[OF kept_frame[OF k2]]
  have c2: "c \<in> owners h2 B2" "c \<in> B2" "c \<noteq> hp_len h2" "k_chunk_size h2 c = k_chunk_size ?h c" "k_chunk_size h2 rc = d"
    using c(1,3) o2 k2 f2 h2(7) sz1 d(2) by (auto simp: owners_def kept_def)
  have un: "c \<notin> set (F2 i)" for i using unlisted[OF h2(2)] c2(1) by (auto simp: owners_def)
  define hx where "hx = k_set_chunk_used c False h2"
  note S = set_used_ok[OF h2(2) c2(2) un c(2) c2(3), of False, folded hx_def, simplified]
  have ne: "rc \<noteq> c" using n(1) by auto
  note fx = same_frameD[OF kept_frame[OF S(4)]]
  have mm: "c + k_chunk_size hx c = rc" "\<not> k_chunk_used hx c" "\<not> k_chunk_used hx rc" "k_chunk_size hx rc = d"
    using c2(4,5) h2(6) ne by (simp_all add: S(2,3) rc_def)
  obtain h4 where h4: "k_merge_chunks c rc hx = OK h4" "heap_ok h4 (B2 - {rc}) F2 ({c, rc} - {rc})" "same_frame hx h4"
      "k_chunk_size h4 c = k_chunk_size hx c + k_chunk_size hx rc" "\<not> k_chunk_used h4 c"
      "\<forall>e \<in> B2. e \<noteq> c \<longrightarrow> k_chunk_size h4 e = k_chunk_size hx e \<and> k_chunk_used h4 e = k_chunk_used hx e"
      "\<forall>u \<in> B2. \<forall>j. in_body hx u j \<longrightarrow> cells h4 j = cells hx j"
    using merge_ok[OF S(1) c2(2) mm(2) _ mm(1,3)] by auto
  have X: "{c, rc} - {rc} = {c}" using ne by auto
  note f4 = same_frameD[OF h4(3)]
  have sz4: "k_chunk_size h4 c = s" using h4(4) mm(4) c2(4) d(3) by (simp add: S(2))
  let ?B = "B2 - {rc}"
  have cl: "c \<in> ?B" using c2(2) ne by auto
  have t4: "tidy h4 ?B {c}" unfolding tidy_def
  proof (intro ballI impI, elim conjE)
    fix e assume e: "e \<in> ?B" "e \<noteq> hp_len h4" "e \<notin> {c}" "e + k_chunk_size h4 e \<notin> {c}"
    have eB: "e \<in> B2" "e \<noteq> hp_len h2" "e \<noteq> rc" "e \<noteq> c" using e fx f4 by auto
    have e4: "k_chunk_size h4 e = k_chunk_size h2 e" "k_chunk_used h4 e = k_chunk_used h2 e" using h4(6) eB by (simp_all add: S(2,3))
    have "e + k_chunk_size h2 e \<noteq> rc" using chunk_end_inj[OF C2 eB(1,2) c2(2,3)] c2(4) eB(4) by (auto simp: rc_def)
    then have "k_chunk_used h2 e \<or> k_chunk_used h2 (e + k_chunk_size h2 e)" using tidyD[OF h2(3) eB(1,2)] eB(3) by auto
    moreover have "k_chunk_used h4 (e + k_chunk_size h2 e) = k_chunk_used h2 (e + k_chunk_size h2 e)"
      using h4(6) chunk_next(3)[OF C2 eB(1,2)] e(4) e4(1) by (simp add: S(3))
    ultimately show "k_chunk_used h4 e \<or> k_chunk_used h4 (e + k_chunk_size h4 e)" using e4 by simp
  qed
  define h5 where "h5 = k_set_chunk_used c True h4"
  note T = take_ok[OF h4(2)[unfolded X] t4 cl h4(5), folded h5_def]
  have o5: "owners h5 ?B = owners ?h B"
    unfolding T(3) o2[symmetric] using h4(6) h2(6) c2(1) mm(2,3) by (auto simp: owners_def S(3) split: if_splits)
  have rl2: "rc \<noteq> hp_len h2" using h2(6) chunks_okD(6)[OF C2] by auto
  note e2 = chunk_end[OF C2 h2(5), unfolded c2(5)] and n2 = chunk_next[OF C2 h2(5) rl2, unfolded c2(5)]
  have cs: "c + s = rc + d" using d(3) by (simp add: rc_def add.assoc)
  have bodies: "cells h5 j = cells ?h j" if u: "u \<in> owners ?h B" "u \<noteq> hp_len ?h" "in_body ?h u j" for u j
  proof -
    have uB: "u \<in> B2" "u \<in> ?B" "k_chunk_size h2 u = k_chunk_size ?h u" "u \<noteq> hp_len h2"
      using u k2 o2 f2 h2(6) by (auto simp: owners_def kept_def)
    have b: "in_body h2 u j" "in_body hx u j" using u(3) uB(3) f2 fx by (simp_all add: in_body_def S(2))
    have "in_body h4 u j"
    proof (cases "u = c")
      case True
      have "chunk_cell (k_big_heap ?h) rc 0 \<le> chunk_cell (k_big_heap ?h) (c + s) 0"
        unfolding cs using n2(1) by (intro chunk_cell_le) simp
      then show ?thesis using b(2) True sz4 c2(4) f4 fx f2 by (simp add: in_body_def S(2) rc_def[symmetric])
    next
      case False
      then show ?thesis using b(2) h4(6) uB(1) f4 by (simp add: in_body_def)
    qed
    then have "cells h5 j = cells h4 j" using T(4) uB(2,4) f4 fx by (simp add: kept_def)
    also have "\<dots> = cells hx j" using h4(7) uB(1) b(2) by blast
    also have "\<dots> = cells h2 j" using S(4) uB(1,4) b(1) by (simp add: kept_def)
    also have "\<dots> = cells ?h j" using k2 u by (simp add: kept_def)
    finally show ?thesis .
  qed
  have sf5: "same_frame ?h h5"
    using same_frame_trans[OF same_frame_trans[OF kept_frame[OF k2] kept_frame[OF S(4)]]
      same_frame_trans[OF h4(3) kept_frame[OF T(4)]]] .
  have k: "kept ?h h5 (owners ?h B - {c})"
  proof -
    have "k_chunk_size h5 u = k_chunk_size ?h u" if "u \<in> owners ?h B" "u \<noteq> c" for u
      using that k2 o2 h4(6) by (auto simp: T(5) S(2) kept_def owners_def)
    then show ?thesis using sf5 bodies by (auto simp: kept_def)
  qed
  have sz5: "k_chunk_size h5 c = s" using sz4 by (simp add: T(5))
  have us: "unat s = unat (k_chunk_size ?h c) + unat d" using d(2) us unfolding d(3)[symmetric]
    by (subst unat_add_lem[THEN iffD1]) (use er(2) ec(1) unat_u32[of "hp_len ?h"] in \<open>auto simp: word_le_nat_alt\<close>)
  have "unat s \<le> unat (hp_len h2)" using us ec(1) e2(2) by simp
  then have g: "s = k_chunk_size h2 c + k_chunk_size h2 rc" "s \<le> hp_len h2" "c \<le> hp_len h2" "rc = c + k_chunk_size h2 c"
    using c2(4,5) d(3) chunks_okD(4)[OF C2 c2(2)] by (simp_all add: word_le_nat_alt rc_def)
  have g2: "c + s \<le> hp_len h2" "c + s \<noteq> c" unfolding cs using n2(1,2) n(1) by auto
  obtain h3 where h3: "k_set_chunk_size c s h2 = OK h3" "k_set_left_chunk_size (c + s) s (k_set_chunk_used c True h3) = OK h5"
    using grow_is_merge[OF chunks_okD(1)[OF C2] g(1-3) g2 ne g(4) h4(1)[unfolded hx_def], folded h5_def] by blast
  let ?m = "(mem_used_inc (d * 8) m)\<lparr>header := h5\<rparr>"
  have p5: "placed h5" "c < hp_len h5" "hp_addr h5 = hp_addr ?h" "k_chunk_header_bytes h5 = k_chunk_header_bytes ?h"
    using placed_frame[OF sf5] p same_frameD[OF sf5] chunks_okD(4)[OF C cB(1)] c(3) by auto
  have tr: "(if d < k_chunk_size ?h rc then bind_res (k_split_chunks rc (rc + d) h1) (k_free_list_add (rc + d)) else OK h1) = OK h2"
    using h2(1) by (simp add: trim_chunk_def sz1)
  have op: "realloc_grow c s m = OK (?m, Some (hp_addr ?h + c * 8 + k_chunk_header_bytes ?h))"
    unfolding realloc_grow_def Let_def rc d_def[symmetric] d(3) h1(1) bind_res.simps tr h3
    using k_chunk_mem_ok[OF p5(1,2)] p5(3,4) by (simp add: CHUNK_UNIT_def)
  have "used_units h5 ?B + k_chunk_size ?h c = used_units ?h B + s"
    using used_units_but[of c ?h B h5 ?B] c(1) o5 k sz5 by simp
  then have "used_units h5 ?B + k_chunk_size ?h c = used_units ?h B + d + k_chunk_size ?h c" by (simp add: d_def)
  then have u: "used_units ?h B * 8 + d * 8 = used_units h5 ?B * 8" by (simp add: distrib_right)
  have "region_ok ?m ?B" using R T(1,2) p5(1) same_frameD(2)[OF sf5] u by (auto simp: region_ok_def)
  then have "resized m B ?m ?B c" using o5 k c by (simp add: resized_def)
  then show ?thesis using op o5 c sz5 bodies by (intro exI[of _ ?m] exI[of _ ?B]) simp
qed

end
