(* ===== verification/Firstfit_Store.thy ===== *)
theory Firstfit_Store
  imports Firstfit_Mem
begin

unbundle bit_operations_syntax

text \<open>
  The first-fit heap as its clients see it: a store of byte arrays. The abstract store maps the
  address of each live block to its bytes; every call on the heap does what the store promises,
  whatever the other calls were. The theory also holds what the check of the heap reports.
\<close>

subsection \<open>Writing into a block\<close>

lemma body_disjoint:
  assumes C: "chunks_ok h B" and u: "u \<in> B" "v \<in> B" "u \<noteq> v" and j: "in_body h u j"
  shows "\<not> in_body h v j"
proof -
  have le: "chunk_cell (k_big_heap h) (a + k_chunk_size h a) 0 \<le> chunk_cell (k_big_heap h) b 2"
    if "a \<in> B" "b \<in> B" "a < b" for a b
    using chunk_cell_le[OF chunks_okD(12)[OF C that]] .
  consider "u < v" | "v < u" using u(3) by fastforce
  then show ?thesis using le[of u v] le[of v u] u j by cases (auto simp: in_body_def)
qed

lemma set_body_ok:
  fixes v :: u32
  assumes ok: "heap_ok h B F X" and u: "u \<in> B" "k_chunk_used h u" and j: "in_body h u j"
  defines "h' \<equiv> set_cell j v h"
  shows "heap_ok h' B F X" "d \<in> B \<Longrightarrow> k_chunk_size h' d = k_chunk_size h d" "d \<in> B \<Longrightarrow> k_chunk_used h' d = k_chunk_used h d"
    "kept h h' (B - {u})" "same_frame h h'"
proof -
  have C: "chunks_ok h B" and Fr: "frees_ok h B F X" using ok by (simp_all add: heap_ok_def)
  have out: "j \<noteq> chunk_cell (k_big_heap h) d f" if "d \<in> B" "f < 4" "d = u \<Longrightarrow> f < 2" for d f
    using not_in_body[OF C u(1) that] j by auto
  have fld: "k_chunk_field h' d f = k_chunk_field h d f" if "d \<in> B" "f < 4" "d = u \<Longrightarrow> f < 2" for d f
    using out[OF that] by (simp add: h'_def k_chunk_field_def)
  show sf: "same_frame h h'" by (simp add: h'_def)
  have st: "same_headers h h' B" using fld sf by (simp add: same_headers_def field_defs)
  note D = same_headersD[OF st]
  show "d \<in> B \<Longrightarrow> k_chunk_size h' d = k_chunk_size h d" "d \<in> B \<Longrightarrow> k_chunk_used h' d = k_chunk_used h d"
    by (simp_all add: D)
  have "frees_ok h' B F X"
  proof (rule frees_okI[OF Fr st])
    show "x \<in> set (F j) \<longleftrightarrow> x \<in> B \<and> \<not> k_chunk_used h x \<and> x \<notin> X \<and> \<not> k_solo_free_header h x \<and>
        k_bucket_idx h (k_chunk_size h x) = j" for x j by (rule frees_okD(5)[OF Fr])
    show "buckets h' ! i = (case F i of [] \<Rightarrow> 0 | c # _ \<Rightarrow> c)" if "i < length (buckets h)" for i
      using frees_okD(2)[OF Fr that] by (simp add: h'_def)
    show "bit (avail_buckets h') i \<longleftrightarrow> F i \<noteq> []" for i using frees_okD(4)[OF Fr, of i] by (simp add: h'_def)
    show "ringed (k_next_free_chunk h') (k_prev_free_chunk h') (F i)" for i
    proof (rule ringed_cong[OF _ frees_okD(3)[OF Fr, of i]])
      fix x assume x: "x \<in> set (F i)"
      have "x \<in> B" "x \<noteq> u" using listed(1,2)[OF ok x] u(2) by auto
      then show "k_next_free_chunk h' x = k_next_free_chunk h x \<and> k_prev_free_chunk h' x = k_prev_free_chunk h x"
        using fld by (simp add: k_next_free_chunk_def k_prev_free_chunk_def field_defs)
    qed
  qed
  then show "heap_ok h' B F X" using same_headers_chunks[OF st C] by (simp add: heap_ok_def)
  show "kept h h' (B - {u})"
    using body_disjoint[OF C u(1) _ _ j] D(2) sf by (auto simp: kept_def h'_def)
qed

text \<open>Bytes and the cells that hold them.\<close>

lemma cell_bytes: "0 < cell_bytes h" "cell_bytes h = 4 \<or> cell_bytes h = 2"
  by (simp_all add: cell_bytes_def)

lemma byte_in_body:
  assumes C: "chunks_ok h B" and u: "u \<in> B"
  shows "in_body h u (a div cell_bytes h) \<longleftrightarrow>
    8 * unat u + header_bytes h \<le> a \<and> a < 8 * (unat u + unat (k_chunk_size h u))"
  using chunk_end(1)[OF C u]
  by (auto simp: in_body_def chunk_cell_def cell_bytes_def header_bytes less_eq_div_iff_mult_less_eq div_less_iff_less_mult)

lemma cell_bytes_frame: "same_frame h h' \<Longrightarrow> cell_bytes h' = cell_bytes h"
  by (simp add: cell_bytes_def same_frameD)

lemma heap_byte_cong:
  assumes "same_frame h h'" "cells h' (a div cell_bytes h) = cells h (a div cell_bytes h)"
  shows "heap_byte h' a = heap_byte h a"
  using assms by (simp add: heap_byte_def cell_bytes_frame)

lemma byte_set_byte: "heap_byte (set_heap_byte a v h) b = (if a = b then v else heap_byte h b)"
proof -
  let ?n = "cell_bytes h"
  have n: "0 < ?n" "a mod ?n < 4" "b mod ?n < 4"
    using cell_bytes[of h] mod_less_divisor[of ?n a] mod_less_divisor[of ?n b] by linarith+
  have f: "cell_bytes (set_heap_byte a v h) = ?n"
    by (rule cell_bytes_frame) (simp add: set_heap_byte_def Let_def)
  show ?thesis
  proof (cases "a div ?n = b div ?n")
    case False
    then show ?thesis by (auto simp: heap_byte_def f) (simp_all add: set_heap_byte_def Let_def)
  next
    case True
    then have e: "a = b \<longleftrightarrow> b mod ?n = a mod ?n" by (metis div_mult_mod_eq)
    have c: "cells (set_heap_byte a v h) (b div ?n) =
        (cells h (a div ?n) AND NOT (push_bit (8 * (a mod ?n)) 0xFF)) OR push_bit (8 * (a mod ?n)) (ucast v)"
      using True by (simp add: set_heap_byte_def Let_def)
    show ?thesis unfolding heap_byte_def f c insert_byte[OF n(3,2)] using e True by simp
  qed
qed

text \<open>A step inside the body of the chunk \<open>u\<close> in use.\<close>

definition body_step :: "z_heap \<Rightarrow> u32 set \<Rightarrow> u32 \<Rightarrow> z_heap \<Rightarrow> bool" where
  "body_step h B u h' \<longleftrightarrow> (\<forall>F X. heap_ok h B F X \<longrightarrow> heap_ok h' B F X) \<and> same_frame h h' \<and>
     (\<forall>d \<in> B. k_chunk_size h' d = k_chunk_size h d \<and> k_chunk_used h' d = k_chunk_used h d) \<and> kept h h' (B - {u})"

lemma body_step_trans: "body_step h B u h1 \<Longrightarrow> body_step h1 B u h2 \<Longrightarrow> body_step h B u h2"
  by (auto simp: body_step_def intro: same_frame_trans kept_trans)

lemma set_byte_step:
  assumes ok: "heap_ok h B F X" and u: "u \<in> B" "k_chunk_used h u"
    and a: "8 * unat u + header_bytes h \<le> a" "a < 8 * (unat u + unat (k_chunk_size h u))"
  shows "body_step h B u (set_heap_byte a v h)"
proof -
  have "chunks_ok h B" using ok by (simp add: heap_ok_def)
  then have j: "in_body h u (a div cell_bytes h)" using byte_in_body u(1) a by simp
  have "heap_ok (set_heap_byte a v h) B F' X'" if "heap_ok h B F' X'" for F' X'
    unfolding set_heap_byte_def Let_def by (rule set_body_ok(1)[OF that u j])
  then show ?thesis using set_body_ok(2-5)[OF ok u j] by (simp add: body_step_def set_heap_byte_def Let_def)
qed

lemma write_bytes_step:
  assumes "heap_ok h B F X" "u \<in> B" "k_chunk_used h u"
    and "8 * unat u + header_bytes h \<le> a" "a + length vs \<le> 8 * (unat u + unat (k_chunk_size h u))"
  shows "body_step h B u (write_bytes a vs h) \<and>
    (\<forall>b. heap_byte (write_bytes a vs h) b = (if a \<le> b \<and> b < a + length vs then vs ! (b - a) else heap_byte h b))"
  using assms
proof (induction vs arbitrary: a h)
  case Nil
  then show ?case by (auto simp: body_step_def)
next
  case (Cons v vs)
  let ?h = "set_heap_byte a v h"
  have s: "body_step h B u ?h" using set_byte_step[OF Cons.prems(1-4)] Cons.prems(5) by simp
  have f: "same_frame h ?h" "heap_ok ?h B F X" "k_chunk_used ?h u" "k_chunk_size ?h u = k_chunk_size h u"
    using s Cons.prems(1-3) by (auto simp: body_step_def)
  have "body_step ?h B u (write_bytes (Suc a) vs ?h) \<and> (\<forall>b. heap_byte (write_bytes (Suc a) vs ?h) b =
      (if Suc a \<le> b \<and> b < Suc a + length vs then vs ! (b - Suc a) else heap_byte ?h b))"
    using Cons.prems f same_frameD(6)[OF f(1)] by (intro Cons.IH) simp_all
  then show ?case using body_step_trans[OF s] by (auto simp: byte_set_byte nth_Cons' Suc_diff_le)
qed

subsection \<open>The store\<close>

type_synonym store = "u32 \<Rightarrow> u8 list option"

text \<open>The block at \<open>p\<close> has the body of a chunk in use and holds \<open>bs\<close>.\<close>

definition holds :: "z_heap \<Rightarrow> u32 set \<Rightarrow> u32 \<Rightarrow> u8 list \<Rightarrow> bool" where
  "holds h B p bs \<longleftrightarrow> bs \<noteq> [] \<and> k_mem_to_chunkid h p \<in> owners h B - {0, hp_len h} \<and>
     block_ok h (k_mem_to_chunkid h p) p (length bs) \<and> read_bytes h (heap_offset h p) (length bs) = bs"

text \<open>Chunk 0 is the heap itself with its buckets; there is room behind it.\<close>

definition chunk0_units :: "z_heap \<Rightarrow> u32" where
  "chunk0_units h = k_chunksz (sizeof_z_heap + of_nat (length (buckets h)) * 4)"

definition chunk0_ok :: "z_heap \<Rightarrow> bool" where
  "chunk0_ok h \<longleftrightarrow> k_chunk_size h 0 = chunk0_units h \<and> chunk0_units h < hp_len h"

lemma chunk0_kept: "kept h h' U \<Longrightarrow> 0 \<in> U \<Longrightarrow> chunk0_ok h \<Longrightarrow> chunk0_ok h'"
  by (simp add: kept_def chunk0_ok_def chunk0_units_def same_frame_def)

definition store_ok :: "heap_mem \<Rightarrow> u32 set \<Rightarrow> store \<Rightarrow> bool" where
  "store_ok m B S \<longleftrightarrow> region_ok m B \<and> chunk0_ok (header m) \<and> (\<forall>p bs. S p = Some bs \<longrightarrow> holds (header m) B p bs) \<and>
     inj_on (k_mem_to_chunkid (header m)) (dom S) \<and>
     k_mem_to_chunkid (header m) ` dom S = owners (header m) B - {0, hp_len (header m)}"

lemma store_okD:
  assumes "store_ok m B S"
  shows "region_ok m B" "S p = Some bs \<Longrightarrow> holds (header m) B p bs" "inj_on (k_mem_to_chunkid (header m)) (dom S)"
    "k_mem_to_chunkid (header m) ` dom S = owners (header m) B - {0, hp_len (header m)}" "chunk0_ok (header m)"
    "0 \<in> owners (header m) B"
proof -
  have "region_ok m B" using assms by (simp add: store_ok_def)
  then obtain F where "heap_ok (header m) B F {}" by (auto simp: region_ok_def)
  then have "chunks_ok (header m) B" by (simp add: heap_ok_def)
  then show "0 \<in> owners (header m) B" using chunks_okD(2,7) by (simp add: owners_def)
qed (use assms in \<open>simp_all add: store_ok_def\<close>)

lemma region_heap:
  assumes "region_ok m B"
  obtains F where "heap_ok (header m) B F {}" "chunks_ok (header m) B" "tidy (header m) B {}" "placed (header m)"
  using assms by (auto simp: region_ok_def heap_ok_def)

lemma frame_ids:
  assumes "same_frame h h'"
  shows "k_mem_to_chunkid h' = k_mem_to_chunkid h" "heap_offset h' = heap_offset h" "header_bytes h' = header_bytes h"
    "hp_len h' = hp_len h" "hp_addr h' = hp_addr h" "k_big_heap h' = k_big_heap h"
  using same_frameD[OF assms] by (simp_all add: fun_eq_iff k_mem_to_chunkid_def heap_offset_def)

text \<open>The blocks of the other chunks stay as they are.\<close>

lemma block_bytes_in_body:
  assumes C: "chunks_ok h B" and c: "c \<in> B" and b: "block_ok h c p n" and i: "i < n"
  shows "in_body h c ((heap_offset h p + i) div cell_bytes h)"
  using b i by (auto simp: byte_in_body[OF C c] block_ok_def)

lemma holds_kept:
  assumes C: "chunks_ok h B" and k: "kept h h' (owners h B - {c})" and o: "owners h' B' - {c} = owners h B - {c}"
    and H: "holds h B p bs" and d: "k_mem_to_chunkid h p \<noteq> c"
  shows "holds h' B' p bs"
proof -
  let ?d = "k_mem_to_chunkid h p"
  note f = frame_ids[OF kept_frame[OF k]]
  have H': "bs \<noteq> []" "?d \<in> owners h B" "?d \<noteq> 0" "?d \<noteq> hp_len h" "block_ok h ?d p (length bs)"
    "read_bytes h (heap_offset h p) (length bs) = bs" using H by (simp_all add: holds_def)
  have dB: "?d \<in> B" using H'(2) by (simp add: owners_def)
  have sz: "k_chunk_size h' ?d = k_chunk_size h ?d" using k H'(2) d by (simp add: kept_def)
  have "heap_byte h' (heap_offset h p + i) = heap_byte h (heap_offset h p + i)" if "i < length bs" for i
    using block_bytes_in_body[OF C dB H'(5) that] k H'(2,4) d
    by (intro heap_byte_cong[OF kept_frame[OF k]]) (auto simp: kept_def)
  then have "read_bytes h' (heap_offset h p) (length bs) = bs"
    using H'(6) unfolding read_bytes_def by (metis (mono_tags, lifting) atLeastLessThan_iff map_cong set_upt)
  moreover have "?d \<in> owners h' B'" using o H'(2) d by auto
  ultimately show ?thesis using H' sz f by (simp add: holds_def block_ok_def)
qed

text \<open>What a call that touches only the chunk \<open>c\<close> makes of the store: the blocks of the other chunks remain.\<close>

definition others :: "z_heap \<Rightarrow> store \<Rightarrow> u32 \<Rightarrow> store" where
  "others h S c = (\<lambda>q. if k_mem_to_chunkid h q = c then None else S q)"

lemma others_free:
  assumes "store_ok m B S" "c \<notin> owners (header m) B"
  shows "others (header m) S c = S"
proof -
  have "k_mem_to_chunkid (header m) q \<noteq> c" if "S q \<noteq> None" for q
  proof -
    have "k_mem_to_chunkid (header m) q \<in> k_mem_to_chunkid (header m) ` dom S" using that by blast
    then show ?thesis using store_okD(4)[OF assms(1)] assms(2) by auto
  qed
  then have "S q = None" if "k_mem_to_chunkid (header m) q = c" for q using that by blast
  then show ?thesis by (simp add: others_def fun_eq_iff)
qed

lemma others_block:
  assumes "store_ok m B S" "S p = Some bs" "k_mem_to_chunkid (header m) p = c"
  shows "others (header m) S c = S(p := None)"
proof (rule ext)
  fix q
  have "S q = None" if "k_mem_to_chunkid (header m) q = c" "q \<noteq> p"
    using inj_onD[OF store_okD(3)[OF assms(1)], of q p] that assms(2,3) by auto
  then show "others (header m) S c q = (S(p := None)) q" using assms(3) by (auto simp: others_def)
qed

lemma store_others:
  assumes S: "store_ok m B S" and A: "resized m B m' B' c"
  shows "c \<notin> owners (header m') B' \<Longrightarrow> store_ok m' B' (others (header m) S c)"
    "holds (header m') B' p bs \<Longrightarrow> k_mem_to_chunkid (header m') p = c \<Longrightarrow> store_ok m' B' ((others (header m) S c)(p \<mapsto> bs))"
proof -
  let ?h = "header m" and ?h' = "header m'" and ?S = "others (header m) S c"
  note D = store_okD[OF S]
  obtain F where C: "chunks_ok ?h B" using region_heap[OF D(1)] .
  have A': "region_ok m' B'" "c \<noteq> 0" "c \<noteq> hp_len ?h" "owners ?h' B' - {c} = owners ?h B - {c}"
    "kept ?h ?h' (owners ?h B - {c})"
    using A unfolding resized_def by blast+
  note f = frame_ids[OF kept_frame[OF A'(5)]]
  have old: "holds ?h' B' q v" if "?S q = Some v" for q v
    using that holds_kept[OF C A'(5,4) D(2)] by (auto simp: others_def split: if_splits)
  have inj: "inj_on (k_mem_to_chunkid ?h') (dom ?S)"
    unfolding f(1) by (rule inj_on_subset[OF D(3)]) (auto simp: others_def split: if_splits)
  have "dom ?S = {q \<in> dom S. k_mem_to_chunkid ?h q \<noteq> c}" by (auto simp: others_def split: if_splits)
  then have "k_mem_to_chunkid ?h ` dom ?S = k_mem_to_chunkid ?h ` dom S - {c}" by (simp only:) blast
  moreover have "V - {0, hp_len ?h} - {c} = V - {c} - {0, hp_len ?h}" for V by blast
  ultimately have img: "k_mem_to_chunkid ?h' ` dom ?S = owners ?h' B' - {0, hp_len ?h'} - {c}"
    by (simp only: f(1,4) D(4) A'(4))
  have c0: "chunk0_ok ?h'" using chunk0_kept[OF A'(5) _ D(5)] D(6) A'(2) by simp
  show "store_ok m' B' ?S" if "c \<notin> owners ?h' B'"
    using A'(1) c0 old inj img that by (simp add: store_ok_def)
  show "store_ok m' B' (?S(p \<mapsto> bs))" if p: "holds ?h' B' p bs" "k_mem_to_chunkid ?h' p = c"
  proof -
    have dom: "dom (?S(p \<mapsto> bs)) = insert p (dom ?S)" by auto
    have cm: "c \<in> owners ?h' B' - {0, hp_len ?h'}" using p by (simp add: holds_def)
    have "inj_on (k_mem_to_chunkid ?h') (dom (?S(p \<mapsto> bs)))"
    proof -
      have "k_mem_to_chunkid ?h' ` (dom ?S - {p}) \<subseteq> owners ?h' B' - {0, hp_len ?h'} - {c}"
        unfolding img[symmetric] by (rule image_mono) (rule Diff_subset)
      then have "c \<notin> k_mem_to_chunkid ?h' ` (dom ?S - {p})" by (rule contra_subsetD) simp
      then show ?thesis unfolding dom inj_on_insert p(2) by (intro conjI inj)
    qed
    moreover have "k_mem_to_chunkid ?h' ` dom (?S(p \<mapsto> bs)) = owners ?h' B' - {0, hp_len ?h'}"
      unfolding dom image_insert img p(2) by (rule insert_Diff[OF cm])
    ultimately show ?thesis using A'(1) c0 old p(1) by (simp add: store_ok_def)
  qed
qed

lemma length_read_bytes [simp]: "length (read_bytes h a n) = n"
  by (simp add: read_bytes_def)

lemma holds_new:
  assumes R: "region_ok m B" and c: "c \<in> owners (header m) B" "c \<noteq> 0" "c \<noteq> hp_len (header m)"
    and b: "block_ok (header m) c p n" "0 < n"
  shows "holds (header m) B p (read_bytes (header m) (heap_offset (header m) p) n)" "k_mem_to_chunkid (header m) p = c"
proof -
  show i: "k_mem_to_chunkid (header m) p = c" by (rule block_checks(1)[OF R c(1,3) b])
  have "read_bytes (header m) (heap_offset (header m) p) n \<noteq> []" using b(2) by (simp add: read_bytes_def)
  then show "holds (header m) B p (read_bytes (header m) (heap_offset (header m) p) n)"
    using c b(1) by (simp add: holds_def i)
qed

text \<open>The store after an allocation, a release, a reallocation in place and a call that took nothing.\<close>

lemma store_add:
  assumes S: "store_ok m B S" and A: "acquired m B m' B' c" and b: "block_ok (header m') c p n" "0 < n"
  shows "store_ok m' B' (S(p \<mapsto> read_bytes (header m') (heap_offset (header m') p) n))" "S p = None"
proof -
  have A': "resized m B m' B' c" "c \<notin> owners (header m) B" "c \<in> owners (header m') B'" "region_ok m' B'" "c \<noteq> 0"
    "c \<noteq> hp_len (header m)" "kept (header m) (header m') (owners (header m) B - {c})"
    using A unfolding acquired_def resized_def by blast+
  note f = frame_ids[OF kept_frame[OF A'(7)]]
  have "c \<noteq> hp_len (header m')" using A'(6) f by simp
  note H = holds_new[OF A'(4,3,5) this b]
  show "store_ok m' B' (S(p \<mapsto> read_bytes (header m') (heap_offset (header m') p) n))"
    using store_others(2)[OF S A'(1) H] others_free[OF S A'(2)] by simp
  show "S p = None" using fun_cong[OF others_free[OF S A'(2)], of p] H(2) f(1) by (simp add: others_def)
qed

lemma store_drop:
  assumes S: "store_ok m B S" and p: "S p = Some bs" "k_mem_to_chunkid (header m) p = c" and A: "released m B m' B' c"
  shows "store_ok m' B' (S(p := None))"
  using store_others(1)[OF S, of m' B' c] others_block[OF S p] A by (simp add: released_def)

lemma store_change:
  assumes S: "store_ok m B S" and p: "S p = Some bs" "k_mem_to_chunkid (header m) p = c" and A: "resized m B m' B' c"
    and c: "c \<in> owners (header m') B'" and b: "block_ok (header m') c p n" "0 < n"
  shows "store_ok m' B' (S(p \<mapsto> read_bytes (header m') (heap_offset (header m') p) n))"
proof -
  have A': "region_ok m' B'" "c \<noteq> 0" "c \<noteq> hp_len (header m)" "kept (header m) (header m') (owners (header m) B - {c})"
    using A unfolding resized_def by blast+
  have "c \<noteq> hp_len (header m')" using A'(3) frame_ids(4)[OF kept_frame[OF A'(4)]] by simp
  note H = holds_new[OF A'(1) c A'(2) this b]
  show ?thesis using store_others(2)[OF S A H] others_block[OF S p] by simp
qed

lemma store_same:
  assumes S: "store_ok m B S" and R: "region_ok m' B'" "release_ok (header m) B (header m') B'"
  shows "store_ok m' B' S"
proof -
  note D = store_okD[OF S]
  obtain F where C: "chunks_ok (header m) B" using region_heap[OF D(1)] .
  have K: "owners (header m') B' = owners (header m) B" "kept (header m) (header m') (owners (header m) B)"
    using R(2) by (simp_all add: release_ok_def)
  note f = frame_ids[OF kept_frame[OF K(2)]]
  have "holds (header m') B' p bs" if "S p = Some bs" for p bs
  proof (rule holds_kept[OF C])
    show "holds (header m) B p bs" by (rule D(2)[OF that])
    then show "k_mem_to_chunkid (header m) p \<noteq> 0" by (simp add: holds_def)
    show "kept (header m) (header m') (owners (header m) B - {0})" by (rule kept_mono[OF K(2)]) blast
  qed (simp add: K(1))
  then show ?thesis using R(1) chunk0_kept[OF K(2) D(6,5)] D(3,4) K(1) f by (simp add: store_ok_def)
qed

subsection \<open>Calls\<close>

datatype heap_call =
    Malloc u32
  | Aligned_alloc u32 u32
  | Realloc "u32 option" u32
  | Free "u32 option"
  | Write u32 nat u8

text \<open>A call on the region; \<open>Write\<close> is a client that stores a byte in its block.\<close>

fun heap_exec :: "heap_call \<Rightarrow> heap_mem \<Rightarrow> (heap_mem \<times> u32 option) res" where
  "heap_exec (Malloc n) m = k_firstfit_mem_alloc n m"
| "heap_exec (Aligned_alloc a n) m = k_firstfit_mem_aligned_alloc a n m"
| "heap_exec (Realloc p n) m = k_firstfit_mem_realloc p n m"
| "heap_exec (Free p) m = bind_res (k_firstfit_mem_free p m) (\<lambda>m'. OK (m', None))"
| "heap_exec (Write p i v) m = OK (m\<lparr>header := set_heap_byte (heap_offset (header m) p + i) v (header m)\<rparr>, None)"

text \<open>
  What a client may call: sizes that do not wrap round, alignments that are powers of two, and
  only its own live blocks. A block from \<^verbatim>\<open>aligned_alloc\<close> that does not begin right behind the
  header of its chunk may not be reallocated.
\<close>

fun call_allowed :: "heap_call \<Rightarrow> heap_mem \<Rightarrow> store \<Rightarrow> bool" where
  "call_allowed (Malloc n) m S \<longleftrightarrow> unat n + 16 \<le> 2 ^ 32"
| "call_allowed (Aligned_alloc a n) m S \<longleftrightarrow> a AND (a - 1) = 0 \<and> unat n + unat a + 16 \<le> 2 ^ 32"
| "call_allowed (Realloc p n) m S \<longleftrightarrow> unat n + 16 \<le> 2 ^ 32 \<and>
     (case p of None \<Rightarrow> True
      | Some q \<Rightarrow> S q \<noteq> None \<and> k_chunk_mem (header m) (k_mem_to_chunkid (header m) q) = OK q)"
| "call_allowed (Free p) m S \<longleftrightarrow> (case p of None \<Rightarrow> True | Some q \<Rightarrow> S q \<noteq> None)"
| "call_allowed (Write p i v) m S \<longleftrightarrow> (case S p of None \<Rightarrow> False | Some bs \<Rightarrow> i < length bs)"

text \<open>The store after a call that returned \<open>r\<close>; the contents of a new block are read from the heap.\<close>

definition add_block :: "u32 option \<Rightarrow> u32 \<Rightarrow> z_heap \<Rightarrow> store \<Rightarrow> store \<Rightarrow> store" where
  "add_block r n h S0 S = (case r of None \<Rightarrow> S0 | Some p \<Rightarrow> S(p \<mapsto> read_bytes h (heap_offset h p) (unat n)))"

definition drop_block :: "u32 option \<Rightarrow> store \<Rightarrow> store" where
  "drop_block p S = (case p of None \<Rightarrow> S | Some q \<Rightarrow> S(q := None))"

fun store_after :: "heap_call \<Rightarrow> u32 option \<Rightarrow> z_heap \<Rightarrow> store \<Rightarrow> store" where
  "store_after (Malloc n) r h S = add_block r n h S S"
| "store_after (Aligned_alloc a n) r h S = add_block r n h S S"
| "store_after (Realloc p n) r h S =
     (if n = 0 then drop_block p S else add_block r n h S (drop_block p S))"
| "store_after (Free p) r h S = drop_block p S"
| "store_after (Write p i v) r h S = (case S p of None \<Rightarrow> S | Some bs \<Rightarrow> S(p \<mapsto> bs[i := v]))"

text \<open>
  What a client may rely on: a new block is not among the live ones, it is aligned, and a
  reallocated block begins with the contents of the old one. A call for no bytes returns no block.
\<close>

fun call_spec :: "heap_call \<Rightarrow> store \<Rightarrow> u32 option \<Rightarrow> store \<Rightarrow> bool" where
  "call_spec (Malloc n) S r S' \<longleftrightarrow> (case r of None \<Rightarrow> True | Some p \<Rightarrow> n \<noteq> 0 \<and> S p = None \<and> unat p mod 4 = 0)"
| "call_spec (Aligned_alloc a n) S r S' \<longleftrightarrow> (case r of None \<Rightarrow> True
     | Some p \<Rightarrow> n \<noteq> 0 \<and> S p = None \<and> unat p mod 4 = 0 \<and> (4 < a \<longrightarrow> unat p mod unat a = 0))"
| "call_spec (Realloc p n) S r S' \<longleftrightarrow> (case r of None \<Rightarrow> True
     | Some q \<Rightarrow> n \<noteq> 0 \<and> (drop_block p S) q = None \<and> unat q mod 4 = 0 \<and>
         (case p of None \<Rightarrow> True | Some p \<Rightarrow>
            let k = min (unat n) (length (the (S p))) in take k (the (S' q)) = take k (the (S p))))"
| "call_spec (Free p) S r S' \<longleftrightarrow> r = None"
| "call_spec (Write p i v) S r S' \<longleftrightarrow> r = None"

definition call_ok :: "heap_call \<Rightarrow> heap_mem \<Rightarrow> store \<Rightarrow> bool" where
  "call_ok call m S \<longleftrightarrow> (\<exists>m' r B'. heap_exec call m = OK (m', r) \<and> same_frame (header m) (header m') \<and>
     store_ok m' B' (store_after call r (header m') S) \<and> call_spec call S r (store_after call r (header m') S))"

lemma call_okI:
  "heap_exec call m = OK (m', r) \<Longrightarrow> same_frame (header m) (header m') \<Longrightarrow> store_ok m' B' (store_after call r (header m') S) \<Longrightarrow>
    call_spec call S r (store_after call r (header m') S) \<Longrightarrow> call_ok call m S"
  by (auto simp: call_ok_def)

lemma resized_frame: "resized m B m' B' c \<Longrightarrow> same_frame (header m) (header m')"
  by (auto simp: resized_def dest: kept_frame)

lemma alloc_store:
  assumes S: "store_ok m B S" and A: "alloc_ok m B (unat n) m' r" and r: "n = 0 \<Longrightarrow> r = None"
  shows "\<exists>B'. store_ok m' B' (add_block r n (header m') S S)"
    "case r of None \<Rightarrow> True | Some p \<Rightarrow> n \<noteq> 0 \<and> S p = None \<and> unat p mod 4 = 0"
    "same_frame (header m) (header m')"
proof -
  have *: "(\<exists>B'. store_ok m' B' (add_block r n (header m') S S)) \<and> same_frame (header m) (header m') \<and>
      (case r of None \<Rightarrow> True | Some p \<Rightarrow> n \<noteq> 0 \<and> S p = None \<and> unat p mod 4 = 0)"
  proof (cases r)
    case None
    then show ?thesis using store_same[OF S] A release_ok_frame by (auto simp: alloc_ok_def add_block_def)
  next
    case (Some p)
    obtain B' c where c: "acquired m B m' B' c" "block_ok (header m') c p (unat n)"
      using A Some by (auto simp: alloc_ok_def)
    have n0: "n \<noteq> 0" using r Some by auto
    then have n: "0 < unat n" by (simp add: unat_gt_0)
    have R': "region_ok m' B'" and cB: "c \<in> B'" using c(1) by (auto simp: acquired_def resized_def owners_def)
    obtain F where h: "chunks_ok (header m') B'" "placed (header m')" using region_heap[OF R'] .
    have "same_frame (header m) (header m')" using c(1) resized_frame unfolding acquired_def by blast
    then show ?thesis using store_add[OF S c n] block_address(2)[OF h(2,1) cB c(2)] n0 Some by (auto simp: add_block_def)
  qed
  then show "\<exists>B'. store_ok m' B' (add_block r n (header m') S S)"
    "case r of None \<Rightarrow> True | Some p \<Rightarrow> n \<noteq> 0 \<and> S p = None \<and> unat p mod 4 = 0" "same_frame (header m) (header m')"
    by blast+
qed

lemma malloc_call_ok:
  assumes S: "store_ok m B S" and n: "unat n + 16 \<le> 2 ^ 32"
  shows "call_ok (Malloc n) m S"
proof -
  obtain m' r where a: "k_firstfit_mem_alloc n m = OK (m', r)" "alloc_ok m B (unat n) m' r"
    using mem_alloc_ok[OF store_okD(1)[OF S] n] by blast
  have "n = 0 \<Longrightarrow> r = None" using a(1) by (auto simp: k_firstfit_mem_alloc_def)
  note A = alloc_store[OF S a(2) this]
  show ?thesis using A a(1) by (auto intro!: call_okI)
qed

lemma aligned_call_ok:
  assumes S: "store_ok m B S" and a: "a AND (a - 1) = 0" and n: "unat n + unat a + 16 \<le> 2 ^ 32"
  shows "call_ok (Aligned_alloc a n) m S"
proof -
  obtain m' r where m: "k_firstfit_mem_aligned_alloc a n m = OK (m', r)" "alloc_ok m B (unat n) m' r"
      "\<forall>p. r = Some p \<longrightarrow> 4 < a \<longrightarrow> unat p mod unat a = 0"
    using mem_aligned_alloc_ok[OF store_okD(1)[OF S] a n] by blast
  have "n = 0 \<Longrightarrow> r = None" using m(1) a by (auto simp: k_firstfit_mem_aligned_alloc_def)
  note A = alloc_store[OF S m(2) this]
  show ?thesis using A m(1,3) by (auto intro!: call_okI split: option.splits)
qed

text \<open>The chunk of a live block.\<close>

lemma live_block:
  assumes S: "store_ok m B S" and p: "S p = Some bs"
  defines "c \<equiv> k_mem_to_chunkid (header m) p"
  shows "c \<in> owners (header m) B" "c \<in> B" "k_chunk_used (header m) c" "c \<noteq> 0" "c \<noteq> hp_len (header m)"
    "block_ok (header m) c p (length bs)" "0 < length bs" "read_bytes (header m) (heap_offset (header m) p) (length bs) = bs"
    "region_ok m B"
  using store_okD(1,2)[OF S] p by (auto simp: holds_def c_def owners_def)

lemma free_call_ok:
  assumes S: "store_ok m B S" and p: "S p = Some bs"
  shows "\<exists>m' B'. k_firstfit_mem_free (Some p) m = OK m' \<and> same_frame (header m) (header m') \<and> store_ok m' B' (S(p := None))"
proof -
  note L = live_block[OF S p]
  obtain m' B' where f: "k_firstfit_mem_free (Some p) m = OK m'" "released m B m' B' (k_mem_to_chunkid (header m) p)"
    using mem_free_ok[OF L(9,1,4,5,6,7)] by blast
  have "same_frame (header m) (header m')" using f(2) resized_frame unfolding released_def by blast
  then show ?thesis using f(1) store_drop[OF S p refl f(2)] by blast
qed

lemma body_region:
  assumes R: "region_ok m B" and st: "body_step (header m) B u h'" and u: "u \<noteq> 0" "u \<noteq> hp_len (header m)"
  shows "region_ok (m\<lparr>header := h'\<rparr>) B" "owners h' B = owners (header m) B" "resized m B (m\<lparr>header := h'\<rparr>) B u"
proof -
  let ?h = "header m"
  obtain F where F: "heap_ok ?h B F {}" "chunks_ok ?h B" "tidy ?h B {}" using region_heap[OF R] .
  have s: "\<And>d. d \<in> B \<Longrightarrow> k_chunk_size h' d = k_chunk_size ?h d \<and> k_chunk_used h' d = k_chunk_used ?h d"
    and sf: "same_frame ?h h'" and k: "kept ?h h' (B - {u})" and F': "heap_ok h' B F {}"
    using st F(1) by (auto simp: body_step_def)
  show o: "owners h' B = owners ?h B" using s by (auto simp: owners_def)
  have "used_units h' B = used_units ?h B"
    unfolding used_units_def o using s by (intro sum.cong) (auto simp: owners_def)
  moreover have "tidy h' B {}" unfolding tidy_def
  proof (intro ballI impI, elim conjE)
    fix d assume d: "d \<in> B" "d \<noteq> hp_len h'"
    have "d \<noteq> hp_len ?h" using d(2) same_frameD(2)[OF sf] by simp
    then show "k_chunk_used h' d \<or> k_chunk_used h' (d + k_chunk_size h' d)"
      using tidyD[OF F(3) d(1)] s d(1) chunk_next(3)[OF F(2) d(1)] by simp
  qed
  ultimately show r: "region_ok (m\<lparr>header := h'\<rparr>) B"
    using R F' placed_frame[OF sf] same_frameD(2)[OF sf] by (auto simp: region_ok_def)
  have "kept ?h h' (owners ?h B - {u})" by (rule kept_mono[OF k]) (auto simp: owners_def)
  then show "resized m B (m\<lparr>header := h'\<rparr>) B u" using r o u by (simp add: resized_def)
qed

lemma write_call_ok:
  assumes S: "store_ok m B S" and p: "S p = Some bs" and i: "i < length bs"
  shows "call_ok (Write p i v) m S"
proof -
  let ?h = "header m" and ?a = "heap_offset (header m) p"
  note L = live_block[OF S p]
  obtain F where F: "heap_ok ?h B F {}" using region_heap[OF L(9)] .
  let ?c = "k_mem_to_chunkid ?h p" and ?h' = "set_heap_byte (?a + i) v ?h"
  have st: "body_step ?h B ?c ?h'"
    by (rule set_byte_step[OF F L(2,3)]) (use L(6) i in \<open>auto simp: block_ok_def\<close>)
  note R = body_region[OF L(9) st L(4,5)]
  have sf: "same_frame ?h ?h'" and sz: "k_chunk_size ?h' ?c = k_chunk_size ?h ?c" using st L(2) by (simp_all add: body_step_def)
  note f = frame_ids[OF sf]
  have b: "block_ok ?h' ?c p (length bs)" using L(6) sz f by (simp add: block_ok_def)
  have "read_bytes ?h' ?a (length bs) = bs[i := v]"
  proof (rule nth_equalityI)
    fix j assume j: "j < length (read_bytes ?h' ?a (length bs))"
    then have "bs ! j = heap_byte ?h (?a + j)" using arg_cong[OF L(8), of "\<lambda>xs. xs ! j"] by (simp add: read_bytes_def)
    then show "read_bytes ?h' ?a (length bs) ! j = bs[i := v] ! j"
      using j i by (auto simp: read_bytes_def byte_set_byte nth_list_update)
  qed simp
  then have "store_ok (m\<lparr>header := ?h'\<rparr>) B (S(p \<mapsto> bs[i := v]))"
    using store_change[OF S p refl R(3), of "length bs"] L(1,7) R(2) b f by simp
  then show ?thesis using p sf by (auto intro!: call_okI)
qed

text \<open>A block resized in place.\<close>

lemma read_bytes_prefix:
  assumes "read_bytes h a n = bs" "k \<le> n" "k \<le> n'" "\<And>i. i < k \<Longrightarrow> heap_byte h' (b + i) = heap_byte h (a + i)"
  shows "take k (read_bytes h' b n') = take k bs"
  using assms by (auto simp: read_bytes_def take_map intro!: nth_equalityI)

lemma resize_in_place:
  assumes S: "store_ok m B S" and p: "S p = Some bs" and n: "0 < n" "unat n + 16 \<le> 2 ^ 32"
    and pl: "k_chunk_mem (header m) (k_mem_to_chunkid (header m) p) = OK p"
    and A: "resized m B m' B' (k_mem_to_chunkid (header m) p)" "k_mem_to_chunkid (header m) p \<in> owners (header m') B'"
    and sz: "k_bytes_to_chunksz (header m) n \<le> k_chunk_size (header m') (k_mem_to_chunkid (header m) p)"
    and same: "\<And>i. i < length bs \<Longrightarrow> i < unat n \<Longrightarrow>
      cells (header m') ((heap_offset (header m) p + i) div cell_bytes (header m)) =
        cells (header m) ((heap_offset (header m) p + i) div cell_bytes (header m))"
  shows "\<exists>B'. store_ok m' B' (add_block (Some p) n (header m') S (drop_block (Some p) S))"
    "call_spec (Realloc (Some p) n) S (Some p) (add_block (Some p) n (header m') S (drop_block (Some p) S))"
proof -
  let ?h = "header m" and ?h' = "header m'"
  define c where "c = k_mem_to_chunkid ?h p"
  note L = live_block[OF S p, folded c_def]
  obtain F where F: "chunks_ok ?h B" "placed ?h" using region_heap[OF L(9)] .
  have R': "region_ok m' B'" and k: "kept ?h ?h' (owners ?h B - {c})" using A(1) unfolding resized_def c_def by blast+
  note f = frame_ids[OF kept_frame[OF k]]
  have len: "c < hp_len ?h" using chunks_okD(4)[OF F(1) L(2)] L(5) by simp
  have off: "heap_offset ?h p = 8 * unat c + header_bytes ?h"
    using pl[folded c_def] k_chunk_mem_ok[OF F(2) len] block_at_chunk[OF F(2) len] by simp
  note Z = bytes_to_chunksz[OF n, of ?h]
  have "unat (k_bytes_to_chunksz ?h n) \<le> unat (k_chunk_size ?h' c)" using sz by (simp add: word_le_nat_alt c_def)
  then have b: "block_ok ?h' c p (unat n)" using off Z(2) f by (simp add: block_ok_def)
  have n0: "0 < unat n" using n(1) by (simp add: word_less_nat_alt)
  have "store_ok m' B' (S(p \<mapsto> read_bytes ?h' (heap_offset ?h' p) (unat n)))"
    using store_change[OF S p refl A b[unfolded c_def] n0] .
  then show "\<exists>B'. store_ok m' B' (add_block (Some p) n ?h' S (drop_block (Some p) S))"
    by (auto simp: add_block_def drop_block_def)
  have "unat p mod 4 = 0" using block_address(2)[OF F(2,1) L(2,6)] .
  moreover have "take (min (unat n) (length bs)) (read_bytes ?h' (heap_offset ?h' p) (unat n)) = take (min (unat n) (length bs)) bs"
    using same heap_byte_cong[OF kept_frame[OF k]] f(2) by (intro read_bytes_prefix[OF L(8)]) auto
  ultimately show "call_spec (Realloc (Some p) n) S (Some p) (add_block (Some p) n ?h' S (drop_block (Some p) S))"
    using n(1) p by (simp add: add_block_def drop_block_def Let_def word_gt_0)
qed

lemma resized_refl: "region_ok m B \<Longrightarrow> c \<noteq> 0 \<Longrightarrow> c \<noteq> hp_len (header m) \<Longrightarrow> resized m B m B c"
  by (simp add: resized_def)

text \<open>A block that moves: allocate, copy the old body, release.\<close>

lemma realloc_move_ok:
  assumes S: "store_ok m B S" and p: "S p = Some bs" and n: "0 < n" "unat n + 16 \<le> 2 ^ 32"
    and pl: "k_chunk_mem (header m) (k_mem_to_chunkid (header m) p) = OK p"
    and gt: "k_chunk_size (header m) (k_mem_to_chunkid (header m) p) < k_bytes_to_chunksz (header m) n"
  shows "\<exists>m' r B'. realloc_move p (k_chunk_size (header m) (k_mem_to_chunkid (header m) p)) n m = OK (m', r) \<and>
    same_frame (header m) (header m') \<and>
    store_ok m' B' (add_block r n (header m') S (drop_block (Some p) S)) \<and>
    call_spec (Realloc (Some p) n) S r (add_block r n (header m') S (drop_block (Some p) S))"
proof -
  let ?h = "header m"
  define c where "c = k_mem_to_chunkid ?h p"
  define s where "s = k_chunk_size ?h c"
  note L = live_block[OF S p, folded c_def]
  obtain F where F: "chunks_ok ?h B" "placed ?h" using region_heap[OF L(9)] .
  have len: "c < hp_len ?h" using chunks_okD(4)[OF F(1) L(2)] L(5) by simp
  have off: "heap_offset ?h p = 8 * unat c + header_bytes ?h"
    using pl[folded c_def] k_chunk_mem_ok[OF F(2) len] block_at_chunk[OF F(2) len] by simp
  obtain m1 r where a: "k_firstfit_mem_alloc n m = OK (m1, r)" "alloc_ok m B (unat n) m1 r"
    using mem_alloc_ok[OF L(9) n(2)] by blast
  have n0: "0 < unat n" "n \<noteq> 0" using n(1) by (auto simp: word_less_nat_alt)
  show ?thesis
  proof (cases r)
    case None
    then have "store_ok m1 B S" "same_frame ?h (header m1)"
      using store_same[OF S] a(2) release_ok_frame by (auto simp: alloc_ok_def)
    then show ?thesis using a(1) None by (auto simp: realloc_move_def add_block_def)
  next
    case (Some q)
    obtain B1 c1 where c1: "acquired m B m1 B1 c1" "block_ok (header m1) c1 q (unat n)"
      using a(2) Some by (auto simp: alloc_ok_def)
    let ?h1 = "header m1"
    note S1 = store_add[OF S c1 n0(1)]
    let ?S1 = "S(q \<mapsto> read_bytes ?h1 (heap_offset ?h1 q) (unat n))"
    have pq: "p \<noteq> q" using p S1(2) by auto
    have p1: "?S1 p = Some bs" using p pq by simp
    note L1 = live_block[OF S1(1) p1]
    have "region_ok m1 B1" by (rule L1(9))
    then obtain F1 where F1: "heap_ok ?h1 B1 F1 {}" "chunks_ok ?h1 B1" "placed ?h1" using region_heap by blast
    have A: "kept ?h ?h1 (owners ?h B - {c1})" "c1 \<in> owners ?h1 B1" "c1 \<noteq> 0" "c1 \<noteq> hp_len ?h" "c1 \<notin> owners ?h B"
      using c1(1) unfolding acquired_def resized_def by blast+
    note f1 = frame_ids[OF kept_frame[OF A(1)]]
    have id1: "k_mem_to_chunkid ?h1 p = c" "k_mem_to_chunkid ?h1 q = c1"
      using f1(1) block_checks(1)[OF L1(9) A(2) _ c1(2) n0(1)] A(4) f1(4) by (simp_all add: c_def)
    have cc: "c \<noteq> c1" using A(5) L(1) by auto
    have sz1: "k_chunk_size ?h1 c = s" using A(1) L(1) cc by (simp add: kept_def s_def)
    define k where "k = unat (k_chunksz_to_bytes ?h1 s)"
    have s0: "0 < s" unfolding s_def by (rule chunks_okD(8)[OF F(1) L(2,5)])
    have se: "unat c + unat s \<le> unat (hp_len ?h)" unfolding s_def by (rule chunk_end(2)[OF F(1) L(2)])
    have hs: "header_bytes ?h + length bs \<le> 8 * unat s" using L(6) off by (simp add: block_ok_def s_def)
    have k: "k = 8 * unat s - header_bytes ?h"
    proof -
      have "unat (s * 8) = 8 * unat s" using se F(2) by (simp add: placed_def unat_word_ariths)
      moreover have "k_chunk_header_bytes ?h1 = k_chunk_header_bytes ?h" using same_frameD(6)[OF kept_frame[OF A(1)]] .
      ultimately show ?thesis
        unfolding k_def k_chunksz_to_bytes_def CHUNK_UNIT_def using hs by (subst unat_sub) (simp_all add: word_le_nat_alt)
    qed
    have kn: "k \<le> unat n"
    proof -
      have "unat s < (header_bytes ?h + unat n + 7) div 8"
        using gt bytes_to_chunksz(1)[OF n, of ?h] by (simp add: word_less_nat_alt s_def c_def)
      then show ?thesis unfolding k by linarith
    qed
    have lk: "length bs \<le> k" using hs k by simp
    let ?old = "read_bytes ?h1 (heap_offset ?h1 p) k"
    define h2 where "h2 = write_bytes (heap_offset ?h1 q) ?old ?h1"
    have c1B: "c1 \<in> B1" "k_chunk_used ?h1 c1" "c1 \<noteq> hp_len ?h1" using A f1 by (simp_all add: owners_def)
    have W: "body_step ?h1 B1 c1 h2" "\<And>b. heap_byte h2 b =
        (if heap_offset ?h1 q \<le> b \<and> b < heap_offset ?h1 q + k then ?old ! (b - heap_offset ?h1 q) else heap_byte ?h1 b)"
      using write_bytes_step[OF F1(1) c1B(1,2), of "heap_offset ?h1 q" ?old] c1(2) kn
      by (auto simp: block_ok_def h2_def)
    note R2 = body_region[OF L1(9) W(1) A(3) c1B(3)]
    let ?m2 = "m1\<lparr>header := h2\<rparr>"
    have sf2: "same_frame ?h1 h2" "k_chunk_size h2 c1 = k_chunk_size ?h1 c1" using W(1) c1B(1) by (simp_all add: body_step_def)
    note f2 = frame_ids[OF sf2(1)]
    have b2: "block_ok (header ?m2) c1 q (unat n)" using c1(2) sf2(2) f2 by (simp add: block_ok_def)
    have q1: "?S1 q = Some (read_bytes ?h1 (heap_offset ?h1 q) (unat n))" by simp
    let ?S2 = "?S1(q \<mapsto> read_bytes h2 (heap_offset h2 q) (unat n))"
    have S2: "store_ok ?m2 B1 ?S2"
    proof -
      have "c1 \<in> owners (header ?m2) B1" using A(2) R2(2) by simp
      from store_change[OF S1(1) q1 id1(2) R2(3) this b2 n0(1)]
      moreover have "header ?m2 = h2" by simp
      ultimately show ?thesis by (simp only:)
    qed
    have p2: "?S2 p = Some bs" using p1 pq by simp
    obtain m3 B3 where m3: "k_firstfit_mem_free (Some p) ?m2 = OK m3" "store_ok m3 B3 (?S2(p := None))"
        "same_frame (header ?m2) (header m3)"
      using free_call_ok[OF S2 p2] by blast
    let ?S3 = "?S2(p := None)"
    have q3: "?S3 q = Some (read_bytes h2 (heap_offset h2 q) (unat n))" using pq by simp
    have "read_bytes (header m3) (heap_offset (header m3) q) (unat n) = read_bytes h2 (heap_offset h2 q) (unat n)"
      using live_block(8)[OF m3(2) q3] by simp
    then have S3: "?S3 = add_block (Some q) n (header m3) S (drop_block (Some p) S)"
      using pq by (auto simp: add_block_def drop_block_def fun_eq_iff)
    have "take k' (read_bytes h2 (heap_offset h2 q) (unat n)) = take k' bs" if "k' \<le> unat n" "k' \<le> length bs" for k'
    proof (rule read_bytes_prefix[OF L1(8) that(2,1)])
      fix i assume "i < k'"
      then have i: "i < k" using that lk by simp
      then show "heap_byte h2 (heap_offset h2 q + i) = heap_byte ?h1 (heap_offset ?h1 p + i)"
        by (simp add: W(2) f2 read_bytes_def)
    qed
    moreover have "unat q mod 4 = 0" using block_address(2)[OF F1(3,2) c1B(1) c1(2)] .
    moreover have "realloc_move p s n m = OK (m3, Some q)"
      using a(1) Some m3(1) by (simp add: realloc_move_def Let_def k_def h2_def)
    moreover have "same_frame ?h (header m3)"
      using same_frame_trans[OF kept_frame[OF A(1)] same_frame_trans[OF sf2(1)]] m3(3) by simp
    ultimately have "realloc_move p s n m = OK (m3, Some q) \<and> same_frame ?h (header m3) \<and> store_ok m3 B3 (add_block (Some q) n (header m3) S (drop_block (Some p) S)) \<and>
        call_spec (Realloc (Some p) n) S (Some q) (add_block (Some q) n (header m3) S (drop_block (Some p) S))"
      using m3(2) S3[symmetric] n0(2) p S1(2) pq by (simp add: drop_block_def Let_def)
    then show ?thesis unfolding s_def c_def by blast
  qed
qed

lemma kept_cells:
  assumes S: "store_ok m B S" and p: "S p = Some bs" and i: "i < length bs"
  shows "in_body (header m) (k_mem_to_chunkid (header m) p) ((heap_offset (header m) p + i) div cell_bytes (header m))"
proof -
  note L = live_block[OF S p]
  obtain F where "chunks_ok (header m) B" using region_heap[OF L(9)] .
  then show ?thesis using block_bytes_in_body L(2,6) i by blast
qed

lemma realloc_call_ok:
  assumes S: "store_ok m B S" and p: "S p = Some bs" and n: "unat n + 16 \<le> 2 ^ 32"
    and pl: "k_chunk_mem (header m) (k_mem_to_chunkid (header m) p) = OK p"
  shows "call_ok (Realloc (Some p) n) m S"
proof (cases "n = 0")
  case True
  then show ?thesis using free_call_ok[OF S p] by (auto simp: call_ok_def k_firstfit_mem_realloc_def drop_block_def)
next
  case False
  then have n0: "0 < n" by (simp add: word_gt_0)
  let ?h = "header m"
  define c where "c = k_mem_to_chunkid ?h p"
  define s where "s = k_bytes_to_chunksz ?h n"
  note L = live_block[OF S p, folded c_def]
  note K = block_checks[OF L(9,1,5,6,7)]
  obtain F where F: "chunks_ok ?h B" "placed ?h" using region_heap[OF L(9)] .
  have s0: "0 < s" and Z: "header_bytes ?h + unat n \<le> 8 * unat s" using bytes_to_chunksz[OF n0 n, of ?h] by (simp_all add: s_def)
  have c0: "0 < k_chunk_size ?h c" by (rule chunks_okD(8)[OF F(1) L(2,5)])
  have len: "c < hp_len ?h" using chunks_okD(4)[OF F(1) L(2)] L(5) by simp
  have pe: "hp_addr ?h + c * 8 + k_chunk_header_bytes ?h = p"
    using pl[folded c_def] k_chunk_mem_ok[OF F(2) len] by simp
  have off: "heap_offset ?h p = 8 * unat c + header_bytes ?h" using block_at_chunk[OF F(2) len] pe by simp
  have op: "heap_exec (Realloc (Some p) n) m =
      (if s < k_chunk_size ?h c then realloc_shrink c s m
       else if k_chunk_size ?h c < s then
         if \<not> k_chunk_used ?h (k_right_chunk ?h c) \<and> s \<le> k_chunk_size ?h c + k_chunk_size ?h (k_right_chunk ?h c)
         then realloc_grow c s m else realloc_move p (k_chunk_size ?h c) n m
       else OK (m, Some p))"
    using False K c0 by (simp add: k_firstfit_mem_realloc_def Let_def s_def)
  have fin: "call_ok (Realloc (Some p) n) m S" if "heap_exec (Realloc (Some p) n) m = OK (m', Some p)"
    "resized m B m' B' c" "c \<in> owners (header m') B'" "s \<le> k_chunk_size (header m') c"
    "\<And>i. i < length bs \<Longrightarrow> i < unat n \<Longrightarrow> cells (header m') ((heap_offset ?h p + i) div cell_bytes ?h) =
        cells ?h ((heap_offset ?h p + i) div cell_bytes ?h)" for m' B'
    using resize_in_place[OF S p n0 n pl that(2,3)[unfolded c_def] that(4)[unfolded s_def c_def] that(5)]
      resized_frame[OF that(2)] that(1) False
    by (auto intro: call_okI)
  consider "s < k_chunk_size ?h c"
    | "k_chunk_size ?h c < s" "\<not> k_chunk_used ?h (k_right_chunk ?h c)" "s \<le> k_chunk_size ?h c + k_chunk_size ?h (k_right_chunk ?h c)"
    | "k_chunk_size ?h c < s" "\<not> (\<not> k_chunk_used ?h (k_right_chunk ?h c) \<and> s \<le> k_chunk_size ?h c + k_chunk_size ?h (k_right_chunk ?h c))"
    | "s = k_chunk_size ?h c"
    by fastforce
  then show ?thesis
  proof cases
    case 1
    obtain m' B' where m': "realloc_shrink c s m = OK (m', Some p)" "resized m B m' B' c" "c \<in> owners (header m') B'"
        "k_chunk_size (header m') c = s" "\<forall>j. in_body (header m') c j \<longrightarrow> cells (header m') j = cells ?h j"
      using realloc_shrink_ok[OF L(9,1,4,5) s0 1] pe by auto
    have R': "region_ok m' B'" and k: "kept ?h (header m') (owners ?h B - {c})" using m'(2) unfolding resized_def by blast+
    obtain F' where C': "chunks_ok (header m') B'" using region_heap[OF R'] .
    have c': "c \<in> B'" using m'(3) by (simp add: owners_def)
    note f = frame_ids[OF kept_frame[OF k]]
    show ?thesis
    proof (rule fin[OF _ m'(2,3)])
      fix i assume "i < unat n"
      then have "in_body (header m') c ((heap_offset ?h p + i) div cell_bytes (header m'))"
        unfolding byte_in_body[OF C' c'] m'(4) f(3) using off Z by simp
      then show "cells (header m') ((heap_offset ?h p + i) div cell_bytes ?h) = cells ?h ((heap_offset ?h p + i) div cell_bytes ?h)"
        using m'(5) cell_bytes_frame[OF kept_frame[OF k]] by simp
    qed (use m'(1,4) 1 op in simp_all)
  next
    case 2
    obtain m' B' where m': "realloc_grow c s m = OK (m', Some p)" "resized m B m' B' c" "c \<in> owners (header m') B'"
        "k_chunk_size (header m') c = s" "\<forall>j. in_body ?h c j \<longrightarrow> cells (header m') j = cells ?h j"
      using realloc_grow_ok[OF L(9,1,4,5) 2(1,3,2)] pe by auto
    show ?thesis
      by (rule fin[OF _ m'(2,3)])
        (use m'(1,4,5) 2 less_imp_not_less[OF 2(1)] op kept_cells[OF S p, folded c_def] in simp_all)
  next
    case 3
    show ?thesis
      using realloc_move_ok[OF S p n0 n pl] 3 op[unfolded c_def s_def] False
      unfolding c_def s_def by (auto intro!: call_okI)
  next
    case 4
    show ?thesis by (rule fin[OF _ resized_refl[OF L(9,4,5)] L(1)]) (use 4 op in simp_all)
  qed
qed

theorem heap_call_ok:
  assumes "store_ok m B S" "call_allowed call m S"
  shows "call_ok call m S"
proof (cases call)
  case (Malloc n)
  then show ?thesis using malloc_call_ok[OF assms(1)] assms(2) by simp
next
  case (Aligned_alloc a n)
  then show ?thesis using aligned_call_ok[OF assms(1)] assms(2) by simp
next
  case (Realloc p n)
  show ?thesis
  proof (cases p)
    case None
    obtain m' r B' where a: "k_firstfit_mem_alloc n m = OK (m', r)" "same_frame (header m) (header m')" "store_ok m' B' (add_block r n (header m') S S)"
        "call_spec (Malloc n) S r (add_block r n (header m') S S)"
      using malloc_call_ok[OF assms(1), of n] assms(2) Realloc by (auto simp: call_ok_def)
    have r: "n = 0 \<Longrightarrow> r = None \<and> m' = m" using a(1) by (simp add: k_firstfit_mem_alloc_def)
    have d: "drop_block None S = S" by (simp add: drop_block_def)
    have "store_after (Realloc None n) r (header m') S = add_block r n (header m') S S"
      using r by (auto simp: d add_block_def)
    then show ?thesis unfolding Realloc None using a
      by (intro call_okI[of _ _ m' r B']) (auto simp: k_firstfit_mem_realloc_def d split: option.splits)
  next
    case (Some q)
    then show ?thesis using realloc_call_ok[OF assms(1), of q] assms(2) Realloc by auto
  qed
next
  case (Free p)
  show ?thesis
  proof (cases p)
    case None
    then show ?thesis using assms(1) Free by (auto simp: k_firstfit_mem_free_def drop_block_def intro!: call_okI)
  next
    case (Some q)
    then obtain bs where q: "S q = Some bs" using assms(2) Free by auto
    show ?thesis using free_call_ok[OF assms(1) q] Some Free by (auto simp: drop_block_def intro!: call_okI)
  qed
next
  case (Write p i v)
  then show ?thesis using write_call_ok[OF assms(1), of p] assms(2) by (auto split: option.splits)
qed

end
