(* ===== verification/Firstfit_Run.thy ===== *)
theory Firstfit_Run
  imports Firstfit_Store
begin

unbundle bit_operations_syntax

text \<open>
  Runs of the first-fit heap from its initialisation on: every allowed call succeeds and does to
  the store of the live blocks what a client expects, live blocks do not overlap, the check of
  the heap passes at every moment, and once every block is released the heap is one free chunk
  again. The last section holds the calls for which the code falls short of its own contract.
\<close>

subsection \<open>Initialisation\<close>

lemma ROUND_UP_8:
  assumes "unat x + 8 \<le> 2 ^ 32"
  shows "unat x \<le> unat (ROUND_UP x 8)" "unat (ROUND_UP x 8) < unat x + 8" "unat (ROUND_UP x 8) mod 8 = 0"
  using ROUND_UP_power[of 3 x] assms by simp_all

lemma ROUND_DOWN_8: "unat (ROUND_DOWN x 8) = unat x div 8 * 8"
  using unat_round_down[of x 3] by (simp add: ROUND_DOWN_def mask_eq_exp_minus_1)

text \<open>The three chunks of a new heap: the one of the heap itself, the free one, the end.\<close>

lemma init_chunks:
  assumes "heap_len_ok h" and c: "0 < c" "c < hp_len h" and b: "length (buckets h) = k_bucket_idx h (hp_len h) + 1"
    "\<forall>i < length (buckets h). buckets h ! i = 0" "avail_buckets h = 0"
    and s: "k_chunk_size h 0 = c" "k_chunk_used h 0" "k_chunk_size h c = hp_len h - c" "left_size h c = c"
      "\<not> k_chunk_used h c" "k_chunk_size h (hp_len h) = 0" "k_chunk_used h (hp_len h)" "left_size h (hp_len h) = hp_len h - c"
  shows "heap_ok h {0, c, hp_len h} (\<lambda>_. []) {c}" "tidy h {0, c, hp_len h} {}"
    "owners h {0, c, hp_len h} = {0, hp_len h}"
proof -
  have d: "0 < hp_len h - c" "hp_len h - c \<le> hp_len h - c" "c \<le> hp_len h" "0 < hp_len h"
    using c by (auto simp: word_gt_0)
  have "chunks_ok h {0, c, hp_len h}" unfolding chunks_ok_def using assms d c by auto
  moreover have "frees_ok h {0, c, hp_len h} (\<lambda>_. []) {c}" unfolding frees_ok_def using b s by auto
  ultimately show "heap_ok h {0, c, hp_len h} (\<lambda>_. []) {c}" by (simp add: heap_ok_def)
  show "tidy h {0, c, hp_len h} {}" using s c by (auto simp: tidy_def)
  show "owners h {0, c, hp_len h} = {0, hp_len h}" using s by (auto simp: owners_def)
qed

lemma mark_fields:
  "k_chunk_size (k_set_chunk_used c u h) d = k_chunk_size h d"
  "k_chunk_used (k_set_chunk_used c u h) d \<longleftrightarrow> (if d = c then u else k_chunk_used h d)"
  "left_size (k_set_chunk_used c u h) d = left_size h d"
  "same_frame h (k_set_chunk_used c u h)" "heap_len_ok (k_set_chunk_used c u h) = heap_len_ok h"
  "buckets (k_set_chunk_used c u h) = buckets h" "avail_buckets (k_set_chunk_used c u h) = avail_buckets h"
  "hp_len (k_set_chunk_used c u h) = hp_len h" "hp_addr (k_set_chunk_used c u h) = hp_addr h"
proof -
  let ?w = "k_chunk_field h c SIZE_AND_USED"
  let ?v = "if u then ?w OR 1 else ?w AND NOT 1"
  have sf: "SIZE_AND_USED < 2" by (simp add: field_defs)
  have e: "k_set_chunk_used c u h = put c SIZE_AND_USED ?v h" by (simp add: k_set_chunk_used_put)
  have v: "drop_bit 1 ?v = drop_bit 1 ?w" "bit ?v 0 = u"
    using size_field_values(3-6)[of ?w] by (cases u; simp only: if_True if_False)+
  show "k_chunk_size (k_set_chunk_used c u h) d = k_chunk_size h d"
    unfolding e size_put[OF sf] v(1) by (simp add: k_chunk_size_def)
  show "k_chunk_used (k_set_chunk_used c u h) d \<longleftrightarrow> (if d = c then u else k_chunk_used h d)"
    unfolding e used_put[OF sf] v(2) by auto
  show "left_size (k_set_chunk_used c u h) d = left_size h d" unfolding e left_put[OF sf] by (simp add: field_defs)
  show "same_frame h (k_set_chunk_used c u h)" "heap_len_ok (k_set_chunk_used c u h) = heap_len_ok h"
    "buckets (k_set_chunk_used c u h) = buckets h" "avail_buckets (k_set_chunk_used c u h) = avail_buckets h"
    "hp_len (k_set_chunk_used c u h) = hp_len h" "hp_addr (k_set_chunk_used c u h) = hp_addr h"
    by (simp_all add: e same_frame_def heap_len_ok_def)
qed

text \<open>Writing the headers of the three chunks.\<close>

lemma init_headers:
  assumes L: "heap_len_ok h" and c: "0 < c" "c < hp_len h"
  shows "\<exists>h1 h2 h3 h4 h5. k_set_chunk_size 0 c h = OK h1 \<and>
    k_set_chunk_size c (hp_len h - c) (k_set_chunk_used 0 True h1) = OK h2 \<and>
    k_set_left_chunk_size c c h2 = OK h3 \<and> k_set_chunk_size (hp_len h) 0 h3 = OK h4 \<and>
    k_set_left_chunk_size (hp_len h) (hp_len h - c) h4 = OK h5 \<and>
    (let h6 = k_set_chunk_used (hp_len h) True h5 in same_frame h h6 \<and> buckets h6 = buckets h \<and>
      avail_buckets h6 = avail_buckets h \<and>
      k_chunk_size h6 0 = c \<and> k_chunk_used h6 0 \<and> k_chunk_size h6 c = hp_len h - c \<and> left_size h6 c = c \<and>
      \<not> k_chunk_used h6 c \<and> k_chunk_size h6 (hp_len h) = 0 \<and> k_chunk_used h6 (hp_len h) \<and>
      left_size h6 (hp_len h) = hp_len h - c)"
proof -
  let ?n = "hp_len h"
  let ?h1 = "put 0 SIZE_AND_USED (push_bit 1 c) h"
  let ?h1' = "k_set_chunk_used 0 True ?h1"
  let ?h2 = "put c SIZE_AND_USED (push_bit 1 (?n - c)) ?h1'"
  let ?h3 = "put c LEFT_SIZE c ?h2"
  let ?h4 = "put ?n SIZE_AND_USED (push_bit 1 0) ?h3"
  let ?h5 = "put ?n LEFT_SIZE (?n - c) ?h4"
  have sf: "SIZE_AND_USED < 2" "LEFT_SIZE < 2" "SIZE_AND_USED \<noteq> LEFT_SIZE" by (simp_all add: field_defs)
  have d: "c \<le> ?n" "?n - c \<le> ?n" "0 \<noteq> c" "c \<noteq> ?n" "0 \<noteq> ?n"
    using c by (auto simp: word_sub_le)
  have b: "drop_bit 1 (push_bit 1 v) = v" if "v \<le> ?n" for v :: u32
    using that L by (intro drop_push_1) (auto simp: heap_len_ok_def word_le_nat_alt)
  have L1: "heap_len_ok (put d f v h') = heap_len_ok h'" for d f v h' by (simp add: heap_len_ok_def)
  have 1: "k_set_chunk_size 0 c h = OK ?h1" by (rule k_set_chunk_size_ok[OF L]) (use d in simp_all)
  have 2: "k_set_chunk_size c (?n - c) ?h1' = OK ?h2"
    by (rule k_set_chunk_size_ok) (use L d in \<open>simp_all add: L1 mark_fields\<close>)
  have 3: "k_set_left_chunk_size c c ?h2 = OK ?h3"
    unfolding k_set_left_chunk_size_def by (rule k_chunk_set_ok) (use L d in \<open>simp_all add: L1 mark_fields\<close>)
  have 4: "k_set_chunk_size ?n 0 ?h3 = OK ?h4"
    by (rule k_set_chunk_size_ok) (use L d in \<open>simp_all add: L1 mark_fields\<close>)
  have 5: "k_set_left_chunk_size ?n (?n - c) ?h4 = OK ?h5"
    unfolding k_set_left_chunk_size_def by (rule k_chunk_set_ok) (use L d in \<open>simp_all add: L1 mark_fields\<close>)
  note F = size_put[OF sf(1)] size_put[OF sf(2)] used_put[OF sf(1)] used_put[OF sf(2)] left_put[OF sf(1)] left_put[OF sf(2)] mark_fields(1-3)
  let ?h6 = "k_set_chunk_used ?n True ?h5"
  have z: "(push_bit 1 0 :: u32) = 0" by simp
  have nb: "\<not> bit (push_bit 1 v) 0" for v :: u32 by (rule size_field_values(2))
  have "same_frame h ?h6" "buckets ?h6 = buckets h" "avail_buckets ?h6 = avail_buckets h"
    by (simp_all add: mark_fields same_frame_def)
  moreover have "k_chunk_size ?h6 0 = c" "k_chunk_used ?h6 0"
    unfolding F using sf d b[OF d(1)] by simp_all
  moreover have "k_chunk_size ?h6 c = ?n - c" "left_size ?h6 c = c"
    unfolding F using sf d b[OF d(2)] by simp_all
  moreover have "\<not> k_chunk_used ?h6 c" unfolding F using sf d nb[of "?n - c"] by simp
  moreover have "k_chunk_size ?h6 ?n = 0" "k_chunk_used ?h6 ?n" "left_size ?h6 ?n = ?n - c"
    unfolding F using sf d by simp_all
  ultimately show ?thesis using 1 2 3 4 5 unfolding Let_def
    by (intro exI[of _ ?h1] exI[of _ ?h2] exI[of _ ?h3] exI[of _ ?h4] exI[of _ ?h5] conjI)
qed

text \<open>The size of the chunk of the heap itself, with its buckets.\<close>

lemma init_sizes:
  assumes r: "unat mem + unat bytes \<le> 2 ^ 32" "256 \<le> unat bytes"
  defines "b \<equiv> bytes - k_heap_footer_bytes bytes"
  defines "addr \<equiv> ROUND_UP mem CHUNK_UNIT" and "fin \<equiv> ROUND_DOWN (mem + b) CHUNK_UNIT"
  defines "n \<equiv> (fin - addr) div CHUNK_UNIT"
  shows "k_heap_footer_bytes bytes < bytes" "addr < fin" "unat addr mod 8 = 0" "29 \<le> unat n" "unat n < 2 ^ 29"
    "unat addr + 8 * unat n + 8 \<le> 2 ^ 32" "unat mem \<le> unat addr" "unat addr + 8 * unat n \<le> unat mem + unat bytes"
proof -
  have f: "unat (k_heap_footer_bytes bytes) = 4 \<or> unat (k_heap_footer_bytes bytes) = 8"
    by (simp add: k_heap_footer_bytes_def)
  show 1: "k_heap_footer_bytes bytes < bytes" using f r(2) by (auto simp: word_less_nat_alt)
  have b: "unat b = unat bytes - unat (k_heap_footer_bytes bytes)"
    unfolding b_def using 1 by (intro unat_sub) simp
  have mb: "unat (mem + b) = unat mem + unat b"
    using r b f by (subst unat_add_lem[THEN iffD1]) auto
  have A: "unat mem \<le> unat addr" "unat addr < unat mem + 8" "unat addr mod 8 = 0"
    using ROUND_UP_8[of mem] r by (simp_all add: addr_def CHUNK_UNIT_def)
  then show "unat addr mod 8 = 0" "unat mem \<le> unat addr" by simp_all
  define E where "E = unat fin"
  have E: "E = (unat mem + unat b) div 8 * 8" by (simp add: E_def fin_def CHUNK_UNIT_def ROUND_DOWN_8 mb)
  have E1: "E \<le> unat mem + unat b" "unat mem + unat b < E + 8" "E mod 8 = 0" unfolding E by simp_all
  have lt: "unat addr + 8 * 29 \<le> E" using A E1 b f r(2) by linarith
  then show "addr < fin" by (simp add: word_less_nat_alt E_def)
  then have "unat (fin - addr) = E - unat addr" by (simp add: unat_sub E_def)
  then have n: "unat n = (E - unat addr) div 8" by (simp add: n_def CHUNK_UNIT_def unat_div)
  have "8 dvd E - unat addr" using A(3) E1(3) by (intro dvd_diff_nat) (simp_all add: dvd_eq_mod_eq_0)
  then have n8: "8 * unat n = E - unat addr" unfolding n by (rule dvd_mult_div_cancel)
  show "29 \<le> unat n" using n8 lt by linarith
  have "E < 2 ^ 32" using unat_u32[of fin] by (simp add: E_def)
  then have "E div 8 < 2 ^ 32 div 8" by (intro div_less_mono) (simp_all add: E1(3))
  then have E8: "E + 8 \<le> 2 ^ 32" using mult_div_mod_eq[of 8 E] E1(3) by simp
  show "unat addr + 8 * unat n + 8 \<le> 2 ^ 32" using E8 n8 lt by linarith
  then show "unat n < 2 ^ 29" by simp
  show "unat addr + 8 * unat n \<le> unat mem + unat bytes" using n8 lt E1(1) b f by linarith
qed

lemma chunk0_size:
  assumes n: "k_min_chunk_size h \<le> n"
  defines "c \<equiv> k_chunksz (sizeof_z_heap + of_nat (k_bucket_idx h n + 1) * 4)"
  shows "0 < c" "unat c \<le> 19"
proof -
  let ?i = "k_bucket_idx h n + 1"
  have i: "?i \<le> 32" using k_bucket_idx_log(3)[OF n] by simp
  have "unat (of_nat ?i * 4 :: u32) = ?i * 4" using i by (simp add: unat_word_ariths unat_of_nat)
  then have u: "unat (sizeof_z_heap + of_nat ?i * 4) = 24 + ?i * 4"
    using i by (subst unat_add_lem[THEN iffD1]) (simp_all add: sizeof_z_heap_def)
  have "unat (sizeof_z_heap + of_nat ?i * 4 + 7) = 31 + ?i * 4"
    using i u by (subst unat_add_lem[THEN iffD1]) simp_all
  moreover have "c = (sizeof_z_heap + of_nat ?i * 4 + 7) div 8" by (simp add: c_def k_chunksz_def CHUNK_UNIT_def add.commute)
  ultimately have c: "unat c = (31 + ?i * 4) div 8" by (simp only: unat_div) simp
  show "0 < c" "unat c \<le> 19" using i unfolding word_less_nat_alt c by simp_all
qed

theorem init_ok:
  assumes r: "unat mem + unat bytes \<le> 2 ^ 32" "256 \<le> unat bytes"
  shows "\<exists>m B. k_firstfit_mem_init mem bytes memory = OK m \<and> store_ok m B Map.empty \<and>
    unat mem \<le> unat (hp_addr (header m)) \<and>
    unat (hp_addr (header m)) + 8 * unat (hp_len (header m)) \<le> unat mem + unat bytes"
proof -
  define b where "b = bytes - k_heap_footer_bytes bytes"
  define addr where "addr = ROUND_UP mem CHUNK_UNIT"
  define fin where "fin = ROUND_DOWN (mem + b) CHUNK_UNIT"
  define n where "n = (fin - addr) div CHUNK_UNIT"
  note I = init_sizes[OF r, folded b_def, folded addr_def fin_def, folded n_def]
  define h0 where "h0 = \<lparr>hp_addr = addr, hp_len = n, avail_buckets = 0, buckets = [],
    cells = (\<lambda>i. if i < (if k_big_heap_chunks n then 2 else 4) then 0 else memory i)\<rparr>"
  define nb where "nb = k_bucket_idx h0 n + 1"
  define c where "c = k_chunksz (sizeof_z_heap + of_nat nb * 4)"
  define h where "h = h0\<lparr>buckets := replicate nb 0\<rparr>"
  have mn: "k_min_chunk_size h0 \<le> n" "unat (k_min_chunk_size h0) \<le> 2"
    using I(4) by (simp_all add: k_min_chunk_size_eq word_le_nat_alt)
  note c = chunk0_size[OF mn(1), folded nb_def, folded c_def]
  have h [simp]: "hp_addr h = addr" "hp_len h = n" "avail_buckets h = 0" "buckets h = replicate nb 0"
    by (simp_all add: h_def h0_def)
  have bi: "k_bucket_idx h = k_bucket_idx h0"
    by (simp add: fun_eq_iff h_def k_bucket_idx_def k_min_chunk_size_eq k_big_heap_def Let_def)
  have L: "heap_len_ok h" using I(4,5) by (auto simp: heap_len_ok_def word_less_nat_alt)
  have cn: "c < n" "c + k_min_chunk_size h0 < n"
  proof -
    show "c < n" using c(2) I(4) by (simp add: word_less_nat_alt)
    have "unat (c + k_min_chunk_size h0) = unat c + unat (k_min_chunk_size h0)"
      using c(2) mn(2) by (subst unat_add_lem[THEN iffD1]) simp_all
    then show "c + k_min_chunk_size h0 < n" using c(2) mn(2) I(4) by (simp add: word_less_nat_alt)
  qed
  have c3: "k_chunksz sizeof_z_heap < n" using I(4) by (simp add: k_chunksz_def sizeof_z_heap_def CHUNK_UNIT_def word_less_nat_alt)
  obtain h1 h2 h3 h4 h5 where H: "k_set_chunk_size 0 c h = OK h1"
      "k_set_chunk_size c (n - c) (k_set_chunk_used 0 True h1) = OK h2"
      "k_set_left_chunk_size c c h2 = OK h3" "k_set_chunk_size n 0 h3 = OK h4"
      "k_set_left_chunk_size n (n - c) h4 = OK h5"
    and H6: "let h6 = k_set_chunk_used n True h5 in same_frame h h6 \<and> buckets h6 = buckets h \<and>
      avail_buckets h6 = avail_buckets h \<and>
      k_chunk_size h6 0 = c \<and> k_chunk_used h6 0 \<and> k_chunk_size h6 c = n - c \<and> left_size h6 c = c \<and>
      \<not> k_chunk_used h6 c \<and> k_chunk_size h6 n = 0 \<and> k_chunk_used h6 n \<and> left_size h6 n = n - c"
    using init_headers[OF L c(1)] cn(1) unfolding h by blast
  define h6 where "h6 = k_set_chunk_used n True h5"
  note S = H6[folded h6_def, unfolded Let_def]
  have sf: "same_frame h h6" using S by simp
  note f = same_frameD[OF sf]
  let ?B = "{0, c, n}"
  have B: "heap_ok h6 ?B (\<lambda>_. []) {c}" "tidy h6 ?B {}" "owners h6 ?B = {0, n}"
  proof -
    have "heap_len_ok h6" using L f by (simp add: heap_len_ok_def)
    moreover have "length (buckets h6) = k_bucket_idx h6 (hp_len h6) + 1" using S f bi by (simp add: nb_def)
    moreover have "\<forall>i < length (buckets h6). buckets h6 ! i = 0" using S by simp
    ultimately show "heap_ok h6 ?B (\<lambda>_. []) {c}" "tidy h6 ?B {}" "owners h6 ?B = {0, n}"
      using init_chunks[of h6 c] S f c(1) cn(1) by simp_all
  qed
  obtain h7 F where a: "k_free_list_add c h6 = OK h7" "heap_ok h7 ?B F ({c} - {c})" "free_step h6 h7 ?B"
    using free_add_ok[OF B(1)] S by blast
  have C6: "chunks_ok h6 ?B" using B(1) by (simp add: heap_ok_def)
  have t7: "tidy h7 ?B {}" by (rule free_step_tidy[OF C6 a(3) B(2)])
  note K = free_step_kept[OF a(3)]
  have sf7: "same_frame h h7" using same_frame_trans[OF sf kept_frame[OF K(2)]] .
  note f7 = same_frameD[OF sf7]
  define m where "m = mem_used_inc (c * CHUNK_UNIT) \<lparr>header = h7, mem_total = n * CHUNK_UNIT, mem_used = 0, mem_maxused = 0\<rparr>"
  have op: "k_firstfit_mem_init mem bytes memory = OK m"
    using I(1,2) c3 cn(2) H a(1)[unfolded h6_def]
    unfolding k_firstfit_mem_init_def Let_def b_def[symmetric] addr_def[symmetric] fin_def[symmetric] n_def[symmetric]
      h0_def[symmetric] nb_def[symmetric] c_def[symmetric] h_def[symmetric]
    by (simp add: m_def)
  have m: "header m = h7" "mem_total m = n * 8" "mem_used m = c * 8" by (simp_all add: m_def CHUNK_UNIT_def)
  have own: "owners h7 ?B = {0, n}" using K(1) B(3) by simp
  have n0: "n \<noteq> 0" using cn(1) by auto
  have "used_units h7 ?B = c" using n0 S K(4) by (simp add: used_units_def own)
  moreover have "placed h7" using I(3,6) f7 by (simp add: placed_def)
  ultimately have "region_ok m ?B" using a(2) t7 f7 m by (auto simp: region_ok_def)
  moreover have "chunk0_ok h7"
    using cn(1) S K(4)[of 0] f7(2) same_frame_trans[OF sf kept_frame[OF K(2)]]
    by (simp add: chunk0_ok_def chunk0_units_def same_frame_def c_def nb_def)
  ultimately have "store_ok m ?B Map.empty" using own m(1) f7 by (simp add: store_ok_def)
  then show ?thesis using op I(7,8) m f7 by (intro exI[of _ m] exI[of _ ?B]) simp
qed

subsection \<open>The check of the heap\<close>

text \<open>The walk from the chunk \<open>c\<close> to the end of the heap.\<close>

lemma mem_check_walk:
  assumes C: "chunks_ok h B" and c: "c \<in> B"
  shows "mem_check_loop h c used ttl =
    Some (True, used + (\<Sum>u \<in> {u \<in> owners h B. c \<le> u}. k_chunk_size h u), ttl + (hp_len h - c))"
  using c
proof (induction "unat (hp_len h) - unat c" arbitrary: c used ttl rule: less_induct)
  case less
  note cB = less.prems
  show ?case
  proof (cases "c = hp_len h")
    case True
    have "{u \<in> owners h B. c \<le> u} = {c}"
      using chunks_okD(4)[OF C] chunks_okD(3,6)[OF C] True by (auto simp: owners_def intro: antisym)
    then show ?thesis using chunks_okD(5)[OF C] True by (subst mem_check_loop.simps) simp
  next
    case False
    define d where "d = c + k_chunk_size h c"
    note n = chunk_next[OF C cB False, folded d_def]
    have "unat c < unat d" "unat d \<le> unat (hp_len h)" using n by (simp_all add: word_less_nat_alt word_le_nat_alt)
    then have "unat (hp_len h) - unat d < unat (hp_len h) - unat c" by simp
    note IH = less.hyps[OF this n(3)]
    have left: "k_left_chunk h d = c"
      using chunks_okD(11)[OF C cB False] by (simp add: k_left_chunk_def d_def)
    have sz: "k_chunk_size h c \<noteq> 0" using chunks_okD(8)[OF C cB False] by auto
    have dc: "d \<le> u \<longleftrightarrow> c \<le> u \<and> u \<noteq> c" if "u \<in> B" for u
      using chunks_okD(12)[OF C cB that] n(1) by (auto simp: d_def)
    have own: "{u \<in> owners h B. c \<le> u} =
        (if k_chunk_used h c then insert c {u \<in> owners h B. d \<le> u} else {u \<in> owners h B. d \<le> u})"
      using dc cB by (auto simp: owners_def)
    have "c \<notin> {u \<in> owners h B. d \<le> u}" using n(1) by auto
    then have sum: "(\<Sum>u \<in> {u \<in> owners h B. c \<le> u}. k_chunk_size h u) =
        (if k_chunk_used h c then k_chunk_size h c else 0) + (\<Sum>u \<in> {u \<in> owners h B. d \<le> u}. k_chunk_size h u)"
      by (simp add: own)
    have rd: "k_right_chunk h c = d" by (simp add: k_right_chunk_def d_def)
    have "mem_check_loop h c used ttl =
        mem_check_loop h d (if k_chunk_used h c then used + k_chunk_size h c else used) (ttl + k_chunk_size h c)"
      by (subst mem_check_loop.simps) (simp add: Let_def sz rd left)
    also have "\<dots> = Some (True, used + (\<Sum>u \<in> {u \<in> owners h B. c \<le> u}. k_chunk_size h u), ttl + (hp_len h - c))"
      unfolding IH sum by (simp add: d_def)
    finally show ?thesis .
  qed
qed

text \<open>The walks round the free lists end and meet the chunks that are on them.\<close>

lemma free_list_walk_ok:
  assumes "ringed (k_next_free_chunk h) pv (us @ c # vs)"
  shows "free_list_walk h (hd (us @ [c])) c = Some (c # vs)"
  using assms
proof (induction vs arbitrary: c us)
  case Nil
  have "ringed (k_next_free_chunk h) pv ([c] @ us)" using ringed_rotate[of _ _ us "[c]"] Nil by simp
  then have "k_next_free_chunk h c = hd (us @ [c])" using ringed_ends(1) by fastforce
  then show ?case by (subst free_list_walk.simps) simp
next
  case (Cons v vs)
  have "ringed (k_next_free_chunk h) pv ((c # v # vs) @ us)" using ringed_rotate[of _ _ us "c # v # vs"] Cons.prems by simp
  then have n: "k_next_free_chunk h c = v" using ringed_ends(1) by fastforce
  have "distinct (us @ c # v # vs)" using ringed_distinct[OF Cons.prems] .
  then have "v \<noteq> hd (us @ [c])" by (cases us) auto
  moreover have "free_list_walk h (hd (us @ [c])) v = Some (v # vs)"
    using Cons.IH[of "us @ [c]" v] Cons.prems by (cases us) simp_all
  ultimately show ?case by (subst free_list_walk.simps) (simp add: n)
qed

lemma free_lists_walk_ok:
  assumes ok: "heap_ok h B F X" and n: "n \<le> length (buckets h)"
  shows "free_lists_walk h n = Some (map F [0..<n])"
  using n
proof (induction n)
  case (Suc n)
  have Fr: "frees_ok h B F X" using ok by (simp add: heap_ok_def)
  have b: "buckets h ! n = (case F n of [] \<Rightarrow> 0 | c # _ \<Rightarrow> c)" using frees_okD(2)[OF Fr] Suc.prems by simp
  have "(if buckets h ! n \<noteq> 0 then free_list_walk h (buckets h ! n) (buckets h ! n) else Some []) = Some (F n)"
  proof (cases "F n")
    case (Cons c cs)
    have "c \<noteq> 0" using listed(4)[OF ok, of c n] Cons by simp
    moreover have "free_list_walk h c c = Some (c # cs)"
      using free_list_walk_ok[of h "k_prev_free_chunk h" "[]" c cs] frees_okD(3)[OF Fr, of n] Cons by simp
    ultimately show ?thesis using b Cons by simp
  qed (use b in simp)
  then show ?case using Suc by (simp add: Let_def)
qed simp

lemma region_check:
  assumes "region_ok m B"
  shows "k_firstfit_mem_check m = Some OS_EOK"
proof -
  obtain F where H: "heap_ok (header m) B F {}" and C: "chunks_ok (header m) B" using region_heap[OF assms] .
  have "length (buckets (header m)) = k_bucket_idx (header m) (hp_len (header m)) + 1"
    using H by (auto simp: heap_ok_def dest: frees_okD(1))
  then have walk: "free_lists_walk (header m) (k_bucket_idx (header m) (hp_len (header m)) + 1) =
      Some (map F [0..<k_bucket_idx (header m) (hp_len (header m)) + 1])"
    by (intro free_lists_walk_ok[OF H]) simp
  have "{u \<in> owners (header m) B. 0 \<le> u} = owners (header m) B" by auto
  then have "mem_check_loop (header m) 0 0 0 = Some (True, used_units (header m) B, hp_len (header m))"
    using mem_check_walk[OF C chunks_okD(2)[OF C], of 0 0] by (simp add: used_units_def)
  then show ?thesis using assms unfolding k_firstfit_mem_check_def walk by (simp add: region_ok_def CHUNK_UNIT_def)
qed

subsection \<open>Runs\<close>

text \<open>
  The heap on the \<open>bytes\<close> bytes at \<open>mem\<close> after any allowed calls, with the store of its live blocks.
\<close>

inductive heap_run :: "u32 \<Rightarrow> u32 \<Rightarrow> heap_mem \<Rightarrow> store \<Rightarrow> bool" for mem bytes where
  heap_run_init: "k_firstfit_mem_init mem bytes memory = OK m \<Longrightarrow> heap_run mem bytes m Map.empty"
| heap_run_call: "heap_run mem bytes m S \<Longrightarrow> call_allowed call m S \<Longrightarrow> heap_exec call m = OK (m', r) \<Longrightarrow>
    heap_run mem bytes m' (store_after call r (header m') S)"

definition region_given :: "u32 \<Rightarrow> u32 \<Rightarrow> bool" where
  "region_given mem bytes \<longleftrightarrow> unat mem + unat bytes \<le> 2 ^ 32 \<and> 256 \<le> unat bytes"

lemma heap_run_ok:
  assumes "heap_run mem bytes m S" "region_given mem bytes"
  shows "\<exists>B. store_ok m B S \<and> unat mem \<le> unat (hp_addr (header m)) \<and>
    unat (hp_addr (header m)) + 8 * unat (hp_len (header m)) \<le> unat mem + unat bytes"
  using assms
proof (induction rule: heap_run.induct)
  case (heap_run_init memory m)
  then show ?case using init_ok[of mem bytes memory] by (auto simp: region_given_def)
next
  case (heap_run_call m S call m' r)
  then obtain B where B: "store_ok m B S" "unat mem \<le> unat (hp_addr (header m))"
      "unat (hp_addr (header m)) + 8 * unat (hp_len (header m)) \<le> unat mem + unat bytes" by blast
  have "call_ok call m S" by (rule heap_call_ok[OF B(1) heap_run_call(2)])
  then obtain B' where B': "same_frame (header m) (header m')" "store_ok m' B' (store_after call r (header m') S)"
    using heap_run_call(3) by (auto simp: call_ok_def)
  have f: "hp_addr (header m') = hp_addr (header m)" "hp_len (header m') = hp_len (header m)"
    using same_frameD(1,2)[OF B'(1)] .
  show ?case unfolding f using B(2,3) B'(2) by blast
qed

lemma heap_run_step:
  assumes run: "heap_run mem bytes m S" and g: "region_given mem bytes" and a: "call_allowed call m S"
  shows "\<exists>m' r. heap_exec call m = OK (m', r) \<and> heap_run mem bytes m' (store_after call r (header m') S) \<and>
    call_spec call S r (store_after call r (header m') S)"
proof -
  obtain B where B: "store_ok m B S" using heap_run_ok[OF run g] by blast
  obtain m' r where m': "heap_exec call m = OK (m', r)" "call_spec call S r (store_after call r (header m') S)"
    using heap_call_ok[OF B a] by (auto simp: call_ok_def)
  then show ?thesis using heap_run_call[OF run a m'(1)] by blast
qed

lemma heap_run_contents:
  assumes "heap_run mem bytes m S" "region_given mem bytes" "S p = Some bs"
  shows "read_bytes (header m) (heap_offset (header m) p) (length bs) = bs"
  using heap_run_ok[OF assms(1,2)] live_block(8) assms(3) by blast

lemma live_blocks_apart:
  assumes S: "store_ok m B S" and p: "S p = Some bs" and q: "S q = Some bs'" "p \<noteq> q"
  shows "unat p + length bs \<le> unat q \<or> unat q + length bs' \<le> unat p"
proof -
  let ?h = "header m" and ?c = "k_mem_to_chunkid (header m) p" and ?d = "k_mem_to_chunkid (header m) q"
  note L = live_block[OF S p] and M = live_block[OF S q(1)]
  obtain F where F: "chunks_ok ?h B" "placed ?h" using region_heap[OF L(9)] .
  have ne: "?c \<noteq> ?d" using inj_onD[OF store_okD(3)[OF S]] p q by blast
  have u: "unat p = unat (hp_addr ?h) + heap_offset ?h p" "unat q = unat (hp_addr ?h) + heap_offset ?h q"
    using block_address(1)[OF F(2,1) L(2,6)] block_address(1)[OF F(2,1) M(2,6)] .
  have le: "unat a + unat (k_chunk_size ?h a) \<le> unat b" if "a \<in> B" "b \<in> B" "a < b" for a b
    using chunks_okD(12)[OF F(1) that] chunk_end(1)[OF F(1) that(1)] by (simp add: word_le_nat_alt)
  consider "?c < ?d" | "?d < ?c" using ne by fastforce
  then show ?thesis
  proof cases
    case 1
    then show ?thesis using le[OF L(2) M(2)] L(6) M(6) u by (auto simp: block_ok_def)
  next
    case 2
    then show ?thesis using le[OF M(2) L(2)] L(6) M(6) u by (auto simp: block_ok_def)
  qed
qed

subsection \<open>What clients may rely on\<close>

text \<open>
  C23. The heap is a store of byte arrays: after any allowed calls on a region of at least 256
  bytes, no allowed call of malloc, aligned malloc, realloc, free or a write into a live block
  stops in an assertion. The call changes the live blocks as its name says and leaves the
  contents of the others alone: a new block is not among the live ones and is aligned, realloc
  keeps the common prefix of the contents also when the block moves.
\<close>

theorem heap_is_a_store:
  assumes run: "heap_run mem bytes m S" and g: "region_given mem bytes" and a: "call_allowed call m S"
  shows "\<exists>m' r. heap_exec call m = OK (m', r) \<and> heap_run mem bytes m' (store_after call r (header m') S) \<and>
    call_spec call S r (store_after call r (header m') S) \<and>
    (\<forall>p bs. store_after call r (header m') S p = Some bs \<longrightarrow>
      read_bytes (header m') (heap_offset (header m') p) (length bs) = bs)"
  using heap_run_step[OF run g a] heap_run_contents[OF _ g] by blast

text \<open>
  After any allowed calls, every live block lies in the memory that the region was given, and
  two live blocks do not overlap.
\<close>

theorem heap_blocks_disjoint:
  assumes run: "heap_run mem bytes m S" and g: "region_given mem bytes" and p: "S p = Some bs"
  shows "unat mem \<le> unat p \<and> unat p + length bs \<le> unat mem + unat bytes \<and>
    (\<forall>q bs'. S q = Some bs' \<longrightarrow> q \<noteq> p \<longrightarrow> unat p + length bs \<le> unat q \<or> unat q + length bs' \<le> unat p)"
proof -
  obtain B where B: "store_ok m B S" and r: "unat mem \<le> unat (hp_addr (header m))"
      "unat (hp_addr (header m)) + 8 * unat (hp_len (header m)) \<le> unat mem + unat bytes"
    using heap_run_ok[OF run g] by blast
  note L = live_block[OF B p]
  obtain F where F: "chunks_ok (header m) B" "placed (header m)" using region_heap[OF L(9)] .
  show ?thesis using block_address(1,3)[OF F(2,1) L(2,6)] r live_blocks_apart[OF B p] by auto
qed

lemma heap_whole_again:
  assumes "heap_run mem bytes m Map.empty" "region_given mem bytes"
  shows "let h = header m; c = k_right_chunk h 0
    in c = chunk0_units h \<and> \<not> k_chunk_used h c \<and> k_right_chunk h c = hp_len h \<and> mem_used m = c * 8"
proof -
  let ?h = "header m"
  obtain B where B: "store_ok m B Map.empty" using heap_run_ok[OF assms] by blast
  note D = store_okD[OF B]
  obtain F where H: "heap_ok ?h B F {}" "chunks_ok ?h B" "tidy ?h B {}" using region_heap[OF D(1)] .
  define c where "c = k_right_chunk ?h 0"
  have c: "c = chunk0_units ?h" "c < hp_len ?h" "k_chunk_size ?h 0 = c"
    using D(5) by (simp_all add: c_def k_right_chunk_def chunk0_ok_def)
  have h0: "0 \<noteq> hp_len ?h" using chunks_okD(1)[OF H(2)] by (auto simp: heap_len_ok_def)
  have fin: "hp_len ?h \<in> owners ?h B" using chunks_okD(3,6)[OF H(2)] by (simp add: owners_def)
  have own: "owners ?h B = {0, hp_len ?h}" using D(4,6) fin by auto
  have cB: "c \<in> B" using chunk_next(3)[OF H(2) chunks_okD(2)[OF H(2)] h0] c(3) by simp
  have c0: "c \<noteq> 0" "c \<noteq> hp_len ?h" using chunks_okD(8)[OF H(2) chunks_okD(2)[OF H(2)] h0] c by auto
  then have uc: "\<not> k_chunk_used ?h c" using own cB by (auto simp: owners_def)
  define d where "d = c + k_chunk_size ?h c"
  have dB: "d \<in> B" "c < d" using chunk_next(1,3)[OF H(2) cB c0(2)] by (simp_all add: d_def)
  have "k_chunk_used ?h d" using tidyD[OF H(3) cB c0(2)] uc by (simp add: d_def)
  then have "d \<in> {0, hp_len ?h}" unfolding own[symmetric] using dB(1) by (simp add: owners_def)
  then have "d = hp_len ?h" using dB(2) by auto
  moreover have "used_units ?h B = c"
    using h0 c(3) chunks_okD(5)[OF H(2)] by (simp add: used_units_def own)
  ultimately show ?thesis
    using c(1) uc D(1) unfolding Let_def c_def[symmetric] by (simp add: k_right_chunk_def d_def region_ok_def)
qed

text \<open>
  C24. The account of the heap is right after any allowed calls: its check, which walks over all
  chunks, ends and finds no error in the links between neighbours, the total size and the used
  size. No memory is lost: once no block is live, the heap consists of its own chunk and one
  free chunk that reaches to the end, as after the initialisation, and the used size is that of
  its own chunk.
\<close>

theorem heap_accounts_for_all:
  assumes run: "heap_run mem bytes m S" and g: "region_given mem bytes"
  shows "k_firstfit_mem_check m = Some OS_EOK \<and>
    (S = Map.empty \<longrightarrow> (let h = header m; c = k_right_chunk h 0
      in c = chunk0_units h \<and> \<not> k_chunk_used h c \<and> k_right_chunk h c = hp_len h \<and> mem_used m = c * 8))"
  using heap_run_ok[OF run g] region_check store_okD(1) heap_whole_again[OF _ g] run by blast

subsection \<open>A sample run\<close>

text \<open>
  A region of 256 bytes: two blocks, a byte written into the first one, and the release of both.
\<close>

lemma sample_calls:
  "bind_res (k_firstfit_mem_init 0x20000000 256 (\<lambda>_. 0)) (\<lambda>m0.
   bind_res (heap_exec (Malloc 16) m0) (\<lambda>(m1, r1).
   bind_res (heap_exec (Malloc 8) m1) (\<lambda>(m2, r2).
     OK (r1, k_chunk_mem (header m1) (k_mem_to_chunkid (header m1) 0x20000034), r2)))) =
   OK (Some 0x20000034, OK 0x20000034, Some 0x2000004C)"
  by code_simp

lemma sample_given: "region_given 0x20000000 256"
  by (simp add: region_given_def)

lemma sample_run:
  obtains m0 m1 m2 m4 bs0 bs bs' where "heap_run 0x20000000 256 m0 Map.empty"
    "heap_run 0x20000000 256 m1 [0x20000034 \<mapsto> bs0]" "length bs0 = 16"
    "k_chunk_mem (header m1) (k_mem_to_chunkid (header m1) 0x20000034) = OK 0x20000034"
    "heap_run 0x20000000 256 m2 [0x20000034 \<mapsto> bs, 0x2000004C \<mapsto> bs']"
    "heap_run 0x20000000 256 m4 Map.empty"
proof -
  obtain m0 m1 m2 where e: "k_firstfit_mem_init 0x20000000 256 (\<lambda>_. 0) = OK m0"
      "heap_exec (Malloc 16) m0 = OK (m1, Some 0x20000034)" "heap_exec (Malloc 8) m1 = OK (m2, Some 0x2000004C)"
      "k_chunk_mem (header m1) (k_mem_to_chunkid (header m1) 0x20000034) = OK 0x20000034"
    using sample_calls unfolding bind_res_eq_OK by (auto simp: bind_res_eq_OK split: prod.splits)
  let ?run = "heap_run 0x20000000 256"
  have 0: "?run m0 Map.empty" by (rule heap_run_init[OF e(1)])
  let ?S1 = "store_after (Malloc 16) (Some 0x20000034) (header m1) Map.empty"
  have 1: "?run m1 ?S1" by (rule heap_run_call[OF 0 _ e(2)]) simp
  let ?S2 = "store_after (Malloc 8) (Some 0x2000004C) (header m2) ?S1"
  have 2: "?run m2 ?S2" by (rule heap_run_call[OF 1 _ e(3)]) simp
  let ?b0 = "read_bytes (header m1) (heap_offset (header m1) 0x20000034) 16"
  have s1: "?S1 = [0x20000034 \<mapsto> ?b0]" by (simp add: add_block_def)
  have s2: "?S2 = [0x20000034 \<mapsto> ?b0, 0x2000004C \<mapsto> read_bytes (header m2) (heap_offset (header m2) 0x2000004C) 8]"
    by (simp add: add_block_def)
  have "call_allowed (Free (Some 0x20000034)) m1 ?S1" by (simp add: add_block_def)
  then obtain m4 r where "?run m4 (store_after (Free (Some 0x20000034)) r (header m4) ?S1)"
    using heap_run_step[OF 1 sample_given] by blast
  then have 4: "?run m4 Map.empty" by (simp add: add_block_def drop_block_def)
  show thesis using that[OF 0 1[unfolded s1] _ e(4) 2[unfolded s2] 4] by simp
qed

lemma heap_is_a_store_witness:
  "\<exists>m S m' r. heap_run 0x20000000 256 m S \<and> S 0x20000034 \<noteq> None \<and>
    heap_exec (Realloc (Some 0x20000034) 40) m = OK (m', r) \<and>
    heap_run 0x20000000 256 m' (store_after (Realloc (Some 0x20000034) 40) r (header m') S)"
proof -
  obtain m0 m1 m2 m4 bs0 bs bs' where r: "heap_run 0x20000000 256 m1 [0x20000034 \<mapsto> bs0]"
      "k_chunk_mem (header m1) (k_mem_to_chunkid (header m1) 0x20000034) = OK 0x20000034"
    using sample_run .
  then have "call_allowed (Realloc (Some 0x20000034) 40) m1 [0x20000034 \<mapsto> bs0]" by simp
  from heap_is_a_store[OF r(1) sample_given this]
  obtain m' q where "heap_exec (Realloc (Some 0x20000034) 40) m1 = OK (m', q)"
      "heap_run 0x20000000 256 m' (store_after (Realloc (Some 0x20000034) 40) q (header m') [0x20000034 \<mapsto> bs0])"
    by blast
  moreover have "[0x20000034 \<mapsto> bs0] (0x20000034 :: u32) \<noteq> None" by simp
  ultimately show ?thesis using r(1) by blast
qed

lemma heap_blocks_disjoint_witness:
  "\<exists>m S bs bs'. heap_run 0x20000000 256 m S \<and> S 0x20000034 = Some bs \<and> S 0x2000004C = Some bs' \<and>
    unat (0x20000034 :: u32) + length bs \<le> unat (0x2000004C :: u32)"
proof -
  obtain m0 m1 m2 m4 bs0 bs bs' where r: "heap_run 0x20000000 256 m2 [0x20000034 \<mapsto> bs, 0x2000004C \<mapsto> bs']"
    using sample_run .
  let ?S = "[0x20000034 \<mapsto> bs, 0x2000004C \<mapsto> bs'] :: store"
  have s: "?S 0x20000034 = Some bs" "?S 0x2000004C = Some bs'" by simp_all
  have "unat (0x20000034 :: u32) + length bs \<le> unat (0x2000004C :: u32)"
    using heap_blocks_disjoint[OF r sample_given s(1), THEN conjunct2, THEN conjunct2, THEN spec, THEN spec, THEN mp, OF s(2)]
    by simp
  then show ?thesis using r s by blast
qed

lemma heap_accounts_for_all_witness:
  "\<exists>m. heap_run 0x20000000 256 m Map.empty \<and> k_firstfit_mem_check m = Some OS_EOK \<and>
    \<not> k_chunk_used (header m) (k_right_chunk (header m) 0)"
proof -
  obtain m0 m1 m2 m4 bs0 bs bs' where "heap_run 0x20000000 256 m4 Map.empty" using sample_run .
  with heap_accounts_for_all[OF this sample_given] show ?thesis by (auto simp: Let_def)
qed

subsection \<open>Where the code falls short\<close>

text \<open>
  The size of a request is rounded up in 32 bits: in a small heap a request for almost all of the
  address space wraps round and is served with the least chunk.
\<close>

theorem heap_malloc_wraps:
  assumes "\<not> k_big_heap (header m)" "0xFFFFFFFC < n"
  shows "k_firstfit_mem_alloc n m = k_firstfit_mem_alloc 1 m"
proof -
  have n: "unat n - 0xFFFFFFFC + 0xFFFFFFFC = unat n" "0 < unat n - 0xFFFFFFFC" "unat n - 0xFFFFFFFC \<le> 3"
    using assms(2) unat_u32[of n] by (simp_all add: word_less_nat_alt)
  have "n \<in> {0xFFFFFFFD, 0xFFFFFFFE, 0xFFFFFFFF}"
    using n by (simp add: word_unat_eq_iff) arith
  then have "k_bytes_to_chunksz (header m) n = k_bytes_to_chunksz (header m) 1" "n \<noteq> 0"
    using assms(1) by (auto simp: k_bytes_to_chunksz_def k_chunksz_def k_chunk_header_bytes_def CHUNK_UNIT_def)
  then show ?thesis by (simp add: k_firstfit_mem_alloc_def Let_def)
qed

text \<open>
  C40. In a small heap, a block of an aligned allocation does not begin right behind the header of its
  chunk. When realloc resizes such a block in place to a smaller chunk, it returns the address
  four bytes below the block: the contents are no longer where the returned address says, and the
  alignment is lost.
\<close>

theorem heap_realloc_misplaces_aligned:
  assumes run: "heap_run mem bytes m S" and g: "region_given mem bytes" and p: "S p = Some bs"
    and pl: "k_chunk_mem (header m) (k_mem_to_chunkid (header m) p) \<noteq> OK p"
    and n: "0 < n" "unat n + 16 \<le> 2 ^ 32"
      "k_bytes_to_chunksz (header m) n < k_chunk_size (header m) (k_mem_to_chunkid (header m) p)"
  shows "\<exists>m'. k_firstfit_mem_realloc (Some p) n m = OK (m', Some (p - 4))"
proof -
  let ?h = "header m" and ?c = "k_mem_to_chunkid (header m) p"
  obtain B where B: "store_ok m B S" using heap_run_ok[OF run g] by blast
  note L = live_block[OF B p]
  obtain F where F: "chunks_ok ?h B" "placed ?h" using region_heap[OF L(9)] .
  have len: "?c < hp_len ?h" using chunks_okD(4)[OF F(1) L(2)] L(5) by simp
  define q where "q = hp_addr ?h + ?c * 8 + k_chunk_header_bytes ?h"
  have q: "k_chunk_mem ?h ?c = OK q" "heap_offset ?h q = 8 * unat ?c + header_bytes ?h"
    using k_chunk_mem_ok[OF F(2) len] block_at_chunk[OF F(2) len] by (simp_all add: q_def)
  have "heap_offset ?h p \<noteq> heap_offset ?h q"
  proof
    assume "heap_offset ?h p = heap_offset ?h q"
    then have "p - hp_addr ?h = q - hp_addr ?h" by (simp only: heap_offset_def word_unat_eq_iff)
    then have "p = q" by simp
    then show False using pl q(1) by simp
  qed
  then have o: "heap_offset ?h p = heap_offset ?h q + 4" using L(6) q(2) by (auto simp: block_ok_def)
  have "p - hp_addr ?h = (q - hp_addr ?h) + 4"
  proof (subst word_unat_eq_iff)
    show "unat (p - hp_addr ?h) = unat (q - hp_addr ?h + 4)"
      using o unat_u32[of "p - hp_addr ?h"] by (subst unat_add_lem[THEN iffD1]) (simp_all add: heap_offset_def)
  qed
  then have pq: "p - 4 = q" by (simp add: algebra_simps)
  have s: "0 < k_bytes_to_chunksz ?h n" by (rule bytes_to_chunksz(4)[OF n(1,2)])
  obtain m' where m': "realloc_shrink ?c (k_bytes_to_chunksz ?h n) m = OK (m', Some q)"
    using realloc_shrink_ok[OF L(9,1,4,5) s n(3)] by (auto simp: q_def)
  have "0 < k_chunk_size ?h ?c" by (rule chunks_okD(8)[OF F(1) L(2,5)])
  then have "k_firstfit_mem_realloc (Some p) n m = OK (m', Some q)"
    using block_checks[OF L(9,1,5,6,7)] n(1,3) m' by (simp add: k_firstfit_mem_realloc_def Let_def word_gt_0)
  then show ?thesis using pq by simp
qed

lemma sample_aligned:
  "bind_res (k_firstfit_mem_init 0x20000000 256 (\<lambda>_. 0)) (\<lambda>m0.
   bind_res (heap_exec (Aligned_alloc 8 16) m0) (\<lambda>(m1, r1).
     OK (r1, k_chunk_mem (header m1) (k_mem_to_chunkid (header m1) 0x20000038),
       k_bytes_to_chunksz (header m1) 4 < k_chunk_size (header m1) (k_mem_to_chunkid (header m1) 0x20000038)))) =
   OK (Some 0x20000038, OK 0x20000034, True)"
  by code_simp

lemma heap_realloc_misplaces_aligned_witness:
  "\<exists>m S m'. heap_run 0x20000000 256 m S \<and> S 0x20000038 \<noteq> None \<and>
    k_firstfit_mem_realloc (Some 0x20000038) 4 m = OK (m', Some 0x20000034)"
proof -
  obtain m0 m1 where e: "k_firstfit_mem_init 0x20000000 256 (\<lambda>_. 0) = OK m0"
      "heap_exec (Aligned_alloc 8 16) m0 = OK (m1, Some 0x20000038)"
      "k_chunk_mem (header m1) (k_mem_to_chunkid (header m1) 0x20000038) = OK 0x20000034"
      "k_bytes_to_chunksz (header m1) 4 < k_chunk_size (header m1) (k_mem_to_chunkid (header m1) 0x20000038)"
    using sample_aligned unfolding bind_res_eq_OK by (auto simp: bind_res_eq_OK split: prod.splits)
  let ?S = "store_after (Aligned_alloc 8 16) (Some 0x20000038) (header m1) Map.empty"
  have run: "heap_run 0x20000000 256 m1 ?S" by (rule heap_run_call[OF heap_run_init[OF e(1)] _ e(2)]) simp
  obtain bs where s: "?S 0x20000038 = Some bs" by (simp add: add_block_def)
  obtain m' where "k_firstfit_mem_realloc (Some 0x20000038) 4 m1 = OK (m', Some 0x20000034)"
    using heap_realloc_misplaces_aligned[OF run sample_given s _ _ _ e(4)] e(3) by auto
  then show ?thesis using run s by blast
qed

end
