(* ===== verification/Os_Memory.thy ===== *)
theory Os_Memory
  imports Firstfit_Run Os_Task
begin

unbundle bit_operations_syntax

text \<open>
  \<^verbatim>\<open>oneos/kernel/source/os_memory.c\<close>: heaps made of a chain of regions, and the system heap behind
  \<^verbatim>\<open>os_malloc\<close> and \<^verbatim>\<open>os_free\<close>. First-fit is the only algorithm that is configured. The
  spin lock of the list of heaps is left out, as is the memory trace, which is not configured.
\<close>

subsection \<open>Heaps\<close>

text \<open>
  A heap is the list of its \<^verbatim>\<open>struct heap_mem\<close>, in the order of the \<^verbatim>\<open>next\<close> pointers, each with
  the address at which it stands, in front of the memory that it manages.
\<close>

type_synonym zones = "(u32 \<times> heap_mem) list"

record os_memheap =
  h_mem :: zones
  mh_object_inited :: u8
  mh_name :: string

record heap_sys =
  heap_list :: "nat list"
  memheaps :: "nat \<Rightarrow> os_memheap"

datatype os_mem_alg = OS_MEM_ALG_FIRSTFIT | OS_MEM_ALG_DEFAULT

text \<open>\<^verbatim>\<open>sizeof(struct heap_mem)\<close>: seven function pointers, five words, a semaphore of 44 bytes, \<^verbatim>\<open>alg\<close>.\<close>

definition sizeof_heap_mem :: u32 where "sizeof_heap_mem = 96"

definition os_memheap_init :: "nat \<Rightarrow> string option \<Rightarrow> heap_sys \<Rightarrow> heap_sys \<times> os_err" where
  "os_memheap_init a nm s =
     (if a \<in> set (heap_list s) then (s, OS_EINVAL)
      else
        (s\<lparr>heap_list := heap_list s @ [a],
           memheaps := (memheaps s)(a := (memheaps s a)\<lparr>
             mh_name := (case nm of Some n \<Rightarrow> take OS_NAME_MAX n | None \<Rightarrow> ''''), h_mem := [],
             mh_object_inited := OS_KOBJ_INITED\<rparr>)\<rparr>, OS_EOK))"

definition heap_inited :: "nat \<Rightarrow> heap_sys \<Rightarrow> bool" where
  "heap_inited a s \<longleftrightarrow> mh_object_inited (memheaps s a) = OS_KOBJ_INITED"

definition os_memheap_deinit :: "nat \<Rightarrow> heap_sys \<Rightarrow> (heap_sys \<times> os_err) res" where
  "os_memheap_deinit a s = os_assert (heap_inited a s) (OK (s, OS_ENOSYS))"

definition set_zones :: "nat \<Rightarrow> zones \<Rightarrow> heap_sys \<Rightarrow> heap_sys" where
  "set_zones a zs s = s\<lparr>memheaps := (memheaps s)(a := (memheaps s a)\<lparr>h_mem := zs\<rparr>)\<rparr>"

definition with_zones :: "nat \<Rightarrow> (zones \<Rightarrow> (zones \<times> 'a) res) \<Rightarrow> heap_sys \<Rightarrow> (heap_sys \<times> 'a) res" where
  "with_zones a f s = os_assert (heap_inited a s)
     (bind_res (f (h_mem (memheaps s a))) (\<lambda>(zs, r). OK (set_zones a zs s, r)))"

subsection \<open>Adding a region\<close>

text \<open>
  The regions of a heap are compared with the new one until one overlaps; the other heaps are
  still looked at.
\<close>

definition zone_end :: "heap_mem \<Rightarrow> u32" where
  "zone_end m = hp_addr (header m) + mem_total m"

fun chain_overlaps :: "u32 \<Rightarrow> u32 \<Rightarrow> zones \<Rightarrow> bool res" where
  "chain_overlaps start sz [] = OK False"
| "chain_overlaps start sz ((a, m) # zs) = os_assert (a < zone_end m)
     (if start < a \<and> a < start + sz \<or> start < zone_end m \<and> zone_end m < start + sz then OK True
      else chain_overlaps start sz zs)"

fun heaps_overlap :: "u32 \<Rightarrow> u32 \<Rightarrow> zones list \<Rightarrow> bool res" where
  "heaps_overlap start sz [] = OK False"
| "heaps_overlap start sz (zs # hs) =
     bind_res (chain_overlaps start sz zs) (\<lambda>b. bind_res (heaps_overlap start sz hs) (\<lambda>b'. OK (b \<or> b')))"

text \<open>The entry of \<^verbatim>\<open>alg_init_table\<close> for the algorithm.\<close>

definition mem_init_of :: "os_mem_alg \<Rightarrow> u32 \<Rightarrow> u32 \<Rightarrow> (nat \<Rightarrow> u32) \<Rightarrow> heap_mem res" where
  "mem_init_of alg = (case alg of OS_MEM_ALG_FIRSTFIT \<Rightarrow> k_firstfit_mem_init
     | OS_MEM_ALG_DEFAULT \<Rightarrow> (\<lambda>_ _ _. Fault NullDeref))"

definition os_memheap_add ::
  "nat \<Rightarrow> u32 \<Rightarrow> u32 \<Rightarrow> os_mem_alg \<Rightarrow> (nat \<Rightarrow> u32) \<Rightarrow> heap_sys \<Rightarrow> (heap_sys \<times> os_err) res" where
  "os_memheap_add a start_addr size0 alg0 memory s = os_assert (heap_inited a s)
     (let alg = (if alg0 = OS_MEM_ALG_DEFAULT then OS_MEM_ALG_FIRSTFIT else alg0);
          start = os_align_up start_addr
      in os_assert (start < start_addr + size0)
        (let sz = os_align_down (start_addr + size0 - start)
         in if sizeof_heap_mem < sz then
              bind_res (heaps_overlap start sz (map (\<lambda>i. h_mem (memheaps s i)) (heap_list s))) (\<lambda>b.
                if b then OK (s, OS_EINVAL)
                else bind_res (mem_init_of alg (start + sizeof_heap_mem) (sz - sizeof_heap_mem) memory) (\<lambda>m.
                  OK (set_zones a (h_mem (memheaps s a) @ [(start, m)]) s, OS_EOK)))
            else OK (s, OS_ENOMEM)))"

subsection \<open>Allocation\<close>

text \<open>The first of the regions selected by \<open>ok\<close> in which \<open>f\<close> finds a block, and the block.\<close>

fun zones_first :: "(nat \<Rightarrow> bool) \<Rightarrow> nat \<Rightarrow> (heap_mem \<Rightarrow> (heap_mem \<times> u32 option) res) \<Rightarrow> zones \<Rightarrow>
    (zones \<times> u32 option) res" where
  "zones_first ok i f [] = OK ([], None)"
| "zones_first ok i f ((a, m) # zs) =
     (let rest = (\<lambda>m'. bind_res (zones_first ok (Suc i) f zs) (\<lambda>(zs', r). OK ((a, m') # zs', r)))
      in if ok i then bind_res (f m) (\<lambda>(m', r). case r of Some p \<Rightarrow> OK ((a, m') # zs, Some p) | None \<Rightarrow> rest m')
         else rest m)"

definition os_memheap_alloc :: "nat \<Rightarrow> u32 \<Rightarrow> heap_sys \<Rightarrow> (heap_sys \<times> u32 option) res" where
  "os_memheap_alloc a sz = with_zones a (zones_first (\<lambda>_. True) 0 (k_firstfit_mem_alloc sz))"

definition os_memheap_aligned_alloc :: "nat \<Rightarrow> u32 \<Rightarrow> u32 \<Rightarrow> heap_sys \<Rightarrow> (heap_sys \<times> u32 option) res" where
  "os_memheap_aligned_alloc a align sz = with_zones a (zones_first (\<lambda>_. True) 0 (k_firstfit_mem_aligned_alloc align sz))"

subsection \<open>Release\<close>

definition mem_upto :: "u32 \<Rightarrow> heap_mem \<Rightarrow> bool" where
  "mem_upto p m \<longleftrightarrow> hp_addr (header m) \<le> p \<and> p \<le> zone_end m"

fun zones_free :: "u32 \<Rightarrow> zones \<Rightarrow> zones res" where
  "zones_free p [] = Fault AssertFail"
| "zones_free p ((a, m) # zs) =
     (if mem_upto p m then bind_res (k_firstfit_mem_free (Some p) m) (\<lambda>m'. OK ((a, m') # zs))
      else bind_res (zones_free p zs) (\<lambda>zs'. OK ((a, m) # zs')))"

definition os_memheap_free :: "nat \<Rightarrow> u32 option \<Rightarrow> heap_sys \<Rightarrow> heap_sys res" where
  "os_memheap_free a ptr s = os_assert (heap_inited a s) (case ptr of None \<Rightarrow> Fault AssertFail
     | Some p \<Rightarrow> bind_res (zones_free p (h_mem (memheaps s a))) (\<lambda>zs. OK (set_zones a zs s)))"

subsection \<open>Reallocation\<close>

text \<open>The number of the region that holds \<open>p\<close>, or the number of regions if none does.\<close>

fun zone_index :: "u32 \<Rightarrow> zones \<Rightarrow> nat" where
  "zone_index p [] = 0"
| "zone_index p ((a, m) # zs) = (if mem_in_heap p m then 0 else Suc (zone_index p zs))"

text \<open>The bytes of all regions, as \<^verbatim>\<open>memcpy\<close> and \<^verbatim>\<open>memset\<close> see them.\<close>

definition zone_header :: "u32 \<Rightarrow> zones \<Rightarrow> z_heap" where
  "zone_header p zs = header (snd (zs ! zone_index p zs))"

definition read_zones :: "u32 \<Rightarrow> nat \<Rightarrow> zones \<Rightarrow> u8 list" where
  "read_zones p n zs = (let h = zone_header p zs in read_bytes h (heap_offset h p) n)"

definition upd_zone :: "nat \<Rightarrow> (heap_mem \<Rightarrow> heap_mem) \<Rightarrow> zones \<Rightarrow> zones" where
  "upd_zone i f zs = zs[i := (fst (zs ! i), f (snd (zs ! i)))]"

definition write_zones :: "u32 \<Rightarrow> u8 list \<Rightarrow> zones \<Rightarrow> zones" where
  "write_zones p bs zs = upd_zone (zone_index p zs)
     (\<lambda>m. m\<lparr>header := write_bytes (heap_offset (header m) p) bs (header m)\<rparr>) zs"

text \<open>
  A block that its own region cannot enlarge moves to another one. \<open>oldsize\<close> is read after the
  allocation.
\<close>

definition realloc_elsewhere :: "nat \<Rightarrow> u32 \<Rightarrow> u32 \<Rightarrow> zones \<Rightarrow> (zones \<times> u32 option) res" where
  "realloc_elsewhere i p sz zs =
     bind_res (zones_first (\<lambda>j. j \<noteq> i) 0 (k_firstfit_mem_alloc sz) zs) (\<lambda>(zs1, r). case r of
       None \<Rightarrow> OK (zs1, None)
     | Some q \<Rightarrow>
         if i < length zs1 then
           let oldsize = k_firstfit_mem_ptr_to_size p (snd (zs1 ! i));
               zs2 = write_zones q (read_zones p (unat (if sz < oldsize then sz else oldsize)) zs1) zs1
           in bind_res (k_firstfit_mem_free (Some p) (snd (zs2 ! i))) (\<lambda>m. OK (upd_zone i (\<lambda>_. m) zs2, Some q))
         else Fault NullDeref)"

text \<open>
  For \<^verbatim>\<open>OS_NULL\<close> the local \<^verbatim>\<open>h_mem\<close> has no value when the loop over the other regions compares
  with it.
\<close>

definition zones_realloc :: "u32 option \<Rightarrow> u32 \<Rightarrow> zones \<Rightarrow> (zones \<times> u32 option) res" where
  "zones_realloc ptr sz zs = (case ptr of
     None \<Rightarrow> bind_res (zones_first (\<lambda>_. True) 0 (k_firstfit_mem_alloc sz) zs) (\<lambda>(zs1, r).
       if r = None \<and> zs1 \<noteq> [] then Fault Uninit else OK (zs1, r))
   | Some p \<Rightarrow>
       let i = zone_index p zs
       in if i < length zs then
            bind_res (k_firstfit_mem_realloc (Some p) sz (snd (zs ! i))) (\<lambda>(m, r).
              let zs1 = upd_zone i (\<lambda>_. m) zs
              in if r \<noteq> None then OK (zs1, r) else realloc_elsewhere i p sz zs1)
          else realloc_elsewhere i p sz zs)"

definition os_memheap_realloc :: "nat \<Rightarrow> u32 option \<Rightarrow> u32 \<Rightarrow> heap_sys \<Rightarrow> (heap_sys \<times> u32 option) res" where
  "os_memheap_realloc a ptr sz = with_zones a (zones_realloc ptr sz)"

subsection \<open>Queries\<close>

record os_meminfo =
  info_total :: u32
  info_used :: u32
  info_maxused :: u32

definition os_memheap_info :: "nat \<Rightarrow> heap_sys \<Rightarrow> os_meminfo res" where
  "os_memheap_info a s = os_assert (heap_inited a s)
     (OK (fold (\<lambda>(_, m) info. \<lparr>info_total = info_total info + mem_total m, info_used = info_used info + mem_used m,
              info_maxused = info_maxused info + mem_maxused m\<rparr>)
        (h_mem (memheaps s a)) \<lparr>info_total = 0, info_used = 0, info_maxused = 0\<rparr>))"

text \<open>The check may not end, as that of a region may not.\<close>

fun zones_check :: "zones \<Rightarrow> os_err option" where
  "zones_check [] = Some OS_EOK"
| "zones_check ((a, m) # zs) = Option.bind (k_firstfit_mem_check m) (\<lambda>r. if r \<noteq> OS_EOK then Some r else zones_check zs)"

definition os_memheap_check :: "nat \<Rightarrow> heap_sys \<Rightarrow> os_err option res" where
  "os_memheap_check a s = os_assert (heap_inited a s) (OK (zones_check (h_mem (memheaps s a))))"

subsection \<open>The system heap\<close>

definition gs_sys_heap :: nat where "gs_sys_heap = 0"

definition os_sys_heap_init :: "heap_sys \<Rightarrow> heap_sys" where
  "os_sys_heap_init s =
     (let zero = \<lparr>h_mem = [], mh_object_inited = 0, mh_name = ''''\<rparr>
      in fst (os_memheap_init gs_sys_heap (Some ''SYS_HEAP'') (s\<lparr>memheaps := (memheaps s)(gs_sys_heap := zero)\<rparr>)))"

definition os_sys_heap_add :: "u32 \<Rightarrow> u32 \<Rightarrow> os_mem_alg \<Rightarrow> (nat \<Rightarrow> u32) \<Rightarrow> heap_sys \<Rightarrow> (heap_sys \<times> os_err) res" where
  "os_sys_heap_add = os_memheap_add gs_sys_heap"

definition os_malloc :: "u32 \<Rightarrow> heap_sys \<Rightarrow> (heap_sys \<times> u32 option) res" where
  "os_malloc = os_memheap_alloc gs_sys_heap"

definition os_aligned_malloc :: "u32 \<Rightarrow> u32 \<Rightarrow> heap_sys \<Rightarrow> (heap_sys \<times> u32 option) res" where
  "os_aligned_malloc = os_memheap_aligned_alloc gs_sys_heap"

definition os_realloc :: "u32 option \<Rightarrow> u32 \<Rightarrow> heap_sys \<Rightarrow> (heap_sys \<times> u32 option) res" where
  "os_realloc = os_memheap_realloc gs_sys_heap"

definition os_calloc :: "u32 \<Rightarrow> u32 \<Rightarrow> heap_sys \<Rightarrow> (heap_sys \<times> u32 option) res" where
  "os_calloc count sz s = bind_res (os_memheap_alloc gs_sys_heap (count * sz) s) (\<lambda>(s1, r). case r of
     None \<Rightarrow> OK (s1, None)
   | Some p \<Rightarrow> OK (set_zones gs_sys_heap
       (write_zones p (replicate (unat (count * sz)) 0) (h_mem (memheaps s1 gs_sys_heap))) s1, Some p))"

definition os_free :: "u32 option \<Rightarrow> heap_sys \<Rightarrow> heap_sys res" where
  "os_free = os_memheap_free gs_sys_heap"

definition os_memory_info :: "heap_sys \<Rightarrow> os_meminfo res" where
  "os_memory_info = os_memheap_info gs_sys_heap"

definition os_memory_check :: "heap_sys \<Rightarrow> os_err option res" where
  "os_memory_check = os_memheap_check gs_sys_heap"

end
