(* ===== verification/Memory_Run.thy ===== *)
theory Memory_Run
  imports Os_Memory
begin

unbundle bit_operations_syntax

text \<open>
  The system heap over all its regions: after any additions of free regions and any allowed calls it
  is one store of byte arrays, whose blocks lie in the regions and do not overlap, also when a
  reallocation moves a block from one region to another. The last section holds the calls for
  which the code falls short of its own contract.
\<close>

subsection \<open>Several regions\<close>

definition zone_top :: "heap_mem \<Rightarrow> nat" where
  "zone_top m = unat (hp_addr (header m)) + 8 * unat (hp_len (header m))"

text \<open>The addresses that blocks of a region can have.\<close>

definition zone_range :: "heap_mem \<Rightarrow> u32 set" where
  "zone_range m = {p. unat (hp_addr (header m)) < unat p \<and> unat p < zone_top m}"

text \<open>Every region stands behind its \<^verbatim>\<open>struct heap_mem\<close>; the regions do not overlap.\<close>

definition zones_apart :: "zones \<Rightarrow> bool" where
  "zones_apart zs \<longleftrightarrow>
     (\<forall>i < length zs. unat (fst (zs ! i)) + unat sizeof_heap_mem \<le> unat (hp_addr (header (snd (zs ! i))))) \<and>
     (\<forall>i < length zs. \<forall>j < length zs. i \<noteq> j \<longrightarrow>
       zone_top (snd (zs ! i)) \<le> unat (fst (zs ! j)) \<or> zone_top (snd (zs ! j)) \<le> unat (fst (zs ! i)))"

definition zones_ok :: "zones \<Rightarrow> store \<Rightarrow> bool" where
  "zones_ok zs S \<longleftrightarrow> zones_apart zs \<and>
     (\<forall>i < length zs. \<exists>B. store_ok (snd (zs ! i)) B (S |` zone_range (snd (zs ! i)))) \<and>
     (\<forall>p \<in> dom S. \<exists>i < length zs. p \<in> zone_range (snd (zs ! i)))"

lemma frame_zone:
  assumes "same_frame (header m) (header m')"
  shows "zone_top m' = zone_top m" "zone_range m' = zone_range m" "hp_addr (header m') = hp_addr (header m)"
  using same_frameD[OF assms] by (simp_all add: zone_top_def zone_range_def)

lemma live_in_range:
  assumes S: "store_ok m B S" and p: "S p = Some bs"
  shows "p \<in> zone_range m" "unat p + length bs \<le> zone_top m"
proof -
  note L = live_block[OF S p]
  obtain F where F: "chunks_ok (header m) B" "placed (header m)" using region_heap[OF L(9)] .
  note A = block_address[OF F(2,1) L(2,6)]
  have "0 < unat (k_mem_to_chunkid (header m) p)" using L(4) by (simp add: unat_gt_0)
  then have "0 < heap_offset (header m) p" using L(6) by (auto simp: block_ok_def)
  moreover have "0 < length bs" by (rule L(7))
  ultimately have "unat (hp_addr (header m)) < unat p" "unat p < zone_top m"
    using A(1,3) unfolding zone_top_def by linarith+
  then show "p \<in> zone_range m" "unat p + length bs \<le> zone_top m"
    using A(3) by (simp_all add: zone_range_def zone_top_def)
qed

lemma zone_bounds:
  assumes "region_ok m B"
  shows "mem_in_heap p m \<longleftrightarrow> unat (hp_addr (header m)) \<le> unat p \<and> unat p \<le> zone_top m"
    "mem_upto p m \<longleftrightarrow> unat (hp_addr (header m)) \<le> unat p \<and> unat p \<le> zone_top m"
    "unat (zone_end m) = zone_top m" "zone_top m + 8 \<le> 2 ^ 32" "unat (hp_addr (header m)) < zone_top m"
proof -
  obtain F where F: "chunks_ok (header m) B" "placed (header m)" using region_heap[OF assms] .
  have pl: "unat (hp_addr (header m)) + 8 * unat (hp_len (header m)) + 8 \<le> 2 ^ 32" using F(2) by (simp add: placed_def)
  then show "zone_top m + 8 \<le> 2 ^ 32" by (simp add: zone_top_def)
  have t: "unat (mem_total m) = 8 * unat (hp_len (header m))"
    using assms pl by (simp add: region_ok_def unat_word_ariths)
  show e: "unat (zone_end m) = zone_top m"
    unfolding zone_end_def zone_top_def using t pl by (subst unat_add_lem[THEN iffD1]) simp_all
  show "mem_upto p m \<longleftrightarrow> unat (hp_addr (header m)) \<le> unat p \<and> unat p \<le> zone_top m"
    by (simp add: mem_upto_def word_le_nat_alt e)
  show "mem_in_heap p m \<longleftrightarrow> unat (hp_addr (header m)) \<le> unat p \<and> unat p \<le> zone_top m"
  proof (cases "hp_addr (header m) \<le> p")
    case True
    then show ?thesis using t by (auto simp: mem_in_heap_def word_le_nat_alt unat_sub zone_top_def)
  qed (simp add: mem_in_heap_def word_le_nat_alt)
  have "0 < hp_len (header m)" using chunks_okD(1)[OF F(1)] by (simp add: heap_len_ok_def)
  then have "0 < unat (hp_len (header m))" by (simp add: word_less_nat_alt)
  then show "unat (hp_addr (header m)) < zone_top m" by (simp add: zone_top_def)
qed

lemma zone_indexI:
  assumes "i < length zs" "mem_in_heap p (snd (zs ! i))" "\<And>j. j < i \<Longrightarrow> \<not> mem_in_heap p (snd (zs ! j))"
  shows "zone_index p zs = i"
  using assms
proof (induction zs arbitrary: i)
  case (Cons z zs)
  obtain a m where z: "z = (a, m)" by (cases z)
  show ?case
  proof (cases i)
    case (Suc k)
    have "\<not> mem_in_heap p m" using Cons.prems(3)[of 0] Suc z by simp
    moreover have "zone_index p zs = k"
    proof (rule Cons.IH)
      show "\<not> mem_in_heap p (snd (zs ! j))" if "j < k" for j using Cons.prems(3)[of "Suc j"] Suc that by simp
    qed (use Cons.prems Suc in simp_all)
    ultimately show ?thesis using Suc z by simp
  qed (use Cons.prems z in simp)
qed simp

lemma zones_okD:
  assumes "zones_ok zs S"
  shows "i < length zs \<Longrightarrow> \<exists>B. store_ok (snd (zs ! i)) B (S |` zone_range (snd (zs ! i)))"
    "i < length zs \<Longrightarrow> \<exists>B. region_ok (snd (zs ! i)) B"
    "i < length zs \<Longrightarrow> unat (fst (zs ! i)) + 96 \<le> unat (hp_addr (header (snd (zs ! i))))"
    "i < length zs \<Longrightarrow> j < length zs \<Longrightarrow> i \<noteq> j \<Longrightarrow>
      zone_top (snd (zs ! i)) \<le> unat (fst (zs ! j)) \<or> zone_top (snd (zs ! j)) \<le> unat (fst (zs ! i))"
    "p \<in> dom S \<Longrightarrow> \<exists>i < length zs. p \<in> zone_range (snd (zs ! i))" "zones_apart zs"
  using assms store_okD(1) by (fastforce simp: zones_ok_def zones_apart_def sizeof_heap_mem_def)+

text \<open>The regions do not share an address, not even their ends: the search finds the right one.\<close>

lemma zone_unique:
  assumes Z: "zones_ok zs S" and i: "i < length zs" "p \<in> zone_range (snd (zs ! i))" and j: "j < length zs" "j \<noteq> i"
  shows "\<not> (unat (hp_addr (header (snd (zs ! j)))) \<le> unat p \<and> unat p \<le> zone_top (snd (zs ! j)))"
  using zones_okD(4)[OF Z i(1) j(1)] zones_okD(3)[OF Z i(1)] zones_okD(3)[OF Z j(1)] i(2) j(2)
  by (auto simp: zone_range_def)

lemma zone_found:
  assumes Z: "zones_ok zs S" and i: "i < length zs" "p \<in> zone_range (snd (zs ! i))"
  shows "zone_index p zs = i" "mem_upto p (snd (zs ! i))"
    "j < length zs \<Longrightarrow> j \<noteq> i \<Longrightarrow> \<not> mem_upto p (snd (zs ! j))" "zone_header p zs = header (snd (zs ! i))"
proof -
  obtain B where R: "region_ok (snd (zs ! i)) B" using zones_okD(2)[OF Z i(1)] by blast
  show x: "zone_index p zs = i"
  proof (rule zone_indexI[OF i(1)])
    show "mem_in_heap p (snd (zs ! i))" using i(2) zone_bounds(1)[OF R] by (simp add: zone_range_def)
    fix j assume j: "j < i"
    then have "j < length zs" using i(1) by simp
    then show "\<not> mem_in_heap p (snd (zs ! j))"
      using zone_unique[OF Z i] zones_okD(2)[OF Z] zone_bounds(1) j by blast
  qed
  then show "zone_header p zs = header (snd (zs ! i))" by (simp add: zone_header_def)
  show "mem_upto p (snd (zs ! i))" using i(2) zone_bounds(2)[OF R] by (simp add: zone_range_def)
  show "\<not> mem_upto p (snd (zs ! j))" if "j < length zs" "j \<noteq> i"
    using zone_unique[OF Z i that] zones_okD(2)[OF Z that(1)] zone_bounds(2) by blast
qed


subsection \<open>A call on one region\<close>

lemma length_upd_zone [simp]: "length (upd_zone i f zs) = length zs"
  by (simp add: upd_zone_def)

lemma nth_upd_zone:
  "j < length zs \<Longrightarrow> upd_zone i f zs ! j = (if j = i then (fst (zs ! i), f (snd (zs ! i))) else zs ! j)"
  by (simp add: upd_zone_def nth_list_update)

text \<open>The regions and what does not change about them.\<close>

definition same_zones :: "zones \<Rightarrow> zones \<Rightarrow> bool" where
  "same_zones zs zs' \<longleftrightarrow> length zs' = length zs \<and>
     (\<forall>i < length zs. fst (zs' ! i) = fst (zs ! i) \<and> same_frame (header (snd (zs ! i))) (header (snd (zs' ! i))))"

lemma same_zones_refl [simp]: "same_zones zs zs"
  by (simp add: same_zones_def same_frame_def)

lemma same_zones_trans: "same_zones zs zs' \<Longrightarrow> same_zones zs' zs'' \<Longrightarrow> same_zones zs zs''"
  by (auto simp: same_zones_def intro: same_frame_trans)

lemma same_zones_upd:
  "same_frame (header (snd (zs ! i))) (header m) \<Longrightarrow> same_zones zs (upd_zone i (\<lambda>_. m) zs)"
  by (auto simp: same_zones_def nth_upd_zone same_frame_def)

lemma same_zonesD:
  assumes "same_zones zs zs'" "i < length zs"
  shows "fst (zs' ! i) = fst (zs ! i)" "zone_top (snd (zs' ! i)) = zone_top (snd (zs ! i))"
    "zone_range (snd (zs' ! i)) = zone_range (snd (zs ! i))"
    "hp_addr (header (snd (zs' ! i))) = hp_addr (header (snd (zs ! i)))"
  using assms frame_zone by (auto simp: same_zones_def)

text \<open>One region changes and its blocks become \<open>T\<close>.\<close>

lemma zone_update:
  assumes Z: "zones_ok zs S" and i: "i < length zs" and f: "same_frame (header (snd (zs ! i))) (header m')"
    and T: "store_ok m' B' T"
  shows "zones_ok (upd_zone i (\<lambda>_. m') zs) ((S |` (- zone_range (snd (zs ! i)))) ++ T)"
proof -
  let ?zs = "upd_zone i (\<lambda>_. m') zs" and ?R = "zone_range (snd (zs ! i))"
  let ?S = "(S |` (- ?R)) ++ T"
  note sz = same_zonesD[OF same_zones_upd[OF f]]
  have domT: "dom T \<subseteq> ?R" using live_in_range(1)[OF T] frame_zone(2)[OF f] by auto
  have ap: "zones_apart ?zs" using zones_okD(6)[OF Z] sz by (auto simp: zones_apart_def)
  have st: "\<exists>B. store_ok (snd (?zs ! j)) B (?S |` zone_range (snd (?zs ! j)))" if j: "j < length zs" for j
  proof (cases "j = i")
    case True
    have "?S |` ?R = T" using domT by (auto simp: restrict_map_def map_add_def fun_eq_iff split: option.splits)
    then show ?thesis using T True j frame_zone(2)[OF f] by (auto simp: nth_upd_zone)
  next
    case False
    have "zone_range (snd (zs ! j)) \<inter> ?R = {}"
      using zone_unique[OF Z i _ j False] by (fastforce simp: zone_range_def)
    then have "?S |` zone_range (snd (zs ! j)) = S |` zone_range (snd (zs ! j))"
      using domT by (auto simp: restrict_map_def map_add_def fun_eq_iff split: option.splits)
    then show ?thesis using zones_okD(1)[OF Z j] False j by (simp add: nth_upd_zone)
  qed
  have "\<exists>j < length zs. p \<in> zone_range (snd (?zs ! j))" if "p \<in> dom ?S" for p
    using that domT zones_okD(5)[OF Z] sz(3) i by (fastforce simp: restrict_map_def split: if_splits)
  then show ?thesis using ap st by (simp add: zones_ok_def)
qed

text \<open>The block that a call is about.\<close>

fun call_block :: "heap_call \<Rightarrow> u32 option" where
  "call_block (Malloc n) = None"
| "call_block (Aligned_alloc a n) = None"
| "call_block (Realloc p n) = p"
| "call_block (Free p) = p"
| "call_block (Write p i v) = Some p"

lemma call_local:
  assumes "\<And>p. call_block call = Some p \<Longrightarrow> p \<in> R"
  shows "call_allowed call m (S |` R) = call_allowed call m S"
    "(\<And>q. r = Some q \<Longrightarrow> q \<in> R) \<Longrightarrow> (S |` (- R)) ++ store_after call r h (S |` R) = store_after call r h S"
    "call_spec call (S |` R) r (store_after call r h (S |` R)) \<Longrightarrow> (\<And>q. r = Some q \<Longrightarrow> q \<in> R) \<Longrightarrow>
      call_spec call S r (store_after call r h S)"
  using assms
  by (cases call; force simp: add_block_def drop_block_def restrict_map_def map_add_def fun_eq_iff Let_def
      split: option.splits if_splits)+

lemma call_result_live:
  "call_spec call S (Some q) (store_after call (Some q) h S) \<Longrightarrow> q \<in> dom (store_after call (Some q) h S)"
  by (cases call) (auto simp: add_block_def word_gt_0 split: option.splits)

lemma zone_call:
  assumes Z: "zones_ok zs S" and i: "i < length zs"
    and b: "\<And>p. call_block call = Some p \<Longrightarrow> p \<in> zone_range (snd (zs ! i))"
    and a: "call_allowed call (snd (zs ! i)) S"
  shows "\<exists>m' r. heap_exec call (snd (zs ! i)) = OK (m', r) \<and> same_frame (header (snd (zs ! i))) (header m') \<and>
    zones_ok (upd_zone i (\<lambda>_. m') zs) (store_after call r (header m') S) \<and>
    call_spec call S r (store_after call r (header m') S) \<and> (\<forall>q. r = Some q \<longrightarrow> q \<in> zone_range (snd (zs ! i)))"
proof -
  let ?m = "snd (zs ! i)" and ?R = "zone_range (snd (zs ! i))"
  obtain B where B: "store_ok ?m B (S |` ?R)" using zones_okD(1)[OF Z i] by blast
  have a': "call_allowed call ?m (S |` ?R)" using a call_local(1)[of call ?R ?m S] b by blast
  obtain m' r B' where m': "heap_exec call ?m = OK (m', r)" "same_frame (header ?m) (header m')"
      "store_ok m' B' (store_after call r (header m') (S |` ?R))"
      "call_spec call (S |` ?R) r (store_after call r (header m') (S |` ?R))"
    using heap_call_ok[OF B a'] unfolding call_ok_def by blast
  have r: "q \<in> ?R" if "r = Some q" for q
    using call_result_live live_in_range(1)[OF m'(3)] m'(4) frame_zone(2)[OF m'(2)] that by blast
  show ?thesis
    using m'(1,2) zone_update[OF Z i m'(2,3)] call_local(2)[OF b r] call_local(3)[OF b m'(4) r] r by auto
qed

subsection \<open>The loops over the regions\<close>

text \<open>Where a block was found, and the store with it.\<close>

definition alloc_done :: "heap_call \<Rightarrow> (nat \<Rightarrow> bool) \<Rightarrow> zones \<Rightarrow> store \<Rightarrow> zones \<Rightarrow> u32 option \<Rightarrow> bool" where
  "alloc_done call ok zs S zs' r \<longleftrightarrow> same_zones zs zs' \<and> (\<forall>j < length zs. \<not> ok j \<longrightarrow> zs' ! j = zs ! j) \<and>
     (case r of None \<Rightarrow> zones_ok zs' S
      | Some q \<Rightarrow> (\<exists>i < length zs. ok i \<and> q \<in> zone_range (snd (zs' ! i)) \<and>
          (let S' = store_after call r (header (snd (zs' ! i))) S in zones_ok zs' S' \<and> call_spec call S r S')))"

lemma zones_first_ok:
  assumes c: "\<And>m. call_allowed call m S" "call_block call = None" "\<And>h. store_after call None h S = S"
    and Z: "zones_ok (us @ zs) S"
  shows "\<exists>zs' r. zones_first ok (length us) (heap_exec call) zs = OK (zs', r) \<and>
    alloc_done call ok (us @ zs) S (us @ zs') r"
  using Z
proof (induction zs arbitrary: us)
  case Nil
  then show ?case by (simp add: alloc_done_def)
next
  case (Cons z zs)
  obtain a m where z: "z = (a, m)" by (cases z)
  show ?case
  proof (cases "ok (length us)")
    case False
    obtain zs' r where IH: "zones_first ok (length (us @ [z])) (heap_exec call) zs = OK (zs', r)"
        "alloc_done call ok ((us @ [z]) @ zs) S ((us @ [z]) @ zs') r"
      using Cons.IH[of "us @ [z]"] Cons.prems by auto
    have "zones_first ok (length us) (heap_exec call) (z # zs) = OK (z # zs', r)" using IH(1) False z by simp
    then show ?thesis using IH(2) by (intro exI[of _ "z # zs'"] exI[of _ r]) simp
  next
    case True
    let ?i = "length us"
    have i: "?i < length (us @ z # zs)" "snd ((us @ z # zs) ! ?i) = m" using z by simp_all
    obtain m' r where m': "heap_exec call m = OK (m', r)" "same_frame (header m) (header m')"
        "zones_ok (upd_zone ?i (\<lambda>_. m') (us @ z # zs)) (store_after call r (header m') S)"
        "call_spec call S r (store_after call r (header m') S)" "\<forall>q. r = Some q \<longrightarrow> q \<in> zone_range m"
      using zone_call[OF Cons.prems i(1), of call] c(1,2) i(2) by auto
    have u: "upd_zone ?i (\<lambda>_. m') (us @ z # zs) = us @ (a, m') # zs" by (simp add: upd_zone_def z)
    have sz: "same_zones (us @ z # zs) (us @ (a, m') # zs)" using same_zones_upd[of _ ?i m'] m'(2) i(2) u by metis
    have kept: "(us @ (a, m') # vs) ! j = (us @ z # vs) ! j" if "\<not> ok j" for j vs
      using that True by (cases "j = ?i") (auto simp: nth_append)
    show ?thesis
    proof (cases r)
      case (Some q)
      have "zones_first ok ?i (heap_exec call) (z # zs) = OK ((a, m') # zs, r)" using m'(1) True z Some by simp
      moreover have "alloc_done call ok (us @ z # zs) S (us @ (a, m') # zs) r"
        unfolding alloc_done_def using sz kept m'(3-5) True Some frame_zone(2)[OF m'(2)] i(1)
        by (auto simp: u Let_def intro!: exI[of _ ?i])
      ultimately show ?thesis by blast
    next
      case None
      have Z': "zones_ok ((us @ [(a, m')]) @ zs) S" using m'(3) c(3) None u by simp
      obtain zs' r' where IH: "zones_first ok (length (us @ [(a, m')])) (heap_exec call) zs = OK (zs', r')"
          "alloc_done call ok ((us @ [(a, m')]) @ zs) S ((us @ [(a, m')]) @ zs') r'"
        using Cons.IH[OF Z'] by blast
      have "zones_first ok ?i (heap_exec call) (z # zs) = OK ((a, m') # zs', r')" using m'(1) True z None IH(1) by simp
      moreover have "alloc_done call ok (us @ z # zs) S (us @ (a, m') # zs') r'"
        using IH(2) same_zones_trans[OF sz] kept by (auto simp: alloc_done_def split: option.splits)
      ultimately show ?thesis by blast
    qed
  qed
qed

lemma zones_free_at:
  assumes "i < length zs" "mem_upto p (snd (zs ! i))" "\<And>j. j < i \<Longrightarrow> \<not> mem_upto p (snd (zs ! j))"
    and "k_firstfit_mem_free (Some p) (snd (zs ! i)) = OK m'"
  shows "zones_free p zs = OK (upd_zone i (\<lambda>_. m') zs)"
  using assms(1-4)
proof (induction zs arbitrary: i)
  case (Cons z zs)
  obtain a m where z: "z = (a, m)" by (cases z)
  show ?case
  proof (cases i)
    case (Suc k)
    have "\<not> mem_upto p m" using Cons.prems(3)[of 0] Suc z by simp
    moreover have "zones_free p zs = OK (upd_zone k (\<lambda>_. m') zs)"
    proof (rule Cons.IH)
      show "\<not> mem_upto p (snd (zs ! j))" if "j < k" for j using Cons.prems(3)[of "Suc j"] Suc that by simp
    qed (use Cons.prems Suc in simp_all)
    ultimately show ?thesis using Suc z by (simp add: upd_zone_def)
  qed (use Cons.prems z in \<open>simp add: upd_zone_def\<close>)
qed simp

lemma zones_live:
  assumes Z: "zones_ok zs S" and p: "S p = Some bs"
  obtains i where "i < length zs" "p \<in> zone_range (snd (zs ! i))" "zone_index p zs = i"
    "zone_header p zs = header (snd (zs ! i))" "read_zones p (length bs) zs = bs"
    "\<And>q. q \<in> zone_range (snd (zs ! i)) \<Longrightarrow> zone_header q zs = header (snd (zs ! i))"
proof -
  obtain i where i: "i < length zs" "p \<in> zone_range (snd (zs ! i))" using zones_okD(5)[OF Z] p by blast
  obtain B where B: "store_ok (snd (zs ! i)) B (S |` zone_range (snd (zs ! i)))" using zones_okD(1)[OF Z i(1)] by blast
  have "(S |` zone_range (snd (zs ! i))) p = Some bs" using i(2) p by simp
  from live_block(8)[OF B this] have "read_zones p (length bs) zs = bs"
    using zone_found(4)[OF Z i] by (simp add: read_zones_def)
  then show thesis using that i zone_found[OF Z] by blast
qed

lemma zones_free_ok:
  assumes Z: "zones_ok zs S" and p: "S p = Some bs"
  shows "\<exists>zs'. zones_free p zs = OK zs' \<and> same_zones zs zs' \<and> zones_ok zs' (S(p := None))"
proof -
  obtain i where i: "i < length zs" "p \<in> zone_range (snd (zs ! i))" using zones_live[OF Z p] .
  obtain m' r where m': "heap_exec (Free (Some p)) (snd (zs ! i)) = OK (m', r)"
      "same_frame (header (snd (zs ! i))) (header m')" "zones_ok (upd_zone i (\<lambda>_. m') zs) (S(p := None))"
    using zone_call[OF Z i(1), of "Free (Some p)"] i(2) p by (auto simp: drop_block_def)
  have "k_firstfit_mem_free (Some p) (snd (zs ! i)) = OK m'" using m'(1) by (auto simp: bind_res_eq_OK)
  then have "zones_free p zs = OK (upd_zone i (\<lambda>_. m') zs)"
    using zone_found[OF Z i] i by (intro zones_free_at) auto
  then show ?thesis using same_zones_upd[OF m'(2)] m'(3) by blast
qed

text \<open>Bytes written into a live block.\<close>

lemma zones_write_ok:
  assumes "zones_ok zs S" "S p = Some bs" "zone_index p zs = i" "k + length vs \<le> length bs"
  shows "zones_ok (upd_zone i (\<lambda>m. m\<lparr>header := write_bytes (heap_offset (header m) p + k) vs (header m)\<rparr>) zs)
      (S(p \<mapsto> take k bs @ vs @ drop (k + length vs) bs)) \<and>
    same_zones zs (upd_zone i (\<lambda>m. m\<lparr>header := write_bytes (heap_offset (header m) p + k) vs (header m)\<rparr>) zs)"
  using assms
proof (induction vs arbitrary: zs S bs k)
  case Nil
  have "S(p \<mapsto> take k bs @ drop k bs) = S" using Nil.prems(2) by (simp add: fun_upd_idem)
  moreover have "upd_zone i (\<lambda>m. m\<lparr>header := header m\<rparr>) zs = zs" by (cases "i < length zs") (simp_all add: upd_zone_def)
  ultimately show ?case using Nil.prems(1) by simp
next
  case (Cons v vs)
  let ?m = "snd (zs ! i)"
  let ?m' = "?m\<lparr>header := set_heap_byte (heap_offset (header ?m) p + k) v (header ?m)\<rparr>"
  let ?zs = "upd_zone i (\<lambda>_. ?m') zs" and ?S = "S(p \<mapsto> bs[k := v])"
  have i: "i < length zs" "p \<in> zone_range ?m"
    using zones_live[OF Cons.prems(1,2)] Cons.prems(3) by blast+
  have W: "same_frame (header ?m) (header ?m')" "zones_ok ?zs ?S"
    using zone_call[OF Cons.prems(1) i(1), of "Write p k v"] i(2) Cons.prems(2,4) by auto
  note sz = same_zones_upd[OF W(1)]
  have x: "zone_index p ?zs = i"
    using zone_found(1)[OF W(2)] i frame_zone(2)[OF W(1)] by (simp add: nth_upd_zone)
  have off: "heap_offset (header ?m') p = heap_offset (header ?m) p" using frame_ids(2)[OF W(1)] by simp
  have bytes: "take (Suc k) (bs[k := v]) @ vs @ drop (Suc k + length vs) (bs[k := v]) =
      take k bs @ (v # vs) @ drop (k + length (v # vs)) bs"
    using Cons.prems(4) by (simp add: take_Suc_conv_app_nth)
  have rest: "upd_zone i (\<lambda>m. m\<lparr>header := write_bytes (heap_offset (header m) p + Suc k) vs (header m)\<rparr>) ?zs =
      upd_zone i (\<lambda>m. m\<lparr>header := write_bytes (heap_offset (header m) p + k) (v # vs) (header m)\<rparr>) zs"
    using i(1) off by (simp add: upd_zone_def)
  have "?S p = Some (bs[k := v])" "Suc k + length vs \<le> length (bs[k := v])" using Cons.prems(4) by simp_all
  from Cons.IH[OF W(2) this(1) x this(2)] show ?case
    unfolding bytes rest fun_upd_upd using same_zones_trans[OF sz] by blast
qed

subsection \<open>Blocks that move to another region\<close>

definition new_block :: "u32 option \<Rightarrow> u32 \<Rightarrow> zones \<Rightarrow> store \<Rightarrow> store \<Rightarrow> store" where
  "new_block r n zs S0 S = (case r of None \<Rightarrow> S0 | Some q \<Rightarrow> S(q \<mapsto> read_zones q (unat n) zs))"

lemma add_block_new:
  assumes Z: "zones_ok zs S'" and i: "i < length zs" and r: "\<And>q. r = Some q \<Longrightarrow> q \<in> zone_range (snd (zs ! i))"
  shows "add_block r n (header (snd (zs ! i))) S0 S = new_block r n zs S0 S"
  using zone_found(4)[OF Z i r] by (simp add: add_block_def new_block_def read_zones_def Let_def split: option.splits)

lemma read_zones_take:
  "k \<le> n \<Longrightarrow> k \<le> n' \<Longrightarrow> take k (read_zones p n zs) = take k (read_zones p n' zs)"
  by (simp add: read_zones_def read_bytes_def Let_def take_map)

lemma length_read_zones [simp]: "length (read_zones p n zs) = n"
  by (simp add: read_zones_def Let_def)

text \<open>The size that the old region reports for a block is at least what was asked for.\<close>

lemma live_block_size:
  assumes S: "store_ok m B S" and p: "S p = Some bs"
    and pl: "k_chunk_mem (header m) (k_mem_to_chunkid (header m) p) = OK p"
  shows "length bs \<le> unat (k_firstfit_mem_ptr_to_size p m)"
proof -
  let ?h = "header m" and ?c = "k_mem_to_chunkid (header m) p"
  let ?s = "k_chunk_size ?h ?c"
  note L = live_block[OF S p]
  obtain F where F: "chunks_ok ?h B" "placed ?h" using region_heap[OF L(9)] .
  have len: "?c < hp_len ?h" using chunks_okD(4)[OF F(1) L(2)] L(5) by simp
  have off: "heap_offset ?h p = 8 * unat ?c + header_bytes ?h"
    using pl k_chunk_mem_ok[OF F(2) len] block_at_chunk[OF F(2) len] by simp
  have hs: "header_bytes ?h + length bs \<le> 8 * unat ?s" using L(6) off by (simp add: block_ok_def)
  have se: "unat ?c + unat ?s \<le> unat (hp_len ?h)" by (rule chunk_end(2)[OF F(1) L(2)])
  have "unat (?s * 8) = 8 * unat ?s" using se F(2) by (simp add: placed_def unat_word_ariths)
  then have "unat (k_firstfit_mem_ptr_to_size p m) = 8 * unat ?s - header_bytes ?h"
    unfolding k_firstfit_mem_ptr_to_size_def k_chunksz_to_bytes_def CHUNK_UNIT_def using hs
    by (subst unat_sub) (simp_all add: word_le_nat_alt)
  then show ?thesis using hs by simp
qed

text \<open>What reallocation does to the store.\<close>

definition realloc_done :: "u32 \<Rightarrow> u32 \<Rightarrow> zones \<Rightarrow> store \<Rightarrow> zones \<Rightarrow> u32 option \<Rightarrow> bool" where
  "realloc_done p n zs S zs' r \<longleftrightarrow> same_zones zs zs' \<and>
     (let S' = (if n = 0 then S(p := None) else new_block r n zs' S (S(p := None)))
      in zones_ok zs' S' \<and> call_spec (Realloc (Some p) n) S r S')"

lemma heap_exec_fun:
  "heap_exec (Malloc n) = k_firstfit_mem_alloc n" "heap_exec (Aligned_alloc a n) = k_firstfit_mem_aligned_alloc a n"
  by (simp_all add: fun_eq_iff)

lemma elsewhere_none:
  assumes Z: "zones_ok zs S" and r: "zones_first ok 0 (k_firstfit_mem_alloc 0) zs = OK (zs', r)"
  shows "r = None" "zones_ok zs' S" "same_zones zs zs'"
proof -
  have "call_allowed (Malloc 0) m S" for m by simp
  then have A: "alloc_done (Malloc 0) ok zs S zs' r"
    using zones_first_ok[of "Malloc 0" S "[]" zs ok] Z r by (auto simp: add_block_def heap_exec_fun)
  then show "r = None" by (auto simp: alloc_done_def Let_def split: option.splits)
  with A show "zones_ok zs' S" "same_zones zs zs'" by (simp_all add: alloc_done_def)
qed

lemma realloc_elsewhere_ok:
  assumes Z: "zones_ok zs S" and p: "S p = Some bs" and i: "zone_index p zs = i"
    and pl: "k_chunk_mem (zone_header p zs) (k_mem_to_chunkid (zone_header p zs) p) = OK p"
    and n: "0 < n" "unat n + 16 \<le> 2 ^ 32"
  shows "\<exists>zs' r. realloc_elsewhere i p n zs = OK (zs', r) \<and> realloc_done p n zs S zs' r"
proof -
  have ir: "i < length zs" "p \<in> zone_range (snd (zs ! i))" "zone_header p zs = header (snd (zs ! i))"
    using zones_live[OF Z p] i by blast+
  have n0: "n \<noteq> 0" "0 < unat n" using n(1) by (auto simp: word_less_nat_alt)
  have al: "call_allowed (Malloc n) m S" for m using n(2) by simp
  obtain zs1 r where F: "zones_first (\<lambda>j. j \<noteq> i) 0 (k_firstfit_mem_alloc n) zs = OK (zs1, r)"
      "alloc_done (Malloc n) (\<lambda>j. j \<noteq> i) zs S zs1 r"
    using zones_first_ok[of "Malloc n" S "[]" zs "\<lambda>j. j \<noteq> i"] al Z by (auto simp: add_block_def heap_exec_fun)
  have sz1: "same_zones zs zs1" and keep: "zs1 ! i = zs ! i" using F(2) ir(1) by (auto simp: alloc_done_def)
  have l1: "length zs1 = length zs" using sz1 by (simp add: same_zones_def)
  show ?thesis
  proof (cases r)
    case None
    then have "zones_ok zs1 S" using F(2) by (simp add: alloc_done_def)
    then have "realloc_done p n zs S zs1 None" using sz1 n0 by (simp add: realloc_done_def new_block_def)
    then show ?thesis using F(1) None by (auto simp: realloc_elsewhere_def)
  next
    case (Some q)
    obtain j where j: "j < length zs" "j \<noteq> i" "q \<in> zone_range (snd (zs1 ! j))"
        "zones_ok zs1 (S(q \<mapsto> read_bytes (header (snd (zs1 ! j))) (heap_offset (header (snd (zs1 ! j))) q) (unat n)))"
        "S q = None" "unat q mod 4 = 0"
      using F(2) Some by (auto simp: alloc_done_def add_block_def Let_def)
    define old where "old = read_bytes (header (snd (zs1 ! j))) (heap_offset (header (snd (zs1 ! j))) q) (unat n)"
    define S1 where "S1 = S(q \<mapsto> old)"
    have Z1: "zones_ok zs1 S1" and lold: "length old = unat n" using j(4) by (simp_all add: S1_def old_def)
    have pq: "p \<noteq> q" using p j(5) by auto
    have p1: "S1 p = Some bs" and q1: "S1 q = Some old" using p pq by (simp_all add: S1_def)
    have xq: "zone_index q zs1 = j" using zone_found(1)[OF Z1] j(1,3) l1 by simp
    obtain B where B: "store_ok (snd (zs ! i)) B (S |` zone_range (snd (zs ! i)))" using zones_okD(1)[OF Z ir(1)] by blast
    define osz where "osz = k_firstfit_mem_ptr_to_size p (snd (zs1 ! i))"
    have osz: "length bs \<le> unat osz"
      unfolding osz_def keep using ir(2,3) p pl by (intro live_block_size[OF B]) simp_all
    define k where "k = unat (if n < osz then n else osz)"
    have k: "k \<le> unat n" "min (unat n) (length bs) \<le> k" using osz by (auto simp: k_def word_less_nat_alt)
    define cp where "cp = read_zones p k zs1"
    have lcp: "length cp = k" by (simp add: cp_def)
    define zs2 where "zs2 = write_zones q cp zs1"
    define S2 where "S2 = S1(q \<mapsto> cp @ drop k old)"
    have W: "zones_ok zs2 S2" "same_zones zs1 zs2"
      using zones_write_ok[OF Z1 q1 xq, of 0 cp] lcp k(1) lold by (simp_all add: zs2_def S2_def write_zones_def xq)
    have p2: "S2 p = Some bs" using p1 pq by (simp add: S2_def)
    have i2: "i < length zs2" "p \<in> zone_range (snd (zs2 ! i))"
      using W(2) l1 ir(1,2) same_zonesD(3)[OF W(2)] keep by (simp_all add: same_zones_def)
    obtain m' r' where m': "heap_exec (Free (Some p)) (snd (zs2 ! i)) = OK (m', r')"
        "same_frame (header (snd (zs2 ! i))) (header m')" "zones_ok (upd_zone i (\<lambda>_. m') zs2) (S2(p := None))"
      using zone_call[OF W(1) i2(1), of "Free (Some p)"] i2(2) p2 by (auto simp: drop_block_def)
    have fr: "k_firstfit_mem_free (Some p) (snd (zs2 ! i)) = OK m'" using m'(1) by (auto simp: bind_res_eq_OK)
    define zs3 where "zs3 = upd_zone i (\<lambda>_. m') zs2"
    have run: "realloc_elsewhere i p n zs = OK (zs3, Some q)"
      using F(1) Some ir(1) l1 fr by (simp add: realloc_elsewhere_def zs3_def Let_def osz_def[symmetric] k_def[symmetric] cp_def[symmetric] zs2_def[symmetric])
    have sz3: "same_zones zs zs3"
      using same_zones_trans[OF same_zones_trans[OF sz1 W(2)] same_zones_upd[OF m'(2)]] by (simp add: zs3_def)
    have Z3: "zones_ok zs3 (S2(p := None))" using m'(3) by (simp add: zs3_def)
    have "(S2(p := None)) q = Some (cp @ drop k old)" using pq by (simp add: S2_def)
    from zones_live[OF Z3 this] have rq: "read_zones q (unat n) zs3 = cp @ drop k old"
      using lcp lold k(1) by (metis length_append length_drop le_add_diff_inverse)
    have S3: "S2(p := None) = new_block (Some q) n zs3 S (S(p := None))"
      using pq by (auto simp: new_block_def rq S2_def S1_def fun_eq_iff)
    have "read_zones p (length bs) zs1 = bs" using zones_live[OF Z1 p1] .
    then have "take (min (unat n) (length bs)) cp = take (min (unat n) (length bs)) bs"
      using read_zones_take[of "min (unat n) (length bs)" k "length bs" p zs1] k(2) by (simp add: cp_def)
    then have "call_spec (Realloc (Some p) n) S (Some q) (new_block (Some q) n zs3 S (S(p := None)))"
      using n0(1) p j(5,6) pq k(2) lcp by (simp add: new_block_def rq drop_block_def Let_def)
    then have "realloc_done p n zs S zs3 (Some q)" using sz3 Z3 S3 n0(1) by (simp add: realloc_done_def)
    then show ?thesis using run by blast
  qed
qed

lemma k_chunk_mem_frame:
  assumes "same_frame h h'"
  shows "k_chunk_mem h' c = k_chunk_mem h c"
  using same_frameD[OF assms] by (simp add: k_chunk_mem_def)

lemma realloc_done_trans:
  "same_zones zs zs1 \<Longrightarrow> realloc_done p n zs1 S zs' r \<Longrightarrow> realloc_done p n zs S zs' r"
  by (auto simp: realloc_done_def intro: same_zones_trans)

lemma zones_realloc_ok:
  assumes Z: "zones_ok zs S" and p: "S p = Some bs" and n: "unat n + 16 \<le> 2 ^ 32"
    and pl: "k_chunk_mem (zone_header p zs) (k_mem_to_chunkid (zone_header p zs) p) = OK p"
  shows "\<exists>zs' r. zones_realloc (Some p) n zs = OK (zs', r) \<and> realloc_done p n zs S zs' r"
proof -
  obtain i where i: "i < length zs" "p \<in> zone_range (snd (zs ! i))" "zone_index p zs = i"
      "zone_header p zs = header (snd (zs ! i))"
    using zones_live[OF Z p] .
  let ?m = "snd (zs ! i)"
  have a: "call_allowed (Realloc (Some p) n) ?m S" using n p pl i(4) by simp
  obtain m' r where m': "heap_exec (Realloc (Some p) n) ?m = OK (m', r)" "same_frame (header ?m) (header m')"
      "zones_ok (upd_zone i (\<lambda>_. m') zs) (store_after (Realloc (Some p) n) r (header m') S)"
      "call_spec (Realloc (Some p) n) S r (store_after (Realloc (Some p) n) r (header m') S)"
      "\<forall>q. r = Some q \<longrightarrow> q \<in> zone_range ?m"
    using zone_call[OF Z i(1) _ a] i(2) by auto
  define zs1 where "zs1 = upd_zone i (\<lambda>_. m') zs"
  note Z1 = m'(3)[folded zs1_def]
  have sz: "same_zones zs zs1" using same_zones_upd[OF m'(2)] by (simp add: zs1_def)
  have i1: "i < length zs1" "snd (zs1 ! i) = m'" using i(1) by (simp_all add: zs1_def nth_upd_zone)
  have op: "zones_realloc (Some p) n zs = (if r \<noteq> None then OK (zs1, r) else realloc_elsewhere i p n zs1)"
    using m'(1) i(1,3) by (simp add: zones_realloc_def Let_def zs1_def)
  consider q where "r = Some q" | "r = None" "n = 0" | "r = None" "n \<noteq> 0" by blast
  then show ?thesis
  proof cases
    case 1
    have n0: "n \<noteq> 0" using m'(4) 1 by simp
    have "add_block r n (header m') S (drop_block (Some p) S) = new_block r n zs1 S (S(p := None))"
      using add_block_new[OF Z1 i1(1), of r] m'(5) frame_zone(2)[OF m'(2)] i1(2) by (simp add: drop_block_def)
    then have "realloc_done p n zs S zs1 r" using sz Z1 m'(4) n0 by (simp add: realloc_done_def)
    then show ?thesis using op 1 by auto
  next
    case 2
    then have Z2: "zones_ok zs1 (S(p := None))" using Z1 by (simp add: drop_block_def)
    have al: "call_allowed (Malloc 0) m T" for m T by simp
    obtain zs2 r2 where F: "zones_first (\<lambda>j. j \<noteq> i) 0 (k_firstfit_mem_alloc 0) zs1 = OK (zs2, r2)"
      using zones_first_ok[of "Malloc 0" "S(p := None)" "[]" zs1 "\<lambda>j. j \<noteq> i"] al Z2 by (auto simp: add_block_def heap_exec_fun)
    note E = elsewhere_none[OF Z2 F]
    have "realloc_elsewhere i p 0 zs1 = OK (zs2, None)" using F E(1) by (simp add: realloc_elsewhere_def)
    moreover have "realloc_done p 0 zs S zs2 None"
      using E(2) same_zones_trans[OF sz E(3)] by (simp add: realloc_done_def)
    ultimately show ?thesis using op 2 by auto
  next
    case 3
    then have Z1': "zones_ok zs1 S" using Z1 by (simp add: add_block_def)
    have "p \<in> zone_range (snd (zs1 ! i))" using i(2) i1(2) frame_zone(2)[OF m'(2)] by simp
    note f = zone_found[OF Z1' i1(1) this]
    have "k_chunk_mem (zone_header p zs1) (k_mem_to_chunkid (zone_header p zs1) p) = OK p"
      using pl i(4) f(4) i1(2) k_chunk_mem_frame[OF m'(2)] frame_ids(1)[OF m'(2)] by simp
    from realloc_elsewhere_ok[OF Z1' p f(1) this, of n] 3 n obtain zs' r' where
      "realloc_elsewhere i p n zs1 = OK (zs', r')" "realloc_done p n zs1 S zs' r'"
      by (auto simp: word_gt_0)
    then show ?thesis using op 3 realloc_done_trans[OF sz] by auto
  qed
qed

subsection \<open>Calls on the system heap\<close>

datatype os_call =
    Os_malloc u32
  | Os_aligned_malloc u32 u32
  | Os_realloc u32 u32
  | Os_calloc u32 u32
  | Os_free u32
  | Store_byte u32 nat u8

definition sys_zones :: "heap_sys \<Rightarrow> zones" where
  "sys_zones s = h_mem (memheaps s gs_sys_heap)"

text \<open>\<open>Store_byte\<close> is a client that stores a byte in its block.\<close>

fun os_exec :: "os_call \<Rightarrow> heap_sys \<Rightarrow> (heap_sys \<times> u32 option) res" where
  "os_exec (Os_malloc n) s = os_malloc n s"
| "os_exec (Os_aligned_malloc a n) s = os_aligned_malloc a n s"
| "os_exec (Os_realloc p n) s = os_realloc (Some p) n s"
| "os_exec (Os_calloc c n) s = os_calloc c n s"
| "os_exec (Os_free p) s = bind_res (os_free (Some p) s) (\<lambda>s'. OK (s', None))"
| "os_exec (Store_byte p i v) s = OK (set_zones gs_sys_heap (upd_zone (zone_index p (sys_zones s))
     (\<lambda>m. m\<lparr>header := write_bytes (heap_offset (header m) p + i) [v] (header m)\<rparr>) (sys_zones s)) s, None)"

text \<open>
  What a client may call: sizes that do not wrap round, alignments that are powers of two, and only
  its own live blocks, without the blocks of \<^verbatim>\<open>os_aligned_malloc\<close> that \<^verbatim>\<open>os_realloc\<close> misplaces.
\<close>

fun os_allowed :: "os_call \<Rightarrow> heap_sys \<Rightarrow> store \<Rightarrow> bool" where
  "os_allowed (Os_malloc n) s S \<longleftrightarrow> unat n + 16 \<le> 2 ^ 32"
| "os_allowed (Os_aligned_malloc a n) s S \<longleftrightarrow> a AND (a - 1) = 0 \<and> unat n + unat a + 16 \<le> 2 ^ 32"
| "os_allowed (Os_realloc p n) s S \<longleftrightarrow> unat n + 16 \<le> 2 ^ 32 \<and> S p \<noteq> None \<and>
     (let h = zone_header p (sys_zones s) in k_chunk_mem h (k_mem_to_chunkid h p) = OK p)"
| "os_allowed (Os_calloc c n) s S \<longleftrightarrow> unat c * unat n + 16 \<le> 2 ^ 32"
| "os_allowed (Os_free p) s S \<longleftrightarrow> S p \<noteq> None"
| "os_allowed (Store_byte p i v) s S \<longleftrightarrow> (case S p of None \<Rightarrow> False | Some bs \<Rightarrow> i < length bs)"

text \<open>The store after a call that returned \<open>r\<close>; the contents of a new block are read from the heap.\<close>

fun os_after :: "os_call \<Rightarrow> u32 option \<Rightarrow> heap_sys \<Rightarrow> store \<Rightarrow> store" where
  "os_after (Os_malloc n) r s S = new_block r n (sys_zones s) S S"
| "os_after (Os_aligned_malloc a n) r s S = new_block r n (sys_zones s) S S"
| "os_after (Os_realloc p n) r s S =
     (if n = 0 then S(p := None) else new_block r n (sys_zones s) S (S(p := None)))"
| "os_after (Os_calloc c n) r s S = new_block r (c * n) (sys_zones s) S S"
| "os_after (Os_free p) r s S = S(p := None)"
| "os_after (Store_byte p i v) r s S = (case S p of None \<Rightarrow> S | Some bs \<Rightarrow> S(p \<mapsto> bs[i := v]))"

text \<open>
  What a client may rely on, from the store before and after: a new block is not among the live
  ones and is aligned, a reallocated block begins with the contents of the old one, wherever it
  moved, and the block of \<^verbatim>\<open>os_calloc\<close> is zero.
\<close>

fun os_spec :: "os_call \<Rightarrow> store \<Rightarrow> u32 option \<Rightarrow> store \<Rightarrow> bool" where
  "os_spec (Os_malloc n) S r S' \<longleftrightarrow> call_spec (Malloc n) S r S'"
| "os_spec (Os_aligned_malloc a n) S r S' \<longleftrightarrow> call_spec (Aligned_alloc a n) S r S'"
| "os_spec (Os_realloc p n) S r S' \<longleftrightarrow> call_spec (Realloc (Some p) n) S r S'"
| "os_spec (Os_calloc c n) S r S' \<longleftrightarrow> call_spec (Malloc (c * n)) S r S' \<and>
     (\<forall>p. r = Some p \<longrightarrow> S' p = Some (replicate (unat c * unat n) 0))"
| "os_spec (Os_free p) S r S' \<longleftrightarrow> r = None"
| "os_spec (Store_byte p i v) S r S' \<longleftrightarrow> r = None"

subsection \<open>The invariant of the system heap\<close>

definition sys_ok :: "heap_sys \<Rightarrow> store \<Rightarrow> bool" where
  "sys_ok s S \<longleftrightarrow> heap_list s = [gs_sys_heap] \<and> heap_inited gs_sys_heap s \<and> zones_ok (sys_zones s) S"

lemma set_zones_simps [simp]:
  "sys_zones (set_zones gs_sys_heap zs s) = zs" "heap_list (set_zones a zs s) = heap_list s"
  "heap_inited b (set_zones a zs s) = heap_inited b s"
  "set_zones a zs (set_zones a zs' s) = set_zones a zs s"
  by (simp_all add: set_zones_def sys_zones_def heap_inited_def)

lemma with_zones_sys:
  assumes "sys_ok s S" "f (sys_zones s) = OK (zs, r)"
  shows "with_zones gs_sys_heap f s = OK (set_zones gs_sys_heap zs s, r)"
  using assms by (simp add: with_zones_def sys_ok_def sys_zones_def)

lemma sys_ok_zones: "sys_ok s S \<Longrightarrow> zones_ok zs S' \<Longrightarrow> sys_ok (set_zones gs_sys_heap zs s) S'"
  by (simp add: sys_ok_def)

definition os_call_ok :: "os_call \<Rightarrow> heap_sys \<Rightarrow> store \<Rightarrow> bool" where
  "os_call_ok call s S \<longleftrightarrow> (\<exists>s' r. os_exec call s = OK (s', r) \<and> sys_ok s' (os_after call r s' S) \<and>
     os_spec call S r (os_after call r s' S))"

text \<open>Allocations, plain and aligned.\<close>

lemma sys_alloc_ok:
  assumes s: "sys_ok s S" and c: "\<And>m. call_allowed call m S" "call_block call = None"
    and n: "\<And>r h. store_after call r h S = add_block r n h S S"
  shows "\<exists>zs r. with_zones gs_sys_heap (zones_first (\<lambda>_. True) 0 (heap_exec call)) s = OK (set_zones gs_sys_heap zs s, r) \<and>
    zones_ok zs (new_block r n zs S S) \<and> (r \<noteq> None \<longrightarrow> call_spec call S r (new_block r n zs S S))"
proof -
  have Z: "zones_ok (sys_zones s) S" using s by (simp add: sys_ok_def)
  obtain zs r where F: "zones_first (\<lambda>_. True) 0 (heap_exec call) (sys_zones s) = OK (zs, r)"
      "alloc_done call (\<lambda>_. True) (sys_zones s) S zs r"
    using zones_first_ok[of call S "[]" "sys_zones s" "\<lambda>_. True"] Z c n by (auto simp: add_block_def)
  have "zones_ok zs (new_block r n zs S S) \<and> (r \<noteq> None \<longrightarrow> call_spec call S r (new_block r n zs S S))"
  proof (cases r)
    case None
    then show ?thesis using F(2) by (simp add: alloc_done_def new_block_def)
  next
    case (Some q)
    obtain i where i: "i < length zs" "q \<in> zone_range (snd (zs ! i))"
        "zones_ok zs (add_block r n (header (snd (zs ! i))) S S)"
        "call_spec call S r (add_block r n (header (snd (zs ! i))) S S)"
      using F(2) Some n by (auto simp: alloc_done_def Let_def same_zones_def)
    have "add_block r n (header (snd (zs ! i))) S S = new_block r n zs S S"
      using add_block_new[OF i(3,1), of r n S S] i(2) Some by simp
    then show ?thesis using i(3,4) by simp
  qed
  then show ?thesis using with_zones_sys[of s S "zones_first (\<lambda>_. True) 0 (heap_exec call)", OF s F(1)] by blast
qed

lemma os_malloc_call_ok:
  assumes s: "sys_ok s S" and a: "unat n + 16 \<le> 2 ^ 32"
  shows "os_call_ok (Os_malloc n) s S"
proof -
  obtain zs r where M: "os_exec (Os_malloc n) s = OK (set_zones gs_sys_heap zs s, r)" "zones_ok zs (new_block r n zs S S)"
      "r \<noteq> None \<longrightarrow> call_spec (Malloc n) S r (new_block r n zs S S)"
    using sys_alloc_ok[OF s, of "Malloc n" n] a by (auto simp: os_malloc_def os_memheap_alloc_def heap_exec_fun)
  have "os_spec (Os_malloc n) S r (new_block r n zs S S)" using M(3) by (cases r) simp_all
  then show ?thesis using M(1) sys_ok_zones[OF s M(2)] by (auto simp: os_call_ok_def)
qed

lemma os_aligned_call_ok:
  assumes s: "sys_ok s S" and a: "os_allowed (Os_aligned_malloc al n) s S"
  shows "os_call_ok (Os_aligned_malloc al n) s S"
proof -
  obtain zs r where M: "os_exec (Os_aligned_malloc al n) s = OK (set_zones gs_sys_heap zs s, r)"
      "zones_ok zs (new_block r n zs S S)"
      "r \<noteq> None \<longrightarrow> call_spec (Aligned_alloc al n) S r (new_block r n zs S S)"
    using sys_alloc_ok[OF s, of "Aligned_alloc al n" n] a
    by (auto simp: os_aligned_malloc_def os_memheap_aligned_alloc_def heap_exec_fun)
  have "os_spec (Os_aligned_malloc al n) S r (new_block r n zs S S)" using M(3) by (cases r) simp_all
  then show ?thesis using M(1) sys_ok_zones[OF s M(2)] by (auto simp: os_call_ok_def)
qed

lemma os_calloc_call_ok:
  assumes s: "sys_ok s S" and a: "unat c * unat n + 16 \<le> 2 ^ 32"
  shows "os_call_ok (Os_calloc c n) s S"
proof -
  have u: "unat (c * n) = unat c * unat n" using a by (simp add: unat_word_ariths)
  obtain zs r where M: "os_memheap_alloc gs_sys_heap (c * n) s = OK (set_zones gs_sys_heap zs s, r)"
      "zones_ok zs (new_block r (c * n) zs S S)"
      "r \<noteq> None \<longrightarrow> call_spec (Malloc (c * n)) S r (new_block r (c * n) zs S S)"
    using sys_alloc_ok[OF s, of "Malloc (c * n)" "c * n"] a u by (auto simp: os_memheap_alloc_def heap_exec_fun)
  show ?thesis
  proof (cases r)
    case None
    then show ?thesis using M sys_ok_zones[OF s]
      by (auto simp: os_call_ok_def os_calloc_def new_block_def)
  next
    case (Some p)
    let ?bs = "read_zones p (unat (c * n)) zs" and ?z = "replicate (unat (c * n)) (0 :: u8)"
    define zs' where "zs' = write_zones p ?z zs"
    have Z: "zones_ok zs (S(p \<mapsto> ?bs))" using M(2) Some by (simp add: new_block_def)
    have Z': "zones_ok zs' (S(p \<mapsto> ?z))"
      using zones_write_ok[OF Z _ refl, of p ?bs 0 ?z] by (simp add: zs'_def write_zones_def)
    have "read_zones p (unat (c * n)) zs' = ?z" using zones_live[OF Z', of p ?z] by fastforce
    then have n: "new_block r (c * n) zs' S S = S(p \<mapsto> ?z)" using Some by (simp add: new_block_def)
    have "os_exec (Os_calloc c n) s = OK (set_zones gs_sys_heap zs' s, r)"
      using M(1) Some by (simp add: os_calloc_def zs'_def sys_zones_def[symmetric])
    moreover have "os_spec (Os_calloc c n) S r (S(p \<mapsto> ?z))" using M(3) Some u by simp
    ultimately show ?thesis using sys_ok_zones[OF s Z'] n by (auto simp: os_call_ok_def)
  qed
qed

lemma os_realloc_call_ok:
  assumes s: "sys_ok s S" and a: "os_allowed (Os_realloc p n) s S"
  shows "os_call_ok (Os_realloc p n) s S"
proof -
  have Z: "zones_ok (sys_zones s) S" using s by (simp add: sys_ok_def)
  obtain bs where bs: "S p = Some bs" using a by auto
  obtain zs r where R: "zones_realloc (Some p) n (sys_zones s) = OK (zs, r)" "realloc_done p n (sys_zones s) S zs r"
    using zones_realloc_ok[OF Z bs, of n] a by (auto simp: Let_def)
  have "os_exec (Os_realloc p n) s = OK (set_zones gs_sys_heap zs s, r)"
    using with_zones_sys[of s S "zones_realloc (Some p) n", OF s R(1)] by (simp add: os_realloc_def os_memheap_realloc_def)
  moreover let ?S = "os_after (Os_realloc p n) r (set_zones gs_sys_heap zs s) S"
  have "zones_ok zs ?S" "os_spec (Os_realloc p n) S r ?S" 
    using R(2) unfolding realloc_done_def Let_def os_after.simps os_spec.simps set_zones_simps by blast+
  ultimately show ?thesis using sys_ok_zones[OF s] unfolding os_call_ok_def by blast
qed

lemma os_free_call_ok:
  assumes s: "sys_ok s S" and a: "S p \<noteq> None"
  shows "os_call_ok (Os_free p) s S"
proof -
  have Z: "zones_ok (sys_zones s) S" using s by (simp add: sys_ok_def)
  obtain bs where bs: "S p = Some bs" using a by auto
  obtain zs where F: "zones_free p (sys_zones s) = OK zs" "zones_ok zs (S(p := None))"
    using zones_free_ok[OF Z bs] by blast
  have "os_exec (Os_free p) s = OK (set_zones gs_sys_heap zs s, None)"
    using F(1) s by (simp add: os_free_def os_memheap_free_def sys_ok_def sys_zones_def[symmetric])
  then show ?thesis using sys_ok_zones[OF s F(2)] by (auto simp: os_call_ok_def)
qed

lemma store_byte_call_ok:
  assumes s: "sys_ok s S" and a: "S p = Some bs" "i < length bs"
  shows "os_call_ok (Store_byte p i v) s S"
proof -
  have Z: "zones_ok (sys_zones s) S" using s by (simp add: sys_ok_def)
  have "bs[i := v] = take i bs @ [v] @ drop (Suc i) bs" using a(2) by (simp add: upd_conv_take_nth_drop)
  then show ?thesis using zones_write_ok[OF Z a(1) refl, of i "[v]"] sys_ok_zones[OF s] a
    by (simp add: os_call_ok_def)
qed

theorem os_call_allowed_ok:
  assumes "sys_ok s S" "os_allowed call s S"
  shows "os_call_ok call s S"
proof (cases call)
  case (Os_malloc n)
  then show ?thesis using os_malloc_call_ok assms by simp
next
  case (Os_aligned_malloc al n)
  then show ?thesis using os_aligned_call_ok assms by blast
next
  case (Os_realloc p n)
  then show ?thesis using os_realloc_call_ok assms by blast
next
  case (Os_calloc c n)
  then show ?thesis using os_calloc_call_ok assms by simp
next
  case (Os_free p)
  then show ?thesis using os_free_call_ok assms by simp
next
  case (Store_byte p i v)
  then show ?thesis using store_byte_call_ok[OF assms(1)] assms(2) by (auto split: option.splits)
qed

subsection \<open>Adding a region\<close>

text \<open>A region that is large enough and shares no byte with the regions of the heap.\<close>

definition region_free :: "u32 \<Rightarrow> u32 \<Rightarrow> zones \<Rightarrow> bool" where
  "region_free start sz zs \<longleftrightarrow> unat start + unat sz < 2 ^ 32 \<and> 360 \<le> unat sz \<and>
     (\<forall>(a, m) \<in> set zs. unat start + unat sz \<le> unat a \<or> unat (zone_end m) \<le> unat start)"

lemma align_bounds:
  assumes r: "unat start + unat sz < 2 ^ 32" "360 \<le> unat sz"
  defines "st \<equiv> os_align_up start"
  defines "n \<equiv> os_align_down (start + sz - st)"
  shows "st < start + sz" "unat start \<le> unat st" "unat st + unat n \<le> unat start + unat sz" "352 \<le> unat n"
proof -
  have "os_align_up start = ROUND_UP start (2 ^ 2)" by (simp add: os_align_up_def ROUND_UP_def add.commute)
  then have st: "unat start \<le> unat st" "unat st < unat start + 4"
    using ROUND_UP_power[of 2 start] r by (simp_all add: st_def)
  have e: "unat (start + sz) = unat start + unat sz" using r by (subst unat_add_lem[THEN iffD1]) simp_all
  show "unat start \<le> unat st" by (rule st(1))
  show lt: "st < start + sz" using st r e by (simp add: word_less_nat_alt)
  have d: "unat (start + sz - st) = unat start + unat sz - unat st" using lt e by (simp add: unat_sub)
  have "n = (start + sz - st) AND NOT (mask 2)" by (simp add: n_def os_align_down_def mask_eq_exp_minus_1)
  then have n: "unat n = (unat start + unat sz - unat st) div 4 * 4"
    using unat_round_down[of "start + sz - st" 2] d by simp
  show "unat st + unat n \<le> unat start + unat sz" "352 \<le> unat n" unfolding n using st r by linarith+
qed

lemma chain_free:
  assumes "\<forall>(a, m) \<in> set zs. a < zone_end m"
    and "\<forall>(a, m) \<in> set zs. unat start + unat sz \<le> unat a \<or> unat (zone_end m) \<le> unat start \<or>
      a \<le> st \<and> unat start + unat sz \<le> unat (zone_end m)"
    and "unat start \<le> unat st" "unat st + unat n \<le> unat start + unat sz" "unat start + unat sz < 2 ^ 32"
  shows "chain_overlaps st n zs = OK False"
  using assms(1,2)
proof (induction zs)
  case (Cons z zs)
  obtain a m where z: "z = (a, m)" by (cases z)
  have "unat (st + n) = unat st + unat n"
    using assms(4,5) by (subst unat_add_lem[THEN iffD1]) simp_all
  moreover have "unat start + unat sz \<le> unat a \<or> unat (zone_end m) \<le> unat start \<or>
      a \<le> st \<and> unat start + unat sz \<le> unat (zone_end m)" "a < zone_end m"
    using Cons.prems z by simp_all
  ultimately have "\<not> (st < a \<and> a < st + n)" "\<not> (st < zone_end m \<and> zone_end m < st + n)" "a < zone_end m"
    using assms(3,4) by (auto simp: word_less_nat_alt word_le_nat_alt)
  moreover have "chain_overlaps st n zs = OK False" using Cons by auto
  ultimately show ?case using z by simp
qed simp

lemma zones_end:
  assumes Z: "zones_ok zs S" and i: "i < length zs"
  shows "unat (fst (zs ! i)) < unat (zone_end (snd (zs ! i)))" "unat (zone_end (snd (zs ! i))) = zone_top (snd (zs ! i))"
proof -
  obtain B where B: "region_ok (snd (zs ! i)) B" using zones_okD(2)[OF Z i] by blast
  show "unat (zone_end (snd (zs ! i))) = zone_top (snd (zs ! i))" by (rule zone_bounds(3)[OF B])
  then show "unat (fst (zs ! i)) < unat (zone_end (snd (zs ! i)))"
    using zone_bounds(5)[OF B] zones_okD(3)[OF Z i] by simp
qed

lemma zones_append:
  assumes Z: "zones_ok zs S" and m: "store_ok m B Map.empty"
    and a: "unat a + 96 \<le> unat (hp_addr (header m))"
    and d: "\<And>i. i < length zs \<Longrightarrow> zone_top m \<le> unat (fst (zs ! i)) \<or> zone_top (snd (zs ! i)) \<le> unat a"
  shows "zones_ok (zs @ [(a, m)]) S"
proof -
  let ?zs = "zs @ [(a, m)]"
  have nth: "?zs ! i = (if i < length zs then zs ! i else (a, m))" if "i < length ?zs" for i
    using that by (simp add: nth_append)
  have "S p = None" if p: "p \<in> zone_range m" for p
  proof (rule ccontr)
    assume "S p \<noteq> None"
    then obtain i where "i < length zs" "p \<in> zone_range (snd (zs ! i))" using zones_okD(5)[OF Z] by blast
    then show False using d[of i] zones_okD(3)[OF Z, of i] a p by (auto simp: zone_range_def)
  qed
  then have "S |` zone_range m = Map.empty" by (auto simp: restrict_map_def)
  then have st: "\<exists>B. store_ok (snd (?zs ! i)) B (S |` zone_range (snd (?zs ! i)))" if "i < length ?zs" for i
    using nth[OF that] zones_okD(1)[OF Z] m by (auto split: if_splits)
  have "zones_apart ?zs"
    unfolding zones_apart_def using zones_okD(3,4)[OF Z] a d
    by (auto simp: nth_append less_Suc_eq sizeof_heap_mem_def)
  moreover have "\<exists>i < length ?zs. p \<in> zone_range (snd (?zs ! i))" if "p \<in> dom S" for p
    using zones_okD(5)[OF Z that] by (metis length_append_singleton less_SucI nth_append)
  ultimately show ?thesis using st by (simp add: zones_ok_def)
qed

text \<open>
  A region at least 360 bytes long is accepted if it lies outside or inside each region of the heap;
  \<open>m\<close> is the new first-fit heap.
\<close>

lemma os_sys_heap_add_accepts:
  assumes s: "sys_ok s S" and R: "unat start + unat sz < 2 ^ 32" "360 \<le> unat sz"
    and r: "\<forall>(a, m) \<in> set (sys_zones s). unat start + unat sz \<le> unat a \<or> unat (zone_end m) \<le> unat start \<or>
      a \<le> os_align_up start \<and> unat start + unat sz \<le> unat (zone_end m)"
  shows "\<exists>m B. os_sys_heap_add start sz alg memory s =
      OK (set_zones gs_sys_heap (sys_zones s @ [(os_align_up start, m)]) s, OS_EOK) \<and>
    store_ok m B Map.empty \<and> unat start \<le> unat (os_align_up start) \<and>
    unat (os_align_up start) + 96 \<le> unat (hp_addr (header m)) \<and> zone_top m \<le> unat start + unat sz"
proof -
  let ?zs = "sys_zones s"
  have Z: "zones_ok ?zs S" using s by (simp add: sys_ok_def)
  define st where "st = os_align_up start"
  define n where "n = os_align_down (start + sz - st)"
  note A = align_bounds[OF R, folded st_def, folded n_def]
  have "\<forall>(a, m) \<in> set ?zs. a < zone_end m"
    using zones_end[OF Z] by (force simp: in_set_conv_nth word_less_nat_alt)
  then have ov: "chain_overlaps st n ?zs = OK False"
    using r[folded st_def] by (rule chain_free[OF _ _ A(2,3) R(1)])
  have big: "sizeof_heap_mem < n" using A(4) by (simp add: sizeof_heap_mem_def word_less_nat_alt)
  have u: "unat (st + sizeof_heap_mem) = unat st + 96" "unat (n - sizeof_heap_mem) = unat n - 96"
    using A(3,4) R by (subst unat_add_lem[THEN iffD1], simp_all add: sizeof_heap_mem_def unat_sub word_le_nat_alt)
  have g: "unat (st + sizeof_heap_mem) + unat (n - sizeof_heap_mem) \<le> 2 ^ 32" "256 \<le> unat (n - sizeof_heap_mem)"
    using u A(3,4) R by simp_all
  obtain m B where m: "k_firstfit_mem_init (st + sizeof_heap_mem) (n - sizeof_heap_mem) memory = OK m"
      "store_ok m B Map.empty" "unat st + 96 \<le> unat (hp_addr (header m))" "zone_top m \<le> unat st + unat n"
    using init_ok[OF g, of memory] u A(4) by (auto simp: zone_top_def)
  have init: "mem_init_of (if alg = OS_MEM_ALG_DEFAULT then OS_MEM_ALG_FIRSTFIT else alg) = k_firstfit_mem_init"
    by (cases alg) (simp_all add: mem_init_of_def)
  have "os_sys_heap_add start sz alg memory s = OK (set_zones gs_sys_heap (?zs @ [(st, m)]) s, OS_EOK)"
    using s A(1) ov big m(1) init
    by (simp add: os_sys_heap_add_def os_memheap_add_def sys_ok_def Let_def st_def[symmetric] n_def[symmetric] sys_zones_def)
  then show ?thesis using m(2-4) A(2,3) unfolding st_def by (meson le_trans)
qed

lemma os_sys_heap_add_ok:
  assumes s: "sys_ok s S" and r: "region_free start sz (sys_zones s)"
  shows "\<exists>s'. os_sys_heap_add start sz alg memory s = OK (s', OS_EOK) \<and> sys_ok s' S"
proof -
  let ?zs = "sys_zones s"
  have Z: "zones_ok ?zs S" using s by (simp add: sys_ok_def)
  obtain m B where m: "os_sys_heap_add start sz alg memory s =
        OK (set_zones gs_sys_heap (?zs @ [(os_align_up start, m)]) s, OS_EOK)"
      "store_ok m B Map.empty" "unat start \<le> unat (os_align_up start)"
      "unat (os_align_up start) + 96 \<le> unat (hp_addr (header m))" "zone_top m \<le> unat start + unat sz"
    using os_sys_heap_add_accepts[OF s, of start sz alg memory] r unfolding region_free_def by fast
  have "zones_ok (?zs @ [(os_align_up start, m)]) S"
  proof (rule zones_append[OF Z m(2,4)])
    fix i assume i: "i < length ?zs"
    have "unat start + unat sz \<le> unat (fst (?zs ! i)) \<or> unat (zone_end (snd (?zs ! i))) \<le> unat start"
      using r nth_mem[OF i] by (auto simp: region_free_def case_prod_beta)
    then show "zone_top m \<le> unat (fst (?zs ! i)) \<or> zone_top (snd (?zs ! i)) \<le> unat (os_align_up start)"
      using m(3,5) zones_end(2)[OF Z i] by linarith
  qed
  then show ?thesis using m(1) sys_ok_zones[OF s] by blast
qed

subsection \<open>Runs of the system heap\<close>

text \<open>The system heap after any additions of free regions and any allowed calls, with its live blocks.\<close>

inductive sys_run :: "heap_sys \<Rightarrow> store \<Rightarrow> bool" where
  sys_run_init: "heap_list s = [] \<Longrightarrow> sys_run (os_sys_heap_init s) Map.empty"
| sys_run_add: "sys_run s S \<Longrightarrow> region_free start sz (sys_zones s) \<Longrightarrow>
    os_sys_heap_add start sz alg memory s = OK (s', r) \<Longrightarrow> sys_run s' S"
| sys_run_call: "sys_run s S \<Longrightarrow> os_allowed call s S \<Longrightarrow> os_exec call s = OK (s', r) \<Longrightarrow>
    sys_run s' (os_after call r s' S)"

lemma sys_run_ok: "sys_run s S \<Longrightarrow> sys_ok s S"
proof (induction rule: sys_run.induct)
  case (sys_run_init s)
  then show ?case
    by (simp add: sys_ok_def os_sys_heap_init_def os_memheap_init_def Let_def heap_inited_def sys_zones_def zones_ok_def zones_apart_def)
next
  case (sys_run_add s S start sz alg memory s' r)
  then show ?case using os_sys_heap_add_ok[of s S start sz alg memory] by auto
next
  case (sys_run_call s S call s' r)
  then show ?case using os_call_allowed_ok[of s S call] by (auto simp: os_call_ok_def)
qed

lemma zones_blocks_apart:
  assumes Z: "zones_ok zs S" and p: "S p = Some bs" and q: "S q = Some bs'" "p \<noteq> q"
  shows "unat p + length bs \<le> unat q \<or> unat q + length bs' \<le> unat p"
proof -
  obtain i where i: "i < length zs" "p \<in> zone_range (snd (zs ! i))" using zones_live[OF Z p] .
  obtain j where j: "j < length zs" "q \<in> zone_range (snd (zs ! j))" using zones_live[OF Z q(1)] .
  have sub: "\<exists>B. store_ok (snd (zs ! k)) B (S |` zone_range (snd (zs ! k)))" if "k < length zs" for k
    by (rule zones_okD(1)[OF Z that])
  show ?thesis
  proof (cases "i = j")
    case True
    obtain B where B: "store_ok (snd (zs ! i)) B (S |` zone_range (snd (zs ! i)))" using sub[OF i(1)] by blast
    show ?thesis by (rule live_blocks_apart[OF B]) (use p q i(2) j(2) True in simp_all)
  next
    case False
    have "unat p + length bs \<le> zone_top (snd (zs ! i))"
      using sub[OF i(1)] live_in_range(2)[of "snd (zs ! i)" _ _ p bs] i(2) p by fastforce
    moreover have "unat q + length bs' \<le> zone_top (snd (zs ! j))"
      using sub[OF j(1)] live_in_range(2)[of "snd (zs ! j)" _ _ q bs'] j(2) q(1) by fastforce
    ultimately show ?thesis
      using zones_okD(4)[OF Z i(1) j(1) False] zones_okD(3)[OF Z i(1)] zones_okD(3)[OF Z j(1)] i(2) j(2)
      by (auto simp: zone_range_def)
  qed
qed

lemma zones_check_ok: "\<forall>(a, m) \<in> set zs. \<exists>B. region_ok m B \<Longrightarrow> zones_check zs = Some OS_EOK"
  by (induction zs) (auto simp: region_check)

subsection \<open>What clients may rely on\<close>

text \<open>
  C25. The system heap is a store of byte arrays over all its regions: after any additions of free
  regions and any allowed calls, no allowed call of \<^verbatim>\<open>os_malloc\<close>, \<^verbatim>\<open>os_aligned_malloc\<close>,
  \<^verbatim>\<open>os_realloc\<close>, \<^verbatim>\<open>os_calloc\<close>, \<^verbatim>\<open>os_free\<close> or store into a live block stops in an
  assertion. The call changes the live blocks as its name says and leaves the contents of the
  others alone: a new block is not among the live ones, a reallocated block keeps the common
  prefix of the contents also when it moves to another region, the block of \<^verbatim>\<open>os_calloc\<close> is
  zero. Afterwards every live block holds its bytes, live blocks do not overlap, and
  \<^verbatim>\<open>os_memory_check\<close> ends and finds no error.
\<close>

theorem sys_heap_is_a_store:
  assumes run: "sys_run s S" and a: "os_allowed call s S"
  shows "\<exists>s' r S'. os_exec call s = OK (s', r) \<and> S' = os_after call r s' S \<and> sys_run s' S' \<and> os_spec call S r S' \<and>
    (\<forall>p bs. S' p = Some bs \<longrightarrow> read_zones p (length bs) (sys_zones s') = bs \<and>
      (\<forall>q bs'. S' q = Some bs' \<longrightarrow> q \<noteq> p \<longrightarrow> unat p + length bs \<le> unat q \<or> unat q + length bs' \<le> unat p)) \<and>
    os_memory_check s' = OK (Some OS_EOK)"
proof -
  obtain s' r where c: "os_exec call s = OK (s', r)" "sys_ok s' (os_after call r s' S)"
      "os_spec call S r (os_after call r s' S)"
    using os_call_allowed_ok[OF sys_run_ok[OF run] a] by (auto simp: os_call_ok_def)
  have Z: "zones_ok (sys_zones s') (os_after call r s' S)" using c(2) by (simp add: sys_ok_def)
  have "\<forall>(a, m) \<in> set (sys_zones s'). \<exists>B. region_ok m B"
    using zones_okD(2)[OF Z] by (force simp: in_set_conv_nth)
  then have "os_memory_check s' = OK (Some OS_EOK)"
    using c(2) zones_check_ok
    by (simp add: os_memory_check_def os_memheap_check_def sys_ok_def sys_zones_def)
  moreover have "read_zones p (length bs) (sys_zones s') = bs" if "os_after call r s' S p = Some bs" for p bs
    using zones_live[OF Z that] .
  ultimately show ?thesis using sys_run_call[OF run a c(1)] c(1,3) zones_blocks_apart[OF Z] by blast
qed

text \<open>
  C26. The overlap test of \<^verbatim>\<open>os_memheap_add\<close> looks only at the two end points of the regions that are
  already there: after any allowed calls, a region that lies inside one of them is accepted, and
  from then on two heaps manage the same memory.
\<close>

theorem sys_heap_accepts_nested:
  assumes run: "sys_run s S" and z: "(a, m) \<in> set (sys_zones s)" and R: "360 \<le> unat sz"
    and i: "a \<le> start" "unat start + unat sz \<le> unat (zone_end m)"
  shows "\<exists>m' s'. os_sys_heap_add start sz alg memory s = OK (s', OS_EOK) \<and>
    sys_zones s' = sys_zones s @ [(os_align_up start, m')] \<and>
    unat start \<le> unat (hp_addr (header m')) \<and> zone_top m' \<le> unat start + unat sz"
proof -
  let ?zs = "sys_zones s"
  have s: "sys_ok s S" by (rule sys_run_ok[OF run])
  then have Z: "zones_ok ?zs S" by (simp add: sys_ok_def)
  obtain k where k: "k < length ?zs" "?zs ! k = (a, m)" using z by (auto simp: in_set_conv_nth)
  obtain B where "region_ok (snd (?zs ! k)) B" using zones_okD(2)[OF Z k(1)] by blast
  then have top: "unat (zone_end m) + 8 \<le> 2 ^ 32" using zone_bounds(3,4) k(2) by fastforce
  have R': "unat start + unat sz < 2 ^ 32" using i top by simp
  have up: "a \<le> os_align_up start" using align_bounds(2)[OF R' R] i(1) by (simp add: word_le_nat_alt)
  have "unat start + unat sz \<le> unat b \<or> unat (zone_end m') \<le> unat start \<or>
      b \<le> os_align_up start \<and> unat start + unat sz \<le> unat (zone_end m')" if mem: "(b, m') \<in> set ?zs" for b m'
  proof -
    obtain j where j: "j < length ?zs" "?zs ! j = (b, m')" using mem by (auto simp: in_set_conv_nth)
    show ?thesis
    proof (cases "j = k")
      case True
      then show ?thesis using j(2) k(2) up i(2) by simp
    next
      case False
      from zones_okD(4)[OF Z j(1) k(1) this] show ?thesis
        using zones_end(2)[OF Z j(1)] zones_end(2)[OF Z k(1)] j(2) k(2) i by (auto simp: word_le_nat_alt)
    qed
  qed
  then have "\<forall>(b, m') \<in> set ?zs. unat start + unat sz \<le> unat b \<or> unat (zone_end m') \<le> unat start \<or>
      b \<le> os_align_up start \<and> unat start + unat sz \<le> unat (zone_end m')" by blast
  from os_sys_heap_add_accepts[OF s R' R this, of alg memory] show ?thesis
    by (auto intro!: exI[of _ "set_zones gs_sys_heap _ s"])
qed

text \<open>
  When no region has a block, \<^verbatim>\<open>os_realloc(OS_NULL, n)\<close> goes on to compare with a local variable
  that was never set.
\<close>

theorem os_realloc_null_undefined:
  assumes run: "sys_run s S" and z: "sys_zones s \<noteq> []" and m: "os_malloc n s = OK (s', None)"
  shows "os_realloc None n s = Fault Uninit"
proof -
  have s: "sys_ok s S" by (rule sys_run_ok[OF run])
  then have i: "heap_inited gs_sys_heap s" "h_mem (memheaps s gs_sys_heap) = sys_zones s"
    by (simp_all add: sys_ok_def sys_zones_def)
  obtain zs where f: "zones_first (\<lambda>_. True) 0 (k_firstfit_mem_alloc n) (sys_zones s) = OK (zs, None)"
    using m i by (auto simp: os_malloc_def os_memheap_alloc_def with_zones_def bind_res_eq_OK)
  have "zs \<noteq> []"
    using f z by (cases "sys_zones s") (auto simp: bind_res_eq_OK Let_def split: option.splits)
  then show ?thesis using f i by (simp add: os_realloc_def os_memheap_realloc_def with_zones_def zones_realloc_def)
qed

subsection \<open>A sample run\<close>

definition boot_heaps :: heap_sys where
  "boot_heaps = \<lparr>heap_list = [], memheaps = (\<lambda>_. \<lparr>h_mem = [], mh_object_inited = 0, mh_name = ''''\<rparr>)\<rparr>"

lemma sample_region:
  "bind_res (k_firstfit_mem_init 0x20000060 416 (\<lambda>_. 0)) (\<lambda>m0.
   bind_res (k_firstfit_mem_alloc 16 m0) (\<lambda>(m1, r). OK (zone_end m0, r,
     k_chunk_mem (header m1) (k_mem_to_chunkid (header m1) 0x20000094)))) =
   OK (0x200001F8, Some 0x20000094, OK 0x20000094)"
  by code_simp

lemma sample_sys_run:
  obtains m0 s1 s2 bs where "sys_run s1 Map.empty" "sys_zones s1 = [(0x20000000, m0)]" "zone_end m0 = 0x200001F8"
    "os_malloc 16 s1 = OK (s2, Some 0x20000094)" "sys_run s2 [0x20000094 \<mapsto> bs]"
    "os_allowed (Os_realloc 0x20000094 40) s2 [0x20000094 \<mapsto> bs]"
proof -
  obtain m0 m1 where e: "k_firstfit_mem_init 0x20000060 416 (\<lambda>_. 0) = OK m0" "zone_end m0 = 0x200001F8"
      "k_firstfit_mem_alloc 16 m0 = OK (m1, Some 0x20000094)"
      "k_chunk_mem (header m1) (k_mem_to_chunkid (header m1) 0x20000094) = OK 0x20000094"
    using sample_region unfolding bind_res_eq_OK by (auto simp: bind_res_eq_OK split: prod.splits)
  define s0 where "s0 = os_sys_heap_init boot_heaps"
  have 0: "sys_run s0 Map.empty" unfolding s0_def by (rule sys_run_init) (simp add: boot_heaps_def)
  have s0: "heap_list s0 = [0]" "heap_inited 0 s0" "h_mem (memheaps s0 0) = []"
    by (simp_all add: s0_def os_sys_heap_init_def os_memheap_init_def boot_heaps_def gs_sys_heap_def heap_inited_def Let_def)
  define s1 where "s1 = set_zones gs_sys_heap [(0x20000000, m0)] s0"
  have z1: "sys_zones s1 = [(0x20000000, m0)]" by (simp add: s1_def)
  have "os_sys_heap_add 0x20000000 512 OS_MEM_ALG_DEFAULT (\<lambda>_. 0) s0 = OK (s1, OS_EOK)"
    using e(1) s0 by (simp add: os_sys_heap_add_def os_memheap_add_def mem_init_of_def s1_def gs_sys_heap_def
        os_align_up_def os_align_down_def sizeof_heap_mem_def)
  then have 1: "sys_run s1 Map.empty"
    using s0(3) by (intro sys_run_add[OF 0]) (simp_all add: region_free_def sys_zones_def gs_sys_heap_def)
  define s2 where "s2 = set_zones gs_sys_heap [(0x20000000, m1)] s0"
  have i1: "heap_inited 0 s1" "h_mem (memheaps s1 0) = [(0x20000000, m0)]"
    using s0(2) z1 by (simp_all add: s1_def sys_zones_def gs_sys_heap_def)
  have m: "os_malloc 16 s1 = OK (s2, Some 0x20000094)"
    using e(3) i1 by (simp add: os_malloc_def os_memheap_alloc_def with_zones_def gs_sys_heap_def s1_def s2_def)
  let ?bs = "read_zones 0x20000094 16 (sys_zones s2)"
  have "sys_run s2 (os_after (Os_malloc 16) (Some 0x20000094) s2 Map.empty)"
    by (rule sys_run_call[OF 1]) (use m in simp_all)
  then have 2: "sys_run s2 [0x20000094 \<mapsto> ?bs]" by (simp add: new_block_def)
  have Z: "zones_ok (sys_zones s2) [0x20000094 \<mapsto> ?bs]" using sys_run_ok[OF 2] by (simp add: sys_ok_def)
  have live: "[0x20000094 \<mapsto> ?bs] 0x20000094 = Some ?bs" by simp
  obtain i where "i < length (sys_zones s2)" "zone_header 0x20000094 (sys_zones s2) = header (snd (sys_zones s2 ! i))"
    using zones_live[OF Z live] .
  then have "zone_header 0x20000094 (sys_zones s2) = header m1" by (simp add: s2_def)
  then have "os_allowed (Os_realloc 0x20000094 40) s2 [0x20000094 \<mapsto> ?bs]" using e(4) by simp
  then show thesis using that[OF 1 z1 e(2) m 2] by blast
qed

lemma sys_heap_is_a_store_witness:
  "\<exists>s bs s' r. sys_run s [0x20000094 \<mapsto> bs] \<and> os_exec (Os_realloc 0x20000094 40) s = OK (s', r) \<and>
    os_memory_check s' = OK (Some OS_EOK)"
proof -
  obtain m0 s1 s2 bs where r: "sys_run s2 [0x20000094 \<mapsto> bs]" "os_allowed (Os_realloc 0x20000094 40) s2 [0x20000094 \<mapsto> bs]"
    using sample_sys_run .
  from sys_heap_is_a_store[OF this] show ?thesis using r(1) by blast
qed

lemma sys_heap_accepts_nested_witness:
  "\<exists>s s'. sys_run s Map.empty \<and> map fst (sys_zones s) = [0x20000000] \<and>
    os_sys_heap_add 0x20000080 360 OS_MEM_ALG_DEFAULT (\<lambda>_. 0) s = OK (s', OS_EOK) \<and>
    map fst (sys_zones s') = [0x20000000, 0x20000080]"
proof -
  obtain m0 s1 s2 bs where r: "sys_run s1 Map.empty" "sys_zones s1 = [(0x20000000, m0)]" "zone_end m0 = 0x200001F8"
    using sample_sys_run .
  have "(0x20000000, m0) \<in> set (sys_zones s1)" "360 \<le> unat (360 :: u32)" "(0x20000000 :: u32) \<le> 0x20000080"
    "unat (0x20000080 :: u32) + unat (360 :: u32) \<le> unat (zone_end m0)" using r(2,3) by simp_all
  from sys_heap_accepts_nested[OF r(1) this, of OS_MEM_ALG_DEFAULT "\<lambda>_. 0"] show ?thesis
    using r(1,2) by (auto simp: os_align_up_def)
qed

lemma os_realloc_null_undefined_witness:
  "\<exists>s. sys_run s Map.empty \<and> os_malloc 0 s = OK (s, None) \<and> os_realloc None 0 s = Fault Uninit"
proof -
  obtain m0 s1 s2 bs where r: "sys_run s1 Map.empty" "sys_zones s1 = [(0x20000000, m0)]"
    using sample_sys_run .
  have i: "heap_inited gs_sys_heap s1" "h_mem (memheaps s1 gs_sys_heap) = [(0x20000000, m0)]"
    using sys_run_ok[OF r(1)] r(2) by (simp_all add: sys_ok_def sys_zones_def)
  have "set_zones gs_sys_heap [(0x20000000, m0)] s1 = s1" unfolding set_zones_def i(2)[symmetric] by simp
  then have m: "os_malloc 0 s1 = OK (s1, None)"
    using i by (simp add: os_malloc_def os_memheap_alloc_def with_zones_def k_firstfit_mem_alloc_def)
  then show ?thesis using os_realloc_null_undefined[OF r(1) _ m] r by auto
qed

end
