(* ===== verification/Timer_Wheel.thy ===== *)
theory Timer_Wheel
  imports Os_Timer
begin

unbundle bit_operations_syntax

text \<open>
  The timer wheel of \<^verbatim>\<open>os_timer.c\<close> as its users see it: a countdown for every active timer. The
  lists of the wheel hold differences of rounds; inserting, deleting, the tick and the timer
  task keep the ticks that each timer has left, and a timer whose last tick has come is called.
\<close>

subsection \<open>Lists of differences\<close>

definition total :: "(tmid \<Rightarrow> u32) \<Rightarrow> tmid list \<Rightarrow> nat" where
  "total R l = sum_list (map (\<lambda>t. unat (R t)) l)"

text \<open>The rounds until \<open>t\<close> is due: its difference and those of all timers in front of it.\<close>

fun due :: "(tmid \<Rightarrow> u32) \<Rightarrow> tmid list \<Rightarrow> tmid \<Rightarrow> nat" where
  "due R [] t = 0"
| "due R (x # xs) t = unat (R x) + (if x = t then 0 else due R xs t)"

definition delta_ok :: "(tmid \<Rightarrow> u32) \<Rightarrow> tmid list \<Rightarrow> bool" where
  "delta_ok R l \<longleftrightarrow> distinct l \<and> (\<forall>t \<in> set l. unat (R t) mod 16 = 0) \<and> total R l < 2 ^ 32"

lemma total_simps [simp]:
  "total R [] = 0" "total R (x # xs) = unat (R x) + total R xs" "total R (xs @ ys) = total R xs + total R ys"
  by (simp_all add: total_def)

lemma total_cong: "(\<And>x. x \<in> set l \<Longrightarrow> R x = R' x) \<Longrightarrow> total R l = total R' l"
  by (simp add: total_def cong: map_cong)

lemma due_cong: "(\<And>x. x \<in> set l \<Longrightarrow> R x = R' x) \<Longrightarrow> due R l t = due R' l t"
  by (induction l) auto

lemma delta_ok_cong: "(\<And>x. x \<in> set l \<Longrightarrow> R x = R' x) \<Longrightarrow> delta_ok R l = delta_ok R' l"
  using total_cong[of l R R'] by (auto simp: delta_ok_def)

lemma delta_ok_Nil [simp]: "delta_ok R []"
  by (simp add: delta_ok_def)

lemma due_append: "due R (us @ vs) t = (if t \<in> set us then due R us t else total R us + due R vs t)"
  by (induction us) auto

lemma due_le_total: "due R l t \<le> total R l"
  by (induction l) auto

lemma due_mod: "\<forall>x \<in> set l. unat (R x) mod 16 = 0 \<Longrightarrow> due R l t mod 16 = 0"
  by (induction l) (auto simp: mod_add_eq[symmetric])

lemma mod16_diff: "m mod 16 = 0 \<Longrightarrow> n mod 16 = 0 \<Longrightarrow> (m - n) mod (16 :: nat) = 0"
  by (simp add: mod_eq_0_iff_dvd dvd_diff_nat)

lemma sort_insert_ok:
  assumes "sort_insert a r l R = (l', R')" "a \<notin> set l" "delta_ok R l" "unat r mod 16 = 0"
  shows "distinct l' \<and> set l' = insert a (set l) \<and> (\<forall>x. x \<notin> set l' \<longrightarrow> R' x = R x) \<and> (\<forall>x \<in> set l'. unat (R' x) mod 16 = 0) \<and>
    total R' l' = max (total R l) (unat r) \<and> due R' l' a = unat r \<and> (\<forall>x \<in> set l. due R' l' x = due R l x)"
  using assms
proof (induction l arbitrary: r l' R')
  case Nil
  then show ?case by auto
next
  case (Cons t ts)
  have d: "t \<notin> set ts" "a \<noteq> t" "a \<notin> set ts" "delta_ok R ts" "unat (R t) mod 16 = 0"
    using Cons.prems(2,3) by (auto simp: delta_ok_def)
  show ?case
  proof (cases "R t \<le> r")
    case True
    obtain m Q where rec: "sort_insert a (r - R t) ts R = (m, Q)" by (cases "sort_insert a (r - R t) ts R")
    have l': "l' = t # m" "R' = Q" using Cons.prems(1) True rec by simp_all
    have u: "unat (r - R t) = unat r - unat (R t)" "unat (R t) \<le> unat r" using True by (simp_all add: unat_sub word_le_nat_alt)
    have "unat (r - R t) mod 16 = 0"
      unfolding u(1) using Cons.prems(4) d(5) by (rule mod16_diff)
    note IH = Cons.IH[OF rec d(3,4) this]
    have "t \<notin> set m" using IH d by auto
    then have "Q t = R t" using IH by blast
    then show ?thesis using IH d u l' \<open>t \<notin> set m\<close> by auto
  next
    case False
    have u: "unat (R t - r) = unat (R t) - unat r" "unat r < unat (R t)"
      using False by (simp_all add: unat_sub word_le_nat_alt)
    have l': "l' = a # t # ts" "R' = R(a := r, t := R t - r)" using Cons.prems(1) False by simp_all
    have m: "(unat (R t) - unat r) mod 16 = 0"
      using d(5) Cons.prems(4) by (rule mod16_diff)
    have c: "total R' ts = total R ts" "due R' ts x = due R ts x" for x
      using d l' by (auto intro!: total_cong due_cong)
    have R': "R' a = r" "unat (R' t) = unat (R t) - unat r" "\<And>x. x \<noteq> a \<Longrightarrow> x \<noteq> t \<Longrightarrow> R' x = R x"
      using l'(2) u(1) d(2) by simp_all
    have tm: "\<forall>x \<in> set ts. unat (R' x) mod 16 = 0" using d R'(3) unfolding delta_ok_def by metis
    have "total R' l' = max (total R (t # ts)) (unat r)" using u c R' l'(1) by simp
    moreover have "\<forall>x \<in> set (t # ts). due R' l' x = due R (t # ts) x"
      using u c R' l'(1) d by auto
    moreover have "\<forall>x \<in> set l'. unat (R' x) mod 16 = 0" using tm R' m Cons.prems(4) l'(1) by simp
    ultimately show ?thesis using R' l'(1) Cons.prems(2,3) d u by (auto simp: delta_ok_def)
  qed
qed

text \<open>Deletion: the next timer takes over the difference.\<close>

lemma next_in_split: "t \<notin> set us \<Longrightarrow> next_in (us @ t # vs) t = (case vs of [] \<Rightarrow> None | v # _ \<Rightarrow> Some v)"
proof (induction us)
  case Nil
  then show ?case by (cases vs) simp_all
next
  case (Cons u us)
  then show ?case by (cases us) auto
qed

definition take_over :: "tmid \<Rightarrow> tmid list \<Rightarrow> (tmid \<Rightarrow> u32) \<Rightarrow> (tmid \<Rightarrow> u32)" where
  "take_over t l R = (case next_in l t of None \<Rightarrow> R | Some n \<Rightarrow> R(n := R n + R t))"

lemma take_over_ok:
  assumes d: "delta_ok R l" and t: "t \<in> set l"
  shows "delta_ok (take_over t l R) (removeAll t l) \<and> take_over t l R t = R t \<and>
    (\<forall>x. x \<notin> set l \<longrightarrow> take_over t l R x = R x) \<and>
    (\<forall>x \<in> set l - {t}. due (take_over t l R) (removeAll t l) x = due R l x)"
proof -
  obtain us vs where l: "l = us @ t # vs" using t by (meson split_list)
  have di: "distinct l" "total R l < 2 ^ 32" and m: "\<forall>x \<in> set l. unat (R x) mod 16 = 0"
    using d by (simp_all add: delta_ok_def)
  have nt: "t \<notin> set us" "t \<notin> set vs" using di(1) l by auto
  have rm: "removeAll t l = us @ vs" using nt l by simp
  show ?thesis
  proof (cases vs)
    case Nil
    then have "take_over t l R = R" using nt l by (simp add: take_over_def next_in_split)
    then show ?thesis using d nt l rm Nil by (auto simp: delta_ok_def due_append)
  next
    case (Cons n ws)
    let ?R = "R(n := R n + R t)"
    have R: "take_over t l R = ?R" using nt l Cons by (simp add: take_over_def next_in_split)
    have n: "n \<notin> set us" "n \<notin> set ws" "n \<noteq> t" using di(1) l Cons by auto
    have "unat (R t) + unat (R n) < 2 ^ 32" using di(2) l Cons by simp
    then have u: "unat (?R n) = unat (R n) + unat (R t)"
      by (subst fun_upd_same, subst unat_add_lem[THEN iffD1]) simp_all
    have c: "total ?R us = total R us" "total ?R ws = total R ws" "due ?R us x = due R us x" "due ?R ws x = due R ws x" for x
      using n by (auto intro!: total_cong due_cong)
    have tot: "total ?R (us @ vs) = total R l" using u c l Cons by simp
    have "unat (?R x) mod 16 = 0" if "x \<in> set (us @ vs)" for x
    proof (cases "x = n")
      case True
      then show ?thesis using u m l Cons by (simp add: mod_add_eq[symmetric])
    qed (use m that l in auto)
    then have "delta_ok ?R (us @ vs)" using tot di l by (auto simp: delta_ok_def)
    moreover have "due ?R (us @ vs) x = due R l x" if "x \<in> set l - {t}" for x
      using that u c l Cons n by (auto simp: due_append)
    ultimately show ?thesis using R n l Cons rm by auto
  qed
qed

subsection \<open>The invariant of the wheel\<close>

abbreviation active :: "timer_sys \<Rightarrow> tmid \<Rightarrow> bool" where
  "active s t \<equiv> has_flag (tm_flag (timers s t)) OS_TIMER_FLAG_ACTIVATED"

definition in_wheel :: "timer_sys \<Rightarrow> tmid \<Rightarrow> bool" where
  "in_wheel s t \<longleftrightarrow> (\<exists>h \<in> set timer_heads. t \<in> set (active_lists s h))"

text \<open>What a timer in list \<open>i\<close> of the wheel knows of its place.\<close>

definition placed_in :: "timer_sys \<Rightarrow> nat \<Rightarrow> tmid \<Rightarrow> bool" where
  "placed_in s i t \<longleftrightarrow> active s t \<and> tm_index (timers s t) = of_nat i \<and> tm_info (timers s t) AND 1 = head_info s i AND 1"

text \<open>
  The lists of the wheel and the one that the timer task works on; the timers in \<open>X\<close> are active
  and in no list.
\<close>

definition wheel_inv :: "timer_sys \<Rightarrow> tmid set \<Rightarrow> bool" where
  "wheel_inv s X \<longleftrightarrow> list_current s < 16 \<and> active_lists s Restart = [] \<and>
     (\<forall>h \<in> set timer_heads. delta_ok (rounds s) (active_lists s h)) \<and>
     (\<forall>h \<in> set timer_heads. \<forall>h' \<in> set timer_heads. h \<noteq> h' \<longrightarrow> set (active_lists s h) \<inter> set (active_lists s h') = {}) \<and>
     (\<forall>i < 16. \<forall>t \<in> set (active_lists s (Wheel i)). placed_in s i t) \<and>
     (\<forall>t \<in> set (active_lists s Expired). active s t \<and>
       (\<exists>i < 16. tm_index (timers s t) = of_nat i \<and> list_current s = wheel_next i)) \<and>
     (\<forall>t. active s t \<longrightarrow> in_wheel s t \<or> t \<in> X) \<and> (\<forall>t \<in> X. \<not> in_wheel s t) \<and>
     (\<forall>i < 16. handle_flag s i (unat (head_info s i AND 1)) = 0) \<and>
     (\<forall>t. active s t \<longrightarrow> 0 < init_ticks (timers s t))"

lemma set_timer_heads: "h \<in> set timer_heads \<longleftrightarrow> (\<exists>i < 16. h = Wheel i) \<or> h = Expired \<or> h = Restart"
  by (auto simp: timer_heads_def)

lemma wheel_head [simp]: "i < 16 \<Longrightarrow> Wheel i \<in> set timer_heads" "Expired \<in> set timer_heads" "Restart \<in> set timer_heads"
  by (simp_all add: set_timer_heads)

lemma wheel_invD:
  assumes "wheel_inv s X"
  shows "list_current s < 16" "active_lists s Restart = []"
    "h \<in> set timer_heads \<Longrightarrow> delta_ok (rounds s) (active_lists s h)"
    "h \<in> set timer_heads \<Longrightarrow> h' \<in> set timer_heads \<Longrightarrow> t \<in> set (active_lists s h) \<Longrightarrow> t \<in> set (active_lists s h') \<Longrightarrow> h = h'"
    "i < 16 \<Longrightarrow> t \<in> set (active_lists s (Wheel i)) \<Longrightarrow> placed_in s i t"
    "t \<in> set (active_lists s Expired) \<Longrightarrow> active s t \<and> (\<exists>i < 16. tm_index (timers s t) = of_nat i \<and> list_current s = wheel_next i)"
    "active s t \<Longrightarrow> in_wheel s t \<or> t \<in> X" "t \<in> X \<Longrightarrow> \<not> in_wheel s t"
    "i < 16 \<Longrightarrow> handle_flag s i (unat (head_info s i AND 1)) = 0"
    "active s t \<Longrightarrow> 0 < init_ticks (timers s t)"
proof -
  note * = assms[unfolded wheel_inv_def]
  show "h \<in> set timer_heads \<Longrightarrow> h' \<in> set timer_heads \<Longrightarrow> t \<in> set (active_lists s h) \<Longrightarrow> t \<in> set (active_lists s h') \<Longrightarrow> h = h'"
    using * by blast
qed (use assms in \<open>simp_all add: wheel_inv_def\<close>)

lemma in_wheel_active: "wheel_inv s X \<Longrightarrow> in_wheel s t \<Longrightarrow> active s t"
  using wheel_invD(2,5,6)[of s X] by (auto simp: in_wheel_def set_timer_heads placed_in_def)

lemma timer_home_None: "timer_home s t = None \<longleftrightarrow> \<not> in_wheel s t"
  by (auto simp: timer_home_def in_wheel_def find_None_iff)

lemma timer_homeI:
  assumes "wheel_inv s X" "h \<in> set timer_heads" "t \<in> set (active_lists s h)"
  shows "timer_home s t = Some h"
proof -
  have "timer_home s t \<noteq> None" using assms(2,3) by (auto simp: timer_home_None in_wheel_def)
  then obtain h' where h': "timer_home s t = Some h'" by blast
  then have "h' \<in> set timer_heads" "t \<in> set (active_lists s h')" by (auto simp: timer_home_def find_Some_iff)
  then show ?thesis using wheel_invD(4)[OF assms(1)] assms(2,3) h' by blast
qed

text \<open>The ticks until a timer is due. In the list that the timer task works on, its tick has begun.\<close>

definition lag :: "nat \<Rightarrow> timer_head \<Rightarrow> nat" where
  "lag c h = (case h of Wheel i \<Rightarrow> (i + 16 - c) mod 16 + 1 | _ \<Rightarrow> 0)"

definition left_in :: "timer_sys \<Rightarrow> timer_head \<Rightarrow> tmid \<Rightarrow> nat" where
  "left_in s h t = due (rounds s) (active_lists s h) t + lag (list_current s) h"

lemma lag_simps [simp]: "lag c (Wheel i) = (i + 16 - c) mod 16 + 1" "lag c Expired = 0" "lag c Restart = 0"
  by (simp_all add: lag_def)

definition timer_left :: "timer_sys \<Rightarrow> tmid \<Rightarrow> nat option" where
  "timer_left s t = map_option (\<lambda>h. left_in s h t) (timer_home s t)"

lemma timer_left_None: "timer_left s t = None \<longleftrightarrow> \<not> in_wheel s t"
  by (simp add: timer_left_def timer_home_None)

lemma timer_leftI:
  "wheel_inv s X \<Longrightarrow> h \<in> set timer_heads \<Longrightarrow> t \<in> set (active_lists s h) \<Longrightarrow> timer_left s t = Some (left_in s h t)"
  by (simp add: timer_left_def timer_homeI)

lemma in_wheel_home:
  assumes "wheel_inv s X" "in_wheel s t"
  obtains h where "h \<in> set timer_heads" "h \<noteq> Restart" "t \<in> set (active_lists s h)" "timer_home s t = Some h"
    "timer_left s t = Some (left_in s h t)"
  using assms timer_homeI timer_leftI wheel_invD(2)[OF assms(1)] unfolding in_wheel_def by (metis empty_iff list.set(1))

subsection \<open>Insertion and deletion\<close>

lemma add_to_list:
  assumes "sort_insert a (rounds s a) (active_lists s h) (rounds s) = (l, Q)"
  shows "k_timer_add_to_sort_list h a s = put_rounds Q (s\<lparr>active_lists := (active_lists s)(h := l)\<rparr>)"
  using assms by (simp add: k_timer_add_to_sort_list_def)

lemma put_rounds_simps [simp]:
  "active_lists (put_rounds Q s) = active_lists s" "list_current (put_rounds Q s) = list_current s"
  "head_info (put_rounds Q s) = head_info s" "handle_flag (put_rounds Q s) = handle_flag s"
  "need_handle (put_rounds Q s) = need_handle s" "timer_list (put_rounds Q s) = timer_list s"
  "timers (put_rounds Q s) t = (timers s t)\<lparr>round_ticks := Q t\<rparr>"
  by (simp_all add: put_rounds_def)

lemma put_rounds_same: "put_rounds (rounds s) s = s"
  by (simp add: put_rounds_def)

lemma set_round_put: "set_round t r s = put_rounds ((rounds s)(t := r)) s"
  by (simp add: set_round_def upd_timer_def put_rounds_def fun_eq_iff)

lemma del_from_list:
  assumes "timer_home s t = Some h"
  shows "k_timer_del_from_sort_list t s =
    put_rounds (take_over t (active_lists s h) (rounds s)) (s\<lparr>active_lists := list_del (active_lists s) t\<rparr>)"
  using assms
  by (auto simp: k_timer_del_from_sort_list_def take_over_def set_round_put put_rounds_def Let_def split: option.splits)

lemma list_del_head:
  assumes "wheel_inv s X" "h \<in> set timer_heads" "t \<in> set (active_lists s h)" "h' \<in> set timer_heads"
  shows "list_del (active_lists s) t h' = (if h' = h then removeAll t (active_lists s h) else active_lists s h')"
proof (cases "h' = h")
  case False
  then have "t \<notin> set (active_lists s h')" using wheel_invD(4)[OF assms(1,2,4,3)] by blast
  then show ?thesis using False by (simp add: list_del_def removeAll_id)
qed (simp add: list_del_def)

text \<open>The timer \<open>t\<close> leaves its list.\<close>

lemma wheel_del:
  assumes W: "wheel_inv s X" and t: "in_wheel s t"
  defines "s' \<equiv> k_timer_del_from_sort_list t s"
  shows "wheel_inv s' (insert t X)" "timer_left s' = (timer_left s)(t := None)"
    "timers s' u = (timers s u)\<lparr>round_ticks := rounds s' u\<rparr>" "rounds s' t = rounds s t"
    "active_lists s' = list_del (active_lists s) t" "list_current s' = list_current s" "need_handle s' = need_handle s"
proof -
  obtain h where h: "h \<in> set timer_heads" "t \<in> set (active_lists s h)" "timer_home s t = Some h"
    using in_wheel_home[OF W t] by blast
  let ?l = "active_lists s h"
  define Q where "Q = take_over t ?l (rounds s)"
  have e: "s' = put_rounds Q (s\<lparr>active_lists := list_del (active_lists s) t\<rparr>)"
    using del_from_list[OF h(3)] by (simp add: s'_def Q_def)
  note L = list_del_head[OF W h(1,2)]
  have T: "delta_ok Q (removeAll t ?l)" "Q t = rounds s t" "\<And>x. x \<notin> set ?l \<Longrightarrow> Q x = rounds s x"
    "\<And>x. x \<in> set ?l - {t} \<Longrightarrow> due Q (removeAll t ?l) x = due (rounds s) ?l x"
    using take_over_ok[OF wheel_invD(3)[OF W h(1)] h(2)] by (simp_all add: Q_def)
  have other: "Q x = rounds s x" if "h' \<in> set timer_heads" "h' \<noteq> h" "x \<in> set (active_lists s h')" for h' x
    using T(3) wheel_invD(4)[OF W h(1) that(1) _ that(3)] that(2) by blast
  have sub: "set (active_lists s' h') = set (active_lists s h') - {t}" for h' by (simp add: e list_del_def)
  have lk: "in_wheel s' x \<longleftrightarrow> in_wheel s x \<and> x \<noteq> t" for x by (auto simp: in_wheel_def sub)
  have d: "delta_ok (rounds s') (active_lists s' h')" if "h' \<in> set timer_heads" for h'
    using T(1) L[OF that] wheel_invD(3)[OF W that] delta_ok_cong[of "active_lists s h'" Q "rounds s"] other[OF that]
    by (auto simp: e)
  show W': "wheel_inv s' (insert t X)"
    unfolding wheel_inv_def
  proof (intro conjI)
    show "\<forall>h \<in> set timer_heads. delta_ok (rounds s') (active_lists s' h)" using d by blast
    show "\<forall>h \<in> set timer_heads. \<forall>h' \<in> set timer_heads. h \<noteq> h' \<longrightarrow> set (active_lists s' h) \<inter> set (active_lists s' h') = {}"
      using wheel_invD(4)[OF W] unfolding sub by blast
    show "\<forall>i < 16. \<forall>t \<in> set (active_lists s' (Wheel i)). placed_in s' i t"
      using wheel_invD(5)[OF W] unfolding sub by (auto simp: placed_in_def e)
    show "\<forall>t \<in> set (active_lists s' Expired). active s' t \<and>
       (\<exists>i < 16. tm_index (timers s' t) = of_nat i \<and> list_current s' = wheel_next i)"
      using wheel_invD(6)[OF W] unfolding sub by (auto simp: e)
    show "active_lists s' Restart = []" using wheel_invD(2)[OF W] by (simp add: e list_del_def)
    have "active s' u = active s u" for u by (simp add: e)
    then show "\<forall>u. active s' u \<longrightarrow> in_wheel s' u \<or> u \<in> insert t X" using wheel_invD(7)[OF W] by (auto simp: lk)
    show "\<forall>u \<in> insert t X. \<not> in_wheel s' u" using wheel_invD(8)[OF W] by (auto simp: lk)
  qed (use wheel_invD[OF W] in \<open>simp_all add: e\<close>)
  have "timer_left s' x = ((timer_left s)(t := None)) x" for x
  proof (cases "in_wheel s' x")
    case True
    then have x: "in_wheel s x" "x \<noteq> t" using lk by simp_all
    obtain h' where h': "h' \<in> set timer_heads" "x \<in> set (active_lists s h')" "timer_left s x = Some (left_in s h' x)"
      using in_wheel_home[OF W x(1)] by blast
    have "due (rounds s') (active_lists s' h') x = due (rounds s) (active_lists s h') x"
      using L[OF h'(1)] T(4)[of x] x(2) h'(1,2) due_cong[of "active_lists s h'" Q "rounds s"] other[OF h'(1)]
      by (auto simp: e)
    moreover have "timer_left s' x = Some (left_in s' h' x)"
      using timer_leftI[OF W' h'(1)] h'(2) x(2) by (simp add: sub)
    moreover have "list_current s' = list_current s" by (simp add: e)
    ultimately show ?thesis using h'(3) x(2) by (simp add: left_in_def)
  next
    case False
    then show ?thesis using lk[of x] timer_left_None[of s x] timer_left_None[of s' x] by auto
  qed
  then show "timer_left s' = (timer_left s)(t := None)" by blast
  show "timers s' u = (timers s u)\<lparr>round_ticks := rounds s' u\<rparr>" "rounds s' t = rounds s t"
    "active_lists s' = list_del (active_lists s) t" "list_current s' = list_current s" "need_handle s' = need_handle s"
    using T(2) by (simp_all add: e)
qed


text \<open>The timer \<open>t\<close> enters list \<open>i\<close> with \<open>r\<close> rounds; \<open>f\<close> notes its place.\<close>

lemma rounds_set_round: "rounds (set_round t r s) = (rounds s)(t := r)"
  by (simp add: fun_eq_iff set_round_def upd_timer_def)

lemma set_round_simps [simp]:
  "active_lists (set_round t r s) = active_lists s" "list_current (set_round t r s) = list_current s"
  "head_info (set_round t r s) = head_info s" "handle_flag (set_round t r s) = handle_flag s"
  "need_handle (set_round t r s) = need_handle s"
  "timers (set_round t r s) u = (timers s u)\<lparr>round_ticks := ((rounds s)(t := r)) u\<rparr>"
  by (simp_all add: set_round_put)

lemma upd_timer_simps [simp]:
  "active_lists (upd_timer t f s) = active_lists s" "list_current (upd_timer t f s) = list_current s"
  "head_info (upd_timer t f s) = head_info s" "handle_flag (upd_timer t f s) = handle_flag s"
  "need_handle (upd_timer t f s) = need_handle s" "timer_list (upd_timer t f s) = timer_list s"
  "timers (upd_timer t f s) u = (if u = t then f (timers s t) else timers s u)"
  by (simp_all add: upd_timer_def)

lemma wheel_add:
  assumes W: "wheel_inv s X" and t: "\<not> in_wheel s t" and i: "i < 16" and r: "unat r mod 16 = 0"
    and f: "\<And>x q. f (x\<lparr>round_ticks := q\<rparr>) = (f x)\<lparr>round_ticks := q\<rparr>"
    and pl: "placed_in (upd_timer t f s) i t" "0 < init_ticks (f (timers s t))"
  defines "s' \<equiv> upd_timer t f (k_timer_add_to_sort_list (Wheel i) t (set_round t r s))"
  shows "wheel_inv s' (X - {t})" "timer_left s' = (timer_left s)(t \<mapsto> unat r + lag (list_current s) (Wheel i))"
    "timers s' u = ((if u = t then f else id) (timers s u))\<lparr>round_ticks := rounds s' u\<rparr>" "need_handle s' = need_handle s"
    "list_current s' = list_current s" "active_lists s' Expired = active_lists s Expired"
proof -
  let ?l = "active_lists s (Wheel i)"
  let ?R = "(rounds s)(t := r)"
  obtain l Q where so: "sort_insert t r ?l ?R = (l, Q)" by (cases "sort_insert t r ?l ?R")
  have e: "k_timer_add_to_sort_list (Wheel i) t (set_round t r s) =
      put_rounds Q ((set_round t r s)\<lparr>active_lists := (active_lists s)(Wheel i := l)\<rparr>)"
    using add_to_list[of t "set_round t r s" "Wheel i" l Q] so unfolding rounds_set_round by simp
  have lists: "active_lists s' = (active_lists s)(Wheel i := l)" "list_current s' = list_current s"
    "head_info s' = head_info s" "handle_flag s' = handle_flag s"
    unfolding s'_def e by simp_all
  have other: "timers s' u = (timers s u)\<lparr>round_ticks := Q u\<rparr>" if "u \<noteq> t" for u
    using that unfolding s'_def e by simp
  have self: "timers s' t = (f (timers s t))\<lparr>round_ticks := Q t\<rparr>" unfolding s'_def e by (simp add: f)
  have "rounds s' v = Q v" for v by (cases "v = t") (simp_all add: self other)
  then have Q: "rounds s' = Q" by (rule ext)
  show "timers s' u = ((if u = t then f else id) (timers s u))\<lparr>round_ticks := rounds s' u\<rparr>" using self other Q by simp
  show "need_handle s' = need_handle s" unfolding s'_def e by simp
  show "list_current s' = list_current s" "active_lists s' Expired = active_lists s Expired" using lists by simp_all
  have tl: "t \<notin> set (active_lists s h)" if "h \<in> set timer_heads" for h using t that by (auto simp: in_wheel_def)
  note tw = tl[OF wheel_head(1)[OF i]]
  have "delta_ok ?R ?l" using wheel_invD(3)[OF W wheel_head(1)[OF i]] delta_ok_cong[of ?l ?R "rounds s"] tw by fastforce
  note S = sort_insert_ok[OF so tw this r]
  have dueR: "due ?R ?l x = due (rounds s) ?l x" for x using tw by (intro due_cong) auto
  have same: "Q x = rounds s x" if "x \<notin> set ?l" "x \<noteq> t" for x using S that by simp
  have other_list: "x \<notin> set ?l \<and> x \<noteq> t" if "h \<in> set timer_heads" "h \<noteq> Wheel i" "x \<in> set (active_lists s h)" for h x
    using wheel_invD(4)[OF W that(1) wheel_head(1)[OF i] that(3)] tl[OF that(1)] that(2,3) by blast
  have l: "active_lists s' h = (if h = Wheel i then l else active_lists s h)" for h using lists(1) by simp
  have sub: "set (active_lists s' h) = (if h = Wheel i then insert t (set ?l) else set (active_lists s h))" for h
    using S by (simp add: l)
  have lk: "in_wheel s' x \<longleftrightarrow> in_wheel s x \<or> x = t" for x
    using wheel_head(1)[OF i] unfolding in_wheel_def sub by (metis insert_iff)
  have flags: "x \<noteq> t \<Longrightarrow> tm_flag (timers s' x) = tm_flag (timers s x)" "x \<noteq> t \<Longrightarrow> tm_index (timers s' x) = tm_index (timers s x)"
    "x \<noteq> t \<Longrightarrow> tm_info (timers s' x) = tm_info (timers s x)" "x \<noteq> t \<Longrightarrow> init_ticks (timers s' x) = init_ticks (timers s x)" for x
    by (simp_all add: other)
  have dl: "delta_ok (rounds s') (active_lists s' h)" if h: "h \<in> set timer_heads" for h
  proof (cases "h = Wheel i")
    case True
    have "total Q l < 2 ^ 32" using S \<open>delta_ok ?R ?l\<close> unsigned_less[of r] by (simp add: delta_ok_def)
    then show ?thesis using S True by (simp add: l Q delta_ok_def)
  next
    case False
    then show ?thesis
      using wheel_invD(3)[OF W h] delta_ok_cong[of "active_lists s h" Q "rounds s"] same other_list[OF h False] by (simp add: l Q)
  qed
  have pt: "placed_in s' i t" using pl(1) by (simp add: placed_in_def self lists)
  show W': "wheel_inv s' (X - {t})"
    unfolding wheel_inv_def
  proof (intro conjI)
    show "\<forall>h \<in> set timer_heads. delta_ok (rounds s') (active_lists s' h)" using dl by blast
    show "\<forall>h \<in> set timer_heads. \<forall>h' \<in> set timer_heads. h \<noteq> h' \<longrightarrow> set (active_lists s' h) \<inter> set (active_lists s' h') = {}"
      using wheel_invD(4)[OF W] tl by (auto simp: sub split: if_splits)
    show "\<forall>j < 16. \<forall>x \<in> set (active_lists s' (Wheel j)). placed_in s' j x"
    proof (intro allI impI ballI)
      fix j x assume j: "j < 16" "x \<in> set (active_lists s' (Wheel j))"
      show "placed_in s' j x"
      proof (cases "x = t")
        case True
        then have "j = i" using j tl[OF wheel_head(1)[OF j(1)]] by (auto simp: sub split: if_splits)
        then show ?thesis using pt True by simp
      next
        case False
        then have "placed_in s j x" using wheel_invD(5)[OF W j(1)] j(2) by (auto simp: sub split: if_splits)
        then show ?thesis using flags[OF False] lists by (simp add: placed_in_def)
      qed
    qed
    show "\<forall>x \<in> set (active_lists s' Expired). active s' x \<and>
       (\<exists>j < 16. tm_index (timers s' x) = of_nat j \<and> list_current s' = wheel_next j)"
    proof
      fix x assume "x \<in> set (active_lists s' Expired)"
      then have x: "x \<in> set (active_lists s Expired)" "x \<noteq> t" using tl[OF wheel_head(2)] by (auto simp: sub)
      show "active s' x \<and> (\<exists>j < 16. tm_index (timers s' x) = of_nat j \<and> list_current s' = wheel_next j)"
        using wheel_invD(6)[OF W x(1)] flags[OF x(2)] lists(2) by simp
    qed
    show "active_lists s' Restart = []" using wheel_invD(2)[OF W] by (simp add: l)
    show "\<forall>x. active s' x \<longrightarrow> in_wheel s' x \<or> x \<in> X - {t}"
    proof (intro allI impI)
      fix x assume a: "active s' x"
      show "in_wheel s' x \<or> x \<in> X - {t}"
        using wheel_invD(7)[OF W, of x] a flags(1)[of x] by (cases "x = t") (auto simp: lk)
    qed
    show "\<forall>x \<in> X - {t}. \<not> in_wheel s' x" using wheel_invD(8)[OF W] by (auto simp: lk)
    show "\<forall>x. active s' x \<longrightarrow> 0 < init_ticks (timers s' x)"
    proof (intro allI impI)
      fix x assume "active s' x"
      then show "0 < init_ticks (timers s' x)"
        using wheel_invD(10)[OF W, of x] flags[of x] pl(2) self by (cases "x = t") simp_all
    qed
  qed (use wheel_invD(1,9)[OF W] in \<open>simp_all add: lists\<close>)
  have "timer_left s' x = ((timer_left s)(t \<mapsto> unat r + lag (list_current s) (Wheel i))) x" for x
  proof (cases "x = t")
    case True
    have "timer_left s' t = Some (left_in s' (Wheel i) t)"
      using timer_leftI[OF W' wheel_head(1)[OF i], of t] by (simp add: sub)
    then show ?thesis using True S lists(2) by (simp add: left_in_def l Q)
  next
    case False
    show ?thesis
    proof (cases "in_wheel s x")
      case True
      obtain h where h: "h \<in> set timer_heads" "x \<in> set (active_lists s h)" "timer_left s x = Some (left_in s h x)"
        using in_wheel_home[OF W True] by blast
      have "due Q (active_lists s' h) x = due (rounds s) (active_lists s h) x"
      proof (cases "h = Wheel i")
        case True
        then show ?thesis using S dueR[of x] h(2) by (simp add: l)
      next
        case False
        then show ?thesis using due_cong[of "active_lists s h" Q "rounds s" x] same other_list[OF h(1) False] by (simp add: l)
      qed
      moreover have "timer_left s' x = Some (left_in s' h x)"
        by (rule timer_leftI[OF W' h(1)]) (use h(2) in \<open>auto simp: sub\<close>)
      ultimately show ?thesis using h(3) False lists(2) by (simp add: left_in_def Q)
    next
      case nl: False
      then show ?thesis using lk[of x] False timer_left_None[of s x] timer_left_None[of s' x] by auto
    qed
  qed
  then show "timer_left s' = (timer_left s)(t \<mapsto> unat r + lag (list_current s) (Wheel i))" by blast
qed

subsection \<open>Starting and stopping\<close>

lemma unat_timer_mod: "unat (OS_TIMER_MOD w) = unat w mod 16"
proof -
  have "OS_TIMER_MOD w = take_bit 4 w" by (simp add: OS_TIMER_MOD_def take_bit_eq_mask mask_eq_exp_minus_1)
  then show ?thesis by (simp add: unat_mod take_bit_eq_mod)
qed

lemma unat_timer_round: "unat (OS_TIMER_ROUND w) = unat w div 16 * 16"
proof -
  have "unat w < 2 ^ 32" using unsigned_less[of w] by simp
  then have "unat w div 16 * 16 < 2 ^ 32" using div_times_less_eq_dividend[of "unat w" 16] by linarith
  then show ?thesis by (simp add: OS_TIMER_ROUND_def push_bit_eq_mult unat_word_ariths unat_drop_bit_eq drop_bit_eq_div)
qed

lemma set_handle_bit: "k_timer_set_handle_flag_index info (idx AND 1) AND 1 = (idx AND 1 :: u8)"
proof -
  have "idx AND 1 = 0 \<or> idx AND 1 = 1" by (simp add: and_one_eq mod_2_eq_odd)
  then show ?thesis by (elim disjE) (auto simp: k_timer_set_handle_flag_index_def intro!: bit_word_eqI simp: bit_simps)
qed

lemma timer_flag_bits:
  "has_flag w OS_TIMER_FLAG_PERIODIC \<longleftrightarrow> bit w 0" "has_flag w OS_TIMER_FLAG_ACTIVATED \<longleftrightarrow> bit w 1"
  "has_flag w OS_TIMER_FLAG_INITED \<longleftrightarrow> bit w 3" "bit OS_TIMER_FLAG_ACTIVATED n \<longleftrightarrow> n = 1"
proof -
  have e: "OS_TIMER_FLAG_PERIODIC = 2 ^ 0" "OS_TIMER_FLAG_ACTIVATED = 2 ^ 1" "OS_TIMER_FLAG_INITED = 2 ^ 3"
    by (simp_all add: timer_flag_defs)
  show "has_flag w OS_TIMER_FLAG_PERIODIC \<longleftrightarrow> bit w 0" "has_flag w OS_TIMER_FLAG_ACTIVATED \<longleftrightarrow> bit w 1"
    "has_flag w OS_TIMER_FLAG_INITED \<longleftrightarrow> bit w 3" unfolding e has_flag_exp by (rule refl)+
  show "bit OS_TIMER_FLAG_ACTIVATED n \<longleftrightarrow> n = 1" unfolding e bit_exp_iff by auto
qed

lemma wheel_turn: "c < 16 \<Longrightarrow> d < 16 \<Longrightarrow> ((c + d) mod 16 + 16 - c) mod 16 = (d :: nat)"
proof (cases "c + d < 16")
  case False
  assume "c < 16" "d < 16"
  then have "(c + d) mod 16 = c + d - 16" using False by (simp add: le_mod_geq)
  then show ?thesis using False \<open>d < 16\<close> by simp
qed simp

text \<open>What the wheel leaves alone: the settings of a timer.\<close>

definition same_settings :: "timer_sys \<Rightarrow> timer_sys \<Rightarrow> bool" where
  "same_settings s s' \<longleftrightarrow> (\<forall>u. init_ticks (timers s' u) = init_ticks (timers s u) \<and>
     timeout_func (timers s' u) = timeout_func (timers s u) \<and> parameter (timers s' u) = parameter (timers s u) \<and>
     tm_flag (timers s' u) AND NOT OS_TIMER_FLAG_ACTIVATED = tm_flag (timers s u) AND NOT OS_TIMER_FLAG_ACTIVATED)"

lemma wheel_activate:
  assumes W: "wheel_inv s X" and t: "\<not> in_wheel s t" "0 < init_ticks (timers s t)"
  shows "\<exists>s'. k_timer_activate t s = OK s' \<and> wheel_inv s' (X - {t}) \<and>
    timer_left s' = (timer_left s)(t \<mapsto> unat (init_ticks (timers s t))) \<and>
    need_handle s' = need_handle s \<and> list_current s' = list_current s \<and>
    active_lists s' Expired = active_lists s Expired \<and>
    same_settings s s'"
proof -
  define dec where "dec = init_ticks (timers s t) - 1"
  define idx where "idx = OS_TIMER_MOD (of_nat (list_current s) + OS_TIMER_MOD dec)"
  define r where "r = OS_TIMER_ROUND dec"
  define f where "f = (\<lambda>x :: os_timer. x\<lparr>tm_flag := tm_flag x OR OS_TIMER_FLAG_ACTIVATED, tm_index := idx,
      tm_info := k_timer_set_handle_flag_index (tm_info x) (head_info s (unat idx) AND 1)\<rparr>)"
  define s' where "s' = upd_timer t f (k_timer_add_to_sort_list (Wheel (unat idx)) t (set_round t r s))"
  have h: "head_info (k_timer_add_to_sort_list (Wheel (unat idx)) t (set_round t r s)) = head_info s"
    by (simp add: k_timer_add_to_sort_list_def split_beta)
  have run: "k_timer_activate t s = OK s'"
    using t timer_home_None[of s t] unfolding k_timer_activate_def Let_def dec_def[symmetric] idx_def[symmetric] r_def[symmetric]
    by (simp add: s'_def f_def h)
  have c: "list_current s < 16" by (rule wheel_invD(1)[OF W])
  have d: "unat dec = unat (init_ticks (timers s t)) - 1" "0 < unat (init_ticks (timers s t))"
    using t(2) by (simp_all add: dec_def word_less_nat_alt unat_sub word_le_nat_alt)
  have "unat (of_nat (list_current s) + OS_TIMER_MOD dec) = list_current s + unat dec mod 16"
    using c by (simp add: unat_word_ariths unat_of_nat unat_timer_mod)
  then have i: "unat idx = (list_current s + unat dec mod 16) mod 16" by (simp add: idx_def unat_timer_mod)
  have lag: "lag (list_current s) (Wheel (unat idx)) = unat dec mod 16 + 1"
    unfolding lag_simps i using wheel_turn[OF c, of "unat dec mod 16"] by simp
  have r: "unat r = unat dec div 16 * 16" by (simp add: r_def unat_timer_round)
  have sum: "unat r + lag (list_current s) (Wheel (unat idx)) = unat (init_ticks (timers s t))"
    using div_mult_mod_eq[of "unat dec" 16] d unfolding lag r by linarith
  have f: "f (x\<lparr>round_ticks := q\<rparr>) = (f x)\<lparr>round_ticks := q\<rparr>" for x q by (simp add: f_def)
  have pl: "placed_in (upd_timer t f s) (unat idx) t"
    by (simp add: placed_in_def f_def set_handle_bit timer_flag_bits bit_simps)
  have init: "0 < init_ticks (f (timers s t))" using t(2) by (simp add: f_def)
  have i16: "unat idx < 16" "unat r mod 16 = 0" by (simp_all add: i r)
  note A = wheel_add[OF W t(1) i16 f pl init, folded s'_def]
  have "((w OR OS_TIMER_FLAG_ACTIVATED) AND NOT OS_TIMER_FLAG_ACTIVATED) = w AND NOT OS_TIMER_FLAG_ACTIVATED" for w
    by (rule bit_word_eqI) (auto simp: bit_simps)
  then have "same_settings s s'"
    unfolding same_settings_def by (intro allI, subst (1 2 3 4) A(3)) (simp add: f_def)
  then show ?thesis using run A(1,2,4-6) sum by simp
qed

lemma wheel_clear:
  assumes W: "wheel_inv s X" and t: "\<not> in_wheel s t" and f: "\<not> has_flag (tm_flag (f (timers s t))) OS_TIMER_FLAG_ACTIVATED"
    "\<And>x q. round_ticks (f x) = round_ticks x"
  shows "wheel_inv (upd_timer t f s) (X - {t})" "timer_left (upd_timer t f s) = timer_left s"
proof -
  let ?s = "upd_timer t f s"
  have r: "rounds ?s = rounds s" using f(2) by (auto simp: fun_eq_iff)
  have lk: "in_wheel ?s x = in_wheel s x" for x by (simp add: in_wheel_def)
  have nt: "x \<noteq> t" if "h \<in> set timer_heads" "x \<in> set (active_lists s h)" for h x using t that by (auto simp: in_wheel_def)
  show "wheel_inv ?s (X - {t})"
    unfolding wheel_inv_def unfolding r lk unfolding upd_timer_simps
  proof (intro conjI)
    show "\<forall>i < 16. \<forall>x \<in> set (active_lists s (Wheel i)). placed_in ?s i x"
      using wheel_invD(5)[OF W] nt[OF wheel_head(1)] by (simp add: placed_in_def)
    show "\<forall>x \<in> set (active_lists s Expired). has_flag (tm_flag (if x = t then f (timers s t) else timers s x)) OS_TIMER_FLAG_ACTIVATED \<and>
       (\<exists>i < 16. tm_index (if x = t then f (timers s t) else timers s x) = of_nat i \<and> list_current s = wheel_next i)"
      using wheel_invD(6)[OF W] nt[OF wheel_head(2)] by simp
    show "\<forall>h \<in> set timer_heads. \<forall>h' \<in> set timer_heads. h \<noteq> h' \<longrightarrow> set (active_lists s h) \<inter> set (active_lists s h') = {}"
      using wheel_invD(4)[OF W] by blast
    show "\<forall>x. has_flag (tm_flag (if x = t then f (timers s t) else timers s x)) OS_TIMER_FLAG_ACTIVATED \<longrightarrow>
        in_wheel s x \<or> x \<in> X - {t}"
      using wheel_invD(7)[OF W] f(1) by auto
  qed (use wheel_invD[OF W] f(1) in auto)
  show "timer_left ?s = timer_left s"
    unfolding fun_eq_iff timer_left_def left_in_def timer_home_def r unfolding upd_timer_simps by simp
qed

lemma del_upd_commute:
  assumes "\<And>x q. f (x\<lparr>round_ticks := q\<rparr>) = (f x)\<lparr>round_ticks := q\<rparr>"
  shows "k_timer_del_from_sort_list t (upd_timer t f s) = upd_timer t f (k_timer_del_from_sort_list t s)"
proof -
  have r: "round_ticks (f x) = round_ticks x" for x using arg_cong[OF assms[of "round_ticks x" x], of round_ticks] by simp
  have c: "set_round n q (upd_timer t f s) = upd_timer t f (set_round n q s)" for n q s
    using assms by (auto simp: set_round_def upd_timer_def fun_eq_iff)
  have h: "timer_home (upd_timer t f s) t = timer_home s t" by (simp add: timer_home_def)
  have u: "round_ticks (timers (upd_timer t f s) x) = rounds s x" for x by (simp add: r)
  have l: "(upd_timer t f s)\<lparr>active_lists := L\<rparr> = upd_timer t f (s\<lparr>active_lists := L\<rparr>)" for L s by (simp add: upd_timer_def)
  show ?thesis
    unfolding k_timer_del_from_sort_list_def h upd_timer_simps(1)
    by (cases "timer_home s t") (simp_all add: Let_def u c l split: option.split del: upd_timer_simps(7))
qed


lemma same_settings_refl [simp]: "same_settings s s"
  by (simp add: same_settings_def)

lemma same_settings_trans: "same_settings s s' \<Longrightarrow> same_settings s' s'' \<Longrightarrow> same_settings s s''"
  by (simp add: same_settings_def)

lemma same_settings_retimed: "(\<And>u. timers s' u = (timers s u)\<lparr>round_ticks := R u\<rparr>) \<Longrightarrow> same_settings s s'"
  by (simp add: same_settings_def)

lemma clear_active: "(w AND NOT OS_TIMER_FLAG_ACTIVATED) AND NOT OS_TIMER_FLAG_ACTIVATED = w AND NOT OS_TIMER_FLAG_ACTIVATED"
  "\<not> has_flag (w AND NOT OS_TIMER_FLAG_ACTIVATED) OS_TIMER_FLAG_ACTIVATED"
  by (simp_all add: and.assoc timer_flag_bits bit_simps)

lemma wheel_deactivate:
  fixes t :: tmid
  assumes W: "wheel_inv s X"
  defines "s' \<equiv> k_timer_deactivate t s"
  shows "wheel_inv s' (X - {t})" "timer_left s' = (timer_left s)(t := None)" "same_settings s s'"
    "need_handle s' = need_handle s" "list_current s' = list_current s"
    "h \<in> set timer_heads \<Longrightarrow> active_lists s' h = removeAll t (active_lists s h)"
proof -
  let ?f = "\<lambda>x :: os_timer. x\<lparr>tm_flag := tm_flag x AND NOT OS_TIMER_FLAG_ACTIVATED, tm_index := OS_TIMER_INDEX_INVALID\<rparr>"
  have hm: "timer_home (upd_timer t ?f s) t = timer_home s t" by (simp add: timer_home_def)
  have un: "removeAll t (active_lists s h) = active_lists s h" if "\<not> in_wheel s t" "h \<in> set timer_heads" for h
    using that by (auto simp: in_wheel_def removeAll_id)
  have ss: "same_settings r (upd_timer t ?f r)" for r by (simp add: same_settings_def clear_active)
  have *: "wheel_inv s' (X - {t}) \<and> timer_left s' = (timer_left s)(t := None) \<and> same_settings s s' \<and>
    need_handle s' = need_handle s \<and> list_current s' = list_current s \<and>
    (\<forall>h \<in> set timer_heads. active_lists s' h = removeAll t (active_lists s h))"
  proof (cases "in_wheel s t")
    case True
    have "k_timer_del_from_sort_list t (upd_timer t ?f s) = upd_timer t ?f (k_timer_del_from_sort_list t s)"
      by (rule del_upd_commute) simp
    moreover obtain y where "timer_home s t = Some y" using timer_home_None[of s t] True by blast
    ultimately have e: "s' = upd_timer t ?f (k_timer_del_from_sort_list t s)"
      using in_wheel_active[OF W True] hm by (simp add: s'_def k_timer_deactivate_def Let_def)
    note D = wheel_del[OF W True]
    have nl: "\<not> in_wheel (k_timer_del_from_sort_list t s) t" using wheel_invD(8)[OF D(1)] by simp
    note C = wheel_clear[OF D(1) nl, of ?f]
    have "insert t X - {t} = X - {t}" by blast
    then show ?thesis
      using C D(2,5-7) same_settings_trans[OF same_settings_retimed[OF D(3)] ss]
      by (simp add: e clear_active list_del_def)
  next
    case nl: False
    have n: "(timer_left s)(t := None) = timer_left s" using nl timer_left_None[of s t] by (simp add: fun_upd_idem)
    show ?thesis
    proof (cases "active s t")
      case True
      then have e: "s' = upd_timer t ?f s"
        using timer_home_None[of s t] nl hm by (simp add: s'_def k_timer_deactivate_def Let_def)
      show ?thesis using wheel_clear[OF W nl, of ?f] ss n un[OF nl] by (simp add: e clear_active)
    next
      case False
      then have e: "s' = s" by (simp add: s'_def k_timer_deactivate_def)
      have "wheel_inv s (X - {t})" using W False unfolding wheel_inv_def by auto
      then show ?thesis using n un[OF nl] by (simp add: e)
    qed
  qed
  then show "wheel_inv s' (X - {t})" "timer_left s' = (timer_left s)(t := None)" "same_settings s s'"
    "need_handle s' = need_handle s" "list_current s' = list_current s"
    "h \<in> set timer_heads \<Longrightarrow> active_lists s' h = removeAll t (active_lists s h)" by blast+
qed


subsection \<open>The timer task\<close>

definition periodic :: "timer_sys \<Rightarrow> tmid \<Rightarrow> bool" where
  "periodic s t \<longleftrightarrow> has_flag (tm_flag (timers s t)) OS_TIMER_FLAG_PERIODIC"

lemma same_settingsD:
  assumes "same_settings s s'"
  shows "init_ticks (timers s' t) = init_ticks (timers s t)" "timeout_func (timers s' t) = timeout_func (timers s t)"
    "parameter (timers s' t) = parameter (timers s t)" "periodic s' t = periodic s t"
    "has_flag (tm_flag (timers s' t)) OS_TIMER_FLAG_INITED = has_flag (tm_flag (timers s t)) OS_TIMER_FLAG_INITED"
proof -
  have m: "bit w n = bit (w AND NOT OS_TIMER_FLAG_ACTIVATED) n" if "n \<noteq> 1" "n < 8" for w n
    using that by (simp add: bit_simps timer_flag_bits)
  have "tm_flag (timers s' t) AND NOT OS_TIMER_FLAG_ACTIVATED = tm_flag (timers s t) AND NOT OS_TIMER_FLAG_ACTIVATED"
    using assms by (simp add: same_settings_def)
  then have b: "bit (tm_flag (timers s' t)) n = bit (tm_flag (timers s t)) n" if "n \<noteq> 1" "n < 8" for n
    using m[OF that] by metis
  show "periodic s' t = periodic s t" "has_flag (tm_flag (timers s' t)) OS_TIMER_FLAG_INITED = has_flag (tm_flag (timers s t)) OS_TIMER_FLAG_INITED"
    using b by (simp_all add: periodic_def timer_flag_bits)
qed (use assms in \<open>simp_all add: same_settings_def\<close>)

text \<open>The timers that are due are called and start again or stop.\<close>

definition rearmed :: "timer_sys \<Rightarrow> tmid \<Rightarrow> nat option" where
  "rearmed s t = (if periodic s t then Some (unat (init_ticks (timers s t))) else None)"

text \<open>One timer of the list that the timer task works on.\<close>

lemma expire_restart:
  assumes W: "wheel_inv s {}" and E: "active_lists s Expired = t # ts"
  shows "\<exists>s3 s'. timer_task_expire t s = OK (s3, if timer_left s t = Some 0 then Some (timeout_func (timers s t), parameter (timers s t)) else None) \<and>
    timer_task_restart s3 = OK s' \<and> wheel_inv s' {} \<and> active_lists s' Expired = ts \<and> same_settings s s' \<and>
    need_handle s' = need_handle s \<and> list_current s' = list_current s \<and>
    timer_left s' = (if timer_left s t = Some 0 then (timer_left s)(t := rearmed s t) else timer_left s)"
proof -
  have lt: "in_wheel s t" using E by (auto simp: in_wheel_def intro!: bexI[of _ Expired])
  define s1 where "s1 = k_timer_del_from_sort_list t s"
  note D = wheel_del[OF W lt, folded s1_def]
  have W1: "wheel_inv s1 {t}" using D(1) by simp
  have nl: "\<not> in_wheel s1 t" using wheel_invD(8)[OF W1] by simp
  have dist: "distinct (t # ts)" using wheel_invD(3)[OF W, of Expired] E by (simp add: delta_ok_def)
  have E1: "active_lists s1 Expired = ts" using D(5) E dist by (simp add: list_del_def)
  have R1: "active_lists s1 Restart = []" by (rule wheel_invD(2)[OF W1])
  then have s1R: "s1\<lparr>active_lists := (active_lists s1)(Restart := [])\<rparr> = s1" by (simp add: fun_upd_idem)
  define r where "r = rounds s t"
  have r1: "rounds s1 t = r" using D(4) by (simp add: r_def)
  have left: "timer_left s t = Some (unat r)" using timer_leftI[OF W, of Expired t] E by (simp add: left_in_def r_def)
  have r16: "unat r mod 16 = 0" using wheel_invD(3)[OF W, of Expired] E by (simp add: delta_ok_def r_def)
  have m: "OS_TIMER_MOD r = 0" using unat_timer_mod[of r] r16 by (simp add: unat_eq_0[symmetric] del: unat_eq_0)
  note ss = same_settings_retimed[OF D(3)]
  note S = same_settingsD[OF ss, of t]
  have act: "active s t" by (rule in_wheel_active[OF W lt])
  have fl: "tm_flag (timers s1 t) = tm_flag (timers s t)" "tm_index (timers s1 t) = tm_index (timers s t)"
    "init_ticks (timers s1 t) = init_ticks (timers s t)"
    using arg_cong[OF D(3)[of t], of tm_flag] arg_cong[OF D(3)[of t], of tm_index] S(1) by simp_all
  define f where "f = (if r = 0 then Some (timeout_func (timers s t), parameter (timers s t)) else None)"
  define s2 where "s2 = s1\<lparr>active_lists := (active_lists s1)(Restart := [t])\<rparr>"
  have f: "(if timer_left s t = Some 0 then Some (timeout_func (timers s t), parameter (timers s t)) else None) = f"
    by (simp add: left f_def unat_eq_0)
  have ex: "timer_task_expire t s = OK (if r \<noteq> 0 \<or> periodic s t then s2 else k_timer_deactivate t s1, f)"
    unfolding timer_task_expire_def Let_def s1_def[symmetric] s1R using m r1 S(2-4) by (simp add: s2_def f_def periodic_def)
  have idem: "active_lists s1 h = removeAll t (active_lists s1 h)" for h using D(5) by (simp add: list_del_def)
  have del2: "s2\<lparr>active_lists := list_del (active_lists s2) t\<rparr> = s1"
  proof -
    have "list_del (active_lists s2) t h = active_lists s1 h" for h using idem[of h] R1 by (simp add: s2_def list_del_def)
    then have "list_del (active_lists s2) t = active_lists s1" by (rule ext)
    then show ?thesis by (simp add: s2_def)
  qed
  have rs2: "timer_task_restart s2 =
      (if r = 0 then k_timer_activate t s1
       else let s2 = set_round t (r - OS_TIMER_LIST_ENTRIES) s1; idx = unat (tm_index (timers s2 t));
                s3 = k_timer_add_to_sort_list (Wheel idx) t s2
            in OK (upd_timer t (\<lambda>x. x\<lparr>tm_info := k_timer_set_handle_flag_index (tm_info x) (head_info s3 idx AND 1)\<rparr>) s3))"
  proof -
    have "active_lists s2 Restart = [t]" by (simp add: s2_def)
    then show ?thesis unfolding timer_task_restart_def by (simp add: del2 r1)
  qed
  consider (again) "r = 0" "periodic s t" | (stop) "r = 0" "\<not> periodic s t" | (later) "r \<noteq> 0" by blast
  then show ?thesis
  proof cases
    case again
    have "0 < init_ticks (timers s1 t)" using wheel_invD(10)[OF W act] fl by simp
    from wheel_activate[OF W1 nl this] obtain s' where s': "k_timer_activate t s1 = OK s'" "wheel_inv s' ({t} - {t})"
      "timer_left s' = (timer_left s1)(t \<mapsto> unat (init_ticks (timers s1 t)))" "need_handle s' = need_handle s1"
      "list_current s' = list_current s1" "active_lists s' Expired = active_lists s1 Expired" "same_settings s1 s'"
      by blast
    then show ?thesis
      unfolding f ex using again rs2 D(2,6,7) E1 same_settings_trans[OF ss s'(7)] left fl
      by (simp add: rearmed_def)
  next
    case stop
    note A = wheel_deactivate[OF W1, where t = t]
    have "timer_task_restart (k_timer_deactivate t s1) = OK (k_timer_deactivate t s1)"
      using A(6)[of Restart] R1 by (simp add: timer_task_restart_def)
    then show ?thesis
      unfolding f ex using stop A D(2,6,7) E1 same_settings_trans[OF ss A(3)] left dist
      by (simp add: rearmed_def)
  next
    case later
    obtain i where i: "i < 16" "tm_index (timers s t) = of_nat i" "list_current s = wheel_next i"
      using wheel_invD(6)[OF W, of t] E by auto
    have ui: "unat (tm_index (timers s1 t)) = i" using i(1,2) fl by (simp add: unat_of_nat)
    define q where "q = r - OS_TIMER_LIST_ENTRIES"
    define g where "g = (\<lambda>x :: os_timer. x\<lparr>tm_info := k_timer_set_handle_flag_index (tm_info x) (head_info s1 i AND 1)\<rparr>)"
    define s' where "s' = upd_timer t g (k_timer_add_to_sort_list (Wheel i) t (set_round t q s1))"
    have hi: "head_info (k_timer_add_to_sort_list (Wheel i) t (set_round t q s1)) = head_info s1"
      by (simp add: k_timer_add_to_sort_list_def split_beta)
    have run: "timer_task_restart s2 = OK s'"
      using later unfolding rs2 Let_def q_def[symmetric] by (simp add: ui s'_def g_def hi)
    have "16 \<le> unat r" using r16 later by (metis dvd_imp_le mod_0_imp_dvd unat_gt_0)
    then have q: "unat q = unat r - 16" "unat q mod 16 = 0"
      using r16 by (simp_all add: q_def OS_TIMER_LIST_ENTRIES_def unat_sub word_le_nat_alt mod16_diff)
    have pl: "placed_in (upd_timer t g s1) i t"
      using act fl i(2) by (simp add: placed_in_def g_def set_handle_bit)
    have gi: "0 < init_ticks (g (timers s1 t))" using wheel_invD(10)[OF W act] fl by (simp add: g_def)
    have gc: "g (x\<lparr>round_ticks := p\<rparr>) = (g x)\<lparr>round_ticks := p\<rparr>" for x p by (simp add: g_def)
    note A = wheel_add[OF W1 nl i(1) q(2) gc pl gi, folded s'_def]
    have "lag (list_current s1) (Wheel i) = 16"
      using i(1,3) D(6) by (cases "i = 15") (simp_all add: wheel_next_def)
    then have left': "timer_left s' = (timer_left s1)(t \<mapsto> unat r)" using A(2) q(1) \<open>16 \<le> unat r\<close> by simp
    have "same_settings s1 s'"
    proof -
      have "init_ticks (timers s' u) = init_ticks (timers s1 u)" "timeout_func (timers s' u) = timeout_func (timers s1 u)"
        "parameter (timers s' u) = parameter (timers s1 u)" "tm_flag (timers s' u) = tm_flag (timers s1 u)" for u
        using arg_cong[OF A(3)[of u], of init_ticks] arg_cong[OF A(3)[of u], of timeout_func]
          arg_cong[OF A(3)[of u], of parameter] arg_cong[OF A(3)[of u], of tm_flag]
        by (simp_all add: g_def split: if_splits)
      then show ?thesis by (simp add: same_settings_def)
    qed
    then show ?thesis
      unfolding f ex using later run A(1,4-6) left' D(2,6,7) E1 same_settings_trans[OF ss] left
      by (simp add: fun_upd_idem unat_eq_0)
  qed
qed

text \<open>
  The whole list. The functions of the timers leave the timers alone; \<open>eff f p\<close> is what
  function \<open>f\<close> does to the rest of the system when called with \<open>p\<close>.
\<close>

definition called :: "timer_sys \<Rightarrow> (nat \<Rightarrow> nat \<Rightarrow> 'e \<Rightarrow> 'e) \<Rightarrow> tmid list \<Rightarrow> 'e \<Rightarrow> 'e" where
  "called s eff ts = fold (\<lambda>t. eff (timeout_func (timers s t)) (parameter (timers s t))) ts"

definition bystander :: "(nat \<Rightarrow> nat \<Rightarrow> 'e \<Rightarrow> 'e) \<Rightarrow> nat \<Rightarrow> nat \<Rightarrow> timer_sys \<times> 'e \<Rightarrow> timer_sys \<times> 'e" where
  "bystander eff f p q = (fst q, eff f p (snd q))"

lemma called_cong: "same_settings s s' \<Longrightarrow> called s' eff ts = called s eff ts"
  by (simp add: called_def same_settings_def)

lemma timer_task_loop_ok:
  assumes "wheel_inv s {}" "\<not> need_handle s"
  shows "\<exists>s'. timer_task_loop (bystander eff) (s, e) =
      Some (OK (s', called s eff [t \<leftarrow> active_lists s Expired. timer_left s t = Some 0] e)) \<and>
    wheel_inv s' {} \<and> active_lists s' Expired = [] \<and> \<not> need_handle s' \<and> list_current s' = list_current s \<and>
    same_settings s s' \<and>
    timer_left s' = (\<lambda>t. if t \<in> set (active_lists s Expired) \<and> timer_left s t = Some 0 then rearmed s t else timer_left s t)"
  using assms
proof (induction "active_lists s Expired" arbitrary: s e)
  case Nil
  then show ?case by (subst timer_task_loop.simps) (simp add: called_def)
next
  case (Cons t ts)
  note E = Cons.hyps(2)[symmetric]
  obtain s3 s1 where S: "timer_task_expire t s = OK (s3, if timer_left s t = Some 0 then Some (timeout_func (timers s t), parameter (timers s t)) else None)"
      "timer_task_restart s3 = OK s1" "wheel_inv s1 {}" "active_lists s1 Expired = ts" "same_settings s s1"
      "need_handle s1 = need_handle s" "list_current s1 = list_current s"
      "timer_left s1 = (if timer_left s t = Some 0 then (timer_left s)(t := rearmed s t) else timer_left s)"
    using expire_restart[OF Cons.prems(1) E] by blast
  define e1 where "e1 = (if timer_left s t = Some 0 then eff (timeout_func (timers s t)) (parameter (timers s t)) e else e)"
  have dist: "t \<notin> set ts" using wheel_invD(3)[OF Cons.prems(1), of Expired] E by (simp add: delta_ok_def)
  have rec: "timer_task_loop (bystander eff) (s, e) = timer_task_loop (bystander eff) (s1, e1)"
    by (subst timer_task_loop.simps) (simp add: E S(1,2) timer_call_def bystander_def e1_def Let_def)
  obtain s' where s': "timer_task_loop (bystander eff) (s1, e1) =
      Some (OK (s', called s1 eff [u \<leftarrow> active_lists s1 Expired. timer_left s1 u = Some 0] e1))"
    "wheel_inv s' {}" "active_lists s' Expired = []" "\<not> need_handle s'" "list_current s' = list_current s1" "same_settings s1 s'"
    "timer_left s' = (\<lambda>u. if u \<in> set (active_lists s1 Expired) \<and> timer_left s1 u = Some 0 then rearmed s1 u else timer_left s1 u)"
    using Cons.hyps(1)[of s1 e1] S(3,4,6) Cons.prems(2) by blast
  have same: "timer_left s1 u = timer_left s u" if "u \<in> set ts" for u using S(8) that dist by auto
  then have fl: "[u \<leftarrow> ts. timer_left s1 u = Some 0] = [u \<leftarrow> ts. timer_left s u = Some 0]" by (simp cong: filter_cong)
  have log: "called s1 eff [u \<leftarrow> active_lists s1 Expired. timer_left s1 u = Some 0] e1 =
      called s eff [u \<leftarrow> active_lists s Expired. timer_left s u = Some 0] e"
    unfolding S(4) fl called_cong[OF S(5)] E by (simp add: e1_def called_def)
  have rm: "rearmed s1 = rearmed s" using same_settingsD[OF S(5)] by (simp add: rearmed_def fun_eq_iff)
  have "timer_left s' = (\<lambda>u. if u \<in> set (active_lists s Expired) \<and> timer_left s u = Some 0 then rearmed s u else timer_left s u)"
    unfolding s'(7) rm S(4) E[symmetric] using S(8) same dist E by (auto simp: fun_eq_iff)
  then show ?case
    unfolding rec using s'(1-6) log S(7) same_settings_trans[OF S(5) s'(6)] by simp
qed

subsection \<open>The tick\<close>

text \<open>Between two ticks.\<close>

definition wheel_ok :: "timer_sys \<Rightarrow> bool" where
  "wheel_ok s \<longleftrightarrow> wheel_inv s {} \<and> active_lists s Expired = [] \<and> \<not> need_handle s \<and>
     (\<forall>t n. timer_left s t = Some n \<longrightarrow> n < 2 ^ 32)"

text \<open>A tick of the clock, with the turn of the timer task that it asks for.\<close>

definition timer_tick :: "(nat \<Rightarrow> nat \<Rightarrow> timer_sys \<times> 'e \<Rightarrow> timer_sys \<times> 'e) \<Rightarrow> timer_sys \<times> 'e \<Rightarrow> (timer_sys \<times> 'e) res option" where
  "timer_tick call q =
     (let s1 = wheel_tick (fst q)
      in if need_handle s1 then timer_task_loop call (timer_task_take s1, snd q) else Some (OK (s1, snd q)))"

text \<open>One tick of every countdown.\<close>

definition counted :: "timer_sys \<Rightarrow> tmid \<Rightarrow> nat option" where
  "counted s t = (case timer_left s t of None \<Rightarrow> None | Some n \<Rightarrow> if n = 1 then rearmed s t else Some (n - 1))"

lemma wheel_next_lt: "c < 16 \<Longrightarrow> wheel_next c < 16"
  by (simp add: wheel_next_def)

lemma lag_next:
  assumes "c < 16" "i < 16"
  shows "lag (wheel_next c) (Wheel i) = (if i = c then 16 else lag c (Wheel i) - 1)" "lag c (Wheel c) = 1"
    "i \<noteq> c \<Longrightarrow> 2 \<le> lag c (Wheel i)"
proof -
  have m: "(i + 16 - c) mod 16 = (if c \<le> i then i - c else i + 16 - c)"
    using assms by (auto simp: mod_if)
  have n: "(i + 16 - wheel_next c) mod 16 = (if wheel_next c \<le> i then i - wheel_next c else i + 16 - wheel_next c)"
    using assms by (auto simp: mod_if wheel_next_def)
  show "lag (wheel_next c) (Wheel i) = (if i = c then 16 else lag c (Wheel i) - 1)" "i \<noteq> c \<Longrightarrow> 2 \<le> lag c (Wheel i)"
    unfolding lag_simps m n using assms by (auto simp: wheel_next_def)
qed simp


text \<open>A tick at which nothing is due in the current list: its rounds go down by one turn of the wheel.\<close>

lemma wheel_pass:
  assumes W: "wheel_inv s {}" and E: "active_lists s Expired = []"
  defines "c \<equiv> list_current s"
  assumes Q: "\<And>x. x \<notin> set (active_lists s (Wheel c)) \<Longrightarrow> Q x = rounds s x" "delta_ok Q (active_lists s (Wheel c))"
    "\<And>x. x \<in> set (active_lists s (Wheel c)) \<Longrightarrow> due Q (active_lists s (Wheel c)) x + 16 = due (rounds s) (active_lists s (Wheel c)) x"
  defines "s' \<equiv> (put_rounds Q s)\<lparr>list_current := wheel_next c\<rparr>"
  shows "wheel_inv s' {}" "timer_left s' t = map_option (\<lambda>n. n - 1) (timer_left s t)" "timer_left s t \<noteq> Some 1" "same_settings s s'"
proof -
  have c: "c < 16" using wheel_invD(1)[OF W] by (simp add: c_def)
  have l: "active_lists s' = active_lists s" "list_current s' = wheel_next c" "rounds s' = Q" by (simp_all add: s'_def)
  have lk: "in_wheel s' x = in_wheel s x" for x by (simp add: in_wheel_def l)
  have same: "Q x = rounds s x" if "h \<in> set timer_heads" "h \<noteq> Wheel c" "x \<in> set (active_lists s h)" for h x
    using Q(1) wheel_invD(4)[OF W that(1) wheel_head(1)[OF c] that(3)] that(2) by blast
  show W': "wheel_inv s' {}"
    unfolding wheel_inv_def
  proof (intro conjI)
    show "\<forall>h \<in> set timer_heads. delta_ok (rounds s') (active_lists s' h)"
    proof
      fix h assume h: "h \<in> set timer_heads"
      show "delta_ok (rounds s') (active_lists s' h)"
        using Q(2) delta_ok_cong[of "active_lists s h" Q "rounds s"] same[OF h] wheel_invD(3)[OF W h] unfolding l
        by (cases "h = Wheel c") auto
    qed
    show "\<forall>h \<in> set timer_heads. \<forall>h' \<in> set timer_heads. h \<noteq> h' \<longrightarrow> set (active_lists s' h) \<inter> set (active_lists s' h') = {}"
      using wheel_invD(4)[OF W] unfolding l by blast
    show "\<forall>i < 16. \<forall>t \<in> set (active_lists s' (Wheel i)). placed_in s' i t"
      using wheel_invD(5)[OF W] by (simp add: placed_in_def s'_def)
    show "\<forall>t. active s' t \<longrightarrow> in_wheel s' t \<or> t \<in> {}" using wheel_invD(7)[OF W] unfolding lk by (simp add: s'_def)
  qed (use wheel_invD[OF W] E wheel_next_lt[OF c] in \<open>simp_all add: s'_def\<close>)
  have "timer_left s' t = map_option (\<lambda>n. n - 1) (timer_left s t) \<and> timer_left s t \<noteq> Some 1"
  proof (cases "in_wheel s t")
    case True
    obtain h where h: "h \<in> set timer_heads" "h \<noteq> Restart" "t \<in> set (active_lists s h)" "timer_left s t = Some (left_in s h t)"
      using in_wheel_home[OF W True] by blast
    then obtain i where i: "h = Wheel i" "i < 16" using E by (auto simp: set_timer_heads)
    have t': "timer_left s' t = Some (left_in s' h t)" using timer_leftI[OF W' h(1)] h(3) by (simp add: l)
    have "left_in s' h t = left_in s h t - 1 \<and> left_in s h t \<noteq> 1"
    proof (cases "i = c")
      case True
      then show ?thesis using Q(3)[of t] h(3) i lag_next(1,2)[OF c c] by (simp add: left_in_def l c_def[symmetric] del: lag_simps)
    next
      case False
      have "due Q (active_lists s h) t = due (rounds s) (active_lists s h) t"
        using same[OF h(1)] i False by (intro due_cong) auto
      then show ?thesis using lag_next(1,3)[OF c i(2)] False by (simp add: left_in_def l i(1) c_def[symmetric] del: lag_simps)
    qed
    then show ?thesis using t' h(4) by simp
  next
    case False
    then show ?thesis using timer_left_None[of s t] timer_left_None[of s' t] lk[of t] by simp
  qed
  then show "timer_left s' t = map_option (\<lambda>n. n - 1) (timer_left s t)" "timer_left s t \<noteq> Some 1" by simp_all
  show "same_settings s s'" by (simp add: same_settings_def s'_def)
qed

text \<open>The timer task takes the current list off the wheel; \<open>s\<close> may have its flag set.\<close>

lemma wheel_take:
  fixes b :: bool
  assumes W: "wheel_inv s {}" and E: "active_lists s Expired = []"
  defines "s' \<equiv> timer_task_take (s\<lparr>need_handle := b\<rparr>)"
  shows "wheel_inv s' {}" "timer_left s' t = map_option (\<lambda>n. n - 1) (timer_left s t)" "same_settings s s'" "\<not> need_handle s'"
    "active_lists s' Expired = active_lists s (Wheel (list_current s))" "list_current s' = wheel_next (list_current s)"
    "timer_left s t = Some 1 \<Longrightarrow> t \<in> set (active_lists s (Wheel (list_current s)))"
proof -
  define c where "c = list_current s"
  let ?hb = "head_info s c AND 1"
  let ?nb = "if ?hb = 0 then 1 else 0 :: u8"
  have c: "c < 16" using wheel_invD(1)[OF W] by (simp add: c_def)
  have l: "active_lists s' h = (if h = Wheel c then [] else if h = Expired then active_lists s (Wheel c) else active_lists s h)"
    "list_current s' = wheel_next c" "timers s' = timers s" "\<not> need_handle s'"
    "head_info s' = (head_info s)(c := k_timer_set_handle_flag_index (head_info s c) ?nb)"
    "handle_flag s' = (handle_flag s)(c := (handle_flag s c)(unat ?hb := 1, unat ?nb := 0))" for h
    by (simp_all add: s'_def timer_task_take_def k_timer_update_handle_flag_def Let_def c_def)
  show "\<not> need_handle s'" "list_current s' = wheel_next (list_current s)" using l by (simp_all add: c_def)
  show "active_lists s' Expired = active_lists s (Wheel (list_current s))" by (simp add: l c_def)
  show "same_settings s s'" by (simp add: same_settings_def l)
  have nb: "k_timer_set_handle_flag_index (head_info s c) ?nb AND 1 = ?nb"
    using set_handle_bit[of "head_info s c" ?nb] by (cases "?hb = 0") simp_all
  have from_old: "\<exists>h'. h' \<in> set timer_heads \<and> x \<in> set (active_lists s h') \<and> h' = (if h = Expired then Wheel c else h)"
    if "h \<in> set timer_heads" "x \<in> set (active_lists s' h)" for h x
    using that c by (auto simp: l split: if_splits)
  have to_new: "x \<in> set (active_lists s' (if h = Wheel c then Expired else h))"
    if "h \<in> set timer_heads" "x \<in> set (active_lists s h)" for h x
    using that E by (auto simp: l)
  have lk: "in_wheel s' x = in_wheel s x" for x
    using from_old to_new wheel_head(2) unfolding in_wheel_def by metis
  show W': "wheel_inv s' {}"
    unfolding wheel_inv_def
  proof (intro conjI)
    show "list_current s' < 16" using wheel_next_lt[OF c] by (simp add: l)
    show "active_lists s' Restart = []" using wheel_invD(2)[OF W] by (simp add: l)
    show "\<forall>h \<in> set timer_heads. delta_ok (rounds s') (active_lists s' h)"
      using wheel_invD(3)[OF W] wheel_head(1)[OF c] by (simp add: l)
    show "\<forall>h \<in> set timer_heads. \<forall>h' \<in> set timer_heads. h \<noteq> h' \<longrightarrow> set (active_lists s' h) \<inter> set (active_lists s' h') = {}"
    proof (intro ballI impI, rule ccontr)
      fix h h' assume h: "h \<in> set timer_heads" "h' \<in> set timer_heads" "h \<noteq> h'"
        and "set (active_lists s' h) \<inter> set (active_lists s' h') \<noteq> {}"
      then obtain x where x: "x \<in> set (active_lists s' h)" "x \<in> set (active_lists s' h')" by blast
      then have "(if h = Expired then Wheel c else h) = (if h' = Expired then Wheel c else h')"
        using from_old[OF h(1) x(1)] from_old[OF h(2) x(2)] wheel_invD(4)[OF W] by metis
      then show False using h(3) x by (auto simp: l split: if_splits)
    qed
    show "\<forall>i < 16. \<forall>t \<in> set (active_lists s' (Wheel i)). placed_in s' i t"
      using wheel_invD(5)[OF W] by (auto simp: placed_in_def l)
    show "\<forall>t \<in> set (active_lists s' Expired). active s' t \<and>
       (\<exists>i < 16. tm_index (timers s' t) = of_nat i \<and> list_current s' = wheel_next i)"
      using wheel_invD(5)[OF W c] c by (auto simp: placed_in_def l)
    show "\<forall>t. active s' t \<longrightarrow> in_wheel s' t \<or> t \<in> {}" using wheel_invD(7)[OF W] by (simp add: lk l)
    show "\<forall>i < 16. handle_flag s' i (unat (head_info s' i AND 1)) = 0"
    proof (intro allI impI)
      fix i :: nat assume "i < 16"
      show "handle_flag s' i (unat (head_info s' i AND 1)) = 0"
      proof (cases "i = c")
        case True
        show ?thesis unfolding l True fun_upd_same nb by simp
      qed (use wheel_invD(9)[OF W \<open>i < 16\<close>] in \<open>simp add: l\<close>)
    qed
    show "\<forall>t. active s' t \<longrightarrow> 0 < init_ticks (timers s' t)" using wheel_invD(10)[OF W] by (simp add: l)
  qed simp
  have "timer_left s' t = map_option (\<lambda>n. n - 1) (timer_left s t) \<and>
    (timer_left s t = Some 1 \<longrightarrow> t \<in> set (active_lists s (Wheel c)))"
  proof (cases "in_wheel s t")
    case True
    obtain h where h: "h \<in> set timer_heads" "h \<noteq> Restart" "t \<in> set (active_lists s h)" "timer_left s t = Some (left_in s h t)"
      using in_wheel_home[OF W True] by blast
    then obtain i where i: "h = Wheel i" "i < 16" using E by (auto simp: set_timer_heads)
    show ?thesis
    proof (cases "i = c")
      case True
      have "timer_left s' t = Some (left_in s' Expired t)"
        using timer_leftI[OF W' wheel_head(2)] h(3) i(1) True by (simp add: l)
      then show ?thesis using h(3,4) i(1) True by (simp add: left_in_def l c_def[symmetric])
    next
      case False
      have "timer_left s' t = Some (left_in s' h t)"
        using timer_leftI[OF W' h(1)] h(3) i(1) False by (simp add: l)
      then show ?thesis
        using h(4) lag_next(1,3)[OF c i(2)] False by (simp add: left_in_def l i(1) c_def[symmetric] del: lag_simps)
    qed
  next
    case False
    then show ?thesis using timer_left_None[of s t] timer_left_None[of s' t] lk[of t] by simp
  qed
  then show "timer_left s' t = map_option (\<lambda>n. n - 1) (timer_left s t)"
    "timer_left s t = Some 1 \<Longrightarrow> t \<in> set (active_lists s (Wheel (list_current s)))" by (simp_all add: c_def)
qed


lemma timer_left_pos:
  assumes W: "wheel_inv s X" and E: "active_lists s Expired = []"
  shows "timer_left s t \<noteq> Some 0"
proof (cases "in_wheel s t")
  case True
  obtain h where h: "h \<in> set timer_heads" "h \<noteq> Restart" "t \<in> set (active_lists s h)" "timer_left s t = Some (left_in s h t)"
    using in_wheel_home[OF W True] by blast
  then obtain i where "h = Wheel i" using E by (auto simp: set_timer_heads)
  then show ?thesis using h(4) by (simp add: left_in_def)
qed (use timer_left_None[of s t] in simp)

lemma timer_tick_ok:
  assumes "wheel_ok s"
  shows "\<exists>s' ts. timer_tick (bystander eff) (s, e) = Some (OK (s', called s eff ts e)) \<and> wheel_ok s' \<and>
    same_settings s s' \<and> distinct ts \<and> set ts = {t. timer_left s t = Some 1} \<and> timer_left s' = counted s"
proof -
  define c where "c = list_current s"
  let ?l = "active_lists s (Wheel c)"
  have W: "wheel_inv s {}" and E: "active_lists s Expired = []" and nn: "\<not> need_handle s"
    and bd: "\<And>t n. timer_left s t = Some n \<Longrightarrow> n < 2 ^ 32"
    using assms by (auto simp: wheel_ok_def)
  have c: "c < 16" using wheel_invD(1)[OF W] by (simp add: c_def)
  have bd': "n < 2 ^ 32" if "counted s t = Some n" for t n
    using that bd[of t] unsigned_less[of "init_ticks (timers s t)"]
    by (auto simp: counted_def rearmed_def split: option.splits if_splits)
  have pass: ?thesis
    if Q: "\<And>x. x \<notin> set ?l \<Longrightarrow> Q x = rounds s x" "delta_ok Q ?l" "\<And>x. x \<in> set ?l \<Longrightarrow> due Q ?l x + 16 = due (rounds s) ?l x"
      and t: "wheel_tick s = (put_rounds Q s)\<lparr>list_current := wheel_next c\<rparr>" for Q
  proof -
    let ?s = "(put_rounds Q s)\<lparr>list_current := wheel_next c\<rparr>"
    note P = wheel_pass[OF W E Q[unfolded c_def], folded c_def]
    have tl: "timer_left ?s = counted s"
      using P(2,3) by (auto simp: fun_eq_iff counted_def split: option.splits)
    have "wheel_ok ?s" using P(1) E nn bd' by (simp add: wheel_ok_def tl)
    moreover have "timer_tick (bystander eff) (s, e) = Some (OK (?s, called s eff [] e))"
      using t nn by (simp add: timer_tick_def called_def)
    ultimately show ?thesis using P(3,4) tl by (intro exI[of _ ?s] exI[of _ "[]"]) simp
  qed
  show ?thesis
  proof (cases ?l)
    case Nil
    show ?thesis
      by (rule pass[of "rounds s"]) (use Nil in \<open>simp_all add: wheel_tick_def c_def[symmetric] put_rounds_same\<close>)
  next
    case (Cons t ts)
    have d: "delta_ok (rounds s) (t # ts)" using wheel_invD(3)[OF W wheel_head(1)[OF c]] Cons by simp
    show ?thesis
    proof (cases "OS_TIMER_LIST_ENTRIES \<le> rounds s t")
      case True
      let ?Q = "(rounds s)(t := rounds s t - 16)"
      have u: "unat (rounds s t - 16) = unat (rounds s t) - 16" "16 \<le> unat (rounds s t)"
        using True by (simp_all add: OS_TIMER_LIST_ENTRIES_def unat_sub word_le_nat_alt)
      have ts: "total ?Q ts = total (rounds s) ts" "due ?Q ts x = due (rounds s) ts x" for x
        using d by (auto simp: delta_ok_def intro!: total_cong due_cong)
      show ?thesis
      proof (rule pass)
        show "delta_ok ?Q ?l" using d u ts(1) by (auto simp: Cons delta_ok_def mod16_diff)
        show "due ?Q ?l x + 16 = due (rounds s) ?l x" if "x \<in> set ?l" for x using u ts(2) by (simp add: Cons)
        show "wheel_tick s = put_rounds ?Q s\<lparr>list_current := wheel_next c\<rparr>"
          using Cons True by (simp add: wheel_tick_def c_def[symmetric] set_round_put OS_TIMER_LIST_ENTRIES_def)
      qed (simp add: Cons)
    next
      case False
      have t: "wheel_tick s = s\<lparr>need_handle := True\<rparr>" using Cons False by (simp add: wheel_tick_def c_def[symmetric])
      define s1 where "s1 = timer_task_take (s\<lparr>need_handle := True\<rparr>)"
      note T = wheel_take(1-6)[OF W E, where b = True, folded s1_def] wheel_take(7)[OF W E]
      obtain s' where s': "timer_task_loop (bystander eff) (s1, e) =
            Some (OK (s', called s1 eff [t \<leftarrow> active_lists s1 Expired. timer_left s1 t = Some 0] e))"
          "wheel_inv s' {}" "active_lists s' Expired = []" "\<not> need_handle s'" "same_settings s1 s'"
          "timer_left s' = (\<lambda>t. if t \<in> set (active_lists s1 Expired) \<and> timer_left s1 t = Some 0 then rearmed s1 t else timer_left s1 t)"
        using timer_task_loop_ok[OF T(1,4), of eff e] by blast
      have rm: "rearmed s1 u = rearmed s u" for u using same_settingsD[OF T(3)] by (simp add: rearmed_def)
      have z: "u \<in> set (active_lists s1 Expired) \<and> timer_left s1 u = Some 0 \<longleftrightarrow> timer_left s u = Some 1" for u
        using T(2)[of u] T(5) T(7)[of u] timer_left_pos[OF W E, of u] by (cases "timer_left s u") auto
      have tl: "timer_left s' = counted s"
        unfolding s'(6) z rm using T(2) by (auto simp: fun_eq_iff counted_def split: option.splits)
      let ?ts = "[u \<leftarrow> active_lists s1 Expired. timer_left s1 u = Some 0]"
      have "set ?ts = {u. timer_left s u = Some 1}" using z by auto
      moreover have "distinct ?ts" using d T(5) Cons by (simp add: delta_ok_def c_def)
      moreover have "timer_tick (bystander eff) (s, e) = Some (OK (s', called s eff ?ts e))"
        using s'(1) t unfolding called_cong[OF T(3)] by (simp add: timer_tick_def Let_def s1_def[symmetric])
      moreover have "wheel_ok s'" using s'(2-4) bd' by (simp add: wheel_ok_def tl)
      ultimately show ?thesis using same_settings_trans[OF T(3) s'(5)] tl by blast
    qed
  qed
qed

end
