(* ===== verification/Timer_Run.thy ===== *)
theory Timer_Run
  imports Timer_Wheel
begin

unbundle bit_operations_syntax

text \<open>
  The interface of the timer module over the wheel: every call does to the countdowns what its name
  says, the remaining ticks are those of the countdown, and a timer that is started is called
  at the tick its timeout names.
\<close>

subsection \<open>Settings\<close>

lemma wheel_config:
  assumes W: "wheel_inv s {}"
    and l: "in_wheel s t \<Longrightarrow> round_ticks (f (timers s t)) = rounds s t \<and> tm_index (f (timers s t)) = tm_index (timers s t) \<and>
      tm_info (f (timers s t)) = tm_info (timers s t)"
    and a: "has_flag (tm_flag (f (timers s t))) OS_TIMER_FLAG_ACTIVATED = active s t"
    and i: "active s t \<Longrightarrow> 0 < init_ticks (f (timers s t))"
  shows "wheel_inv (upd_timer t f s) {}" "timer_left (upd_timer t f s) = timer_left s"
proof -
  let ?s = "upd_timer t f s"
  have r: "rounds ?s x = rounds s x" if "in_wheel s x" for x using l that by (cases "x = t") simp_all
  have in_list: "in_wheel s x" if "h \<in> set timer_heads" "x \<in> set (active_lists s h)" for h x using that by (auto simp: in_wheel_def)
  have lk: "in_wheel ?s x = in_wheel s x" for x by (simp add: in_wheel_def)
  have act: "active ?s x = active s x" for x using a by simp
  have pl: "placed_in ?s i x" if "placed_in s i x" "in_wheel s x" for i x
    using that l a by (cases "x = t") (auto simp: placed_in_def)
  have ix: "tm_index (timers ?s x) = tm_index (timers s x)" if "in_wheel s x" for x using l that by (cases "x = t") simp_all
  show "wheel_inv ?s {}"
    unfolding wheel_inv_def act lk
  proof (intro conjI)
    show "\<forall>h \<in> set timer_heads. delta_ok (rounds ?s) (active_lists ?s h)"
    proof
      fix h assume h: "h \<in> set timer_heads"
      have "delta_ok (rounds ?s) (active_lists s h) = delta_ok (rounds s) (active_lists s h)"
        by (rule delta_ok_cong) (use r in_list[OF h] in blast)
      then show "delta_ok (rounds ?s) (active_lists ?s h)" using wheel_invD(3)[OF W h] by simp
    qed
    show "\<forall>h \<in> set timer_heads. \<forall>h' \<in> set timer_heads. h \<noteq> h' \<longrightarrow> set (active_lists ?s h) \<inter> set (active_lists ?s h') = {}"
      using wheel_invD(4)[OF W] by auto
    show "\<forall>i < 16. \<forall>x \<in> set (active_lists ?s (Wheel i)). placed_in ?s i x"
      using wheel_invD(5)[OF W] pl in_list[OF wheel_head(1)] by simp
    show "\<forall>x \<in> set (active_lists ?s Expired). active s x \<and>
       (\<exists>i < 16. tm_index (timers ?s x) = of_nat i \<and> list_current ?s = wheel_next i)"
      using wheel_invD(6)[OF W] ix[OF in_list[OF wheel_head(2)]] by (simp del: upd_timer_simps(7))
    show "\<forall>x. active s x \<longrightarrow> 0 < init_ticks (timers ?s x)" using wheel_invD(10)[OF W] i by simp
  qed (use wheel_invD[OF W] in auto)
  have "left_in ?s h x = left_in s h x" if "h \<in> set timer_heads" for h x
  proof -
    have "due (rounds ?s) (active_lists s h) x = due (rounds s) (active_lists s h) x"
      by (rule due_cong) (use r in_list[OF that] in blast)
    then show ?thesis by (simp add: left_in_def del: upd_timer_simps(7))
  qed
  moreover have "h \<in> set timer_heads" if "timer_home s x = Some h" for h x
    using that by (auto simp: timer_home_def find_Some_iff)
  moreover have "timer_home ?s x = timer_home s x" for x by (simp add: timer_home_def)
  ultimately have "timer_left ?s x = timer_left s x" for x
    unfolding timer_left_def by (cases "timer_home s x") simp_all
  then show "timer_left ?s = timer_left s" by (rule ext)
qed

subsection \<open>Remaining ticks\<close>

lemma round_sum_due: "t \<in> set l \<Longrightarrow> round_sum R l t = of_nat (due R l t)"
  by (induction l) auto

lemma remain_ticks:
  assumes W: "wheel_inv s {}" and E: "active_lists s Expired = []"
  shows "k_timer_calc_remain_ticks t s = OK (case timer_left s t of None \<Rightarrow> 0 | Some n \<Rightarrow> of_nat n)"
proof (cases "active s t")
  case True
  then have "in_wheel s t" using wheel_invD(7)[OF W] by blast
  then obtain h where h: "h \<in> set timer_heads" "h \<noteq> Restart" "t \<in> set (active_lists s h)" "timer_home s t = Some h"
      "timer_left s t = Some (left_in s h t)"
    using in_wheel_home[OF W] by blast
  then obtain i where i: "h = Wheel i" "i < 16" using E by (auto simp: set_timer_heads)
  define c where "c = list_current s"
  have c: "c < 16" using wheel_invD(1)[OF W] by (simp add: c_def)
  have p: "tm_index (timers s t) = of_nat i" "tm_info (timers s t) AND 1 = head_info s i AND 1"
    using wheel_invD(5)[OF W i(2)] h(3) i(1) by (simp_all add: placed_in_def)
  have ui: "unat (of_nat i :: u32) = i" "unat (of_nat c :: u32) = c" using i(2) c by (simp_all add: unat_of_nat)
  have "(of_nat i :: u32) \<noteq> OS_TIMER_INDEX_INVALID"
    using i(2) ui(1) by (auto simp: OS_TIMER_INDEX_INVALID_def word_unat_eq_iff)
  moreover have "(if (of_nat c :: u32) \<le> of_nat i then of_nat i - of_nat c + 1 else 15 - of_nat c + 1 + (of_nat i + 1)) =
      (of_nat (lag c (Wheel i)) :: u32)"
  proof (cases "c \<le> i")
    case True
    then have "lag c (Wheel i) = i - c + 1" using i(2) by (simp add: mod_if)
    then show ?thesis using True ui by (simp add: word_le_nat_alt of_nat_diff)
  next
    case False
    then have "i + 16 - c < 16" "i + 16 - c = 16 - c + i" using c by simp_all
    then have "lag c (Wheel i) = 16 - c + i + 1" by simp
    moreover have "(of_nat (16 - c) :: u32) = 16 - of_nat c" using c by (simp add: of_nat_diff)
    ultimately show ?thesis using False ui by (simp add: word_le_nat_alt)
  qed
  moreover have "handle_flag s i (unat (head_info s i AND 1)) = 0" using wheel_invD(9)[OF W i(2)] .
  ultimately show ?thesis
    using True h(3-5) i(1) p ui unfolding k_timer_calc_remain_ticks_def
    by (simp add: Let_def left_in_def c_def[symmetric] round_sum_due del: lag_simps)
next
  case False
  then have "\<not> in_wheel s t" using in_wheel_active[OF W] by blast
  then show ?thesis using False timer_left_None[of s t] by (simp add: k_timer_calc_remain_ticks_def)
qed


subsection \<open>Calls and ticks\<close>

datatype timer_op =
    Timer_init tmid "string option" nat nat u32 u8
  | Timer_set_timeout tmid u32
  | Timer_set_periodic tmid
  | Timer_set_oneshot tmid
  | Timer_start tmid
  | Timer_stop tmid
  | Timer_tick

definition on_timers :: "(timer_sys \<Rightarrow> (timer_sys \<times> os_err) res) \<Rightarrow> timer_sys \<times> 'e \<Rightarrow> (timer_sys \<times> 'e) res option" where
  "on_timers f q = Some (bind_res (f (fst q)) (\<lambda>(s, r). OK (s, snd q)))"

fun timer_exec :: "(nat \<Rightarrow> nat \<Rightarrow> timer_sys \<times> 'e \<Rightarrow> timer_sys \<times> 'e) \<Rightarrow> timer_op \<Rightarrow> timer_sys \<times> 'e \<Rightarrow>
    (timer_sys \<times> 'e) res option" where
  "timer_exec call (Timer_init t nm f p n flag) q = Some (OK (os_timer_init t nm f p n flag (fst q), snd q))"
| "timer_exec call (Timer_set_timeout t n) q = on_timers (os_timer_set_timeout_ticks t n) q"
| "timer_exec call (Timer_set_periodic t) q = on_timers (os_timer_set_periodic t) q"
| "timer_exec call (Timer_set_oneshot t) q = on_timers (os_timer_set_oneshot t) q"
| "timer_exec call (Timer_start t) q = on_timers (os_timer_start t) q"
| "timer_exec call (Timer_stop t) q = on_timers (os_timer_stop t) q"
| "timer_exec call Timer_tick q = timer_tick call q"

abbreviation inited :: "timer_sys \<Rightarrow> tmid \<Rightarrow> bool" where
  "inited s t \<equiv> has_flag (tm_flag (timers s t)) OS_TIMER_FLAG_INITED"

text \<open>
  What a caller keeps to: an active timer is not initialised again, and the timeout is not set to
  0, which \<^verbatim>\<open>os_timer_start\<close> does not accept.
\<close>

fun timer_allowed :: "timer_op \<Rightarrow> timer_sys \<Rightarrow> bool" where
  "timer_allowed (Timer_init t nm f p n flag) s \<longleftrightarrow> \<not> active s t"
| "timer_allowed (Timer_set_timeout t n) s \<longleftrightarrow> inited s t \<and> 0 < n"
| "timer_allowed (Timer_set_periodic t) s \<longleftrightarrow> inited s t"
| "timer_allowed (Timer_set_oneshot t) s \<longleftrightarrow> inited s t"
| "timer_allowed (Timer_start t) s \<longleftrightarrow> inited s t \<and> 0 < init_ticks (timers s t)"
| "timer_allowed (Timer_stop t) s \<longleftrightarrow> inited s t"
| "timer_allowed Timer_tick s \<longleftrightarrow> True"

text \<open>The countdowns after a call.\<close>

fun countdowns :: "timer_op \<Rightarrow> timer_sys \<Rightarrow> tmid \<Rightarrow> nat option" where
  "countdowns (Timer_start t) s = (timer_left s)(t \<mapsto> unat (init_ticks (timers s t)))"
| "countdowns (Timer_stop t) s = (timer_left s)(t := None)"
| "countdowns Timer_tick s = counted s"
| "countdowns _ s = timer_left s"

lemma wheel_okD:
  assumes "wheel_ok s"
  shows "wheel_inv s {}" "active_lists s Expired = []" "\<not> need_handle s" "timer_left s t = Some n \<Longrightarrow> n < 2 ^ 32"
    "timer_left s t = None \<longleftrightarrow> \<not> active s t"
proof -
  show "wheel_inv s {}" using assms by (simp add: wheel_ok_def)
  then show "timer_left s t = None \<longleftrightarrow> \<not> active s t"
    using wheel_invD(7)[of s "{}" t] in_wheel_active[of s "{}" t] timer_left_None[of s t] by auto
qed (use assms in \<open>auto simp: wheel_ok_def\<close>)

lemma config_ok:
  assumes s: "wheel_ok s" and f: "in_wheel s t \<Longrightarrow> round_ticks (f (timers s t)) = rounds s t \<and>
      tm_index (f (timers s t)) = tm_index (timers s t) \<and> tm_info (f (timers s t)) = tm_info (timers s t)"
    "has_flag (tm_flag (f (timers s t))) OS_TIMER_FLAG_ACTIVATED = active s t"
    "active s t \<Longrightarrow> 0 < init_ticks (f (timers s t))"
  shows "wheel_ok (upd_timer t f s)" "timer_left (upd_timer t f s) = timer_left s"
  using wheel_config[OF wheel_okD(1)[OF s], of t f, OF f] wheel_okD[OF s] by (auto simp: wheel_ok_def)

lemma timer_start_ok:
  assumes s: "wheel_ok s" and a: "inited s t" "0 < init_ticks (timers s t)"
  shows "\<exists>s'. os_timer_start t s = OK (s', OS_EOK) \<and> wheel_ok s' \<and> same_settings s s' \<and>
    timer_left s' = (timer_left s)(t \<mapsto> unat (init_ticks (timers s t)))"
proof -
  define s1 where "s1 = k_timer_deactivate t s"
  note D = wheel_deactivate(1-5)[OF wheel_okD(1)[OF s], of t, folded s1_def]
  have W1: "wheel_inv s1 {}" using D(1) by simp
  have "\<not> in_wheel s1 t" using fun_cong[OF D(2), of t] timer_left_None[of s1 t] by simp
  moreover have i: "init_ticks (timers s1 t) = init_ticks (timers s t)" using same_settingsD(1)[OF D(3)] .
  ultimately obtain s' where s': "k_timer_activate t s1 = OK s'" "wheel_inv s' {}"
      "timer_left s' = (timer_left s1)(t \<mapsto> unat (init_ticks (timers s t)))" "need_handle s' = need_handle s1"
      "active_lists s' Expired = active_lists s1 Expired" "same_settings s1 s'"
    using wheel_activate[OF W1, of t] a(2) by auto
  have "wheel_ok s'"
    using s' D(4) wheel_deactivate(6)[OF wheel_okD(1)[OF s] wheel_head(2), of t, folded s1_def] wheel_okD[OF s]
      unsigned_less[of "init_ticks (timers s t)"] D(2)
    by (auto simp: wheel_ok_def split: if_splits)
  then show ?thesis
    using s' D(2) same_settings_trans[OF D(3) s'(6)] a(1) by (simp add: os_timer_start_def timer_inited_def s1_def)
qed


lemma timer_stop_ok:
  assumes s: "wheel_ok s" and a: "inited s t"
  shows "\<exists>s' r. os_timer_stop t s = OK (s', r) \<and> wheel_ok s' \<and> same_settings s s' \<and> timer_left s' = (timer_left s)(t := None)"
proof (cases "active s t")
  case True
  note D = wheel_deactivate(1-5)[OF wheel_okD(1)[OF s], of t]
  have "wheel_ok (k_timer_deactivate t s)"
    using D(1,2,4) wheel_deactivate(6)[OF wheel_okD(1)[OF s] wheel_head(2), of t] wheel_okD[OF s]
    by (auto simp: wheel_ok_def split: if_splits)
  then show ?thesis using D(2,3) a True by (simp add: os_timer_stop_def timer_inited_def)
next
  case False
  then have "(timer_left s)(t := None) = timer_left s" using wheel_okD(5)[OF s] by (simp add: fun_upd_idem)
  then show ?thesis using s a False by (simp add: os_timer_stop_def timer_inited_def)
qed

lemma timer_init_ok:
  assumes s: "wheel_ok s" and a: "\<not> active s t"
  shows "wheel_ok (os_timer_init t nm f p n flag s)" "timer_left (os_timer_init t nm f p n flag s) = timer_left s"
proof -
  obtain g where g: "k_timer_do_init t nm f p n (flag AND NOT OS_TIMER_FLAG_DYNAMIC) s = upd_timer t g s"
      "\<And>x. tm_flag (g x) = ((flag AND NOT OS_TIMER_FLAG_DYNAMIC) AND NOT OS_TIMER_FLAG_ACTIVATED) OR OS_TIMER_FLAG_INITED"
    by (rule that, rule fun_cong[OF k_timer_do_init_def]) simp
  have nb: "\<not> bit OS_TIMER_FLAG_INITED 1" by (simp add: timer_flag_defs)
  have nl: "\<not> in_wheel s t" using a in_wheel_active[OF wheel_okD(1)[OF s]] by blast
  have fl: "has_flag (tm_flag (g (timers s t))) OS_TIMER_FLAG_ACTIVATED = active s t"
    using a nb by (simp add: g(2) timer_flag_bits bit_simps)
  have C: "wheel_ok (upd_timer t g s)" "timer_left (upd_timer t g s) = timer_left s"
    by (rule config_ok[OF s]; use nl a fl in blast)+
  have same: "wheel_ok (r\<lparr>timer_list := l\<rparr>) = wheel_ok r" "timer_left (r\<lparr>timer_list := l\<rparr>) = timer_left r" for r l
  proof -
    show t: "timer_left (r\<lparr>timer_list := l\<rparr>) = timer_left r"
      by (simp add: fun_eq_iff timer_left_def left_in_def timer_home_def)
    show "wheel_ok (r\<lparr>timer_list := l\<rparr>) = wheel_ok r"
      by (simp add: wheel_ok_def wheel_inv_def t placed_in_def in_wheel_def)
  qed
  show "wheel_ok (os_timer_init t nm f p n flag s)" "timer_left (os_timer_init t nm f p n flag s) = timer_left s"
    using C by (simp_all add: os_timer_init_def g(1) same Let_def)
qed

text \<open>What the interface reports of the countdowns.\<close>

lemma timer_reports:
  assumes s: "wheel_ok s" and i: "inited s t"
  shows "os_timer_get_remain_ticks t s = OK (case timer_left s t of None \<Rightarrow> 0 | Some n \<Rightarrow> of_nat n)"
    "os_timer_is_active t s = OK (timer_left s t \<noteq> None)"
  using remain_ticks[OF wheel_okD(1,2)[OF s]] wheel_okD(5)[OF s, of t] i
  by (simp_all add: os_timer_get_remain_ticks_def os_timer_is_active_def timer_inited_def)

text \<open>
  C12. The timer wheel counts down: from a state between two ticks, every allowed call and every
  tick, with the turn of the timer task that it asks for, succeeds and does to the countdowns of
  the active timers what its name says. A start sets the countdown of the timer to its timeout, a
  stop removes it, a tick takes one from all countdowns; the timers that had one tick left are
  called once each, in some order, and start again when they are periodic. Afterwards the remaining
  ticks and the activity that the interface reports are those of the countdowns. The functions
  of the timers leave the timers alone.
\<close>

theorem timer_wheel_counts_down:
  assumes s: "wheel_ok s" and a: "timer_allowed op s"
  shows "\<exists>s' e'. timer_exec (bystander eff) op (s, e) = Some (OK (s', e')) \<and> wheel_ok s' \<and>
    timer_left s' = countdowns op s \<and>
    (\<forall>t. inited s' t \<longrightarrow>
      os_timer_get_remain_ticks t s' = OK (case timer_left s' t of None \<Rightarrow> 0 | Some n \<Rightarrow> of_nat n) \<and>
      os_timer_is_active t s' = OK (timer_left s' t \<noteq> None)) \<and>
    (if op = Timer_tick
     then \<exists>ts. distinct ts \<and> set ts = {t. timer_left s t = Some 1} \<and> e' = called s eff ts e else e' = e)"
proof -
  have "\<exists>s' e'. timer_exec (bystander eff) op (s, e) = Some (OK (s', e')) \<and> wheel_ok s' \<and> timer_left s' = countdowns op s \<and>
    (if op = Timer_tick
     then \<exists>ts. distinct ts \<and> set ts = {t. timer_left s t = Some 1} \<and> e' = called s eff ts e else e' = e)"
  proof (cases op)
    case (Timer_init t nm f p n flag)
    then show ?thesis using timer_init_ok[OF s, of t] a by simp
  next
    case (Timer_set_timeout t n)
    then show ?thesis
      using config_ok[OF s, of t "\<lambda>x. x\<lparr>init_ticks := n\<rparr>"] a
      by (simp add: on_timers_def os_timer_set_timeout_ticks_def timer_inited_def)
  next
    case (Timer_set_periodic t)
    then show ?thesis
      using config_ok[OF s, of t "\<lambda>x. x\<lparr>tm_flag := tm_flag x OR OS_TIMER_FLAG_PERIODIC\<rparr>"] wheel_invD(10)[OF wheel_okD(1)[OF s]] a
      by (simp add: on_timers_def os_timer_set_periodic_def timer_inited_def timer_flag_bits bit_simps OS_TIMER_FLAG_PERIODIC_def)
  next
    case (Timer_set_oneshot t)
    then show ?thesis
      using config_ok[OF s, of t "\<lambda>x. x\<lparr>tm_flag := tm_flag x AND NOT OS_TIMER_FLAG_PERIODIC\<rparr>"] wheel_invD(10)[OF wheel_okD(1)[OF s]] a
      by (simp add: on_timers_def os_timer_set_oneshot_def timer_inited_def timer_flag_bits bit_simps OS_TIMER_FLAG_PERIODIC_def)
  next
    case (Timer_start t)
    then show ?thesis using timer_start_ok[OF s, of t] a by (auto simp: on_timers_def)
  next
    case (Timer_stop t)
    then show ?thesis using timer_stop_ok[OF s, of t] a by (auto simp: on_timers_def)
  next
    case Timer_tick
    then show ?thesis using timer_tick_ok[OF s, of eff e] by auto
  qed
  then show ?thesis using timer_reports by blast
qed

text \<open>A tick is the hook of the tick interrupt and one turn of the loop of the timer task.\<close>

lemma timer_tick_turn:
  "need_handle (wheel_tick s) \<Longrightarrow> timer_tick call (s, k) = k_timer_task_turn call (wheel_tick s, k)"
  by (simp add: timer_tick_def k_timer_task_turn_def)

subsection \<open>On time\<close>

fun timer_ticks :: "(nat \<Rightarrow> nat \<Rightarrow> timer_sys \<times> 'e \<Rightarrow> timer_sys \<times> 'e) \<Rightarrow> nat \<Rightarrow> timer_sys \<times> 'e \<Rightarrow>
    (timer_sys \<times> 'e) res option" where
  "timer_ticks call 0 q = Some (OK q)"
| "timer_ticks call (Suc n) q = (case timer_ticks call n q of
     Some (OK q') \<Rightarrow> timer_tick call q' | r \<Rightarrow> r)"

lemma timer_ticks_ok:
  assumes "wheel_ok s" "timer_left s t = Some n" "k < n"
  shows "\<exists>s' e'. timer_ticks (bystander eff) k (s, e) = Some (OK (s', e')) \<and> wheel_ok s' \<and> same_settings s s' \<and>
    timer_left s' t = Some (n - k)"
  using assms(3)
proof (induction k)
  case 0
  then show ?case using assms by simp
next
  case (Suc k)
  then obtain s' e' where s': "timer_ticks (bystander eff) k (s, e) = Some (OK (s', e'))" "wheel_ok s'" "same_settings s s'"
      "timer_left s' t = Some (n - k)"
    by auto
  obtain s'' ts where "timer_tick (bystander eff) (s', e') = Some (OK (s'', called s' eff ts e'))" "wheel_ok s''"
      "same_settings s' s''" "timer_left s'' = counted s'"
    using timer_tick_ok[OF s'(2), of eff e'] by blast
  then show ?case using s' Suc.prems same_settings_trans[OF s'(3)] by (auto simp: counted_def)
qed

text \<open>
  C13. Timers are on time: a timer that is started with a timeout of \<open>n\<close> ticks is still active
  after \<open>k < n\<close> ticks, with \<open>n - k\<close> ticks left, and its function is called at tick \<open>n\<close>,
  when the timer task runs after every tick; afterwards a periodic timer is active again and a
  one-shot timer is not.
\<close>

theorem timer_fires_on_time:
  assumes s: "wheel_ok s" and i: "inited s t" "0 < init_ticks (timers s t)"
  defines "n \<equiv> unat (init_ticks (timers s t))"
  shows "\<exists>s1. os_timer_start t s = OK (s1, OS_EOK) \<and>
    (\<forall>k < n. \<exists>s' e'. timer_ticks (bystander eff) k (s1, e) = Some (OK (s', e')) \<and>
       os_timer_get_remain_ticks t s' = OK (of_nat (n - k))) \<and>
    (\<exists>s' e' s'' ts. timer_ticks (bystander eff) (n - 1) (s1, e) = Some (OK (s', e')) \<and>
       timer_ticks (bystander eff) n (s1, e) = Some (OK (s'', called s eff ts e')) \<and> distinct ts \<and> t \<in> set ts \<and>
       os_timer_is_active t s'' = OK (periodic s t))"
proof -
  obtain s1 where s1: "os_timer_start t s = OK (s1, OS_EOK)" "wheel_ok s1" "same_settings s s1"
      "timer_left s1 = (timer_left s)(t \<mapsto> n)"
    using timer_start_ok[OF s i] unfolding n_def by blast
  have t1: "timer_left s1 t = Some n" using s1(4) by simp
  have n: "0 < n" using i(2) by (simp add: n_def word_less_nat_alt)
  have before: "\<exists>s' e'. timer_ticks (bystander eff) k (s1, e) = Some (OK (s', e')) \<and>
      os_timer_get_remain_ticks t s' = OK (of_nat (n - k))" if k: "k < n" for k
  proof -
    obtain s' e' where s': "timer_ticks (bystander eff) k (s1, e) = Some (OK (s', e'))" "wheel_ok s'" "same_settings s1 s'"
        "timer_left s' t = Some (n - k)"
      using timer_ticks_ok[OF s1(2) t1 k, of eff e] by blast
    have "inited s' t" using same_settingsD(5)[OF same_settings_trans[OF s1(3) s'(3)]] i(1) by simp
    then show ?thesis using timer_reports(1)[OF s'(2)] s'(1,4) by simp
  qed
  obtain s' e' where s': "timer_ticks (bystander eff) (n - 1) (s1, e) = Some (OK (s', e'))" "wheel_ok s'" "same_settings s1 s'"
      "timer_left s' t = Some 1"
    using timer_ticks_ok[OF s1(2) t1, of "n - 1" eff e] n by auto
  note ss = same_settings_trans[OF s1(3) s'(3)]
  obtain s'' ts where s'': "timer_tick (bystander eff) (s', e') = Some (OK (s'', called s' eff ts e'))" "wheel_ok s''"
      "same_settings s' s''" "distinct ts" "set ts = {u. timer_left s' u = Some 1}" "timer_left s'' = counted s'"
    using timer_tick_ok[OF s'(2), of eff e'] by blast
  have "timer_ticks (bystander eff) n (s1, e) = Some (OK (s'', called s eff ts e'))"
    using s'(1) s''(1) n called_cong[OF ss, of eff ts] by (cases n) simp_all
  moreover have "os_timer_is_active t s'' = OK (periodic s t)"
    using timer_reports(2)[OF s''(2)] same_settingsD(4,5)[OF ss, of t] same_settingsD(5)[OF s''(3), of t] i(1) s'(4) s''(6)
    by (simp add: counted_def rearmed_def)
  ultimately show ?thesis using s1(1) before s'(1,4) s''(4,5) by blast
qed

subsection \<open>Late\<close>

text \<open>
  C36. Ticks are lost while the timer task does not run: once a timer is due, the wheel stands still
  at every further tick of the clock, and no other countdown goes on until the timer task has
  taken the list.
\<close>

theorem timer_ticks_lost:
  assumes s: "wheel_ok s" and t: "timer_left s t = Some 1"
  shows "(wheel_tick ^^ Suc k) s = s\<lparr>need_handle := True\<rparr> \<and> timer_left ((wheel_tick ^^ Suc k) s) u = timer_left s u"
proof -
  have W: "wheel_inv s {}" and E: "active_lists s Expired = []" using wheel_okD[OF s] by simp_all
  define c where "c = list_current s"
  have c: "c < 16" using wheel_invD(1)[OF W] by (simp add: c_def)
  have mem: "t \<in> set (active_lists s (Wheel c))" using wheel_take(7)[OF W E t] by (simp add: c_def)
  then obtain a l where l: "active_lists s (Wheel c) = a # l" by (cases "active_lists s (Wheel c)") auto
  have "left_in s (Wheel c) t = 1" using timer_leftI[OF W wheel_head(1)[OF c] mem] t by simp
  then have "due (rounds s) (a # l) t = 0" using l by (simp add: left_in_def)
  then have "rounds s a = 0" by (simp add: unat_eq_0)
  then have step: "wheel_tick (s\<lparr>need_handle := b\<rparr>) = s\<lparr>need_handle := True\<rparr>" for b
    using l by (simp add: wheel_tick_def c_def OS_TIMER_LIST_ENTRIES_def)
  have "(wheel_tick ^^ Suc k) s = s\<lparr>need_handle := True\<rparr>"
  proof (induction k)
    case 0
    show ?case using step[of "need_handle s"] by simp
  next
    case (Suc k)
    then show ?case using step[of True] by simp
  qed
  moreover have "timer_left (s\<lparr>need_handle := True\<rparr>) u = timer_left s u"
    by (simp add: timer_left_def left_in_def timer_home_def)
  ultimately show ?thesis by simp
qed

subsection \<open>From start-up on\<close>

text \<open>The initialisation of the module leaves the wheel between two ticks.\<close>

lemma wheel_init_ok:
  assumes "active_lists s Expired = []" "active_lists s Restart = []" "\<not> need_handle s" "\<And>t. \<not> active s t"
  shows "wheel_ok (k_timer_init s)" "timer_left (k_timer_init s) t = None"
proof -
  let ?s = "k_timer_init s"
  have e: "active_lists ?s h = []" if "h \<in> set timer_heads" for h
    using that assms(1,2) by (auto simp: k_timer_init_def set_timer_heads)
  have nl: "\<not> in_wheel ?s x" for x using e by (simp add: in_wheel_def)
  show l: "timer_left ?s t = None" for t using nl timer_left_None[of ?s t] by simp
  have "wheel_inv ?s {}"
    unfolding wheel_inv_def using e nl assms by (simp add: k_timer_init_def)
  then show "wheel_ok ?s" using l e[of Expired] assms(3) by (simp add: wheel_ok_def k_timer_init_def)
qed

text \<open>Two timers: number 5 with three ticks, once, and number 6 with 40 ticks, again and again.\<close>

definition sample_timers :: timer_sys where
  "sample_timers = os_timer_init 6 None 101 0 40 OS_TIMER_FLAG_PERIODIC (os_timer_init 5 None 100 7 3 0
     (k_timer_init \<lparr>timers = (\<lambda>_. \<lparr>timeout_func = 0, parameter = 0, init_ticks = 0, round_ticks = 0, tm_index = 0,
          tm_flag = 0, tm_info = 0, tm_name = ''''\<rparr>), active_lists = (\<lambda>_. []), timer_list = [], list_current = 0,
        head_info = (\<lambda>_. 0), handle_flag = (\<lambda>_ _. 0), need_handle = False\<rparr>))"

lemma sample_timers_ok:
  "wheel_ok sample_timers" "inited sample_timers 5" "init_ticks (timers sample_timers 5) = 3" "\<not> periodic sample_timers 5"
  "inited sample_timers 6" "init_ticks (timers sample_timers 6) = 40" "periodic sample_timers 6"
proof -
  note defs = sample_timers_def os_timer_init_def k_timer_do_init_def k_timer_init_def Let_def timer_flag_defs has_flag_def periodic_def
  have 1: "wheel_ok (k_timer_init \<lparr>timers = (\<lambda>_. \<lparr>timeout_func = 0, parameter = 0, init_ticks = 0, round_ticks = 0, tm_index = 0,
          tm_flag = 0, tm_info = 0, tm_name = ''''\<rparr>), active_lists = (\<lambda>_. []), timer_list = [], list_current = 0,
        head_info = (\<lambda>_. 0), handle_flag = (\<lambda>_ _. 0), need_handle = False\<rparr>)"
    by (rule wheel_init_ok(1)) (simp_all add: timer_flag_bits)
  show "wheel_ok sample_timers"
    unfolding sample_timers_def by (intro timer_init_ok(1) 1) (simp_all add: defs)
  show "inited sample_timers 5" "init_ticks (timers sample_timers 5) = 3" "\<not> periodic sample_timers 5"
    "inited sample_timers 6" "init_ticks (timers sample_timers 6) = 40" "periodic sample_timers 6"
    by (simp_all add: defs)
qed

lemma timer_wheel_counts_down_witness:
  "\<exists>s'. timer_exec (bystander (\<lambda>f p log. log @ [(f, p)])) (Timer_start 6) (sample_timers, []) = Some (OK (s', [])) \<and>
    wheel_ok s' \<and> timer_left s' 6 = Some 40"
proof -
  have "timer_allowed (Timer_start 6) sample_timers" using sample_timers_ok by simp
  from timer_wheel_counts_down[OF sample_timers_ok(1) this, of "\<lambda>f p log. log @ [(f, p)]" "[]"]
  show ?thesis using sample_timers_ok(6) by auto
qed

lemma timer_fires_on_time_witness:
  "\<exists>s1 s'' ts. os_timer_start 5 sample_timers = OK (s1, OS_EOK) \<and>
    timer_ticks (bystander (\<lambda>f p log. log @ [(f, p)])) 3 (s1, []) = Some (OK s'') \<and> os_timer_is_active 5 (fst s'') = OK False"
proof -
  have "0 < init_ticks (timers sample_timers 5)" "unat (init_ticks (timers sample_timers 5)) = 3"
    using sample_timers_ok(3) by simp_all
  with timer_fires_on_time[OF sample_timers_ok(1,2) this(1), of "\<lambda>f p log. log @ [(f, p)]" "[]"] show ?thesis
    using sample_timers_ok(4) by force
qed

lemma timer_ticks_lost_witness:
  "\<exists>s. wheel_ok s \<and> timer_left s 5 = Some 1 \<and> timer_left s 6 = Some 40 \<and> timer_left ((wheel_tick ^^ 10) s) 6 = Some 40"
proof -
  have "wheel_ok (upd_timer 5 (\<lambda>x. x\<lparr>init_ticks := 1\<rparr>) sample_timers)" for n
    by (rule config_ok(1)[OF sample_timers_ok(1)]) simp_all
  then obtain s1 where s1: "wheel_ok s1" "timer_left s1 = (timer_left (upd_timer 5 (\<lambda>x. x\<lparr>init_ticks := 1\<rparr>) sample_timers))(5 \<mapsto> 1)"
      "same_settings (upd_timer 5 (\<lambda>x. x\<lparr>init_ticks := 1\<rparr>) sample_timers) s1"
    using timer_start_ok[of "upd_timer 5 (\<lambda>x. x\<lparr>init_ticks := 1\<rparr>) sample_timers" 5] sample_timers_ok(2) by auto
  have "inited s1 6" "init_ticks (timers s1 6) = 40"
    using same_settingsD(1,5)[OF s1(3), of 6] sample_timers_ok(5,6) by simp_all
  then obtain s2 where s2: "wheel_ok s2" "timer_left s2 = (timer_left s1)(6 \<mapsto> 40)"
    using timer_start_ok[OF s1(1), of 6] by auto
  have due: "timer_left s2 5 = Some 1" "timer_left s2 6 = Some 40" using s1(2) s2(2) by simp_all
  have ten: "Suc 9 = 10" by simp
  have "timer_left ((wheel_tick ^^ 10) s2) 6 = Some 40"
    using conjunct2[OF timer_ticks_lost[OF s2(1) due(1), of 9 6]] unfolding ten due(2) .
  then show ?thesis using s2(1) due by blast
qed

end
