(* ===== verification/Os_Workqueue.thy ===== *)
theory Os_Workqueue
  imports Os_Sem Timer_Run
begin

unbundle bit_operations_syntax

text \<open>
  \<^verbatim>\<open>oneos/kernel/source/os_workqueue.c\<close>: functions that a worker task calls for others, at once
  or after a delay. A work and a work queue are named by their addresses. The objects they
  contain carry the same name: the timer of work \<open>w\<close> is timer \<open>w\<close>, the semaphore and the worker
  task of queue \<open>q\<close> are semaphore \<open>q\<close> and task \<open>q\<close>. On one processor \<^verbatim>\<open>os_spin_lock_irqsave\<close>
  only masks the interrupts, so a locked section is one step.
\<close>

subsection \<open>Data\<close>

definition OS_WORK_STAGE_IDLE :: u8 where "OS_WORK_STAGE_IDLE = 0"
definition OS_WORK_STAGE_DELAY :: u8 where "OS_WORK_STAGE_DELAY = 1"
definition OS_WORK_STAGE_PENDING :: u8 where "OS_WORK_STAGE_PENDING = 2"

lemmas work_stage_defs = OS_WORK_STAGE_IDLE_def OS_WORK_STAGE_DELAY_def OS_WORK_STAGE_PENDING_def

lemma work_stages [simp]:
  "OS_WORK_STAGE_IDLE \<noteq> OS_WORK_STAGE_DELAY" "OS_WORK_STAGE_IDLE \<noteq> OS_WORK_STAGE_PENDING"
  "OS_WORK_STAGE_DELAY \<noteq> OS_WORK_STAGE_IDLE" "OS_WORK_STAGE_DELAY \<noteq> OS_WORK_STAGE_PENDING"
  "OS_WORK_STAGE_PENDING \<noteq> OS_WORK_STAGE_IDLE" "OS_WORK_STAGE_PENDING \<noteq> OS_WORK_STAGE_DELAY"
  by (simp_all add: work_stage_defs)

record os_work =
  work_func :: nat
  work_data :: nat
  workqueue :: "nat option"
  work_flag :: u8
  work_object_inited :: u8

text \<open>
  Where the worker task is in the loop of \<^verbatim>\<open>_k_workqueue_task_entry\<close>: in front of the wait for
  the semaphore, inside it, in front of the locked section, or in the function of a work.
\<close>

datatype worker_pc = At_wait | Asleep | In_loop | In_work nat nat

record os_workqueue =
  work_current :: "nat option"
  wq_object_inited :: u8
  worker_at :: worker_pc

text \<open>The lists of all queues form a family, like those of the tasks.\<close>

record wq_sys =
  works :: "nat \<Rightarrow> os_work"
  queues :: "nat \<Rightarrow> os_workqueue"
  work_lists :: "nat \<Rightarrow> nat list"

type_synonym wq_objs = "wq_sys \<times> timer_sys \<times> sem_sys"

definition upd_work :: "nat \<Rightarrow> (os_work \<Rightarrow> os_work) \<Rightarrow> wq_sys \<Rightarrow> wq_sys" where
  "upd_work w f s = s\<lparr>works := (works s)(w := f (works s w))\<rparr>"

definition upd_queue :: "nat \<Rightarrow> (os_workqueue \<Rightarrow> os_workqueue) \<Rightarrow> wq_sys \<Rightarrow> wq_sys" where
  "upd_queue q f s = s\<lparr>queues := (queues s)(q := f (queues s q))\<rparr>"

lemma upd_work_simps [simp]:
  "works (upd_work w f s) = (works s)(w := f (works s w))"
  "queues (upd_work w f s) = queues s" "work_lists (upd_work w f s) = work_lists s"
  by (simp_all add: upd_work_def)

lemma upd_queue_simps [simp]:
  "queues (upd_queue q f s) = (queues s)(q := f (queues s q))"
  "works (upd_queue q f s) = works s" "work_lists (upd_queue q f s) = work_lists s"
  by (simp_all add: upd_queue_def)

text \<open>The functions whose addresses the module itself hands out.\<close>

definition work_timeout_func :: nat where "work_timeout_func = 0x08001000"
definition wait_work_func :: nat where "wait_work_func = 0x08001100"

subsection \<open>Works\<close>

definition os_work_init :: "nat \<Rightarrow> nat \<Rightarrow> nat \<Rightarrow> wq_objs \<Rightarrow> wq_objs" where
  "os_work_init w f d = (\<lambda>(s, ts, ss).
     (upd_work w (\<lambda>x. x\<lparr>work_func := f, work_data := d, workqueue := None, work_flag := OS_WORK_STAGE_IDLE,
        work_object_inited := OS_KOBJ_INITED\<rparr>) s,
      os_timer_init w None work_timeout_func w 1 0 ts, ss))"

text \<open>Both ways to queue a work wake the worker only when it is not at work on something.\<close>

definition post_if_idle :: "nat \<Rightarrow> wq_objs \<times> kernel \<Rightarrow> (wq_objs \<times> kernel) res" where
  "post_if_idle q = (\<lambda>((s, ts, ss), k).
     if work_current (queues s q) = None
     then bind_res (os_sem_post q (ss, k)) (\<lambda>((ss', k'), _). OK ((s, ts, ss'), k'))
     else OK ((s, ts, ss), k))"

definition submit_work_to_queue_tail :: "nat \<Rightarrow> nat \<Rightarrow> wq_objs \<times> kernel \<Rightarrow> (wq_objs \<times> kernel) res" where
  "submit_work_to_queue_tail q w = (\<lambda>((s, ts, ss), k).
     let s1 = upd_work w (\<lambda>x. x\<lparr>work_flag := OS_WORK_STAGE_PENDING\<rparr>) s
     in post_if_idle q ((s1\<lparr>work_lists := list_add_tail (work_lists s1) q w\<rparr>, ts, ss), k))"

definition submit_work_to_queue_head :: "nat \<Rightarrow> nat \<Rightarrow> wq_objs \<times> kernel \<Rightarrow> (wq_objs \<times> kernel) res" where
  "submit_work_to_queue_head q w = (\<lambda>((s, ts, ss), k).
     let s1 = upd_work w (\<lambda>x. x\<lparr>work_flag := OS_WORK_STAGE_PENDING\<rparr>) s
     in post_if_idle q ((s1\<lparr>work_lists := (work_lists s1)(q := w # work_lists s1 q)\<rparr>, ts, ss), k))"

text \<open>The function of a work's timer, called by the timer task.\<close>

definition k_work_timeout :: "nat \<Rightarrow> wq_objs \<times> kernel \<Rightarrow> (wq_objs \<times> kernel) res" where
  "k_work_timeout w = (\<lambda>((s, ts, ss), k).
     case workqueue (works s w) of None \<Rightarrow> Fault NullDeref
     | Some q \<Rightarrow> if work_flag (works s w) = OS_WORK_STAGE_DELAY
                then submit_work_to_queue_tail q w ((s, ts, ss), k) else OK ((s, ts, ss), k))"

definition os_submit_work_to_queue ::
  "nat \<Rightarrow> nat \<Rightarrow> u32 \<Rightarrow> wq_objs \<times> kernel \<Rightarrow> ((wq_objs \<times> kernel) \<times> os_err) res" where
  "os_submit_work_to_queue q w delay = (\<lambda>((s, ts, ss), k).
     os_assert (wq_object_inited (queues s q) = OS_KOBJ_INITED)
     (os_assert (work_object_inited (works s w) = OS_KOBJ_INITED)
     (os_assert (delay < OS_TICK_MAX div 2)
       (if workqueue (works s w) \<noteq> None \<and> workqueue (works s w) \<noteq> Some q then OK (((s, ts, ss), k), OS_ERROR)
        else if work_flag (works s w) = OS_WORK_STAGE_IDLE then
          (let s1 = upd_work w (\<lambda>x. x\<lparr>workqueue := Some q\<rparr>) s
           in if delay \<noteq> 0 then
                bind_res (os_timer_set_timeout_ticks w delay ts) (\<lambda>(ts1, _).
                bind_res (os_timer_start w ts1) (\<lambda>(ts2, _).
                  OK (((upd_work w (\<lambda>x. x\<lparr>work_flag := OS_WORK_STAGE_DELAY\<rparr>) s1, ts2, ss), k), OS_EOK)))
              else bind_res (submit_work_to_queue_tail q w ((s1, ts, ss), k)) (\<lambda>st. OK (st, OS_EOK)))
        else OK (((s, ts, ss), k), OS_EBUSY)))))"

subsection \<open>Cancelling\<close>

text \<open>The part of the locked section of \<^verbatim>\<open>_k_cancel_work\<close> that takes the work back.\<close>

definition take_back :: "nat \<Rightarrow> wq_objs \<Rightarrow> wq_objs res" where
  "take_back w = (\<lambda>(s, ts, ss).
     if work_flag (works s w) = OS_WORK_STAGE_IDLE then OK (s, ts, ss)
     else if work_flag (works s w) = OS_WORK_STAGE_DELAY then
       bind_res (os_timer_stop w ts) (\<lambda>(ts1, _). OK (upd_work w (\<lambda>x. x\<lparr>work_flag := OS_WORK_STAGE_IDLE\<rparr>) s, ts1, ss))
     else if work_flag (works s w) = OS_WORK_STAGE_PENDING then
       OK (upd_work w (\<lambda>x. x\<lparr>work_flag := OS_WORK_STAGE_IDLE\<rparr>) (s\<lparr>work_lists := list_del (work_lists s) w\<rparr>), ts, ss)
     else Fault AssertFail)"

definition os_cancel_work :: "nat \<Rightarrow> wq_objs \<times> kernel \<Rightarrow> ((wq_objs \<times> kernel) \<times> os_err) res" where
  "os_cancel_work w = (\<lambda>(st, k).
     os_assert (work_object_inited (works (fst st) w) = OS_KOBJ_INITED)
       (case workqueue (works (fst st) w) of None \<Rightarrow> OK ((st, k), OS_ERROR)
        | Some q \<Rightarrow> bind_res (take_back w st) (\<lambda>st1.
            OK ((st1, k), if work_current (queues (fst st1) q) = Some w then OS_EBUSY else OS_EOK))))"

text \<open>
  \<^verbatim>\<open>os_cancel_work_sync\<close> in its three steps, with the addresses of its local variables
  \<^verbatim>\<open>wait_work\<close> and \<^verbatim>\<open>wait_sem\<close>: up to the end of the locked section, with \<^verbatim>\<open>work_runing\<close> or the
  early error as its result; the wait for the worker, when the work runs; the end.
\<close>

definition cancel_sync_begin :: "nat \<Rightarrow> nat \<Rightarrow> nat \<Rightarrow> wq_objs \<times> kernel \<Rightarrow> ((wq_objs \<times> kernel) \<times> bool option) res" where
  "cancel_sync_begin w wait_work wait_sem = (\<lambda>((s, ts, ss), k).
     os_assert (work_object_inited (works s w) = OS_KOBJ_INITED)
       (case workqueue (works s w) of None \<Rightarrow> OK (((s, ts, ss), k), None)
        | Some q \<Rightarrow>
            bind_res (os_sem_init wait_sem None 0 1 (ss, k)) (\<lambda>((ss1, k1), _).
            bind_res (take_back w (os_work_init wait_work wait_work_func wait_sem (s, ts, ss1))) (\<lambda>st2.
              if work_current (queues (fst st2) q) = Some w
              then bind_res (submit_work_to_queue_head q wait_work (st2, k1)) (\<lambda>st3. OK (st3, Some True))
              else OK ((st2, k1), Some False)))))"

definition cancel_sync_wait :: "nat \<Rightarrow> wq_objs \<times> kernel \<Rightarrow> ((wq_objs \<times> kernel) \<times> os_err outcome) res" where
  "cancel_sync_wait wait_sem = (\<lambda>((s, ts, ss), k).
     bind_res (os_sem_wait wait_sem OS_WAIT_FOREVER (ss, k)) (\<lambda>((ss1, k1), r). OK (((s, ts, ss1), k1), r)))"

definition cancel_sync_end :: "nat \<Rightarrow> wq_objs \<times> kernel \<Rightarrow> ((wq_objs \<times> kernel) \<times> os_err) res" where
  "cancel_sync_end wait_sem = (\<lambda>((s, ts, ss), k).
     bind_res (os_sem_deinit wait_sem (ss, k)) (\<lambda>((ss1, k1), _). OK (((s, ts, ss1), k1), OS_EOK)))"

subsection \<open>The worker\<close>

text \<open>The function of the work that \<^verbatim>\<open>os_cancel_work_sync\<close> queues.\<close>

definition k_wait_work :: "nat \<Rightarrow> wq_objs \<times> kernel \<Rightarrow> (wq_objs \<times> kernel) res" where
  "k_wait_work a = (\<lambda>((s, ts, ss), k).
     bind_res (os_sem_post a (ss, k)) (\<lambda>((ss1, k1), _). OK ((s, ts, ss1), k1)))"

text \<open>The locked section of the inner loop: take the first work, or leave the loop.\<close>

definition worker_take :: "nat \<Rightarrow> wq_sys \<Rightarrow> wq_sys" where
  "worker_take q s = (case work_lists s q of
     [] \<Rightarrow> upd_queue q (\<lambda>x. x\<lparr>work_current := None, worker_at := At_wait\<rparr>) s
   | w # _ \<Rightarrow>
       upd_queue q (\<lambda>x. x\<lparr>work_current := Some w, worker_at := In_work (work_func (works s w)) (work_data (works s w))\<rparr>)
         (upd_work w (\<lambda>x. x\<lparr>work_flag := OS_WORK_STAGE_IDLE\<rparr>) (s\<lparr>work_lists := list_del (work_lists s) w\<rparr>)))"

text \<open>
  One step of the worker task of queue \<open>q\<close>, when it has the processor. What a work's function does
  beyond returning are calls of their own between two steps.
\<close>

definition worker_step :: "nat \<Rightarrow> wq_objs \<times> kernel \<Rightarrow> ((wq_objs \<times> kernel) \<times> nat option) res" where
  "worker_step q = (\<lambda>((s, ts, ss), k). case worker_at (queues s q) of
     At_wait \<Rightarrow> bind_res (os_sem_wait q OS_WAIT_FOREVER (ss, k)) (\<lambda>((ss1, k1), r).
       OK (((upd_queue q (\<lambda>x. x\<lparr>worker_at := (case r of Returns _ \<Rightarrow> In_loop | Blocks \<Rightarrow> Asleep)\<rparr>) s, ts, ss1), k1), None))
   | Asleep \<Rightarrow> OK (((upd_queue q (\<lambda>x. x\<lparr>worker_at := In_loop\<rparr>) s, ts, ss), k), None)
   | In_loop \<Rightarrow> OK (((worker_take q s, ts, ss), k), case work_lists s q of [] \<Rightarrow> None | w # _ \<Rightarrow> Some w)
   | In_work f d \<Rightarrow>
       bind_res (if f = wait_work_func then k_wait_work d ((s, ts, ss), k) else OK ((s, ts, ss), k)) (\<lambda>((s1, ts1, ss1), k1).
         OK (((upd_queue q (\<lambda>x. x\<lparr>worker_at := In_loop\<rparr>) s1, ts1, ss1), k1), None)))"

subsection \<open>Queues\<close>

definition os_workqueue_init ::
  "nat \<Rightarrow> string \<Rightarrow> u32 \<Rightarrow> u8 \<Rightarrow> wq_objs \<times> kernel \<Rightarrow> ((wq_objs \<times> kernel) \<times> os_err) res" where
  "os_workqueue_init q nm stack_size priority = (\<lambda>((s, ts, ss), k).
     os_assert (0 < stack_size) (os_assert (unat priority < OS_TASK_PRIORITY_MAX)
       (let s1 = (upd_queue q (\<lambda>x. x\<lparr>work_current := None, wq_object_inited := OS_KOBJ_INITED, worker_at := At_wait\<rparr>) s)
              \<lparr>work_lists := (work_lists s)(q := [])\<rparr>
        in bind_res (os_sem_init q None 0 1 (ss, k)) (\<lambda>((ss1, k1), r).
           if r \<noteq> OS_EOK then OK (((s1, ts, ss1), k1), r)
           else bind_res (os_task_init q (Some nm) stack_size priority k1) (\<lambda>(k2, r2).
             if r2 \<noteq> OS_EOK then OK (((s1, ts, ss1), k2), r2)
             else bind_res (os_task_startup q k2) (\<lambda>(k3, r3). OK (((s1, ts, ss1), k3), r3)))))))"

text \<open>
  \<open>mem\<close> and \<open>stack\<close> are what the two allocations return. Without memory for the queue the code
  compares and frees \<^verbatim>\<open>stack_begin\<close>, which has no value yet.
\<close>

definition os_workqueue_create ::
  "string \<Rightarrow> u32 \<Rightarrow> u8 \<Rightarrow> int \<Rightarrow> nat option \<Rightarrow> nat option \<Rightarrow> wq_objs \<times> kernel \<Rightarrow>
    ((wq_objs \<times> kernel) \<times> nat option) res" where
  "os_workqueue_create nm stack_size priority cpu_index mem stack = (\<lambda>st.
     os_assert (0 < stack_size) (os_assert (unat priority < OS_TASK_PRIORITY_MAX) (os_assert (-1 \<le> cpu_index)
       (case mem of None \<Rightarrow> Fault Uninit
        | Some q \<Rightarrow> (case stack of None \<Rightarrow> OK (st, None)
            | Some _ \<Rightarrow> bind_res (os_workqueue_init q nm ((stack_size + 8 - 1) AND NOT (8 - 1)) priority st)
                (\<lambda>(st1, r). OK (st1, if r = OS_EOK then Some q else None)))))))"

subsection \<open>The system's work queue\<close>

definition gs_sys_workq :: nat where "gs_sys_workq = 0x20002000"
definition OS_SYSTEM_WORKQUEUE_STACK_SIZE :: u32 where "OS_SYSTEM_WORKQUEUE_STACK_SIZE = 2048"
definition OS_SYSTEM_WORKQUEUE_PRIORITY :: u8 where "OS_SYSTEM_WORKQUEUE_PRIORITY = 0"

definition k_work_sys_workqueue_init :: "wq_objs \<times> kernel \<Rightarrow> ((wq_objs \<times> kernel) \<times> os_err) res" where
  "k_work_sys_workqueue_init =
     os_workqueue_init gs_sys_workq ''sys_work'' OS_SYSTEM_WORKQUEUE_STACK_SIZE OS_SYSTEM_WORKQUEUE_PRIORITY"

definition os_submit_work :: "nat \<Rightarrow> u32 \<Rightarrow> wq_objs \<times> kernel \<Rightarrow> ((wq_objs \<times> kernel) \<times> os_err) res" where
  "os_submit_work w delay st = os_assert (delay < OS_TICK_MAX div 2) (os_submit_work_to_queue gs_sys_workq w delay st)"

end
