(* ===== verification/Workqueue_Run.thy ===== *)
theory Workqueue_Run
  imports Os_Workqueue
begin

text \<open>
  The work queues as a service: no work is lost or taken twice, the worker never sleeps while a
  work is queued, the works are taken in order and a delayed work is queued on time.
\<close>

subsection \<open>Invariant\<close>

abbreviation work_live :: "wq_sys \<Rightarrow> nat \<Rightarrow> bool" where
  "work_live s w \<equiv> work_object_inited (works s w) = OS_KOBJ_INITED"

abbreviation queue_live :: "wq_sys \<Rightarrow> nat \<Rightarrow> bool" where
  "queue_live s q \<equiv> wq_object_inited (queues s q) = OS_KOBJ_INITED"

text \<open>A live work is pending exactly when it is in a list, which is that of its queue if it has one.\<close>

definition works_ok :: "wq_sys \<Rightarrow> bool" where
  "works_ok s \<longleftrightarrow> lists_wf (work_lists s) \<and>
     (\<forall>q. \<forall>w \<in> set (work_lists s q). work_live s w \<and> work_flag (works s w) = OS_WORK_STAGE_PENDING \<and>
        (workqueue (works s w) = Some q \<or> workqueue (works s w) = None) \<and> queue_live s q) \<and>
     (\<forall>w. work_live s w \<and> work_flag (works s w) = OS_WORK_STAGE_PENDING \<longrightarrow> (\<exists>q. w \<in> set (work_lists s q))) \<and>
     (\<forall>w q. work_live s w \<and> workqueue (works s w) = Some q \<longrightarrow> queue_live s q)"

text \<open>
  The worker of a queue with \<open>n\<close> tokens in its semaphore and the tasks \<open>wl\<close> waiting for it: it
  has a current work only in its inner loop, it alone waits, and when works are queued and none is
  current, a token is there for it or it is awake.
\<close>

definition worker_ok :: "nat \<Rightarrow> os_workqueue \<Rightarrow> nat list \<Rightarrow> u32 \<Rightarrow> tid list \<Rightarrow> bool" where
  "worker_ok q x l n wl \<longleftrightarrow>
     (work_current x \<noteq> None \<longrightarrow> worker_at x \<noteq> At_wait \<and> worker_at x \<noteq> Asleep) \<and>
     (wl \<noteq> [] \<longrightarrow> wl = [q] \<and> worker_at x = Asleep) \<and>
     (l \<noteq> [] \<and> work_current x = None \<longrightarrow>
        (worker_at x = At_wait \<longrightarrow> 0 < n) \<and> (worker_at x = Asleep \<longrightarrow> wl = []))"

definition wq_inv :: "wq_objs \<Rightarrow> kernel \<Rightarrow> bool" where
  "wq_inv o' k \<longleftrightarrow> (case o' of (s, ts, ss) \<Rightarrow> sem_inv ss k \<and> works_ok s \<and>
     (\<forall>q. queue_live s q \<longrightarrow> sem_object_inited (sems ss q) = OS_KOBJ_INITED \<and>
        worker_ok q (queues s q) (work_lists s q) (sem_count (sems ss q)) (task_lists k (WQ q))))"

lemma wq_invD:
  assumes "wq_inv (s, ts, ss) k"
  shows "sem_inv ss k" "works_ok s" "queue_live s q \<Longrightarrow> sem_object_inited (sems ss q) = OS_KOBJ_INITED"
    "queue_live s q \<Longrightarrow> worker_ok q (queues s q) (work_lists s q) (sem_count (sems ss q)) (task_lists k (WQ q))"
  using assms by (simp_all add: wq_inv_def)

lemma works_okD:
  assumes "works_ok s"
  shows "lists_wf (work_lists s)"
    "w \<in> set (work_lists s q) \<Longrightarrow> work_live s w" "w \<in> set (work_lists s q) \<Longrightarrow> work_flag (works s w) = OS_WORK_STAGE_PENDING"
    "w \<in> set (work_lists s q) \<Longrightarrow> queue_live s q"
    "w \<in> set (work_lists s q) \<Longrightarrow> workqueue (works s w) = Some q' \<Longrightarrow> q' = q"
    "work_live s w \<Longrightarrow> work_flag (works s w) = OS_WORK_STAGE_PENDING \<Longrightarrow> \<exists>q. w \<in> set (work_lists s q)"
    "work_live s w \<Longrightarrow> workqueue (works s w) = Some q' \<Longrightarrow> queue_live s q'"
    "work_flag (works s w) \<noteq> OS_WORK_STAGE_PENDING \<Longrightarrow> unlinked (work_lists s) w"
  using assms by (fastforce simp: works_ok_def unlinked_def)+

lemma wq_inv_timers: "wq_inv (s, ts, ss) k \<Longrightarrow> wq_inv (s, ts', ss) k"
  by (simp add: wq_inv_def)

text \<open>After a post the worker has a token or is awake, whatever is queued.\<close>

lemma worker_ok_posted:
  "worker_ok q x l n wl \<Longrightarrow> (wl = [] \<Longrightarrow> 0 < n') \<Longrightarrow> worker_ok q x l' n' (tl wl)"
  by (auto simp: worker_ok_def)

lemma worker_ok_busy: "worker_ok q x l n wl \<Longrightarrow> work_current x \<noteq> None \<Longrightarrow> worker_ok q x l' n wl"
  by (auto simp: worker_ok_def)

lemma worker_ok_fewer: "worker_ok q x l n wl \<Longrightarrow> (l = [] \<Longrightarrow> l' = []) \<Longrightarrow> n \<le> n' \<Longrightarrow> worker_ok q x l' n' wl"
  by (auto simp: worker_ok_def)

subsection \<open>Posting and waiting\<close>

lemma os_sem_post_effect:
  assumes s: "settled i k" and inv: "sem_inv ss k" and live: "sem_object_inited (sems ss a) = OS_KOBJ_INITED"
  shows "\<exists>ss' k' r. os_sem_post a (ss, k) = OK ((ss', k'), r) \<and> krun i k' \<and> sem_inv ss' k' \<and>
    (\<forall>b. sem_object_inited (sems ss' b) = sem_object_inited (sems ss b) \<and> sem_count (sems ss b) \<le> sem_count (sems ss' b)) \<and>
    (\<forall>b. task_lists k' (WQ b) = (if b = a then tl (task_lists k (WQ a)) else task_lists k (WQ b))) \<and>
    (task_lists k (WQ a) = [] \<longrightarrow> 0 < sem_count (sems ss' a))"
proof (cases "task_lists k (WQ a)")
  case Nil
  have ok: "sem_ok (sems ss a) a k" by (rule sem_okD[OF inv live])
  have safe: "svc_safe sem_inv i (os_sem_post a (ss, k))" by (rule os_sem_post_safe[OF s inv])
  show ?thesis
  proof (cases "sem_count (sems ss a) < sem_max_count (sems ss a)")
    case True
    then have "sem_count (sems ss a) \<le> sem_count (sems ss a) + 1 \<and> 0 < sem_count (sems ss a) + 1" by unat_arith
    then show ?thesis using safe Nil live True by (auto simp: os_sem_post_def)
  next
    case False
    then have "0 < sem_count (sems ss a)" using ok by (simp add: sem_ok_def)
    then show ?thesis using safe Nil live False by (auto simp: os_sem_post_def)
  qed
next
  case (Cons t l)
  then have t: "t \<in> set (task_lists k (WQ a))" by simp
  obtain k1 where k1: "wake_task t k = OK k1" "krun i k1" "\<And>v. task_lists k1 (WQ v) = removeAll t (task_lists k (WQ v))"
    using wake_task_run[OF s t] by blast
  have "distinct (t # l)" using kinvD(2)[OF settledD(3)[OF s], of "WQ a"] Cons by simp
  then have "task_lists k1 (WQ b) = (if b = a then l else task_lists k (WQ b))" for b
    using waiting_elsewhere[OF settledD(3)[OF s] t, of b] Cons by (simp add: k1(3))
  moreover have "svc_safe sem_inv i (os_sem_post a (ss, k))" by (rule os_sem_post_safe[OF s inv])
  ultimately show ?thesis using Cons live k1(1,2) by (auto simp: os_sem_post_def)
qed

lemma os_sem_wait_effect:
  assumes s: "settled i k" and inv: "sem_inv ss k" and c: "current_task k = Some c" "c \<noteq> i"
  shows "os_sem_wait a OS_WAIT_FOREVER (ss, k) = Fault AssertFail \<or>
    (\<exists>ss' k' r. os_sem_wait a OS_WAIT_FOREVER (ss, k) = OK ((ss', k'), r) \<and> krun i k' \<and> sem_inv ss' k' \<and>
      (\<forall>b. sem_object_inited (sems ss' b) = sem_object_inited (sems ss b) \<and> (b \<noteq> a \<longrightarrow> sems ss' b = sems ss b)) \<and>
      (\<forall>b. b \<noteq> a \<longrightarrow> task_lists k' (WQ b) = task_lists k (WQ b)) \<and>
      (r = Blocks \<and> sem_count (sems ss a) = 0 \<and> (task_lists k (WQ a) = [] \<longrightarrow> task_lists k' (WQ a) = [c]) \<or>
       r \<noteq> Blocks \<and> task_lists k' (WQ a) = task_lists k (WQ a)))"
proof -
  let ?wp = "sem_wake_type (sems ss a) = WAKE_TYPE_PRIO"
  note r = settled_ready[OF s c(1)]
  note nw = ready_not_waiting[OF settledD(3)[OF s] r]
  have safe: "svc_safe sem_inv i (os_sem_wait a OS_WAIT_FOREVER (ss, k))"
    by (rule os_sem_wait_safe[OF s inv]) (use c in simp)
  have blk: "\<exists>k1. block_current a OS_WAIT_FOREVER ?wp k = OK k1 \<and> task_lists k1 = wait_insert (WQ a) c ?wp k"
    if "\<not> os_is_schedule_locked k"
    using block_current_run[OF s c] that by (force simp: os_is_schedule_locked_def)
  have one: "task_lists k (WQ a) = [] \<Longrightarrow> wait_insert (WQ a) c ?wp k (WQ a) = [c]"
    by (simp add: wait_insert_def klist_simps)
  have other: "b \<noteq> a \<Longrightarrow> wait_insert (WQ a) c ?wp k (WQ b) = task_lists k (WQ b)" for b
    using nw by (simp add: wait_insert_other)
  show ?thesis
    using safe blk one other
    unfolding os_sem_wait_def wait_context_def os_assert_def
    by (auto simp: word_gt_0 split: if_splits)
qed

subsection \<open>Queueing works\<close>

lemma works_ok_queued:
  assumes "works_ok s" "work_flag (works s w) \<noteq> OS_WORK_STAGE_PENDING" "work_live s w" "queue_live s q"
    and "workqueue (works s w) = Some q \<or> workqueue (works s w) = None"
    and "set l = insert w (set (work_lists s q))" "distinct l"
  shows "works_ok ((upd_work w (\<lambda>x. x\<lparr>work_flag := OS_WORK_STAGE_PENDING\<rparr>) s)\<lparr>work_lists := (work_lists s)(q := l)\<rparr>)"
proof -
  note D = works_okD[OF assms(1)]
  have u: "w \<notin> set (work_lists s q')" for q' using D(3) assms(2) by blast
  have "lists_wf ((work_lists s)(q := l))"
    using D(1) u assms(6,7) by (auto simp: lists_wf_def)
  then show ?thesis using assms u unfolding works_ok_def by (auto simp: fun_upd_def) metis+
qed

lemma post_if_idle_ok:
  assumes s: "settled i k" and inv: "wq_inv (s0, ts, ss) k" and live: "queue_live s0 q"
    and new: "works_ok s" "queues s = queues s0" "\<And>q'. q' \<noteq> q \<Longrightarrow> work_lists s q' = work_lists s0 q'"
  shows "\<exists>ss' k'. post_if_idle q ((s, ts', ss), k) = OK ((s, ts', ss'), k') \<and> krun i k' \<and> wq_inv (s, ts', ss') k'"
proof (cases "work_current (queues s0 q)")
  case None
  obtain ss' k' r where p: "os_sem_post q (ss, k) = OK ((ss', k'), r)" "krun i k'" "sem_inv ss' k'"
      "\<And>b. sem_object_inited (sems ss' b) = sem_object_inited (sems ss b)" "\<And>b. sem_count (sems ss b) \<le> sem_count (sems ss' b)"
      "\<And>b. task_lists k' (WQ b) = (if b = q then tl (task_lists k (WQ q)) else task_lists k (WQ b))"
      "task_lists k (WQ q) = [] \<longrightarrow> 0 < sem_count (sems ss' q)"
    using os_sem_post_effect[OF s wq_invD(1)[OF inv] wq_invD(3)[OF inv live]] by blast
  have "worker_ok b (queues s b) (work_lists s b) (sem_count (sems ss' b)) (task_lists k' (WQ b))" if "queue_live s b" for b
    using that worker_ok_posted[OF wq_invD(4)[OF inv live], of "sem_count (sems ss' q)" "work_lists s q"] new(2,3) p(5,6,7)
      worker_ok_fewer[OF wq_invD(4)[OF inv, of b]] by (cases "b = q") auto
  then show ?thesis
    using p(1-4) new(1,2) None wq_invD(3)[OF inv] by (simp add: post_if_idle_def wq_inv_def)
next
  case (Some v)
  have "worker_ok b (queues s b) (work_lists s b) (sem_count (sems ss b)) (task_lists k (WQ b))" if "queue_live s b" for b
    using that new(2,3) Some wq_invD(4)[OF inv, of b] worker_ok_busy[OF wq_invD(4)[OF inv live], of "work_lists s q"]
    by (cases "b = q") simp_all
  then show ?thesis
    using Some new(1,2) inv settledD(1)[OF s] by (simp add: post_if_idle_def wq_inv_def)
qed

lemma submit_tail_ok:
  assumes s: "settled i k" and inv: "wq_inv (s0, ts, ss) k" and live: "work_live s0 w" "queue_live s0 q"
    and idle: "work_flag (works s0 w) \<noteq> OS_WORK_STAGE_PENDING"
    and s1: "works_ok s1" "works s1 w = (works s0 w)\<lparr>workqueue := Some q\<rparr>" "queues s1 = queues s0" "work_lists s1 = work_lists s0"
  shows "\<exists>ss' k'. submit_work_to_queue_tail q w ((s1, ts', ss), k) =
      OK (((upd_work w (\<lambda>x. x\<lparr>work_flag := OS_WORK_STAGE_PENDING\<rparr>) s1)\<lparr>work_lists := list_add_tail (work_lists s0) q w\<rparr>, ts', ss'), k') \<and>
    krun i k' \<and> wq_inv ((upd_work w (\<lambda>x. x\<lparr>work_flag := OS_WORK_STAGE_PENDING\<rparr>) s1)\<lparr>work_lists := list_add_tail (work_lists s0) q w\<rparr>, ts', ss') k'"
proof -
  have u: "w \<notin> set (work_lists s1 q)" using works_okD(3)[OF s1(1), of w q] idle s1(2) by auto
  have "works_ok ((upd_work w (\<lambda>x. x\<lparr>work_flag := OS_WORK_STAGE_PENDING\<rparr>) s1)\<lparr>work_lists := (work_lists s1)(q := work_lists s1 q @ [w])\<rparr>)"
    by (rule works_ok_queued[OF s1(1)])
      (use u idle live s1 lists_wf_distinct[OF works_okD(1)[OF s1(1)], of q] in auto)
  then show ?thesis
    unfolding submit_work_to_queue_tail_def Let_def split
    using post_if_idle_ok[OF s inv live(2), of "(upd_work w (\<lambda>x. x\<lparr>work_flag := OS_WORK_STAGE_PENDING\<rparr>) s1)
        \<lparr>work_lists := (work_lists s1)(q := work_lists s1 q @ [w])\<rparr>"] s1(3,4)
    by (simp add: list_add_tail_def)
qed

text \<open>Changing a work that is in no list.\<close>

lemma works_ok_upd:
  assumes "works_ok s" "unlinked (work_lists s) w"
    and "\<And>x. x = works s w \<Longrightarrow> work_object_inited (f x) = OS_KOBJ_INITED \<Longrightarrow> work_flag (f x) \<noteq> OS_WORK_STAGE_PENDING \<and>
      (\<forall>q. workqueue (f x) = Some q \<longrightarrow> queue_live s q)"
  shows "works_ok (upd_work w f s)"
proof -
  have u: "w \<notin> set (work_lists s q)" for q using assms(2) by (simp add: unlinked_def)
  then show ?thesis using assms(1,3) unfolding works_ok_def by (auto simp: fun_upd_def)
qed

lemma works_ok_bound:
  assumes "works_ok s" "work_flag (works s w) \<noteq> OS_WORK_STAGE_PENDING" "queue_live s q"
  shows "works_ok (upd_work w (\<lambda>x. x\<lparr>workqueue := Some q\<rparr>) s)"
  by (rule works_ok_upd[OF assms(1) works_okD(8)[OF assms(1,2)]]) (use assms in auto)

lemma wq_inv_works:
  assumes "wq_inv (s, ts, ss) k" "works_ok s'" "queues s' = queues s" "\<And>q. work_lists s q = [] \<Longrightarrow> work_lists s' q = []"
  shows "wq_inv (s', ts', ss) k"
  using assms worker_ok_fewer[OF wq_invD(4)[OF assms(1)]] by (auto simp: wq_inv_def)

lemma submit_safe:
  assumes s: "settled i k" and inv: "wq_inv (s0, ts, ss) k"
  shows "svc_safe wq_inv i (os_submit_work_to_queue q w delay ((s0, ts, ss), k))"
proof -
  let ?s1 = "upd_work w (\<lambda>x. x\<lparr>workqueue := Some q\<rparr>) s0"
  have now: "svc_safe wq_inv i (bind_res (submit_work_to_queue_tail q w ((?s1, ts, ss), k)) (\<lambda>st. OK (st, OS_EOK)))"
    if live: "work_live s0 w" "queue_live s0 q" and idle: "work_flag (works s0 w) = OS_WORK_STAGE_IDLE"
    using submit_tail_ok[OF s inv live, of ?s1 ts] works_ok_bound[OF wq_invD(2)[OF inv], of w q] live(2) idle by fastforce
  have later: "wq_inv (upd_work w (\<lambda>x. x\<lparr>work_flag := OS_WORK_STAGE_DELAY\<rparr>) ?s1, ts', ss) k"
    if live: "work_live s0 w" "queue_live s0 q" and idle: "work_flag (works s0 w) = OS_WORK_STAGE_IDLE" for ts'
  proof (rule wq_inv_works[OF inv])
    have b: "works_ok ?s1" using works_ok_bound[OF wq_invD(2)[OF inv], of w q] live(2) idle by simp
    show "works_ok (upd_work w (\<lambda>x. x\<lparr>work_flag := OS_WORK_STAGE_DELAY\<rparr>) ?s1)"
      by (rule works_ok_upd[OF b works_okD(8)[OF b]]) (use live idle in auto)
  qed simp_all
  have start: "svc_safe wq_inv i (bind_res (os_timer_set_timeout_ticks w delay ts) (\<lambda>(ts1, _).
                bind_res (os_timer_start w ts1) (\<lambda>(ts2, _).
                  OK (((upd_work w (\<lambda>x. x\<lparr>work_flag := OS_WORK_STAGE_DELAY\<rparr>) ?s1, ts2, ss), k), OS_EOK))))"
    if "work_live s0 w" "queue_live s0 q" "work_flag (works s0 w) = OS_WORK_STAGE_IDLE"
    using later[OF that] settledD(1)[OF s]
    by (auto simp: os_timer_set_timeout_ticks_def os_timer_start_def timer_inited_def os_assert_def k_timer_activate_def)
  show ?thesis
    unfolding os_submit_work_to_queue_def Let_def split
    using now start inv settledD(1)[OF s] by auto
qed

lemma timeout_safe:
  assumes s: "settled i k" and inv: "wq_inv (s0, ts, ss) k" and w: "work_live s0 w" "workqueue (works s0 w) = Some q"
  shows "\<exists>s' ss' k'. k_work_timeout w ((s0, ts, ss), k) = OK ((s', ts, ss'), k') \<and> krun i k' \<and> wq_inv (s', ts, ss') k' \<and>
    s' = (if work_flag (works s0 w) = OS_WORK_STAGE_DELAY
          then (upd_work w (\<lambda>x. x\<lparr>work_flag := OS_WORK_STAGE_PENDING\<rparr>) s0)\<lparr>work_lists := list_add_tail (work_lists s0) q w\<rparr>
          else s0)"
proof (cases "work_flag (works s0 w) = OS_WORK_STAGE_DELAY")
  case True
  have live: "queue_live s0 q" using works_okD(7)[OF wq_invD(2)[OF inv] w] .
  show ?thesis
    using submit_tail_ok[OF s inv w(1) live, of s0 ts] wq_invD(2)[OF inv] w True by (simp add: k_work_timeout_def)
next
  case False
  then show ?thesis using inv w settledD(1)[OF s] by (simp add: k_work_timeout_def)
qed

subsection \<open>Cancelling\<close>

lemma take_back_ok:
  assumes ok: "works_ok s" and w: "work_live s w"
  shows "take_back w (s, ts, ss) = Fault AssertFail \<or>
    (\<exists>s' ts'. take_back w (s, ts, ss) = OK (s', ts', ss) \<and> works_ok s' \<and> queues s' = queues s \<and>
      (\<forall>q. work_lists s' q = removeAll w (work_lists s q)) \<and> work_flag (works s' w) = OS_WORK_STAGE_IDLE \<and>
      (\<forall>v. v \<noteq> w \<longrightarrow> works s' v = works s v))"
proof -
  let ?idle = "\<lambda>x::os_work. x\<lparr>work_flag := OS_WORK_STAGE_IDLE\<rparr>"
  have gone: "removeAll w (work_lists s q) = work_lists s q" if "work_flag (works s w) \<noteq> OS_WORK_STAGE_PENDING" for q
    using works_okD(8)[OF ok that] by (simp add: unlinked_def)
  have 1: "works_ok (upd_work w ?idle s)" if "work_flag (works s w) = OS_WORK_STAGE_DELAY"
    by (rule works_ok_upd[OF ok works_okD(8)[OF ok]]) (use that works_okD(7)[OF ok] in auto)
  have 2: "works_ok (upd_work w ?idle (s\<lparr>work_lists := list_del (work_lists s) w\<rparr>))"
    if "work_flag (works s w) = OS_WORK_STAGE_PENDING"
    using ok works_okD(7)[OF ok] lists_wf_del[OF works_okD(1)[OF ok], of w]
    unfolding works_ok_def by (auto simp: list_del_apply fun_upd_def)
  show ?thesis
    using ok 1 2 gone
    by (auto simp: take_back_def os_timer_stop_def timer_inited_def os_assert_def list_del_apply)
qed

lemma cancel_safe:
  assumes s: "settled i k" and inv: "wq_inv (s0, ts, ss) k"
  shows "svc_safe wq_inv i (os_cancel_work w ((s0, ts, ss), k))"
proof -
  have "svc_safe wq_inv i (bind_res (take_back w (s0, ts, ss)) (\<lambda>st1.
      OK ((st1, k), if work_current (queues (fst st1) q) = Some w then OS_EBUSY else OS_EOK)))"
    if "work_live s0 w" for q
    using take_back_ok[OF wq_invD(2)[OF inv] that, of ts ss]
  proof (elim disjE exE conjE)
    fix s' ts' assume t: "take_back w (s0, ts, ss) = OK (s', ts', ss)" "works_ok s'" "queues s' = queues s0"
      "\<forall>q. work_lists s' q = removeAll w (work_lists s0 q)"
    have "wq_inv (s', ts', ss) k" by (rule wq_inv_works[OF inv t(2,3)]) (simp add: t(4))
    then show ?thesis using t(1) settledD(1)[OF s] by simp
  qed simp
  then show ?thesis
    unfolding os_cancel_work_def using inv settledD(1)[OF s] by (auto split: option.split)
qed

lemma sem_init_ok:
  assumes s: "settled i k" and inv: "sem_inv ss k" and free: "task_lists k (WQ a) = []" "a \<notin> set (sem_resource_list ss)"
  shows "os_sem_init a nm 0 1 (ss, k) = Fault AssertFail \<or>
    (\<exists>ss'. os_sem_init a nm 0 1 (ss, k) = OK ((ss', k), OS_EOK) \<and> sem_inv ss' k \<and>
      sem_object_inited (sems ss' a) = OS_KOBJ_INITED \<and> (\<forall>b. b \<noteq> a \<longrightarrow> sems ss' b = sems ss b))"
  using os_sem_init_safe[OF s inv free(1), of nm 0 1] free empty_list_upd[OF free(1)]
  by (auto simp: os_sem_init_def k_sem_init_def os_assert_def split: if_splits)

text \<open>Semaphores that belong to no queue may do what they like.\<close>

lemma wq_inv_sems:
  assumes "wq_inv (s, ts, ss) k" "sem_inv ss' k'"
    and "\<And>q. queue_live s q \<Longrightarrow> sems ss' q = sems ss q \<and> task_lists k' (WQ q) = task_lists k (WQ q)"
  shows "wq_inv (s, ts', ss') k'"
  using assms by (simp add: wq_inv_def)

lemma work_init_ok:
  assumes inv: "wq_inv (s, ts, ss) k" and u: "unlinked (work_lists s) w"
  shows "wq_inv (os_work_init w f d (s, ts, ss)) k"
proof -
  have "works_ok (upd_work w (\<lambda>x. x\<lparr>work_func := f, work_data := d, workqueue := None, work_flag := OS_WORK_STAGE_IDLE,
        work_object_inited := OS_KOBJ_INITED\<rparr>) s)"
    by (rule works_ok_upd[OF wq_invD(2)[OF inv] u]) auto
  then show ?thesis unfolding os_work_init_def split by (rule wq_inv_works[OF inv]) simp_all
qed

lemma cancel_begin_safe:
  assumes s: "settled i k" and inv: "wq_inv (s0, ts, ss) k"
    and loc: "unlinked (work_lists s0) ww" "ww \<noteq> w" "\<not> queue_live s0 a" "task_lists k (WQ a) = []" "a \<notin> set (sem_resource_list ss)"
  shows "svc_safe wq_inv i (cancel_sync_begin w ww a ((s0, ts, ss), k))"
proof -
  have main: "svc_safe wq_inv i (bind_res (os_sem_init a None 0 1 (ss, k)) (\<lambda>((ss1, k1), _).
            bind_res (take_back w (os_work_init ww wait_work_func a (s0, ts, ss1))) (\<lambda>st2.
              if work_current (queues (fst st2) q) = Some w
              then bind_res (submit_work_to_queue_head q ww (st2, k1)) (\<lambda>st3. OK (st3, Some True))
              else OK ((st2, k1), Some False))))"
    if w: "work_live s0 w" "workqueue (works s0 w) = Some q" for q
    using sem_init_ok[OF s wq_invD(1)[OF inv] loc(4,5), of None]
  proof (elim disjE exE conjE)
    fix ss1 assume i: "os_sem_init a None 0 1 (ss, k) = OK ((ss1, k), OS_EOK)" "sem_inv ss1 k" "\<forall>b. b \<noteq> a \<longrightarrow> sems ss1 b = sems ss b"
    have inv1: "wq_inv (s0, ts, ss1) k" by (rule wq_inv_sems[OF inv i(2)]) (use i(3) loc(3) in auto)
    obtain s2 ts2 where o2: "os_work_init ww wait_work_func a (s0, ts, ss1) = (s2, ts2, ss1)" "queues s2 = queues s0"
        "work_lists s2 = work_lists s0" "works s2 ww = \<lparr>work_func = wait_work_func, work_data = a, workqueue = None,
           work_flag = OS_WORK_STAGE_IDLE, work_object_inited = OS_KOBJ_INITED\<rparr>" "works s2 w = works s0 w"
      using loc(2) by (simp add: os_work_init_def)
    have inv2: "wq_inv (s2, ts2, ss1) k" using work_init_ok[OF inv1 loc(1), of wait_work_func a] o2(1) by simp
    have w2: "work_live s2 w" using w(1) o2(5) by simp
    have q: "queue_live s2 q" using works_okD(7)[OF wq_invD(2)[OF inv] w] o2(2) by simp
    have rest: "svc_safe wq_inv i (bind_res (take_back w (s2, ts2, ss1)) (\<lambda>st2.
              if work_current (queues (fst st2) q) = Some w
              then bind_res (submit_work_to_queue_head q ww (st2, k)) (\<lambda>st3. OK (st3, Some True))
              else OK ((st2, k), Some False)))"
      using take_back_ok[OF wq_invD(2)[OF inv2] w2, of ts2 ss1]
    proof (elim disjE exE conjE)
      fix s3 ts3 assume t: "take_back w (s2, ts2, ss1) = OK (s3, ts3, ss1)" "works_ok s3" "queues s3 = queues s2"
        "\<forall>q. work_lists s3 q = removeAll w (work_lists s2 q)" "\<forall>v. v \<noteq> w \<longrightarrow> works s3 v = works s2 v"
      have inv3: "wq_inv (s3, ts3, ss1) k" by (rule wq_inv_works[OF inv2 t(2,3)]) (simp add: t(4))
      have x: "works s3 ww = works s2 ww" using t(5) loc(2) by blast
      have u: "ww \<notin> set (work_lists s3 q)" using t(4) loc(1) o2(3) by (simp add: unlinked_def)
      have "works_ok ((upd_work ww (\<lambda>x. x\<lparr>work_flag := OS_WORK_STAGE_PENDING\<rparr>) s3)\<lparr>work_lists := (work_lists s3)(q := ww # work_lists s3 q)\<rparr>)"
        by (rule works_ok_queued[OF t(2)])
          (use x o2(4) q t(3) u lists_wf_distinct[OF works_okD(1)[OF t(2)], of q] in simp_all)
      then have "\<exists>ss' k'. submit_work_to_queue_head q ww ((s3, ts3, ss1), k) =
          OK (((upd_work ww (\<lambda>x. x\<lparr>work_flag := OS_WORK_STAGE_PENDING\<rparr>) s3)\<lparr>work_lists := (work_lists s3)(q := ww # work_lists s3 q)\<rparr>, ts3, ss'), k') \<and>
          krun i k' \<and> wq_inv ((upd_work ww (\<lambda>x. x\<lparr>work_flag := OS_WORK_STAGE_PENDING\<rparr>) s3)\<lparr>work_lists := (work_lists s3)(q := ww # work_lists s3 q)\<rparr>, ts3, ss') k'"
        unfolding submit_work_to_queue_head_def Let_def split
        using post_if_idle_ok[OF s inv3, of q] q t(3) by simp
      then show ?thesis using t(1) inv3 settledD(1)[OF s] by auto
    qed simp
    then show ?thesis using i(1) o2(1) by simp
  qed simp
  then show ?thesis
    unfolding cancel_sync_begin_def split using inv settledD(1)[OF s] by (auto split: option.split)
qed

lemma sem_deinit_effect:
  assumes s: "settled i k" and inv: "sem_inv ss k"
  shows "os_sem_deinit a (ss, k) = Fault AssertFail \<or>
    (\<exists>ss' k' r. os_sem_deinit a (ss, k) = OK ((ss', k'), r) \<and> krun i k' \<and> sem_inv ss' k' \<and>
      (\<forall>b. b \<noteq> a \<longrightarrow> sems ss' b = sems ss b \<and> task_lists k' (WQ b) = task_lists k (WQ b)))"
proof -
  obtain k' where k': "k_cancle_all_blocked_task a k = OK k'" "\<And>v. v \<noteq> a \<Longrightarrow> task_lists k' (WQ v) = task_lists k (WQ v)"
    using cancel_run[OF s, of a] by blast
  then show ?thesis
    using sem_dispose_safe[OF s inv, of a]
    by (simp add: os_sem_deinit_def sem_dispose_def os_assert_def Let_def)
qed

subsection \<open>The worker\<close>

lemma wq_inv_posted:
  assumes s: "settled i k" and inv: "wq_inv (s0, ts, ss) k"
  shows "os_sem_post a (ss, k) = Fault AssertFail \<or>
    (\<exists>ss' k' r. os_sem_post a (ss, k) = OK ((ss', k'), r) \<and> krun i k' \<and> wq_inv (s0, ts, ss') k')"
proof (cases "sem_object_inited (sems ss a) = OS_KOBJ_INITED")
  case True
  obtain ss' k' r where p: "os_sem_post a (ss, k) = OK ((ss', k'), r)" "krun i k'" "sem_inv ss' k'"
      "\<And>b. sem_object_inited (sems ss' b) = sem_object_inited (sems ss b)" "\<And>b. sem_count (sems ss b) \<le> sem_count (sems ss' b)"
      "\<And>b. task_lists k' (WQ b) = (if b = a then tl (task_lists k (WQ a)) else task_lists k (WQ b))"
      "task_lists k (WQ a) = [] \<longrightarrow> 0 < sem_count (sems ss' a)"
    using os_sem_post_effect[OF s wq_invD(1)[OF inv] True] by blast
  have "worker_ok b (queues s0 b) (work_lists s0 b) (sem_count (sems ss' b)) (task_lists k' (WQ b))" if "queue_live s0 b" for b
    using p(5-7) worker_ok_posted[OF wq_invD(4)[OF inv that], of "sem_count (sems ss' b)" "work_lists s0 b"]
      worker_ok_fewer[OF wq_invD(4)[OF inv that]] by (cases "b = a") auto
  then show ?thesis using p(1-4) wq_invD(2,3)[OF inv] by (simp add: wq_inv_def)
qed (simp add: os_sem_post_def)

lemma works_ok_queue [simp]:
  assumes "wq_object_inited (f (queues s q)) = wq_object_inited (queues s q)"
  shows "works_ok (upd_queue q f s) \<longleftrightarrow> works_ok s"
proof -
  have "queue_live (upd_queue q f s) x \<longleftrightarrow> queue_live s x" for x using assms by simp
  then show ?thesis by (simp add: works_ok_def del: upd_queue_simps(1))
qed

text \<open>A step of the worker that changes its place only.\<close>

lemma wq_inv_moved:
  assumes "wq_inv (s, ts, ss) k"
    and "queue_live s q \<Longrightarrow> worker_ok q ((queues s q)\<lparr>worker_at := pc\<rparr>) (work_lists s q) (sem_count (sems ss q)) (task_lists k (WQ q))"
  shows "wq_inv (upd_queue q (\<lambda>x. x\<lparr>worker_at := pc\<rparr>) s, ts, ss) k"
  using assms by (simp add: wq_inv_def)

lemma worker_take_ok:
  assumes inv: "wq_inv (s, ts, ss) k" and at: "worker_at (queues s q) = In_loop" and q: "queue_live s q"
  shows "wq_inv (worker_take q s, ts, ss) k"
proof (cases "work_lists s q")
  case Nil
  have "worker_ok q ((queues s q)\<lparr>work_current := None, worker_at := At_wait\<rparr>) [] (sem_count (sems ss q)) (task_lists k (WQ q))"
    using wq_invD(4)[OF inv q] at by (auto simp: worker_ok_def)
  then show ?thesis using inv Nil by (simp add: worker_take_def wq_inv_def)
next
  case (Cons w l)
  let ?s1 = "upd_work w (\<lambda>x. x\<lparr>work_flag := OS_WORK_STAGE_IDLE\<rparr>) (s\<lparr>work_lists := list_del (work_lists s) w\<rparr>)"
  note ok = wq_invD(2)[OF inv]
  have w: "work_live s w" using works_okD(2)[OF ok, of w q] Cons by simp
  have f: "work_flag (works s w) = OS_WORK_STAGE_PENDING" using works_okD(3)[OF ok, of w q] Cons by simp
  obtain s2 where t: "take_back w (s, ts, ss) = OK (s2, ts, ss)" "works_ok s2" "s2 = ?s1"
    using take_back_ok[OF ok w, of ts ss] f by (simp add: take_back_def)
  then have "works_ok ?s1" by simp
  then have ok1: "works_ok (upd_queue q (\<lambda>x. x\<lparr>work_current := c, worker_at := pc\<rparr>) ?s1)" for c pc
    by simp
  have "worker_ok q ((queues s q)\<lparr>work_current := Some w, worker_at := In_work a b\<rparr>) l' (sem_count (sems ss q)) (task_lists k (WQ q))"
    for a b l'
    using wq_invD(4)[OF inv q] at by (auto simp: worker_ok_def)
  moreover have "worker_ok b (queues s b) (removeAll w (work_lists s b)) (sem_count (sems ss b)) (task_lists k (WQ b))" if "queue_live s b" for b
    using worker_ok_fewer[OF wq_invD(4)[OF inv that]] by force
  ultimately show ?thesis
    using ok1 inv Cons wq_invD(4)[OF inv] by (auto simp: worker_take_def wq_inv_def list_del_apply)
qed

lemma worker_step_safe:
  assumes s: "settled i k" and inv: "wq_inv (s0, ts, ss) k"
    and a: "current_task k = Some q" "q \<noteq> i" "queue_live s0 q"
  shows "svc_safe wq_inv i (worker_step q ((s0, ts, ss), k))"
proof -
  have awake: "task_lists k (WQ q) = []"
    using ready_not_waiting[OF settledD(3)[OF s] settled_ready[OF s a(1)], of q] wq_invD(4)[OF inv a(3)]
    by (auto simp: worker_ok_def)
  show ?thesis
  proof (cases "worker_at (queues s0 q)")
    case At_wait
    have c: "work_current (queues s0 q) = None" and e: "sem_count (sems ss q) = 0 \<Longrightarrow> work_lists s0 q = []"
      using wq_invD(4)[OF inv a(3)] At_wait by (auto simp: worker_ok_def)
    show ?thesis
      using os_sem_wait_effect[OF s wq_invD(1)[OF inv] a(1,2), of q]
    proof (elim disjE exE conjE)
      fix ss' k' r
      assume w: "os_sem_wait q OS_WAIT_FOREVER (ss, k) = OK ((ss', k'), r)" "krun i k'" "sem_inv ss' k'"
        "\<forall>b. sem_object_inited (sems ss' b) = sem_object_inited (sems ss b) \<and> (b \<noteq> q \<longrightarrow> sems ss' b = sems ss b)"
        "\<forall>b. b \<noteq> q \<longrightarrow> task_lists k' (WQ b) = task_lists k (WQ b)"
      {
        assume "r = Blocks" "sem_count (sems ss q) = 0" "task_lists k (WQ q) = [] \<longrightarrow> task_lists k' (WQ q) = [q]"
        then have "worker_ok q ((queues s0 q)\<lparr>worker_at := Asleep\<rparr>) (work_lists s0 q) (sem_count (sems ss' q)) (task_lists k' (WQ q))"
          using awake e c by (simp add: worker_ok_def)
        then show ?thesis using w At_wait inv \<open>r = Blocks\<close> by (simp add: worker_step_def wq_inv_def)
      next
        assume "r \<noteq> Blocks" "task_lists k' (WQ q) = task_lists k (WQ q)"
        then have "worker_ok q ((queues s0 q)\<lparr>worker_at := In_loop\<rparr>) (work_lists s0 q) (sem_count (sems ss' q)) (task_lists k' (WQ q))"
          using awake c by (simp add: worker_ok_def)
        moreover obtain e where "r = Returns e" using \<open>r \<noteq> Blocks\<close> by (cases r) auto
        ultimately show ?thesis using w At_wait inv by (simp add: worker_step_def wq_inv_def)
      }
    qed (use At_wait in \<open>simp add: worker_step_def\<close>)
  next
    case Asleep
    have "worker_ok q ((queues s0 q)\<lparr>worker_at := In_loop\<rparr>) (work_lists s0 q) (sem_count (sems ss q)) (task_lists k (WQ q))"
      using awake wq_invD(4)[OF inv a(3)] by (auto simp: worker_ok_def)
    then show ?thesis using wq_inv_moved[OF inv] settledD(1)[OF s] Asleep by (simp add: worker_step_def)
  next
    case In_loop
    then show ?thesis using worker_take_ok[OF inv In_loop a(3)] settledD(1)[OF s] by (simp add: worker_step_def)
  next
    case (In_work f d)
    have "worker_ok q ((queues s0 q)\<lparr>worker_at := In_loop\<rparr>) l n wl"
      if "worker_ok q (queues s0 q) l n wl" for l n wl
      using that In_work by (auto simp: worker_ok_def)
    then have moved: "wq_inv (upd_queue q (\<lambda>x. x\<lparr>worker_at := In_loop\<rparr>) s0, ts, ss') k'" if "wq_inv (s0, ts, ss') k'" for ss' k'
      using wq_inv_moved[OF that] wq_invD(4)[OF that] by blast
    show ?thesis
      using wq_inv_posted[OF s inv, of d] moved moved[OF inv] settledD(1)[OF s] In_work
      by (auto simp: worker_step_def k_wait_work_def)
  qed
qed

subsection \<open>New queues\<close>

lemma settled_task_init:
  assumes "settled i k" "t \<noteq> i" "tstate k t = OS_TASK_STATE_EMPTY \<or> tstate k t = OS_TASK_STATE_CLOSE"
  shows "os_task_init t nm n p k = Fault AssertFail \<or> (\<exists>k' r. os_task_init t nm n p k = OK (k', r) \<and> settled i k' \<and>
    task_lists k' = task_lists k \<and> (\<forall>u. prio k' u = (if u = t \<and> r = OS_EOK then p else prio k u)))"
proof -
  have "run_safe i (os_task_init t nm n p k)" by (rule os_task_init_run[OF assms])
  then show ?thesis
    using settledD(5)[OF assms(1)] assms(1)
    by (auto simp: os_task_init_def k_task_init_def upd_task_def settled_def os_assert_def split: if_splits)
qed

lemma startup_lists: "os_task_startup t k = OK (k', r) \<Longrightarrow> task_lists k' (WQ a) = task_lists k (WQ a) \<and> prio k' u = prio k u"
  by (auto simp: os_task_startup_def res_simps k_readyq_put_def Let_def list_add_tail_apply split: if_splits)

lemma free_not_waiting:
  assumes "kinv i k" "tstate k t = OS_TASK_STATE_EMPTY \<or> tstate k t = OS_TASK_STATE_CLOSE"
  shows "t \<notin> set (task_lists k (WQ a))"
  using assms(2) by (auto simp: kinvD(4)[OF assms(1)] home_def has_flag_def task_state_defs)

lemma sem_inv_frame:
  assumes "sem_inv s k" "\<And>a. task_lists k' (WQ a) = task_lists k (WQ a)"
    "\<And>a t. t \<in> set (task_lists k (WQ a)) \<Longrightarrow> prio k' t = prio k t"
  shows "sem_inv s k'"
proof -
  have "prio_sorted k' a" if "prio_sorted k a" for a
    using that sorted_wrt_mono_rel[of "task_lists k (WQ a)" "\<lambda>x y. prio k x \<le> prio k y"] assms(2,3)
    by (simp add: prio_sorted_def)
  then show ?thesis using assms(1,2) by (simp add: sem_inv_def sem_ok_def)
qed

lemma queue_init_safe:
  assumes s: "settled i k" and inv: "wq_inv (s0, ts, ss) k"
    and fresh: "\<not> queue_live s0 q" "task_lists k (WQ q) = []" "q \<notin> set (sem_resource_list ss)" "tcb_free i q k"
  shows "svc_safe wq_inv i (os_workqueue_init q nm n p ((s0, ts, ss), k))"
proof -
  let ?s1 = "(upd_queue q (\<lambda>x. x\<lparr>work_current := None, wq_object_inited := OS_KOBJ_INITED, worker_at := At_wait\<rparr>) s0)
              \<lparr>work_lists := (work_lists s0)(q := [])\<rparr>"
  note ok = wq_invD(2)[OF inv]
  have e: "work_lists s0 q = []" using works_okD(4)[OF ok, of _ q] fresh(1) by (cases "work_lists s0 q") auto
  have free: "q \<noteq> i" "tstate k q = OS_TASK_STATE_EMPTY \<or> tstate k q = OS_TASK_STATE_CLOSE"
    using fresh(4) by (simp_all add: tcb_free_def)
  have ok1: "works_ok ?s1" using ok e fresh(1) unfolding works_ok_def by (simp add: fun_upd_idem) blast
  note init = sem_init_ok[OF s wq_invD(1)[OF inv] fresh(2,3), of None]
  {
    fix ss1 assume i: "os_sem_init q None 0 1 (ss, k) = OK ((ss1, k), OS_EOK)" "sem_inv ss1 k"
      "sem_object_inited (sems ss1 q) = OS_KOBJ_INITED" "\<forall>b. b \<noteq> q \<longrightarrow> sems ss1 b = sems ss b"
    have w: "worker_ok q \<lparr>work_current = None, wq_object_inited = OS_KOBJ_INITED, worker_at = At_wait\<rparr> [] n []" for n
      by (simp add: worker_ok_def)
    have inv1: "wq_inv (?s1, ts, ss1) k'" if "sem_inv ss1 k'" "\<And>a. task_lists k' (WQ a) = task_lists k (WQ a)" for k'
      using that ok1 i(3,4) fresh(2) wq_invD(3,4)[OF inv] by (simp add: wq_inv_def worker_ok_def)
    have frame: "sem_inv ss1 k'" if "\<And>a. task_lists k' (WQ a) = task_lists k (WQ a)" "\<And>t. t \<noteq> q \<Longrightarrow> prio k' t = prio k t" for k'
      by (rule sem_inv_frame[OF i(2) that(1)]) (use that(2) free_not_waiting[OF settledD(3)[OF s] free(2)] in metis)
    have "svc_safe wq_inv i (bind_res (os_task_init q (Some nm) n p k) (\<lambda>(k2, r2).
             if r2 \<noteq> OS_EOK then OK (((?s1, ts, ss1), k2), r2)
             else bind_res (os_task_startup q k2) (\<lambda>(k3, r3). OK (((?s1, ts, ss1), k3), r3))))"
      using settled_task_init[OF s free, of "Some nm" n p]
    proof (elim disjE exE conjE)
      fix k2 r2 assume t: "os_task_init q (Some nm) n p k = OK (k2, r2)" "settled i k2" "task_lists k2 = task_lists k"
        "\<forall>u. prio k2 u = (if u = q \<and> r2 = OS_EOK then p else prio k u)"
      have inv2: "wq_inv (?s1, ts, ss1) k2" by (rule inv1[OF frame]) (use t(3,4) in auto)
      have "wq_inv (?s1, ts, ss1) k3" if "os_task_startup q k2 = OK (k3, r3)" for k3 r3
        by (rule inv1[OF frame]) (use startup_lists[OF that] t(3,4) in auto)
      then have "svc_safe wq_inv i (bind_res (os_task_startup q k2) (\<lambda>(k3, r3). OK (((?s1, ts, ss1), k3), r3)))"
        using os_task_startup_run[OF t(2), of q] by (cases "os_task_startup q k2") auto
      then show ?thesis using t(1) inv2 settledD(1)[OF t(2)] by simp
    qed simp
  }
  then show ?thesis
    unfolding os_workqueue_init_def Let_def split using init by (auto simp: os_assert_def)
qed

subsection \<open>The work queues as a service\<close>

datatype wq_call =
    Work_init nat nat nat
  | Queue_init nat string u32 u8
  | Submit nat nat u32
  | Work_timeout nat
  | Cancel nat
  | Cancel_sync nat nat nat
  | Cancel_wait nat
  | Cancel_end nat
  | Worker_step nat

text \<open>A timeout reports the queue that got the work, a step of the worker the work it took.\<close>

datatype wq_result = Did "os_err outcome" | Running "bool option" | Queued "nat option" | Took "nat option"

definition wq_service :: "(wq_objs, wq_call, wq_result) service" where
  "wq_service x st = (case x of
     Work_init w f d \<Rightarrow> OK ((os_work_init w f d (fst st), snd st), Did (Returns OS_EOK))
   | Queue_init q nm n p \<Rightarrow> bind_res (os_workqueue_init q nm n p st) (\<lambda>(st1, r). OK (st1, Did (Returns r)))
   | Submit q w n \<Rightarrow> bind_res (os_submit_work_to_queue q w n st) (\<lambda>(st1, r). OK (st1, Did (Returns r)))
   | Work_timeout w \<Rightarrow> bind_res (k_work_timeout w st)
       (\<lambda>st1. OK (st1, Queued (if work_flag (works (fst (fst st)) w) = OS_WORK_STAGE_DELAY
                              then workqueue (works (fst (fst st)) w) else None)))
   | Cancel w \<Rightarrow> bind_res (os_cancel_work w st) (\<lambda>(st1, r). OK (st1, Did (Returns r)))
   | Cancel_sync w ww a \<Rightarrow> bind_res (cancel_sync_begin w ww a st) (\<lambda>(st1, r). OK (st1, Running r))
   | Cancel_wait a \<Rightarrow> bind_res (cancel_sync_wait a st) (\<lambda>(st1, r). OK (st1, Did r))
   | Cancel_end a \<Rightarrow> bind_res (cancel_sync_end a st) (\<lambda>(st1, r). OK (st1, Did (Returns r)))
   | Worker_step q \<Rightarrow> bind_res (worker_step q st) (\<lambda>(st1, w). OK (st1, Took w)))"

text \<open>
  What callers keep to: a work is not initialised while it is queued, a queue only once and on
  memory that is in use for nothing else, the local variables of a synchronous cancellation
  are no queue and no queued work, only works that were submitted time out, the worker of a
  queue makes its steps itself, and the idle task does not wait.
\<close>

definition wq_allowed :: "tid \<Rightarrow> wq_call \<Rightarrow> wq_objs \<Rightarrow> kernel \<Rightarrow> bool" where
  "wq_allowed i x o' k = (case o' of (s, ts, ss) \<Rightarrow> (case x of
     Work_init w f d \<Rightarrow> work_flag (works s w) \<noteq> OS_WORK_STAGE_PENDING
   | Queue_init q nm n p \<Rightarrow> \<not> queue_live s q \<and> task_lists k (WQ q) = [] \<and> q \<notin> set (sem_resource_list ss) \<and> tcb_free i q k
   | Work_timeout w \<Rightarrow> work_live s w \<and> workqueue (works s w) \<noteq> None
   | Cancel_sync w ww a \<Rightarrow> work_flag (works s ww) \<noteq> OS_WORK_STAGE_PENDING \<and> ww \<noteq> w \<and> \<not> queue_live s a \<and>
       task_lists k (WQ a) = [] \<and> a \<notin> set (sem_resource_list ss)
   | Cancel_wait a \<Rightarrow> \<not> queue_live s a \<and> current_task k \<noteq> Some i
   | Cancel_end a \<Rightarrow> \<not> queue_live s a
   | Worker_step q \<Rightarrow> current_task k = Some q \<and> q \<noteq> i \<and> queue_live s q
   | _ \<Rightarrow> True))"

lemma cancel_wait_safe:
  assumes s: "settled i k" and inv: "wq_inv (s0, ts, ss) k" and a: "\<not> queue_live s0 a" "current_task k \<noteq> Some i"
  shows "svc_safe wq_inv i (cancel_sync_wait a ((s0, ts, ss), k))"
proof -
  obtain c where c: "current_task k = Some c" "c \<noteq> i" using settledD(6)[OF s] a(2) by auto
  have "wq_inv (s0, ts, ss') k'"
    if w: "sem_inv ss' k'" "\<forall>b. b \<noteq> a \<longrightarrow> sems ss' b = sems ss b" "\<forall>b. b \<noteq> a \<longrightarrow> task_lists k' (WQ b) = task_lists k (WQ b)" for ss' k'
    by (rule wq_inv_sems[OF inv w(1)]) (use w(2,3) a(1) in metis)
  then show ?thesis
    using os_sem_wait_effect[OF s wq_invD(1)[OF inv] c, of a] by (auto simp: cancel_sync_wait_def)
qed

lemma cancel_end_safe:
  assumes s: "settled i k" and inv: "wq_inv (s0, ts, ss) k" and a: "\<not> queue_live s0 a"
  shows "svc_safe wq_inv i (cancel_sync_end a ((s0, ts, ss), k))"
  using sem_deinit_effect[OF s wq_invD(1)[OF inv], of a]
proof (elim disjE exE conjE)
  fix ss' k' r
  assume w: "os_sem_deinit a (ss, k) = OK ((ss', k'), r)" "krun i k'" "sem_inv ss' k'"
    "\<forall>b. b \<noteq> a \<longrightarrow> sems ss' b = sems ss b \<and> task_lists k' (WQ b) = task_lists k (WQ b)"
  have "wq_inv (s0, ts, ss') k'" by (rule wq_inv_sems[OF inv w(3)]) (use w(4) a in metis)
  then show ?thesis using w by (simp add: cancel_sync_end_def)
qed (simp add: cancel_sync_end_def)

lemma wq_service_safe:
  assumes s: "settled i k" and inv: "wq_inv o' k" and a: "wq_allowed i x o' k"
  shows "svc_safe wq_inv i (wq_service x (o', k))"
proof -
  obtain s0 ts ss where o': "o' = (s0, ts, ss)" by (cases o')
  note inv0 = inv[unfolded o'] and a0 = a[unfolded o']
  note un = works_okD(8)[OF wq_invD(2)[OF inv0]]
  show ?thesis
  proof (cases x)
    case (Work_init w f d)
    then show ?thesis
      using a0 work_init_ok[OF inv0 un, of w f d] settledD(1)[OF s] by (simp add: o' wq_service_def wq_allowed_def svc_safe_def split: prod.split)
  next
    case (Work_timeout w)
    then obtain q where "work_live s0 w" "workqueue (works s0 w) = Some q" using a0 by (auto simp: wq_allowed_def)
    from timeout_safe[OF s inv0 this] show ?thesis by (auto simp: o' Work_timeout wq_service_def)
  next
    case (Cancel_sync w ww b)
    then have "unlinked (work_lists s0) ww" using a0 un by (simp add: wq_allowed_def)
    then show ?thesis
      using a0 Cancel_sync by (auto simp: o' wq_service_def wq_allowed_def intro!: svc_safe_bind cancel_begin_safe[OF s inv0])
  qed (use a0 in \<open>auto simp: o' wq_service_def wq_allowed_def intro!: svc_safe_bind queue_init_safe[OF s inv0]
      submit_safe[OF s inv0] cancel_safe[OF s inv0] cancel_wait_safe[OF s inv0] cancel_end_safe[OF s inv0] worker_step_safe[OF s inv0]\<close>)
qed

lemma wq_inv_dispatch:
  assumes "wq_inv o' k" "krun i k" "dispatch k = OK k'"
  shows "wq_inv o' k'"
  using assms(1) sem_inv_dispatch[OF _ assms(2,3)] dispatch_wait_frame(1)[OF assms(2,3)]
  by (simp add: wq_inv_def split: prod.splits)

interpretation wq_srv: kernel_service wq_service wq_allowed "\<lambda>_. wq_inv"
  by (rule kernel_service_svc, fact wq_service_safe, fact wq_inv_dispatch)

subsection \<open>Nothing is lost\<close>

text \<open>
  C14. Work queues: any allowed sequence of calls, timeouts and steps of the workers stops in an
  assertion or keeps the scheduling invariant and that of the queues: a work is pending exactly
  when it is in a list, it is in one list only and once, and when works are queued and the worker has no
  current work, the worker does not sleep on its semaphore, and if it is about to wait, a token is there.
\<close>

theorem wq_calls_lose_no_work:
  assumes "settled i k" "wq_inv o' k" "calls_allowed wq_service (wq_allowed i) xs (o', k)"
  shows "run_calls wq_service xs (o', k) = Fault AssertFail \<or>
    (\<exists>s1 ts1 ss1 k1 rs. run_calls wq_service xs (o', k) = OK (((s1, ts1, ss1), k1), rs) \<and> settled i k1 \<and>
      (\<forall>w. work_live s1 w \<longrightarrow> (work_flag (works s1 w) = OS_WORK_STAGE_PENDING \<longleftrightarrow> (\<exists>q. w \<in> set (work_lists s1 q)))) \<and>
      lists_wf (work_lists s1) \<and>
      (\<forall>q. queue_live s1 q \<and> work_lists s1 q \<noteq> [] \<and> work_current (queues s1 q) = None \<longrightarrow>
         q \<notin> set (task_lists k1 (WQ q)) \<and> (worker_at (queues s1 q) = At_wait \<longrightarrow> 0 < sem_count (sems ss1 q))))"
  using wq_srv.run_settled[OF assms]
proof (elim disjE exE conjE)
  fix o1 k1 rs assume r: "run_calls wq_service xs (o', k) = OK ((o1, k1), rs)" "settled i k1" "wq_inv o1 k1"
  obtain s1 ts1 ss1 where o1: "o1 = (s1, ts1, ss1)" by (cases o1)
  note inv = r(3)[unfolded o1]
  have "q \<notin> set (task_lists k1 (WQ q)) \<and> (worker_at (queues s1 q) = At_wait \<longrightarrow> 0 < sem_count (sems ss1 q))"
    if "queue_live s1 q" "work_lists s1 q \<noteq> []" "work_current (queues s1 q) = None" for q
    using wq_invD(4)[OF inv that(1)] that by (auto simp: worker_ok_def)
  then show ?thesis
    using r(1,2) o1 works_okD(1,3,6)[OF wq_invD(2)[OF inv]] by blast
qed simp

subsection \<open>Order\<close>

definition wq_taken :: "nat \<Rightarrow> wq_call \<times> wq_result \<Rightarrow> nat list" where
  "wq_taken q = (\<lambda>(x, r). case (x, r) of
     (Worker_step q', Took (Some w)) \<Rightarrow> if q' = q then [w] else [] | _ \<Rightarrow> [])"

definition wq_arrived :: "nat \<Rightarrow> wq_call \<times> wq_result \<Rightarrow> nat list" where
  "wq_arrived q = (\<lambda>(x, r). case (x, r) of
     (Submit q' w n, Did (Returns e)) \<Rightarrow> if q' = q \<and> n = 0 \<and> e = OS_EOK then [w] else []
   | (Work_timeout w, Queued (Some q')) \<Rightarrow> if q' = q then [w] else []
   | _ \<Rightarrow> [])"

fun no_cancel :: "wq_call \<Rightarrow> bool" where
  "no_cancel (Cancel w) \<longleftrightarrow> False"
| "no_cancel (Cancel_sync w ww a) \<longleftrightarrow> False"
| "no_cancel _ \<longleftrightarrow> True"

lemma post_if_idle_frame: "post_if_idle q ((s, ts, ss), k) = OK ((s', ts', ss'), k') \<Longrightarrow> s' = s \<and> ts' = ts"
  by (auto simp: post_if_idle_def res_simps split: if_splits)

lemma wq_step_order:
  assumes inv: "wq_inv (s, ts, ss) k" and a: "wq_allowed i x (s, ts, ss) k" and nc: "no_cancel x"
    and r: "wq_service x ((s, ts, ss), k) = OK (((s', ts', ss'), k'), r)" and live: "queue_live s q"
  shows "wq_taken q (x, r) @ work_lists s' q = work_lists s q @ wq_arrived q (x, r) \<and> queue_live s' q"
proof (cases x)
  case (Worker_step q')
  then have live': "queue_live s q'" using a by (simp add: wq_allowed_def)
  have take: "(case work_lists s q' of [] \<Rightarrow> [] | w # _ \<Rightarrow> if q' = q then [w] else []) @ work_lists (worker_take q' s) q = work_lists s q"
  proof (cases "work_lists s q'")
    case (Cons w l)
    note D = works_okD(1)[OF wq_invD(2)[OF inv]]
    have "w \<notin> set l" using lists_wf_distinct[OF D, of q'] Cons by simp
    moreover have "w \<notin> set (work_lists s q)" if "q' \<noteq> q" using lists_wfD[OF D, of w q' q] that Cons by auto
    ultimately show ?thesis using Cons by (auto simp: worker_take_def list_del_apply)
  qed (simp add: worker_take_def)
  have l: "queue_live (worker_take q' s) q" using live by (cases "work_lists s q'") (auto simp: worker_take_def)
  show ?thesis
    using r Worker_step take l live
    by (auto simp: wq_service_def worker_step_def k_wait_work_def wq_taken_def wq_arrived_def res_simps
        split: worker_pc.splits if_splits list.splits)
next
  case (Submit q' w n)
  then show ?thesis
    using r live
    by (auto simp: wq_service_def os_submit_work_to_queue_def submit_work_to_queue_tail_def wq_taken_def wq_arrived_def
        res_simps list_add_tail_apply Let_def split: if_splits dest!: post_if_idle_frame)
next
  case (Work_timeout w)
  then show ?thesis
    using r live
    by (auto simp: wq_service_def k_work_timeout_def submit_work_to_queue_tail_def wq_taken_def wq_arrived_def
        res_simps list_add_tail_apply Let_def split: if_splits option.splits dest!: post_if_idle_frame)
next
  case (Queue_init q' nm n p)
  then have "q' \<noteq> q" using a live by (auto simp: wq_allowed_def)
  then show ?thesis
    using r live Queue_init
    by (auto simp: wq_service_def os_workqueue_init_def wq_taken_def wq_arrived_def res_simps Let_def split: if_splits)
qed (use r live nc in \<open>auto simp: wq_service_def os_work_init_def cancel_sync_wait_def cancel_sync_end_def
      wq_taken_def wq_arrived_def res_simps split: outcome.splits\<close>)

text \<open>
  C17. First come, first served: over any allowed calls, timeouts and steps without a cancellation,
  the works that the worker of a queue took, followed by those still queued, are the works that were
  queued before followed by those that arrived, at once or by a timeout, in the order of arrival.
\<close>

theorem wq_works_in_order:
  assumes "settled i k" "wq_inv (s, ts, ss) k" "calls_allowed wq_service (wq_allowed i) xs ((s, ts, ss), k)"
    and "list_all no_cancel xs" "queue_live s q"
    and "run_calls wq_service xs ((s, ts, ss), k) = OK (((s', ts', ss'), k'), rs)"
  shows "concat (map (wq_taken q) (zip xs rs)) @ work_lists s' q =
    work_lists s q @ concat (map (wq_arrived q) (zip xs rs))"
  using assms
proof (induction xs arbitrary: s ts ss k rs)
  case Nil
  then show ?case by simp
next
  case (Cons x xs)
  obtain s1 ts1 ss1 k1 r rs1 where 1: "syscall wq_service x ((s, ts, ss), k) = OK (((s1, ts1, ss1), k1), r)"
      "run_calls wq_service xs ((s1, ts1, ss1), k1) = OK (((s', ts', ss'), k'), rs1)" "rs = r # rs1"
    using Cons.prems(6) by (auto simp: res_simps)
  obtain k0 where 0: "wq_service x ((s, ts, ss), k) = OK (((s1, ts1, ss1), k0), r)"
    using 1(1) by (auto simp: syscall_def res_simps)
  have a: "wq_allowed i x (s, ts, ss) k" "calls_allowed wq_service (wq_allowed i) xs ((s1, ts1, ss1), k1)"
    using Cons.prems(3) 1(1) by simp_all
  have 2: "settled i k1" "wq_inv (s1, ts1, ss1) k1"
    using wq_srv.syscall_settled[OF Cons.prems(1,2) a(1)] 1(1) by auto
  have st: "wq_taken q (x, r) @ work_lists s1 q = work_lists s q @ wq_arrived q (x, r)" "queue_live s1 q"
    using wq_step_order[OF Cons.prems(2) a(1) _ 0 Cons.prems(5)] Cons.prems(4) by simp_all
  have "concat (map (wq_taken q) (zip xs rs1)) @ work_lists s' q = work_lists s1 q @ concat (map (wq_arrived q) (zip xs rs1))"
    using Cons.IH[OF 2 a(2) _ st(2) 1(2)] Cons.prems(4) by simp
  then show ?case
    using arg_cong[OF st(1), of "\<lambda>l. l @ concat (map (wq_arrived q) (zip xs rs1))"] by (simp add: 1(3))
qed

subsection \<open>Delayed works\<close>

text \<open>
  The timer task calls \<^const>\<open>k_work_timeout\<close> for the timers of works; \<open>other\<close> is what the functions
  of other timers do to the rest of the system. After each \<^verbatim>\<open>PendSV\<close> runs if it is pending.
\<close>

definition work_call :: "(nat \<Rightarrow> nat \<Rightarrow> 'x \<Rightarrow> 'x) \<Rightarrow> nat \<Rightarrow> nat \<Rightarrow> timer_sys \<times> ((wq_sys \<times> sem_sys) \<times> kernel) \<times> 'x \<Rightarrow>
    timer_sys \<times> ((wq_sys \<times> sem_sys) \<times> kernel) \<times> 'x" where
  "work_call other f p = (\<lambda>(ts, ((s, ss), k), x).
     if f = work_timeout_func
     then (case bind_res (k_work_timeout p ((s, ts, ss), k)) (\<lambda>(o1, k1). bind_res (dispatch k1) (\<lambda>k2. OK (o1, k2))) of
        OK ((s1, ts1, ss1), k2) \<Rightarrow> (ts1, ((s1, ss1), k2), x) | Fault e \<Rightarrow> (ts, ((s, ss), k), x))
     else (ts, ((s, ss), k), other f p x))"

definition work_effect :: "(nat \<Rightarrow> nat \<Rightarrow> 'x \<Rightarrow> 'x) \<Rightarrow> nat \<Rightarrow> nat \<Rightarrow> ((wq_sys \<times> sem_sys) \<times> kernel) \<times> 'x \<Rightarrow>
    ((wq_sys \<times> sem_sys) \<times> kernel) \<times> 'x" where
  "work_effect other f p e = snd (work_call other f p (sample_timers, e))"

lemma timeout_timers:
  "k_work_timeout p ((s, ts, ss), k) =
    bind_res (k_work_timeout p ((s, ts', ss), k)) (\<lambda>((s1, _, ss1), k1). OK ((s1, ts, ss1), k1))"
  by (auto simp: k_work_timeout_def submit_work_to_queue_tail_def post_if_idle_def Let_def bind_res_assoc split_def
      split: option.split intro: bind_res_cong)

lemma work_call_bystander: "work_call other = bystander (work_effect other)"
proof (intro ext)
  fix f p and q :: "timer_sys \<times> ((wq_sys \<times> sem_sys) \<times> kernel) \<times> 'a"
  obtain ts s ss k x where q: "q = (ts, ((s, ss), k), x)" by (cases q) auto
  note c = work_call_def bystander_def work_effect_def q
  show "work_call other f p q = bystander (work_effect other) f p q"
  proof (cases "k_work_timeout p ((s, sample_timers, ss), k)")
    case (OK a)
    obtain s1 ts1 ss1 k1 where a: "a = ((s1, ts1, ss1), k1)" by (cases a) auto
    show ?thesis using timeout_timers[of p s ts ss k sample_timers] OK a by (cases "dispatch k1") (simp_all add: c)
  next
    case (Fault e)
    then show ?thesis using timeout_timers[of p s ts ss k sample_timers] by (simp add: c)
  qed
qed

text \<open>The timers of works belong to works that were submitted.\<close>

definition delay_bound :: "wq_sys \<Rightarrow> timer_sys \<Rightarrow> tmid \<Rightarrow> bool" where
  "delay_bound s ts t \<longleftrightarrow> (timeout_func (timers ts t) = work_timeout_func \<longrightarrow>
     parameter (timers ts t) = t \<and> work_live s t \<and> workqueue (works s t) \<noteq> None)"

definition delays_ok :: "wq_sys \<Rightarrow> timer_sys \<Rightarrow> bool" where
  "delays_ok s ts \<longleftrightarrow> (\<forall>t. active ts t \<longrightarrow> delay_bound s ts t)"

text \<open>What the calls of some timers leave as it is.\<close>

definition calls_frame :: "tmid set \<Rightarrow> wq_sys \<Rightarrow> wq_sys \<Rightarrow> bool" where
  "calls_frame T s s' \<longleftrightarrow> (\<forall>v. work_object_inited (works s' v) = work_object_inited (works s v) \<and>
     workqueue (works s' v) = workqueue (works s v)) \<and>
   (\<forall>v. v \<notin> T \<longrightarrow> works s' v = works s v \<and> (\<forall>q. v \<in> set (work_lists s' q) \<longleftrightarrow> v \<in> set (work_lists s q)))"

lemma calls_frame_refl [simp]: "calls_frame T s s"
  by (simp add: calls_frame_def)

lemma calls_frame_trans: "calls_frame T s s1 \<Longrightarrow> calls_frame U s1 s2 \<Longrightarrow> calls_frame (T \<union> U) s s2"
  by (simp add: calls_frame_def)

lemma delay_bound_frame: "calls_frame T s s' \<Longrightarrow> delay_bound s' ts t \<longleftrightarrow> delay_bound s ts t"
  by (simp add: calls_frame_def delay_bound_def)

lemma work_effect_ok:
  assumes s: "settled i k" and inv: "wq_inv (s0, sample_timers, ss) k" and b: "delay_bound s0 ts t"
  shows "\<exists>s' ss' k' x'. work_effect other (timeout_func (timers ts t)) (parameter (timers ts t)) (((s0, ss), k), x) =
      (((s', ss'), k'), x') \<and> settled i k' \<and> wq_inv (s', sample_timers, ss') k' \<and> calls_frame {t} s0 s' \<and>
    (timeout_func (timers ts t) = work_timeout_func \<and> work_flag (works s0 t) = OS_WORK_STAGE_DELAY \<longrightarrow>
       (\<forall>q. workqueue (works s0 t) = Some q \<longrightarrow> t \<in> set (work_lists s' q)))"
proof (cases "timeout_func (timers ts t) = work_timeout_func")
  case True
  then obtain q where p: "parameter (timers ts t) = t" "work_live s0 t" "workqueue (works s0 t) = Some q"
    using b by (auto simp: delay_bound_def)
  obtain s' ss' k1 where k1: "k_work_timeout t ((s0, sample_timers, ss), k) = OK ((s', sample_timers, ss'), k1)"
      "krun i k1" "wq_inv (s', sample_timers, ss') k1"
      "s' = (if work_flag (works s0 t) = OS_WORK_STAGE_DELAY
          then (upd_work t (\<lambda>x. x\<lparr>work_flag := OS_WORK_STAGE_PENDING\<rparr>) s0)\<lparr>work_lists := list_add_tail (work_lists s0) q t\<rparr>
          else s0)"
    using timeout_safe[OF s inv p(2,3)] by blast
  obtain k2 where k2: "dispatch k1 = OK k2" "settled i k2" using dispatch_ok[OF k1(2)] by blast
  have "wq_inv (s', sample_timers, ss') k2" by (rule wq_inv_dispatch[OF k1(3,2) k2(1)])
  moreover have "calls_frame {t} s0 s'" using k1(4) by (auto simp: calls_frame_def list_add_tail_apply)
  moreover have "t \<in> set (work_lists s' q)" if "work_flag (works s0 t) = OS_WORK_STAGE_DELAY"
    using k1(4) that by (simp add: list_add_tail_apply)
  ultimately show ?thesis using k1(1) k2 p True by (simp add: work_effect_def work_call_def)
qed (use assms in \<open>simp add: work_effect_def work_call_def\<close>)

lemma called_works:
  assumes "settled i k" "wq_inv (s0, sample_timers, ss) k" "distinct us" "\<forall>t \<in> set us. delay_bound s0 ts t"
  shows "\<exists>s' ss' k' x'. called ts (work_effect other) us (((s0, ss), k), x) = (((s', ss'), k'), x') \<and>
    settled i k' \<and> wq_inv (s', sample_timers, ss') k' \<and> calls_frame (set us) s0 s' \<and>
    (\<forall>t \<in> set us. timeout_func (timers ts t) = work_timeout_func \<and> work_flag (works s0 t) = OS_WORK_STAGE_DELAY \<longrightarrow>
       (\<forall>q. workqueue (works s0 t) = Some q \<longrightarrow> t \<in> set (work_lists s' q)))"
  using assms
proof (induction us arbitrary: s0 ss k x)
  case Nil
  then show ?case by (simp add: called_def)
next
  case (Cons t us)
  have b: "delay_bound s0 ts t" using Cons.prems(4) by simp
  obtain s1 ss1 k1 x1 where 1: "work_effect other (timeout_func (timers ts t)) (parameter (timers ts t)) (((s0, ss), k), x) =
      (((s1, ss1), k1), x1)" "settled i k1" "wq_inv (s1, sample_timers, ss1) k1" "calls_frame {t} s0 s1"
      "timeout_func (timers ts t) = work_timeout_func \<and> work_flag (works s0 t) = OS_WORK_STAGE_DELAY \<longrightarrow>
       (\<forall>q. workqueue (works s0 t) = Some q \<longrightarrow> t \<in> set (work_lists s1 q))"
    using work_effect_ok[OF Cons.prems(1,2) b, of other x] by blast
  have d: "distinct us" "t \<notin> set us" "\<forall>u \<in> set us. delay_bound s1 ts u"
    using Cons.prems(3,4) delay_bound_frame[OF 1(4)] by simp_all
  obtain s2 ss2 k2 x2 where 2: "called ts (work_effect other) us (((s1, ss1), k1), x1) = (((s2, ss2), k2), x2)"
      "settled i k2" "wq_inv (s2, sample_timers, ss2) k2" "calls_frame (set us) s1 s2"
      "\<forall>u \<in> set us. timeout_func (timers ts u) = work_timeout_func \<and> work_flag (works s1 u) = OS_WORK_STAGE_DELAY \<longrightarrow>
       (\<forall>q. workqueue (works s1 u) = Some q \<longrightarrow> u \<in> set (work_lists s2 q))"
    using Cons.IH[OF 1(2,3) d(1,3), of x1] by blast
  have same: "works s1 u = works s0 u" if "u \<in> set us" for u
    using 1(4) that d(2) by (auto simp: calls_frame_def)
  have "t \<in> set (work_lists s2 q) \<longleftrightarrow> t \<in> set (work_lists s1 q)" for q
    using 2(4) d(2) by (simp add: calls_frame_def)
  then have "\<forall>u \<in> set (t # us). timeout_func (timers ts u) = work_timeout_func \<and> work_flag (works s0 u) = OS_WORK_STAGE_DELAY \<longrightarrow>
       (\<forall>q. workqueue (works s0 u) = Some q \<longrightarrow> u \<in> set (work_lists s2 q))"
    using 1(5) 2(5) same by simp
  moreover have "calls_frame (set (t # us)) s0 s2" using calls_frame_trans[OF 1(4) 2(4)] by simp
  ultimately show ?case using 1(1) 2(1-3) by (simp add: called_def)
qed

lemma delays_ok_ticked:
  assumes "wheel_ok ts" "wheel_ok ts'" "timer_left ts' = counted ts" "same_settings ts ts'" "calls_frame T s s'" "delays_ok s ts"
  shows "delays_ok s' ts'"
  unfolding delays_ok_def
proof (intro allI impI)
  fix t assume "active ts' t"
  then have "timer_left ts t \<noteq> None" using wheel_okD(5)[OF assms(2), of t] assms(3)
    by (auto simp: counted_def split: option.splits)
  then have "delay_bound s ts t" using assms(6) wheel_okD(5)[OF assms(1), of t] by (simp add: delays_ok_def)
  then show "delay_bound s' ts' t"
    using delay_bound_frame[OF assms(5), of ts t] same_settingsD(2,3)[OF assms(4), of t] by (simp add: delay_bound_def)
qed

text \<open>One tick: the timers that are due are called.\<close>

lemma works_tick:
  assumes s: "settled i k" and inv: "wq_inv (s0, sample_timers, ss) k" and ts: "wheel_ok ts" "delays_ok s0 ts"
  shows "\<exists>ts' s' ss' k' x'. timer_tick (work_call other) (ts, ((s0, ss), k), x) = Some (OK (ts', ((s', ss'), k'), x')) \<and>
    settled i k' \<and> wq_inv (s', sample_timers, ss') k' \<and> wheel_ok ts' \<and> delays_ok s' ts' \<and> same_settings ts ts' \<and>
    timer_left ts' = counted ts \<and> calls_frame {t. timer_left ts t = Some 1} s0 s' \<and>
    (\<forall>w q. timer_left ts w = Some 1 \<and> timeout_func (timers ts w) = work_timeout_func \<and>
       work_flag (works s0 w) = OS_WORK_STAGE_DELAY \<and> workqueue (works s0 w) = Some q \<longrightarrow> w \<in> set (work_lists s' q))"
proof -
  let ?e = "(((s0, ss), k), x)"
  obtain ts' us where t: "timer_tick (bystander (work_effect other)) (ts, ?e) = Some (OK (ts', called ts (work_effect other) us ?e))"
      "wheel_ok ts'" "same_settings ts ts'" "distinct us" "set us = {t. timer_left ts t = Some 1}" "timer_left ts' = counted ts"
    using timer_tick_ok[OF ts(1), of "work_effect other" ?e] by blast
  have b: "\<forall>u \<in> set us. delay_bound s0 ts u"
  proof
    fix u assume "u \<in> set us"
    then show "delay_bound s0 ts u" using ts(2) t(5) wheel_okD(5)[OF ts(1), of u] by (simp add: delays_ok_def)
  qed
  obtain s' ss' k' x' where c: "called ts (work_effect other) us ?e = (((s', ss'), k'), x')" "settled i k'"
      "wq_inv (s', sample_timers, ss') k'" "calls_frame (set us) s0 s'"
      "\<forall>u \<in> set us. timeout_func (timers ts u) = work_timeout_func \<and> work_flag (works s0 u) = OS_WORK_STAGE_DELAY \<longrightarrow>
       (\<forall>q. workqueue (works s0 u) = Some q \<longrightarrow> u \<in> set (work_lists s' q))"
    using called_works[OF s inv t(4) b, of other x] by blast
  have "delays_ok s' ts'" by (rule delays_ok_ticked[OF ts(1) t(2,6,3) c(4) ts(2)])
  then show ?thesis
    using t c by (simp add: work_call_bystander)
qed

lemma works_ticks:
  assumes s: "settled i k" and inv: "wq_inv (s0, sample_timers, ss) k" and ts: "wheel_ok ts" "delays_ok s0 ts"
    and w: "timer_left ts w = Some n" "m < n"
  shows "\<exists>ts' s' ss' k' x'. timer_ticks (work_call other) m (ts, ((s0, ss), k), x) = Some (OK (ts', ((s', ss'), k'), x')) \<and>
    settled i k' \<and> wq_inv (s', sample_timers, ss') k' \<and> wheel_ok ts' \<and> delays_ok s' ts' \<and> same_settings ts ts' \<and>
    timer_left ts' w = Some (n - m) \<and> works s' w = works s0 w \<and> (\<forall>q. w \<in> set (work_lists s' q) \<longleftrightarrow> w \<in> set (work_lists s0 q))"
  using w(2)
proof (induction m)
  case 0
  then show ?case using assms by simp
next
  case (Suc m)
  then obtain ts1 s1 ss1 k1 x1 where 1: "timer_ticks (work_call other) m (ts, ((s0, ss), k), x) = Some (OK (ts1, ((s1, ss1), k1), x1))"
      "settled i k1" "wq_inv (s1, sample_timers, ss1) k1" "wheel_ok ts1" "delays_ok s1 ts1" "same_settings ts ts1"
      "timer_left ts1 w = Some (n - m)" "works s1 w = works s0 w" "\<And>q. w \<in> set (work_lists s1 q) \<longleftrightarrow> w \<in> set (work_lists s0 q)"
    by auto
  obtain ts2 s2 ss2 k2 x2 where 2: "timer_tick (work_call other) (ts1, ((s1, ss1), k1), x1) = Some (OK (ts2, ((s2, ss2), k2), x2))"
      "settled i k2" "wq_inv (s2, sample_timers, ss2) k2" "wheel_ok ts2" "delays_ok s2 ts2" "same_settings ts1 ts2"
      "timer_left ts2 = counted ts1" "calls_frame {t. timer_left ts1 t = Some 1} s1 s2"
    using works_tick[OF 1(2-5), of other x1] by blast
  have "works s2 w = works s1 w \<and> (\<forall>q. w \<in> set (work_lists s2 q) \<longleftrightarrow> w \<in> set (work_lists s1 q))"
    using 2(8) 1(7) Suc.prems by (simp add: calls_frame_def)
  moreover have "n - m \<noteq> Suc 0" using Suc.prems by simp
  then have "timer_left ts2 w = Some (n - Suc m)" using 1(7) 2(7) by (simp add: counted_def)
  ultimately show ?case using 1(1,8,9) 2(1-5) same_settings_trans[OF 1(6) 2(6)] by simp
qed

lemma submit_delayed:
  assumes ts: "wheel_ok ts" "inited ts w" and n: "0 < n" "n < OS_TICK_MAX div 2"
    and w: "work_live s w" "work_flag (works s w) = OS_WORK_STAGE_IDLE" "workqueue (works s w) = None \<or> workqueue (works s w) = Some q"
      "queue_live s q"
  shows "\<exists>ts'. os_submit_work_to_queue q w n ((s, ts, ss), k) =
      OK (((upd_work w (\<lambda>x. x\<lparr>work_flag := OS_WORK_STAGE_DELAY\<rparr>) (upd_work w (\<lambda>x. x\<lparr>workqueue := Some q\<rparr>) s), ts', ss), k), OS_EOK) \<and>
    wheel_ok ts' \<and> timer_left ts' = (timer_left ts)(w \<mapsto> unat n) \<and>
    (\<forall>u. timeout_func (timers ts' u) = timeout_func (timers ts u) \<and> parameter (timers ts' u) = parameter (timers ts u) \<and>
       inited ts' u = inited ts u)"
proof -
  let ?t1 = "upd_timer w (\<lambda>x. x\<lparr>init_ticks := n\<rparr>) ts"
  have c: "wheel_ok ?t1" "timer_left ?t1 = timer_left ts" by (rule config_ok[OF ts(1)]; use n in simp)+
  obtain ts' where t: "os_timer_start w ?t1 = OK (ts', OS_EOK)" "wheel_ok ts'" "same_settings ?t1 ts'"
      "timer_left ts' = (timer_left ts)(w \<mapsto> unat n)"
    using timer_start_ok[OF c(1), of w] ts(2) n(1) c(2) by auto
  have set: "os_timer_set_timeout_ticks w n ts = OK (?t1, OS_EOK)"
    using ts(2) by (simp add: os_timer_set_timeout_ticks_def timer_inited_def)
  have "timeout_func (timers ts' u) = timeout_func (timers ts u) \<and> parameter (timers ts' u) = parameter (timers ts u) \<and>
      inited ts' u = inited ts u" for u
    using same_settingsD(2,3,5)[OF t(3), of u] by simp
  then show ?thesis using t(1,2,4) set n w by (auto simp: os_submit_work_to_queue_def Let_def)
qed

text \<open>
  C15. Delayed works: a work that is submitted to a queue with a delay of \<open>n\<close> ticks is in no list
  for the first \<open>n - 1\<close> ticks; at tick \<open>n\<close>, the timer task running after every tick, it is put
  into the list of the queue and is pending, and the kernel and the queues keep their invariants.
\<close>

theorem delayed_work_on_time:
  assumes s: "settled i k" and inv: "wq_inv (s, ts, ss) k" and ts: "wheel_ok ts" "delays_ok s ts"
    and w: "work_live s w" "work_flag (works s w) = OS_WORK_STAGE_IDLE" "workqueue (works s w) = None \<or> workqueue (works s w) = Some q"
      "queue_live s q"
    and t: "inited ts w" "timeout_func (timers ts w) = work_timeout_func" "parameter (timers ts w) = w"
    and n: "0 < n" "n < OS_TICK_MAX div 2"
  shows "\<exists>s1 ts1. os_submit_work_to_queue q w n ((s, ts, ss), k) = OK (((s1, ts1, ss), k), OS_EOK) \<and>
    (\<forall>m < unat n. \<exists>ts' s' ss' k' x'.
       timer_ticks (work_call other) m (ts1, ((s1, ss), k), x) = Some (OK (ts', ((s', ss'), k'), x')) \<and>
       work_flag (works s' w) = OS_WORK_STAGE_DELAY \<and> unlinked (work_lists s') w) \<and>
    (\<exists>ts' s' ss' k' x'.
       timer_ticks (work_call other) (unat n) (ts1, ((s1, ss), k), x) = Some (OK (ts', ((s', ss'), k'), x')) \<and>
       settled i k' \<and> wq_inv (s', ts', ss') k' \<and>
       work_flag (works s' w) = OS_WORK_STAGE_PENDING \<and> w \<in> set (work_lists s' q))"
proof -
  let ?s1 = "upd_work w (\<lambda>x. x\<lparr>work_flag := OS_WORK_STAGE_DELAY\<rparr>) (upd_work w (\<lambda>x. x\<lparr>workqueue := Some q\<rparr>) s)"
  obtain ts1 where 1: "os_submit_work_to_queue q w n ((s, ts, ss), k) = OK (((?s1, ts1, ss), k), OS_EOK)" "wheel_ok ts1"
      "timer_left ts1 = (timer_left ts)(w \<mapsto> unat n)"
      "\<And>u. timeout_func (timers ts1 u) = timeout_func (timers ts u) \<and> parameter (timers ts1 u) = parameter (timers ts u) \<and>
         inited ts1 u = inited ts u"
    using submit_delayed[OF ts(1) t(1) n w] by blast
  have inv1: "wq_inv (?s1, sample_timers, ss) k"
    using submit_safe[OF s inv, of q w n] 1(1) wq_inv_timers by auto
  have "delay_bound ?s1 ts1 u" if "active ts1 u" for u
  proof (cases "u = w")
    case False
    then have "active ts u" using that wheel_okD(5)[OF 1(2), of u] wheel_okD(5)[OF ts(1), of u] 1(3) by simp
    then show ?thesis using ts(2) 1(4) False by (simp add: delays_ok_def delay_bound_def)
  qed (use t w(1) 1(4) in \<open>simp add: delay_bound_def\<close>)
  then have D1: "delays_ok ?s1 ts1" by (simp add: delays_ok_def)
  have L1: "timer_left ts1 w = Some (unat n)" using 1(3) by simp
  have u1: "w \<notin> set (work_lists ?s1 q')" for q' using works_okD(8)[OF wq_invD(2)[OF inv1], of w] by (simp add: unlinked_def)
  note T = works_ticks[OF s inv1 1(2) D1 L1, of _ other x]
  have pos: "0 < unat n" using n(1) by (simp add: word_less_nat_alt)
  obtain ts2 s2 ss2 k2 x2 where 2: "timer_ticks (work_call other) (unat n - 1) (ts1, ((?s1, ss), k), x) = Some (OK (ts2, ((s2, ss2), k2), x2))"
      "settled i k2" "wq_inv (s2, sample_timers, ss2) k2" "wheel_ok ts2" "delays_ok s2 ts2" "same_settings ts1 ts2"
      "timer_left ts2 w = Some 1" "works s2 w = works ?s1 w"
    using T[of "unat n - 1"] pos by auto
  obtain ts3 s3 ss3 k3 x3 where 3: "timer_tick (work_call other) (ts2, ((s2, ss2), k2), x2) = Some (OK (ts3, ((s3, ss3), k3), x3))"
      "settled i k3" "wq_inv (s3, sample_timers, ss3) k3"
      "\<forall>w q. timer_left ts2 w = Some 1 \<and> timeout_func (timers ts2 w) = work_timeout_func \<and>
       work_flag (works s2 w) = OS_WORK_STAGE_DELAY \<and> workqueue (works s2 w) = Some q \<longrightarrow> w \<in> set (work_lists s3 q)"
    using works_tick[OF 2(2-5), of other x2] by blast
  have "w \<in> set (work_lists s3 q)"
    using 3(4) 2(7,8) same_settingsD(2)[OF 2(6), of w] 1(4)[of w] t(2) by simp
  moreover have "timer_ticks (work_call other) (unat n) (ts1, ((?s1, ss), k), x) = Some (OK (ts3, ((s3, ss3), k3), x3))"
    using 2(1) 3(1) pos by (cases "unat n") simp_all
  moreover have "\<exists>ts' s' ss' k' x'. timer_ticks (work_call other) m (ts1, ((?s1, ss), k), x) = Some (OK (ts', ((s', ss'), k'), x')) \<and>
       work_flag (works s' w) = OS_WORK_STAGE_DELAY \<and> unlinked (work_lists s') w" if "m < unat n" for m
    using T[OF that] u1 by (fastforce simp: unlinked_def)
  ultimately show ?thesis
    using 1(1) 3(2) wq_inv_timers[OF 3(3)] works_okD(3)[OF wq_invD(2)[OF 3(3)], of w q] by blast
qed

subsection \<open>Two defects\<close>

lemma timer_list_upd [simp]: "timer_list (upd_timer t f s) = timer_list s" "timer_list (set_round t r s) = timer_list s"
  by (simp_all add: upd_timer_def set_round_def)

lemma timer_stop_list: "os_timer_stop t s = OK (s', r) \<Longrightarrow> timer_list s' = timer_list s"
  by (auto simp: os_timer_stop_def timer_inited_def k_timer_deactivate_def k_timer_del_from_sort_list_def Let_def res_simps
      split: if_splits option.splits)

lemma take_back_timers: "take_back w (s, ts, ss) = OK (s', ts', ss') \<Longrightarrow> timer_list ts' = timer_list ts \<and> queues s' = queues s"
  by (auto simp: take_back_def res_simps split: if_splits dest!: timer_stop_list)

text \<open>
  C37. A synchronous cancellation leaves the timer of its local variable \<^verbatim>\<open>wait_work\<close> in the list of
  all timers: \<^verbatim>\<open>os_work_init\<close> puts it there and nothing takes it out, so when the call returns the
  list has a node on a stack that is used for something else.
\<close>

theorem cancel_sync_leaves_timer:
  assumes "xs = [Cancel_sync w ww a, Cancel_end a] \<or> xs = [Cancel_sync w ww a, Cancel_wait a, Cancel_end a]"
    and "run_calls wq_service xs ((s, ts, ss), k) = OK (((s', ts', ss'), k'), Running (Some b) # rs)"
  shows "timer_list ts' = timer_list ts @ [ww]"
proof -
  have started: "timer_list ts1 = timer_list ts @ [ww]"
    if b: "cancel_sync_begin w ww a ((s, ts, ss), k) = OK (((s1, ts1, ss1), k1), Some b)" for s1 ts1 ss1 k1
  proof -
    obtain s0 ts0 where o0: "os_work_init ww wait_work_func a (s, ts, sx) = (s0, ts0, sx)" "timer_list ts0 = timer_list ts @ [ww]" for sx
      by (auto simp: os_work_init_def os_timer_init_def k_timer_do_init_def)
    show ?thesis
      using b o0 unfolding cancel_sync_begin_def split
      by (auto simp: res_simps submit_work_to_queue_head_def Let_def split: option.splits if_splits
          dest!: post_if_idle_frame take_back_timers)
  qed
  have rest: "timer_list ts2 = timer_list ts1"
    if "wq_service x ((s1, ts1, ss1), k1) = OK (((s2, ts2, ss2), k2), r)" "x = Cancel_wait a \<or> x = Cancel_end a"
    for x s1 ts1 ss1 k1 s2 ts2 ss2 k2 r
    using that by (auto simp: wq_service_def cancel_sync_wait_def cancel_sync_end_def res_simps)
  have first: "timer_list ts1 = timer_list ts @ [ww]"
    if "wq_service (Cancel_sync w ww a) ((s, ts, ss), k) = OK (((s1, ts1, ss1), k1), Running (Some b))" for s1 ts1 ss1 k1
    using that by (auto simp: wq_service_def res_simps intro: started)
  show ?thesis
    using assms by (auto simp: syscall_def res_simps dest!: first rest)
qed

text \<open>
  C38. A cancelled delay comes back: when the timer of a delayed work has expired but its function
  has not run yet, cancelling the work succeeds and it can be submitted again with a new delay; the function
  then finds the work delayed and queues it at once, although all of the new delay is still to go.
\<close>

theorem cancelled_delay_fires_early:
  assumes s: "settled i k" and inv: "wq_inv (s0, ts, ss) k" and ts: "wheel_ok ts" "timer_left ts w = None" "inited ts w"
    and w: "work_live s0 w" "work_flag (works s0 w) = OS_WORK_STAGE_DELAY" "workqueue (works s0 w) = Some q"
      "work_current (queues s0 q) \<noteq> Some w"
    and n: "0 < n" "n < OS_TICK_MAX div 2"
  shows "\<exists>s' ts' ss' k'. run_calls wq_service [Cancel w, Submit q w n, Work_timeout w] ((s0, ts, ss), k) =
      OK (((s', ts', ss'), k'), [Did (Returns OS_EOK), Did (Returns OS_EOK), Queued (Some q)]) \<and>
    w \<in> set (work_lists s' q) \<and> timer_left ts' w = Some (unat n)"
proof -
  let ?s1 = "upd_work w (\<lambda>x. x\<lparr>work_flag := OS_WORK_STAGE_IDLE\<rparr>) s0"
  let ?s2 = "upd_work w (\<lambda>x. x\<lparr>work_flag := OS_WORK_STAGE_DELAY\<rparr>) (upd_work w (\<lambda>x. x\<lparr>workqueue := Some q\<rparr>) ?s1)"
  have d: "dispatch k = OK k" using settledD(5)[OF s] by (simp add: dispatch_def)
  have "\<not> active ts w" using wheel_okD(5)[OF ts(1), of w] ts(2) by simp
  then have t: "os_timer_stop w ts = OK (ts, OS_ERROR)" using ts(3) by (simp add: os_timer_stop_def timer_inited_def)
  then have c: "os_cancel_work w ((s0, ts, ss), k) = OK (((?s1, ts, ss), k), OS_EOK)"
    using w by (simp add: os_cancel_work_def take_back_def)
  have inv1: "wq_inv (?s1, ts, ss) k" using cancel_safe[OF s inv, of w] c by simp
  have q: "queue_live ?s1 q" using works_okD(7)[OF wq_invD(2)[OF inv] w(1,3)] by simp
  obtain ts2 where 2: "os_submit_work_to_queue q w n ((?s1, ts, ss), k) = OK (((?s2, ts2, ss), k), OS_EOK)"
      "timer_left ts2 = (timer_left ts)(w \<mapsto> unat n)"
    using submit_delayed[OF ts(1,3) n, of ?s1 q ss k] w q by auto
  have inv2: "wq_inv (?s2, ts2, ss) k" using submit_safe[OF s inv1, of q w n] 2(1) by simp
  obtain s3 ss3 k3 where 3: "k_work_timeout w ((?s2, ts2, ss), k) = OK ((s3, ts2, ss3), k3)" "krun i k3"
      "s3 = (upd_work w (\<lambda>x. x\<lparr>work_flag := OS_WORK_STAGE_PENDING\<rparr>) ?s2)\<lparr>work_lists := list_add_tail (work_lists ?s2) q w\<rparr>"
    using timeout_safe[OF s inv2, of w q] w by auto
  obtain k4 where k4: "dispatch k3 = OK k4" using dispatch_ok[OF 3(2)] by blast
  have "w \<in> set (work_lists s3 q)" using 3(3) by (simp add: list_add_tail_apply)
  then show ?thesis using c 2 3(1) k4 d by (simp add: syscall_def wq_service_def)
qed

subsection \<open>A work queue at work\<close>

text \<open>
  Task 1 of the sample kernel is the worker of queue 1, in front of its wait; the works 50 and 51
  are initialised, with their timers.
\<close>

definition sample_wq :: wq_sys where
  "sample_wq = \<lparr>works = (\<lambda>w. \<lparr>work_func = 7, work_data = w, workqueue = None, work_flag = OS_WORK_STAGE_IDLE,
       work_object_inited = (if w = 50 \<or> w = 51 then OS_KOBJ_INITED else 0)\<rparr>),
     queues = (\<lambda>q. \<lparr>work_current = None, wq_object_inited = (if q = 1 then OS_KOBJ_INITED else 0), worker_at = At_wait\<rparr>),
     work_lists = (\<lambda>_. [])\<rparr>"

definition sample_wq_sems :: sem_sys where
  "sample_wq_sems = bss_sems\<lparr>sems := (\<lambda>b. if b = 1 then \<lparr>sem_count = 0, sem_max_count = 1,
     sem_object_inited = OS_KOBJ_INITED, sem_object_alloc_type = OS_KOBJ_ALLOC_TYPE_STATIC,
     sem_wake_type = WAKE_TYPE_PRIO, sem_name = ''''\<rparr> else sems bss_sems b), sem_resource_list := [1]\<rparr>"

definition sample_wq_timers :: timer_sys where
  "sample_wq_timers = os_timer_init 50 None work_timeout_func 50 1 0 sample_timers"

lemma sample_wq_inv: "wq_inv (sample_wq, ts, sample_wq_sems) sample"
proof -
  have "sem_inv sample_wq_sems sample"
    by (simp add: sem_inv_def sample_wq_sems_def bss_sems_def OS_KOBJ_INITED_def sem_ok_def prio_sorted_def sample_lists_def)
  then show ?thesis
    by (simp add: wq_inv_def works_ok_def worker_ok_def sample_wq_def sample_wq_sems_def OS_KOBJ_INITED_def sample_lists_def)
qed

lemmas wq_eval = sem_eval wq_service_def wq_allowed_def os_submit_work_to_queue_def submit_work_to_queue_tail_def
  post_if_idle_def worker_step_def worker_take_def k_wait_work_def list_add_tail_apply list_del_apply

lemma wq_calls_lose_no_work_witness:
  "\<exists>s1 ts1 ss1 k1. run_calls wq_service [Submit 1 50 0, Submit 1 51 0, Worker_step 1, Worker_step 1]
      ((sample_wq, sample_wq_timers, sample_wq_sems), sample) =
      OK (((s1, ts1, ss1), k1), [Did (Returns OS_EOK), Did (Returns OS_EOK), Took None, Took (Some 50)]) \<and> settled 3 k1 \<and>
    work_flag (works s1 51) = OS_WORK_STAGE_PENDING \<and> lists_wf (work_lists s1)"
proof -
  let ?xs = "[Submit 1 50 0, Submit 1 51 0, Worker_step 1, Worker_step 1]"
  let ?st = "((sample_wq, sample_wq_timers, sample_wq_sems), sample)"
  have e: "calls_allowed wq_service (wq_allowed 3) ?xs ?st"
    "\<exists>s1 ts1 ss1 k1. run_calls wq_service ?xs ?st =
        OK (((s1, ts1, ss1), k1), [Did (Returns OS_EOK), Did (Returns OS_EOK), Took None, Took (Some 50)]) \<and>
      51 \<in> set (work_lists s1 1) \<and> work_live s1 51"
    by (simp_all add: wq_eval sample_wq_def sample_wq_sems_def bss_sems_def)
  then obtain s1 ts1 ss1 k1 where r: "run_calls wq_service ?xs ?st =
        OK (((s1, ts1, ss1), k1), [Did (Returns OS_EOK), Did (Returns OS_EOK), Took None, Took (Some 50)])"
      "51 \<in> set (work_lists s1 1)" "work_live s1 51"
    by blast
  show ?thesis
    using wq_calls_lose_no_work[OF sample_settled sample_wq_inv e(1)] r(2,3) unfolding r(1) by fastforce
qed

lemma wq_works_in_order_witness:
  "\<exists>s1 ts1 ss1 k1 rs. run_calls wq_service [Submit 1 50 0, Submit 1 51 0, Worker_step 1, Worker_step 1]
      ((sample_wq, sample_wq_timers, sample_wq_sems), sample) = OK (((s1, ts1, ss1), k1), rs) \<and>
    [50] @ work_lists s1 1 = [50, 51]"
proof -
  let ?xs = "[Submit 1 50 0, Submit 1 51 0, Worker_step 1, Worker_step 1]"
  let ?st = "((sample_wq, sample_wq_timers, sample_wq_sems), sample)"
  have e: "calls_allowed wq_service (wq_allowed 3) ?xs ?st"
    "\<exists>s1 ts1 ss1 k1. run_calls wq_service ?xs ?st =
        OK (((s1, ts1, ss1), k1), [Did (Returns OS_EOK), Did (Returns OS_EOK), Took None, Took (Some 50)])"
    by (simp_all add: wq_eval sample_wq_def sample_wq_sems_def bss_sems_def)
  then obtain s1 ts1 ss1 k1 where r: "run_calls wq_service ?xs ?st =
        OK (((s1, ts1, ss1), k1), [Did (Returns OS_EOK), Did (Returns OS_EOK), Took None, Took (Some 50)])"
    by blast
  have "queue_live sample_wq 1" "work_lists sample_wq 1 = []" by (simp_all add: sample_wq_def)
  then have "[50] @ work_lists s1 1 = [50, 51]"
    using wq_works_in_order[OF sample_settled sample_wq_inv e(1) _ _ r, of 1] by (simp add: wq_taken_def wq_arrived_def)
  then show ?thesis using r by blast
qed

lemma sample_wq_timers_ok:
  "wheel_ok sample_wq_timers" "timer_left sample_wq_timers 50 = None" "inited sample_wq_timers 50"
  "timeout_func (timers sample_wq_timers 50) = work_timeout_func" "parameter (timers sample_wq_timers 50) = 50"
proof -
  note defs = os_timer_init_def k_timer_do_init_def Let_def timer_flag_defs has_flag_def
  have a: "\<not> active sample_timers 50"
    by (simp add: sample_timers_def k_timer_init_def defs)
  show "wheel_ok sample_wq_timers" unfolding sample_wq_timers_def by (rule timer_init_ok(1)[OF sample_timers_ok(1) a])
  then show "timer_left sample_wq_timers 50 = None"
    using timer_init_ok(2)[OF sample_timers_ok(1) a] wheel_okD(5)[OF sample_timers_ok(1)] a by (simp add: sample_wq_timers_def)
  show "inited sample_wq_timers 50" "timeout_func (timers sample_wq_timers 50) = work_timeout_func"
    "parameter (timers sample_wq_timers 50) = 50"
    by (simp_all add: sample_wq_timers_def defs)
qed

lemma sample_delays: "delays_ok sample_wq sample_wq_timers"
proof -
  have "timeout_func (timers sample_wq_timers t) \<noteq> work_timeout_func" if "t \<noteq> 50" for t
    using that by (simp add: sample_wq_timers_def sample_timers_def os_timer_init_def k_timer_do_init_def k_timer_init_def
        work_timeout_func_def)
  then have "delay_bound sample_wq sample_wq_timers t" if "t \<noteq> 50" for t using that by (simp add: delay_bound_def)
  then show ?thesis
    using wheel_okD(5)[OF sample_wq_timers_ok(1), of 50] sample_wq_timers_ok(2) unfolding delays_ok_def by metis
qed

lemma delayed_work_on_time_witness:
  "\<exists>s1 ts1. os_submit_work_to_queue 1 50 20 ((sample_wq, sample_wq_timers, sample_wq_sems), sample) =
      OK (((s1, ts1, sample_wq_sems), sample), OS_EOK) \<and>
    (\<exists>ts' s' ss' k' x'. timer_ticks (work_call (\<lambda>_ _. Suc)) 20 (ts1, ((s1, sample_wq_sems), sample), 0) =
       Some (OK (ts', ((s', ss'), k'), x')) \<and> settled 3 k' \<and> 50 \<in> set (work_lists s' 1))"
proof -
  have w: "work_live sample_wq 50" "work_flag (works sample_wq 50) = OS_WORK_STAGE_IDLE"
    "workqueue (works sample_wq 50) = None" "queue_live sample_wq 1"
    by (simp_all add: sample_wq_def)
  have n: "0 < (20 :: u32)" "(20 :: u32) < OS_TICK_MAX div 2" "unat (20 :: u32) = 20" by (simp_all add: OS_TICK_MAX_def)
  show ?thesis
    using delayed_work_on_time[OF sample_settled sample_wq_inv sample_wq_timers_ok(1) sample_delays w(1,2) _ w(4)
        sample_wq_timers_ok(3-5) n(1,2), of "\<lambda>_ _. Suc" 0] w(3) unfolding n(3) by blast
qed

lemma cancel_sync_leaves_timer_witness:
  "\<exists>s0 ts0 ss0 k0 s1 ts1 ss1 k1.
    run_calls wq_service [Submit 1 50 0] ((sample_wq, sample_wq_timers, sample_wq_sems), sample) =
      OK (((s0, ts0, ss0), k0), [Did (Returns OS_EOK)]) \<and>
    run_calls wq_service [Cancel_sync 50 52 60, Cancel_end 60] ((s0, ts0, ss0), k0) =
      OK (((s1, ts1, ss1), k1), [Running (Some False), Did (Returns OS_EOK)]) \<and> timer_list ts1 = timer_list ts0 @ [52]"
proof -
  note e = wq_eval sample_wq_def sample_wq_sems_def bss_sems_def cancel_sync_begin_def cancel_sync_end_def take_back_def
    os_work_init_def os_sem_deinit_def sem_dispose_def k_cancle_all_blocked_task.simps Let_def
  have "\<exists>s0 ts0 ss0 k0. run_calls wq_service [Submit 1 50 0] ((sample_wq, sample_wq_timers, sample_wq_sems), sample) =
      OK (((s0, ts0, ss0), k0), [Did (Returns OS_EOK)]) \<and>
    (\<exists>s1 ts1 ss1 k1. run_calls wq_service [Cancel_sync 50 52 60, Cancel_end 60] ((s0, ts0, ss0), k0) =
      OK (((s1, ts1, ss1), k1), [Running (Some False), Did (Returns OS_EOK)]))"
    by (simp add: e)
  then obtain s0 ts0 ss0 k0 s1 ts1 ss1 k1 where r:
    "run_calls wq_service [Submit 1 50 0] ((sample_wq, sample_wq_timers, sample_wq_sems), sample) =
      OK (((s0, ts0, ss0), k0), [Did (Returns OS_EOK)])"
    "run_calls wq_service [Cancel_sync 50 52 60, Cancel_end 60] ((s0, ts0, ss0), k0) =
      OK (((s1, ts1, ss1), k1), [Running (Some False), Did (Returns OS_EOK)])"
    by blast
  show ?thesis using r cancel_sync_leaves_timer[of _ 50 52 60, OF _ r(2)] by blast
qed

definition sample_delayed :: wq_sys where
  "sample_delayed = upd_work 50 (\<lambda>x. x\<lparr>workqueue := Some 1, work_flag := OS_WORK_STAGE_DELAY\<rparr>) sample_wq"

lemma sample_delayed_inv: "wq_inv (sample_delayed, ts, sample_wq_sems) sample"
proof -
  have "works_ok sample_delayed"
    unfolding sample_delayed_def
    by (rule works_ok_upd[OF wq_invD(2)[OF sample_wq_inv]]) (auto simp: sample_wq_def unlinked_def)
  then show ?thesis by (rule wq_inv_works[OF sample_wq_inv]) (simp_all add: sample_delayed_def)
qed

lemma cancelled_delay_fires_early_witness:
  "\<exists>s' ts' ss' k'. run_calls wq_service [Cancel 50, Submit 1 50 20, Work_timeout 50]
      ((sample_delayed, sample_wq_timers, sample_wq_sems), sample) =
      OK (((s', ts', ss'), k'), [Did (Returns OS_EOK), Did (Returns OS_EOK), Queued (Some 1)]) \<and>
    50 \<in> set (work_lists s' 1) \<and> timer_left ts' 50 = Some 20"
proof -
  have w: "work_live sample_delayed 50" "work_flag (works sample_delayed 50) = OS_WORK_STAGE_DELAY"
    "workqueue (works sample_delayed 50) = Some 1" "work_current (queues sample_delayed 1) \<noteq> Some 50"
    by (simp_all add: sample_delayed_def sample_wq_def)
  have n: "0 < (20 :: u32)" "(20 :: u32) < OS_TICK_MAX div 2" "unat (20 :: u32) = 20" by (simp_all add: OS_TICK_MAX_def)
  show ?thesis
    using cancelled_delay_fires_early[OF sample_settled sample_delayed_inv sample_wq_timers_ok(1-3) w n(1,2)] unfolding n(3) .
qed

end
