(* ===== verification/Timer_Tickless.thy ===== *)
theory Timer_Tickless
  imports Timer_Run
begin

text \<open>
  The two functions of the timer module for the tickless idle loop: how long nothing is due
  (\<^verbatim>\<open>k_timer_get_next_remain_ticks\<close>), and accounting for a sleep at once
  (\<^verbatim>\<open>k_timer_update_active_list\<close>), which is shown to be that many ticks.
\<close>

subsection \<open>Visits of a list\<close>

text \<open>How often \<open>n\<close> ticks pass the list that is \<open>i\<close> lists ahead.\<close>

definition visits :: "nat \<Rightarrow> nat \<Rightarrow> nat" where
  "visits n i = (n + 15 - i) div 16"

lemma visits_0 [simp]: "visits 0 i = 0"
  by (simp add: visits_def)

lemma visits_split:
  assumes "i < 16"
  shows "visits n i = n div 16 + (if i < n mod 16 then 1 else 0)"
    "visits (Suc n) i = n div 16 + (if i \<le> n mod 16 then 1 else 0)"
proof -
  define q r where "q = n div 16" and "r = n mod 16"
  have n: "n = r + 16 * q" and r: "r < 16" by (simp_all add: q_def r_def)
  have "n + 15 - i = (r + 15 - i) + 16 * q" using assms n by simp
  moreover have "(r + 15 - i) div 16 = (if i < r then 1 else 0)" using assms r by (auto simp: div_eq_0_iff intro!: div_nat_eqI)
  ultimately show "visits n i = n div 16 + (if i < n mod 16 then 1 else 0)"
    by (simp add: visits_def q_def r_def)
  have "Suc n + 15 - i = (r + 16 - i) + 16 * q" using assms n by simp
  moreover have "(r + 16 - i) div 16 = (if i \<le> r then 1 else 0)" using assms r by (auto simp: div_eq_0_iff intro!: div_nat_eqI)
  ultimately show "visits (Suc n) i = n div 16 + (if i \<le> n mod 16 then 1 else 0)"
    by (simp add: visits_def q_def r_def)
qed

lemma visits_Suc: "i < 16 \<Longrightarrow> visits (Suc n) i = visits n i + (if n mod 16 = i then 1 else 0)"
  using visits_split(1)[of i n] visits_split(2)[of i n] by auto

lemma visits_none: "n \<le> i \<Longrightarrow> visits n i = 0"
  by (simp add: visits_def)

lemma visits_bound:
  assumes "i < 16" "r mod 16 = 0" "n \<le> r + i"
  shows "16 * visits n i \<le> r"
proof -
  obtain k where k: "r = 16 * k" using assms(2) by (auto simp: mod_eq_0_iff_dvd)
  have "visits n i \<le> (16 * k + 15) div 16" unfolding visits_def by (rule div_le_mono) (use assms(1,3) k in simp)
  then show ?thesis using k by simp
qed

lemma visits_due: "m mod 16 = i \<Longrightarrow> 16 * visits m i + i = m"
  using visits_split(1)[of i m] mod_less_divisor[of 16 m] by (auto simp: mult.commute)

text \<open>The first timer of the list that is \<open>i\<close> lists ahead.\<close>

definition head_at :: "timer_sys \<Rightarrow> nat \<Rightarrow> tmid option" where
  "head_at s i = (case active_lists s (Wheel ((list_current s + i) mod 16)) of [] \<Rightarrow> None | t # _ \<Rightarrow> Some t)"

definition passed :: "timer_sys \<Rightarrow> (nat \<Rightarrow> nat) \<Rightarrow> tmid \<Rightarrow> nat" where
  "passed s v t = (\<Sum>i<16. if head_at s i = Some t then v i else 0)"

text \<open>The wheel after \<open>v i\<close> visits of each list, with all of them by a first timer that is not due.\<close>

definition skipped :: "nat \<Rightarrow> (nat \<Rightarrow> nat) \<Rightarrow> timer_sys \<Rightarrow> timer_sys" where
  "skipped c v s = (put_rounds (\<lambda>t. rounds s t - of_nat (16 * passed s v t)) s)\<lparr>list_current := c\<rparr>"

lemma head_list: "head_at s i = Some t \<Longrightarrow> t \<in> set (active_lists s (Wheel ((list_current s + i) mod 16)))"
  by (auto simp: head_at_def split: list.splits)

lemma turn_inj: "c < 16 \<Longrightarrow> i < 16 \<Longrightarrow> j < 16 \<Longrightarrow> (c + i) mod 16 = (c + j) mod 16 \<Longrightarrow> i = (j :: nat)"
  by (metis wheel_turn)

lemma passed_head:
  assumes "wheel_inv s {}" "i < 16" "head_at s i = Some t"
  shows "passed s v t = v i"
proof -
  have m: "(list_current s + j) mod 16 < 16" for j by (rule mod_less_divisor) simp
  have "j = i" if j: "j < 16" and h: "head_at s j = Some t" for j
  proof (rule turn_inj[OF wheel_invD(1)[OF assms(1)] j assms(2)])
    have "Wheel ((list_current s + j) mod 16) = Wheel ((list_current s + i) mod 16)"
      by (rule wheel_invD(4)[OF assms(1) wheel_head(1)[OF m] wheel_head(1)[OF m] head_list[OF h] head_list[OF assms(3)]])
    then show "(list_current s + j) mod 16 = (list_current s + i) mod 16" by (simp only: timer_head.inject)
  qed
  then have "(if head_at s j = Some t then v j else 0) = (if j = i then v j else 0)" if "j \<in> {..<16}" for j
    using that assms(3) unfolding lessThan_iff by metis
  then have "passed s v t = (\<Sum>j<16. if j = i then v j else 0)"
    unfolding passed_def by (intro sum.cong refl)
  also have "\<dots> = (if i \<in> {..<16} then v i else 0)" by (rule sum.delta) (rule finite_lessThan)
  also have "\<dots> = v i" using assms(2) unfolding lessThan_iff by (rule if_P)
  finally show ?thesis .
qed

lemma passed_cong: "(\<And>i. i < 16 \<Longrightarrow> head_at s i = Some t \<Longrightarrow> v i = v' i) \<Longrightarrow> passed s v t = passed s v' t"
  unfolding passed_def by (intro sum.cong) auto

lemma skipped_simps [simp]:
  "active_lists (skipped c v s) = active_lists s" "list_current (skipped c v s) = c"
  "rounds (skipped c v s) t = rounds s t - of_nat (16 * passed s v t)"
  by (simp_all add: skipped_def)

text \<open>One more visit of one list.\<close>

lemma skipped_visit:
  assumes W: "wheel_inv s {}" and i: "i < 16" and t: "head_at s i = Some t"
  shows "(set_round t (rounds (skipped c v s) t - of_nat (16 * k)) (skipped c v s))\<lparr>list_current := c'\<rparr> =
    skipped c' (v(i := v i + k)) s"
proof -
  have p: "passed s (v(i := v i + k)) t = v i + k" "passed s v t = v i" using passed_head[OF W i t] by simp_all
  have o': "passed s (v(i := v i + k)) u = passed s v u" if "u \<noteq> t" for u
    by (rule passed_cong) (use t that in auto)
  have "((rounds (skipped c v s))(t := rounds (skipped c v s) t - of_nat (16 * k))) u =
      rounds s u - of_nat (16 * passed s (v(i := v i + k)) u)" for u
    using p o' by (simp add: algebra_simps)
  then show ?thesis
    unfolding set_round_put by (simp add: skipped_def put_rounds_def del: skipped_simps fun_upd_apply)
qed

lemma skipped_none: "head_at s i = None \<Longrightarrow> skipped c (v(i := n)) s = skipped c v s"
proof -
  assume "head_at s i = None"
  then have "passed s (v(i := n)) t = passed s v t" for t by (intro passed_cong) auto
  then show ?thesis by (simp add: skipped_def)
qed

subsection \<open>Nothing due\<close>

text \<open>For \<open>n\<close> ticks no first timer is due.\<close>

definition quiet :: "nat \<Rightarrow> timer_sys \<Rightarrow> bool" where
  "quiet n s \<longleftrightarrow> (\<forall>i < 16. \<forall>t. head_at s i = Some t \<longrightarrow> n \<le> unat (rounds s t) + i)"

lemma quietD: "quiet n s \<Longrightarrow> i < 16 \<Longrightarrow> head_at s i = Some t \<Longrightarrow> n \<le> unat (rounds s t) + i"
  by (simp add: quiet_def)

lemma head_mod16:
  assumes "wheel_inv s {}" "head_at s i = Some t"
  shows "unat (rounds s t) mod 16 = 0"
proof -
  have m: "(list_current s + i) mod 16 < 16" by (rule mod_less_divisor) simp
  show ?thesis using wheel_invD(3)[OF assms(1) wheel_head(1)[OF m]] head_list[OF assms(2)] by (auto simp: delta_ok_def)
qed

lemma unat_drop:
  assumes "16 * v \<le> unat (r :: u32)"
  shows "unat (r - of_nat (16 * v)) = unat r - 16 * v"
proof -
  have "unat r < 4294967296" using unsigned_less[of r] by simp
  then have "unat (of_nat (16 * v) :: u32) = 16 * v"
    using assms by (simp add: unat_of_nat del: of_nat_mult)
  then show ?thesis using assms by (simp add: unat_sub_if' del: of_nat_mult)
qed

lemma wheel_next_mod: "c < 16 \<Longrightarrow> wheel_next c = Suc c mod 16"
  by (cases "c = 15") (simp_all add: wheel_next_def)

lemma tick_skipped:
  assumes W: "wheel_inv s {}" and q: "quiet n s" and m: "m < n"
  shows "wheel_tick (skipped ((list_current s + m) mod 16) (visits m) s) = skipped ((list_current s + Suc m) mod 16) (visits (Suc m)) s"
proof -
  define i where "i = m mod 16"
  have i: "i < 16" unfolding i_def by (rule mod_less_divisor) simp
  define c where "c = (list_current s + m) mod 16"
  have c: "c < 16" unfolding c_def by (rule mod_less_divisor) simp
  have ci: "(list_current s + i) mod 16 = c" unfolding c_def i_def by (rule mod_add_right_eq)
  have nc: "wheel_next c = (list_current s + Suc m) mod 16"
    unfolding wheel_next_mod[OF c] unfolding c_def by (simp only: mod_Suc_eq add_Suc_right)
  have v: "visits (Suc m) j = (if j = i then visits m j + 1 else visits m j)" if "j < 16" for j
    using visits_Suc[OF that, of m] i_def by auto
  have vv: "skipped d (visits (Suc m)) s = skipped d ((visits m)(i := visits m i + 1)) s" for d
  proof -
    have "passed s (visits (Suc m)) t = passed s ((visits m)(i := visits m i + 1)) t" for t
      by (rule passed_cong) (simp add: v)
    then show ?thesis by (simp add: skipped_def)
  qed
  let ?s = "skipped c (visits m) s"
  show ?thesis
    unfolding c_def[symmetric] nc[symmetric]
  proof (cases "active_lists s (Wheel c)")
    case Nil
    then have "head_at s i = None" by (simp add: head_at_def ci)
    then have "skipped d (visits (Suc m)) s = skipped d (visits m) s" for d unfolding vv by (rule skipped_none)
    moreover have "wheel_tick ?s = ?s\<lparr>list_current := wheel_next c\<rparr>" using Nil by (simp add: wheel_tick_def)
    ultimately show "wheel_tick ?s = skipped (wheel_next c) (visits (Suc m)) s" by (simp add: skipped_def)
  next
    case (Cons t l)
    then have t: "head_at s i = Some t" by (simp add: head_at_def ci)
    note r16 = head_mod16[OF W t]
    have vd: "16 * visits m i + i = m" by (rule visits_due) (simp add: i_def)
    have "m < unat (rounds s t) + i" using quietD[OF q i t] m by simp
    then have lt: "16 * visits m i < unat (rounds s t)" using vd by linarith
    have r: "unat (rounds ?s t) = unat (rounds s t) - 16 * visits m i"
      using unat_drop[of "visits m i" "rounds s t"] lt passed_head[OF W i t, of "visits m"] by simp
    have "16 \<le> unat (rounds ?s t)"
    proof -
      obtain k where k: "unat (rounds s t) = 16 * k" using r16 by (auto simp: mod_eq_0_iff_dvd)
      then show ?thesis using r lt by simp
    qed
    then have le: "OS_TIMER_LIST_ENTRIES \<le> rounds ?s t" by (simp add: OS_TIMER_LIST_ENTRIES_def word_le_nat_alt del: skipped_simps(3))
    have "wheel_tick ?s = (set_round t (rounds ?s t - OS_TIMER_LIST_ENTRIES) ?s)\<lparr>list_current := wheel_next c\<rparr>"
      using Cons le by (simp add: wheel_tick_def del: skipped_simps(3))
    also have "\<dots> = skipped (wheel_next c) ((visits m)(i := visits m i + 1)) s"
      using skipped_visit[OF W i t, where c = c and v = "visits m" and k = 1 and c' = "wheel_next c"] by (simp add: OS_TIMER_LIST_ENTRIES_def del: skipped_simps)
    finally show "wheel_tick ?s = skipped (wheel_next c) (visits (Suc m)) s" by (simp add: vv)
  qed
qed

lemma ticks_skipped:
  assumes W: "wheel_inv s {}" and q: "quiet n s" and m: "m \<le> n"
  shows "(wheel_tick ^^ m) s = skipped ((list_current s + m) mod 16) (visits m) s"
  using m
proof (induction m)
  case 0
  have "passed s (visits 0) t = 0" for t by (simp add: passed_def)
  then have "skipped (list_current s) (visits 0) s = s"
    using put_rounds_same[of s] by (simp add: skipped_def del: visits_0)
  then show ?case using wheel_invD(1)[OF W] by (simp del: visits_0)
next
  case (Suc m)
  then show ?case using tick_skipped[OF W q, of m] by simp
qed

subsection \<open>Accounting for a sleep at once\<close>

lemma unat_skip_rounds:
  assumes i: "i < 16" "i < n" and n: "n < 2 ^ 32" and r: "unat r mod 16 = 0" "n \<le> unat r + i"
  shows "skip_rounds (of_nat n) (of_nat i) r = r - of_nat (16 * visits n i)"
proof -
  define N where "N = n - 1"
  have N: "n = Suc N" using i(2) by (simp add: N_def)
  have un: "unat (of_nat n - 1 :: u32) = N" using n N by (simp add: unat_of_nat)
  have ui: "unat (of_nat i :: u32) = i" using i(1) by (simp add: unat_of_nat)
  obtain k where k: "unat r = 16 * k" using r(1) by (auto simp: mod_eq_0_iff_dvd)
  define q m where "q = N div 16" and "m = N mod 16"
  have qm: "N = 16 * q + m" "m < 16" by (simp_all add: q_def m_def)
  have R: "unat (OS_TIMER_ROUND (of_nat n - 1)) = 16 * q" by (simp add: unat_timer_round un q_def)
  have M: "unat (OS_TIMER_MOD (of_nat n - 1)) = m" by (simp add: unat_timer_mod un m_def)
  have v: "visits n i = q + (if i \<le> m then 1 else 0)" using visits_split(2)[OF i(1), of N] by (simp add: N q_def m_def)
  have le: "16 * q + m + 1 \<le> 16 * k + i" using r(2) k qm(1) N by simp
  then have "16 * q < 16 * (k + 1)" using i(1) by simp
  then have "16 * q \<le> unat r" using k by simp
  then have 1: "OS_TIMER_ROUND (of_nat n - 1) \<le> r" by (simp add: word_le_nat_alt R)
  have Rq: "OS_TIMER_ROUND (of_nat n - 1) = of_nat (16 * q)" by (simp only: R[symmetric] of_nat_unat ucast_id)
  have d: "unat (r - of_nat (16 * q)) = unat r - 16 * q" by (rule unat_drop) fact
  have 2: "OS_TIMER_LIST_ENTRIES \<le> r - of_nat (16 * q)" if "i \<le> m"
  proof -
    have "16 * q < 16 * k" using le that by simp
    then have "16 * q + 16 \<le> unat r" using k by simp
    then have "16 \<le> unat (r - of_nat (16 * q))" using d by linarith
    then show ?thesis by (simp add: OS_TIMER_LIST_ENTRIES_def word_le_nat_alt del: of_nat_mult)
  qed
  have im: "of_nat i \<le> OS_TIMER_MOD (of_nat n - 1) \<longleftrightarrow> i \<le> m" by (simp add: word_le_nat_alt ui M)
  show ?thesis
    using 1 2 v im unfolding skip_rounds_def Let_def Rq
    by (cases "i \<le> m") (simp_all add: OS_TIMER_LIST_ENTRIES_def algebra_simps)
qed

lemma update_loop_skipped:
  assumes W: "wheel_inv s {}" and q: "quiet n s" and n: "n < 2 ^ 32"
  shows "j + i = 16 \<Longrightarrow> update_active_loop j ((list_current s + i) mod 16) (of_nat i) (of_nat n)
      (skipped (list_current s) (\<lambda>x. if x < i then visits n x else 0) s) = skipped (list_current s) (visits n) s"
proof (induction j arbitrary: i)
  case 0
  have "passed s (\<lambda>x. if x < i then visits n x else 0) t = passed s (visits n) t" for t
    by (rule passed_cong) (use 0 in simp)
  then show ?case by (simp add: skipped_def)
next
  case (Suc j)
  define c where "c = (list_current s + i) mod 16"
  have c: "c < 16" unfolding c_def by (rule mod_less_divisor) simp
  have i: "i < 16" using Suc.prems by simp
  have lt: "(of_nat i :: u32) < of_nat n \<longleftrightarrow> i < n"
    using i n by (simp add: word_less_nat_alt unat_of_nat)
  have nx: "wheel_next c = (list_current s + Suc i) mod 16"
    unfolding wheel_next_mod[OF c] unfolding c_def by (simp only: mod_Suc_eq add_Suc_right)
  let ?v = "\<lambda>i x. if x < i then visits n x else 0"
  show ?case
  proof (cases "i < n")
    case False
    have "passed s (?v i) t = passed s (visits n) t" for t
      by (rule passed_cong) (use False visits_none[of n] in auto)
    then have "skipped (list_current s) (?v i) s = skipped (list_current s) (visits n) s" by (simp add: skipped_def)
    then show ?thesis using False lt by simp
  next
    case True
    let ?s = "skipped (list_current s) (?v i) s"
    have step: "(case active_lists ?s (Wheel c) of [] \<Rightarrow> ?s
           | t # _ \<Rightarrow> set_round t (skip_rounds (of_nat n) (of_nat i) (rounds ?s t)) ?s) = skipped (list_current s) (?v (Suc i)) s"
    proof (cases "active_lists s (Wheel c)")
      case Nil
      then have h: "head_at s i = None" by (simp add: head_at_def c_def)
      have "passed s (?v (Suc i)) t = passed s (?v i) t" for t
        by (rule passed_cong) (use h in \<open>auto simp: less_Suc_eq\<close>)
      then show ?thesis using Nil by (simp add: skipped_def)
    next
      case (Cons t l)
      then have t: "head_at s i = Some t" by (simp add: head_at_def c_def)
      have r: "rounds ?s t = rounds s t" using passed_head[OF W i t, of "?v i"] by simp
      have "skip_rounds (of_nat n) (of_nat i) (rounds s t) = rounds s t - of_nat (16 * visits n i)"
        by (rule unat_skip_rounds[OF i True n head_mod16[OF W t] quietD[OF q i t]])
      then have "set_round t (skip_rounds (of_nat n) (of_nat i) (rounds ?s t)) ?s =
          (set_round t (rounds ?s t - of_nat (16 * visits n i)) ?s)\<lparr>list_current := list_current s\<rparr>"
        unfolding r by simp
      also have "\<dots> = skipped (list_current s) ((?v i)(i := ?v i i + visits n i)) s"
        by (rule skipped_visit[OF W i t])
      also have "(?v i)(i := ?v i i + visits n i) = ?v (Suc i)" by (auto simp: less_Suc_eq)
      finally show ?thesis using Cons by simp
    qed
    have "(of_nat (Suc i) :: u32) = of_nat i + 1" by simp
    note IH = Suc.IH[of "Suc i", unfolded this]
    show ?thesis
      using IH Suc.prems True lt step nx unfolding c_def[symmetric] by (simp del: skipped_simps)
  qed
qed

lemma update_active_skipped:
  assumes W: "wheel_inv s {}" and q: "quiet (unat n) s"
  shows "k_timer_update_active_list n s = skipped ((list_current s + unat n) mod 16) (visits (unat n)) s"
proof (cases "n = 0")
  case True
  then show ?thesis using ticks_skipped[OF W q, of 0] by (simp add: k_timer_update_active_list_def)
next
  case False
  have n: "unat n < 2 ^ 32" using unsigned_less[of n] by simp
  have c: "list_current s < 16" using wheel_invD(1)[OF W] .
  have "passed s (\<lambda>x. if x < 0 then visits (unat n) x else 0) t = 0" for t by (simp add: passed_def)
  then have 0: "skipped (list_current s) (\<lambda>x. if x < 0 then visits (unat n) x else 0) s = s"
    using put_rounds_same[of s] by (simp add: skipped_def)
  have "update_active_loop 16 (list_current s) 0 n s = skipped (list_current s) (visits (unat n)) s"
    using update_loop_skipped[OF W q n, of 16 0] c unfolding 0 by simp
  moreover have "unat (OS_TIMER_MOD (of_nat (list_current s) + n)) = (list_current s + unat n) mod 16"
  proof -
    have "unat (of_nat (list_current s) + n) mod 16 = (unat (of_nat (list_current s) :: u32) + unat n) mod 4294967296 mod 16"
      by (simp add: unat_word_ariths)
    also have "\<dots> = (unat (of_nat (list_current s) :: u32) + unat n) mod 16" by (rule mod_mod_cancel) simp
    finally show ?thesis using c by (simp add: unat_timer_mod unat_of_nat)
  qed
  ultimately show ?thesis using False by (simp add: k_timer_update_active_list_def word_gt_0 skipped_def)
qed

subsection \<open>How long nothing is due\<close>

lemma next_remain_bound:
  assumes W: "wheel_inv s {}"
  shows "j + i = 16 \<Longrightarrow> 16 \<le> mn \<Longrightarrow> x \<le> next_remain_loop j ((list_current s + i) mod 16) (of_nat i) mn s \<Longrightarrow>
    x \<le> mn \<and> (\<forall>i'. i \<le> i' \<and> i' < 16 \<longrightarrow> (\<forall>t. head_at s i' = Some t \<longrightarrow> unat x \<le> unat (rounds s t) + i'))"
proof (induction j arbitrary: i mn)
  case 0
  then show ?case by simp
next
  case (Suc j)
  define c where "c = (list_current s + i) mod 16"
  have c: "c < 16" unfolding c_def by (rule mod_less_divisor) simp
  have i: "i < 16" using Suc.prems by simp
  have ui: "unat (of_nat i :: u32) = i" using i by (simp add: unat_of_nat)
  have nx: "wheel_next c = (list_current s + Suc i) mod 16"
    unfolding wheel_next_mod[OF c] unfolding c_def by (simp only: mod_Suc_eq add_Suc_right)
  have si: "(of_nat (Suc i) :: u32) = of_nat i + 1" by simp
  note IH = Suc.IH[of "Suc i", unfolded si, folded nx]
  have split: "i \<le> i' \<longleftrightarrow> i' = i \<or> Suc i \<le> i'" for i' by auto
  show ?case
  proof (cases "active_lists s (Wheel c)")
    case Nil
    then have "head_at s i = None" by (simp add: head_at_def c_def)
    then show ?thesis
      using IH[OF _ Suc.prems(2)] Suc.prems(1,3) Nil unfolding c_def[symmetric] split by auto
  next
    case (Cons t l)
    then have t: "head_at s i = Some t" by (simp add: head_at_def c_def)
    show ?thesis
    proof (cases "rounds s t = 0")
      case True
      then have x: "x \<le> of_nat i" using Suc.prems(3) Cons unfolding c_def[symmetric] by simp
      then have "unat x \<le> i" by (simp add: word_le_nat_alt ui)
      moreover have "of_nat i \<le> mn" using Suc.prems(2) i by (simp add: word_le_nat_alt ui)
      ultimately show ?thesis using x by auto
    next
      case False
      obtain k where k: "unat (rounds s t) = 16 * k" using head_mod16[OF W t] by (auto simp: mod_eq_0_iff_dvd)
      moreover have "unat (rounds s t) < 4294967296" using unsigned_less[of "rounds s t"] by simp
      moreover have "k \<noteq> 0" using False k by (simp add: unat_eq_0[symmetric] del: unat_eq_0)
      ultimately have b: "16 \<le> unat (rounds s t)" "unat (rounds s t) + i < 4294967296" using i by auto
      have u: "unat (rounds s t + of_nat i) = unat (rounds s t) + i" using b(2) ui by (simp add: unat_word_ariths)
      define mn' where "mn' = (if rounds s t + of_nat i < mn then rounds s t + of_nat i else mn)"
      have m16: "16 \<le> mn'" using Suc.prems(2) b(1) u by (simp add: mn'_def word_le_nat_alt)
      have le: "mn' \<le> mn" "mn' \<le> rounds s t + of_nat i" by (auto simp: mn'_def)
      have "x \<le> next_remain_loop j (wheel_next c) (of_nat i + 1) mn' s"
        using Suc.prems(3) Cons False unfolding c_def[symmetric] mn'_def by simp
      then have I: "x \<le> mn' \<and> (\<forall>i'. Suc i \<le> i' \<and> i' < 16 \<longrightarrow> (\<forall>t. head_at s i' = Some t \<longrightarrow> unat x \<le> unat (rounds s t) + i'))"
        using IH[OF _ m16] Suc.prems(1) by simp
      then have "x \<le> rounds s t + of_nat i" using le(2) order.trans by blast
      then have "unat x \<le> unat (rounds s t) + i" using u by (simp add: word_le_nat_alt)
      then show ?thesis using I le(1) t unfolding split by (auto intro: order.trans)
    qed
  qed
qed

lemma next_remain_quiet:
  assumes W: "wheel_inv s {}" and n: "n \<le> k_timer_get_next_remain_ticks s"
  shows "quiet (unat n) s"
  unfolding quiet_def
proof (intro allI impI)
  fix i t assume "i < 16" "head_at s i = Some t"
  moreover have "(16 :: u32) \<le> 0xFFFFFFFF" by simp
  ultimately show "unat n \<le> unat (rounds s t) + i"
    using next_remain_bound[OF W, of 16 0 "0xFFFFFFFF" n] n wheel_invD(1)[OF W] by (simp add: k_timer_get_next_remain_ticks_def)
qed

subsection \<open>Ticks without calls\<close>

text \<open>A timer is at least as late as the first one of its list.\<close>

lemma quiet_left:
  assumes ok: "wheel_ok s" and q: "quiet n s" and t: "timer_left s t = Some k"
  shows "n < k"
proof -
  note W = wheel_okD(1)[OF ok]
  have c: "list_current s < 16" using wheel_invD(1)[OF W] .
  have "in_wheel s t" using t timer_left_None[of s t] by auto
  then obtain h where h: "h \<in> set timer_heads" "h \<noteq> Restart" "t \<in> set (active_lists s h)" "timer_left s t = Some (left_in s h t)"
    using in_wheel_home[OF W] by metis
  then obtain j where j: "h = Wheel j" "j < 16" using wheel_okD(2)[OF ok] by (auto simp: set_timer_heads)
  define i where "i = (j + 16 - list_current s) mod 16"
  have i: "i < 16" unfolding i_def by (rule mod_less_divisor) simp
  have "(list_current s + (j + 16 - list_current s)) mod 16 = j" using c j(2) by simp
  then have ij: "(list_current s + i) mod 16 = j" unfolding i_def by (simp only: mod_add_right_eq)
  obtain a l where l: "active_lists s (Wheel j) = a # l" using h(3) j(1) by (cases "active_lists s (Wheel j)") auto
  have "head_at s i = Some a" by (simp add: head_at_def ij l)
  then have "n \<le> unat (rounds s a) + i" using quietD[OF q i] by blast
  moreover have "unat (rounds s a) \<le> due (rounds s) (a # l) t" by simp
  ultimately show ?thesis using h(4) t by (simp add: j(1) l left_in_def i_def)
qed

lemma quiet_tick:
  assumes ok: "wheel_ok s" and late: "\<And>t k. timer_left s t = Some k \<Longrightarrow> 1 < k"
  shows "wheel_ok (wheel_tick s)" "timer_left (wheel_tick s) t = map_option (\<lambda>k. k - 1) (timer_left s t)"
proof -
  note W = wheel_okD(1)[OF ok]
  have c: "list_current s < 16" using wheel_invD(1)[OF W] .
  have nn: "\<not> need_handle (wheel_tick s)"
  proof (cases "active_lists s (Wheel (list_current s))")
    case (Cons a l)
    have a: "a \<in> set (active_lists s (Wheel (list_current s)))" using Cons by simp
    have "timer_left s a = Some (left_in s (Wheel (list_current s)) a)" by (rule timer_leftI[OF W wheel_head(1)[OF c] a])
    then have "1 < left_in s (Wheel (list_current s)) a" by (rule late)
    then have "unat (rounds s a) \<noteq> 0" using Cons by (auto simp: left_in_def)
    moreover have "unat (rounds s a) mod 16 = 0" using wheel_invD(3)[OF W wheel_head(1)[OF c]] a by (auto simp: delta_ok_def)
    ultimately have "16 \<le> unat (rounds s a)" by (auto simp: mod_eq_0_iff_dvd dest!: dvd_imp_le)
    then have "OS_TIMER_LIST_ENTRIES \<le> rounds s a" by (simp add: OS_TIMER_LIST_ENTRIES_def word_le_nat_alt)
    then show ?thesis using Cons wheel_okD(3)[OF ok] by (simp add: wheel_tick_def)
  qed (use wheel_okD(3)[OF ok] in \<open>simp add: wheel_tick_def\<close>)
  obtain s' ts where t: "timer_tick (bystander (\<lambda>_ _ x. x)) (s, ()) = Some (OK (s', called s (\<lambda>_ _ x. x) ts ()))" "wheel_ok s'"
      "timer_left s' = counted s"
    using timer_tick_ok[OF ok, of "\<lambda>_ _ x. x" "()"] by blast
  have s': "s' = wheel_tick s" using t(1) nn by (simp add: timer_tick_def Let_def)
  then show "wheel_ok (wheel_tick s)" using t(2) by simp
  have "counted s t = map_option (\<lambda>k. k - 1) (timer_left s t)" using late[of t] by (auto simp: counted_def split: option.split)
  then show "timer_left (wheel_tick s) t = map_option (\<lambda>k. k - 1) (timer_left s t)" using t(3) s' by simp
qed

lemma quiet_ticks:
  assumes ok: "wheel_ok s" and late: "\<And>t k. timer_left s t = Some k \<Longrightarrow> n < k" and m: "m \<le> n"
  shows "wheel_ok ((wheel_tick ^^ m) s) \<and> (\<forall>t. timer_left ((wheel_tick ^^ m) s) t = map_option (\<lambda>k. k - m) (timer_left s t))"
  using m
proof (induction m)
  case 0
  have "map_option (\<lambda>k. k - 0) x = x" for x :: "nat option" by (cases x) simp_all
  then show ?case using ok by simp
next
  case (Suc m)
  let ?s = "(wheel_tick ^^ m) s"
  have I: "wheel_ok ?s" "\<And>t. timer_left ?s t = map_option (\<lambda>k. k - m) (timer_left s t)" using Suc by simp_all
  have "1 < k" if k: "timer_left ?s t = Some k" for t k
  proof -
    obtain k' where "timer_left s t = Some k'" "k = k' - m" using k I(2)[of t] by auto
    then show ?thesis using late[of t k'] Suc.prems by simp
  qed
  from quiet_tick[OF I(1) this] show ?case
    using I(2) by (simp add: option.map_comp comp_def)
qed

text \<open>
  C16. Sleeping is ticking: for no more ticks than \<^verbatim>\<open>k_timer_get_next_remain_ticks\<close> reports, no timer
  is due, and \<^verbatim>\<open>k_timer_update_active_list\<close>, which accounts for the sleep at once, leaves exactly
  the state that as many ticks of the wheel leave one by one: every countdown is shorter by the sleep.
\<close>

theorem tickless_update_is_ticks:
  assumes "wheel_ok s" "n \<le> k_timer_get_next_remain_ticks s"
  shows "k_timer_update_active_list n s = (wheel_tick ^^ unat n) s \<and> wheel_ok (k_timer_update_active_list n s) \<and>
    (\<forall>t. timer_left (k_timer_update_active_list n s) t = map_option (\<lambda>k. k - unat n) (timer_left s t)) \<and>
    (\<forall>t k. timer_left s t = Some k \<longrightarrow> unat n < k)"
proof -
  note W = wheel_okD(1)[OF assms(1)]
  have q: "quiet (unat n) s" by (rule next_remain_quiet[OF W assms(2)])
  have e: "k_timer_update_active_list n s = (wheel_tick ^^ unat n) s"
    unfolding update_active_skipped[OF W q] using ticks_skipped[OF W q, of "unat n"] by simp
  show ?thesis
    unfolding e using quiet_ticks[OF assms(1), of "unat n" "unat n"] quiet_left[OF assms(1) q] by blast
qed

text \<open>A timer of 40 ticks alone in the wheel: 39 ticks can be slept through, and then one is left.\<close>

lemma tickless_update_is_ticks_witness:
  "\<exists>s. os_timer_start 6 sample_timers = OK (s, OS_EOK) \<and> timer_left s 6 = Some 40 \<and> k_timer_get_next_remain_ticks s = 39 \<and>
    k_timer_update_active_list 39 s = (wheel_tick ^^ 39) s \<and> timer_left (k_timer_update_active_list 39 s) 6 = Some 1"
proof -
  obtain s where s: "os_timer_start 6 sample_timers = OK (s, OS_EOK)" "wheel_ok s" "timer_left s = (timer_left sample_timers)(6 \<mapsto> 40)"
    using timer_start_ok[OF sample_timers_ok(1,5)] sample_timers_ok(6) by auto
  have r: "k_timer_get_next_remain_ticks s = 39"
  proof -
    note init = sample_timers_def os_timer_init_def k_timer_do_init_def k_timer_init_def Let_def timer_flag_defs has_flag_def
    have i: "active_lists sample_timers = (\<lambda>_. [])" "list_current sample_timers = 0"
        "\<not> has_flag (tm_flag (timers sample_timers 6)) OS_TIMER_FLAG_ACTIVATED"
      by (simp_all add: init fun_eq_iff split: timer_head.split)
    have w: "k_timer_activate 6 sample_timers = OK s"
      using s(1) sample_timers_ok(5) i(3) by (simp add: os_timer_start_def timer_inited_def os_assert_def bind_res_eq_OK k_timer_deactivate_def)
    have h: "timer_home sample_timers 6 = None" by (simp add: timer_home_def i find_None_iff)
    have d: "OS_TIMER_MOD 39 = 7" "OS_TIMER_MOD 7 = 7" "OS_TIMER_ROUND 39 = 32" by (simp_all add: OS_TIMER_MOD_def OS_TIMER_ROUND_def)
    have a: "active_lists s = (\<lambda>_. [])(Wheel 7 := [6])" "rounds s 6 = 32" "list_current s = 0"
      using w sample_timers_ok(6)
      by (auto simp: k_timer_activate_def os_assert_def h i d Let_def k_timer_add_to_sort_list_def put_rounds_def)
    have n: "(16 :: nat) = Suc (Suc (Suc (Suc (Suc (Suc (Suc (Suc (Suc (Suc (Suc (Suc (Suc (Suc (Suc (Suc 0)))))))))))))))" by simp
    show ?thesis unfolding k_timer_get_next_remain_ticks_def n by (simp add: a wheel_next_def)
  qed
  have l: "timer_left s 6 = Some 40" using s(3) by simp
  have n: "(39 :: u32) \<le> k_timer_get_next_remain_ticks s" using r by simp
  have u: "unat (39 :: u32) = 39" by simp
  note t = tickless_update_is_ticks[OF s(2) n, unfolded u]
  have "timer_left (k_timer_update_active_list 39 s) 6 = map_option (\<lambda>k. k - 39) (Some 40)"
    using spec[OF conjunct1[OF conjunct2[OF conjunct2[OF t]]], of 6] unfolding l .
  then have "timer_left (k_timer_update_active_list 39 s) 6 = Some 1" by simp
  then show ?thesis using s(1) l r t by blast
qed

end
