(* ===== verification/Os_List.thy ===== *)
theory Os_List
  imports Linked
begin

text \<open>
  \<^verbatim>\<open>oneos/kernel/include/os_list.h\<close>: circular doubly linked lists with a head, by the links in
  memory. The kernel's queues are families of such lists; the operations on the links do to the lists
  they spell out what the model of the kernel does to a family of lists.
\<close>

type_synonym node = nat

record os_list_nodes =
  node_next :: "node \<Rightarrow> node"
  node_prev :: "node \<Rightarrow> node"

definition set_next :: "node \<Rightarrow> node \<Rightarrow> os_list_nodes \<Rightarrow> os_list_nodes" where
  "set_next p q m = m\<lparr>node_next := (node_next m)(p := q)\<rparr>"

definition set_prev :: "node \<Rightarrow> node \<Rightarrow> os_list_nodes \<Rightarrow> os_list_nodes" where
  "set_prev p q m = m\<lparr>node_prev := (node_prev m)(p := q)\<rparr>"

lemma set_node_simps [simp]:
  "node_next (set_next p q m) = (node_next m)(p := q)" "node_prev (set_next p q m) = node_prev m"
  "node_prev (set_prev p q m) = (node_prev m)(p := q)" "node_next (set_prev p q m) = node_next m"
  by (simp_all add: set_next_def set_prev_def)

subsection \<open>Operations\<close>

text \<open>The assignments of each function in their order; every right-hand side reads the memory as it then is.\<close>

definition os_list_init :: "node \<Rightarrow> os_list_nodes \<Rightarrow> os_list_nodes" where
  "os_list_init p m = set_prev p p (set_next p p m)"

definition os_list_add :: "node \<Rightarrow> node \<Rightarrow> os_list_nodes \<Rightarrow> os_list_nodes" where
  "os_list_add hn e m =
     (let m1 = set_prev (node_next m hn) e m;
          m2 = set_next e (node_next m1 hn) m1;
          m3 = set_next hn e m2
      in set_prev e hn m3)"

definition os_list_add_tail :: "node \<Rightarrow> node \<Rightarrow> os_list_nodes \<Rightarrow> os_list_nodes" where
  "os_list_add_tail hn e m =
     (let m1 = set_next (node_prev m hn) e m;
          m2 = set_prev e (node_prev m1 hn) m1;
          m3 = set_prev hn e m2
      in set_next e hn m3)"

definition list_del_between :: "node \<Rightarrow> node \<Rightarrow> os_list_nodes \<Rightarrow> os_list_nodes" where
  "list_del_between p n m = set_next p n (set_prev n p m)"

definition os_list_del :: "node \<Rightarrow> os_list_nodes \<Rightarrow> os_list_nodes" where
  "os_list_del e m =
     (let m1 = set_prev (node_next m e) (node_prev m e) m;
          m2 = set_next (node_prev m1 e) (node_next m1 e) m1
      in set_prev e e (set_next e e m2))"

definition list_del_entry :: "node \<Rightarrow> os_list_nodes \<Rightarrow> os_list_nodes" where
  "list_del_entry e m = list_del_between (node_prev m e) (node_next m e) m"

definition os_list_del_init :: "node \<Rightarrow> os_list_nodes \<Rightarrow> os_list_nodes" where
  "os_list_del_init e m = os_list_init e (list_del_entry e m)"

definition os_list_move :: "node \<Rightarrow> node \<Rightarrow> os_list_nodes \<Rightarrow> os_list_nodes" where
  "os_list_move hn e m = os_list_add hn e (list_del_entry e m)"

definition os_list_move_tail :: "node \<Rightarrow> node \<Rightarrow> os_list_nodes \<Rightarrow> os_list_nodes" where
  "os_list_move_tail hn e m = os_list_add_tail hn e (list_del_entry e m)"

definition os_list_empty :: "node \<Rightarrow> os_list_nodes \<Rightarrow> bool" where
  "os_list_empty hn m \<longleftrightarrow> node_next m hn = hn"

definition os_list_first :: "node \<Rightarrow> os_list_nodes \<Rightarrow> node option" where
  "os_list_first hn m = (if node_next m hn = hn then None else Some (node_next m hn))"

text \<open>The loops that follow the links until they are back at the head; \<^const>\<open>None\<close> when they never are.\<close>

partial_function (option) list_len_loop :: "node \<Rightarrow> node \<Rightarrow> u32 \<Rightarrow> os_list_nodes \<Rightarrow> u32 option" where
  "list_len_loop hn p len m =
     (if node_next m p \<noteq> hn then list_len_loop hn (node_next m p) (len + 1) m else Some len)"

definition os_list_len :: "node \<Rightarrow> os_list_nodes \<Rightarrow> u32 option" where
  "os_list_len hn m = list_len_loop hn hn 0 m"

partial_function (option) list_tail_loop :: "node \<Rightarrow> node \<Rightarrow> os_list_nodes \<Rightarrow> node option" where
  "list_tail_loop hn p m = (if node_next m p \<noteq> hn then list_tail_loop hn (node_next m p) m else Some p)"

definition os_list_tail :: "node \<Rightarrow> os_list_nodes \<Rightarrow> node option option" where
  "os_list_tail hn m =
     (if node_next m hn = hn then Some None else map_option Some (list_tail_loop hn hn m))"

definition list_splice :: "node \<Rightarrow> node \<Rightarrow> os_list_nodes \<Rightarrow> os_list_nodes" where
  "list_splice hn l m =
     (let first = node_next m l; last = node_prev m l; at = node_next m hn;
          m1 = set_next hn first (set_prev first hn m)
      in set_prev at last (set_next last at m1))"

definition os_list_splice :: "node \<Rightarrow> node \<Rightarrow> os_list_nodes \<Rightarrow> os_list_nodes" where
  "os_list_splice hn l m = (if \<not> os_list_empty l m then list_splice hn l m else m)"

definition os_list_splice_init :: "node \<Rightarrow> node \<Rightarrow> os_list_nodes \<Rightarrow> os_list_nodes" where
  "os_list_splice_init hn l m = (if \<not> os_list_empty l m then os_list_init l (list_splice hn l m) else m)"

subsection \<open>The lists that the links spell out\<close>

abbreviation ring :: "os_list_nodes \<Rightarrow> node list \<Rightarrow> bool" where
  "ring m \<equiv> ringed (node_next m) (node_prev m)"

text \<open>
  \<open>L h\<close> is the list with the head node \<open>hn h\<close>. Its nodes are among \<open>N\<close>; a node of \<open>N\<close> that is in
  no list links to itself, as \<^const>\<open>os_list_init\<close> and \<^const>\<open>os_list_del\<close> leave it.
\<close>

definition spelled :: "os_list_nodes \<Rightarrow> ('h \<Rightarrow> node) \<Rightarrow> node set \<Rightarrow> ('h \<Rightarrow> node list) \<Rightarrow> bool" where
  "spelled m hn N L \<longleftrightarrow> inj hn \<and> range hn \<inter> N = {} \<and> lists_wf L \<and> (\<forall>h. set (L h) \<subseteq> N) \<and>
     (\<forall>h. ring m (hn h # L h)) \<and> (\<forall>e \<in> N. unlinked L e \<longrightarrow> ring m [e])"

lemma spelledD:
  assumes "spelled m hn N L"
  shows "inj hn" "hn h \<notin> N" "lists_wf L" "e \<in> set (L h) \<Longrightarrow> e \<in> N" "ring m (hn h # L h)"
    "e \<in> N \<Longrightarrow> unlinked L e \<Longrightarrow> ring m [e]"
  using assms by (auto simp: spelled_def)

text \<open>Changing one list: the links of the nodes outside it stay.\<close>

lemma spelled_change:
  assumes S: "spelled m hn N L" and t: "t \<in> N" "\<And>h'. h' \<noteq> h \<Longrightarrow> t \<notin> set (L h')"
    and ring: "ring m' (hn h # l)" and l: "set l \<subseteq> insert t (set (L h))" "set (L h) \<subseteq> insert t (set l)"
    and off: "t \<notin> set l \<Longrightarrow> ring m' [t]"
    and same: "\<And>x. x \<noteq> hn h \<Longrightarrow> x \<noteq> t \<Longrightarrow> x \<notin> set (L h) \<Longrightarrow> node_next m' x = node_next m x \<and> node_prev m' x = node_prev m x"
  shows "spelled m' hn N (L(h := l))"
proof -
  note D = spelledD[OF S]
  have other: "ring m' (hn h' # L h')" if "h' \<noteq> h" for h'
  proof (rule ringed_cong[OF same D(5)])
    fix x assume x: "x \<in> set (hn h' # L h')"
    have "hn h' \<noteq> hn h" using injD[OF D(1)] that by blast
    then show "x \<noteq> hn h" "x \<noteq> t" "x \<notin> set (L h)"
      using x D(2,4) t that lists_wfD[OF D(3), of x h' h] by auto
  qed
  have loose: "ring m' [e]" if e: "e \<in> N" "unlinked (L(h := l)) e" for e
  proof (cases "e = t")
    case True
    then have "t \<notin> set l" using e(2) by (auto simp: unlinked_def dest: spec[of _ h])
    then show ?thesis using off True by simp
  next
    case False
    have u: "unlinked L e"
      unfolding unlinked_def
    proof
      fix h'
      have "e \<notin> set ((L(h := l)) h')" using e(2) unfolding unlinked_def by blast
      then show "e \<notin> set (L h')" using l(2) False by (auto split: if_splits)
    qed
    then have "e \<notin> set (L h)" by (simp add: unlinked_def)
    then show ?thesis using D(6)[OF e(1) u] same[of e] False D(2)[of h] e(1) by auto
  qed
  have "lists_wf (L(h := l))"
    using D(3) ringed_distinct[OF ring] l(1) t(2) unfolding lists_wf_def by (fastforce split: if_splits)
  moreover have "set ((L(h := l)) h') \<subseteq> N" for h'
  proof -
    have "set (L h') \<subseteq> N" "set (L h) \<subseteq> N" using S by (simp_all add: spelled_def)
    then show ?thesis using l(1) t(1) by auto
  qed
  moreover have "ring m' (hn h' # (L(h := l)) h')" for h' using ring other by simp
  ultimately show ?thesis using D(1,2) loose by (auto simp: spelled_def)
qed

subsection \<open>Linking and unlinking\<close>

lemma os_list_add_tail_links:
  assumes "node_prev m p \<noteq> e" "p \<noteq> e"
  shows "node_next (os_list_add_tail p e m) = (node_next m)(e := p, node_prev m p := e)"
    "node_prev (os_list_add_tail p e m) = (node_prev m)(e := node_prev m p, p := e)"
  using assms by (auto simp: os_list_add_tail_def Let_def fun_eq_iff)

text \<open>Linking a node in front of the node \<open>p\<close> of a ring, which is the head or an element.\<close>

lemma add_before_ring:
  assumes R: "ring m (p # xs)" and e: "e \<notin> set (p # xs)"
  shows "ring (os_list_add_tail p e m) (p # xs @ [e])"
    "x \<notin> set (p # xs) \<Longrightarrow> x \<noteq> e \<Longrightarrow> node_next (os_list_add_tail p e m) x = node_next m x \<and>
       node_prev (os_list_add_tail p e m) x = node_prev m x"
proof -
  have pp: "node_prev m p \<in> set (p # xs)" using ringed_ends(2)[OF R] by simp
  then have n: "node_prev m p \<noteq> e" "p \<noteq> e" using e by auto
  note l = os_list_add_tail_links[OF n]
  show "ring (os_list_add_tail p e m) (p # xs @ [e])"
    using ringed_insert[OF R _ e] unfolding l by simp
  show "node_next (os_list_add_tail p e m) x = node_next m x \<and> node_prev (os_list_add_tail p e m) x = node_prev m x"
    if "x \<notin> set (p # xs)" "x \<noteq> e"
  proof -
    have "x \<noteq> p" "x \<noteq> node_prev m p" using that pp by auto
    then show ?thesis using that(2) by (simp add: l)
  qed
qed

lemma os_list_add_is_before:
  assumes "node_prev m (node_next m p) = p" "e \<noteq> p" "node_next m p \<noteq> e"
  shows "os_list_add p e m = os_list_add_tail (node_next m p) e m"
  using assms by (cases m) (auto simp: os_list_add_def os_list_add_tail_def Let_def set_next_def set_prev_def fun_upd_twist)

lemma os_list_del_links:
  assumes "ring m (e # xs)"
  shows "xs \<noteq> [] \<Longrightarrow> ring (os_list_del e m) xs" "ring (os_list_del e m) [e]"
    "x \<notin> set (e # xs) \<Longrightarrow> node_next (os_list_del e m) x = node_next m x \<and> node_prev (os_list_del e m) x = node_prev m x"
proof -
  note E = ringed_ends[OF assms]
  have ends: "node_next m e \<in> set (e # xs)" "node_prev m e \<in> set (e # xs)"
    using E(1,2) by (cases xs; simp)+
  have l: "node_next (os_list_del e m) = (node_next m)(node_prev m e := node_next m e, e := e)"
    "node_prev (os_list_del e m) = (node_prev m)(node_next m e := node_prev m e, e := e)" if "xs \<noteq> []"
  proof -
    have "node_next m e \<noteq> e" using E(3) that by simp
    then show "node_next (os_list_del e m) = (node_next m)(node_prev m e := node_next m e, e := e)"
      "node_prev (os_list_del e m) = (node_prev m)(node_next m e := node_prev m e, e := e)"
      by (simp_all add: os_list_del_def Let_def)
  qed
  show "ring (os_list_del e m) [e]" by (simp add: os_list_del_def Let_def)
  show "ring (os_list_del e m) xs" if "xs \<noteq> []"
    using ringed_outside[OF ringed_outside(1)[OF ringed_remove[OF assms that]]] ringed_distinct[OF assms]
    unfolding l[OF that]
    by (metis distinct.simps(2) fun_upd_upd ringed_outside ringed_remove[OF assms that])
  show "node_next (os_list_del e m) x = node_next m x \<and> node_prev (os_list_del e m) x = node_prev m x"
    if "x \<notin> set (e # xs)"
  proof (cases "xs = []")
    case True
    then show ?thesis using assms that by (simp add: os_list_del_def Let_def)
  next
    case False
    have "x \<noteq> e" "x \<noteq> node_prev m e" "x \<noteq> node_next m e" using that ends by auto
    then show ?thesis by (simp add: l[OF False])
  qed
qed

subsection \<open>The lists after an operation\<close>

lemma spelled_add_before:
  assumes S: "spelled m hn N L" and e: "e \<in> N" "unlinked L e" and l: "L h = xs @ y # ys"
  shows "spelled (os_list_add_tail y e m) hn N (L(h := xs @ e # y # ys))"
proof -
  note D = spelledD[OF S]
  have R: "ring m (y # ys @ hn h # xs)" using ringed_rotate[of _ _ "hn h # xs" "y # ys"] D(5)[of h] l by simp
  have eh: "e \<noteq> hn h" using e(1) D(2) by auto
  then have ne: "e \<notin> set (y # ys @ hn h # xs)" using e(2) l by (simp add: unlinked_def) (metis Un_iff list.set_intros set_append set_ConsD)
  note A = add_before_ring[OF R ne]
  show ?thesis
  proof (rule spelled_change[OF S e(1)])
    show "ring (os_list_add_tail y e m) (hn h # xs @ e # y # ys)"
      using ringed_rotate[of _ _ "y # ys" "hn h # xs @ [e]"] A(1) by simp
    show "e \<notin> set (L h')" for h' using e(2) by (simp add: unlinked_def)
  qed (use l A(2) in auto)
qed

lemma spelled_add_tail:
  assumes S: "spelled m hn N L" and e: "e \<in> N" "unlinked L e"
  shows "spelled (os_list_add_tail (hn h) e m) hn N (list_add_tail L h e)"
proof -
  note D = spelledD[OF S]
  have ne: "e \<notin> set (hn h # L h)" using e D(2)[of h] by (auto simp: unlinked_def)
  note A = add_before_ring[OF D(5) ne]
  show ?thesis
    unfolding list_add_tail_def
  proof (rule spelled_change[OF S e(1)])
    show "e \<notin> set (L h')" for h' using e(2) by (simp add: unlinked_def)
  qed (use A in auto)
qed

lemma spelled_add_where:
  assumes S: "spelled m hn N L" and e: "e \<in> N" "unlinked L e"
  shows "spelled (os_list_add_tail (case find P (L h) of None \<Rightarrow> hn h | Some y \<Rightarrow> y) e m) hn N (list_add_before L h P e)"
proof (cases "find P (L h)")
  case None
  then have "insert_before P e (L h) = L h @ [e]"
    by (simp add: insert_before_split find_None_iff takeWhile_eq_all_conv[THEN iffD2] dropWhile_eq_Nil_conv[THEN iffD2])
  then show ?thesis using spelled_add_tail[OF S e, of h] None by (simp add: list_add_before_def list_add_tail_def)
next
  case (Some y)
  have "\<exists>xs ys. L h = xs @ y # ys \<and> insert_before P e (L h) = xs @ e # y # ys" if "find P l = Some y" "l = L h" for l
  proof -
    have "\<exists>xs ys. l = xs @ y # ys \<and> insert_before P e l = xs @ e # y # ys" if "find P l = Some y" for l
      using that
    proof (induction l)
      case (Cons a l)
      show ?case
      proof (cases "P a")
        case True
        then show ?thesis using Cons.prems by (intro exI[of _ "[]"] exI[of _ l]) simp
      next
        case False
        then obtain xs ys where "l = xs @ y # ys" "insert_before P e l = xs @ e # y # ys" using Cons by auto
        then show ?thesis using False by (intro exI[of _ "a # xs"] exI[of _ ys]) simp
      qed
    qed simp
    then show ?thesis using that by blast
  qed
  then obtain xs ys where l: "L h = xs @ y # ys" "insert_before P e (L h) = xs @ e # y # ys" using Some by blast
  show ?thesis using spelled_add_before[OF S e l(1)] Some l(2) by (simp add: list_add_before_def)
qed

lemma spelled_add:
  assumes S: "spelled m hn N L" and e: "e \<in> N" "unlinked L e"
  shows "spelled (os_list_add (hn h) e m) hn N (L(h := e # L h))"
proof -
  note D = spelledD[OF S]
  have ne: "e \<notin> set (hn h # L h)" using e D(2)[of h] by (auto simp: unlinked_def)
  have n: "node_next m (hn h) = List.hd (L h @ [hn h])" using ringed_ends(1)[OF D(5)] .
  have p: "node_prev m (node_next m (hn h)) = hn h"
  proof (cases "L h")
    case Nil
    then show ?thesis using D(5)[of h] n by simp
  next
    case (Cons y ys)
    have "ring m ((y # ys) @ [hn h])" using ringed_rotate[of _ _ "[hn h]" "y # ys"] D(5)[of h] Cons by simp
    then show ?thesis using ringed_ends(2)[of _ _ y "ys @ [hn h]"] Cons n by simp
  qed
  have "node_next m (hn h) \<noteq> e" using ne n by (cases "L h") auto
  then have b: "os_list_add (hn h) e m = os_list_add_tail (node_next m (hn h)) e m"
    using os_list_add_is_before[OF p] ne by simp
  show ?thesis
  proof (cases "L h")
    case Nil
    then show ?thesis using spelled_add_tail[OF S e, of h] n b by (simp add: list_add_tail_def)
  next
    case (Cons y ys)
    then show ?thesis using spelled_add_before[OF S e, of h "[]" y ys] n b by simp
  qed
qed

lemma spelled_del:
  assumes S: "spelled m hn N L" and e: "e \<in> N"
  shows "spelled (os_list_del e m) hn N (list_del L e)"
proof (cases "unlinked L e")
  case True
  then have "node_next m e = e" "node_prev m e = e" using spelledD(6)[OF S e] by simp_all
  then have "os_list_del e m = m" by (cases m) (auto simp: os_list_del_def Let_def set_next_def set_prev_def)
  then show ?thesis using S list_del_unlinked[OF True] by simp
next
  case False
  note D = spelledD[OF S]
  obtain h xs ys where l: "L h = xs @ e # ys" using False by (auto simp: unlinked_def dest!: split_list)
  have d: "e \<notin> set xs" "e \<notin> set ys" using lists_wf_distinct[OF D(3), of h] l by auto
  have o': "e \<notin> set (L h')" if "h' \<noteq> h" for h' using lists_wfD[OF D(3), of e h h'] that l by auto
  have R: "ring m (e # ys @ hn h # xs)" using ringed_rotate[of _ _ "hn h # xs" "e # ys"] D(5)[of h] l by simp
  note A = os_list_del_links[OF R]
  have "list_del L e = L(h := xs @ ys)" using d o' l by (auto simp: fun_eq_iff list_del_apply)
  moreover have "spelled (os_list_del e m) hn N (L(h := xs @ ys))"
  proof (rule spelled_change[OF S e o'])
    show "ring (os_list_del e m) (hn h # xs @ ys)"
      using ringed_rotate[of _ _ ys "hn h # xs"] A(1) by simp
  qed (use l A(2,3) in auto)
  ultimately show ?thesis by simp
qed

subsection \<open>Reading a list\<close>

lemma ring_next:
  assumes "ring m (c # xs @ ys)"
  shows "node_next m (last (c # xs)) = List.hd (ys @ [c])"
proof -
  have "ring m (last (c # xs) # ys @ butlast (c # xs))"
    using ringed_rotate[of _ _ "butlast (c # xs)" "last (c # xs) # ys"] assms append_butlast_last_id[of "c # xs"]
    by (metis append.assoc append_Cons append_Nil list.distinct(1))
  from ringed_ends(1)[OF this] show ?thesis by (cases ys; cases xs) auto
qed

lemma list_len_loop_ring:
  "ring m (c # xs @ ys) \<Longrightarrow> list_len_loop c (last (c # xs)) n m = Some (n + of_nat (length ys))"
proof (induction ys arbitrary: xs n)
  case Nil
  then show ?case using ring_next[of m c xs "[]"] by (subst list_len_loop.simps) simp
next
  case (Cons y ys)
  have "y \<noteq> c" using ringed_distinct[OF Cons.prems] by auto
  then show ?case
    using ring_next[OF Cons.prems] Cons.IH[of "xs @ [y]" "n + 1"] Cons.prems
    by (subst list_len_loop.simps) (simp add: add.commute add.left_commute)
qed

lemma list_tail_loop_ring:
  "ring m (c # xs @ ys) \<Longrightarrow> list_tail_loop c (last (c # xs)) m = Some (last (c # xs @ ys))"
proof (induction ys arbitrary: xs)
  case Nil
  then show ?case using ring_next[of m c xs "[]"] by (subst list_tail_loop.simps) simp
next
  case (Cons y ys)
  have "y \<noteq> c" using ringed_distinct[OF Cons.prems] by auto
  then show ?case
    using ring_next[OF Cons.prems] Cons.IH[of "xs @ [y]"] Cons.prems by (subst list_tail_loop.simps) simp
qed

lemma spelled_read:
  assumes "spelled m hn N L"
  shows "os_list_empty (hn h) m \<longleftrightarrow> L h = []"
    "os_list_first (hn h) m = (case L h of [] \<Rightarrow> None | e # _ \<Rightarrow> Some e)"
    "os_list_len (hn h) m = Some (of_nat (length (L h)))"
    "os_list_tail (hn h) m = Some (if L h = [] then None else Some (last (L h)))"
proof -
  note R = spelledD(5)[OF assms, of h]
  show "os_list_empty (hn h) m \<longleftrightarrow> L h = []" using ringed_ends(3)[OF R] by (simp add: os_list_empty_def)
  show "os_list_first (hn h) m = (case L h of [] \<Rightarrow> None | e # _ \<Rightarrow> Some e)"
    using ringed_ends(1,3)[OF R] by (simp add: os_list_first_def split: list.split)
  show "os_list_len (hn h) m = Some (of_nat (length (L h)))"
    using list_len_loop_ring[of m "hn h" "[]" "L h" 0] R by (simp add: os_list_len_def)
  show "os_list_tail (hn h) m = Some (if L h = [] then None else Some (last (L h)))"
    using list_tail_loop_ring[of m "hn h" "[]" "L h"] ringed_ends(3)[OF R] R by (simp add: os_list_tail_def)
qed

subsection \<open>Splicing\<close>

lemma steps_append: "xs \<noteq> [] \<Longrightarrow> ys \<noteq> [] \<Longrightarrow> steps (xs @ ys) = insert (last xs, List.hd ys) (steps xs \<union> steps ys)"
  by (induction xs) (auto simp: steps_Cons)

lemma splice_ring:
  assumes H: "ring m (c # B)" and T: "ring m (d # A)" and A: "A \<noteq> []" and dj: "set (d # A) \<inter> set (c # B) = {}"
  shows "ring (os_list_splice_init c d m) (c # A @ B)" "ring (os_list_splice_init c d m) [d]"
    "x \<notin> set (c # A @ B) \<Longrightarrow> x \<noteq> d \<Longrightarrow> node_next (os_list_splice_init c d m) x = node_next m x \<and>
       node_prev (os_list_splice_init c d m) x = node_prev m x"
proof -
  let ?at = "List.hd (B @ [c])"
  have f: "node_next m d = List.hd A" "node_prev m d = last A" "node_next m c = ?at"
    using ringed_ends(1,2)[OF T] ringed_ends(1)[OF H] A by (simp_all add: hd_append)
  have ne: "\<not> os_list_empty d m" using ringed_ends(3)[OF T] A by (simp add: os_list_empty_def)
  have nx: "node_next (os_list_splice_init c d m) = (node_next m)(c := List.hd A, last A := ?at, d := d)"
    and pv: "node_prev (os_list_splice_init c d m) = (node_prev m)(List.hd A := c, ?at := last A, d := d)"
    using ne by (simp_all add: os_list_splice_init_def list_splice_def os_list_init_def Let_def f)
  have in': "List.hd A \<in> set A" "last A \<in> set A" "?at \<in> set (c # B)" using A by (auto simp: hd_append)
  show "ring (os_list_splice_init c d m) [d]" by (simp add: nx pv)
  show "node_next (os_list_splice_init c d m) x = node_next m x \<and> node_prev (os_list_splice_init c d m) x = node_prev m x"
    if "x \<notin> set (c # A @ B)" "x \<noteq> d"
    using that in' by (auto simp: nx pv)
  note dist = ringed_distinct[OF H] ringed_distinct[OF T]
  have sA: "node_next (os_list_splice_init c d m) a = b \<and> node_prev (os_list_splice_init c d m) b = a" if "(a, b) \<in> steps A" for a b
  proof -
    have "a \<in> set A" "b \<in> set A" "a \<noteq> last A" "b \<noteq> List.hd A" using steps_ends[OF _ that] dist(2) by simp_all
    moreover have "node_next m a = b \<and> node_prev m b = a" using T A that by (auto simp: ringed_def steps_Cons)
    moreover have "b \<noteq> ?at" using in' dj \<open>b \<in> set A\<close> by auto
    ultimately show ?thesis using dj dist(2) by (auto simp: nx pv)
  qed
  have sB: "node_next (os_list_splice_init c d m) a = b \<and> node_prev (os_list_splice_init c d m) b = a" if "(a, b) \<in> steps B" for a b
  proof -
    have "B \<noteq> []" using that by auto
    then have "a \<in> set B" "b \<in> set B" "b \<noteq> ?at" using steps_ends[OF _ that] dist(1) by simp_all
    moreover have "node_next m a = b \<and> node_prev m b = a" using H \<open>B \<noteq> []\<close> that by (auto simp: ringed_def steps_Cons)
    moreover have "a \<noteq> last A" "b \<noteq> List.hd A" using in' dj \<open>a \<in> set B\<close> \<open>b \<in> set B\<close> by auto
    ultimately show ?thesis using dj dist(1) by (auto simp: nx pv)
  qed
  have first: "node_next (os_list_splice_init c d m) c = List.hd A \<and> node_prev (os_list_splice_init c d m) (List.hd A) = c"
    using in' dj dist by (auto simp: nx pv)
  have mid: "node_next (os_list_splice_init c d m) (last A) = ?at \<and> node_prev (os_list_splice_init c d m) ?at = last A"
    using in' dj dist by (auto simp: nx pv)
  have "node_next (os_list_splice_init c d m) (last B) = c \<and> node_prev (os_list_splice_init c d m) c = last B" if "B \<noteq> []"
  proof -
    have "node_next m (last B) = c" "node_prev m c = last B" using H that by (auto simp: ringed_def)
    moreover have "last B \<in> set B" "?at \<in> set B" using that by auto
    moreover have "last B \<noteq> c" "last B \<noteq> last A" "last B \<noteq> d" "c \<noteq> d" "c \<noteq> ?at" "c \<noteq> List.hd A" 
      using in' dj dist \<open>last B \<in> set B\<close> \<open>?at \<in> set B\<close> by auto
    ultimately show ?thesis by (simp add: nx pv)
  qed
  moreover have "distinct (c # A @ B)" using dist dj by auto
  ultimately show "ring (os_list_splice_init c d m) (c # A @ B)"
    using A sA sB first mid
    by (cases "B = []") (auto simp: ringed_def steps_Cons steps_append)
qed

lemma spelled_splice:
  assumes S: "spelled m hn N L" and h: "h \<noteq> l"
  shows "spelled (os_list_splice_init (hn h) (hn l) m) hn N (L(h := L l @ L h, l := []))"
proof (cases "L l = []")
  case True
  then have "L(h := L l @ L h, l := []) = L" by (simp add: fun_upd_idem)
  then show ?thesis using S True spelled_read(1)[OF S, of l] by (simp add: os_list_splice_init_def)
next
  case False
  note D = spelledD[OF S]
  have dj: "set (hn l # L l) \<inter> set (hn h # L h) = {}" if "h \<noteq> l" for h
    using D(1,2,3,4) that lists_wfD[OF D(3), of _ h l] by (auto dest: injD)
  note P = splice_ring[OF D(5)[of h] D(5)[of l] False dj[OF h]]
  let ?m = "os_list_splice_init (hn h) (hn l) m" and ?L = "L(h := L l @ L h, l := [])"
  have same: "node_next ?m x = node_next m x \<and> node_prev ?m x = node_prev m x"
    if "x \<notin> set (hn l # L l)" "x \<notin> set (hn h # L h)" for x
    using P(3)[of x] that by simp
  have R: "ring ?m (hn g # ?L g)" for g
  proof -
    consider "g = h" | "g = l" | "g \<noteq> h" "g \<noteq> l" by blast
    then show ?thesis
    proof cases
      case 3
      have "ring ?m (hn g # L g)"
      proof (rule ringed_cong[OF same D(5)])
        fix x assume "x \<in> set (hn g # L g)"
        moreover have "set (hn h # L h) \<inter> set (hn g # L g) = {}"
          using D(1,2,3,4) 3 lists_wfD[OF D(3), of _ g h] by (auto dest: injD)
        ultimately show "x \<notin> set (hn l # L l)" "x \<notin> set (hn h # L h)" using dj[OF 3(2)] by auto
      qed
      then show ?thesis using 3 by simp
    qed (use P h in simp_all)
  qed
  have "lists_wf ?L"
    unfolding lists_wf_def
  proof (intro conjI allI impI)
    show "distinct (?L g)" for g using ringed_distinct[OF R[of g]] by simp
    show "set (?L g) \<inter> set (?L g') = {}" if "g \<noteq> g'" for g g'
      using D(3) that h unfolding lists_wf_def by auto
  qed
  moreover have "set (?L g) \<subseteq> N" for g
    using S by (auto simp: spelled_def)
  moreover have "ring ?m [e]" if e: "e \<in> N" "unlinked ?L e" for e
  proof -
    have "unlinked L e"
      unfolding unlinked_def
    proof
      fix g have "e \<notin> set (?L g)" "e \<notin> set (?L h)" using e(2) unfolding unlinked_def by blast+
      then show "e \<notin> set (L g)" using h by (auto split: if_splits)
    qed
    then show ?thesis using D(6)[OF e(1)] same[of e] D(2)[of h] D(2)[of l] e(1) by (auto simp: unlinked_def)
  qed
  ultimately show ?thesis using D(1,2) R by (auto simp: spelled_def)
qed

lemma os_list_del_init_eq: "os_list_del_init e m = os_list_del e m"
  by (cases m) (simp add: os_list_del_init_def os_list_del_def list_del_entry_def list_del_between_def os_list_init_def
      set_next_def set_prev_def Let_def)

lemma list_del_init_entry: "os_list_del e m = os_list_init e (list_del_entry e m)"
  using os_list_del_init_eq by (simp add: os_list_del_init_def)

text \<open>A move relinks the entry without initialising it in between.\<close>

lemma add_over_init:
  assumes "e \<noteq> p" "node_next m p \<noteq> e" "node_prev m p \<noteq> e"
  shows "os_list_add p e (os_list_init e m) = os_list_add p e m" "os_list_add_tail p e (os_list_init e m) = os_list_add_tail p e m"
  using assms
  by (cases m; auto simp: os_list_add_def os_list_add_tail_def os_list_init_def set_next_def set_prev_def Let_def fun_eq_iff)+

lemma spelled_move:
  assumes S: "spelled m hn N L" and e: "e \<in> N"
  shows "spelled (os_list_move (hn h) e m) hn N ((list_del L e)(h := e # removeAll e (L h)))"
    "spelled (os_list_move_tail (hn h) e m) hn N (list_add_tail (list_del L e) h e)"
proof -
  have S1: "spelled (os_list_del e m) hn N (list_del L e)" by (rule spelled_del[OF S e])
  note D = spelledD[OF S1]
  have ne: "e \<notin> set (hn h # list_del L e h)" using e D(2)[of h] by (auto simp: list_del_apply)
  have o1: "e \<noteq> hn h" using ne by auto
  have n: "node_next (os_list_del e m) (hn h) \<noteq> e" "node_prev (os_list_del e m) (hn h) \<noteq> e"
    using ringed_ends(1,2)[OF D(5)[of h]] ne by (cases "list_del L e h"; auto split: if_splits; metis last_in_set list.distinct(1) set_ConsD)+
  then have n': "node_next (list_del_entry e m) (hn h) \<noteq> e" "node_prev (list_del_entry e m) (hn h) \<noteq> e"
    using o1 by (simp_all add: list_del_init_entry os_list_init_def)
  show "spelled (os_list_move (hn h) e m) hn N ((list_del L e)(h := e # removeAll e (L h)))"
    using spelled_add[OF S1 e, of h] add_over_init(1)[OF o1 n']
    by (simp add: os_list_move_def list_del_init_entry list_del_apply)
  show "spelled (os_list_move_tail (hn h) e m) hn N (list_add_tail (list_del L e) h e)"
    using spelled_add_tail[OF S1 e, of h] add_over_init(2)[OF o1 n']
    by (simp add: os_list_move_tail_def list_del_init_entry)
qed

subsection \<open>Property\<close>

text \<open>
  C10. The linked lists of \<^verbatim>\<open>os_list.h\<close> implement the families of lists that the kernel model is
  written with: on links that spell out a family, linking a free node at the tail, at the front or in
  front of the first element that satisfies a test, unlinking a node, moving it, and splicing one list
  into another leave links that spell out the family after the same operation; emptiness, first and
  last element and length, whose loops end, are those of the list.
\<close>

theorem list_ops_refine:
  assumes "spelled m hn N L" "e \<in> N"
  shows "(unlinked L e \<longrightarrow>
      spelled (os_list_add_tail (hn h) e m) hn N (list_add_tail L h e) \<and>
      spelled (os_list_add (hn h) e m) hn N (L(h := e # L h)) \<and>
      spelled (os_list_add_tail (case find P (L h) of None \<Rightarrow> hn h | Some y \<Rightarrow> y) e m) hn N (list_add_before L h P e)) \<and>
    spelled (os_list_del e m) hn N (list_del L e) \<and> spelled (os_list_del_init e m) hn N (list_del L e) \<and>
    spelled (os_list_move_tail (hn h) e m) hn N (list_add_tail (list_del L e) h e) \<and>
    spelled (os_list_move (hn h) e m) hn N ((list_del L e)(h := e # removeAll e (L h))) \<and>
    (l \<noteq> h \<longrightarrow> spelled (os_list_splice_init (hn h) (hn l) m) hn N (L(h := L l @ L h, l := []))) \<and>
    (os_list_empty (hn h) m \<longleftrightarrow> L h = []) \<and>
    os_list_first (hn h) m = (case L h of [] \<Rightarrow> None | x # _ \<Rightarrow> Some x) \<and>
    os_list_tail (hn h) m = Some (if L h = [] then None else Some (last (L h))) \<and>
    os_list_len (hn h) m = Some (of_nat (length (L h)))"
  using spelled_add_tail[OF assms] spelled_add[OF assms] spelled_add_where[OF assms] spelled_del[OF assms]
    spelled_move[OF assms] spelled_splice[OF assms(1), of h l] spelled_read[OF assms(1)]
  by (simp add: os_list_del_init_eq)

text \<open>Two lists with the heads 0 and 1 and the nodes 10 to 13, of which 13 is free.\<close>

definition sample_links :: os_list_nodes where
  "sample_links = os_list_add_tail 1 12 (os_list_add_tail 0 11 (os_list_add_tail 0 10
     \<lparr>node_next = (\<lambda>p. p), node_prev = (\<lambda>p. p)\<rparr>))"

definition sample_family :: "bool \<Rightarrow> node list" where
  "sample_family b = (if b then [12] else [10, 11])"

lemma sample_spelled: "spelled sample_links (\<lambda>b. if b then 1 else 0) {10, 11, 12, 13} sample_family"
proof -
  have w: "lists_wf sample_family" by (auto simp: lists_wf_def sample_family_def)
  have "ring sample_links ((if b then 1 else 0) # sample_family b)" for b
    by (simp add: sample_family_def sample_links_def os_list_add_tail_def Let_def ringed_def steps_Cons)
  moreover have "ring sample_links [e]" if "e \<in> {10, 11, 12, 13}" "unlinked sample_family e" for e
  proof -
    have "e \<notin> set (sample_family False)" "e \<notin> set (sample_family True)" using that(2) unfolding unlinked_def by blast+
    then have "e = 13" using that(1) by (auto simp: sample_family_def)
    then show ?thesis by (simp add: sample_links_def os_list_add_tail_def Let_def)
  qed
  ultimately show ?thesis using w by (auto simp: spelled_def inj_def sample_family_def)
qed

lemma list_ops_refine_witness:
  "spelled (os_list_add_tail 0 13 sample_links) (\<lambda>b. if b then 1 else 0) {10, 11, 12, 13} (list_add_tail sample_family False 13) \<and>
   spelled (os_list_splice_init 0 1 sample_links) (\<lambda>b. if b then 1 else 0) {10, 11, 12, 13}
     (sample_family(False := [12, 10, 11], True := [])) \<and>
   os_list_len 0 sample_links = Some 2"
proof -
  have "unlinked sample_family 13" by (simp add: unlinked_def sample_family_def)
  then show ?thesis
    using list_ops_refine[OF sample_spelled, of 13 False _ True] by (simp add: sample_family_def)
qed

end
