(* ===== verification/Spec2Isabelle.thy ===== *)
theory Spec2Isabelle
  imports Kernel_Time Os_Sem Os_Mutex Os_Mb Os_Mq Os_Mp Os_Event Ring_Buff Ring_Blk_Buff Memory_Run Workqueue_Run Timer_Tickless Os_List
begin

text \<open>
  A verification development for the OneOS kernel of this repository (\<^verbatim>\<open>oneos/kernel\<close> and the
  data structures of \<^verbatim>\<open>oneos/common\<close>), as configured by \<^verbatim>\<open>oneos_config.h\<close> for the STM32F103:
  one Cortex-M3 core, 32 priorities, 100 ticks per second, sorted timer lists.

  \<^bold>\<open>How the program is put together.\<close> A task control block (\<open>os_task\<close>) is ready, blocked
  on the wait list of an object, asleep in a bucket of the tick queue, suspended, or several of
  the last three. The scheduler (\<^verbatim>\<open>os_sched.c\<close>) keeps a list of ready tasks per priority, a
  bitmap of the non-empty lists and the cached first task of the best one; a call that changes
  them leaves the kernel through \<^verbatim>\<open>OS_KERNEL_EXIT_SCHED\<close>, which requests \<^verbatim>\<open>PendSV\<close>, the
  exception that switches. The tick interrupt (\<^verbatim>\<open>os_clock.c\<close>) wakes sleepers, rotates equals
  and calls the hook of the timer module (\<^verbatim>\<open>os_timer.c\<close>). Semaphores, mutexes, mailboxes, message
  queues, events and memory pools block tasks on their wait lists and wake them
  (\<^verbatim>\<open>os_block.c\<close>).

  \<^bold>\<open>How the model is put together.\<close> The kernel is one record \<open>kernel\<close>: the task
  control blocks by number, the lists as a family of lists of tasks indexed by their heads
  (\<open>RQ p\<close> for \<^verbatim>\<open>priority_list_array[p]\<close>, \<open>WQ a\<close> for the wait list at \<open>a\<close>), the
  tick buckets, the bitmap, the cached, current and next task, the pending bit of
  \<^verbatim>\<open>PendSV\<close>, the scheduler lock. Objects are records in a map from addresses, in a state of
  their own (\<open>sem_sys\<close>, \<open>mutex_sys\<close>, ...). Integers have the width of the C
  types and wrap around. An operation returns \<open>OK\<close> with the new state and the C result,
  or a \<open>Fault\<close>: a failed \<^verbatim>\<open>OS_ASSERT\<close>, a null pointer, an index out of range. A call that
  blocks returns \<open>Blocks\<close>; its rest after the context switch is a definition of its own
  (\<open>mutex_lock_resume\<close>, \<open>mb_recv_resume\<close>, ...). Each section between
  \<^verbatim>\<open>OS_KERNEL_ENTER\<close> and \<^verbatim>\<open>OS_KERNEL_EXIT\<close> is atomic, since it runs with interrupts
  masked; calls with several sections (the message queues) are several steps.

  \<^item> \<open>Prelude\<close>, \<open>Kernel_State\<close>: faults, insertion into lists, families of
    lists; constants, task control block and kernel (\<^verbatim>\<open>os_task.h\<close>, \<^verbatim>\<open>os_sched.c\<close>).
  \<^item> \<open>Os_Sched\<close>, \<open>Os_Clock\<close>, \<open>Os_Block\<close>, \<open>Os_Task\<close>, \<open>Os_Timer\<close>,
    \<open>Os_Startup\<close>: the file of the same name under \<^verbatim>\<open>oneos/kernel/source\<close>, function by
    function. The ready queue is shown to equal a scan of all lists (\<open>readyq_sync\<close>).
  \<^item> \<open>Kernel_Inv\<close>: \<open>kinv\<close>, every task sits in exactly the lists its state names;
    \<open>Kernel_Run\<close>: \<open>settled\<close>, the state between two calls, in which the best ready
    task runs, and the contracts \<open>tick_hook\<close> and \<open>kernel_service\<close> from which every
    sequence of calls keeps it.
  \<^item> \<open>Kernel_Wait\<close>, \<open>Wait_Pair\<close>: waiting and waking, shared by the objects;
    \<open>Sample_Kernel\<close>: a concrete kernel for the witnesses.
  \<^item> \<open>Kernel_Time\<close>: deadlines, the tickless idle loop, round robin, milliseconds.
  \<^item> \<open>Timer_Wheel\<close>: the sixteen lists of the timer module as countdowns, with the operations
    on them, the tick and the turn of the timer task; \<open>Timer_Run\<close>: the interface of the
    module over the countdowns, timers on time and the ticks the module loses;
    \<open>Timer_Tickless\<close>: a sleep of the idle loop accounted for at once is that many ticks.
  \<^item> \<open>Os_Sem\<close>, \<open>Os_Mutex\<close>, \<open>Os_Mb\<close>, \<open>Os_Mq\<close>, \<open>Os_Event\<close>,
    \<open>Os_Mp\<close> (\<^verbatim>\<open>os_mem_pool.c\<close>): the inter-task objects, each an interpretation of
    \<open>kernel_service\<close>.
  \<^item> \<open>Os_Workqueue\<close> (\<^verbatim>\<open>os_workqueue.c\<close>): works, their delays on the timer module, the worker
    task as a machine with a program counter; \<open>Workqueue_Run\<close>: nothing is lost, the order,
    delayed works through the timer wheel.
  \<^item> \<open>Os_List\<close> (\<^verbatim>\<open>os_list.h\<close>): the links in memory, and that the operations on them are those
    on the families of lists the kernel model uses.
  \<^item> \<open>Linked\<close>, \<open>Fifo_Ring\<close>: linked lists in memory and bounded queues in arrays;
    \<open>Ring_Buff\<close>, \<open>Ring_Blk_Buff\<close>: \<^verbatim>\<open>oneos/common/source/ring_buff.c\<close> and
    \<^verbatim>\<open>ring_blk_buff.c\<close>.
  \<^item> \<open>Os_Firstfit\<close>: the first-fit heap (\<^verbatim>\<open>os_mem_firstfit.c\<close>), with its chunk headers
    and free list links in the cells of the memory they manage. \<open>Firstfit_Inv\<close>: \<open>heap_ok\<close>,
    the chunks tile the heap and the free ones form the ring of their bucket; free list
    operations, splitting and merging keep it. \<open>Firstfit_Chunks\<close>: release merges all free
    neighbours, allocation finds a chunk that fits. \<open>Firstfit_Mem\<close>: the operations on a
    region. \<open>Firstfit_Store\<close>, \<open>Firstfit_Run\<close>: the heap as its clients see it, a store
    of byte arrays, from the initialisation through any sequence of calls.
  \<^item> \<open>Os_Memory\<close>: heaps made of several regions and the system heap behind \<^verbatim>\<open>os_malloc\<close>
    (\<^verbatim>\<open>os_memory.c\<close>); \<open>Memory_Run\<close>: the regions together are one store, also when
    reallocation moves a block between them.

  \<^bold>\<open>Bounds.\<close> Loops over lists recurse on the list, the tick interrupt's loop on the length of
  its bucket; the drain loop of \<^verbatim>\<open>os_mq_reset\<close> is shown to end. Walks along linked
  memory take the number of cells as fuel, which the invariants show to be enough; those of the
  heap's check and of \<^verbatim>\<open>os_list_len\<close> are partial functions that are shown to return. The timer task's loop runs user
  callbacks that may restart timers and is a partial function, shown to return when the
  callbacks leave the timers alone.

  \<^bold>\<open>Not modelled.\<close> Stacks and registers, console output and the shell commands, the
  interrupt window inside the tick loop, other processors, and everything outside the kernel:
  drivers, vendored components, board start-up. Dynamic allocations are arguments of the calls
  that make them. Initialisation functions and user callbacks are arguments, too. Initialising
  the list nodes of a new task or timer is left out: the calls that are allowed name objects
  that are in no list. A message of a queue is a record at its address, which stands for the
  memory unless the size of a message wraps around 32 bits and the messages overlap
  (\<open>Os_Mq\<close> states when they do). The walk that adds up the rounds of a timer ends for an active
  timer in no list, where the code's would not; the invariant of the wheel excludes such timers.
\<close>

text \<open>
  C3. Start-up: from zeroed memory, with initialisation functions that succeed and leave
  the kernel alone, and a heap that provides the main task, \<^verbatim>\<open>_k_startup\<close> and the first
  context switch succeed; the scheduling invariant holds and the first task of the best
  priority runs.
\<close>

theorem boot_settles:
  assumes "auto_init core (s0, bss_kernel) = ((s1, bss_kernel), OS_EOK)"
    and "t \<notin> {gs_os_timer_task, gs_os_recycle_task, gs_os_idle_task}"
  shows "\<exists>k. boot core (Some st) (Some t) (s0, bss_kernel) = OK (k_timer_init s1, k) \<and>
    settled gs_os_idle_task k \<and> current_task k = best_ready (task_lists k)"
proof -
  obtain k where k: "k_startup core (Some st) (Some t) (s0, bss_kernel) = OK (k_timer_init s1, k_start k)"
    "boot_ok gs_os_idle_task k"
    using k_startup_ok[OF assms] by blast
  obtain k' where "dispatch (k_start k) = OK k'" "settled gs_os_idle_task k'"
    "current_task k' = high_task k" "task_lists k' = task_lists k"
    using first_switch_settled[OF k(2)] by blast
  then show ?thesis using k kinv_high[OF boot_okD(1)[OF k(2)]] by (auto simp: boot_def)
qed

theorem boot_settles_witness:
  "\<exists>k. boot [] (Some 0) (Some 4) (bss_timers, bss_kernel) = OK (k_timer_init bss_timers, k) \<and>
    settled gs_os_idle_task k \<and> current_task k = best_ready (task_lists k)"
  using boot_settles[of "[]" bss_timers bss_timers 4 0] by (simp add: gs_task_defs)

text \<open>
  C1. Scheduling: any sequence of calls of the task module that a settled kernel allows
  either stops in an assertion or leaves a settled kernel, in which, unless the scheduler
  is locked, the first task of the best non-empty priority runs.
\<close>

theorem task_calls_keep_scheduling:
  assumes "settled i k" "calls_allowed (task_service call rt) (task_allowed call i) xs ((), k)"
  shows "run_calls (task_service call rt) xs ((), k) = Fault AssertFail \<or>
    (\<exists>k' rs. run_calls (task_service call rt) xs ((), k) = OK (((), k'), rs) \<and> settled i k' \<and>
       (sched_lock_cnt k' = 0 \<longrightarrow> current_task k' = best_ready (task_lists k')))"
proof -
  have "current_task k' = best_ready (task_lists k')" if "settled i k'" "sched_lock_cnt k' = 0" for k'
    using that kinv_high[OF settledD(3)[OF that(1)]] by (simp add: settled_def krun_def)
  then show ?thesis using task_srv.run_settled[OF assms(1) TrueI assms(2)] by auto
qed

theorem task_calls_keep_scheduling_witness:
  "\<exists>k'. run_calls (task_service (\<lambda>_ _ k. k) 2) [Task_resume 5, Task_tsleep 3, Task_yield] ((), sample) =
      OK (((), k'), [OS_EOK, OS_EOK, OS_EOK]) \<and>
    settled 3 k' \<and> current_task k' = Some 2 \<and> best_ready (task_lists k') = Some 2"
proof -
  let ?run = "run_calls (task_service (\<lambda>_ _ k. k) 2) [Task_resume 5, Task_tsleep 3, Task_yield] ((), sample)"
  have a: "calls_allowed (task_service (\<lambda>_ _ k. k) 2) (task_allowed (\<lambda>_ _ k. k) 3)
      [Task_resume 5, Task_tsleep 3, Task_yield] ((), sample)"
    by (simp add: syscall_def task_service_def as_service_def task_op_def task_allowed_def task_call_defs sample_eval)
  have "\<exists>k'. ?run = OK (((), k'), [OS_EOK, OS_EOK, OS_EOK]) \<and> current_task k' = Some 2 \<and> sched_lock_cnt k' = 0"
    by (simp add: syscall_def task_service_def as_service_def task_op_def task_call_defs sample_eval)
  then show ?thesis using task_calls_keep_scheduling[OF sample_settled a] by auto
qed

text \<open>
  C2. The tick interrupt, with the timer module's hook, keeps the scheduling invariant:
  after it and the switch it may request, the best ready task runs.
\<close>

theorem tick_keeps_scheduling:
  assumes "settled i k"
  shows "\<exists>s' k1 k2. os_tick_increase (k_timer_need_handle tt) s k = OK (s', k1) \<and>
    dispatch k1 = OK k2 \<and> settled i k2 \<and>
    (sched_lock_cnt k2 = 0 \<longrightarrow> current_task k2 = best_ready (task_lists k2))"
proof -
  obtain s' k1 where 1: "os_tick_increase (k_timer_need_handle tt) s k = OK (s', k1)" "krun i k1"
    using timer_tick.tick_settled[OF TrueI assms] by blast
  obtain k2 where 2: "dispatch k1 = OK k2" "settled i k2" using dispatch_ok[OF 1(2)] by blast
  then show ?thesis using 1 kinv_high[OF settledD(3)[OF 2(2)]] by (simp add: settled_def krun_def)
qed

theorem tick_keeps_scheduling_witness:
  "\<exists>s' k1 k2. os_tick_increase (k_timer_need_handle gs_os_timer_task) bss_timers sample = OK (s', k1) \<and>
    dispatch k1 = OK k2 \<and> settled 3 k2 \<and>
    (sched_lock_cnt k2 = 0 \<longrightarrow> current_task k2 = best_ready (task_lists k2))"
  by (rule tick_keeps_scheduling[OF sample_settled])

text \<open>
  C9. The incremental ready queue of \<^verbatim>\<open>os_sched.c\<close> agrees with recomputing it: putting a
  task in, taking it out (while another one is ready) and moving it to the tail update the
  bitmap and the cached highest task to exactly what a scan of all 32 lists yields.
\<close>

theorem readyq_matches_scan:
  assumes "readyq_ok k"
  shows "(unlinked (task_lists k) t \<and> unat (prio k t) < 32 \<longrightarrow>
      k_readyq_put t k = OK (readyq_sync (k\<lparr>task_lists := list_add_tail (task_lists k) (RQ (unat (prio k t))) t\<rparr>))) \<and>
    (in_readyq k t \<and> best_ready (list_del (task_lists k) t) \<noteq> None \<longrightarrow>
      k_readyq_remove t k = OK (readyq_sync (k\<lparr>task_lists := list_del (task_lists k) t\<rparr>))) \<and>
    (in_readyq k t \<longrightarrow> k_readyq_move_tail t k = OK (readyq_sync (k\<lparr>task_lists :=
      list_add_tail (list_del (task_lists k) t) (RQ (unat (prio k t))) t\<rparr>)))"
  using k_readyq_put_refines[OF assms] k_readyq_remove_refines[OF assms] k_readyq_move_tail_refines[OF assms]
  by blast

theorem readyq_matches_scan_witness:
  "k_readyq_put 5 sample = OK (readyq_sync (sample\<lparr>task_lists := list_add_tail sample_lists (RQ 1) 5\<rparr>)) \<and>
   k_readyq_move_tail 1 sample = OK (readyq_sync (sample\<lparr>task_lists :=
     list_add_tail (list_del sample_lists 1) (RQ 2) 1\<rparr>))"
  using readyq_matches_scan[OF kinv_readyq_ok[OF sample_kinv], of 5]
    readyq_matches_scan[OF kinv_readyq_ok[OF sample_kinv], of 1]
  by (simp add: in_readyq_def unlinked_def sample_lists_def sample_tasks_def sample_tcb_def)

text \<open>
  C39. A switch that is already pending is not taken back: in any settled kernel, when an
  interrupt handler resumes a suspended task of a better priority than the running one and the task
  is suspended again before \<^verbatim>\<open>PendSV\<close> runs, \<^verbatim>\<open>os_task_suspend\<close> leaves
  \<^verbatim>\<open>g_os_next_task\<close> alone because the task is not the current one, and the suspended task
  gets the processor although it is in no ready list and the task that was running is the best
  ready one.
\<close>

theorem suspended_task_is_dispatched:
  assumes s: "settled i k" "sched_lock_cnt k = 0" "current_task k = Some c"
    and t: "object_inited (tasks k t) = OS_KOBJ_INITED" "tstate k t = OS_TASK_STATE_SUSPEND" "prio k t < prio k c"
  shows "\<exists>k1 k2 k3. os_task_resume t (k\<lparr>irq_active := True\<rparr>) = OK (k1, OS_EOK) \<and>
     os_task_suspend t k1 = OK (k2, OS_EOK) \<and> dispatch (k2\<lparr>irq_active := irq_active k\<rparr>) = OK k3 \<and>
     current_task k3 = Some t \<and> has_flag (tstate k3 t) OS_TASK_STATE_SUSPEND \<and>
     \<not> in_readyq k3 t \<and> best_ready (task_lists k3) = Some c"
proof -
  note R = resume_requests_switch[OF s t]
  define k1 where "k1 = (readyq_sync (k\<lparr>irq_active := True, tasks := (tasks k)(t := (tasks k t)\<lparr>state := OS_TASK_STATE_READY\<rparr>),
    task_lists := list_add_tail (task_lists k) (RQ (unat (prio k t))) t\<rparr>))\<lparr>next_task := Some t, switch_pending := True\<rparr>"
  define k2 where "k2 = (readyq_sync (k1\<lparr>task_lists := task_lists k\<rparr>))\<lparr>tasks :=
    (tasks k)(t := (tasks k t)\<lparr>state := OS_TASK_STATE_SUSPEND\<rparr>)\<rparr>"
  have "in_readyq k1 t" by (simp add: in_readyq_def k1_def klist_simps)
  then have rem: "k_readyq_remove t k1 = OK (readyq_sync (k1\<lparr>task_lists := task_lists k\<rparr>))"
    using k_readyq_remove_refines[of k1 t] R(2,3,5) by (simp add: k1_def)
  have f: "has_flag OS_TASK_STATE_READY OS_TASK_STATE_READY" "OS_TASK_STATE_READY AND NOT OS_TASK_STATE_READY = 0"
    "has_flag OS_TASK_STATE_READY (OS_TASK_STATE_READY OR OS_TASK_STATE_SLEEP OR OS_TASK_STATE_BLOCK OR OS_TASK_STATE_RUNNING)"
    by (simp_all add: has_flag_def task_state_defs)
  have su: "os_task_suspend t k1 = OK (k2, OS_EOK)"
    using rem t(1) s(2,3) R(6) f
    by (simp add: os_task_suspend_def os_is_schedule_locked_def k1_def k2_def Let_def task_state_upd upd_task_def)
  have d: "dispatch (k2\<lparr>irq_active := irq_active k\<rparr>) =
      OK (set_task_state t OS_TASK_STATE_RUNNING ((clear_task_state c OS_TASK_STATE_RUNNING
            (k2\<lparr>irq_active := irq_active k, switch_pending := False\<rparr>))\<lparr>current_task := Some t\<rparr>))"
    using s(3) by (simp add: dispatch_def PendSV_Handler_def k2_def k1_def Let_def task_state_upd upd_task_def)
  show ?thesis
    using R(1)[folded k1_def] su d R(4-6)
    by (auto simp: k2_def in_readyq_def task_state_upd upd_task_def unlinked_def has_flag_def task_state_defs)
qed

theorem suspended_task_is_dispatched_witness:
  "\<exists>k1 k2 k3. os_task_resume 5 (sample\<lparr>irq_active := True\<rparr>) = OK (k1, OS_EOK) \<and> os_task_suspend 5 k1 = OK (k2, OS_EOK) \<and>
     dispatch (k2\<lparr>irq_active := False\<rparr>) = OK k3 \<and> current_task k3 = Some 5 \<and> \<not> in_readyq k3 5 \<and>
     best_ready (task_lists k3) = Some 1"
proof -
  have "object_inited (tasks sample 5) = OS_KOBJ_INITED" "tstate sample 5 = OS_TASK_STATE_SUSPEND" "prio sample 5 < prio sample 1"
    by (simp_all add: sample_tasks_def sample_tcb_def task_state_defs)
  from suspended_task_is_dispatched[OF sample_settled _ _ this] show ?thesis by auto
qed

end
